(* ===== verification/Prelude.thy ===== *)
theory Prelude
  imports Main "HOL-Library.Word" "HOL-Library.Multiset"
begin

text \<open>
  What the components share: the types of the C integers, the run of an event-labelled
  machine, two locales that lift one-step facts to whole runs (\<open>machine\<close> for
  invariants, \<open>lin_machine\<close> for the refinement of a concurrent queue to the sequential
  FIFO specification), and the collections of facts the component proofs use.
\<close>

section \<open>Machine integers\<close>

type_synonym u16 = "16 word"
type_synonym u32 = "32 word"
type_synonym u64 = "64 word"
type_synonym i32 = "32 word"
type_synonym i64 = "64 word"
type_synonym tid = nat

section \<open>Runs of an event-labelled machine\<close>

text \<open>
  A concurrent component is a function \<open>step e s\<close>: the state after the atomic action
  \<open>e\<close>, or \<open>None\<close> where the action is not enabled in \<open>s\<close>. A run is a list of
  actions; which actions come in which order is the scheduler's choice, so a fact about all
  runs is a fact about all interleavings.
\<close>

fun mrun :: "('e \<Rightarrow> 's \<Rightarrow> 's option) \<Rightarrow> 'e list \<Rightarrow> 's \<Rightarrow> 's option" where
  "mrun step [] s = Some s"
| "mrun step (e # es) s = (case step e s of None \<Rightarrow> None | Some s' \<Rightarrow> mrun step es s')"

lemma mrun_append:
  "mrun step (es @ fs) s = (case mrun step es s of None \<Rightarrow> None | Some s' \<Rightarrow> mrun step fs s')"
  by (induction es arbitrary: s) (auto split: option.splits)

lemma mrun_snoc:
  "mrun step (es @ [e]) s = Some t \<longleftrightarrow> (\<exists>u. mrun step es s = Some u \<and> step e u = Some t)"
  by (auto simp: mrun_append split: option.splits)

lemma mrun_guard: "list_all P es \<Longrightarrow> mrun (\<lambda>e s. if P e then step e s else None) es s = mrun step es s"
  by (induction es arbitrary: s) (auto split: option.splits)

locale machine =
  fixes step :: "'e \<Rightarrow> 's \<Rightarrow> 's option"
    and good :: "'s \<Rightarrow> bool"
  assumes good_step: "good s \<Longrightarrow> step e s = Some t \<Longrightarrow> good t"
begin

lemma good_run: "good s \<Longrightarrow> mrun step es s = Some t \<Longrightarrow> good t"
proof (induction es arbitrary: s)
  case Nil
  then show ?case by simp
next
  case (Cons e es)
  then obtain u where "step e s = Some u" and "mrun step es u = Some t"
    by (auto split: option.splits)
  with Cons show ?case by (blast intro: good_step)
qed

end

section \<open>The sequential FIFO specification\<close>

text \<open>
  The abstract effect of a queue operation: a value put at the back, a value taken from the
  front, or an observation of the empty queue. \<open>fifo_step\<close> is the sequential queue.
\<close>

datatype 'v qact = Put 'v | Got 'v | Empty

fun fifo_step :: "'v qact \<Rightarrow> 'v list \<Rightarrow> 'v list option" where
  "fifo_step (Put v) q = Some (q @ [v])"
| "fifo_step (Got v) q = (case q of [] \<Rightarrow> None | w # ws \<Rightarrow> if w = v then Some ws else None)"
| "fifo_step Empty q = (if q = [] then Some q else None)"

fun puts :: "'v qact list \<Rightarrow> 'v list" where
  "puts [] = []"
| "puts (Put v # as) = v # puts as"
| "puts (_ # as) = puts as"

fun gots :: "'v qact list \<Rightarrow> 'v list" where
  "gots [] = []"
| "gots (Got v # as) = v # gots as"
| "gots (_ # as) = gots as"

text \<open>First in, first out: what was put is what was got followed by what is still there.\<close>

lemma fifo_run_order: "mrun fifo_step as q = Some q' \<Longrightarrow> q @ puts as = gots as @ q'"
proof (induction as arbitrary: q)
  case Nil
  then show ?case by simp
next
  case (Cons a as)
  show ?case
  proof (cases a)
    case (Put v)
    then have "(q @ [v]) @ puts as = gots as @ q'" using Cons by (auto simp del: append_assoc)
    then show ?thesis using Put by simp
  next
    case (Got v)
    then show ?thesis using Cons by (auto split: option.splits list.splits if_splits)
  next
    case Empty
    then have "mrun fifo_step as q = Some q'" using Cons.prems by (simp split: if_splits)
    then have "q @ puts as = gots as @ q'" by (rule Cons.IH)
    then show ?thesis using Empty by simp
  qed
qed

text \<open>
  \<open>lin_machine\<close>: every step of the machine is, on the abstract queue, either nothing or
  the one action \<open>lin e s\<close>. The abstract actions of a run, in the order they take
  effect, are then a run of the sequential queue.
\<close>

locale lin_machine = machine step good
  for step :: "'e \<Rightarrow> 's \<Rightarrow> 's option" and good :: "'s \<Rightarrow> bool" +
  fixes lin :: "'e \<Rightarrow> 's \<Rightarrow> 'v qact option"
    and absq :: "'s \<Rightarrow> 'v list"
  assumes lin_none: "good s \<Longrightarrow> step e s = Some t \<Longrightarrow> lin e s = None \<Longrightarrow> absq t = absq s"
    and lin_some: "good s \<Longrightarrow> step e s = Some t \<Longrightarrow> lin e s = Some a \<Longrightarrow>
      fifo_step a (absq s) = Some (absq t)"
begin

end

fun lin_trace :: "('e \<Rightarrow> 's \<Rightarrow> 's option) \<Rightarrow> ('e \<Rightarrow> 's \<Rightarrow> 'v qact option) \<Rightarrow>
    'e list \<Rightarrow> 's \<Rightarrow> 'v qact list" where
  "lin_trace step lin [] s = []"
| "lin_trace step lin (e # es) s =
     (case step e s of None \<Rightarrow> []
      | Some s' \<Rightarrow> (case lin e s of None \<Rightarrow> [] | Some a \<Rightarrow> [a]) @ lin_trace step lin es s')"

context lin_machine
begin

lemma lin_trace_fifo:
  "good s \<Longrightarrow> mrun step es s = Some t \<Longrightarrow>
    mrun fifo_step (lin_trace step lin es s) (absq s) = Some (absq t)"
proof (induction es arbitrary: s)
  case Nil
  then show ?case by simp
next
  case (Cons e es)
  then obtain u where u: "step e s = Some u" and es: "mrun step es u = Some t"
    by (auto split: option.splits)
  then have IH: "mrun fifo_step (lin_trace step lin es u) (absq u) = Some (absq t)"
    using Cons good_step by blast
  show ?case
  proof (cases "lin e s")
    case None
    then show ?thesis using IH u lin_none [OF Cons.prems(1) u] by simp
  next
    case (Some a)
    then show ?thesis using IH u lin_some [OF Cons.prems(1) u] by simp
  qed
qed

lemma lin_trace_order:
  "good s \<Longrightarrow> mrun step es s = Some t \<Longrightarrow>
    absq s @ puts (lin_trace step lin es s) = gots (lin_trace step lin es s) @ absq t"
  by (rule fifo_run_order) (rule lin_trace_fifo)

end

end
