(* ===== verification/Fifo.thy ===== *)
theory Fifo
  imports Prelude
begin

text \<open>
  The interface every queue of the repository offers its callers, as a locale: a state with an
  invariant and an abstract content, an operation that adds a value and one that removes the oldest
  or reports that there is none. The lemmas proved here hold for every interpretation: any sequence
  of operations answers as the sequential FIFO queue does.
\<close>

datatype 'v qop = PutOp 'v | GetOp

text \<open>The answers of the sequential queue: \<open>None\<close> for a put, \<open>Some r\<close> for a get.\<close>

fun fifo_answers :: "'v qop list \<Rightarrow> 'v list \<Rightarrow> 'v option option list" where
  "fifo_answers [] q = []"
| "fifo_answers (PutOp v # ops) q = None # fifo_answers ops (q @ [v])"
| "fifo_answers (GetOp # ops) q =
     (case q of [] \<Rightarrow> Some None # fifo_answers ops []
      | v # vs \<Rightarrow> Some (Some v) # fifo_answers ops vs)"

fun fifo_content :: "'v qop list \<Rightarrow> 'v list \<Rightarrow> 'v list" where
  "fifo_content [] q = q"
| "fifo_content (PutOp v # ops) q = fifo_content ops (q @ [v])"
| "fifo_content (GetOp # ops) q = fifo_content ops (drop 1 q)"

text \<open>
  The same sequence on an implementation. \<open>put\<close> and \<open>get\<close> return \<open>None\<close> where the
  code would access memory it does not own, or not return; \<open>get\<close> returns \<open>(None, s)\<close>
  for an empty queue.
\<close>

fun impl_run ::
  "('v \<Rightarrow> 's \<Rightarrow> 's option) \<Rightarrow> ('s \<Rightarrow> ('v option \<times> 's) option) \<Rightarrow> 'v qop list \<Rightarrow> 's \<Rightarrow>
     ('v option option list \<times> 's) option" where
  "impl_run put get [] s = Some ([], s)"
| "impl_run put get (PutOp v # ops) s =
     (case put v s of None \<Rightarrow> None
      | Some t \<Rightarrow> map_option (\<lambda>(as, u). (None # as, u)) (impl_run put get ops t))"
| "impl_run put get (GetOp # ops) s =
     (case get s of None \<Rightarrow> None
      | Some (r, t) \<Rightarrow> map_option (\<lambda>(as, u). (Some r # as, u)) (impl_run put get ops t))"

locale fifo =
  fixes inv :: "'s \<Rightarrow> bool"
    and content :: "'s \<Rightarrow> 'v list"
    and put :: "'v \<Rightarrow> 's \<Rightarrow> 's option"
    and get :: "'s \<Rightarrow> ('v option \<times> 's) option"
  assumes put_law: "inv s \<Longrightarrow> \<exists>t. put v s = Some t \<and> inv t \<and> content t = content s @ [v]"
    and get_law: "inv s \<Longrightarrow> content s = v # vs \<Longrightarrow> \<exists>t. get s = Some (Some v, t) \<and> inv t \<and> content t = vs"
    and get_empty_law: "inv s \<Longrightarrow> content s = [] \<Longrightarrow> \<exists>t. get s = Some (None, t) \<and> inv t \<and> content t = []"
begin

lemma impl_run_fifo:
  "inv s \<Longrightarrow> \<exists>t. impl_run put get ops s = Some (fifo_answers ops (content s), t) \<and>
     inv t \<and> content t = fifo_content ops (content s)"
proof (induction ops arbitrary: s)
  case Nil
  then show ?case by simp
next
  case (Cons op ops)
  show ?case
  proof (cases op)
    case (PutOp v)
    obtain t where t: "put v s = Some t" "inv t" "content t = content s @ [v]"
      using put_law [OF Cons.prems] by blast
    then show ?thesis using PutOp Cons.IH [OF t(2)] by auto
  next
    case GetOp
    show ?thesis
    proof (cases "content s")
      case Nil
      obtain t where t: "get s = Some (None, t)" "inv t" "content t = []"
        using get_empty_law [OF Cons.prems Nil] by blast
      then show ?thesis using GetOp Nil Cons.IH [OF t(2)] by auto
    next
      case (Cons v vs)
      obtain t where t: "get s = Some (Some v, t)" "inv t" "content t = vs"
        using get_law [OF Cons.prems Cons] by blast
      then show ?thesis using GetOp Cons Cons.IH [OF t(2)] by auto
    qed
  qed
qed

end

end
