(* ===== verification/BlockingQueue.thy ===== *)
theory BlockingQueue
  imports Fifo
begin

text \<open>
  The linked message queue of \<open>lcrq-server/http-server.c\<close> (\<open>struct message\<close>,
  \<open>struct queue\<close>, the bodies of \<open>queue_put\<close>, \<open>queue_get\<close>, \<open>queue_destroy\<close>
  between lock and unlock), on an explicit heap: an address holds a message or is not allocated.
  An access to an address that is not allocated is the value \<open>None\<close>. How threads interleave
  around these bodies is the theory \<open>Monitor\<close>.
\<close>

record message =
  m_sock :: int
  m_next :: "nat option"

type_synonym mheap = "nat \<Rightarrow> message option"

record queue =
  q_first :: "nat option"
  q_last :: "nat option"
  q_length :: u32
  q_heap :: mheap
  q_brk :: nat

text \<open>
  \<open>q_brk\<close> is the allocator's next fresh address. \<open>queue_init\<close> is the \<open>memset\<close>.
\<close>

definition queue_init :: "mheap \<Rightarrow> nat \<Rightarrow> queue" where
  "queue_init h b = \<lparr>q_first = None, q_last = None, q_length = 0, q_heap = h, q_brk = b\<rparr>"

text \<open>\<open>calloc\<close> and the store of the payload; \<open>None\<close> when there is no memory (\<open>die\<close>).\<close>

definition new_message :: "bool \<Rightarrow> int \<Rightarrow> queue \<Rightarrow> (nat \<times> queue) option" where
  "new_message mem_left sock q =
     (if \<not> mem_left then None
      else Some (q_brk q, q\<lparr>q_heap := (q_heap q)(q_brk q \<mapsto> \<lparr>m_sock = sock, m_next = None\<rparr>),
                          q_brk := Suc (q_brk q)\<rparr>))"

definition queue_append :: "nat \<Rightarrow> queue \<Rightarrow> queue option" where
  "queue_append msg q =
     (case q_last q of
        None \<Rightarrow> Some (q\<lparr>q_last := Some msg, q_first := Some msg\<rparr>)
      | Some l \<Rightarrow>
          (case q_heap q l of
             None \<Rightarrow> None
           | Some m \<Rightarrow> Some (q\<lparr>q_heap := (q_heap q)(l \<mapsto> m\<lparr>m_next := Some msg\<rparr>), q_last := Some msg\<rparr>)))"

definition was_empty :: "queue \<Rightarrow> bool" where
  "was_empty q \<longleftrightarrow> q_length q = 0"

definition length_inc :: "queue \<Rightarrow> queue" where
  "length_inc q = q\<lparr>q_length := q_length q + 1\<rparr>"

definition queue_take :: "queue \<Rightarrow> (int \<times> queue) option" where
  "queue_take q =
     (case q_first q of
        None \<Rightarrow> None
      | Some msg \<Rightarrow>
          (case q_heap q msg of
             None \<Rightarrow> None
           | Some m \<Rightarrow>
               let q1 = q\<lparr>q_first := m_next m, q_length := q_length q - 1\<rparr>;
                   q2 = (if q_first q1 = None then q1\<lparr>q_last := None, q_length := 0\<rparr> else q1) in
               Some (m_sock m, q2\<lparr>q_heap := (q_heap q2)(msg := None)\<rparr>)))"

text \<open>
  The loop of \<open>queue_destroy\<close>, with fuel: each round frees one message. \<open>None\<close> is an
  invalid access or no fuel left.
\<close>

fun free_all :: "nat \<Rightarrow> queue \<Rightarrow> queue option" where
  "free_all 0 q = None"
| "free_all (Suc n) q =
     (case q_first q of
        None \<Rightarrow> Some q
      | Some tmp \<Rightarrow>
          (case q_heap q tmp of
             None \<Rightarrow> None
           | Some m \<Rightarrow> free_all n (q\<lparr>q_first := m_next m, q_heap := (q_heap q)(tmp := None)\<rparr>)))"

definition queue_destroy :: "nat \<Rightarrow> queue \<Rightarrow> queue option" where
  "queue_destroy fuel q = map_option (\<lambda>q'. q'\<lparr>q_last := None, q_length := 0\<rparr>) (free_all fuel q)"

section \<open>Linked lists on the heap\<close>

fun chain :: "mheap \<Rightarrow> nat option \<Rightarrow> nat list \<Rightarrow> bool" where
  "chain h x [] = (x = None)"
| "chain h x (p # ps) = (x = Some p \<and> (\<exists>m. h p = Some m \<and> chain h (m_next m) ps))"

fun walk :: "nat \<Rightarrow> mheap \<Rightarrow> nat option \<Rightarrow> int list" where
  "walk 0 h x = []"
| "walk (Suc n) h None = []"
| "walk (Suc n) h (Some p) = (case h p of None \<Rightarrow> [] | Some m \<Rightarrow> m_sock m # walk n h (m_next m))"

lemma chain_frame [simp]: "a \<notin> set ps \<Longrightarrow> chain (h(a := v)) x ps = chain h x ps"
  by (induction ps arbitrary: x) auto

definition sock_at :: "mheap \<Rightarrow> nat \<Rightarrow> int" where
  "sock_at h p = (case h p of None \<Rightarrow> 0 | Some m \<Rightarrow> m_sock m)"

lemma chain_walk: "chain h x ps \<Longrightarrow> length ps \<le> n \<Longrightarrow> walk n h x = map (sock_at h) ps"
proof (induction ps arbitrary: x n)
  case Nil
  then show ?case by (cases n) auto
next
  case (Cons p ps)
  then obtain k where "n = Suc k" by (cases n) auto
  then show ?case using Cons by (auto simp: sock_at_def)
qed

lemma chain_None [simp]: "chain h None ps \<longleftrightarrow> ps = []"
  by (cases ps) auto

lemma chain_alloc: "chain h x ps \<Longrightarrow> p \<in> set ps \<Longrightarrow> \<exists>m. h p = Some m"
  by (induction ps arbitrary: x) auto

lemma chain_snoc:
  "chain h x ps \<Longrightarrow> ps \<noteq> [] \<Longrightarrow> distinct ps \<Longrightarrow> h (last ps) = Some m \<Longrightarrow> a \<notin> set ps \<Longrightarrow>
    h a = Some n \<Longrightarrow> m_next n = None \<Longrightarrow> chain (h(last ps \<mapsto> m\<lparr>m_next := Some a\<rparr>)) x (ps @ [a])"
proof (induction ps arbitrary: x)
  case Nil
  then show ?case by simp
next
  case (Cons p ps)
  then show ?case by (cases ps) auto
qed

section \<open>The invariant and the abstract queue\<close>

definition queue_rep :: "queue \<Rightarrow> nat list \<Rightarrow> bool" where
  "queue_rep q ps \<longleftrightarrow>
     chain (q_heap q) (q_first q) ps \<and> distinct ps \<and>
     q_last q = (if ps = [] then None else Some (last ps)) \<and>
     q_length q = of_nat (length ps) \<and> (\<forall>p \<in> set ps. p < q_brk q)"

definition queue_inv :: "queue \<Rightarrow> bool" where
  "queue_inv q \<longleftrightarrow> (\<exists>ps. queue_rep q ps)"

definition queue_content :: "queue \<Rightarrow> int list" where
  "queue_content q = walk (q_brk q) (q_heap q) (q_first q)"

lemma distinct_bounded: "distinct ps \<Longrightarrow> (\<forall>p \<in> set ps. p < (b::nat)) \<Longrightarrow> length ps \<le> b"
  by (metis card_mono distinct_card finite_lessThan card_lessThan lessThan_iff subsetI)

lemma queue_rep_content: "queue_rep q ps \<Longrightarrow> queue_content q = map (sock_at (q_heap q)) ps"
  by (auto simp: queue_rep_def queue_content_def intro!: chain_walk distinct_bounded)

lemma queue_rep_first: "queue_rep q ps \<Longrightarrow> q_first q = (case ps of [] \<Rightarrow> None | p # _ \<Rightarrow> Some p)"
  by (auto simp: queue_rep_def split: list.splits)

lemma queue_init_rep: "queue_rep (queue_init h b) []"
  by (simp add: queue_rep_def queue_init_def)

text \<open>A new message is not linked yet: the queue is the same, and the message is there.\<close>

definition pending :: "queue \<Rightarrow> nat list \<Rightarrow> nat \<Rightarrow> int \<Rightarrow> bool" where
  "pending q ps p v \<longleftrightarrow> q_heap q p = Some \<lparr>m_sock = v, m_next = None\<rparr> \<and> p \<notin> set ps \<and> p < q_brk q"

lemma new_message_rep:
  assumes "queue_rep q ps" and "new_message b v q = Some (p, q')"
  shows "queue_rep q' ps" and "pending q' ps p v" and "queue_content q' = queue_content q"
proof -
  have fresh: "q_brk q \<notin> set ps" using assms(1) by (auto simp: queue_rep_def)
  then show rep: "queue_rep q' ps" and "pending q' ps p v"
    using assms by (auto simp: queue_rep_def new_message_def pending_def split: if_splits)
  have "map (sock_at (q_heap q')) ps = map (sock_at (q_heap q)) ps"
    using fresh assms(2) by (auto simp: new_message_def sock_at_def split: if_splits)
  then show "queue_content q' = queue_content q"
    using queue_rep_content [OF rep] queue_rep_content [OF assms(1)] by simp
qed

text \<open>Linking a pending message; the length field is not yet increased (\<open>length_inc\<close> follows).\<close>

lemma queue_append_rep:
  assumes "queue_rep q ps" and "pending q ps p v"
  shows "\<exists>q'. queue_append p q = Some q' \<and> queue_rep (length_inc q') (ps @ [p]) \<and>
    queue_content (length_inc q') = queue_content q @ [v] \<and> q_length q' = q_length q \<and>
    q_brk q' = q_brk q \<and> (\<forall>a. a \<notin> set ps \<longrightarrow> q_heap q' a = q_heap q a)"
proof (cases "ps = []")
  case True
  let ?q = "q\<lparr>q_last := Some p, q_first := Some p\<rparr>"
  have "queue_append p q = Some ?q" using assms True by (simp add: queue_append_def queue_rep_def)
  moreover have rep: "queue_rep (length_inc ?q) (ps @ [p])"
    using assms True by (auto simp: queue_rep_def pending_def length_inc_def)
  moreover have "queue_content (length_inc ?q) = queue_content q @ [v]"
    using queue_rep_content [OF rep] queue_rep_content [OF assms(1)] assms(2) True
    by (simp add: length_inc_def sock_at_def pending_def)
  ultimately show ?thesis by auto
next
  case False
  obtain m where m: "q_heap q (last ps) = Some m"
    using assms(1) False chain_alloc unfolding queue_rep_def by (metis last_in_set)
  let ?q = "q\<lparr>q_heap := (q_heap q)(last ps \<mapsto> m\<lparr>m_next := Some p\<rparr>), q_last := Some p\<rparr>"
  have "queue_append p q = Some ?q"
    using assms False m by (simp add: queue_append_def queue_rep_def)
  moreover have rep: "queue_rep (length_inc ?q) (ps @ [p])"
    using assms False m chain_snoc [of "q_heap q" "q_first q" ps m p "\<lparr>m_sock = v, m_next = None\<rparr>"]
    by (auto simp: queue_rep_def pending_def length_inc_def)
  moreover have "queue_content (length_inc ?q) = queue_content q @ [v]"
    using queue_rep_content [OF rep] queue_rep_content [OF assms(1)] assms(2) m False
    by (auto simp: length_inc_def sock_at_def pending_def)
  ultimately show ?thesis using False by auto
qed

lemma queue_take_rep:
  assumes "queue_rep q (p # ps)"
  shows "\<exists>q'. queue_take q = Some (sock_at (q_heap q) p, q') \<and> queue_rep q' ps \<and>
    queue_content q = sock_at (q_heap q) p # queue_content q' \<and> q_brk q' = q_brk q \<and>
    q_heap q' = (q_heap q)(p := None)"
proof -
  obtain m where m: "q_first q = Some p" "q_heap q p = Some m" "chain (q_heap q) (m_next m) ps"
    using assms by (auto simp: queue_rep_def)
  obtain q' where q': "queue_take q = Some (m_sock m, q')" using m by (auto simp: queue_take_def Let_def)
  have rep: "queue_rep q' ps" and br: "q_brk q' = q_brk q" and hp: "q_heap q' = (q_heap q)(p := None)"
    using assms m q' by (auto simp: queue_rep_def queue_take_def Let_def split: if_splits)
  have "map (sock_at (q_heap q')) ps = map (sock_at (q_heap q)) ps"
    using assms by (auto simp: hp sock_at_def queue_rep_def)
  then show ?thesis
    using rep q' br m hp queue_rep_content [OF rep] queue_rep_content [OF assms]
    by (simp add: sock_at_def)
qed

section \<open>One thread alone: the FIFO interface\<close>

text \<open>
  \<open>queue_put\<close> and one pass of \<open>queue_get\<close> by a single thread, the mutex free.
  Where the queue is empty, \<open>queue_get\<close> goes to sleep: the answer is \<open>None\<close>.
\<close>

definition seq_put :: "int \<Rightarrow> queue \<Rightarrow> queue option" where
  "seq_put sock q =
     (case new_message True sock q of None \<Rightarrow> None
      | Some (msg, q1) \<Rightarrow> map_option length_inc (queue_append msg q1))"

definition seq_get :: "queue \<Rightarrow> (int option \<times> queue) option" where
  "seq_get q =
     (if q_first q = None then Some (None, q)
      else map_option (\<lambda>(sock, q'). (Some sock, q')) (queue_take q))"

interpretation bq: fifo queue_inv queue_content seq_put seq_get
proof
  fix q v
  assume "queue_inv q"
  then obtain ps where rep: "queue_rep q ps" by (auto simp: queue_inv_def)
  obtain p q1 where n: "new_message True v q = Some (p, q1)" by (auto simp: new_message_def)
  from queue_append_rep [OF new_message_rep(1,2) [OF rep n]] new_message_rep(3) [OF rep n] n
  show "\<exists>t. seq_put v q = Some t \<and> queue_inv t \<and> queue_content t = queue_content q @ [v]"
    unfolding queue_inv_def by (force simp: seq_put_def)
next
  fix q v vs
  assume "queue_inv q" and c: "queue_content q = v # vs"
  then obtain ps where rep: "queue_rep q ps" by (auto simp: queue_inv_def)
  with c obtain p ps' where ps: "ps = p # ps'" using queue_rep_content by (cases ps) force+
  with queue_take_rep [of q p ps'] rep c queue_rep_first [OF rep]
  show "\<exists>t. seq_get q = Some (Some v, t) \<and> queue_inv t \<and> queue_content t = vs"
    unfolding queue_inv_def by (force simp: seq_get_def)
next
  fix q
  assume inv: "queue_inv q" and c: "queue_content q = []"
  then obtain ps where rep: "queue_rep q ps" by (auto simp: queue_inv_def)
  with c have "ps = []" using queue_rep_content by force
  then show "\<exists>t. seq_get q = Some (None, t) \<and> queue_inv t \<and> queue_content t = []"
    using inv c queue_rep_first [OF rep] by (simp add: seq_get_def)
qed

section \<open>queue_destroy\<close>

lemma free_all_chain:
  "chain (q_heap q) (q_first q) ps \<Longrightarrow> distinct ps \<Longrightarrow> length ps < n \<Longrightarrow>
     free_all n q = Some (q\<lparr>q_first := None, q_heap := (q_heap q) |` (- set ps)\<rparr>)"
proof (induction ps arbitrary: q n)
  case Nil
  then obtain k where "n = Suc k" by (cases n) auto
  then show ?case using Nil by simp
next
  case (Cons p ps)
  obtain k where k: "n = Suc k" using Cons.prems by (cases n) auto
  obtain m where m: "q_first q = Some p" "q_heap q p = Some m" "chain (q_heap q) (m_next m) ps"
    using Cons.prems by auto
  let ?q = "q\<lparr>q_first := m_next m, q_heap := (q_heap q)(p := None)\<rparr>"
  have "free_all k ?q = Some (?q\<lparr>q_first := None, q_heap := (q_heap ?q) |` (- set ps)\<rparr>)"
    using Cons.prems m k by (intro Cons.IH) (auto simp del: fun_upd_apply)
  moreover have "((q_heap q)(p := None)) |` (- set ps) = (q_heap q) |` (- set (p # ps))"
    by (auto simp: restrict_map_def fun_eq_iff)
  ultimately show ?case using m k by simp
qed

text \<open>
  \<open>queue_destroy\<close> on a well-formed queue ends, touches no address that is not allocated,
  frees exactly the messages of the queue and leaves it empty.
\<close>

lemma queue_destroy_frees:
  assumes "queue_rep q ps" and "length ps < fuel"
  shows "\<exists>q'. queue_destroy fuel q = Some q' \<and> q_heap q' = (q_heap q) |` (- set ps) \<and>
    q_first q' = None \<and> q_last q' = None \<and> q_length q' = 0"
  using free_all_chain [of q ps fuel] assms by (simp add: queue_destroy_def queue_rep_def)

definition demo_queue :: queue where
  "demo_queue = \<lparr>q_first = Some 0, q_last = Some 1, q_length = 2,
     q_heap = [0 \<mapsto> \<lparr>m_sock = 7, m_next = Some 1\<rparr>, 1 \<mapsto> \<lparr>m_sock = 9, m_next = None\<rparr>], q_brk = 2\<rparr>"

lemma queue_destroy_frees_witness:
  "\<exists>q'. queue_destroy 3 demo_queue = Some q' \<and> q_heap q' = (q_heap demo_queue) |` (- set [0, 1]) \<and>
    q_first q' = None \<and> q_last q' = None \<and> q_length q' = 0"
  by (rule queue_destroy_frees) (auto simp: demo_queue_def queue_rep_def)

text \<open>
  Used by one thread, the linked queue is the FIFO queue: any sequence of puts and gets on a
  new queue makes no invalid access and gives the answers and the content of the sequential
  specification.
\<close>

lemma http_queue_is_fifo:
  "\<exists>q. impl_run seq_put seq_get ops (queue_init h b) = Some (fifo_answers ops [], q) \<and>
     queue_inv q \<and> queue_content q = fifo_content ops []"
proof -
  have "queue_inv (queue_init h b)" using queue_init_rep by (auto simp: queue_inv_def)
  moreover have "queue_content (queue_init h b) = []"
    using queue_rep_content [OF queue_init_rep] by simp
  ultimately show ?thesis using bq.impl_run_fifo [of "queue_init h b" ops] by simp
qed

end
