(* ===== verification/Monitor.thy ===== *)
theory Monitor
  imports BlockingQueue
begin

text \<open>
  The concurrent behaviour of \<open>queue_put\<close> and \<open>queue_get\<close> in
  \<open>lcrq-server/http-server.c\<close>: any number of threads, one mutex, one condition variable. A
  step is one thread passing one program point; between lock and unlock the points are separate
  steps, so that the mutex is what keeps them apart, not the model. \<open>pthread_cond_wait\<close> gives
  the mutex back and sleeps in one step, and a sleeper may also wake without a signal.
\<close>

datatype mpc =
    Idle
  | PutLock nat int      \<comment> \<open>before \<open>pthread_mutex_lock\<close>: \<open>msg\<close> is built, and \<open>sock\<close>\<close>
  | PutAppend nat int    \<comment> \<open>the message is linked in\<close>
  | PutWake          \<comment> \<open>\<open>if (q->length == 0) pthread_cond_broadcast\<close>\<close>
  | PutInc           \<comment> \<open>\<open>q->length++\<close>\<close>
  | PutUnlock
  | GetLock
  | GetTest          \<comment> \<open>\<open>while (q->first == NULL)\<close>\<close>
  | GetSleep         \<comment> \<open>asleep in \<open>pthread_cond_wait\<close>\<close>
  | FutexUnlock      \<comment> \<open>\<open>http-server-futex.c\<close> only: before \<open>pthread_mutex_unlock\<close>\<close>
  | FutexRead        \<comment> \<open>\<open>wait\<close>: \<open>int old_val = *addr\<close>\<close>
  | FutexCall int    \<comment> \<open>\<open>wait\<close>: the system call, with \<open>old_val\<close>\<close>
  | GetRelock        \<comment> \<open>awake in \<open>pthread_cond_wait\<close>, waiting for the mutex\<close>
  | GetTake
  | GetUnlock int    \<comment> \<open>before \<open>pthread_mutex_unlock\<close> and \<open>return sock\<close>\<close>

datatype status = Running | Exited | Faulted

record mon =
  m_queue :: queue
  m_owner :: "tid option"
  m_pc :: "tid \<Rightarrow> mpc"
  m_status :: status

datatype mev =
    CallPut tid int bool   \<comment> \<open>\<open>queue_put(q, sock)\<close>; the flag: \<open>calloc\<close> has memory\<close>
  | CallGet tid
  | Run tid
  | Spurious tid

definition set_pc :: "tid \<Rightarrow> mpc \<Rightarrow> 'a mon_scheme \<Rightarrow> 'a mon_scheme" where
  "set_pc t p s = s\<lparr>m_pc := (m_pc s)(t := p)\<rparr>"

definition lock_mutex :: "tid \<Rightarrow> mpc \<Rightarrow> 'a mon_scheme \<Rightarrow> 'a mon_scheme option" where
  "lock_mutex t p s = (if m_owner s = None then Some (set_pc t p (s\<lparr>m_owner := Some t\<rparr>)) else None)"

definition unlock_mutex :: "tid \<Rightarrow> mpc \<Rightarrow> 'a mon_scheme \<Rightarrow> 'a mon_scheme" where
  "unlock_mutex t p s = set_pc t p (s\<lparr>m_owner := None\<rparr>)"

definition cond_broadcast :: "'a mon_scheme \<Rightarrow> 'a mon_scheme" where
  "cond_broadcast s = s\<lparr>m_pc := (\<lambda>u. if m_pc s u = GetSleep then GetRelock else m_pc s u)\<rparr>"

definition call_put :: "tid \<Rightarrow> int \<Rightarrow> bool \<Rightarrow> 'a mon_scheme \<Rightarrow> 'a mon_scheme" where
  "call_put t sock mem_left s =
     (case new_message mem_left sock (m_queue s) of
        None \<Rightarrow> s\<lparr>m_status := Exited\<rparr>
      | Some (msg, q) \<Rightarrow> set_pc t (PutLock msg sock) (s\<lparr>m_queue := q\<rparr>))"

fun run_pc :: "mpc \<Rightarrow> tid \<Rightarrow> 'a mon_scheme \<Rightarrow> 'a mon_scheme option" where
  "run_pc Idle t s = None"
| "run_pc (PutLock msg sock) t s = lock_mutex t (PutAppend msg sock) s"
| "run_pc (PutAppend msg sock) t s =
     (case queue_append msg (m_queue s) of
        None \<Rightarrow> Some (s\<lparr>m_status := Faulted\<rparr>)
      | Some q \<Rightarrow> Some (set_pc t PutWake (s\<lparr>m_queue := q\<rparr>)))"
| "run_pc PutWake t s =
     Some (set_pc t PutInc (if was_empty (m_queue s) then cond_broadcast s else s))"
| "run_pc PutInc t s = Some (set_pc t PutUnlock (s\<lparr>m_queue := length_inc (m_queue s)\<rparr>))"
| "run_pc PutUnlock t s = Some (unlock_mutex t Idle s)"
| "run_pc GetLock t s = lock_mutex t GetTest s"
| "run_pc GetTest t s =
     Some (if q_first (m_queue s) = None then unlock_mutex t GetSleep s else set_pc t GetTake s)"
| "run_pc GetSleep t s = None"
| "run_pc FutexUnlock t s = None"
| "run_pc FutexRead t s = None"
| "run_pc (FutexCall old_val) t s = None"
| "run_pc GetRelock t s = lock_mutex t GetTest s"
| "run_pc GetTake t s =
     (case queue_take (m_queue s) of
        None \<Rightarrow> Some (s\<lparr>m_status := Faulted\<rparr>)
      | Some (sock, q) \<Rightarrow> Some (set_pc t (GetUnlock sock) (s\<lparr>m_queue := q\<rparr>)))"
| "run_pc (GetUnlock sock) t s = Some (unlock_mutex t Idle s)"

fun mstep :: "mev \<Rightarrow> 'a mon_scheme \<Rightarrow> 'a mon_scheme option" where
  "mstep (CallPut t sock mem_left) s =
     (if m_status s = Running \<and> m_pc s t = Idle then Some (call_put t sock mem_left s) else None)"
| "mstep (CallGet t) s =
     (if m_status s = Running \<and> m_pc s t = Idle then Some (set_pc t GetLock s) else None)"
| "mstep (Run t) s = (if m_status s = Running then run_pc (m_pc s t) t s else None)"
| "mstep (Spurious t) s =
     (if m_status s = Running \<and> m_pc s t = GetSleep then Some (set_pc t GetRelock s) else None)"

definition mon_init :: mon where
  "mon_init = \<lparr>m_queue = queue_init (\<lambda>a. None) 0, m_owner = None, m_pc = (\<lambda>t. Idle), m_status = Running\<rparr>"

text \<open>
  Where the operations take effect: the put when the message is linked, the get when it is
  taken off.
\<close>

fun mlin :: "mev \<Rightarrow> 'a mon_scheme \<Rightarrow> int qact option" where
  "mlin (Run t) s =
     (case m_pc s t of
        PutAppend msg sock \<Rightarrow> Some (Put sock)
      | GetTake \<Rightarrow> map_option (\<lambda>(sock, q). Got sock) (queue_take (m_queue s))
      | _ \<Rightarrow> None)"
| "mlin _ s = None"

section \<open>The invariant\<close>

fun in_cs :: "mpc \<Rightarrow> bool" where
  "in_cs (PutAppend _ _) = True"
| "in_cs PutWake = True"
| "in_cs PutInc = True"
| "in_cs PutUnlock = True"
| "in_cs GetTest = True"
| "in_cs GetTake = True"
| "in_cs (GetUnlock _) = True"
| "in_cs FutexUnlock = True"
| "in_cs _ = False"

fun building :: "mpc \<Rightarrow> (nat \<times> int) option" where
  "building (PutLock msg sock) = Some (msg, sock)"
| "building (PutAppend msg sock) = Some (msg, sock)"
| "building _ = None"

definition uncounted :: "'a mon_scheme \<Rightarrow> bool" where
  "uncounted s = (case m_owner s of None \<Rightarrow> False | Some t \<Rightarrow> m_pc s t = PutWake \<or> m_pc s t = PutInc)"

definition owner_ok :: "'a mon_scheme \<Rightarrow> bool" where
  "owner_ok s \<longleftrightarrow> (\<forall>t. in_cs (m_pc s t) \<longleftrightarrow> m_owner s = Some t)"

definition build_ok :: "'a mon_scheme \<Rightarrow> nat list \<Rightarrow> bool" where
  "build_ok s ps \<longleftrightarrow>
     (\<forall>t msg v. building (m_pc s t) = Some (msg, v) \<longrightarrow> pending (m_queue s) ps msg v) \<and>
     (\<forall>t u msg v w. building (m_pc s t) = Some (msg, v) \<longrightarrow> building (m_pc s u) = Some (msg, w) \<longrightarrow> t = u)"

definition take_ok :: "'a mon_scheme \<Rightarrow> nat list \<Rightarrow> bool" where
  "take_ok s ps \<longleftrightarrow> (\<forall>t. m_pc s t = GetTake \<longrightarrow> ps \<noteq> [])"

definition sleep_ok :: "'a mon_scheme \<Rightarrow> nat list \<Rightarrow> bool" where
  "sleep_ok s ps \<longleftrightarrow>
     (\<forall>t. m_pc s t = GetSleep \<longrightarrow> ps = [] \<or> (\<exists>u. m_pc s u = PutWake \<and> was_empty (m_queue s)))"

definition counted_queue :: "'a mon_scheme \<Rightarrow> queue" where
  "counted_queue s = (if uncounted s then length_inc (m_queue s) else m_queue s)"

text \<open>
  \<open>mon_inv True\<close> is the invariant of \<open>http-server.c\<close>; \<open>mon_inv False\<close>, without
  the clause on sleepers, is what \<open>http-server-futex.c\<close> keeps as well.
\<close>

definition mon_inv :: "bool \<Rightarrow> 'a mon_scheme \<Rightarrow> nat list \<Rightarrow> bool" where
  "mon_inv b s ps \<longleftrightarrow>
     m_status s \<noteq> Faulted \<and> owner_ok s \<and> queue_rep (counted_queue s) ps \<and>
     (uncounted s \<longrightarrow> ps \<noteq> []) \<and> build_ok s ps \<and> take_ok s ps \<and> (b \<longrightarrow> sleep_ok s ps)"

definition mon_good :: "bool \<Rightarrow> 'a mon_scheme \<Rightarrow> bool" where
  "mon_good b s \<longleftrightarrow> (\<exists>ps. mon_inv b s ps)"

definition mon_content :: "'a mon_scheme \<Rightarrow> int list" where
  "mon_content s = queue_content (m_queue s)"

section \<open>Every step keeps the invariant\<close>

lemma length_inc_simps [simp]:
  "q_first (length_inc q) = q_first q" "q_last (length_inc q) = q_last q"
  "q_heap (length_inc q) = q_heap q" "q_brk (length_inc q) = q_brk q"
  "q_length (length_inc q) = q_length q + 1" "queue_content (length_inc q) = queue_content q"
  "pending (length_inc q) ps p v = pending q ps p v"
  by (simp_all add: length_inc_def queue_content_def pending_def)

lemma set_pc_simps [simp]:
  "m_queue (set_pc t p s) = m_queue s" "m_owner (set_pc t p s) = m_owner s"
  "m_status (set_pc t p s) = m_status s" "m_pc (set_pc t p s) = (m_pc s)(t := p)"
  by (simp_all add: set_pc_def)

lemma owner_unique: "owner_ok s \<Longrightarrow> in_cs (m_pc s t) \<Longrightarrow> in_cs (m_pc s u) \<Longrightarrow> t = u"
  by (auto simp: owner_ok_def)

lemma uncounted_iff: "owner_ok s \<Longrightarrow> uncounted s \<longleftrightarrow> (\<exists>t. m_pc s t = PutWake \<or> m_pc s t = PutInc)"
  by (auto simp: owner_ok_def uncounted_def split: option.splits) (metis in_cs.simps(2,3) option.inject)+

lemma lock_ok:
  "owner_ok s \<Longrightarrow> lock_mutex t p s = Some s' \<Longrightarrow> in_cs p \<Longrightarrow>
     owner_ok s' \<and> (\<forall>u. \<not> in_cs (m_pc s u)) \<and> s' = set_pc t p (s\<lparr>m_owner := Some t\<rparr>)"
  by (auto simp: lock_mutex_def owner_ok_def split: if_splits)

lemma unlock_ok: "owner_ok s \<Longrightarrow> in_cs (m_pc s t) \<Longrightarrow> \<not> in_cs p \<Longrightarrow> owner_ok (unlock_mutex t p s)"
  by (auto simp: unlock_mutex_def owner_ok_def)

lemma move_ok:
  "owner_ok s \<Longrightarrow> in_cs (m_pc s t) = in_cs p \<Longrightarrow> m_owner s' = m_owner s \<Longrightarrow>
     m_pc s' = (m_pc s)(t := p) \<Longrightarrow> owner_ok s'"
  by (simp add: owner_ok_def)

lemma build_okD: "build_ok s ps \<Longrightarrow> building (m_pc s t) = Some (msg, v) \<Longrightarrow> pending (m_queue s) ps msg v"
  unfolding build_ok_def by (elim conjE) simp

lemma build_ok_unique:
  "build_ok s ps \<Longrightarrow> building (m_pc s t) = Some (msg, v) \<Longrightarrow> building (m_pc s u) = Some (msg, w) \<Longrightarrow> t = u"
  unfolding build_ok_def by (elim conjE) metis

text \<open>The parts of the invariant when only the program counter of one thread moves.\<close>

lemma build_move:
  "build_ok s ps \<Longrightarrow> m_queue s' = m_queue s \<Longrightarrow> m_pc s' = (m_pc s)(t := p) \<Longrightarrow>
     building p = None \<or> building p = building (m_pc s t) \<Longrightarrow> build_ok s' ps"
  unfolding build_ok_def by (metis fun_upd_apply option.distinct(1))

lemma take_move:
  "take_ok s ps \<Longrightarrow> m_pc s' = (m_pc s)(t := p) \<Longrightarrow> (p = GetTake \<Longrightarrow> ps \<noteq> []) \<Longrightarrow> take_ok s' ps"
  by (auto simp: take_ok_def)

lemma sleep_move:
  "sleep_ok s ps \<Longrightarrow> m_queue s' = m_queue s \<Longrightarrow> m_pc s' = (m_pc s)(t := p) \<Longrightarrow>
     (p = GetSleep \<Longrightarrow> ps = []) \<Longrightarrow> m_pc s t \<noteq> PutWake \<Longrightarrow> sleep_ok s' ps"
  unfolding sleep_ok_def by (metis fun_upd_apply)

lemma uncounted_other:
  "owner_ok s \<Longrightarrow> in_cs (m_pc s t) \<Longrightarrow> m_pc s t \<noteq> PutWake \<Longrightarrow> m_pc s t \<noteq> PutInc \<Longrightarrow> \<not> uncounted s"
  by (auto simp: uncounted_def owner_ok_def split: option.splits)

lemma mon_rep_lock:
  assumes rep: "mon_inv b s ps" and l: "lock_mutex t p s = Some s'"
    and p: "in_cs p" "p \<noteq> PutWake" "p \<noteq> PutInc" "p \<noteq> GetTake"
    and b: "building p = None \<or> building p = building (m_pc s t)"
  shows "mon_inv b s' ps"
proof -
  have ow: "owner_ok s" using rep by (simp add: mon_inv_def)
  note L = lock_ok [OF ow l p(1)]
  have free: "\<not> in_cs (m_pc s u)" for u using L by simp
  then have "m_pc s t \<noteq> PutWake" using in_cs.simps(2) by metis
  have pc: "m_pc s' = (m_pc s)(t := p)" and q: "m_queue s' = m_queue s" and st: "m_status s' = m_status s"
    using L by auto
  have "\<not> uncounted s" using uncounted_iff [OF ow] free by (metis in_cs.simps(2,3))
  moreover have ow': "owner_ok s'" using L by blast
  then have "\<not> uncounted s'" using uncounted_other [OF ow', of t] p pc by simp
  moreover have "build_ok s' ps" using rep b by (intro build_move [of s ps s' t p] q pc) (auto simp: mon_inv_def)
  moreover have "take_ok s' ps" using rep p by (intro take_move [of s ps s' t p] pc) (auto simp: mon_inv_def)
  moreover have "sleep_ok s' ps" if b using rep p \<open>m_pc s t \<noteq> PutWake\<close> that
    by (intro sleep_move [of s ps s' t p] q pc) (auto simp: mon_inv_def)
  ultimately show ?thesis using rep ow' q st by (simp add: mon_inv_def counted_queue_def)
qed

lemma mon_rep_unlock:
  assumes rep: "mon_inv b s ps" and c: "in_cs (m_pc s t)" "m_pc s t \<noteq> PutWake" "m_pc s t \<noteq> PutInc"
    and p: "\<not> in_cs p" "building p = None" "b \<Longrightarrow> p = GetSleep \<Longrightarrow> ps = []"
  shows "mon_inv b (unlock_mutex t p s) ps"
proof -
  let ?s = "unlock_mutex t p s"
  have ow: "owner_ok s" using rep by (simp add: mon_inv_def)
  have pc: "m_pc ?s = (m_pc s)(t := p)" and q: "m_queue ?s = m_queue s" by (simp_all add: unlock_mutex_def)
  have "\<not> uncounted s" by (rule uncounted_other [OF ow c])
  moreover have "\<not> uncounted ?s" by (simp add: unlock_mutex_def uncounted_def)
  moreover have "build_ok ?s ps" using rep p by (intro build_move [of s ps ?s t p] q pc) (auto simp: mon_inv_def)
  moreover have "take_ok ?s ps" using rep p by (intro take_move [of s ps ?s t p] pc) (auto simp: mon_inv_def)
  moreover have "sleep_ok ?s ps" if b using rep p c that by (intro sleep_move [of s ps ?s t p] q pc) (auto simp: mon_inv_def)
  moreover have "owner_ok ?s" by (rule unlock_ok [OF ow c(1) p(1)])
  ultimately show ?thesis using rep by (simp add: mon_inv_def counted_queue_def unlock_mutex_def)
qed

lemma mon_rep_inside:
  assumes rep: "mon_inv b s ps" and c: "in_cs (m_pc s t) = in_cs p" "m_pc s t \<noteq> PutWake" "m_pc s t \<noteq> PutInc"
    and p: "p \<noteq> PutWake" "p \<noteq> PutInc" "building p = None" "b \<Longrightarrow> p = GetSleep \<Longrightarrow> ps = []" "p = GetTake \<Longrightarrow> ps \<noteq> []"
  shows "mon_inv b (set_pc t p s) ps"
proof -
  let ?s = "set_pc t p s"
  have ow: "owner_ok s" using rep by (simp add: mon_inv_def)
  have pc: "m_pc ?s = (m_pc s)(t := p)" and q: "m_queue ?s = m_queue s" by simp_all
  have ow': "owner_ok ?s" by (rule move_ok [OF ow c(1)]) simp_all
  have unc: "uncounted ?s = uncounted s"
    unfolding uncounted_iff [OF ow] uncounted_iff [OF ow'] pc
    using c p by (metis fun_upd_other fun_upd_same)
  then have "counted_queue ?s = counted_queue s" by (simp add: counted_queue_def)
  moreover have "build_ok ?s ps" using rep p by (intro build_move [of s ps ?s t p] q pc) (auto simp: mon_inv_def)
  moreover have "take_ok ?s ps" using rep p by (intro take_move [of s ps ?s t p] pc) (auto simp: mon_inv_def)
  moreover have "sleep_ok ?s ps" if b using rep p c that by (intro sleep_move [of s ps ?s t p] q pc) (auto simp: mon_inv_def)
  ultimately show ?thesis using rep ow' unc by (simp add: mon_inv_def)
qed

lemma mon_rep_append:
  assumes rep: "mon_inv b s ps" and pc: "m_pc s t = PutAppend msg v"
  shows "\<exists>q. queue_append msg (m_queue s) = Some q \<and>
     mon_inv b (set_pc t PutWake (s\<lparr>m_queue := q\<rparr>)) (ps @ [msg]) \<and>
     queue_content q = queue_content (m_queue s) @ [v]"
proof -
  have ow: "owner_ok s" and bo: "build_ok s ps" and tk: "take_ok s ps" and sl: "b \<Longrightarrow> sleep_ok s ps"
    using rep by (simp_all add: mon_inv_def)
  have nu: "\<not> uncounted s" using uncounted_other [OF ow, of t] pc by simp
  then have q: "queue_rep (m_queue s) ps" using rep by (simp add: mon_inv_def counted_queue_def)
  have v: "pending (m_queue s) ps msg v" using build_okD [OF bo, of t msg v] pc by simp
  from queue_append_rep [OF q v] obtain q' where
    q': "queue_append msg (m_queue s) = Some q'" "queue_rep (length_inc q') (ps @ [msg])"
      "queue_content q' = queue_content (m_queue s) @ [v]" "q_length q' = q_length (m_queue s)"
      "q_brk q' = q_brk (m_queue s)" "\<forall>a. a \<notin> set ps \<longrightarrow> q_heap q' a = q_heap (m_queue s) a"
    by auto
  let ?s = "set_pc t PutWake (s\<lparr>m_queue := q'\<rparr>)"
  have ow': "owner_ok ?s" by (rule move_ok [OF ow, of t PutWake]) (simp_all add: pc)
  then have "uncounted ?s" unfolding uncounted_iff [OF ow'] by (intro exI [of _ t]) simp
  moreover have "build_ok ?s (ps @ [msg])"
    unfolding build_ok_def
  proof (intro conjI allI impI)
    fix u m w assume b: "building (m_pc ?s u) = Some (m, w)"
    then have "u \<noteq> t" and bu: "building (m_pc s u) = Some (m, w)" by (auto split: if_splits)
    then have "m \<noteq> msg" using build_ok_unique [OF bo bu, of t] pc by auto
    moreover have "pending (m_queue s) ps m w" by (rule build_okD [OF bo bu])
    ultimately show "pending (m_queue ?s) (ps @ [msg]) m w" using q' by (auto simp: pending_def)
  next
    fix u u' m w w' assume "building (m_pc ?s u) = Some (m, w)" "building (m_pc ?s u') = Some (m, w')"
    then have "building (m_pc s u) = Some (m, w)" "building (m_pc s u') = Some (m, w')" by (auto split: if_splits)
    then show "u = u'" by (rule build_ok_unique [OF bo])
  qed
  moreover have "was_empty q'" if "ps = []"
    using q q'(4) that by (simp add: was_empty_def queue_rep_def)
  moreover have nw: "m_pc s u \<noteq> PutWake" for u
    using owner_unique [OF ow, of u t] pc by auto
  then have "ps = []" if "m_pc s u = GetSleep" b for u
    using sl that by (auto simp: sleep_ok_def)
  ultimately have "mon_inv b ?s (ps @ [msg])"
    using rep ow' q'(2) unfolding mon_inv_def
    by (auto simp: take_ok_def sleep_ok_def counted_queue_def)
  then show ?thesis using q' by simp
qed

text \<open>While a thread has work to do on a non-empty queue inside the lock, nobody sleeps.\<close>

lemma no_sleeper:
  assumes rep: "mon_inv True s ps" and "ps \<noteq> []" and "in_cs (m_pc s t)"
    and "m_pc s t = PutWake \<Longrightarrow> \<not> was_empty (m_queue s)"
  shows "m_pc s u \<noteq> GetSleep"
proof
  assume "m_pc s u = GetSleep"
  then obtain v where v: "m_pc s v = PutWake" "was_empty (m_queue s)"
    using rep assms(2) by (auto simp: mon_inv_def sleep_ok_def)
  then have "v = t" using rep assms(3) owner_unique [of s v t] by (simp add: mon_inv_def)
  then show False using v assms(4) by simp
qed

lemma mon_rep_wake:
  assumes rep: "mon_inv b s ps" and pc: "m_pc s t = PutWake"
  shows "mon_inv b (set_pc t PutInc (if was_empty (m_queue s) then cond_broadcast s else s)) ps"
proof -
  let ?b = "if was_empty (m_queue s) then cond_broadcast s else s"
  let ?s = "set_pc t PutInc ?b"
  have ow: "owner_ok s" and bo: "build_ok s ps" using rep by (simp_all add: mon_inv_def)
  have unc: "uncounted s" unfolding uncounted_iff [OF ow] using pc by blast
  then have ne: "ps \<noteq> []" using rep by (simp add: mon_inv_def)
  have same: "m_queue ?b = m_queue s" "m_owner ?b = m_owner s" "m_status ?b = m_status s"
    by (simp_all add: cond_broadcast_def)
  have cs: "in_cs (m_pc ?b u) = in_cs (m_pc s u)" "building (m_pc ?b u) = building (m_pc s u)"
    "m_pc ?b u = GetTake \<longleftrightarrow> m_pc s u = GetTake" for u
    by (simp_all add: cond_broadcast_def)
  have owb: "owner_ok ?b" using ow cs same by (simp add: owner_ok_def)
  have pcb: "m_pc ?b t = PutWake" using pc by (simp add: cond_broadcast_def)
  have ow': "owner_ok ?s" by (rule move_ok [OF owb, of t PutInc]) (simp_all add: pcb)
  have "uncounted ?s" unfolding uncounted_iff [OF ow'] by (intro exI [of _ t]) simp
  then have "counted_queue ?s = counted_queue s" using unc same by (simp add: counted_queue_def)
  moreover have "build_ok ?s ps"
  proof -
    have "build_ok ?b ps" using bo cs same by (simp add: build_ok_def)
    then show ?thesis by (rule build_move [where t = t and p = PutInc]) simp_all
  qed
  moreover have "take_ok ?s ps" using ne by (simp add: take_ok_def)
  moreover have "m_pc ?s u \<noteq> GetSleep" if b for u
    using no_sleeper [of s ps t u] rep ne pc that by (simp add: cond_broadcast_def)
  then have "b \<longrightarrow> sleep_ok ?s ps" by (simp add: sleep_ok_def)
  ultimately show ?thesis using rep ow' ne same by (simp add: mon_inv_def)
qed

lemma mon_rep_inc:
  assumes rep: "mon_inv b s ps" and pc: "m_pc s t = PutInc"
  shows "mon_inv b (set_pc t PutUnlock (s\<lparr>m_queue := length_inc (m_queue s)\<rparr>)) ps"
proof -
  let ?s = "set_pc t PutUnlock (s\<lparr>m_queue := length_inc (m_queue s)\<rparr>)"
  have ow: "owner_ok s" and bo: "build_ok s ps" using rep by (simp_all add: mon_inv_def)
  have unc: "uncounted s" unfolding uncounted_iff [OF ow] using pc by blast
  then have ne: "ps \<noteq> []" using rep by (simp add: mon_inv_def)
  have ow': "owner_ok ?s" by (rule move_ok [OF ow, of t PutUnlock]) (simp_all add: pc)
  have nu: "\<not> uncounted ?s" by (rule uncounted_other [OF ow', of t]) simp_all
  then have "counted_queue ?s = counted_queue s" using unc by (simp add: counted_queue_def)
  moreover have "build_ok ?s ps"
  proof -
    have "build_ok (s\<lparr>m_queue := length_inc (m_queue s)\<rparr>) ps" using bo by (simp add: build_ok_def)
    then show ?thesis by (rule build_move [where t = t and p = PutUnlock]) simp_all
  qed
  moreover have "take_ok ?s ps" using ne by (simp add: take_ok_def)
  moreover have "m_pc ?s u \<noteq> GetSleep" if b for u
    using no_sleeper [of s ps t u] rep ne pc that by simp
  then have "b \<longrightarrow> sleep_ok ?s ps" by (simp add: sleep_ok_def)
  ultimately show ?thesis using rep ow' nu by (simp add: mon_inv_def)
qed

lemma mon_rep_take:
  assumes rep: "mon_inv b s ps" and pc: "m_pc s t = GetTake"
  shows "\<exists>v q p ps'. queue_take (m_queue s) = Some (v, q) \<and> ps = p # ps' \<and>
     mon_inv b (set_pc t (GetUnlock v) (s\<lparr>m_queue := q\<rparr>)) ps' \<and>
     queue_content (m_queue s) = v # queue_content q"
proof -
  have ow: "owner_ok s" and bo: "build_ok s ps" and tk: "take_ok s ps" using rep by (simp_all add: mon_inv_def)
  have nu: "\<not> uncounted s" using uncounted_other [OF ow, of t] pc by simp
  have ne: "ps \<noteq> []" using tk pc by (auto simp: take_ok_def)
  then obtain p ps' where ps: "ps = p # ps'" by (cases ps) auto
  have q: "queue_rep (m_queue s) (p # ps')" using rep nu ps by (simp add: mon_inv_def counted_queue_def)
  let ?v = "sock_at (q_heap (m_queue s)) p"
  from queue_take_rep [OF q] obtain q' where
    q': "queue_take (m_queue s) = Some (?v, q')" "queue_rep q' ps'"
      "queue_content (m_queue s) = ?v # queue_content q'" "q_brk q' = q_brk (m_queue s)"
      "q_heap q' = (q_heap (m_queue s))(p := None)" by blast
  let ?s = "set_pc t (GetUnlock ?v) (s\<lparr>m_queue := q'\<rparr>)"
  have ow': "owner_ok ?s" by (rule move_ok [OF ow, of t "GetUnlock ?v"]) (simp_all add: pc)
  have nu': "\<not> uncounted ?s" by (rule uncounted_other [OF ow', of t]) simp_all
  have "build_ok (s\<lparr>m_queue := q'\<rparr>) ps'"
    unfolding build_ok_def
  proof (intro conjI allI impI)
    fix u m w assume "building (m_pc (s\<lparr>m_queue := q'\<rparr>) u) = Some (m, w)"
    then have "pending (m_queue s) ps m w" using build_okD [OF bo, of u m w] by simp
    then show "pending (m_queue (s\<lparr>m_queue := q'\<rparr>)) ps' m w" using q' ps by (auto simp: pending_def)
  next
    fix u u' m w w'
    assume "building (m_pc (s\<lparr>m_queue := q'\<rparr>) u) = Some (m, w)" "building (m_pc (s\<lparr>m_queue := q'\<rparr>) u') = Some (m, w')"
    then show "u = u'" using build_ok_unique [OF bo, of u m w u' w'] by simp
  qed
  then have "build_ok ?s ps'" by (rule build_move [where t = t and p = "GetUnlock ?v"]) simp_all
  moreover have "m_pc ?s u \<noteq> GetTake" for u
    using owner_unique [OF ow, of u t] pc by auto
  then have "take_ok ?s ps'" by (simp add: take_ok_def)
  moreover have "m_pc ?s u \<noteq> GetSleep" if b for u
    using no_sleeper [of s ps t u] rep ne pc that by simp
  then have "b \<longrightarrow> sleep_ok ?s ps'" by (simp add: sleep_ok_def)
  moreover have "queue_rep (counted_queue ?s) ps'" using q'(2) nu' by (simp add: counted_queue_def)
  ultimately have "mon_inv b ?s ps'" using rep ow' nu' by (simp add: mon_inv_def)
  then show ?thesis using q' ps by simp
qed

lemma new_message_length_inc:
  "new_message b v q = Some (p, q') \<Longrightarrow> new_message b v (length_inc q) = Some (p, length_inc q')"
  by (auto simp: new_message_def length_inc_def split: if_splits)

lemma mon_rep_exit: "mon_inv b s ps \<Longrightarrow> mon_inv b (s\<lparr>m_status := Exited\<rparr>) ps"
proof -
  assume rep: "mon_inv b s ps"
  let ?s = "s\<lparr>m_status := Exited\<rparr>"
  have "uncounted ?s = uncounted s" by (simp add: uncounted_def split: option.split)
  moreover from this have "counted_queue ?s = counted_queue s" by (simp add: counted_queue_def)
  ultimately show ?thesis using rep
    by (simp add: mon_inv_def owner_ok_def build_ok_def take_ok_def sleep_ok_def)
qed

lemma mon_rep_call:
  assumes rep: "mon_inv b s ps" and pc: "m_pc s t = Idle"
  shows "mon_inv b (call_put t v ml s) ps \<and> mon_content (call_put t v ml s) = mon_content s"
proof (cases "new_message ml v (m_queue s)")
  case None
  then show ?thesis using mon_rep_exit [OF rep] by (simp add: call_put_def mon_content_def)
next
  case (Some x)
  then obtain p q' where n: "new_message ml v (m_queue s) = Some (p, q')" by (cases x) auto
  let ?s = "set_pc t (PutLock p v) (s\<lparr>m_queue := q'\<rparr>)"
  have ow: "owner_ok s" and bo: "build_ok s ps" using rep by (simp_all add: mon_inv_def)
  have ow': "owner_ok ?s" by (rule move_ok [OF ow, of t "PutLock p v"]) (simp_all add: pc)
  have pc': "m_pc ?s = (m_pc s)(t := PutLock p v)" by simp
  have unc: "uncounted ?s \<longleftrightarrow> uncounted s"
    unfolding uncounted_iff [OF ow] uncounted_iff [OF ow'] pc'
    using pc by (metis (no_types) fun_upd_other fun_upd_same in_cs.simps)
  have cq: "new_message ml v (counted_queue s) = Some (p, counted_queue ?s)"
    using n unc new_message_length_inc [OF n] by (simp add: counted_queue_def)
  have r: "queue_rep (counted_queue s) ps" using rep by (simp add: mon_inv_def)
  note N = new_message_rep [OF r cq]
  have heap: "q_heap q' = (q_heap (m_queue s))(p \<mapsto> \<lparr>m_sock = v, m_next = None\<rparr>)"
    "q_brk q' = Suc (q_brk (m_queue s))" "p = q_brk (m_queue s)" "q_length q' = q_length (m_queue s)"
    using n by (auto simp: new_message_def split: if_splits)
  have new: "pending q' ps p v" using N(2) by (simp add: counted_queue_def split: if_splits)
  have old: "pending q' ps m w" "m \<noteq> p" if "pending (m_queue s) ps m w" for m w
    using that heap by (auto simp: pending_def)
  have "build_ok ?s ps"
    unfolding build_ok_def
  proof (intro conjI allI impI)
    fix u m w assume "building (m_pc ?s u) = Some (m, w)"
    then show "pending (m_queue ?s) ps m w"
      using new old(1) build_okD [OF bo, of u m w] by (cases "u = t") auto
  next
    fix u u' m w w' assume "building (m_pc ?s u) = Some (m, w)" "building (m_pc ?s u') = Some (m, w')"
    then show "u = u'" using old(2) build_okD [OF bo] build_ok_unique [OF bo, of u m w u' w']
      by (cases "u = t"; cases "u' = t") force+
  qed
  moreover have "take_ok ?s ps" using rep by (intro take_move [of s ps ?s t "PutLock p v"]) (simp_all add: mon_inv_def)
  moreover have "sleep_ok (s\<lparr>m_queue := q'\<rparr>) ps" if b
    using rep heap that by (simp add: mon_inv_def sleep_ok_def was_empty_def)
  then have "sleep_ok ?s ps" if b by (rule sleep_move [where t = t and p = "PutLock p v"]) (simp_all add: pc that)
  ultimately have "mon_inv b ?s ps" using rep ow' unc N(1) by (simp add: mon_inv_def)
  moreover have "queue_content q' = queue_content (m_queue s)"
    using N(3) by (simp add: counted_queue_def split: if_splits)
  ultimately show ?thesis using n by (simp add: call_put_def mon_content_def)
qed

lemma run_pc_ok:
  assumes rep: "mon_inv b s ps" and st: "m_status s = Running" and run: "run_pc (m_pc s t) t s = Some s'"
  shows "mon_good b s'" and "mlin (Run t) s = None \<Longrightarrow> mon_content s' = mon_content s"
    and "mlin (Run t) s = Some a \<Longrightarrow> fifo_step a (mon_content s) = Some (mon_content s')"
proof -
  have locked: "mon_inv b s' ps \<and> mon_content s' = mon_content s"
    if "lock_mutex t p s = Some s'" "in_cs p" "p \<noteq> PutWake" "p \<noteq> PutInc" "p \<noteq> GetTake"
      "building p = None \<or> building p = building (m_pc s t)" for p
    using mon_rep_lock [OF rep that] that(1) by (auto simp: lock_mutex_def mon_content_def split: if_splits)
  have unlocked: "mon_inv b (unlock_mutex t p s) ps \<and> mon_content (unlock_mutex t p s) = mon_content s"
    if "in_cs (m_pc s t)" "m_pc s t \<noteq> PutWake" "m_pc s t \<noteq> PutInc" "\<not> in_cs p" "building p = None"
      "b \<Longrightarrow> p = GetSleep \<Longrightarrow> ps = []" for p
    using mon_rep_unlock [OF rep that] by (simp add: unlock_mutex_def mon_content_def)
  have first: "q_first (m_queue s) = None \<longleftrightarrow> ps = []" if "in_cs (m_pc s t)" "m_pc s t \<noteq> PutWake" "m_pc s t \<noteq> PutInc"
  proof -
    have "\<not> uncounted s" using rep that by (intro uncounted_other [of s t]) (simp_all add: mon_inv_def)
    then have "queue_rep (m_queue s) ps" using rep by (simp add: mon_inv_def counted_queue_def)
    then show ?thesis by (auto dest: queue_rep_first split: list.splits)
  qed
  have all: "mon_good b s' \<and> (mlin (Run t) s = None \<longrightarrow> mon_content s' = mon_content s) \<and>
    (\<forall>a. mlin (Run t) s = Some a \<longrightarrow> fifo_step a (mon_content s) = Some (mon_content s'))"
  proof (cases "m_pc s t")
    case Idle
    then show ?thesis using run by simp
  next
    case (PutLock msg v)
    then show ?thesis using locked [of "PutAppend msg v"] run by (auto simp: mon_good_def)
  next
    case (PutAppend msg v)
    then show ?thesis using mon_rep_append [OF rep PutAppend] run by (auto simp: mon_good_def mon_content_def)
  next
    case PutWake
    then show ?thesis using mon_rep_wake [OF rep PutWake] run
      by (auto simp: mon_good_def mon_content_def cond_broadcast_def split: if_splits)
  next
    case PutInc
    then show ?thesis using mon_rep_inc [OF rep PutInc] run by (auto simp: mon_good_def mon_content_def)
  next
    case PutUnlock
    then show ?thesis using unlocked [of Idle] run by (auto simp: mon_good_def)
  next
    case GetLock
    then show ?thesis using locked [of GetTest] run by (auto simp: mon_good_def)
  next
    case GetTest
    then show ?thesis
      using first unlocked [of GetSleep] mon_rep_inside [OF rep, of t GetTake] run
      by (auto simp: mon_good_def mon_content_def split: if_splits)
  next
    case GetSleep
    then show ?thesis using run by simp
  next
    case GetRelock
    then show ?thesis using locked [of GetTest] run by (auto simp: mon_good_def)
  next
    case GetTake
    then show ?thesis using mon_rep_take [OF rep GetTake] run by (auto simp: mon_good_def mon_content_def)
  next
    case (GetUnlock v)
    then show ?thesis using unlocked [of Idle] run by (auto simp: mon_good_def)
  qed (use run in simp_all)
  then show "mon_good b s'" and "mlin (Run t) s = None \<Longrightarrow> mon_content s' = mon_content s"
    and "mlin (Run t) s = Some a \<Longrightarrow> fifo_step a (mon_content s) = Some (mon_content s')" by auto
qed

lemma mstep_ok:
  assumes "mon_good b s" and "mstep e s = Some s'"
  shows "mon_good b s' \<and> (mlin e s = None \<longrightarrow> mon_content s' = mon_content s) \<and>
    (\<forall>a. mlin e s = Some a \<longrightarrow> fifo_step a (mon_content s) = Some (mon_content s'))"
proof -
  obtain ps where rep: "mon_inv b s ps" using assms(1) by (auto simp: mon_good_def)
  show ?thesis
  proof (cases e)
    case (CallPut t v ml)
    then show ?thesis using assms(2) mon_rep_call [OF rep, of t v ml] by (auto simp: mon_good_def split: if_splits)
  next
    case (CallGet t)
    then show ?thesis using assms(2) mon_rep_inside [OF rep, of t GetLock]
      by (auto simp: mon_good_def mon_content_def split: if_splits)
  next
    case (Run t)
    then have "m_status s = Running" "run_pc (m_pc s t) t s = Some s'" using assms(2) by (auto split: if_splits)
    from run_pc_ok [OF rep this] Run show ?thesis by auto
  next
    case (Spurious t)
    then show ?thesis using assms(2) mon_rep_inside [OF rep, of t GetRelock]
      by (auto simp: mon_good_def mon_content_def split: if_splits)
  qed
qed

interpretation mon: lin_machine mstep "mon_good True" mlin mon_content
  by unfold_locales (use mstep_ok in blast)+

lemma mon_init_good: "mon_good b mon_init" and mon_init_content [simp]: "mon_content mon_init = []"
proof -
  have "queue_rep (queue_init (\<lambda>a. None) 0) []" by (rule queue_init_rep)
  then have "mon_inv b mon_init []"
    by (simp add: mon_inv_def mon_init_def owner_ok_def counted_queue_def uncounted_def build_ok_def
        take_ok_def sleep_ok_def)
  then show "mon_good b mon_init" by (auto simp: mon_good_def)
  show "mon_content mon_init = []" by (simp add: mon_content_def mon_init_def queue_init_def queue_content_def)
qed

section \<open>Properties of the monitor\<close>

definition demo_run_get_first :: "mev list" where
  "demo_run_get_first =
     [CallGet 1, Run 1, Run 1,                         \<comment> \<open>the worker finds the queue empty and sleeps\<close>
      CallPut 0 7 True, Run 0, Run 0, Run 0, Run 0, Run 0,  \<comment> \<open>\<open>queue_put(q, 7)\<close>\<close>
      Run 1, Run 1, Run 1, Run 1]                      \<comment> \<open>the worker wakes and takes it\<close>"

lemma demo_run_ok: "\<exists>s. mrun mstep demo_run_get_first mon_init = Some s \<and> m_pc s 1 = Idle \<and> mon_content s = []"
  by (simp add: demo_run_get_first_def mon_init_def queue_init_def call_put_def new_message_def set_pc_def
      lock_mutex_def unlock_mutex_def queue_append_def was_empty_def cond_broadcast_def length_inc_def
      queue_take_def mon_content_def queue_content_def Let_def)

text \<open>
  (C3) Under every interleaving of any number of threads the queue is a FIFO queue: the sockets put,
  in the order their messages were linked in, are the sockets that \<open>queue_get\<close> took, in order,
  followed by those still queued. None is lost, duplicated or reordered.
\<close>

theorem monitor_fifo:
  assumes "mrun mstep es mon_init = Some s"
  shows "puts (lin_trace mstep mlin es mon_init) = gots (lin_trace mstep mlin es mon_init) @ mon_content s"
  using mon.lin_trace_order [OF mon_init_good [of True] assms] by simp

theorem monitor_fifo_witness:
  "\<exists>s. mrun mstep demo_run_get_first mon_init = Some s \<and>
     puts (lin_trace mstep mlin demo_run_get_first mon_init) =
       gots (lin_trace mstep mlin demo_run_get_first mon_init) @ mon_content s"
  using demo_run_ok monitor_fifo by blast

lemma sleeper_has_waker:
  assumes "mrun mstep es mon_init = Some s" and "m_pc s t = GetSleep" and "mon_content s \<noteq> []"
  shows "\<exists>u. m_pc s u = PutWake \<and> was_empty (m_queue s)"
proof -
  obtain ps where rep: "mon_inv True s ps"
    using mon.good_run [OF mon_init_good [of True] assms(1)] by (auto simp: mon_good_def)
  then have "queue_content (counted_queue s) = map (sock_at (q_heap (counted_queue s))) ps"
    by (intro queue_rep_content) (simp add: mon_inv_def)
  then have "ps \<noteq> []" using assms(3) by (auto simp: mon_content_def counted_queue_def split: if_splits)
  then show ?thesis using rep assms(2) by (auto simp: mon_inv_def sleep_ok_def)
qed

text \<open>
  (C1) No wake-up is lost: in every reachable state a thread asleep in \<open>pthread_cond_wait\<close>
  sees an empty queue, unless some thread inside \<open>queue_put\<close> is just about to broadcast.
  So waking all waiters only when \<open>length == 0\<close> is enough.
\<close>

theorem no_lost_wakeup:
  assumes "mrun mstep es mon_init = Some s" and "m_pc s t = GetSleep" and "mon_content s \<noteq> []"
  shows "\<exists>u. m_pc s u = PutWake \<and> was_empty (m_queue s)"
  using assms by (rule sleeper_has_waker)

theorem no_lost_wakeup_witness:
  "\<exists>s. mrun mstep (take 6 demo_run_get_first) mon_init = Some s \<and> m_pc s 1 = GetSleep \<and>
     mon_content s \<noteq> [] \<and> (\<exists>u. m_pc s u = PutWake \<and> was_empty (m_queue s))"
proof -
  have "\<exists>s. mrun mstep (take 6 demo_run_get_first) mon_init = Some s \<and> m_pc s 1 = GetSleep \<and> mon_content s \<noteq> []"
    by (simp add: demo_run_get_first_def mon_init_def queue_init_def call_put_def new_message_def set_pc_def
      lock_mutex_def unlock_mutex_def queue_append_def mon_content_def queue_content_def)
  then obtain s where s: "mrun mstep (take 6 demo_run_get_first) mon_init = Some s" "m_pc s 1 = GetSleep"
    "mon_content s \<noteq> []" by blast
  from no_lost_wakeup [OF s] s show ?thesis by blast
qed

text \<open>The program points of the futex server do not occur in \<open>http-server.c\<close>.\<close>

fun futex_pc :: "mpc \<Rightarrow> bool" where
  "futex_pc FutexUnlock = True"
| "futex_pc FutexRead = True"
| "futex_pc (FutexCall _) = True"
| "futex_pc _ = False"

definition no_futex :: "mon \<Rightarrow> bool" where
  "no_futex s \<longleftrightarrow> (\<forall>t. \<not> futex_pc (m_pc s t))"

lemma no_futex_set: "no_futex s \<Longrightarrow> \<not> futex_pc p \<Longrightarrow> m_pc s' = (m_pc s)(t := p) \<Longrightarrow> no_futex s'"
  by (simp add: no_futex_def)

lemma no_futex_step: "no_futex s \<Longrightarrow> mstep e s = Some s' \<Longrightarrow> no_futex s'"
proof (cases e)
  case (Run t)
  assume nf: "no_futex s" and "mstep e s = Some s'"
  then have "run_pc (m_pc s t) t s = Some s'" using Run by (auto split: if_splits)
  then show ?thesis using nf
    by (cases "m_pc s t")
      (auto simp: lock_mutex_def unlock_mutex_def cond_broadcast_def no_futex_def
        split: if_splits option.splits)
qed (auto simp: no_futex_def call_put_def split: if_splits option.splits)

interpretation nofu: machine mstep no_futex
  by unfold_locales (rule no_futex_step)

lemma run_enabled: "in_cs (m_pc s t) \<Longrightarrow> \<not> futex_pc (m_pc s t) \<Longrightarrow> \<exists>s'. run_pc (m_pc s t) t s = Some s'"
  by (cases "m_pc s t") (auto split: option.splits)

lemma run_enabled_free:
  "m_owner s = None \<Longrightarrow> m_pc s t \<noteq> Idle \<Longrightarrow> m_pc s t \<noteq> GetSleep \<Longrightarrow>
     \<not> futex_pc (m_pc s t) \<Longrightarrow> \<exists>s'. run_pc (m_pc s t) t s = Some s'"
  by (cases "m_pc s t") (auto simp: lock_mutex_def split: option.splits)

text \<open>
  The operations are safe under every interleaving: no thread reads or writes a message that
  is not allocated, and at most one thread is between lock and unlock.
\<close>

lemma monitor_safe:
  assumes "mrun mstep es mon_init = Some s"
  shows "m_status s \<noteq> Faulted \<and>
    (\<forall>t u. \<not> (t \<noteq> u \<and> in_cs (m_pc s t) \<and> in_cs (m_pc s u)))"
proof -
  obtain ps where "mon_inv True s ps"
    using mon.good_run [OF mon_init_good [of True] assms] by (auto simp: mon_good_def)
  then show ?thesis using owner_unique unfolding mon_inv_def by blast
qed

lemma monitor_safe_witness:
  "\<exists>s. mrun mstep demo_run_get_first mon_init = Some s \<and> m_status s \<noteq> Faulted"
  using demo_run_ok monitor_safe by blast

text \<open>When no thread can move, all are outside the operations or asleep for data that is not there.\<close>

lemma mon_stuck:
  assumes rep: "mon_inv True s ps" and nf: "\<And>t. \<not> futex_pc (m_pc s t)" and no: "\<And>t. run_pc (m_pc s t) t s = None"
  shows "(\<forall>t. m_pc s t = Idle \<or> m_pc s t = GetSleep) \<and> ((\<exists>t. m_pc s t = GetSleep) \<longrightarrow> ps = [])"
proof -
  have ow: "owner_ok s" using rep by (simp add: mon_inv_def)
  have "m_owner s = None"
  proof (rule ccontr)
    assume "m_owner s \<noteq> None"
    then obtain t where "in_cs (m_pc s t)" using ow by (auto simp: owner_ok_def)
    then show False using run_enabled [of s t] no [of t] nf [of t] by auto
  qed
  then have all: "m_pc s t = Idle \<or> m_pc s t = GetSleep" for t
    using run_enabled_free [of s t] no [of t] nf [of t] by auto
  have "m_pc s u \<noteq> PutWake" for u using all [of u] by (elim disjE) simp_all
  then show ?thesis using all rep unfolding mon_inv_def sleep_ok_def by blast
qed

text \<open>
  There is no deadlock: in every reachable state of the running process some thread can take a
  step, or every thread is outside the operations or asleep for data, and then the queue is empty
  if anyone sleeps.
\<close>

lemma monitor_progress:
  assumes run: "mrun mstep es mon_init = Some s" and st: "m_status s = Running"
    and stuck: "\<forall>t. mstep (Run t) s = None"
  shows "(\<forall>t. m_pc s t = Idle \<or> m_pc s t = GetSleep) \<and> ((\<exists>t. m_pc s t = GetSleep) \<longrightarrow> mon_content s = [])"
proof -
  obtain ps where rep: "mon_inv True s ps"
    using mon.good_run [OF mon_init_good [of True] run] by (auto simp: mon_good_def)
  have "no_futex mon_init" by (simp add: no_futex_def mon_init_def)
  then have "\<not> futex_pc (m_pc s t)" for t using nofu.good_run [OF _ run] by (simp add: no_futex_def)
  moreover have "run_pc (m_pc s t) t s = None" for t using stuck st by simp
  ultimately have all: "m_pc s t = Idle \<or> m_pc s t = GetSleep" for t using mon_stuck [OF rep] by blast
  have "m_pc s u \<noteq> PutWake" for u using all [of u] by (elim disjE) simp_all
  then show ?thesis using all sleeper_has_waker [OF run] by blast
qed

lemma monitor_progress_witness:
  "\<exists>s. mrun mstep (take 3 demo_run_get_first) mon_init = Some s \<and> m_pc s 1 = GetSleep \<and>
     (\<forall>t. m_pc s t = Idle \<or> m_pc s t = GetSleep) \<and> mon_content s = []"
proof -
  have "\<exists>s. mrun mstep (take 3 demo_run_get_first) mon_init = Some s \<and> m_status s = Running \<and>
      m_pc s = (\<lambda>t. Idle)(1 := GetSleep)"
    by (simp add: demo_run_get_first_def mon_init_def queue_init_def set_pc_def lock_mutex_def unlock_mutex_def)
  then obtain s where s: "mrun mstep (take 3 demo_run_get_first) mon_init = Some s" "m_status s = Running"
    and pc: "m_pc s = (\<lambda>t. Idle)(1 := GetSleep)" by blast
  have "\<forall>t. mstep (Run t) s = None" using pc by simp
  from monitor_progress [OF s this] s pc show ?thesis by auto
qed

end
