(* ===== verification/Futex.thy ===== *)
theory Futex
  imports Monitor
begin

text \<open>
  \<open>lcrq-server/libwait.c\<close> and the server built on it, \<open>lcrq-server/http-server-futex.c\<close>.
  The system call itself is the kernel's: a call is the value \<open>fcall\<close>, and what it does is the
  documented behaviour of \<open>FUTEX_WAIT\<close> (sleep only if the word still has the expected value,
  in one atomic step) and \<open>FUTEX_WAKE\<close> (wake at most the given number of sleepers; which ones
  is the kernel's choice). The queue operations are those of \<open>Monitor\<close>, the sleeping and waking
  program points replaced.
\<close>

section \<open>The wrapper library\<close>

datatype fcall = FutexWait int | FutexWake int

definition MAX_WAKEUP :: int where
  "MAX_WAKEUP = 16"

text \<open>\<open>wait\<close> reads the word (its value is the argument) and sleeps while it is unchanged.\<close>

definition wait_call :: "int \<Rightarrow> fcall" where
  "wait_call old_val = FutexWait old_val"

definition cond_wait :: "int \<Rightarrow> fcall" where
  "cond_wait old_val = FutexWait old_val"

text \<open>\<open>Inl\<close> is a return value without a system call.\<close>

definition futex_wake :: "int \<Rightarrow> int + fcall" where
  "futex_wake n = (if n = 1 then Inr (FutexWake n) else if n > 1 then Inr (FutexWake n) else Inl (-1))"

definition futex_signal :: "int + fcall" where
  "futex_signal = futex_wake 1"

definition broadcast :: "int + fcall" where
  "broadcast = futex_wake MAX_WAKEUP"

text \<open>The kernel: when a wait sleeps, and which sets of sleepers a wake may wake.\<close>

definition kernel_sleeps :: "fcall \<Rightarrow> int \<Rightarrow> bool" where
  "kernel_sleeps c v = (case c of FutexWait old_val \<Rightarrow> v = old_val | FutexWake n \<Rightarrow> False)"

definition kernel_wakes :: "int + fcall \<Rightarrow> tid list \<Rightarrow> tid list \<Rightarrow> bool" where
  "kernel_wakes c sleepers ws =
     (case c of
        Inr (FutexWake n) \<Rightarrow>
          distinct ws \<and> set ws \<subseteq> set sleepers \<and> length ws = min (nat n) (length (remdups sleepers))
      | _ \<Rightarrow> ws = [])"

section \<open>The server's monitor\<close>

text \<open>
  \<open>futex_addr\<close> is set to 0 by \<open>queue_init\<close> and never written again. \<open>f_threads\<close>
  lists the threads of the process.
\<close>

record fmon = mon +
  f_addr :: int
  f_threads :: "tid list"

datatype fev =
    FEv mev
  | FBroadcast tid "tid list"   \<comment> \<open>\<open>broadcast\<close> in \<open>queue_put\<close>, and the threads it wakes\<close>

definition f_sleepers :: "fmon \<Rightarrow> tid list" where
  "f_sleepers s = filter (\<lambda>t. m_pc s t = GetSleep) (f_threads s)"

definition f_wake :: "tid list \<Rightarrow> fmon \<Rightarrow> fmon" where
  "f_wake ws s = s\<lparr>m_pc := (\<lambda>u. if u \<in> set ws \<and> m_pc s u = GetSleep then GetRelock else m_pc s u)\<rparr>"

fun f_run :: "mpc \<Rightarrow> tid \<Rightarrow> fmon \<Rightarrow> fmon option" where
  "f_run PutWake t s = (if was_empty (m_queue s) then None else Some (set_pc t PutInc s))"
| "f_run GetTest t s =
     Some (set_pc t (if q_first (m_queue s) = None then FutexUnlock else GetTake) s)"
| "f_run FutexUnlock t s = Some (unlock_mutex t FutexRead s)"
| "f_run FutexRead t s = Some (set_pc t (FutexCall (f_addr s)) s)"
| "f_run (FutexCall old_val) t s =
     Some (set_pc t (if kernel_sleeps (wait_call old_val) (f_addr s) then GetSleep else GetRelock) s)"
| "f_run p t s = run_pc p t s"

fun fstep :: "fev \<Rightarrow> fmon \<Rightarrow> fmon option" where
  "fstep (FEv (CallPut t sock mem_left)) s =
     (if t \<in> set (f_threads s) then mstep (CallPut t sock mem_left) s else None)"
| "fstep (FEv (CallGet t)) s = (if t \<in> set (f_threads s) then mstep (CallGet t) s else None)"
| "fstep (FEv (Run t)) s = (if m_status s = Running then f_run (m_pc s t) t s else None)"
| "fstep (FEv (Spurious t)) s = mstep (Spurious t) s"
| "fstep (FBroadcast t ws) s =
     (if m_status s = Running \<and> m_pc s t = PutWake \<and> was_empty (m_queue s) \<and>
         kernel_wakes broadcast (f_sleepers s) ws
      then Some (set_pc t PutInc (f_wake ws s)) else None)"

fun flin :: "fev \<Rightarrow> fmon \<Rightarrow> int qact option" where
  "flin (FEv e) s = mlin e s"
| "flin (FBroadcast _ _) s = None"

definition fmon_init :: "tid list \<Rightarrow> fmon" where
  "fmon_init ts = \<lparr>m_queue = queue_init (\<lambda>a. None) 0, m_owner = None, m_pc = (\<lambda>t. Idle),
     m_status = Running, f_addr = 0, f_threads = ts\<rparr>"

section \<open>The queue is still safe and first in, first out\<close>

text \<open>The invariant of \<open>Monitor\<close> without its clause on sleepers holds here too.\<close>

lemma f_inside:
  assumes "mon_inv False s ps" "in_cs (m_pc s t) = in_cs p" "m_pc s t \<noteq> PutWake" "m_pc s t \<noteq> PutInc"
    "p \<noteq> PutWake" "p \<noteq> PutInc" "building p = None" "p = GetTake \<Longrightarrow> ps \<noteq> []"
  shows "mon_good False (set_pc t p s) \<and> mon_content (set_pc t p s) = mon_content s"
  using mon_rep_inside [OF assms(1-7)] assms(8) by (auto simp: mon_good_def mon_content_def)

lemma f_wake_inv:
  assumes rep: "mon_inv False s ps" and pc: "m_pc s t = PutWake"
  shows "mon_inv False (set_pc t PutInc (f_wake ws s)) ps"
proof -
  let ?b = "f_wake ws s"
  let ?s = "set_pc t PutInc ?b"
  have ow: "owner_ok s" and bo: "build_ok s ps" using rep by (simp_all add: mon_inv_def)
  have unc: "uncounted s" unfolding uncounted_iff [OF ow] using pc by blast
  then have ne: "ps \<noteq> []" using rep by (simp add: mon_inv_def)
  have same: "m_queue ?b = m_queue s" "m_owner ?b = m_owner s" "m_status ?b = m_status s"
    by (simp_all add: f_wake_def)
  have cs: "in_cs (m_pc ?b u) = in_cs (m_pc s u)" "building (m_pc ?b u) = building (m_pc s u)" for u
    by (simp_all add: f_wake_def)
  have owb: "owner_ok ?b" using ow cs same by (simp add: owner_ok_def)
  have ow': "owner_ok ?s" by (rule move_ok [OF owb, of t PutInc]) (simp_all add: f_wake_def pc)
  have "uncounted ?s" unfolding uncounted_iff [OF ow'] by (intro exI [of _ t]) simp
  then have "counted_queue ?s = counted_queue s" using unc same by (simp add: counted_queue_def)
  moreover have "build_ok ?s ps"
  proof -
    have "build_ok ?b ps" using bo cs same by (simp add: build_ok_def)
    then show ?thesis by (rule build_move [where t = t and p = PutInc]) simp_all
  qed
  moreover have "take_ok ?s ps" using ne by (simp add: take_ok_def)
  ultimately show ?thesis using rep ow' ne same by (simp add: mon_inv_def)
qed

lemma f_wake_nil [simp]: "f_wake [] s = s"
  by (simp add: f_wake_def)

lemma f_run_ok:
  assumes rep: "mon_inv False s ps" and st: "m_status s = Running" and run: "f_run (m_pc s t) t s = Some s'"
  shows "mon_good False s' \<and> (mlin (Run t) s = None \<longrightarrow> mon_content s' = mon_content s) \<and>
    (\<forall>a. mlin (Run t) s = Some a \<longrightarrow> fifo_step a (mon_content s) = Some (mon_content s'))"
proof (cases "m_pc s t")
  case PutWake
  then show ?thesis using f_wake_inv [OF rep PutWake, of "[]"] run
    by (auto simp: mon_good_def mon_content_def split: if_splits)
next
  case GetTest
  have "\<not> uncounted s" using rep GetTest by (intro uncounted_other [of s t]) (simp_all add: mon_inv_def)
  then have "queue_rep (m_queue s) ps" using rep by (simp add: mon_inv_def counted_queue_def)
  then have "q_first (m_queue s) = None \<longleftrightarrow> ps = []" by (auto dest: queue_rep_first split: list.splits)
  then show ?thesis using f_inside [OF rep, of t FutexUnlock] f_inside [OF rep, of t GetTake] run GetTest
    by (auto split: if_splits)
next
  case FutexUnlock
  then show ?thesis using mon_rep_unlock [OF rep, of t FutexRead] run
    by (auto simp: mon_good_def mon_content_def unlock_mutex_def)
next
  case FutexRead
  then show ?thesis using f_inside [OF rep, of t "FutexCall (f_addr s)"] run by auto
next
  case (FutexCall v)
  then show ?thesis using f_inside [OF rep, of t GetSleep] f_inside [OF rep, of t GetRelock] run
    by (auto split: if_splits)
qed (use run_pc_ok [OF rep st, of t s'] run in auto)

lemma fstep_ok:
  assumes "mon_good False s" and step: "fstep e s = Some s'"
  shows "mon_good False s' \<and> (flin e s = None \<longrightarrow> mon_content s' = mon_content s) \<and>
    (\<forall>a. flin e s = Some a \<longrightarrow> fifo_step a (mon_content s) = Some (mon_content s'))"
proof -
  obtain ps where rep: "mon_inv False s ps" using assms(1) by (auto simp: mon_good_def)
  show ?thesis
  proof (cases e)
    case (FBroadcast t ws)
    then show ?thesis using step f_wake_inv [OF rep, of t ws]
      by (auto simp: mon_good_def mon_content_def f_wake_def split: if_splits)
  next
    case (FEv m)
    show ?thesis
    proof (cases m)
      case (Run t)
      then have "m_status s = Running" "f_run (m_pc s t) t s = Some s'"
        using step FEv by (auto split: if_splits)
      from f_run_ok [OF rep this] show ?thesis using FEv Run by auto
    next
      case (CallPut t v ml)
      then show ?thesis using mstep_ok [OF assms(1), of m s'] step FEv by (auto split: if_splits)
    next
      case (CallGet t)
      then show ?thesis using mstep_ok [OF assms(1), of m s'] step FEv by (auto split: if_splits)
    next
      case (Spurious t)
      then show ?thesis using mstep_ok [OF assms(1), of m s'] step FEv by (auto split: if_splits)
    qed
  qed
qed

interpretation fut: lin_machine fstep "mon_good False" flin mon_content
  by unfold_locales (use fstep_ok in blast)+

lemma fmon_init_good: "mon_good False (fmon_init ts)" and fmon_init_content [simp]: "mon_content (fmon_init ts) = []"
proof -
  have "queue_rep (queue_init (\<lambda>a. None) 0) []" by (rule queue_init_rep)
  then have "mon_inv False (fmon_init ts) []"
    by (simp add: mon_inv_def fmon_init_def owner_ok_def counted_queue_def uncounted_def build_ok_def take_ok_def)
  then show "mon_good False (fmon_init ts)" by (auto simp: mon_good_def)
  show "mon_content (fmon_init ts) = []"
    by (simp add: mon_content_def fmon_init_def queue_init_def queue_content_def)
qed


text \<open>
  The futex server's queue is first in, first out and safe under every interleaving and whatever
  the kernel chooses to wake: the sockets put are the sockets got followed by those still queued, in
  order; no access is invalid and at most one thread is between lock and unlock.
\<close>

lemma futex_fifo:
  assumes "mrun fstep es (fmon_init ts) = Some s"
  shows "puts (lin_trace fstep flin es (fmon_init ts)) = gots (lin_trace fstep flin es (fmon_init ts)) @ mon_content s \<and>
    m_status s \<noteq> Faulted \<and> (\<forall>t u. \<not> (t \<noteq> u \<and> in_cs (m_pc s t) \<and> in_cs (m_pc s u)))"
proof (intro conjI)
  show "puts (lin_trace fstep flin es (fmon_init ts)) = gots (lin_trace fstep flin es (fmon_init ts)) @ mon_content s"
    using fut.lin_trace_order [OF fmon_init_good assms] by simp
  obtain ps where "mon_inv False s ps"
    using fut.good_run [OF fmon_init_good assms] by (auto simp: mon_good_def)
  then show "m_status s \<noteq> Faulted" "\<forall>t u. \<not> (t \<noteq> u \<and> in_cs (m_pc s t) \<and> in_cs (m_pc s u))"
    using owner_unique unfolding mon_inv_def by blast+
qed

section \<open>The lost wake-up\<close>

text \<open>
  A worker finds the queue empty and gives the mutex back; before it calls \<open>wait\<close>, a
  \<open>queue_put\<close> runs from lock to unlock, and its broadcast wakes nobody. Then the worker
  sleeps: \<open>futex_addr\<close> never changes, so the kernel's test does not stop it.
\<close>

definition demo_lost :: "fev list" where
  "demo_lost =
     map FEv [CallGet 1, Run 1, Run 1, Run 1, CallPut 0 7 True, Run 0, Run 0] @ [FBroadcast 0 []] @
     map FEv [Run 0, Run 0, Run 1, Run 1]"

definition demo_next_put :: "fev list" where
  "demo_next_put = map FEv [CallPut 0 8 True, Run 0, Run 0, Run 0, Run 0, Run 0]"

lemmas f_eval = demo_lost_def demo_next_put_def fmon_init_def queue_init_def call_put_def new_message_def set_pc_def
  lock_mutex_def unlock_mutex_def queue_append_def was_empty_def length_inc_def mon_content_def
  queue_content_def f_wake_def kernel_wakes_def kernel_sleeps_def wait_call_def f_sleepers_def
  broadcast_def futex_wake_def MAX_WAKEUP_def

definition lost_state :: fmon where
  "lost_state = the (mrun fstep demo_lost (fmon_init [0, 1]))"

lemma demo_lost_run:
  "mrun fstep demo_lost (fmon_init [0, 1]) = Some lost_state \<and> m_pc lost_state = (\<lambda>t. Idle)(1 := GetSleep) \<and>
   mon_content lost_state = [7] \<and> q_length (m_queue lost_state) = 1"
  by (simp add: lost_state_def f_eval fun_eq_iff)

fun put_event :: "fev \<Rightarrow> bool" where
  "put_event (FEv (CallPut _ _ _)) = True"
| "put_event (FEv (Run _)) = True"
| "put_event (FBroadcast _ _) = True"
| "put_event _ = False"

fun producer_pc :: "mpc \<Rightarrow> bool" where
  "producer_pc Idle = True"
| "producer_pc (PutLock _ _) = True"
| "producer_pc (PutAppend _ _) = True"
| "producer_pc PutWake = True"
| "producer_pc PutInc = True"
| "producer_pc PutUnlock = True"
| "producer_pc _ = False"

text \<open>Everyone but the worker is a producer, and the queue has counted messages, at most \<open>n\<close>.\<close>

definition stranded :: "nat \<Rightarrow> fmon \<Rightarrow> bool" where
  "stranded n s \<longleftrightarrow> m_pc s 1 = GetSleep \<and> (\<forall>t. t = 1 \<or> producer_pc (m_pc s t)) \<and>
     (\<exists>k. 0 < k \<and> k \<le> n \<and> q_length (m_queue s) = of_nat k)"

lemma small_word_not_0: "0 < k \<Longrightarrow> k < 2 ^ 32 \<Longrightarrow> (of_nat k :: u32) \<noteq> 0"
  by (auto simp: word_of_nat_eq_0_iff dest: nat_dvd_not_less)

lemma stranded_not_empty: "stranded n s \<Longrightarrow> n < 2 ^ 32 \<Longrightarrow> \<not> was_empty (m_queue s)"
  unfolding stranded_def was_empty_def by (metis small_word_not_0 le_less_trans)

lemma stranded_move:
  "stranded n s \<Longrightarrow> m_pc s' = (m_pc s)(t := p) \<Longrightarrow> producer_pc p \<Longrightarrow> t \<noteq> 1 \<Longrightarrow>
     q_length (m_queue s') = q_length (m_queue s) \<Longrightarrow> stranded (Suc n) s'"
  unfolding stranded_def by (metis fun_upd_apply le_SucI)

lemma stranded_inc:
  "stranded n s \<Longrightarrow> m_pc s' = (m_pc s)(t := p) \<Longrightarrow> producer_pc p \<Longrightarrow> t \<noteq> 1 \<Longrightarrow>
     q_length (m_queue s') = q_length (m_queue s) + 1 \<Longrightarrow> stranded (Suc n) s'"
  unfolding stranded_def
  by (elim conjE exE, intro conjI exI [where x = "Suc k" for k]) (auto simp: ac_simps)

lemma stranded_same: "stranded n s \<Longrightarrow> m_pc s' = m_pc s \<Longrightarrow> m_queue s' = m_queue s \<Longrightarrow> stranded (Suc n) s'"
  unfolding stranded_def by (metis le_SucI)

lemma append_length: "queue_append msg q = Some q' \<Longrightarrow> q_length q' = q_length q"
  by (auto simp: queue_append_def split: option.splits)

lemma stranded_step:
  assumes str: "stranded n s" and n: "n < 2 ^ 32" and e: "put_event e" and step: "fstep e s = Some s'"
  shows "stranded (Suc n) s'"
proof (cases e)
  case (FBroadcast t ws)
  then show ?thesis using step stranded_not_empty [OF str n] by simp
next
  case (FEv m)
  show ?thesis
  proof (cases m)
    case (CallPut t v ml)
    then have idle: "m_pc s t = Idle" and s': "s' = call_put t v ml s" using step FEv by (auto split: if_splits)
    have "t \<noteq> 1" using idle str by (auto simp: stranded_def)
    then show ?thesis unfolding s' call_put_def
      by (auto simp: new_message_def intro: stranded_same [OF str] stranded_move [OF str])
  next
    case (Run t)
    then have st: "m_status s = Running" and run: "f_run (m_pc s t) t s = Some s'"
      using step FEv by (auto split: if_splits)
    have t: "t \<noteq> 1" using run str by (auto simp: stranded_def)
    have "producer_pc (m_pc s t)" using t str by (auto simp: stranded_def)
    then show ?thesis
      using run stranded_not_empty [OF str n] t
      by (cases "m_pc s t")
        (auto simp: lock_mutex_def unlock_mutex_def append_length split: if_splits option.splits
          intro: stranded_move [OF str] stranded_inc [OF str] stranded_same [OF str])
  qed (use e FEv in auto)
qed

lemma stranded_run:
  "stranded n s \<Longrightarrow> list_all put_event es \<Longrightarrow> n + length es < 2 ^ 32 \<Longrightarrow> mrun fstep es s = Some s' \<Longrightarrow>
     stranded (n + length es) s'"
proof (induction es arbitrary: n s)
  case Nil
  then show ?case by simp
next
  case (Cons e es)
  then obtain u where u: "fstep e s = Some u" and es: "mrun fstep es u = Some s'" by (auto split: option.splits)
  have "stranded (Suc n) u" using stranded_step [OF Cons.prems(1) _ _ u] Cons.prems by simp
  then have "stranded (Suc n + length es) s'"
    by (rule Cons.IH) (use Cons.prems es in simp_all)
  then show ?case by simp
qed

lemma flin_no_got:
  "stranded n s \<Longrightarrow> n < 2 ^ 32 \<Longrightarrow> put_event e \<Longrightarrow> flin e s = None \<or> (\<exists>v. flin e s = Some (Put v))"
proof (cases e)
  case (FEv m)
  assume str: "stranded n s" and "put_event e"
  then show ?thesis
  proof (cases m)
    case (Run t)
    have "t = 1 \<or> producer_pc (m_pc s t)" using str by (simp add: stranded_def)
    then show ?thesis using FEv Run str by (cases "m_pc s t") (auto simp: stranded_def)
  qed (use FEv in auto)
qed auto

lemma stranded_content:
  "stranded n s \<Longrightarrow> list_all put_event es \<Longrightarrow> n + length es < 2 ^ 32 \<Longrightarrow> mon_good False s \<Longrightarrow>
     mrun fstep es s = Some s' \<Longrightarrow> \<exists>vs. mon_content s' = mon_content s @ vs"
proof (induction es arbitrary: n s)
  case Nil
  then show ?case by simp
next
  case (Cons e es)
  then obtain u where u: "fstep e s = Some u" and es: "mrun fstep es u = Some s'" by (auto split: option.splits)
  have ev: "put_event e" "list_all put_event es" "n < 2 ^ 32" "Suc n + length es < 2 ^ 32" using Cons.prems by simp_all
  note ok = fstep_ok [OF Cons.prems(4) u]
  have "\<exists>ws. mon_content u = mon_content s @ ws"
    using flin_no_got [OF Cons.prems(1) ev(3,1)] ok by (metis append_Nil2 fifo_step.simps(1) option.inject)
  moreover have "\<exists>vs. mon_content s' = mon_content u @ vs"
    using Cons.IH [OF stranded_step [OF Cons.prems(1) ev(3,1) u] ev(2,4) _ es] ok by blast
  ultimately show ?case by auto
qed

text \<open>
  (C5) \<open>http-server-futex.c\<close> loses a wake-up: in the run \<open>demo_lost\<close> a worker goes to sleep
  while a socket is queued, and from then on, whatever further connections are queued (fewer than
  \<open>2 ^ 32 - 1\<close> steps) and in whatever interleaving, it sleeps and the socket stays, because
  later puts find \<open>length\<close> positive and do not broadcast. Only another thread calling
  \<open>queue_get\<close> or a spurious wake-up can take it.
\<close>

theorem futex_wakeup_lost:
  assumes "mrun fstep (demo_lost @ es) (fmon_init [0, 1]) = Some s"
    and "list_all put_event es" and "length es < 2 ^ 32 - 1"
  shows "m_pc s 1 = GetSleep \<and> (\<exists>vs. mon_content s = 7 # vs)"
proof -
  note L = demo_lost_run
  have good: "mon_good False lost_state" using fut.good_run [OF fmon_init_good] L by blast
  have run: "mrun fstep es lost_state = Some s" using assms(1) L by (simp add: mrun_append)
  have str: "stranded 1 lost_state" using L by (auto simp: stranded_def intro!: exI [of _ 1])
  show ?thesis
    using stranded_run [OF str assms(2) _ run] stranded_content [OF str assms(2) _ good run] assms(3) L
    by (auto simp: stranded_def)
qed

theorem futex_wakeup_lost_witness:
  "\<exists>s. mrun fstep (demo_lost @ demo_next_put) (fmon_init [0, 1]) = Some s \<and> m_pc s 1 = GetSleep \<and>
     (\<exists>vs. mon_content s = 7 # vs)"
proof -
  have "\<exists>s. mrun fstep (demo_lost @ demo_next_put) (fmon_init [0, 1]) = Some s"
    by (simp add: f_eval)
  then obtain s where s: "mrun fstep (demo_lost @ demo_next_put) (fmon_init [0, 1]) = Some s" ..
  have "list_all put_event demo_next_put" "length demo_next_put < 2 ^ 32 - 1"
    by (simp_all add: demo_next_put_def)
  from futex_wakeup_lost [OF s this] s show ?thesis by blast
qed

lemma futex_fifo_witness:
  "\<exists>s. mrun fstep (demo_lost @ demo_next_put) (fmon_init [0, 1]) = Some s \<and> m_status s \<noteq> Faulted"
proof -
  have "\<exists>s. mrun fstep (demo_lost @ demo_next_put) (fmon_init [0, 1]) = Some s"
    by (simp add: f_eval)
  then show ?thesis using futex_fifo by blast
qed

end
