(* ===== verification/WaitQueue.thy ===== *)
theory WaitQueue
  imports Futex
begin

text \<open>
  The blocking layer that \<open>lcrq-server/ms-queue-http-server.c\<close> and \<open>lcrq-server/lcrq.c\<close> put on
  a non-blocking queue: \<open>queue_put\<close> and \<open>queue_get\<close> with a counter that serves as the
  futex word (\<open>futex_addr\<close>, \<open>waiter\<close>). The two files have the same text here; the queue below
  is an argument, and \<open>inner_queue\<close> states what the layer needs of it.
\<close>

section \<open>The layer\<close>

text \<open>Actions of the queue below: the two calls, and a step of a thread inside one.\<close>

datatype qev = EnqBegin tid int | DeqBegin tid | QRun tid

datatype wpc =
    WIdle
  | WEnq          \<comment> \<open>inside \<open>enqueue(sock, 0)\<close>\<close>
  | WAdd          \<comment> \<open>\<open>__sync_fetch_and_add(&waiter, 1) == 0\<close>\<close>
  | WSignal       \<comment> \<open>\<open>futex_signal(&waiter)\<close>\<close>
  | WWait         \<comment> \<open>\<open>cond_wait(&waiter, 0)\<close>\<close>
  | WSleep        \<comment> \<open>asleep in it\<close>
  | WTest         \<comment> \<open>\<open>while (waiter == 0)\<close>\<close>
  | WDeq          \<comment> \<open>inside \<open>dequeue(0)\<close>\<close>
  | WSub int      \<comment> \<open>\<open>__sync_fetch_and_sub(&waiter, 1)\<close>\<close>
  | WReturn int

text \<open>
  \<open>w_main\<close> are the threads that call \<open>queue_put\<close>, \<open>w_workers\<close> those of \<open>threadMain\<close>.
\<close>

record 'q wserver =
  w_queue :: 'q
  w_count :: u32
  w_pc :: "tid \<Rightarrow> wpc"
  w_main :: "tid list"
  w_workers :: "tid list"

datatype wev =
    WPut tid int
  | WGet tid
  | WRun tid
  | WWake tid "tid list"    \<comment> \<open>\<open>futex_signal\<close>, and the threads it wakes\<close>
  | WSpurious tid

definition w_go :: "tid \<Rightarrow> wpc \<Rightarrow> 'q wserver \<Rightarrow> 'q wserver" where
  "w_go t p s = s\<lparr>w_pc := (w_pc s)(t := p)\<rparr>"

definition w_sleepers :: "'q wserver \<Rightarrow> tid list" where
  "w_sleepers s = filter (\<lambda>t. w_pc s t = WSleep) (w_main s @ w_workers s)"

definition w_wake :: "tid list \<Rightarrow> 'q wserver \<Rightarrow> 'q wserver" where
  "w_wake ws s = s\<lparr>w_pc := (\<lambda>u. if u \<in> set ws \<and> w_pc s u = WSleep then WTest else w_pc s u)\<rparr>"

text \<open>A step of the queue below, by this thread.\<close>

definition w_inner :: "(qev \<Rightarrow> 'q \<Rightarrow> 'q option) \<Rightarrow> qev \<Rightarrow> tid \<Rightarrow> wpc \<Rightarrow> 'q wserver \<Rightarrow> 'q wserver option" where
  "w_inner qstep e t p s =
     (case qstep e (w_queue s) of None \<Rightarrow> None | Some q \<Rightarrow> Some (w_go t p (s\<lparr>w_queue := q\<rparr>)))"

text \<open>The rest of \<open>queue_put\<close> after its call of \<open>enqueue\<close>.\<close>

fun queue_put_pc :: "(qev \<Rightarrow> 'q \<Rightarrow> 'q option) \<Rightarrow> (tid \<Rightarrow> 'q \<Rightarrow> int option) \<Rightarrow> wpc \<Rightarrow> tid \<Rightarrow> 'q wserver \<Rightarrow> 'q wserver option" where
  "queue_put_pc qstep qres WEnq t s =
     (case qres t (w_queue s) of None \<Rightarrow> w_inner qstep (QRun t) t WEnq s | Some v \<Rightarrow> Some (w_go t WAdd s))"
| "queue_put_pc qstep qres WAdd t s =
     Some (w_go t (if w_count s = 0 then WSignal else WIdle) (s\<lparr>w_count := w_count s + 1\<rparr>))"
| "queue_put_pc qstep qres _ t s = None"

fun queue_get_pc :: "(qev \<Rightarrow> 'q \<Rightarrow> 'q option) \<Rightarrow> (tid \<Rightarrow> 'q \<Rightarrow> int option) \<Rightarrow> wpc \<Rightarrow> tid \<Rightarrow> 'q wserver \<Rightarrow> 'q wserver option" where
  "queue_get_pc qstep qres WWait t s =
     Some (w_go t (if kernel_sleeps (cond_wait 0) (sint (w_count s)) then WSleep else WTest) s)"
| "queue_get_pc qstep qres WTest t s =
     (if w_count s = 0 then Some (w_go t WWait s) else w_inner qstep (DeqBegin t) t WDeq s)"
| "queue_get_pc qstep qres WDeq t s =
     (case qres t (w_queue s) of
        None \<Rightarrow> w_inner qstep (QRun t) t WDeq s
      | Some v \<Rightarrow> Some (w_go t (if v = -1 then WWait else WSub v) s))"
| "queue_get_pc qstep qres (WSub v) t s = Some (w_go t (WReturn v) (s\<lparr>w_count := w_count s - 1\<rparr>))"
| "queue_get_pc qstep qres _ t s = None"

fun w_ready :: "wpc \<Rightarrow> bool" where
  "w_ready WIdle = True"
| "w_ready (WReturn _) = True"
| "w_ready _ = False"

fun wstep :: "(qev \<Rightarrow> 'q \<Rightarrow> 'q option) \<Rightarrow> (tid \<Rightarrow> 'q \<Rightarrow> int option) \<Rightarrow> wev \<Rightarrow> 'q wserver \<Rightarrow> 'q wserver option" where
  "wstep qstep qres (WPut t sock) s =
     (if t \<in> set (w_main s) \<and> w_ready (w_pc s t) then w_inner qstep (EnqBegin t sock) t WEnq s else None)"
| "wstep qstep qres (WGet t) s =
     (if t \<in> set (w_workers s) \<and> w_ready (w_pc s t) then Some (w_go t WWait s) else None)"
| "wstep qstep qres (WRun t) s =
     (case queue_put_pc qstep qres (w_pc s t) t s of
        Some s' \<Rightarrow> Some s' | None \<Rightarrow> queue_get_pc qstep qres (w_pc s t) t s)"
| "wstep qstep qres (WWake t ws) s =
     (if w_pc s t = WSignal \<and> kernel_wakes futex_signal (w_sleepers s) ws
      then Some (w_go t WIdle (w_wake ws s)) else None)"
| "wstep qstep qres (WSpurious t) s = (if w_pc s t = WSleep then Some (w_go t WTest s) else None)"

definition w_init :: "'q \<Rightarrow> tid list \<Rightarrow> tid list \<Rightarrow> 'q wserver" where
  "w_init q main workers =
     \<lparr>w_queue = q, w_count = 0, w_pc = (\<lambda>t. WIdle), w_main = main, w_workers = workers\<rparr>"

text \<open>The effect of a step on the queue below.\<close>

fun wlin :: "(tid \<Rightarrow> 'q \<Rightarrow> int option) \<Rightarrow> (qev \<Rightarrow> 'q \<Rightarrow> int qact option) \<Rightarrow> wev \<Rightarrow> 'q wserver \<Rightarrow> int qact option" where
  "wlin qres qlin (WRun t) s =
     (if (w_pc s t = WEnq \<or> w_pc s t = WDeq) \<and> qres t (w_queue s) = None
      then qlin (QRun t) (w_queue s) else None)"
| "wlin qres qlin _ s = None"

section \<open>What the layer needs of the queue below\<close>

text \<open>
  How far a thread's operation is: not yet effective (with the value to be put), or effective
  (with the value got; -1 is the empty answer).
\<close>

datatype qobs = NoOp | Enqing int | Enqed | Deqing | Deqed int

text \<open>
  Values are C \<open>int\<close>s other than -1, which the code keeps for the empty answer.
\<close>

definition object :: "int \<Rightarrow> bool" where
  "object v \<longleftrightarrow> - (2 ^ 31) \<le> v \<and> v < 2 ^ 31 \<and> v \<noteq> -1"

lemma object_nonempty: "object v \<Longrightarrow> v \<noteq> -1"
  by (simp add: object_def)

fun obj_put :: "qev \<Rightarrow> bool" where
  "obj_put (EnqBegin t v) = object v"
| "obj_put _ = True"

locale inner_queue =
  fixes qstep :: "qev \<Rightarrow> 'q \<Rightarrow> 'q option"
    and qres :: "tid \<Rightarrow> 'q \<Rightarrow> int option"
    and qgood :: "'q \<Rightarrow> bool"
    and qlin :: "qev \<Rightarrow> 'q \<Rightarrow> int qact option"
    and qbag :: "'q \<Rightarrow> int multiset"
    and qobs :: "tid \<Rightarrow> 'q \<Rightarrow> qobs"
  assumes q_good: "qgood q \<Longrightarrow> obj_put e \<Longrightarrow> qstep e q = Some q' \<Longrightarrow> qgood q'"
    and q_other: "qstep e q = Some q' \<Longrightarrow> e = QRun t \<or> e = DeqBegin t \<or> e = EnqBegin t v \<Longrightarrow> u \<noteq> t \<Longrightarrow>
      qobs u q' = qobs u q"
    and q_enq: "qgood q \<Longrightarrow> qstep (EnqBegin t v) q = Some q' \<Longrightarrow> qobs t q' = Enqing v \<and> qbag q' = qbag q"
    and q_deq: "qgood q \<Longrightarrow> qstep (DeqBegin t) q = Some q' \<Longrightarrow> qobs t q' = Deqing \<and> qbag q' = qbag q"
    and q_quiet: "qgood q \<Longrightarrow> qstep (QRun t) q = Some q' \<Longrightarrow> qlin (QRun t) q = None \<Longrightarrow>
      qbag q' = qbag q \<and> (qobs t q' = qobs t q \<or> (qobs t q = Deqing \<and> qobs t q' = Deqed (-1)))"
    and q_put: "qgood q \<Longrightarrow> qstep (QRun t) q = Some q' \<Longrightarrow> qlin (QRun t) q = Some (Put v) \<Longrightarrow>
      qbag q' = add_mset v (qbag q) \<and> qobs t q = Enqing v \<and> qobs t q' = Enqed"
    and q_got: "qgood q \<Longrightarrow> qstep (QRun t) q = Some q' \<Longrightarrow> qlin (QRun t) q = Some (Got v) \<Longrightarrow>
      qbag q = add_mset v (qbag q') \<and> qobs t q = Deqing \<and> qobs t q' = Deqed v"
    and q_empty: "qgood q \<Longrightarrow> qstep (QRun t) q = Some q' \<Longrightarrow> qlin (QRun t) q \<noteq> Some Empty"
    and q_res: "qgood q \<Longrightarrow> qres t q = Some v \<Longrightarrow> qobs t q = Enqed \<or> qobs t q = Deqed v"
begin

end

section \<open>The invariant of the layer\<close>

definition adding :: "(tid \<Rightarrow> 'q \<Rightarrow> qobs) \<Rightarrow> 'q wserver \<Rightarrow> tid \<Rightarrow> bool" where
  "adding qobs s t \<longleftrightarrow> (w_pc s t = WEnq \<and> qobs t (w_queue s) = Enqed) \<or> w_pc s t = WAdd"

definition subbing :: "(tid \<Rightarrow> 'q \<Rightarrow> qobs) \<Rightarrow> 'q wserver \<Rightarrow> tid \<Rightarrow> bool" where
  "subbing qobs s t \<longleftrightarrow>
     (w_pc s t = WDeq \<and> (case qobs t (w_queue s) of Deqed v \<Rightarrow> v \<noteq> -1 | _ \<Rightarrow> False)) \<or>
     (case w_pc s t of WSub v \<Rightarrow> True | _ \<Rightarrow> False)"

definition w_threads :: "'q wserver \<Rightarrow> tid list" where
  "w_threads s = w_main s @ w_workers s"

definition adders :: "(tid \<Rightarrow> 'q \<Rightarrow> qobs) \<Rightarrow> 'q wserver \<Rightarrow> nat" where
  "adders qobs s = length (filter (adding qobs s) (w_threads s))"

definition subbers :: "(tid \<Rightarrow> 'q \<Rightarrow> qobs) \<Rightarrow> 'q wserver \<Rightarrow> nat" where
  "subbers qobs s = length (filter (subbing qobs s) (w_threads s))"

fun get_pc :: "wpc \<Rightarrow> bool" where
  "get_pc WWait = True"
| "get_pc WSleep = True"
| "get_pc WTest = True"
| "get_pc WDeq = True"
| "get_pc (WSub _) = True"
| "get_pc (WReturn _) = True"
| "get_pc _ = False"

definition w_pcs_ok :: "(tid \<Rightarrow> 'q \<Rightarrow> qobs) \<Rightarrow> 'q wserver \<Rightarrow> bool" where
  "w_pcs_ok qobs s \<longleftrightarrow>
     (\<forall>t. (w_pc s t = WEnq \<longrightarrow> qobs t (w_queue s) = Enqed \<or> (\<exists>v. v \<noteq> -1 \<and> qobs t (w_queue s) = Enqing v)) \<and>
          (w_pc s t = WDeq \<longrightarrow> qobs t (w_queue s) = Deqing \<or> (\<exists>v. qobs t (w_queue s) = Deqed v)) \<and>
          (w_pc s t \<noteq> WIdle \<longrightarrow> t \<in> set (w_threads s)) \<and>
          (get_pc (w_pc s t) \<longrightarrow> t \<in> set (w_workers s)))"

text \<open>
  The counter is the number of values in the queue, give or take the operations that have taken
  effect below but not yet on the counter. And while it is not zero, not everyone sleeps.
\<close>

definition count_ok :: "(tid \<Rightarrow> 'q \<Rightarrow> qobs) \<Rightarrow> ('q \<Rightarrow> int multiset) \<Rightarrow> 'q wserver \<Rightarrow> bool" where
  "count_ok qobs qbag s \<longleftrightarrow>
     w_count s + of_nat (adders qobs s) = of_nat (size (qbag (w_queue s))) + of_nat (subbers qobs s)"

definition someone_up :: "'q wserver \<Rightarrow> bool" where
  "someone_up s \<longleftrightarrow> w_count s = 0 \<or> (\<exists>t \<in> set (w_workers s). w_pc s t \<noteq> WSleep) \<or> (\<exists>t. w_pc s t = WSignal)"

definition w_inv :: "('q \<Rightarrow> bool) \<Rightarrow> (tid \<Rightarrow> 'q \<Rightarrow> qobs) \<Rightarrow> ('q \<Rightarrow> int multiset) \<Rightarrow> 'q wserver \<Rightarrow> bool" where
  "w_inv qgood qobs qbag s \<longleftrightarrow>
     qgood (w_queue s) \<and> distinct (w_threads s) \<and> w_workers s \<noteq> [] \<and> -1 \<notin># qbag (w_queue s) \<and>
     w_pcs_ok qobs s \<and> count_ok qobs qbag s \<and> someone_up s"

fun put_valid :: "wev \<Rightarrow> bool" where
  "put_valid (WPut t sock) = object sock"
| "put_valid _ = True"


lemma w_go_simps [simp]:
  "w_queue (w_go t p s) = w_queue s" "w_count (w_go t p s) = w_count s" "w_main (w_go t p s) = w_main s"
  "w_workers (w_go t p s) = w_workers s" "w_pc (w_go t p s) = (w_pc s)(t := p)"
  "w_threads (w_go t p s) = w_threads s"
  by (simp_all add: w_go_def w_threads_def)

lemma filter_step:
  assumes "distinct xs" "t \<in> set xs" "\<And>u. u \<noteq> t \<Longrightarrow> P' u = P u"
  shows "of_nat (length (filter P' xs)) + (of_bool (P t) :: u32) = of_nat (length (filter P xs)) + of_bool (P' t)"
proof -
  obtain ys zs where xs: "xs = ys @ t # zs" using split_list [OF assms(2)] by blast
  then have "t \<notin> set ys" "t \<notin> set zs" using assms(1) by auto
  then have "filter P' ys = filter P ys" "filter P' zs = filter P zs"
    using assms(3) by (metis (no_types, lifting) filter_cong)+
  then show ?thesis using xs by simp
qed

text \<open>One thread moves: the counting equation follows from what changes at that thread.\<close>

lemma count_step:
  assumes ok: "count_ok qobs qbag s" and "distinct (w_threads s)" "t \<in> set (w_threads s)"
    and "w_threads s' = w_threads s"
    and other: "\<And>u. u \<noteq> t \<Longrightarrow> w_pc s' u = w_pc s u \<and> qobs u (w_queue s') = qobs u (w_queue s)"
    and delta: "w_count s' + of_bool (adding qobs s' t) + of_bool (subbing qobs s t) + of_nat (size (qbag (w_queue s)))
      = w_count s + of_bool (adding qobs s t) + of_bool (subbing qobs s' t) + of_nat (size (qbag (w_queue s')))"
  shows "count_ok qobs qbag s'"
proof -
  have "adding qobs s' u = adding qobs s u" "subbing qobs s' u = subbing qobs s u" if "u \<noteq> t" for u
    using other [OF that] by (simp_all add: adding_def subbing_def)
  then have a: "of_nat (adders qobs s') + (of_bool (adding qobs s t) :: u32) = of_nat (adders qobs s) + of_bool (adding qobs s' t)"
    and b: "of_nat (subbers qobs s') + (of_bool (subbing qobs s t) :: u32) = of_nat (subbers qobs s) + of_bool (subbing qobs s' t)"
    unfolding adders_def subbers_def assms(4)
    using filter_step [OF assms(2,3), of "adding qobs s'" "adding qobs s"]
      filter_step [OF assms(2,3), of "subbing qobs s'" "subbing qobs s"] by blast+
  let ?A = "of_nat (adders qobs s) :: u32" and ?B = "of_nat (subbers qobs s) :: u32"
  have "w_count s' + of_nat (adders qobs s') = w_count s' + of_bool (adding qobs s' t) + ?A - of_bool (adding qobs s t)"
    using a by (simp add: algebra_simps)
  also have "\<dots> = w_count s + ?A + of_bool (subbing qobs s' t) + of_nat (size (qbag (w_queue s')))
      - of_bool (subbing qobs s t) - of_nat (size (qbag (w_queue s)))"
    using delta by (simp add: algebra_simps)
  also have "\<dots> = of_nat (size (qbag (w_queue s'))) + (?B + of_bool (subbing qobs s' t) - of_bool (subbing qobs s t))"
    using ok by (simp add: count_ok_def algebra_simps)
  also have "?B + of_bool (subbing qobs s' t) - of_bool (subbing qobs s t) = of_nat (subbers qobs s')"
    using b by (metis add_diff_cancel_right')
  finally show ?thesis by (simp add: count_ok_def)
qed

text \<open>The invariant after a step of one thread, from what the step did.\<close>

lemma w_inv_move:
  assumes inv: "w_inv qgood qobs qbag s" and pc: "w_pc s' = (w_pc s)(t := p)" and t: "t \<in> set (w_threads s)"
    and thr: "w_main s' = w_main s" "w_workers s' = w_workers s"
    and other: "\<And>u. u \<noteq> t \<Longrightarrow> qobs u (w_queue s') = qobs u (w_queue s)"
    and good: "qgood (w_queue s')" "-1 \<notin># qbag (w_queue s')"
    and delta: "w_count s' + of_bool (adding qobs s' t) + of_bool (subbing qobs s t) + of_nat (size (qbag (w_queue s)))
      = w_count s + of_bool (adding qobs s t) + of_bool (subbing qobs s' t) + of_nat (size (qbag (w_queue s')))"
    and enq: "p = WEnq \<Longrightarrow> qobs t (w_queue s') = Enqed \<or> (\<exists>v. v \<noteq> -1 \<and> qobs t (w_queue s') = Enqing v)"
    and deq: "p = WDeq \<Longrightarrow> qobs t (w_queue s') = Deqing \<or> (\<exists>v. qobs t (w_queue s') = Deqed v)"
    and wk: "get_pc p \<Longrightarrow> t \<in> set (w_workers s)"
    and up: "w_count s' = 0 \<or> p = WSignal \<or> (t \<in> set (w_workers s) \<and> p \<noteq> WSleep) \<or>
      (w_count s \<noteq> 0 \<and> p \<noteq> WSleep \<and> w_pc s t \<noteq> WSignal)"
  shows "w_inv qgood qobs qbag s'"
proof -
  have th: "w_threads s' = w_threads s" using thr by (simp add: w_threads_def)
  have "count_ok qobs qbag s'"
    by (rule count_step [of qobs qbag s t]) (use inv t th pc other delta in \<open>auto simp: w_inv_def\<close>)
  moreover have "w_pcs_ok qobs s'"
    unfolding w_pcs_ok_def
  proof
    fix u
    have ok: "(w_pc s u = WEnq \<longrightarrow> qobs u (w_queue s) = Enqed \<or> (\<exists>v. v \<noteq> -1 \<and> qobs u (w_queue s) = Enqing v)) \<and>
      (w_pc s u = WDeq \<longrightarrow> qobs u (w_queue s) = Deqing \<or> (\<exists>v. qobs u (w_queue s) = Deqed v)) \<and>
      (w_pc s u \<noteq> WIdle \<longrightarrow> u \<in> set (w_threads s)) \<and> (get_pc (w_pc s u) \<longrightarrow> u \<in> set (w_workers s))"
      using inv unfolding w_inv_def w_pcs_ok_def by blast
    show "(w_pc s' u = WEnq \<longrightarrow> qobs u (w_queue s') = Enqed \<or> (\<exists>v. v \<noteq> -1 \<and> qobs u (w_queue s') = Enqing v)) \<and>
      (w_pc s' u = WDeq \<longrightarrow> qobs u (w_queue s') = Deqing \<or> (\<exists>v. qobs u (w_queue s') = Deqed v)) \<and>
      (w_pc s' u \<noteq> WIdle \<longrightarrow> u \<in> set (w_threads s')) \<and> (get_pc (w_pc s' u) \<longrightarrow> u \<in> set (w_workers s'))"
      using ok pc other [of u] enq deq wk t th thr by (cases "u = t") simp_all
  qed
  moreover have "someone_up s'"
  proof (cases "w_count s \<noteq> 0 \<and> p \<noteq> WSleep \<and> w_pc s t \<noteq> WSignal")
    case True
    then have "(\<exists>u \<in> set (w_workers s). w_pc s u \<noteq> WSleep) \<or> (\<exists>u. w_pc s u = WSignal)"
      using inv by (auto simp: w_inv_def someone_up_def)
    then show ?thesis using True unfolding someone_up_def thr pc by (metis fun_upd_apply)
  next
    case False
    then show ?thesis using up unfolding someone_up_def thr pc by (metis fun_upd_same)
  qed
  ultimately show ?thesis using inv good th thr by (simp add: w_inv_def)
qed

lemma w_thread: "w_inv qgood qobs qbag s \<Longrightarrow> w_pc s t \<noteq> WIdle \<Longrightarrow> t \<in> set (w_threads s)"
  by (simp add: w_inv_def w_pcs_ok_def)

lemma w_worker: "w_inv qgood qobs qbag s \<Longrightarrow> get_pc (w_pc s t) \<Longrightarrow> t \<in> set (w_workers s)"
  by (simp add: w_inv_def w_pcs_ok_def)


text \<open>\<open>futex_signal\<close> wakes one sleeper, if there is one.\<close>

lemma signal_wakes:
  "kernel_wakes futex_signal sl ws \<Longrightarrow> set ws \<subseteq> set sl \<and> (ws = [] \<longrightarrow> sl = [])"
  by (cases "remdups sl") (auto simp: kernel_wakes_def futex_signal_def futex_wake_def)

lemma w_inv_wake:
  assumes inv: "w_inv qgood qobs qbag s" and pc: "w_pc s t = WSignal"
    and ws: "kernel_wakes futex_signal (w_sleepers s) ws"
  shows "w_inv qgood qobs qbag (w_go t WIdle (w_wake ws s))" (is "w_inv _ _ _ ?s")
proof -
  have p: "w_pc ?s u = (if u = t then WIdle else if u \<in> set ws \<and> w_pc s u = WSleep then WTest else w_pc s u)" for u
    by (simp add: w_wake_def)
  have same: "w_queue ?s = w_queue s" "w_count ?s = w_count s" "w_main ?s = w_main s" "w_workers ?s = w_workers s"
    "w_threads ?s = w_threads s" by (simp_all add: w_wake_def w_threads_def)
  have "adding qobs ?s u = adding qobs s u" "subbing qobs ?s u = subbing qobs s u" for u
    using pc unfolding adding_def subbing_def p same by auto
  then have "adders qobs ?s = adders qobs s" "subbers qobs ?s = subbers qobs s"
    unfolding adders_def subbers_def same by presburger+
  then have "count_ok qobs qbag ?s" using inv unfolding w_inv_def count_ok_def same by simp
  moreover have "w_pcs_ok qobs ?s" using inv unfolding w_inv_def w_pcs_ok_def p same by auto
  moreover have "someone_up ?s"
  proof (cases ws)
    case Nil
    then have "w_sleepers s = []" using signal_wakes [OF ws] by simp
    moreover obtain u where u: "u \<in> set (w_workers s)" using inv by (cases "w_workers s") (simp_all add: w_inv_def, blast)
    ultimately have "w_pc s u \<noteq> WSleep" by (auto simp: w_sleepers_def filter_empty_conv)
    then have "w_pc ?s u \<noteq> WSleep" unfolding p by simp
    then show ?thesis using u unfolding someone_up_def same by blast
  next
    case (Cons u us)
    then have "w_pc s u = WSleep" using signal_wakes [OF ws] by (auto simp: w_sleepers_def)
    moreover from this have "u \<in> set (w_workers s)" using w_worker [OF inv, of u] by simp
    ultimately show ?thesis unfolding someone_up_def same p using Cons by auto
  qed
  ultimately show ?thesis using inv unfolding w_inv_def same by simp
qed

lemma w_ready_calm: "w_ready (w_pc s t) \<Longrightarrow> \<not> adding qobs s t \<and> \<not> subbing qobs s t"
  by (cases "w_pc s t") (simp_all add: adding_def subbing_def)

lemma kernel_sleeps_zero: "kernel_sleeps (cond_wait 0) (sint (c :: u32)) \<longleftrightarrow> c = 0"
  by (auto simp: kernel_sleeps_def cond_wait_def intro: signed_word_eqI)

context inner_queue
begin

lemma w_inner_run:
  assumes inv: "w_inv qgood qobs qbag s" and pc: "w_pc s t = WEnq \<or> w_pc s t = WDeq"
    and run: "w_inner qstep (QRun t) t (w_pc s t) s = Some s'"
  shows "w_inv qgood qobs qbag s'"
proof -
  obtain q where q: "qstep (QRun t) (w_queue s) = Some q" and s': "s' = w_go t (w_pc s t) (s\<lparr>w_queue := q\<rparr>)"
    using run by (auto simp: w_inner_def split: option.splits)
  have g: "qgood (w_queue s)" "-1 \<notin># qbag (w_queue s)" and ok: "w_pcs_ok qobs s" using inv by (simp_all add: w_inv_def)
  have t: "t \<in> set (w_threads s)" by (rule w_thread [OF inv]) (use pc in auto)
  have wk: "get_pc (w_pc s t) \<Longrightarrow> t \<in> set (w_workers s)" by (rule w_worker [OF inv])
  have other: "qobs u q = qobs u (w_queue s)" if "u \<noteq> t" for u using q_other [OF q _ that] by blast
  have E: "w_pc s t = WEnq \<Longrightarrow> qobs t (w_queue s) = Enqed \<or> (\<exists>v. v \<noteq> -1 \<and> qobs t (w_queue s) = Enqing v)"
    and D: "w_pc s t = WDeq \<Longrightarrow> qobs t (w_queue s) = Deqing \<or> (\<exists>v. qobs t (w_queue s) = Deqed v)"
    using ok by (simp_all add: w_pcs_ok_def)
  have "someone_up s" using inv by (simp add: w_inv_def)
  then have up: "w_count s' = 0 \<or> w_pc s t = WSignal \<or> (t \<in> set (w_workers s) \<and> w_pc s t \<noteq> WSleep) \<or>
      (w_count s \<noteq> 0 \<and> w_pc s t \<noteq> WSleep \<and> w_pc s t \<noteq> WSignal)" using pc s' by auto
  show ?thesis
  proof (cases "qlin (QRun t) (w_queue s)")
    case None
    note N = q_quiet [OF g(1) q None]
    have "qobs t q = qobs t (w_queue s) \<or> qobs t (w_queue s) = Deqing \<and> qobs t q = Deqed (-1)" using N by blast
    then show ?thesis
    proof
      assume e: "qobs t q = qobs t (w_queue s)"
      show ?thesis
        by (rule w_inv_move [OF inv, of s' t "w_pc s t"])
          (use s' t other g N E D wk up pc e q_good [OF g(1) _ q] in \<open>auto simp: adding_def subbing_def\<close>)
    next
      assume e: "qobs t (w_queue s) = Deqing \<and> qobs t q = Deqed (-1)"
      then have "w_pc s t = WDeq" using pc E by auto
      then show ?thesis
        by (intro w_inv_move [OF inv, of s' t "w_pc s t"])
          (use s' t other g N wk up e q_good [OF g(1) _ q] in \<open>auto simp: adding_def subbing_def\<close>)
    qed
  next
    case (Some a)
    show ?thesis
    proof (cases a)
      case (Put v)
      note N = q_put [OF g(1) q Some [unfolded Put]]
      have "w_pc s t = WEnq" "v \<noteq> -1" using pc D N E by auto
      then show ?thesis
        by (intro w_inv_move [OF inv, of s' t "w_pc s t"])
          (use s' t other g N up q_good [OF g(1) _ q] in \<open>auto simp: adding_def subbing_def\<close>)
    next
      case (Got v)
      note N = q_got [OF g(1) q Some [unfolded Got]]
      have "w_pc s t = WDeq" "v \<noteq> -1" using pc E N g by auto
      then show ?thesis
        by (intro w_inv_move [OF inv, of s' t "w_pc s t"])
          (use s' t other g N wk up q_good [OF g(1) _ q] in \<open>auto simp: adding_def subbing_def\<close>)
    next
      case Empty
      then show ?thesis using q_empty [OF g(1) q] Some by simp
    qed
  qed
qed

lemma w_step_inv:
  assumes inv: "w_inv qgood qobs qbag s" and valid: "put_valid e" and step: "wstep qstep qres e s = Some s'"
  shows "w_inv qgood qobs qbag s'"
proof (cases e)
  case (WPut t v)
  then obtain q where q: "qstep (EnqBegin t v) (w_queue s) = Some q" and s': "s' = w_go t WEnq (s\<lparr>w_queue := q\<rparr>)"
    and t: "t \<in> set (w_main s)" and r: "w_ready (w_pc s t)"
    using step by (auto simp: w_inner_def split: if_splits option.splits)
  have g: "qgood (w_queue s)" "-1 \<notin># qbag (w_queue s)" "someone_up s" using inv by (simp_all add: w_inv_def)
  note N = q_enq [OF g(1) q]
  have G: "qgood q" using q_good [OF g(1) _ q] valid WPut by simp
  have other: "qobs u q = qobs u (w_queue s)" if "u \<noteq> t" for u using q_other [OF q _ that] by blast
  have up: "w_count s = 0 \<or> (w_count s \<noteq> 0 \<and> w_pc s t \<noteq> WSignal)" using r by auto
  show ?thesis
    by (rule w_inv_move [OF inv, of s' t WEnq])
      (use s' t other g N G r valid WPut object_nonempty [of v] w_ready_calm [OF r, of qobs] in
        \<open>auto simp: adding_def subbing_def w_threads_def\<close>)
next
  case (WGet t)
  then have t: "t \<in> set (w_workers s)" and s': "s' = w_go t WWait s" and r: "w_ready (w_pc s t)"
    using step by (auto split: if_splits)
  show ?thesis
    by (rule w_inv_move [OF inv, of s' t WWait])
      (use inv s' t r in \<open>auto simp: adding_def subbing_def w_threads_def w_inv_def split: wpc.splits\<close>)
next
  case (WWake t ws)
  then show ?thesis using step w_inv_wake [OF inv] by (auto split: if_splits)
next
  case (WSpurious t)
  then have pc: "w_pc s t = WSleep" and s': "s' = w_go t WTest s" using step by (auto split: if_splits)
  have t: "t \<in> set (w_workers s)" using w_worker [OF inv, of t] pc by simp
  show ?thesis
    by (rule w_inv_move [OF inv, of s' t WTest])
      (use inv s' t pc in \<open>auto simp: adding_def subbing_def w_threads_def w_inv_def\<close>)
next
  case (WRun t)
  have g: "qgood (w_queue s)" "-1 \<notin># qbag (w_queue s)" "someone_up s" and ok: "w_pcs_ok qobs s"
    using inv by (simp_all add: w_inv_def)
  have wk: "get_pc (w_pc s t) \<Longrightarrow> t \<in> set (w_workers s)" by (rule w_worker [OF inv])
  have thr: "w_pc s t \<noteq> WIdle \<Longrightarrow> t \<in> set (w_threads s)" by (rule w_thread [OF inv])
  note res = q_res [OF g(1), of t]
  have E: "w_pc s t = WEnq \<Longrightarrow> qobs t (w_queue s) = Enqed \<or> (\<exists>v. v \<noteq> -1 \<and> qobs t (w_queue s) = Enqing v)"
    and D: "w_pc s t = WDeq \<Longrightarrow> qobs t (w_queue s) = Deqing \<or> (\<exists>v. qobs t (w_queue s) = Deqed v)"
    using ok by (simp_all add: w_pcs_ok_def)
  show ?thesis
  proof (cases "w_pc s t")
    case WEnq
    show ?thesis
    proof (cases "qres t (w_queue s)")
      case None
      then show ?thesis using w_inner_run [OF inv, of t s'] step WRun WEnq by (auto split: option.splits)
    next
      case (Some v)
      then have s': "s' = w_go t WAdd s" using step WRun WEnq by simp
      have "qobs t (w_queue s) = Enqed" using res [OF Some] E [OF WEnq] by auto
      then show ?thesis
        by (intro w_inv_move [OF inv, of s' t WAdd])
          (use s' g thr WEnq in \<open>auto simp: adding_def subbing_def someone_up_def\<close>)
    qed
  next
    case WAdd
    then have s': "s' = w_go t (if w_count s = 0 then WSignal else WIdle) (s\<lparr>w_count := w_count s + 1\<rparr>)"
      using step WRun by simp
    show ?thesis
      by (rule w_inv_move [OF inv, of s' t "if w_count s = 0 then WSignal else WIdle"])
        (use s' g thr WAdd in \<open>auto simp: adding_def subbing_def split: if_splits\<close>)
  next
    case WWait
    then have s': "s' = w_go t (if w_count s = 0 then WSleep else WTest) s"
      using step WRun by (simp add: kernel_sleeps_zero)
    show ?thesis
      by (rule w_inv_move [OF inv, of s' t "if w_count s = 0 then WSleep else WTest"])
        (use s' g thr wk WWait in \<open>auto simp: adding_def subbing_def split: if_splits\<close>)
  next
    case WTest
    show ?thesis
    proof (cases "w_count s = 0")
      case True
      then have s': "s' = w_go t WWait s" using step WRun WTest by simp
      show ?thesis
        by (rule w_inv_move [OF inv, of s' t WWait])
          (use s' g thr wk WTest in \<open>auto simp: adding_def subbing_def\<close>)
    next
      case False
      then obtain q where q: "qstep (DeqBegin t) (w_queue s) = Some q" and s': "s' = w_go t WDeq (s\<lparr>w_queue := q\<rparr>)"
        using step WRun WTest by (auto simp: w_inner_def split: option.splits)
      have other: "qobs u q = qobs u (w_queue s)" if "u \<noteq> t" for u using q_other [OF q _ that] by blast
      show ?thesis
        by (rule w_inv_move [OF inv, of s' t WDeq])
          (use s' g thr wk WTest other q_deq [OF g(1) q] q_good [OF g(1) _ q] in \<open>auto simp: adding_def subbing_def\<close>)
    qed
  next
    case WDeq
    show ?thesis
    proof (cases "qres t (w_queue s)")
      case None
      then show ?thesis using w_inner_run [OF inv, of t s'] step WRun WDeq by (auto split: option.splits)
    next
      case (Some v)
      then have s': "s' = w_go t (if v = -1 then WWait else WSub v) s" using step WRun WDeq by simp
      have "qobs t (w_queue s) = Deqed v" using res [OF Some] D [OF WDeq] by auto
      then show ?thesis
        by (intro w_inv_move [OF inv, of s' t "if v = -1 then WWait else WSub v"])
          (use s' g thr wk WDeq in \<open>auto simp: adding_def subbing_def split: if_splits\<close>)
    qed
  next
    case (WSub v)
    then have s': "s' = w_go t (WReturn v) (s\<lparr>w_count := w_count s - 1\<rparr>)" using step WRun by simp
    show ?thesis
      by (rule w_inv_move [OF inv, of s' t "WReturn v"])
        (use s' g thr wk WSub in \<open>auto simp: adding_def subbing_def\<close>)
  qed (use step WRun in simp_all)
qed

lemma w_run_inv:
  "w_inv qgood qobs qbag s \<Longrightarrow> list_all put_valid es \<Longrightarrow> mrun (wstep qstep qres) es s = Some s' \<Longrightarrow>
     w_inv qgood qobs qbag s'"
proof (induction es arbitrary: s)
  case Nil
  then show ?case by simp
next
  case (Cons e es)
  then show ?case using w_step_inv by (auto split: option.splits)
qed

lemma w_init_inv:
  assumes "qgood q" "qbag q = {#}" "distinct (main @ workers)" "workers \<noteq> []"
  shows "w_inv qgood qobs qbag (w_init q main workers)"
proof -
  have "adders qobs (w_init q main workers) = 0" "subbers qobs (w_init q main workers) = 0"
    by (simp_all add: adders_def subbers_def adding_def subbing_def w_init_def)
  then show ?thesis using assms
    by (simp add: w_inv_def w_pcs_ok_def count_ok_def someone_up_def) (simp add: w_init_def w_threads_def)
qed

text \<open>
  When every worker sleeps and no thread is inside \<open>queue_put\<close>, nothing is queued.
\<close>

lemma all_asleep_empty:
  assumes inv: "w_inv qgood qobs qbag s" and small: "size (qbag (w_queue s)) < 2 ^ 32"
    and asleep: "\<And>t. t \<in> set (w_workers s) \<Longrightarrow> w_pc s t = WSleep"
    and idle: "\<And>t. t \<in> set (w_main s) \<Longrightarrow> w_pc s t = WIdle"
  shows "qbag (w_queue s) = {#}"
proof -
  have pcs: "w_pc s t = WIdle \<or> w_pc s t = WSleep" for t
  proof (cases "w_pc s t = WIdle")
    case False
    then show ?thesis using w_thread [OF inv False] asleep idle by (auto simp: w_threads_def)
  qed simp
  have "\<not> adding qobs s t" "\<not> subbing qobs s t" for t using pcs [of t] by (auto simp: adding_def subbing_def)
  then have "adders qobs s = 0" "subbers qobs s = 0" by (simp_all add: adders_def subbers_def)
  moreover have "w_pc s t \<noteq> WSignal" for t using pcs [of t] by auto
  then have "w_count s = 0" using inv asleep by (auto simp: w_inv_def someone_up_def)
  ultimately have "(of_nat (size (qbag (w_queue s))) :: u32) = 0" using inv by (simp add: w_inv_def count_ok_def)
  then show ?thesis using small_word_not_0 [OF _ small] by (cases "qbag (w_queue s) = {#}") (auto simp: size_eq_0_iff_empty nonempty_has_size)
qed

end

section \<open>A first-in first-out queue below\<close>

locale inner_fifo = inner_queue qstep qres qgood qlin "mset \<circ> qlist" qobs
  for qstep :: "qev \<Rightarrow> 'q \<Rightarrow> 'q option" and qres qgood qlin qobs and qlist :: "'q \<Rightarrow> int list" +
  assumes f_good: "qgood q \<Longrightarrow> qstep e q = Some q' \<Longrightarrow> qgood q'"
    and f_same: "qgood q \<Longrightarrow> qstep e q = Some q' \<Longrightarrow> qlin e q = None \<Longrightarrow> qlist q' = qlist q"
    and f_lin: "qgood q \<Longrightarrow> qstep e q = Some q' \<Longrightarrow> qlin e q = Some a \<Longrightarrow> fifo_step a (qlist q) = Some (qlist q')"
    and f_begin: "qlin (EnqBegin t v) q = None" "qlin (DeqBegin t) q = None"
begin

lemma w_inner_fifo:
  assumes "qgood (w_queue s)" and "w_inner qstep e t p s = Some s'"
  shows "(qlin e (w_queue s) = None \<longrightarrow> qlist (w_queue s') = qlist (w_queue s)) \<and>
    (\<forall>a. qlin e (w_queue s) = Some a \<longrightarrow> fifo_step a (qlist (w_queue s)) = Some (qlist (w_queue s'))) \<and>
    qgood (w_queue s')"
  using assms f_same f_lin f_good by (auto simp: w_inner_def split: option.splits)

lemma wstep_fifo:
  assumes good: "qgood (w_queue s)" and step: "wstep qstep qres e s = Some s'"
  shows "qgood (w_queue s') \<and> (wlin qres qlin e s = None \<longrightarrow> qlist (w_queue s') = qlist (w_queue s)) \<and>
    (\<forall>a. wlin qres qlin e s = Some a \<longrightarrow> fifo_step a (qlist (w_queue s)) = Some (qlist (w_queue s')))"
proof (cases e)
  case (WPut t v)
  then show ?thesis using step w_inner_fifo [OF good, of "EnqBegin t v" t WEnq s'] f_begin by (auto split: if_splits)
next
  case (WRun t)
  show ?thesis
  proof (cases "(w_pc s t = WEnq \<or> w_pc s t = WDeq) \<and> qres t (w_queue s) = None")
    case True
    then have "w_inner qstep (QRun t) t (w_pc s t) s = Some s'" using step WRun by (auto split: option.splits)
    from w_inner_fifo [OF good this] True WRun show ?thesis by simp
  next
    case False
    then have none: "wlin qres qlin e s = None" using WRun by (simp only: wlin.simps if_False)
    have "qgood (w_queue s') \<and> qlist (w_queue s') = qlist (w_queue s)"
    proof (cases "w_pc s t = WTest \<and> w_count s \<noteq> 0")
      case True
      then show ?thesis using step WRun w_inner_fifo [OF good, of "DeqBegin t" t WDeq s'] f_begin by auto
    next
      case False': False
      then show ?thesis using False step WRun good by (cases "w_pc s t") (auto split: if_splits option.splits)
    qed
    then show ?thesis using none by simp
  qed
next
  case (WWake t ws)
  then show ?thesis using step good by (auto simp: w_wake_def split: if_splits)
qed (use step good in \<open>auto split: if_splits\<close>)

end

sublocale inner_fifo \<subseteq> server: lin_machine "wstep qstep qres" "\<lambda>s. qgood (w_queue s)" "wlin qres qlin" "\<lambda>s. qlist (w_queue s)"
  by unfold_locales (use wstep_fifo in blast)+

end
