(* ===== verification/LCRQ.thy ===== *)
theory LCRQ
  imports WaitQueue
begin

text \<open>
  The LCRQ queue of \<open>lcrq-server/lcrq.c\<close> (the same operations as in \<open>lcrq-yield.c\<close>): a linked
  list of rings; \<open>enqueue\<close> and \<open>dequeue\<close> draw tickets from a ring's \<open>tail\<close> and
  \<open>head\<close> by fetch-and-add and meet in the cell their ticket names. A step is one access to
  shared memory by one thread. All ring indices are 64-bit words; bit 63 of a cell index marks the
  cell unsafe, bit 63 of a \<open>tail\<close> marks the ring closed.
\<close>

unbundle bit_operations_syntax

section \<open>Words, cells and rings\<close>

definition EMPTY_VAL :: u64 where
  "EMPTY_VAL = -1"

definition is_empty :: "u64 \<Rightarrow> bool" where
  "is_empty v \<longleftrightarrow> v = EMPTY_VAL"

definition node_index :: "u64 \<Rightarrow> u64" where
  "node_index i = i AND NOT (push_bit 63 1)"

definition set_unsafe :: "u64 \<Rightarrow> u64" where
  "set_unsafe i = i OR push_bit 63 1"

definition node_unsafe :: "u64 \<Rightarrow> u64" where
  "node_unsafe i = i AND push_bit 63 1"

definition tail_index :: "u64 \<Rightarrow> u64" where
  "tail_index t = t AND NOT (push_bit 63 1)"

definition crq_is_closed :: "u64 \<Rightarrow> bool" where
  "crq_is_closed t \<longleftrightarrow> t AND push_bit 63 1 \<noteq> 0"

text \<open>An \<open>Object\<close> is an \<open>int32_t\<close>: what a cell stores for it, and what is read back.\<close>

definition to_val :: "int \<Rightarrow> u64" where
  "to_val arg = word_of_int arg"

definition of_val :: "u64 \<Rightarrow> int" where
  "of_val v = sint (ucast v :: i32)"

record ringnode =
  c_val :: u64
  c_idx :: u64

record ring =
  r_head :: u64
  r_tail :: u64
  r_next :: "nat option"
  r_array :: "nat \<Rightarrow> ringnode"

definition init_ring :: ring where
  "init_ring = \<lparr>r_head = 0, r_tail = 0, r_next = None, r_array = (\<lambda>i. \<lparr>c_val = -1, c_idx = of_nat i\<rparr>)\<rparr>"

section \<open>Program points and state\<close>

text \<open>
  \<open>arg\<close> and \<open>k\<close> (\<open>try_close\<close>) stay with an enqueue; \<open>rq\<close> is the ring, \<open>t\<close> or
  \<open>h\<close> the ticket; a dequeue keeps \<open>tt\<close> and the round counter \<open>r\<close>.
\<close>

datatype lpc =
    LIdle
  | LReadTail int nat                           \<comment> \<open>\<open>rq = tail\<close>\<close>
  | LReadNext int nat nat                       \<comment> \<open>\<open>next = rq->next\<close>\<close>
  | LSwing int nat nat nat                      \<comment> \<open>\<open>CASPTR(&tail, rq, next)\<close>\<close>
  | LFaaTail int nat nat                        \<comment> \<open>\<open>t = FAA64(&rq->tail, 1)\<close>\<close>
  | LAlloc int nat nat                          \<comment> \<open>label \<open>alloc\<close>\<close>
  | LCasNext int nat nat                        \<comment> \<open>\<open>CASPTR(&rq->next, null, nrq)\<close>\<close>
  | LSwingNew nat                               \<comment> \<open>\<open>CASPTR(&tail, rq, nrq); nrq = null\<close>\<close>
  | LReadIdx int nat nat u64                    \<comment> \<open>\<open>idx = cell->idx\<close>\<close>
  | LReadVal int nat nat u64 u64                \<comment> \<open>\<open>val = cell->val\<close>\<close>
  | LReadHead int nat nat u64 u64               \<comment> \<open>\<open>rq->head < t\<close>\<close>
  | LCas2 int nat nat u64 u64                   \<comment> \<open>\<open>CAS2(cell, -1, idx, arg, t)\<close>\<close>
  | LFull int nat nat u64                       \<comment> \<open>\<open>h = rq->head\<close>\<close>
  | LClose int nat nat u64                      \<comment> \<open>\<open>close_crq(rq, t, try_close)\<close>\<close>
  | LEnqDone
  | LDReadHead                                  \<comment> \<open>\<open>rq = head\<close>\<close>
  | LDFaa nat                                   \<comment> \<open>\<open>h = FAA64(&rq->head, 1)\<close>\<close>
  | LDIdx nat u64 u64 nat                       \<comment> \<open>\<open>cell_idx = cell->idx\<close>\<close>
  | LDVal nat u64 u64 nat u64                   \<comment> \<open>\<open>val = cell->val\<close>\<close>
  | LDTail nat u64 u64 nat u64 u64              \<comment> \<open>the empty cell: \<open>tt = rq->tail\<close>\<close>
  | LDTake nat u64 u64 nat u64 u64              \<comment> \<open>\<open>CAS2(cell, val, cell_idx, -1, ...)\<close>\<close>
  | LDUnsafe nat u64 u64 nat u64 u64            \<comment> \<open>\<open>CAS2(cell, val, cell_idx, val, set_unsafe(idx))\<close>\<close>
  | LDSkipUnsafe nat u64 u64 nat u64 u64        \<comment> \<open>\<open>CAS2(cell, val, cell_idx, val, unsafe | (h + RING_SIZE))\<close>\<close>
  | LDSkip nat u64 u64 nat u64 u64              \<comment> \<open>\<open>CAS2(cell, val, idx, val, h + RING_SIZE)\<close>\<close>
  | LDClose nat u64                             \<comment> \<open>\<open>BIT_TEST_AND_SET(&rq->tail, 63)\<close>\<close>
  | LDBreak nat u64                             \<comment> \<open>\<open>tail_index(rq->tail) <= h + 1\<close>\<close>
  | LFix1 nat u64                               \<comment> \<open>\<open>fixState\<close>: \<open>t = FAA64(&rq->tail, 0)\<close>\<close>
  | LFix2 nat u64 u64                           \<comment> \<open>\<open>h = FAA64(&rq->head, 0)\<close>\<close>
  | LFix3 nat u64 u64 u64                       \<comment> \<open>\<open>rq->tail != t\<close>, \<open>h > t\<close>\<close>
  | LFix4 nat u64 u64 u64                       \<comment> \<open>\<open>CAS64(&rq->tail, t, h)\<close>\<close>
  | LDNext nat u64                              \<comment> \<open>\<open>next = rq->next\<close>\<close>
  | LDCheck nat u64 nat                         \<comment> \<open>\<open>tail_index(rq->tail) <= h + 1\<close>\<close>
  | LDCasHead nat nat                           \<comment> \<open>\<open>CASPTR(&head, rq, next)\<close>\<close>
  | LDeqDone int

text \<open>\<open>l_pow\<close> is the compile-time constant \<open>RING_POW\<close>; rings are numbered as they are allocated.\<close>

record lcrq =
  l_pow :: nat
  l_rings :: "nat \<Rightarrow> ring"
  l_brk :: nat
  l_head :: nat
  l_tail :: nat
  l_nrq :: "tid \<Rightarrow> nat option"
  l_pc :: "tid \<Rightarrow> lpc"

definition RING_SIZE :: "lcrq \<Rightarrow> u64" where
  "RING_SIZE s = push_bit (l_pow s) 1"

definition lgo :: "tid \<Rightarrow> lpc \<Rightarrow> lcrq \<Rightarrow> lcrq" where
  "lgo t p s = s\<lparr>l_pc := (l_pc s)(t := p)\<rparr>"

definition set_ring :: "nat \<Rightarrow> ring \<Rightarrow> lcrq \<Rightarrow> lcrq" where
  "set_ring rq r s = s\<lparr>l_rings := (l_rings s)(rq := r)\<rparr>"

definition slot :: "lcrq \<Rightarrow> u64 \<Rightarrow> nat" where
  "slot s t = unat (t AND (RING_SIZE s - 1))"

definition cell :: "lcrq \<Rightarrow> nat \<Rightarrow> u64 \<Rightarrow> ringnode" where
  "cell s rq t = r_array (l_rings s rq) (slot s t)"

definition set_cell :: "nat \<Rightarrow> u64 \<Rightarrow> ringnode \<Rightarrow> lcrq \<Rightarrow> lcrq" where
  "set_cell rq t c s =
     (let r = l_rings s rq in set_ring rq (r\<lparr>r_array := (r_array r)(slot s t := c)\<rparr>) s)"

text \<open>\<open>CAS2\<close>: the double-width compare-and-swap on a cell.\<close>

definition cas2 :: "nat \<Rightarrow> u64 \<Rightarrow> u64 \<Rightarrow> u64 \<Rightarrow> u64 \<Rightarrow> u64 \<Rightarrow> lcrq \<Rightarrow> bool \<times> lcrq" where
  "cas2 rq t o1 o2 n1 n2 s =
     (if cell s rq t = \<lparr>c_val = o1, c_idx = o2\<rparr> then (True, set_cell rq t \<lparr>c_val = n1, c_idx = n2\<rparr> s)
      else (False, s))"

definition set_tail :: "nat \<Rightarrow> u64 \<Rightarrow> lcrq \<Rightarrow> lcrq" where
  "set_tail rq v s = set_ring rq ((l_rings s rq)\<lparr>r_tail := v\<rparr>) s"

definition set_head :: "nat \<Rightarrow> u64 \<Rightarrow> lcrq \<Rightarrow> lcrq" where
  "set_head rq v s = set_ring rq ((l_rings s rq)\<lparr>r_head := v\<rparr>) s"

definition rtail :: "lcrq \<Rightarrow> nat \<Rightarrow> u64" where
  "rtail s rq = r_tail (l_rings s rq)"

definition rhead :: "lcrq \<Rightarrow> nat \<Rightarrow> u64" where
  "rhead s rq = r_head (l_rings s rq)"

text \<open>\<open>SHARED_OBJECT_INIT\<close>, with \<open>FULL\<close> set or not.\<close>

definition full_ring :: "nat \<Rightarrow> ring" where
  "full_ring pow =
     init_ring\<lparr>r_tail := of_nat (2 ^ pow div 2),
       r_array := (\<lambda>i. if i < 2 ^ pow div 2 then \<lparr>c_val = 0, c_idx = of_nat i\<rparr> else r_array init_ring i)\<rparr>"

definition l_init :: "nat \<Rightarrow> bool \<Rightarrow> lcrq" where
  "l_init pow full =
     \<lparr>l_pow = pow,
      l_rings = (\<lambda>i. init_ring)(0 := if full then full_ring pow else init_ring),
      l_brk = 1, l_head = 0, l_tail = 0, l_nrq = (\<lambda>t. None), l_pc = (\<lambda>t. LIdle)\<rparr>"

text \<open>The code from the label \<open>alloc\<close> to the compare-and-swap: the thread's own ring \<open>nrq\<close>.\<close>

definition take_nrq :: "tid \<Rightarrow> lcrq \<Rightarrow> nat \<times> lcrq" where
  "take_nrq t s =
     (case l_nrq s t of
        Some n \<Rightarrow> (n, s)
      | None \<Rightarrow> (l_brk s, s\<lparr>l_rings := (l_rings s)(l_brk s := init_ring), l_brk := Suc (l_brk s),
                            l_nrq := (l_nrq s)(t \<mapsto> l_brk s)\<rparr>))"

definition solo_enqueue :: "tid \<Rightarrow> int \<Rightarrow> lcrq \<Rightarrow> lcrq" where
  "solo_enqueue t arg s =
     (let (n, s1) = take_nrq t s; r = l_rings s1 n in
      set_ring n (r\<lparr>r_tail := 1, r_array := (r_array r)(0 := \<lparr>c_val = to_val arg, c_idx = 0\<rparr>)\<rparr>) s1)"


definition close_crq :: "nat \<Rightarrow> u64 \<Rightarrow> nat \<Rightarrow> lcrq \<Rightarrow> bool \<times> lcrq" where
  "close_crq rq t tries s =
     (if tries < 10
      then (if rtail s rq = t + 1 then (True, set_tail rq (t + 1 OR push_bit 63 1) s) else (False, s))
      else (\<not> bit (rtail s rq) 63, set_tail rq (rtail s rq OR push_bit 63 1) s))"

section \<open>enqueue\<close>

fun lenqueue_pc :: "lpc \<Rightarrow> tid \<Rightarrow> lcrq \<Rightarrow> lcrq option" where
  "lenqueue_pc (LReadTail arg k) t s = Some (lgo t (LReadNext arg k (l_tail s)) s)"
| "lenqueue_pc (LReadNext arg k rq) t s =
     Some (lgo t (case r_next (l_rings s rq) of None \<Rightarrow> LFaaTail arg k rq | Some nx \<Rightarrow> LSwing arg k rq nx) s)"
| "lenqueue_pc (LSwing arg k rq nx) t s =
     Some (lgo t (LReadTail arg k) (if l_tail s = rq then s\<lparr>l_tail := nx\<rparr> else s))"
| "lenqueue_pc (LFaaTail arg k rq) t s =
     (let tk = rtail s rq in
      Some (lgo t (if crq_is_closed tk then LAlloc arg k rq else LReadIdx arg k rq tk) (set_tail rq (tk + 1) s)))"
| "lenqueue_pc (LAlloc arg k rq) t s = Some (lgo t (LCasNext arg k rq) (solo_enqueue t arg s))"
| "lenqueue_pc (LCasNext arg k rq) t s =
     (if r_next (l_rings s rq) = None
      then Some (lgo t (LSwingNew rq) (set_ring rq ((l_rings s rq)\<lparr>r_next := l_nrq s t\<rparr>) s))
      else Some (lgo t (LReadTail arg k) s))"
| "lenqueue_pc (LSwingNew rq) t s =
     (case l_nrq s t of
        None \<Rightarrow> None
      | Some n \<Rightarrow> Some (lgo t LEnqDone
          (s\<lparr>l_tail := if l_tail s = rq then n else l_tail s, l_nrq := (l_nrq s)(t := None)\<rparr>)))"
| "lenqueue_pc (LReadIdx arg k rq tk) t s = Some (lgo t (LReadVal arg k rq tk (c_idx (cell s rq tk))) s)"
| "lenqueue_pc (LReadVal arg k rq tk idx) t s =
     (let val = c_val (cell s rq tk) in
      Some (lgo t (if is_empty val \<and> node_index idx \<le> tk
                   then (if node_unsafe idx = 0 then LCas2 arg k rq tk idx else LReadHead arg k rq tk idx)
                   else LFull arg k rq tk) s))"
| "lenqueue_pc (LReadHead arg k rq tk idx) t s =
     Some (lgo t (if rhead s rq < tk then LCas2 arg k rq tk idx else LFull arg k rq tk) s)"
| "lenqueue_pc (LCas2 arg k rq tk idx) t s =
     (let (ok, s') = cas2 rq tk EMPTY_VAL idx (to_val arg) tk s in
      Some (lgo t (if ok then LEnqDone else LFull arg k rq tk) s'))"
| "lenqueue_pc (LFull arg k rq tk) t s =
     Some (lgo t (if sint (RING_SIZE s) \<le> sint (tk - rhead s rq) then LClose arg (Suc k) rq tk
                  else LReadTail arg k) s)"
| "lenqueue_pc (LClose arg k rq tk) t s =
     (let (ok, s') = close_crq rq tk k s in
      Some (lgo t (if ok then LAlloc arg k rq else LReadTail arg k) s'))"
| "lenqueue_pc _ t s = None"

section \<open>dequeue\<close>

text \<open>The inner loop gives up or spins on an empty cell; \<open>tt\<close> is read again every 1024 rounds.\<close>

definition empty_cell :: "nat \<Rightarrow> u64 \<Rightarrow> u64 \<Rightarrow> nat \<Rightarrow> u64 \<Rightarrow> u64 \<Rightarrow> lcrq \<Rightarrow> lpc" where
  "empty_cell rq h tt r ci val s =
     (let tt' = (if r mod 1024 = 0 then rtail s rq else tt) in
      if node_unsafe ci \<noteq> 0 then LDSkipUnsafe rq h tt' r ci val
      else if tail_index tt' < h + 1 \<or> r > 200000 \<or> crq_is_closed tt' then LDSkip rq h tt' r ci val
      else LDIdx rq h tt' (Suc r))"

text \<open>\<open>fixState\<close>, which brings a tail that the heads have overtaken up to the head.\<close>

fun fixState_pc :: "lpc \<Rightarrow> tid \<Rightarrow> lcrq \<Rightarrow> lcrq option" where
  "fixState_pc (LFix1 rq h) t s = Some (lgo t (LFix2 rq h (rtail s rq)) s)"
| "fixState_pc (LFix2 rq h tk) t s = Some (lgo t (LFix3 rq h tk (rhead s rq)) s)"
| "fixState_pc (LFix3 rq h tk hq) t s =
     Some (lgo t (if rtail s rq \<noteq> tk then LFix1 rq h
                  else if hq > tk then LFix4 rq h tk hq else LDNext rq h) s)"
| "fixState_pc (LFix4 rq h tk hq) t s =
     (if rtail s rq = tk then Some (lgo t (LDNext rq h) (set_tail rq hq s)) else Some (lgo t (LFix1 rq h) s))"
| "fixState_pc _ t s = None"

fun ldequeue_pc :: "lpc \<Rightarrow> tid \<Rightarrow> lcrq \<Rightarrow> lcrq option" where
  "ldequeue_pc LDReadHead t s = Some (lgo t (LDFaa (l_head s)) s)"
| "ldequeue_pc (LDFaa rq) t s =
     (let h = rhead s rq in Some (lgo t (LDIdx rq h 0 0) (set_head rq (h + 1) s)))"
| "ldequeue_pc (LDIdx rq h tt r) t s = Some (lgo t (LDVal rq h tt r (c_idx (cell s rq h))) s)"
| "ldequeue_pc (LDVal rq h tt r ci) t s =
     (let val = c_val (cell s rq h) in
      Some (lgo t (if node_index ci > h then LDBreak rq h
                   else if \<not> is_empty val
                   then (if node_index ci = h then LDTake rq h tt r ci val else LDUnsafe rq h tt r ci val)
                   else LDTail rq h tt r ci val) s))"
| "ldequeue_pc (LDTail rq h tt r ci val) t s = Some (lgo t (empty_cell rq h tt r ci val s) s)"
| "ldequeue_pc (LDTake rq h tt r ci val) t s =
     (let (ok, s') = cas2 rq h val ci EMPTY_VAL (node_unsafe ci OR (h + RING_SIZE s)) s in
      Some (lgo t (if ok then LDeqDone (of_val val) else LDIdx rq h tt r) s'))"
| "ldequeue_pc (LDUnsafe rq h tt r ci val) t s =
     (let (ok, s') = cas2 rq h val ci val (set_unsafe (node_index ci)) s in
      Some (lgo t (if ok then LDBreak rq h else LDIdx rq h tt r) s'))"
| "ldequeue_pc (LDSkipUnsafe rq h tt r ci val) t s =
     (let (ok, s') = cas2 rq h val ci val (node_unsafe ci OR (h + RING_SIZE s)) s in
      Some (lgo t (if ok then LDBreak rq h else LDIdx rq h tt r) s'))"
| "ldequeue_pc (LDSkip rq h tt r ci val) t s =
     (let (ok, s') = cas2 rq h val (node_index ci) val (h + RING_SIZE s) s in
      Some (lgo t (if ok then (if r > 200000 \<and> tt > RING_SIZE s then LDClose rq h else LDBreak rq h)
                   else LDIdx rq h tt r) s'))"
| "ldequeue_pc (LDClose rq h) t s = Some (lgo t (LDBreak rq h) (set_tail rq (rtail s rq OR push_bit 63 1) s))"
| "ldequeue_pc (LDBreak rq h) t s =
     Some (lgo t (if tail_index (rtail s rq) \<le> h + 1 then LFix1 rq h else LDReadHead) s)"
| "ldequeue_pc (LDNext rq h) t s =
     Some (lgo t (case r_next (l_rings s rq) of None \<Rightarrow> LDeqDone (-1) | Some nx \<Rightarrow> LDCheck rq h nx) s)"
| "ldequeue_pc (LDCheck rq h nx) t s =
     Some (lgo t (if tail_index (rtail s rq) \<le> h + 1 then LDCasHead rq nx else LDReadHead) s)"
| "ldequeue_pc (LDCasHead rq nx) t s =
     Some (lgo t LDReadHead (if l_head s = rq then s\<lparr>l_head := nx\<rparr> else s))"
| "ldequeue_pc p t s = fixState_pc p t s"

fun lidle :: "lpc \<Rightarrow> bool" where
  "lidle LIdle = True"
| "lidle LEnqDone = True"
| "lidle (LDeqDone _) = True"
| "lidle _ = False"

fun lstep :: "qev \<Rightarrow> lcrq \<Rightarrow> lcrq option" where
  "lstep (EnqBegin t arg) s = (if lidle (l_pc s t) then Some (lgo t (LReadTail arg 0) s) else None)"
| "lstep (DeqBegin t) s = (if lidle (l_pc s t) then Some (lgo t LDReadHead s) else None)"
| "lstep (QRun t) s =
     (case lenqueue_pc (l_pc s t) t s of Some s' \<Rightarrow> Some s' | None \<Rightarrow> ldequeue_pc (l_pc s t) t s)"


section \<open>What is in the queue\<close>

text \<open>
  The rings that have been linked, from the first one on, and the filled cells in them: ring,
  ticket and value.
\<close>

fun ring_walk :: "nat \<Rightarrow> (nat \<Rightarrow> ring) \<Rightarrow> nat option \<Rightarrow> nat list" where
  "ring_walk 0 h x = []"
| "ring_walk (Suc n) h None = []"
| "ring_walk (Suc n) h (Some p) = p # ring_walk n h (r_next (h p))"

definition published :: "lcrq \<Rightarrow> nat list" where
  "published s = ring_walk (l_brk s) (l_rings s) (Some 0)"

definition cell_item :: "nat \<Rightarrow> ringnode \<Rightarrow> (nat \<times> u64 \<times> u64) multiset" where
  "cell_item p c = (if is_empty (c_val c) then {#} else {#(p, node_index (c_idx c), c_val c)#})"

definition ring_items :: "nat \<Rightarrow> nat \<Rightarrow> ring \<Rightarrow> (nat \<times> u64 \<times> u64) multiset" where
  "ring_items pow p r = sum_list (map (\<lambda>j. cell_item p (r_array r j)) [0..<2 ^ pow])"

definition l_items :: "lcrq \<Rightarrow> (nat \<times> u64 \<times> u64) multiset" where
  "l_items s = sum_list (map (\<lambda>p. ring_items (l_pow s) p (l_rings s p)) (published s))"

definition l_bag :: "lcrq \<Rightarrow> int multiset" where
  "l_bag s = image_mset (\<lambda>(p, i, v). of_val v) (l_items s)"

text \<open>The effect of a step, with the ring and the ticket it happens under.\<close>

datatype ringact = LPut nat u64 u64 | LGot nat u64 u64

fun lact :: "qev \<Rightarrow> lcrq \<Rightarrow> ringact option" where
  "lact (QRun t) s =
     (case l_pc s t of
        LCas2 arg k rq tk idx \<Rightarrow>
          if cell s rq tk = \<lparr>c_val = EMPTY_VAL, c_idx = idx\<rparr> then Some (LPut rq (node_index tk) (to_val arg)) else None
      | LCasNext arg k rq \<Rightarrow>
          (case l_nrq s t of
             None \<Rightarrow> None
           | Some n \<Rightarrow> if r_next (l_rings s rq) = None then Some (LPut n 0 (to_val arg)) else None)
      | LDTake rq h tt r ci val \<Rightarrow>
          if cell s rq h = \<lparr>c_val = val, c_idx = ci\<rparr> then Some (LGot rq h val) else None
      | _ \<Rightarrow> None)"
| "lact _ s = None"

fun qact_of :: "ringact \<Rightarrow> int qact" where
  "qact_of (LPut rq tk v) = Put (of_val v)"
| "qact_of (LGot rq tk v) = Got (of_val v)"

definition llin :: "qev \<Rightarrow> lcrq \<Rightarrow> int qact option" where
  "llin e s = map_option qact_of (lact e s)"

section \<open>The invariant\<close>

definition rlinked :: "(nat \<Rightarrow> ring) \<Rightarrow> nat list \<Rightarrow> bool" where
  "rlinked h ps \<longleftrightarrow> (\<forall>i < length ps. r_next (h (ps ! i)) = (if Suc i < length ps then Some (ps ! Suc i) else None))"

definition lglob :: "lcrq \<Rightarrow> nat list \<Rightarrow> bool" where
  "lglob s ps \<longleftrightarrow> ps \<noteq> [] \<and> hd ps = 0 \<and> distinct ps \<and> (\<forall>a \<in> set ps. a < l_brk s) \<and> rlinked (l_rings s) ps \<and>
     l_head s \<in> set ps \<and> l_tail s \<in> set ps"

definition fresh_ring :: "lcrq \<Rightarrow> nat \<Rightarrow> bool" where
  "fresh_ring s n \<longleftrightarrow> r_next (l_rings s n) = None \<and> r_head (l_rings s n) = 0 \<and>
     (\<forall>j. 0 < j \<longrightarrow> is_empty (c_val (r_array (l_rings s n) j)))"

definition own_ring :: "lcrq \<Rightarrow> nat list \<Rightarrow> nat \<Rightarrow> bool" where
  "own_ring s ps n \<longleftrightarrow> n < l_brk s \<and> n \<notin> set ps \<and> fresh_ring s n"

fun nrq_ok :: "lcrq \<Rightarrow> nat list \<Rightarrow> tid \<Rightarrow> lpc \<Rightarrow> bool" where
  "nrq_ok s ps t (LSwingNew rq) = (\<exists>n. l_nrq s t = Some n \<and> n \<in> set ps)"
| "nrq_ok s ps t (LCasNext arg k rq) =
     (\<exists>n. l_nrq s t = Some n \<and> own_ring s ps n \<and> r_array (l_rings s n) 0 = \<lparr>c_val = to_val arg, c_idx = 0\<rparr>)"
| "nrq_ok s ps t _ = (\<forall>n. l_nrq s t = Some n \<longrightarrow> own_ring s ps n)"

fun lpc_ok :: "nat list \<Rightarrow> lpc \<Rightarrow> bool" where
  "lpc_ok ps (LReadTail arg k) = object arg"
| "lpc_ok ps (LReadNext arg k rq) = (object arg \<and> rq \<in> set ps)"
| "lpc_ok ps (LSwing arg k rq nx) = (object arg \<and> rq \<in> set ps \<and> nx \<in> set ps)"
| "lpc_ok ps (LFaaTail arg k rq) = (object arg \<and> rq \<in> set ps)"
| "lpc_ok ps (LAlloc arg k rq) = (object arg \<and> rq \<in> set ps)"
| "lpc_ok ps (LCasNext arg k rq) = (object arg \<and> rq \<in> set ps)"
| "lpc_ok ps (LSwingNew rq) = (rq \<in> set ps)"
| "lpc_ok ps (LReadIdx arg k rq tk) = (object arg \<and> rq \<in> set ps)"
| "lpc_ok ps (LReadVal arg k rq tk idx) = (object arg \<and> rq \<in> set ps)"
| "lpc_ok ps (LReadHead arg k rq tk idx) = (object arg \<and> rq \<in> set ps)"
| "lpc_ok ps (LCas2 arg k rq tk idx) = (object arg \<and> rq \<in> set ps)"
| "lpc_ok ps (LFull arg k rq tk) = (object arg \<and> rq \<in> set ps)"
| "lpc_ok ps (LClose arg k rq tk) = (object arg \<and> rq \<in> set ps)"
| "lpc_ok ps (LDFaa rq) = (rq \<in> set ps)"
| "lpc_ok ps (LDIdx rq h tt r) = (rq \<in> set ps)"
| "lpc_ok ps (LDVal rq h tt r ci) = (rq \<in> set ps)"
| "lpc_ok ps (LDTail rq h tt r ci val) = (rq \<in> set ps \<and> is_empty val)"
| "lpc_ok ps (LDTake rq h tt r ci val) = (rq \<in> set ps \<and> \<not> is_empty val \<and> node_index ci = h)"
| "lpc_ok ps (LDUnsafe rq h tt r ci val) = (rq \<in> set ps)"
| "lpc_ok ps (LDSkipUnsafe rq h tt r ci val) = (rq \<in> set ps \<and> is_empty val)"
| "lpc_ok ps (LDSkip rq h tt r ci val) = (rq \<in> set ps \<and> is_empty val)"
| "lpc_ok ps (LDClose rq h) = (rq \<in> set ps)"
| "lpc_ok ps (LDBreak rq h) = (rq \<in> set ps)"
| "lpc_ok ps (LFix1 rq h) = (rq \<in> set ps)"
| "lpc_ok ps (LFix2 rq h tk) = (rq \<in> set ps)"
| "lpc_ok ps (LFix3 rq h tk hq) = (rq \<in> set ps)"
| "lpc_ok ps (LFix4 rq h tk hq) = (rq \<in> set ps)"
| "lpc_ok ps (LDNext rq h) = (rq \<in> set ps)"
| "lpc_ok ps (LDCheck rq h nx) = (rq \<in> set ps \<and> nx \<in> set ps)"
| "lpc_ok ps (LDCasHead rq nx) = (rq \<in> set ps \<and> nx \<in> set ps)"
| "lpc_ok ps _ = True"

definition l_inv :: "lcrq \<Rightarrow> nat list \<Rightarrow> bool" where
  "l_inv s ps \<longleftrightarrow> lglob s ps \<and> (\<forall>t u n. l_nrq s t = Some n \<longrightarrow> l_nrq s u = Some n \<longrightarrow> t = u) \<and>
     (\<forall>t. nrq_ok s ps t (l_pc s t) \<and> lpc_ok ps (l_pc s t))"

definition l_good :: "lcrq \<Rightarrow> bool" where
  "l_good s \<longleftrightarrow> (\<exists>ps. l_inv s ps)"

section \<open>Words\<close>

lemma bit63: "bit (push_bit 63 (1 :: u64)) n \<longleftrightarrow> n = 63"
  by (simp only: bit_push_bit_iff bit_1_iff) auto

lemma of_val_int32: "- (2 ^ 31) \<le> v \<Longrightarrow> v < 2 ^ 31 \<Longrightarrow> of_val (to_val v) = v"
  by (simp add: of_val_def to_val_def unsigned_of_int signed_of_int signed_take_bit_int_eq_self
      signed_take_bit_take_bit del: take_bit_of_int)

lemma of_val_to_val: "object v \<Longrightarrow> of_val (to_val v) = v"
  by (simp add: object_def of_val_int32)

lemma to_val_not_empty: "object v \<Longrightarrow> \<not> is_empty (to_val v)"
proof
  assume v: "object v" and "is_empty (to_val v)"
  then have "to_val v = to_val (-1)" by (simp add: is_empty_def EMPTY_VAL_def to_val_def)
  then have "of_val (to_val v) = of_val (to_val (-1))" by simp
  then show False using v of_val_to_val [OF v] by (simp add: of_val_int32 object_def)
qed

lemma bit_index: "bit (node_index i) n \<longleftrightarrow> bit i n \<and> n \<noteq> 63"
  unfolding node_index_def bit_and_iff bit_not_iff bit63 by (auto dest: bit_imp_le_length)

lemma bit_set_unsafe: "bit (set_unsafe i) n \<longleftrightarrow> bit i n \<or> n = 63"
  unfolding set_unsafe_def bit_or_iff bit63 by simp

lemma node_index_unsafe [simp]: "node_index (set_unsafe i) = node_index i"
  by (rule bit_word_eqI) (auto simp: bit_index bit_set_unsafe)

lemma node_index_idem [simp]: "node_index (node_index i) = node_index i"
  by (rule bit_word_eqI) (simp add: bit_index)

lemma node_index_small: "\<not> bit i 63 \<Longrightarrow> node_index i = i"
  by (rule bit_word_eqI) (auto simp: bit_index)

lemma slot_less: "slot s t < 2 ^ l_pow s"
proof -
  have "slot s t = unat (take_bit (l_pow s) t)"
    by (simp add: slot_def RING_SIZE_def take_bit_eq_mask mask_eq_exp_minus_1 push_bit_eq_mult)
  then show ?thesis by (simp add: unsigned_take_bit_eq)
qed


section \<open>Sums over rings and cells\<close>

lemma sum_list_one:
  fixes f g :: "'a \<Rightarrow> 'b::comm_monoid_add"
  assumes "distinct xs" "j \<in> set xs" "\<And>i. i \<in> set xs \<Longrightarrow> i \<noteq> j \<Longrightarrow> g i = f i"
  shows "sum_list (map g xs) + f j = sum_list (map f xs) + g j"
proof -
  obtain ys zs where xs: "xs = ys @ j # zs" using split_list [OF assms(2)] by blast
  then have "j \<notin> set ys" "j \<notin> set zs" using assms(1) by auto
  then have "map g ys = map f ys" "map g zs = map f zs" using assms(3) xs by (auto intro!: map_cong)
  then have "sum_list (map g ys) = sum_list (map f ys)" "sum_list (map g zs) = sum_list (map f zs)" by metis+
  then show ?thesis using xs by (simp add: ac_simps)
qed

lemma ring_items_update:
  assumes "j < 2 ^ pow"
  shows "ring_items pow p (r\<lparr>r_array := (r_array r)(j := c)\<rparr>) + cell_item p (r_array r j) =
    ring_items pow p r + cell_item p c"
proof -
  have "sum_list (map (\<lambda>i. cell_item p (((r_array r)(j := c)) i)) [0..<2 ^ pow]) + cell_item p (r_array r j) =
      sum_list (map (\<lambda>i. cell_item p (r_array r i)) [0..<2 ^ pow]) + cell_item p (((r_array r)(j := c)) j)"
    by (rule sum_list_one) (use assms in auto)
  then show ?thesis by (simp add: ring_items_def)
qed

lemma ring_items_same: "r_array r = r_array r' \<Longrightarrow> ring_items pow p r = ring_items pow p r'"
  by (simp add: ring_items_def)

lemma ring_walk_linked:
  "rlinked h ps \<Longrightarrow> i \<le> length ps \<Longrightarrow> length ps - i \<le> n \<Longrightarrow>
     ring_walk n h (if i < length ps then Some (ps ! i) else None) = drop i ps"
proof (induction n arbitrary: i)
  case 0
  then show ?case by simp
next
  case (Suc n)
  show ?case
  proof (cases "i < length ps")
    case True
    have "ring_walk n h (if Suc i < length ps then Some (ps ! Suc i) else None) = drop (Suc i) ps"
      using Suc True by (intro Suc.IH) auto
    then show ?thesis using True Suc.prems(1) by (simp add: Cons_nth_drop_Suc [symmetric] rlinked_def)
  qed simp
qed

lemma length_le_bound: "distinct ps \<Longrightarrow> \<forall>a \<in> set ps. a < n \<Longrightarrow> length ps \<le> n"
proof -
  assume "distinct ps" "\<forall>a \<in> set ps. a < n"
  then have "card (set ps) \<le> card {..<n}" by (intro card_mono) auto
  then show ?thesis using \<open>distinct ps\<close> by (simp add: distinct_card)
qed

lemma published_eq: "lglob s ps \<Longrightarrow> published s = ps"
proof -
  assume g: "lglob s ps"
  then have "ps ! 0 = 0" "0 < length ps" unfolding lglob_def by (metis hd_conv_nth, simp)
  moreover have "length ps \<le> l_brk s" using g by (intro length_le_bound) (simp_all add: lglob_def)
  ultimately show ?thesis
    using ring_walk_linked [of "l_rings s" ps 0 "l_brk s"] g by (simp add: published_def lglob_def)
qed

lemma l_items_eq: "lglob s ps \<Longrightarrow> l_items s = sum_list (map (\<lambda>p. ring_items (l_pow s) p (l_rings s p)) ps)"
  by (simp add: l_items_def published_eq)

section \<open>Every step keeps the invariant\<close>

lemma lgo_simps [simp]:
  "l_pow (lgo t p s) = l_pow s" "l_rings (lgo t p s) = l_rings s" "l_brk (lgo t p s) = l_brk s"
  "l_head (lgo t p s) = l_head s" "l_tail (lgo t p s) = l_tail s" "l_nrq (lgo t p s) = l_nrq s"
  "l_pc (lgo t p s) = (l_pc s)(t := p)"
  by (simp_all add: lgo_def)

lemma set_ring_simps [simp]:
  "l_pow (set_ring rq r s) = l_pow s" "l_rings (set_ring rq r s) = (l_rings s)(rq := r)"
  "l_brk (set_ring rq r s) = l_brk s" "l_head (set_ring rq r s) = l_head s" "l_tail (set_ring rq r s) = l_tail s"
  "l_nrq (set_ring rq r s) = l_nrq s" "l_pc (set_ring rq r s) = l_pc s"
  by (simp_all add: set_ring_def)

lemma own_ring_cong:
  "own_ring s ps n \<Longrightarrow> l_rings s' n = l_rings s n \<Longrightarrow> l_brk s \<le> l_brk s' \<Longrightarrow> (n \<notin> set ps \<Longrightarrow> n \<notin> set ps') \<Longrightarrow> own_ring s' ps' n"
  by (auto simp: own_ring_def fresh_ring_def)

text \<open>The other threads' rings are not touched.\<close>

lemma nrq_ok_other:
  assumes ok: "nrq_ok s ps u p" and nrq: "l_nrq s' u = l_nrq s u" and brk: "l_brk s \<le> l_brk s'"
    and rings: "\<And>n. l_nrq s u = Some n \<Longrightarrow> n \<notin> set ps \<Longrightarrow> l_rings s' n = l_rings s n \<and> n \<notin> set ps'"
    and sub: "set ps \<subseteq> set ps'"
  shows "nrq_ok s' ps' u p"
proof -
  have own: "own_ring s' ps' n" if "l_nrq s u = Some n" "own_ring s ps n" for n
  proof -
    have "n \<notin> set ps" using that(2) by (simp add: own_ring_def)
    then show ?thesis using own_ring_cong [OF that(2), of s' ps'] rings [OF that(1)] brk by simp
  qed
  have weak: "\<forall>n. l_nrq s' u = Some n \<longrightarrow> own_ring s' ps' n" if "\<forall>n. l_nrq s u = Some n \<longrightarrow> own_ring s ps n"
    using that own nrq by simp
  show ?thesis
  proof (cases p)
    case (LSwingNew rq)
    then show ?thesis using ok nrq sub by auto
  next
    case (LCasNext arg k rq)
    then obtain n where n: "l_nrq s u = Some n" "own_ring s ps n" "r_array (l_rings s n) 0 = \<lparr>c_val = to_val arg, c_idx = 0\<rparr>"
      using ok by auto
    then have "n \<notin> set ps" by (simp add: own_ring_def)
    then show ?thesis using n LCasNext nrq rings [OF n(1)] own [OF n(1,2)] by simp
  qed (use ok weak in simp_all)
qed

lemma lpc_ok_mono: "lpc_ok ps p \<Longrightarrow> set ps \<subseteq> set ps' \<Longrightarrow> lpc_ok ps' p"
  by (cases p) auto

lemma nrq_ok_weak: "nrq_ok s ps t p \<Longrightarrow> (\<forall>rq. p \<noteq> LSwingNew rq) \<Longrightarrow> l_nrq s t = Some n \<Longrightarrow> own_ring s ps n"
  by (cases p) auto


lemma set_cell_simps [simp]:
  "l_pow (set_cell rq t c s) = l_pow s" "l_brk (set_cell rq t c s) = l_brk s" "l_head (set_cell rq t c s) = l_head s"
  "l_tail (set_cell rq t c s) = l_tail s" "l_nrq (set_cell rq t c s) = l_nrq s" "l_pc (set_cell rq t c s) = l_pc s"
  by (simp_all add: set_cell_def Let_def)

lemma set_head_tail_simps [simp]:
  "l_pow (set_tail rq v s) = l_pow s" "l_brk (set_tail rq v s) = l_brk s" "l_head (set_tail rq v s) = l_head s"
  "l_tail (set_tail rq v s) = l_tail s" "l_nrq (set_tail rq v s) = l_nrq s" "l_pc (set_tail rq v s) = l_pc s"
  "l_pow (set_head rq v s) = l_pow s" "l_brk (set_head rq v s) = l_brk s" "l_head (set_head rq v s) = l_head s"
  "l_tail (set_head rq v s) = l_tail s" "l_nrq (set_head rq v s) = l_nrq s" "l_pc (set_head rq v s) = l_pc s"
  by (simp_all add: set_tail_def set_head_def)

text \<open>A step that links no ring and touches only linked rings keeps the invariant.\<close>

lemma l_inv_frame:
  assumes inv: "l_inv s ps" and pc: "l_pc s' = (l_pc s)(t := p)"
    and nxt: "\<And>q. r_next (l_rings s' q) = r_next (l_rings s q)"
    and out: "\<And>q. q \<notin> set ps \<Longrightarrow> l_rings s' q = l_rings s q"
    and same: "l_brk s' = l_brk s" "l_nrq s' = l_nrq s"
    and ends: "l_head s' \<in> set ps" "l_tail s' \<in> set ps"
    and p: "lpc_ok ps p" "nrq_ok s ps t p"
  shows "l_inv s' ps"
proof -
  have g: "lglob s ps" using inv by (simp add: l_inv_def)
  then have "lglob s' ps" using ends nxt same by (simp add: lglob_def rlinked_def)
  moreover have "nrq_ok s' ps u (l_pc s' u)" for u
  proof -
    have "nrq_ok s ps u (l_pc s' u)" using inv p pc by (simp add: l_inv_def)
    then show ?thesis by (rule nrq_ok_other) (use out same in auto)
  qed
  moreover have "lpc_ok ps (l_pc s' u)" for u using inv p pc by (simp add: l_inv_def)
  ultimately show ?thesis using inv same by (simp add: l_inv_def)
qed

lemma l_items_same:
  assumes "lglob s ps" "lglob s' ps" "l_pow s' = l_pow s"
    and "\<And>q. q \<in> set ps \<Longrightarrow> r_array (l_rings s' q) = r_array (l_rings s q)"
  shows "l_items s' = l_items s"
  unfolding l_items_eq [OF assms(1)] l_items_eq [OF assms(2)] assms(3)
  using ring_items_same [OF assms(4)] by (metis (no_types, lifting) map_cong)

lemma l_items_cell:
  assumes "lglob s ps" "lglob (set_cell rq t c s) ps" "rq \<in> set ps"
  shows "l_items (set_cell rq t c s) + cell_item rq (cell s rq t) = l_items s + cell_item rq c"
proof -
  let ?f = "\<lambda>q. ring_items (l_pow s) q (l_rings s q)" and ?g = "\<lambda>q. ring_items (l_pow s) q (l_rings (set_cell rq t c s) q)"
  have other: "?g q = ?f q" if "q \<noteq> rq" for q using that by (simp add: set_cell_def Let_def)
  have "?g rq + cell_item rq (cell s rq t) = ?f rq + cell_item rq c"
    using ring_items_update [OF slot_less [of s t], of rq "l_rings s rq" c] by (simp add: set_cell_def Let_def cell_def)
  moreover have "sum_list (map ?g ps) + ?f rq = sum_list (map ?f ps) + ?g rq"
    by (rule sum_list_one) (use assms other in \<open>auto simp: lglob_def\<close>)
  ultimately have "(sum_list (map ?g ps) + cell_item rq (cell s rq t)) + ?f rq = (sum_list (map ?f ps) + cell_item rq c) + ?f rq"
    by (metis (no_types, lifting) add.assoc add.commute)
  then have "sum_list (map ?g ps) + cell_item rq (cell s rq t) = sum_list (map ?f ps) + cell_item rq c" by simp
  then show ?thesis using l_items_eq [OF assms(1)] l_items_eq [OF assms(2)] by simp
qed

definition lfine :: "ringact option \<Rightarrow> lcrq \<Rightarrow> lcrq \<Rightarrow> bool" where
  "lfine a s s' \<longleftrightarrow> l_good s' \<and>
     (case a of
        None \<Rightarrow> l_items s' = l_items s
      | Some (LPut p i v) \<Rightarrow> l_items s' = add_mset (p, i, v) (l_items s)
      | Some (LGot p i v) \<Rightarrow> l_items s = add_mset (p, i, v) (l_items s'))"

lemma lfine_frame:
  assumes inv: "l_inv s ps" and pc: "l_pc s' = (l_pc s)(t := p)"
    and nxt: "\<And>q. r_next (l_rings s' q) = r_next (l_rings s q)"
    and arr: "\<And>q. r_array (l_rings s' q) = r_array (l_rings s q)"
    and out: "\<And>q. q \<notin> set ps \<Longrightarrow> l_rings s' q = l_rings s q"
    and same: "l_brk s' = l_brk s" "l_nrq s' = l_nrq s" "l_pow s' = l_pow s"
    and ends: "l_head s' \<in> set ps" "l_tail s' \<in> set ps"
    and p: "lpc_ok ps p" "nrq_ok s ps t p"
  shows "lfine None s s'"
proof -
  have inv': "l_inv s' ps" by (rule l_inv_frame [OF inv pc nxt out same(1,2) ends p])
  then have "l_items s' = l_items s"
    by (intro l_items_same [of s ps s']) (use inv arr same in \<open>simp_all add: l_inv_def\<close>)
  then show ?thesis using inv' by (auto simp: lfine_def l_good_def)
qed

text \<open>The common cases: only the program counter moves, or a ring's head or tail as well.\<close>

fun plain_pc :: "lpc \<Rightarrow> bool" where
  "plain_pc (LSwingNew rq) = False"
| "plain_pc (LCasNext arg k rq) = False"
| "plain_pc _ = True"

lemma nrq_ok_plain:
  assumes inv: "l_inv s ps" and "plain_pc p" and "\<forall>rq. l_pc s t \<noteq> LSwingNew rq"
  shows "nrq_ok s ps t p"
proof -
  have "\<forall>n. l_nrq s t = Some n \<longrightarrow> own_ring s ps n"
    using inv nrq_ok_weak [of s ps t "l_pc s t"] assms(3) unfolding l_inv_def by blast
  then show ?thesis using assms(2) by (cases p) simp_all
qed

lemma lfine_go:
  assumes inv: "l_inv s ps" and "lpc_ok ps p" and "plain_pc p" and "\<forall>rq. l_pc s t \<noteq> LSwingNew rq"
  shows "lfine None s (lgo t p s)"
  by (rule lfine_frame [OF inv, of _ t p])
    (use assms nrq_ok_plain [OF inv assms(3,4)] in \<open>auto simp: l_inv_def lglob_def\<close>)

lemma lfine_ends:
  assumes inv: "l_inv s ps" and "lpc_ok ps p" and "plain_pc p" and "\<forall>rq. l_pc s t \<noteq> LSwingNew rq" and "rq \<in> set ps"
  shows "lfine None s (lgo t p (set_tail rq v s))" "lfine None s (lgo t p (set_head rq v s))"
  by (rule lfine_frame [OF inv, of _ t p];
      use assms nrq_ok_plain [OF inv assms(3,4)] in \<open>auto simp: l_inv_def lglob_def set_tail_def set_head_def\<close>)+

text \<open>A successful \<open>CAS2\<close>.\<close>

lemma lfine_cas2:
  assumes inv: "l_inv s ps" and p: "lpc_ok ps p" "plain_pc p" and pc: "\<forall>rq. l_pc s t \<noteq> LSwingNew rq"
    and rq: "rq \<in> set ps" and old: "cell s rq tk = c0"
  shows "l_good (lgo t p (set_cell rq tk c s)) \<and>
    l_items (lgo t p (set_cell rq tk c s)) + cell_item rq c0 = l_items s + cell_item rq c"
proof -
  let ?s = "lgo t p (set_cell rq tk c s)"
  have inv': "l_inv ?s ps"
    by (rule l_inv_frame [OF inv, of _ t p])
      (use assms nrq_ok_plain [OF inv p(2) pc] in \<open>auto simp: l_inv_def lglob_def set_cell_def Let_def\<close>)
  have g: "lglob s ps" "lglob ?s ps" using inv inv' by (simp_all add: l_inv_def)
  then have "lglob (set_cell rq tk c s) ps" by (simp add: lglob_def)
  note I = l_items_cell [OF g(1) this rq]
  have "l_items ?s = l_items (set_cell rq tk c s)" by (simp add: l_items_def published_def)
  then show ?thesis using inv' I old by (auto simp: l_good_def)
qed


text \<open>A thread's own ring: taken or allocated, filled with its value, then linked.\<close>

lemma rlinked_upd: "rlinked h ps \<Longrightarrow> n \<notin> set ps \<Longrightarrow> rlinked (h(n := r)) ps"
  by (auto simp: rlinked_def)

lemma take_nrq_ok:
  assumes inv: "l_inv s ps" and pc: "l_pc s t = LAlloc arg k rq" and take: "take_nrq t s = (n, s1)"
  shows "l_inv s1 ps \<and> l_nrq s1 t = Some n \<and> own_ring s1 ps n \<and> l_pc s1 = l_pc s \<and> l_items s1 = l_items s \<and>
    l_pow s1 = l_pow s"
proof (cases "l_nrq s t")
  case (Some m)
  have "nrq_ok s ps t (l_pc s t)" using inv by (simp add: l_inv_def)
  then show ?thesis using Some take inv pc by (auto simp: take_nrq_def)
next
  case None
  then have n: "n = l_brk s" and s1: "s1 = s\<lparr>l_rings := (l_rings s)(n := init_ring), l_brk := Suc n, l_nrq := (l_nrq s)(t \<mapsto> n)\<rparr>"
    using take by (auto simp: take_nrq_def)
  have g: "lglob s ps" using inv by (simp add: l_inv_def)
  then have out: "n \<notin> set ps" using n by (auto simp: lglob_def)
  have own: "own_ring s1 ps n" using out by (simp add: own_ring_def fresh_ring_def s1 init_ring_def is_empty_def EMPTY_VAL_def)
  have g1: "lglob s1 ps" using g out n rlinked_upd [of "l_rings s" ps n init_ring]
    by (auto simp: lglob_def s1 intro: less_SucI)
  have below: "m < n" if "l_nrq s u = Some m" for u m
  proof (cases "\<exists>rq. l_pc s u = LSwingNew rq")
    case True
    then obtain rq where "l_pc s u = LSwingNew rq" by blast
    moreover have "nrq_ok s ps u (l_pc s u)" using inv by (simp add: l_inv_def)
    ultimately have "m \<in> set ps" using that by auto
    then show ?thesis using g n by (simp add: lglob_def)
  next
    case False
    have "nrq_ok s ps u (l_pc s u)" using inv by (simp add: l_inv_def)
    from nrq_ok_weak [OF this _ that] False show ?thesis using n by (simp add: own_ring_def)
  qed
  have nrq: "nrq_ok s1 ps u (l_pc s1 u)" for u
  proof (cases "u = t")
    case True
    then show ?thesis using pc own by (simp add: s1)
  next
    case False
    have "nrq_ok s ps u (l_pc s u)" using inv by (simp add: l_inv_def)
    then have "nrq_ok s1 ps u (l_pc s u)"
      by (rule nrq_ok_other) (use False below in \<open>auto simp: s1 n\<close>)
    then show ?thesis by (simp add: s1)
  qed
  have "l_inv s1 ps"
    unfolding l_inv_def
  proof (intro conjI allI impI g1 nrq)
    fix u w m assume "l_nrq s1 u = Some m" "l_nrq s1 w = Some m"
    then show "u = w" using inv below by (auto simp: s1 l_inv_def split: if_splits)
  next
    fix u show "lpc_ok ps (l_pc s1 u)" using inv by (simp add: s1 l_inv_def)
  qed
  moreover have "l_items s1 = l_items s"
    by (rule l_items_same [OF g g1]) (use out in \<open>auto simp: s1\<close>)
  ultimately show ?thesis using own by (simp add: s1)
qed

lemma lfine_solo:
  assumes inv: "l_inv s ps" and pc: "l_pc s t = LAlloc arg k rq"
  shows "lfine None s (lgo t (LCasNext arg k rq) (solo_enqueue t arg s))"
proof -
  obtain n s1 where take: "take_nrq t s = (n, s1)" by (cases "take_nrq t s")
  note T = take_nrq_ok [OF inv pc take]
  let ?r = "(l_rings s1 n)\<lparr>r_tail := 1, r_array := (r_array (l_rings s1 n))(0 := \<lparr>c_val = to_val arg, c_idx = 0\<rparr>)\<rparr>"
  let ?s = "lgo t (LCasNext arg k rq) (set_ring n ?r s1)"
  have s': "lgo t (LCasNext arg k rq) (solo_enqueue t arg s) = ?s" by (simp add: solo_enqueue_def take Let_def)
  have inv1: "l_inv s1 ps" and own: "own_ring s1 ps n" and nt: "l_nrq s1 t = Some n" using T by simp_all
  then have g1: "lglob s1 ps" and out: "n \<notin> set ps" by (simp_all add: l_inv_def own_ring_def)
  have own': "own_ring ?s ps n" using own by (simp add: own_ring_def fresh_ring_def)
  have g': "lglob ?s ps" using g1 out by (auto simp: lglob_def rlinked_def)
  have nrq: "nrq_ok ?s ps u (l_pc ?s u)" for u
  proof (cases "u = t")
    case True
    then show ?thesis using own' nt by simp
  next
    case False
    have "nrq_ok s1 ps u (l_pc s1 u)" using inv1 by (simp add: l_inv_def)
    moreover have "m \<noteq> n" if "l_nrq s1 u = Some m" for m using inv1 nt that False unfolding l_inv_def by blast
    ultimately have "nrq_ok ?s ps u (l_pc s1 u)" by (intro nrq_ok_other [of s1 ps u _ ?s]) auto
    then show ?thesis using False by simp
  qed
  have "object arg" "rq \<in> set ps" using inv pc unfolding l_inv_def by (metis lpc_ok.simps(5))+
  then have "lpc_ok ps (l_pc ?s u)" for u using inv1 by (simp add: l_inv_def)
  then have "l_inv ?s ps" using g' nrq inv1 by (simp add: l_inv_def)
  moreover have "l_items ?s = l_items s1" by (rule l_items_same [OF g1 g']) (use out in auto)
  ultimately show ?thesis unfolding s' using T by (auto simp: lfine_def l_good_def)
qed

lemma sum_list_none: "\<forall>x \<in> set xs. f x = {#} \<Longrightarrow> sum_list (map f xs) = {#}"
  by (induction xs) auto

lemma fresh_ring_items:
  assumes "own_ring s ps n" and "r_array (l_rings s n) 0 = \<lparr>c_val = v, c_idx = 0\<rparr>" and "\<not> is_empty v"
  shows "ring_items (l_pow s) n (l_rings s n) = {#(n, 0, v)#}"
proof -
  have "[0..<2 ^ l_pow s] = 0 # [1..<2 ^ l_pow s]" by (simp add: upt_conv_Cons)
  moreover have "cell_item n (r_array (l_rings s n) j) = {#}" if "0 < j" for j
    using assms(1) that by (simp add: own_ring_def fresh_ring_def cell_item_def)
  then have "sum_list (map (\<lambda>j. cell_item n (r_array (l_rings s n) j)) [1..<2 ^ l_pow s]) = {#}"
    by (intro sum_list_none) simp
  ultimately show ?thesis using assms(2,3) by (simp add: ring_items_def cell_item_def node_index_def)
qed


lemma lfine_publish:
  assumes inv: "l_inv s ps" and pc: "l_pc s t = LCasNext arg k rq" and nt: "l_nrq s t = Some n"
    and free: "r_next (l_rings s rq) = None"
  shows "lfine (Some (LPut n 0 (to_val arg))) s
    (lgo t (LSwingNew rq) (set_ring rq ((l_rings s rq)\<lparr>r_next := l_nrq s t\<rparr>) s))" (is "lfine _ s ?s")
proof -
  have g: "lglob s ps" using inv by (simp add: l_inv_def)
  have "nrq_ok s ps t (l_pc s t)" and "lpc_ok ps (l_pc s t)" using inv by (simp_all add: l_inv_def)
  then have own: "own_ring s ps n" and c0: "r_array (l_rings s n) 0 = \<lparr>c_val = to_val arg, c_idx = 0\<rparr>"
    and arg: "object arg" and rq: "rq \<in> set ps" using pc nt by auto
  have out: "n \<notin> set ps" "n < l_brk s" "r_next (l_rings s n) = None" using own by (simp_all add: own_ring_def fresh_ring_def)
  obtain i where i: "i < length ps" "rq = ps ! i" using rq by (auto simp: in_set_conv_nth)
  have last: "Suc i = length ps" using g i free by (auto simp: lglob_def rlinked_def split: if_splits)
  let ?ps = "ps @ [n]"
  have "rlinked (l_rings ?s) ?ps"
    unfolding rlinked_def
  proof (intro allI impI)
    fix j assume "j < length ?ps"
    then consider "j < i" | "j = i" | "j = length ps" using last by fastforce
    then show "r_next (l_rings ?s (?ps ! j)) = (if Suc j < length ?ps then Some (?ps ! Suc j) else None)"
    proof cases
      case 1
      then have "ps ! j \<noteq> rq" using g i by (simp add: lglob_def nth_eq_iff_index_eq)
      then show ?thesis using 1 i last g by (simp add: nth_append lglob_def rlinked_def)
    next
      case 2
      then show ?thesis using i last nt by (simp add: nth_append)
    next
      case 3
      then show ?thesis using out rq by (auto simp: nth_append)
    qed
  qed
  then have g': "lglob ?s ?ps" using g out by (auto simp: lglob_def)
  have nrq: "nrq_ok ?s ?ps u (l_pc ?s u)" for u
  proof (cases "u = t")
    case True
    then show ?thesis using nt by simp
  next
    case False
    have "nrq_ok s ps u (l_pc s u)" using inv by (simp add: l_inv_def)
    moreover have "m \<noteq> n" if "l_nrq s u = Some m" for m using inv nt that False unfolding l_inv_def by blast
    ultimately have "nrq_ok ?s ?ps u (l_pc s u)" by (intro nrq_ok_other [of s ps u _ ?s]) (use rq in auto)
    then show ?thesis using False by simp
  qed
  have "lpc_ok ?ps (l_pc ?s u)" for u
  proof -
    have "lpc_ok ps (l_pc s u)" using inv by (simp add: l_inv_def)
    then have "lpc_ok ?ps (l_pc s u)" by (rule lpc_ok_mono) auto
    then show ?thesis using rq by simp
  qed
  then have inv': "l_inv ?s ?ps" using g' nrq inv by (simp add: l_inv_def)
  have arr: "ring_items p q (l_rings ?s q) = ring_items p q (l_rings s q)" for p q by (simp add: ring_items_def)
  have "l_items ?s = l_items s + ring_items (l_pow s) n (l_rings s n)"
    unfolding l_items_eq [OF g] l_items_eq [OF g'] arr by (simp add: arr)
  then have "l_items ?s = add_mset (n, 0, to_val arg) (l_items s)"
    using fresh_ring_items [OF own c0 to_val_not_empty [OF arg]] by simp
  then show ?thesis using inv' by (auto simp: lfine_def l_good_def)
qed

lemma lfine_swing_new:
  assumes inv: "l_inv s ps" and pc: "l_pc s t = LSwingNew rq" and nt: "l_nrq s t = Some n"
  shows "lfine None s (lgo t LEnqDone
    (s\<lparr>l_tail := if l_tail s = rq then n else l_tail s, l_nrq := (l_nrq s)(t := None)\<rparr>))" (is "lfine _ s ?s")
proof -
  have g: "lglob s ps" using inv by (simp add: l_inv_def)
  have "nrq_ok s ps t (l_pc s t)" using inv by (simp add: l_inv_def)
  then have n: "n \<in> set ps" using pc nt by simp
  then have g': "lglob ?s ps" using g by (simp add: lglob_def)
  have nrq: "nrq_ok ?s ps u (l_pc ?s u)" for u
  proof (cases "u = t")
    case False
    have "nrq_ok s ps u (l_pc s u)" using inv by (simp add: l_inv_def)
    then have "nrq_ok ?s ps u (l_pc s u)" by (rule nrq_ok_other) (use False in auto)
    then show ?thesis using False by simp
  qed simp
  have "l_inv ?s ps"
    unfolding l_inv_def
  proof (intro conjI allI impI g' nrq)
    fix u w m assume "l_nrq ?s u = Some m" "l_nrq ?s w = Some m"
    then show "u = w" using inv unfolding l_inv_def by (auto split: if_splits)
  next
    fix u show "lpc_ok ps (l_pc ?s u)" using inv by (simp add: l_inv_def)
  qed
  moreover have "l_items ?s = l_items s" by (rule l_items_same [OF g g']) simp_all
  ultimately show ?thesis by (auto simp: lfine_def l_good_def)
qed


lemma rlinked_in: "rlinked h ps \<Longrightarrow> p \<in> set ps \<Longrightarrow> r_next (h p) = Some q \<Longrightarrow> q \<in> set ps"
  unfolding rlinked_def by (metis in_set_conv_nth option.distinct(1) option.inject)

lemma lenqueue_fine:
  assumes inv: "l_inv s ps" and run: "lenqueue_pc (l_pc s t) t s = Some s'"
  shows "lfine (lact (QRun t) s) s s'"
proof -
  have g: "lglob s ps" and ok: "lpc_ok ps (l_pc s t)" and nrq: "nrq_ok s ps t (l_pc s t)"
    using inv by (simp_all add: l_inv_def)
  have tl: "l_tail s \<in> set ps" and lk: "rlinked (l_rings s) ps" using g by (simp_all add: lglob_def)
  note go = lfine_go [OF inv, of _ t]
  show ?thesis
  proof (cases "l_pc s t")
    case (LReadTail arg k)
    then show ?thesis using run ok tl go [of "LReadNext arg k (l_tail s)"] by simp
  next
    case (LReadNext arg k rq)
    then show ?thesis
      using run ok rlinked_in [OF lk, of rq] go [of "LFaaTail arg k rq"] go [of "LSwing arg k rq nx" for nx]
      by (auto split: option.splits)
  next
    case (LSwing arg k rq nx)
    have "lfine None s (lgo t (LReadTail arg k) (if l_tail s = rq then s\<lparr>l_tail := nx\<rparr> else s))"
      by (rule lfine_frame [OF inv, of _ t "LReadTail arg k"])
        (use ok g LSwing nrq_ok_plain [OF inv, of "LReadTail arg k" t] in \<open>auto simp: lglob_def\<close>)
    then show ?thesis using run LSwing by simp
  next
    case (LFaaTail arg k rq)
    then show ?thesis
      using run ok lfine_ends(1) [OF inv, of "LAlloc arg k rq" t rq] lfine_ends(1) [OF inv, of "LReadIdx arg k rq (rtail s rq)" t rq]
      by (auto simp: Let_def)
  next
    case (LAlloc arg k rq)
    then show ?thesis using run lfine_solo [OF inv LAlloc] by simp
  next
    case (LCasNext arg k rq)
    then obtain n where "l_nrq s t = Some n" using nrq by auto
    then show ?thesis using run LCasNext ok lfine_publish [OF inv LCasNext] go [of "LReadTail arg k"]
      by (auto split: if_splits)
  next
    case (LSwingNew rq)
    then obtain n where "l_nrq s t = Some n" using nrq by auto
    then show ?thesis using run LSwingNew lfine_swing_new [OF inv LSwingNew] by simp
  next
    case (LReadIdx arg k rq tk)
    then show ?thesis using run ok go [of "LReadVal arg k rq tk (c_idx (cell s rq tk))"] by simp
  next
    case (LReadVal arg k rq tk idx)
    then show ?thesis
      using run ok go [of "LCas2 arg k rq tk idx"] go [of "LReadHead arg k rq tk idx"] go [of "LFull arg k rq tk"]
      by (auto simp: Let_def)
  next
    case (LReadHead arg k rq tk idx)
    then show ?thesis using run ok go [of "LCas2 arg k rq tk idx"] go [of "LFull arg k rq tk"] by auto
  next
    case (LCas2 arg k rq tk idx)
    have arg: "object arg" and rq: "rq \<in> set ps" using ok LCas2 by simp_all
    show ?thesis
    proof (cases "cell s rq tk = \<lparr>c_val = EMPTY_VAL, c_idx = idx\<rparr>")
      case True
      note C = lfine_cas2 [OF inv, of LEnqDone t rq tk _ "\<lparr>c_val = to_val arg, c_idx = tk\<rparr>", OF _ _ _ rq True]
      have "lfine (Some (LPut rq (node_index tk) (to_val arg))) s (lgo t LEnqDone (set_cell rq tk \<lparr>c_val = to_val arg, c_idx = tk\<rparr> s))"
        using C LCas2 to_val_not_empty [OF arg] by (simp add: lfine_def cell_item_def is_empty_def)
      then show ?thesis using run LCas2 True by (simp add: cas2_def)
    next
      case False
      then show ?thesis using run LCas2 ok go [of "LFull arg k rq tk"] by (simp add: cas2_def)
    qed
  next
    case (LFull arg k rq tk)
    then show ?thesis using run ok go [of "LClose arg (Suc k) rq tk"] go [of "LReadTail arg k"] by auto
  next
    case (LClose arg k rq tk)
    have "lfine None s (lgo t (if fst (close_crq rq tk k s) then LAlloc arg k rq else LReadTail arg k) (snd (close_crq rq tk k s)))"
      using ok LClose lfine_ends(1) [OF inv, of "LAlloc arg k rq" t rq] lfine_ends(1) [OF inv, of "LReadTail arg k" t rq]
        go [of "LReadTail arg k"] by (auto simp: close_crq_def)
    then show ?thesis using run LClose by (simp split: prod.splits)
  qed (use run in simp_all)
qed

lemma empty_cell_ok:
  "rq \<in> set ps \<Longrightarrow> is_empty val \<Longrightarrow> lpc_ok ps (empty_cell rq h tt r ci val s) \<and> plain_pc (empty_cell rq h tt r ci val s)"
  by (simp add: empty_cell_def Let_def)

lemma ldequeue_fine:
  assumes inv: "l_inv s ps" and run: "ldequeue_pc (l_pc s t) t s = Some s'"
  shows "lfine (lact (QRun t) s) s s'"
proof -
  have g: "lglob s ps" and ok: "lpc_ok ps (l_pc s t)" using inv by (simp_all add: l_inv_def)
  have hd: "l_head s \<in> set ps" and lk: "rlinked (l_rings s) ps" using g by (simp_all add: lglob_def)
  note go = lfine_go [OF inv, of _ t]
  show ?thesis
  proof (cases "l_pc s t")
    case LDReadHead
    then show ?thesis using run hd go [of "LDFaa (l_head s)"] by simp
  next
    case (LDFaa rq)
    then have "lfine None s (lgo t (LDIdx rq (rhead s rq) 0 0) (set_head rq (rhead s rq + 1) s))"
      using ok by (intro lfine_ends(2) [OF inv]) simp_all
    then show ?thesis using run LDFaa by (simp add: Let_def)
  next
    case (LDIdx rq h tt r)
    then show ?thesis using run ok go [of "LDVal rq h tt r (c_idx (cell s rq h))"] by simp
  next
    case (LDVal rq h tt r ci)
    let ?v = "c_val (cell s rq h)"
    have "lfine None s (lgo t (LDBreak rq h) s)" "lfine None s (lgo t (LDUnsafe rq h tt r ci ?v) s)"
      "\<not> is_empty ?v \<Longrightarrow> node_index ci = h \<Longrightarrow> lfine None s (lgo t (LDTake rq h tt r ci ?v) s)"
      "is_empty ?v \<Longrightarrow> lfine None s (lgo t (LDTail rq h tt r ci ?v) s)"
      using ok LDVal by (auto intro!: go)
    then show ?thesis using run LDVal by (auto simp: Let_def)
  next
    case (LDTail rq h tt r ci val)
    then show ?thesis using run ok empty_cell_ok [of rq ps val h tt r ci s] go [of "empty_cell rq h tt r ci val s"] by simp
  next
    case (LDTake rq h tt r ci val)
    have rq: "rq \<in> set ps" and v: "\<not> is_empty val" "node_index ci = h" using ok LDTake by simp_all
    let ?c = "\<lparr>c_val = EMPTY_VAL, c_idx = node_unsafe ci OR (h + RING_SIZE s)\<rparr>"
    show ?thesis
    proof (cases "cell s rq h = \<lparr>c_val = val, c_idx = ci\<rparr>")
      case True
      note C = lfine_cas2 [OF inv, of "LDeqDone (of_val val)" t rq h _ ?c, OF _ _ _ rq True]
      have "lfine (Some (LGot rq h val)) s (lgo t (LDeqDone (of_val val)) (set_cell rq h ?c s))"
        using C LDTake v by (simp add: lfine_def cell_item_def is_empty_def)
      then show ?thesis using run LDTake True by (simp add: cas2_def)
    next
      case False
      then show ?thesis using run LDTake ok go [of "LDIdx rq h tt r"] by (simp add: cas2_def)
    qed
  next
    case (LDUnsafe rq h tt r ci val)
    have rq: "rq \<in> set ps" using ok LDUnsafe by simp
    let ?c = "\<lparr>c_val = val, c_idx = set_unsafe (node_index ci)\<rparr>"
    show ?thesis
    proof (cases "cell s rq h = \<lparr>c_val = val, c_idx = ci\<rparr>")
      case True
      note C = lfine_cas2 [OF inv, of "LDBreak rq h" t rq h _ ?c, OF _ _ _ rq True]
      have "lfine None s (lgo t (LDBreak rq h) (set_cell rq h ?c s))"
        using C LDUnsafe rq by (auto simp: lfine_def cell_item_def split: if_splits)
      then show ?thesis using run LDUnsafe True by (simp add: cas2_def)
    next
      case False
      then show ?thesis using run LDUnsafe ok go [of "LDIdx rq h tt r"] by (simp add: cas2_def)
    qed
  next
    case (LDSkipUnsafe rq h tt r ci val)
    have rq: "rq \<in> set ps" and v: "is_empty val" using ok LDSkipUnsafe by simp_all
    let ?c = "\<lparr>c_val = val, c_idx = node_unsafe ci OR (h + RING_SIZE s)\<rparr>"
    show ?thesis
    proof (cases "cell s rq h = \<lparr>c_val = val, c_idx = ci\<rparr>")
      case True
      note C = lfine_cas2 [OF inv, of "LDBreak rq h" t rq h _ ?c, OF _ _ _ rq True]
      have "lfine None s (lgo t (LDBreak rq h) (set_cell rq h ?c s))"
        using C LDSkipUnsafe rq v by (simp add: lfine_def cell_item_def)
      then show ?thesis using run LDSkipUnsafe True by (simp add: cas2_def)
    next
      case False
      then show ?thesis using run LDSkipUnsafe ok go [of "LDIdx rq h tt r"] by (simp add: cas2_def)
    qed
  next
    case (LDSkip rq h tt r ci val)
    have rq: "rq \<in> set ps" and v: "is_empty val" using ok LDSkip by simp_all
    let ?c = "\<lparr>c_val = val, c_idx = h + RING_SIZE s\<rparr>"
    let ?p = "if r > 200000 \<and> tt > RING_SIZE s then LDClose rq h else LDBreak rq h"
    show ?thesis
    proof (cases "cell s rq h = \<lparr>c_val = val, c_idx = node_index ci\<rparr>")
      case True
      note C = lfine_cas2 [OF inv, of ?p t rq h _ ?c, OF _ _ _ rq True]
      have "lfine None s (lgo t ?p (set_cell rq h ?c s))"
        using C LDSkip rq v by (simp add: lfine_def cell_item_def)
      then show ?thesis using run LDSkip True by (simp add: cas2_def)
    next
      case False
      then show ?thesis using run LDSkip ok go [of "LDIdx rq h tt r"] by (simp add: cas2_def)
    qed
  next
    case (LDClose rq h)
    then have "lfine None s (lgo t (LDBreak rq h) (set_tail rq (rtail s rq OR push_bit 63 1) s))"
      using ok by (intro lfine_ends(1) [OF inv]) simp_all
    then show ?thesis using run LDClose by (simp only: ldequeue_pc.simps lact.simps lpc.case option.inject)
  next
    case (LDBreak rq h)
    then show ?thesis using run ok go [of "LFix1 rq h"] go [of LDReadHead] by auto
  next
    case (LFix1 rq h)
    then show ?thesis using run ok go [of "LFix2 rq h (rtail s rq)"] by simp
  next
    case (LFix2 rq h tk)
    then show ?thesis using run ok go [of "LFix3 rq h tk (rhead s rq)"] by simp
  next
    case (LFix3 rq h tk hq)
    then show ?thesis using run ok go [of "LFix1 rq h"] go [of "LFix4 rq h tk hq"] go [of "LDNext rq h"] by auto
  next
    case (LFix4 rq h tk hq)
    then show ?thesis using run ok lfine_ends(1) [OF inv, of "LDNext rq h" t rq] go [of "LFix1 rq h"] by (auto split: if_splits)
  next
    case (LDNext rq h)
    then show ?thesis
      using run ok rlinked_in [OF lk, of rq] go [of "LDeqDone (-1)"] go [of "LDCheck rq h nx" for nx]
      by (auto split: option.splits)
  next
    case (LDCheck rq h nx)
    then show ?thesis using run ok go [of "LDCasHead rq nx"] go [of LDReadHead] by auto
  next
    case (LDCasHead rq nx)
    have "lfine None s (lgo t LDReadHead (if l_head s = rq then s\<lparr>l_head := nx\<rparr> else s))"
      by (rule lfine_frame [OF inv, of _ t LDReadHead])
        (use ok g LDCasHead nrq_ok_plain [OF inv, of LDReadHead t] in \<open>auto simp: lglob_def\<close>)
    then show ?thesis using run LDCasHead by simp
  qed (use run in simp_all)
qed


lemma lidle_plain: "lidle p \<Longrightarrow> p \<noteq> LSwingNew rq"
  by auto

lemma lstep_fine:
  assumes "l_good s" and "obj_put e" and step: "lstep e s = Some s'"
  shows "lfine (lact e s) s s'"
proof -
  obtain ps where inv: "l_inv s ps" using assms(1) by (auto simp: l_good_def)
  show ?thesis
  proof (cases e)
    case (EnqBegin t v)
    then show ?thesis using step assms(2) lfine_go [OF inv, of "LReadTail v 0" t] lidle_plain
      by (auto split: if_splits)
  next
    case (DeqBegin t)
    then show ?thesis using step lfine_go [OF inv, of LDReadHead t] lidle_plain by (auto split: if_splits)
  next
    case (QRun t)
    then show ?thesis using step lenqueue_fine [OF inv, of t s'] ldequeue_fine [OF inv, of t s']
      by (auto split: option.splits)
  qed
qed

lemma l_init_good: "l_good (l_init pow full)"
proof -
  have "l_inv (l_init pow full) [0]"
    by (simp add: l_inv_def lglob_def l_init_def rlinked_def init_ring_def full_ring_def)
  then show ?thesis by (auto simp: l_good_def)
qed

lemma l_init_bag [simp]: "l_bag (l_init pow False) = {#}"
proof -
  have "published (l_init pow False) = [0]" by (simp add: published_def l_init_def init_ring_def)
  moreover have "ring_items pow 0 init_ring = {#}"
    unfolding ring_items_def
    by (intro sum_list_none) (simp add: cell_item_def init_ring_def is_empty_def EMPTY_VAL_def)
  ultimately show ?thesis by (simp add: l_bag_def l_items_def l_init_def)
qed

end
