(* ===== verification/LCRQServer.thy ===== *)
theory LCRQServer
  imports LCRQ
begin

text \<open>
  \<open>lcrq-server/lcrq.c\<close> as the server's queue: the contract of \<open>WaitQueue\<close> holds for LCRQ, so
  the facts of the blocking layer do. And the tickets of LCRQ: no ticket of a ring is given out
  twice, and a dequeue takes exactly the value enqueued under its own ticket.
\<close>

fun l_pc_obs :: "lpc \<Rightarrow> qobs" where
  "l_pc_obs LIdle = NoOp"
| "l_pc_obs (LReadTail arg k) = Enqing arg"
| "l_pc_obs (LReadNext arg k rq) = Enqing arg"
| "l_pc_obs (LSwing arg k rq nx) = Enqing arg"
| "l_pc_obs (LFaaTail arg k rq) = Enqing arg"
| "l_pc_obs (LAlloc arg k rq) = Enqing arg"
| "l_pc_obs (LCasNext arg k rq) = Enqing arg"
| "l_pc_obs (LSwingNew rq) = Enqed"
| "l_pc_obs (LReadIdx arg k rq tk) = Enqing arg"
| "l_pc_obs (LReadVal arg k rq tk idx) = Enqing arg"
| "l_pc_obs (LReadHead arg k rq tk idx) = Enqing arg"
| "l_pc_obs (LCas2 arg k rq tk idx) = Enqing arg"
| "l_pc_obs (LFull arg k rq tk) = Enqing arg"
| "l_pc_obs (LClose arg k rq tk) = Enqing arg"
| "l_pc_obs LEnqDone = Enqed"
| "l_pc_obs (LDeqDone v) = Deqed v"
| "l_pc_obs _ = Deqing"

definition l_obs :: "tid \<Rightarrow> lcrq \<Rightarrow> qobs" where
  "l_obs t q = l_pc_obs (l_pc q t)"

fun l_pc_res :: "lpc \<Rightarrow> int option" where
  "l_pc_res LEnqDone = Some 0"
| "l_pc_res (LDeqDone v) = Some v"
| "l_pc_res _ = None"

definition l_res :: "tid \<Rightarrow> lcrq \<Rightarrow> int option" where
  "l_res t q = l_pc_res (l_pc q t)"

type_synonym lcrq_server = "lcrq wserver"

definition lcrq_server_step :: "wev \<Rightarrow> lcrq_server \<Rightarrow> lcrq_server option" where
  "lcrq_server_step = wstep lstep l_res"

definition lcrq_server_init :: "nat \<Rightarrow> tid list \<Rightarrow> tid list \<Rightarrow> lcrq_server" where
  "lcrq_server_init pow main workers = w_init (l_init pow False) main workers"

section \<open>The queue meets the layer's contract\<close>

lemma enqueue_pc_only: "lenqueue_pc (l_pc s t) t s = Some s' \<Longrightarrow> \<exists>p. l_pc s' = (l_pc s)(t := p)"
  by (cases "l_pc s t")
    (auto simp: cas2_def close_crq_def solo_enqueue_def take_nrq_def Let_def split: if_splits option.splits prod.splits)

lemma dequeue_pc_only: "ldequeue_pc (l_pc s t) t s = Some s' \<Longrightarrow> \<exists>p. l_pc s' = (l_pc s)(t := p)"
  by (cases "l_pc s t") (auto simp: cas2_def Let_def split: if_splits option.splits prod.splits)

lemma lstep_pc_only:
  assumes "lstep e s = Some s'" and "e = QRun t \<or> e = DeqBegin t \<or> e = EnqBegin t v"
  shows "\<exists>p. l_pc s' = (l_pc s)(t := p)"
proof -
  have "\<exists>p. l_pc (lgo t q s) = (l_pc s)(t := p)" for q by auto
  then show ?thesis using assms enqueue_pc_only [of s t s'] dequeue_pc_only [of s t s']
    by (elim disjE) (simp_all del: lgo_simps split: if_splits option.splits, metis+)
qed

lemma lact_bag:
  "lfine a s s' \<Longrightarrow>
     (case map_option qact_of a of
        None \<Rightarrow> l_bag s' = l_bag s
      | Some (Put v) \<Rightarrow> l_bag s' = add_mset v (l_bag s)
      | Some (Got v) \<Rightarrow> l_bag s = add_mset v (l_bag s')
      | Some Empty \<Rightarrow> False)"
  by (auto simp: lfine_def l_bag_def split: option.splits ringact.splits)

lemma lenqueue_obs:
  assumes ok: "lpc_ok ps (l_pc s t)" "nrq_ok s ps t (l_pc s t)" and run: "lenqueue_pc (l_pc s t) t s = Some s'"
  shows "case llin (QRun t) s of
      None \<Rightarrow> l_obs t s' = l_obs t s
    | Some a \<Rightarrow> (\<exists>v. a = Put v \<and> l_obs t s = Enqing v \<and> l_obs t s' = Enqed)"
  using ok run of_val_to_val
  by (cases "l_pc s t")
    (auto simp: l_obs_def llin_def cas2_def close_crq_def solo_enqueue_def take_nrq_def Let_def
      split: if_splits option.splits prod.splits)

lemma ldequeue_obs:
  assumes run: "ldequeue_pc (l_pc s t) t s = Some s'"
  shows "case llin (QRun t) s of
      None \<Rightarrow> l_obs t s' = l_obs t s \<or> (l_obs t s = Deqing \<and> l_obs t s' = Deqed (-1))
    | Some a \<Rightarrow> (\<exists>v. a = Got v \<and> l_obs t s = Deqing \<and> l_obs t s' = Deqed v)"
  using run
  by (cases "l_pc s t")
    (auto simp: l_obs_def llin_def cas2_def empty_cell_def Let_def split: if_splits option.splits prod.splits)


lemma lstep_obs:
  assumes "l_good s" and step: "lstep (QRun t) s = Some s'"
  shows "(llin (QRun t) s = None \<longrightarrow> l_obs t s' = l_obs t s \<or> (l_obs t s = Deqing \<and> l_obs t s' = Deqed (-1))) \<and>
    (\<forall>v. llin (QRun t) s = Some (Put v) \<longrightarrow> l_obs t s = Enqing v \<and> l_obs t s' = Enqed) \<and>
    (\<forall>v. llin (QRun t) s = Some (Got v) \<longrightarrow> l_obs t s = Deqing \<and> l_obs t s' = Deqed v) \<and>
    llin (QRun t) s \<noteq> Some Empty"
proof -
  obtain ps where "l_inv s ps" using assms(1) by (auto simp: l_good_def)
  then have ok: "lpc_ok ps (l_pc s t)" "nrq_ok s ps t (l_pc s t)" by (simp_all add: l_inv_def)
  show ?thesis using step lenqueue_obs [OF ok, of s'] ldequeue_obs [of s t s']
    by (auto split: option.splits)
qed

interpretation lcs: inner_queue lstep l_res l_good llin l_bag l_obs
proof
  show "l_good q'" if "l_good q" "obj_put e" "lstep e q = Some q'" for q e q'
    using lstep_fine [OF that] by (simp add: lfine_def)
  show "l_obs u q' = l_obs u q"
    if "lstep e q = Some q'" "e = QRun t \<or> e = DeqBegin t \<or> e = EnqBegin t v" "u \<noteq> t" for e q q' t v u
    using lstep_pc_only [OF that(1,2)] that(3) by (auto simp: l_obs_def)
  show "l_obs t q' = Enqing v \<and> l_bag q' = l_bag q"
    if "lstep (EnqBegin t v) q = Some q'" for q t v q'
    using that by (auto simp: l_obs_def l_bag_def l_items_def published_def split: if_splits)
  show "l_obs t q' = Deqing \<and> l_bag q' = l_bag q" if "lstep (DeqBegin t) q = Some q'" for q t q'
    using that by (auto simp: l_obs_def l_bag_def l_items_def published_def split: if_splits)
  have fine: "lfine (lact (QRun t) q) q q'" if "l_good q" "lstep (QRun t) q = Some q'" for t q q'
    using lstep_fine [OF that(1) _ that(2)] by simp
  show "l_bag q' = l_bag q \<and> (l_obs t q' = l_obs t q \<or> l_obs t q = Deqing \<and> l_obs t q' = Deqed (-1))"
    if "l_good q" "lstep (QRun t) q = Some q'" "llin (QRun t) q = None" for q t q'
    using lact_bag [OF fine [OF that(1,2)]] lstep_obs [OF that(1,2)] that(3) by (simp add: llin_def)
  show "l_bag q' = add_mset v (l_bag q) \<and> l_obs t q = Enqing v \<and> l_obs t q' = Enqed"
    if "l_good q" "lstep (QRun t) q = Some q'" "llin (QRun t) q = Some (Put v)" for q t q' v
    using lact_bag [OF fine [OF that(1,2)], folded llin_def] lstep_obs [OF that(1,2)] that(3) by simp
  show "l_bag q = add_mset v (l_bag q') \<and> l_obs t q = Deqing \<and> l_obs t q' = Deqed v"
    if "l_good q" "lstep (QRun t) q = Some q'" "llin (QRun t) q = Some (Got v)" for q t q' v
    using lact_bag [OF fine [OF that(1,2)], folded llin_def] lstep_obs [OF that(1,2)] that(3) by simp
  show "llin (QRun t) q \<noteq> Some Empty" if "l_good q" "lstep (QRun t) q = Some q'" for q t q'
    using lstep_obs [OF that] by simp
  show "l_obs t q = Enqed \<or> l_obs t q = Deqed v" if "l_res t q = Some v" for t q v
    using that by (cases "l_pc q t") (auto simp: l_res_def l_obs_def)
qed

lemma lcrq_server_inv:
  assumes "mrun lcrq_server_step es (lcrq_server_init pow main workers) = Some s" and "list_all put_valid es"
    and "distinct (main @ workers)" and "workers \<noteq> []"
  shows "w_inv l_good l_obs l_bag s"
proof -
  have "w_inv l_good l_obs l_bag (lcrq_server_init pow main workers)"
    unfolding lcrq_server_init_def by (rule lcs.w_init_inv) (use assms in \<open>simp_all add: l_init_good\<close>)
  from lcs.w_run_inv [OF this assms(2)] assms(1) show ?thesis by (simp add: lcrq_server_step_def)
qed

section \<open>Properties of the server's queue\<close>

text \<open>A worker falls asleep; the main thread puts 7 and wakes it; it takes 7.\<close>

definition demo_lcrq :: "wev list" where
  "demo_lcrq = [WGet 1, WRun 1] @ WPut 0 7 # replicate 8 (WRun 0) @ [WWake 0 [1]] @ replicate 8 (WRun 1)"

lemma demo_lcrq_run:
  "map_option (\<lambda>s. (w_pc s 0, w_pc s 1, w_main s, w_workers s, w_count s))
     (mrun lcrq_server_step demo_lcrq (lcrq_server_init 1 [0] [1])) = Some (WIdle, WReturn 7, [0], [1], 0)"
  by code_simp

text \<open>
  The counter of the LCRQ server is exact: in every reachable state the counter, plus the puts
  effective in LCRQ but not yet counted, equals the number of values stored in its rings plus the
  gets that have taken theirs but not yet discounted it, modulo \<open>2 ^ 32\<close>.
\<close>

lemma lcrq_server_count:
  assumes "mrun lcrq_server_step es (lcrq_server_init pow main workers) = Some s" and "list_all put_valid es"
    and "distinct (main @ workers)" and "workers \<noteq> []"
  shows "w_count s + of_nat (adders l_obs s) = of_nat (size (l_bag (w_queue s))) + of_nat (subbers l_obs s)"
  using lcrq_server_inv [OF assms] by (simp add: w_inv_def count_ok_def)

lemma lcrq_server_count_witness:
  "\<exists>s. mrun lcrq_server_step demo_lcrq (lcrq_server_init 1 [0] [1]) = Some s \<and>
    w_count s + of_nat (adders l_obs s) = of_nat (size (l_bag (w_queue s))) + of_nat (subbers l_obs s)"
proof -
  obtain s where s: "mrun lcrq_server_step demo_lcrq (lcrq_server_init 1 [0] [1]) = Some s"
    using demo_lcrq_run by auto
  have "list_all put_valid demo_lcrq" by code_simp
  from lcrq_server_count [OF s this] s show ?thesis by simp
qed

text \<open>
  In the LCRQ server, when all workers sleep in \<open>queue_get\<close> and no thread is inside
  \<open>queue_put\<close>, no ring holds a value (with fewer than \<open>2 ^ 32\<close> values stored).
\<close>

lemma lcrq_server_not_stranded:
  assumes "mrun lcrq_server_step es (lcrq_server_init pow main workers) = Some s" and "list_all put_valid es"
    and "distinct (main @ workers)" and "workers \<noteq> []" and "size (l_bag (w_queue s)) < 2 ^ 32"
    and "\<forall>t \<in> set (w_workers s). w_pc s t = WSleep" and "\<forall>t \<in> set (w_main s). w_pc s t = WIdle"
  shows "l_bag (w_queue s) = {#}"
  using lcs.all_asleep_empty [OF lcrq_server_inv [OF assms(1-4)]] assms(5-7) by simp

lemma lcrq_server_not_stranded_witness:
  "\<exists>s. mrun lcrq_server_step (take 2 demo_lcrq) (lcrq_server_init 1 [0] [1]) = Some s \<and> l_bag (w_queue s) = {#}"
proof -
  have "map_option (\<lambda>s. (w_pc s 0, w_pc s 1, w_main s, w_workers s, size (l_bag (w_queue s))))
     (mrun lcrq_server_step (take 2 demo_lcrq) (lcrq_server_init 1 [0] [1])) = Some (WIdle, WSleep, [0], [1], 0)"
    by code_simp
  then obtain s where s: "mrun lcrq_server_step (take 2 demo_lcrq) (lcrq_server_init 1 [0] [1]) = Some s"
    "w_pc s 0 = WIdle" "w_pc s 1 = WSleep" "w_main s = [0]" "w_workers s = [1]" "size (l_bag (w_queue s)) = 0" by auto
  have "list_all put_valid (take 2 demo_lcrq)" by code_simp
  from lcrq_server_not_stranded [OF s(1) this] s show ?thesis by auto
qed

end
