(* ===== verification/LCRQTickets.thy ===== *)
theory LCRQTickets
  imports LCRQ
begin

text \<open>
  Tickets of LCRQ. While fewer than \<open>2 ^ 62\<close> steps are taken no ring index reaches bit 63, so a
  closed ring stays closed, no ticket of a ring is given out twice, and each put takes effect under
  a ticket of its own.
\<close>

section \<open>The trace of puts and gets\<close>

fun l_trace :: "qev list \<Rightarrow> lcrq \<Rightarrow> ringact list" where
  "l_trace [] s = []"
| "l_trace (e # es) s =
     (case lstep e s of None \<Rightarrow> []
      | Some s' \<Rightarrow> (case lact e s of None \<Rightarrow> [] | Some a \<Rightarrow> [a]) @ l_trace es s')"

fun l_puts :: "ringact list \<Rightarrow> (nat \<times> u64 \<times> u64) list" where
  "l_puts [] = []"
| "l_puts (LPut p i v # as) = (p, i, v) # l_puts as"
| "l_puts (LGot p i v # as) = l_puts as"

fun l_gots :: "ringact list \<Rightarrow> (nat \<times> u64 \<times> u64) list" where
  "l_gots [] = []"
| "l_gots (LGot p i v # as) = (p, i, v) # l_gots as"
| "l_gots (LPut p i v # as) = l_gots as"

lemma l_puts_append [simp]: "l_puts (as @ bs) = l_puts as @ l_puts bs"
  by (induction as rule: l_puts.induct) auto

lemma l_gots_append [simp]: "l_gots (as @ bs) = l_gots as @ l_gots bs"
  by (induction as rule: l_gots.induct) auto

lemma trace_items:
  "l_good s \<Longrightarrow> list_all obj_put es \<Longrightarrow> mrun lstep es s = Some s' \<Longrightarrow>
     mset (l_puts (l_trace es s)) + l_items s = mset (l_gots (l_trace es s)) + l_items s'"
proof (induction es arbitrary: s)
  case Nil
  then show ?case by simp
next
  case (Cons e es)
  then obtain u where u: "lstep e s = Some u" and es: "mrun lstep es u = Some s'" by (auto split: option.splits)
  have fine: "lfine (lact e s) s u" using lstep_fine [OF Cons.prems(1) _ u] Cons.prems(2) by simp
  then have "l_good u" by (simp add: lfine_def)
  then have IH: "mset (l_puts (l_trace es u)) + l_items u = mset (l_gots (l_trace es u)) + l_items s'"
    using Cons.IH [of u] Cons.prems(2) es by simp
  show ?case
  proof (cases "lact e s")
    case None
    then show ?thesis using IH fine u by (simp add: lfine_def)
  next
    case (Some a)
    then show ?thesis using IH fine u by (cases a) (simp_all add: lfine_def)
  qed
qed

section \<open>The invariant on tickets\<close>

text \<open>The ticket an enqueue may still use: drawn from an open ring, not yet given up.\<close>

fun held :: "lpc \<Rightarrow> (nat \<times> u64) option" where
  "held (LReadIdx arg k rq tk) = Some (rq, tk)"
| "held (LReadVal arg k rq tk idx) = Some (rq, tk)"
| "held (LReadHead arg k rq tk idx) = Some (rq, tk)"
| "held (LCas2 arg k rq tk idx) = Some (rq, tk)"
| "held _ = None"

fun fix_bound :: "nat \<Rightarrow> lpc \<Rightarrow> bool" where
  "fix_bound n (LFix3 rq h tk hq) = (unat hq \<le> n)"
| "fix_bound n (LFix4 rq h tk hq) = (unat hq \<le> n \<and> tk < hq)"
| "fix_bound n _ = True"

definition ti :: "lcrq \<Rightarrow> nat \<Rightarrow> nat" where
  "ti s q = unat (tail_index (rtail s q))"

definition bounds_ok :: "nat \<Rightarrow> lcrq \<Rightarrow> bool" where
  "bounds_ok n s \<longleftrightarrow> (\<forall>q. unat (rhead s q) \<le> n \<and> ti s q \<le> n) \<and> (\<forall>t. fix_bound n (l_pc s t))"

definition tickets_ok :: "lcrq \<Rightarrow> (nat \<times> u64) set \<Rightarrow> bool" where
  "tickets_ok s P \<longleftrightarrow>
     (\<forall>t q tk. held (l_pc s t) = Some (q, tk) \<longrightarrow> \<not> crq_is_closed tk \<and> unat tk < ti s q \<and> (q, tk) \<notin> P) \<and>
     (\<forall>t u x. held (l_pc s t) = Some x \<longrightarrow> held (l_pc s u) = Some x \<longrightarrow> t = u) \<and>
     (\<forall>q tk. (q, tk) \<in> P \<longrightarrow> unat tk < ti s q)"

definition solo_ok :: "lcrq \<Rightarrow> bool" where
  "solo_ok s \<longleftrightarrow> (\<forall>t arg k rq n. l_pc s t = LCasNext arg k rq \<longrightarrow> l_nrq s t = Some n \<longrightarrow> rtail s n = 1)"

definition own_free :: "lcrq \<Rightarrow> (nat \<times> u64) set \<Rightarrow> bool" where
  "own_free s P \<longleftrightarrow> (\<forall>q \<in> fst ` P. q < l_brk s) \<and>
     (\<forall>t n. l_nrq s t = Some n \<longrightarrow> (\<forall>rq. l_pc s t \<noteq> LSwingNew rq) \<longrightarrow> n \<notin> fst ` P)"

text \<open>\<open>P\<close> are the tickets, with their rings, that puts have taken effect under.\<close>

definition T_inv :: "nat \<Rightarrow> lcrq \<Rightarrow> (nat \<times> u64) set \<Rightarrow> bool" where
  "T_inv n s P \<longleftrightarrow> l_good s \<and> bounds_ok n s \<and> tickets_ok s P \<and> solo_ok s \<and> own_free s P"

section \<open>Words with bit 63\<close>

lemma tail_index_eq: "tail_index t = node_index t"
  by (simp only: tail_index_def node_index_def)

lemma closed_bit: "crq_is_closed t \<longleftrightarrow> bit t 63"
proof -
  have "t AND push_bit 63 1 \<noteq> 0 \<longleftrightarrow> (\<exists>n. bit (t AND push_bit 63 1) n)" by (metis bit_0_eq bit_eq_iff bot_apply bot_bool_def)
  also have "\<dots> \<longleftrightarrow> bit t 63" unfolding bit_and_iff bit63 by auto
  finally show ?thesis by (simp only: crq_is_closed_def)
qed

lemma index_mod: "unat (tail_index t) = unat t mod 2 ^ 63"
proof -
  have "tail_index t = take_bit 63 t"
    by (rule bit_word_eqI) (auto simp: tail_index_eq bit_index bit_take_bit_iff)
  then have "unat (tail_index t) = take_bit 63 (unat t)" by (simp only: unsigned_take_bit_eq)
  then show ?thesis by (simp only: take_bit_eq_mod)
qed

lemma closed_ge: "crq_is_closed t \<longleftrightarrow> 2 ^ 63 \<le> unat t"
proof -
  have "bit (unat t) 63 \<longleftrightarrow> bit t 63" by (simp add: bit_unsigned_iff)
  then have odd: "bit t 63 \<longleftrightarrow> odd (unat t div 2 ^ 63)" by (simp only: bit_iff_odd)
  have "unat t < 2 ^ 64" using unsigned_less [of t] by simp
  then have two: "unat t div 2 ^ 63 < 2" by (simp add: less_mult_imp_div_less)
  show ?thesis
  proof (cases "unat t < 2 ^ 63")
    case True
    then have "unat t div 2 ^ 63 = 0" by (rule div_less)
    then show ?thesis using True odd unfolding closed_bit by (metis even_zero not_le)
  next
    case False
    then have "unat t div 2 ^ 63 \<noteq> 0" by (simp add: div_eq_0_iff)
    then have "unat t div 2 ^ 63 = 1" using two by linarith
    then show ?thesis using False odd unfolding closed_bit by (metis odd_one not_less)
  qed
qed

lemma index_open: "\<not> crq_is_closed t \<Longrightarrow> unat (tail_index t) = unat t"
  unfolding index_mod closed_ge by simp

lemma index_or: "tail_index (t OR push_bit 63 1) = tail_index t"
proof -
  have "node_index (t OR push_bit 63 1) = node_index t"
    by (rule bit_word_eqI) (unfold bit_index bit_or_iff bit63, auto)
  then show ?thesis by (simp only: tail_index_eq)
qed

lemma index_suc: "unat (tail_index t) < 2 ^ 63 - 1 \<Longrightarrow> unat (tail_index (t + 1)) = Suc (unat (tail_index t))"
proof -
  assume "unat (tail_index t) < 2 ^ 63 - 1"
  then have a: "unat t mod 2 ^ 63 < 2 ^ 63 - 1" by (simp only: index_mod)
  have "unat (t + 1) mod 2 ^ 63 = (unat t + 1) mod 2 ^ 64 mod 2 ^ 63" by (simp add: unat_word_ariths)
  also have "\<dots> = (unat t + 1) mod 2 ^ 63" by (simp add: mod_mod_cancel)
  also have "\<dots> = Suc (unat t mod 2 ^ 63)" using a by (simp add: mod_Suc)
  finally show ?thesis by (simp only: index_mod)
qed


section \<open>Every step keeps the invariant\<close>

lemma rhead_rtail_simps [simp]:
  "rtail (lgo t p s) = rtail s" "rhead (lgo t p s) = rhead s"
  "rtail (set_cell rq tk c s) q = rtail s q" "rhead (set_cell rq tk c s) q = rhead s q"
  "rtail (set_tail rq v s) q = (if q = rq then v else rtail s q)" "rhead (set_tail rq v s) q = rhead s q"
  "rtail (set_head rq v s) q = rtail s q" "rhead (set_head rq v s) q = (if q = rq then v else rhead s q)"
  by (auto simp: rtail_def rhead_def set_cell_def set_tail_def set_head_def Let_def)

lemma ti_simps [simp]:
  "ti (lgo t p s) = ti s" "ti (set_cell rq tk c s) q = ti s q" "ti (set_head rq v s) q = ti s q"
  "ti (set_tail rq v s) q = (if q = rq then unat (tail_index v) else ti s q)"
  by (auto simp: ti_def)

lemma tickets_frame:
  assumes ok: "tickets_ok s P" and pc: "l_pc s' = (l_pc s)(t := p)" and mono: "\<And>q. ti s q \<le> ti s' q \<or> (\<forall>u. q \<notin> fst ` P \<and> (\<forall>tk. held (l_pc s u) \<noteq> Some (q, tk)))"
    and hold: "held p = None \<or> held p = held (l_pc s t) \<or>
      (\<exists>q tk. held p = Some (q, tk) \<and> \<not> crq_is_closed tk \<and> ti s q \<le> unat tk \<and> unat tk < ti s' q)"
    and P: "P' = P \<or> (\<exists>x. P' = insert x P \<and> held (l_pc s t) = Some x \<and> held p = None)"
  shows "tickets_ok s' P'"
proof -
  have A: "\<not> crq_is_closed tk" "unat tk < ti s q" "(q, tk) \<notin> P" if "held (l_pc s u) = Some (q, tk)" for u q tk
    using ok that unfolding tickets_ok_def by blast+
  have U: "u = w" if "held (l_pc s u) = Some x" "held (l_pc s w) = Some x" for u w x
    using ok that unfolding tickets_ok_def by blast
  have B: "unat tk < ti s q" if "(q, tk) \<in> P" for q tk using ok that unfolding tickets_ok_def by blast
  have mono': "unat tk < ti s' q" if "held (l_pc s u) = Some (q, tk) \<or> (q, tk) \<in> P" for u q tk
  proof -
    have "ti s q \<le> ti s' q" using mono [of q] that by force
    then show ?thesis using that A B by (metis less_le_trans)
  qed
  have new: "(q, tk) \<notin> P" "held (l_pc s u) \<noteq> Some (q, tk)" if "ti s q \<le> unat tk" for q tk u
    using that A B by (metis not_less)+
  have P_new: "(q, tk) \<notin> P'" if "held (l_pc s' u) = Some (q, tk)" for u q tk
  proof (cases "u = t")
    case True
    then have h: "held p = Some (q, tk)" using that pc by simp
    then have "P' = P" using P by auto
    then show ?thesis using h hold A(3) new(1) by (elim disjE) auto
  next
    case False
    then have h: "held (l_pc s u) = Some (q, tk)" using that pc by simp
    then show ?thesis using P A(3) [OF h] U [OF h, of t] False by auto
  qed
  show ?thesis
    unfolding tickets_ok_def
  proof (intro conjI allI impI)
    fix u q tk assume h: "held (l_pc s' u) = Some (q, tk)"
    have c: "held (l_pc s u) = Some (q, tk) \<or> held (l_pc s t) = Some (q, tk) \<or>
        (\<not> crq_is_closed tk \<and> ti s q \<le> unat tk \<and> unat tk < ti s' q)"
      using h hold pc by (cases "u = t") (simp_all, metis old.prod.inject option.inject)
    show "\<not> crq_is_closed tk" using c A(1) by blast
    show "unat tk < ti s' q" using c mono' by blast
    show "(q, tk) \<notin> P'" by (rule P_new [OF h])
  next
    fix u w x assume h: "held (l_pc s' u) = Some x" "held (l_pc s' w) = Some x"
    show "u = w"
    proof (rule ccontr)
      assume uw: "u \<noteq> w"
      obtain q tk where x: "x = (q, tk)" by (cases x)
      have "held (l_pc s' v) = Some x \<Longrightarrow> v \<noteq> t \<Longrightarrow> held p \<noteq> Some x" for v
      proof
        assume v: "held (l_pc s' v) = Some x" "v \<noteq> t" and hp: "held p = Some x"
        then have hv: "held (l_pc s v) = Some x" using pc by simp
        have "held p = held (l_pc s t) \<or> ti s q \<le> unat tk" using hold hp x by auto
        then show False
        proof
          assume "held p = held (l_pc s t)"
          then show False using U [OF hv, of t] hp v(2) by simp
        next
          assume "ti s q \<le> unat tk"
          then show False using new(2) hv x by blast
        qed
      qed
      then show False using h uw pc U [of u x w] by (cases "u = t"; cases "w = t") auto
    qed
  next
    fix q tk assume "(q, tk) \<in> P'"
    then have "(q, tk) \<in> P \<or> held (l_pc s t) = Some (q, tk)" using P by auto
    then show "unat tk < ti s' q" using mono' by blast
  qed
qed

lemma tickets_insert:
  assumes ok: "tickets_ok s P" and i: "unat i < ti s m" and free: "\<And>u. held (l_pc s u) \<noteq> Some (m, i)"
  shows "tickets_ok s (insert (m, i) P)"
  unfolding tickets_ok_def
proof (intro conjI allI impI)
  fix u q tk assume h: "held (l_pc s u) = Some (q, tk)"
  then show "\<not> crq_is_closed tk" "unat tk < ti s q" using ok unfolding tickets_ok_def by blast+
  have "(q, tk) \<notin> P" using h ok unfolding tickets_ok_def by blast
  then show "(q, tk) \<notin> insert (m, i) P" using h free [of u] by auto
next
  fix u w x assume "held (l_pc s u) = Some x" "held (l_pc s w) = Some x"
  then show "u = w" using ok unfolding tickets_ok_def by blast
next
  fix q tk assume "(q, tk) \<in> insert (m, i) P"
  then show "unat tk < ti s q" using ok i unfolding tickets_ok_def by blast
qed

lemma held_published: "lpc_ok ps p \<Longrightarrow> held p = Some (q, tk) \<Longrightarrow> q \<in> set ps"
  by (cases p) auto

text \<open>A step of thread \<open>t\<close> that allocates and links no ring.\<close>

lemma T_frame:
  assumes T: "T_inv n s P" and inv: "l_inv s ps" and good: "l_good s'" and pc: "l_pc s' = (l_pc s)(t := p)"
    and same: "l_nrq s' = l_nrq s" "l_brk s' = l_brk s"
    and head: "\<And>q. unat (rhead s' q) \<le> Suc n"
    and tail: "\<And>q. ti s q \<le> ti s' q \<and> ti s' q \<le> Suc n" and out: "\<And>q. q \<notin> set ps \<Longrightarrow> rtail s' q = rtail s q"
    and hold: "held p = None \<or> held p = held (l_pc s t) \<or>
      (\<exists>q tk. held p = Some (q, tk) \<and> \<not> crq_is_closed tk \<and> ti s q \<le> unat tk \<and> unat tk < ti s' q)"
    and P: "P' = P \<or> (\<exists>x. P' = insert x P \<and> held (l_pc s t) = Some x \<and> held p = None)"
    and p: "fix_bound (Suc n) p" "\<And>arg k rq. p \<noteq> LCasNext arg k rq" "\<And>rq. l_pc s t \<noteq> LSwingNew rq"
  shows "T_inv (Suc n) s' P'"
proof -
  have fb: "fix_bound (Suc n) q" if "fix_bound n q" for q using that by (cases q) auto
  have bo: "bounds_ok n s" and tk: "tickets_ok s P" and so: "solo_ok s" and fr: "own_free s P" using T by (simp_all add: T_inv_def)
  have "bounds_ok (Suc n) s'" using bo head tail p(1) fb pc by (simp add: bounds_ok_def)
  moreover have "tickets_ok s' P'" by (rule tickets_frame [OF tk pc _ hold P]) (use tail in blast)
  moreover have "solo_ok s'"
    unfolding solo_ok_def
  proof (intro allI impI)
    fix u arg k rq m assume a: "l_pc s' u = LCasNext arg k rq" "l_nrq s' u = Some m"
    then have u: "l_pc s u = LCasNext arg k rq" "l_nrq s u = Some m" using pc p(2) same by (auto split: if_splits)
    moreover have "nrq_ok s ps u (l_pc s u)" using inv by (simp add: l_inv_def)
    ultimately have "m \<notin> set ps" by (simp add: own_ring_def)
    then show "rtail s' m = 1" using out so u unfolding solo_ok_def by metis
  qed
  moreover have "own_free s' P'"
  proof -
    have sub: "q \<in> fst ` P \<or> q \<in> set ps" if q: "q \<in> fst ` P'" for q
    proof -
      have "lpc_ok ps (l_pc s t)" using inv by (simp add: l_inv_def)
      then have h: "x \<in> set ps" if "held (l_pc s t) = Some (x, i)" for x i using held_published that by blast
      obtain i where "(q, i) \<in> P'" using q by auto
      then have "(q, i) \<in> P \<or> held (l_pc s t) = Some (q, i)" using P by auto
      then show ?thesis using h by (metis fst_conv image_eqI)
    qed
    have "\<forall>a \<in> set ps. a < l_brk s" using inv by (simp add: l_inv_def lglob_def)
    moreover have "\<forall>q \<in> fst ` P. q < l_brk s" using fr unfolding own_free_def by blast
    ultimately have below: "\<forall>q \<in> fst ` P'. q < l_brk s'" using sub same(2) by metis
    have "m \<notin> fst ` P'" if "l_nrq s' u = Some m" "\<forall>rq. l_pc s' u \<noteq> LSwingNew rq" for u m
    proof -
      have nsw: "\<forall>rq. l_pc s u \<noteq> LSwingNew rq" using that(2) p(3) pc by (cases "u = t") auto
      have "nrq_ok s ps u (l_pc s u)" using inv by (simp add: l_inv_def)
      then have "own_ring s ps m" using nrq_ok_weak nsw that(1) same by simp
      then have "m \<notin> set ps" by (simp add: own_ring_def)
      moreover have "m \<notin> fst ` P" using fr nsw that(1) same unfolding own_free_def by metis
      ultimately show ?thesis using sub by blast
    qed
    then show ?thesis using below by (simp add: own_free_def)
  qed
  ultimately show ?thesis using good by (simp add: T_inv_def)
qed


fun put_tickets :: "ringact option \<Rightarrow> (nat \<times> u64) set" where
  "put_tickets (Some (LPut q i v)) = {(q, i)}"
| "put_tickets _ = {}"

lemma T_step_solo:
  assumes T: "T_inv n s P" and inv: "l_inv s ps" and good: "l_good s'" and pc: "l_pc s t = LAlloc arg k rq"
    and s': "s' = lgo t (LCasNext arg k rq) (solo_enqueue t arg s)"
  shows "T_inv (Suc n) s' P"
proof -
  obtain m s1 where take: "take_nrq t s = (m, s1)" by (cases "take_nrq t s")
  note K = take_nrq_ok [OF inv pc take]
  have bo: "bounds_ok n s" and tk: "tickets_ok s P" and so: "solo_ok s" and fr: "own_free s P" using T by (simp_all add: T_inv_def)
  have inv1: "l_inv s1 ps" and own: "own_ring s1 ps m" and nt: "l_nrq s1 t = Some m" using K by simp_all
  have rings: "l_rings s1 q = l_rings s q" if "q \<noteq> m" for q using take that by (auto simp: take_nrq_def split: option.splits)
  have nrq: "l_nrq s1 u = l_nrq s u" if "u \<noteq> t" for u using take that by (auto simp: take_nrq_def split: option.splits)
  have mfree: "m \<notin> fst ` P"
  proof (cases "l_nrq s t")
    case None
    then have "m = l_brk s" using take by (simp add: take_nrq_def)
    then show ?thesis using fr by (auto simp: own_free_def)
  next
    case (Some x)
    then show ?thesis using fr take pc by (auto simp: own_free_def take_nrq_def)
  qed
  have mheld: "held (l_pc s u) \<noteq> Some (m, i)" for u i
  proof
    assume h: "held (l_pc s u) = Some (m, i)"
    have "lpc_ok ps (l_pc s u)" using inv by (simp add: l_inv_def)
    then show False using held_published [OF _ h] own by (simp add: own_ring_def)
  qed
  have same: "rtail s' q = rtail s q" "rhead s' q = rhead s q" if "q \<noteq> m" for q
    using that rings [OF that] by (simp_all add: s' solo_enqueue_def take Let_def rtail_def rhead_def)
  have atm: "rtail s' m = 1" "rhead s' m = 0"
    using own by (simp_all add: s' solo_enqueue_def take Let_def rtail_def rhead_def own_ring_def fresh_ring_def)
  have tm: "ti s' m = 1" unfolding ti_def index_mod atm by simp
  have pc': "l_pc s' = (l_pc s)(t := LCasNext arg k rq)" using K by (simp add: s' solo_enqueue_def take Let_def)
  have nrq': "l_nrq s' = l_nrq s1" "l_brk s' = l_brk s1" by (simp_all add: s' solo_enqueue_def take Let_def)
  have fb: "fix_bound (Suc n) p" if "fix_bound n p" for p using that by (cases p) auto
  have "unat (rhead s' q) \<le> Suc n \<and> ti s' q \<le> Suc n" for q
    using bo same [of q] atm tm unfolding bounds_ok_def ti_def by (cases "q = m") (simp_all add: le_SucI)
  then have "bounds_ok (Suc n) s'" using bo fb pc' unfolding bounds_ok_def by simp
  moreover have "ti s q \<le> ti s' q \<or> (\<forall>u. q \<notin> fst ` P \<and> (\<forall>tk. held (l_pc s u) \<noteq> Some (q, tk)))" for q
    using same [of q] mfree mheld unfolding ti_def by (cases "q = m") simp_all
  then have "tickets_ok s' P" by (rule tickets_frame [OF tk pc']) simp_all
  moreover have "solo_ok s'"
    unfolding solo_ok_def
  proof (intro allI impI)
    fix u arg' k' rq' x assume a: "l_pc s' u = LCasNext arg' k' rq'" "l_nrq s' u = Some x"
    show "rtail s' x = 1"
    proof (cases "u = t")
      case True
      then show ?thesis using a nrq' nt atm by simp
    next
      case False
      then have u: "l_pc s u = LCasNext arg' k' rq'" "l_nrq s u = Some x" "l_nrq s1 u = Some x" using a pc' nrq nrq' by simp_all
      then have "x \<noteq> m" using inv1 nt False unfolding l_inv_def by blast
      then show ?thesis using so u same unfolding solo_ok_def by metis
    qed
  qed
  moreover have "own_free s' P"
  proof -
    have "l_brk s \<le> l_brk s1" using take by (auto simp: take_nrq_def split: option.splits)
    then have "\<forall>q \<in> fst ` P. q < l_brk s'" using fr nrq' by (auto simp: own_free_def)
    moreover have "x \<notin> fst ` P" if "l_nrq s' u = Some x" "\<forall>rq. l_pc s' u \<noteq> LSwingNew rq" for u x
    proof (cases "u = t")
      case True
      then show ?thesis using that nrq' nt mfree by simp
    next
      case False
      then show ?thesis using that fr pc' nrq nrq' unfolding own_free_def by (metis fun_upd_other)
    qed
    ultimately show ?thesis by (simp add: own_free_def)
  qed
  ultimately show ?thesis using good by (simp add: T_inv_def)
qed

lemma T_step_publish:
  assumes T: "T_inv n s P" and inv: "l_inv s ps" and good: "l_good s'" and pc: "l_pc s t = LCasNext arg k rq"
    and nt: "l_nrq s t = Some m"
    and s': "s' = lgo t (LSwingNew rq) (set_ring rq ((l_rings s rq)\<lparr>r_next := l_nrq s t\<rparr>) s)"
  shows "T_inv (Suc n) s' (insert (m, 0) P) \<and> (m, 0) \<notin> P"
proof -
  have bo: "bounds_ok n s" and tk: "tickets_ok s P" and so: "solo_ok s" and fr: "own_free s P" using T by (simp_all add: T_inv_def)
  have own: "own_ring s ps m" using inv pc nt unfolding l_inv_def by (metis nrq_ok.simps(2) option.inject)
  have new: "m \<notin> fst ` P" using fr nt pc by (auto simp: own_free_def)
  have same: "rtail s' = rtail s" "rhead s' = rhead s" by (auto simp: s' rtail_def rhead_def)
  then have ti: "ti s' = ti s" by (auto simp: ti_def)
  have "rtail s m = 1" using so pc nt unfolding solo_ok_def by blast
  then have tm: "ti s m = 1" unfolding ti_def index_mod by simp
  have pc': "l_pc s' = (l_pc s)(t := LSwingNew rq)" and nrq: "l_nrq s' = l_nrq s" "l_brk s' = l_brk s" by (simp_all add: s')
  have mheld: "held (l_pc s u) \<noteq> Some (m, i)" for u i
  proof
    assume h: "held (l_pc s u) = Some (m, i)"
    have "lpc_ok ps (l_pc s u)" using inv by (simp add: l_inv_def)
    then show False using held_published [OF _ h] own by (simp add: own_ring_def)
  qed
  have fb: "fix_bound (Suc n) p" if "fix_bound n p" for p using that by (cases p) auto
  have "bounds_ok (Suc n) s'" using bo fb same ti pc' by (simp add: bounds_ok_def le_SucI)
  moreover have "tickets_ok s' P" by (rule tickets_frame [OF tk pc', of P]) (simp_all add: ti)
  then have "tickets_ok s' (insert (m, 0) P)"
  proof (rule tickets_insert)
    show "unat (0 :: u64) < ti s' m" using tm ti by simp
    show "held (l_pc s' u) \<noteq> Some (m, 0)" for u using mheld pc' by (cases "u = t") simp_all
  qed
  moreover have "solo_ok s'" using so pc' same nrq unfolding solo_ok_def by auto
  moreover have "own_free s' (insert (m, 0) P)"
  proof -
    have "m < l_brk s" using own by (simp add: own_ring_def)
    moreover have "x \<noteq> m" if "l_nrq s' u = Some x" "\<forall>rq. l_pc s' u \<noteq> LSwingNew rq" for u x
    proof -
      have "u \<noteq> t" using that pc' by auto
      then show ?thesis using inv nt that nrq unfolding l_inv_def by metis
    qed
    moreover have "x \<notin> fst ` P" if "l_nrq s' u = Some x" "\<forall>rq. l_pc s' u \<noteq> LSwingNew rq" for u x
    proof -
      have "u \<noteq> t" using that pc' by auto
      then show ?thesis using fr that pc' nrq unfolding own_free_def by (metis fun_upd_other)
    qed
    moreover have "\<forall>q \<in> fst ` P. q < l_brk s" using fr unfolding own_free_def by blast
    ultimately show ?thesis unfolding own_free_def using nrq(2) by (metis fst_conv image_insert insert_iff)
  qed
  moreover have "(m, 0) \<notin> P" using new by force
  ultimately show ?thesis using good by (simp add: T_inv_def)
qed

lemma T_step_swing:
  assumes T: "T_inv n s P" and good: "l_good s'" and pc: "l_pc s t = LSwingNew rq"
    and s': "s' = lgo t LEnqDone (s\<lparr>l_tail := x, l_nrq := (l_nrq s)(t := None)\<rparr>)"
  shows "T_inv (Suc n) s' P"
proof -
  have bo: "bounds_ok n s" and tk: "tickets_ok s P" and so: "solo_ok s" and fr: "own_free s P" using T by (simp_all add: T_inv_def)
  have same: "rtail s' = rtail s" "rhead s' = rhead s" by (auto simp: s' rtail_def rhead_def)
  then have ti: "ti s' = ti s" by (auto simp: ti_def)
  have pc': "l_pc s' = (l_pc s)(t := LEnqDone)" by (simp add: s')
  have fb: "fix_bound (Suc n) p" if "fix_bound n p" for p using that by (cases p) auto
  have "bounds_ok (Suc n) s'" using bo fb same ti pc' by (simp add: bounds_ok_def le_SucI)
  moreover have "tickets_ok s' P" by (rule tickets_frame [OF tk pc', of P]) (simp_all add: ti)
  moreover have "solo_ok s'" using so same unfolding solo_ok_def s' by auto
  moreover have "own_free s' P" using fr unfolding own_free_def s' by auto
  ultimately show ?thesis using good by (simp add: T_inv_def)
qed


text \<open>The other steps. \<open>simple\<close>: no ring's tail or head moves.\<close>

lemma T_simple:
  assumes T: "T_inv n s P" and inv: "l_inv s ps" and good: "l_good s'" and pc: "l_pc s' = (l_pc s)(t := p)"
    and same: "l_nrq s' = l_nrq s" "l_brk s' = l_brk s" "\<And>q. rhead s' q = rhead s q" "\<And>q. rtail s' q = rtail s q"
    and hold: "held p = None \<or> held p = held (l_pc s t)"
    and P: "P' = P \<or> (\<exists>x. P' = insert x P \<and> held (l_pc s t) = Some x \<and> held p = None)"
    and p: "fix_bound (Suc n) p" "\<And>arg k rq. p \<noteq> LCasNext arg k rq" "\<And>rq. l_pc s t \<noteq> LSwingNew rq"
  shows "T_inv (Suc n) s' P'"
proof (rule T_frame [OF T inv good pc same(1,2) _ _ _ _ P p])
  have ti: "ti s' = ti s" using same(4) by (auto simp: ti_def)
  have bo: "bounds_ok n s" using T by (simp add: T_inv_def)
  show "unat (rhead s' q) \<le> Suc n" for q using bo same(3) by (simp add: bounds_ok_def le_SucI)
  show "ti s q \<le> ti s' q \<and> ti s' q \<le> Suc n" for q using bo ti by (simp add: bounds_ok_def le_SucI)
qed (use same hold in auto)

text \<open>Setting a tail: the index does not go down, and stays within the bound.\<close>

lemma T_set_tail:
  assumes T: "T_inv n s P" and inv: "l_inv s ps" and good: "l_good (lgo t p (set_tail rq v s))" and rq: "rq \<in> set ps"
    and v: "ti s rq \<le> unat (tail_index v)" "unat (tail_index v) \<le> Suc n"
    and hold: "held p = None \<or> (\<exists>tk. held p = Some (rq, tk) \<and> \<not> crq_is_closed tk \<and> ti s rq \<le> unat tk \<and> unat tk < unat (tail_index v))"
    and p: "fix_bound (Suc n) p" "\<And>arg k rq. p \<noteq> LCasNext arg k rq" "\<And>rq. l_pc s t \<noteq> LSwingNew rq"
  shows "T_inv (Suc n) (lgo t p (set_tail rq v s)) P"
proof (rule T_frame [OF T inv good _ _ _ _ _ _ _ disjI1 p])
  have bo: "bounds_ok n s" using T by (simp add: T_inv_def)
  show "unat (rhead (lgo t p (set_tail rq v s)) q) \<le> Suc n" for q using bo by (simp add: bounds_ok_def le_SucI)
  show "ti s q \<le> ti (lgo t p (set_tail rq v s)) q \<and> ti (lgo t p (set_tail rq v s)) q \<le> Suc n" for q
    using bo v by (simp add: bounds_ok_def le_SucI)
qed (use rq hold in auto)

lemma T_enqueue:
  assumes T: "T_inv n s P" and n: "n < 2 ^ 62" and inv: "l_inv s ps" and good: "l_good s'"
    and run: "lenqueue_pc (l_pc s t) t s = Some s'"
  shows "T_inv (Suc n) s' (put_tickets (lact (QRun t) s) \<union> P) \<and> put_tickets (lact (QRun t) s) \<inter> P = {}"
proof -
  have ok: "lpc_ok ps (l_pc s t)" and nrq: "nrq_ok s ps t (l_pc s t)" using inv by (simp_all add: l_inv_def)
  have bo: "bounds_ok n s" and tk: "tickets_ok s P" using T by (simp_all add: T_inv_def)
  have tn: "ti s q \<le> n" for q using bo by (simp add: bounds_ok_def)
  note simple = T_simple [OF T inv good]
  show ?thesis
  proof (cases "l_pc s t")
    case (LFaaTail arg k rq)
    let ?p = "if crq_is_closed (rtail s rq) then LAlloc arg k rq else LReadIdx arg k rq (rtail s rq)"
    have s': "s' = lgo t ?p (set_tail rq (rtail s rq + 1) s)" using run LFaaTail by (simp add: Let_def)
    have up: "unat (tail_index (rtail s rq + 1)) = Suc (ti s rq)"
      unfolding ti_def by (rule index_suc) (use tn [of rq] n in \<open>simp add: ti_def\<close>)
    have "T_inv (Suc n) (lgo t ?p (set_tail rq (rtail s rq + 1) s)) P"
      by (rule T_set_tail [OF T inv]) (use good s' ok LFaaTail up tn [of rq] index_open [of "rtail s rq"] in \<open>auto simp: ti_def\<close>)
    then show ?thesis using s' LFaaTail by simp
  next
    case (LAlloc arg k rq)
    then show ?thesis using T_step_solo [OF T inv good LAlloc] run by simp
  next
    case (LCasNext arg k rq)
    then obtain m where m: "l_nrq s t = Some m" using nrq by auto
    show ?thesis
    proof (cases "r_next (l_rings s rq) = None")
      case True
      then have "s' = lgo t (LSwingNew rq) (set_ring rq ((l_rings s rq)\<lparr>r_next := l_nrq s t\<rparr>) s)" using run LCasNext by simp
      then show ?thesis using T_step_publish [OF T inv good LCasNext m] LCasNext m True by simp
    next
      case False
      then show ?thesis using run LCasNext m simple [of t "LReadTail arg k" P] by auto
    qed
  next
    case (LSwingNew rq)
    then show ?thesis using run T_step_swing [OF T good LSwingNew] by (auto split: option.splits)
  next
    case (LCas2 arg k rq tk)
    have h: "(rq, tk) \<notin> P" "node_index tk = tk"
    proof -
      have "held (l_pc s t) = Some (rq, tk)" using LCas2 by simp
      then have "\<not> crq_is_closed tk \<and> (rq, tk) \<notin> P" using tk unfolding tickets_ok_def by blast
      then show "(rq, tk) \<notin> P" "node_index tk = tk" using node_index_small by (simp_all add: closed_bit)
    qed
    then show ?thesis
      using run LCas2 simple [of t LEnqDone "insert (rq, tk) P"] simple [of t "LFull arg k rq tk" P]
      by (auto simp: cas2_def split: if_splits)
  next
    case (LClose arg k rq tk)
    have or1: "unat (tail_index (rtail s rq OR push_bit 63 1)) = ti s rq" by (simp only: index_or ti_def)
    have or2: "unat (tail_index (tk + 1 OR push_bit 63 1)) = ti s rq" if "rtail s rq = tk + 1"
      using that by (simp only: index_or ti_def)
    have "T_inv (Suc n) s' P"
    proof (cases "\<exists>v p. s' = lgo t p (set_tail rq v s)")
      case True
      have p: "\<exists>p v. (p = LAlloc arg k rq \<or> p = LReadTail arg k) \<and> s' = lgo t p (set_tail rq v s) \<and> unat (tail_index v) = ti s rq
         \<or> s' = lgo t (LReadTail arg k) s"
        using run LClose or1 or2 by (auto simp: close_crq_def simp del: push_bit_of_1 split: if_splits) 
      then show ?thesis using T_set_tail [OF T inv, of t _ rq] simple [of t "LReadTail arg k" P] good ok LClose tn [of rq]
        by (auto simp: le_SucI)
    next
      case False
      then have "s' = lgo t (LReadTail arg k) s" using run LClose by (auto simp: close_crq_def split: if_splits)
      then show ?thesis using simple [of t "LReadTail arg k" P] LClose by auto
    qed
    then show ?thesis using LClose by simp
  qed (use run simple in \<open>auto simp: Let_def rhead_def rtail_def split: option.splits if_splits\<close>)
qed


lemma T_dequeue:
  assumes T: "T_inv n s P" and n: "n < 2 ^ 62" and inv: "l_inv s ps" and good: "l_good s'"
    and run: "ldequeue_pc (l_pc s t) t s = Some s'"
  shows "T_inv (Suc n) s' P \<and> put_tickets (lact (QRun t) s) = {}"
proof -
  have ok: "lpc_ok ps (l_pc s t)" using inv by (simp add: l_inv_def)
  have bo: "bounds_ok n s" using T by (simp add: T_inv_def)
  then have tn: "ti s q \<le> n" and hn: "unat (rhead s q) \<le> n" and fx: "fix_bound n (l_pc s t)" for q by (simp_all add: bounds_ok_def)
  have none: "put_tickets (lact (QRun t) s) = {}" using run by (cases "l_pc s t") (auto split: option.splits)
  note simple = T_simple [OF T inv good, of t _ P]
  have "T_inv (Suc n) s' P"
  proof (cases "l_pc s t")
    case (LDFaa rq)
    then have s': "s' = lgo t (LDIdx rq (rhead s rq) 0 0) (set_head rq (rhead s rq + 1) s)" using run by (simp add: Let_def)
    have "unat (rhead s rq + 1) \<le> Suc n"
    proof -
      have "Suc (unat (rhead s rq)) < 2 ^ 64" using hn [of rq] n by simp
      then have "unat (rhead s rq + 1) = Suc (unat (rhead s rq))" by (simp add: unat_word_ariths)
      then show ?thesis using hn [of rq] by simp
    qed
    then show ?thesis
      by (intro T_frame [OF T inv good, of t "LDIdx rq (rhead s rq) 0 0" P])
        (use s' LDFaa tn hn in \<open>auto simp: le_SucI\<close>)
  next
    case (LDClose rq h)
    then have s': "s' = lgo t (LDBreak rq h) (set_tail rq (rtail s rq OR push_bit 63 1) s)"
      using run by (simp only: ldequeue_pc.simps option.inject)
    have same: "unat (tail_index (rtail s rq OR push_bit 63 1)) = ti s rq" by (simp only: index_or ti_def)
    have "T_inv (Suc n) (lgo t (LDBreak rq h) (set_tail rq (rtail s rq OR push_bit 63 1) s)) P"
    proof (rule T_set_tail [OF T inv good [unfolded s']])
      show "rq \<in> set ps" using ok LDClose by simp
      show "ti s rq \<le> unat (tail_index (rtail s rq OR push_bit 63 1))" "unat (tail_index (rtail s rq OR push_bit 63 1)) \<le> Suc n"
        unfolding same using tn [of rq] by simp_all
    qed (use LDClose in simp_all)
    then show ?thesis unfolding s' .
  next
    case (LFix4 rq h tk hq)
    show ?thesis
    proof (cases "rtail s rq = tk")
      case True
      then have s': "s' = lgo t (LDNext rq h) (set_tail rq hq s)" using run LFix4 by simp
      have hq: "unat hq \<le> n" "tk < hq" using fx LFix4 by simp_all
      then have lt: "unat tk < unat hq" by (simp add: word_less_nat_alt)
      then have "\<not> crq_is_closed tk" "\<not> crq_is_closed hq" using hq n by (simp_all add: closed_ge)
      then have "unat (tail_index hq) = unat hq" "ti s rq = unat tk" using True index_open by (simp_all add: ti_def)
      then have "T_inv (Suc n) (lgo t (LDNext rq h) (set_tail rq hq s)) P"
        by (intro T_set_tail [OF T inv good [unfolded s']]) (use ok LFix4 hq lt in auto)
      then show ?thesis unfolding s' .
    next
      case False
      then show ?thesis using run LFix4 simple [of "LFix1 rq h"] by auto
    qed
  next
    case (LFix2 rq h tk)
    then show ?thesis using run simple [of "LFix3 rq h tk (rhead s rq)"] hn [of rq] by auto
  next
    case (LFix3 rq h tk hq)
    then show ?thesis using run fx simple [of "LFix1 rq h"] simple [of "LFix4 rq h tk hq"] simple [of "LDNext rq h"] by auto
  next
    case (LDTail rq h tt r ci val)
    then have "s' = lgo t (empty_cell rq h tt r ci val s) s" using run by simp
    then show ?thesis using LDTail simple [of "empty_cell rq h tt r ci val s"]
      by (auto simp: empty_cell_def Let_def split: if_splits)
  next
    case (LDTake rq h tt r ci val)
    then show ?thesis using run simple by (auto simp: cas2_def split: if_splits)
  next
    case (LDUnsafe rq h tt r ci val)
    then show ?thesis using run simple by (auto simp: cas2_def split: if_splits)
  next
    case (LDSkipUnsafe rq h tt r ci val)
    then show ?thesis using run simple by (auto simp: cas2_def split: if_splits)
  next
    case (LDSkip rq h tt r ci val)
    then show ?thesis using run simple by (auto simp: cas2_def split: if_splits)
  qed (use run simple in \<open>auto simp: Let_def rhead_def rtail_def split: option.splits if_splits\<close>)
  then show ?thesis using none by simp
qed

lemma T_step:
  assumes T: "T_inv n s P" and n: "n < 2 ^ 62" and e: "obj_put e" and step: "lstep e s = Some s'"
  shows "T_inv (Suc n) s' (put_tickets (lact e s) \<union> P) \<and> put_tickets (lact e s) \<inter> P = {}"
proof -
  have "l_good s" using T by (simp add: T_inv_def)
  then obtain ps where inv: "l_inv s ps" by (auto simp: l_good_def)
  have good: "l_good s'" using lstep_fine [OF \<open>l_good s\<close> e step] by (simp add: lfine_def)
  show ?thesis
  proof (cases e)
    case (EnqBegin t v)
    then have "l_pc s t \<noteq> LSwingNew rq" for rq using step lidle_plain by (auto split: if_splits)
    then show ?thesis using EnqBegin step T_simple [OF T inv good, of t "LReadTail v 0" P] by (auto split: if_splits)
  next
    case (DeqBegin t)
    then have "l_pc s t \<noteq> LSwingNew rq" for rq using step lidle_plain by (auto split: if_splits)
    then show ?thesis using DeqBegin step T_simple [OF T inv good, of t LDReadHead P] by (auto split: if_splits)
  next
    case (QRun t)
    show ?thesis
    proof (cases "lenqueue_pc (l_pc s t) t s")
      case None
      then have "ldequeue_pc (l_pc s t) t s = Some s'" using step QRun by simp
      from T_dequeue [OF T n inv good this] QRun show ?thesis by simp
    next
      case (Some x)
      then have "lenqueue_pc (l_pc s t) t s = Some s'" using step QRun by simp
      from T_enqueue [OF T n inv good this] QRun show ?thesis by simp
    qed
  qed
qed

lemma T_run:
  "T_inv n s P \<Longrightarrow> n + length es \<le> 2 ^ 62 \<Longrightarrow> list_all obj_put es \<Longrightarrow> mrun lstep es s = Some s' \<Longrightarrow>
     distinct (map (\<lambda>(p, i, v). (p, i)) (l_puts (l_trace es s))) \<and>
     set (map (\<lambda>(p, i, v). (p, i)) (l_puts (l_trace es s))) \<inter> P = {}"
proof (induction es arbitrary: n s P)
  case Nil
  then show ?case by simp
next
  case (Cons e es)
  then obtain u where u: "lstep e s = Some u" and es: "mrun lstep es u = Some s'" by (auto split: option.splits)
  have "n < 2 ^ 62" "obj_put e" "list_all obj_put es" "Suc n + length es \<le> 2 ^ 62" using Cons.prems by simp_all
  note st = T_step [OF Cons.prems(1) this(1,2) u]
  from Cons.IH [OF conjunct1 [OF st] \<open>Suc n + length es \<le> 2 ^ 62\<close> \<open>list_all obj_put es\<close> es]
  have IH: "distinct (map (\<lambda>(p, i, v). (p, i)) (l_puts (l_trace es u)))"
    "set (map (\<lambda>(p, i, v). (p, i)) (l_puts (l_trace es u))) \<inter> (put_tickets (lact e s) \<union> P) = {}" by simp_all
  show ?case
  proof (cases "lact e s")
    case None
    then show ?thesis using IH u by auto
  next
    case (Some a)
    then show ?thesis using IH u st by (cases a) auto
  qed
qed

lemma T_init: "T_inv 0 (l_init pow False) {}"
proof -
  have "rtail (l_init pow False) q = 0" "rhead (l_init pow False) q = 0" "l_pc (l_init pow False) t = LIdle"
    "l_nrq (l_init pow False) t = None" for q t
    by (simp_all add: rtail_def rhead_def l_init_def init_ring_def)
  then show ?thesis
    by (simp add: T_inv_def l_init_good bounds_ok_def tickets_ok_def solo_ok_def own_free_def ti_def index_mod)
qed

section \<open>The property\<close>

definition demo_tickets :: "qev list" where
  "demo_tickets = EnqBegin 1 5 # replicate 6 (QRun 1) @ EnqBegin 2 6 # replicate 6 (QRun 2) @ DeqBegin 3 # replicate 5 (QRun 3)"

lemma demo_tickets_run:
  "map_option (\<lambda>s. (l_pc s 1, l_pc s 2, l_pc s 3)) (mrun lstep demo_tickets (l_init 1 False)) =
     Some (LEnqDone, LEnqDone, LDeqDone 5)"
  by code_simp

text \<open>
  (C11) LCRQ neither loses, duplicates nor swaps a value under its ticket: in every interleaving of
  fewer than \<open>2 ^ 62\<close> steps each put takes effect under a ticket of a ring that no other put uses,
  and the puts (ring, ticket and value) are exactly the gets, each under the same ring and ticket
  and with the same value, together with what the rings still hold.
\<close>

theorem lcrq_tickets_exact:
  assumes "mrun lstep es (l_init pow False) = Some s" and "list_all obj_put es" and "length es < 2 ^ 62"
  shows "distinct (map (\<lambda>(p, i, v). (p, i)) (l_puts (l_trace es (l_init pow False)))) \<and>
    mset (l_puts (l_trace es (l_init pow False))) = mset (l_gots (l_trace es (l_init pow False))) + l_items s"
proof
  show "distinct (map (\<lambda>(p, i, v). (p, i)) (l_puts (l_trace es (l_init pow False))))"
    using T_run [OF T_init _ assms(2,1)] assms(3) by simp
  have "l_items (l_init pow False) = {#}" using l_init_bag [of pow] by (simp add: l_bag_def)
  then show "mset (l_puts (l_trace es (l_init pow False))) = mset (l_gots (l_trace es (l_init pow False))) + l_items s"
    using trace_items [OF l_init_good assms(2,1)] by simp
qed

theorem lcrq_tickets_exact_witness:
  "\<exists>s. mrun lstep demo_tickets (l_init 1 False) = Some s \<and>
    mset (l_puts (l_trace demo_tickets (l_init 1 False))) = mset (l_gots (l_trace demo_tickets (l_init 1 False))) + l_items s"
proof -
  obtain s where s: "mrun lstep demo_tickets (l_init 1 False) = Some s" using demo_tickets_run by auto
  have "list_all obj_put demo_tickets" by code_simp
  moreover have "length demo_tickets < 2 ^ 62" by (simp add: demo_tickets_def)
  ultimately show ?thesis using lcrq_tickets_exact [OF s] s by blast
qed

end
