(* ===== verification/CString.thy ===== *)
theory CString
  imports Prelude "HOL-Library.Sublist"
begin

text \<open>
  The part of the C string library the HTTP code uses, on lists of 8-bit characters: a buffer
  read as a C string (up to its first NUL), \<open>fgets\<close>, \<open>strtok_r\<close>, \<open>strstr\<close>
  and the decimal output of \<open>%d\<close>. These are the language's library; the lemmas say what the
  server relies on: a token is never empty and holds no separator, a line is never longer than
  the buffer, and a rejected string has no \<open>".."\<close> path segment.
\<close>

abbreviation nul :: char where "nul \<equiv> CHR 0x00"
abbreviation nl :: char where "nl \<equiv> CHR 0x0A"
abbreviation cr :: char where "cr \<equiv> CHR 0x0D"
abbreviation tab :: char where "tab \<equiv> CHR 0x09"

definition cstr :: "string \<Rightarrow> string" where
  "cstr buf = takeWhile (\<lambda>c. c \<noteq> nul) buf"

lemma nul_cstr [simp]: "nul \<notin> set (cstr s)"
  by (auto simp: cstr_def dest: set_takeWhileD)

lemma cstr_id: "nul \<notin> set s \<Longrightarrow> cstr s = s"
  by (auto simp: cstr_def takeWhile_eq_all_conv)

lemma length_cstr: "length (cstr s) \<le> length s"
  by (simp add: cstr_def length_takeWhile_le)

section \<open>fgets\<close>

text \<open>
  An input stream is the bytes still to come and whether it ends in a read error instead of an
  orderly end of file. \<open>fgets buf sz\<close> takes at most \<open>sz - 1\<close> bytes, stops after a
  newline, and returns \<open>NULL\<close> when it reaches the end before any byte, or meets a read error.
\<close>

record stream =
  s_bytes :: string
  s_err :: bool

fun take_line :: "nat \<Rightarrow> string \<Rightarrow> string \<times> string" where
  "take_line 0 s = ([], s)"
| "take_line (Suc n) [] = ([], [])"
| "take_line (Suc n) (c # s) =
     (if c = nl then ([c], s) else (case take_line n s of (l, r) \<Rightarrow> (c # l, r)))"

definition stopped_at_end :: "nat \<Rightarrow> string \<Rightarrow> bool" where
  "stopped_at_end n s = (let (l, r) = take_line n s in
     r = [] \<and> length l < n \<and> (l = [] \<or> last l \<noteq> nl))"

definition fgets :: "nat \<Rightarrow> stream \<Rightarrow> (string option) \<times> stream" where
  "fgets sz st =
     (let (l, r) = take_line (sz - 1) (s_bytes st); st' = st\<lparr>s_bytes := r\<rparr> in
      if l = [] \<or> (s_err st \<and> stopped_at_end (sz - 1) (s_bytes st)) then (None, st')
      else (Some l, st'))"

lemma take_line_append: "take_line n s = (l, r) \<Longrightarrow> s = l @ r"
  by (induction n s arbitrary: l r rule: take_line.induct) (auto split: if_splits prod.splits)

lemma take_line_length: "take_line n s = (l, r) \<Longrightarrow> length l \<le> n"
  by (induction n s arbitrary: l r rule: take_line.induct) (auto split: if_splits prod.splits)

lemma take_line_no_inner_nl: "take_line n s = (l, r) \<Longrightarrow> nl \<notin> set (butlast l)"
  by (induction n s arbitrary: l r rule: take_line.induct) (auto split: if_splits prod.splits)

lemma fgets_length: "fgets sz st = (Some l, st') \<Longrightarrow> length l \<le> sz - 1"
  by (auto simp: fgets_def Let_def take_line_length split: prod.splits if_splits)

lemma fgets_consumes:
  "fgets sz st = (Some l, st') \<Longrightarrow> l \<noteq> [] \<and> s_bytes st = l @ s_bytes st' \<and> s_err st' = s_err st"
  by (auto simp: fgets_def Let_def take_line_append split: prod.splits if_splits)

lemma fgets_shrinks: "fgets sz st = (Some l, st') \<Longrightarrow> length (s_bytes st') < length (s_bytes st)"
  by (auto dest: fgets_consumes)

section \<open>strtok_r, strcmp, strstr\<close>

text \<open>
  \<open>strtok_r\<close> on the rest of the string: skip leading separators, give \<open>NULL\<close> at the end,
  else the longest run without a separator; the separator after it is overwritten by NUL and
  skipped.
\<close>

definition strtok_r :: "string \<Rightarrow> string \<Rightarrow> (string option) \<times> string" where
  "strtok_r seps s =
     (let s' = dropWhile (\<lambda>c. c \<in> set seps) s in
      if s' = [] then (None, [])
      else (Some (takeWhile (\<lambda>c. c \<notin> set seps) s'), drop 1 (dropWhile (\<lambda>c. c \<notin> set seps) s')))"

lemma strtok_r_token:
  assumes "strtok_r seps s = (Some t, r)"
  shows "t \<noteq> []" and "set t \<inter> set seps = {}" and "length t \<le> length s" and "set t \<subseteq> set s"
proof -
  let ?s = "dropWhile (\<lambda>c. c \<in> set seps) s"
  have ne: "?s \<noteq> []" and t: "t = takeWhile (\<lambda>c. c \<notin> set seps) ?s"
    using assms by (auto simp: strtok_r_def Let_def split: if_splits)
  have "hd ?s \<notin> set seps" using ne by (rule hd_dropWhile)
  with ne t show "t \<noteq> []" by (cases ?s) auto
  show "set t \<inter> set seps = {}" using t by (auto dest: set_takeWhileD)
  have "length t \<le> length ?s" using t by (simp add: length_takeWhile_le)
  then show "length t \<le> length s" using length_dropWhile_le [of "\<lambda>c. c \<in> set seps" s] by linarith
  show "set t \<subseteq> set s" using t by (auto dest!: set_takeWhileD dest: set_dropWhileD)
qed

lemma strtok_r_Nil [simp]: "strtok_r seps [] = (None, [])"
  by (simp add: strtok_r_def)

lemma strtok_r_None: "strtok_r seps s = (None, r) \<Longrightarrow> r = []"
  by (auto simp: strtok_r_def Let_def split: if_splits)

lemma strtok_r_rest: "strtok_r seps s = (x, r) \<Longrightarrow> set r \<subseteq> set s \<and> length r \<le> length s"
proof -
  assume a: "strtok_r seps s = (x, r)"
  let ?s = "dropWhile (\<lambda>c. c \<in> set seps) s"
  let ?u = "dropWhile (\<lambda>c. c \<notin> set seps) ?s"
  have "r = [] \<or> r = drop 1 ?u"
    using a by (auto simp: strtok_r_def Let_def split: if_splits)
  moreover have "set (drop 1 ?u) \<subseteq> set s"
    by (meson set_drop_subset set_dropWhileD subset_code(1))
  moreover have "length (drop 1 ?u) \<le> length s"
    using length_dropWhile_le [of "\<lambda>c. c \<in> set seps" s] length_dropWhile_le [of "\<lambda>c. c \<notin> set seps" ?s]
    by simp
  ultimately show ?thesis by auto
qed

text \<open>\<open>strstr hay needle\<close>: the part of \<open>hay\<close> from the first occurrence on.\<close>

fun strstr :: "string \<Rightarrow> string \<Rightarrow> string option" where
  "strstr [] needle = (if needle = [] then Some [] else None)"
| "strstr (c # hay) needle =
     (if prefix needle (c # hay) then Some (c # hay) else strstr hay needle)"

lemma strstr_None: "strstr hay needle = None \<longleftrightarrow> \<not> sublist needle hay"
  by (induction hay) (auto simp: sublist_Cons_right)

section \<open>The output of \<open>%d\<close>\<close>

fun dec_nat :: "nat \<Rightarrow> string" where
  "dec_nat n = (if n < 10 then [char_of (48 + n)] else dec_nat (n div 10) @ [char_of (48 + n mod 10)])"

declare dec_nat.simps [simp del]

definition dec_int :: "int \<Rightarrow> string" where
  "dec_int i = (if i < 0 then CHR ''-'' # dec_nat (nat (- i)) else dec_nat (nat i))"

lemma length_dec_nat: "n < 10 ^ Suc k \<Longrightarrow> length (dec_nat n) \<le> Suc k"
proof (induction k arbitrary: n)
  case 0
  then show ?case by (simp add: dec_nat.simps)
next
  case (Suc k)
  then have "n div 10 < 10 ^ Suc k" by (simp add: less_mult_imp_div_less mult.commute)
  then have "length (dec_nat (n div 10)) \<le> Suc k" by (rule Suc.IH)
  then show ?case by (subst dec_nat.simps) simp
qed

lemma length_dec_nat_10: "n < 10000000000 \<Longrightarrow> length (dec_nat n) \<le> 10"
  using length_dec_nat [of n 9] by simp

lemma length_dec_int:
  assumes "- (2 ^ 31) \<le> i" and "i < 2 ^ 31"
  shows "length (dec_int i) \<le> 11"
proof -
  have "length (dec_nat (nat (- i))) \<le> 10" and "length (dec_nat (nat i)) \<le> 10"
    using assms by (auto intro!: length_dec_nat_10)
  then show ?thesis by (simp add: dec_int_def)
qed

section \<open>Path segments\<close>

text \<open>The segments of a path, split at every \<open>/\<close>.\<close>

fun segments :: "string \<Rightarrow> string list" where
  "segments [] = [[]]"
| "segments (c # s) =
     (if c = CHR ''/'' then [] # segments s
      else (case segments s of [] \<Rightarrow> [[c]] | w # ws \<Rightarrow> (c # w) # ws))"

lemma segments_nonempty [simp]: "segments s \<noteq> []"
  by (induction s) (auto split: list.splits)

text \<open>
  A segment is the whole string, or stands between slashes, or begins or ends it. For a path
  that starts with a slash, a segment \<open>w\<close> that is not the first is preceded by a slash
  and followed by a slash or the end.
\<close>

lemma hd_segments_prefix:
  "hd (segments s) = w \<Longrightarrow> s = w \<or> prefix (w @ ''/'') s"
proof (induction s arbitrary: w)
  case Nil
  then show ?case by simp
next
  case (Cons c s)
  show ?case
  proof (cases "c = CHR ''/''")
    case True
    then show ?thesis using Cons by auto
  next
    case False
    obtain v vs where v: "segments s = v # vs" by (cases "segments s") auto
    then have "w = c # v" using Cons.prems False by simp
    moreover have "s = v \<or> prefix (v @ ''/'') s" using Cons.IH [of v] v by simp
    ultimately show ?thesis by auto
  qed
qed

lemma tl_segments_inner:
  "w \<in> set (tl (segments s)) \<Longrightarrow> suffix (CHR ''/'' # w) s \<or> sublist (CHR ''/'' # w @ ''/'') s"
proof (induction s)
  case Nil
  then show ?case by simp
next
  case (Cons c s)
  have step: "suffix (CHR ''/'' # w) s \<or> sublist (CHR ''/'' # w @ ''/'') s \<Longrightarrow>
    suffix (CHR ''/'' # w) (c # s) \<or> sublist (CHR ''/'' # w @ ''/'') (c # s)"
    by (auto simp: suffix_Cons sublist_Cons_right)
  obtain v vs where v: "segments s = v # vs" by (cases "segments s") auto
  show ?case
  proof (cases "c = CHR ''/'' \<and> w = v")
    case True
    then have "s = w \<or> prefix (w @ ''/'') s" using hd_segments_prefix [of s w] v by simp
    then show ?thesis using True by (auto simp: sublist_Cons_right)
  next
    case False
    then have "w \<in> set (tl (segments s))" using Cons.prems v by (auto split: if_splits)
    then show ?thesis using Cons.IH step by blast
  qed
qed

lemma segments_rooted:
  "w \<in> set (segments (CHR ''/'' # s)) \<Longrightarrow> w \<noteq> [] \<Longrightarrow>
    suffix (CHR ''/'' # w) (CHR ''/'' # s) \<or> sublist (CHR ''/'' # w @ ''/'') (CHR ''/'' # s)"
  using tl_segments_inner [of w "CHR ''/'' # s"] by simp

end
