(* ===== verification/Http.thy ===== *)
theory Http
  imports CString
begin

text \<open>
  The HTTP side of the servers (\<open>lcrq-server/http-server.c\<close>; the same text is in the three
  other servers): status lines, the file request, and \<open>handleConnection\<close>, from the accepted
  socket to the log line. The operating system is a parameter (\<open>http_env\<close>); what the code
  does to the outside is the list of events it appends to.
\<close>

section \<open>The outside world\<close>

record http_env =
  env_send :: "nat \<Rightarrow> string \<Rightarrow> int"
  env_malloc :: "nat \<Rightarrow> bool"
  env_isdir :: "string \<Rightarrow> bool"
  env_fopen :: "string \<Rightarrow> (string \<times> bool) option"
  env_fdopen :: "int \<Rightarrow> stream option"
  env_peer :: "int \<Rightarrow> string option"

text \<open>
  \<open>env_send i buf\<close> is the result of a \<open>send\<close> made after \<open>i\<close> events;
  \<open>env_malloc n\<close> whether \<open>n\<close> bytes can be had; \<open>env_isdir f\<close> that
  \<open>stat\<close> succeeds and says directory; \<open>env_fopen f\<close> the content of a readable file and
  whether reading it ends in an error; \<open>env_fdopen\<close> the byte stream of a socket, \<open>None\<close>
  for a descriptor that is not open; \<open>env_peer\<close> the peer's address.
\<close>

datatype ev =
    ESend int string int
  | EPerror string
  | EFopen string
  | EFclose string
  | ELog string "string option" "string option" "string option" int string
  | EClose int

datatype 'a res = Ok 'a | Exit int | PthreadExit

definition die :: "string \<Rightarrow> ev list \<Rightarrow> ev list \<times> 'a res" where
  "die message w = (w @ [EPerror message], Exit 1)"

definition sys_send :: "http_env \<Rightarrow> int \<Rightarrow> string \<Rightarrow> ev list \<Rightarrow> ev list \<times> int" where
  "sys_send env sock buf w =
     (let r = env_send env (length w) buf in (w @ [ESend sock buf r], r))"

section \<open>Send, status codes and status lines\<close>

definition Send :: "http_env \<Rightarrow> int \<Rightarrow> string \<Rightarrow> ev list \<Rightarrow> ev list \<times> int" where
  "Send env sock buf w =
     (let len = length (cstr buf); (w1, r) = sys_send env sock (cstr buf) w in
      if r \<noteq> int len then (w1 @ [EPerror ''send() failed''], -1) else (w1, r))"

definition HTTP_StatusCodes :: "(int \<times> string) list" where
  "HTTP_StatusCodes =
     [(200, ''OK''), (201, ''Created''), (202, ''Accepted''), (204, ''No Content''),
      (301, ''Moved Permanently''), (302, ''Moved Temporarily''), (304, ''Not Modified''),
      (400, ''Bad Request''), (401, ''Unauthorized''), (403, ''Forbidden''), (404, ''Not Found''),
      (500, ''Internal Server Error''), (501, ''Not Implemented''), (502, ''Bad Gateway''),
      (503, ''Service Unavailable''), (0, '''')]"

fun reason_loop :: "(int \<times> string) list \<Rightarrow> int \<Rightarrow> string" where
  "reason_loop [] statusCode = ''Unknown Status Code''"
| "reason_loop ((status, reason) # es) statusCode =
     (if status > 0 then (if status = statusCode then reason else reason_loop es statusCode)
      else ''Unknown Status Code'')"

definition getReasonPhrase :: "int \<Rightarrow> string" where
  "getReasonPhrase statusCode = reason_loop HTTP_StatusCodes statusCode"

definition status_body :: "int \<Rightarrow> string" where
  "status_body statusCode =
     ''<html><body>'' @ [nl] @ ''<h1>'' @ dec_int statusCode @ '' '' @ getReasonPhrase statusCode
       @ ''</h1>'' @ [nl] @ ''</body></html>'' @ [nl]"

definition status_buf :: "int \<Rightarrow> string" where
  "status_buf statusCode =
     ''HTTP/1.0 '' @ dec_int statusCode @ '' '' @ getReasonPhrase statusCode @ [cr, nl] @ [cr, nl]
       @ (if statusCode \<noteq> 200 then status_body statusCode else [])"

definition sendStatusLine :: "http_env \<Rightarrow> int \<Rightarrow> int \<Rightarrow> ev list \<Rightarrow> ev list" where
  "sendStatusLine env clntSock statusCode w =
     fst (Send env clntSock (status_buf statusCode) w)"

section \<open>Static files\<close>

definition DISK_IO_BUF_SIZE :: nat where
  "DISK_IO_BUF_SIZE = 4096"

text \<open>
  The \<open>fread\<close>/\<open>send\<close> loop: blocks of the file until its end or a send that is not complete.
  The flag says whether \<open>fread\<close> has met the end of the content, which is where a read error comes:
  it has when it returned 0, or a block that is not full.
\<close>

function send_file :: "http_env \<Rightarrow> int \<Rightarrow> string \<Rightarrow> ev list \<Rightarrow> ev list \<times> bool" where
  "send_file env sock content w =
     (if content = [] then (w, True)
      else let n = take DISK_IO_BUF_SIZE content; (w1, r) = sys_send env sock n w in
        if r \<noteq> int (length n) then (w1 @ [EPerror (nl # ''send() failed'')], length content < DISK_IO_BUF_SIZE)
        else send_file env sock (drop DISK_IO_BUF_SIZE content) w1)"
  by pat_completeness auto
termination
  by (relation "measure (\<lambda>(env, sock, content, w). length content)")
     (auto simp: DISK_IO_BUF_SIZE_def)

declare send_file.simps [simp del]

definition request_file :: "string \<Rightarrow> string \<Rightarrow> string" where
  "request_file webRoot requestURI =
     (let file = webRoot @ requestURI in
      if file \<noteq> [] \<and> last file = CHR ''/'' then file @ ''index.html'' else file)"

definition handleFileRequest ::
  "http_env \<Rightarrow> string \<Rightarrow> string \<Rightarrow> int \<Rightarrow> ev list \<Rightarrow> ev list \<times> int res" where
  "handleFileRequest env webRoot requestURI clntSock w =
     (if \<not> env_malloc env (length webRoot + length requestURI + 100) then die ''malloc failed'' w
      else let file = request_file webRoot requestURI in
        if env_isdir env file then (sendStatusLine env clntSock 403 w, Ok 403)
        else case env_fopen env file of
          None \<Rightarrow> (sendStatusLine env clntSock 404 w, Ok 404)
        | Some (content, rd_err) \<Rightarrow>
            (let w1 = sendStatusLine env clntSock 200 (w @ [EFopen file]);
                 (w2, met_end) = send_file env clntSock content w1;
                 w3 = (if met_end \<and> rd_err then w2 @ [EPerror ''fread failed''] else w2) in
             (w3 @ [EFclose file], Ok 200)))"

section \<open>The request line\<close>

record reqline =
  rl_method :: "string option"
  rl_uri :: "string option"
  rl_version :: "string option"
  rl_extra :: "string option"

definition token_separators :: string where
  "token_separators = [tab, CHR '' '', cr, nl]"

definition tokenize :: "string \<Rightarrow> reqline" where
  "tokenize requestLine =
     (let (method, s1) = strtok_r token_separators (cstr requestLine);
          (uri, s2) = strtok_r token_separators s1;
          (version, s3) = strtok_r token_separators s2;
          (extra, s4) = strtok_r token_separators s3 in
      \<lparr>rl_method = method, rl_uri = uri, rl_version = version, rl_extra = extra\<rparr>)"

text \<open>\<open>Some code\<close>: the request is refused with that status. The checks are in code order.\<close>

definition refused :: "reqline \<Rightarrow> int option" where
  "refused r =
     (case (rl_method r, rl_uri r, rl_version r, rl_extra r) of
        (Some method, Some uri, Some version, None) \<Rightarrow>
          (if method \<noteq> ''GET'' then Some 501
           else if version \<noteq> ''HTTP/1.0'' \<and> version \<noteq> ''HTTP/1.1'' then Some 501
           else if uri = [] \<or> hd uri \<noteq> CHR ''/'' then Some 400
           else if 3 \<le> length uri \<and>
                   (drop (length uri - 3) uri = ''/..'' \<or> strstr uri ''/../'' \<noteq> None) then Some 400
           else None)
      | _ \<Rightarrow> Some 501)"

text \<open>The header loop: true when the blank line was found, false when the stream ended first.\<close>

function skip_headers :: "stream \<Rightarrow> bool" where
  "skip_headers st =
     (case fgets 1000 st of
        (None, st') \<Rightarrow> False
      | (Some line, st') \<Rightarrow>
          if cstr line = [cr, nl] \<or> cstr line = [nl] then True else skip_headers st')"
  by pat_completeness auto
termination
  by (relation "measure (\<lambda>st. length (s_bytes st))") (auto dest: fgets_shrinks [OF sym])

declare skip_headers.simps [simp del]

section \<open>handleConnection\<close>

definition finish ::
  "int \<Rightarrow> string \<Rightarrow> string option \<Rightarrow> string option \<Rightarrow> string option \<Rightarrow> int \<Rightarrow> ev list \<Rightarrow>
     ev list \<times> int res" where
  "finish clntSock peer method uri version statusCode w =
     (w @ [ELog peer method uri version statusCode (getReasonPhrase statusCode), EClose clntSock],
      Ok statusCode)"

text \<open>From the request line read to the end of the function (lines 398 to 487).\<close>

definition serveLine ::
  "http_env \<Rightarrow> string \<Rightarrow> int \<Rightarrow> string \<Rightarrow> string \<Rightarrow> stream \<Rightarrow> ev list \<Rightarrow> ev list \<times> int res" where
  "serveLine env webRoot clntSock peer requestLine clntFp w =
     (let r = tokenize requestLine;
          end = finish clntSock peer (rl_method r) (rl_uri r) (rl_version r) in
      case refused r of
        Some statusCode \<Rightarrow> end statusCode (sendStatusLine env clntSock statusCode w)
      | None \<Rightarrow>
          if \<not> skip_headers clntFp then end 400 w
          else (case handleFileRequest env webRoot (case rl_uri r of None \<Rightarrow> [] | Some u \<Rightarrow> u) clntSock w of
                  (w1, Ok statusCode) \<Rightarrow> end statusCode w1
                | (w1, x) \<Rightarrow> (w1, x)))"

definition handleConnection ::
  "http_env \<Rightarrow> string \<Rightarrow> int \<Rightarrow> ev list \<Rightarrow> ev list \<times> int res" where
  "handleConnection env webRoot clntSock w =
     (case env_fdopen env clntSock of
        None \<Rightarrow> (w, PthreadExit)
      | Some clntFp \<Rightarrow>
     (case env_peer env clntSock of
        None \<Rightarrow> die ''getpeername failed'' w
      | Some peer \<Rightarrow>
     (case fgets 1000 clntFp of
        (None, _) \<Rightarrow> finish clntSock peer (Some []) (Some []) (Some []) 400 w
      | (Some requestLine, st) \<Rightarrow> serveLine env webRoot clntSock peer requestLine st w)))"

section \<open>What the operations append\<close>

fun net_ev :: "ev \<Rightarrow> bool" where
  "net_ev (ESend _ _ _) = True"
| "net_ev (EPerror _) = True"
| "net_ev _ = False"

definition net_ext :: "ev list \<Rightarrow> ev list \<Rightarrow> bool" where
  "net_ext w w' \<longleftrightarrow> (\<exists>u. w' = w @ u \<and> list_all net_ev u)"

lemma net_ext_refl [simp]: "net_ext w w"
  by (auto simp: net_ext_def)

lemma net_ext_one [simp]: "net_ev e \<Longrightarrow> net_ext w (w @ [e])"
  by (auto simp: net_ext_def)

lemma net_ext_trans [trans]: "net_ext a b \<Longrightarrow> net_ext b c \<Longrightarrow> net_ext a c"
  by (force simp: net_ext_def)

lemma net_ext_snoc: "net_ext w w' \<Longrightarrow> net_ev e \<Longrightarrow> net_ext w (w' @ [e])"
  by (force simp: net_ext_def)

lemma sys_send_ext: "sys_send env sock buf w = (w', r) \<Longrightarrow> net_ext w w'"
  by (auto simp: sys_send_def Let_def intro: net_ext_snoc)

lemma sendStatusLine_ext: "net_ext w (sendStatusLine env sock code w)"
  by (auto simp: sendStatusLine_def Send_def Let_def split: prod.splits
           intro: net_ext_snoc dest: sys_send_ext)

lemma send_file_ext: "send_file env sock content w = (w', b) \<Longrightarrow> net_ext w w'"
proof (induction env sock content w rule: send_file.induct)
  case (1 env sock content w)
  obtain w1 r where s: "sys_send env sock (take DISK_IO_BUF_SIZE content) w = (w1, r)"
    by fastforce
  with "1.prems" "1.IH" [OF _ refl s [symmetric]] show ?case
    by (subst (asm) send_file.simps)
      (auto simp: Let_def split: if_splits
            intro: net_ext_snoc net_ext_trans dest!: sys_send_ext)
qed

lemma handleFileRequest_cases:
  assumes "handleFileRequest env root uri sock w = (w', r)"
  obtains (no_file) "net_ext w w'" and "r \<in> {Exit 1, Ok 403, Ok 404}"
  | (opened) u where "w' = w @ EFopen (request_file root uri) # u @ [EFclose (request_file root uri)]"
      and "list_all net_ev u" and "r = Ok 200"
proof (cases "\<not> env_malloc env (length root + length uri + 100) \<or> env_isdir env (request_file root uri)
    \<or> env_fopen env (request_file root uri) = None")
  case True
  then have "net_ext w w' \<and> r \<in> {Exit 1, Ok 403, Ok 404}"
    using assms by (auto simp: handleFileRequest_def die_def Let_def sendStatusLine_ext
        split: if_splits option.splits intro: net_ext_snoc)
  then show thesis using no_file by blast
next
  case False
  let ?f = "request_file root uri"
  from False obtain content e where fo: "env_fopen env ?f = Some (content, e)" by auto
  obtain w2 b where sf: "send_file env sock content (sendStatusLine env sock 200 (w @ [EFopen ?f])) = (w2, b)"
    by fastforce
  then have "net_ext (w @ [EFopen ?f]) w2"
    using sendStatusLine_ext send_file_ext net_ext_trans by blast
  then have "net_ext (w @ [EFopen ?f]) (if b \<and> e then w2 @ [EPerror ''fread failed''] else w2)"
    by (auto intro: net_ext_snoc)
  then obtain u where "(if b \<and> e then w2 @ [EPerror ''fread failed''] else w2) = (w @ [EFopen ?f]) @ u"
    and "list_all net_ev u" by (auto simp only: net_ext_def)
  moreover have "w' = (if b \<and> e then w2 @ [EPerror ''fread failed''] else w2) @ [EFclose ?f]" and "r = Ok 200"
    using assms False fo sf by (auto simp: handleFileRequest_def Let_def)
  ultimately show thesis using opened by simp
qed

section \<open>What passes the checks\<close>

lemma suffix_drop3: "suffix ''/..'' uri \<Longrightarrow> drop (length uri - 3) uri = ''/..''"
  by (auto simp: suffix_def)

lemma accepted_segments:
  assumes "refused r = None" and "rl_uri r = Some uri"
  shows "uri \<noteq> []" and "hd uri = CHR ''/''" and "''..'' \<notin> set (segments uri)"
proof -
  have ok: "uri \<noteq> [] \<and> hd uri = CHR ''/'' \<and> (3 \<le> length uri \<longrightarrow>
      drop (length uri - 3) uri \<noteq> ''/..'' \<and> strstr uri ''/../'' = None)"
    using assms by (auto simp: refused_def split: option.splits if_splits)
  then show "uri \<noteq> []" and "hd uri = CHR ''/''" by auto
  then obtain s where s: "uri = CHR ''/'' # s" by (cases uri) auto
  show "''..'' \<notin> set (segments uri)"
  proof
    assume "''..'' \<in> set (segments uri)"
    then have "suffix ''/..'' uri \<or> sublist ''/../'' uri"
      using segments_rooted [of "''..''" s] s by simp
    moreover from this have "3 \<le> length uri"
      by (auto dest: suffix_length_le sublist_length_le)
    ultimately show False using ok suffix_drop3 strstr_None by blast
  qed
qed

lemma accepted_line:
  "refused r = None \<Longrightarrow> \<exists>uri version. r = \<lparr>rl_method = Some ''GET'', rl_uri = Some uri,
     rl_version = Some version, rl_extra = None\<rparr> \<and> version \<in> {''HTTP/1.0'', ''HTTP/1.1''}"
  by (cases r) (auto simp: refused_def split: option.splits if_splits)

lemma refused_codes: "refused r = Some code \<Longrightarrow> code \<in> {400, 501}"
  by (auto simp: refused_def split: option.splits if_splits)

lemma tokenize_uri_nul:
  assumes "rl_uri (tokenize line) = Some uri"
  shows "nul \<notin> set uri"
proof -
  obtain m s1 where 1: "strtok_r token_separators (cstr line) = (m, s1)" by fastforce
  obtain s2 where 2: "strtok_r token_separators s1 = (Some uri, s2)"
    using assms 1 by (auto simp: tokenize_def split: prod.splits)
  have "set uri \<subseteq> set (cstr line)"
    using strtok_r_rest [OF 1] strtok_r_token(4) [OF 2] by blast
  then show ?thesis using nul_cstr by blast
qed

lemma segments_append_slash: "segments (s @ CHR ''/'' # t) = segments s @ segments t"
  by (induction s) (auto split: list.splits)

text \<open>What \<open>request_file\<close> adds to the web root.\<close>

definition below_root :: "string \<Rightarrow> string \<Rightarrow> bool" where
  "below_root root f \<longleftrightarrow> (\<exists>p. f = root @ p \<and> p \<noteq> [] \<and> hd p = CHR ''/'' \<and>
     nul \<notin> set p \<and> ''..'' \<notin> set (segments p))"

lemma request_file_below_root:
  assumes "uri \<noteq> []" and "hd uri = CHR ''/''" and "nul \<notin> set uri" and "''..'' \<notin> set (segments uri)"
  shows "below_root root (request_file root uri)"
proof (cases "last uri = CHR ''/''")
  case True
  then obtain s where s: "uri = s @ [CHR ''/'']" using assms(1) by (metis append_butlast_last_id)
  let ?p = "uri @ ''index.html''"
  have "segments ?p = segments s @ [''index.html'']"
    using s segments_append_slash [of s "''index.html''"] by simp
  moreover have "set (segments s) \<subseteq> set (segments uri)"
    using s segments_append_slash [of s "[]"] by auto
  ultimately have "''..'' \<notin> set (segments ?p)" using assms(4) by auto
  moreover have "request_file root uri = root @ ?p"
    using True assms(1) by (simp add: request_file_def Let_def)
  moreover have "hd ?p = CHR ''/''" and "nul \<notin> set ?p" using assms by auto
  ultimately show ?thesis unfolding below_root_def by blast
next
  case False
  then have "request_file root uri = root @ uri"
    using assms(1) by (simp add: request_file_def Let_def)
  with assms show ?thesis unfolding below_root_def by blast
qed

section \<open>The shape of a connection\<close>

lemma serveLine_cases:
  assumes sl: "serveLine env root sock peer line st w = (w', r)"
  obtains (died) "net_ext w w'" and "r = Exit 1"
  | (no_file) u m uri v code where
      "w' = w @ u @ [ELog peer m uri v code (getReasonPhrase code), EClose sock]"
      and "list_all net_ev u" and "r = Ok code" and "code \<in> {400, 403, 404, 501}"
  | (served) u m uri v where
      "w' = w @ EFopen (request_file root uri) # u @ [EFclose (request_file root uri),
          ELog peer (Some m) (Some uri) (Some v) 200 (getReasonPhrase 200), EClose sock]"
      and "list_all net_ev u" and "r = Ok 200" and "below_root root (request_file root uri)"
proof (cases "refused (tokenize line)")
  case (Some code)
  obtain u where "sendStatusLine env sock code w = w @ u" and "list_all net_ev u"
    using sendStatusLine_ext [of w env sock code] by (auto simp: net_ext_def)
  then show thesis using sl Some refused_codes [OF Some] no_file [of u _ _ _ code]
    by (auto simp: serveLine_def finish_def Let_def)
next
  case None
  then obtain uri v where rl: "tokenize line = \<lparr>rl_method = Some ''GET'', rl_uri = Some uri,
      rl_version = Some v, rl_extra = None\<rparr>" using accepted_line by blast
  have bel: "below_root root (request_file root uri)"
    using rl accepted_segments [OF None] tokenize_uri_nul [of line uri]
    by (auto intro: request_file_below_root)
  show thesis
  proof (cases "skip_headers st")
    case False
    then show thesis using sl None rl no_file [of "[]"]
      by (auto simp: serveLine_def finish_def Let_def)
  next
    case True
    obtain w1 x where hf: "handleFileRequest env root uri sock w = (w1, x)" by fastforce
    have hc: "(case x of Ok code \<Rightarrow> finish sock peer (Some ''GET'') (Some uri) (Some v) code w1
        | x \<Rightarrow> (w1, x)) = (w', r)"
      using sl None rl True hf by (cases x) (auto simp: serveLine_def Let_def)
    from hf show thesis
    proof (cases rule: handleFileRequest_cases)
      case no_file
      then show thesis using hc died that(2) by (auto simp: finish_def net_ext_def)
    next
      case (opened u)
      then show thesis using hc bel served [of uri u "''GET''" v] by (auto simp: finish_def)
    qed
  qed
qed

lemma handleConnection_cases:
  assumes hc: "handleConnection env root sock w = (w', r)"
  obtains (thread_exit) "w' = w" and "r = PthreadExit" and "env_fdopen env sock = None"
  | (died) "net_ext w w'" and "r = Exit 1"
  | (no_file) u peer m uri v code where
      "w' = w @ u @ [ELog peer m uri v code (getReasonPhrase code), EClose sock]"
      and "list_all net_ev u" and "r = Ok code" and "code \<in> {400, 403, 404, 501}"
  | (served) u peer m uri v where
      "w' = w @ EFopen (request_file root uri) # u @ [EFclose (request_file root uri),
          ELog peer (Some m) (Some uri) (Some v) 200 (getReasonPhrase 200), EClose sock]"
      and "list_all net_ev u" and "r = Ok 200" and "below_root root (request_file root uri)"
proof -
  consider "env_fdopen env sock = None" | fp where "env_fdopen env sock = Some fp" "env_peer env sock = None"
    | fp peer st where "env_fdopen env sock = Some fp" "env_peer env sock = Some peer"
        "fgets 1000 fp = (None, st)"
    | fp peer st line where "env_fdopen env sock = Some fp" "env_peer env sock = Some peer"
        "fgets 1000 fp = (Some line, st)"
    by (metis option.exhaust prod.exhaust)
  then show thesis
  proof cases
    case 1
    then show thesis using hc thread_exit by (auto simp: handleConnection_def)
  next
    case 2
    then show thesis using hc died by (auto simp: handleConnection_def die_def)
  next
    case 3
    then show thesis using hc no_file [of "[]"] by (auto simp: handleConnection_def finish_def)
  next
    case 4
    then have "serveLine env root sock peer line st w = (w', r)"
      using hc by (simp add: handleConnection_def)
    then show thesis by (cases rule: serveLine_cases) (use died no_file served in blast)+
  qed
qed

section \<open>What the client receives\<close>

text \<open>A send that returns \<open>r\<close> has delivered the first \<open>r\<close> bytes of its buffer.\<close>

fun ev_bytes :: "ev \<Rightarrow> string" where
  "ev_bytes (ESend sock buf r) = take (nat r) buf"
| "ev_bytes _ = []"

definition delivered :: "ev list \<Rightarrow> string" where
  "delivered w = concat (map ev_bytes w)"

lemma delivered_append [simp]: "delivered (w @ u) = delivered w @ delivered u"
  by (simp add: delivered_def)

lemma delivered_Cons [simp]: "delivered (e # w) = ev_bytes e @ delivered w"
  by (simp add: delivered_def)

lemma delivered_Nil [simp]: "delivered [] = []"
  by (simp add: delivered_def)

definition full_sends :: "http_env \<Rightarrow> bool" where
  "full_sends env \<longleftrightarrow> (\<forall>i buf. env_send env i buf = int (length buf))"

definition send_in_range :: "http_env \<Rightarrow> bool" where
  "send_in_range env \<longleftrightarrow> (\<forall>i buf. -1 \<le> env_send env i buf \<and> env_send env i buf \<le> int (length buf))"

lemma reason_loop_nul: "(\<forall>e \<in> set es. nul \<notin> set (snd e)) \<Longrightarrow> nul \<notin> set (reason_loop es code)"
  by (induction es) (auto split: if_splits)

lemma getReasonPhrase_nul: "nul \<notin> set (getReasonPhrase code)"
  unfolding getReasonPhrase_def by (rule reason_loop_nul) (simp add: HTTP_StatusCodes_def)

lemma dec_nat_nul: "nul \<notin> set (dec_nat n)"
proof (induction n rule: dec_nat.induct)
  case (1 n)
  have d: "nul \<noteq> char_of (48 + m)" if "m < 10" for m :: nat
  proof
    assume "nul = char_of (48 + m)"
    from this [symmetric] have "of_char (char_of (48 + m) :: char) = (0::nat)" by simp
    with that show False by simp
  qed
  show ?case
  proof (cases "n < 10")
    case True
    then show ?thesis using d by (subst dec_nat.simps) auto
  next
    case False
    then show ?thesis using d "1.IH" by (subst dec_nat.simps) auto
  qed
qed

lemma status_buf_nul: "nul \<notin> set (status_buf code)"
  by (simp add: status_buf_def status_body_def dec_int_def dec_nat_nul getReasonPhrase_nul)

lemma cstr_status_buf [simp]: "cstr (status_buf code) = status_buf code"
  by (rule cstr_id) (rule status_buf_nul)

lemma sendStatusLine_full:
  "full_sends env \<Longrightarrow> delivered (sendStatusLine env sock code w) = delivered w @ status_buf code"
  by (simp add: sendStatusLine_def Send_def sys_send_def Let_def full_sends_def)

lemma take_min_length [simp]: "take (min (length xs) n) xs = take n xs"
  by (simp add: min_def)

lemma send_file_prefix:
  assumes "send_in_range env" and "send_file env sock content w = (w', met_end)"
  shows "\<exists>p. delivered w' = delivered w @ p \<and> prefix p content"
  using assms
proof (induction env sock content w rule: send_file.induct)
  case (1 env sock content w)
  let ?n = "take DISK_IO_BUF_SIZE content"
  obtain w1 r where s: "sys_send env sock ?n w = (w1, r)" by fastforce
  then have w1: "delivered w1 = delivered w @ take (nat r) ?n"
    by (auto simp: sys_send_def Let_def)
  show ?case
  proof (cases "content = [] \<or> r \<noteq> int (length ?n)")
    case True
    have "prefix (take (nat r) ?n) content" by (simp add: take_is_prefix)
    then show ?thesis using True "1.prems" s w1
      by (subst (asm) send_file.simps) (force simp: Let_def split: if_splits)
  next
    case False
    then have rec: "send_file env sock (drop DISK_IO_BUF_SIZE content) w1 = (w', met_end)"
      using "1.prems" s by (subst (asm) send_file.simps) (simp add: Let_def)
    obtain p where "delivered w' = delivered w1 @ p" "prefix p (drop DISK_IO_BUF_SIZE content)"
      using "1.IH" [OF _ refl s [symmetric] refl] False rec "1.prems" by auto
    moreover have "delivered w1 = delivered w @ ?n" using w1 False by simp
    ultimately show ?thesis
      by (intro exI [of _ "?n @ p"]) (metis append.assoc append_take_drop_id same_prefix_prefix)
  qed
qed

lemma send_file_full:
  "full_sends env \<Longrightarrow> send_file env sock content w = (w', met_end) \<Longrightarrow>
     met_end \<and> delivered w' = delivered w @ content"
proof (induction env sock content w rule: send_file.induct)
  case (1 env sock content w)
  let ?n = "take DISK_IO_BUF_SIZE content"
  obtain w1 r where s: "sys_send env sock ?n w = (w1, r)" by fastforce
  then have w1: "r = int (length ?n)" "delivered w1 = delivered w @ ?n"
    using "1.prems" by (auto simp: sys_send_def Let_def full_sends_def)
  show ?case
  proof (cases "content = []")
    case True
    then show ?thesis using "1.prems" by (subst (asm) send_file.simps) auto
  next
    case False
    then have "send_file env sock (drop DISK_IO_BUF_SIZE content) w1 = (w', met_end)"
      using "1.prems" s w1 by (subst (asm) send_file.simps) (simp add: Let_def)
    then show ?thesis using "1.IH" [OF False refl s [symmetric] refl] w1 "1.prems" by simp
  qed
qed

section \<open>The specification of a response\<close>

text \<open>
  What a client is promised for a request line, the rest of its stream and the files of the
  server: the status and the bytes, without buffers, blocks or events.
\<close>

definition response :: "http_env \<Rightarrow> string \<Rightarrow> string \<Rightarrow> stream \<Rightarrow> int \<times> string" where
  "response env root line st =
     (case refused (tokenize line) of
        Some code \<Rightarrow> (code, status_buf code)
      | None \<Rightarrow>
          if \<not> skip_headers st then (400, [])
          else let f = request_file root (case rl_uri (tokenize line) of None \<Rightarrow> [] | Some u \<Rightarrow> u) in
            if env_isdir env f then (403, status_buf 403)
            else case env_fopen env f of
              None \<Rightarrow> (404, status_buf 404)
            | Some (content, e) \<Rightarrow> (200, status_buf 200 @ content))"

lemma handleFileRequest_full:
  assumes "full_sends env" and "handleFileRequest env root uri sock w = (w', Ok code)"
  shows "delivered w' = delivered w @ (let f = request_file root uri in
      if env_isdir env f then status_buf 403
      else case env_fopen env f of None \<Rightarrow> status_buf 404
        | Some (content, e) \<Rightarrow> status_buf 200 @ content)"
    and "code = (let f = request_file root uri in
      if env_isdir env f then 403 else case env_fopen env f of None \<Rightarrow> 404 | Some _ \<Rightarrow> 200)"
  using assms(2)
  by (auto simp: handleFileRequest_def die_def Let_def sendStatusLine_full [OF assms(1)]
      split: if_splits option.splits prod.splits dest!: send_file_full [OF assms(1)])

lemma serveLine_response:
  assumes "full_sends env" and "serveLine env root sock peer line st w = (w', Ok code)"
  shows "response env root line st = (code, drop (length (delivered w)) (delivered w'))"
proof (cases "refused (tokenize line)")
  case (Some c)
  then show ?thesis using assms
    by (auto simp: serveLine_def response_def finish_def Let_def sendStatusLine_full)
next
  case None
  show ?thesis
  proof (cases "skip_headers st")
    case False
    then show ?thesis using assms None
      by (auto simp: serveLine_def response_def finish_def Let_def)
  next
    case True
    let ?uri = "case rl_uri (tokenize line) of None \<Rightarrow> [] | Some u \<Rightarrow> u"
    obtain w1 x where hf: "handleFileRequest env root ?uri sock w = (w1, x)" by fastforce
    then have x: "x = Ok code" and d: "delivered w' = delivered w1"
      using assms None True
      by (auto simp: serveLine_def finish_def Let_def split: res.splits)
    show ?thesis
      using handleFileRequest_full [OF assms(1) hf [unfolded x]] None True d
      by (auto simp: response_def Let_def split: option.splits prod.splits)
  qed
qed

section \<open>The buffers\<close>

lemma reason_loop_length:
  "(\<forall>e \<in> set es. length (snd e) \<le> 21) \<Longrightarrow> length (reason_loop es code) \<le> 21"
  by (induction es) auto

lemma getReasonPhrase_length: "length (getReasonPhrase code) \<le> 21"
  unfolding getReasonPhrase_def by (rule reason_loop_length) (simp add: HTTP_StatusCodes_def)

lemma status_buf_length:
  assumes "- (2 ^ 31) \<le> code" and "code < 2 ^ 31"
  shows "length (status_body code) < 1000" and "length (status_buf code) < 1000"
  using length_dec_int [OF assms] getReasonPhrase_length [of code]
  by (auto simp: status_buf_def status_body_def)

lemma request_file_length: "length (request_file root uri) < length root + length uri + 100"
  by (simp add: request_file_def Let_def)

section \<open>Properties of a connection\<close>

definition opened :: "ev list \<Rightarrow> string list" where
  "opened w = concat (map (\<lambda>e. case e of EFopen f \<Rightarrow> [f] | _ \<Rightarrow> []) w)"

definition closed :: "ev list \<Rightarrow> string list" where
  "closed w = concat (map (\<lambda>e. case e of EFclose f \<Rightarrow> [f] | _ \<Rightarrow> []) w)"

definition released :: "ev list \<Rightarrow> int list" where
  "released w = concat (map (\<lambda>e. case e of EClose s \<Rightarrow> [s] | _ \<Rightarrow> []) w)"

lemma net_none: "list_all net_ev u \<Longrightarrow> opened u = [] \<and> closed u = [] \<and> released u = []"
  by (induction u) (auto simp: opened_def closed_def released_def split: ev.splits)

lemma ledger_append [simp]:
  "opened (u @ v) = opened u @ opened v" "closed (u @ v) = closed u @ closed v"
  "released (u @ v) = released u @ released v"
  by (simp_all add: opened_def closed_def released_def)

lemma ledger_Cons [simp]:
  "opened (EFopen f # v) = f # opened v" "opened (EFclose f # v) = opened v"
  "opened (ELog a b c d e g # v) = opened v" "opened (EClose s # v) = opened v" "opened [] = []"
  "closed (EFopen f # v) = closed v" "closed (EFclose f # v) = f # closed v"
  "closed (ELog a b c d e g # v) = closed v" "closed (EClose s # v) = closed v" "closed [] = []"
  "released (EFopen f # v) = released v" "released (EFclose f # v) = released v"
  "released (ELog a b c d e g # v) = released v" "released (EClose s # v) = s # released v" "released [] = []"
  by (simp_all add: opened_def closed_def released_def)

definition demo_env :: http_env where
  "demo_env =
     \<lparr>env_send = (\<lambda>i buf. int (length buf)), env_malloc = (\<lambda>n. True),
      env_isdir = (\<lambda>f. f = ''/www/d''),
      env_fopen = (\<lambda>f. if f = ''/www/index.html'' then Some (''hi'', False) else None),
      env_fdopen = (\<lambda>s. if s = 4 then Some \<lparr>s_bytes = ''GET / HTTP/1.0'' @ [cr, nl, cr, nl], s_err = False\<rparr>
                        else if s = 5 then Some \<lparr>s_bytes = ''GET'' @ [cr, nl, cr, nl], s_err = False\<rparr>
                        else None),
      env_peer = (\<lambda>s. Some ''127.0.0.1'')\<rparr>"

lemma demo_run: "handleConnection demo_env ''/www'' 4 [] =
  ([EFopen ''/www/index.html'', ESend 4 (status_buf 200) 19, ESend 4 ''hi'' 2, EFclose ''/www/index.html'',
   ELog ''127.0.0.1'' (Some ''GET'') (Some ''/'') (Some ''HTTP/1.0'') 200 ''OK'', EClose 4], Ok 200)"
  by code_simp

lemma demo_full: "full_sends demo_env"
  by (simp add: full_sends_def demo_env_def)

text \<open>
  (C2) Every file a connection opens lies below the web root: its name is the root followed by a
  path that starts with a slash, holds no NUL byte and has no segment \<open>".."\<close>.
\<close>

theorem path_confined:
  assumes "handleConnection env webRoot clntSock [] = (w, r)" and "EFopen f \<in> set w"
  shows "\<exists>p. f = webRoot @ p \<and> p \<noteq> [] \<and> hd p = CHR ''/'' \<and> nul \<notin> set p \<and>
    ''..'' \<notin> set (segments p)"
proof -
  have no: "EFopen f \<notin> set u" if "list_all net_ev u" for u
    using that by (auto simp: list_all_iff)
  from assms(1) show ?thesis
    by (cases rule: handleConnection_cases)
      (use assms(2) no in \<open>auto simp: net_ext_def below_root_def\<close>)
qed

theorem path_confined_witness:
  "\<exists>p. ''/www/index.html'' = ''/www'' @ p \<and> p \<noteq> [] \<and> hd p = CHR ''/'' \<and> nul \<notin> set p \<and>
    ''..'' \<notin> set (segments p)"
  by (rule path_confined [OF demo_run]) simp

text \<open>
  A connection that does not end the thread or the process leaves nothing behind: it answers
  with one of the five status codes the server uses, its last two actions are the log line with that
  code and the close of the client socket, which is closed exactly once, and it closes exactly the
  files it opened, at most one.
\<close>

lemma connection_closes:
  assumes "handleConnection env webRoot clntSock [] = (w, Ok code)"
  shows "code \<in> {200, 400, 403, 404, 501} \<and> closed w = opened w \<and> length (opened w) \<le> 1 \<and>
    released w = [clntSock] \<and>
    (\<exists>v peer m uri ver. w = v @ [ELog peer m uri ver code (getReasonPhrase code), EClose clntSock])"
  using assms
proof (cases rule: handleConnection_cases)
  case (no_file u peer m uri v code')
  then show ?thesis using net_none [OF no_file(2)] by auto
next
  case (served u peer m uri v)
  then show ?thesis using net_none [OF served(2)]
    by (auto intro!: exI [of _ "EFopen (request_file webRoot uri) # u @ [EFclose (request_file webRoot uri)]"])
qed auto

lemma connection_closes_witness:
  "\<exists>w. handleConnection demo_env ''/www'' 4 [] = (w, Ok 200) \<and> closed w = opened w \<and>
     length (opened w) \<le> 1 \<and> released w = [4]"
proof -
  obtain w where w: "handleConnection demo_env ''/www'' 4 [] = (w, Ok 200)"
    using demo_run by blast
  show ?thesis
    using connection_closes [OF w] w by (intro exI [of _ w]) simp
qed

text \<open>
  (C9) When every \<open>send\<close> accepts its whole buffer, the blocks, the order and the branches of
  the code come to the specified response: for any request line and any files, the status returned
  and the bytes the client receives are those of \<open>response\<close>.
\<close>

theorem response_delivered:
  assumes "full_sends env" and "env_fdopen env clntSock = Some clntFp"
    and "fgets 1000 clntFp = (Some line, rest)"
    and "handleConnection env webRoot clntSock [] = (w, Ok code)"
  shows "response env webRoot line rest = (code, delivered w)"
proof -
  obtain peer where "env_peer env clntSock = Some peer"
    using assms(2,4) by (auto simp: handleConnection_def die_def split: option.splits)
  then have "serveLine env webRoot clntSock peer line rest [] = (w, Ok code)"
    using assms by (simp add: handleConnection_def)
  from serveLine_response [OF assms(1) this] show ?thesis by simp
qed

theorem response_delivered_witness:
  "response demo_env ''/www'' (''GET / HTTP/1.0'' @ [cr, nl]) \<lparr>s_bytes = [cr, nl], s_err = False\<rparr>
     = (200, status_buf 200 @ ''hi'')"
proof -
  have fp: "env_fdopen demo_env 4 =
      Some \<lparr>s_bytes = ''GET / HTTP/1.0'' @ [cr, nl, cr, nl], s_err = False\<rparr>"
    by (simp add: demo_env_def)
  have fg: "fgets 1000 \<lparr>s_bytes = ''GET / HTTP/1.0'' @ [cr, nl, cr, nl], s_err = False\<rparr> =
      (Some (''GET / HTTP/1.0'' @ [cr, nl]), \<lparr>s_bytes = [cr, nl], s_err = False\<rparr>)"
    by code_simp
  have "take 19 (status_buf 200) = status_buf 200" by code_simp
  then show ?thesis using response_delivered [OF demo_full fp fg demo_run] by simp
qed

text \<open>
  (C13) The fixed buffers are large enough: for every status of a 32-bit \<open>int\<close> the status line
  with its HTML body and the NUL fits the 1000 bytes of \<open>buf\<close> and the body those of
  \<open>body\<close>, and the composed file name with \<open>index.html\<close> and the NUL fits the
  \<open>strlen(webRoot) + strlen(requestURI) + 100\<close> bytes allocated for it.
\<close>

theorem buffers_fit:
  assumes "- (2 ^ 31) \<le> statusCode" and "statusCode < 2 ^ 31"
  shows "length (status_buf statusCode) + 1 \<le> 1000 \<and> length (status_body statusCode) + 1 \<le> 1000 \<and>
    length (request_file webRoot requestURI) + 1 \<le> length webRoot + length requestURI + 100"
  using status_buf_length [OF assms] request_file_length [of webRoot requestURI] by simp

theorem buffers_fit_witness:
  "length (status_buf (- 2147483648)) + 1 \<le> 1000 \<and> length (status_body (- 2147483648)) + 1 \<le> 1000 \<and>
    length (request_file ''/www'' ''/'') + 1 \<le> length ''/www'' + length ''/'' + 100"
  by (rule buffers_fit) simp_all

lemma tokens_in_order: "rl_version (tokenize line) \<noteq> None \<Longrightarrow>
    rl_uri (tokenize line) \<noteq> None \<and> rl_method (tokenize line) \<noteq> None"
proof -
  assume v: "rl_version (tokenize line) \<noteq> None"
  obtain m s1 where 1: "strtok_r token_separators (cstr line) = (m, s1)" by fastforce
  obtain u s2 where 2: "strtok_r token_separators s1 = (u, s2)" by fastforce
  obtain x s3 where 3: "strtok_r token_separators s2 = (x, s3)" by fastforce
  have t: "rl_method (tokenize line) = m" "rl_uri (tokenize line) = u" "rl_version (tokenize line) = x"
    using 1 2 3 by (simp_all add: tokenize_def split: prod.splits)
  have "x = None" if "u = None" using that 2 3 strtok_r_None [of token_separators s1 s2] by simp
  then have "u \<noteq> None" using v t by blast
  moreover have "u = None" if "m = None" using that 1 2 strtok_r_None [of token_separators "cstr line" s1] by simp
  ultimately have "u \<noteq> None" and "m \<noteq> None" by blast+
  then show ?thesis using t by simp
qed

lemma net_no_log: "list_all net_ev u \<Longrightarrow> ELog p m uri v c s \<notin> set u"
  by (auto simp: list_all_iff)

lemma serveLine_log:
  assumes "serveLine env root sock peer line st w = (w', Ok code)"
  shows "\<exists>v. w' = v @ [ELog peer (rl_method (tokenize line)) (rl_uri (tokenize line))
      (rl_version (tokenize line)) code (getReasonPhrase code), EClose sock]"
  using assms by (auto simp: serveLine_def finish_def Let_def split: option.splits if_splits prod.splits res.splits)

text \<open>
  The log line: for a request line that was read, the arguments of the three \<open>%s\<close> for the
  request are its first three tokens, and one of them is the null pointer, for which \<open>%s\<close> is
  undefined, exactly when the line has fewer than three tokens.
\<close>

lemma null_logged:
  assumes "env_fdopen env clntSock = Some clntFp" and "env_peer env clntSock = Some peer"
    and "fgets 1000 clntFp = (Some line, rest)"
    and "handleConnection env webRoot clntSock [] = (w, Ok code)"
  shows "\<exists>v method uri version. w = v @ [ELog peer method uri version code (getReasonPhrase code), EClose clntSock] \<and>
    method = rl_method (tokenize line) \<and> uri = rl_uri (tokenize line) \<and>
    version = rl_version (tokenize line) \<and>
    (None \<in> {method, uri, version} \<longleftrightarrow> rl_version (tokenize line) = None)"
proof -
  have "serveLine env webRoot clntSock peer line rest [] = (w, Ok code)"
    using assms by (simp add: handleConnection_def)
  from serveLine_log [OF this] show ?thesis using tokens_in_order [of line] by fastforce
qed

lemma null_logged_witness:
  "\<exists>v method uri version. fst (handleConnection demo_env ''/www'' 5 []) =
      v @ [ELog ''127.0.0.1'' method uri version 501 (getReasonPhrase 501), EClose 5] \<and>
    version = None \<and> uri = None"
proof -
  have run: "handleConnection demo_env ''/www'' 5 [] = (fst (handleConnection demo_env ''/www'' 5 []), Ok 501)"
    by code_simp
  have fp: "env_fdopen demo_env 5 = Some \<lparr>s_bytes = ''GET'' @ [cr, nl, cr, nl], s_err = False\<rparr>"
    by (simp add: demo_env_def)
  have pe: "env_peer demo_env 5 = Some ''127.0.0.1''"
    by (simp add: demo_env_def)
  have fg: "fgets 1000 \<lparr>s_bytes = ''GET'' @ [cr, nl, cr, nl], s_err = False\<rparr> =
      (Some (''GET'' @ [cr, nl]), \<lparr>s_bytes = [cr, nl], s_err = False\<rparr>)"
    by code_simp
  have "rl_uri (tokenize (''GET'' @ [cr, nl])) = None" and
    "rl_version (tokenize (''GET'' @ [cr, nl])) = None"
    by code_simp+
  then show ?thesis using null_logged [OF fp pe fg run] by fastforce
qed

text \<open>
  \<open>sendStatusLine\<close> drops the result of \<open>Send\<close>: there is a connection on which the
  send of the status line fails, the file is sent all the same, so that the client's bytes are
  not the beginning of the specified response, and 200 is returned and logged.
\<close>

lemma header_loss_ignored:
  "\<exists>env w. send_in_range env \<and> handleConnection env ''/www'' 4 [] = (w, Ok 200) \<and>
     delivered w = ''hi'' \<and>
     \<not> prefix (delivered w) (snd (response env ''/www'' (''GET / HTTP/1.0'' @ [cr, nl])
         \<lparr>s_bytes = [cr, nl], s_err = False\<rparr>))"
proof -
  define env where "env = demo_env\<lparr>env_send := (\<lambda>i buf. if i = 1 then -1 else int (length buf))\<rparr>"
  have "send_in_range env" by (auto simp: env_def send_in_range_def)
  moreover have "snd (handleConnection env ''/www'' 4 []) = Ok 200"
    unfolding env_def by code_simp
  moreover have "delivered (fst (handleConnection env ''/www'' 4 [])) = ''hi''"
    unfolding env_def by code_simp
  moreover have "\<not> prefix ''hi'' (snd (response env ''/www'' (''GET / HTTP/1.0'' @ [cr, nl])
         \<lparr>s_bytes = [cr, nl], s_err = False\<rparr>))"
    unfolding env_def by code_simp
  ultimately show ?thesis by (metis prod.collapse)
qed

end
