(* ===== verification/ServerMain.thy ===== *)
theory ServerMain
  imports Http
begin

text \<open>
  Start-up, main loop, worker threads and shutdown of \<open>lcrq-server/http-server.c\<close>
  (\<open>createServerSocket\<close>, \<open>threadMain\<close>, \<open>mainLoop\<close>, \<open>main\<close>). The queue
  is the first-in first-out queue that \<open>Monitor\<close> shows \<open>queue_put\<close> and \<open>queue_get\<close>
  to be; a worker's connection is one call of \<open>handleConnection\<close>, in one step that always ends:
  a client that stays silent, and blocks the worker in \<open>fgets\<close> as long as it does, is not modelled.
\<close>

section \<open>Start-up\<close>

text \<open>The results of the system calls of \<open>main\<close>, 0 or positive for success where C says so.\<close>

record srv_env =
  se_sigpipe :: bool
  se_sigaction :: int
  se_cond_init :: int
  se_mutex_init :: int
  se_socket :: int
  se_bind :: "u16 \<Rightarrow> int"
  se_listen :: int
  se_nthreads :: "string option"
  se_atoi :: "string \<Rightarrow> i32"   \<comment> \<open>what \<open>atoi\<close> gives for a number that is not an \<open>int\<close>\<close>

datatype act =
    AUsage
  | AListen int u16        \<comment> \<open>the socket listens on this port\<close>
  | APerror string
  | AThreads string int    \<comment> \<open>the log line on the number of threads\<close>
  | ASpawn nat

definition MAXPENDING :: nat where
  "MAXPENDING = 5"

definition DEFAULT_THREADS :: int where
  "DEFAULT_THREADS = 1"

definition QUEUE_POISON :: int where
  "QUEUE_POISON = -5"

text \<open>\<open>Inl\<close>: \<open>die\<close> with this message.\<close>

definition queue_init_sys :: "srv_env \<Rightarrow> string + unit" where
  "queue_init_sys env =
     (if se_cond_init env \<noteq> 0 then Inl ''Cannot initialize queue condition variable''
      else if se_mutex_init env \<noteq> 0 then Inl ''Cannot initialize queue mutex''
      else Inr ())"

definition createServerSocket :: "srv_env \<Rightarrow> u16 \<Rightarrow> string + int" where
  "createServerSocket env port =
     (if se_socket env < 0 then Inl ''socket() failed''
      else if se_bind env port < 0 then Inl ''bind() failed''
      else if se_listen env < 0 then Inl ''listen() failed''
      else Inr (se_socket env))"

text \<open>
  \<open>atoi\<close>: white space, a sign, digits. Its result is an \<open>int\<close> of 32 bits. The value of a number that does
  not fit is left open by C; it is the parameter \<open>over\<close>, any function to \<open>int\<close>.
\<close>

definition is_space :: "char \<Rightarrow> bool" where
  "is_space c \<longleftrightarrow> c \<in> {CHR 0x09, CHR 0x0A, CHR 0x0B, CHR 0x0C, CHR 0x0D, CHR 0x20}"

definition is_digit :: "char \<Rightarrow> bool" where
  "is_digit c \<longleftrightarrow> 48 \<le> (of_char c :: nat) \<and> (of_char c :: nat) \<le> 57"

definition digits_value :: "string \<Rightarrow> int" where
  "digits_value ds = foldl (\<lambda>n c. 10 * n + (of_char c - 48)) 0 (takeWhile is_digit ds)"

definition signed_value :: "string \<Rightarrow> int" where
  "signed_value s =
     (case dropWhile is_space (cstr s) of
        [] \<Rightarrow> 0
      | c # cs \<Rightarrow>
          if c = CHR ''-'' then - digits_value cs
          else if c = CHR ''+'' then digits_value cs
          else digits_value (c # cs))"

definition fits_int :: "int \<Rightarrow> bool" where
  "fits_int v \<longleftrightarrow> - (2 ^ 31) \<le> v \<and> v < 2 ^ 31"

definition atoi :: "(string \<Rightarrow> i32) \<Rightarrow> string \<Rightarrow> int" where
  "atoi over s = (let v = signed_value s in if fits_int v then v else sint (over s))"

lemma atoi_fits: "fits_int (atoi over s)"
  using sint_range_size [of "over s"] by (simp add: atoi_def fits_int_def word_size Let_def)

text \<open>
  \<open>main\<close> up to the creation of the threads: the listening socket, the web root and the number of
  threads, or the exit code; and what it did.
\<close>

definition start_up :: "srv_env \<Rightarrow> string list \<Rightarrow> act list \<times> (int + int \<times> string \<times> int)" where
  "start_up env argv =
     (if \<not> se_sigpipe env then ([APerror ''signal() failed''], Inl 1)
      else if se_sigaction env < 0 then ([APerror ''sigaction() failed''], Inl 1)
      else if length argv \<noteq> 3 then ([AUsage], Inl 1)
      else
        let servPort = word_of_int (atoi (se_atoi env) (argv ! 1)) :: u16; webRoot = argv ! 2 in
        (case queue_init_sys env of
           Inl m \<Rightarrow> ([APerror m], Inl 1)
         | Inr _ \<Rightarrow>
        (case createServerSocket env servPort of
           Inl m \<Rightarrow> ([APerror m], Inl 1)
         | Inr servSock \<Rightarrow>
             let (log, nthreads) =
               (case se_nthreads env of
                  Some str \<Rightarrow> (AThreads ''-- Starting server with'' (atoi (se_atoi env) str), atoi (se_atoi env) str)
                | None \<Rightarrow> (AThreads ''-- Defaulting to 1 worker thread'' DEFAULT_THREADS, DEFAULT_THREADS)) in
             ([AListen servSock servPort, log] @ map ASpawn [0..<nat nthreads], Inr (servSock, webRoot, nthreads)))))"

section \<open>The main thread and the workers\<close>

text \<open>An \<open>accept\<close>: what it returns, whether \<open>errno\<close> is then \<open>EINTR\<close>, and \<open>flag_term\<close>.\<close>

record accepted =
  ac_sock :: int
  ac_eintr :: bool
  ac_flag :: bool

datatype main_pc =
    MAccept "accepted list"   \<comment> \<open>in \<open>mainLoop\<close>; the accepts still to come\<close>
  | MPoison nat               \<comment> \<open>putting poison, this many done\<close>
  | MJoin nat                 \<comment> \<open>joining worker \<open>i\<close>\<close>
  | MDestroy
  | MReturned

datatype work = Waiting | Serving int | Gone

record srv =
  v_queue :: "int list"
  v_main :: main_pc
  v_work :: "nat \<Rightarrow> work"
  v_n :: nat
  v_log :: "ev list"
  v_served :: "int list"
  v_exited :: bool

datatype sev = Main | Worker nat

text \<open>One round of \<open>mainLoop\<close>.\<close>

definition main_accept :: "accepted \<Rightarrow> accepted list \<Rightarrow> srv \<Rightarrow> srv" where
  "main_accept a as s =
     (if ac_eintr a \<and> ac_flag a then s\<lparr>v_main := MPoison 0\<rparr>
      else if ac_sock a < 0 then s\<lparr>v_exited := True\<rparr>
      else s\<lparr>v_queue := v_queue s @ [ac_sock a], v_main := MAccept as\<rparr>)"

fun main_step :: "srv \<Rightarrow> srv option" where
  "main_step s =
     (case v_main s of
        MAccept [] \<Rightarrow> None
      | MAccept (a # as) \<Rightarrow> Some (main_accept a as s)
      | MPoison i \<Rightarrow>
          Some (if i < v_n s then s\<lparr>v_queue := v_queue s @ [QUEUE_POISON], v_main := MPoison (Suc i)\<rparr>
                else s\<lparr>v_main := MJoin 0\<rparr>)
      | MJoin i \<Rightarrow>
          if i < v_n s then (if v_work s i = Gone then Some (s\<lparr>v_main := MJoin (Suc i)\<rparr>) else None)
          else Some (s\<lparr>v_main := MDestroy\<rparr>)
      | MDestroy \<Rightarrow> Some (s\<lparr>v_queue := [], v_main := MReturned\<rparr>)
      | MReturned \<Rightarrow> None)"

text \<open>
  \<open>threadMain\<close>: a worker takes a socket when there is one; then it handles the connection, which
  may end the thread, or the process.
\<close>

definition worker_step :: "http_env \<Rightarrow> string \<Rightarrow> nat \<Rightarrow> srv \<Rightarrow> srv option" where
  "worker_step env root i s =
     (if v_n s \<le> i then None
      else case v_work s i of
        Waiting \<Rightarrow>
          (case v_queue s of
             [] \<Rightarrow> None
           | sock # q \<Rightarrow> Some (s\<lparr>v_queue := q, v_work := (v_work s)(i := Serving sock)\<rparr>))
      | Serving sock \<Rightarrow>
          (let (w, r) = handleConnection env root sock (v_log s) in
           Some (case r of
             Ok _ \<Rightarrow> s\<lparr>v_log := w, v_served := v_served s @ [sock], v_work := (v_work s)(i := Waiting)\<rparr>
           | PthreadExit \<Rightarrow> s\<lparr>v_log := w, v_work := (v_work s)(i := Gone)\<rparr>
           | Exit c \<Rightarrow> s\<lparr>v_log := w, v_exited := True\<rparr>))
      | Gone \<Rightarrow> None)"

fun srv_step :: "http_env \<Rightarrow> string \<Rightarrow> sev \<Rightarrow> srv \<Rightarrow> srv option" where
  "srv_step env root Main s = (if v_exited s \<or> v_main s = MReturned then None else main_step s)"
| "srv_step env root (Worker i) s = (if v_exited s \<or> v_main s = MReturned then None else worker_step env root i s)"

definition srv_init :: "nat \<Rightarrow> accepted list \<Rightarrow> srv" where
  "srv_init n as = \<lparr>v_queue = [], v_main = MAccept as, v_work = (\<lambda>i. Waiting), v_n = n, v_log = [],
     v_served = [], v_exited = False\<rparr>"

section \<open>Numbers on the command line\<close>

lemma is_digit_char:
  assumes "d < (10::nat)"
  shows "is_digit (char_of (48 + d))" and "of_char (char_of (48 + d) :: char) = 48 + int d"
proof -
  have n: "of_char (char_of (48 + d) :: char) = 48 + d" using assms by simp
  then show "is_digit (char_of (48 + d))" using assms by (simp add: is_digit_def)
  have "(of_char (char_of (48 + d) :: char) :: int) = int (of_char (char_of (48 + d) :: char))"
    by (rule of_nat_of_char [symmetric])
  then show "of_char (char_of (48 + d) :: char) = 48 + int d" using n by linarith
qed

lemma is_digit_nul: "is_digit c \<Longrightarrow> c \<noteq> nul"
  by (auto simp: is_digit_def)

lemma dec_nat_digits: "\<forall>c \<in> set (dec_nat n). is_digit c"
proof (induction n rule: dec_nat.induct)
  case (1 n)
  show ?case
  proof (cases "n < 10")
    case True
    then show ?thesis using is_digit_char [of n] by (subst dec_nat.simps) simp
  next
    case False
    then show ?thesis using 1 is_digit_char [of "n mod 10"] by (subst dec_nat.simps) auto
  qed
qed

lemma digits_fold_dec_nat: "foldl (\<lambda>n c. 10 * n + (of_char c - 48)) (0::int) (dec_nat k) = int k"
proof (induction k rule: dec_nat.induct)
  case (1 k)
  show ?case
  proof (cases "k < 10")
    case True
    then show ?thesis using is_digit_char(2) [of k] by (subst dec_nat.simps) simp
  next
    case False
    then show ?thesis using 1 is_digit_char(2) [of "k mod 10"]
      by (subst dec_nat.simps) (simp, presburger)
  qed
qed

lemma takeWhile_all: "(\<forall>x \<in> set xs. P x) \<Longrightarrow> takeWhile P xs = xs"
  by (simp add: takeWhile_eq_all_conv)

lemma digits_value_dec_nat: "digits_value (dec_nat k) = int k"
  by (simp add: digits_value_def takeWhile_all [OF dec_nat_digits] digits_fold_dec_nat)

lemma dec_nat_head: obtains c cs where "dec_nat k = c # cs" and "is_digit c"
proof -
  have "dec_nat k \<noteq> []" by (subst dec_nat.simps) simp
  then show thesis using that dec_nat_digits [of k] by (cases "dec_nat k") auto
qed

lemma digit_not: "is_digit c \<Longrightarrow> \<not> is_space c \<and> c \<noteq> CHR ''-'' \<and> c \<noteq> CHR ''+''"
  by (auto simp: is_digit_def is_space_def)

text \<open>A number printed in decimal is read back by \<open>atoi\<close>.\<close>

lemma signed_decimal: "signed_value (dec_int n) = n"
proof -
  have nn: "nul \<notin> set (dec_nat k)" for k using dec_nat_digits [of k] is_digit_nul by blast
  have pos: "signed_value (dec_nat k) = int k" for k
  proof -
    obtain c cs where c: "dec_nat k = c # cs" "is_digit c" by (rule dec_nat_head)
    then show ?thesis using digit_not [OF c(2)] digits_value_dec_nat [of k] cstr_id [OF nn [of k]]
      by (simp add: signed_value_def)
  qed
  have neg: "signed_value (CHR ''-'' # dec_nat k) = - int k" for k
  proof -
    have "nul \<notin> set (CHR ''-'' # dec_nat k)" using nn [of k] by simp
    then have "cstr (CHR ''-'' # dec_nat k) = CHR ''-'' # dec_nat k" by (rule cstr_id)
    then show ?thesis using digits_value_dec_nat [of k] by (simp add: signed_value_def is_space_def)
  qed
  show ?thesis using pos [of "nat n"] neg [of "nat (- n)"] by (simp add: dec_int_def)
qed

lemma atoi_decimal: "fits_int n \<Longrightarrow> atoi over (dec_int n) = n"
  by (simp add: atoi_def signed_decimal)

section \<open>Start-up\<close>

text \<open>
  \<open>main\<close> before its main loop: whatever fails is reported and ends the process with code 1,
  with no thread created and no socket listening; otherwise every call succeeded, and exactly the
  number of threads that \<open>NTHREADS\<close> names (1 when it is not set, none when it is 0, negative or
  not a number) is created.
\<close>

lemma start_up_outcome:
  "case start_up env argv of
     (done, Inl code) \<Rightarrow> code = 1 \<and> (\<exists>m. done = [APerror m] \<or> done = [AUsage]) \<and>
       (\<not> se_sigpipe env \<or> se_sigaction env < 0 \<or> length argv \<noteq> 3 \<or> se_cond_init env \<noteq> 0 \<or>
        se_mutex_init env \<noteq> 0 \<or> se_socket env < 0 \<or>
        se_bind env (word_of_int (atoi (se_atoi env) (argv ! 1))) < 0 \<or> se_listen env < 0)
   | (done, Inr (servSock, webRoot, nthreads)) \<Rightarrow>
       servSock = se_socket env \<and> 0 \<le> servSock \<and> webRoot = argv ! 2 \<and> length argv = 3 \<and>
       nthreads = (case se_nthreads env of None \<Rightarrow> 1 | Some str \<Rightarrow> atoi (se_atoi env) str) \<and>
       [a \<leftarrow> done. a \<in> range ASpawn] = map ASpawn [0..<nat nthreads] \<and>
       AListen servSock (word_of_int (atoi (se_atoi env) (argv ! 1))) \<in> set done"
proof -
  have sp: "[a \<leftarrow> map ASpawn xs. a \<in> range ASpawn] = map ASpawn xs" for xs by (induction xs) auto
  show ?thesis
    by (auto simp: start_up_def queue_init_sys_def createServerSocket_def DEFAULT_THREADS_def Let_def sp
        split: option.splits sum.splits if_splits)
qed

text \<open>
  (C14) Decimal numbers given to the server that are values of \<open>int\<close> are the numbers it uses: a port
  \<open>p\<close> printed in decimal makes it listen on \<open>p\<close> modulo \<open>2 ^ 16\<close>, and \<open>NTHREADS\<close> printed in
  decimal is the number of threads it creates. Whatever \<open>NTHREADS\<close> is, the number of threads is an \<open>int\<close>.
\<close>

theorem decimal_arguments:
  assumes "start_up env [prog, dec_int p, root] = (done, Inr (servSock, webRoot, nthreads))"
    and "- (2 ^ 31) \<le> p" and "p < 2 ^ 31"
  shows "AListen servSock (word_of_int p) \<in> set done \<and> - (2 ^ 31) \<le> nthreads \<and> nthreads < 2 ^ 31 \<and>
    [a \<leftarrow> done. a \<in> range ASpawn] = map ASpawn [0..<nat nthreads] \<and>
    (\<forall>n. se_nthreads env = Some (dec_int n) \<and> - (2 ^ 31) \<le> n \<and> n < 2 ^ 31 \<longrightarrow> nthreads = n)"
proof -
  have sp: "[a \<leftarrow> map ASpawn xs. a \<in> range ASpawn] = map ASpawn xs" for xs by (induction xs) auto
  have p: "atoi over (dec_int p) = p" for over using assms(2,3) by (simp add: atoi_decimal fits_int_def)
  have n: "nthreads = (case se_nthreads env of None \<Rightarrow> DEFAULT_THREADS | Some str \<Rightarrow> atoi (se_atoi env) str)"
    using assms(1) by (auto simp: start_up_def Let_def split: sum.splits if_splits option.splits)
  then have "fits_int nthreads" using atoi_fits by (auto simp: DEFAULT_THREADS_def fits_int_def split: option.splits)
  moreover have "nthreads = k" if "se_nthreads env = Some (dec_int k)" "fits_int k" for k
    using n that by (simp add: atoi_decimal)
  moreover have "AListen servSock (word_of_int p) \<in> set done \<and> [a \<leftarrow> done. a \<in> range ASpawn] = map ASpawn [0..<nat nthreads]"
    using assms(1) by (auto simp: start_up_def Let_def p sp split: sum.splits if_splits option.splits)
  ultimately show ?thesis by (simp add: fits_int_def)
qed

definition demo_start :: srv_env where
  "demo_start = \<lparr>se_sigpipe = True, se_sigaction = 0, se_cond_init = 0, se_mutex_init = 0, se_socket = 3,
     se_bind = (\<lambda>p. 0), se_listen = 0, se_nthreads = Some (dec_int 2), se_atoi = (\<lambda>s. 0)\<rparr>"

lemma start_up_outcome_witness:
  "\<exists>m. fst (start_up demo_start []) = [APerror m] \<or> fst (start_up demo_start []) = [AUsage]"
proof -
  have "start_up demo_start [] = ([AUsage], Inl 1)" by (simp add: start_up_def demo_start_def)
  with start_up_outcome [of demo_start "[]"] show ?thesis by simp
qed

theorem decimal_arguments_witness:
  "AListen 3 8080 \<in> set (fst (start_up demo_start [''server'', dec_int 8080, ''/www''])) \<and>
   [a \<leftarrow> fst (start_up demo_start [''server'', dec_int 8080, ''/www'']). a \<in> range ASpawn] = [ASpawn 0, ASpawn 1]"
proof -
  have "\<exists>did k. start_up demo_start [''server'', dec_int 8080, ''/www''] = (did, Inr (3, ''/www'', k))"
    by (simp add: start_up_def demo_start_def queue_init_sys_def createServerSocket_def Let_def)
  then obtain did k where up: "start_up demo_start [''server'', dec_int 8080, ''/www''] = (did, Inr (3, ''/www'', k))" by blast
  have n: "se_nthreads demo_start = Some (dec_int 2)" by (simp add: demo_start_def)
  note R = decimal_arguments [OF up, simplified]
  have "k = 2" using R n by (auto simp del: numeral_eq_Suc)
  moreover have "[0..<nat 2] = [0, 1]" by code_simp
  ultimately show ?thesis using R by (simp add: up)
qed

section \<open>Shutdown\<close>

definition stops :: "accepted \<Rightarrow> bool" where
  "stops a \<longleftrightarrow> ac_eintr a \<and> ac_flag a"

text \<open>The sockets that \<open>mainLoop\<close> puts on the queue.\<close>

definition accepted_socks :: "accepted list \<Rightarrow> int list" where
  "accepted_socks as = map ac_sock (takeWhile (\<lambda>a. \<not> stops a) as)"

definition work_bag :: "work \<Rightarrow> int multiset" where
  "work_bag w = (case w of Serving x \<Rightarrow> {#x#} | _ \<Rightarrow> {#})"

definition gone :: "srv \<Rightarrow> nat" where
  "gone s = sum_list (map (\<lambda>i. of_bool (v_work s i = Gone)) [0..<v_n s])"

definition serving :: "srv \<Rightarrow> int multiset" where
  "serving s = sum_list (map (\<lambda>i. work_bag (v_work s i)) [0..<v_n s])"

fun poisons :: "nat \<Rightarrow> main_pc \<Rightarrow> nat" where
  "poisons n (MAccept as) = 0"
| "poisons n (MPoison i) = i"
| "poisons n _ = n"

fun joined :: "nat \<Rightarrow> main_pc \<Rightarrow> nat" where
  "joined n (MJoin i) = i"
| "joined n MDestroy = n"
| "joined n MReturned = n"
| "joined n _ = 0"

fun to_come :: "main_pc \<Rightarrow> accepted list" where
  "to_come (MAccept as) = as"
| "to_come _ = []"

text \<open>Every accepted socket can be opened as a stream; the poison is no open descriptor.\<close>

definition socks_open :: "http_env \<Rightarrow> accepted list \<Rightarrow> bool" where
  "socks_open env as \<longleftrightarrow> env_fdopen env QUEUE_POISON = None \<and>
     list_all (\<lambda>a. 0 \<le> ac_sock a \<longrightarrow> env_fdopen env (ac_sock a) \<noteq> None) as"

definition is_sock :: "http_env \<Rightarrow> int \<Rightarrow> bool" where
  "is_sock env x \<longleftrightarrow> x \<noteq> QUEUE_POISON \<and> env_fdopen env x \<noteq> None"

text \<open>
  \<open>socks\<close> are the sockets in the queue; the poison is behind them, and once a worker has taken
  poison none is left.
\<close>

definition drain_inv :: "http_env \<Rightarrow> int list \<Rightarrow> srv \<Rightarrow> int list \<Rightarrow> nat \<Rightarrow> bool" where
  "drain_inv env all s socks k \<longleftrightarrow>
     v_queue s = socks @ replicate k QUEUE_POISON \<and>
     list_all (is_sock env) (socks @ v_served s) \<and>
     list_all (\<lambda>x. 0 \<le> x \<longrightarrow> is_sock env x) (accepted_socks (to_come (v_main s))) \<and>
     (\<forall>i x. v_work s i = Serving x \<longrightarrow> x = QUEUE_POISON \<or> is_sock env x) \<and>
     gone s + count (serving s) QUEUE_POISON + k = poisons (v_n s) (v_main s) \<and>
     mset all = mset (v_served s) + {#x \<in># serving s. x \<noteq> QUEUE_POISON#} + mset socks
       + mset (accepted_socks (to_come (v_main s))) \<and>
     (0 < gone s \<or> QUEUE_POISON \<in># serving s \<longrightarrow> socks = []) \<and>
     poisons (v_n s) (v_main s) \<le> v_n s \<and> joined (v_n s) (v_main s) \<le> v_n s \<and>
     (\<forall>i < joined (v_n s) (v_main s). v_work s i = Gone)"

lemma sum_list_upd:
  fixes g :: "'w \<Rightarrow> 'a :: cancel_comm_monoid_add"
  assumes "i < n"
  shows "sum_list (map (\<lambda>j. g ((w(i := x)) j)) [0..<n]) + g (w i) = sum_list (map (\<lambda>j. g (w j)) [0..<n]) + g x"
  using assms
proof (induction n)
  case 0
  then show ?case by simp
next
  case (Suc n)
  show ?case
  proof (cases "i = n")
    case True
    then have "sum_list (map (\<lambda>j. g ((w(i := x)) j)) [0..<n]) = sum_list (map (\<lambda>j. g (w j)) [0..<n])"
      by (intro arg_cong [where f = sum_list] map_cong) auto
    then show ?thesis using True by (simp add: ac_simps)
  next
    case False
    let ?A = "sum_list (map (\<lambda>j. g ((w(i := x)) j)) [0..<n])" and ?B = "sum_list (map (\<lambda>j. g (w j)) [0..<n])"
    from False have IH: "?A + g (w i) = ?B + g x" using Suc by simp
    have "?A + g (w n) + g (w i) = ?A + g (w i) + g (w n)" by (simp only: ac_simps)
    also have "\<dots> = ?B + g (w n) + g x" unfolding IH by (simp only: ac_simps)
    finally show ?thesis using False by simp
  qed
qed

lemma gone_upd:
  "i < v_n s \<Longrightarrow> gone (s\<lparr>v_work := (v_work s)(i := x)\<rparr>) + of_bool (v_work s i = Gone) = gone s + of_bool (x = Gone)"
  using sum_list_upd [of i "v_n s" "\<lambda>w. of_bool (w = Gone)" "v_work s" x] by (simp add: gone_def)

lemma serving_upd:
  "i < v_n s \<Longrightarrow> serving (s\<lparr>v_work := (v_work s)(i := x)\<rparr>) + work_bag (v_work s i) = serving s + work_bag x"
  using sum_list_upd [of i "v_n s" work_bag "v_work s" x] by (simp add: serving_def)

lemma all_gone:
  assumes "\<forall>i < v_n s. v_work s i = Gone"
  shows "gone s = v_n s" and "serving s = {#}"
proof -
  have "map (\<lambda>i. of_bool (v_work s i = Gone)) [0..<v_n s] = map (\<lambda>i. 1::nat) [0..<v_n s]"
    using assms by (intro map_cong) auto
  then have "gone s = sum_list (map (\<lambda>i. 1::nat) [0..<v_n s])" unfolding gone_def by (rule arg_cong)
  then show "gone s = v_n s" by (simp add: sum_list_triv)
  have "map (\<lambda>i. work_bag (v_work s i)) [0..<v_n s] = map (\<lambda>i. {#}) [0..<v_n s]"
    using assms by (intro map_cong) (auto simp: work_bag_def)
  then have "serving s = sum_list (map (\<lambda>i. {#}) [0..<v_n s])" unfolding serving_def by (rule arg_cong)
  then show "serving s = {#}" by simp
qed

lemma accepted_socks_Cons:
  "accepted_socks (a # as) = (if stops a then [] else ac_sock a # accepted_socks as)"
  by (simp add: accepted_socks_def)

lemma work_bag_simps [simp]:
  "work_bag Waiting = {#}" "work_bag Gone = {#}" "work_bag (Serving x) = {#x#}"
  by (simp_all add: work_bag_def)

lemma main_counts [simp]:
  "gone (s\<lparr>v_main := m\<rparr>) = gone s" "gone (s\<lparr>v_queue := q\<rparr>) = gone s" "gone (s\<lparr>v_served := sv\<rparr>) = gone s"
  "gone (s\<lparr>v_log := l\<rparr>) = gone s"
  "serving (s\<lparr>v_main := m\<rparr>) = serving s" "serving (s\<lparr>v_queue := q\<rparr>) = serving s"
  "serving (s\<lparr>v_served := sv\<rparr>) = serving s" "serving (s\<lparr>v_log := l\<rparr>) = serving s"
  by (simp_all add: gone_def serving_def)

lemma main_drains:
  assumes inv: "drain_inv env all s socks k" and run: "main_step s = Some t" and live: "\<not> v_exited t" and n: "0 < v_n s"
  shows "v_n t = v_n s \<and> (\<exists>socks k. drain_inv env all t socks k)"
proof (cases "v_main s")
  case (MAccept as)
  then obtain a as' where as: "as = a # as'" using run by (cases as) auto
  show ?thesis
  proof (cases "stops a")
    case True
    then have t: "t = s\<lparr>v_main := MPoison 0\<rparr>" using run MAccept as by (simp add: main_accept_def stops_def)
    have "drain_inv env all t socks k" using inv MAccept as True by (simp add: drain_inv_def t accepted_socks_Cons accepted_socks_def)
    then show ?thesis using t by auto
  next
    case False
    then have t: "t = s\<lparr>v_queue := v_queue s @ [ac_sock a], v_main := MAccept as'\<rparr>" and pos: "0 \<le> ac_sock a"
      using run live MAccept as by (auto simp: main_accept_def stops_def split: if_splits)
    have "drain_inv env all t (socks @ [ac_sock a]) 0"
      using inv MAccept as False pos by (auto simp: drain_inv_def t accepted_socks_Cons count_eq_zero_iff)
    then show ?thesis using t by auto
  qed
next
  case (MPoison i)
  show ?thesis
  proof (cases "i < v_n s")
    case True
    then have t: "t = s\<lparr>v_queue := v_queue s @ [QUEUE_POISON], v_main := MPoison (Suc i)\<rparr>" using run MPoison by simp
    have "drain_inv env all t socks (Suc k)" using inv MPoison True by (simp add: drain_inv_def t replicate_append_same)
    then show ?thesis using t by auto
  next
    case False
    then have t: "t = s\<lparr>v_main := MJoin 0\<rparr>" using run MPoison by simp
    have "drain_inv env all t socks k" using inv MPoison False by (simp add: drain_inv_def t)
    then show ?thesis using t by auto
  qed
next
  case (MJoin i)
  have "drain_inv env all t socks k \<and> v_n t = v_n s"
  proof (cases "i < v_n s")
    case True
    then have t: "t = s\<lparr>v_main := MJoin (Suc i)\<rparr>" and "v_work s i = Gone" using run MJoin by (simp_all split: if_splits)
    then show ?thesis using inv MJoin True by (simp add: drain_inv_def less_Suc_eq)
  next
    case False
    then have "t = s\<lparr>v_main := MDestroy\<rparr>" using run MJoin by simp
    then show ?thesis using inv MJoin False by (simp add: drain_inv_def)
  qed
  then show ?thesis by auto
next
  case MDestroy
  then have g: "gone s = v_n s" "serving s = {#}" using inv all_gone [of s] by (simp_all add: drain_inv_def)
  have t: "t = s\<lparr>v_queue := [], v_main := MReturned\<rparr>" using run MDestroy by simp
  have "socks = []" "k = 0" using inv g n MDestroy by (simp_all add: drain_inv_def)
  then have "drain_inv env all t [] 0" using inv MDestroy by (simp add: drain_inv_def t)
  then show ?thesis using t by auto
next
  case MReturned
  then show ?thesis using run by simp
qed

lemma connection_result:
  assumes "handleConnection env root x w = (w', r)" and "x = QUEUE_POISON \<or> is_sock env x" and "env_fdopen env QUEUE_POISON = None"
  shows "if x = QUEUE_POISON then r = PthreadExit else r \<noteq> PthreadExit"
proof (cases "x = QUEUE_POISON")
  case True
  then show ?thesis using assms(1,3) by (simp add: handleConnection_def)
next
  case False
  then have fd: "env_fdopen env x \<noteq> None" using assms(2) by (simp add: is_sock_def)
  from assms(1) show ?thesis by (cases rule: handleConnection_cases) (use fd False in auto)
qed

lemma worker_drains:
  assumes inv: "drain_inv env all s socks k" and run: "worker_step env root i s = Some t"
    and live: "\<not> v_exited t" and poison: "env_fdopen env QUEUE_POISON = None"
  shows "v_n t = v_n s \<and> (\<exists>socks k. drain_inv env all t socks k)"
proof -
  have i: "i < v_n s" using run by (auto simp: worker_step_def split: if_splits)
  have later: "\<not> i < joined (v_n s) (v_main s)" if "v_work s i \<noteq> Gone" using inv that by (auto simp: drain_inv_def)
  show ?thesis
  proof (cases "v_work s i")
    case Waiting
    then obtain x q where q: "v_queue s = x # q" and t: "t = s\<lparr>v_queue := q, v_work := (v_work s)(i := Serving x)\<rparr>"
      using run i by (auto simp: worker_step_def split: list.splits)
    have g: "gone t = gone s" "serving t = add_mset x (serving s)"
      using gone_upd [OF i, of "Serving x"] serving_upd [OF i, of "Serving x"] Waiting by (simp_all add: t gone_def serving_def)
    show ?thesis
    proof (cases socks)
      case Nil
      then obtain k' where k: "k = Suc k'" "x = QUEUE_POISON" "q = replicate k' QUEUE_POISON"
        using inv q by (cases k) (auto simp: drain_inv_def)
      have "drain_inv env all t [] k'" using inv Nil k g later Waiting by (auto simp: drain_inv_def t)
      then show ?thesis using t by auto
    next
      case (Cons y ys)
      then have y: "x = y" "q = ys @ replicate k QUEUE_POISON" "is_sock env y" using inv q by (auto simp: drain_inv_def)
      then have "y \<noteq> QUEUE_POISON" by (simp add: is_sock_def)
      then have "drain_inv env all t ys k" using inv Cons y g later Waiting by (auto simp: drain_inv_def t)
      then show ?thesis using t by auto
    qed
  next
    case (Serving x)
    obtain w r where hc: "handleConnection env root x (v_log s) = (w, r)" by fastforce
    have xs: "x = QUEUE_POISON \<or> is_sock env x" using inv Serving by (auto simp: drain_inv_def)
    note res = connection_result [OF hc xs poison]
    show ?thesis
    proof (cases "x = QUEUE_POISON")
      case True
      then have t: "t = s\<lparr>v_log := w, v_work := (v_work s)(i := Gone)\<rparr>"
        using run i Serving hc res by (simp add: worker_step_def)
      have g: "gone t = Suc (gone s)" "serving s = add_mset QUEUE_POISON (serving t)"
        using gone_upd [OF i, of Gone] serving_upd [OF i, of Gone] Serving True by (simp_all add: t gone_def serving_def)
      have "drain_inv env all t socks k" using inv g later Serving by (auto simp: drain_inv_def t)
      then show ?thesis using t by auto
    next
      case False
      then obtain c where "r = Ok c" using run i Serving hc res live by (cases r) (auto simp: worker_step_def)
      then have t: "t = s\<lparr>v_log := w, v_served := v_served s @ [x], v_work := (v_work s)(i := Waiting)\<rparr>"
        using run i Serving hc by (simp add: worker_step_def)
      have g: "gone t = gone s" "serving s = add_mset x (serving t)"
        using gone_upd [OF i, of Waiting] serving_upd [OF i, of Waiting] Serving by (simp_all add: t gone_def serving_def)
      have "drain_inv env all t socks k" using inv g later Serving False xs by (auto simp: drain_inv_def t)
      then show ?thesis using t by auto
    qed
  next
    case Gone
    then show ?thesis using run by (simp add: worker_step_def split: if_splits)
  qed
qed

definition drain_good :: "http_env \<Rightarrow> int list \<Rightarrow> nat \<Rightarrow> srv \<Rightarrow> bool" where
  "drain_good env all n s \<longleftrightarrow> \<not> v_exited s \<and> env_fdopen env QUEUE_POISON = None \<and> 0 < n \<longrightarrow>
     v_n s = n \<and> (\<exists>socks k. drain_inv env all s socks k)"

lemma drain_good_step: "drain_good env all n s \<Longrightarrow> srv_step env root e s = Some t \<Longrightarrow> drain_good env all n t"
proof (cases "\<not> v_exited t \<and> env_fdopen env QUEUE_POISON = None \<and> 0 < n")
  case True
  assume good: "drain_good env all n s" and run: "srv_step env root e s = Some t"
  have "\<not> v_exited s" using run by (cases e) (auto split: if_splits)
  then obtain socks k where "v_n s = n" and inv: "drain_inv env all s socks k" using good True by (auto simp: drain_good_def)
  then have "v_n t = n \<and> (\<exists>socks k. drain_inv env all t socks k)"
    using run True main_drains [OF inv, of t] worker_drains [OF inv, of root _ t]
    by (cases e) (auto simp del: main_step.simps split: if_splits)
  then show ?thesis by (simp add: drain_good_def)
qed (auto simp: drain_good_def)

interpretation shutdown: machine "srv_step env root" "drain_good env all n" for env root all n
  by unfold_locales (rule drain_good_step)

lemma drain_start: "socks_open env as \<Longrightarrow> drain_good env (accepted_socks as) n (srv_init n as)"
proof -
  assume open_socks: "socks_open env as"
  have "gone (srv_init n as) = 0" "serving (srv_init n as) = {#}"
    by (simp_all add: gone_def serving_def srv_init_def sum_list_triv)
  moreover have "list_all (\<lambda>x. 0 \<le> x \<longrightarrow> is_sock env x) (accepted_socks as)"
    using open_socks by (auto simp: list_all_iff socks_open_def is_sock_def accepted_socks_def QUEUE_POISON_def dest: set_takeWhileD)
  ultimately have "drain_inv env (accepted_socks as) (srv_init n as) [] 0"
    by (simp add: drain_inv_def) (simp add: srv_init_def)
  then show ?thesis by (auto simp: drain_good_def srv_init_def)
qed

lemma drain_run:
  assumes "mrun (srv_step env root) es (srv_init n as) = Some s" and "socks_open env as" and "0 < n" and "\<not> v_exited s"
  obtains socks k where "v_n s = n" and "drain_inv env (accepted_socks as) s socks k"
proof -
  have "drain_good env (accepted_socks as) n s" by (rule shutdown.good_run [OF drain_start [OF assms(2)] assms(1)])
  moreover have "env_fdopen env QUEUE_POISON = None" using assms(2) by (simp add: socks_open_def)
  ultimately show thesis using assms(3,4) that by (auto simp: drain_good_def)
qed

definition demo_accepts :: "accepted list" where
  "demo_accepts = [\<lparr>ac_sock = 4, ac_eintr = False, ac_flag = False\<rparr>, \<lparr>ac_sock = -1, ac_eintr = True, ac_flag = True\<rparr>]"

definition demo_shutdown :: "sev list" where
  "demo_shutdown = [Main, Worker 0, Main, Main, Worker 0, Main, Worker 0, Worker 0, Main, Main, Main]"

lemma demo_open: "socks_open demo_env demo_accepts"
  by code_simp

text \<open>
  When \<open>main\<close> returns after \<open>SIGINT\<close>, with at least one worker, the queue is empty, every worker
  has ended, and the connections served are exactly those accepted before the signal: the poison
  drops none, whatever the interleaving of the main thread and the workers was.
\<close>

lemma shutdown_drains:
  assumes "mrun (srv_step env root) es (srv_init n as) = Some s" and "socks_open env as" and "0 < n"
    and "v_main s = MReturned" and "\<not> v_exited s"
  shows "v_queue s = [] \<and> (\<forall>i < n. v_work s i = Gone) \<and> mset (v_served s) = mset (accepted_socks as)"
proof -
  obtain socks k where n: "v_n s = n" and inv: "drain_inv env (accepted_socks as) s socks k"
    using drain_run [OF assms(1-3,5)] by blast
  then have g: "gone s = n" "serving s = {#}" using assms(4) all_gone [of s] by (auto simp: drain_inv_def)
  then have "socks = []" "k = 0" using inv n assms(3,4) by (simp_all add: drain_inv_def)
  then show ?thesis using inv n g assms(4) by (simp add: drain_inv_def accepted_socks_def)
qed

lemma shutdown_drains_witness:
  "\<exists>s. mrun (srv_step demo_env ''/www'') demo_shutdown (srv_init 1 demo_accepts) = Some s \<and> v_queue s = [] \<and>
    v_work s 0 = Gone \<and> mset (v_served s) = {#4#}"
proof -
  have "map_option (\<lambda>s. (v_main s, v_exited s)) (mrun (srv_step demo_env ''/www'') demo_shutdown (srv_init 1 demo_accepts))
      = Some (MReturned, False)" by code_simp
  then obtain s where s: "mrun (srv_step demo_env ''/www'') demo_shutdown (srv_init 1 demo_accepts) = Some s"
    "v_main s = MReturned" "\<not> v_exited s" by auto
  have "accepted_socks demo_accepts = [4]" by code_simp
  then show ?thesis using shutdown_drains [OF s(1) demo_open _ s(2,3)] s(1) by simp
qed

lemma idle_worker_missing:
  assumes "v_work s i = Waiting" and "i < v_n s"
  shows "gone s + size (serving s) < v_n s"
proof -
  have le: "sum_list (map (\<lambda>j. of_bool (f j = Gone)) [0..<m]) + size (sum_list (map (\<lambda>j. work_bag (f j)) [0..<m])) \<le> m"
    for m and f :: "nat \<Rightarrow> work"
  proof (induction m)
    case (Suc m)
    then show ?case by (cases "f m") auto
  qed simp
  have "gone (s\<lparr>v_work := (v_work s)(i := Gone)\<rparr>) + size (serving (s\<lparr>v_work := (v_work s)(i := Gone)\<rparr>)) \<le> v_n s"
    using le [of "(v_work s)(i := Gone)" "v_n s"] by (simp add: gone_def serving_def)
  then show ?thesis using gone_upd [OF assms(2), of Gone] serving_upd [OF assms(2), of Gone] assms(1) by simp
qed

text \<open>Once all poison is put, a worker that has not ended never waits for an empty queue.\<close>

lemma waiting_has_work:
  assumes "drain_inv env all s socks k" and "poisons (v_n s) (v_main s) = v_n s" and "v_work s i = Waiting" and "i < v_n s"
  shows "v_queue s \<noteq> []"
proof
  assume "v_queue s = []"
  then have "gone s + count (serving s) QUEUE_POISON = v_n s" using assms(1,2) by (simp add: drain_inv_def)
  moreover have "gone s + size (serving s) < v_n s" using idle_worker_missing assms(3,4) by blast
  moreover have "count (serving s) QUEUE_POISON \<le> size (serving s)" by (rule count_le_size)
  ultimately show False by simp
qed

text \<open>The steps the shutdown can still take.\<close>

definition main_left :: "nat \<Rightarrow> main_pc \<Rightarrow> nat" where
  "main_left n m = (case m of MAccept as \<Rightarrow> 0 | MPoison i \<Rightarrow> 3 * (n - i) + n + 3 | MJoin i \<Rightarrow> n - i + 2 | MDestroy \<Rightarrow> 1 | MReturned \<Rightarrow> 0)"

definition shutdown_bound :: "srv \<Rightarrow> nat" where
  "shutdown_bound s =
     (if v_exited s then 0 else Suc (main_left (v_n s) (v_main s) + 2 * length (v_queue s) + size (serving s)))"

definition shutting :: "srv \<Rightarrow> bool" where
  "shutting s \<longleftrightarrow> (case v_main s of MAccept as \<Rightarrow> False | _ \<Rightarrow> True)"

lemma shutdown_step:
  assumes run: "srv_step env root e s = Some t" and ph: "shutting s"
  shows "shutting t \<and> shutdown_bound t < shutdown_bound s"
proof (cases e)
  case Main
  then show ?thesis using run ph
    by (cases "v_main s") (auto simp: shutdown_bound_def shutting_def main_left_def split: if_splits)
next
  case (Worker i)
  then have w: "worker_step env root i s = Some t" and live: "\<not> v_exited s" using run by (auto split: if_splits)
  then have i: "i < v_n s" by (auto simp: worker_step_def split: if_splits)
  show ?thesis
  proof (cases "v_work s i")
    case Waiting
    then obtain x q where q: "v_queue s = x # q" "t = s\<lparr>v_queue := q, v_work := (v_work s)(i := Serving x)\<rparr>"
      using w i by (auto simp: worker_step_def split: list.splits)
    moreover have "serving t = add_mset x (serving s)"
      using serving_upd [OF i, of "Serving x"] Waiting q(2) by (simp add: serving_def)
    ultimately show ?thesis using live ph by (simp add: shutdown_bound_def shutting_def)
  next
    case (Serving x)
    have shrink: "size (serving s) = Suc (size (serving (s\<lparr>v_work := (v_work s)(i := y)\<rparr>)))" if "work_bag y = {#}" for y
      using arg_cong [OF serving_upd [OF i, of y], of size] Serving that by (simp del: serving_upd)
    obtain w' r where hc: "handleConnection env root x (v_log s) = (w', r)" by fastforce
    show ?thesis using w i Serving hc live ph shrink [of Waiting] shrink [of Gone]
      by (cases r) (auto simp: worker_step_def shutdown_bound_def shutting_def serving_def)
  next
    case Gone
    then show ?thesis using w by (simp add: worker_step_def split: if_splits)
  qed
qed

lemma shutdown_run:
  "mrun (srv_step env root) fs s = Some t \<Longrightarrow> shutting s \<Longrightarrow> length fs + shutdown_bound t \<le> shutdown_bound s"
proof (induction fs arbitrary: s)
  case (Cons e fs)
  then obtain u where "srv_step env root e s = Some u" "mrun (srv_step env root) fs u = Some t" by (auto split: option.splits)
  then show ?case using Cons shutdown_step [of env root e s u] by fastforce
qed simp

text \<open>
  (C12) The shutdown ends: once the main loop is left, some thread can always move until \<open>main\<close>
  returns (a joined worker is never left waiting on an empty queue), and no run takes more than
  \<open>shutdown_bound\<close> steps. A connection is one step: this assumes that every call of
  \<open>handleConnection\<close> ends, that is, that no client keeps its connection open in silence.
\<close>

theorem shutdown_completes:
  assumes "mrun (srv_step env root) es (srv_init n as) = Some s" and "socks_open env as" and "0 < n"
    and "shutting s" and "\<not> v_exited s"
  shows "(v_main s \<noteq> MReturned \<longrightarrow> (\<exists>e t. srv_step env root e s = Some t)) \<and>
    (\<forall>fs t. mrun (srv_step env root) fs s = Some t \<longrightarrow> length fs \<le> shutdown_bound s)"
proof (intro conjI impI allI)
  fix fs t
  assume "mrun (srv_step env root) fs s = Some t"
  then show "length fs \<le> shutdown_bound s" using shutdown_run [of env root fs s t] assms(4) by simp
next
  assume running: "v_main s \<noteq> MReturned"
  obtain socks k where n: "v_n s = n" and inv: "drain_inv env (accepted_socks as) s socks k"
    using drain_run [OF assms(1-3,5)] by blast
  show "\<exists>e t. srv_step env root e s = Some t"
  proof (cases "main_step s")
    case (Some t)
    then have "srv_step env root Main s = Some t" using assms(5) running by simp
    then show ?thesis by blast
  next
    case None
    then obtain i where m: "v_main s = MJoin i" "i < n" "v_work s i \<noteq> Gone"
      using assms(4) running n by (cases "v_main s") (auto simp: shutting_def split: if_splits)
    have "\<exists>t. worker_step env root i s = Some t"
    proof (cases "v_work s i")
      case Waiting
      have "v_queue s \<noteq> []" using waiting_has_work [OF inv] Waiting m n by simp
      then show ?thesis using Waiting m n by (auto simp: worker_step_def neq_Nil_conv)
    next
      case (Serving x)
      then show ?thesis using m n by (auto simp: worker_step_def split: prod.splits)
    qed (use m in simp)
    then show ?thesis using assms(5) running by (auto intro: exI [of _ "Worker i"])
  qed
qed

theorem shutdown_completes_witness:
  "\<exists>s t e. mrun (srv_step demo_env ''/www'') (take 3 demo_shutdown) (srv_init 1 demo_accepts) = Some s \<and>
    srv_step demo_env ''/www'' e s = Some t"
proof -
  have "map_option (\<lambda>s. (v_main s, v_exited s)) (mrun (srv_step demo_env ''/www'') (take 3 demo_shutdown) (srv_init 1 demo_accepts))
      = Some (MPoison 0, False)" by code_simp
  then obtain s where s: "mrun (srv_step demo_env ''/www'') (take 3 demo_shutdown) (srv_init 1 demo_accepts) = Some s"
    "v_main s = MPoison 0" "\<not> v_exited s" by auto
  then have "shutting s" by (simp add: shutting_def)
  from shutdown_completes [OF s(1) demo_open _ this s(3)] s show ?thesis by auto
qed

section \<open>A server without workers\<close>

definition unserved :: "srv \<Rightarrow> bool" where
  "unserved s \<longleftrightarrow> v_n s = 0 \<and> v_served s = [] \<and> v_log s = []"

lemma unserved_step: "unserved s \<Longrightarrow> srv_step env root e s = Some t \<Longrightarrow> unserved t"
  by (cases e; cases "v_main s") (auto simp: unserved_def worker_step_def main_accept_def split: if_splits list.splits)

interpretation no_worker: machine "srv_step env root" unserved for env root
  by unfold_locales (rule unserved_step)

text \<open>
  A server started with \<open>NTHREADS\<close> 0, negative or not a number starts, listens and accepts
  connections, but it has no worker: no connection is ever served, whatever happens.
\<close>

lemma no_workers_no_service:
  assumes "start_up senv argv = (done, Inr (servSock, root, nthreads))" and "se_nthreads senv = Some str"
    and "atoi (se_atoi senv) str \<le> 0" and "mrun (srv_step env root) es (srv_init (nat nthreads) as) = Some s"
  shows "v_served s = [] \<and> v_log s = [] \<and> AListen servSock (word_of_int (atoi (se_atoi senv) (argv ! 1))) \<in> set done"
proof -
  have st: "nthreads = atoi (se_atoi senv) str" "AListen servSock (word_of_int (atoi (se_atoi senv) (argv ! 1))) \<in> set done"
    using assms(1,2) by (auto simp: start_up_def Let_def split: sum.splits if_splits)
  have "unserved (srv_init (nat nthreads) as)" using st assms(3) by (simp add: unserved_def srv_init_def)
  from no_worker.good_run [OF this assms(4)] st show ?thesis by (simp add: unserved_def)
qed

definition demo_senv :: srv_env where
  "demo_senv = \<lparr>se_sigpipe = True, se_sigaction = 0, se_cond_init = 0, se_mutex_init = 0, se_socket = 3,
     se_bind = (\<lambda>p. 0), se_listen = 0, se_nthreads = Some ''many'', se_atoi = (\<lambda>s. 0)\<rparr>"

lemma no_workers_no_service_witness:
  "\<exists>s. mrun (srv_step demo_env ''/www'') [Main] (srv_init 0 demo_accepts) = Some s \<and> v_served s = [] \<and> v_queue s = [4]"
proof -
  have up: "start_up demo_senv [''s'', ''80'', ''/www''] =
      ([AListen 3 80, AThreads ''-- Starting server with'' 0], Inr (3, ''/www'', 0))" by code_simp
  have "map_option (\<lambda>s. v_queue s) (mrun (srv_step demo_env ''/www'') [Main] (srv_init 0 demo_accepts)) = Some [4]"
    by code_simp
  then obtain s where s: "mrun (srv_step demo_env ''/www'') [Main] (srv_init 0 demo_accepts) = Some s" "v_queue s = [4]"
    by auto
  have "se_nthreads demo_senv = Some ''many''" "atoi (se_atoi demo_senv) ''many'' \<le> 0" by code_simp+
  from no_workers_no_service [OF up this, of demo_env "[Main]" demo_accepts s] s show ?thesis by simp
qed

end
