(* ===== verification/MSQueue.thy ===== *)
theory MSQueue
  imports WaitQueue
begin

text \<open>
  The lock-free Michael-Scott queue of \<open>lcrq-server/ms-queue-http-server.c\<close> (the same text as
  \<open>synch1.0.1/msqueue.c\<close>). A step is one access to shared memory by one thread: a read of
  \<open>head\<close>, \<open>tail\<close> or a \<open>next\<close> field, or one compare-and-swap. The nodes come from a
  pool per thread and are never freed. Memory is sequentially consistent.
\<close>

record msnode =
  n_value :: int
  n_next :: "nat option"

datatype mspc =
    QIdle
  | EReadTail int nat                   \<comment> \<open>\<open>last = tail\<close>; \<open>arg\<close>, \<open>p\<close>\<close>
  | EReadNext int nat nat               \<comment> \<open>\<open>next = last->next\<close>; \<open>last\<close>\<close>
  | ECheck int nat nat "nat option"     \<comment> \<open>\<open>if (last == tail) ...\<close>; \<open>next\<close>\<close>
  | ECasNext int nat nat                \<comment> \<open>\<open>CASPTR(&last->next, next, p)\<close>\<close>
  | ECasHelp int nat nat nat            \<comment> \<open>\<open>CASPTR(&tail, last, next)\<close>\<close>
  | ESwing nat nat                      \<comment> \<open>\<open>CASPTR(&tail, last, p)\<close>\<close>
  | DReadHead
  | DReadTail nat                       \<comment> \<open>\<open>first\<close>\<close>
  | DReadNext nat nat                   \<comment> \<open>\<open>last\<close>\<close>
  | DCheck nat nat "nat option"         \<comment> \<open>\<open>if (first == head) ...\<close>\<close>
  | DHelp nat nat                       \<comment> \<open>\<open>CASPTR(&tail, last, next)\<close>\<close>
  | DValue nat "nat option"             \<comment> \<open>\<open>value = next->value\<close>\<close>
  | DCas nat nat int                    \<comment> \<open>\<open>CASPTR(&head, first, next)\<close>\<close>
  | EDone                               \<comment> \<open>\<open>enqueue\<close> has returned\<close>
  | QRet int                            \<comment> \<open>\<open>dequeue\<close> has returned this value\<close>

record msq =
  ms_head :: nat
  ms_tail :: nat
  ms_heap :: "nat \<Rightarrow> msnode"
  ms_brk :: nat
  pool_node :: "tid \<Rightarrow> nat"
  pool_node_index :: "tid \<Rightarrow> int"
  ms_pc :: "tid \<Rightarrow> mspc"
  ms_fault :: bool

definition POOL_SIZE :: int where
  "POOL_SIZE = 1024"

text \<open>
  Memory that \<open>malloc\<close> returns holds whatever the heap held there; \<open>ms_brk\<close> is the first
  address not yet given out. Null is \<open>None\<close>.
\<close>

definition ms_init :: "(nat \<Rightarrow> msnode) \<Rightarrow> msq" where
  "ms_init h = \<lparr>ms_head = 0, ms_tail = 0, ms_heap = h(0 := (h 0)\<lparr>n_next := None\<rparr>), ms_brk = 1,
     pool_node = (\<lambda>t. 0), pool_node_index = (\<lambda>t. 0), ms_pc = (\<lambda>t. QIdle), ms_fault = False\<rparr>"

definition go :: "tid \<Rightarrow> mspc \<Rightarrow> msq \<Rightarrow> msq" where
  "go t p s = s\<lparr>ms_pc := (ms_pc s)(t := p)\<rparr>"

definition pool_refill :: "tid \<Rightarrow> msq \<Rightarrow> msq" where
  "pool_refill t s =
     (if pool_node_index s t - 1 < 0
      then s\<lparr>pool_node := (pool_node s)(t := ms_brk s), ms_brk := ms_brk s + nat POOL_SIZE,
             pool_node_index := (pool_node_index s)(t := POOL_SIZE)\<rparr>
      else s)"

definition enqueue_begin :: "tid \<Rightarrow> int \<Rightarrow> msq \<Rightarrow> msq" where
  "enqueue_begin t arg s =
     (let s1 = pool_refill t s;
          i = pool_node_index s1 t - 1;
          p = pool_node s1 t + nat i in
      go t (EReadTail arg p)
        (s1\<lparr>pool_node_index := (pool_node_index s1)(t := i),
            ms_heap := (ms_heap s1)(p := \<lparr>n_value = arg, n_next = None\<rparr>)\<rparr>))"

definition cas_tail :: "nat \<Rightarrow> nat \<Rightarrow> msq \<Rightarrow> msq" where
  "cas_tail old new s = (if ms_tail s = old then s\<lparr>ms_tail := new\<rparr> else s)"

fun enqueue_pc :: "mspc \<Rightarrow> tid \<Rightarrow> msq \<Rightarrow> msq option" where
  "enqueue_pc (EReadTail arg p) t s = Some (go t (EReadNext arg p (ms_tail s)) s)"
| "enqueue_pc (EReadNext arg p l) t s = Some (go t (ECheck arg p l (n_next (ms_heap s l))) s)"
| "enqueue_pc (ECheck arg p l n) t s =
     Some (if l = ms_tail s
           then (case n of None \<Rightarrow> go t (ECasNext arg p l) s | Some nx \<Rightarrow> go t (ECasHelp arg p l nx) s)
           else go t (EReadTail arg p) s)"
| "enqueue_pc (ECasNext arg p l) t s =
     Some (if n_next (ms_heap s l) = None
           then go t (ESwing p l) (s\<lparr>ms_heap := (ms_heap s)(l := (ms_heap s l)\<lparr>n_next := Some p\<rparr>)\<rparr>)
           else go t (EReadTail arg p) s)"
| "enqueue_pc (ECasHelp arg p l nx) t s = Some (go t (EReadTail arg p) (cas_tail l nx s))"
| "enqueue_pc (ESwing p l) t s = Some (go t (EDone) (cas_tail l p s))"
| "enqueue_pc _ t s = None"

fun dequeue_pc :: "mspc \<Rightarrow> tid \<Rightarrow> msq \<Rightarrow> msq option" where
  "dequeue_pc DReadHead t s = Some (go t (DReadTail (ms_head s)) s)"
| "dequeue_pc (DReadTail f) t s = Some (go t (DReadNext f (ms_tail s)) s)"
| "dequeue_pc (DReadNext f l) t s = Some (go t (DCheck f l (n_next (ms_heap s f))) s)"
| "dequeue_pc (DCheck f l n) t s =
     Some (if f = ms_head s
           then (if f = l
                 then (case n of None \<Rightarrow> go t (QRet (-1)) s | Some nx \<Rightarrow> go t (DHelp l nx) s)
                 else go t (DValue f n) s)
           else go t DReadHead s)"
| "dequeue_pc (DHelp l nx) t s = Some (go t DReadHead (cas_tail l nx s))"
| "dequeue_pc (DValue f n) t s =
     Some (case n of None \<Rightarrow> s\<lparr>ms_fault := True\<rparr> | Some nx \<Rightarrow> go t (DCas f nx (n_value (ms_heap s nx))) s)"
| "dequeue_pc (DCas f nx v) t s =
     Some (if ms_head s = f then go t (QRet v) (s\<lparr>ms_head := nx\<rparr>) else go t DReadHead s)"
| "dequeue_pc _ t s = None"

fun idle_pc :: "mspc \<Rightarrow> bool" where
  "idle_pc QIdle = True"
| "idle_pc EDone = True"
| "idle_pc (QRet _) = True"
| "idle_pc _ = False"

fun msstep :: "qev \<Rightarrow> msq \<Rightarrow> msq option" where
  "msstep (EnqBegin t arg) s = (if idle_pc (ms_pc s t) \<and> \<not> ms_fault s then Some (enqueue_begin t arg s) else None)"
| "msstep (DeqBegin t) s = (if idle_pc (ms_pc s t) \<and> \<not> ms_fault s then Some (go t DReadHead s) else None)"
| "msstep (QRun t) s =
     (if ms_fault s then None
      else case enqueue_pc (ms_pc s t) t s of Some s' \<Rightarrow> Some s' | None \<Rightarrow> dequeue_pc (ms_pc s t) t s)"

text \<open>
  The put takes effect when the node is linked, the get when \<open>head\<close> moves.
\<close>

fun mslin :: "qev \<Rightarrow> msq \<Rightarrow> int qact option" where
  "mslin (QRun t) s =
     (case ms_pc s t of
        ECasNext arg p l \<Rightarrow> if n_next (ms_heap s l) = None then Some (Put arg) else None
      | DCas f nx v \<Rightarrow> if ms_head s = f then Some (Got v) else None
      | _ \<Rightarrow> None)"
| "mslin _ s = None"

fun ms_walk :: "nat \<Rightarrow> (nat \<Rightarrow> msnode) \<Rightarrow> nat option \<Rightarrow> int list" where
  "ms_walk 0 h x = []"
| "ms_walk (Suc n) h None = []"
| "ms_walk (Suc n) h (Some p) = n_value (h p) # ms_walk n h (n_next (h p))"

definition ms_content :: "msq \<Rightarrow> int list" where
  "ms_content s = ms_walk (ms_brk s) (ms_heap s) (n_next (ms_heap s (ms_head s)))"

section \<open>The invariant\<close>

text \<open>
  The nodes ever linked, in order, are a list \<open>ps\<close> that only grows; \<open>head\<close> is its element
  \<open>h\<close>, \<open>tail\<close> its element \<open>k\<close>, and \<open>h\<close> never passes \<open>k\<close>.
\<close>

definition linked :: "(nat \<Rightarrow> msnode) \<Rightarrow> nat list \<Rightarrow> bool" where
  "linked hp ps \<longleftrightarrow> (\<forall>i < length ps. n_next (hp (ps ! i)) = (if Suc i < length ps then Some (ps ! Suc i) else None))"

definition ms_glob :: "msq \<Rightarrow> nat list \<Rightarrow> nat \<Rightarrow> nat \<Rightarrow> bool" where
  "ms_glob s ps h k \<longleftrightarrow> \<not> ms_fault s \<and> distinct ps \<and> (\<forall>a \<in> set ps. a < ms_brk s) \<and> linked (ms_heap s) ps \<and>
     h \<le> k \<and> k < length ps \<and> ms_head s = ps ! h \<and> ms_tail s = ps ! k"

fun ms_building :: "mspc \<Rightarrow> (int \<times> nat) option" where
  "ms_building (EReadTail arg p) = Some (arg, p)"
| "ms_building (EReadNext arg p _) = Some (arg, p)"
| "ms_building (ECheck arg p _ _) = Some (arg, p)"
| "ms_building (ECasNext arg p _) = Some (arg, p)"
| "ms_building (ECasHelp arg p _ _) = Some (arg, p)"
| "ms_building _ = None"

definition in_pool :: "msq \<Rightarrow> tid \<Rightarrow> nat \<Rightarrow> bool" where
  "in_pool s t a \<longleftrightarrow> pool_node s t \<le> a \<and> a < pool_node s t + nat (pool_node_index s t)"

definition owns :: "msq \<Rightarrow> tid \<Rightarrow> nat \<Rightarrow> bool" where
  "owns s t a \<longleftrightarrow> in_pool s t a \<or> (\<exists>v. ms_building (ms_pc s t) = Some (v, a))"

definition own_ok :: "msq \<Rightarrow> nat list \<Rightarrow> bool" where
  "own_ok s ps \<longleftrightarrow>
     (\<forall>t a. owns s t a \<longrightarrow> a < ms_brk s \<and> a \<notin> set ps) \<and>
     (\<forall>t u a. owns s t a \<longrightarrow> owns s u a \<longrightarrow> t = u) \<and>
     (\<forall>t v a. ms_building (ms_pc s t) = Some (v, a) \<longrightarrow>
        ms_heap s a = \<lparr>n_value = v, n_next = None\<rparr> \<and> \<not> in_pool s t a) \<and>
     (\<forall>t. 0 \<le> pool_node_index s t)"

fun pc_ok :: "(nat \<Rightarrow> msnode) \<Rightarrow> nat list \<Rightarrow> nat \<Rightarrow> nat \<Rightarrow> mspc \<Rightarrow> bool" where
  "pc_ok hp ps h k (EReadNext v p l) = (\<exists>j \<le> k. l = ps ! j)"
| "pc_ok hp ps h k (ECheck v p l n) =
     (\<exists>j \<le> k. l = ps ! j \<and> (n = None \<or> (Suc j < length ps \<and> n = Some (ps ! Suc j))))"
| "pc_ok hp ps h k (ECasNext v p l) = (\<exists>j \<le> k. l = ps ! j)"
| "pc_ok hp ps h k (ECasHelp v p l nx) = (\<exists>j \<le> k. l = ps ! j \<and> Suc j < length ps \<and> nx = ps ! Suc j)"
| "pc_ok hp ps h k (ESwing p l) = (\<exists>j \<le> k. l = ps ! j \<and> Suc j < length ps \<and> p = ps ! Suc j)"
| "pc_ok hp ps h k (DReadTail f) = (\<exists>i \<le> h. f = ps ! i)"
| "pc_ok hp ps h k (DReadNext f l) = (\<exists>i \<le> h. f = ps ! i \<and> (\<exists>j \<le> k. i \<le> j \<and> l = ps ! j))"
| "pc_ok hp ps h k (DCheck f l n) =
     (\<exists>i \<le> h. f = ps ! i \<and> (n = None \<or> (Suc i < length ps \<and> n = Some (ps ! Suc i))) \<and>
       (\<exists>j \<le> k. i \<le> j \<and> l = ps ! j \<and> (i < j \<longrightarrow> n = Some (ps ! Suc i))))"
| "pc_ok hp ps h k (DHelp l nx) = (\<exists>j \<le> k. l = ps ! j \<and> Suc j < length ps \<and> nx = ps ! Suc j)"
| "pc_ok hp ps h k (DValue f n) = (\<exists>i \<le> h. Suc i \<le> k \<and> f = ps ! i \<and> n = Some (ps ! Suc i))"
| "pc_ok hp ps h k (DCas f nx v) =
     (\<exists>i \<le> h. Suc i \<le> k \<and> f = ps ! i \<and> nx = ps ! Suc i \<and> v = n_value (hp (ps ! Suc i)))"
| "pc_ok hp ps h k _ = True"

definition ms_inv :: "msq \<Rightarrow> nat list \<Rightarrow> nat \<Rightarrow> nat \<Rightarrow> bool" where
  "ms_inv s ps h k \<longleftrightarrow> ms_glob s ps h k \<and> own_ok s ps \<and> (\<forall>t. pc_ok (ms_heap s) ps h k (ms_pc s t))"

definition ms_good :: "msq \<Rightarrow> bool" where
  "ms_good s \<longleftrightarrow> (\<exists>ps h k. ms_inv s ps h k)"


section \<open>Every step keeps the invariant\<close>

lemma go_simps [simp]:
  "ms_head (go t p s) = ms_head s" "ms_tail (go t p s) = ms_tail s" "ms_heap (go t p s) = ms_heap s"
  "ms_brk (go t p s) = ms_brk s" "pool_node (go t p s) = pool_node s"
  "pool_node_index (go t p s) = pool_node_index s" "ms_fault (go t p s) = ms_fault s"
  "ms_pc (go t p s) = (ms_pc s)(t := p)"
  by (simp_all add: go_def)

text \<open>What a thread knows about nodes stays true as the list grows and \<open>head\<close>, \<open>tail\<close> move on.\<close>

definition grows :: "(nat \<Rightarrow> msnode) \<Rightarrow> (nat \<Rightarrow> msnode) \<Rightarrow> nat list \<Rightarrow> nat list \<Rightarrow> bool" where
  "grows hp hp' ps ps' \<longleftrightarrow> (\<exists>xs. ps' = ps @ xs) \<and> (\<forall>a \<in> set ps. n_value (hp' a) = n_value (hp a))"

lemma grows_nth: "grows hp hp' ps ps' \<Longrightarrow> i < length ps \<Longrightarrow> ps' ! i = ps ! i \<and> length ps \<le> length ps'"
  by (auto simp: grows_def nth_append)

lemma pc_ok_mono:
  assumes "pc_ok hp ps h k p" and g: "grows hp hp' ps ps'" and k: "k < length ps" "h \<le> k" "h \<le> h'" "k \<le> k'"
  shows "pc_ok hp' ps' h' k' p"
proof -
  have n: "ps' ! i = ps ! i" if "i < length ps" for i using grows_nth [OF g that] by simp
  have l: "length ps \<le> length ps'" using grows_nth [OF g k(1)] by simp
  have v: "n_value (hp' (ps ! i)) = n_value (hp (ps ! i))" if "i < length ps" for i
    using g that by (simp add: grows_def)
  have jk: "j < length ps" "j \<le> k'" if "j \<le> k" for j using that k by simp_all
  have ih: "i < length ps" "i \<le> h'" if "i \<le> h" for i using that k by simp_all
  have A: "\<exists>j \<le> k'. x = ps' ! j" if "\<exists>j \<le> k. x = ps ! j" for x using that n jk by metis
  have B: "\<exists>j \<le> k'. x = ps' ! j \<and> Suc j < length ps' \<and> y = ps' ! Suc j"
    if "\<exists>j \<le> k. x = ps ! j \<and> Suc j < length ps \<and> y = ps ! Suc j" for x y
    using that n jk l by (metis less_le_trans)
  show ?thesis
  proof (cases p)
    case (EReadNext v p l)
    then show ?thesis using A assms(1) by simp
  next
    case (ECasNext v p l)
    then show ?thesis using A assms(1) by simp
  next
    case (ECheck v p l m)
    then show ?thesis using A [of l] B [of l "the m"] assms(1) unfolding ECheck pc_ok.simps
      by (metis option.sel)
  next
    case (ECasHelp v p l nx)
    then show ?thesis using B assms(1) by simp
  next
    case (ESwing p l)
    then show ?thesis using B assms(1) by simp
  next
    case (DHelp l nx)
    then show ?thesis using B assms(1) by simp
  next
    case (DReadTail f)
    then show ?thesis using assms(1) n ih unfolding DReadTail pc_ok.simps by metis
  next
    case (DValue f m)
    then show ?thesis using assms(1) n ih jk unfolding DValue pc_ok.simps by metis
  next
    case (DCheck f l' m)
    then obtain i j where ij: "i \<le> h" "f = ps ! i" "m = None \<or> (Suc i < length ps \<and> m = Some (ps ! Suc i))"
      "j \<le> k" "i \<le> j" "l' = ps ! j" "i < j \<longrightarrow> m = Some (ps ! Suc i)" using assms(1) by auto
    have "m = None \<or> Suc i < length ps' \<and> m = Some (ps' ! Suc i)" using ij(3) n l by auto
    moreover have "i < j \<longrightarrow> m = Some (ps' ! Suc i)" using ij(4,7) n k(1) by auto
    ultimately show ?thesis unfolding DCheck pc_ok.simps using ij n ih jk by metis
  next
    case (DCas f nx w)
    then obtain i where i: "i \<le> h" "Suc i \<le> k" "f = ps ! i" "nx = ps ! Suc i" "w = n_value (hp (ps ! Suc i))"
      using assms(1) by auto
    then show ?thesis unfolding DCas pc_ok.simps using n v ih jk [OF i(2)] by (intro exI [of _ i]) simp
  next
    case (DReadNext f l')
    then obtain i j where "i \<le> h" "f = ps ! i" "j \<le> k" "i \<le> j" "l' = ps ! j" using assms(1) by auto
    then show ?thesis unfolding DReadNext pc_ok.simps using n ih jk by metis
  qed simp_all
qed

lemma own_ok_below: "own_ok s ps \<Longrightarrow> owns s t a \<Longrightarrow> a < ms_brk s \<and> a \<notin> set ps"
  unfolding own_ok_def by blast

lemma own_ok_unique: "own_ok s ps \<Longrightarrow> owns s t a \<Longrightarrow> owns s u a \<Longrightarrow> t = u"
  unfolding own_ok_def by blast

lemma own_ok_building:
  "own_ok s ps \<Longrightarrow> ms_building (ms_pc s t) = Some (v, a) \<Longrightarrow>
     ms_heap s a = \<lparr>n_value = v, n_next = None\<rparr> \<and> \<not> in_pool s t a"
  unfolding own_ok_def by (elim conjE) simp

lemma own_ok_index: "own_ok s ps \<Longrightarrow> 0 \<le> pool_node_index s t"
  unfolding own_ok_def by (elim conjE) simp

lemmas own_okD = own_ok_below own_ok_unique own_ok_building own_ok_index

lemma own_okI:
  assumes "\<And>t a. owns s t a \<Longrightarrow> a < ms_brk s \<and> a \<notin> set ps"
    and "\<And>t u a. owns s t a \<Longrightarrow> owns s u a \<Longrightarrow> t = u"
    and "\<And>t v a. ms_building (ms_pc s t) = Some (v, a) \<Longrightarrow>
      ms_heap s a = \<lparr>n_value = v, n_next = None\<rparr> \<and> \<not> in_pool s t a"
    and "\<And>t. 0 \<le> pool_node_index s t"
  shows "own_ok s ps"
  unfolding own_ok_def using assms by simp

lemma own_ok_move:
  assumes "own_ok s ps" and "ms_pc s' = (ms_pc s)(t := p)"
    and "ms_building p = None \<or> ms_building p = ms_building (ms_pc s t)"
    and "pool_node s' = pool_node s" "pool_node_index s' = pool_node_index s" "ms_brk s' = ms_brk s"
    and "ms_heap s' = ms_heap s"
  shows "own_ok s' ps"
proof -
  have pool: "in_pool s' u a = in_pool s u a" for u a using assms(4,5) by (simp add: in_pool_def)
  have bld: "ms_building (ms_pc s u) = Some (v, a)" if "ms_building (ms_pc s' u) = Some (v, a)" for u v a
    using that assms(2,3) by (auto split: if_splits)
  have owns: "owns s u a" if "owns s' u a" for u a using that pool bld by (auto simp: owns_def)
  show ?thesis
  proof (rule own_okI)
    show "a < ms_brk s' \<and> a \<notin> set ps" if "owns s' u a" for u a
      using own_ok_below [OF assms(1) owns [OF that]] assms(6) by simp
    show "u = w" if "owns s' u a" "owns s' w a" for u w a
      using own_ok_unique [OF assms(1)] owns that by blast
    show "ms_heap s' a = \<lparr>n_value = v, n_next = None\<rparr> \<and> \<not> in_pool s' u a"
      if "ms_building (ms_pc s' u) = Some (v, a)" for u v a
      using own_ok_building [OF assms(1) bld [OF that]] pool assms(7) by simp
    show "0 \<le> pool_node_index s' u" for u using own_ok_index [OF assms(1)] assms(5) by simp
  qed
qed

lemma own_ok_same:
  "own_ok s ps \<Longrightarrow> ms_pc s' = ms_pc s \<Longrightarrow> pool_node s' = pool_node s \<Longrightarrow>
     pool_node_index s' = pool_node_index s \<Longrightarrow> ms_brk s' = ms_brk s \<Longrightarrow> ms_heap s' = ms_heap s \<Longrightarrow> own_ok s' ps"
  by (rule own_ok_move [where t = 0 and p = "ms_pc s 0"]) auto

text \<open>A step that only moves the program counter of one thread.\<close>

lemma ms_inv_go:
  assumes "ms_inv s ps h k" and "pc_ok (ms_heap s) ps h k p"
    and "ms_building p = None \<or> ms_building p = ms_building (ms_pc s t)"
  shows "ms_inv (go t p s) ps h k"
proof -
  have "own_ok (go t p s) ps" by (rule own_ok_move [where t = t and p = p and s = s]) (use assms in \<open>auto simp: ms_inv_def\<close>)
  then show ?thesis using assms by (simp add: ms_inv_def ms_glob_def)
qed

lemma ms_nth_eq: "ms_glob s ps h k \<Longrightarrow> i < length ps \<Longrightarrow> j < length ps \<Longrightarrow> ps ! i = ps ! j \<longleftrightarrow> i = j"
  by (simp add: ms_glob_def nth_eq_iff_index_eq)

lemma linked_next:
  "linked hp ps \<Longrightarrow> i < length ps \<Longrightarrow> n_next (hp (ps ! i)) = (if Suc i < length ps then Some (ps ! Suc i) else None)"
  by (simp add: linked_def)

lemma grows_refl: "grows hp hp ps ps"
  by (simp add: grows_def)

lemma ms_inv_pc: "ms_inv s ps h k \<Longrightarrow> pc_ok (ms_heap s) ps h k (ms_pc s t)"
  by (simp add: ms_inv_def)

lemma ms_inv_cas_tail:
  assumes inv: "ms_inv s ps h k" and j: "j \<le> k" "Suc j < length ps"
  shows "\<exists>k'. ms_inv (cas_tail (ps ! j) (ps ! Suc j) s) ps h k'"
proof (cases "ms_tail s = ps ! j")
  case False
  then show ?thesis using inv by (auto simp: cas_tail_def)
next
  case True
  let ?s = "s\<lparr>ms_tail := ps ! Suc j\<rparr>"
  have gl: "ms_glob s ps h k" and ow: "own_ok s ps" using inv by (simp_all add: ms_inv_def)
  then have "j = k" using True j ms_nth_eq [OF gl, of k j] by (simp add: ms_glob_def)
  then have gl': "ms_glob ?s ps h (Suc j)" using gl j by (simp add: ms_glob_def)
  have "own_ok ?s ps" by (rule own_ok_same [OF ow]) simp_all
  moreover have "pc_ok (ms_heap ?s) ps h (Suc j) (ms_pc ?s t)" for t
    using pc_ok_mono [OF ms_inv_pc [OF inv, of t] grows_refl, of h "Suc j"] gl \<open>j = k\<close> by (simp add: ms_glob_def)
  ultimately show ?thesis using gl' True by (auto simp: ms_inv_def cas_tail_def)
qed

lemma ms_inv_link:
  assumes inv: "ms_inv s ps h k" and pc: "ms_pc s t = ECasNext v p l" and free: "n_next (ms_heap s l) = None"
  shows "ms_inv (go t (ESwing p l) (s\<lparr>ms_heap := (ms_heap s)(l := (ms_heap s l)\<lparr>n_next := Some p\<rparr>)\<rparr>)) (ps @ [p]) h k"
    (is "ms_inv ?s ?ps h k")
proof -
  have gl: "ms_glob s ps h k" and ow: "own_ok s ps" and ok: "\<And>t. pc_ok (ms_heap s) ps h k (ms_pc s t)"
    using inv by (simp_all add: ms_inv_def)
  obtain j where j: "j \<le> k" "l = ps ! j" using ok [of t] pc by auto
  have jl: "j < length ps" using j gl by (simp add: ms_glob_def)
  have last: "Suc j = length ps"
    using linked_next [of "ms_heap s" ps j] gl jl j(2) free by (auto simp: ms_glob_def split: if_splits)
  have lin: "l \<in> set ps" using j jl by simp
  have own_t: "owns s t p" using pc by (auto simp: owns_def)
  then have p: "p < ms_brk s" "p \<notin> set ps" using own_ok_below [OF ow] by auto
  have hp: "ms_heap s p = \<lparr>n_value = v, n_next = None\<rparr>" and np: "\<not> in_pool s t p"
    using own_ok_building [OF ow, of t v p] pc by simp_all
  have "linked (ms_heap ?s) ?ps"
    unfolding linked_def
  proof (intro allI impI)
    fix i assume i: "i < length ?ps"
    consider "i < j" | "i = j" | "i = length ps" using i last by fastforce
    then show "n_next (ms_heap ?s (?ps ! i)) = (if Suc i < length ?ps then Some (?ps ! Suc i) else None)"
    proof cases
      case 1
      then have "ps ! i \<noteq> l" using j jl ms_nth_eq [OF gl, of i j] by simp
      then show ?thesis using 1 last linked_next [of "ms_heap s" ps i] gl by (simp add: nth_append ms_glob_def)
    next
      case 2
      then show ?thesis using j jl last by (simp add: nth_append)
    next
      case 3
      then show ?thesis using p(2) lin hp by (auto simp: nth_append)
    qed
  qed
  then have gl': "ms_glob ?s ?ps h k" using gl p by (auto simp: ms_glob_def nth_append)
  have bld: "ms_building (ms_pc s u) = Some (w, a) \<and> u \<noteq> t" if "ms_building (ms_pc ?s u) = Some (w, a)" for u w a
    using that by (auto split: if_splits)
  have pool: "in_pool ?s u a = in_pool s u a" for u a by (simp add: in_pool_def)
  have owns': "owns s u a \<and> a \<noteq> p" if "owns ?s u a" for u a
  proof -
    have o: "owns s u a" using that bld unfolding owns_def pool by blast
    moreover have "a \<noteq> p"
    proof
      assume "a = p"
      then have "u = t" using o own_t own_ok_unique [OF ow] by blast
      then show False using that \<open>a = p\<close> np bld unfolding owns_def pool by blast
    qed
    ultimately show ?thesis ..
  qed
  have "own_ok ?s ?ps"
  proof (rule own_okI)
    show "a < ms_brk ?s \<and> a \<notin> set ?ps" if "owns ?s u a" for u a
      using owns' [OF that] own_ok_below [OF ow] by auto
    show "u = w" if "owns ?s u a" "owns ?s w a" for u w a
      using owns' [OF that(1)] owns' [OF that(2)] own_ok_unique [OF ow] by blast
    show "ms_heap ?s a = \<lparr>n_value = w, n_next = None\<rparr> \<and> \<not> in_pool ?s u a"
      if "ms_building (ms_pc ?s u) = Some (w, a)" for u w a
    proof -
      have "owns s u a" using bld [OF that] unfolding owns_def by blast
      then have "a \<noteq> l" using own_ok_below [OF ow] lin by blast
      then show ?thesis using own_ok_building [OF ow conjunct1 [OF bld [OF that]]] pool by simp
    qed
    show "0 \<le> pool_node_index ?s u" for u using own_ok_index [OF ow] by simp
  qed
  moreover have "pc_ok (ms_heap ?s) ?ps h k (ms_pc ?s u)" for u
  proof (cases "u = t")
    case True
    then show ?thesis using j jl last by (auto simp: nth_append intro!: exI [of _ j])
  next
    case False
    have "grows (ms_heap s) (ms_heap ?s) ps ?ps" by (simp add: grows_def)
    from pc_ok_mono [OF ok [of u] this] False gl show ?thesis by (simp add: ms_glob_def)
  qed
  ultimately show ?thesis using gl' by (simp add: ms_inv_def)
qed

lemma ms_inv_unlink:
  assumes inv: "ms_inv s ps h k" and i: "i \<le> h" "Suc i \<le> k" and hd: "ms_head s = ps ! i"
  shows "i = h \<and> ms_inv (go t (QRet v) (s\<lparr>ms_head := ps ! Suc i\<rparr>)) ps (Suc i) k"
proof -
  let ?s = "s\<lparr>ms_head := ps ! Suc i\<rparr>"
  have gl: "ms_glob s ps h k" and ow: "own_ok s ps" using inv by (simp_all add: ms_inv_def)
  then have "i = h" using hd i ms_nth_eq [OF gl, of h i] by (simp add: ms_glob_def)
  then have gl': "ms_glob ?s ps (Suc i) k" using gl i by (simp add: ms_glob_def)
  have "own_ok ?s ps" by (rule own_ok_same [OF ow]) simp_all
  moreover have "pc_ok (ms_heap ?s) ps (Suc i) k (ms_pc ?s u)" for u
    using pc_ok_mono [OF ms_inv_pc [OF inv, of u] grows_refl, of "Suc i" k] gl \<open>i = h\<close> by (simp add: ms_glob_def)
  ultimately have "ms_inv ?s ps (Suc i) k" using gl' by (simp add: ms_inv_def)
  from ms_inv_go [OF this] \<open>i = h\<close> show ?thesis by simp
qed


lemma pool_refill_inv:
  assumes inv: "ms_inv s ps h k" and idle: "idle_pc (ms_pc s t)"
  shows "ms_inv (pool_refill t s) ps h k \<and> 0 < pool_node_index (pool_refill t s) t \<and>
    ms_pc (pool_refill t s) = ms_pc s"
proof (cases "pool_node_index s t - 1 < 0")
  case False
  then show ?thesis using inv by (simp add: pool_refill_def)
next
  case True
  let ?s = "pool_refill t s"
  have gl: "ms_glob s ps h k" and ow: "own_ok s ps" using inv by (simp_all add: ms_inv_def)
  have eq: "ms_pc ?s = ms_pc s" "ms_heap ?s = ms_heap s" "ms_head ?s = ms_head s" "ms_tail ?s = ms_tail s"
    "ms_fault ?s = ms_fault s" "ms_brk ?s = ms_brk s + 1024" "pool_node_index ?s = (pool_node_index s)(t := 1024)"
    "pool_node ?s = (pool_node s)(t := ms_brk s)"
    using True by (simp_all add: pool_refill_def POOL_SIZE_def)
  have pool: "in_pool ?s u a \<longleftrightarrow> (if u = t then ms_brk s \<le> a \<and> a < ms_brk s + 1024 else in_pool s u a)" for u a
    unfolding in_pool_def eq by auto
  have "ms_building (ms_pc s t) = None" using idle by (cases "ms_pc s t") simp_all
  then have owns: "owns ?s u a \<longleftrightarrow> (if u = t then ms_brk s \<le> a \<and> a < ms_brk s + 1024 else owns s u a)" for u a
    unfolding owns_def pool eq by auto
  have below: "a < ms_brk s" if "a \<in> set ps" for a using gl that by (simp add: ms_glob_def)
  have "own_ok ?s ps"
  proof (rule own_okI)
    show "a < ms_brk ?s \<and> a \<notin> set ps" if "owns ?s u a" for u a
      using that own_ok_below [OF ow, of u a] below [of a] unfolding owns eq by (auto split: if_splits)
    show "u = w" if "owns ?s u a" "owns ?s w a" for u w a
      using that own_ok_below [OF ow, of u a] own_ok_below [OF ow, of w a] own_ok_unique [OF ow, of u a w]
      unfolding owns by (auto split: if_splits)
    show "ms_heap ?s a = \<lparr>n_value = v, n_next = None\<rparr> \<and> \<not> in_pool ?s u a"
      if "ms_building (ms_pc ?s u) = Some (v, a)" for u v a
    proof -
      have b: "ms_building (ms_pc s u) = Some (v, a)" using that eq by simp
      then have "u \<noteq> t" using \<open>ms_building (ms_pc s t) = None\<close> by auto
      then show ?thesis using own_ok_building [OF ow b] unfolding pool eq by simp
    qed
    show "0 \<le> pool_node_index ?s u" for u using own_ok_index [OF ow] unfolding eq by simp
  qed
  moreover have "ms_glob ?s ps h k" using gl below unfolding ms_glob_def eq by (auto intro: trans_less_add1)
  ultimately show ?thesis using inv unfolding ms_inv_def eq by simp
qed

lemma enqueue_begin_inv:
  assumes inv0: "ms_inv s0 ps h k" and idle: "idle_pc (ms_pc s0 t)"
  shows "ms_inv (enqueue_begin t arg s0) ps h k"
proof -
  let ?r = "pool_refill t s0"
  obtain s where s: "s = ?r" by blast
  have inv: "ms_inv s ps h k" and pos: "0 < pool_node_index s t" and pc: "ms_pc s = ms_pc s0"
    using pool_refill_inv [OF inv0 idle] s by simp_all
  let ?i = "pool_node_index s t - 1"
  obtain p where p: "p = pool_node s t + nat ?i" by blast
  let ?m = "s\<lparr>pool_node_index := (pool_node_index s)(t := ?i), ms_heap := (ms_heap s)(p := \<lparr>n_value = arg, n_next = None\<rparr>)\<rparr>"
  let ?s = "go t (EReadTail arg p) ?m"
  have step: "enqueue_begin t arg s0 = ?s" by (simp add: enqueue_begin_def Let_def p s)
  have gl: "ms_glob s ps h k" and ow: "own_ok s ps" using inv by (simp_all add: ms_inv_def)
  have bt: "ms_building (ms_pc s t) = None" using idle pc by (cases "ms_pc s t") simp_all
  have pool: "in_pool ?s u a \<longleftrightarrow> in_pool s u a \<and> \<not> (u = t \<and> a = p)" for u a
    using pos by (auto simp: in_pool_def p)
  have pin: "in_pool s t p" using pos by (simp add: in_pool_def p)
  then have pt: "owns s t p" by (simp add: owns_def)
  have bld: "ms_building (ms_pc ?s u) = (if u = t then Some (arg, p) else ms_building (ms_pc s u))" for u by simp
  have owns: "owns ?s u a \<longleftrightarrow> owns s u a" for u a
    unfolding owns_def pool bld using pin bt by auto
  have out: "p \<notin> set ps" using own_ok_below [OF ow pt] by simp
  have heap: "ms_heap ?s a = ms_heap s a" if "a \<noteq> p" for a using that by simp
  have "own_ok ?s ps"
  proof (rule own_okI)
    show "a < ms_brk ?s \<and> a \<notin> set ps" if "owns ?s u a" for u a
      using own_ok_below [OF ow] that owns by simp
    show "u = w" if "owns ?s u a" "owns ?s w a" for u w a
      using own_ok_unique [OF ow] that owns by blast
    show "ms_heap ?s a = \<lparr>n_value = v, n_next = None\<rparr> \<and> \<not> in_pool ?s u a"
      if "ms_building (ms_pc ?s u) = Some (v, a)" for u v a
    proof (cases "u = t")
      case True
      then show ?thesis using that pool by simp
    next
      case False
      then have b: "ms_building (ms_pc s u) = Some (v, a)" using that by simp
      then have "owns s u a" by (simp add: owns_def)
      then have "a \<noteq> p" using own_ok_unique [OF ow pt] False by blast
      then show ?thesis using own_ok_building [OF ow b] pool by simp
    qed
    show "0 \<le> pool_node_index ?s u" for u using own_ok_index [OF ow, of u] pos by simp
  qed
  moreover have "linked (ms_heap ?s) ps" using gl out by (auto simp: ms_glob_def linked_def)
  then have "ms_glob ?s ps h k" using gl by (simp add: ms_glob_def)
  moreover have "pc_ok (ms_heap ?s) ps h k (ms_pc ?s u)" for u
  proof -
    have "grows (ms_heap s) (ms_heap ?s) ps ps" using out by (auto simp: grows_def)
    from pc_ok_mono [OF ms_inv_pc [OF inv, of u] this, of h k] gl show ?thesis by (simp add: ms_glob_def)
  qed
  ultimately show ?thesis unfolding step by (simp add: ms_inv_def)
qed

section \<open>The queue as a list\<close>

lemma ms_walk_linked:
  "linked hp ps \<Longrightarrow> i \<le> length ps \<Longrightarrow> length ps - i < n \<Longrightarrow>
     ms_walk n hp (if i < length ps then Some (ps ! i) else None) = map (\<lambda>a. n_value (hp a)) (drop i ps)"
proof (induction n arbitrary: i)
  case 0
  then show ?case by simp
next
  case (Suc n)
  show ?case
  proof (cases "i < length ps")
    case True
    have "ms_walk n hp (if Suc i < length ps then Some (ps ! Suc i) else None) = map (\<lambda>a. n_value (hp a)) (drop (Suc i) ps)"
      using Suc True by (intro Suc.IH) auto
    then show ?thesis using True linked_next [OF Suc.prems(1) True] by (simp add: Cons_nth_drop_Suc [symmetric])
  qed simp
qed

lemma distinct_below: "distinct ps \<Longrightarrow> \<forall>a \<in> set ps. a < n \<Longrightarrow> length ps \<le> n"
proof -
  assume "distinct ps" "\<forall>a \<in> set ps. a < n"
  then have "card (set ps) \<le> card {..<n}" by (intro card_mono) auto
  then show ?thesis using \<open>distinct ps\<close> by (simp add: distinct_card)
qed

lemma ms_content_eq:
  assumes "ms_inv s ps h k"
  shows "ms_content s = map (\<lambda>a. n_value (ms_heap s a)) (drop (Suc h) ps)"
proof -
  have gl: "ms_glob s ps h k" using assms by (simp add: ms_inv_def)
  then have h: "h < length ps" and l: "linked (ms_heap s) ps" and hd: "ms_head s = ps ! h" by (simp_all add: ms_glob_def)
  have "length ps \<le> ms_brk s" using gl by (intro distinct_below) (simp_all add: ms_glob_def)
  then have "ms_walk (ms_brk s) (ms_heap s) (if Suc h < length ps then Some (ps ! Suc h) else None)
      = map (\<lambda>a. n_value (ms_heap s a)) (drop (Suc h) ps)"
    using h by (intro ms_walk_linked [OF l]) auto
  then show ?thesis unfolding ms_content_def hd linked_next [OF l h] .
qed

lemma ms_content_grows:
  assumes "ms_inv s ps h k" "ms_inv s' ps h k'" "grows (ms_heap s) (ms_heap s') ps ps"
  shows "ms_content s' = ms_content s"
  unfolding ms_content_eq [OF assms(1)] ms_content_eq [OF assms(2)]
  using assms(3) by (auto simp: grows_def dest: in_set_dropD)


text \<open>What a step does: the invariant, and its effect on the abstract queue.\<close>

definition step_fine :: "int qact option \<Rightarrow> msq \<Rightarrow> msq \<Rightarrow> bool" where
  "step_fine a s s' \<longleftrightarrow> ms_good s' \<and>
     (case a of None \<Rightarrow> ms_content s' = ms_content s
      | Some x \<Rightarrow> fifo_step x (ms_content s) = Some (ms_content s'))"

lemma step_fine_same:
  "ms_inv s ps h k \<Longrightarrow> ms_inv s' ps h k' \<Longrightarrow> grows (ms_heap s) (ms_heap s') ps ps \<Longrightarrow> step_fine None s s'"
  using ms_content_grows by (auto simp: step_fine_def ms_good_def)

lemma step_fine_go:
  "ms_inv s ps h k \<Longrightarrow> pc_ok (ms_heap s) ps h k p \<Longrightarrow>
     ms_building p = None \<or> ms_building p = ms_building (ms_pc s t) \<Longrightarrow> step_fine None s (go t p s)"
  by (rule step_fine_same) (auto intro: ms_inv_go simp: grows_def)

lemma ms_building_cas [simp]: "ms_pc (cas_tail l nx s) = ms_pc s" "ms_heap (cas_tail l nx s) = ms_heap s"
  by (simp_all add: cas_tail_def)

lemma step_fine_help:
  assumes inv: "ms_inv s ps h k" and j: "\<exists>j \<le> k. l = ps ! j \<and> Suc j < length ps \<and> nx = ps ! Suc j"
    and b: "ms_building p = None \<or> ms_building p = ms_building (ms_pc s t)"
    and p: "\<And>k'. pc_ok (ms_heap s) ps h k' p"
  shows "step_fine None s (go t p (cas_tail l nx s))"
proof -
  obtain k' where "ms_inv (cas_tail l nx s) ps h k'" using ms_inv_cas_tail [OF inv] j by blast
  then have "ms_inv (go t p (cas_tail l nx s)) ps h k'" by (rule ms_inv_go) (use b p in simp_all)
  from step_fine_same [OF inv this] show ?thesis by (simp add: grows_def)
qed

lemma step_fine_link:
  assumes inv: "ms_inv s ps h k" and pc: "ms_pc s t = ECasNext v p l" and free: "n_next (ms_heap s l) = None"
  shows "step_fine (Some (Put v)) s
     (go t (ESwing p l) (s\<lparr>ms_heap := (ms_heap s)(l := (ms_heap s l)\<lparr>n_next := Some p\<rparr>)\<rparr>))" (is "step_fine _ s ?s")
proof -
  note inv' = ms_inv_link [OF inv pc free]
  have gl: "ms_glob s ps h k" and ow: "own_ok s ps" using inv by (simp_all add: ms_inv_def)
  have "h < length ps" using gl by (simp add: ms_glob_def)
  moreover have "n_value (ms_heap s p) = v" using own_ok_building [OF ow, of t v p] pc by simp
  ultimately have "ms_content ?s = ms_content s @ [v]"
    unfolding ms_content_eq [OF inv] ms_content_eq [OF inv'] by auto
  then show ?thesis using inv' by (auto simp: step_fine_def ms_good_def)
qed

lemma step_fine_unlink:
  assumes inv: "ms_inv s ps h k" and pc: "ms_pc s t = DCas f nx v" and hd: "ms_head s = f"
  shows "step_fine (Some (Got v)) s (go t (QRet v) (s\<lparr>ms_head := nx\<rparr>))" (is "step_fine _ s ?s")
proof -
  have gl: "ms_glob s ps h k" using inv by (simp add: ms_inv_def)
  obtain i where i: "i \<le> h" "Suc i \<le> k" "f = ps ! i" "nx = ps ! Suc i" "v = n_value (ms_heap s (ps ! Suc i))"
    using ms_inv_pc [OF inv, of t] pc by auto
  have r: "i = h" "ms_inv ?s ps (Suc i) k"
    using ms_inv_unlink [OF inv i(1,2), of t v] hd i by auto
  have "Suc h < length ps" using gl i r by (simp add: ms_glob_def)
  then have "ms_content s = v # ms_content ?s"
    unfolding ms_content_eq [OF inv] ms_content_eq [OF r(2)] using i r by (simp add: Cons_nth_drop_Suc [symmetric])
  then show ?thesis using r by (auto simp: step_fine_def ms_good_def)
qed

lemma enqueue_pc_fine:
  assumes inv: "ms_inv s ps h k" and run: "enqueue_pc (ms_pc s t) t s = Some s'"
  shows "step_fine (mslin (QRun t) s) s s'"
proof -
  have gl: "ms_glob s ps h k" using inv by (simp add: ms_inv_def)
  then have tl: "\<exists>j \<le> k. ms_tail s = ps ! j" and k: "k < length ps" and lk: "linked (ms_heap s) ps"
    by (auto simp: ms_glob_def)
  note ok = ms_inv_pc [OF inv, of t] and move = step_fine_go [OF inv]
  show ?thesis
  proof (cases "ms_pc s t")
    case (EReadTail v p)
    then show ?thesis using run move [of "EReadNext v p (ms_tail s)" t] tl by auto
  next
    case (EReadNext v p l)
    then obtain j where j: "j \<le> k" "l = ps ! j" using ok by auto
    then have "n_next (ms_heap s l) = (if Suc j < length ps then Some (ps ! Suc j) else None)"
      using linked_next [OF lk, of j] k by simp
    then have "pc_ok (ms_heap s) ps h k (ECheck v p l (n_next (ms_heap s l)))"
      unfolding pc_ok.simps using j by metis
    then show ?thesis using EReadNext run move [of "ECheck v p l (n_next (ms_heap s l))" t] by auto
  next
    case (ECheck v p l n)
    have "pc_ok (ms_heap s) ps h k (ECasNext v p l)" using ok ECheck by auto
    moreover have "pc_ok (ms_heap s) ps h k (ECasHelp v p l nx)" if "n = Some nx" for nx using ok ECheck that by auto
    moreover have "pc_ok (ms_heap s) ps h k (EReadTail v p)" by simp
    ultimately have "step_fine None s (go t (ECasNext v p l) s)" "step_fine None s (go t (EReadTail v p) s)"
      "n = Some nx \<Longrightarrow> step_fine None s (go t (ECasHelp v p l nx) s)" for nx
      using move ECheck by simp_all
    then show ?thesis using run ECheck by (auto split: option.splits if_splits)
  next
    case (ECasNext v p l)
    then show ?thesis using run step_fine_link [OF inv ECasNext] move by auto
  next
    case (ECasHelp v p l nx)
    then show ?thesis using run ok step_fine_help [OF inv, of l nx "EReadTail v p" t] by auto
  next
    case (ESwing p l)
    then show ?thesis using run ok step_fine_help [OF inv, of l p "EDone" t] by auto
  qed (use run in simp_all)
qed

lemma dequeue_pc_fine:
  assumes inv: "ms_inv s ps h k" and run: "dequeue_pc (ms_pc s t) t s = Some s'"
  shows "step_fine (mslin (QRun t) s) s s'"
proof -
  have gl: "ms_glob s ps h k" using inv by (simp add: ms_inv_def)
  then have tl: "ms_tail s = ps ! k" and hd: "ms_head s = ps ! h" and k: "k < length ps" "h \<le> k" and lk: "linked (ms_heap s) ps"
    by (auto simp: ms_glob_def)
  note ok = ms_inv_pc [OF inv, of t] and move = step_fine_go [OF inv]
  show ?thesis
  proof (cases "ms_pc s t")
    case DReadHead
    then show ?thesis using run move [of "DReadTail (ms_head s)" t] hd by auto
  next
    case (DReadTail f)
    then obtain i where "i \<le> h" "f = ps ! i" using ok by auto
    then have "pc_ok (ms_heap s) ps h k (DReadNext f (ms_tail s))"
      unfolding pc_ok.simps using tl k by (metis order_refl order_trans)
    then show ?thesis using DReadTail run move [of "DReadNext f (ms_tail s)" t] by auto
  next
    case (DReadNext f l)
    then obtain i j where ij: "i \<le> h" "f = ps ! i" "j \<le> k" "i \<le> j" "l = ps ! j" using ok by auto
    then have "n_next (ms_heap s f) = (if Suc i < length ps then Some (ps ! Suc i) else None)"
      using linked_next [OF lk, of i] k by simp
    then have "n_next (ms_heap s f) = None \<or> Suc i < length ps \<and> n_next (ms_heap s f) = Some (ps ! Suc i)"
      and "i < j \<longrightarrow> n_next (ms_heap s f) = Some (ps ! Suc i)" using ij k by simp_all
    then have "pc_ok (ms_heap s) ps h k (DCheck f l (n_next (ms_heap s f)))"
      unfolding pc_ok.simps using ij by blast
    then show ?thesis using DReadNext run move [of "DCheck f l (n_next (ms_heap s f))" t] by auto
  next
    case (DCheck f l n)
    then obtain i j where ij: "i \<le> h" "f = ps ! i" "n = None \<or> (Suc i < length ps \<and> n = Some (ps ! Suc i))"
      "j \<le> k" "i \<le> j" "l = ps ! j" "i < j \<longrightarrow> n = Some (ps ! Suc i)" using ok by auto
    have "pc_ok (ms_heap s) ps h k (DHelp l nx)" if "f = l" "n = Some nx" for nx
    proof -
      have "i = j" using that ij k ms_nth_eq [OF gl, of i j] by simp
      then show ?thesis using that ij by auto
    qed
    moreover have "pc_ok (ms_heap s) ps h k (DValue f n)" if "f \<noteq> l"
    proof -
      have "i < j" using that ij by (cases "i = j") auto
      then show ?thesis using ij by (auto intro!: exI [of _ i])
    qed
    ultimately have "f = l \<Longrightarrow> n = Some nx \<Longrightarrow> step_fine None s (go t (DHelp l nx) s)"
      "f \<noteq> l \<Longrightarrow> step_fine None s (go t (DValue f n) s)" for nx
      using move [of "DHelp l nx" t] move [of "DValue f n" t] by (simp_all del: pc_ok.simps)
    moreover have "step_fine None s (go t DReadHead s)" "step_fine None s (go t (QRet v) s)" for v
      using move by simp_all
    ultimately show ?thesis using DCheck run by (auto split: if_splits option.splits)
  next
    case (DHelp l nx)
    then show ?thesis using run ok step_fine_help [OF inv, of l nx DReadHead t] by auto
  next
    case (DValue f n)
    then obtain i where i: "i \<le> h" "Suc i \<le> k" "f = ps ! i" "n = Some (ps ! Suc i)" using ok by auto
    let ?p = "DCas f (ps ! Suc i) (n_value (ms_heap s (ps ! Suc i)))"
    have "pc_ok (ms_heap s) ps h k ?p" using i by auto
    then have "step_fine None s (go t ?p s)" using move [of ?p t] by simp
    then show ?thesis using DValue run i by simp
  next
    case (DCas f nx v)
    then show ?thesis using run step_fine_unlink [OF inv DCas] move by (auto split: if_splits)
  qed (use run in simp_all)
qed

lemma msstep_fine: "ms_good s \<Longrightarrow> msstep e s = Some s' \<Longrightarrow> step_fine (mslin e s) s s'"
proof -
  assume "ms_good s" and step: "msstep e s = Some s'"
  then obtain ps h k where inv: "ms_inv s ps h k" by (auto simp: ms_good_def)
  show ?thesis
  proof (cases e)
    case (EnqBegin t v)
    then have idle: "idle_pc (ms_pc s t)" and s': "s' = enqueue_begin t v s" using step by (auto split: if_splits)
    note inv' = enqueue_begin_inv [OF inv idle, of v]
    have r: "ms_inv (pool_refill t s) ps h k" "0 < pool_node_index (pool_refill t s) t"
      using pool_refill_inv [OF inv idle] by simp_all
    let ?p = "pool_node (pool_refill t s) t + nat (pool_node_index (pool_refill t s) t - 1)"
    have "owns (pool_refill t s) t ?p" using r(2) by (simp add: owns_def in_pool_def)
    then have "?p \<notin> set ps" using own_ok_below [of "pool_refill t s" ps t ?p] r(1) unfolding ms_inv_def by blast
    moreover have "ms_heap (pool_refill t s) = ms_heap s" by (simp add: pool_refill_def)
    ultimately have "grows (ms_heap s) (ms_heap (enqueue_begin t v s)) ps ps"
      by (auto simp: enqueue_begin_def Let_def grows_def)
    then show ?thesis using step_fine_same [OF inv inv'] EnqBegin s' by simp
  next
    case (DeqBegin t)
    then show ?thesis using step step_fine_go [OF inv, of DReadHead t] by (auto split: if_splits)
  next
    case (QRun t)
    then show ?thesis using step enqueue_pc_fine [OF inv, of t s'] dequeue_pc_fine [OF inv, of t s']
      by (auto split: if_splits option.splits)
  qed
qed

lemma step_fineD:
  "step_fine a s s' \<Longrightarrow> ms_good s'"
  "step_fine a s s' \<Longrightarrow> a = None \<Longrightarrow> ms_content s' = ms_content s"
  "step_fine a s s' \<Longrightarrow> a = Some x \<Longrightarrow> fifo_step x (ms_content s) = Some (ms_content s')"
  by (auto simp: step_fine_def)

interpretation msq: lin_machine msstep ms_good mslin ms_content
  by unfold_locales (use msstep_fine step_fineD in blast)+

lemma ms_init_inv: "ms_inv (ms_init h) [0] 0 0"
proof -
  have "own_ok (ms_init h) [0]" by (rule own_okI) (simp_all add: ms_init_def owns_def in_pool_def)
  then show ?thesis by (simp add: ms_inv_def ms_glob_def ms_init_def linked_def)
qed

lemma ms_init_good: "ms_good (ms_init h)" and ms_init_content [simp]: "ms_content (ms_init h) = []"
  using ms_init_inv [of h] by (auto simp: ms_good_def ms_content_eq [OF ms_init_inv])


section \<open>Properties of the queue\<close>

definition demo_ms_run :: "qev list" where
  "demo_ms_run =
     [EnqBegin 1 5, QRun 1, QRun 1, QRun 1, QRun 1,    \<comment> \<open>thread 1 has linked 5, \<open>tail\<close> lags behind\<close>
      EnqBegin 2 6, QRun 2, QRun 2, QRun 2, QRun 2,    \<comment> \<open>thread 2 helps \<open>tail\<close> along\<close>
      QRun 2, QRun 2, QRun 2, QRun 2, QRun 2,          \<comment> \<open>and links 6\<close>
      DeqBegin 3, QRun 3, QRun 3, QRun 3, QRun 3, QRun 3, QRun 3]"

definition demo_ms_empty :: "qev list" where
  "demo_ms_empty = [DeqBegin 3, QRun 3, QRun 3, QRun 3]"

lemmas ms_eval = demo_ms_run_def demo_ms_empty_def ms_init_def enqueue_begin_def pool_refill_def POOL_SIZE_def
  go_def cas_tail_def Let_def

lemma demo_ms_run_ok:
  "\<exists>s. mrun msstep demo_ms_run (ms_init (\<lambda>a. \<lparr>n_value = 0, n_next = None\<rparr>)) = Some s \<and> ms_pc s 3 = QRet 5"
  by (simp add: ms_eval)

text \<open>
  (C4) The Michael-Scott queue is first in, first out under every interleaving of any number of
  threads: the values whose nodes were linked, in that order, are the values dequeued, in order,
  followed by those in the queue.
\<close>

theorem ms_fifo:
  assumes "mrun msstep es (ms_init hp) = Some s"
  shows "puts (lin_trace msstep mslin es (ms_init hp)) = gots (lin_trace msstep mslin es (ms_init hp)) @ ms_content s"
  using msq.lin_trace_order [OF ms_init_good assms] by simp

theorem ms_fifo_witness:
  "\<exists>s. mrun msstep demo_ms_run (ms_init (\<lambda>a. \<lparr>n_value = 0, n_next = None\<rparr>)) = Some s \<and>
     puts (lin_trace msstep mslin demo_ms_run (ms_init (\<lambda>a. \<lparr>n_value = 0, n_next = None\<rparr>))) =
     gots (lin_trace msstep mslin demo_ms_run (ms_init (\<lambda>a. \<lparr>n_value = 0, n_next = None\<rparr>))) @ ms_content s"
  using demo_ms_run_ok ms_fifo by blast

text \<open>A thread about to test what it read has done that read itself, and has not moved since.\<close>

lemma pc_other:
  assumes "msstep e s = Some s'" and "ms_pc s' t \<noteq> ms_pc s t"
  shows "e = QRun t \<or> e = DeqBegin t \<or> (\<exists>v. e = EnqBegin t v)"
proof (cases e)
  case (QRun u)
  have "t = u" if "enqueue_pc (ms_pc s u) u s = Some s' \<or> dequeue_pc (ms_pc s u) u s = Some s'"
    using that assms(2)
    by (cases "ms_pc s u") (auto simp: cas_tail_def split: if_splits option.splits)
  then show ?thesis using QRun assms(1) by (auto split: if_splits option.splits)
next
  case (EnqBegin u v)
  then show ?thesis using assms by (auto simp: enqueue_begin_def Let_def pool_refill_def split: if_splits)
qed (use assms in \<open>auto split: if_splits\<close>)

lemma dcheck_origin:
  "mrun msstep es s0 = Some s \<Longrightarrow> ms_pc s0 t = QIdle \<Longrightarrow> ms_pc s t = DCheck f l n \<Longrightarrow>
     \<exists>es1 es2 s1. es = es1 @ QRun t # es2 \<and> QRun t \<notin> set es2 \<and> mrun msstep es1 s0 = Some s1 \<and>
       ms_pc s1 t = DReadNext f l \<and> n = n_next (ms_heap s1 f)"
proof (induction es arbitrary: s rule: rev_induct)
  case Nil
  then show ?case by simp
next
  case (snoc e es)
  then obtain u where u: "mrun msstep es s0 = Some u" "msstep e u = Some s" by (auto simp: mrun_snoc)
  show ?case
  proof (cases "e = QRun t")
    case True
    then have "ms_pc u t = DReadNext f l \<and> n = n_next (ms_heap u f)"
      using u(2) snoc.prems(3)
      by (cases "ms_pc u t") (auto split: if_splits option.splits)
    then show ?thesis using u True by (intro exI [of _ es] exI [of _ "[]"] exI [of _ u]) simp
  next
    case False
    have "ms_pc u t = DCheck f l n"
    proof (rule ccontr)
      assume "ms_pc u t \<noteq> DCheck f l n"
      then have "ms_pc s t \<noteq> ms_pc u t" using snoc.prems(3) by simp
      from pc_other [OF u(2) this] False have "e = DeqBegin t \<or> (\<exists>v. e = EnqBegin t v)" by simp
      then show False using u(2) snoc.prems(3)
        by (auto simp: enqueue_begin_def Let_def split: if_splits)
    qed
    from snoc.IH [OF u(1) snoc.prems(2) this] obtain es1 es2 s1 where
      "es = es1 @ QRun t # es2" "QRun t \<notin> set es2" "mrun msstep es1 s0 = Some s1"
      "ms_pc s1 t = DReadNext f l" "n = n_next (ms_heap s1 f)" by blast
    then show ?thesis using False by (intro exI [of _ es1] exI [of _ "es2 @ [e]"] exI [of _ s1]) auto
  qed
qed

lemma none_read_empty:
  assumes "ms_good s" and "ms_pc s t = DReadNext f l" and "n_next (ms_heap s f) = None"
  shows "ms_content s = []"
proof -
  obtain ps h k where inv: "ms_inv s ps h k" using assms(1) by (auto simp: ms_good_def)
  then have gl: "ms_glob s ps h k" by (simp add: ms_inv_def)
  then have lk: "linked (ms_heap s) ps" and hk: "h \<le> k" "k < length ps" by (simp_all add: ms_glob_def)
  obtain i where i: "i \<le> h" "f = ps ! i" using ms_inv_pc [OF inv, of t] assms(2) by auto
  then have "\<not> Suc i < length ps" using linked_next [OF lk, of i] hk assms(3) by (auto split: if_splits)
  then show ?thesis unfolding ms_content_eq [OF inv] using i hk by simp
qed

text \<open>
  (C8) An empty answer is honest: when a \<open>dequeue\<close> returns -1 for an empty queue, the queue was
  empty at a moment within that call, namely when the thread read \<open>first->next\<close>.
\<close>

theorem ms_empty_honest:
  assumes "mrun msstep es (ms_init hp) = Some s" and "ms_pc s t = DCheck f l n"
    and "msstep (QRun t) s = Some s'" and "ms_pc s' t = QRet (-1)"
  shows "\<exists>es1 es2 s1. es = es1 @ QRun t # es2 \<and> QRun t \<notin> set es2 \<and>
    mrun msstep es1 (ms_init hp) = Some s1 \<and> ms_pc s1 t = DReadNext f l \<and> ms_content s1 = []"
proof -
  have n: "n = None" using assms(2-4) by (auto split: if_splits option.splits)
  have "ms_pc (ms_init hp) t = QIdle" by (simp add: ms_init_def)
  from dcheck_origin [OF assms(1) this assms(2)] obtain es1 es2 s1 where
    o: "es = es1 @ QRun t # es2" "QRun t \<notin> set es2" "mrun msstep es1 (ms_init hp) = Some s1"
      "ms_pc s1 t = DReadNext f l" "n = n_next (ms_heap s1 f)" by blast
  have "ms_content s1 = []"
    by (rule none_read_empty [OF msq.good_run [OF ms_init_good o(3)] o(4)]) (use o(5) n in simp)
  then show ?thesis using o by blast
qed

theorem ms_empty_honest_witness:
  "\<exists>es1 es2 s1. demo_ms_empty = es1 @ QRun 3 # es2 \<and> QRun 3 \<notin> set es2 \<and>
    mrun msstep es1 (ms_init (\<lambda>a. \<lparr>n_value = 0, n_next = None\<rparr>)) = Some s1 \<and>
    ms_pc s1 3 = DReadNext 0 0 \<and> ms_content s1 = []"
proof -
  have "\<exists>s s'. mrun msstep demo_ms_empty (ms_init (\<lambda>a. \<lparr>n_value = 0, n_next = None\<rparr>)) = Some s \<and>
      ms_pc s 3 = DCheck 0 0 None \<and> msstep (QRun 3) s = Some s' \<and> ms_pc s' 3 = QRet (-1)"
    by (simp add: ms_eval)
  then show ?thesis using ms_empty_honest by blast
qed

text \<open>
  (C10) The queue is memory-safe under every interleaving: \<open>dequeue\<close> never reads the value through
  a null \<open>next\<close>, \<open>head\<close> and \<open>tail\<close> always point to allocated nodes, and no node in
  the queue is one that a thread still holds in its pool or is about to link.
\<close>

theorem ms_safe:
  assumes "mrun msstep es (ms_init hp) = Some s"
  shows "\<not> ms_fault s \<and> ms_head s < ms_brk s \<and> ms_tail s < ms_brk s \<and>
    (\<forall>t. \<not> owns s t (ms_head s) \<and> \<not> owns s t (ms_tail s))"
proof -
  obtain ps h k where inv: "ms_inv s ps h k"
    using msq.good_run [OF ms_init_good assms] by (auto simp: ms_good_def)
  then have gl: "ms_glob s ps h k" and ow: "own_ok s ps" by (simp_all add: ms_inv_def)
  have "ms_head s \<in> set ps" "ms_tail s \<in> set ps" "\<not> ms_fault s" "\<forall>a \<in> set ps. a < ms_brk s"
    using gl by (auto simp: ms_glob_def)
  then show ?thesis using own_ok_below [OF ow] by blast
qed

theorem ms_safe_witness:
  "\<exists>s. mrun msstep demo_ms_run (ms_init (\<lambda>a. \<lparr>n_value = 0, n_next = None\<rparr>)) = Some s \<and> \<not> ms_fault s"
  using demo_ms_run_ok ms_safe by blast


section \<open>A thread running alone finishes\<close>

text \<open>
  How far \<open>tail\<close> lags behind, and how many steps a thread has at most before the next change.
  What it read is stale when other threads have moved on since; then it goes round once more.
\<close>

definition ms_lag :: "msq \<Rightarrow> nat" where
  "ms_lag s = length (ms_walk (ms_brk s) (ms_heap s) (n_next (ms_heap s (ms_tail s))))"

fun ms_stage :: "msq \<Rightarrow> mspc \<Rightarrow> nat" where
  "ms_stage s (EReadTail v p) = 35"
| "ms_stage s (EReadNext v p l) = (if l = ms_tail s then 34 else 38)"
| "ms_stage s (ECheck v p l n) = (if l = ms_tail s \<and> n = n_next (ms_heap s l) then 33 else 37)"
| "ms_stage s (ECasNext v p l) = (if n_next (ms_heap s l) = None then 32 else 36)"
| "ms_stage s (ECasHelp v p l nx) = (if l = ms_tail s then 32 else 36)"
| "ms_stage s (ESwing p l) = 1"
| "ms_stage s DReadHead = 8"
| "ms_stage s (DReadTail f) = (if f = ms_head s then 7 else 12)"
| "ms_stage s (DReadNext f l) = (if f = ms_head s \<and> l = ms_tail s then 6 else 11)"
| "ms_stage s (DCheck f l n) = (if f = ms_head s \<and> (f = l \<longrightarrow> l = ms_tail s) then 5 else 10)"
| "ms_stage s (DHelp l nx) = (if l = ms_tail s then 4 else 9)"
| "ms_stage s (DValue f n) = (if f = ms_head s then 3 else 11)"
| "ms_stage s (DCas f nx v) = (if f = ms_head s then 2 else 10)"
| "ms_stage s _ = 0"

definition ms_measure :: "msq \<Rightarrow> tid \<Rightarrow> nat" where
  "ms_measure s t = (if idle_pc (ms_pc s t) then 0 else 20 * ms_lag s + ms_stage s (ms_pc s t))"

lemma ms_lag_eq:
  assumes "ms_inv s ps h k"
  shows "ms_lag s = length ps - Suc k"
proof -
  have gl: "ms_glob s ps h k" using assms by (simp add: ms_inv_def)
  then have k: "k < length ps" and l: "linked (ms_heap s) ps" and tl: "ms_tail s = ps ! k" by (simp_all add: ms_glob_def)
  have "length ps \<le> ms_brk s" using gl by (intro distinct_below) (simp_all add: ms_glob_def)
  then have "ms_walk (ms_brk s) (ms_heap s) (if Suc k < length ps then Some (ps ! Suc k) else None)
      = map (\<lambda>a. n_value (ms_heap s a)) (drop (Suc k) ps)"
    using k by (intro ms_walk_linked [OF l]) auto
  then show ?thesis unfolding ms_lag_def tl linked_next [OF l k] by simp
qed

lemma ms_lag_go [simp]: "ms_lag (go t p s) = ms_lag s"
  by (simp add: ms_lag_def)

lemma ms_stage_go [simp]: "ms_stage (go t p s) q = ms_stage s q"
  by (cases q) simp_all

lemma ms_lag_cas_tail:
  assumes inv: "ms_inv s ps h k" and j: "\<exists>j \<le> k. l = ps ! j \<and> Suc j < length ps \<and> nx = ps ! Suc j"
  shows "ms_lag (cas_tail l nx s) = (if l = ms_tail s then ms_lag s - 1 else ms_lag s) \<and>
    (l = ms_tail s \<longrightarrow> 0 < ms_lag s)"
proof -
  obtain j where j: "j \<le> k" "l = ps ! j" "Suc j < length ps" "nx = ps ! Suc j" using j by blast
  obtain k' where inv': "ms_inv (cas_tail l nx s) ps h k'" using ms_inv_cas_tail [OF inv] j by blast
  have gl: "ms_glob s ps h k" and gl': "ms_glob (cas_tail l nx s) ps h k'" using inv inv' by (simp_all add: ms_inv_def)
  have r: "ps ! k = ms_tail s" "k < length ps" "ps ! k' = ms_tail (cas_tail l nx s)" "k' < length ps"
    using gl gl' by (simp_all add: ms_glob_def)
  show ?thesis
  proof (cases "l = ms_tail s")
    case True
    then have "j = k" "k' = Suc j"
      using r j ms_nth_eq [OF gl, of j k] ms_nth_eq [OF gl, of k' "Suc j"] by (simp_all add: cas_tail_def)
    then show ?thesis using True j ms_lag_eq [OF inv] ms_lag_eq [OF inv'] by simp
  next
    case False
    then have "cas_tail l nx s = s" by (simp add: cas_tail_def)
    then show ?thesis using False by simp
  qed
qed

lemma ms_lag_link:
  assumes inv: "ms_inv s ps h k" and pc: "ms_pc s t = ECasNext v p l" and free: "n_next (ms_heap s l) = None"
  shows "ms_lag (s\<lparr>ms_heap := (ms_heap s)(l := (ms_heap s l)\<lparr>n_next := Some p\<rparr>)\<rparr>) = Suc (ms_lag s)"
  using ms_lag_eq [OF ms_inv_link [OF inv pc free]] ms_lag_eq [OF inv] inv
  by (simp add: ms_inv_def ms_glob_def Suc_diff_Suc)

lemma enqueue_solo:
  assumes inv: "ms_inv s ps h k" and b: "ms_building (ms_pc s t) \<noteq> None \<or> (\<exists>p l. ms_pc s t = ESwing p l)"
  shows "\<exists>s'. enqueue_pc (ms_pc s t) t s = Some s' \<and> ms_measure s' t < ms_measure s t"
proof -
  have gl: "ms_glob s ps h k" using inv by (simp add: ms_inv_def)
  then have k: "k < length ps" and lk: "linked (ms_heap s) ps" by (auto simp: ms_glob_def)
  note ok = ms_inv_pc [OF inv, of t]
  show ?thesis
  proof (cases "ms_pc s t")
    case (ECheck v p l n)
    then obtain j where j: "j \<le> k" "l = ps ! j" "n = None \<or> (Suc j < length ps \<and> n = Some (ps ! Suc j))" using ok by auto
    then have "n = None \<or> n = n_next (ms_heap s l)" using linked_next [OF lk, of j] k by auto
    then show ?thesis using ECheck by (auto simp: ms_measure_def split: option.splits)
  next
    case (ECasNext v p l)
    then show ?thesis using ms_lag_link [OF inv ECasNext] by (simp add: ms_measure_def)
  next
    case (ECasHelp v p l nx)
    then show ?thesis using ms_lag_cas_tail [OF inv, of l nx] ok by (auto simp: ms_measure_def)
  qed (use b in \<open>auto simp: ms_measure_def\<close>)
qed

lemma dequeue_solo:
  assumes inv: "ms_inv s ps h k" and "\<not> idle_pc (ms_pc s t)"
    and "\<not> (ms_building (ms_pc s t) \<noteq> None \<or> (\<exists>p l. ms_pc s t = ESwing p l))"
  shows "\<exists>s'. dequeue_pc (ms_pc s t) t s = Some s' \<and> ms_measure s' t < ms_measure s t"
proof -
  note ok = ms_inv_pc [OF inv, of t]
  show ?thesis
  proof (cases "ms_pc s t")
    case (DHelp l nx)
    then show ?thesis using ms_lag_cas_tail [OF inv, of l nx] ok by (auto simp: ms_measure_def)
  next
    case (DValue f n)
    then show ?thesis using ok by (auto simp: ms_measure_def)
  qed (use assms in \<open>auto simp: ms_measure_def split: option.splits\<close>)
qed

lemma ms_solo_step:
  assumes "ms_good s" and "\<not> idle_pc (ms_pc s t)"
  shows "\<exists>s'. msstep (QRun t) s = Some s' \<and> ms_measure s' t < ms_measure s t"
proof -
  obtain ps h k where inv: "ms_inv s ps h k" using assms(1) by (auto simp: ms_good_def)
  have nf: "\<not> ms_fault s" using inv by (simp add: ms_inv_def ms_glob_def)
  show ?thesis
  proof (cases "ms_building (ms_pc s t) \<noteq> None \<or> (\<exists>p l. ms_pc s t = ESwing p l)")
    case True
    then show ?thesis using enqueue_solo [OF inv True] nf by auto
  next
    case False
    then have "enqueue_pc (ms_pc s t) t s = None" by (cases "ms_pc s t") auto
    then show ?thesis using dequeue_solo [OF inv assms(2) False] nf by auto
  qed
qed

lemma ms_solo_finishes:
  "ms_good s \<Longrightarrow> \<exists>n s'. n \<le> ms_measure s t \<and> mrun msstep (replicate n (QRun t)) s = Some s' \<and> idle_pc (ms_pc s' t)"
proof (induction "ms_measure s t" arbitrary: s rule: less_induct)
  case less
  show ?case
  proof (cases "idle_pc (ms_pc s t)")
    case True
    then show ?thesis by (intro exI [of _ 0] exI [of _ s]) simp
  next
    case False
    from ms_solo_step [OF less.prems False] obtain u where
      u: "msstep (QRun t) s = Some u" "ms_measure u t < ms_measure s t" by blast
    from less.hyps [OF u(2) msq.good_step [OF less.prems u(1)]] obtain n s' where
      "n \<le> ms_measure u t" "mrun msstep (replicate n (QRun t)) u = Some s'" "idle_pc (ms_pc s' t)" by blast
    then show ?thesis using u by (intro exI [of _ "Suc n"] exI [of _ s']) simp
  qed
qed

text \<open>
  (C7) No thread can block another: from every reachable state, wherever the other threads have
  stopped, a thread inside \<open>enqueue\<close> or \<open>dequeue\<close> that runs alone returns, after at most
  20 steps for each node that \<open>tail\<close> lags behind, plus 38.
\<close>

theorem ms_solo_terminates:
  assumes "mrun msstep es (ms_init hp) = Some s"
  shows "\<exists>n s'. n \<le> 20 * ms_lag s + 38 \<and> mrun msstep (replicate n (QRun t)) s = Some s' \<and> idle_pc (ms_pc s' t)"
proof -
  have "ms_stage s p \<le> 38" for p by (cases p) simp_all
  then have "ms_measure s t \<le> 20 * ms_lag s + 38" by (simp add: ms_measure_def)
  with ms_solo_finishes [OF msq.good_run [OF ms_init_good assms], of t] show ?thesis
    by (meson le_trans)
qed

theorem ms_solo_terminates_witness:
  "\<exists>s n s'. mrun msstep (take 9 demo_ms_run) (ms_init (\<lambda>a. \<lparr>n_value = 0, n_next = None\<rparr>)) = Some s \<and>
     mrun msstep (replicate n (QRun 2)) s = Some s' \<and> idle_pc (ms_pc s' 2)"
proof -
  have "\<exists>s. mrun msstep (take 9 demo_ms_run) (ms_init (\<lambda>a. \<lparr>n_value = 0, n_next = None\<rparr>)) = Some s"
    by (simp add: ms_eval)
  then show ?thesis using ms_solo_terminates [of "take 9 demo_ms_run" _ _ 2] by blast
qed

end
