(* ===== verification/MSServer.thy ===== *)
theory MSServer
  imports MSQueue
begin

text \<open>
  \<open>lcrq-server/ms-queue-http-server.c\<close>: the blocking layer of \<open>WaitQueue\<close> on the queue of
  \<open>MSQueue\<close>. What holds of the whole: first in, first out; no stranded socket when everyone
  sleeps; and what does not: a worker may sleep beside a queued socket.
\<close>

fun ms_pc_obs :: "mspc \<Rightarrow> qobs" where
  "ms_pc_obs QIdle = NoOp"
| "ms_pc_obs (EReadTail v p) = Enqing v"
| "ms_pc_obs (EReadNext v p l) = Enqing v"
| "ms_pc_obs (ECheck v p l n) = Enqing v"
| "ms_pc_obs (ECasNext v p l) = Enqing v"
| "ms_pc_obs (ECasHelp v p l nx) = Enqing v"
| "ms_pc_obs (ESwing p l) = Enqed"
| "ms_pc_obs EDone = Enqed"
| "ms_pc_obs (QRet v) = Deqed v"
| "ms_pc_obs _ = Deqing"

definition ms_obs :: "tid \<Rightarrow> msq \<Rightarrow> qobs" where
  "ms_obs t q = ms_pc_obs (ms_pc q t)"

text \<open>What an operation that has returned gave back; \<open>enqueue\<close> has no result.\<close>

fun ms_pc_res :: "mspc \<Rightarrow> int option" where
  "ms_pc_res EDone = Some 0"
| "ms_pc_res (QRet v) = Some v"
| "ms_pc_res _ = None"

definition ms_res :: "tid \<Rightarrow> msq \<Rightarrow> int option" where
  "ms_res t q = ms_pc_res (ms_pc q t)"

type_synonym ms_server = "msq wserver"

definition ms_server_step :: "wev \<Rightarrow> ms_server \<Rightarrow> ms_server option" where
  "ms_server_step = wstep msstep ms_res"

definition ms_server_init :: "(nat \<Rightarrow> msnode) \<Rightarrow> tid list \<Rightarrow> tid list \<Rightarrow> ms_server" where
  "ms_server_init hp main workers = w_init (ms_init hp) main workers"

definition ms_server_lin :: "wev \<Rightarrow> ms_server \<Rightarrow> int qact option" where
  "ms_server_lin = wlin ms_res mslin"

section \<open>The queue meets the layer's contract\<close>

lemma ms_bag: "ms_good q \<Longrightarrow> msstep e q = Some q' \<Longrightarrow>
    (mslin e q = None \<longrightarrow> mset (ms_content q') = mset (ms_content q)) \<and>
    (mslin e q = Some (Put v) \<longrightarrow> mset (ms_content q') = add_mset v (mset (ms_content q))) \<and>
    (mslin e q = Some (Got v) \<longrightarrow> mset (ms_content q) = add_mset v (mset (ms_content q')))"
  using msq.lin_none [of q e q'] msq.lin_some [of q e q']
  by (auto split: list.splits if_splits) (metis mset.simps(2) mset_append union_mset_add_mset_right add.right_neutral mset.simps(1))

lemma ms_run_obs:
  assumes "msstep (QRun t) q = Some q'"
  shows "(mslin (QRun t) q = None \<longrightarrow>
      ms_obs t q' = ms_obs t q \<or> (ms_obs t q = Deqing \<and> ms_obs t q' = Deqed (-1))) \<and>
    (\<forall>v. mslin (QRun t) q = Some (Put v) \<longrightarrow> ms_obs t q = Enqing v \<and> ms_obs t q' = Enqed) \<and>
    (\<forall>v. mslin (QRun t) q = Some (Got v) \<longrightarrow> ms_obs t q = Deqing \<and> ms_obs t q' = Deqed v) \<and>
    mslin (QRun t) q \<noteq> Some Empty"
  using assms by (cases "ms_pc q t") (auto simp: ms_obs_def split: if_splits option.splits)

interpretation mss: inner_fifo msstep ms_res ms_good mslin ms_obs ms_content
proof
  show "ms_good q'" if "ms_good q" "msstep e q = Some q'" for q e q'
    using that by (rule msq.good_step)
  show "ms_obs u q' = ms_obs u q"
    if "msstep e q = Some q'" "e = QRun t \<or> e = DeqBegin t \<or> e = EnqBegin t v" "u \<noteq> t" for e q q' t v u
  proof -
    have "ms_pc q' u = ms_pc q u" by (rule ccontr) (use pc_other [OF that(1), of u] that(2,3) in auto)
    then show ?thesis by (simp add: ms_obs_def)
  qed
  show "ms_obs t q' = Enqing v \<and> (mset \<circ> ms_content) q' = (mset \<circ> ms_content) q"
    if "ms_good q" "msstep (EnqBegin t v) q = Some q'" for q t v q'
    using that ms_bag [OF that] by (auto simp: ms_obs_def enqueue_begin_def Let_def split: if_splits)
  show "ms_obs t q' = Deqing \<and> (mset \<circ> ms_content) q' = (mset \<circ> ms_content) q"
    if "ms_good q" "msstep (DeqBegin t) q = Some q'" for q t q'
    using that ms_bag [OF that] by (auto simp: ms_obs_def split: if_splits)
  show "ms_obs t q = Enqed \<or> ms_obs t q = Deqed v" if "ms_res t q = Some v" for t q v
    using that by (cases "ms_pc q t") (auto simp: ms_res_def ms_obs_def)
  show "(mset \<circ> ms_content) q' = (mset \<circ> ms_content) q \<and>
      (ms_obs t q' = ms_obs t q \<or> ms_obs t q = Deqing \<and> ms_obs t q' = Deqed (-1))"
    if "ms_good q" "msstep (QRun t) q = Some q'" "mslin (QRun t) q = None" for q t q'
    using ms_bag [OF that(1,2)] ms_run_obs [OF that(2)] that(3) by simp
  show "(mset \<circ> ms_content) q' = add_mset v ((mset \<circ> ms_content) q) \<and> ms_obs t q = Enqing v \<and> ms_obs t q' = Enqed"
    if "ms_good q" "msstep (QRun t) q = Some q'" "mslin (QRun t) q = Some (Put v)" for q t q' v
    using ms_bag [OF that(1,2), of v] ms_run_obs [OF that(2)] that(3) by simp
  show "(mset \<circ> ms_content) q = add_mset v ((mset \<circ> ms_content) q') \<and> ms_obs t q = Deqing \<and> ms_obs t q' = Deqed v"
    if "ms_good q" "msstep (QRun t) q = Some q'" "mslin (QRun t) q = Some (Got v)" for q t q' v
    using ms_bag [OF that(1,2), of v] ms_run_obs [OF that(2)] that(3) by simp
  show "mslin (QRun t) q \<noteq> Some Empty" if "msstep (QRun t) q = Some q'" for q t q'
    using ms_run_obs [OF that] by simp
  show "ms_content q' = ms_content q" if "ms_good q" "msstep e q = Some q'" "mslin e q = None" for q e q'
    using that by (rule msq.lin_none)
  show "fifo_step a (ms_content q) = Some (ms_content q')"
    if "ms_good q" "msstep e q = Some q'" "mslin e q = Some a" for q e q' a
    using that by (rule msq.lin_some)
qed (use msq.good_step in auto)


lemma ms_server_start:
  "distinct (main @ workers) \<Longrightarrow> workers \<noteq> [] \<Longrightarrow>
     w_inv ms_good ms_obs (mset \<circ> ms_content) (ms_server_init hp main workers)"
  unfolding ms_server_init_def by (rule mss.w_init_inv) (simp_all add: ms_init_good)

lemma ms_server_inv:
  assumes "mrun ms_server_step es (ms_server_init hp main workers) = Some s" and "list_all put_valid es"
    and "distinct (main @ workers)" and "workers \<noteq> []"
  shows "w_inv ms_good ms_obs (mset \<circ> ms_content) s"
  using mss.w_run_inv [OF ms_server_start [OF assms(3,4)] assms(2)] assms(1) by (simp add: ms_server_step_def)

lemma ms_server_same [simp]:
  "w_main (ms_server_init hp main workers) = main" "w_workers (ms_server_init hp main workers) = workers"
  "ms_content (w_queue (ms_server_init hp main workers)) = []"
  by (simp_all add: ms_server_init_def w_init_def)

section \<open>Properties of the server's queue\<close>

definition no_nodes :: "nat \<Rightarrow> msnode" where
  "no_nodes a = \<lparr>n_value = 0, n_next = None\<rparr>"

text \<open>Two workers fall asleep, the main thread puts 7 and 8, worker 1 wakes and takes 7.\<close>

definition demo_two_workers :: "wev list" where
  "demo_two_workers =
     [WGet 1, WRun 1, WGet 2, WRun 2] @ WPut 0 7 # replicate 7 (WRun 0) @ [WWake 0 [1]] @
     WPut 0 8 # replicate 7 (WRun 0) @ replicate 9 (WRun 1)"

definition demo_third_put :: "wev list" where
  "demo_third_put = WPut 0 9 # replicate 7 (WRun 0)"

definition idle_state :: ms_server where
  "idle_state = the (mrun ms_server_step demo_two_workers (ms_server_init no_nodes [0] [1, 2]))"

lemma demo_two_workers_run:
  "map_option (\<lambda>s. (map (w_pc s) [0, 1, 2], w_main s, w_workers s, ms_content (w_queue s), w_count s))
     (mrun ms_server_step demo_two_workers (ms_server_init no_nodes [0] [1, 2])) =
   Some ([WIdle, WReturn 7, WSleep], [0], [1, 2], [8], 1)"
  by code_simp

lemma demo_third_put_run:
  "map_option (\<lambda>s. w_pc s 0) (mrun ms_server_step (demo_two_workers @ demo_third_put)
     (ms_server_init no_nodes [0] [1, 2])) = Some WIdle"
  by code_simp

text \<open>
  The server's queue is first in, first out under every interleaving of any number of main and
  worker threads, sleeping and signalling included: the sockets linked, in order, are those that
  \<open>dequeue\<close> took, in order, followed by those queued.
\<close>

lemma ms_server_fifo:
  assumes "mrun ms_server_step es (ms_server_init hp main workers) = Some s"
  shows "puts (lin_trace ms_server_step ms_server_lin es (ms_server_init hp main workers)) =
    gots (lin_trace ms_server_step ms_server_lin es (ms_server_init hp main workers)) @ ms_content (w_queue s)"
proof -
  have "ms_good (w_queue (ms_server_init hp main workers))"
    by (simp add: ms_server_init_def w_init_def ms_init_good)
  from mss.server.lin_trace_order [OF this, of es s] assms show ?thesis
    by (simp add: ms_server_step_def ms_server_lin_def)
qed

lemma ms_server_fifo_witness:
  "\<exists>s. mrun ms_server_step demo_two_workers (ms_server_init no_nodes [0] [1, 2]) = Some s \<and>
    puts (lin_trace ms_server_step ms_server_lin demo_two_workers (ms_server_init no_nodes [0] [1, 2])) =
    gots (lin_trace ms_server_step ms_server_lin demo_two_workers (ms_server_init no_nodes [0] [1, 2])) @ ms_content (w_queue s)"
  using demo_two_workers_run ms_server_fifo by fastforce

text \<open>
  (C6) Nothing is stranded when everyone sleeps: in every reachable state in which all workers are
  asleep in \<open>queue_get\<close> and no thread is inside \<open>queue_put\<close>, the queue is empty (with
  fewer than \<open>2 ^ 32\<close> sockets queued, the width of the counter). Signalling one worker only when
  the counter was 0 is enough for that.
\<close>

theorem ms_server_not_stranded:
  assumes "mrun ms_server_step es (ms_server_init hp main workers) = Some s" and "list_all put_valid es"
    and "distinct (main @ workers)" and "workers \<noteq> []" and "length (ms_content (w_queue s)) < 2 ^ 32"
    and "\<forall>t \<in> set (w_workers s). w_pc s t = WSleep" and "\<forall>t \<in> set (w_main s). w_pc s t = WIdle"
  shows "ms_content (w_queue s) = []"
  using mss.all_asleep_empty [OF ms_server_inv [OF assms(1-4)]] assms(5-7) by simp

theorem ms_server_not_stranded_witness:
  "\<exists>s. mrun ms_server_step (take 4 demo_two_workers) (ms_server_init no_nodes [0] [1, 2]) = Some s \<and>
     ms_content (w_queue s) = []"
proof -
  have "map_option (\<lambda>s. (map (w_pc s) [0, 1, 2], w_main s, w_workers s, ms_content (w_queue s)))
     (mrun ms_server_step (take 4 demo_two_workers) (ms_server_init no_nodes [0] [1, 2])) =
     Some ([WIdle, WSleep, WSleep], [0], [1, 2], [])" by code_simp
  then obtain s where s: "mrun ms_server_step (take 4 demo_two_workers) (ms_server_init no_nodes [0] [1, 2]) = Some s"
    "w_pc s 0 = WIdle" "w_pc s 1 = WSleep" "w_pc s 2 = WSleep" "w_main s = [0]" "w_workers s = [1, 2]"
    "ms_content (w_queue s) = []" by auto
  from ms_server_not_stranded [OF s(1)] s show ?thesis by (auto simp: demo_two_workers_def)
qed

text \<open>
  The counter is exact: in every reachable state the counter, plus the puts that have linked
  their node but not yet counted it, equals the number of queued sockets plus the gets that have
  taken theirs but not yet discounted it, modulo \<open>2 ^ 32\<close>.
\<close>

lemma ms_server_count:
  assumes "mrun ms_server_step es (ms_server_init hp main workers) = Some s" and "list_all put_valid es"
    and "distinct (main @ workers)" and "workers \<noteq> []"
  shows "w_count s + of_nat (adders ms_obs s) = of_nat (length (ms_content (w_queue s))) + of_nat (subbers ms_obs s)"
  using ms_server_inv [OF assms] by (simp add: w_inv_def count_ok_def)

lemma ms_server_count_witness:
  "\<exists>s. mrun ms_server_step demo_two_workers (ms_server_init no_nodes [0] [1, 2]) = Some s \<and>
    w_count s + of_nat (adders ms_obs s) = of_nat (length (ms_content (w_queue s))) + of_nat (subbers ms_obs s)"
proof -
  obtain s where s: "mrun ms_server_step demo_two_workers (ms_server_init no_nodes [0] [1, 2]) = Some s"
    using demo_two_workers_run by auto
  have "list_all put_valid demo_two_workers" by code_simp
  from ms_server_count [OF s this] s show ?thesis by simp
qed


section \<open>A worker that sleeps beside a queued socket\<close>

fun main_event :: "wev \<Rightarrow> bool" where
  "main_event (WPut _ v) = object v"
| "main_event (WRun _) = True"
| "main_event (WWake _ _) = True"
| "main_event _ = False"

fun main_pc :: "wpc \<Rightarrow> bool" where
  "main_pc WIdle = True"
| "main_pc WEnq = True"
| "main_pc WAdd = True"
| "main_pc _ = False"

text \<open>
  Worker 1 serves a connection, worker 2 sleeps, the counter is positive and nobody is about to
  signal.
\<close>

definition neglected :: "nat \<Rightarrow> ms_server \<Rightarrow> bool" where
  "neglected n s \<longleftrightarrow> w_main s = [0] \<and> w_workers s = [1, 2] \<and> w_pc s 1 = WReturn 7 \<and> w_pc s 2 = WSleep \<and>
     main_pc (w_pc s 0) \<and> (\<exists>k. 0 < k \<and> k \<le> n \<and> w_count s = of_nat k)"

lemma neglected_thread:
  "w_inv ms_good ms_obs bag s \<Longrightarrow> neglected n s \<Longrightarrow> t \<notin> {0, 1, 2} \<Longrightarrow> w_pc s t = WIdle"
  using w_thread [of ms_good ms_obs bag s t] by (auto simp: neglected_def w_threads_def)

lemma neglected_move:
  "neglected n s \<Longrightarrow> w_pc s' = (w_pc s)(0 := p) \<Longrightarrow> main_pc p \<Longrightarrow> w_main s' = w_main s \<Longrightarrow>
     w_workers s' = w_workers s \<Longrightarrow> w_count s' = w_count s \<Longrightarrow> neglected (Suc n) s'"
  unfolding neglected_def by (metis fun_upd_apply le_SucI zero_neq_numeral zero_neq_one)

lemma neglected_step:
  assumes neg: "neglected n s" and n: "n < 2 ^ 32" and inv: "w_inv ms_good ms_obs bag s"
    and e: "main_event e" and step: "ms_server_step e s = Some s'"
  shows "neglected (Suc n) s' \<and> (ms_server_lin e s = None \<or> (\<exists>v. ms_server_lin e s = Some (Put v)))"
proof (cases e)
  case (WPut t v)
  have t: "t = 0" using step WPut neg by (auto simp: ms_server_step_def neglected_def split: if_splits)
  have "neglected (Suc n) s'"
    by (rule neglected_move [OF neg, of s' WEnq])
      (use step WPut t in \<open>auto simp: ms_server_step_def w_inner_def split: if_splits option.splits\<close>)
  then show ?thesis using WPut by (simp add: ms_server_lin_def)
next
  case (WWake t ws)
  have "w_pc s t \<noteq> WSignal" using neg neglected_thread [OF inv neg, of t] by (cases "t \<in> {0, 1, 2}") (auto simp: neglected_def)
  then show ?thesis using step WWake by (simp add: ms_server_step_def)
next
  case (WRun t)
  have run: "wstep msstep ms_res (WRun t) s = Some s'" using step WRun by (simp add: ms_server_step_def)
  have "t = 0"
  proof (rule ccontr)
    assume "t \<noteq> 0"
    then have "w_pc s t = WIdle \<or> w_pc s t = WReturn 7 \<or> w_pc s t = WSleep"
      using neg neglected_thread [OF inv neg, of t] by (cases "t \<in> {0, 1, 2}") (auto simp: neglected_def)
    then show False using run by auto
  qed
  obtain k where k: "0 < k" "k \<le> n" "w_count s = of_nat k" using neg by (auto simp: neglected_def)
  then have c: "w_count s \<noteq> 0" using small_word_not_0 [of k] n by simp
  have pc0: "main_pc (w_pc s 0)" using neg by (simp add: neglected_def)
  show ?thesis
  proof (cases "w_pc s 0")
    case WEnq
    have lin: "ms_server_lin e s = (if ms_res 0 (w_queue s) = None then mslin (QRun 0) (w_queue s) else None)"
      using WRun \<open>t = 0\<close> WEnq by (simp add: ms_server_lin_def)
    have pcs: "w_pcs_ok ms_obs s" using inv by (simp add: w_inv_def)
    then have "ms_obs 0 (w_queue s) \<noteq> Deqing" using WEnq unfolding w_pcs_ok_def by (metis qobs.distinct(11,15))
    show ?thesis
    proof (cases "ms_res 0 (w_queue s)")
      case None
      then have "w_inner msstep (QRun 0) 0 WEnq s = Some s'" using run \<open>t = 0\<close> WEnq by (simp split: option.splits)
      then obtain q where q: "msstep (QRun 0) (w_queue s) = Some q" "s' = w_go 0 WEnq (s\<lparr>w_queue := q\<rparr>)"
        by (auto simp: w_inner_def split: option.splits)
      have "neglected (Suc n) s'" by (rule neglected_move [OF neg, of s' WEnq]) (simp_all add: q(2))
      moreover have "mslin (QRun 0) (w_queue s) = None \<or> (\<exists>v. mslin (QRun 0) (w_queue s) = Some (Put v))"
        using ms_run_obs [OF q(1)] \<open>ms_obs 0 (w_queue s) \<noteq> Deqing\<close>
        by (cases "mslin (QRun 0) (w_queue s)") (auto, metis qact.exhaust)
      ultimately show ?thesis using lin None by simp
    next
      case (Some v)
      have "neglected (Suc n) s'"
        by (rule neglected_move [OF neg, of s' WAdd]) (use run \<open>t = 0\<close> WEnq Some in auto)
      then show ?thesis using lin Some by simp
    qed
  next
    case WAdd
    then have s': "s' = w_go 0 WIdle (s\<lparr>w_count := w_count s + 1\<rparr>)" using run \<open>t = 0\<close> c by simp
    have "neglected (Suc n) s'" using neg k unfolding neglected_def s'
      by (intro conjI exI [of _ "Suc k"]) (simp_all add: ac_simps)
    then show ?thesis using WRun \<open>t = 0\<close> WAdd by (simp add: ms_server_lin_def)
  qed (use pc0 run \<open>t = 0\<close> in auto)
qed (use e in auto)

lemma neglected_run:
  "neglected n s \<Longrightarrow> n + length es < 2 ^ 32 \<Longrightarrow> w_inv ms_good ms_obs (mset \<circ> ms_content) s \<Longrightarrow> list_all main_event es \<Longrightarrow>
     mrun ms_server_step es s = Some s' \<Longrightarrow>
     neglected (n + length es) s' \<and> (\<exists>vs. ms_content (w_queue s') = ms_content (w_queue s) @ vs)"
proof (induction es arbitrary: n s)
  case Nil
  then show ?case by simp
next
  case (Cons e es)
  then obtain u where u: "ms_server_step e s = Some u" and es: "mrun ms_server_step es u = Some s'" by (auto split: option.splits)
  have ev: "main_event e" "list_all main_event es" "n < 2 ^ 32" "Suc n + length es < 2 ^ 32" using Cons.prems by simp_all
  note st = neglected_step [OF Cons.prems(1) ev(3) Cons.prems(3) ev(1) u]
  have step: "wstep msstep ms_res e s = Some u" using u by (simp add: ms_server_step_def)
  have "put_valid e" using ev(1) by (cases e) simp_all
  then have inv: "w_inv ms_good ms_obs (mset \<circ> ms_content) u" by (rule mss.w_step_inv [OF Cons.prems(3) _ step])
  have "ms_good (w_queue s)" using Cons.prems(3) by (simp add: w_inv_def)
  note lin = mss.wstep_fifo [OF this step, folded ms_server_lin_def]
  have "\<exists>vs. ms_content (w_queue u) = ms_content (w_queue s) @ vs"
    using st lin by (metis append_Nil2 fifo_step.simps(1) option.inject)
  moreover have "neglected (Suc n + length es) s' \<and> (\<exists>vs. ms_content (w_queue s') = ms_content (w_queue u) @ vs)"
    by (rule Cons.IH [OF conjunct1 [OF st] ev(4) inv ev(2) es])
  ultimately show ?case by auto
qed

text \<open>
  A worker may sleep beside a queued socket: after \<open>demo_two_workers\<close> worker 1 serves a
  connection, socket 8 is queued and worker 2 sleeps; and however many more sockets the main
  thread queues (within \<open>2 ^ 32 - 1\<close> steps), worker 2 sleeps and 8 stays, because the counter
  is positive and \<open>queue_put\<close> signals only when it was 0. In \<open>http-server.c\<close>, by contrast, no
  worker sleeps while the queue has data.
\<close>

lemma ms_server_idle_worker:
  assumes "mrun ms_server_step (demo_two_workers @ es) (ms_server_init no_nodes [0] [1, 2]) = Some s"
    and "list_all main_event es" and "length es < 2 ^ 32 - 1"
  shows "w_pc s 2 = WSleep \<and> (\<exists>vs. ms_content (w_queue s) = 8 # vs)"
proof -
  obtain u where u: "mrun ms_server_step demo_two_workers (ms_server_init no_nodes [0] [1, 2]) = Some u"
    and run: "mrun ms_server_step es u = Some s" using assms(1) by (auto simp: mrun_append split: option.splits)
  have "w_pc u 0 = WIdle" "w_pc u 1 = WReturn 7" "w_pc u 2 = WSleep" "w_main u = [0]" "w_workers u = [1, 2]"
    and c: "ms_content (w_queue u) = [8]" and "w_count u = 1"
    using demo_two_workers_run u by simp_all
  then have neg: "neglected 1 u" by (auto simp: neglected_def intro!: exI [of _ 1])
  have "list_all put_valid demo_two_workers" by code_simp
  then have inv: "w_inv ms_good ms_obs (mset \<circ> ms_content) u" by (rule ms_server_inv [OF u]) simp_all
  from neglected_run [OF neg _ inv assms(2) run] assms(3) c show ?thesis by (auto simp: neglected_def)
qed

lemma ms_server_idle_worker_witness:
  "\<exists>s. mrun ms_server_step (demo_two_workers @ demo_third_put) (ms_server_init no_nodes [0] [1, 2]) = Some s \<and>
     w_pc s 2 = WSleep \<and> (\<exists>vs. ms_content (w_queue s) = 8 # vs)"
proof -
  obtain s where s: "mrun ms_server_step (demo_two_workers @ demo_third_put) (ms_server_init no_nodes [0] [1, 2]) = Some s"
    using demo_third_put_run by auto
  have "list_all main_event demo_third_put" "length demo_third_put < 2 ^ 32 - 1" by (code_simp, simp add: demo_third_put_def)
  from ms_server_idle_worker [OF s this] s show ?thesis by blast
qed

end
