(* ===== verification/Primitives.thy ===== *)
theory Primitives
  imports Prelude
begin

text \<open>
  \<open>synch1.0.1/primitives.h\<close>: the bit searches and the bit count, and the emulation of fetch-and-add
  and swap by a compare-and-swap loop, with the statistics of the \<open>DEBUG\<close> build
  (\<open>synch1.0.1/stats.h\<close>).
\<close>

unbundle bit_operations_syntax

section \<open>Counting and searching bits\<close>

text \<open>\<open>for (c = 0; v; v >>= 1) c += v & 1\<close>.\<close>

lemma unat_drop_one: "v \<noteq> 0 \<Longrightarrow> unat (drop_bit 1 (v :: u64)) < unat v"
proof -
  assume "v \<noteq> 0"
  then have "unat v div 2 < unat v" by (simp add: unat_gt_0)
  moreover have "unat (drop_bit 1 v) = unat v div 2 ^ 1" unfolding unat_drop_bit_eq by (rule drop_bit_eq_div)
  ultimately show ?thesis by simp
qed

function count_loop :: "u64 \<Rightarrow> u64 \<Rightarrow> u64" where
  "count_loop v c = (if v = 0 then c else count_loop (drop_bit 1 v) (c + (v AND 1)))"
  by pat_completeness auto
termination
  by (relation "measure (\<lambda>(v, c). unat v)") (auto dest: unat_drop_one)

declare count_loop.simps [simp del]

definition nonZeroBits :: "u64 \<Rightarrow> u64" where
  "nonZeroBits v = count_loop v 0"

text \<open>\<open>__builtin_ctzll\<close> and \<open>bsfq\<close>: the number of zero bits below the lowest one.\<close>

fun ctz :: "nat \<Rightarrow> u64 \<Rightarrow> nat" where
  "ctz 0 v = 0"
| "ctz (Suc n) v = (if bit v 0 then 0 else Suc (ctz n (drop_bit 1 v)))"

definition bitSearchFirst :: "u64 \<Rightarrow> nat" where
  "bitSearchFirst v = ctz 64 v"

text \<open>The search of the Solaris branch.\<close>

definition c_gt :: "u32 \<Rightarrow> u32 \<Rightarrow> u32" where
  "c_gt v k = (if v > k then 1 else 0)"

definition shr :: "u32 \<Rightarrow> u32 \<Rightarrow> u32" where
  "shr v r = drop_bit (unat r) v"

definition bitSearchFirst32 :: "u32 \<Rightarrow> u32" where
  "bitSearchFirst32 v0 =
     (let r = push_bit 4 (c_gt v0 0xFFFF); v = shr v0 r;
          shift = push_bit 3 (c_gt v 0xFF); v = shr v shift; r = r OR shift;
          shift = push_bit 2 (c_gt v 0xF); v = shr v shift; r = r OR shift;
          shift = push_bit 1 (c_gt v 0x3); v = shr v shift; r = r OR shift
      in r OR drop_bit 1 v)"

definition bitSearchFirst_sparc :: "u64 \<Rightarrow> u32" where
  "bitSearchFirst_sparc v =
     (let r = bitSearchFirst32 (ucast v) in
      if r = 0 then bitSearchFirst32 (ucast (drop_bit 32 v)) + 31 else r)"

text \<open>The loop counts the set bits.\<close>

lemma card_bits_step:
  "card {i. i < Suc n \<and> bit (v :: u64) i} = (if bit v 0 then 1 else 0) + card {i. i < n \<and> bit (drop_bit 1 v) i}"
proof -
  have "{i. i < Suc n \<and> bit v i} = (if bit v 0 then {0} else {}) \<union> Suc ` {i. i < n \<and> bit (drop_bit 1 v) i}"
    by (auto simp: bit_drop_bit_eq image_iff less_Suc_eq_0_disj)
  moreover have "card (Suc ` {i. i < n \<and> bit (drop_bit 1 v) i}) = card {i. i < n \<and> bit (drop_bit 1 v) i}"
    by (rule card_image) simp
  moreover have "0 \<notin> Suc ` {i. i < n \<and> bit (drop_bit 1 v) i}" by auto
  ultimately show ?thesis by (cases "bit v 0") (simp_all del: image_iff drop_bit_Suc)
qed

lemma count_loop_card:
  "\<forall>i \<ge> n. \<not> bit v i \<Longrightarrow> count_loop v c = c + of_nat (card {i. i < n \<and> bit v i})"
proof (induction n arbitrary: v c)
  case 0
  then have "v = 0" by (auto intro: bit_eqI)
  then show ?case by (simp add: count_loop.simps)
next
  case (Suc n)
  have lsb: "v AND 1 = (if bit v 0 then 1 else 0)" by (simp add: and_one_eq mod_2_eq_odd bit_0)
  show ?case
  proof (cases "v = 0")
    case True
    then show ?thesis by (simp add: count_loop.simps)
  next
    case False
    have "\<forall>i \<ge> n. \<not> bit (drop_bit 1 v) i" using Suc.prems by (simp add: bit_drop_bit_eq)
    from Suc.IH [OF this, of "c + (v AND 1)"] False show ?thesis
      unfolding card_bits_step by (subst count_loop.simps) (simp add: lsb)
  qed
qed

lemma bits_below: "\<not> bit (v :: 'a :: len word) i" if "LENGTH('a) \<le> i"
  using that bit_imp_le_length [of v i] by auto

lemma nonZeroBits_card: "nonZeroBits v = of_nat (card {i. bit v i})"
proof -
  have low: "\<forall>i \<ge> 64. \<not> bit v i" by (simp add: bits_below)
  have "{i. bit v i} = {i. i < 64 \<and> bit v i}" using low by (auto simp: not_less [symmetric])
  then show ?thesis using count_loop_card [OF low, of 0] by (simp add: nonZeroBits_def)
qed

lemma bitSearchFirst_low: "v \<noteq> 0 \<longrightarrow> bit v (bitSearchFirst v) \<and> (\<forall>j < bitSearchFirst v. \<not> bit v j)"
proof -
  have low: "\<forall>i \<ge> 64. \<not> bit v i" by (simp add: bits_below)
  have "bit w (ctz n w) \<and> (\<forall>j < ctz n w. \<not> bit w j)" if "\<exists>i < n. bit w i" for n and w :: u64
    using that
  proof (induction n arbitrary: w)
    case (Suc n)
    show ?case
    proof (cases "bit w 0")
      case False
      then have "\<exists>i < n. bit (drop_bit 1 w) i" using Suc.prems by (auto simp: bit_drop_bit_eq less_Suc_eq_0_disj)
      from Suc.IH [OF this] False show ?thesis by (auto simp: bit_drop_bit_eq less_Suc_eq_0_disj)
    qed simp
  qed simp
  moreover have "\<exists>i < 64. bit v i" if "v \<noteq> 0"
  proof (rule ccontr)
    assume "\<not> ?thesis"
    then have "\<not> bit v i" for i using low by (cases "i < 64") auto
    then show False using that by (auto intro: bit_eqI)
  qed
  ultimately show ?thesis unfolding bitSearchFirst_def by blast
qed

text \<open>
  \<open>nonZeroBits\<close> is the number of set bits, and \<open>bitSearchFirst\<close> of a word that is not 0 is its
  lowest set bit.
\<close>

lemma bit_routines:
  "nonZeroBits v = of_nat (card {i. bit v i}) \<and> (v \<noteq> 0 \<longrightarrow> bit v (bitSearchFirst v) \<and> (\<forall>j < bitSearchFirst v. \<not> bit v j))"
proof -
  have low: "\<forall>i \<ge> 64. \<not> bit v i" by (simp add: bits_below)
  note nonZeroBits_card [of v]
  moreover note bitSearchFirst_low [of v]
  ultimately show ?thesis by blast
qed

lemma bit_routines_witness: "nonZeroBits 12 = of_nat (card {i. bit (12 :: u64) i}) \<and> bit (12 :: u64) (bitSearchFirst 12)"
  using bit_routines [of 12] by simp

text \<open>\<open>e\<close> is the highest set bit of a value that is not 0.\<close>

definition top_bit :: "nat \<Rightarrow> nat \<Rightarrow> bool" where
  "top_bit e n \<longleftrightarrow> 2 ^ e \<le> n \<and> n < 2 ^ Suc e"

lemma top_bit_shift:
  assumes "top_bit e (n div 2 ^ s)"
  shows "top_bit (e + s) n"
proof -
  have "2 ^ e * 2 ^ s \<le> n div 2 ^ s * 2 ^ s" using assms by (simp add: top_bit_def)
  also have "\<dots> \<le> n" by simp
  finally have lo: "2 ^ (e + s) \<le> n" by (simp add: power_add)
  have "n < Suc (n div 2 ^ s) * 2 ^ s" by (simp add: dividend_less_div_times)
  also have "\<dots> \<le> 2 ^ Suc e * 2 ^ s" using assms by (intro mult_right_mono) (simp_all add: top_bit_def)
  finally show ?thesis using lo by (simp add: top_bit_def power_add)
qed

text \<open>One comparison of the search: a value below \<open>2 ^ (2 * s)\<close> becomes one below \<open>2 ^ s\<close>.\<close>

lemma search_stage:
  assumes "unat v < 2 ^ (2 * s)" and "k < 5" and "s = 2 ^ k" and "v \<noteq> 0" and "m = 2 ^ s - 1"
  defines "sh \<equiv> push_bit k (c_gt v m)"
  shows "unat (shr v sh) = unat v div 2 ^ unat sh" and "unat (shr v sh) < 2 ^ s" and "shr v sh \<noteq> 0"
    and "sh = (if v > m then of_nat s else 0)"
proof -
  have sh: "sh = (if v > m then of_nat s else 0)"
    using assms(3) by (simp add: sh_def c_gt_def push_bit_eq_mult)
  then show "sh = (if v > m then of_nat s else 0)" .
  show d: "unat (shr v sh) = unat v div 2 ^ unat sh" unfolding shr_def unat_drop_bit_eq by (rule drop_bit_eq_div)
  have s: "s \<in> {1, 2, 4, 8, 16}" using assms(2,3) by (cases "k \<in> {0, 1, 2, 3, 4}") auto
  then have us: "unat (of_nat s :: u32) = s" and um: "unat m = 2 ^ s - 1" by (auto simp: assms(5))
  have gt: "v > m \<longleftrightarrow> 2 ^ s \<le> unat v" using um by (simp add: word_less_nat_alt del: One_nat_def) (use one_le_power [of "2::nat" s] in linarith)
  show "unat (shr v sh) < 2 ^ s"
  proof (cases "v > m")
    case True
    have "unat v div 2 ^ s < 2 ^ s" using assms(1) by (simp add: less_mult_imp_div_less mult_2 power_add)
    then show ?thesis using True d us sh by simp
  next
    case False
    then show ?thesis using d sh gt by simp
  qed
  have "0 < unat v div 2 ^ unat sh"
  proof (cases "v > m")
    case True
    then show ?thesis using gt us sh by (simp add: div_greater_zero_iff)
  next
    case False
    then show ?thesis using sh assms(4) by (simp add: unat_gt_0)
  qed
  then show "shr v sh \<noteq> 0" using d by auto
qed

lemma bitSearchFirst32_top:
  assumes "v0 \<noteq> 0"
  shows "top_bit (unat (bitSearchFirst32 v0)) (unat v0)"
proof -
  define r4 where "r4 = push_bit 4 (c_gt v0 0xFFFF)"
  define v1 where "v1 = shr v0 r4"
  define r3 where "r3 = push_bit 3 (c_gt v1 0xFF)"
  define v2 where "v2 = shr v1 r3"
  define r2 where "r2 = push_bit 2 (c_gt v2 0xF)"
  define v3 where "v3 = shr v2 r2"
  define r1 where "r1 = push_bit 1 (c_gt v3 0x3)"
  define v4 where "v4 = shr v3 r1"
  have res: "bitSearchFirst32 v0 = r4 OR r3 OR r2 OR r1 OR drop_bit 1 v4"
    by (simp only: bitSearchFirst32_def Let_def r4_def r3_def r2_def r1_def v1_def v2_def v3_def v4_def or.assoc)
  have "unat v0 < 2 ^ (2 * 16)" using unsigned_less [of v0] by simp
  note S4 = search_stage [OF this _ _ assms, of 4 "0xFFFF", folded r4_def v1_def]
  have V1: "unat v1 = unat v0 div 2 ^ unat r4" "unat v1 < 2 ^ (2 * 8)" "v1 \<noteq> 0" "r4 = 0 \<or> r4 = 16"
    using S4 by auto
  note S3 = search_stage [OF V1(2) _ _ V1(3), of 3 "0xFF", folded r3_def v2_def]
  have V2: "unat v2 = unat v1 div 2 ^ unat r3" "unat v2 < 2 ^ (2 * 4)" "v2 \<noteq> 0" "r3 = 0 \<or> r3 = 8"
    using S3 by auto
  note S2 = search_stage [OF V2(2) _ _ V2(3), of 2 "0xF", folded r2_def v3_def]
  have V3: "unat v3 = unat v2 div 2 ^ unat r2" "unat v3 < 2 ^ (2 * 2)" "v3 \<noteq> 0" "r2 = 0 \<or> r2 = 4"
    using S2 by auto
  note S1 = search_stage [OF V3(2) _ _ V3(3), of 1 "0x3", folded r1_def v4_def]
  have V4: "unat v4 = unat v3 div 2 ^ unat r1" "unat v4 < 4" "v4 \<noteq> 0" "r1 = 0 \<or> r1 = 2"
    using S1 by auto
  have "0 < unat v4" using V4(3) by (simp add: unat_gt_0)
  then have "unat v4 \<in> {1, 2, 3}" using V4(2) by auto
  then have "v4 \<in> {1, 2, 3}" by (auto simp: word_unat_eq_iff)
  then have d: "drop_bit 1 v4 = 0 \<and> unat v4 = 1 \<or> drop_bit 1 v4 = 1 \<and> 2 \<le> unat v4" by auto
  then have "top_bit (unat (drop_bit 1 v4)) (unat v4)" using V4(2) by (auto simp: top_bit_def)
  then have "top_bit (unat (drop_bit 1 v4) + unat r1 + unat r2 + unat r3 + unat r4) (unat v0)"
    using top_bit_shift V1(1) V2(1) V3(1) V4(1) by metis
  moreover have "unat (bitSearchFirst32 v0) = unat (drop_bit 1 v4) + unat r1 + unat r2 + unat r3 + unat r4"
  proof -
    from d have "drop_bit 1 v4 = 0 \<or> drop_bit 1 v4 = 1" by auto
    then show ?thesis unfolding res using V1(4) V2(4) V3(4) V4(4) by (elim disjE) (simp_all only:, simp_all)
  qed
  ultimately show ?thesis by simp
qed

text \<open>
  The 32-bit search of the Solaris branch finds the highest set bit, where the other branches
  find the lowest: the three \<open>bitSearchFirst\<close> disagree on 6, and the Solaris one is off by one on
  words whose set bits are all in the upper half.
\<close>

lemma search_variants:
  "(v \<noteq> 0 \<longrightarrow> 2 ^ unat (bitSearchFirst32 v) \<le> unat v \<and> unat v < 2 ^ Suc (unat (bitSearchFirst32 v))) \<and>
   bitSearchFirst 6 = 1 \<and> bitSearchFirst_sparc 6 = 2 \<and>
   bitSearchFirst (push_bit 33 1) = 33 \<and> bitSearchFirst_sparc (push_bit 33 1) = 32"
proof -
  have "bitSearchFirst 6 = 1 \<and> bitSearchFirst_sparc 6 = 2 \<and>
    bitSearchFirst (push_bit 33 1) = 33 \<and> bitSearchFirst_sparc (push_bit 33 1) = 32" by code_simp
  then show ?thesis using bitSearchFirst32_top [of v] by (simp add: top_bit_def)
qed

lemma search_variants_witness: "2 ^ unat (bitSearchFirst32 6) \<le> unat (6 :: u32)"
  using search_variants [of 6] by simp

section \<open>Fetch-and-add and swap by compare-and-swap\<close>

datatype 'w rmw = Faa 'w | Swap 'w

fun rmw_val :: "'w :: plus rmw \<Rightarrow> 'w \<Rightarrow> 'w" where
  "rmw_val (Faa b) old = old + b"
| "rmw_val (Swap b) old = b"

text \<open>The loops of \<open>_FAA32\<close>, \<open>_FAA64\<close> and \<open>_SWAP\<close>, with the value read.\<close>

datatype 'w xpc =
    XIdle
  | XRead "'w rmw"                 \<comment> \<open>\<open>old_val = *A\<close>\<close>
  | XCheck "'w rmw" 'w      \<comment> \<open>\<open>*A == old_val\<close>\<close>
  | XCas "'w rmw" 'w        \<comment> \<open>\<open>CAS(A, old_val, new_val)\<close>\<close>
  | XDone "'w rmw" 'w       \<comment> \<open>\<open>return old_val\<close>\<close>

record 'w xstate =
  x_val :: 'w
  x_pc :: "tid \<Rightarrow> 'w xpc"
  executed_cas :: "tid \<Rightarrow> nat"
  failed_cas :: "tid \<Rightarrow> nat"
  executed_faa :: "tid \<Rightarrow> nat"
  executed_swap :: "tid \<Rightarrow> nat"

datatype 'w xev = XBegin tid "'w rmw" | XRun tid

text \<open>\<open>_CAS32\<close>, \<open>_CAS64\<close> and \<open>_CASPTR\<close> of the \<open>DEBUG\<close> build.\<close>

definition counted_cas :: "tid \<Rightarrow> 'w :: plus \<Rightarrow> 'w \<Rightarrow> 'w xstate \<Rightarrow> bool \<times> 'w xstate" where
  "counted_cas t old new s =
     (let res = (x_val s = old);
          s = s\<lparr>executed_cas := (executed_cas s)(t := executed_cas s t + 1),
                failed_cas := (failed_cas s)(t := failed_cas s t + (if res then 0 else 1))\<rparr> in
      (res, if res then s\<lparr>x_val := new\<rparr> else s))"

fun count_rmw :: "tid \<Rightarrow> 'w :: plus rmw \<Rightarrow> 'w xstate \<Rightarrow> 'w xstate" where
  "count_rmw t (Faa b) s = s\<lparr>executed_faa := (executed_faa s)(t := executed_faa s t + 1)\<rparr>"
| "count_rmw t (Swap b) s = s\<lparr>executed_swap := (executed_swap s)(t := executed_swap s t + 1)\<rparr>"

fun emulate_pc :: "'w :: plus xpc \<Rightarrow> tid \<Rightarrow> 'w xstate \<Rightarrow> 'w xstate option" where
  "emulate_pc (XRead f) t s = Some (s\<lparr>x_pc := (x_pc s)(t := XCheck f (x_val s))\<rparr>)"
| "emulate_pc (XCheck f old) t s =
     Some (s\<lparr>x_pc := (x_pc s)(t := if x_val s = old then XCas f old else XRead f)\<rparr>)"
| "emulate_pc (XCas f old) t s =
     (let (ok, s') = counted_cas t old (rmw_val f old) s in
      Some (if ok then (count_rmw t f s')\<lparr>x_pc := (x_pc s)(t := XDone f old)\<rparr>
            else s'\<lparr>x_pc := (x_pc s)(t := XRead f)\<rparr>))"
| "emulate_pc _ t s = None"

fun xstep :: "'w :: plus xev \<Rightarrow> 'w xstate \<Rightarrow> 'w xstate option" where
  "xstep (XBegin t f) s =
     (case x_pc s t of
        XIdle \<Rightarrow> Some (s\<lparr>x_pc := (x_pc s)(t := XRead f)\<rparr>)
      | XDone g old \<Rightarrow> Some (s\<lparr>x_pc := (x_pc s)(t := XRead f)\<rparr>)
      | _ \<Rightarrow> None)"
| "xstep (XRun t) s = emulate_pc (x_pc s t) t s"

definition x_init :: "'w :: plus \<Rightarrow> 'w xstate" where
  "x_init v = \<lparr>x_val = v, x_pc = (\<lambda>t. XIdle), executed_cas = (\<lambda>t. 0), failed_cas = (\<lambda>t. 0),
     executed_faa = (\<lambda>t. 0), executed_swap = (\<lambda>t. 0)\<rparr>"

text \<open>
  The atomic instructions: thread \<open>t\<close> executes \<open>f\<close> on the memory word \<open>v\<close> and gets \<open>r\<close>, the word
  it has replaced.
\<close>

fun rmw_step :: "tid \<times> 'w :: plus rmw \<times> 'w \<Rightarrow> 'w \<Rightarrow> 'w option" where
  "rmw_step (t, Faa b, r) v = (if r = v then Some (v + b) else None)"
| "rmw_step (t, Swap b, r) v = (if r = v then Some b else None)"

text \<open>
  A run is observed through its returns: a thread that runs and arrives at \<open>XDone f r\<close> returns
  \<open>r\<close> from its call of \<open>f\<close>. The step is also the one in which its compare-and-swap succeeds.
\<close>

fun xact :: "'w xev \<Rightarrow> 'w xstate \<Rightarrow> (tid \<times> 'w rmw \<times> 'w) list" where
  "xact (XRun t) s' = (case x_pc s' t of XDone f r \<Rightarrow> [(t, f, r)] | _ \<Rightarrow> [])"
| "xact (XBegin t f) s' = []"

fun xtrace :: "'w :: plus xev list \<Rightarrow> 'w xstate \<Rightarrow> (tid \<times> 'w rmw \<times> 'w) list" where
  "xtrace [] s = []"
| "xtrace (e # es) s = (case xstep e s of None \<Rightarrow> [] | Some s' \<Rightarrow> xact e s' @ xtrace es s')"

text \<open>The calls thread \<open>t\<close> makes, and the one it is still in.\<close>

fun x_calls :: "tid \<Rightarrow> 'w xev list \<Rightarrow> 'w rmw list" where
  "x_calls t [] = []"
| "x_calls t (XBegin u f # es) = (if u = t then f # x_calls t es else x_calls t es)"
| "x_calls t (XRun u # es) = x_calls t es"

fun x_pending :: "'w xpc \<Rightarrow> 'w rmw list" where
  "x_pending (XRead f) = [f]"
| "x_pending (XCheck f old) = [f]"
| "x_pending (XCas f old) = [f]"
| "x_pending XIdle = []"
| "x_pending (XDone f r) = []"

definition of_thread :: "tid \<Rightarrow> (tid \<times> 'w rmw \<times> 'w) list \<Rightarrow> ('w rmw \<times> 'w) list" where
  "of_thread t tr = map snd [a \<leftarrow> tr. fst a = t]"


definition x_inv :: "'w :: plus \<Rightarrow> 'w xstate \<Rightarrow> (tid \<times> 'w rmw \<times> 'w) list \<Rightarrow> bool" where
  "x_inv v s tr \<longleftrightarrow> mrun rmw_step tr v = Some (x_val s) \<and>
     (\<forall>t. executed_cas s t = failed_cas s t + length (of_thread t tr) \<and>
       executed_faa s t + executed_swap s t = length (of_thread t tr) \<and>
       (\<forall>f old. x_pc s t = XDone f old \<longrightarrow> of_thread t tr \<noteq> [] \<and> last (of_thread t tr) = (f, old)))"

lemma of_thread_snoc:
  "of_thread t (tr @ [(u, f, old)]) = (if u = t then of_thread t tr @ [(f, old)] else of_thread t tr)"
  by (simp add: of_thread_def)

lemma x_inv_step:
  assumes inv: "x_inv v s tr" and run: "xstep e s = Some s'"
  shows "x_inv v s' (tr @ xact e s')"
proof (cases e)
  case (XBegin t f)
  then show ?thesis using run inv by (auto simp: x_inv_def split: xpc.splits if_splits)
next
  case (XRun t)
  show ?thesis
  proof (cases "x_pc s t")
    case (XCas f old)
    show ?thesis
    proof (cases "x_val s = old")
      case True
      then show ?thesis using run inv XRun XCas
        by (cases f) (auto simp: x_inv_def counted_cas_def mrun_snoc of_thread_snoc split: if_splits)
    next
      case False
      then show ?thesis using run inv XRun XCas by (auto simp: x_inv_def counted_cas_def split: if_splits)
    qed
  qed (use run inv XRun in \<open>auto simp: x_inv_def split: if_splits\<close>)
qed

lemma x_inv_run: "x_inv v s tr \<Longrightarrow> mrun xstep es s = Some s' \<Longrightarrow> x_inv v s' (tr @ xtrace es s)"
proof (induction es arbitrary: s tr)
  case (Cons e es)
  then obtain u where u: "xstep e s = Some u" "mrun xstep es u = Some s'" by (auto split: option.splits)
  then have "x_inv v s' ((tr @ xact e u) @ xtrace es u)" using Cons x_inv_step by blast
  then show ?case using u by simp
qed simp

text \<open>Every call is answered once, in the order a thread makes them; at most the last one is open.\<close>

lemma x_calls_step:
  "xstep e s = Some s' \<Longrightarrow>
    x_pending (x_pc s t) @ x_calls t [e] = map fst (of_thread t (xact e s')) @ x_pending (x_pc s' t)"
  by (cases e; cases "x_pc s (case e of XBegin u f \<Rightarrow> u | XRun u \<Rightarrow> u)")
    (auto simp: of_thread_def counted_cas_def Let_def split: if_splits)

lemma x_calls_run:
  "mrun xstep es s = Some s' \<Longrightarrow>
    x_pending (x_pc s t) @ x_calls t es = map fst (of_thread t (xtrace es s)) @ x_pending (x_pc s' t)"
proof (induction es arbitrary: s)
  case (Cons e es)
  then obtain u where u: "xstep e s = Some u" "mrun xstep es u = Some s'" by (auto split: option.splits)
  have "x_calls t (e # es) = x_calls t [e] @ x_calls t es" by (cases e) simp_all
  then show ?case using x_calls_step [OF u(1), of t] Cons.IH [OF u(2)] u(1)
    by (simp add: of_thread_def) (metis append_assoc)
qed (simp add: of_thread_def)

text \<open>The schedule in which each thread runs its loop alone.\<close>

definition alone :: "tid \<times> 'w rmw \<times> 'w \<Rightarrow> 'w xev list" where
  "alone a = (case a of (t, f, old) \<Rightarrow> [XBegin t f, XRun t, XRun t, XRun t])"

definition resting :: "'w xstate \<Rightarrow> bool" where
  "resting s \<longleftrightarrow> (\<forall>t. case x_pc s t of XIdle \<Rightarrow> True | XDone f old \<Rightarrow> True | _ \<Rightarrow> False)"

lemma alone_runs:
  assumes "rmw_step a (x_val s) = Some v" and "resting s"
  shows "\<exists>s'. mrun xstep (alone a) s = Some s' \<and> xtrace (alone a) s = [a] \<and> x_val s' = v \<and> resting s'"
proof -
  obtain t f old where a: "a = (t, f, old)" by (cases a)
  then have v: "old = x_val s" "v = rmw_val f old" using assms(1) by (cases f; auto split: if_splits)+
  have "x_pc s t = XIdle \<or> (\<exists>g w. x_pc s t = XDone g w)"
    using assms(2) by (cases "x_pc s t") (auto simp: resting_def dest: spec [of _ t])
  then show ?thesis using assms(2) v
    by (cases f) (auto simp: alone_def a counted_cas_def resting_def)
qed

lemma xtrace_append:
  "mrun xstep es s = Some u \<Longrightarrow> xtrace (es @ fs) s = xtrace es s @ xtrace fs u"
  by (induction es arbitrary: s) (auto split: option.splits)

lemma atomic_runs:
  "mrun rmw_step tr (x_val s) = Some v \<Longrightarrow> resting s \<Longrightarrow>
    \<exists>es s'. mrun xstep es s = Some s' \<and> xtrace es s = tr \<and> x_val s' = v"
proof (induction tr arbitrary: s)
  case Nil
  then show ?case by (intro exI [of _ "[]"]) simp
next
  case (Cons a tr)
  then obtain w where w: "rmw_step a (x_val s) = Some w" "mrun rmw_step tr w = Some v" by (auto split: option.splits)
  obtain u where u: "mrun xstep (alone a) s = Some u" "xtrace (alone a) s = [a]" "x_val u = w" "resting u"
    using alone_runs [OF w(1) Cons.prems(2)] by blast
  obtain es s' where "mrun xstep es u = Some s'" "xtrace es u = tr" "x_val s' = v"
    using Cons.IH [of u] w u by blast
  then show ?case using u by (intro exI [of _ "alone a @ es"]) (simp add: mrun_append xtrace_append)
qed

lemma x_init_inv: "x_inv v (x_init v) []"
  by (simp add: x_inv_def x_init_def of_thread_def)

lemma emulation_atomic:
  "(\<exists>es s. mrun xstep es (x_init v) = Some s \<and> xtrace es (x_init v) = tr \<and> x_val s = w) \<longleftrightarrow>
   mrun rmw_step tr v = Some w"
proof
  assume "\<exists>es s. mrun xstep es (x_init v) = Some s \<and> xtrace es (x_init v) = tr \<and> x_val s = w"
  then obtain es s where run: "mrun xstep es (x_init v) = Some s" and "xtrace es (x_init v) = tr" "x_val s = w" by blast
  then show "mrun rmw_step tr v = Some w" using x_inv_run [OF x_init_inv] by (fastforce simp: x_inv_def)
next
  assume "mrun rmw_step tr v = Some w"
  then show "\<exists>es s. mrun xstep es (x_init v) = Some s \<and> xtrace es (x_init v) = tr \<and> x_val s = w"
    using atomic_runs [of tr "x_init v" w] by (simp add: x_init_def resting_def)
qed

text \<open>
  (C17) The compare-and-swap loops that emulate fetch-and-add and swap are equivalent to the atomic
  instructions. A sequence of returns (thread, operation, value returned) with a last word \<open>w\<close> is
  one that some interleaving of any number of threads shows exactly when the atomic instructions,
  executed in that order, return these values and leave \<open>w\<close>. And in every run each thread's calls
  are answered once each in its own order, except for the one it is in.
\<close>

theorem emulation_equivalent:
  "((\<exists>es s. mrun xstep es (x_init v) = Some s \<and> xtrace es (x_init v) = tr \<and> x_val s = w) \<longleftrightarrow>
    mrun rmw_step tr v = Some w) \<and>
   (\<forall>es s t. mrun xstep es (x_init v) = Some s \<longrightarrow>
     x_calls t es = map fst (of_thread t (xtrace es (x_init v))) @ x_pending (x_pc s t))"
  using emulation_atomic [of v tr w] x_calls_run [of _ "x_init v"] by (auto simp: x_init_def)

text \<open>
  With the counters of the \<open>DEBUG\<close> build: a thread's compare-and-swaps less the failed ones are
  the operations it has completed, and the value an operation returns is the one the word held
  when it took effect.
\<close>

lemma emulation_counted:
  assumes "mrun xstep es (x_init (v :: u64)) = Some s"
  shows "executed_cas s t - failed_cas s t = executed_faa s t + executed_swap s t \<and>
    executed_faa s t + executed_swap s t = length (of_thread t (xtrace es (x_init v))) \<and>
    (x_pc s t = XDone f old \<longrightarrow> last (of_thread t (xtrace es (x_init v))) = (f, old))"
proof -
  have "x_inv v s (xtrace es (x_init v))" using x_inv_run [OF x_init_inv assms] by simp
  then show ?thesis unfolding x_inv_def by (metis add_diff_cancel_left')
qed

definition demo_faa :: "u64 xev list" where
  "demo_faa = [XBegin 0 (Faa 1), XBegin 1 (Faa 1), XRun 0, XRun 1, XRun 0, XRun 1, XRun 0, XRun 1, XRun 1, XRun 1, XRun 1]"

text \<open>Two threads add 1 to 7; the second one's first compare-and-swap fails, and it returns 8.\<close>

lemma emulation_equivalent_witness:
  "mrun rmw_step [(0, Faa 1, 7), (1, Faa 1, 8)] (7 :: u64) = Some 9 \<and>
   x_calls 1 demo_faa = map fst (of_thread 1 (xtrace demo_faa (x_init 7)))"
proof -
  have "map_option (\<lambda>s. (x_val s, xtrace demo_faa (x_init 7), x_pc s 1)) (mrun xstep demo_faa (x_init 7)) =
    Some (9, [(0, Faa 1, 7), (1, Faa 1, 8)], XDone (Faa 1) 8)" by code_simp
  then obtain s where s: "mrun xstep demo_faa (x_init 7) = Some s" "x_val s = 9"
      "xtrace demo_faa (x_init 7) = [(0, Faa 1, 7), (1, Faa 1, 8)]" "x_pc s 1 = XDone (Faa 1) 8" by auto
  from s(1,4) emulation_equivalent [of 7 "[(0, Faa 1, 7), (1, Faa 1, 8)]" 9] s(2,3) show ?thesis
    by (metis append_Nil2 x_pending.simps(5))
qed

lemma emulation_counted_witness:
  "\<exists>s. mrun xstep demo_faa (x_init 7) = Some s \<and> x_val s = 9 \<and> failed_cas s 1 = 1 \<and>
    last (of_thread 1 (xtrace demo_faa (x_init 7))) = (Faa 1, 8)"
proof -
  have "map_option (\<lambda>s. (x_val s, failed_cas s 1, x_pc s 1)) (mrun xstep demo_faa (x_init 7)) = Some (9, 1, XDone (Faa 1) 8)"
    by code_simp
  then obtain s where s: "mrun xstep demo_faa (x_init 7) = Some s" "x_val s = 9" "failed_cas s 1 = 1" "x_pc s 1 = XDone (Faa 1) 8"
    by auto
  from emulation_counted [OF s(1), of 1 "Faa 1" 8] s show ?thesis by simp
qed

end
