(* ===== verification/ToggleVector.thy ===== *)
theory ToggleVector
  imports Primitives
begin

text \<open>
  \<open>synch1.0.1/tvec.h\<close>: vectors of bits, one per thread, in cells of 64 bits, for every
  \<open>N_THREADS\<close> (\<open>n\<close> here), and \<open>synch1.0.1/activeset.c\<close>, which keeps the active threads in one.
\<close>

record toggle_vector =
  tv_cell :: "u64 list"

definition TVEC_CELLS :: "nat \<Rightarrow> nat" where
  "TVEC_CELLS n = (if n \<le> 64 then 1 else if n \<le> 2 * 64 then 2 else if n \<le> 3 * 64 then 3 else n div 64 + 1)"

text \<open>\<open>LOOP(EXPR, I)\<close>: the expression for each cell.\<close>

definition LOOP :: "nat \<Rightarrow> (nat \<Rightarrow> u64) \<Rightarrow> toggle_vector" where
  "LOOP n f = \<lparr>tv_cell = map f [0..<TVEC_CELLS n]\<rparr>"

section \<open>Banks\<close>

definition TVEC_GET_BANK_OF_BIT :: "nat \<Rightarrow> nat \<Rightarrow> nat" where
  "TVEC_GET_BANK_OF_BIT n pos = (if n > 64 then drop_bit 6 pos else 0)"

definition set_bank :: "nat \<Rightarrow> u64 \<Rightarrow> toggle_vector \<Rightarrow> toggle_vector" where
  "set_bank bank c tv = tv\<lparr>tv_cell := (tv_cell tv)[bank := c]\<rparr>"

definition TVEC_ATOMIC_COPY_BANKS :: "toggle_vector \<Rightarrow> toggle_vector \<Rightarrow> nat \<Rightarrow> toggle_vector" where
  "TVEC_ATOMIC_COPY_BANKS tv1 tv2 bank = set_bank bank (tv_cell tv2 ! bank) tv1"

definition TVEC_ATOMIC_ADD_BANK :: "toggle_vector \<Rightarrow> toggle_vector \<Rightarrow> nat \<Rightarrow> toggle_vector" where
  "TVEC_ATOMIC_ADD_BANK tv1 tv2 bank = set_bank bank (tv_cell tv1 ! bank + tv_cell tv2 ! bank) tv1"

definition TVEC_NEGATIVE_BANK :: "toggle_vector \<Rightarrow> toggle_vector \<Rightarrow> nat \<Rightarrow> toggle_vector" where
  "TVEC_NEGATIVE_BANK tv1 tv2 bank = set_bank bank (- (tv_cell tv2 ! bank)) tv1"

definition TVEC_XOR_BANKS :: "toggle_vector \<Rightarrow> toggle_vector \<Rightarrow> toggle_vector \<Rightarrow> nat \<Rightarrow> toggle_vector" where
  "TVEC_XOR_BANKS res tv1 tv2 bank = set_bank bank (tv_cell tv1 ! bank XOR tv_cell tv2 ! bank) res"

definition TVEC_AND_BANKS :: "toggle_vector \<Rightarrow> toggle_vector \<Rightarrow> toggle_vector \<Rightarrow> nat \<Rightarrow> toggle_vector" where
  "TVEC_AND_BANKS res tv1 tv2 bank = set_bank bank (tv_cell tv1 ! bank AND tv_cell tv2 ! bank) res"

section \<open>Vectors\<close>

definition TVEC_NEGATIVE :: "nat \<Rightarrow> toggle_vector \<Rightarrow> toggle_vector" where
  "TVEC_NEGATIVE n tv = LOOP n (\<lambda>i. - (tv_cell tv ! i))"

definition TVEC_REVERSE_BIT :: "nat \<Rightarrow> toggle_vector \<Rightarrow> nat \<Rightarrow> toggle_vector" where
  "TVEC_REVERSE_BIT n tv1 pos =
     (if n > 64
      then let i = drop_bit 6 pos; offset = pos AND 63 in set_bank i (tv_cell tv1 ! i XOR push_bit offset 1) tv1
      else set_bank 0 (tv_cell tv1 ! 0 XOR push_bit pos 1) tv1)"

definition TVEC_SET_BIT :: "nat \<Rightarrow> toggle_vector \<Rightarrow> nat \<Rightarrow> toggle_vector" where
  "TVEC_SET_BIT n tv1 pos =
     (if n > 64
      then let i = drop_bit 6 pos; offset = pos AND 63 in set_bank i (tv_cell tv1 ! i OR push_bit offset 1) tv1
      else set_bank 0 (tv_cell tv1 ! 0 OR push_bit pos 1) tv1)"

definition TVEC_SET_ZERO :: "nat \<Rightarrow> toggle_vector" where
  "TVEC_SET_ZERO n = LOOP n (\<lambda>i. 0)"

definition TVEC_IS_SET :: "nat \<Rightarrow> toggle_vector \<Rightarrow> nat \<Rightarrow> bool" where
  "TVEC_IS_SET n tv1 pid =
     (if n > 64
      then let i = drop_bit 6 pid; offset = pid AND 63 in drop_bit offset (tv_cell tv1 ! i) AND 1 \<noteq> 0
      else drop_bit pid (tv_cell tv1 ! 0) AND 1 \<noteq> 0)"

definition TVEC_OR :: "nat \<Rightarrow> toggle_vector \<Rightarrow> toggle_vector \<Rightarrow> toggle_vector" where
  "TVEC_OR n tv1 tv2 = LOOP n (\<lambda>i. tv_cell tv1 ! i OR tv_cell tv2 ! i)"

definition TVEC_AND :: "nat \<Rightarrow> toggle_vector \<Rightarrow> toggle_vector \<Rightarrow> toggle_vector" where
  "TVEC_AND n tv1 tv2 = LOOP n (\<lambda>i. tv_cell tv1 ! i AND tv_cell tv2 ! i)"

definition TVEC_XOR :: "nat \<Rightarrow> toggle_vector \<Rightarrow> toggle_vector \<Rightarrow> toggle_vector" where
  "TVEC_XOR n tv1 tv2 = LOOP n (\<lambda>i. tv_cell tv1 ! i XOR tv_cell tv2 ! i)"

definition TVEC_COUNT_BITS :: "nat \<Rightarrow> toggle_vector \<Rightarrow> nat" where
  "TVEC_COUNT_BITS n tv = foldl (\<lambda>count i. count + unat (nonZeroBits (tv_cell tv ! i))) 0 [0..<TVEC_CELLS n]"

section \<open>A vector is a set of threads\<close>

definition tvec_ok :: "nat \<Rightarrow> toggle_vector \<Rightarrow> bool" where
  "tvec_ok n tv \<longleftrightarrow> length (tv_cell tv) = TVEC_CELLS n"

definition tvec_set :: "nat \<Rightarrow> toggle_vector \<Rightarrow> nat set" where
  "tvec_set n tv = {p. p < 64 * TVEC_CELLS n \<and> TVEC_IS_SET n tv p}"

lemma TVEC_CELLS_pos: "0 < TVEC_CELLS n"
  by (simp add: TVEC_CELLS_def)

lemma TVEC_CELLS_one: "\<not> 64 < n \<Longrightarrow> TVEC_CELLS n = 1"
  by (simp add: TVEC_CELLS_def)

lemma thread_in_range: "p < n \<Longrightarrow> p < 64 * TVEC_CELLS n"
  by (auto simp: TVEC_CELLS_def)

lemma and_63: "(p :: nat) AND 63 = p mod 64"
  using take_bit_eq_mask [of 6 p] by (simp add: take_bit_eq_mod mask_eq_exp_minus_1)

lemma drop_6: "drop_bit 6 (p :: nat) = p div 64"
  by (simp add: drop_bit_eq_div)

lemma bit_test: "drop_bit k (w :: u64) AND 1 \<noteq> 0 \<longleftrightarrow> bit w k"
  by (simp add: and_one_eq mod_2_eq_odd bit_iff_odd_drop_bit)

lemma is_set_bit:
  "p < 64 * TVEC_CELLS n \<Longrightarrow> TVEC_IS_SET n tv p \<longleftrightarrow> bit (tv_cell tv ! (p div 64)) (p mod 64)"
  by (cases "64 < n") (simp_all add: TVEC_IS_SET_def bit_test and_63 drop_6 Let_def TVEC_CELLS_one)

lemma set_bank_ok [simp]: "tvec_ok n (set_bank i c tv) = tvec_ok n tv"
  by (simp add: tvec_ok_def set_bank_def)

lemma LOOP_ok [simp]: "tvec_ok n (LOOP n f)"
  by (simp add: tvec_ok_def LOOP_def)

lemma bank_less: "p < 64 * TVEC_CELLS n \<Longrightarrow> p div 64 < TVEC_CELLS n"
  by (simp add: less_mult_imp_div_less mult.commute)

lemma is_set_LOOP:
  "p < 64 * TVEC_CELLS n \<Longrightarrow> TVEC_IS_SET n (LOOP n f) p \<longleftrightarrow> bit (f (p div 64)) (p mod 64)"
  by (simp add: is_set_bit) (simp add: LOOP_def bank_less)

lemma is_set_vec:
  assumes "p < 64 * TVEC_CELLS n"
  shows "\<not> TVEC_IS_SET n (TVEC_SET_ZERO n) p"
    and "TVEC_IS_SET n (TVEC_OR n tv1 tv2) p \<longleftrightarrow> TVEC_IS_SET n tv1 p \<or> TVEC_IS_SET n tv2 p"
    and "TVEC_IS_SET n (TVEC_AND n tv1 tv2) p \<longleftrightarrow> TVEC_IS_SET n tv1 p \<and> TVEC_IS_SET n tv2 p"
    and "TVEC_IS_SET n (TVEC_XOR n tv1 tv2) p \<longleftrightarrow> TVEC_IS_SET n tv1 p \<noteq> TVEC_IS_SET n tv2 p"
  unfolding TVEC_SET_ZERO_def TVEC_OR_def TVEC_AND_def TVEC_XOR_def
  unfolding is_set_LOOP [OF assms] unfolding is_set_bit [OF assms]
  by (simp_all add: bit_or_iff bit_and_iff bit_xor_iff)

lemma cell_set_bank:
  "tvec_ok n tv \<Longrightarrow> i < TVEC_CELLS n \<Longrightarrow> tv_cell (set_bank i c tv) ! j = (if j = i then c else tv_cell tv ! j)"
  by (simp add: set_bank_def tvec_ok_def nth_list_update)

lemma bit_arith:
  assumes "b < 64 * TVEC_CELLS n"
  shows "TVEC_REVERSE_BIT n tv b = set_bank (b div 64) (tv_cell tv ! (b div 64) XOR push_bit (b mod 64) 1) tv"
    and "TVEC_SET_BIT n tv b = set_bank (b div 64) (tv_cell tv ! (b div 64) OR push_bit (b mod 64) 1) tv"
    and "TVEC_GET_BANK_OF_BIT n b = b div 64"
  using assms
  by (cases "64 < n"; simp add: TVEC_REVERSE_BIT_def TVEC_SET_BIT_def TVEC_GET_BANK_OF_BIT_def and_63 drop_6
      Let_def TVEC_CELLS_one)+

lemma bit_one_at: "k < 64 \<Longrightarrow> bit (push_bit k 1 :: u64) j \<longleftrightarrow> j = k"
  by (auto simp: bit_simps)

lemma bit_exp_at: "k < 64 \<Longrightarrow> bit (2 ^ k :: u64) j \<longleftrightarrow> j = k"
  by (auto simp: bit_simps)

lemma same_place: "(p div 64 = b div 64 \<and> p mod 64 = b mod 64) = (p = (b :: nat))"
  by (metis div_mult_mod_eq)

lemma nonZeroBits_nat: "unat (nonZeroBits v) = card {j. bit v j}"
proof -
  have "{j. bit v j} \<subseteq> {..<64}" using bits_below [where v = v] by (auto simp: not_less [symmetric])
  from card_mono [OF _ this] have "card {j. bit v j} \<le> 64" by simp
  then show ?thesis using nonZeroBits_card [of v] by (simp add: unat_of_nat)
qed

lemma count_cells:
  "foldl (\<lambda>count i. count + unat (nonZeroBits (c ! i))) 0 [0..<m] = card {p. p < 64 * m \<and> bit (c ! (p div 64)) (p mod 64)}"
proof (induction m)
  case (Suc m)
  let ?A = "{p. p < 64 * m \<and> bit (c ! (p div 64)) (p mod 64)}" and ?B = "(\<lambda>j. 64 * m + j) ` {j. bit (c ! m) j}"
  have lt: "j < 64" if "bit (c ! m) j" for j using bits_below [where v = "c ! m" and i = j] that by (auto simp: not_less [symmetric])
  have "{p. p < 64 * Suc m \<and> bit (c ! (p div 64)) (p mod 64)} = ?A \<union> ?B" (is "?L = _")
  proof (intro equalityI subsetI)
    fix p
    assume p: "p \<in> ?L"
    show "p \<in> ?A \<union> ?B"
    proof (cases "p < 64 * m")
      case False
      then have "p div 64 = m" using p by (intro div_nat_eqI) auto
      then have "p = 64 * m + p mod 64" "bit (c ! m) (p mod 64)" using p div_mult_mod_eq [of p 64] by auto
      then show ?thesis by blast
    qed (use p in simp)
  qed (auto simp: lt dest: lt)
  moreover have "card ?B = card {j. bit (c ! m) j}" by (rule card_image) (simp add: inj_on_def)
  moreover have "finite {j. bit (c ! m) j}" by (rule finite_subset [of _ "{..<64}"]) (auto dest: lt)
  moreover have "?A \<inter> ?B = {}" by auto
  ultimately show ?case using Suc by (simp add: card_Un_disjoint nonZeroBits_nat)
qed simp

lemma count_bits_card: "TVEC_COUNT_BITS n tv = card (tvec_set n tv)"
proof -
  have "tvec_set n tv = {p. p < 64 * TVEC_CELLS n \<and> bit (tv_cell tv ! (p div 64)) (p mod 64)}"
    by (auto simp: tvec_set_def is_set_bit)
  then show ?thesis by (simp add: TVEC_COUNT_BITS_def count_cells)
qed

text \<open>
  A toggle vector is a set of threads: setting and reversing a bit, the bitwise operations and
  the bit count are insertion, symmetric difference, union, intersection and the number of
  elements, for every number of threads.
\<close>

lemma tvec_is_set:
  assumes "tvec_ok n tv1" and "tvec_ok n tv2" and "b < n"
  shows "tvec_set n (TVEC_SET_ZERO n) = {} \<and>
    tvec_set n (TVEC_SET_BIT n tv1 b) = insert b (tvec_set n tv1) \<and>
    tvec_set n (TVEC_REVERSE_BIT n tv1 b) =
      (if b \<in> tvec_set n tv1 then tvec_set n tv1 - {b} else insert b (tvec_set n tv1)) \<and>
    tvec_set n (TVEC_OR n tv1 tv2) = tvec_set n tv1 \<union> tvec_set n tv2 \<and>
    tvec_set n (TVEC_AND n tv1 tv2) = tvec_set n tv1 \<inter> tvec_set n tv2 \<and>
    tvec_set n (TVEC_XOR n tv1 tv2) = (tvec_set n tv1 - tvec_set n tv2) \<union> (tvec_set n tv2 - tvec_set n tv1) \<and>
    TVEC_COUNT_BITS n tv1 = card (tvec_set n tv1)"
proof -
  have b: "b < 64 * TVEC_CELLS n" using assms(3) by (rule thread_in_range)
  have ops: "bit (x OR 2 ^ k) j \<longleftrightarrow> bit x j \<or> j = k" "bit (x XOR 2 ^ k) j \<longleftrightarrow> bit x j \<noteq> (j = k)"
    if "k < 64" for x :: u64 and j k using that by (simp_all add: bit_or_iff bit_xor_iff bit_exp_at)
  have set: "TVEC_IS_SET n (TVEC_SET_BIT n tv1 b) p \<longleftrightarrow> TVEC_IS_SET n tv1 p \<or> p = b"
    and rev: "TVEC_IS_SET n (TVEC_REVERSE_BIT n tv1 b) p \<longleftrightarrow> TVEC_IS_SET n tv1 p \<noteq> (p = b)"
    if "p < 64 * TVEC_CELLS n" for p
    using that assms(1) bank_less [OF b] same_place [of p b]
    by (auto simp: bit_arith [OF b] cell_set_bank ops is_set_bit)
  show ?thesis using b by (auto simp: tvec_set_def set rev is_set_vec count_bits_card)
qed

lemma tvec_is_set_witness:
  "tvec_set 100 (TVEC_SET_BIT 100 (TVEC_SET_ZERO 100) 70) = {70}"
proof -
  have ok: "tvec_ok 100 (TVEC_SET_ZERO 100)" by (simp add: TVEC_SET_ZERO_def)
  from tvec_is_set [OF ok ok, of 70] show ?thesis by simp
qed

section \<open>Announcing by toggling\<close>

text \<open>
  The threads of \<open>sim.c\<close>, \<open>simqueue.c\<close> and \<open>simstack.c\<close> announce an operation by adding their own
  bit to a shared vector, and subtract it with the next one, each by one fetch-and-add on a bank.
  A thread keeps what it adds next (\<open>toggle\<close>) and the value of its bit (\<open>my_bit\<close>).
\<close>

record toggling =
  a_toggles :: toggle_vector
  g_toggle :: "nat \<Rightarrow> toggle_vector"
  g_my_bit :: "nat \<Rightarrow> toggle_vector"

definition toggling_init :: "nat \<Rightarrow> toggling" where
  "toggling_init n =
     \<lparr>a_toggles = TVEC_SET_ZERO n,
      g_toggle = (\<lambda>pid. TVEC_NEGATIVE n (TVEC_SET_BIT n (TVEC_SET_ZERO n) pid)),
      g_my_bit = (\<lambda>pid. TVEC_REVERSE_BIT n (TVEC_SET_ZERO n) pid)\<rparr>"

definition announce_toggle :: "nat \<Rightarrow> nat \<Rightarrow> toggling \<Rightarrow> toggling" where
  "announce_toggle n pid s =
     (let mybank = TVEC_GET_BANK_OF_BIT n pid;
          my_bit = TVEC_REVERSE_BIT n (g_my_bit s pid) pid;
          toggle = TVEC_NEGATIVE_BANK (g_toggle s pid) (g_toggle s pid) mybank
      in s\<lparr>a_toggles := TVEC_ATOMIC_ADD_BANK (a_toggles s) toggle mybank,
           g_toggle := (g_toggle s)(pid := toggle), g_my_bit := (g_my_bit s)(pid := my_bit)\<rparr>)"

lemma add_bit: "\<not> bit x k \<Longrightarrow> (x :: u64) + 2 ^ k = x OR 2 ^ k"
  by (rule disjunctive_add_eq_or, rule bit_eqI) (auto simp: bit_and_iff bit_exp_iff)

lemma sub_bit: "bit x k \<Longrightarrow> (x :: u64) - 2 ^ k = x AND NOT (2 ^ k)"
proof -
  assume b: "bit x k"
  then have k: "k < 64" using bits_below [where v = x and i = k] by (auto simp: not_less [symmetric])
  have "(x AND NOT (2 ^ k)) + 2 ^ k = (x AND NOT (2 ^ k)) OR 2 ^ k"
    by (rule disjunctive_add_eq_or, rule bit_eqI) (auto simp: bit_and_iff bit_not_iff)
  also have "\<dots> = x"
    using b by (intro bit_eqI) (auto simp: bit_or_iff bit_and_iff bit_not_iff bit_exp_at [OF k])
  finally show ?thesis by (metis add_diff_cancel_right')
qed

text \<open>\<open>c\<close> says how often each thread has announced.\<close>

definition toggling_inv :: "nat \<Rightarrow> toggling \<Rightarrow> (nat \<Rightarrow> nat) \<Rightarrow> bool" where
  "toggling_inv n s c \<longleftrightarrow> tvec_ok n (a_toggles s) \<and>
     (\<forall>i < n. tvec_ok n (g_toggle s i) \<and> tvec_ok n (g_my_bit s i) \<and>
       bit (tv_cell (a_toggles s) ! (i div 64)) (i mod 64) = odd (c i) \<and>
       bit (tv_cell (g_my_bit s i) ! (i div 64)) (i mod 64) = even (c i) \<and>
       tv_cell (g_toggle s i) ! (i div 64) = (if even (c i) then - (2 ^ (i mod 64)) else 2 ^ (i mod 64)))"

lemma toggling_init_inv: "toggling_inv n (toggling_init n) (\<lambda>i. 0)"
proof -
  have "tv_cell (TVEC_SET_ZERO n) ! j = 0" if "j < TVEC_CELLS n" for j using that by (simp add: TVEC_SET_ZERO_def LOOP_def)
  moreover have "tvec_ok n (TVEC_SET_ZERO n)" by (simp add: TVEC_SET_ZERO_def)
  moreover have "i div 64 < TVEC_CELLS n" if "i < n" for i using that thread_in_range bank_less by blast
  moreover have "tv_cell (TVEC_NEGATIVE n tv) ! j = - (tv_cell tv ! j)" if "j < TVEC_CELLS n" for j tv
    using that by (simp add: TVEC_NEGATIVE_def LOOP_def)
  moreover have "tvec_ok n (TVEC_NEGATIVE n tv)" for tv by (simp add: TVEC_NEGATIVE_def)
  ultimately show ?thesis
    by (auto simp: toggling_inv_def toggling_init_def bit_arith thread_in_range cell_set_bank bit_exp_at)
qed

lemma toggling_step:
  assumes inv: "toggling_inv n s c" and p: "p < n"
  shows "toggling_inv n (announce_toggle n p s) (c(p := Suc (c p)))"
proof -
  let ?b = "p div 64" and ?k = "p mod 64"
  let ?g = "tv_cell (g_toggle s p) ! ?b" and ?x = "tv_cell (a_toggles s) ! ?b"
  have range: "p < 64 * TVEC_CELLS n" "?b < TVEC_CELLS n" using p thread_in_range bank_less by blast+
  have g: "?g = (if even (c p) then - (2 ^ ?k) else 2 ^ ?k)" and x: "bit ?x ?k = odd (c p)"
    using inv p by (auto simp: toggling_inv_def)
  have new: "?x + - ?g = (if even (c p) then ?x OR 2 ^ ?k else ?x AND NOT (2 ^ ?k))"
    using g x add_bit [of ?x ?k] sub_bit [of ?x ?k] by simp
  have cell: "bit (?x + - ?g) j = (if j = ?k then even (c p) else bit ?x j)" for j
    unfolding new using bit_exp_at [of ?k j] bits_below [where v = ?x and i = j]
    by (cases "j < 64") (auto simp: bit_or_iff bit_and_iff bit_not_iff bits_below)
  have other: "bit (if i div 64 = ?b then ?x + - ?g else tv_cell (a_toggles s) ! (i div 64)) (i mod 64) = odd (c i)"
    if "i < n" "i \<noteq> p" for i
  proof (cases "i div 64 = ?b")
    case True
    then have ne: "i mod 64 \<noteq> ?k" using same_place [of i p] that(2) by blast
    have "bit (tv_cell (a_toggles s) ! (i div 64)) (i mod 64) = odd (c i)"
      using inv that(1) by (simp add: toggling_inv_def)
    then show ?thesis using ne unfolding True by (simp only: cell if_False if_True refl)
  next
    case False
    then show ?thesis using inv that(1) by (simp add: toggling_inv_def)
  qed
  have mine: "bit (?x + - ?g) ?k = even (c p)" unfolding cell by simp
  have mb: "bit (tv_cell (g_my_bit s p) ! ?b XOR 2 ^ ?k) ?k = odd (c p)"
    using inv p by (simp add: toggling_inv_def bit_xor_iff bit_exp_at)
  have ok: "tvec_ok n (a_toggles s)" "tvec_ok n (g_toggle s p)" "tvec_ok n (g_my_bit s p)"
    using inv p by (simp_all add: toggling_inv_def)
  define t where "t = announce_toggle n p s"
  have t: "a_toggles t = set_bank ?b (?x + - ?g) (a_toggles s)"
    "g_toggle t = (g_toggle s)(p := set_bank ?b (- ?g) (g_toggle s p))"
    "g_my_bit t = (g_my_bit s)(p := set_bank ?b (tv_cell (g_my_bit s p) ! ?b XOR 2 ^ ?k) (g_my_bit s p))"
    using range by (simp_all add: t_def announce_toggle_def Let_def bit_arith TVEC_NEGATIVE_BANK_def
        TVEC_ATOMIC_ADD_BANK_def cell_set_bank [OF ok(2)] del: add_uminus_conv_diff)
  have "toggling_inv n t (c(p := Suc (c p)))"
    unfolding toggling_inv_def
  proof (intro conjI allI impI)
    fix i
    assume i: "i < n"
    show "bit (tv_cell (a_toggles t) ! (i div 64)) (i mod 64) = odd ((c(p := Suc (c p))) i)"
      using other [OF i] mine unfolding t(1) cell_set_bank [OF ok(1) range(2)] by (cases "i = p") simp_all
    show "bit (tv_cell (g_my_bit t i) ! (i div 64)) (i mod 64) = even ((c(p := Suc (c p))) i)"
      using inv i mb by (cases "i = p") (simp_all add: t(3) cell_set_bank [OF ok(3) range(2)] toggling_inv_def)
    show "tv_cell (g_toggle t i) ! (i div 64) =
        (if even ((c(p := Suc (c p))) i) then - (2 ^ (i mod 64)) else 2 ^ (i mod 64))"
      using inv i g by (cases "i = p") (simp_all add: t(2) cell_set_bank [OF ok(2) range(2)] toggling_inv_def)
  qed (use inv t in \<open>auto simp: toggling_inv_def\<close>)
  then show ?thesis by (simp add: t_def)
qed

text \<open>
  Whatever the order in which the threads announce: a thread's bit in the shared vector is set
  exactly when it has announced an odd number of times, no announcement disturbs another thread's
  bit, and the thread's own \<open>my_bit\<close> is the complement of its shared bit.
\<close>

lemma toggles_exact:
  assumes "\<forall>p \<in> set ps. p < n" and "i < n"
  shows "TVEC_IS_SET n (a_toggles (fold (announce_toggle n) ps (toggling_init n))) i = odd (count_list ps i) \<and>
    TVEC_IS_SET n (g_my_bit (fold (announce_toggle n) ps (toggling_init n)) i) i = even (count_list ps i)"
proof -
  have "toggling_inv n (fold (announce_toggle n) ps s) (\<lambda>i. c i + count_list ps i)"
    if "toggling_inv n s c" "\<forall>p \<in> set ps. p < n" for s c
    using that
  proof (induction ps arbitrary: s c)
    case (Cons p ps)
    have "(\<lambda>i. (c(p := Suc (c p))) i + count_list ps i) = (\<lambda>i. c i + count_list (p # ps) i)" by auto
    then show ?case using Cons.IH [OF toggling_step [OF Cons.prems(1), of p]] Cons.prems(2) by simp
  qed simp
  from this [OF toggling_init_inv assms(1)] assms(2) show ?thesis
    by (simp add: toggling_inv_def is_set_bit thread_in_range)
qed

lemma toggles_exact_witness:
  "TVEC_IS_SET 70 (a_toggles (fold (announce_toggle 70) [3, 69, 3, 69, 69] (toggling_init 70))) 69"
  using toggles_exact [of "[3, 69, 3, 69, 69]" 70 69] by simp

section \<open>The active set\<close>

record active_set =
  as_announce :: "nat \<Rightarrow> int"
  as_set :: toggle_vector
  as_mystate :: "nat \<Rightarrow> toggle_vector"

text \<open>\<open>SHARED_OBJECT_INIT\<close>, and what \<open>Execute\<close> prepares for each thread.\<close>

definition activeset_init :: "nat \<Rightarrow> active_set" where
  "activeset_init n = \<lparr>as_announce = (\<lambda>i. 0), as_set = TVEC_SET_ZERO n,
     as_mystate = (\<lambda>me. TVEC_SET_BIT n (TVEC_SET_ZERO n) me)\<rparr>"

text \<open>One round of \<open>Execute\<close>: the join (or leave), and the next \<open>mystate\<close>.\<close>

definition activeset_round :: "nat \<Rightarrow> nat \<Rightarrow> int \<Rightarrow> active_set \<Rightarrow> active_set" where
  "activeset_round n me i s =
     s\<lparr>as_announce := (as_announce s)(me := i),
       as_set := TVEC_ATOMIC_COPY_BANKS (as_set s) (as_mystate s me) (TVEC_GET_BANK_OF_BIT n me),
       as_mystate := (as_mystate s)(me := TVEC_NEGATIVE n (as_mystate s me))\<rparr>"

text \<open>The \<open>GetSet\<close> loop: the indices of \<open>announce\<close> and \<open>lannounce\<close> it uses, in order.\<close>

lemma low_bit: "(v :: u64) \<noteq> 0 \<Longrightarrow> bit v (bitSearchFirst v)"
  using bitSearchFirst_low by blast

lemma finite_bits: "finite {j. bit (v :: u64) j}"
  by (rule finite_subset [of _ "{..<64}"]) (use bits_below [where v = v] in \<open>auto simp: not_less [symmetric]\<close>)

lemma bits_without: "bit (v :: u64) k \<Longrightarrow> {j. bit (v XOR push_bit k 1) j} = {j. bit v j} - {k}"
proof -
  assume b: "bit v k"
  then have "k < 64" using bits_below [where v = v and i = k] by (auto simp: not_less [symmetric])
  then show ?thesis using b by (auto simp: bit_xor_iff bit_exp_at)
qed

function get_cell :: "nat \<Rightarrow> u64 \<Rightarrow> nat list" where
  "get_cell prefix c =
     (if c = 0 then []
      else let pos = bitSearchFirst c in (prefix + pos) # get_cell prefix (c XOR push_bit pos 1))"
  by pat_completeness auto
termination
proof (relation "measure (\<lambda>(prefix, c). card {j. bit c j})")
  fix prefix :: nat and c :: u64 and pos
  assume "c \<noteq> 0" and "pos = bitSearchFirst c"
  then have b: "bit c pos" by (simp add: low_bit)
  have "card {j. bit (c XOR push_bit pos 1) j} < card {j. bit c j}"
    unfolding bits_without [OF b] using b finite_bits by (intro card_Diff1_less) auto
  then show "((prefix, c XOR push_bit pos 1), prefix, c) \<in> measure (\<lambda>(prefix, c). card {j. bit c j})"
    by (simp only: in_measure case_prod_conv)
qed simp

declare get_cell.simps [simp del]

definition get_set :: "nat \<Rightarrow> toggle_vector \<Rightarrow> nat list" where
  "get_set n lactive_set = concat (map (\<lambda>k. get_cell (64 * (k + 1)) (tv_cell lactive_set ! k)) [0..<TVEC_CELLS n])"

lemma set_get_cell: "set (get_cell prefix c) = (+) prefix ` {j. bit c j}"
proof (induction prefix c rule: get_cell.induct)
  case (1 prefix c)
  show ?case
  proof (cases "c = 0")
    case False
    let ?p = "bitSearchFirst c"
    have "set (get_cell prefix (c XOR push_bit ?p 1)) = (+) prefix ` ({j. bit c j} - {?p})"
      using 1 [OF False refl] bits_without [OF low_bit [OF False]] by (simp only:)
    then have "set (get_cell prefix c) = insert (prefix + ?p) ((+) prefix ` ({j. bit c j} - {?p}))"
      using False by (subst get_cell.simps) (simp only: Let_def if_False list.set)
    then show ?thesis using low_bit [OF False] by auto
  qed (simp add: get_cell.simps)
qed

lemma set_get_set: "set (get_set n tv) = (+) 64 ` tvec_set n tv"
proof (intro equalityI subsetI)
  fix q
  assume "q \<in> set (get_set n tv)"
  then obtain k j where q: "k < TVEC_CELLS n" "bit (tv_cell tv ! k) j" "q = 64 * (k + 1) + j"
    by (auto simp: get_set_def set_get_cell)
  then have "j < 64" using bits_below [where v = "tv_cell tv ! k" and i = j] by (auto simp: not_less [symmetric])
  then have "64 * k + j \<in> tvec_set n tv" using q by (auto simp: tvec_set_def is_set_bit)
  then show "q \<in> (+) 64 ` tvec_set n tv" using q by (intro image_eqI [of _ _ "64 * k + j"]) auto
next
  fix q
  assume "q \<in> (+) 64 ` tvec_set n tv"
  then obtain p where p: "p < 64 * TVEC_CELLS n" "bit (tv_cell tv ! (p div 64)) (p mod 64)" "q = 64 + p"
    by (auto simp: tvec_set_def is_set_bit)
  then have "q = 64 * (p div 64 + 1) + p mod 64" by simp
  then have "q \<in> set (get_cell (64 * (p div 64 + 1)) (tv_cell tv ! (p div 64)))"
    using p(2) by (simp only: set_get_cell) (rule image_eqI, rule refl, simp)
  then show "q \<in> set (get_set n tv)" using bank_less [OF p(1)] by (auto simp: get_set_def)
qed

text \<open>
  The active set of \<open>activeset.c\<close> is not one: when a second thread of the same bank joins, the
  first is no longer in the set, because a join copies the thread's bank over the shared one; and
  the set is read with every thread's number too high by 64, beyond the end of \<open>announce\<close> and of
  the local \<open>lannounce\<close> when there are at most 64 threads.
\<close>

lemma activeset_broken:
  assumes "p < n" and "q < n" and "p \<noteq> q" and "p div 64 = q div 64"
  shows "tvec_set n (as_set (activeset_round n q 0 (activeset_round n p 0 (activeset_init n)))) = {q} \<and>
    set (get_set n (as_set (activeset_round n q 0 (activeset_round n p 0 (activeset_init n))))) = {64 + q} \<and>
    (n \<le> 64 \<longrightarrow> n \<le> 64 + q)"
proof -
  let ?s = "as_set (activeset_round n q 0 (activeset_round n p 0 (activeset_init n)))"
  have rp: "p < 64 * TVEC_CELLS n" "q < 64 * TVEC_CELLS n" using assms thread_in_range by blast+
  have okz: "tvec_ok n (TVEC_SET_ZERO n)" by (simp add: TVEC_SET_ZERO_def)
  have zero: "tv_cell (TVEC_SET_ZERO n) ! j = 0" if "j < TVEC_CELLS n" for j using that by (simp add: TVEC_SET_ZERO_def LOOP_def)
  have s: "tvec_ok n ?s" "tv_cell ?s ! j = (if j = q div 64 then 2 ^ (q mod 64) else 0)" if "j < TVEC_CELLS n" for j
    using that rp assms okz zero bank_less [of q n]
    by (auto simp: activeset_round_def activeset_init_def TVEC_ATOMIC_COPY_BANKS_def bit_arith cell_set_bank)
  have "r \<in> tvec_set n ?s \<longleftrightarrow> r = q" for r
  proof (cases "r < 64 * TVEC_CELLS n")
    case True
    then show ?thesis using s(2) [of "r div 64"] bank_less [OF True] same_place [of r q]
      by (auto simp: tvec_set_def is_set_bit bit_exp_at)
  next
    case False
    then show ?thesis using rp by (auto simp: tvec_set_def)
  qed
  then have "tvec_set n ?s = {q}" by blast
  then show ?thesis by (simp add: set_get_set)
qed

lemma activeset_broken_witness:
  "tvec_set 2 (as_set (activeset_round 2 1 0 (activeset_round 2 0 0 (activeset_init 2)))) = {1}"
  using activeset_broken [of 0 2 1] by simp

end
