(* ===== verification/PoolRand.thy ===== *)
theory PoolRand
  imports Prelude
begin

text \<open>
  What a thread keeps for itself in \<open>synch1.0.1\<close>: the pool of objects (\<open>pool.h\<close>), the random numbers
  (\<open>rand.h\<close>) and the back-off (\<open>backoff.h\<close>).
\<close>

section \<open>The pool\<close>

definition PSIZE :: nat where
  "PSIZE = 4096"

text \<open>\<open>pl_p\<close> is the array of addresses; \<open>heap\<close> is where the next block of memory starts.\<close>

record pool =
  pl_p :: "nat list"
  pl_index :: nat
  pl_obj_size :: nat

definition init_pool :: "nat \<Rightarrow> nat \<Rightarrow> pool \<times> nat" where
  "init_pool obj_size heap =
     (\<lparr>pl_p = map (\<lambda>i. heap + i * obj_size) [0..<PSIZE], pl_index = 0, pl_obj_size = obj_size\<rparr>,
      heap + PSIZE * obj_size)"

definition alloc_obj :: "pool \<Rightarrow> nat \<Rightarrow> nat \<times> pool \<times> nat" where
  "alloc_obj pool heap =
     (let (pool, heap) = (if pl_index pool = PSIZE then init_pool (pl_obj_size pool) heap else (pool, heap)) in
      (pl_p pool ! pl_index pool, pool\<lparr>pl_index := pl_index pool + 1\<rparr>, heap))"

definition free_obj :: "pool \<Rightarrow> nat \<Rightarrow> pool" where
  "free_obj pool obj =
     (if pl_index pool > 0
      then pool\<lparr>pl_index := pl_index pool - 1, pl_p := (pl_p pool)[pl_index pool - 1 := obj]\<rparr>
      else pool)"

definition rollback :: "pool \<Rightarrow> nat \<Rightarrow> pool" where
  "rollback pool num_objs =
     (if int (pl_index pool) - int num_objs \<ge> 0 then pool\<lparr>pl_index := pl_index pool - num_objs\<rparr>
      else pool\<lparr>pl_index := 0\<rparr>)"

text \<open>
  A pool is well formed when its free objects, those from \<open>pl_index\<close> on, are distinct, lie below the
  heap's end and are none of the objects in use.
\<close>

definition free_objs :: "pool \<Rightarrow> nat list" where
  "free_objs pool = drop (pl_index pool) (pl_p pool)"

definition pool_ok :: "pool \<Rightarrow> nat \<Rightarrow> nat set \<Rightarrow> bool" where
  "pool_ok pool heap used \<longleftrightarrow>
     length (pl_p pool) = PSIZE \<and> pl_index pool \<le> PSIZE \<and> 0 < pl_obj_size pool \<and>
     distinct (free_objs pool) \<and> (\<forall>a \<in> set (free_objs pool) \<union> used. a < heap) \<and> set (free_objs pool) \<inter> used = {}"

lemma fresh_block:
  assumes "0 < sz"
  shows "distinct (map (\<lambda>i. heap + i * sz) [0..<m])"
    and "\<forall>a \<in> set (map (\<lambda>i. heap + i * sz) [0..<m]). heap \<le> a \<and> a < heap + m * sz"
proof -
  show "distinct (map (\<lambda>i. heap + i * sz) [0..<m])" using assms by (simp add: distinct_map inj_on_def)
  have "i * sz < m * sz" if "i < m" for i using that assms by simp
  then show "\<forall>a \<in> set (map (\<lambda>i. heap + i * sz) [0..<m]). heap \<le> a \<and> a < heap + m * sz" by auto
qed

lemma init_pool_ok:
  assumes "0 < sz" and "\<forall>a \<in> used. a < heap" and "init_pool sz heap = (pool, heap')"
  shows "pool_ok pool heap' used" and "pl_index pool = 0"
proof -
  let ?l = "map (\<lambda>i. heap + i * sz) [0..<PSIZE]"
  have p: "pool = \<lparr>pl_p = ?l, pl_index = 0, pl_obj_size = sz\<rparr>" "heap' = heap + PSIZE * sz"
    using assms(3) by (auto simp: init_pool_def)
  note F = fresh_block [OF assms(1), of heap PSIZE]
  have "a < heap'" if "a \<in> set ?l \<union> used" for a
    using that F(2) assms(2) unfolding p(2) by (metis Un_iff trans_less_add1)
  moreover have "set ?l \<inter> used = {}" using F(2) assms(2) by (meson disjoint_iff not_le)
  ultimately show "pool_ok pool heap' used"
    unfolding pool_ok_def free_objs_def p(1) using F(1) assms(1) by (simp del: set_map set_upt)
  show "pl_index pool = 0" by (simp add: p(1))
qed

text \<open>
  A thread's pool never hands out an object that is in use, and what is freed can be handed out
  again: \<open>alloc_obj\<close> returns an unused object, \<open>free_obj\<close> makes it available, and the pool stays
  well formed. Freeing what was just allocated restores the pool.
\<close>

lemma pool_exclusive:
  assumes "pool_ok pool heap used" and "alloc_obj pool heap = (obj, pool', heap')"
  shows "obj \<notin> used \<and> pool_ok pool' heap' (insert obj used) \<and>
    pool_ok (free_obj pool' obj) heap' used \<and>
    (pl_index pool < PSIZE \<longrightarrow> free_obj pool' obj = pool) \<and>
    (\<exists>heap''. alloc_obj (free_obj pool' obj) heap' = (obj, pool', heap''))"
proof -
  define q where "q = (if pl_index pool = PSIZE then init_pool (pl_obj_size pool) heap else (pool, heap))"
  obtain p h where ph: "q = (p, h)" by fastforce
  have ok: "pool_ok p h used" and i: "pl_index p < PSIZE"
    using assms(1) init_pool_ok [of "pl_obj_size pool" used heap p h] ph
    by (auto simp: q_def pool_ok_def PSIZE_def split: if_splits)
  have out: "obj = pl_p p ! pl_index p" "pool' = p\<lparr>pl_index := pl_index p + 1\<rparr>" "heap' = h"
    using assms(2) ph by (auto simp: alloc_obj_def q_def split: if_splits)
  have len: "length (pl_p p) = PSIZE" using ok by (simp add: pool_ok_def)
  then have split: "free_objs p = obj # free_objs pool'"
    using i by (simp add: free_objs_def out Cons_nth_drop_Suc)
  have restored: "free_obj pool' obj = p"
    using len i by (simp add: free_obj_def out)
  have "pool_ok pool' heap' (insert obj used)"
    using ok i split len unfolding pool_ok_def by (auto simp: out)
  moreover have "obj \<notin> used" using ok split by (auto simp: pool_ok_def)
  moreover have "p = pool" if "pl_index pool < PSIZE" using that ph by (simp add: q_def)
  ultimately show ?thesis using restored ok out i by (auto simp: alloc_obj_def)
qed

lemma pool_exclusive_witness:
  "fst (alloc_obj (fst (init_pool 16 64)) (64 + PSIZE * 16)) \<notin> {5}"
proof -
  have "pool_ok (fst (init_pool 16 64)) (64 + PSIZE * 16) {5}"
    by (rule init_pool_ok [of 16 "{5}" 64]) (simp_all add: init_pool_def)
  moreover obtain obj pool' heap' where a: "alloc_obj (fst (init_pool 16 64)) (64 + PSIZE * 16) = (obj, pool', heap')"
    using prod_cases3 by blast
  ultimately show ?thesis using pool_exclusive [of "fst (init_pool 16 64)" "64 + PSIZE * 16" "{5}" obj pool' heap'] by simp
qed

section \<open>Random numbers\<close>

definition SIM_RAND_MAX :: int where
  "SIM_RAND_MAX = 32767"

definition simRandom :: "u64 \<Rightarrow> int \<times> u64" where
  "simRandom seed =
     (let nxt = seed * 1103515245 + 12345 in (uint (ucast (nxt div 65536) :: u32) mod 32768, nxt))"

definition simSRandom :: "u64 \<Rightarrow> u64" where
  "simSRandom seed = seed"

text \<open>
  The quotient by \<open>SIM_RAND_MAX + 1.0\<close>, a power of two, and its product with \<open>high\<close> are exact in
  \<open>double\<close> arithmetic for \<open>high\<close> below \<open>2 ^ 38\<close>; the cast to \<open>long\<close> truncates.
\<close>

definition simRandomRange :: "int \<Rightarrow> int \<Rightarrow> u64 \<Rightarrow> int \<times> u64" where
  "simRandomRange low high seed =
     (let (r, nxt) = simRandom seed in (low + (high * r) div (SIM_RAND_MAX + 1), nxt))"

lemma div_32768: "(x :: int) < h * 32768 \<Longrightarrow> x div 32768 < h"
  by presburger

text \<open>
  \<open>simRandom\<close> stays in \<open>0 .. SIM_RAND_MAX\<close>, and \<open>simRandomRange low high\<close> in
  \<open>low .. low + high - 1\<close>: with \<open>low = 1\<close> that is \<open>1 .. high\<close>, as its callers use it.
\<close>

lemma random_in_range:
  assumes "0 < high" and "high < 2 ^ 38"
  shows "0 \<le> fst (simRandom seed) \<and> fst (simRandom seed) \<le> SIM_RAND_MAX \<and>
    low \<le> fst (simRandomRange low high seed) \<and> fst (simRandomRange low high seed) < low + high"
proof -
  let ?r = "fst (simRandom seed)"
  have r: "0 \<le> ?r" "?r < 32768" by (simp_all add: simRandom_def Let_def)
  have "0 \<le> high * ?r div 32768" using r assms(1) by (simp add: pos_imp_zdiv_nonneg_iff)
  moreover have "high * ?r < high * 32768" using r assms(1) by simp
  then have "high * ?r div 32768 < high" by (rule div_32768)
  ultimately show ?thesis using r by (simp add: simRandomRange_def SIM_RAND_MAX_def case_prod_beta Let_def)
qed

lemma random_in_range_witness: "1 \<le> fst (simRandomRange 1 64 5) \<and> fst (simRandomRange 1 64 5) < 65"
  using random_in_range [of 64 5 1] by simp

section \<open>Back-off\<close>

record backoff =
  bo_backoff :: u32
  bo_base_bits :: u32
  bo_cap_bits :: u32
  bo_shift_bits :: u32
  bo_base :: u32
  bo_cap :: u32
  bo_addend :: u32
  bo_help :: u32
  bo_counter :: u32
  bo_rnd :: u32
  bo_prev_avg :: u32

definition BHIS :: nat where
  "BHIS = 4"

text \<open>\<open>(1 << bits) - 1\<close>, for bits that do not shift out of an \<open>int\<close>.\<close>

definition ones :: "u32 \<Rightarrow> u32" where
  "ones bits = push_bit (unat bits) 1 - 1"

definition init_backoff :: "u32 \<Rightarrow> u32 \<Rightarrow> u32 \<Rightarrow> backoff" where
  "init_backoff base_bits cap_bits shift_bits =
     \<lparr>bo_backoff = ones base_bits, bo_base_bits = base_bits, bo_cap_bits = cap_bits, bo_shift_bits = shift_bits,
      bo_base = ones base_bits, bo_cap = ones cap_bits, bo_addend = ones shift_bits, bo_help = 0, bo_counter = 0,
      bo_rnd = 0, bo_prev_avg = 0\<rparr>"

definition reset_backoff :: "backoff \<Rightarrow> backoff" where
  "reset_backoff b = b\<lparr>bo_backoff := bo_base b\<rparr>"

text \<open>The spins of \<open>backoff_delay\<close> (with at most as many threads as processors), and its effect.\<close>

definition backoff_delay :: "backoff \<Rightarrow> nat \<times> backoff" where
  "backoff_delay b =
     (unat (bo_backoff b),
      b\<lparr>bo_backoff := and ((push_bit (unat (bo_shift_bits b)) (bo_backoff b)) + bo_addend b) (bo_cap b)\<rparr>)"

text \<open>The spins of \<open>backoff_play\<close>, which leaves the back-off as it is.\<close>

definition backoff_play :: "backoff \<Rightarrow> nat" where
  "backoff_play b = unat (bo_backoff b)"

text \<open>
  The value of \<open>(float) n\<close>: \<open>n\<close> to 24 significant bits, to the nearest, ties to even; and the cast of
  a \<open>float\<close> or \<open>double\<close> back to \<open>int\<close>, not defined outside its range.
\<close>

fun bit_length :: "nat \<Rightarrow> nat" where
  "bit_length n = (if n = 0 then 0 else Suc (bit_length (n div 2)))"

declare bit_length.simps [simp del]

definition to_float :: "nat \<Rightarrow> nat" where
  "to_float n =
     (let e = bit_length n - 24; q = n div 2 ^ e; r = n mod 2 ^ e in
      if 2 * r > 2 ^ e \<or> (2 * r = 2 ^ e \<and> odd q) then (q + 1) * 2 ^ e else q * 2 ^ e)"

definition to_int :: "nat \<Rightarrow> u32 option" where
  "to_int n = (if n < 2 ^ 31 then Some (of_nat n) else None)"

definition backoff_reduce :: "backoff \<Rightarrow> backoff option" where
  "backoff_reduce b =
     (case to_int (to_float (unat (bo_backoff b)) div 2) of
        None \<Rightarrow> None
      | Some v \<Rightarrow> Some (b\<lparr>bo_backoff := if v < bo_base b then bo_base b else v\<rparr>))"

definition backoff_increase :: "backoff \<Rightarrow> backoff option" where
  "backoff_increase b =
     (case to_int (to_float (unat (bo_backoff b)) * 2) of
        None \<Rightarrow> None
      | Some v \<Rightarrow> Some (b\<lparr>bo_backoff := if v > bo_cap b then bo_cap b else v\<rparr>))"

definition backoffCalculate :: "nat \<Rightarrow> i32 \<Rightarrow> backoff \<Rightarrow> backoff option" where
  "backoffCalculate n active b =
     (let b = b\<lparr>bo_rnd := bo_rnd b + 1, bo_help := bo_help b + active\<rparr> in
      if bo_rnd b mod of_nat BHIS \<noteq> 0 then Some b
      else
        let avg = bo_help b div of_nat BHIS in
        map_option (\<lambda>b. b\<lparr>bo_prev_avg := avg, bo_help := 0\<rparr>)
          (if avg < of_nat (BHIS * (3 * n div 2)) then backoff_increase (b\<lparr>bo_counter := bo_counter b + 1\<rparr>)
           else if avg = bo_prev_avg b then backoff_reduce (b\<lparr>bo_counter := bo_counter b - 1\<rparr>)
           else Some b))"

definition backoffReCalc :: "nat \<Rightarrow> bool \<Rightarrow> bool \<Rightarrow> int \<Rightarrow> backoff \<Rightarrow> backoff option" where
  "backoffReCalc n c1 c2 help b =
     (if c1 then backoff_reduce b
      else if c2 then (if help < int (n div 5) then backoff_increase b else backoff_reduce b)
      else Some (reset_backoff b))"

datatype bop = BReset | BDelay | BCalculate nat i32 | BReCalc nat bool bool int

fun bstep :: "bop \<Rightarrow> backoff \<Rightarrow> backoff option" where
  "bstep BReset b = Some (reset_backoff b)"
| "bstep BDelay b = Some (snd (backoff_delay b))"
| "bstep (BCalculate n active) b = backoffCalculate n active b"
| "bstep (BReCalc n c1 c2 help) b = backoffReCalc n c1 c2 help b"

definition backoff_ok :: "backoff \<Rightarrow> bool" where
  "backoff_ok b \<longleftrightarrow> unat (bo_cap b) < 2 ^ 29 \<and> bo_base b \<le> bo_cap b \<and> bo_backoff b \<le> bo_cap b"

lemma bit_length_exp: "n < 2 ^ bit_length n"
proof (induction n rule: bit_length.induct)
  case (1 n)
  then show ?case by (subst bit_length.simps) auto
qed

lemma bit_length_small: "n < 2 ^ k \<Longrightarrow> bit_length n \<le> k"
proof (induction k arbitrary: n)
  case (Suc k)
  then have "bit_length (n div 2) \<le> k" by simp
  then show ?case by (subst bit_length.simps) simp
qed (simp add: bit_length.simps)

lemma to_float_small:
  assumes "n < 2 ^ 29"
  shows "to_float n \<le> 2 ^ 29"
proof -
  let ?e = "bit_length n - 24"
  have e: "?e \<le> 5" using bit_length_small [OF assms] by simp
  have "n div 2 ^ ?e < 2 ^ (29 - ?e)"
    using assms e by (intro less_mult_imp_div_less) (simp flip: power_add)
  then have "(n div 2 ^ ?e + 1) * 2 ^ ?e \<le> 2 ^ (29 - ?e) * 2 ^ ?e" by (intro mult_right_mono) simp_all
  also have "\<dots> = (2 :: nat) ^ 29" using e by (simp flip: power_add)
  finally show ?thesis by (auto simp: to_float_def Let_def)
qed

lemma backoff_bound: "backoff_ok b \<Longrightarrow> to_float (unat (bo_backoff b)) \<le> 2 ^ 29"
  by (rule to_float_small) (auto simp: backoff_ok_def word_le_nat_alt)

lemma to_float_le: "to_float n \<le> 2 * n"
proof (cases "n < 2 ^ 24")
  case True
  then have "bit_length n - 24 = 0" using bit_length_small [of n 24] by simp
  then show ?thesis by (simp add: to_float_def)
next
  case False
  let ?e = "bit_length n - 24"
  have "n div 2 ^ ?e * 2 ^ ?e \<le> n" by simp
  then have "n div 2 ^ ?e * 2 ^ ?e \<le> 2 * n" by linarith
  moreover have "(n div 2 ^ ?e + 1) * 2 ^ ?e \<le> 2 * n" if "2 * (n mod 2 ^ ?e) \<ge> 2 ^ ?e"
  proof -
    have "(n div 2 ^ ?e + 1) * 2 ^ ?e = n div 2 ^ ?e * 2 ^ ?e + 2 ^ ?e" by simp
    then show ?thesis using div_mult_mod_eq [of n "2 ^ ?e"] that by linarith
  qed
  ultimately show ?thesis by (auto simp: to_float_def Let_def)
qed

lemma reduce_ok:
  assumes ok: "backoff_ok b"
  shows "\<exists>b'. backoff_reduce b = Some b' \<and> backoff_ok b' \<and> bo_cap b' = bo_cap b \<and> bo_base b \<le> bo_backoff b'"
proof -
  let ?v = "to_float (unat (bo_backoff b)) div 2"
  have "?v \<le> unat (bo_backoff b)" using to_float_le [of "unat (bo_backoff b)"] by simp
  moreover have lt: "?v < 2 ^ 31" using backoff_bound [OF ok] by simp
  ultimately have "of_nat ?v \<le> bo_backoff b" by (simp add: word_le_nat_alt unat_of_nat)
  then have "of_nat ?v \<le> bo_cap b" using ok by (auto simp: backoff_ok_def)
  then show ?thesis using ok lt by (auto simp: backoff_reduce_def to_int_def backoff_ok_def)
qed

lemma increase_ok:
  assumes ok: "backoff_ok b"
  shows "\<exists>b'. backoff_increase b = Some b' \<and> backoff_ok b' \<and> bo_cap b' = bo_cap b"
  using backoff_bound [OF ok] ok by (auto simp: backoff_increase_def to_int_def backoff_ok_def)

lemma backoff_ok_fields [simp]:
  "backoff_ok (b\<lparr>bo_rnd := r\<rparr>) = backoff_ok b" "backoff_ok (b\<lparr>bo_help := r\<rparr>) = backoff_ok b"
  "backoff_ok (b\<lparr>bo_counter := r\<rparr>) = backoff_ok b" "backoff_ok (b\<lparr>bo_prev_avg := r\<rparr>) = backoff_ok b"
  by (simp_all add: backoff_ok_def)

lemma bstep_ok:
  assumes ok: "backoff_ok b"
  shows "\<exists>b'. bstep op b = Some b' \<and> backoff_ok b' \<and> bo_cap b' = bo_cap b"
proof (cases op)
  case BReset
  then show ?thesis using ok by (simp add: reset_backoff_def backoff_ok_def)
next
  case BDelay
  have "and x (bo_cap b) \<le> bo_cap b" for x by (rule word_and_le1)
  then show ?thesis using BDelay ok by (simp add: backoff_delay_def backoff_ok_def)
next
  case (BCalculate n active)
  define c where "c = b\<lparr>bo_rnd := bo_rnd b + 1, bo_help := bo_help b + active\<rparr>"
  have c: "backoff_ok c" "bo_cap c = bo_cap b" using ok by (simp_all add: c_def)
  then show ?thesis
    using BCalculate increase_ok [of "c\<lparr>bo_counter := bo_counter c + 1\<rparr>"] reduce_ok [of "c\<lparr>bo_counter := bo_counter c - 1\<rparr>"]
    by (auto simp: backoffCalculate_def c_def [symmetric] Let_def)
next
  case (BReCalc n c1 c2 h)
  then show ?thesis using reduce_ok [OF ok] increase_ok [OF ok] ok
    by (auto simp: backoffReCalc_def reset_backoff_def backoff_ok_def)
qed

fun brun :: "bop list \<Rightarrow> backoff \<Rightarrow> backoff option" where
  "brun [] b = Some b"
| "brun (op # ops) b = (case bstep op b of None \<Rightarrow> None | Some b' \<Rightarrow> brun ops b')"

text \<open>
  Started with at most 29 cap bits and no more base bits than cap bits, the back-off never
  leaves the range of the casts between \<open>float\<close> and \<open>int\<close> and never exceeds its cap, whatever
  sequence of its operations is made; so a delay makes at most \<open>2 ^ cap_bits - 1\<close> spins.
\<close>

lemma backoff_bounded:
  assumes "base_bits \<le> cap_bits" and "cap_bits \<le> 29"
  shows "\<exists>b. brun ops (init_backoff base_bits cap_bits shift_bits) = Some b \<and>
    bo_backoff b \<le> ones cap_bits \<and> fst (backoff_delay b) < 2 ^ unat cap_bits \<and> backoff_play b < 2 ^ unat cap_bits"
proof -
  have k: "unat cap_bits \<le> 29" "unat base_bits \<le> unat cap_bits" using assms by (simp_all add: word_le_nat_alt)
  have ones: "unat (ones x) = 2 ^ unat x - 1" if "unat x \<le> 29" for x
  proof -
    have "2 ^ unat x < (2 :: nat) ^ 32" using that by (intro power_strict_increasing) simp_all
    then have "unat (of_nat (2 ^ unat x) :: u32) = 2 ^ unat x" by (subst unat_of_nat) simp
    then have p: "unat (push_bit (unat x) 1 :: u32) = 2 ^ unat x" by (simp add: push_bit_eq_mult)
    then have "push_bit (unat x) 1 \<noteq> (0 :: u32)" by (metis power_not_zero unat_0 zero_neq_numeral)
    from unat_minus_one [OF this] show ?thesis unfolding ones_def p .
  qed
  have "2 ^ unat base_bits \<le> (2 :: nat) ^ unat cap_bits" using k by simp
  then have "2 ^ unat base_bits - Suc 0 \<le> 2 ^ unat cap_bits - Suc 0" by (rule diff_le_mono)
  then have ok: "backoff_ok (init_backoff base_bits cap_bits shift_bits)"
    using ones [OF k(1)] ones [of base_bits] k power_increasing [of "unat cap_bits" 29 "2 :: nat"]
    by (auto simp: backoff_ok_def init_backoff_def word_le_nat_alt)
  have run: "\<exists>b'. brun ops b = Some b' \<and> backoff_ok b' \<and> bo_cap b' = bo_cap b" if "backoff_ok b" for b
    using that
  proof (induction ops arbitrary: b)
    case (Cons op ops)
    obtain u where "bstep op b = Some u" "backoff_ok u" "bo_cap u = bo_cap b" using bstep_ok [OF Cons.prems] by blast
    then show ?case using Cons.IH [of u] by simp
  qed simp
  obtain b where b: "brun ops (init_backoff base_bits cap_bits shift_bits) = Some b" "backoff_ok b" "bo_cap b = ones cap_bits"
    using run [OF ok] by (auto simp: init_backoff_def)
  then have le: "bo_backoff b \<le> ones cap_bits" by (simp add: backoff_ok_def)
  have "unat (bo_backoff b) \<le> 2 ^ unat cap_bits - 1" using le ones [OF k(1)] by (simp add: word_le_nat_alt)
  moreover have "0 < (2 :: nat) ^ unat cap_bits" by simp
  ultimately have "unat (bo_backoff b) < 2 ^ unat cap_bits" by linarith
  then show ?thesis using b(1) le by (simp add: backoff_delay_def backoff_play_def)
qed

lemma backoff_bounded_witness:
  "\<exists>b. brun [BDelay, BCalculate 32 8, BDelay, BReCalc 32 False True 7] (init_backoff 2 10 1) = Some b \<and> bo_backoff b \<le> ones 10"
proof -
  have "(2 :: u32) \<le> 10" and "(10 :: u32) \<le> 29" by simp_all
  from backoff_bounded [OF this, of "[BDelay, BCalculate 32 8, BDelay, BReCalc 32 False True 7]" 1]
  show ?thesis by (elim exE conjE) (intro exI conjI)
qed

end
