(* ===== verification/Linearize.thy ===== *)
theory Linearize
  imports Prelude
begin

text \<open>
  The refinement of a concurrent object to a sequential specification of any kind: \<open>lin_spec\<close>, the
  counterpart of \<open>lin_machine\<close> with the specification as a parameter, and the sequential stack.
\<close>

fun act_trace :: "('e \<Rightarrow> 's \<Rightarrow> 's option) \<Rightarrow> ('e \<Rightarrow> 's \<Rightarrow> 'a option) \<Rightarrow> 'e list \<Rightarrow> 's \<Rightarrow> 'a list" where
  "act_trace step act [] s = []"
| "act_trace step act (e # es) s =
     (case step e s of None \<Rightarrow> []
      | Some s' \<Rightarrow> (case act e s of None \<Rightarrow> [] | Some a \<Rightarrow> [a]) @ act_trace step act es s')"

locale lin_spec = machine step good
  for step :: "'e \<Rightarrow> 's \<Rightarrow> 's option" and good :: "'s \<Rightarrow> bool" +
  fixes act :: "'e \<Rightarrow> 's \<Rightarrow> 'a option" and absf :: "'s \<Rightarrow> 'b" and spec :: "'a \<Rightarrow> 'b \<Rightarrow> 'b option"
  assumes act_fine: "good s \<Longrightarrow> step e s = Some t \<Longrightarrow>
    (case act e s of None \<Rightarrow> absf t = absf s | Some a \<Rightarrow> spec a (absf s) = Some (absf t))"
begin

lemma act_trace_refines:
  "good s \<Longrightarrow> mrun step es s = Some t \<Longrightarrow> mrun spec (act_trace step act es s) (absf s) = Some (absf t)"
proof (induction es arbitrary: s)
  case Nil
  then show ?case by simp
next
  case (Cons e es)
  then obtain u where u: "step e s = Some u" and es: "mrun step es u = Some t"
    by (auto split: option.splits)
  then have "mrun spec (act_trace step act es u) (absf u) = Some (absf t)" using Cons good_step by blast
  then show ?case using u act_fine [OF Cons.prems(1) u] by (auto split: option.splits)
qed

end

section \<open>The sequential stack\<close>

datatype 'v sact = Push 'v | Pop 'v | PopEmpty

fun lifo_step :: "'v sact \<Rightarrow> 'v list \<Rightarrow> 'v list option" where
  "lifo_step (Push v) st = Some (v # st)"
| "lifo_step (Pop v) st = (case st of [] \<Rightarrow> None | w # ws \<Rightarrow> if w = v then Some ws else None)"
| "lifo_step PopEmpty st = (if st = [] then Some st else None)"

end
