(* ===== verification/LFStack.thy ===== *)
theory LFStack
  imports Linearize
begin

text \<open>
  The lock-free stack of \<open>synch1.0.1/lfstack.c\<close>, one access to shared memory per step. Nodes come
  from the threads' pools and are never given back, so an address is used for one node only.
\<close>

datatype kpc =
    KIdle
  | KRead nat                     \<comment> \<open>\<open>old_top = top; n->next = old_top\<close>\<close>
  | KCas nat "nat option"         \<comment> \<open>\<open>CASPTR(&top, old_top, n)\<close>\<close>
  | KPushed
  | KPRead                        \<comment> \<open>\<open>old_top = top\<close>, null or not\<close>
  | KPNext nat                    \<comment> \<open>\<open>old_top->next\<close>\<close>
  | KPCas nat "nat option"        \<comment> \<open>\<open>CASPTR(&top, old_top, old_top->next)\<close>\<close>
  | KPVal nat                     \<comment> \<open>\<open>return old_top->value\<close>\<close>
  | KPopped int

record lfstack =
  k_top :: "nat option"
  k_next :: "nat \<Rightarrow> nat option"
  k_value :: "nat \<Rightarrow> int"
  k_brk :: nat
  k_pc :: "tid \<Rightarrow> kpc"
  k_arg :: "tid \<Rightarrow> int"             \<comment> \<open>the parameter \<open>arg\<close> of a thread's last call of \<open>push\<close>\<close>

datatype kev = KPush tid int | KPop tid | KRun tid

definition k_init :: lfstack where
  "k_init = \<lparr>k_top = None, k_next = (\<lambda>n. None), k_value = (\<lambda>n. 0), k_brk = 0, k_pc = (\<lambda>t. KIdle),
     k_arg = (\<lambda>t. 0)\<rparr>"

definition kgo :: "tid \<Rightarrow> kpc \<Rightarrow> lfstack \<Rightarrow> lfstack" where
  "kgo t p s = s\<lparr>k_pc := (k_pc s)(t := p)\<rparr>"

definition push_begin :: "tid \<Rightarrow> int \<Rightarrow> lfstack \<Rightarrow> lfstack" where
  "push_begin t arg s =
     (let n = k_brk s in
      kgo t (KRead n) (s\<lparr>k_brk := Suc n, k_value := (k_value s)(n := arg), k_arg := (k_arg s)(t := arg)\<rparr>))"

fun push_pc :: "kpc \<Rightarrow> tid \<Rightarrow> lfstack \<Rightarrow> lfstack option" where
  "push_pc (KRead n) t s = Some (kgo t (KCas n (k_top s)) (s\<lparr>k_next := (k_next s)(n := k_top s)\<rparr>))"
| "push_pc (KCas n old_top) t s =
     Some (if k_top s = old_top then kgo t KPushed (s\<lparr>k_top := Some n\<rparr>) else kgo t (KRead n) s)"
| "push_pc _ t s = None"

fun pop_pc :: "kpc \<Rightarrow> tid \<Rightarrow> lfstack \<Rightarrow> lfstack option" where
  "pop_pc KPRead t s = Some (kgo t (case k_top s of None \<Rightarrow> KPopped 0 | Some old_top \<Rightarrow> KPNext old_top) s)"
| "pop_pc (KPNext old_top) t s = Some (kgo t (KPCas old_top (k_next s old_top)) s)"
| "pop_pc (KPCas old_top nxt) t s =
     Some (if k_top s = Some old_top then kgo t (KPVal old_top) (s\<lparr>k_top := nxt\<rparr>) else kgo t KPRead s)"
| "pop_pc (KPVal old_top) t s = Some (kgo t (KPopped (k_value s old_top)) s)"
| "pop_pc _ t s = None"

fun kidle :: "kpc \<Rightarrow> bool" where
  "kidle KIdle = True"
| "kidle KPushed = True"
| "kidle (KPopped v) = True"
| "kidle _ = False"

fun kstep :: "kev \<Rightarrow> lfstack \<Rightarrow> lfstack option" where
  "kstep (KPush t arg) s = (if kidle (k_pc s t) then Some (push_begin t arg s) else None)"
| "kstep (KPop t) s = (if kidle (k_pc s t) then Some (kgo t KPRead s) else None)"
| "kstep (KRun t) s = (case push_pc (k_pc s t) t s of Some s' \<Rightarrow> Some s' | None \<Rightarrow> pop_pc (k_pc s t) t s)"

text \<open>
  The values in the stack, and what a step does to them. A push is recorded with the argument of
  the call: that the linked node holds it is part of what is shown.
\<close>

fun stack_walk :: "nat \<Rightarrow> (nat \<Rightarrow> nat option) \<Rightarrow> nat option \<Rightarrow> nat list" where
  "stack_walk 0 nx p = []"
| "stack_walk (Suc k) nx None = []"
| "stack_walk (Suc k) nx (Some n) = n # stack_walk k nx (nx n)"

definition k_content :: "lfstack \<Rightarrow> int list" where
  "k_content s = map (k_value s) (stack_walk (k_brk s) (k_next s) (k_top s))"

fun kact :: "kev \<Rightarrow> lfstack \<Rightarrow> (tid \<times> int sact) option" where
  "kact (KRun t) s =
     (case k_pc s t of
        KCas n old_top \<Rightarrow> if k_top s = old_top then Some (t, Push (k_arg s t)) else None
      | KPRead \<Rightarrow> if k_top s = None then Some (t, PopEmpty) else None
      | KPCas old_top nxt \<Rightarrow> if k_top s = Some old_top then Some (t, Pop (k_value s old_top)) else None
      | _ \<Rightarrow> None)"
| "kact _ s = None"

section \<open>The invariant\<close>

fun k_own :: "kpc \<Rightarrow> nat option" where
  "k_own (KRead n) = Some n"
| "k_own (KCas n old_top) = Some n"
| "k_own _ = None"

fun stacked :: "(nat \<Rightarrow> nat option) \<Rightarrow> nat option \<Rightarrow> nat list \<Rightarrow> bool" where
  "stacked nx p [] = (p = None)"
| "stacked nx p (n # ns) = (p = Some n \<and> stacked nx (nx n) ns)"

fun k_refs :: "kpc \<Rightarrow> (nat \<Rightarrow> nat option) \<Rightarrow> nat set \<Rightarrow> bool" where
  "k_refs (KCas n old_top) nx pub \<longleftrightarrow> nx n = old_top"
| "k_refs (KPNext m) nx pub \<longleftrightarrow> m \<in> pub"
| "k_refs (KPCas m nxt) nx pub \<longleftrightarrow> m \<in> pub \<and> nxt = nx m"
| "k_refs (KPVal m) nx pub \<longleftrightarrow> m \<in> pub"
| "k_refs _ nx pub \<longleftrightarrow> True"

text \<open>\<open>pub\<close>: the nodes that have been linked; nobody owns them, and they do not change.\<close>

definition k_inv :: "lfstack \<Rightarrow> nat set \<Rightarrow> nat list \<Rightarrow> bool" where
  "k_inv s pub ns \<longleftrightarrow> stacked (k_next s) (k_top s) ns \<and> distinct ns \<and> set ns \<subseteq> pub \<and> (\<forall>n \<in> pub. n < k_brk s) \<and>
     (\<forall>t n. k_own (k_pc s t) = Some n \<longrightarrow> n < k_brk s \<and> n \<notin> pub) \<and>
     (\<forall>t u n. k_own (k_pc s t) = Some n \<and> k_own (k_pc s u) = Some n \<longrightarrow> t = u) \<and>
     (\<forall>t. k_refs (k_pc s t) (k_next s) pub) \<and>
     (\<forall>t n. k_own (k_pc s t) = Some n \<longrightarrow> k_value s n = k_arg s t)"

definition k_good :: "lfstack \<Rightarrow> bool" where
  "k_good s \<longleftrightarrow> (\<exists>pub ns. k_inv s pub ns)"

lemma kgo_simps [simp]:
  "k_top (kgo t p s) = k_top s" "k_next (kgo t p s) = k_next s" "k_value (kgo t p s) = k_value s"
  "k_brk (kgo t p s) = k_brk s" "k_arg (kgo t p s) = k_arg s" "k_pc (kgo t p s) = (k_pc s)(t := p)"
  by (simp_all add: kgo_def)

lemma stack_walk_stacked:
  "stacked nx p ns \<Longrightarrow> length ns \<le> k \<Longrightarrow> stack_walk k nx p = ns"
proof (induction ns arbitrary: k p)
  case Nil
  then show ?case by (cases k) auto
next
  case (Cons n ns)
  then obtain j where "k = Suc j" by (cases k) auto
  then show ?case using Cons by auto
qed

lemma k_content_eq:
  assumes "k_inv s pub ns"
  shows "k_content s = map (k_value s) ns"
proof -
  have "set ns \<subseteq> {..<k_brk s}" and "distinct ns" using assms by (auto simp: k_inv_def)
  then have "length ns \<le> k_brk s" using card_mono [of "{..<k_brk s}" "set ns"] distinct_card [of ns] by simp
  then show ?thesis using assms stack_walk_stacked [of "k_next s" "k_top s" ns "k_brk s"]
    by (simp add: k_content_def k_inv_def)
qed

lemma stacked_upd: "n \<notin> set ns \<Longrightarrow> stacked (nx(n := x)) p ns = stacked nx p ns"
  by (induction ns arbitrary: p) auto

lemma k_refs_upd: "k_refs p nx pub \<Longrightarrow> n \<notin> pub \<Longrightarrow> k_own p \<noteq> Some n \<Longrightarrow> k_refs p (nx(n := x)) pub"
  by (cases p) auto

lemma k_refs_mono: "k_refs p nx pub \<Longrightarrow> k_refs p nx (insert n pub)"
  by (cases p) auto

fun stack_spec :: "tid \<times> int sact \<Rightarrow> int list \<Rightarrow> int list option" where
  "stack_spec (t, a) st = lifo_step a st"

text \<open>One step: the invariant is kept, and the content changes as the specification says.\<close>

definition kfine :: "(tid \<times> int sact) option \<Rightarrow> lfstack \<Rightarrow> lfstack \<Rightarrow> bool" where
  "kfine a s s' \<longleftrightarrow> k_good s' \<and> (\<forall>n < k_brk s. k_value s' n = k_value s n) \<and>
     (case a of None \<Rightarrow> k_content s' = k_content s | Some x \<Rightarrow> stack_spec x (k_content s) = Some (k_content s'))"

lemma kfineI:
  assumes "k_inv s pub ns" and "k_inv s' pub' ns'" and "\<forall>n < k_brk s. k_value s' n = k_value s n"
    and "case a of None \<Rightarrow> ns' = ns | Some x \<Rightarrow> stack_spec x (map (k_value s) ns) = Some (map (k_value s) ns')"
    and "set ns' \<subseteq> {..<k_brk s}"
  shows "kfine a s s'"
proof -
  have "map (k_value s') ns' = map (k_value s) ns'" using assms(3,5) by auto
  then show ?thesis using assms k_content_eq [OF assms(1)] k_content_eq [OF assms(2)]
    by (auto simp: kfine_def k_good_def split: option.splits)
qed

lemma k_inv_go:
  assumes "k_inv s pub ns" and "k_own p = None \<or> k_own p = k_own (k_pc s t)" and "k_refs p (k_next s) pub"
  shows "k_inv (kgo t p s) pub ns"
proof -
  have own: "k_own (k_pc (kgo t p s) u) = Some n \<Longrightarrow> k_own (k_pc s u) = Some n" for u n
    using assms(2) by (auto split: if_splits)
  have refs: "k_refs (k_pc (kgo t p s) u) (k_next s) pub" for u using assms(1,3) by (simp add: k_inv_def)
  show ?thesis using assms(1) own refs unfolding k_inv_def kgo_simps(1-5) by blast
qed

lemma k_inv_below: "k_inv s pub ns \<Longrightarrow> set ns \<subseteq> {..<k_brk s}"
  by (auto simp: k_inv_def)

lemma kfine_go:
  "k_inv s pub ns \<Longrightarrow> k_own p = None \<or> k_own p = k_own (k_pc s t) \<Longrightarrow> k_refs p (k_next s) pub \<Longrightarrow>
    kfine None s (kgo t p s)"
  by (rule kfineI [where pub = pub and pub' = pub and ns = ns and ns' = ns]) (simp_all add: k_inv_go k_inv_below)

lemma push_begin_fine:
  assumes inv: "k_inv s pub ns" and idle: "kidle (k_pc s t)"
  shows "kfine None s (push_begin t arg s)"
proof (rule kfineI [OF inv])
  have "k_brk s \<notin> pub" "k_own (k_pc s u) \<noteq> Some (k_brk s)" for u using inv by (auto simp: k_inv_def)
  then show "k_inv (push_begin t arg s) pub ns"
    using inv unfolding k_inv_def push_begin_def by (auto simp: Let_def less_Suc_eq split: if_splits)
qed (use inv in \<open>auto simp: push_begin_def k_inv_def Let_def\<close>)

lemma push_fine:
  assumes inv: "k_inv s pub ns" and run: "push_pc (k_pc s t) t s = Some s'"
  shows "kfine (kact (KRun t) s) s s'"
proof (cases "k_pc s t")
  case (KRead n)
  then have n: "n \<notin> pub" and s': "s' = kgo t (KCas n (k_top s)) (s\<lparr>k_next := (k_next s)(n := k_top s)\<rparr>)"
    using inv run by (auto simp: k_inv_def) (metis k_own.simps(1))
  have other: "k_refs (k_pc s u) ((k_next s)(n := k_top s)) pub" if "u \<noteq> t" for u
  proof (rule k_refs_upd)
    show "k_refs (k_pc s u) (k_next s) pub" using inv by (simp add: k_inv_def)
    have "k_own (k_pc s t) = Some n" using KRead by simp
    then show "k_own (k_pc s u) \<noteq> Some n" using inv that unfolding k_inv_def by blast
  qed (rule n)
  have "n \<notin> set ns" using inv n by (auto simp: k_inv_def)
  then have "stacked ((k_next s)(n := k_top s)) (k_top s) ns" using inv stacked_upd by (simp add: k_inv_def)
  moreover have "k_refs (k_pc s u) ((k_next s)(n := k_top s)) pub" for u using other KRead by (cases "u = t") auto
  ultimately have "k_inv (s\<lparr>k_next := (k_next s)(n := k_top s)\<rparr>) pub ns" using inv by (simp add: k_inv_def)
  then have "k_inv s' pub ns" unfolding s' by (rule k_inv_go) (simp_all add: KRead)
  then show ?thesis using kfineI [OF inv, of s' pub ns None] KRead k_inv_below [OF inv] s' by simp
next
  case (KCas n old)
  show ?thesis
  proof (cases "k_top s = old")
    case False
    then show ?thesis using run KCas kfine_go [OF inv, of "KRead n" t] by simp
  next
    case True
    then have s': "s' = kgo t KPushed (s\<lparr>k_top := Some n\<rparr>)" using run KCas by simp
    have n: "n \<notin> pub" "n < k_brk s" "k_next s n = old" "k_value s n = k_arg s t"
      using inv KCas by (auto simp: k_inv_def dest: spec [of _ t])
    have "k_inv s' (insert n pub) (n # ns)"
      using inv n True KCas k_refs_mono unfolding k_inv_def s' by (auto split: if_splits) 
    then show ?thesis using kfineI [OF inv, of s' _ "n # ns" "Some (t, Push (k_arg s t))"] KCas True n k_inv_below [OF inv] s'
      by simp
  qed
qed (use run in simp_all)

lemma pop_fine:
  assumes inv: "k_inv s pub ns" and run: "pop_pc (k_pc s t) t s = Some s'"
  shows "kfine (kact (KRun t) s) s s'"
proof (cases "k_pc s t")
  case KPRead
  show ?thesis
  proof (cases "k_top s")
    case None
    then have "ns = []" using inv by (cases ns) (auto simp: k_inv_def)
    moreover have s': "s' = kgo t (KPopped 0) s" using run KPRead None by simp
    ultimately show ?thesis using KPRead None kfineI [OF inv, of s' pub "[]" "Some (t, PopEmpty)"]
        k_inv_go [OF inv, of "KPopped 0" t] by simp
  next
    case (Some m)
    then have "m \<in> pub" using inv by (cases ns) (auto simp: k_inv_def)
    then show ?thesis using run KPRead Some kfine_go [OF inv, of "KPNext m" t] by simp
  qed
next
  case (KPNext m)
  then have "m \<in> pub" using inv by (auto simp: k_inv_def dest: spec [of _ t])
  then show ?thesis using run KPNext kfine_go [OF inv, of "KPCas m (k_next s m)" t] by simp
next
  case (KPCas m nxt)
  then have m: "m \<in> pub" "nxt = k_next s m" using inv by (auto simp: k_inv_def dest: spec [of _ t])
  show ?thesis
  proof (cases "k_top s = Some m")
    case False
    then show ?thesis using run KPCas kfine_go [OF inv, of KPRead t] by simp
  next
    case True
    then obtain ns' where ns: "ns = m # ns'" "stacked (k_next s) nxt ns'" using inv m by (cases ns) (auto simp: k_inv_def)
    have s': "s' = kgo t (KPVal m) (s\<lparr>k_top := nxt\<rparr>)" using run KPCas True by simp
    have "k_inv s' pub ns'" using inv ns m unfolding k_inv_def s' by (auto split: if_splits)
    then show ?thesis using kfineI [OF inv, of s' pub ns' "Some (t, Pop (k_value s m))"] KPCas True ns k_inv_below [OF inv] s'
      by simp
  qed
next
  case (KPVal m)
  then show ?thesis using run kfine_go [OF inv, of "KPopped (k_value s m)" t] by simp
qed (use run in simp_all)

lemma kstep_fine:
  assumes "k_good s" and "kstep e s = Some s'"
  shows "kfine (kact e s) s s'"
proof -
  obtain pub ns where inv: "k_inv s pub ns" using assms(1) by (auto simp: k_good_def)
  show ?thesis
  proof (cases e)
    case (KPush t arg)
    then show ?thesis using assms(2) push_begin_fine [OF inv, of t arg] by (simp split: if_splits)
  next
    case (KPop t)
    then show ?thesis using assms(2) kfine_go [OF inv, of KPRead t] by (simp split: if_splits)
  next
    case (KRun t)
    then show ?thesis using assms(2) push_fine [OF inv, of t s'] pop_fine [OF inv, of t s']
      by (cases "push_pc (k_pc s t) t s") (simp_all del: kact.simps)
  qed
qed

interpretation lfs: lin_spec kstep k_good kact k_content stack_spec
proof unfold_locales
  fix s e t
  assume "k_good s" and "kstep e s = Some t"
  then have fine: "kfine (kact e s) s t" by (rule kstep_fine)
  then show "k_good t" by (simp add: kfine_def)
  show "case kact e s of None \<Rightarrow> k_content t = k_content s | Some a \<Rightarrow> stack_spec a (k_content s) = Some (k_content t)"
    using fine by (simp add: kfine_def)
qed

section \<open>What the operations return\<close>

definition last_act :: "tid \<Rightarrow> (tid \<times> int sact) list \<Rightarrow> int sact option" where
  "last_act t tr = (case rev [a \<leftarrow> tr. fst a = t] of [] \<Rightarrow> None | a # as \<Rightarrow> Some (snd a))"

lemma last_act_snoc: "last_act t (tr @ [(u, a)]) = (if u = t then Some a else last_act t tr)"
  by (simp add: last_act_def)

fun k_answer :: "kpc \<Rightarrow> (nat \<Rightarrow> int) \<Rightarrow> nat \<Rightarrow> int sact option \<Rightarrow> bool" where
  "k_answer (KPVal m) value brk a \<longleftrightarrow> m < brk \<and> a = Some (Pop (value m))"
| "k_answer (KPopped v) value brk a \<longleftrightarrow> a = Some (Pop v) \<or> v = 0 \<and> a = Some PopEmpty"
| "k_answer _ value brk a \<longleftrightarrow> True"

definition k_answers :: "lfstack \<Rightarrow> (tid \<times> int sact) list \<Rightarrow> bool" where
  "k_answers s tr \<longleftrightarrow> (\<forall>t. k_answer (k_pc s t) (k_value s) (k_brk s) (last_act t tr))"

lemma k_answer_mono:
  "k_answer p value brk a \<Longrightarrow> \<forall>n < brk. value' n = value n \<Longrightarrow> brk \<le> brk' \<Longrightarrow> k_answer p value' brk' a"
  by (cases p) auto

lemma k_answer_begin: "k_answer (KRead n) v b = (\<lambda>a. True)" "k_answer KPRead v b = (\<lambda>a. True)"
  by (rule ext, simp)+

lemma kstep_others:
  assumes "kstep e s = Some s'"
  obtains t where "\<forall>u. u \<noteq> t \<longrightarrow> k_pc s' u = k_pc s u" and "\<forall>a. kact e s = Some a \<longrightarrow> fst a = t"
    and "e = KRun t \<or> kact e s = None \<and> (\<forall>v b a. k_answer (k_pc s' t) v b a)" and "k_brk s \<le> k_brk s'"
proof (cases e)
  case (KPush t arg)
  then show thesis using that [of t] assms by (auto simp: push_begin_def Let_def k_answer_begin split: if_splits)
next
  case (KPop t)
  then show thesis using that [of t] assms by (auto simp: k_answer_begin split: if_splits)
next
  case (KRun t)
  then show thesis using that [of t] assms by (cases "k_pc s t") (auto split: if_splits option.splits)
qed

lemma k_answers_step:
  assumes good: "k_good s" and ans: "k_answers s tr" and run: "kstep e s = Some s'"
  shows "k_answers s' (tr @ (case kact e s of None \<Rightarrow> [] | Some a \<Rightarrow> [a]))"
  unfolding k_answers_def
proof
  fix u
  have same: "\<forall>n < k_brk s. k_value s' n = k_value s n" using kstep_fine [OF good run] by (simp add: kfine_def)
  obtain t where oth: "\<forall>u. u \<noteq> t \<longrightarrow> k_pc s' u = k_pc s u" and act: "\<forall>a. kact e s = Some a \<longrightarrow> fst a = t"
    and e: "e = KRun t \<or> kact e s = None \<and> (\<forall>v b a. k_answer (k_pc s' t) v b a)" and brk: "k_brk s \<le> k_brk s'"
    by (rule kstep_others [OF run]) blast
  let ?tr = "tr @ (case kact e s of None \<Rightarrow> [] | Some a \<Rightarrow> [a])"
  have old: "k_answer (k_pc s u) (k_value s) (k_brk s) (last_act u tr)" using ans by (simp add: k_answers_def)
  show "k_answer (k_pc s' u) (k_value s') (k_brk s') (last_act u ?tr)"
  proof (cases "u = t")
    case False
    then have "last_act u ?tr = last_act u tr" using act by (auto simp: last_act_snoc split: option.splits)
    then show ?thesis using False oth k_answer_mono [OF old same brk] by simp
  next
    case True
    have below: "m < k_brk s" if "k_pc s t = KPCas m nxt" for m nxt
    proof -
      obtain pub ns where inv: "k_inv s pub ns" using good by (auto simp: k_good_def)
      then have "k_refs (k_pc s t) (k_next s) pub" by (simp add: k_inv_def)
      then show ?thesis using inv that by (simp add: k_inv_def)
    qed
    from e show ?thesis
    proof
      assume "e = KRun t"
      then show ?thesis using run old below True
        by (cases "k_pc s t") (auto simp: last_act_snoc split: if_splits option.splits)
    qed (use True in simp)
  qed
qed

lemma k_answers_run:
  "k_good s \<Longrightarrow> k_answers s tr \<Longrightarrow> mrun kstep es s = Some s' \<Longrightarrow> k_answers s' (tr @ act_trace kstep kact es s)"
proof (induction es arbitrary: s tr)
  case (Cons e es)
  then obtain u where u: "kstep e s = Some u" "mrun kstep es u = Some s'" by (auto split: option.splits)
  then have "k_answers s' ((tr @ (case kact e s of None \<Rightarrow> [] | Some a \<Rightarrow> [a])) @ act_trace kstep kact es u)"
    using Cons k_answers_step lfs.good_step by blast
  then show ?case using u by simp
qed simp

lemma k_init_good: "k_good k_init"
  by (auto simp: k_good_def k_inv_def k_init_def intro!: exI [of _ "{}"] exI [of _ "[]"])

text \<open>The arguments of a thread's pushes, those its operations take effect with, and the one it is at.\<close>

fun k_calls :: "tid \<Rightarrow> kev list \<Rightarrow> int list" where
  "k_calls t [] = []"
| "k_calls t (KPush u arg # es) = (if u = t then arg # k_calls t es else k_calls t es)"
| "k_calls t (e # es) = k_calls t es"

fun pushes :: "tid \<Rightarrow> (tid \<times> int sact) list \<Rightarrow> int list" where
  "pushes t [] = []"
| "pushes t ((u, Push v) # tr) = (if u = t then v # pushes t tr else pushes t tr)"
| "pushes t (x # tr) = pushes t tr"

definition k_pushing :: "tid \<Rightarrow> lfstack \<Rightarrow> int list" where
  "k_pushing t s = (if k_own (k_pc s t) = None then [] else [k_arg s t])"

lemma k_calls_step:
  "kstep e s = Some s' \<Longrightarrow>
    k_pushing t s @ k_calls t [e] = pushes t (case kact e s of None \<Rightarrow> [] | Some a \<Rightarrow> [a]) @ k_pushing t s'"
  by (cases e; cases "k_pc s (case e of KPush u v \<Rightarrow> u | KPop u \<Rightarrow> u | KRun u \<Rightarrow> u)")
    (auto simp: k_pushing_def push_begin_def Let_def split: if_splits option.splits)

lemma pushes_append: "pushes t (tr @ tr') = pushes t tr @ pushes t tr'"
  by (induction t tr rule: pushes.induct) simp_all

lemma k_calls_run:
  "mrun kstep es s = Some s' \<Longrightarrow>
    k_pushing t s @ k_calls t es = pushes t (act_trace kstep kact es s) @ k_pushing t s'"
proof (induction es arbitrary: s)
  case (Cons e es)
  then obtain u where u: "kstep e s = Some u" "mrun kstep es u = Some s'" by (auto split: option.splits)
  have "k_calls t (e # es) = k_calls t [e] @ k_calls t es" by (cases e) simp_all
  then show ?case using k_calls_step [OF u(1), of t] Cons.IH [OF u(2)] u(1)
    by (simp add: pushes_append) (metis append_assoc)
qed simp

definition demo_stack :: "kev list" where
  "demo_stack = [KPush 0 5, KPush 1 6, KRun 0, KRun 1, KRun 1, KRun 0, KRun 0, KRun 0, KPop 2, KRun 2, KRun 2, KRun 2, KRun 2]"

lemma demo_stack_run:
  "map_option (\<lambda>s. (k_pc s 2, k_content s)) (mrun kstep demo_stack k_init) = Some (KPopped 5, [6])"
  by code_simp

text \<open>
  (C16) The lock-free stack is a stack under every interleaving of any number of threads: its
  operations take effect in an order the sequential stack allows, a push with its argument, and a
  pop returns the value it took, or 0 when it saw the stack empty. The pushes of each thread are
  exactly its calls: each takes effect once, with its argument, except the one the thread is at.
\<close>

theorem lfstack_lifo:
  assumes "mrun kstep es k_init = Some s"
  shows "mrun stack_spec (act_trace kstep kact es k_init) [] = Some (k_content s) \<and>
    (\<forall>t v. k_pc s t = KPopped v \<longrightarrow>
      last_act t (act_trace kstep kact es k_init) = Some (Pop v) \<or>
      v = 0 \<and> last_act t (act_trace kstep kact es k_init) = Some PopEmpty) \<and>
    (\<forall>t. k_calls t es = pushes t (act_trace kstep kact es k_init) @ k_pushing t s)"
proof -
  have "k_content k_init = []" by (simp add: k_content_def k_init_def)
  moreover have "k_answers k_init []" by (simp add: k_answers_def k_init_def)
  ultimately have ref: "mrun stack_spec (act_trace kstep kact es k_init) [] = Some (k_content s)"
    and ans: "k_answers s (act_trace kstep kact es k_init)"
    using lfs.act_trace_refines [OF k_init_good assms] k_answers_run [OF k_init_good _ assms, of "[]"] by simp_all
  have "k_answer (k_pc s t) (k_value s) (k_brk s) (last_act t (act_trace kstep kact es k_init))" for t
    using ans by (simp add: k_answers_def)
  moreover have "k_calls t es = pushes t (act_trace kstep kact es k_init) @ k_pushing t s" for t
    using k_calls_run [OF assms, of t] by (simp add: k_pushing_def k_init_def)
  ultimately show ?thesis using ref by (metis k_answer.simps(2))
qed

theorem lfstack_lifo_witness:
  "\<exists>s. mrun kstep demo_stack k_init = Some s \<and> mrun stack_spec (act_trace kstep kact demo_stack k_init) [] = Some [6] \<and>
    last_act 2 (act_trace kstep kact demo_stack k_init) = Some (Pop 5)"
proof -
  obtain s where s: "mrun kstep demo_stack k_init = Some s" "k_pc s 2 = KPopped 5" "k_content s = [6]"
    using demo_stack_run by auto
  note R = lfstack_lifo [OF s(1)]
  from conjunct1 [OF conjunct2 [OF R], rule_format, OF s(2)] conjunct1 [OF R] s show ?thesis by simp
qed

end
