(* ===== verification/Clh.thy ===== *)
theory Clh
  imports Linearize
begin

text \<open>
  The CLH queue lock of \<open>synch1.0.1/clh.h\<close> (the build without \<open>POSIX_LOCKS\<close>), one access to shared
  memory per step, and \<open>lock_impl\<close>, what the code that uses a lock relies on.
\<close>

section \<open>The lock\<close>

datatype cpc =
    CIdle
  | CSet        \<comment> \<open>\<open>l->MyNode[pid]->locked = true\<close>\<close>
  | CSwap       \<comment> \<open>\<open>l->MyPred[pid] = SWAP(&l->Tail, l->MyNode[pid])\<close>\<close>
  | CSpin       \<comment> \<open>\<open>while (l->MyPred[pid]->locked == true)\<close>\<close>
  | CIn         \<comment> \<open>\<open>clhLock\<close> has returned\<close>
  | CClear      \<comment> \<open>\<open>l->MyNode[pid]->locked = false\<close>\<close>
  | CRecycle    \<comment> \<open>\<open>l->MyNode[pid] = l->MyPred[pid]\<close>\<close>

record clh =
  cl_tail :: nat
  cl_locked :: "nat \<Rightarrow> bool"
  cl_mynode :: "tid \<Rightarrow> nat"
  cl_mypred :: "tid \<Rightarrow> nat option"
  cl_pc :: "tid \<Rightarrow> cpc"

text \<open>
  Node 0 is the first \<open>Tail\<close>, node \<open>t + 1\<close> the one allocated for thread \<open>t\<close>. \<open>clhLockInit\<close> stores
  \<open>false\<close> in the first one only. What the others hold is not read before \<open>clhLock\<close> has stored
  \<open>true\<close> in it; here it is false.
\<close>

definition clhLockInit :: clh where
  "clhLockInit = \<lparr>cl_tail = 0, cl_locked = (\<lambda>n. False), cl_mynode = Suc, cl_mypred = (\<lambda>t. None), cl_pc = (\<lambda>t. CIdle)\<rparr>"

definition cgo :: "tid \<Rightarrow> cpc \<Rightarrow> clh \<Rightarrow> clh" where
  "cgo t p l = l\<lparr>cl_pc := (cl_pc l)(t := p)\<rparr>"

fun clhLock_pc :: "cpc \<Rightarrow> tid \<Rightarrow> clh \<Rightarrow> clh option" where
  "clhLock_pc CSet t l = Some (cgo t CSwap (l\<lparr>cl_locked := (cl_locked l)(cl_mynode l t := True)\<rparr>))"
| "clhLock_pc CSwap t l =
     Some (cgo t CSpin (l\<lparr>cl_mypred := (cl_mypred l)(t := Some (cl_tail l)), cl_tail := cl_mynode l t\<rparr>))"
| "clhLock_pc CSpin t l =
     (case cl_mypred l t of
        None \<Rightarrow> None
      | Some p \<Rightarrow> Some (if cl_locked l p then l else cgo t CIn l))"
| "clhLock_pc _ t l = None"

fun clhUnlock_pc :: "cpc \<Rightarrow> tid \<Rightarrow> clh \<Rightarrow> clh option" where
  "clhUnlock_pc CClear t l = Some (cgo t CRecycle (l\<lparr>cl_locked := (cl_locked l)(cl_mynode l t := False)\<rparr>))"
| "clhUnlock_pc CRecycle t l =
     (case cl_mypred l t of
        None \<Rightarrow> None
      | Some p \<Rightarrow> Some (cgo t CIdle (l\<lparr>cl_mynode := (cl_mynode l)(t := p)\<rparr>)))"
| "clhUnlock_pc _ t l = None"

datatype lockev = Acquire tid | Release tid | LockRun tid

fun clh_step :: "lockev \<Rightarrow> clh \<Rightarrow> clh option" where
  "clh_step (Acquire t) l = (if cl_pc l t = CIdle then Some (cgo t CSet l) else None)"
| "clh_step (Release t) l = (if cl_pc l t = CIn then Some (cgo t CClear l) else None)"
| "clh_step (LockRun t) l =
     (case clhLock_pc (cl_pc l t) t l of Some l' \<Rightarrow> Some l' | None \<Rightarrow> clhUnlock_pc (cl_pc l t) t l)"

section \<open>Mutual exclusion\<close>

text \<open>
  \<open>ts\<close> are the threads that have swapped themselves in and not yet released the lock, first come
  first: each spins on the node of the one before it, and \<open>p0\<close> is the unlocked node in front.
\<close>

fun waiting :: "clh \<Rightarrow> nat \<Rightarrow> tid list \<Rightarrow> bool" where
  "waiting l p [] = (cl_tail l = p)"
| "waiting l p (t # ts) = (cl_mypred l t = Some p \<and> waiting l (cl_mynode l t) ts)"

definition queued :: "cpc \<Rightarrow> bool" where
  "queued p \<longleftrightarrow> p = CSpin \<or> p = CIn \<or> p = CClear"

definition clh_own :: "clh \<Rightarrow> tid \<Rightarrow> nat" where
  "clh_own l t = (if cl_pc l t = CRecycle then (case cl_mypred l t of Some p \<Rightarrow> p | None \<Rightarrow> 0) else cl_mynode l t)"

definition clh_inv :: "clh \<Rightarrow> nat \<Rightarrow> tid list \<Rightarrow> bool" where
  "clh_inv l p0 ts \<longleftrightarrow> waiting l p0 ts \<and> distinct ts \<and> (\<forall>t. t \<in> set ts \<longleftrightarrow> queued (cl_pc l t)) \<and>
     \<not> cl_locked l p0 \<and> (\<forall>t \<in> set ts. cl_locked l (cl_mynode l t)) \<and>
     (\<forall>t. cl_pc l t = CSwap \<longrightarrow> cl_locked l (cl_mynode l t)) \<and>
     (\<forall>t. cl_pc l t = CRecycle \<longrightarrow> cl_mypred l t \<noteq> None) \<and>
     inj (clh_own l) \<and> p0 \<notin> range (clh_own l) \<and>
     (\<forall>t. cl_pc l t = CIn \<or> cl_pc l t = CClear \<longrightarrow> ts \<noteq> [] \<and> t = hd ts)"

definition clh_good :: "clh \<Rightarrow> bool" where
  "clh_good l \<longleftrightarrow> (\<exists>p0 ts. clh_inv l p0 ts)"

lemma cgo_simps [simp]:
  "cl_tail (cgo t p l) = cl_tail l" "cl_locked (cgo t p l) = cl_locked l" "cl_mynode (cgo t p l) = cl_mynode l"
  "cl_mypred (cgo t p l) = cl_mypred l" "cl_pc (cgo t p l) = (cl_pc l)(t := p)"
  by (simp_all add: cgo_def)

lemma waiting_cong:
  "cl_tail l' = cl_tail l \<Longrightarrow> \<forall>t \<in> set ts. cl_mypred l' t = cl_mypred l t \<and> cl_mynode l' t = cl_mynode l t \<Longrightarrow>
    waiting l' p ts = waiting l p ts"
  by (induction ts arbitrary: p) auto

lemma waiting_snoc:
  "waiting l p ts \<Longrightarrow> t \<notin> set ts \<Longrightarrow>
    waiting (l\<lparr>cl_mypred := (cl_mypred l)(t := Some (cl_tail l)), cl_tail := cl_mynode l t\<rparr>) p (ts @ [t])"
proof (induction ts arbitrary: p)
  case (Cons u ts)
  then show ?case by auto
qed simp

lemma clh_own_simps:
  "cl_pc l t \<noteq> CRecycle \<Longrightarrow> clh_own l t = cl_mynode l t"
  "cl_pc l t = CRecycle \<Longrightarrow> cl_mypred l t = Some p \<Longrightarrow> clh_own l t = p"
  by (auto simp: clh_own_def)

lemma clh_own_other:
  "u \<noteq> t \<Longrightarrow> clh_own (cgo t p l) u = clh_own l u"
  by (auto simp: clh_own_def split: option.splits)

lemma clh_own_same:
  assumes "clh_own l' t = clh_own l t" and "\<And>u. u \<noteq> t \<Longrightarrow> clh_own l' u = clh_own l u"
  shows "clh_own l' = clh_own l"
  by (rule ext) (metis assms)

text \<open>A step of \<open>t\<close> that changes nothing but its program point, in the same part of the protocol.\<close>

lemma clh_inv_go:
  assumes inv: "clh_inv l p0 ts" and q: "queued p = queued (cl_pc l t)" and "p \<noteq> CSwap" and "p \<noteq> CRecycle"
    and "cl_pc l t \<noteq> CRecycle" and hd: "p = CIn \<or> p = CClear \<Longrightarrow> ts \<noteq> [] \<and> t = hd ts"
  shows "clh_inv (cgo t p l) p0 ts"
proof -
  have own: "clh_own (cgo t p l) = clh_own l"
    using assms(4,5) clh_own_other by (intro clh_own_same [of _ t]) (simp_all add: clh_own_simps)
  have w: "waiting (cgo t p l) p0 ts" using inv waiting_cong [of "cgo t p l" l ts p0] by (simp add: clh_inv_def)
  show ?thesis unfolding clh_inv_def own using inv w q hd assms(3,4) by (auto simp: clh_inv_def)
qed

lemma clh_set:
  assumes inv: "clh_inv l p0 ts" and pc: "cl_pc l t = CSet"
  shows "clh_inv (cgo t CSwap (l\<lparr>cl_locked := (cl_locked l)(cl_mynode l t := True)\<rparr>)) p0 ts" (is "clh_inv ?l p0 ts")
proof -
  have own: "clh_own ?l = clh_own l"
    using pc by (intro clh_own_same [of _ t]) (auto simp: clh_own_def split: option.splits)
  have w: "waiting ?l p0 ts" using inv waiting_cong [of ?l l ts p0] by (simp add: clh_inv_def)
  have "clh_own l t = cl_mynode l t" using pc by (simp add: clh_own_simps)
  then have "cl_mynode l t \<noteq> p0" using inv rangeI [of "clh_own l" t] by (auto simp: clh_inv_def)
  then show ?thesis unfolding clh_inv_def own using inv w pc by (auto simp: clh_inv_def queued_def)
qed

lemma clh_swap:
  assumes inv: "clh_inv l p0 ts" and pc: "cl_pc l t = CSwap"
  shows "clh_inv (cgo t CSpin (l\<lparr>cl_mypred := (cl_mypred l)(t := Some (cl_tail l)), cl_tail := cl_mynode l t\<rparr>)) p0 (ts @ [t])"
    (is "clh_inv ?l p0 _")
proof -
  let ?m = "l\<lparr>cl_mypred := (cl_mypred l)(t := Some (cl_tail l)), cl_tail := cl_mynode l t\<rparr>"
  have nt: "t \<notin> set ts" using inv pc by (auto simp: clh_inv_def queued_def)
  have own: "clh_own ?l = clh_own l"
    using pc by (intro clh_own_same [of _ t]) (auto simp: clh_own_def split: option.splits)
  have "waiting ?m p0 (ts @ [t])" using inv nt by (intro waiting_snoc) (simp_all add: clh_inv_def)
  then have w: "waiting ?l p0 (ts @ [t])" using waiting_cong [of ?l ?m "ts @ [t]" p0] by simp
  have "hd (ts @ [t]) = hd ts" if "ts \<noteq> []" using that by simp
  then show ?thesis unfolding clh_inv_def own using inv w pc nt by (auto simp: clh_inv_def queued_def)
qed

lemma clh_spin:
  assumes inv: "clh_inv l p0 ts" and pc: "cl_pc l t = CSpin" and pred: "cl_mypred l t = Some p" and "\<not> cl_locked l p"
  shows "clh_inv (cgo t CIn l) p0 ts"
proof (rule clh_inv_go [OF inv])
  have t: "t \<in> set ts" using inv pc by (simp add: clh_inv_def queued_def)
  have "u = hd us \<or> cl_locked l p" if "waiting l q us" "cl_mypred l u = Some p" "u \<in> set us" "\<forall>v \<in> set us. cl_locked l (cl_mynode l v)"
    for u q us
    using that
  proof (induction us arbitrary: q)
    case (Cons v us)
    show ?case
    proof (cases "u = v")
      case False
      then have u: "u \<in> set us" "waiting l (cl_mynode l v) us" using Cons.prems by auto
      then consider "u = hd us" | "cl_locked l p" using Cons by auto
      then show ?thesis
      proof cases
        case 1
        then have "p = cl_mynode l v" using u Cons.prems(2) by (cases us) auto
        then show ?thesis using Cons.prems(4) by simp
      qed simp
    qed simp
  qed simp
  then have "t = hd ts" using t pred assms(4) inv by (auto simp: clh_inv_def)
  then show "ts \<noteq> [] \<and> t = hd ts" using t by auto
qed (use pc in \<open>simp_all add: queued_def\<close>)

lemma clh_clear:
  assumes inv: "clh_inv l p0 ts" and pc: "cl_pc l t = CClear"
  shows "clh_inv (cgo t CRecycle (l\<lparr>cl_locked := (cl_locked l)(cl_mynode l t := False)\<rparr>)) (cl_mynode l t) (tl ts)"
    (is "clh_inv ?l ?n _")
proof -
  obtain us where ts: "ts = t # us" using inv pc by (cases ts) (auto simp: clh_inv_def)
  have pred: "cl_mypred l t = Some p0" "waiting l ?n us" using inv ts by (auto simp: clh_inv_def)
  have nt: "t \<notin> set us" "distinct us" and inj: "inj (clh_own l)" and p0: "p0 \<notin> range (clh_own l)"
    using inv ts by (auto simp: clh_inv_def)
  have mem: "\<And>u. u \<noteq> t \<Longrightarrow> u \<in> set us \<longleftrightarrow> queued (cl_pc l u)" using inv ts by (auto simp: clh_inv_def)
  have own: "clh_own ?l = (clh_own l)(t := p0)"
    using pred by (auto simp: fun_eq_iff clh_own_def split: option.splits)
  have mine: "clh_own l t = ?n" using pc by (simp add: clh_own_simps)
  have diff: "cl_mynode l u \<noteq> ?n" if "u \<noteq> t" "cl_pc l u \<noteq> CRecycle" for u
    using inj that mine clh_own_simps(1) [of l u] by (metis injD)
  have lockd: "cl_locked l (cl_mynode l u)" if "u \<in> set us" for u using inv ts that by (auto simp: clh_inv_def)
  have us: "u \<noteq> t" "cl_pc l u \<noteq> CRecycle" if "u \<in> set us" for u
  proof -
    show ut: "u \<noteq> t" using that nt by blast
    show "cl_pc l u \<noteq> CRecycle" using that mem [OF ut] by (auto simp: queued_def)
  qed
  have swp: "cl_locked l (cl_mynode l u)" if "cl_pc l u = CSwap" for u using inv that by (simp add: clh_inv_def)
  have rec: "cl_mypred l u \<noteq> None" if "cl_pc l u = CRecycle" for u using inv that by (simp add: clh_inv_def)
  have one: "u = t" if "cl_pc l u = CIn \<or> cl_pc l u = CClear" for u using inv ts that by (auto simp: clh_inv_def)
  have "inj (clh_own ?l)" unfolding own using inj p0 by (intro inj_on_fun_updI) auto
  moreover have "?n \<notin> range (clh_own ?l)"
  proof
    assume "?n \<in> range (clh_own ?l)"
    then obtain u where u: "?n = ((clh_own l)(t := p0)) u" unfolding own by (rule rangeE)
    show False
    proof (cases "u = t")
      case True
      then show False using u p0 mine rangeI [of "clh_own l" t] by simp
    next
      case False
      then show False using u mine inj by (simp add: inj_eq)
    qed
  qed
  moreover have "waiting ?l ?n us" using pred(2) waiting_cong [of ?l l us] by simp
  moreover have "\<forall>u. u \<in> set us \<longleftrightarrow> queued (cl_pc ?l u)" using mem nt by (auto simp: queued_def)
  moreover have "\<forall>u \<in> set us. cl_locked ?l (cl_mynode ?l u)" using lockd us diff by simp
  moreover have "\<forall>u. cl_pc ?l u = CSwap \<longrightarrow> cl_locked ?l (cl_mynode ?l u)" using swp diff by auto
  moreover have "\<forall>u. cl_pc ?l u = CRecycle \<longrightarrow> cl_mypred ?l u \<noteq> None" using rec pred(1) by auto
  moreover have "\<forall>u. \<not> (cl_pc ?l u = CIn \<or> cl_pc ?l u = CClear)" using one by auto
  ultimately show ?thesis using nt unfolding clh_inv_def ts by simp
qed

lemma clh_recycle:
  assumes inv: "clh_inv l p0 ts" and pc: "cl_pc l t = CRecycle" and pred: "cl_mypred l t = Some p"
  shows "clh_inv (cgo t CIdle (l\<lparr>cl_mynode := (cl_mynode l)(t := p)\<rparr>)) p0 ts" (is "clh_inv ?l _ _")
proof -
  have nt: "t \<notin> set ts" using inv pc by (auto simp: clh_inv_def queued_def)
  have own: "clh_own ?l = clh_own l"
    using pc pred by (intro clh_own_same [of _ t]) (auto simp: clh_own_def split: option.splits)
  have w: "waiting ?l p0 ts"
  proof -
    have "\<forall>u \<in> set ts. cl_mypred ?l u = cl_mypred l u \<and> cl_mynode ?l u = cl_mynode l u" using nt by auto
    then have "waiting ?l p0 ts = waiting l p0 ts" by (intro waiting_cong) simp_all
    then show ?thesis using inv by (simp only: clh_inv_def)
  qed
  have "\<forall>u. u \<in> set ts \<longleftrightarrow> queued (cl_pc ?l u)" using inv nt by (auto simp: clh_inv_def queued_def)
  moreover have "\<forall>u \<in> set ts. cl_locked ?l (cl_mynode ?l u)" using inv nt by (auto simp: clh_inv_def)
  moreover have "\<forall>u. cl_pc ?l u = CSwap \<longrightarrow> cl_locked ?l (cl_mynode ?l u)" using inv by (auto simp: clh_inv_def)
  moreover have "\<forall>u. cl_pc ?l u = CRecycle \<longrightarrow> cl_mypred ?l u \<noteq> None" using inv by (auto simp: clh_inv_def)
  moreover have "\<forall>u. cl_pc ?l u = CIn \<or> cl_pc ?l u = CClear \<longrightarrow> ts \<noteq> [] \<and> u = hd ts"
    using inv by (auto simp: clh_inv_def)
  ultimately show ?thesis using inv w own by (simp add: clh_inv_def)
qed

lemma clh_run_inv:
  assumes inv: "clh_inv l p0 ts" and run: "clh_step (LockRun t) l = Some l'"
  shows "\<exists>p0 ts. clh_inv l' p0 ts"
proof (cases "cl_pc l t")
  case CSet
  then show ?thesis using run clh_set [OF inv CSet] by auto
next
  case CSwap
  then show ?thesis using run clh_swap [OF inv CSwap] by auto
next
  case CSpin
  show ?thesis
  proof (cases "cl_mypred l t")
    case (Some p)
    show ?thesis
    proof (cases "cl_locked l p")
      case True
      then have "l' = l" using run CSpin Some by simp
      then show ?thesis using inv by blast
    next
      case False
      then have "l' = cgo t CIn l" using run CSpin Some by simp
      then show ?thesis using clh_spin [OF inv CSpin Some False] by blast
    qed
  qed (use run CSpin in simp)
next
  case CClear
  then show ?thesis using run clh_clear [OF inv CClear] by auto
next
  case CRecycle
  show ?thesis
  proof (cases "cl_mypred l t")
    case (Some p)
    then have "l' = cgo t CIdle (l\<lparr>cl_mynode := (cl_mynode l)(t := p)\<rparr>)" using run CRecycle by simp
    then show ?thesis using clh_recycle [OF inv CRecycle Some] by blast
  qed (use run CRecycle in simp)
qed (use run in simp_all)

lemma clh_step_good: "clh_good l \<Longrightarrow> clh_step e l = Some l' \<Longrightarrow> clh_good l'"
proof -
  assume good: "clh_good l" and run: "clh_step e l = Some l'"
  then obtain p0 ts where inv: "clh_inv l p0 ts" by (auto simp: clh_good_def)
  have "\<exists>p0 ts. clh_inv l' p0 ts"
  proof (cases e)
    case (Acquire t)
    then have "cl_pc l t = CIdle" "l' = cgo t CSet l" using run by (auto split: if_splits)
    then show ?thesis using clh_inv_go [OF inv, of CSet t] by (auto simp: queued_def)
  next
    case (Release t)
    then have pc: "cl_pc l t = CIn" "l' = cgo t CClear l" using run by (auto split: if_splits)
    then have "ts \<noteq> [] \<and> t = hd ts" using inv by (simp add: clh_inv_def)
    then show ?thesis using pc clh_inv_go [OF inv, of CClear t] by (auto simp: queued_def)
  qed (use clh_run_inv [OF inv] run in blast)
  then show ?thesis by (simp add: clh_good_def)
qed

text \<open>
  What the code that uses a lock relies on: at most one thread is inside, a thread gets inside and
  leaves only by its own steps, and only through the calls.
\<close>

fun lockev_tid :: "lockev \<Rightarrow> tid" where
  "lockev_tid (Acquire t) = t"
| "lockev_tid (Release t) = t"
| "lockev_tid (LockRun t) = t"

locale lock_impl = machine step good
  for step :: "lockev \<Rightarrow> 'l \<Rightarrow> 'l option" and good :: "'l \<Rightarrow> bool" +
  fixes inside :: "'l \<Rightarrow> tid \<Rightarrow> bool"
  assumes one_inside: "good l \<Longrightarrow> inside l t \<Longrightarrow> inside l u \<Longrightarrow> t = u"
    and others_stay: "step e l = Some l' \<Longrightarrow> lockev_tid e \<noteq> t \<Longrightarrow> inside l' t = inside l t"
begin

text \<open>A thread that is inside stays alone until it leaves by a step of its own.\<close>

lemma stays_alone:
  "good l \<Longrightarrow> inside l t \<Longrightarrow> mrun step es l = Some l' \<Longrightarrow> \<forall>e \<in> set es. lockev_tid e \<noteq> t \<Longrightarrow> inside l' u \<Longrightarrow> u = t"
proof (induction es arbitrary: l)
  case Nil
  then show ?case using one_inside by auto
next
  case (Cons e es)
  then obtain m where m: "step e l = Some m" "mrun step es m = Some l'" by (auto split: option.splits)
  have "inside m t" using others_stay [OF m(1), of t] Cons.prems by simp
  then show ?case using Cons.IH [OF good_step [OF Cons.prems(1) m(1)] _ m(2)] Cons.prems by simp
qed

end

interpretation clh_lock: machine clh_step clh_good
  by unfold_locales (rule clh_step_good)

lemma clh_init_good: "clh_good clhLockInit"
  by (auto simp: clh_good_def clh_inv_def clhLockInit_def queued_def inj_def clh_own_def intro!: exI [of _ 0] exI [of _ "[]"])

text \<open>Who spins with an unlocked predecessor, and who is inside.\<close>

definition holds :: "clh \<Rightarrow> tid \<Rightarrow> bool" where
  "holds l t \<longleftrightarrow> cl_pc l t = CIn \<or> cl_pc l t = CClear"

lemma clh_run_pc:
  "clhLock_pc p t l = Some l' \<Longrightarrow> u \<noteq> t \<Longrightarrow> cl_pc l' u = cl_pc l u"
  "clhUnlock_pc p t l = Some l' \<Longrightarrow> u \<noteq> t \<Longrightarrow> cl_pc l' u = cl_pc l u"
  by (cases p; auto split: option.splits if_splits)+

interpretation clh_impl: lock_impl clh_step clh_good holds
proof unfold_locales
  show "t = u" if good: "clh_good l" and h: "holds l t" "holds l u" for l t u
  proof -
    obtain p0 ts where inv: "clh_inv l p0 ts" using good by (auto simp: clh_good_def)
    have "v = hd ts" if "holds l v" for v using inv that unfolding clh_inv_def holds_def by blast
    then show "t = u" using h by metis
  qed
next
  show "holds l' t = holds l t" if "clh_step e l = Some l'" "lockev_tid e \<noteq> t" for e l l' t
    using that clh_run_pc by (cases e) (auto simp: holds_def split: if_splits option.splits)
qed

lemma clh_inv_free:
  assumes inv: "clh_inv l p0 ts" and "ts \<noteq> []" and free: "\<not> holds l (hd ts)"
  shows "cl_pc l (hd ts) = CSpin \<and> clh_step (LockRun (hd ts)) l = Some (cgo (hd ts) CIn l)"
proof -
  obtain t us where ts: "ts = t # us" using assms(2) by (cases ts) auto
  then have "queued (cl_pc l t)" "cl_mypred l t = Some p0" "\<not> cl_locked l p0" using inv by (auto simp: clh_inv_def)
  then show ?thesis using free ts by (auto simp: queued_def holds_def)
qed

text \<open>
  (C15) The CLH lock, with any number of threads in any interleaving: no two threads are between the
  return of \<open>clhLock\<close> and the store of \<open>clhUnlock\<close> that releases the lock; and whenever the
  lock is free and threads wait for it, the next step of one of them enters.
\<close>

theorem clh_mutex:
  assumes "mrun clh_step es clhLockInit = Some l"
  shows "(\<forall>t u. holds l t \<and> holds l u \<longrightarrow> t = u) \<and>
    ((\<exists>t. cl_pc l t = CSpin) \<and> (\<forall>t. \<not> holds l t) \<longrightarrow>
      (\<exists>t. cl_pc l t = CSpin \<and> clh_step (LockRun t) l = Some (cgo t CIn l)))"
proof -
  obtain p0 ts where inv: "clh_inv l p0 ts"
    using clh_lock.good_run [OF clh_init_good assms] by (auto simp: clh_good_def)
  have "t = hd ts" if "holds l t" for t using inv that unfolding clh_inv_def holds_def by blast
  then have "t = u" if "holds l t" "holds l u" for t u using that by metis
  moreover have "\<exists>t. cl_pc l t = CSpin \<and> clh_step (LockRun t) l = Some (cgo t CIn l)"
    if spin: "cl_pc l u = CSpin" and free: "\<forall>t. \<not> holds l t" for u
  proof -
    have "u \<in> set ts" using inv spin by (simp add: clh_inv_def queued_def)
    then have "ts \<noteq> []" by auto
    then show ?thesis using clh_inv_free [OF inv] free by blast
  qed
  ultimately show ?thesis by blast
qed

definition demo_lock :: "lockev list" where
  "demo_lock = [Acquire 0, Acquire 1, LockRun 1, LockRun 0, LockRun 1, LockRun 0, LockRun 1, LockRun 0, Release 1, LockRun 1,
     LockRun 0, LockRun 1]"

theorem clh_mutex_witness:
  "\<exists>l. mrun clh_step demo_lock clhLockInit = Some l \<and> holds l 0 \<and> \<not> holds l 1"
proof -
  have "map_option (\<lambda>l. holds l 0) (mrun clh_step demo_lock clhLockInit) = Some True" by code_simp
  then obtain l where l: "mrun clh_step demo_lock clhLockInit = Some l" "holds l 0" by auto
  moreover have "\<not> holds l 1" using conjunct1 [OF clh_mutex [OF l(1)], rule_format, of 0 1] l(2) by auto
  ultimately show ?thesis by blast
qed

end
