(* ===== verification/YieldServer.thy ===== *)
theory YieldServer
  imports LCRQServer
begin

text \<open>
  \<open>lcrq-server/lcrq-yield.c\<close>: its own copy of the LCRQ queue, over the data of theory \<open>LCRQ\<close>, and
  the layer above it, whose \<open>queue_get\<close> polls with \<open>sched_yield\<close> instead of sleeping. The copy of
  the ring code is translated from this file and then shown to take the steps of \<open>lcrq.c\<close>.
\<close>

section \<open>The queue\<close>

definition yield_close_crq :: "nat \<Rightarrow> u64 \<Rightarrow> nat \<Rightarrow> lcrq \<Rightarrow> bool \<times> lcrq" where
  "yield_close_crq rq t tries s =
     (if tries < 10 then
        (if rtail s rq = t + 1 then (True, set_tail rq ((t + 1) OR push_bit 63 1) s) else (False, s))
      else
        (\<not> bit (rtail s rq) 63, set_tail rq (rtail s rq OR push_bit 63 1) s))"

fun yield_enqueue_pc :: "lpc \<Rightarrow> tid \<Rightarrow> lcrq \<Rightarrow> lcrq option" where
  "yield_enqueue_pc (LReadTail arg k) t s = Some (lgo t (LReadNext arg k (l_tail s)) s)"
| "yield_enqueue_pc (LReadNext arg k rq) t s =
     (case r_next (l_rings s rq) of
        Some nx \<Rightarrow> Some (lgo t (LSwing arg k rq nx) s)
      | None \<Rightarrow> Some (lgo t (LFaaTail arg k rq) s))"
| "yield_enqueue_pc (LSwing arg k rq nx) t s =
     Some (lgo t (LReadTail arg k) (if l_tail s = rq then s\<lparr>l_tail := nx\<rparr> else s))"
| "yield_enqueue_pc (LFaaTail arg k rq) t s =
     (let tk = rtail s rq; s' = set_tail rq (tk + 1) s in
      if crq_is_closed tk then Some (lgo t (LAlloc arg k rq) s') else Some (lgo t (LReadIdx arg k rq tk) s'))"
| "yield_enqueue_pc (LAlloc arg k rq) t s =
     (let (n, s1) = take_nrq t s;
          solo = (l_rings s1 n)\<lparr>r_tail := 1, r_array := (r_array (l_rings s1 n))(0 := \<lparr>c_val = to_val arg, c_idx = 0\<rparr>)\<rparr>
      in Some (lgo t (LCasNext arg k rq) (set_ring n solo s1)))"
| "yield_enqueue_pc (LCasNext arg k rq) t s =
     (if r_next (l_rings s rq) = None
      then Some (lgo t (LSwingNew rq) (set_ring rq ((l_rings s rq)\<lparr>r_next := l_nrq s t\<rparr>) s))
      else Some (lgo t (LReadTail arg k) s))"
| "yield_enqueue_pc (LSwingNew rq) t s =
     (case l_nrq s t of
        None \<Rightarrow> None
      | Some n \<Rightarrow> Some (lgo t LEnqDone
          (s\<lparr>l_tail := if l_tail s = rq then n else l_tail s, l_nrq := (l_nrq s)(t := None)\<rparr>)))"
| "yield_enqueue_pc (LReadIdx arg k rq tk) t s = Some (lgo t (LReadVal arg k rq tk (c_idx (cell s rq tk))) s)"
| "yield_enqueue_pc (LReadVal arg k rq tk idx) t s =
     (if \<not> is_empty (c_val (cell s rq tk)) then Some (lgo t (LFull arg k rq tk) s)
      else if \<not> node_index idx \<le> tk then Some (lgo t (LFull arg k rq tk) s)
      else if node_unsafe idx = 0 then Some (lgo t (LCas2 arg k rq tk idx) s)
      else Some (lgo t (LReadHead arg k rq tk idx) s))"
| "yield_enqueue_pc (LReadHead arg k rq tk idx) t s =
     Some (lgo t (if rhead s rq < tk then LCas2 arg k rq tk idx else LFull arg k rq tk) s)"
| "yield_enqueue_pc (LCas2 arg k rq tk idx) t s =
     (let (ok, s') = cas2 rq tk (-1) idx (to_val arg) tk s in
      Some (lgo t (if ok then LEnqDone else LFull arg k rq tk) s'))"
| "yield_enqueue_pc (LFull arg k rq tk) t s =
     (let h = rhead s rq in
      if sint (RING_SIZE s) \<le> sint (tk - h) then Some (lgo t (LClose arg (Suc k) rq tk) s)
      else Some (lgo t (LReadTail arg k) s))"
| "yield_enqueue_pc (LClose arg k rq tk) t s =
     (let (ok, s') = yield_close_crq rq tk k s in
      Some (lgo t (if ok then LAlloc arg k rq else LReadTail arg k) s'))"
| "yield_enqueue_pc _ t s = None"

fun yield_fixState_pc :: "lpc \<Rightarrow> tid \<Rightarrow> lcrq \<Rightarrow> lcrq option" where
  "yield_fixState_pc (LFix1 rq b) t s = Some (lgo t (LFix2 rq b (rtail s rq)) s)"
| "yield_fixState_pc (LFix2 rq b tk) t s = Some (lgo t (LFix3 rq b tk (rhead s rq)) s)"
| "yield_fixState_pc (LFix3 rq b tk h) t s =
     (if rtail s rq \<noteq> tk then Some (lgo t (LFix1 rq b) s)
      else if h > tk then Some (lgo t (LFix4 rq b tk h) s)
      else Some (lgo t (LDNext rq b) s))"
| "yield_fixState_pc (LFix4 rq b tk h) t s =
     (if rtail s rq = tk then Some (lgo t (LDNext rq b) (set_tail rq h s)) else Some (lgo t (LFix1 rq b) s))"
| "yield_fixState_pc _ t s = None"

text \<open>
  In this file the new index is written \<open>unsafe | h + RING_SIZE\<close>, without the parentheses of
  \<open>lcrq.c\<close>; C reads it the same way.
\<close>

fun yield_dequeue_pc :: "lpc \<Rightarrow> tid \<Rightarrow> lcrq \<Rightarrow> lcrq option" where
  "yield_dequeue_pc LDReadHead t s = Some (lgo t (LDFaa (l_head s)) s)"
| "yield_dequeue_pc (LDFaa rq) t s =
     (let h = rhead s rq in Some (lgo t (LDIdx rq h 0 0) (set_head rq (h + 1) s)))"
| "yield_dequeue_pc (LDIdx rq h tt r) t s = Some (lgo t (LDVal rq h tt r (c_idx (cell s rq h))) s)"
| "yield_dequeue_pc (LDVal rq h tt r ci) t s =
     (let val = c_val (cell s rq h); idx = node_index ci in
      if idx > h then Some (lgo t (LDBreak rq h) s)
      else if is_empty val then Some (lgo t (LDTail rq h tt r ci val) s)
      else if idx = h then Some (lgo t (LDTake rq h tt r ci val) s)
      else Some (lgo t (LDUnsafe rq h tt r ci val) s))"
| "yield_dequeue_pc (LDTail rq h tt r ci val) t s =
     (let tt' = (if r mod 1024 = 0 then rtail s rq else tt) in
      if node_unsafe ci \<noteq> 0 then Some (lgo t (LDSkipUnsafe rq h tt' r ci val) s)
      else if tail_index tt' < h + 1 \<or> r > 200000 \<or> crq_is_closed tt' then Some (lgo t (LDSkip rq h tt' r ci val) s)
      else Some (lgo t (LDIdx rq h tt' (Suc r)) s))"
| "yield_dequeue_pc (LDTake rq h tt r ci val) t s =
     (let (ok, s') = cas2 rq h val ci (-1) (node_unsafe ci OR h + RING_SIZE s) s in
      Some (lgo t (if ok then LDeqDone (of_val val) else LDIdx rq h tt r) s'))"
| "yield_dequeue_pc (LDUnsafe rq h tt r ci val) t s =
     (let (ok, s') = cas2 rq h val ci val (set_unsafe (node_index ci)) s in
      Some (lgo t (if ok then LDBreak rq h else LDIdx rq h tt r) s'))"
| "yield_dequeue_pc (LDSkipUnsafe rq h tt r ci val) t s =
     (let (ok, s') = cas2 rq h val ci val (node_unsafe ci OR h + RING_SIZE s) s in
      Some (lgo t (if ok then LDBreak rq h else LDIdx rq h tt r) s'))"
| "yield_dequeue_pc (LDSkip rq h tt r ci val) t s =
     (let (ok, s') = cas2 rq h val (node_index ci) val (h + RING_SIZE s) s in
      if \<not> ok then Some (lgo t (LDIdx rq h tt r) s')
      else if r > 200000 \<and> tt > RING_SIZE s then Some (lgo t (LDClose rq h) s')
      else Some (lgo t (LDBreak rq h) s'))"
| "yield_dequeue_pc (LDClose rq h) t s = Some (lgo t (LDBreak rq h) (set_tail rq (rtail s rq OR push_bit 63 1) s))"
| "yield_dequeue_pc (LDBreak rq h) t s =
     Some (lgo t (if tail_index (rtail s rq) \<le> h + 1 then LFix1 rq h else LDReadHead) s)"
| "yield_dequeue_pc (LDNext rq h) t s =
     (case r_next (l_rings s rq) of
        None \<Rightarrow> Some (lgo t (LDeqDone (-1)) s)
      | Some nx \<Rightarrow> Some (lgo t (LDCheck rq h nx) s))"
| "yield_dequeue_pc (LDCheck rq h nx) t s =
     Some (lgo t (if tail_index (rtail s rq) \<le> h + 1 then LDCasHead rq nx else LDReadHead) s)"
| "yield_dequeue_pc (LDCasHead rq nx) t s =
     Some (lgo t LDReadHead (if l_head s = rq then s\<lparr>l_head := nx\<rparr> else s))"
| "yield_dequeue_pc p t s = yield_fixState_pc p t s"

fun yield_ring_step :: "qev \<Rightarrow> lcrq \<Rightarrow> lcrq option" where
  "yield_ring_step (EnqBegin t arg) s = (if lidle (l_pc s t) then Some (lgo t (LReadTail arg 0) s) else None)"
| "yield_ring_step (DeqBegin t) s = (if lidle (l_pc s t) then Some (lgo t LDReadHead s) else None)"
| "yield_ring_step (QRun t) s =
     (case yield_enqueue_pc (l_pc s t) t s of
        Some s' \<Rightarrow> Some s' | None \<Rightarrow> yield_dequeue_pc (l_pc s t) t s)"

lemma yield_enqueue_same: "yield_enqueue_pc p t s = lenqueue_pc p t s"
  by (cases p) (auto simp: Let_def yield_close_crq_def close_crq_def solo_enqueue_def EMPTY_VAL_def split: option.splits prod.splits)

lemma yield_fixState_same: "yield_fixState_pc p t s = fixState_pc p t s"
  by (cases p) simp_all

lemma yield_dequeue_same: "yield_dequeue_pc p t s = ldequeue_pc p t s"
  by (cases p) (auto simp: Let_def empty_cell_def EMPTY_VAL_def yield_fixState_same split: option.splits prod.splits)

lemma yield_ring_step_eq: "yield_ring_step = lstep"
proof (intro ext)
  fix e s
  show "yield_ring_step e s = lstep e s" by (cases e) (simp_all add: yield_enqueue_same yield_dequeue_same split: option.splits)
qed

section \<open>The layer\<close>

datatype ypc =
    YIdle
  | YPut          \<comment> \<open>inside \<open>enqueue((Object) sock, 0)\<close>\<close>
  | YGet          \<comment> \<open>inside \<open>dequeue(0)\<close>\<close>
  | YYield        \<comment> \<open>\<open>sock == -1\<close>: \<open>sched_yield()\<close>, and again\<close>

text \<open>
  \<open>y_calls\<close>, \<open>y_effects\<close> and \<open>y_returns\<close> record the sockets given to \<open>queue_put\<close>, what took
  effect on the rings, and the sockets \<open>queue_get\<close> returned, each with its thread; no step reads them.
\<close>

record yserver =
  y_queue :: lcrq
  y_pc :: "tid \<Rightarrow> ypc"
  y_calls :: "(tid \<times> int) list"
  y_effects :: "(tid \<times> int qact) list"
  y_returns :: "(tid \<times> int) list"

datatype yev = YCallPut tid int | YCallGet tid | YRun tid

definition ygo :: "tid \<Rightarrow> ypc \<Rightarrow> yserver \<Rightarrow> yserver" where
  "ygo t p s = s\<lparr>y_pc := (y_pc s)(t := p)\<rparr>"

definition effect :: "tid \<Rightarrow> lcrq \<Rightarrow> (tid \<times> int qact) list" where
  "effect t q = (case llin (QRun t) q of None \<Rightarrow> [] | Some a \<Rightarrow> [(t, a)])"

definition y_inner :: "qev \<Rightarrow> tid \<Rightarrow> ypc \<Rightarrow> yserver \<Rightarrow> yserver option" where
  "y_inner e t p s = map_option (\<lambda>q. ygo t p (s\<lparr>y_queue := q\<rparr>)) (yield_ring_step e (y_queue s))"

definition y_run_inner :: "tid \<Rightarrow> yserver \<Rightarrow> yserver option" where
  "y_run_inner t s =
     map_option (\<lambda>s'. s'\<lparr>y_effects := y_effects s @ effect t (y_queue s)\<rparr>) (y_inner (QRun t) t (y_pc s t) s)"

definition yield_queue_init :: "nat \<Rightarrow> yserver" where
  "yield_queue_init pow =
     \<lparr>y_queue = l_init pow False, y_pc = (\<lambda>t. YIdle), y_calls = [], y_effects = [], y_returns = []\<rparr>"

fun yield_queue_put :: "ypc \<Rightarrow> tid \<Rightarrow> yserver \<Rightarrow> yserver option" where
  "yield_queue_put YPut t s =
     (if l_res t (y_queue s) = None then y_run_inner t s else Some (ygo t YIdle s))"
| "yield_queue_put _ t s = None"

fun yield_queue_get :: "ypc \<Rightarrow> tid \<Rightarrow> yserver \<Rightarrow> yserver option" where
  "yield_queue_get YGet t s =
     (case l_res t (y_queue s) of
        None \<Rightarrow> y_run_inner t s
      | Some sock \<Rightarrow>
          if sock = -1 then Some (ygo t YYield s)
          else Some (ygo t YIdle (s\<lparr>y_returns := y_returns s @ [(t, sock)]\<rparr>)))"
| "yield_queue_get YYield t s = y_inner (DeqBegin t) t YGet s"
| "yield_queue_get _ t s = None"

fun ystep :: "yev \<Rightarrow> yserver \<Rightarrow> yserver option" where
  "ystep (YCallPut t sock) s =
     (if y_pc s t = YIdle then y_inner (EnqBegin t sock) t YPut (s\<lparr>y_calls := y_calls s @ [(t, sock)]\<rparr>) else None)"
| "ystep (YCallGet t) s = (if y_pc s t = YIdle then y_inner (DeqBegin t) t YGet s else None)"
| "ystep (YRun t) s =
     (case yield_queue_put (y_pc s t) t s of Some s' \<Rightarrow> Some s' | None \<Rightarrow> yield_queue_get (y_pc s t) t s)"

section \<open>Nothing is lost, nothing is served twice\<close>

definition vals_of :: "tid \<Rightarrow> (tid \<times> 'a) list \<Rightarrow> 'a list" where
  "vals_of t xs = map snd (filter (\<lambda>x. fst x = t) xs)"

lemma vals_of_simps [simp]:
  "vals_of t [] = []" "vals_of t (xs @ ys) = vals_of t xs @ vals_of t ys" "vals_of t [(u, a)] = (if u = t then [a] else [])"
  by (simp_all add: vals_of_def)

lemma puts_gots_append [simp]: "puts (as @ bs) = puts as @ puts bs" "gots (as @ bs) = gots as @ gots bs"
  by (induction as rule: puts.induct) simp_all

definition put_of :: "tid \<Rightarrow> yserver \<Rightarrow> int list" where
  "put_of t s = puts (vals_of t (y_effects s))"

definition got_of :: "tid \<Rightarrow> yserver \<Rightarrow> int list" where
  "got_of t s = gots (vals_of t (y_effects s))"

text \<open>Where a thread is in its call, against what it asked for and what it has returned.\<close>

fun y_at :: "ypc \<Rightarrow> qobs \<Rightarrow> int list \<Rightarrow> int list \<Rightarrow> int list \<Rightarrow> int list \<Rightarrow> bool" where
  "y_at YIdle ob cs ps gs rs \<longleftrightarrow> cs = ps \<and> gs = rs"
| "y_at YYield ob cs ps gs rs \<longleftrightarrow> cs = ps \<and> gs = rs"
| "y_at YPut ob cs ps gs rs \<longleftrightarrow> gs = rs \<and> (ob = Enqed \<and> cs = ps \<or> (\<exists>v. ob = Enqing v \<and> v \<noteq> -1 \<and> cs = ps @ [v]))"
| "y_at YGet ob cs ps gs rs \<longleftrightarrow>
     cs = ps \<and> (ob = Deqing \<and> gs = rs \<or> (\<exists>v. ob = Deqed v \<and> gs = rs @ (if v = -1 then [] else [v])))"

definition y_inv :: "yserver \<Rightarrow> bool" where
  "y_inv s \<longleftrightarrow> l_good (y_queue s) \<and> -1 \<notin># l_bag (y_queue s) \<and>
     mset (puts (map snd (y_effects s))) = mset (gots (map snd (y_effects s))) + l_bag (y_queue s) \<and>
     (\<forall>t. y_at (y_pc s t) (l_obs t (y_queue s)) (vals_of t (y_calls s)) (put_of t s) (got_of t s) (vals_of t (y_returns s))) \<and>
     (\<forall>t. y_pc s t = YIdle \<or> y_pc s t = YYield \<longrightarrow> lidle (l_pc (y_queue s) t))"

lemma ygo_simps [simp]:
  "y_queue (ygo t p s) = y_queue s" "y_pc (ygo t p s) = (y_pc s)(t := p)" "y_calls (ygo t p s) = y_calls s"
  "y_effects (ygo t p s) = y_effects s" "y_returns (ygo t p s) = y_returns s"
  by (simp_all add: ygo_def)

lemma res_idle: "l_res t q = Some v \<Longrightarrow> lidle (l_pc q t)"
  by (cases "l_pc q t") (simp_all add: l_res_def)

fun yput_valid :: "yev \<Rightarrow> bool" where
  "yput_valid (YCallPut t sock) = object sock"
| "yput_valid _ = True"

text \<open>A step by \<open>t\<close> keeps the invariant if it does for \<open>t\<close> and for the content.\<close>

lemma y_inv_move:
  assumes inv: "y_inv s" and good: "l_good (y_queue s')" "-1 \<notin># l_bag (y_queue s')"
    and bag: "mset (puts (map snd (y_effects s'))) = mset (gots (map snd (y_effects s'))) + l_bag (y_queue s')"
    and pc: "y_pc s' = (y_pc s)(t := p)" and lpc: "\<exists>q. l_pc (y_queue s') = (l_pc (y_queue s))(t := q)"
    and other: "\<And>u. u \<noteq> t \<Longrightarrow> vals_of u (y_calls s') = vals_of u (y_calls s) \<and>
      vals_of u (y_effects s') = vals_of u (y_effects s) \<and> vals_of u (y_returns s') = vals_of u (y_returns s)"
    and own: "y_at p (l_obs t (y_queue s')) (vals_of t (y_calls s')) (put_of t s') (got_of t s') (vals_of t (y_returns s'))"
    and idle: "p = YIdle \<or> p = YYield \<Longrightarrow> lidle (l_pc (y_queue s') t)"
  shows "y_inv s'"
proof -
  have "y_at (y_pc s' u) (l_obs u (y_queue s')) (vals_of u (y_calls s')) (put_of u s') (got_of u s') (vals_of u (y_returns s'))" for u
  proof (cases "u = t")
    case False
    then have "l_obs u (y_queue s') = l_obs u (y_queue s)" using lpc by (auto simp: l_obs_def)
    then show ?thesis using inv other [OF False] False pc by (simp add: y_inv_def put_of_def got_of_def)
  qed (use own pc in simp)
  moreover have "lidle (l_pc (y_queue s') u)" if "y_pc s' u = YIdle \<or> y_pc s' u = YYield" for u
  proof (cases "u = t")
    case False
    then have "l_pc (y_queue s') u = l_pc (y_queue s) u" using lpc by auto
    then show ?thesis using inv that False pc by (auto simp: y_inv_def)
  qed (use idle that pc in simp)
  ultimately show ?thesis using good bag by (simp add: y_inv_def)
qed

lemma effect_fst: "vals_of u (effect t q) = (if u = t then map snd (effect t q) else [])"
  by (auto simp: effect_def split: option.splits)

text \<open>One step inside \<open>enqueue\<close> or \<open>dequeue\<close>.\<close>

lemma y_inner_run:
  assumes inv: "y_inv s" and pc: "y_pc s t = YPut \<or> y_pc s t = YGet" and run: "y_run_inner t s = Some s'"
  shows "y_inv s'"
proof -
  let ?q = "y_queue s"
  obtain q where q: "lstep (QRun t) ?q = Some q"
    and s': "s' = (ygo t (y_pc s t) (s\<lparr>y_queue := q\<rparr>))\<lparr>y_effects := y_effects s @ effect t ?q\<rparr>"
    using run by (auto simp: y_run_inner_def y_inner_def yield_ring_step_eq)
  have g: "l_good ?q" "-1 \<notin># l_bag ?q" and bag: "mset (puts (map snd (y_effects s))) = mset (gots (map snd (y_effects s))) + l_bag ?q"
    and at: "y_at (y_pc s t) (l_obs t ?q) (vals_of t (y_calls s)) (put_of t s) (got_of t s) (vals_of t (y_returns s))"
    using inv by (simp_all add: y_inv_def)
  have lpc: "\<exists>p. l_pc (y_queue s') = (l_pc ?q)(t := p)" using lstep_pc_only [OF q] s' by simp
  have good: "l_good (y_queue s')" using lcs.q_good [OF g(1) _ q] s' by simp
  have tr: "put_of t s' = put_of t s @ puts (map snd (effect t ?q))" "got_of t s' = got_of t s @ gots (map snd (effect t ?q))"
    using s' by (simp_all add: put_of_def got_of_def effect_fst)
  show ?thesis
  proof (rule y_inv_move [OF inv good _ _ _ lpc])
    show "y_pc s' = (y_pc s)(t := y_pc s t)" using s' by simp
    show "vals_of u (y_calls s') = vals_of u (y_calls s) \<and> vals_of u (y_effects s') = vals_of u (y_effects s) \<and>
      vals_of u (y_returns s') = vals_of u (y_returns s)" if "u \<noteq> t" for u using s' that by (simp add: effect_fst)
    show "lidle (l_pc (y_queue s') t)" if "y_pc s t = YIdle \<or> y_pc s t = YYield" using that pc by auto
    show "-1 \<notin># l_bag (y_queue s')"
      "mset (puts (map snd (y_effects s'))) = mset (gots (map snd (y_effects s'))) + l_bag (y_queue s')"
      "y_at (y_pc s t) (l_obs t (y_queue s')) (vals_of t (y_calls s')) (put_of t s') (got_of t s') (vals_of t (y_returns s'))"
    proof -
      have "-1 \<notin># l_bag q \<and>
        mset (puts (map snd (y_effects s @ effect t ?q))) = mset (gots (map snd (y_effects s @ effect t ?q))) + l_bag q \<and>
        y_at (y_pc s t) (l_obs t q) (vals_of t (y_calls s)) (put_of t s @ puts (map snd (effect t ?q)))
          (got_of t s @ gots (map snd (effect t ?q))) (vals_of t (y_returns s))"
      proof (cases "llin (QRun t) ?q")
        case None
        then have e: "effect t ?q = []" by (simp add: effect_def)
        from lcs.q_quiet [OF g(1) q None] show ?thesis using g bag at pc e by auto
      next
        case (Some a)
        then have e: "effect t ?q = [(t, a)]" by (simp add: effect_def)
        show ?thesis
        proof (cases a)
          case (Put v)
          from lcs.q_put [OF g(1) q Some [unfolded Put]] show ?thesis using g bag at pc e Put by auto
        next
          case (Got v)
          from lcs.q_got [OF g(1) q Some [unfolded Got]] show ?thesis using g bag at pc e Got by auto
        next
          case Empty
          then show ?thesis using lcs.q_empty [OF g(1) q] Some by simp
        qed
      qed
      then show "-1 \<notin># l_bag (y_queue s')"
        "mset (puts (map snd (y_effects s'))) = mset (gots (map snd (y_effects s'))) + l_bag (y_queue s')"
        "y_at (y_pc s t) (l_obs t (y_queue s')) (vals_of t (y_calls s')) (put_of t s') (got_of t s') (vals_of t (y_returns s'))"
        unfolding tr using s' by simp_all
    qed
  qed
qed

text \<open>A step that leaves the rings alone: a return, or a yield.\<close>

lemma y_inv_leave:
  assumes inv: "y_inv s" and res: "l_res t (y_queue s) = Some v"
    and s': "s' = ygo t p (s\<lparr>y_returns := y_returns s @ rs\<rparr>)" and rs: "\<And>u. u \<noteq> t \<Longrightarrow> vals_of u rs = []"
    and own: "y_at p (l_obs t (y_queue s)) (vals_of t (y_calls s)) (put_of t s) (got_of t s) (vals_of t (y_returns s) @ vals_of t rs)"
  shows "y_inv s'"
proof (rule y_inv_move [OF inv])
  show "l_good (y_queue s')" "-1 \<notin># l_bag (y_queue s')"
    "mset (puts (map snd (y_effects s'))) = mset (gots (map snd (y_effects s'))) + l_bag (y_queue s')"
    using inv s' by (simp_all add: y_inv_def)
  show "\<exists>q. l_pc (y_queue s') = (l_pc (y_queue s))(t := q)" using s' by (auto intro: exI [of _ "l_pc (y_queue s) t"])
  show "lidle (l_pc (y_queue s') t)" using res_idle [OF res] s' by simp
qed (use s' rs own in \<open>simp_all add: put_of_def got_of_def\<close>)

lemma y_inv_call:
  assumes inv: "y_inv s" and pc: "y_pc s t = YIdle \<or> y_pc s t = YYield"
    and q: "lstep e (y_queue s) = Some q" and e: "e = EnqBegin t v \<and> v \<noteq> -1 \<and> object v \<and> p = YPut \<and> cs = [(t, v)] \<or> e = DeqBegin t \<and> p = YGet \<and> cs = []"
    and s': "s' = ygo t p (s\<lparr>y_calls := y_calls s @ cs, y_queue := q\<rparr>)"
  shows "y_inv s'"
proof (rule y_inv_move [OF inv])
  have g: "l_good (y_queue s)" using inv by (simp add: y_inv_def)
  have at: "vals_of t (y_calls s) = put_of t s" "got_of t s = vals_of t (y_returns s)"
    using inv pc by (auto simp: y_inv_def dest!: spec [of _ t])
  have ev: "e = QRun t \<or> e = DeqBegin t \<or> e = EnqBegin t v" using e by auto
  have o: "(e = EnqBegin t v \<longrightarrow> l_obs t q = Enqing v) \<and> (e = DeqBegin t \<longrightarrow> l_obs t q = Deqing) \<and> l_bag q = l_bag (y_queue s)"
    using e lcs.q_enq [OF g, of t v q] lcs.q_deq [OF g, of t q] q by auto
  show "l_good (y_queue s')" using lcs.q_good [OF g _ q] e s' by auto
  show "-1 \<notin># l_bag (y_queue s')" using inv o s' by (simp add: y_inv_def)
  show "mset (puts (map snd (y_effects s'))) = mset (gots (map snd (y_effects s'))) + l_bag (y_queue s')"
    using inv o s' by (simp add: y_inv_def)
  show "\<exists>p. l_pc (y_queue s') = (l_pc (y_queue s))(t := p)" using lstep_pc_only [OF q ev] s' by simp
  show "y_at p (l_obs t (y_queue s')) (vals_of t (y_calls s')) (put_of t s') (got_of t s') (vals_of t (y_returns s'))"
    using e o at s' by (auto simp: put_of_def got_of_def)
  show "lidle (l_pc (y_queue s') t)" if "p = YIdle \<or> p = YYield" using that e by auto
qed (use e s' in auto)

lemma ystep_inv:
  assumes inv: "y_inv s" and e: "yput_valid e" and run: "ystep e s = Some s'"
  shows "y_inv s'"
proof (cases e)
  case (YCallPut t v)
  then obtain q where pc: "y_pc s t = YIdle" and q: "lstep (EnqBegin t v) (y_queue s) = Some q"
    and s': "s' = ygo t YPut (s\<lparr>y_calls := y_calls s @ [(t, v)], y_queue := q\<rparr>)"
    using run by (auto simp: y_inner_def yield_ring_step_eq split: if_splits)
  have "object v" using e YCallPut by simp
  then show ?thesis using y_inv_call [OF inv _ q, of t v YPut "[(t, v)]" s'] pc s' object_nonempty by blast
next
  case (YCallGet t)
  then obtain q where pc: "y_pc s t = YIdle" and q: "lstep (DeqBegin t) (y_queue s) = Some q"
    and s': "s' = ygo t YGet (s\<lparr>y_queue := q\<rparr>)"
    using run by (auto simp: y_inner_def yield_ring_step_eq split: if_splits)
  then show ?thesis using y_inv_call [OF inv _ q, of t 0 YGet "[]" s'] by simp
next
  case (YRun t)
  have at: "y_at (y_pc s t) (l_obs t (y_queue s)) (vals_of t (y_calls s)) (put_of t s) (got_of t s) (vals_of t (y_returns s))"
    using inv by (simp add: y_inv_def)
  have obs: "l_obs t (y_queue s) = Enqed \<or> l_obs t (y_queue s) = Deqed v" if "l_res t (y_queue s) = Some v" for v
    using lcs.q_res [of "y_queue s" t v] that inv by (simp add: y_inv_def)
  show ?thesis
  proof (cases "y_pc s t")
    case YPut
    show ?thesis
    proof (cases "l_res t (y_queue s)")
      case None
      then have "y_run_inner t s = Some s'" using run YRun YPut by (simp split: option.splits)
      then show ?thesis using y_inner_run [OF inv] YPut by blast
    next
      case (Some v)
      then have "s' = ygo t YIdle (s\<lparr>y_returns := y_returns s @ []\<rparr>)" using run YRun YPut by simp
      then show ?thesis using y_inv_leave [OF inv Some, of s' YIdle "[]"] at YPut obs [OF Some] by auto
    qed
  next
    case YGet
    show ?thesis
    proof (cases "l_res t (y_queue s)")
      case None
      then have "y_run_inner t s = Some s'" using run YRun YGet by (simp split: option.splits)
      then show ?thesis using y_inner_run [OF inv] YGet by blast
    next
      case (Some v)
      have o: "l_obs t (y_queue s) = Deqed v" using at YGet obs [OF Some] by auto
      show ?thesis
      proof (cases "v = -1")
        case True
        then have "s' = ygo t YYield (s\<lparr>y_returns := y_returns s @ []\<rparr>)" using run YRun YGet Some by simp
        then show ?thesis using y_inv_leave [OF inv Some, of s' YYield "[]"] at YGet o True by auto
      next
        case False
        then have "s' = ygo t YIdle (s\<lparr>y_returns := y_returns s @ [(t, v)]\<rparr>)" using run YRun YGet Some by simp
        then show ?thesis using y_inv_leave [OF inv Some, of s' YIdle "[(t, v)]"] at YGet o False by auto
      qed
    qed
  next
    case YYield
    then obtain q where q: "lstep (DeqBegin t) (y_queue s) = Some q" and s': "s' = ygo t YGet (s\<lparr>y_queue := q\<rparr>)"
      using run YRun by (auto simp: y_inner_def yield_ring_step_eq)
    then show ?thesis using y_inv_call [OF inv _ q, of t 0 YGet "[]" s'] YYield by simp
  qed (use run YRun in simp)
qed

interpretation yield: machine "\<lambda>e s. if yput_valid e then ystep e s else None" y_inv
  by unfold_locales (auto intro: ystep_inv split: if_splits)

lemma yield_init_inv: "y_inv (yield_queue_init pow)"
  using l_init_good [of pow] l_init_bag [of pow]
  by (simp add: y_inv_def yield_queue_init_def put_of_def got_of_def) (simp add: l_init_def)

lemma yield_run_inv:
  "mrun ystep es (yield_queue_init pow) = Some s \<Longrightarrow> list_all yput_valid es \<Longrightarrow> y_inv s"
  using yield.good_run [OF yield_init_inv, of es pow s] by (simp add: mrun_guard)

text \<open>The main thread puts 7, and a worker gets it.\<close>

definition demo_yield :: "yev list" where
  "demo_yield = YCallPut 0 7 # replicate 7 (YRun 0) @ YCallGet 1 # replicate 6 (YRun 1)"

lemma demo_yield_run:
  "map_option (\<lambda>s. (y_pc s 0, y_pc s 1, y_returns s)) (mrun ystep demo_yield (yield_queue_init 1)) = Some (YIdle, YIdle, [(1, 7)])"
  by code_simp

text \<open>
  (C18) The polling server neither loses a socket nor serves one twice, under every interleaving: a
  thread outside \<open>queue_put\<close> and \<open>queue_get\<close> has put exactly what it was asked to, in that
  order, and \<open>queue_get\<close> has returned exactly what it took from the rings; and all that was put
  is what was taken and what is still in the rings.
\<close>

theorem yield_exact:
  assumes "mrun ystep es (yield_queue_init pow) = Some s" and "list_all yput_valid es"
  shows "(\<forall>t. y_pc s t = YIdle \<longrightarrow> puts (vals_of t (y_effects s)) = vals_of t (y_calls s) \<and>
      gots (vals_of t (y_effects s)) = vals_of t (y_returns s)) \<and>
    mset (puts (map snd (y_effects s))) = mset (gots (map snd (y_effects s))) + l_bag (y_queue s)"
proof -
  have inv: "y_inv s" by (rule yield_run_inv [OF assms])
  have "puts (vals_of t (y_effects s)) = vals_of t (y_calls s) \<and> gots (vals_of t (y_effects s)) = vals_of t (y_returns s)"
    if "y_pc s t = YIdle" for t
  proof -
    have "y_at (y_pc s t) (l_obs t (y_queue s)) (vals_of t (y_calls s)) (put_of t s) (got_of t s) (vals_of t (y_returns s))"
      using inv by (simp add: y_inv_def)
    then show ?thesis using that by (simp add: put_of_def got_of_def)
  qed
  then show ?thesis using inv by (simp add: y_inv_def)
qed

theorem yield_exact_witness:
  "\<exists>s. mrun ystep demo_yield (yield_queue_init 1) = Some s \<and> gots (vals_of 1 (y_effects s)) = [7]"
proof -
  obtain s where s: "mrun ystep demo_yield (yield_queue_init 1) = Some s" "y_pc s 1 = YIdle" "y_returns s = [(1, 7)]"
    using demo_yield_run by auto
  have "list_all yput_valid demo_yield" by code_simp
  from conjunct1 [OF yield_exact [OF s(1) this], rule_format, OF s(2)] s show ?thesis by (simp add: vals_of_def)
qed

section \<open>Nobody ever waits\<close>

lemma lcrq_run_enabled:
  assumes "l_good q" and "\<not> lidle (l_pc q t)"
  shows "\<exists>q'. lstep (QRun t) q = Some q'"
proof -
  obtain ps where "l_inv q ps" using assms(1) by (auto simp: l_good_def)
  then have "nrq_ok q ps t (l_pc q t)" by (simp add: l_inv_def)
  then show ?thesis using assms(2)
    by (cases "l_pc q t") (auto simp: Let_def split: option.splits prod.splits)
qed

lemma obs_busy: "l_obs t q \<noteq> NoOp \<Longrightarrow> l_res t q = None \<Longrightarrow> \<not> lidle (l_pc q t)"
  by (cases "l_pc q t") (simp_all add: l_obs_def l_res_def)

text \<open>
  In the polling server no thread ever waits for another: in every reachable state a thread
  inside \<open>queue_put\<close> or \<open>queue_get\<close> can take its next step.
\<close>

lemma yield_never_blocks:
  assumes "mrun ystep es (yield_queue_init pow) = Some s" and "list_all yput_valid es" and "y_pc s t \<noteq> YIdle"
  shows "\<exists>s'. ystep (YRun t) s = Some s'"
proof -
  have inv: "y_inv s" by (rule yield_run_inv [OF assms(1,2)])
  then have g: "l_good (y_queue s)" by (simp add: y_inv_def)
  have at: "y_at (y_pc s t) (l_obs t (y_queue s)) (vals_of t (y_calls s)) (put_of t s) (got_of t s) (vals_of t (y_returns s))"
    using inv by (simp add: y_inv_def)
  show ?thesis
  proof (cases "y_pc s t = YYield")
    case True
    then have "lidle (l_pc (y_queue s) t)" using inv by (simp add: y_inv_def)
    then show ?thesis using True by (simp add: y_inner_def)
  next
    case False
    then have pc: "y_pc s t = YPut \<or> y_pc s t = YGet" using assms(3) by (cases "y_pc s t") simp_all
    show ?thesis
    proof (cases "l_res t (y_queue s)")
      case None
      have "l_obs t (y_queue s) \<noteq> NoOp" using at pc by auto
      then obtain q where "lstep (QRun t) (y_queue s) = Some q"
        using lcrq_run_enabled [OF g] obs_busy [OF _ None] by blast
      then have "\<exists>u. y_run_inner t s = Some u" by (simp add: y_run_inner_def y_inner_def yield_ring_step_eq)
      then show ?thesis using pc None by auto
    next
      case (Some v)
      then show ?thesis using pc by auto
    qed
  qed
qed

lemma yield_never_blocks_witness:
  "\<exists>s s'. mrun ystep (take 12 demo_yield) (yield_queue_init 1) = Some s \<and> ystep (YRun 1) s = Some s'"
proof -
  have "map_option (\<lambda>s. y_pc s 1) (mrun ystep (take 12 demo_yield) (yield_queue_init 1)) = Some YGet" by code_simp
  then obtain s where s: "mrun ystep (take 12 demo_yield) (yield_queue_init 1) = Some s" "y_pc s 1 = YGet" by auto
  have "list_all yput_valid (take 12 demo_yield)" by code_simp
  from yield_never_blocks [OF s(1) this, of 1] s show ?thesis by auto
qed

end
