(* ===== verification/Sim.thy ===== *)
theory Sim
  imports ToggleVector
begin

text \<open>
  The Sim universal construction of \<open>synch1.0.1/sim.c\<close>: threads announce their operations by
  flipping a bit of a shared vector, and any of them applies all announced operations to a copy of
  the object in its own part of the pool and swings \<open>sp\<close> to it. One access to shared memory per
  step; the copy of a record, which the next check of \<open>sp\<close> validates, is one step. And what the
  three Sim programs share: \<open>bounded_ops\<close>, operations that end within a number of own steps.
\<close>

section \<open>What the Sim programs share\<close>

type_synonym u48 = "48 word"

datatype simev = SCall tid i32 | SRun tid

fun sim_tid :: "simev \<Rightarrow> tid" where
  "sim_tid (SCall t a) = t"
| "sim_tid (SRun t) = t"

locale bounded_ops =
  fixes step :: "'e \<Rightarrow> 's \<Rightarrow> 's option" and own :: "tid \<Rightarrow> 'e" and by_tid :: "'e \<Rightarrow> tid"
    and left :: "'s \<Rightarrow> tid \<Rightarrow> nat"
  assumes own_less: "step (own t) s = Some s' \<Longrightarrow> left s' t < left s t"
    and other_same: "step e s = Some s' \<Longrightarrow> by_tid e \<noteq> t \<Longrightarrow> left s' t = left s t"
begin

lemma own_steps_bounded:
  "mrun step es s = Some s' \<Longrightarrow> \<forall>e \<in> set es. by_tid e = t \<longrightarrow> e = own t \<Longrightarrow>
     count_list es (own t) + left s' t \<le> left s t"
proof (induction es arbitrary: s)
  case (Cons e es)
  then obtain u where u: "step e s = Some u" "mrun step es u = Some s'" by (auto split: option.splits)
  have IH: "count_list es (own t) + left s' t \<le> left u t" using Cons u by simp
  show ?case
  proof (cases "e = own t")
    case True
    then have "left u t < left s t" using own_less u by blast
    then show ?thesis using IH True by simp
  next
    case False
    then have "by_tid e \<noteq> t" using Cons.prems(2) by auto
    then have "left u t = left s t" using other_same u by blast
    then show ?thesis using IH False by simp
  qed
qed simp

end

lemma sim_no_call: "\<forall>a. SCall t a \<notin> set fs \<Longrightarrow> \<forall>e \<in> set fs. sim_tid e = t \<longrightarrow> e = SRun t"
proof (intro ballI impI)
  fix e
  assume "\<forall>a. SCall t a \<notin> set fs" and "e \<in> set fs" and "sim_tid e = t"
  then show "e = SRun t" by (cases e) auto
qed

definition LOCAL_POOL_SIZE :: nat where
  "LOCAL_POOL_SIZE = 16"

text \<open>The loop over the bits of \<open>diffs\<close>: the threads \<open>prefix + pos\<close>, in order.\<close>

definition active :: "nat \<Rightarrow> toggle_vector \<Rightarrow> tid list" where
  "active n diffs = concat (map (\<lambda>i. get_cell (64 * i) (tv_cell diffs ! i)) [0..<TVEC_CELLS n])"

text \<open>An operation still to be applied: the thread's own, an announced one, a pop put off (\<open>simstack.c\<close>).\<close>

datatype todo = Mine | Theirs tid | PopLater tid

text \<open>\<open>j\<close> is the round, \<open>old_sp\<close> what was read of \<open>sp\<close>, and \<open>k\<close> the nodes allocated in this round.\<close>

datatype spc =
    SIdle
  | SAnnounce                                          \<comment> \<open>\<open>announce[pid] = arg\<close>\<close>
  | SToggle                                            \<comment> \<open>\<open>TVEC_ATOMIC_ADD_BANK(&a_toggles, &toggle, mybank)\<close>\<close>
  | SRead nat                                          \<comment> \<open>\<open>j < 2\<close>, \<open>old_sp = sp\<close>\<close>
  | SCheck nat "nat \<times> u48"                             \<comment> \<open>the bank of \<open>sp_data->applied\<close>\<close>
  | SCopy nat "nat \<times> u48"                              \<comment> \<open>\<open>*lsp_data = *sp_data\<close>\<close>
  | SToggles nat "nat \<times> u48"                           \<comment> \<open>\<open>l_toggles = a_toggles\<close>\<close>
  | SValid nat "nat \<times> u48" toggle_vector               \<comment> \<open>\<open>old_sp.raw_data != sp.raw_data\<close>\<close>
  | SApply nat "nat \<times> u48" toggle_vector nat "todo list" \<comment> \<open>the loops that call \<open>sfunc\<close>\<close>
  | SCompare nat "nat \<times> u48" nat                       \<comment> \<open>\<open>old_sp.raw_data == sp.raw_data\<close>\<close>
  | SCas nat "nat \<times> u48" nat                           \<comment> \<open>\<open>CAS64(&sp, old_sp.raw_data, new_sp.raw_data)\<close>\<close>
  | SFinal                                             \<comment> \<open>\<open>old_sp.raw_data = sp.raw_data\<close> at the end\<close>
  | SRet nat                                           \<comment> \<open>\<open>pool[old_sp.struct_data.index].ret[pid]\<close>\<close>
  | SDone "i32 option"

fun sim_idle :: "spc \<Rightarrow> bool" where
  "sim_idle SIdle = True"
| "sim_idle (SDone v) = True"
| "sim_idle _ = False"

text \<open>An upper bound of the steps left to a thread, with \<open>b\<close> bits in a vector.\<close>

fun todo_left :: "todo \<Rightarrow> nat" where
  "todo_left (PopLater p) = 1"
| "todo_left _ = 2"

definition round_left :: "nat \<Rightarrow> nat" where
  "round_left b = 2 * (b + 1) + 10"

fun spc_left :: "nat \<Rightarrow> spc \<Rightarrow> nat" where
  "spc_left b SIdle = 0"
| "spc_left b (SDone v) = 0"
| "spc_left b (SRet i) = 1"
| "spc_left b SFinal = 2"
| "spc_left b (SCas j osp k) = (1 - j) * round_left b + 4"
| "spc_left b (SCompare j osp k) = (1 - j) * round_left b + 5"
| "spc_left b (SApply j osp lt k ws) = (1 - j) * round_left b + 6 + sum_list (map todo_left ws)"
| "spc_left b (SValid j osp lt) = (1 - j) * round_left b + 7 + 2 * (b + 1)"
| "spc_left b (SToggles j osp) = (1 - j) * round_left b + 8 + 2 * (b + 1)"
| "spc_left b (SCopy j osp) = (1 - j) * round_left b + 9 + 2 * (b + 1)"
| "spc_left b (SCheck j osp) = (1 - j) * round_left b + 10 + 2 * (b + 1)"
| "spc_left b (SRead j) = (2 - j) * round_left b + 3"
| "spc_left b SToggle = 2 * round_left b + 4"
| "spc_left b SAnnounce = 2 * round_left b + 5"

lemma length_get_cell: "length (get_cell prefix c) = card {j. bit c j}"
proof (induction prefix c rule: get_cell.induct)
  case (1 prefix c)
  show ?case
  proof (cases "c = 0")
    case False
    let ?p = "bitSearchFirst c"
    have "length (get_cell prefix c) = Suc (card ({j. bit c j} - {?p}))"
      using 1 [OF False refl] False bits_without [OF low_bit [OF False]]
      by (subst get_cell.simps) (simp only: Let_def if_False list.size)
    then show ?thesis using low_bit [OF False] card_Suc_Diff1 [OF finite_bits, of ?p c] by simp
  qed (simp add: get_cell.simps)
qed

lemma card_bits_le: "card {j. bit (c :: u64) j} \<le> 64"
proof -
  have "{j. bit c j} \<subseteq> {..<64}" using bits_below [where v = c] by (auto simp: not_less [symmetric])
  from card_mono [OF _ this] show ?thesis by simp
qed

lemma length_active: "length (active n tv) \<le> 64 * TVEC_CELLS n"
proof -
  have "length (concat (map (\<lambda>i. get_cell (64 * i) (tv_cell tv ! i)) is)) \<le> 64 * length is" for "is"
  proof (induction "is")
    case (Cons i "is")
    then show ?case using card_bits_le [of "tv_cell tv ! i"] by (simp add: length_get_cell)
  qed simp
  from this [of "[0..<TVEC_CELLS n]"] show ?thesis by (simp add: active_def)
qed

lemma todo_left_map: "sum_list (map todo_left (map Theirs ps)) = 2 * length ps"
  by (induction ps) simp_all

section \<open>The state\<close>

text \<open>\<open>HalfObjectState\<close>, with the object as a parameter.\<close>

record 'o half =
  h_applied :: toggle_vector
  h_state :: 'o
  h_ret :: "tid \<Rightarrow> i32"

text \<open>\<open>s_tg\<close> holds \<open>a_toggles\<close> and the threads' \<open>toggle\<close> and \<open>my_bit\<close>; \<open>s_arg\<close> the argument of a call.\<close>

record 'o sim =
  s_sp :: "nat \<times> u48"
  s_tg :: toggling
  s_announce :: "tid \<Rightarrow> i32"
  s_pool :: "nat \<Rightarrow> 'o half"
  s_local :: "tid \<Rightarrow> nat"
  s_arg :: "tid \<Rightarrow> i32"
  s_pc :: "tid \<Rightarrow> spc"

definition sgo :: "tid \<Rightarrow> spc \<Rightarrow> ('o, 'z) sim_scheme \<Rightarrow> ('o, 'z) sim_scheme" where
  "sgo t p s = s\<lparr>s_pc := (s_pc s)(t := p)\<rparr>"

definition own_slot :: "tid \<Rightarrow> ('o, 'z) sim_scheme \<Rightarrow> nat" where
  "own_slot t s = t * LOCAL_POOL_SIZE + s_local s t"

definition lsp :: "tid \<Rightarrow> ('o, 'z) sim_scheme \<Rightarrow> 'o half" where
  "lsp t s = s_pool s (own_slot t s)"

definition set_lsp :: "tid \<Rightarrow> 'o half \<Rightarrow> ('o, 'z) sim_scheme \<Rightarrow> ('o, 'z) sim_scheme" where
  "set_lsp t h s = s\<lparr>s_pool := (s_pool s)(own_slot t s := h)\<rparr>"

lemma sgo_simps [simp]:
  "s_sp (sgo t p s) = s_sp s" "s_tg (sgo t p s) = s_tg s" "s_announce (sgo t p s) = s_announce s"
  "s_pool (sgo t p s) = s_pool s" "s_local (sgo t p s) = s_local s" "s_arg (sgo t p s) = s_arg s"
  "s_pc (sgo t p s) = (s_pc s)(t := p)" "own_slot u (sgo t p s) = own_slot u s" "lsp u (sgo t p s) = lsp u s"
  by (simp_all add: sgo_def own_slot_def lsp_def)

lemma set_lsp_simps [simp]:
  "s_sp (set_lsp t h s) = s_sp s" "s_tg (set_lsp t h s) = s_tg s" "s_announce (set_lsp t h s) = s_announce s"
  "s_local (set_lsp t h s) = s_local s" "s_arg (set_lsp t h s) = s_arg s" "s_pc (set_lsp t h s) = s_pc s"
  "own_slot u (set_lsp t h s) = own_slot u s" "lsp t (set_lsp t h s) = h"
  "s_pool (set_lsp t h s) = (s_pool s)(own_slot t s := h)"
  by (simp_all add: set_lsp_def own_slot_def lsp_def)

section \<open>sim.c\<close>

text \<open>\<open>STATE\<close>: the array \<open>Critical\<close>, of \<open>OBJECT_SIZE\<close> elements.\<close>

type_synonym crit = "i32 list"

definition sim_init :: "nat \<Rightarrow> nat \<Rightarrow> crit sim" where
  "sim_init n object_size =
     \<lparr>s_sp = (LOCAL_POOL_SIZE * n, 0), s_tg = toggling_init n, s_announce = (\<lambda>t. 0),
      s_pool = (\<lambda>i. \<lparr>h_applied = TVEC_SET_ZERO n, h_state = replicate object_size 0, h_ret = (\<lambda>t. 0)\<rparr>),
      s_local = (\<lambda>t. 0), s_arg = (\<lambda>t. 0), s_pc = (\<lambda>t. SIdle)\<rparr>"

text \<open>\<open>None\<close>: \<open>Critical[1]\<close> does not exist.\<close>

definition fetchAndMultiply :: "crit half \<Rightarrow> i32 \<Rightarrow> tid \<Rightarrow> crit half option" where
  "fetchAndMultiply h arg pid =
     (let critical = map (\<lambda>c. c + 1) (h_state h) in
      if 1 < length critical then Some (h\<lparr>h_state := critical, h_ret := (h_ret h)(pid := critical ! 1)\<rparr>) else None)"

fun sim_apply_op :: "nat \<Rightarrow> spc \<Rightarrow> tid \<Rightarrow> crit sim \<Rightarrow> crit sim option" where
  "sim_apply_op n SAnnounce t s = Some (sgo t SToggle (s\<lparr>s_announce := (s_announce s)(t := s_arg s t)\<rparr>))"
| "sim_apply_op n SToggle t s = Some (sgo t (SRead 0) (s\<lparr>s_tg := announce_toggle n t (s_tg s)\<rparr>))"
| "sim_apply_op n (SRead j) t s = Some (sgo t (if j < 2 then SCheck j (s_sp s) else SFinal) s)"
| "sim_apply_op n (SCheck j old_sp) t s =
     (let mybank = TVEC_GET_BANK_OF_BIT n t;
          diffs = TVEC_ATOMIC_COPY_BANKS (TVEC_SET_ZERO n) (h_applied (s_pool s (fst old_sp))) mybank;
          diffs = TVEC_XOR_BANKS diffs diffs (g_my_bit (s_tg s) t) mybank
      in Some (sgo t (if TVEC_IS_SET n diffs t then SFinal else SCopy j old_sp) s))"
| "sim_apply_op n (SCopy j old_sp) t s = Some (sgo t (SToggles j old_sp) (set_lsp t (s_pool s (fst old_sp)) s))"
| "sim_apply_op n (SToggles j old_sp) t s = Some (sgo t (SValid j old_sp (a_toggles (s_tg s))) s)"
| "sim_apply_op n (SValid j old_sp l_toggles) t s =
     (if old_sp \<noteq> s_sp s then Some (sgo t (SRead (Suc j)) s)
      else let diffs = TVEC_REVERSE_BIT n (TVEC_XOR n (h_applied (lsp t s)) l_toggles) t in
           Some (sgo t (SApply j old_sp l_toggles 0 (Mine # map Theirs (active n diffs))) s))"
| "sim_apply_op n (SApply j old_sp l_toggles k (w # ws)) t s =
     (case (case w of Mine \<Rightarrow> fetchAndMultiply (lsp t s) (s_arg s t) t
                    | Theirs p \<Rightarrow> fetchAndMultiply (lsp t s) (s_announce s p) p
                    | PopLater p \<Rightarrow> None) of
        None \<Rightarrow> None
      | Some h \<Rightarrow> Some (sgo t (SApply j old_sp l_toggles k ws) (set_lsp t h s)))"
| "sim_apply_op n (SApply j old_sp l_toggles k []) t s =
     Some (sgo t (SCompare j old_sp k) (set_lsp t ((lsp t s)\<lparr>h_applied := l_toggles\<rparr>) s))"
| "sim_apply_op n (SCompare j old_sp k) t s =
     Some (sgo t (if old_sp = s_sp s then SCas j old_sp k else SRead (Suc j)) s)"
| "sim_apply_op n (SCas j old_sp k) t s =
     (if s_sp s = old_sp
      then Some (sgo t (SDone (Some (h_ret (lsp t s) t)))
             (s\<lparr>s_sp := (LOCAL_POOL_SIZE * t + s_local s t, snd old_sp + 1),
                s_local := (s_local s)(t := (s_local s t + 1) mod LOCAL_POOL_SIZE)\<rparr>))
      else Some (sgo t (SRead (Suc j)) s))"
| "sim_apply_op n SFinal t s = Some (sgo t (SRet (fst (s_sp s))) s)"
| "sim_apply_op n (SRet i) t s = Some (sgo t (SDone (Some (h_ret (s_pool s i) t))) s)"
| "sim_apply_op n _ t s = None"

fun sim_step :: "nat \<Rightarrow> simev \<Rightarrow> crit sim \<Rightarrow> crit sim option" where
  "sim_step n (SCall t arg) s =
     (if sim_idle (s_pc s t) \<and> t < n then Some (sgo t SAnnounce (s\<lparr>s_arg := (s_arg s)(t := arg)\<rparr>)) else None)"
| "sim_step n (SRun t) s = sim_apply_op n (s_pc s t) t s"

section \<open>Every operation ends\<close>

definition bits_in :: "nat \<Rightarrow> nat" where
  "bits_in n = 64 * TVEC_CELLS n"

lemma sim_own_less:
  assumes "sim_apply_op n (s_pc s t) t s = Some s'"
  shows "spc_left (bits_in n) (s_pc s' t) < spc_left (bits_in n) (s_pc s t)"
proof (cases "s_pc s t")
  case (SRead j)
  show ?thesis
  proof (cases "j < 2")
    case True
    then have "(2 - j) * round_left (bits_in n) = (1 - j) * round_left (bits_in n) + round_left (bits_in n)"
      by (cases j) (auto simp: less_2_cases_iff)
    then show ?thesis using assms SRead True by (auto simp: round_left_def)
  qed (use assms SRead in auto)
next
  case (SValid j old_sp lt)
  show ?thesis
  proof (cases "old_sp = s_sp s")
    case True
    have "sum_list (map todo_left (map Theirs (active n d))) \<le> 2 * bits_in n" for d
      using length_active [of n d] unfolding todo_left_map by (simp add: bits_in_def)
    then show ?thesis using assms SValid True by (auto simp: Let_def less_Suc_eq_le) 
  qed (use assms SValid in auto)
next
  case (SApply j old_sp lt k ws)
  then show ?thesis using assms by (cases ws) (auto split: option.splits todo.splits)
qed (use assms in \<open>auto simp: Let_def split: if_splits\<close>)

lemma sim_other:
  "sim_apply_op n p t s = Some s' \<Longrightarrow> u \<noteq> t \<Longrightarrow> s_pc s' u = s_pc s u"
  by (cases "(n, p, t, s)" rule: sim_apply_op.cases) (auto simp: Let_def split: if_splits option.splits)

interpretation simb: bounded_ops "sim_step n" SRun sim_tid "\<lambda>s t. spc_left (bits_in n) (s_pc s t)" for n
proof unfold_locales
  show "spc_left (bits_in n) (s_pc s' t) < spc_left (bits_in n) (s_pc s t)" if "sim_step n (SRun t) s = Some s'" for n t s s'
    using that sim_own_less by simp
  show "spc_left (bits_in n) (s_pc s' t) = spc_left (bits_in n) (s_pc s t)"
    if "sim_step n e s = Some s'" "sim_tid e \<noteq> t" for n e t s s'
    using that sim_other by (cases e) (auto split: if_splits)
qed

end
