(* ===== verification/SimObject.thy ===== *)
theory SimObject
  imports Sim
begin

text \<open>
  The properties of \<open>sim.c\<close>: its invariant, that every operation is finished within a bounded number
  of the thread's own steps, and that a thread that runs alone applies all announced operations.
\<close>

section \<open>The bits of \<open>diffs\<close>\<close>

lemma set_active: "set (active n tv) = tvec_set n tv"
proof (intro equalityI subsetI)
  fix q
  assume "q \<in> set (active n tv)"
  then obtain k j where q: "k < TVEC_CELLS n" "bit (tv_cell tv ! k) j" "q = 64 * k + j"
    by (auto simp: active_def set_get_cell)
  then have "j < 64" using bits_below [where v = "tv_cell tv ! k" and i = j] by (auto simp: not_less [symmetric])
  then show "q \<in> tvec_set n tv" using q by (auto simp: tvec_set_def is_set_bit)
next
  fix p
  assume p: "p \<in> tvec_set n tv"
  then have r: "p < 64 * TVEC_CELLS n" "bit (tv_cell tv ! (p div 64)) (p mod 64)" by (auto simp: tvec_set_def is_set_bit)
  then have "p \<in> set (get_cell (64 * (p div 64)) (tv_cell tv ! (p div 64)))"
    unfolding set_get_cell by (intro image_eqI [of _ _ "p mod 64"]) auto
  then show "p \<in> set (active n tv)" using bank_less [OF r(1)] by (auto simp: active_def)
qed

lemma distinct_get_cell: "distinct (get_cell prefix c)"
proof (rule card_distinct)
  have "card (set (get_cell prefix c)) = card {j. bit c j}"
    unfolding set_get_cell by (rule card_image) (simp add: inj_on_def)
  then show "card (set (get_cell prefix c)) = length (get_cell prefix c)" by (simp add: length_get_cell)
qed

lemma get_cell_range: "q \<in> set (get_cell (64 * i) c) \<Longrightarrow> q div 64 = i"
proof -
  assume "q \<in> set (get_cell (64 * i) c)"
  then obtain j where j: "q = 64 * i + j" "bit c j" by (auto simp: set_get_cell)
  have "j < 64" using bits_below [where v = c and i = j] j(2) by (auto simp: not_less [symmetric])
  then show "q div 64 = i" unfolding j(1) by simp
qed

lemma distinct_active: "distinct (active n tv)"
proof -
  have "distinct (concat (map (\<lambda>i. get_cell (64 * i) (tv_cell tv ! i)) is))" if "distinct is" for "is"
    using that
  proof (induction "is")
    case (Cons i "is")
    have "q \<notin> set (concat (map (\<lambda>i. get_cell (64 * i) (tv_cell tv ! i)) is))" if "q \<in> set (get_cell (64 * i) (tv_cell tv ! i))" for q
    proof
      assume "q \<in> set (concat (map (\<lambda>i. get_cell (64 * i) (tv_cell tv ! i)) is))"
      then obtain k where k: "k \<in> set is" "q \<in> set (get_cell (64 * k) (tv_cell tv ! k))" by auto
      have "k = i" using get_cell_range [OF that] get_cell_range [OF k(2)] by simp
      then show False using k(1) Cons.prems by simp
    qed
    then have "set (get_cell (64 * i) (tv_cell tv ! i)) \<inter> set (concat (map (\<lambda>i. get_cell (64 * i) (tv_cell tv ! i)) is)) = {}"
      by blast
    then show ?case using Cons distinct_get_cell [of "64 * i" "tv_cell tv ! i"] by simp
  qed simp
  then show ?thesis by (simp add: active_def)
qed

section \<open>The invariant\<close>

fun spc_ok :: "nat \<Rightarrow> spc \<Rightarrow> bool" where
  "spc_ok n (SValid j osp lt) = tvec_ok n lt"
| "spc_ok n (SApply j osp lt k ws) = (tvec_ok n lt \<and> (\<forall>p. PopLater p \<notin> set ws) \<and> length ws \<le> bits_in n + 1)"
| "spc_ok n _ = True"

definition sp_ok :: "nat \<Rightarrow> ('o, 'z) sim_scheme \<Rightarrow> bool" where
  "sp_ok n s \<longleftrightarrow> (\<forall>t. s_local s t < 16) \<and>
     (fst (s_sp s) = 16 * n \<or> (\<exists>q < n. fst (s_sp s) = 16 * q + (s_local s q + 15) mod 16))"

definition sim_inv :: "nat \<Rightarrow> nat \<Rightarrow> crit sim \<Rightarrow> bool" where
  "sim_inv n osize s \<longleftrightarrow> (\<exists>c. toggling_inv n (s_tg s) c) \<and> sp_ok n s \<and>
     (\<forall>i. tvec_ok n (h_applied (s_pool s i)) \<and> length (h_state (s_pool s i)) = osize) \<and>
     (\<forall>t. spc_ok n (s_pc s t) \<and> (\<not> sim_idle (s_pc s t) \<longrightarrow> t < n))"

lemma toggling_tvec: "toggling_inv n tg c \<Longrightarrow> tvec_ok n (a_toggles tg)"
  by (simp add: toggling_inv_def)

text \<open>The slot a thread writes is not the current one.\<close>

lemma slot_not_current:
  assumes "sp_ok n s" and "t < n"
  shows "own_slot t s \<noteq> fst (s_sp s)"
proof
  assume eq: "own_slot t s = fst (s_sp s)"
  have loc: "s_local s t < 16" using assms(1) by (simp add: sp_ok_def)
  then have d: "own_slot t s div 16 = t" "own_slot t s mod 16 = s_local s t"
    by (simp_all add: own_slot_def LOCAL_POOL_SIZE_def)
  from assms(1) consider "fst (s_sp s) = 16 * n" | q where "fst (s_sp s) = 16 * q + (s_local s q + 15) mod 16"
    unfolding sp_ok_def by blast
  then show False
  proof cases
    case 1
    then show False using eq d assms(2) by simp
  next
    case (2 q)
    then have "fst (s_sp s) div 16 = q" "fst (s_sp s) mod 16 = (s_local s q + 15) mod 16" by simp_all
    then have "s_local s t = (s_local s t + 15) mod 16" using eq d by simp
    then show False using loc by presburger
  qed
qed

lemma sim_inv_go: "sim_inv n osize s \<Longrightarrow> spc_ok n p \<Longrightarrow> sim_idle p \<or> t < n \<Longrightarrow> sim_inv n osize (sgo t p s)"
  by (auto simp: sim_inv_def sp_ok_def)

lemma sim_inv_lsp:
  "sim_inv n osize s \<Longrightarrow> tvec_ok n (h_applied h) \<Longrightarrow> length (h_state h) = osize \<Longrightarrow> sim_inv n osize (set_lsp t h s)"
  by (auto simp: sim_inv_def sp_ok_def)

lemma fetchAndMultiply_shape:
  "fetchAndMultiply h a p = Some h' \<Longrightarrow> h_applied h' = h_applied h \<and> length (h_state h') = length (h_state h)"
  by (auto simp: fetchAndMultiply_def Let_def split: if_splits)

lemma sp_ok_cas:
  assumes "sp_ok n s" and "t < n"
  shows "sp_ok n (s\<lparr>s_sp := (LOCAL_POOL_SIZE * t + s_local s t, q), s_local := (s_local s)(t := (s_local s t + 1) mod LOCAL_POOL_SIZE)\<rparr>)"
proof -
  have "s_local s t < 16" using assms(1) by (simp add: sp_ok_def)
  then have "((s_local s t + 1) mod 16 + 15) mod 16 = s_local s t" by presburger
  then show ?thesis using assms by (auto simp: sp_ok_def LOCAL_POOL_SIZE_def intro!: exI [of _ t])
qed

lemma sim_run_inv:
  assumes inv: "sim_inv n osize s" and run: "sim_apply_op n (s_pc s t) t s = Some s'"
  shows "sim_inv n osize s'"
proof -
  have t: "t < n"
  proof -
    have "\<not> sim_idle (s_pc s t)" using run by (cases "s_pc s t") simp_all
    then show ?thesis using inv by (simp add: sim_inv_def)
  qed
  have ok: "spc_ok n (s_pc s t)" using inv by (simp add: sim_inv_def)
  have pool: "tvec_ok n (h_applied (s_pool s i))" "length (h_state (s_pool s i)) = osize" for i using inv by (simp_all add: sim_inv_def)
  show ?thesis
  proof (cases "s_pc s t")
    case SAnnounce
    have "sim_inv n osize (s\<lparr>s_announce := (s_announce s)(t := s_arg s t)\<rparr>)" using inv by (simp add: sim_inv_def sp_ok_def)
    then show ?thesis using run SAnnounce t sim_inv_go by auto
  next
    case SToggle
    obtain c where "toggling_inv n (s_tg s) c" using inv by (auto simp: sim_inv_def)
    then have "toggling_inv n (announce_toggle n t (s_tg s)) (c(t := Suc (c t)))" using t by (rule toggling_step)
    then have "sim_inv n osize (s\<lparr>s_tg := announce_toggle n t (s_tg s)\<rparr>)" using inv by (auto simp: sim_inv_def sp_ok_def)
    then show ?thesis using run SToggle t sim_inv_go by auto
  next
    case (SCopy j osp)
    then have "s' = sgo t (SToggles j osp) (set_lsp t (s_pool s (fst osp)) s)" using run by simp
    then show ?thesis using sim_inv_go [OF sim_inv_lsp [OF inv pool]] t by simp
  next
    case (SToggles j osp)
    have "tvec_ok n (a_toggles (s_tg s))" using inv toggling_tvec by (auto simp: sim_inv_def)
    then show ?thesis using run SToggles t sim_inv_go [OF inv] by auto
  next
    case (SValid j osp lt)
    show ?thesis
    proof (cases "osp = s_sp s")
      case True
      let ?ws = "Mine # map Theirs (active n (TVEC_REVERSE_BIT n (TVEC_XOR n (h_applied (lsp t s)) lt) t))"
      have "spc_ok n (SApply j osp lt 0 ?ws)" using ok SValid length_active [of n] by (auto simp: bits_in_def)
      then have "sim_inv n osize (sgo t (SApply j osp lt 0 ?ws) s)" using sim_inv_go [OF inv] t by blast
      then show ?thesis using run SValid True by (simp add: Let_def)
    qed (use run SValid t sim_inv_go [OF inv] in auto)
  next
    case (SApply j osp lt k ws)
    show ?thesis
    proof (cases ws)
      case Nil
      then have "s' = sgo t (SCompare j osp k) (set_lsp t ((lsp t s)\<lparr>h_applied := lt\<rparr>) s)" using run SApply by simp
      then show ?thesis
        using sim_inv_go [OF sim_inv_lsp [OF inv, of "(lsp t s)\<lparr>h_applied := lt\<rparr>" t]] pool ok SApply t by (simp add: lsp_def)
    next
      case (Cons w us)
      then obtain p a h where h: "fetchAndMultiply (lsp t s) a p = Some h"
        and s': "s' = sgo t (SApply j osp lt k us) (set_lsp t h s)"
        using run SApply by (cases w) (auto split: option.splits)
      have "tvec_ok n (h_applied h)" "length (h_state h) = osize"
        using fetchAndMultiply_shape [OF h] pool by (simp_all add: lsp_def)
      then show ?thesis using sim_inv_go [OF sim_inv_lsp [OF inv]] ok SApply Cons t s' by simp
    qed
  next
    case (SCas j osp k)
    show ?thesis
    proof (cases "s_sp s = osp")
      case True
      let ?u = "s\<lparr>s_sp := (LOCAL_POOL_SIZE * t + s_local s t, snd osp + 1),
                s_local := (s_local s)(t := (s_local s t + 1) mod LOCAL_POOL_SIZE)\<rparr>"
      have "sp_ok n s" using inv by (simp add: sim_inv_def)
      then have "sp_ok n ?u" using t by (rule sp_ok_cas)
      then have "sim_inv n osize ?u" using inv by (simp add: sim_inv_def)
      then show ?thesis using run SCas True t sim_inv_go by auto
    qed (use run SCas t sim_inv_go [OF inv] in auto)
  qed (use run t sim_inv_go [OF inv] in \<open>auto simp: Let_def split: if_splits\<close>)
qed

interpretation simm: machine "sim_step n" "sim_inv n osize" for n osize
proof unfold_locales
  fix s e s'
  assume inv: "sim_inv n osize s" and run: "sim_step n e s = Some s'"
  show "sim_inv n osize s'"
  proof (cases e)
    case (SCall t a)
    have "sim_inv n osize (s\<lparr>s_arg := (s_arg s)(t := a)\<rparr>)" using inv by (simp add: sim_inv_def sp_ok_def)
    then show ?thesis using run SCall sim_inv_go by (auto split: if_splits)
  qed (use run sim_run_inv [OF inv] in simp)
qed

lemma sim_init_inv: "sim_inv n osize (sim_init n osize)"
  using toggling_init_inv
  by (auto simp: sim_inv_def sim_init_def sp_ok_def LOCAL_POOL_SIZE_def TVEC_SET_ZERO_def)

section \<open>Every operation ends\<close>

lemma sim_enabled:
  assumes inv: "sim_inv n osize s" and "2 \<le> osize" and "\<not> sim_idle (s_pc s t)"
  shows "\<exists>s'. sim_step n (SRun t) s = Some s'"
proof (cases "s_pc s t")
  case (SApply j osp lt k ws)
  have ok: "spc_ok n (s_pc s t)" and len: "length (h_state (lsp t s)) = osize" using inv by (simp_all add: sim_inv_def lsp_def)
  have "\<exists>h. fetchAndMultiply (lsp t s) a p = Some h" for a p using len assms(2) by (simp add: fetchAndMultiply_def Let_def)
  then have some: "fetchAndMultiply (lsp t s) a p \<noteq> None" for a p by auto
  show ?thesis
  proof (cases ws)
    case (Cons w us)
    then have "\<exists>h. (case w of Mine \<Rightarrow> fetchAndMultiply (lsp t s) (s_arg s t) t
      | Theirs p \<Rightarrow> fetchAndMultiply (lsp t s) (s_announce s p) p | PopLater p \<Rightarrow> None) = Some h"
      using ok SApply some by (cases w) auto
    then show ?thesis using SApply Cons by auto
  qed (use SApply in simp)
qed (use assms(3) in \<open>auto simp: Let_def\<close>)

lemma sum_todo: "sum_list (map todo_left ws) \<le> 2 * length ws"
proof (induction ws)
  case (Cons w ws)
  then show ?case by (cases w) simp_all
qed simp

lemma spc_left_bound:
  assumes "spc_ok n p"
  shows "spc_left (bits_in n) p \<le> 4 * bits_in n + 29"
proof (cases p)
  case (SApply j osp lt k ws)
  have "sum_list (map todo_left ws) \<le> 2 * (bits_in n + 1)" using sum_todo [of ws] assms SApply by simp
  then show ?thesis unfolding SApply by (cases j) (simp_all add: round_left_def)
next
  case (SRead j)
  then show ?thesis by (cases "j = 0"; cases "j = 1") (auto simp: round_left_def)
next
  case (SCheck j osp)
  then show ?thesis by (cases j) (simp_all add: round_left_def)
next
  case (SCopy j osp)
  then show ?thesis by (cases j) (simp_all add: round_left_def)
next
  case (SToggles j osp)
  then show ?thesis by (cases j) (simp_all add: round_left_def)
next
  case (SValid j osp lt)
  then show ?thesis by (cases j) (simp_all add: round_left_def)
next
  case (SCompare j osp k)
  then show ?thesis by (cases j) (simp_all add: round_left_def)
next
  case (SCas j osp k)
  then show ?thesis by (cases j) (simp_all add: round_left_def)
qed (simp_all add: round_left_def)

text \<open>
  (C19) The Sim construction is wait-free: with an object of at least two elements, a thread in the
  middle of \<open>apply_op\<close> can always take its next step, and whatever the other threads do it has
  returned after at most \<open>256 * TVEC_CELLS n + 29\<close> steps of its own.
\<close>

theorem sim_wait_free:
  assumes "mrun (sim_step n) es (sim_init n osize) = Some s" and "2 \<le> osize"
    and "mrun (sim_step n) fs s = Some s'" and "\<forall>a. SCall t a \<notin> set fs"
  shows "count_list fs (SRun t) \<le> 256 * TVEC_CELLS n + 29 \<and>
    (\<not> sim_idle (s_pc s' t) \<longrightarrow> (\<exists>s''. sim_step n (SRun t) s' = Some s''))"
proof -
  have "sim_inv n osize s'"
    using simm.good_run [OF simm.good_run [OF sim_init_inv assms(1)] assms(3)] .
  then have "\<not> sim_idle (s_pc s' t) \<longrightarrow> (\<exists>s''. sim_step n (SRun t) s' = Some s'')" using sim_enabled assms(2) by blast
  moreover have "spc_left (bits_in n) (s_pc s t) \<le> 4 * bits_in n + 29"
  proof -
    have "spc_ok n (s_pc s t)" using simm.good_run [OF sim_init_inv assms(1)] by (simp add: sim_inv_def)
    then show ?thesis by (rule spc_left_bound)
  qed
  ultimately show ?thesis using simb.own_steps_bounded [OF assms(3) sim_no_call [OF assms(4)]] by (simp add: bits_in_def)
qed

text \<open>A thread calls \<open>apply_op\<close> and takes one step.\<close>

theorem sim_wait_free_witness:
  "\<exists>s s' s''. mrun (sim_step 2) [SCall 0 5] (sim_init 2 2) = Some s \<and> mrun (sim_step 2) [SRun 0] s = Some s' \<and>
    sim_step 2 (SRun 0) s' = Some s''"
proof -
  obtain s where s: "mrun (sim_step 2) [SCall 0 5] (sim_init 2 2) = Some s" "s_pc s 0 = SAnnounce"
    by (simp add: sim_init_def)
  obtain s' where s': "mrun (sim_step 2) [SRun 0] s = Some s'" "s_pc s' 0 = SToggle" using s by simp
  have "\<not> sim_idle (s_pc s' 0)" using s' by simp
  then show ?thesis using sim_wait_free [OF s(1) _ s'(1), of 0] s(1) s'(1) by auto
qed

text \<open>
  \<open>fetchAndMultiply\<close> returns \<open>Critical[1]\<close>, so with the default \<open>OBJECT_SIZE\<close> of 1 (or any below 2)
  every thread that comes to apply an operation reads outside the array.
\<close>

lemma sim_default_out_of_bounds:
  assumes "mrun (sim_step n) es (sim_init n osize) = Some s" and "osize < 2" and "s_pc s t = SApply j old_sp lt k (w # ws)"
  shows "sim_step n (SRun t) s = None"
proof -
  have inv: "sim_inv n osize s" by (rule simm.good_run [OF sim_init_inv assms(1)])
  then have "length (h_state (lsp t s)) = osize" by (simp add: sim_inv_def lsp_def)
  then have "fetchAndMultiply (lsp t s) a p = None" for a p using assms(2) by (simp add: fetchAndMultiply_def Let_def)
  then show ?thesis using assms(3) by (cases w) simp_all
qed

section \<open>A thread alone applies what is announced\<close>

fun applies :: "crit half \<Rightarrow> tid list \<Rightarrow> crit half option" where
  "applies h [] = Some h"
| "applies h (p # ps) = (case fetchAndMultiply h 0 p of None \<Rightarrow> None | Some h' \<Rightarrow> applies h' ps)"

lemma fetchAndMultiply_arg: "fetchAndMultiply h a p = fetchAndMultiply h 0 p"
  by (simp add: fetchAndMultiply_def)

lemma map_add_one: "map (\<lambda>c. c + of_nat k) (map (\<lambda>c. c + 1) cs) = map (\<lambda>c. c + of_nat (Suc k)) (cs :: i32 list)"
  by (induction cs) simp_all

lemma applies_shape:
  "1 < length (h_state h) \<Longrightarrow> \<exists>h'. applies h ps = Some h' \<and> h_applied h' = h_applied h \<and>
     h_state h' = map (\<lambda>c. c + of_nat (length ps)) (h_state h) \<and> (\<forall>q. q \<notin> set ps \<longrightarrow> h_ret h' q = h_ret h q) \<and>
     (distinct ps \<longrightarrow> (\<forall>i < length ps. h_ret h' (ps ! i) = h_state h ! 1 + of_nat (Suc i)))"
proof (induction ps arbitrary: h)
  case (Cons p ps)
  let ?h = "h\<lparr>h_state := map (\<lambda>c. c + 1) (h_state h), h_ret := (h_ret h)(p := h_state h ! 1 + 1)\<rparr>"
  have one: "fetchAndMultiply h 0 p = Some ?h" using Cons.prems by (simp add: fetchAndMultiply_def Let_def)
  obtain h' where h': "applies ?h ps = Some h'" "h_applied h' = h_applied h"
    "h_state h' = map (\<lambda>c. c + of_nat (length ps)) (map (\<lambda>c. c + 1) (h_state h))"
    "\<And>q. q \<notin> set ps \<Longrightarrow> h_ret h' q = h_ret ?h q"
    "distinct ps \<Longrightarrow> \<forall>i < length ps. h_ret h' (ps ! i) = map (\<lambda>c. c + 1) (h_state h) ! 1 + of_nat (Suc i)"
    using Cons.IH [of ?h] Cons.prems by auto
  have "h_ret h' ((p # ps) ! i) = h_state h ! 1 + of_nat (Suc i)" if "distinct (p # ps)" "i < length (p # ps)" for i
    using that h' Cons.prems by (cases i) (simp_all add: algebra_simps)
  moreover have "h_state h' = map (\<lambda>c. c + of_nat (length (p # ps))) (h_state h)"
    using h'(3) map_add_one [of "length ps" "h_state h"] by simp
  ultimately show ?case using h' one by auto
qed simp

definition who :: "tid \<Rightarrow> todo \<Rightarrow> tid" where
  "who t w = (case w of Mine \<Rightarrow> t | Theirs p \<Rightarrow> p | PopLater p \<Rightarrow> p)"

lemma set_lsp_set_lsp: "set_lsp t h' (set_lsp t h s) = set_lsp t h' s"
  by (simp add: set_lsp_def own_slot_def)

lemma sgo_set_lsp: "set_lsp t h (sgo t p s) = sgo t p (set_lsp t h s)" "sgo t p (sgo t q s) = sgo t p s"
  by (simp_all add: set_lsp_def sgo_def own_slot_def)

lemma apply_run:
  "s_pc s t = SApply j osp lt k ws \<Longrightarrow> \<forall>p. PopLater p \<notin> set ws \<Longrightarrow> applies (lsp t s) (map (who t) ws) = Some h \<Longrightarrow>
     mrun (sim_step n) (replicate (length ws) (SRun t)) s = Some (sgo t (SApply j osp lt k []) (set_lsp t h s))"
proof (induction ws arbitrary: s)
  case Nil
  then show ?case by (cases s) (auto simp: set_lsp_def sgo_def lsp_def own_slot_def fun_upd_idem)
next
  case (Cons w ws)
  obtain g where g: "fetchAndMultiply (lsp t s) 0 (who t w) = Some g" "applies g (map (who t) ws) = Some h"
    using Cons.prems(3) by (auto split: option.splits)
  let ?u = "sgo t (SApply j osp lt k ws) (set_lsp t g s)"
  have "(case w of Mine \<Rightarrow> fetchAndMultiply (lsp t s) (s_arg s t) t
      | Theirs p \<Rightarrow> fetchAndMultiply (lsp t s) (s_announce s p) p | PopLater p \<Rightarrow> None) = Some g"
    using g(1) Cons.prems(2) fetchAndMultiply_arg [of "lsp t s" "s_arg s t"] fetchAndMultiply_arg [of "lsp t s" "s_announce s (who t w)"]
    by (cases w) (auto simp: who_def)
  then have "sim_step n (SRun t) s = Some ?u" using Cons.prems(1) by simp
  moreover have "mrun (sim_step n) (replicate (length ws) (SRun t)) ?u =
      Some (sgo t (SApply j osp lt k []) (set_lsp t h ?u))"
    by (rule Cons.IH) (use Cons.prems g in simp_all)
  ultimately show ?case by (simp add: sgo_set_lsp set_lsp_set_lsp)
qed

text \<open>The operations that are announced and not yet applied.\<close>

definition current :: "('o, 'z) sim_scheme \<Rightarrow> 'o half" where
  "current s = s_pool s (fst (s_sp s))"

definition pending :: "nat \<Rightarrow> ('o, 'z) sim_scheme \<Rightarrow> tid set" where
  "pending n s = tvec_set n (TVEC_XOR n (h_applied (current s)) (a_toggles (s_tg s)))"

lemma is_set_reverse:
  assumes "tvec_ok n tv" and "b < n" and "p < 64 * TVEC_CELLS n"
  shows "TVEC_IS_SET n (TVEC_REVERSE_BIT n tv b) p \<longleftrightarrow> TVEC_IS_SET n tv p \<noteq> (p = b)"
proof -
  have b: "b < 64 * TVEC_CELLS n" using assms(2) by (rule thread_in_range)
  have k: "bit (x XOR 2 ^ (b mod 64)) j \<longleftrightarrow> bit x j \<noteq> (j = b mod 64)" for x :: u64 and j
    by (simp add: bit_xor_iff bit_exp_at)
  show ?thesis using assms bank_less [OF b] same_place [of p b]
    unfolding bit_arith(1) [OF b] is_set_bit [OF assms(3)] cell_set_bank [OF assms(1) bank_less [OF b]] by (auto simp: k)
qed

lemma check_pending:
  assumes tg: "toggling_inv n tg c" and ok: "tvec_ok n ap" and t: "t < n"
    and d: "d = TVEC_ATOMIC_COPY_BANKS (TVEC_SET_ZERO n) ap (TVEC_GET_BANK_OF_BIT n t)"
  shows "TVEC_IS_SET n (TVEC_XOR_BANKS d d (g_my_bit tg t) (TVEC_GET_BANK_OF_BIT n t)) t \<longleftrightarrow>
    t \<notin> tvec_set n (TVEC_XOR n ap (a_toggles tg))"
proof -
  have r: "t < 64 * TVEC_CELLS n" using t by (rule thread_in_range)
  note b = bank_less [OF r]
  have z: "tvec_ok n (TVEC_SET_ZERO n)" by (simp add: TVEC_SET_ZERO_def)
  have dok: "tvec_ok n d" and dc: "tv_cell d ! (t div 64) = tv_cell ap ! (t div 64)"
    unfolding d bit_arith(3) [OF r] TVEC_ATOMIC_COPY_BANKS_def using z cell_set_bank [OF z b] by simp_all
  have "TVEC_IS_SET n (TVEC_XOR_BANKS d d (g_my_bit tg t) (TVEC_GET_BANK_OF_BIT n t)) t \<longleftrightarrow>
    bit (tv_cell ap ! (t div 64)) (t mod 64) \<noteq> bit (tv_cell (g_my_bit tg t) ! (t div 64)) (t mod 64)"
    unfolding is_set_bit [OF r] TVEC_XOR_BANKS_def bit_arith(3) [OF r] cell_set_bank [OF dok b] using dc by (simp add: bit_xor_iff)
  also have "\<dots> \<longleftrightarrow> bit (tv_cell ap ! (t div 64)) (t mod 64) = bit (tv_cell (a_toggles tg) ! (t div 64)) (t mod 64)"
    using tg t by (auto simp: toggling_inv_def)
  also have "\<dots> \<longleftrightarrow> t \<notin> tvec_set n (TVEC_XOR n ap (a_toggles tg))"
    using r by (simp only: tvec_set_def mem_Collect_eq is_set_vec(4) [OF r]) (simp add: is_set_bit [OF r])
  finally show ?thesis .
qed

lemma pending_rest:
  assumes "tvec_ok n tv" and "t \<in> tvec_set n tv" and "t < n"
  shows "set (active n (TVEC_REVERSE_BIT n tv t)) = tvec_set n tv - {t}"
  using assms is_set_reverse [OF assms(1,3)] by (auto simp: set_active tvec_set_def)

text \<open>The steps of a thread that runs alone: up to the first \<open>sfunc\<close>, and after the last.\<close>

lemma solo_start:
  assumes inv: "sim_inv n osize s" and t: "t < n" and pc: "s_pc s t = SRead 0" and pend: "t \<in> pending n s"
  shows "mrun (sim_step n) (replicate 5 (SRun t)) s =
    Some (sgo t (SApply 0 (s_sp s) (a_toggles (s_tg s)) 0
      (Mine # map Theirs (active n (TVEC_REVERSE_BIT n (TVEC_XOR n (h_applied (current s)) (a_toggles (s_tg s))) t))))
      (set_lsp t (current s) s))"
proof -
  obtain c where tg: "toggling_inv n (s_tg s) c" using inv by (auto simp: sim_inv_def)
  have ok: "tvec_ok n (h_applied (s_pool s (fst (s_sp s))))" using inv by (simp add: sim_inv_def)
  from check_pending [OF tg ok t refl] pend
  have chk: "\<not> TVEC_IS_SET n (TVEC_XOR_BANKS
      (TVEC_ATOMIC_COPY_BANKS (TVEC_SET_ZERO n) (h_applied (s_pool s (fst (s_sp s)))) (TVEC_GET_BANK_OF_BIT n t))
      (TVEC_ATOMIC_COPY_BANKS (TVEC_SET_ZERO n) (h_applied (s_pool s (fst (s_sp s)))) (TVEC_GET_BANK_OF_BIT n t))
      (g_my_bit (s_tg s) t) (TVEC_GET_BANK_OF_BIT n t)) t"
    by (simp add: pending_def current_def)
  show ?thesis using pc chk by (simp add: numeral_eq_Suc Let_def sgo_set_lsp current_def)
qed

lemma solo_end:
  assumes pc: "s_pc s t = SApply j osp lt k []" and sp: "s_sp s = osp"
  obtains s' where "mrun (sim_step n) (replicate 3 (SRun t)) s = Some s'" and "s_pc s' t = SDone (Some (h_ret (lsp t s) t))"
    and "current s' = (lsp t s)\<lparr>h_applied := lt\<rparr>" and "s_tg s' = s_tg s"
proof -
  let ?u = "sgo t (SCas j osp k) (set_lsp t ((lsp t s)\<lparr>h_applied := lt\<rparr>) s)"
  let ?v = "sgo t (SDone (Some (h_ret (lsp t s) t))) (?u\<lparr>s_sp := (LOCAL_POOL_SIZE * t + s_local s t, snd osp + 1),
                s_local := (s_local s)(t := (s_local s t + 1) mod LOCAL_POOL_SIZE)\<rparr>)"
  have "mrun (sim_step n) (replicate 3 (SRun t)) s = Some ?v"
    using pc sp by (simp add: numeral_eq_Suc sgo_set_lsp)
  moreover have "current ?v = (lsp t s)\<lparr>h_applied := lt\<rparr>"
    by (simp add: current_def own_slot_def mult.commute)
  ultimately show thesis using that [of ?v] by simp
qed

text \<open>
  (C20) When a thread has announced its operation and runs alone, it applies every announced operation
  exactly once: if its own is still to be applied, all pending ones are applied in some order with
  its own first, each gets the value the object has after it, nothing is pending afterwards, and the
  thread returns its own value; and if another thread has applied its operation already, it returns
  the value that was stored for it and changes nothing.
\<close>

theorem sim_combines:
  assumes "mrun (sim_step n) es (sim_init n osize) = Some s" and "2 \<le> osize" and "s_pc s t = SRead 0"
  shows "(t \<in> pending n s \<longrightarrow>
      (\<exists>s' ps. mrun (sim_step n) (replicate (length ps + 8) (SRun t)) s = Some s' \<and> distinct ps \<and> set ps = pending n s \<and>
        pending n s' = {} \<and> h_state (current s') = map (\<lambda>c. c + of_nat (card (pending n s))) (h_state (current s)) \<and>
        (\<forall>i < length ps. h_ret (current s') (ps ! i) = h_state (current s) ! 1 + of_nat (Suc i)) \<and>
        s_pc s' t = SDone (Some (h_state (current s) ! 1 + 1)))) \<and>
    (t \<notin> pending n s \<longrightarrow>
      (\<exists>s'. mrun (sim_step n) (replicate 4 (SRun t)) s = Some s' \<and> current s' = current s \<and>
        s_pc s' t = SDone (Some (h_ret (current s) t))))"
proof -
  have inv: "sim_inv n osize s" by (rule simm.good_run [OF sim_init_inv assms(1)])
  have t: "t < n" using inv assms(3) by (auto simp: sim_inv_def dest: spec [of _ t])
  obtain c where tg: "toggling_inv n (s_tg s) c" using inv by (auto simp: sim_inv_def)
  have ok: "tvec_ok n (h_applied (current s))" and len: "1 < length (h_state (current s))"
    using inv assms(2) by (simp_all add: sim_inv_def current_def)
  have "\<exists>s' ps. mrun (sim_step n) (replicate (length ps + 8) (SRun t)) s = Some s' \<and> distinct ps \<and> set ps = pending n s \<and>
        pending n s' = {} \<and> h_state (current s') = map (\<lambda>c. c + of_nat (card (pending n s))) (h_state (current s)) \<and>
        (\<forall>i < length ps. h_ret (current s') (ps ! i) = h_state (current s) ! 1 + of_nat (Suc i)) \<and>
        s_pc s' t = SDone (Some (h_state (current s) ! 1 + 1))" if pend: "t \<in> pending n s"
  proof -
    let ?tv = "TVEC_XOR n (h_applied (current s)) (a_toggles (s_tg s))"
    define qs where "qs = active n (TVEC_REVERSE_BIT n ?tv t)"
    let ?ws = "Mine # map Theirs qs"
    let ?u = "sgo t (SApply 0 (s_sp s) (a_toggles (s_tg s)) 0 ?ws) (set_lsp t (current s) s)"
    have tvok: "tvec_ok n ?tv" by (simp add: TVEC_XOR_def)
    have qs: "set qs = pending n s - {t}" "distinct qs"
      using pending_rest [OF tvok _ t] pend distinct_active by (simp_all add: qs_def pending_def)
    have map_who: "map (who t) ?ws = t # qs" by (simp add: who_def comp_def)
    obtain h where h: "applies (current s) (t # qs) = Some h" "h_state h = map (\<lambda>c. c + of_nat (length (t # qs))) (h_state (current s))"
      "\<forall>i < length (t # qs). h_ret h ((t # qs) ! i) = h_state (current s) ! 1 + of_nat (Suc i)"
      using applies_shape [OF len, of "t # qs"] qs by auto
    let ?v = "sgo t (SApply 0 (s_sp s) (a_toggles (s_tg s)) 0 []) (set_lsp t h ?u)"
    have u: "mrun (sim_step n) (replicate 5 (SRun t)) s = Some ?u" using solo_start [OF inv t assms(3) pend] by (simp add: qs_def)
    have v: "mrun (sim_step n) (replicate (length ?ws) (SRun t)) ?u = Some ?v"
      by (rule apply_run) (use map_who h(1) in auto)
    obtain s' where s': "mrun (sim_step n) (replicate 3 (SRun t)) ?v = Some s'" "s_pc s' t = SDone (Some (h_ret (lsp t ?v) t))"
      "current s' = (lsp t ?v)\<lparr>h_applied := a_toggles (s_tg s)\<rparr>" "s_tg s' = s_tg ?v"
      by (rule solo_end [of ?v t 0 "s_sp s" "a_toggles (s_tg s)" 0]) simp_all
    have "length (t # qs) + 8 = 5 + (length ?ws + 3)" by simp
    then have "replicate (length (t # qs) + 8) (SRun t) = replicate 5 (SRun t) @ replicate (length ?ws) (SRun t) @ replicate 3 (SRun t)"
      by (simp only: replicate_add)
    then have run: "mrun (sim_step n) (replicate (length (t # qs) + 8) (SRun t)) s = Some s'"
      by (simp only: mrun_append u v s'(1) option.case)
    have card: "card (pending n s) = length (t # qs)"
      using qs pend distinct_card [of "t # qs"] by (simp add: insert_absorb)
    have "pending n s' = {}" using s'(3,4) by (auto simp: pending_def tvec_set_def is_set_vec)
    moreover have "h_ret h t = h_state (current s) ! 1 + 1" using h(3) by (auto dest: spec [of _ 0])
    moreover have "distinct (t # qs)" "set (t # qs) = pending n s" using qs pend by auto
    ultimately show ?thesis using run s' h(2,3) unfolding card
      by (intro exI [of _ s'] exI [of _ "t # qs"] conjI) simp_all
  qed
  moreover have "\<exists>s'. mrun (sim_step n) (replicate 4 (SRun t)) s = Some s' \<and> current s' = current s \<and>
        s_pc s' t = SDone (Some (h_ret (current s) t))" if pend: "t \<notin> pending n s"
    using assms(3) check_pending [OF tg ok t refl] pend
    by (simp add: numeral_eq_Suc Let_def pending_def current_def sgo_set_lsp)
  ultimately show ?thesis by blast
qed

text \<open>Thread 0 of two announces its first operation.\<close>

lemma demo_announced:
  obtains s where "mrun (sim_step 2) [SCall 0 5, SRun 0, SRun 0] (sim_init 2 k) = Some s" and "s_pc s 0 = SRead 0"
    and "0 \<in> pending 2 s" and "length (h_state (current s)) = k" and "h_state (current s) = replicate k 0"
proof -
  obtain s where s: "mrun (sim_step 2) [SCall 0 5, SRun 0, SRun 0] (sim_init 2 k) = Some s" "s_pc s 0 = SRead 0"
    "s_tg s = announce_toggle 2 0 (toggling_init 2)" "current s = \<lparr>h_applied = TVEC_SET_ZERO 2, h_state = replicate k 0, h_ret = (\<lambda>t. 0)\<rparr>"
    by (simp add: sim_init_def current_def)
  have "toggling_inv 2 (s_tg s) ((\<lambda>i. 0)(0 := Suc 0))"
    using toggling_step [OF toggling_init_inv, of 0 2] s(3) by simp
  then have "bit (tv_cell (a_toggles (s_tg s)) ! (0 div 64)) (0 mod 64)" unfolding toggling_inv_def by auto
  then have "TVEC_IS_SET 2 (a_toggles (s_tg s)) 0" by (subst is_set_bit) (simp_all add: TVEC_CELLS_def)
  moreover have "(0 :: nat) < 64 * TVEC_CELLS 2" by (simp add: TVEC_CELLS_def)
  ultimately have "0 \<in> pending 2 s" using s(4) by (simp add: pending_def tvec_set_def is_set_vec)
  then show thesis using that s by simp
qed

theorem sim_combines_witness:
  "\<exists>s s' n. mrun (sim_step 2) [SCall 0 5, SRun 0, SRun 0] (sim_init 2 2) = Some s \<and>
    mrun (sim_step 2) (replicate n (SRun 0)) s = Some s' \<and> s_pc s' 0 = SDone (Some 1)"
proof -
  obtain s where s: "mrun (sim_step 2) [SCall 0 5, SRun 0, SRun 0] (sim_init 2 2) = Some s" "s_pc s 0 = SRead 0"
    "0 \<in> pending 2 s" "h_state (current s) = replicate 2 0" by (rule demo_announced)
  have "(2 :: nat) \<le> 2" by simp
  from conjunct1 [OF sim_combines [OF s(1) this s(2)], rule_format, OF s(3)] obtain s' and ps :: "tid list" where
    "mrun (sim_step 2) (replicate (length ps + 8) (SRun 0)) s = Some s'" "s_pc s' 0 = SDone (Some (h_state (current s) ! 1 + 1))"
    by blast
  then show ?thesis using s by (auto simp: numeral_2_eq_2)
qed

lemma sim_default_out_of_bounds_witness:
  "\<exists>es s. mrun (sim_step 2) es (sim_init 2 1) = Some s \<and> s_pc s 0 \<noteq> SIdle \<and> sim_step 2 (SRun 0) s = None"
proof -
  obtain s where s: "mrun (sim_step 2) [SCall 0 5, SRun 0, SRun 0] (sim_init 2 1) = Some s" "s_pc s 0 = SRead 0"
    "0 \<in> pending 2 s" by (rule demo_announced)
  have inv: "sim_inv 2 1 s" by (rule simm.good_run [OF sim_init_inv s(1)])
  have "(0 :: nat) < 2" by simp
  then obtain u w ws osp lt where u: "mrun (sim_step 2) (replicate 5 (SRun 0)) s = Some u" "s_pc u 0 = SApply 0 osp lt 0 (w # ws)"
    using solo_start [OF inv _ s(2,3)] by fastforce
  have run: "mrun (sim_step 2) ([SCall 0 5, SRun 0, SRun 0] @ replicate 5 (SRun 0)) (sim_init 2 1) = Some u"
    by (simp only: mrun_append s(1) u(1) option.case)
  have "(1 :: nat) < 2" by simp
  note none = sim_default_out_of_bounds [OF run this u(2)]
  have "s_pc u 0 \<noteq> SIdle" using u(2) by simp
  then show ?thesis using none run by blast
qed

end
