(* ===== verification/SimStack.thy ===== *)
theory SimStack
  imports Sim PoolRand
begin

text \<open>
  The Sim stack of \<open>synch1.0.1/simstack.c\<close>: the protocol of \<open>sim.c\<close> with its own \<open>apply_op\<close>, which
  first does the pushes of a round and then its pops, and gives the nodes back when it fails.
\<close>

section \<open>The program\<close>

text \<open>
  A node is named by the thread whose pool it comes from, the number of the block of \<open>pool.h\<close> and its
  place there.
\<close>

type_synonym snode = "tid \<times> nat \<times> nat"

record simstack = "snode option sim" +
  ss_next :: "snode \<Rightarrow> snode option"
  ss_value :: "snode \<Rightarrow> i32"
  ss_page :: "tid \<Rightarrow> nat"          \<comment> \<open>the blocks that \<open>init_pool\<close> has allocated before the current one\<close>
  ss_index :: "tid \<Rightarrow> nat"

definition POP :: i32 where
  "POP = -1"

text \<open>\<open>SHARED_OBJECT_INIT\<close> and \<open>simStackThreadStateInit\<close>.\<close>

definition simstack_init :: "nat \<Rightarrow> simstack" where
  "simstack_init n =
     \<lparr>s_sp = (LOCAL_POOL_SIZE * n, 0), s_tg = toggling_init n, s_announce = (\<lambda>t. 0),
      s_pool = (\<lambda>i. \<lparr>h_applied = TVEC_SET_ZERO n, h_state = None, h_ret = (\<lambda>t. 0)\<rparr>),
      s_local = (\<lambda>t. 0), s_arg = (\<lambda>t. 0), s_pc = (\<lambda>t. SIdle),
      ss_next = (\<lambda>n. None), ss_value = (\<lambda>n. 0), ss_page = (\<lambda>t. 0), ss_index = (\<lambda>t. 0)\<rparr>"

definition simstack_push :: "tid \<Rightarrow> i32 \<Rightarrow> simstack \<Rightarrow> simstack" where
  "simstack_push t arg s =
     (let used_up = (ss_index s t = PSIZE);
          page = (if used_up then ss_page s t + 1 else ss_page s t);
          i = (if used_up then 0 else ss_index s t);
          n = (t, page, i); st = lsp t s in
      set_lsp t (st\<lparr>h_state := Some n\<rparr>)
        (s\<lparr>ss_page := (ss_page s)(t := page), ss_index := (ss_index s)(t := i + 1), ss_value := (ss_value s)(n := arg),
           ss_next := (ss_next s)(n := h_state st)\<rparr>))"

definition simstack_pop :: "tid \<Rightarrow> tid \<Rightarrow> simstack \<Rightarrow> simstack" where
  "simstack_pop t pid s =
     (let st = lsp t s in
      case h_state st of
        Some n \<Rightarrow> set_lsp t (st\<lparr>h_ret := (h_ret st)(pid := ss_value s n), h_state := ss_next s n\<rparr>) s
      | None \<Rightarrow> set_lsp t (st\<lparr>h_ret := (h_ret st)(pid := -1)\<rparr>) s)"

definition simstack_rollback :: "tid \<Rightarrow> nat \<Rightarrow> simstack \<Rightarrow> simstack" where
  "simstack_rollback t k s = s\<lparr>ss_index := (ss_index s)(t := if k \<le> ss_index s t then ss_index s t - k else 0)\<rparr>"

fun simstack_apply_op :: "nat \<Rightarrow> spc \<Rightarrow> tid \<Rightarrow> simstack \<Rightarrow> simstack option" where
  "simstack_apply_op n SAnnounce t s = Some (sgo t SToggle (s\<lparr>s_announce := (s_announce s)(t := s_arg s t)\<rparr>))"
| "simstack_apply_op n SToggle t s = Some (sgo t (SRead 0) (s\<lparr>s_tg := announce_toggle n t (s_tg s)\<rparr>))"
| "simstack_apply_op n (SRead j) t s = Some (sgo t (if j < 2 then SCheck j (s_sp s) else SFinal) s)"
| "simstack_apply_op n (SCheck j old_sp) t s =
     (let mybank = TVEC_GET_BANK_OF_BIT n t;
          diffs = TVEC_ATOMIC_COPY_BANKS (TVEC_SET_ZERO n) (h_applied (s_pool s (fst old_sp))) mybank;
          diffs = TVEC_XOR_BANKS diffs diffs (g_my_bit (s_tg s) t) mybank
      in Some (sgo t (if TVEC_IS_SET n diffs t then SFinal else SCopy j old_sp) s))"
| "simstack_apply_op n (SCopy j old_sp) t s = Some (sgo t (SToggles j old_sp) (set_lsp t (s_pool s (fst old_sp)) s))"
| "simstack_apply_op n (SToggles j old_sp) t s = Some (sgo t (SValid j old_sp (a_toggles (s_tg s))) s)"
| "simstack_apply_op n (SValid j old_sp l_toggles) t s =
     Some (sgo t (if old_sp \<noteq> s_sp s then SRead (Suc j)
                  else SApply j old_sp l_toggles 0 (map Theirs (active n (TVEC_XOR n (h_applied (lsp t s)) l_toggles)))) s)"
| "simstack_apply_op n (SApply j old_sp l_toggles k (w # ws)) t s =
     (case w of
        Theirs p \<Rightarrow>
          (let tmp_arg = s_announce s p in
           if tmp_arg = POP then Some (sgo t (SApply j old_sp l_toggles k (ws @ [PopLater p])) s)
           else Some (sgo t (SApply j old_sp l_toggles (Suc k) ws) (simstack_push t tmp_arg s)))
      | PopLater p \<Rightarrow> Some (sgo t (SApply j old_sp l_toggles k ws) (simstack_pop t p s))
      | Mine \<Rightarrow> None)"
| "simstack_apply_op n (SApply j old_sp l_toggles k []) t s =
     Some (sgo t (SCompare j old_sp k) (set_lsp t ((lsp t s)\<lparr>h_applied := l_toggles\<rparr>) s))"
| "simstack_apply_op n (SCompare j old_sp k) t s =
     (if old_sp = s_sp s then Some (sgo t (SCas j old_sp k) s)
      else Some (sgo t (SRead (Suc j)) (simstack_rollback t k s)))"
| "simstack_apply_op n (SCas j old_sp k) t s =
     (if s_sp s = old_sp
      then Some (sgo t SFinal
             (s\<lparr>s_sp := (LOCAL_POOL_SIZE * t + s_local s t, snd old_sp + 1),
                s_local := (s_local s)(t := (s_local s t + 1) mod LOCAL_POOL_SIZE)\<rparr>))
      else Some (sgo t (SRead (Suc j)) (simstack_rollback t k s)))"
| "simstack_apply_op n SFinal t s =
     Some (sgo t (if s_arg s t = POP then SDone (Some (-1)) else SRet (fst (s_sp s))) s)"
| "simstack_apply_op n (SRet i) t s = Some (sgo t (SDone (Some (h_ret (s_pool s i) t))) s)"
| "simstack_apply_op n _ t s = None"

fun simstack_step :: "nat \<Rightarrow> simev \<Rightarrow> simstack \<Rightarrow> simstack option" where
  "simstack_step n (SCall t arg) s =
     (if sim_idle (s_pc s t) \<and> t < n then Some (sgo t SAnnounce (s\<lparr>s_arg := (s_arg s)(t := arg)\<rparr>)) else None)"
| "simstack_step n (SRun t) s = simstack_apply_op n (s_pc s t) t s"

lemma stack_ops_simps [simp]:
  "s_pc (simstack_push t a s) = s_pc s" "s_pc (simstack_pop t p s) = s_pc s" "s_pc (simstack_rollback t k s) = s_pc s"
  "s_arg (simstack_push t a s) = s_arg s" "s_arg (simstack_pop t p s) = s_arg s" "s_arg (simstack_rollback t k s) = s_arg s"
  by (simp_all add: simstack_push_def simstack_pop_def simstack_rollback_def Let_def split: option.splits)

section \<open>Every operation ends\<close>

lemma simstack_own_less:
  assumes "simstack_apply_op n (s_pc s t) t s = Some s'"
  shows "spc_left (bits_in n) (s_pc s' t) < spc_left (bits_in n) (s_pc s t)"
proof (cases "s_pc s t")
  case (SRead j)
  show ?thesis
  proof (cases "j < 2")
    case True
    then have "(2 - j) * round_left (bits_in n) = (1 - j) * round_left (bits_in n) + round_left (bits_in n)"
      by (cases j) (auto simp: less_2_cases_iff)
    then show ?thesis using assms SRead True by (auto simp: round_left_def)
  qed (use assms SRead in auto)
next
  case (SValid j old_sp lt)
  show ?thesis
  proof (cases "old_sp = s_sp s")
    case True
    have "sum_list (map (todo_left \<circ> Theirs) (active n d)) < 3 + 2 * bits_in n" for d
      using length_active [of n d] todo_left_map [of "active n d"] by (simp add: bits_in_def)
    then show ?thesis using assms SValid True by auto
  qed (use assms SValid in auto)
next
  case (SApply j old_sp lt k ws)
  then show ?thesis using assms by (cases ws) (auto simp: Let_def split: option.splits todo.splits if_splits)
qed (use assms in \<open>auto simp: Let_def split: if_splits\<close>)

lemma simstack_other:
  "simstack_apply_op n p t s = Some s' \<Longrightarrow> u \<noteq> t \<Longrightarrow> s_pc s' u = s_pc s u"
  by (cases "(n, p, t, s)" rule: simstack_apply_op.cases) (auto simp: Let_def split: if_splits option.splits todo.splits)

lemma simstack_args: "simstack_apply_op n p t s = Some s' \<Longrightarrow> s_arg s' = s_arg s"
  by (cases "(n, p, t, s)" rule: simstack_apply_op.cases) (auto simp: Let_def split: if_splits option.splits todo.splits)

interpretation sstack: bounded_ops "simstack_step n" SRun sim_tid "\<lambda>s t. spc_left (bits_in n) (s_pc s t)" for n
proof unfold_locales
  show "spc_left (bits_in n) (s_pc s' t) < spc_left (bits_in n) (s_pc s t)" if "simstack_step n (SRun t) s = Some s'" for n t s s'
    using that simstack_own_less by simp
  show "spc_left (bits_in n) (s_pc s' t) = spc_left (bits_in n) (s_pc s t)"
    if "simstack_step n e s = Some s'" "sim_tid e \<noteq> t" for n e t s s'
    using that simstack_other by (cases e) (auto split: if_splits)
qed

text \<open>Nothing in a round is the thread's own, and what a finished pop returned.\<close>

definition stack_inv :: "nat \<Rightarrow> simstack \<Rightarrow> bool" where
  "stack_inv n s \<longleftrightarrow> (\<forall>t. (\<forall>j osp lt k ws. s_pc s t = SApply j osp lt k ws \<longrightarrow> Mine \<notin> set ws \<and> length ws \<le> bits_in n) \<and>
     (s_arg s t = POP \<longrightarrow> (\<forall>i. s_pc s t \<noteq> SRet i) \<and> (\<forall>v. s_pc s t = SDone v \<longrightarrow> v = Some (-1))))"

lemma stack_inv_go:
  assumes "stack_inv n s" and "s_pc s' = (s_pc s)(t := p)" and "s_arg s' = s_arg s"
    and "\<And>j osp lt k ws. p = SApply j osp lt k ws \<Longrightarrow> Mine \<notin> set ws \<and> length ws \<le> bits_in n"
    and "s_arg s t = POP \<Longrightarrow> (\<forall>i. p \<noteq> SRet i) \<and> (\<forall>v. p = SDone v \<longrightarrow> v = Some (-1))"
  shows "stack_inv n s'"
  using assms by (auto simp: stack_inv_def)

lemma simstack_run_inv:
  assumes inv: "stack_inv n s" and run: "simstack_apply_op n (s_pc s t) t s = Some s'"
  shows "stack_inv n s'"
proof -
  have others: "\<And>u. u \<noteq> t \<Longrightarrow> s_pc s' u = s_pc s u" using simstack_other [OF run] .
  have pc: "s_pc s' = (s_pc s)(t := s_pc s' t)" using others by auto
  have own: "(\<forall>j osp lt k ws. s_pc s t = SApply j osp lt k ws \<longrightarrow> Mine \<notin> set ws \<and> length ws \<le> bits_in n) \<and>
     (s_arg s t = POP \<longrightarrow> (\<forall>i. s_pc s t \<noteq> SRet i) \<and> (\<forall>v. s_pc s t = SDone v \<longrightarrow> v = Some (-1)))"
    using inv by (simp add: stack_inv_def)
  show ?thesis
  proof (rule stack_inv_go [OF inv pc simstack_args [OF run]])
    show "Mine \<notin> set ws \<and> length ws \<le> bits_in n" if "s_pc s' t = SApply j osp lt k ws" for j osp lt k ws
    proof (cases "s_pc s t")
      case (SValid i sp l)
      then show ?thesis using run that length_active [of n] by (auto simp: bits_in_def split: if_splits)
    next
      case (SApply i sp l m us)
      then show ?thesis using run that own
        by (cases us) (auto simp: Let_def split: todo.splits if_splits)
    qed (use run that in \<open>auto simp: Let_def split: if_splits\<close>)
    show "(\<forall>i. s_pc s' t \<noteq> SRet i) \<and> (\<forall>v. s_pc s' t = SDone v \<longrightarrow> v = Some (-1))" if "s_arg s t = POP"
    proof (cases "s_pc s t")
      case (SApply i sp l m us)
      then show ?thesis using run by (cases us) (auto simp: Let_def split: todo.splits if_splits)
    qed (use run that own in \<open>auto simp: Let_def split: if_splits\<close>)
  qed
qed

interpretation sstackm: machine "simstack_step n" "stack_inv n" for n
proof unfold_locales
  fix s e s'
  assume inv: "stack_inv n s" and run: "simstack_step n e s = Some s'"
  show "stack_inv n s'"
  proof (cases e)
    case (SCall t a)
    then show ?thesis using run inv by (auto simp: stack_inv_def split: if_splits)
  qed (use run simstack_run_inv [OF inv] in simp)
qed

lemma simstack_init_inv: "stack_inv n (simstack_init n)"
  by (simp add: stack_inv_def simstack_init_def)

lemma simstack_enabled:
  assumes inv: "stack_inv n s" and "\<not> sim_idle (s_pc s t)"
  shows "\<exists>s'. simstack_step n (SRun t) s = Some s'"
proof (cases "s_pc s t")
  case (SApply j osp lt k ws)
  then have "Mine \<notin> set ws" using inv unfolding stack_inv_def by blast
  then show ?thesis using SApply by (cases ws) (auto simp: Let_def split: todo.splits)
qed (use assms(2) in \<open>auto simp: Let_def\<close>)

lemma stack_left_bound:
  assumes "\<And>j osp lt k ws. p = SApply j osp lt k ws \<Longrightarrow> length ws \<le> b"
  shows "spc_left b p \<le> 4 * b + 29"
proof (cases p)
  case (SApply j osp lt k ws)
  have "sum_list (map todo_left us) \<le> 2 * length us" for us
  proof (induction us)
    case (Cons u us)
    then show ?case by (cases u) simp_all
  qed simp
  from this [of ws] have "sum_list (map todo_left ws) \<le> 2 * b" using assms SApply by fastforce
  then show ?thesis unfolding SApply by (cases j) (simp_all add: round_left_def)
next
  case (SRead j)
  then show ?thesis by (cases "j = 0"; cases "j = 1") (auto simp: round_left_def)
next
  case (SCheck j osp)
  then show ?thesis by (cases j) (simp_all add: round_left_def)
next
  case (SCopy j osp)
  then show ?thesis by (cases j) (simp_all add: round_left_def)
next
  case (SToggles j osp)
  then show ?thesis by (cases j) (simp_all add: round_left_def)
next
  case (SValid j osp lt)
  then show ?thesis by (cases j) (simp_all add: round_left_def)
next
  case (SCompare j osp k)
  then show ?thesis by (cases j) (simp_all add: round_left_def)
next
  case (SCas j osp k)
  then show ?thesis by (cases j) (simp_all add: round_left_def)
qed (simp_all add: round_left_def)

text \<open>
  The Sim stack is wait-free: a thread in the middle of \<open>apply_op\<close> can always take its next step,
  and whatever the other threads do it has returned after at most \<open>256 * TVEC_CELLS n + 29\<close> steps of
  its own.
\<close>

lemma simstack_wait_free:
  assumes "mrun (simstack_step n) es (simstack_init n) = Some s"
    and "mrun (simstack_step n) fs s = Some s'" and "\<forall>a. SCall t a \<notin> set fs"
  shows "count_list fs (SRun t) \<le> 256 * TVEC_CELLS n + 29 \<and>
    (\<not> sim_idle (s_pc s' t) \<longrightarrow> (\<exists>s''. simstack_step n (SRun t) s' = Some s''))"
proof -
  have inv: "stack_inv n s" by (rule sstackm.good_run [OF simstack_init_inv assms(1)])
  then have "stack_inv n s'" using sstackm.good_run assms(2) by blast
  then have "\<not> sim_idle (s_pc s' t) \<longrightarrow> (\<exists>s''. simstack_step n (SRun t) s' = Some s'')" using simstack_enabled by blast
  moreover have "spc_left (bits_in n) (s_pc s t) \<le> 4 * bits_in n + 29"
    by (rule stack_left_bound) (use inv in \<open>unfold stack_inv_def, blast\<close>)
  ultimately show ?thesis using sstack.own_steps_bounded [OF assms(2) sim_no_call [OF assms(3)]] by (simp add: bits_in_def)
qed

text \<open>Thread 0 of two pushes 7, then pops.\<close>

definition demo_simstack :: "simev list" where
  "demo_simstack = SCall 0 7 # replicate 13 (SRun 0) @ SCall 0 POP # replicate 13 (SRun 0)"

lemma demo_simstack_run:
  "map_option (\<lambda>s. (s_pc s 0, s_arg s 0, h_state (s_pool s (fst (s_sp s))), h_ret (s_pool s (fst (s_sp s))) 0))
     (mrun (simstack_step 2) demo_simstack (simstack_init 2)) = Some (SDone (Some (-1)), POP, None, 7)"
  by code_simp

lemma simstack_wait_free_witness:
  "\<exists>s s'. mrun (simstack_step 2) [SCall 0 7] (simstack_init 2) = Some s \<and> mrun (simstack_step 2) [SRun 0] s = Some s' \<and>
    (\<exists>s''. simstack_step 2 (SRun 0) s' = Some s'')"
proof -
  obtain s where s: "mrun (simstack_step 2) [SCall 0 7] (simstack_init 2) = Some s" "s_pc s 0 = SAnnounce"
    by (simp add: simstack_init_def)
  obtain s' where s': "mrun (simstack_step 2) [SRun 0] s = Some s'" "s_pc s' 0 = SToggle" using s by simp
  have "\<not> sim_idle (s_pc s' 0)" using s' by simp
  then show ?thesis using simstack_wait_free [OF s(1) s'(1), of 0] s(1) s'(1) by auto
qed

text \<open>
  A pop of the Sim stack never returns the value it took: whatever the interleaving, \<open>apply_op\<close>
  with the argument \<open>POP\<close> returns -1, the answer for an empty stack.
\<close>

lemma simstack_pop_lost:
  assumes "mrun (simstack_step n) es (simstack_init n) = Some s" and "s_arg s t = POP" and "s_pc s t = SDone v"
  shows "v = Some (-1)"
proof -
  have "stack_inv n s" by (rule sstackm.good_run [OF simstack_init_inv assms(1)])
  then show ?thesis using assms(2,3) by (simp add: stack_inv_def)
qed

text \<open>Here the stack held 7, it is empty afterwards, the 7 is stored for the thread, and it returns -1.\<close>

lemma simstack_pop_lost_witness:
  "\<exists>s v. mrun (simstack_step 2) demo_simstack (simstack_init 2) = Some s \<and> s_pc s 0 = SDone (Some v) \<and> v = -1 \<and>
    h_state (s_pool s (fst (s_sp s))) = None \<and> h_ret (s_pool s (fst (s_sp s))) 0 = 7"
proof -
  obtain s where s: "mrun (simstack_step 2) demo_simstack (simstack_init 2) = Some s" "s_pc s 0 = SDone (Some (-1))"
    "s_arg s 0 = POP" "h_state (s_pool s (fst (s_sp s))) = None" "h_ret (s_pool s (fst (s_sp s))) 0 = 7"
    using demo_simstack_run by auto
  have "Some (-1 :: i32) = Some (-1)" using simstack_pop_lost [OF s(1,3,2)] .
  then show ?thesis using s by blast
qed

end
