(* ===== verification/SimQueue.thy ===== *)
theory SimQueue
  imports SimObject PoolRand
begin

text \<open>
  The Sim queue of \<open>synch1.0.1/simqueue.c\<close>: one Sim object for the enqueues and one for the dequeues,
  over a linked list of nodes. An enqueue round prepares a chain of nodes, and the link to it is set
  later, by whoever comes first. The nodes come from the threads' pools of \<open>pool.h\<close>.
\<close>

section \<open>The state\<close>

text \<open>A node of a thread's pool: its number in the block, and the number of the block.\<close>

datatype qnode = Guard | QNode tid nat nat

text \<open>\<open>EnqState\<close> and \<open>DeqState\<close> without their \<open>applied\<close> and \<open>ret\<close>, which every Sim record has.\<close>

record enq_state =
  link_a :: qnode
  link_b :: "qnode option"
  e_ptr :: qnode

datatype qpc =
    QIdle
  | QAnnounce                                       \<comment> \<open>\<open>announce[pid] = arg\<close>\<close>
  | QToggle                                         \<comment> \<open>\<open>TVEC_ATOMIC_ADD_BANK(&enqueuers, ...)\<close>\<close>
  | QRead nat                                       \<comment> \<open>\<open>j < 2\<close>, \<open>tmp_sp = enq_sp\<close>\<close>
  | QCheck nat "nat \<times> u48"                          \<comment> \<open>the bank of \<open>lsp->applied\<close>\<close>
  | QCopy nat "nat \<times> u48"                           \<comment> \<open>\<open>*mod_sp = *lsp\<close>\<close>
  | QToggles nat "nat \<times> u48"                        \<comment> \<open>\<open>l_toggles = enqueuers\<close>\<close>
  | QValid nat "nat \<times> u48" toggle_vector            \<comment> \<open>\<open>tmp_sp != enq_sp\<close>\<close>
  | QConnect nat "nat \<times> u48" toggle_vector          \<comment> \<open>\<open>CASPTR(&mod_sp->link_a->next, null, mod_sp->link_b)\<close>\<close>
  | QApply nat "nat \<times> u48" toggle_vector nat qnode qnode "tid list"
      \<comment> \<open>the loop: \<open>enq_counter\<close>, \<open>llist\<close>, \<open>node\<close>, and the threads to come\<close>
  | QCompare nat "nat \<times> u48" nat                    \<comment> \<open>\<open>tmp_sp == enq_sp\<close>\<close>
  | QCas nat "nat \<times> u48" nat                        \<comment> \<open>\<open>CAS64(&enq_sp, tmp_sp, ...)\<close>\<close>
  | QLink                                           \<comment> \<open>\<open>CASPTR\<close> after the success\<close>
  | QDone
  | DToggle                                         \<comment> \<open>\<open>TVEC_ATOMIC_ADD_BANK(&dequeuers, ...)\<close>\<close>
  | DRead nat
  | DCheck nat "nat \<times> u48"
  | DCopy nat "nat \<times> u48"
  | DToggles nat "nat \<times> u48"
  | DValid nat "nat \<times> u48" toggle_vector
  | DApply nat "nat \<times> u48" toggle_vector "tid list"  \<comment> \<open>the loop: \<open>next = mod_sp->ptr->next\<close>\<close>
  | DConn nat "nat \<times> u48" toggle_vector "tid list"   \<comment> \<open>\<open>connectQueue\<close>: \<open>tmp_sp = enq_sp\<close>\<close>
  | DConnCopy nat "nat \<times> u48" toggle_vector "tid list" nat       \<comment> \<open>the \<open>memcpy\<close>: \<open>link_a\<close>\<close>
  | DConnCopyB nat "nat \<times> u48" toggle_vector "tid list" nat qnode  \<comment> \<open>and then \<open>link_b\<close>\<close>
  | DConnCas nat "nat \<times> u48" toggle_vector "tid list" qnode "qnode option"  \<comment> \<open>\<open>CASPTR(&lsp.link_a->next, null, lsp.link_b)\<close>\<close>
  | DAgain nat "nat \<times> u48" toggle_vector "tid list"  \<comment> \<open>\<open>next = mod_sp->ptr->next\<close> again\<close>
  | DCompare nat "nat \<times> u48"
  | DCas nat "nat \<times> u48"
  | DFinal                                          \<comment> \<open>\<open>tmp_sp = deq_sp\<close> at the end\<close>
  | DRet nat
  | DDone "i32 option"                              \<comment> \<open>\<open>None\<close>: \<open>return;\<close>, no defined value\<close>

record simqueue =
  q_enq :: "enq_state sim"
  q_deq :: "qnode sim"
  q_next :: "qnode \<Rightarrow> qnode option"
  q_obj :: "qnode \<Rightarrow> i32"
  q_page :: "tid \<Rightarrow> nat"          \<comment> \<open>the blocks that \<open>init_pool\<close> has allocated before the current one\<close>
  q_index :: "tid \<Rightarrow> nat"
  q_pc :: "tid \<Rightarrow> qpc"

definition simqueue_init :: "nat \<Rightarrow> simqueue" where
  "simqueue_init n =
     \<lparr>q_enq = \<lparr>s_sp = (LOCAL_POOL_SIZE * n, 0), s_tg = toggling_init n, s_announce = (\<lambda>t. 0),
        s_pool = (\<lambda>i. \<lparr>h_applied = TVEC_SET_ZERO n, h_state = \<lparr>link_a = Guard, link_b = None, e_ptr = Guard\<rparr>, h_ret = (\<lambda>t. 0)\<rparr>),
        s_local = (\<lambda>t. 0), s_arg = (\<lambda>t. 0), s_pc = (\<lambda>t. SIdle)\<rparr>,
      q_deq = \<lparr>s_sp = (LOCAL_POOL_SIZE * n, 0), s_tg = toggling_init n, s_announce = (\<lambda>t. 0),
        s_pool = (\<lambda>i. \<lparr>h_applied = TVEC_SET_ZERO n, h_state = Guard, h_ret = (\<lambda>t. 0)\<rparr>),
        s_local = (\<lambda>t. 0), s_arg = (\<lambda>t. 0), s_pc = (\<lambda>t. SIdle)\<rparr>,
      q_next = (\<lambda>x. None), q_obj = (\<lambda>x. if x = Guard then -1 else 0), q_page = (\<lambda>t. 0), q_index = (\<lambda>t. 0), q_pc = (\<lambda>t. QIdle)\<rparr>"

definition qgo :: "tid \<Rightarrow> qpc \<Rightarrow> simqueue \<Rightarrow> simqueue" where
  "qgo t p s = s\<lparr>q_pc := (q_pc s)(t := p)\<rparr>"

definition set_enq :: "enq_state sim \<Rightarrow> simqueue \<Rightarrow> simqueue" where
  "set_enq e s = s\<lparr>q_enq := e\<rparr>"

definition set_deq :: "qnode sim \<Rightarrow> simqueue \<Rightarrow> simqueue" where
  "set_deq d s = s\<lparr>q_deq := d\<rparr>"

text \<open>
  \<open>CASPTR(&a->next, null, b)\<close>; a node from the thread's pool, \<open>alloc_obj\<close> with a new block when the
  current one is used up; and \<open>rollback\<close>, which stops at the beginning of the block.
\<close>

definition link_nodes :: "qnode \<Rightarrow> qnode option \<Rightarrow> simqueue \<Rightarrow> simqueue" where
  "link_nodes a b s = (if q_next s a = None then s\<lparr>q_next := (q_next s)(a := b)\<rparr> else s)"

definition new_node :: "tid \<Rightarrow> i32 \<Rightarrow> simqueue \<Rightarrow> qnode \<times> simqueue" where
  "new_node t v s =
     (let used_up = (q_index s t = PSIZE);
          page = (if used_up then q_page s t + 1 else q_page s t);
          i = (if used_up then 0 else q_index s t);
          x = QNode t page i in
      (x, s\<lparr>q_page := (q_page s)(t := page), q_index := (q_index s)(t := i + 1),
            q_next := (q_next s)(x := None), q_obj := (q_obj s)(x := v)\<rparr>))"

definition rollback_nodes :: "tid \<Rightarrow> nat \<Rightarrow> simqueue \<Rightarrow> simqueue" where
  "rollback_nodes t k s =
     s\<lparr>q_index := (q_index s)(t := if k \<le> q_index s t then q_index s t - k else 0)\<rparr>"

text \<open>The test whether the thread's operation has been applied, with \<open>mask\<close> and \<open>my_bit\<close>.\<close>

definition sim_applied :: "nat \<Rightarrow> tid \<Rightarrow> toggle_vector \<Rightarrow> toggling \<Rightarrow> bool" where
  "sim_applied n t applied tg =
     (let mybank = TVEC_GET_BANK_OF_BIT n t;
          mask = TVEC_SET_BIT n (TVEC_SET_ZERO n) t;
          diffs = TVEC_XOR n (TVEC_AND_BANKS (TVEC_SET_ZERO n) applied mask mybank) (g_my_bit tg t)
      in TVEC_IS_SET n diffs t)"

section \<open>enqueue\<close>

fun simqueue_enqueue :: "nat \<Rightarrow> qpc \<Rightarrow> tid \<Rightarrow> simqueue \<Rightarrow> simqueue option" where
  "simqueue_enqueue n QAnnounce t s =
     (let e = q_enq s in Some (qgo t QToggle (set_enq (e\<lparr>s_announce := (s_announce e)(t := s_arg e t)\<rparr>) s)))"
| "simqueue_enqueue n QToggle t s =
     (let e = q_enq s in Some (qgo t (QRead 0) (set_enq (e\<lparr>s_tg := announce_toggle n t (s_tg e)\<rparr>) s)))"
| "simqueue_enqueue n (QRead j) t s = Some (qgo t (if j < 2 then QCheck j (s_sp (q_enq s)) else QDone) s)"
| "simqueue_enqueue n (QCheck j tmp_sp) t s =
     (let e = q_enq s; mod_sp = lsp t e;
          applied = TVEC_ATOMIC_COPY_BANKS (h_applied mod_sp) (h_applied (s_pool e (fst tmp_sp))) (TVEC_GET_BANK_OF_BIT n t)
      in Some (qgo t (if sim_applied n t applied (s_tg e) then QDone else QCopy j tmp_sp)
           (set_enq (set_lsp t (mod_sp\<lparr>h_applied := applied\<rparr>) e) s)))"
| "simqueue_enqueue n (QCopy j tmp_sp) t s =
     (let e = q_enq s in Some (qgo t (QToggles j tmp_sp) (set_enq (set_lsp t (s_pool e (fst tmp_sp)) e) s)))"
| "simqueue_enqueue n (QToggles j tmp_sp) t s = Some (qgo t (QValid j tmp_sp (a_toggles (s_tg (q_enq s)))) s)"
| "simqueue_enqueue n (QValid j tmp_sp l_toggles) t s =
     Some (qgo t (if tmp_sp \<noteq> s_sp (q_enq s) then QRead (Suc j) else QConnect j tmp_sp l_toggles) s)"
| "simqueue_enqueue n (QConnect j tmp_sp l_toggles) t s =
     (let e = q_enq s; diffs = TVEC_REVERSE_BIT n (TVEC_XOR n (h_applied (lsp t e)) l_toggles) t;
          (node, s1) = new_node t (s_arg e t) (link_nodes (link_a (h_state (lsp t e))) (link_b (h_state (lsp t e))) s)
      in Some (qgo t (QApply j tmp_sp l_toggles 0 node node (active n diffs)) s1))"
| "simqueue_enqueue n (QApply j tmp_sp l_toggles enq_counter llist node (p # ps)) t s =
     (let (node', s1) = new_node t (s_announce (q_enq s) p) s
      in Some (qgo t (QApply j tmp_sp l_toggles (Suc enq_counter) llist node' ps) (s1\<lparr>q_next := (q_next s1)(node := Some node')\<rparr>)))"
| "simqueue_enqueue n (QApply j tmp_sp l_toggles enq_counter llist node []) t s =
     (let e = q_enq s; m = lsp t e
      in Some (qgo t (QCompare j tmp_sp enq_counter)
           (set_enq (set_lsp t (m\<lparr>h_state := \<lparr>link_a = e_ptr (h_state m), link_b = Some llist, e_ptr = node\<rparr>,
              h_applied := l_toggles\<rparr>) e) s)))"
| "simqueue_enqueue n (QCompare j tmp_sp enq_counter) t s =
     (if tmp_sp = s_sp (q_enq s) then Some (qgo t (QCas j tmp_sp enq_counter) s)
      else Some (qgo t (QRead (Suc j)) (rollback_nodes t enq_counter s)))"
| "simqueue_enqueue n (QCas j tmp_sp enq_counter) t s =
     (let e = q_enq s in
      if s_sp e = tmp_sp
      then Some (qgo t QLink (set_enq (e\<lparr>s_sp := (LOCAL_POOL_SIZE * t + s_local e t, snd tmp_sp + 1)\<rparr>) s))
      else Some (qgo t (QRead (Suc j)) (rollback_nodes t enq_counter s)))"
| "simqueue_enqueue n QLink t s =
     (let e = q_enq s
      in Some (qgo t QDone (set_enq (e\<lparr>s_local := (s_local e)(t := (s_local e t + 1) mod LOCAL_POOL_SIZE)\<rparr>)
           (link_nodes (link_a (h_state (lsp t e))) (link_b (h_state (lsp t e))) s))))"
| "simqueue_enqueue n _ t s = None"

section \<open>dequeue\<close>

text \<open>
  A value found at once is stored in \<open>ret[i]\<close>, where \<open>i\<close> is the number of the cell; one found after
  \<open>connectQueue\<close> in \<open>ret[proc_id]\<close>.
\<close>

fun simqueue_dequeue :: "nat \<Rightarrow> qpc \<Rightarrow> tid \<Rightarrow> simqueue \<Rightarrow> simqueue option" where
  "simqueue_dequeue n DToggle t s =
     (let d = q_deq s in Some (qgo t (DRead 0) (set_deq (d\<lparr>s_tg := announce_toggle n t (s_tg d)\<rparr>) s)))"
| "simqueue_dequeue n (DRead j) t s = Some (qgo t (if j < 2 then DCheck j (s_sp (q_deq s)) else DFinal) s)"
| "simqueue_dequeue n (DCheck j tmp_sp) t s =
     (let d = q_deq s; mod_sp = lsp t d;
          applied = TVEC_ATOMIC_COPY_BANKS (h_applied mod_sp) (h_applied (s_pool d (fst tmp_sp))) (TVEC_GET_BANK_OF_BIT n t)
      in Some (qgo t (if sim_applied n t applied (s_tg d) then DDone None else DCopy j tmp_sp)
           (set_deq (set_lsp t (mod_sp\<lparr>h_applied := applied\<rparr>) d) s)))"
| "simqueue_dequeue n (DCopy j tmp_sp) t s =
     (let d = q_deq s in Some (qgo t (DToggles j tmp_sp) (set_deq (set_lsp t (s_pool d (fst tmp_sp)) d) s)))"
| "simqueue_dequeue n (DToggles j tmp_sp) t s = Some (qgo t (DValid j tmp_sp (a_toggles (s_tg (q_deq s)))) s)"
| "simqueue_dequeue n (DValid j tmp_sp l_toggles) t s =
     Some (qgo t (if tmp_sp \<noteq> s_sp (q_deq s) then DRead (Suc j)
                  else DApply j tmp_sp l_toggles (active n (TVEC_XOR n (h_applied (lsp t (q_deq s))) l_toggles))) s)"
| "simqueue_dequeue n (DApply j tmp_sp l_toggles (p # ps)) t s =
     (let d = q_deq s; m = lsp t d in
      case q_next s (h_state m) of
        Some nx \<Rightarrow> Some (qgo t (DApply j tmp_sp l_toggles ps)
          (set_deq (set_lsp t (m\<lparr>h_ret := (h_ret m)(p div 64 := q_obj s nx), h_state := nx\<rparr>) d) s))
      | None \<Rightarrow> Some (qgo t (DConn j tmp_sp l_toggles (p # ps)) s))"
| "simqueue_dequeue n (DApply j tmp_sp l_toggles []) t s =
     (let d = q_deq s in Some (qgo t (DCompare j tmp_sp) (set_deq (set_lsp t ((lsp t d)\<lparr>h_applied := l_toggles\<rparr>) d) s)))"
| "simqueue_dequeue n (DAgain j tmp_sp l_toggles (p # ps)) t s =
     (let d = q_deq s; m = lsp t d in
      case q_next s (h_state m) of
        Some nx \<Rightarrow> Some (qgo t (DApply j tmp_sp l_toggles ps)
          (set_deq (set_lsp t (m\<lparr>h_ret := (h_ret m)(p := q_obj s nx), h_state := nx\<rparr>) d) s))
      | None \<Rightarrow> Some (qgo t (DApply j tmp_sp l_toggles ps)
          (set_deq (set_lsp t (m\<lparr>h_ret := (h_ret m)(p := -1)\<rparr>) d) s)))"
| "simqueue_dequeue n (DCompare j tmp_sp) t s =
     Some (qgo t (if tmp_sp = s_sp (q_deq s) then DCas j tmp_sp else DRead (Suc j)) s)"
| "simqueue_dequeue n (DCas j tmp_sp) t s =
     (let d = q_deq s in
      if s_sp d = tmp_sp
      then Some (qgo t (DDone (Some (h_ret (lsp t d) t)))
             (set_deq (d\<lparr>s_sp := (LOCAL_POOL_SIZE * t + s_local d t, snd tmp_sp + 1),
                         s_local := (s_local d)(t := (s_local d t + 1) mod LOCAL_POOL_SIZE)\<rparr>) s))
      else Some (qgo t (DRead (Suc j)) s))"
| "simqueue_dequeue n DFinal t s = Some (qgo t (DRet (fst (s_sp (q_deq s)))) s)"
| "simqueue_dequeue n (DRet i) t s = Some (qgo t (DDone (Some (h_ret (s_pool (q_deq s) i) t))) s)"
| "simqueue_dequeue n _ t s = None"

text \<open>
  \<open>connectQueue\<close>: the state it copies may be overwritten while it copies, and it does not look whether it
  was. The two words it uses are read one after the other, in the order of the record.
\<close>

fun connectQueue :: "qpc \<Rightarrow> tid \<Rightarrow> simqueue \<Rightarrow> simqueue option" where
  "connectQueue (DConn j osp lt ps) t s = Some (qgo t (DConnCopy j osp lt ps (fst (s_sp (q_enq s)))) s)"
| "connectQueue (DConnCopy j osp lt ps i) t s =
     Some (qgo t (DConnCopyB j osp lt ps i (link_a (h_state (s_pool (q_enq s) i)))) s)"
| "connectQueue (DConnCopyB j osp lt ps i a) t s =
     Some (qgo t (DConnCas j osp lt ps a (link_b (h_state (s_pool (q_enq s) i)))) s)"
| "connectQueue (DConnCas j osp lt ps a b) t s = Some (qgo t (DAgain j osp lt ps) (link_nodes a b s))"
| "connectQueue _ t s = None"

datatype qsev = QCall tid i32 | DCall tid | QStep tid

fun q_idle :: "qpc \<Rightarrow> bool" where
  "q_idle QIdle = True"
| "q_idle QDone = True"
| "q_idle (DDone v) = True"
| "q_idle _ = False"

definition q_run :: "nat \<Rightarrow> tid \<Rightarrow> simqueue \<Rightarrow> simqueue option" where
  "q_run n t s =
     (case simqueue_enqueue n (q_pc s t) t s of
        Some s' \<Rightarrow> Some s'
      | None \<Rightarrow> (case connectQueue (q_pc s t) t s of Some s' \<Rightarrow> Some s' | None \<Rightarrow> simqueue_dequeue n (q_pc s t) t s))"

fun simqueue_step :: "nat \<Rightarrow> qsev \<Rightarrow> simqueue \<Rightarrow> simqueue option" where
  "simqueue_step n (QCall t arg) s =
     (if q_idle (q_pc s t) \<and> t < n
      then let e = q_enq s in Some (qgo t QAnnounce (set_enq (e\<lparr>s_arg := (s_arg e)(t := arg)\<rparr>) s)) else None)"
| "simqueue_step n (DCall t) s = (if q_idle (q_pc s t) \<and> t < n then Some (qgo t DToggle s) else None)"
| "simqueue_step n (QStep t) s = q_run n t s"

section \<open>Every operation ends\<close>

fun qs_tid :: "qsev \<Rightarrow> tid" where
  "qs_tid (QCall t a) = t"
| "qs_tid (DCall t) = t"
| "qs_tid (QStep t) = t"

definition q_round :: "nat \<Rightarrow> nat" where
  "q_round b = 6 * b + 20"

fun qpc_left :: "nat \<Rightarrow> qpc \<Rightarrow> nat" where
  "qpc_left b QIdle = 0"
| "qpc_left b QDone = 0"
| "qpc_left b (DDone v) = 0"
| "qpc_left b QLink = 1"
| "qpc_left b (QCas j osp k) = (1 - j) * q_round b + 3"
| "qpc_left b (QCompare j osp k) = (1 - j) * q_round b + 4"
| "qpc_left b (QApply j osp lt k l nd ps) = (1 - j) * q_round b + 5 + length ps"
| "qpc_left b (QConnect j osp lt) = (1 - j) * q_round b + 6 + b"
| "qpc_left b (QValid j osp lt) = (1 - j) * q_round b + 7 + b"
| "qpc_left b (QToggles j osp) = (1 - j) * q_round b + 8 + b"
| "qpc_left b (QCopy j osp) = (1 - j) * q_round b + 9 + b"
| "qpc_left b (QCheck j osp) = (1 - j) * q_round b + 10 + b"
| "qpc_left b (QRead j) = (2 - j) * q_round b + 1"
| "qpc_left b QToggle = 2 * q_round b + 2"
| "qpc_left b QAnnounce = 2 * q_round b + 3"
| "qpc_left b (DRet i) = 1"
| "qpc_left b DFinal = 2"
| "qpc_left b (DCas j osp) = (1 - j) * q_round b + 4"
| "qpc_left b (DCompare j osp) = (1 - j) * q_round b + 5"
| "qpc_left b (DApply j osp lt ps) = (1 - j) * q_round b + 6 + 6 * length ps"
| "qpc_left b (DConn j osp lt ps) = (1 - j) * q_round b + 5 + 6 * length ps"
| "qpc_left b (DConnCopy j osp lt ps i) = (1 - j) * q_round b + 4 + 6 * length ps"
| "qpc_left b (DConnCopyB j osp lt ps i a) = (1 - j) * q_round b + 3 + 6 * length ps"
| "qpc_left b (DConnCas j osp lt ps a l) = (1 - j) * q_round b + 2 + 6 * length ps"
| "qpc_left b (DAgain j osp lt ps) = (1 - j) * q_round b + 1 + 6 * length ps"
| "qpc_left b (DValid j osp lt) = (1 - j) * q_round b + 7 + 6 * b"
| "qpc_left b (DToggles j osp) = (1 - j) * q_round b + 8 + 6 * b"
| "qpc_left b (DCopy j osp) = (1 - j) * q_round b + 9 + 6 * b"
| "qpc_left b (DCheck j osp) = (1 - j) * q_round b + 10 + 6 * b"
| "qpc_left b (DRead j) = (2 - j) * q_round b + 3"
| "qpc_left b DToggle = 2 * q_round b + 4"

fun qpc_ok :: "nat \<Rightarrow> qpc \<Rightarrow> bool" where
  "qpc_ok b (QApply j osp lt k l nd ps) = (length ps \<le> b)"
| "qpc_ok b (DApply j osp lt ps) = (length ps \<le> b)"
| "qpc_ok b (DConn j osp lt ps) = (ps \<noteq> [] \<and> length ps \<le> b)"
| "qpc_ok b (DConnCopy j osp lt ps i) = (ps \<noteq> [] \<and> length ps \<le> b)"
| "qpc_ok b (DConnCopyB j osp lt ps i a) = (ps \<noteq> [] \<and> length ps \<le> b)"
| "qpc_ok b (DConnCas j osp lt ps a l) = (ps \<noteq> [] \<and> length ps \<le> b)"
| "qpc_ok b (DAgain j osp lt ps) = (ps \<noteq> [] \<and> length ps \<le> b)"
| "qpc_ok b _ = True"

lemma q_pc_simps [simp]:
  "q_pc (qgo t p s) = (q_pc s)(t := p)" "q_pc (set_enq e s) = q_pc s" "q_pc (set_deq d s) = q_pc s"
  "q_pc (link_nodes l m s) = q_pc s" "q_pc (snd (new_node t v s)) = q_pc s" "q_pc (rollback_nodes t k s) = q_pc s"
  by (simp_all add: qgo_def set_enq_def set_deq_def link_nodes_def new_node_def rollback_nodes_def Let_def split: prod.splits)

lemma round_two: "j < 2 \<Longrightarrow> (2 - j) * q_round b = (1 - j) * q_round b + q_round b"
  by (cases j) (auto simp: less_2_cases_iff)

text \<open>What one step does to the thread's program point.\<close>

definition qfine :: "nat \<Rightarrow> tid \<Rightarrow> simqueue \<Rightarrow> simqueue \<Rightarrow> bool" where
  "qfine b t s s' \<longleftrightarrow> (\<exists>p. q_pc s' = (q_pc s)(t := p) \<and> (qpc_ok b (q_pc s t) \<longrightarrow> qpc_ok b p) \<and> qpc_left b p < qpc_left b (q_pc s t))"

lemma qfineI: "q_pc s' = (q_pc s)(t := p) \<Longrightarrow> (qpc_ok b (q_pc s t) \<Longrightarrow> qpc_ok b p) \<Longrightarrow> qpc_left b p < qpc_left b (q_pc s t) \<Longrightarrow> qfine b t s s'"
  by (auto simp: qfine_def)

lemma enqueue_fine:
  assumes "simqueue_enqueue n (q_pc s t) t s = Some s'"
  shows "qfine (bits_in n) t s s'"
proof (cases "q_pc s t")
  case (QRead j)
  then show ?thesis using assms round_two [of j "bits_in n"]
    by (cases "j < 2") (auto simp: q_round_def intro!: qfineI)
next
  case (QConnect j osp lt)
  have "length (active n d) \<le> bits_in n" for d using length_active [of n d] by (simp add: bits_in_def)
  moreover from this have "length (active n d) < Suc (bits_in n)" for d by (simp add: less_Suc_eq_le)
  ultimately show ?thesis using assms QConnect
    by (auto simp: Let_def new_node_def intro!: qfineI)
next
  case (QApply j osp lt k l nd ps)
  then show ?thesis using assms by (cases ps) (auto simp: Let_def new_node_def intro!: qfineI)
qed (use assms in \<open>auto simp: Let_def intro!: qfineI split: if_splits\<close>)

lemma connect_fine:
  assumes "connectQueue (q_pc s t) t s = Some s'"
  shows "qfine (bits_in n) t s s'"
  using assms by (cases "q_pc s t") (auto intro!: qfineI)

lemma dequeue_fine:
  assumes "simqueue_dequeue n (q_pc s t) t s = Some s'"
  shows "qfine (bits_in n) t s s'"
proof (cases "q_pc s t")
  case (DRead j)
  then show ?thesis using assms round_two [of j "bits_in n"]
    by (cases "j < 2") (auto simp: q_round_def intro!: qfineI)
next
  case (DValid j osp lt)
  have "length (active n d) \<le> bits_in n" for d using length_active [of n d] by (simp add: bits_in_def)
  moreover from this have "6 * length (active n d) < Suc (6 * bits_in n)" for d by (simp add: less_Suc_eq_le)
  ultimately show ?thesis using assms DValid
    by (auto simp: Let_def intro!: qfineI split: if_splits)
next
  case (DApply j osp lt ps)
  then show ?thesis using assms by (cases ps) (auto simp: Let_def intro!: qfineI split: option.splits)
next
  case (DAgain j osp lt ps)
  then show ?thesis using assms by (cases ps) (auto simp: Let_def intro!: qfineI split: option.splits)
qed (use assms in \<open>auto simp: Let_def intro!: qfineI split: if_splits\<close>)

lemma q_run_fine: "q_run n t s = Some s' \<Longrightarrow> qfine (bits_in n) t s s'"
  using enqueue_fine connect_fine dequeue_fine by (auto simp: q_run_def split: option.splits)

interpretation squeue: bounded_ops "simqueue_step n" QStep qs_tid "\<lambda>s t. qpc_left (bits_in n) (q_pc s t)" for n
proof unfold_locales
  show "qpc_left (bits_in n) (q_pc s' t) < qpc_left (bits_in n) (q_pc s t)" if "simqueue_step n (QStep t) s = Some s'" for n t s s'
    using q_run_fine [of n t s s'] that by (auto simp: qfine_def)
  show "qpc_left (bits_in n) (q_pc s' t) = qpc_left (bits_in n) (q_pc s t)"
    if "simqueue_step n e s = Some s'" "qs_tid e \<noteq> t" for n e t s s'
  proof (cases e)
    case (QStep u)
    then show ?thesis using that q_run_fine [of n u s s'] by (auto simp: qfine_def)
  qed (use that in \<open>auto simp: Let_def split: if_splits\<close>)
qed

interpretation squeuem: machine "simqueue_step n" "\<lambda>s. \<forall>t. qpc_ok (bits_in n) (q_pc s t)" for n
proof unfold_locales
  show "\<forall>t. qpc_ok (bits_in n) (q_pc s' t)" if "\<forall>t. qpc_ok (bits_in n) (q_pc s t)" "simqueue_step n e s = Some s'" for n s e s'
  proof (cases e)
    case (QStep u)
    then show ?thesis using that q_run_fine [of n u s s'] by (auto simp: qfine_def)
  qed (use that in \<open>auto simp: Let_def split: if_splits\<close>)
qed

lemma simqueue_init_ok: "qpc_ok b (q_pc (simqueue_init n) t)"
  by (simp add: simqueue_init_def)

lemma simqueue_enabled:
  assumes "qpc_ok b (q_pc s t)" and "\<not> q_idle (q_pc s t)"
  shows "\<exists>s'. simqueue_step n (QStep t) s = Some s'"
proof (cases "q_pc s t")
  case (QApply j osp lt k l nd ps)
  then show ?thesis by (cases ps) (auto simp: q_run_def Let_def new_node_def)
next
  case (DApply j osp lt ps)
  then show ?thesis by (cases ps) (auto simp: q_run_def Let_def split: option.splits)
next
  case (DAgain j osp lt ps)
  then show ?thesis using assms(1) by (cases ps) (auto simp: q_run_def Let_def split: option.splits)
qed (use assms(2) in \<open>auto simp: q_run_def Let_def new_node_def\<close>)

lemma qpc_left_bound: "qpc_ok b p \<Longrightarrow> qpc_left b p \<le> 12 * b + 44"
proof (cases p)
  case (QRead j)
  then show ?thesis by (cases "j = 0"; cases "j = 1") (auto simp: q_round_def)
next
  case (DRead j)
  then show ?thesis by (cases "j = 0"; cases "j = 1") (auto simp: q_round_def)
next
  case (QCas j osp k)
  then show ?thesis by (cases j) (auto simp: q_round_def)
next
  case (QCompare j osp k)
  then show ?thesis by (cases j) (auto simp: q_round_def)
next
  case (QConnect j osp lt)
  then show ?thesis by (cases j) (auto simp: q_round_def)
next
  case (QValid j osp lt)
  then show ?thesis by (cases j) (auto simp: q_round_def)
next
  case (QToggles j osp)
  then show ?thesis by (cases j) (auto simp: q_round_def)
next
  case (QCopy j osp)
  then show ?thesis by (cases j) (auto simp: q_round_def)
next
  case (QCheck j osp)
  then show ?thesis by (cases j) (auto simp: q_round_def)
next
  case (DCas j osp)
  then show ?thesis by (cases j) (auto simp: q_round_def)
next
  case (DCompare j osp)
  then show ?thesis by (cases j) (auto simp: q_round_def)
next
  case (DValid j osp lt)
  then show ?thesis by (cases j) (auto simp: q_round_def)
next
  case (DToggles j osp)
  then show ?thesis by (cases j) (auto simp: q_round_def)
next
  case (DCopy j osp)
  then show ?thesis by (cases j) (auto simp: q_round_def)
next
  case (DCheck j osp)
  then show ?thesis by (cases j) (auto simp: q_round_def)
next
  case (QApply j osp lt k l nd ps)
  then show "qpc_ok b p \<Longrightarrow> ?thesis" by (cases j) (auto simp: q_round_def)
next
  case (DApply j osp lt ps)
  then show "qpc_ok b p \<Longrightarrow> ?thesis" by (cases j) (auto simp: q_round_def)
next
  case (DConn j osp lt ps)
  then show "qpc_ok b p \<Longrightarrow> ?thesis" by (cases j) (auto simp: q_round_def)
next
  case (DConnCopy j osp lt ps i)
  then show "qpc_ok b p \<Longrightarrow> ?thesis" by (cases j) (auto simp: q_round_def)
next
  case (DConnCopyB j osp lt ps i a)
  then show "qpc_ok b p \<Longrightarrow> ?thesis" by (cases j) (auto simp: q_round_def)
next
  case (DConnCas j osp lt ps a l)
  then show "qpc_ok b p \<Longrightarrow> ?thesis" by (cases j) (auto simp: q_round_def)
next
  case (DAgain j osp lt ps)
  then show "qpc_ok b p \<Longrightarrow> ?thesis" by (cases j) (auto simp: q_round_def)
qed (simp_all add: q_round_def)

text \<open>
  The Sim queue is wait-free: a thread in the middle of \<open>enqueue\<close> or \<open>dequeue\<close> can always take its
  next step, and whatever the other threads do it has returned after at most
  \<open>768 * TVEC_CELLS n + 44\<close> steps of its own.
\<close>

lemma simqueue_wait_free:
  assumes "mrun (simqueue_step n) es (simqueue_init n) = Some s" and "mrun (simqueue_step n) fs s = Some s'"
    and "\<forall>e \<in> set fs. qs_tid e = t \<longrightarrow> e = QStep t"
  shows "count_list fs (QStep t) \<le> 768 * TVEC_CELLS n + 44 \<and>
    (\<not> q_idle (q_pc s' t) \<longrightarrow> (\<exists>s''. simqueue_step n (QStep t) s' = Some s''))"
proof -
  have inv: "\<forall>t. qpc_ok (bits_in n) (q_pc s t)" using squeuem.good_run [OF _ assms(1)] simqueue_init_ok by blast
  then have "\<forall>t. qpc_ok (bits_in n) (q_pc s' t)" using squeuem.good_run [OF _ assms(2)] by blast
  then have "\<not> q_idle (q_pc s' t) \<longrightarrow> (\<exists>s''. simqueue_step n (QStep t) s' = Some s'')" using simqueue_enabled by blast
  moreover have "qpc_left (bits_in n) (q_pc s t) \<le> 12 * bits_in n + 44" using inv qpc_left_bound by blast
  ultimately show ?thesis using squeue.own_steps_bounded [OF assms(2,3)] by (simp add: bits_in_def)
qed

lemma simqueue_wait_free_witness:
  "\<exists>s s' s''. mrun (simqueue_step 2) [QCall 0 7] (simqueue_init 2) = Some s \<and>
    mrun (simqueue_step 2) [QStep 0] s = Some s' \<and> simqueue_step 2 (QStep 0) s' = Some s''"
proof -
  obtain s where s: "mrun (simqueue_step 2) [QCall 0 7] (simqueue_init 2) = Some s" "q_pc s 0 = QAnnounce"
    by (simp add: simqueue_init_def Let_def)
  obtain s' where s': "mrun (simqueue_step 2) [QStep 0] s = Some s'" "q_pc s' 0 = QToggle"
    using s by (simp add: q_run_def Let_def)
  have "\<not> q_idle (q_pc s' 0)" using s' by simp
  then show ?thesis using simqueue_wait_free [OF s(1) s'(1), of 0] s(1) s'(1) by auto
qed

section \<open>What a dequeue returns\<close>

definition deq_ok :: "nat \<Rightarrow> qnode sim \<Rightarrow> bool" where
  "deq_ok n d \<longleftrightarrow> (\<exists>c. toggling_inv n (s_tg d) c) \<and> sp_ok n d \<and> (\<forall>i. tvec_ok n (h_applied (s_pool d i)))"

fun dpc_ok :: "nat \<Rightarrow> qpc \<Rightarrow> bool" where
  "dpc_ok n (DValid j osp lt) = tvec_ok n lt"
| "dpc_ok n (DApply j osp lt ps) = tvec_ok n lt"
| "dpc_ok n (DConn j osp lt ps) = tvec_ok n lt"
| "dpc_ok n (DConnCopy j osp lt ps i) = tvec_ok n lt"
| "dpc_ok n (DConnCopyB j osp lt ps i a) = tvec_ok n lt"
| "dpc_ok n (DConnCas j osp lt ps a l) = tvec_ok n lt"
| "dpc_ok n (DAgain j osp lt ps) = tvec_ok n lt"
| "dpc_ok n _ = True"

definition deq_inv :: "nat \<Rightarrow> simqueue \<Rightarrow> bool" where
  "deq_inv n s \<longleftrightarrow> deq_ok n (q_deq s) \<and> (\<forall>t. dpc_ok n (q_pc s t) \<and> (\<not> q_idle (q_pc s t) \<longrightarrow> t < n))"

lemma deq_simps [simp]:
  "q_deq (qgo t p s) = q_deq s" "q_deq (set_enq e s) = q_deq s" "q_deq (set_deq d s) = d" "q_deq (link_nodes l m s) = q_deq s"
  "q_deq (snd (new_node t v s)) = q_deq s" "q_deq (rollback_nodes t k s) = q_deq s"
  by (simp_all add: qgo_def set_enq_def set_deq_def link_nodes_def new_node_def rollback_nodes_def Let_def split: prod.splits)

lemma deq_inv_go:
  assumes "deq_inv n s" and "deq_ok n (q_deq s')" and "q_pc s' = (q_pc s)(t := p)" and "dpc_ok n p" and "q_idle p \<or> t < n"
  shows "deq_inv n s'"
  using assms by (auto simp: deq_inv_def)

lemma deq_ok_lsp: "deq_ok n d \<Longrightarrow> tvec_ok n (h_applied h) \<Longrightarrow> deq_ok n (set_lsp t h d)"
  by (auto simp: deq_ok_def sp_ok_def)

lemma enqueue_deq:
  assumes inv: "deq_inv n s" and run: "simqueue_enqueue n (q_pc s t) t s = Some s'" and t: "t < n"
  shows "deq_inv n s'"
proof -
  have ok: "deq_ok n (q_deq s)" using inv by (simp add: deq_inv_def)
  show ?thesis
  proof (cases "q_pc s t")
    case (QApply j osp lt k l nd ps)
    then show ?thesis using run t ok
      by (cases ps) (auto simp: Let_def new_node_def intro!: deq_inv_go [OF inv])
  qed (use run t ok in \<open>auto simp: Let_def new_node_def intro!: deq_inv_go [OF inv] split: if_splits\<close>)
qed

lemma connect_deq:
  assumes inv: "deq_inv n s" and run: "connectQueue (q_pc s t) t s = Some s'" and t: "t < n"
  shows "deq_inv n s'"
proof -
  have ok: "deq_ok n (q_deq s)" "dpc_ok n (q_pc s t)" using inv by (simp_all add: deq_inv_def)
  then show ?thesis using run t by (cases "q_pc s t") (auto intro!: deq_inv_go [OF inv])
qed

lemma copy_bank_ok: "tvec_ok n tv \<Longrightarrow> tvec_ok n (TVEC_ATOMIC_COPY_BANKS tv tv' b)"
  by (simp add: TVEC_ATOMIC_COPY_BANKS_def)

lemma dequeue_deq:
  assumes inv: "deq_inv n s" and run: "simqueue_dequeue n (q_pc s t) t s = Some s'" and t: "t < n"
  shows "deq_inv n s'"
proof -
  have ok: "deq_ok n (q_deq s)" and pc: "dpc_ok n (q_pc s t)" using inv by (simp_all add: deq_inv_def)
  have pool: "tvec_ok n (h_applied (s_pool (q_deq s) i))" "tvec_ok n (h_applied (lsp t (q_deq s)))" for i
    using ok by (simp_all add: deq_ok_def lsp_def)
  show ?thesis
  proof (cases "q_pc s t")
    case DToggle
    obtain c where "toggling_inv n (s_tg (q_deq s)) c" using ok by (auto simp: deq_ok_def)
    then have "\<exists>c. toggling_inv n (announce_toggle n t (s_tg (q_deq s))) c" using toggling_step t by blast
    then have "deq_ok n ((q_deq s)\<lparr>s_tg := announce_toggle n t (s_tg (q_deq s))\<rparr>)"
      using ok by (simp add: deq_ok_def sp_ok_def)
    then show ?thesis using run DToggle t by (auto simp: Let_def intro!: deq_inv_go [OF inv])
  next
    case (DToggles j osp)
    have "tvec_ok n (a_toggles (s_tg (q_deq s)))" using ok toggling_tvec by (auto simp: deq_ok_def)
    then show ?thesis using run DToggles t ok by (auto intro!: deq_inv_go [OF inv])
  next
    case (DApply j osp lt ps)
    then show ?thesis using run t ok pc pool deq_ok_lsp
      by (cases ps) (auto simp: Let_def intro!: deq_inv_go [OF inv] split: option.splits)
  next
    case (DAgain j osp lt ps)
    then show ?thesis using run t ok pc pool deq_ok_lsp
      by (cases ps) (auto simp: Let_def intro!: deq_inv_go [OF inv] split: option.splits)
  next
    case (DCas j osp)
    let ?d = "(q_deq s)\<lparr>s_sp := (LOCAL_POOL_SIZE * t + s_local (q_deq s) t, snd osp + 1),
                s_local := (s_local (q_deq s))(t := (s_local (q_deq s) t + 1) mod LOCAL_POOL_SIZE)\<rparr>"
    have "sp_ok n ?d" by (rule sp_ok_cas) (use ok t in \<open>simp_all add: deq_ok_def\<close>)
    then have "deq_ok n ?d" using ok by (simp add: deq_ok_def)
    then show ?thesis using run DCas t ok by (auto simp: Let_def intro!: deq_inv_go [OF inv] split: if_splits)
  qed (use run t ok pc pool deq_ok_lsp copy_bank_ok in
      \<open>auto simp: Let_def intro!: deq_inv_go [OF inv] split: if_splits\<close>)
qed

interpretation sdeq: machine "simqueue_step n" "deq_inv n" for n
proof unfold_locales
  fix s e s'
  assume inv: "deq_inv n s" and run: "simqueue_step n e s = Some s'"
  have ok: "deq_ok n (q_deq s)" using inv by (simp add: deq_inv_def)
  show "deq_inv n s'"
  proof (cases e)
    case (QStep t)
    then have q: "q_run n t s = Some s'" using run by simp
    then have "\<not> q_idle (q_pc s t)" by (cases "q_pc s t") (simp_all add: q_run_def)
    then have "t < n" using inv by (simp add: deq_inv_def)
    then show ?thesis using q enqueue_deq [OF inv] connect_deq [OF inv] dequeue_deq [OF inv]
      by (auto simp: q_run_def split: option.splits)
  qed (use run ok in \<open>auto simp: Let_def intro!: deq_inv_go [OF inv] split: if_splits\<close>)
qed

lemma simqueue_init_deq: "deq_inv n (simqueue_init n)"
  using toggling_init_inv
  by (auto simp: deq_inv_def deq_ok_def simqueue_init_def sp_ok_def LOCAL_POOL_SIZE_def TVEC_SET_ZERO_def)

lemma sim_applied_pending:
  assumes tg: "toggling_inv n tg c" and ok: "tvec_ok n m" and t: "t < n"
  shows "sim_applied n t (TVEC_ATOMIC_COPY_BANKS m ap (TVEC_GET_BANK_OF_BIT n t)) tg \<longleftrightarrow>
    t \<notin> tvec_set n (TVEC_XOR n ap (a_toggles tg))"
proof -
  have r: "t < 64 * TVEC_CELLS n" using t by (rule thread_in_range)
  note b = bank_less [OF r]
  have z: "tvec_ok n (TVEC_SET_ZERO n)" by (simp add: TVEC_SET_ZERO_def)
  let ?copy = "TVEC_ATOMIC_COPY_BANKS m ap (TVEC_GET_BANK_OF_BIT n t)" and ?mask = "TVEC_SET_BIT n (TVEC_SET_ZERO n) t"
  have c: "tv_cell ?copy ! (t div 64) = tv_cell ap ! (t div 64)"
    unfolding bit_arith(3) [OF r] TVEC_ATOMIC_COPY_BANKS_def using cell_set_bank [OF ok b] by simp
  have mask: "bit (tv_cell ?mask ! (t div 64)) (t mod 64)"
    unfolding bit_arith(2) [OF r] cell_set_bank [OF z b] by (simp add: bit_or_iff bit_exp_at)
  have "TVEC_IS_SET n (TVEC_AND_BANKS (TVEC_SET_ZERO n) ?copy ?mask (TVEC_GET_BANK_OF_BIT n t)) t \<longleftrightarrow>
      bit (tv_cell ap ! (t div 64)) (t mod 64)"
    unfolding is_set_bit [OF r] TVEC_AND_BANKS_def bit_arith(3) [OF r] cell_set_bank [OF z b]
    using c mask by (simp add: bit_and_iff bit_arith(3) [OF r])
  then have "sim_applied n t ?copy tg \<longleftrightarrow>
      bit (tv_cell ap ! (t div 64)) (t mod 64) \<noteq> bit (tv_cell (g_my_bit tg t) ! (t div 64)) (t mod 64)"
    unfolding sim_applied_def Let_def is_set_vec(4) [OF r] by (simp only: is_set_bit [OF r])
  also have "\<dots> \<longleftrightarrow> bit (tv_cell ap ! (t div 64)) (t mod 64) = bit (tv_cell (a_toggles tg) ! (t div 64)) (t mod 64)"
    using tg t by (auto simp: toggling_inv_def)
  also have "\<dots> \<longleftrightarrow> t \<notin> tvec_set n (TVEC_XOR n ap (a_toggles tg))"
    using r by (simp only: tvec_set_def mem_Collect_eq is_set_vec(4) [OF r]) (simp add: is_set_bit [OF r])
  finally show ?thesis .
qed

lemma q_norm:
  "qgo t p (qgo t q s) = qgo t p s" "set_deq d (qgo t p s) = qgo t p (set_deq d s)" "set_deq d (set_deq d' s) = set_deq d s"
  "q_next (qgo t p s) = q_next s" "q_obj (qgo t p s) = q_obj s" "q_next (set_deq d s) = q_next s" "q_obj (set_deq d s) = q_obj s"
  "q_enq (qgo t p s) = q_enq s" "q_enq (set_deq d s) = q_enq s" "q_obj (link_nodes a b s) = q_obj s"
  "link_nodes a b (qgo t p s) = qgo t p (link_nodes a b s)" "link_nodes a b (set_deq d s) = set_deq d (link_nodes a b s)"
  by (simp_all add: qgo_def set_deq_def link_nodes_def)

lemma replicate_two: "replicate 2 x = [x, x]"
  by (simp add: numeral_2_eq_2)

lemma active_single:
  assumes "tvec_set n tv = {t}"
  shows "active n tv = [t]"
proof -
  have "set (active n tv) = {t}" "distinct (active n tv)" using assms distinct_active by (simp_all add: set_active)
  then show ?thesis by (metis distinct_card card.empty card_insert_disjoint empty_iff finite.emptyI length_0_conv
        length_Suc_conv list.set(1) list.set_intros(1) singletonD)
qed

text \<open>The link of the last enqueue round, as \<open>connectQueue\<close> sets it when nobody has.\<close>

definition connected :: "simqueue \<Rightarrow> simqueue" where
  "connected s = link_nodes (link_a (h_state (current (q_enq s)))) (link_b (h_state (current (q_enq s)))) s"

text \<open>
  (C21) What a thread \<open>t > 0\<close> gets that has announced its dequeue and runs alone from there. When another
  thread has performed its operation already, \<open>dequeue\<close> ends in \<open>return;\<close>, without a value. When its own
  operation is the only pending one and the first node is linked, the value of this node is stored in
  \<open>ret[i]\<close> with the number \<open>i\<close> of its cell: the node leaves the queue, and the thread returns what was left
  in its slot by an older round. When its operation is the only pending one and no node is linked,
  \<open>connectQueue\<close> sets the link of the last enqueue round, the slot is the right one, and the thread returns
  the value of the node that is then the first, or -1 when there is none.
\<close>

theorem simqueue_dequeue_wrong_slot:
  assumes "mrun (simqueue_step n) es (simqueue_init n) = Some s" and "q_pc s t = DRead 0" and "0 < t"
  shows "(t \<notin> pending n (q_deq s) \<longrightarrow>
      (\<exists>s'. mrun (simqueue_step n) (replicate 2 (QStep t)) s = Some s' \<and> q_pc s' t = DDone None)) \<and>
    (pending n (q_deq s) = {t} \<and> q_next s (h_state (current (q_deq s))) = Some m \<longrightarrow>
      (\<exists>s'. mrun (simqueue_step n) (replicate 9 (QStep t)) s = Some s' \<and> h_state (current (q_deq s')) = m \<and>
        h_ret (current (q_deq s')) (t div 64) = q_obj s m \<and>
        q_pc s' t = DDone (Some (h_ret (current (q_deq s)) t)))) \<and>
    (pending n (q_deq s) = {t} \<and> q_next s (h_state (current (q_deq s))) = None \<longrightarrow>
      (\<exists>s'. mrun (simqueue_step n) (replicate 14 (QStep t)) s = Some s' \<and>
        (case q_next (connected s) (h_state (current (q_deq s))) of
           Some k \<Rightarrow> h_state (current (q_deq s')) = k \<and> q_pc s' t = DDone (Some (q_obj s k))
         | None \<Rightarrow> h_state (current (q_deq s')) = h_state (current (q_deq s)) \<and> q_pc s' t = DDone (Some (-1)))))"
proof -
  have inv: "deq_inv n s" by (rule sdeq.good_run [OF simqueue_init_deq assms(1)])
  have "\<not> q_idle (q_pc s t)" using assms(2) by simp
  then have t: "t < n" and ok: "deq_ok n (q_deq s)" using inv by (auto simp: deq_inv_def)
  obtain c where tg: "toggling_inv n (s_tg (q_deq s)) c" using ok by (auto simp: deq_ok_def)
  have tv: "tvec_ok n (h_applied (lsp t (q_deq s)))" using ok by (simp add: deq_ok_def lsp_def)
  note app = sim_applied_pending [OF tg tv t, of "h_applied (s_pool (q_deq s) (fst (s_sp (q_deq s))))"]
  have p: "pending n (q_deq s) = tvec_set n (TVEC_XOR n (h_applied (s_pool (q_deq s) (fst (s_sp (q_deq s))))) (a_toggles (s_tg (q_deq s))))"
    by (simp add: pending_def current_def)
  have first: "\<exists>s'. mrun (simqueue_step n) (replicate 2 (QStep t)) s = Some s' \<and> q_pc s' t = DDone None"
    if "t \<notin> pending n (q_deq s)"
    using that app assms(2) p by (simp add: numeral_eq_Suc q_run_def Let_def qgo_def)
  have start: "mrun (simqueue_step n) (replicate 5 (QStep t)) s =
        Some (qgo t (DApply 0 (s_sp (q_deq s)) (a_toggles (s_tg (q_deq s))) [t]) (set_deq (set_lsp t (current (q_deq s)) (q_deq s)) s))"
    if one: "pending n (q_deq s) = {t}"
  proof -
    have na: "\<not> sim_applied n t (TVEC_ATOMIC_COPY_BANKS (h_applied (lsp t (q_deq s)))
        (h_applied (s_pool (q_deq s) (fst (s_sp (q_deq s))))) (TVEC_GET_BANK_OF_BIT n t)) (s_tg (q_deq s))"
      using app one p by simp
    have act: "active n (TVEC_XOR n (h_applied (s_pool (q_deq s) (fst (s_sp (q_deq s))))) (a_toggles (s_tg (q_deq s)))) = [t]"
      using one p active_single by simp
    have own: "own_slot t (q_deq s) \<noteq> fst (s_sp (q_deq s))" by (rule slot_not_current) (use ok t in \<open>simp_all add: deq_ok_def\<close>)
    show ?thesis
      using assms(2) na act own [symmetric] by (simp add: numeral_eq_Suc q_run_def Let_def q_norm set_lsp_set_lsp current_def)
  qed
  have finish: "\<exists>s'. mrun (simqueue_step n) (replicate 2 (QStep t)) (qgo t (DCompare 0 (s_sp (q_deq s))) (set_deq (set_lsp t h (q_deq s)) u)) = Some s' \<and>
      current (q_deq s') = h \<and> q_pc s' t = DDone (Some (h_ret h t))" for h u
    by (simp add: replicate_two q_run_def Let_def q_norm current_def own_slot_def mult.commute)
  have second: "\<exists>s'. mrun (simqueue_step n) (replicate 9 (QStep t)) s = Some s' \<and> h_state (current (q_deq s')) = m \<and>
        h_ret (current (q_deq s')) (t div 64) = q_obj s m \<and>
        q_pc s' t = DDone (Some (h_ret (current (q_deq s)) t))"
    if one: "pending n (q_deq s) = {t}" and nx: "q_next s (h_state (current (q_deq s))) = Some m"
  proof -
    have slot: "t div 64 \<noteq> t" using assms(3) by simp
    let ?d = "q_deq s"
    let ?h = "(current ?d)\<lparr>h_ret := (h_ret (current ?d))(t div 64 := q_obj s m), h_state := m, h_applied := a_toggles (s_tg ?d)\<rparr>"
    have "mrun (simqueue_step n) (replicate 2 (QStep t))
          (qgo t (DApply 0 (s_sp ?d) (a_toggles (s_tg ?d)) [t]) (set_deq (set_lsp t (current ?d) ?d) s)) =
        Some (qgo t (DCompare 0 (s_sp ?d)) (set_deq (set_lsp t ?h ?d) s))"
      using nx by (simp add: replicate_two q_run_def Let_def q_norm set_lsp_set_lsp)
    moreover obtain s' where s': "mrun (simqueue_step n) (replicate 2 (QStep t)) (qgo t (DCompare 0 (s_sp ?d)) (set_deq (set_lsp t ?h ?d) s)) = Some s'"
      and "current (q_deq s') = ?h" and "q_pc s' t = DDone (Some (h_ret ?h t))"
      using finish by blast
    moreover have "replicate 9 (QStep t) = replicate 5 (QStep t) @ replicate 2 (QStep t) @ replicate 2 (QStep t)"
      by (simp add: numeral_eq_Suc)
    ultimately have "mrun (simqueue_step n) (replicate 9 (QStep t)) s = Some s'"
      using start [OF one] by (simp only: mrun_append option.case)
    then show ?thesis using \<open>current (q_deq s') = ?h\<close> \<open>q_pc s' t = DDone (Some (h_ret ?h t))\<close> slot by simp
  qed
  have third: "\<exists>s'. mrun (simqueue_step n) (replicate 14 (QStep t)) s = Some s' \<and>
        (case q_next (connected s) (h_state (current (q_deq s))) of
           Some k \<Rightarrow> h_state (current (q_deq s')) = k \<and> q_pc s' t = DDone (Some (q_obj s k))
         | None \<Rightarrow> h_state (current (q_deq s')) = h_state (current (q_deq s)) \<and> q_pc s' t = DDone (Some (-1)))"
    if one: "pending n (q_deq s) = {t}" and nx: "q_next s (h_state (current (q_deq s))) = None"
  proof -
    let ?d = "q_deq s" and ?nx = "q_next (connected s) (h_state (current (q_deq s)))"
    let ?v = "case ?nx of Some k \<Rightarrow> q_obj s k | None \<Rightarrow> -1" and ?k = "case ?nx of Some k \<Rightarrow> k | None \<Rightarrow> h_state (current ?d)"
    let ?h = "(current ?d)\<lparr>h_ret := (h_ret (current ?d))(t := ?v), h_state := ?k, h_applied := a_toggles (s_tg ?d)\<rparr>"
    have "mrun (simqueue_step n) (replicate 5 (QStep t))
          (qgo t (DApply 0 (s_sp ?d) (a_toggles (s_tg ?d)) [t]) (set_deq (set_lsp t (current ?d) ?d) s)) =
        Some (qgo t (DAgain 0 (s_sp ?d) (a_toggles (s_tg ?d)) [t]) (set_deq (set_lsp t (current ?d) ?d) (connected s)))"
      using nx by (simp add: numeral_eq_Suc q_run_def Let_def q_norm connected_def current_def)
    moreover have "mrun (simqueue_step n) (replicate 2 (QStep t))
          (qgo t (DAgain 0 (s_sp ?d) (a_toggles (s_tg ?d)) [t]) (set_deq (set_lsp t (current ?d) ?d) (connected s))) =
        Some (qgo t (DCompare 0 (s_sp ?d)) (set_deq (set_lsp t ?h ?d) (connected s)))"
      by (cases ?nx) (simp_all add: replicate_two q_run_def Let_def q_norm set_lsp_set_lsp, simp_all add: connected_def q_norm)
    moreover obtain s' where s': "mrun (simqueue_step n) (replicate 2 (QStep t)) (qgo t (DCompare 0 (s_sp ?d)) (set_deq (set_lsp t ?h ?d) (connected s))) = Some s'"
      and h: "current (q_deq s') = ?h" and pc: "q_pc s' t = DDone (Some (h_ret ?h t))"
      using finish by blast
    moreover have "replicate 14 (QStep t) = replicate 5 (QStep t) @ replicate 5 (QStep t) @ replicate 2 (QStep t) @ replicate 2 (QStep t)"
      by (simp add: numeral_eq_Suc)
    ultimately have "mrun (simqueue_step n) (replicate 14 (QStep t)) s = Some s'"
      using start [OF one] by (simp only: mrun_append option.case)
    then show ?thesis using h pc by (cases ?nx) simp_all
  qed
  show ?thesis using first second third by blast
qed

text \<open>Thread 1 of two enqueues 5, then dequeues: the 5 goes to the slot of thread 0, and 0 is returned.\<close>

definition demo_simqueue :: "qsev list" where
  "demo_simqueue = QCall 1 5 # replicate 12 (QStep 1) @ [DCall 1, QStep 1]"

lemma demo_simqueue_run:
  "map_option (\<lambda>s. (q_pc s 1, active 2 (TVEC_XOR 2 (h_applied (current (q_deq s))) (a_toggles (s_tg (q_deq s)))),
       q_next s (h_state (current (q_deq s))), q_obj s (QNode 1 0 0), h_ret (current (q_deq s)) 1))
     (mrun (simqueue_step 2) demo_simqueue (simqueue_init 2)) = Some (DRead 0, [1], Some (QNode 1 0 0), 5, 0)"
  by code_simp

text \<open>Thread 0 has enqueued 5 but not linked it; thread 1 links and takes it.\<close>

definition demo_unlinked :: "qsev list" where
  "demo_unlinked = QCall 0 5 # replicate 11 (QStep 0) @ [DCall 1, QStep 1]"

lemma demo_unlinked_run:
  "map_option (\<lambda>s. (q_pc s 0, q_pc s 1, active 2 (TVEC_XOR 2 (h_applied (current (q_deq s))) (a_toggles (s_tg (q_deq s)))),
       q_next s (h_state (current (q_deq s))), q_next (connected s) (h_state (current (q_deq s))), q_obj s (QNode 0 0 0)))
     (mrun (simqueue_step 2) demo_unlinked (simqueue_init 2)) = Some (QLink, DRead 0, [1], None, Some (QNode 0 0 0), 5)"
  by code_simp

theorem simqueue_dequeue_wrong_slot_witness:
  "(\<exists>s s'. mrun (simqueue_step 2) demo_simqueue (simqueue_init 2) = Some s \<and> q_obj s (QNode 1 0 0) = 5 \<and>
    mrun (simqueue_step 2) (replicate 9 (QStep 1)) s = Some s' \<and> h_ret (current (q_deq s')) 0 = 5 \<and> q_pc s' 1 = DDone (Some 0)) \<and>
   (\<exists>s s'. mrun (simqueue_step 2) demo_unlinked (simqueue_init 2) = Some s \<and>
    mrun (simqueue_step 2) (replicate 14 (QStep 1)) s = Some s' \<and> q_pc s' 1 = DDone (Some 5))"
proof
  obtain s where s: "mrun (simqueue_step 2) demo_simqueue (simqueue_init 2) = Some s" "q_pc s 1 = DRead 0"
    "active 2 (TVEC_XOR 2 (h_applied (current (q_deq s))) (a_toggles (s_tg (q_deq s)))) = [1]"
    "q_next s (h_state (current (q_deq s))) = Some (QNode 1 0 0)" "q_obj s (QNode 1 0 0) = 5" "h_ret (current (q_deq s)) 1 = 0"
    using demo_simqueue_run by auto
  have "pending 2 (q_deq s) = {1}" using s(3) by (simp add: pending_def flip: set_active)
  then show "\<exists>s s'. mrun (simqueue_step 2) demo_simqueue (simqueue_init 2) = Some s \<and> q_obj s (QNode 1 0 0) = 5 \<and>
      mrun (simqueue_step 2) (replicate 9 (QStep 1)) s = Some s' \<and> h_ret (current (q_deq s')) 0 = 5 \<and> q_pc s' 1 = DDone (Some 0)"
    using simqueue_dequeue_wrong_slot [OF s(1,2), of "QNode 1 0 0"] s by auto
next
  obtain s where s: "mrun (simqueue_step 2) demo_unlinked (simqueue_init 2) = Some s" "q_pc s 1 = DRead 0"
    "active 2 (TVEC_XOR 2 (h_applied (current (q_deq s))) (a_toggles (s_tg (q_deq s)))) = [1]"
    "q_next s (h_state (current (q_deq s))) = None" "q_next (connected s) (h_state (current (q_deq s))) = Some (QNode 0 0 0)"
    "q_obj s (QNode 0 0 0) = 5"
    using demo_unlinked_run by auto
  have "pending 2 (q_deq s) = {1}" using s(3) by (simp add: pending_def flip: set_active)
  then show "\<exists>s s'. mrun (simqueue_step 2) demo_unlinked (simqueue_init 2) = Some s \<and>
      mrun (simqueue_step 2) (replicate 14 (QStep 1)) s = Some s' \<and> q_pc s' 1 = DDone (Some 5)"
    using simqueue_dequeue_wrong_slot [OF s(1,2), of Guard] s by auto
qed

end
