(* ===== verification/CcSynch.thy ===== *)
theory CcSynch
  imports Prelude
begin

text \<open>
  The combining lock of \<open>synch1.0.1/ccsynch.h\<close> (CC-Synch), one access to shared memory per step, for
  any sequential function \<open>sfunc\<close>, and the proof that it is linearizable when the uninitialised local
  variable \<open>counter\<close> starts below its bound; what happens when it does not is the last section.
\<close>

section \<open>The lock\<close>

text \<open>
  The program points of \<open>applyOp\<close>. The local variables are the value \<open>k\<close> of \<open>counter\<close>, \<open>cur\<close>, \<open>next_node\<close>,
  \<open>p\<close> and \<open>tmp_next\<close>, in this order where they occur. A node is a number: 0 is the node \<open>lock_init\<close>
  allocates, \<open>t + 1\<close> the one \<open>threadStateInit\<close> allocates for thread \<open>t\<close>.
\<close>

datatype ccpc =
    CcIdle
  | CcSwap int              \<comment> \<open>\<open>cur = SWAP(&l->Tail, next_node)\<close>\<close>
  | CcArg int nat nat       \<comment> \<open>\<open>cur->arg_ret = arg\<close>\<close>
  | CcLink int nat nat      \<comment> \<open>\<open>cur->next = next_node\<close>\<close>
  | CcSpin int nat          \<comment> \<open>\<open>while (cur->locked)\<close>\<close>
  | CcCheck int nat         \<comment> \<open>\<open>if (cur->completed)\<close>\<close>
  | CcTest int nat nat      \<comment> \<open>\<open>while (p->next != null && counter < CCSIM_HELP_BOUND)\<close>\<close>
  | CcNext int nat nat      \<comment> \<open>\<open>tmp_next = p->next\<close>\<close>
  | CcFunc int nat nat nat  \<comment> \<open>\<open>p->arg_ret = sfunc(p->arg_ret, p->pid)\<close>\<close>
  | CcCompl int nat nat nat \<comment> \<open>\<open>p->completed = true\<close>\<close>
  | CcUnlock int nat nat nat \<comment> \<open>\<open>p->locked = false; p = tmp_next\<close>\<close>
  | CcExit nat nat          \<comment> \<open>\<open>p->locked = false\<close> after the loop\<close>
  | CcRet nat               \<comment> \<open>\<open>return cur->arg_ret\<close>\<close>
  | CcDone i32

text \<open>
  The fields from \<open>cc_arg\<close> on are not the lock's: the parameter of each thread's call, the object
  \<open>sfunc\<close> works on, and three records of what happened, which no step reads: whose operation a node
  carries, the applications of \<open>sfunc\<close> in their order, and the calls that returned.
\<close>

record 'o ccsynch =
  cc_tail :: nat
  cc_next :: "nat \<Rightarrow> nat option"
  cc_arg_ret :: "nat \<Rightarrow> i32"
  cc_pid :: "nat \<Rightarrow> i32"
  cc_locked :: "nat \<Rightarrow> bool"
  cc_completed :: "nat \<Rightarrow> bool"
  cc_next_node :: "tid \<Rightarrow> nat"
  cc_pc :: "tid \<Rightarrow> ccpc"
  cc_arg :: "tid \<Rightarrow> i32"
  cc_object :: 'o
  cc_owner :: "nat \<Rightarrow> tid"
  cc_log :: "(tid \<times> i32 \<times> i32 \<times> i32) list"
  cc_hist :: "tid \<Rightarrow> (i32 \<times> i32) list"

definition CCSIM_HELP_BOUND :: "nat \<Rightarrow> int" where
  "CCSIM_HELP_BOUND n = 3 * int n"

text \<open>
  \<open>lock_init\<close> and \<open>threadStateInit\<close>. What they leave uninitialised, \<open>arg_ret\<close> and \<open>pid\<close> of every node, is
  a parameter; \<open>pid\<close> is never set.
\<close>

definition cc_lock_init :: "(nat \<Rightarrow> i32) \<Rightarrow> (nat \<Rightarrow> i32) \<Rightarrow> 'o \<Rightarrow> 'o ccsynch" where
  "cc_lock_init g i obj =
     \<lparr>cc_tail = 0, cc_next = (\<lambda>x. None), cc_arg_ret = g, cc_pid = i, cc_locked = (\<lambda>x. False), cc_completed = (\<lambda>x. False),
      cc_next_node = Suc, cc_pc = (\<lambda>t. CcIdle), cc_arg = (\<lambda>t. 0), cc_object = obj,
      cc_owner = (\<lambda>x. 0), cc_log = [], cc_hist = (\<lambda>t. [])\<rparr>"

definition ccgo :: "tid \<Rightarrow> ccpc \<Rightarrow> 'o ccsynch \<Rightarrow> 'o ccsynch" where
  "ccgo t p s = s\<lparr>cc_pc := (cc_pc s)(t := p)\<rparr>"

text \<open>The stores before the \<open>SWAP\<close>, to the node that only this thread knows.\<close>

definition cc_prepare :: "tid \<Rightarrow> 'o ccsynch \<Rightarrow> 'o ccsynch" where
  "cc_prepare t s =
     (let q = cc_next_node s t
      in s\<lparr>cc_next := (cc_next s)(q := None), cc_locked := (cc_locked s)(q := True), cc_completed := (cc_completed s)(q := False)\<rparr>)"

fun cc_applyOp :: "(i32 \<Rightarrow> i32 \<Rightarrow> 'o \<Rightarrow> i32 \<times> 'o) \<Rightarrow> nat \<Rightarrow> ccpc \<Rightarrow> tid \<Rightarrow> 'o ccsynch \<Rightarrow> 'o ccsynch option" where
  "cc_applyOp sfunc n (CcSwap k) t s =
     Some (ccgo t (CcArg k (cc_tail s) (cc_next_node s t)) (s\<lparr>cc_tail := cc_next_node s t\<rparr>))"
| "cc_applyOp sfunc n (CcArg k cur next_node) t s =
     Some (ccgo t (CcLink k cur next_node)
       (s\<lparr>cc_arg_ret := (cc_arg_ret s)(cur := cc_arg s t), cc_owner := (cc_owner s)(cur := t)\<rparr>))"
| "cc_applyOp sfunc n (CcLink k cur next_node) t s =
     Some (ccgo t (CcSpin k cur)
       (s\<lparr>cc_next := (cc_next s)(cur := Some next_node), cc_next_node := (cc_next_node s)(t := cur)\<rparr>))"
| "cc_applyOp sfunc n (CcSpin k cur) t s = Some (if cc_locked s cur then s else ccgo t (CcCheck k cur) s)"
| "cc_applyOp sfunc n (CcCheck k cur) t s =
     Some (ccgo t (if cc_completed s cur then CcRet cur else CcTest k cur cur) s)"
| "cc_applyOp sfunc n (CcTest k cur p) t s =
     Some (ccgo t (if cc_next s p \<noteq> None \<and> k < CCSIM_HELP_BOUND n then CcNext (k + 1) cur p else CcExit cur p) s)"
| "cc_applyOp sfunc n (CcNext k cur p) t s =
     (case cc_next s p of None \<Rightarrow> None | Some tmp_next \<Rightarrow> Some (ccgo t (CcFunc k cur p tmp_next) s))"
| "cc_applyOp sfunc n (CcFunc k cur p tmp_next) t s =
     (let (r, obj) = sfunc (cc_arg_ret s p) (cc_pid s p) (cc_object s)
      in Some (ccgo t (CcCompl k cur p tmp_next)
           (s\<lparr>cc_arg_ret := (cc_arg_ret s)(p := r), cc_object := obj,
              cc_log := cc_log s @ [(cc_owner s p, cc_arg_ret s p, cc_pid s p, r)]\<rparr>)))"
| "cc_applyOp sfunc n (CcCompl k cur p tmp_next) t s =
     Some (ccgo t (CcUnlock k cur p tmp_next) (s\<lparr>cc_completed := (cc_completed s)(p := True)\<rparr>))"
| "cc_applyOp sfunc n (CcUnlock k cur p tmp_next) t s =
     Some (ccgo t (CcTest k cur tmp_next) (s\<lparr>cc_locked := (cc_locked s)(p := False)\<rparr>))"
| "cc_applyOp sfunc n (CcExit cur p) t s = Some (ccgo t (CcRet cur) (s\<lparr>cc_locked := (cc_locked s)(p := False)\<rparr>))"
| "cc_applyOp sfunc n (CcRet cur) t s =
     Some (ccgo t (CcDone (cc_arg_ret s cur)) (s\<lparr>cc_hist := (cc_hist s)(t := cc_hist s t @ [(cc_arg s t, cc_arg_ret s cur)])\<rparr>))"
| "cc_applyOp sfunc n _ t s = None"

fun cc_idle :: "ccpc \<Rightarrow> bool" where
  "cc_idle CcIdle = True"
| "cc_idle (CcDone v) = True"
| "cc_idle _ = False"

text \<open>\<open>CcCall t arg k\<close> is a call by thread \<open>t\<close>; \<open>k\<close> is what the register of \<open>counter\<close> happens to hold.\<close>

datatype ccev = CcCall tid i32 int | CcRun tid

fun cc_step :: "(i32 \<Rightarrow> i32 \<Rightarrow> 'o \<Rightarrow> i32 \<times> 'o) \<Rightarrow> nat \<Rightarrow> ccev \<Rightarrow> 'o ccsynch \<Rightarrow> 'o ccsynch option" where
  "cc_step sfunc n (CcCall t arg k) s =
     (if cc_idle (cc_pc s t) \<and> t < n
      then Some (ccgo t (CcSwap k) ((cc_prepare t s)\<lparr>cc_arg := (cc_arg s)(t := arg)\<rparr>)) else None)"
| "cc_step sfunc n (CcRun t) s = cc_applyOp sfunc n (cc_pc s t) t s"

section \<open>The invariant\<close>

text \<open>
  \<open>ts\<close> are the threads whose operation waits to be applied, first come first. \<open>cc_chain s p ts\<close>: the first
  of them announces it in \<open>p\<close>, each other one in the node the one before it swapped in, and the last of
  these nodes is the tail.
\<close>

fun cc_cur :: "ccpc \<Rightarrow> nat" where
  "cc_cur (CcArg k c q) = c"
| "cc_cur (CcLink k c q) = c"
| "cc_cur (CcSpin k c) = c"
| "cc_cur (CcCheck k c) = c"
| "cc_cur (CcTest k c p) = c"
| "cc_cur (CcNext k c p) = c"
| "cc_cur (CcFunc k c p y) = c"
| "cc_cur _ = 0"

fun unlinked :: "ccpc \<Rightarrow> nat option" where
  "unlinked (CcArg k c q) = Some q"
| "unlinked (CcLink k c q) = Some q"
| "unlinked _ = None"

fun cc_chain :: "'o ccsynch \<Rightarrow> nat \<Rightarrow> tid list \<Rightarrow> bool" where
  "cc_chain s p [] \<longleftrightarrow> cc_tail s = p \<and> cc_next s p = None"
| "cc_chain s p (t # ts) \<longleftrightarrow> cc_cur (cc_pc s t) = p \<and>
     (case unlinked (cc_pc s t) of
        Some q \<Rightarrow> cc_next s p = None \<and> cc_chain s q ts
      | None \<Rightarrow> (case cc_next s p of Some q \<Rightarrow> cc_chain s q ts | None \<Rightarrow> False))"

definition cc_nodes :: "'o ccsynch \<Rightarrow> tid list \<Rightarrow> nat list" where
  "cc_nodes s ts = map (\<lambda>t. cc_cur (cc_pc s t)) ts @ [cc_tail s]"

text \<open>The combiner: the thread between \<open>CcTest\<close> and \<open>CcExit\<close>; the node it has just finished.\<close>

fun combining :: "ccpc \<Rightarrow> bool" where
  "combining (CcTest k c p) = True"
| "combining (CcNext k c p) = True"
| "combining (CcFunc k c p y) = True"
| "combining (CcCompl k c p y) = True"
| "combining (CcUnlock k c p y) = True"
| "combining (CcExit c p) = True"
| "combining _ = False"

fun finishing :: "ccpc \<Rightarrow> nat option" where
  "finishing (CcCompl k c p y) = Some p"
| "finishing (CcUnlock k c p y) = Some p"
| "finishing _ = None"

definition carries :: "'o ccsynch \<Rightarrow> tid \<Rightarrow> nat \<Rightarrow> bool" where
  "carries s t c \<longleftrightarrow> cc_arg_ret s c = cc_arg s t \<and> cc_owner s c = t"

definition cc_waits :: "'o ccsynch \<Rightarrow> tid list \<Rightarrow> nat \<Rightarrow> bool" where
  "cc_waits s ts x \<longleftrightarrow> (\<exists>u k. cc_pc s u = CcSpin k x \<and> u \<notin> set ts \<and> cc_locked s x)"

fun cc_ok :: "int \<Rightarrow> 'o ccsynch \<Rightarrow> nat \<Rightarrow> tid list \<Rightarrow> tid \<Rightarrow> ccpc \<Rightarrow> bool" where
  "cc_ok b s p ts t (CcSwap k) \<longleftrightarrow> t \<notin> set ts \<and> k < b \<and> cc_locked s (cc_next_node s t) \<and>
     \<not> cc_completed s (cc_next_node s t) \<and> cc_next s (cc_next_node s t) = None"
| "cc_ok b s p ts t (CcArg k c q) \<longleftrightarrow> t \<in> set ts \<and> k < b"
| "cc_ok b s p ts t (CcLink k c q) \<longleftrightarrow> t \<in> set ts \<and> k < b \<and> carries s t c"
| "cc_ok b s p ts t (CcSpin k c) \<longleftrightarrow> k < b \<and> cc_next_node s t = c \<and> (t \<in> set ts \<longrightarrow> carries s t c) \<and>
     (t \<notin> set ts \<longrightarrow> (if cc_locked s c then \<exists>d. finishing (cc_pc s d) = Some c else cc_completed s c))"
| "cc_ok b s p ts t (CcCheck k c) \<longleftrightarrow> k < b \<and> cc_next_node s t = c \<and> \<not> cc_locked s c \<and>
     (t \<in> set ts \<longrightarrow> carries s t c \<and> c = p \<and> (\<forall>d. \<not> combining (cc_pc s d))) \<and> (t \<notin> set ts \<longrightarrow> cc_completed s c)"
| "cc_ok b s p ts t (CcTest k c x) \<longleftrightarrow> cc_next_node s t = c \<and> x = p \<and>
     (if c = p then t \<in> set ts \<and> k < b \<and> carries s t c else t \<notin> set ts)"
| "cc_ok b s p ts t (CcNext k c x) \<longleftrightarrow> cc_next_node s t = c \<and> x = p \<and> cc_next s p \<noteq> None \<and>
     (if c = p then t \<in> set ts \<and> carries s t c else t \<notin> set ts)"
| "cc_ok b s p ts t (CcFunc k c x y) \<longleftrightarrow> cc_next_node s t = c \<and> x = p \<and> cc_next s p = Some y \<and>
     (if c = p then t \<in> set ts \<and> carries s t c else t \<notin> set ts)"
| "cc_ok b s p ts t (CcCompl k c x y) \<longleftrightarrow> t \<notin> set ts \<and> cc_next_node s t = c \<and> y = p \<and> x \<notin> set (cc_nodes s ts) \<and>
     (x \<noteq> c \<longrightarrow> cc_waits s ts x)"
| "cc_ok b s p ts t (CcUnlock k c x y) \<longleftrightarrow> t \<notin> set ts \<and> cc_next_node s t = c \<and> y = p \<and> x \<notin> set (cc_nodes s ts) \<and>
     cc_completed s x \<and> (x \<noteq> c \<longrightarrow> cc_waits s ts x)"
| "cc_ok b s p ts t (CcExit c x) \<longleftrightarrow> t \<notin> set ts \<and> cc_next_node s t = c \<and> x = p"
| "cc_ok b s p ts t (CcRet c) \<longleftrightarrow> t \<notin> set ts \<and> cc_next_node s t = c"
| "cc_ok b s p ts t _ \<longleftrightarrow> t \<notin> set ts"

text \<open>The head is locked exactly while a combiner has done its own operation and not yet left.\<close>

fun leading :: "nat \<Rightarrow> ccpc \<Rightarrow> bool" where
  "leading p (CcTest k c x) = (c \<noteq> p)"
| "leading p (CcNext k c x) = (c \<noteq> p)"
| "leading p (CcFunc k c x y) = (c \<noteq> p)"
| "leading p (CcCompl k c x y) = True"
| "leading p (CcUnlock k c x y) = True"
| "leading p (CcExit c x) = True"
| "leading p _ = False"

definition cc_shape :: "int \<Rightarrow> 'o ccsynch \<Rightarrow> nat \<Rightarrow> tid list \<Rightarrow> bool" where
  "cc_shape b s p ts \<longleftrightarrow> cc_chain s p ts \<and> distinct ts \<and> distinct (cc_nodes s ts) \<and>
     (\<forall>x \<in> set (cc_nodes s ts). \<not> cc_completed s x \<and> (x \<noteq> p \<longrightarrow> cc_locked s x)) \<and>
     (cc_locked s p \<longleftrightarrow> (\<exists>d. leading p (cc_pc s d))) \<and>
     (\<forall>t. t \<notin> set ts \<longrightarrow> cc_next_node s t \<notin> set (cc_nodes s ts)) \<and> inj_on (cc_next_node s) (- set ts) \<and>
     (\<forall>c d. combining (cc_pc s c) \<and> combining (cc_pc s d) \<longrightarrow> c = d) \<and>
     (\<forall>t. cc_ok b s p ts t (cc_pc s t))"

lemma ccgo_simps [simp]:
  "cc_tail (ccgo t p s) = cc_tail s" "cc_next (ccgo t p s) = cc_next s" "cc_arg_ret (ccgo t p s) = cc_arg_ret s"
  "cc_pid (ccgo t p s) = cc_pid s" "cc_locked (ccgo t p s) = cc_locked s" "cc_completed (ccgo t p s) = cc_completed s"
  "cc_next_node (ccgo t p s) = cc_next_node s" "cc_pc (ccgo t p s) = (cc_pc s)(t := p)" "cc_arg (ccgo t p s) = cc_arg s"
  "cc_object (ccgo t p s) = cc_object s" "cc_owner (ccgo t p s) = cc_owner s" "cc_log (ccgo t p s) = cc_log s"
  "cc_hist (ccgo t p s) = cc_hist s"
  by (simp_all add: ccgo_def)

lemma cc_chain_cong:
  assumes "cc_tail s' = cc_tail s" and "\<forall>t \<in> set ts. cc_cur (cc_pc s' t) = cc_cur (cc_pc s t) \<and> unlinked (cc_pc s' t) = unlinked (cc_pc s t)"
    and "\<forall>x \<in> set (cc_nodes s ts). cc_next s' x = cc_next s x"
  shows "cc_chain s p ts \<Longrightarrow> cc_chain s' p ts"
  using assms
proof (induction ts arbitrary: p)
  case (Cons t ts)
  then show ?case by (auto simp: cc_nodes_def split: option.splits)
qed (auto simp: cc_nodes_def)

lemma cc_chain_head: "cc_chain s p ts \<Longrightarrow> hd (cc_nodes s ts) = p"
  by (cases ts) (auto simp: cc_nodes_def)

lemma cc_chain_snoc:
  assumes "cc_chain s p ts" and "t \<notin> set ts" and "q \<notin> set (cc_nodes s ts)" and "cc_next s q = None"
  shows "cc_chain (ccgo t (CcArg k (cc_tail s) q) (s\<lparr>cc_tail := q\<rparr>)) p (ts @ [t])"
  using assms
proof (induction ts arbitrary: p)
  case (Cons u ts)
  then show ?case by (auto simp: cc_nodes_def split: option.splits)
qed (simp add: cc_nodes_def)

text \<open>What the shape says of nodes and threads.\<close>

lemma shape_head:
  assumes "cc_shape b s p ts"
  shows "p \<in> set (cc_nodes s ts)"
proof -
  have "hd (cc_nodes s ts) = p" using assms cc_chain_head by (auto simp: cc_shape_def)
  moreover have "cc_nodes s ts \<noteq> []" by (simp add: cc_nodes_def)
  ultimately show ?thesis using hd_in_set by blast
qed

lemma shape_cur: "t \<in> set ts \<Longrightarrow> cc_cur (cc_pc s t) \<in> set (cc_nodes s ts)"
  by (simp add: cc_nodes_def)

lemma shape_cur_inj:
  assumes "cc_shape b s p ts" and "t \<in> set ts" and "u \<in> set ts" and "cc_cur (cc_pc s t) = cc_cur (cc_pc s u)"
  shows "t = u"
  using assms by (auto simp: cc_shape_def cc_nodes_def distinct_map dest: inj_onD)

lemma shape_first:
  assumes "cc_shape b s p ts" and "t \<in> set ts" and "cc_cur (cc_pc s t) = p"
  shows "\<exists>us. ts = t # us"
proof (cases ts)
  case (Cons u us)
  then have "cc_cur (cc_pc s u) = p" using assms(1) by (simp add: cc_shape_def)
  then have "t = u" using shape_cur_inj [OF assms(1,2), of u] assms(3) Cons by simp
  then show ?thesis using Cons by blast
qed (use assms(2) in simp)

lemma shape_free:
  assumes "cc_shape b s p ts" and "t \<notin> set ts"
  shows "cc_next_node s t \<notin> set (cc_nodes s ts)" and "u \<notin> set ts \<Longrightarrow> u \<noteq> t \<Longrightarrow> cc_next_node s u \<noteq> cc_next_node s t"
  using assms by (auto simp: cc_shape_def dest: inj_onD)

lemma shape_ok: "cc_shape b s p ts \<Longrightarrow> cc_ok b s p ts t (cc_pc s t)"
  by (simp add: cc_shape_def)

lemma finishing_node:
  assumes "cc_shape b s p ts" and "finishing (cc_pc s d) = Some x"
  shows "x \<notin> set (cc_nodes s ts) \<and> (\<exists>v. v \<notin> set ts \<and> cc_next_node s v = x \<and> (v = d \<or> (\<exists>k. cc_pc s v = CcSpin k x)))"
proof -
  have ok: "cc_ok b s p ts d (cc_pc s d)" using assms(1) by (rule shape_ok)
  have w: "\<exists>v. v \<notin> set ts \<and> cc_next_node s v = x \<and> (\<exists>k. cc_pc s v = CcSpin k x)" if "cc_waits s ts x"
  proof -
    obtain v k where "cc_pc s v = CcSpin k x" "v \<notin> set ts" using \<open>cc_waits s ts x\<close> by (auto simp: cc_waits_def)
    then show ?thesis using shape_ok [OF assms(1), of v] by auto
  qed
  show ?thesis using assms(2) ok w by (cases "cc_pc s d") auto
qed

lemma shape_combiner:
  "cc_shape b s p ts \<Longrightarrow> combining (cc_pc s c) \<Longrightarrow> combining (cc_pc s d) \<Longrightarrow> c = d"
  by (auto simp: cc_shape_def)

lemma finishing_combining: "finishing q = Some x \<Longrightarrow> combining q"
  by (cases q) auto

lemma leading_combining: "leading p q \<Longrightarrow> combining q"
  by (cases q) auto

section \<open>Every step keeps the shape\<close>

text \<open>A thread that only moves on; the shape is one of its own facts and of those of the others.\<close>

lemma cc_shapeI:
  assumes "cc_chain s p ts" and "distinct ts" and "distinct (cc_nodes s ts)"
    and "\<And>x. x \<in> set (cc_nodes s ts) \<Longrightarrow> \<not> cc_completed s x" and "\<And>x. x \<in> set (cc_nodes s ts) \<Longrightarrow> x \<noteq> p \<Longrightarrow> cc_locked s x"
    and "cc_locked s p \<longleftrightarrow> (\<exists>d. leading p (cc_pc s d))"
    and "\<And>t. t \<notin> set ts \<Longrightarrow> cc_next_node s t \<notin> set (cc_nodes s ts)" and "inj_on (cc_next_node s) (- set ts)"
    and "\<And>c d. combining (cc_pc s c) \<Longrightarrow> combining (cc_pc s d) \<Longrightarrow> c = d"
    and "\<And>t. cc_ok b s p ts t (cc_pc s t)"
  shows "cc_shape b s p ts"
  using assms unfolding cc_shape_def by blast

lemma cc_ok_other:
  assumes ok: "cc_ok b s p ts u (cc_pc s u)" and mem: "u \<in> set ts' \<longleftrightarrow> u \<in> set ts"
    and nn: "cc_next_node s' u = cc_next_node s u"
    and carr: "u \<in> set ts \<Longrightarrow> carries s u (cc_cur (cc_pc s u)) \<Longrightarrow> carries s' u (cc_cur (cc_pc s u))"
    and swap: "\<And>k. cc_pc s u = CcSwap k \<Longrightarrow> cc_locked s' (cc_next_node s u) = cc_locked s (cc_next_node s u) \<and>
      cc_completed s' (cc_next_node s u) = cc_completed s (cc_next_node s u) \<and> cc_next s' (cc_next_node s u) = cc_next s (cc_next_node s u)"
    and spin: "\<And>k c. cc_pc s u = CcSpin k c \<Longrightarrow> u \<notin> set ts \<Longrightarrow>
      (if cc_locked s c then \<exists>d. finishing (cc_pc s d) = Some c else cc_completed s c) \<Longrightarrow>
      (if cc_locked s' c then \<exists>d. finishing (cc_pc s' d) = Some c else cc_completed s' c)"
    and check: "\<And>k c. cc_pc s u = CcCheck k c \<Longrightarrow> \<not> cc_locked s c \<Longrightarrow> \<not> cc_locked s' c \<and>
      (u \<in> set ts \<longrightarrow> c = p \<longrightarrow> (\<forall>d. \<not> combining (cc_pc s d)) \<longrightarrow> c = p' \<and> (\<forall>d. \<not> combining (cc_pc s' d))) \<and>
      (u \<notin> set ts \<longrightarrow> cc_completed s c \<longrightarrow> cc_completed s' c)"
    and comb: "combining (cc_pc s u) \<Longrightarrow> cc_ok b s' p' ts' u (cc_pc s u)"
  shows "cc_ok b s' p' ts' u (cc_pc s u)"
  using assms by (cases "cc_pc s u") (auto split: if_splits)

text \<open>A combiner is not disturbed by a step of another thread that leaves its nodes alone.\<close>

lemma combiner_ok:
  assumes ok: "cc_ok b s p ts u (cc_pc s u)" and c: "combining (cc_pc s u)" and mem: "u \<in> set ts' \<longleftrightarrow> u \<in> set ts"
    and nn: "cc_next_node s' u = cc_next_node s u"
    and carr: "u \<in> set ts \<Longrightarrow> carries s u (cc_cur (cc_pc s u)) \<Longrightarrow> carries s' u (cc_cur (cc_pc s u))"
    and nx: "\<And>y. cc_next s p = Some y \<Longrightarrow> cc_next s' p = Some y"
    and fin: "\<And>x. finishing (cc_pc s u) = Some x \<Longrightarrow> x \<notin> set (cc_nodes s' ts') \<and> (cc_completed s x \<longrightarrow> cc_completed s' x) \<and>
      (cc_waits s ts x \<longrightarrow> cc_waits s' ts' x)"
  shows "cc_ok b s' p ts' u (cc_pc s u)"
  using assms by (cases "cc_pc s u") (auto split: if_splits)

text \<open>\<open>u\<close> is not \<open>t\<close>, and \<open>t\<close> is neither spinning nor finishing a node: its private node is not being finished.\<close>

lemma finishing_not_own:
  assumes inv: "cc_shape b s p ts" and t: "t \<notin> set ts" and pc: "\<forall>k c. cc_pc s t \<noteq> CcSpin k c" "finishing (cc_pc s t) = None"
    and fd: "finishing (cc_pc s d) = Some x"
  shows "x \<noteq> cc_next_node s t"
proof -
  obtain v where v: "v \<notin> set ts" "cc_next_node s v = x" "v = d \<or> (\<exists>k. cc_pc s v = CcSpin k x)"
    using finishing_node [OF inv fd] by blast
  then have "v \<noteq> t" using pc fd by auto
  then show ?thesis using shape_free(2) [OF inv t v(1)] v(2) by blast
qed

lemma waits_keep:
  assumes "cc_waits s ts x" and "\<And>u k. cc_pc s u = CcSpin k x \<Longrightarrow> u \<notin> set ts \<Longrightarrow> cc_locked s x \<Longrightarrow> cc_pc s' u = CcSpin k x \<and> u \<notin> set ts'"
    and "cc_locked s x \<Longrightarrow> cc_locked s' x"
  shows "cc_waits s' ts' x"
  using assms unfolding cc_waits_def by blast

lemma shape_call:
  assumes inv: "cc_shape b s p ts" and idle: "cc_idle (cc_pc s t)" and k: "k < b"
    and f: "cc_pc s' = (cc_pc s)(t := CcSwap k)" "cc_tail s' = cc_tail s" "cc_next s' = (cc_next s)(cc_next_node s t := None)"
      "cc_arg_ret s' = cc_arg_ret s" "cc_locked s' = (cc_locked s)(cc_next_node s t := True)" "cc_owner s' = cc_owner s"
      "cc_completed s' = (cc_completed s)(cc_next_node s t := False)" "cc_next_node s' = cc_next_node s" "cc_arg s' = (cc_arg s)(t := arg)"
  shows "cc_shape b s' p ts"
proof -
  have t: "t \<notin> set ts" using shape_ok [OF inv, of t] idle by (cases "cc_pc s t") auto
  have pcs: "\<forall>k c. cc_pc s t \<noteq> CcSpin k c" "finishing (cc_pc s t) = None" "\<not> combining (cc_pc s t)" "\<not> leading p (cc_pc s t)"
    using idle by (cases "cc_pc s t"; simp)+
  let ?q = "cc_next_node s t"
  have q: "?q \<notin> set (cc_nodes s ts)" by (rule shape_free(1) [OF inv t])
  have nodes: "cc_nodes s' ts = cc_nodes s ts" using t by (simp add: cc_nodes_def f)
  have fin: "finishing (cc_pc s d) = Some x \<Longrightarrow> x \<noteq> ?q" for d x by (rule finishing_not_own [OF inv t pcs(1,2)])
  have wt: "cc_waits s' ts x" if "cc_waits s ts x" for x
    by (rule waits_keep [OF that]) (use pcs(1) in \<open>auto simp: f\<close>)
  have lead: "leading p (cc_pc s' d) = leading p (cc_pc s d)" "combining (cc_pc s' d) = combining (cc_pc s d)"
    "finishing (cc_pc s' d) = finishing (cc_pc s d)" for d
    using pcs by (auto simp: f)
  have pq: "p \<noteq> ?q" using shape_head [OF inv] q by metis
  show ?thesis
  proof (rule cc_shapeI)
    show "cc_chain s' p ts" by (rule cc_chain_cong [of _ s]) (use inv q t in \<open>auto simp: cc_shape_def f\<close>)
  next
    fix u
    show "cc_ok b s' p ts u (cc_pc s' u)"
    proof (cases "u = t")
      case False
      have ok: "cc_ok b s p ts u (cc_pc s u)" by (rule shape_ok [OF inv])
      have own: "u \<notin> set ts \<Longrightarrow> cc_next_node s u \<noteq> ?q" using shape_free(2) [OF inv t] False by blast
      have cur: "u \<in> set ts \<Longrightarrow> cc_cur (cc_pc s u) \<noteq> ?q" using shape_cur q by metis
      have spin: "c \<noteq> ?q" if "cc_pc s u = CcSpin k c \<or> cc_pc s u = CcCheck k c" for k c
        using that ok own cur by (cases "u \<in> set ts") auto
      have sw: "cc_next_node s u \<noteq> ?q" if "cc_pc s u = CcSwap k" for k
        using that ok own by simp
      have comb: "cc_ok b s' p ts u (cc_pc s u)" if cu: "combining (cc_pc s u)"
      proof (rule combiner_ok [OF ok cu])
        show "x \<notin> set (cc_nodes s' ts) \<and> (cc_completed s x \<longrightarrow> cc_completed s' x) \<and> (cc_waits s ts x \<longrightarrow> cc_waits s' ts x)"
          if fx: "finishing (cc_pc s u) = Some x" for x
          using finishing_node [OF inv fx] fin [OF fx] wt [of x] by (auto simp: nodes f)
      qed (use False pq in \<open>auto simp: f carries_def\<close>)
      have "cc_ok b s' p ts u (cc_pc s u)"
        by (rule cc_ok_other [OF ok _ _ _ _ _ _ comb]) (use sw spin False lead(2,3) in \<open>auto simp: f carries_def split: if_splits\<close>)
      then show ?thesis using False by (simp add: f)
    qed (use t k in \<open>simp add: f\<close>)
  qed (use inv q t pq lead nodes in \<open>auto simp: cc_shape_def f\<close>)
qed

lemma shape_swap:
  assumes inv: "cc_shape b s p ts" and pc: "cc_pc s t = CcSwap k"
    and f: "cc_pc s' = (cc_pc s)(t := CcArg k (cc_tail s) (cc_next_node s t))" "cc_tail s' = cc_next_node s t" "cc_next s' = cc_next s"
      "cc_arg_ret s' = cc_arg_ret s" "cc_locked s' = cc_locked s" "cc_owner s' = cc_owner s"
      "cc_completed s' = cc_completed s" "cc_next_node s' = cc_next_node s" "cc_arg s' = cc_arg s"
  shows "cc_shape b s' p (ts @ [t])"
proof -
  let ?q = "cc_next_node s t"
  have ok: "t \<notin> set ts" "k < b" "cc_locked s ?q" "\<not> cc_completed s ?q" "cc_next s ?q = None"
    using shape_ok [OF inv, of t] pc by auto
  note t = ok(1)
  have q: "?q \<notin> set (cc_nodes s ts)" by (rule shape_free(1) [OF inv t])
  have nodes: "cc_nodes s' (ts @ [t]) = cc_nodes s ts @ [?q]" using t by (simp add: cc_nodes_def f)
  have fin: "finishing (cc_pc s d) = Some x \<Longrightarrow> x \<noteq> ?q" for d x by (rule finishing_not_own [OF inv t]) (simp_all add: pc)
  have wt: "cc_waits s' (ts @ [t]) x" if "cc_waits s ts x" for x
    by (rule waits_keep [OF that]) (auto simp: f pc)
  have lead: "leading p (cc_pc s' d) = leading p (cc_pc s d)" "combining (cc_pc s' d) = combining (cc_pc s d)"
    "finishing (cc_pc s' d) = finishing (cc_pc s d)" for d
    using pc by (auto simp: f)
  have pq: "p \<noteq> ?q" using shape_head [OF inv] q by metis
  show ?thesis
  proof (rule cc_shapeI)
    have "cc_chain (ccgo t (CcArg k (cc_tail s) ?q) (s\<lparr>cc_tail := ?q\<rparr>)) p (ts @ [t])"
      by (rule cc_chain_snoc [OF _ t q ok(5)]) (use inv in \<open>simp add: cc_shape_def\<close>)
    then show "cc_chain s' p (ts @ [t])" by (rule cc_chain_cong [rotated 3]) (simp_all add: f)
  next
    fix u
    show "cc_ok b s' p (ts @ [t]) u (cc_pc s' u)"
    proof (cases "u = t")
      case False
      have ok: "cc_ok b s p ts u (cc_pc s u)" by (rule shape_ok [OF inv])
      have comb: "cc_ok b s' p (ts @ [t]) u (cc_pc s u)" if cu: "combining (cc_pc s u)"
      proof (rule combiner_ok [OF ok cu])
        show "x \<notin> set (cc_nodes s' (ts @ [t])) \<and> (cc_completed s x \<longrightarrow> cc_completed s' x) \<and> (cc_waits s ts x \<longrightarrow> cc_waits s' (ts @ [t]) x)"
          if fx: "finishing (cc_pc s u) = Some x" for x
          using finishing_node [OF inv fx] fin [OF fx] wt [of x] by (auto simp: nodes f)
      qed (use False in \<open>auto simp: f carries_def\<close>)
      have "cc_ok b s' p (ts @ [t]) u (cc_pc s u)"
        by (rule cc_ok_other [OF ok _ _ _ _ _ _ comb]) (use False lead(2,3) in \<open>auto simp: f carries_def split: if_splits\<close>)
      then show ?thesis using False by (simp add: f)
    qed (use ok in \<open>simp add: f\<close>)
  next
    show "inj_on (cc_next_node s') (- set (ts @ [t]))" using inv by (auto simp: cc_shape_def f inj_on_def)
  next
    fix u
    assume "u \<notin> set (ts @ [t])"
    then show "cc_next_node s' u \<notin> set (cc_nodes s' (ts @ [t]))"
      using shape_free [OF inv] t by (auto simp: nodes f)
  qed (use inv q t pq lead nodes ok in \<open>auto simp: cc_shape_def f\<close>)
qed

lemma shape_arg:
  assumes inv: "cc_shape b s p ts" and pc: "cc_pc s t = CcArg k c q"
    and f: "cc_pc s' = (cc_pc s)(t := CcLink k c q)" "cc_tail s' = cc_tail s" "cc_next s' = cc_next s"
      "cc_arg_ret s' = (cc_arg_ret s)(c := cc_arg s t)" "cc_locked s' = cc_locked s" "cc_owner s' = (cc_owner s)(c := t)"
      "cc_completed s' = cc_completed s" "cc_next_node s' = cc_next_node s" "cc_arg s' = cc_arg s"
  shows "cc_shape b s' p ts"
proof -
  have ok: "t \<in> set ts" "k < b" using shape_ok [OF inv, of t] pc by auto
  have nodes: "cc_nodes s' ts = cc_nodes s ts" using pc by (simp add: cc_nodes_def f)
  have wt: "cc_waits s' ts x" if "cc_waits s ts x" for x
    by (rule waits_keep [OF that]) (auto simp: f pc)
  have lead: "leading p (cc_pc s' d) = leading p (cc_pc s d)" "combining (cc_pc s' d) = combining (cc_pc s d)"
    "finishing (cc_pc s' d) = finishing (cc_pc s d)" for d
    using pc by (auto simp: f)
  show ?thesis
  proof (rule cc_shapeI)
    show "cc_chain s' p ts" by (rule cc_chain_cong [of _ s]) (use inv pc in \<open>auto simp: cc_shape_def f\<close>)
  next
    fix u
    show "cc_ok b s' p ts u (cc_pc s' u)"
    proof (cases "u = t")
      case False
      have oku: "cc_ok b s p ts u (cc_pc s u)" by (rule shape_ok [OF inv])
      have cur: "u \<in> set ts \<Longrightarrow> cc_cur (cc_pc s u) \<noteq> c" using shape_cur_inj [OF inv ok(1), of u] False pc by auto
      have comb: "cc_ok b s' p ts u (cc_pc s u)" if cu: "combining (cc_pc s u)"
        by (rule combiner_ok [OF oku cu]) (use finishing_node [OF inv] wt cur in \<open>auto simp: nodes f carries_def\<close>)
      have "cc_ok b s' p ts u (cc_pc s u)"
        by (rule cc_ok_other [OF oku _ _ _ _ _ _ comb]) (use cur lead(2,3) in \<open>auto simp: f carries_def split: if_splits\<close>)
      then show ?thesis using False by (simp add: f)
    qed (use ok in \<open>simp add: f carries_def\<close>)
  qed (use inv lead nodes in \<open>auto simp: cc_shape_def f\<close>)
qed

lemma shape_link:
  assumes inv: "cc_shape b s p ts" and pc: "cc_pc s t = CcLink k c q"
    and f: "cc_pc s' = (cc_pc s)(t := CcSpin k c)" "cc_tail s' = cc_tail s" "cc_next s' = (cc_next s)(c := Some q)"
      "cc_arg_ret s' = cc_arg_ret s" "cc_locked s' = cc_locked s" "cc_owner s' = cc_owner s"
      "cc_completed s' = cc_completed s" "cc_next_node s' = (cc_next_node s)(t := c)" "cc_arg s' = cc_arg s"
  shows "cc_shape b s' p ts"
proof -
  have ok: "t \<in> set ts" "k < b" "carries s t c" using shape_ok [OF inv, of t] pc by auto
  have nodes: "cc_nodes s' ts = cc_nodes s ts" using pc by (simp add: cc_nodes_def f)
  have wt: "cc_waits s' ts x" if "cc_waits s ts x" for x
    by (rule waits_keep [OF that]) (auto simp: f pc)
  have lead: "leading p (cc_pc s' d) = leading p (cc_pc s d)" "combining (cc_pc s' d) = combining (cc_pc s d)"
    "finishing (cc_pc s' d) = finishing (cc_pc s d)" for d
    using pc by (auto simp: f)
  have "distinct (cc_nodes s ts)" using inv by (simp add: cc_shape_def)
  then have "cc_cur (cc_pc s t) \<noteq> cc_tail s" using ok(1) by (auto simp: cc_nodes_def image_iff)
  then have c: "c \<in> set (cc_nodes s ts)" "c \<noteq> cc_tail s" using shape_cur [OF ok(1), of s] pc by simp_all
  show ?thesis
  proof (rule cc_shapeI)
    have "cc_chain s r us \<Longrightarrow> distinct us \<Longrightarrow> set us \<subseteq> set ts \<Longrightarrow> cc_chain s' r us" for r us
    proof (induction us arbitrary: r)
      case (Cons u us)
      have same: "c = cc_cur (cc_pc s u) \<Longrightarrow> u = t" using shape_cur_inj [OF inv ok(1), of u] Cons.prems(3) pc by auto
      show ?case
      proof (cases "u = t")
        case True
        then show ?thesis using Cons pc by (auto simp: f)
      next
        case False
        then show ?thesis using Cons same by (auto simp: f split: option.splits)
      qed
    qed (use c in \<open>auto simp: f\<close>)
    then show "cc_chain s' p ts" using inv by (simp add: cc_shape_def)
  next
    fix u
    show "cc_ok b s' p ts u (cc_pc s' u)"
    proof (cases "u = t")
      case False
      have oku: "cc_ok b s p ts u (cc_pc s u)" by (rule shape_ok [OF inv])
      have pn: "cc_next s p = Some y \<Longrightarrow> p \<noteq> c" for y
        using shape_first [OF inv ok(1)] pc inv by (auto simp: cc_shape_def)
      have comb: "cc_ok b s' p ts u (cc_pc s u)" if cu: "combining (cc_pc s u)"
        by (rule combiner_ok [OF oku cu]) (use finishing_node [OF inv] wt pn False in \<open>auto simp: nodes f carries_def\<close>)
      have own: "\<And>k. cc_pc s u = CcSwap k \<Longrightarrow> cc_next_node s u \<noteq> c" using shape_free(1) [OF inv, of u] oku c(1) by auto
      have "cc_ok b s' p ts u (cc_pc s u)"
        by (rule cc_ok_other [OF oku _ _ _ _ _ _ comb]) (use False own lead(2,3) in \<open>auto simp: f carries_def split: if_splits\<close>)
      then show ?thesis using False by (simp add: f)
    qed (use ok in \<open>simp add: f carries_def\<close>)
  next
    show "inj_on (cc_next_node s') (- set ts)" using inv ok(1) by (auto simp: cc_shape_def f inj_on_def)
  next
    fix u
    assume "u \<notin> set ts"
    then show "cc_next_node s' u \<notin> set (cc_nodes s' ts)" using shape_free(1) [OF inv] ok(1) by (auto simp: nodes f)
  qed (use inv lead nodes in \<open>auto simp: cc_shape_def f\<close>)
qed

text \<open>Steps that change no field but the program point.\<close>

definition same_fields :: "'o ccsynch \<Rightarrow> 'o ccsynch \<Rightarrow> bool" where
  "same_fields s s' \<longleftrightarrow> cc_tail s' = cc_tail s \<and> cc_next s' = cc_next s \<and> cc_arg_ret s' = cc_arg_ret s \<and>
     cc_locked s' = cc_locked s \<and> cc_completed s' = cc_completed s \<and> cc_next_node s' = cc_next_node s \<and>
     cc_owner s' = cc_owner s \<and> cc_arg s' = cc_arg s"

lemma shape_go:
  assumes inv: "cc_shape b s p ts" and f: "cc_pc s' = (cc_pc s)(t := r)" and g: "same_fields s s'"
    and same: "cc_cur r = cc_cur (cc_pc s t) \<or> t \<notin> set ts" "unlinked r = unlinked (cc_pc s t)" "leading p r = leading p (cc_pc s t)"
    and fin: "finishing r = finishing (cc_pc s t)"
    and comb: "combining r \<longrightarrow> (\<forall>d. d \<noteq> t \<longrightarrow> \<not> combining (cc_pc s d))"
    and chk: "\<And>u k. u \<noteq> t \<Longrightarrow> u \<in> set ts \<Longrightarrow> cc_pc s u = CcCheck k p \<Longrightarrow> \<not> combining r"
    and spin: "\<And>k c. cc_pc s t = CcSpin k c \<Longrightarrow> \<not> cc_locked s c"
    and ok: "cc_ok b s' p ts t r"
  shows "cc_shape b s' p ts"
proof -
  note gs = g [unfolded same_fields_def]
  have nodes: "cc_nodes s' ts = cc_nodes s ts" using same(1) by (auto simp: cc_nodes_def f gs)
  have wt: "cc_waits s' ts x" if "cc_waits s ts x" for x
    by (rule waits_keep [OF that]) (use spin in \<open>auto simp: f gs\<close>)
  have lead: "leading p (cc_pc s' d) = leading p (cc_pc s d)" "finishing (cc_pc s' d) = finishing (cc_pc s d)" for d
    using same(3) fin by (auto simp: f)
  show ?thesis
  proof (rule cc_shapeI)
    show "cc_chain s' p ts" by (rule cc_chain_cong [of _ s]) (use inv same(1,2) in \<open>auto simp: cc_shape_def f gs\<close>)
  next
    fix u
    show "cc_ok b s' p ts u (cc_pc s' u)"
    proof (cases "u = t")
      case False
      have oku: "cc_ok b s p ts u (cc_pc s u)" by (rule shape_ok [OF inv])
      have cu: "cc_ok b s' p ts u (cc_pc s u)" if cu: "combining (cc_pc s u)"
        by (rule combiner_ok [OF oku cu]) (use finishing_node [OF inv] wt in \<open>auto simp: nodes gs carries_def\<close>)
      have ck: "\<not> combining (cc_pc s' d)" if "cc_pc s u = CcCheck k p" "u \<in> set ts" "\<forall>d. \<not> combining (cc_pc s d)" for k d
        using that chk [of u k] False by (simp add: f)
      have "cc_ok b s' p ts u (cc_pc s u)"
        by (rule cc_ok_other [OF oku _ _ _ _ _ _ cu]) (use ck lead(2) in \<open>auto simp: gs carries_def split: if_splits\<close>)
      then show ?thesis using False by (simp add: f)
    qed (use ok in \<open>simp add: f\<close>)
  next
    fix c d
    assume "combining (cc_pc s' c)" "combining (cc_pc s' d)"
    then show "c = d" using comb shape_combiner [OF inv, of c d] by (auto simp: f split: if_splits)
  qed (use inv lead nodes in \<open>auto simp: cc_shape_def gs\<close>)
qed

lemma same_fields_ccgo [simp]: "same_fields s (ccgo t r s)" "cc_pc (ccgo t r s) = (cc_pc s)(t := r)"
  by (simp_all add: same_fields_def)

lemma shape_spin:
  assumes inv: "cc_shape b s p ts" and pc: "cc_pc s t = CcSpin k c" and free: "\<not> cc_locked s c"
  shows "cc_shape b (ccgo t (CcCheck k c) s) p ts"
proof -
  have ok: "k < b" "cc_next_node s t = c" "t \<in> set ts \<Longrightarrow> carries s t c" "t \<notin> set ts \<Longrightarrow> cc_completed s c"
    using shape_ok [OF inv, of t] pc free by auto
  have "c = p \<and> \<not> combining (cc_pc s d)" if t: "t \<in> set ts" for d
  proof -
    have "c \<in> set (cc_nodes s ts)" using shape_cur [OF t, of s] pc by simp
    then have cp: "c = p" using inv free by (auto simp: cc_shape_def)
    then have nl: "\<not> leading p (cc_pc s d)" using inv free by (auto simp: cc_shape_def)
    have "\<not> combining (cc_pc s d)"
    proof
      assume c: "combining (cc_pc s d)"
      have okd: "cc_ok b s p ts d (cc_pc s d)" by (rule shape_ok [OF inv])
      have "d \<in> set ts" "cc_cur (cc_pc s d) = p" using okd c nl by (cases "cc_pc s d"; auto)+
      then have "d = t" using shape_cur_inj [OF inv _ t, of d] pc cp by simp
      then show False using c pc by simp
    qed
    then show ?thesis using cp by blast
  qed
  then show ?thesis
    by (intro shape_go [OF inv, of _ t "CcCheck k c"]) (use pc ok free in \<open>auto simp: carries_def\<close>)
qed

lemma shape_check:
  assumes inv: "cc_shape b s p ts" and pc: "cc_pc s t = CcCheck k c"
  shows "cc_shape b (ccgo t (if cc_completed s c then CcRet c else CcTest k c c) s) p ts"
proof -
  have ok: "k < b" "cc_next_node s t = c" "\<not> cc_locked s c" "t \<in> set ts \<Longrightarrow> carries s t c \<and> c = p \<and> (\<forall>d. \<not> combining (cc_pc s d))"
     "t \<notin> set ts \<Longrightarrow> cc_completed s c"
    using shape_ok [OF inv, of t] pc by auto
  show ?thesis
  proof (cases "t \<in> set ts")
    case True
    then have c: "c \<in> set (cc_nodes s ts)" using shape_cur [OF True, of s] pc by simp
    then have "\<not> cc_completed s c" using inv by (simp add: cc_shape_def)
    moreover have "cc_pc s u \<noteq> CcCheck j p" if "u \<noteq> t" "u \<in> set ts" for u j
      using shape_cur_inj [OF inv that(2) True] that(1) pc ok(4) [OF True] by auto
    moreover have "\<not> combining (cc_pc s d)" "c = p" "carries s t p" for d using ok(4) [OF True] by auto
    moreover have "cc_shape b (ccgo t (CcTest k c c) s) p ts"
      by (rule shape_go [OF inv, of _ t "CcTest k c c"])
         (use pc ok(1,2) True calculation in \<open>simp_all add: carries_def\<close>)
    ultimately show ?thesis by simp
  next
    case False
    have "cc_shape b (ccgo t (CcRet c) s) p ts"
      by (rule shape_go [OF inv, of _ t "CcRet c"]) (use pc ok(2) False in simp_all)
    then show ?thesis using ok(5) [OF False] by simp
  qed
qed

lemma no_check_beside:
  assumes "cc_shape b s p ts" and "combining (cc_pc s t)" and "u \<in> set ts"
  shows "cc_pc s u \<noteq> CcCheck j c"
proof
  assume "cc_pc s u = CcCheck j c"
  then have "\<not> combining (cc_pc s t)" using shape_ok [OF assms(1), of u] assms(3) by simp
  then show False using assms(2) by blast
qed

lemma shape_test:
  assumes inv: "cc_shape b s p ts" and pc: "cc_pc s t = CcTest k c x"
  shows "cc_shape b (ccgo t (if cc_next s x \<noteq> None \<and> k < b then CcNext (k + 1) c x else CcExit c x) s) p ts"
proof -
  have ok: "cc_next_node s t = c" "x = p" "if c = p then t \<in> set ts \<and> k < b \<and> carries s t c else t \<notin> set ts"
    using shape_ok [OF inv, of t] pc by auto
  have own: "cc_next s p \<noteq> None" if "c = p"
  proof -
    have "t \<in> set ts" using ok(3) that by simp
    moreover have "cc_cur (cc_pc s t) = p" using pc that by simp
    ultimately obtain us where "ts = t # us" using shape_first [OF inv] by blast
    then show ?thesis using inv pc by (auto simp: cc_shape_def split: option.splits)
  qed
  have one: "d \<noteq> t \<Longrightarrow> \<not> combining (cc_pc s d)" for d using shape_combiner [OF inv, of t d] pc by auto
  note nochk = no_check_beside [OF inv, of t]
  show ?thesis
  proof (cases "cc_next s x \<noteq> None \<and> k < b")
    case True
    have "cc_shape b (ccgo t (CcNext (k + 1) c x) s) p ts"
      by (rule shape_go [OF inv, of _ t "CcNext (k + 1) c x"])
         (use pc ok one nochk True in \<open>auto simp: carries_def split: if_splits\<close>)
    then show ?thesis using True by simp
  next
    case False
    then have "c \<noteq> p" using own ok(2,3) by (auto split: if_splits)
    then have "cc_shape b (ccgo t (CcExit c x) s) p ts"
      by (intro shape_go [OF inv, of _ t "CcExit c x"]) (use pc ok one nochk in \<open>auto split: if_splits\<close>)
    then show ?thesis using False by auto
  qed
qed

lemma shape_next:
  assumes inv: "cc_shape b s p ts" and pc: "cc_pc s t = CcNext k c x" and y: "cc_next s x = Some y"
  shows "cc_shape b (ccgo t (CcFunc k c x y) s) p ts"
proof -
  have one: "d \<noteq> t \<Longrightarrow> \<not> combining (cc_pc s d)" for d using shape_combiner [OF inv, of t d] pc by auto
  show ?thesis
    by (rule shape_go [OF inv, of _ t "CcFunc k c x y"])
       (use pc one shape_ok [OF inv, of t] y no_check_beside [OF inv, of t] in \<open>auto simp: carries_def split: if_splits\<close>)
qed

lemma shape_ret:
  assumes inv: "cc_shape b s p ts" and pc: "cc_pc s t = CcRet c" and f: "cc_pc s' = (cc_pc s)(t := CcDone v)" "same_fields s s'"
  shows "cc_shape b s' p ts"
  by (rule shape_go [OF inv f]) (use pc shape_ok [OF inv, of t] in auto)

text \<open>When the combiner applies an operation, the thread it belongs to leaves the queue.\<close>

lemma func_head:
  assumes inv: "cc_shape b s p ts" and pc: "cc_pc s t = CcFunc k c x y"
  obtains u us where "ts = u # us" "cc_next s p = Some y" "cc_chain s y us" "carries s u p" "cc_next_node s u = p"
    "c = p \<longleftrightarrow> u = t" "u \<noteq> t \<longrightarrow> (\<exists>j. cc_pc s u = CcSpin j p)" "u \<noteq> t \<longrightarrow> cc_locked s p"
proof -
  have ok: "cc_next_node s t = c" "x = p" "cc_next s p = Some y" "if c = p then t \<in> set ts \<and> carries s t c else t \<notin> set ts"
    using shape_ok [OF inv, of t] pc by auto
  have ch: "cc_chain s p ts" using inv by (simp add: cc_shape_def)
  obtain u us where ts: "ts = u # us" using ch ok(3) by (cases ts) auto
  have u: "cc_cur (cc_pc s u) = p" "unlinked (cc_pc s u) = None" "cc_chain s y us"
    using ch ts ok(3) by (auto split: option.splits)
  have same: "c = p \<longleftrightarrow> u = t"
  proof
    assume "c = p"
    then show "u = t" using shape_first [OF inv, of t] ok(4) pc ts by auto
  next
    assume "u = t"
    then show "c = p" using u(1) pc by simp
  qed
  have oku: "cc_ok b s p ts u (cc_pc s u)" by (rule shape_ok [OF inv])
  have nc: "u \<noteq> t \<Longrightarrow> \<not> combining (cc_pc s u)" using shape_combiner [OF inv, of t u] pc by auto
  have nk: "cc_pc s u \<noteq> CcCheck j q" for j q using no_check_beside [OF inv, of t u] pc ts by simp
  have sp: "\<exists>j. cc_pc s u = CcSpin j p" if "u \<noteq> t"
    using u oku nc [OF that] nk ts by (cases "cc_pc s u") auto
  have "carries s u p \<and> cc_next_node s u = p"
  proof (cases "u = t")
    case True
    then show ?thesis using ok same by simp
  next
    case False
    then show ?thesis using sp oku ts by auto
  qed
  moreover have "cc_locked s p" if "u \<noteq> t"
  proof -
    have "leading p (cc_pc s t)" using pc same that by simp
    then show ?thesis using inv unfolding cc_shape_def by blast
  qed
  ultimately show thesis using that ts ok(3) u(3) same sp by blast
qed

lemma shape_func:
  assumes inv: "cc_shape b s p (u # us)" and pc: "cc_pc s t = CcFunc k c x y"
    and f: "cc_pc s' = (cc_pc s)(t := CcCompl k c x y)" "cc_tail s' = cc_tail s" "cc_next s' = cc_next s"
      "cc_arg_ret s' = (cc_arg_ret s)(x := r)" "cc_locked s' = cc_locked s" "cc_owner s' = cc_owner s"
      "cc_completed s' = cc_completed s" "cc_next_node s' = cc_next_node s" "cc_arg s' = cc_arg s"
  shows "cc_shape b s' y us"
proof -
  obtain h: "cc_next s p = Some y" "cc_chain s y us" "carries s u p" "cc_next_node s u = p"
    "c = p \<longleftrightarrow> u = t" "u \<noteq> t \<longrightarrow> (\<exists>j. cc_pc s u = CcSpin j p)" "u \<noteq> t \<longrightarrow> cc_locked s p"
    by (rule func_head [OF inv pc]) auto
  have ok: "cc_next_node s t = c" "x = p" "if c = p then t \<in> set (u # us) \<and> carries s t c else t \<notin> set (u # us)"
    using shape_ok [OF inv, of t] pc by auto
  have d: "distinct (u # us)" "distinct (cc_nodes s (u # us))" using inv by (simp_all add: cc_shape_def)
  have cu: "cc_cur (cc_pc s u) = p" using inv by (simp add: cc_shape_def)
  have tus: "t \<notin> set us" using ok(3) h(5) d(1) by (auto split: if_splits)
  have nodes: "cc_nodes s' us = cc_nodes s us" "cc_nodes s (u # us) = p # cc_nodes s us"
    using tus cu by (auto simp: cc_nodes_def f)
  have y: "y \<in> set (cc_nodes s us)" using cc_chain_head [OF h(2)] by (metis hd_in_set cc_nodes_def snoc_eq_iff_butlast)
  have one: "v \<noteq> t \<Longrightarrow> \<not> combining (cc_pc s v)" for v using shape_combiner [OF inv, of t v] pc by auto
  have nofin: "v \<noteq> t \<Longrightarrow> finishing (cc_pc s v) = None" for v using one [of v] finishing_combining by (cases "finishing (cc_pc s v)") auto
  have yl: "cc_locked s y" using inv y d(2) nodes(2) by (auto simp: cc_shape_def)
  have free: "cc_next_node s v \<notin> set (cc_nodes s us)" if "v \<notin> set us" for v
    using shape_free(1) [OF inv, of v] that h(4) d(2) nodes(2) by (cases "v = u") auto
  show ?thesis
  proof (rule cc_shapeI)
    show "cc_chain s' y us" by (rule cc_chain_cong [OF _ _ _ h(2)]) (use tus in \<open>auto simp: f\<close>)
  next
    fix v
    show "cc_ok b s' y us v (cc_pc s' v)"
    proof (cases "v = t")
      case True
      have "cc_waits s' us p" if "p \<noteq> c"
        using h(5,6,7) that d(1) unfolding cc_waits_def by (auto simp: f)
      moreover have "p \<notin> set (cc_nodes s us)" using d(2) nodes(2) by simp
      ultimately show ?thesis using True ok tus by (simp add: f nodes)
    next
      case False
      have okv: "cc_ok b s p (u # us) v (cc_pc s v)" by (rule shape_ok [OF inv])
      have cur: "v \<in> set us \<Longrightarrow> cc_cur (cc_pc s v) \<noteq> p" using d(2) nodes(2) shape_cur [of v us s] by auto
      have nk: "v \<in> set (u # us) \<Longrightarrow> cc_pc s v \<noteq> CcCheck j q" for j q using no_check_beside [OF inv, of t v] pc by simp
      have fint: "finishing (cc_pc s' t) = Some p" using ok by (simp add: f)
      have nl: "finishing (cc_pc s d) \<noteq> Some q" for d q
        using nofin [of d] pc by (cases "d = t") auto
      have "cc_ok b s' y us v (cc_pc s v)"
      proof (cases "v = u")
        case True
        then obtain j where "cc_pc s u = CcSpin j p" using h(6) False by blast
        moreover have "j < b" using shape_ok [OF inv, of u] calculation by simp
        moreover have "\<exists>d. finishing (cc_pc s' d) = Some p" using fint by blast
        ultimately show ?thesis using h(4,7) True False d(1) by (simp add: f)
      next
        case vu: False
        show ?thesis
          by (rule cc_ok_other [OF okv]) (use vu cur nk one [OF False] False nl in \<open>auto simp: f carries_def ok split: if_splits\<close>)
      qed
      then show ?thesis using False by (simp add: f)
    qed
  next
    show "inj_on (cc_next_node s') (- set us)"
    proof (rule inj_onI)
      fix v w
      assume v: "v \<in> - set us" and w: "w \<in> - set us" and eq: "cc_next_node s' v = cc_next_node s' w"
      have "z \<noteq> u \<Longrightarrow> z \<notin> set us \<Longrightarrow> cc_next_node s z \<noteq> p" for z using shape_free(1) [OF inv, of z] nodes(2) by auto
      then show "v = w" using v w eq h(4) inv by (cases "v = u"; cases "w = u") (auto simp: f cc_shape_def inj_on_def)
    qed
  next
    have "leading y (cc_pc s' t)" by (simp add: f)
    then show "cc_locked s' y = (\<exists>d. leading y (cc_pc s' d))" using yl by (auto simp: f)
  next
    fix c d
    assume "combining (cc_pc s' c)" "combining (cc_pc s' d)"
    then show "c = d" using one by (auto simp: f split: if_splits)
  qed (use inv d free nodes in \<open>auto simp: cc_shape_def f\<close>)
qed

text \<open>Finishing the node: it belongs to the combiner or to one thread that spins on it.\<close>

lemma finishing_others:
  assumes inv: "cc_shape b s p ts" and fd: "finishing (cc_pc s t) = Some x" and u: "u \<noteq> t" "u \<notin> set ts"
    and own: "cc_next_node s u = x"
  shows "\<exists>k. cc_pc s u = CcSpin k x"
proof -
  obtain v where v: "v \<notin> set ts" "cc_next_node s v = x" "v = t \<or> (\<exists>k. cc_pc s v = CcSpin k x)"
    using finishing_node [OF inv fd] by blast
  then have "v = u" using shape_free(2) [OF inv u(2) v(1)] own by metis
  then show ?thesis using v u by auto
qed

lemma shape_compl:
  assumes inv: "cc_shape b s p ts" and pc: "cc_pc s t = CcCompl k c x y"
    and f: "cc_pc s' = (cc_pc s)(t := CcUnlock k c x y)" "cc_tail s' = cc_tail s" "cc_next s' = cc_next s"
      "cc_arg_ret s' = cc_arg_ret s" "cc_locked s' = cc_locked s" "cc_owner s' = cc_owner s"
      "cc_completed s' = (cc_completed s)(x := True)" "cc_next_node s' = cc_next_node s" "cc_arg s' = cc_arg s"
  shows "cc_shape b s' p ts"
proof -
  have ok: "t \<notin> set ts" "cc_next_node s t = c" "y = p" "x \<notin> set (cc_nodes s ts)" "x \<noteq> c \<Longrightarrow> cc_waits s ts x"
    using shape_ok [OF inv, of t] pc by auto
  have nodes: "cc_nodes s' ts = cc_nodes s ts" using ok(1) by (simp add: cc_nodes_def f)
  have one: "v \<noteq> t \<Longrightarrow> \<not> combining (cc_pc s v)" for v using shape_combiner [OF inv, of t v] pc by auto
  have wt: "cc_waits s' ts z" if "cc_waits s ts z" for z
    by (rule waits_keep [OF that]) (auto simp: f pc)
  have lead: "leading p (cc_pc s' d) = leading p (cc_pc s d)" "combining (cc_pc s' d) = combining (cc_pc s d)"
    "finishing (cc_pc s' d) = finishing (cc_pc s d)" for d
    using pc by (auto simp: f)
  show ?thesis
  proof (rule cc_shapeI)
    show "cc_chain s' p ts" by (rule cc_chain_cong [of _ s]) (use inv ok(1) in \<open>auto simp: cc_shape_def f\<close>)
  next
    fix u
    show "cc_ok b s' p ts u (cc_pc s' u)"
    proof (cases "u = t")
      case True
      then show ?thesis using ok wt by (simp add: f nodes)
    next
      case False
      have oku: "cc_ok b s p ts u (cc_pc s u)" by (rule shape_ok [OF inv])
      have sw: "cc_next_node s u \<noteq> x" if "cc_pc s u = CcSwap j" for j
        using finishing_others [OF inv, of t x u] pc False oku that by auto
      have "cc_ok b s' p ts u (cc_pc s u)"
        by (rule cc_ok_other [OF oku]) (use one [OF False] False sw lead(2,3) in \<open>auto simp: f carries_def split: if_splits\<close>)
      then show ?thesis using False by (simp add: f)
    qed
  qed (use inv ok lead nodes in \<open>auto simp: cc_shape_def f\<close>)
qed

lemma shape_unlock:
  assumes inv: "cc_shape b s p ts" and pc: "cc_pc s t = CcUnlock k c x y"
    and f: "cc_pc s' = (cc_pc s)(t := CcTest k c y)" "cc_tail s' = cc_tail s" "cc_next s' = cc_next s"
      "cc_arg_ret s' = cc_arg_ret s" "cc_locked s' = (cc_locked s)(x := False)" "cc_owner s' = cc_owner s"
      "cc_completed s' = cc_completed s" "cc_next_node s' = cc_next_node s" "cc_arg s' = cc_arg s"
  shows "cc_shape b s' p ts"
proof -
  have ok: "t \<notin> set ts" "cc_next_node s t = c" "y = p" "x \<notin> set (cc_nodes s ts)" "cc_completed s x"
    using shape_ok [OF inv, of t] pc by auto
  have px: "p \<in> set (cc_nodes s ts)" "p \<noteq> x" using shape_head [OF inv] ok(4) by auto
  have cp: "c \<noteq> p" using shape_free(1) [OF inv ok(1)] ok(2) px(1) by auto
  have nodes: "cc_nodes s' ts = cc_nodes s ts" using ok(1) by (simp add: cc_nodes_def f)
  have one: "v \<noteq> t \<Longrightarrow> \<not> combining (cc_pc s v)" for v using shape_combiner [OF inv, of t v] pc by auto
  have fin: "finishing (cc_pc s d) = Some z \<Longrightarrow> z = x" for d z
    using one [of d] finishing_combining [of "cc_pc s d" z] pc by (cases "d = t") auto
  have lead: "leading p (cc_pc s' d) = leading p (cc_pc s d)" "combining (cc_pc s' d) = combining (cc_pc s d)" for d
    using pc cp by (auto simp: f)
  show ?thesis
  proof (rule cc_shapeI)
    show "cc_chain s' p ts" by (rule cc_chain_cong [of _ s]) (use inv ok(1) in \<open>auto simp: cc_shape_def f\<close>)
  next
    fix u
    show "cc_ok b s' p ts u (cc_pc s' u)"
    proof (cases "u = t")
      case True
      then show ?thesis using ok cp by (simp add: f)
    next
      case False
      have oku: "cc_ok b s p ts u (cc_pc s u)" by (rule shape_ok [OF inv])
      have sw: "cc_next_node s u \<noteq> x" if "cc_pc s u = CcSwap j" for j
        using finishing_others [OF inv, of t x u] pc False oku that by auto
      have "cc_ok b s' p ts u (cc_pc s u)"
        by (rule cc_ok_other [OF oku]) (use one [OF False] False sw lead(2) fin ok(5) in \<open>auto simp: f carries_def split: if_splits\<close>)
      then show ?thesis using False by (simp add: f)
    qed
  qed (use inv ok lead nodes px in \<open>auto simp: cc_shape_def f\<close>)
qed

lemma shape_exit:
  assumes inv: "cc_shape b s p ts" and pc: "cc_pc s t = CcExit c x"
    and f: "cc_pc s' = (cc_pc s)(t := CcRet c)" "cc_tail s' = cc_tail s" "cc_next s' = cc_next s"
      "cc_arg_ret s' = cc_arg_ret s" "cc_locked s' = (cc_locked s)(x := False)" "cc_owner s' = cc_owner s"
      "cc_completed s' = cc_completed s" "cc_next_node s' = cc_next_node s" "cc_arg s' = cc_arg s"
  shows "cc_shape b s' p ts"
proof -
  have ok: "t \<notin> set ts" "cc_next_node s t = c" "x = p" using shape_ok [OF inv, of t] pc by auto
  have p: "p \<in> set (cc_nodes s ts)" by (rule shape_head [OF inv])
  have nodes: "cc_nodes s' ts = cc_nodes s ts" using ok(1) by (simp add: cc_nodes_def f)
  have one: "v \<noteq> t \<Longrightarrow> \<not> combining (cc_pc s v)" for v using shape_combiner [OF inv, of t v] pc by auto
  have none: "\<not> combining (cc_pc s' d)" for d using one by (simp add: f)
  then have nl: "\<not> leading p (cc_pc s' d)" for d using leading_combining by blast
  have fin: "finishing (cc_pc s d) = None" for d
    using one [of d] finishing_combining pc by (cases "d = t"; cases "finishing (cc_pc s d)") auto
  show ?thesis
  proof (rule cc_shapeI)
    show "cc_chain s' p ts" by (rule cc_chain_cong [of _ s]) (use inv ok(1) in \<open>auto simp: cc_shape_def f\<close>)
  next
    fix u
    show "cc_ok b s' p ts u (cc_pc s' u)"
    proof (cases "u = t")
      case False
      have oku: "cc_ok b s p ts u (cc_pc s u)" by (rule shape_ok [OF inv])
      have own: "u \<notin> set ts \<Longrightarrow> cc_next_node s u \<noteq> p" using shape_free(1) [OF inv, of u] p by auto
      have sw: "cc_next_node s u \<noteq> p" if "cc_pc s u = CcSwap j" for j using own oku that by simp
      have sp: "c \<noteq> p" if "cc_pc s u = CcSpin j c" "u \<notin> set ts" for j c using own oku that by simp
      have "cc_ok b s' p ts u (cc_pc s u)"
        by (rule cc_ok_other [OF oku]) (use one [OF False] False sw sp none fin in \<open>auto simp: f carries_def ok(3) split: if_splits\<close>)
      then show ?thesis using False by (simp add: f)
    qed (use ok in \<open>simp add: f\<close>)
  qed (use inv ok nl nodes none in \<open>auto simp: cc_shape_def f\<close>)
qed

section \<open>Linearizability\<close>

text \<open>The applications of \<open>sfunc\<close>, in their order, lead from one object to the other and give the recorded results.\<close>

fun cc_legal :: "(i32 \<Rightarrow> i32 \<Rightarrow> 'o \<Rightarrow> i32 \<times> 'o) \<Rightarrow> 'o \<Rightarrow> (tid \<times> i32 \<times> i32 \<times> i32) list \<Rightarrow> 'o \<Rightarrow> bool" where
  "cc_legal f obj [] obj' \<longleftrightarrow> obj' = obj"
| "cc_legal f obj ((t, a, i, r) # l) obj' \<longleftrightarrow> fst (f a i obj) = r \<and> cc_legal f (snd (f a i obj)) l obj'"

text \<open>The argument and result of each operation of a thread, in the order they were applied.\<close>

definition cc_entries :: "tid \<Rightarrow> (tid \<times> i32 \<times> i32 \<times> i32) list \<Rightarrow> (i32 \<times> i32) list" where
  "cc_entries t l = map (\<lambda>(u, a, i, r). (a, r)) (filter (\<lambda>(u, a, i, r). u = t) l)"

fun cc_announced :: "ccpc \<Rightarrow> bool" where
  "cc_announced CcIdle = False"
| "cc_announced (CcSwap k) = False"
| "cc_announced (CcDone v) = False"
| "cc_announced _ = True"

definition cc_account :: "'o ccsynch \<Rightarrow> tid list \<Rightarrow> bool" where
  "cc_account s ts \<longleftrightarrow> (\<forall>t. cc_entries t (cc_log s) =
     cc_hist s t @ (if cc_announced (cc_pc s t) \<and> t \<notin> set ts then [(cc_arg s t, cc_arg_ret s (cc_next_node s t))] else []))"

definition cc_core :: "int \<Rightarrow> 'o ccsynch \<Rightarrow> bool" where
  "cc_core b s \<longleftrightarrow> (\<exists>p ts. cc_shape b s p ts \<and> cc_account s ts)"

definition cc_inv :: "(i32 \<Rightarrow> i32 \<Rightarrow> 'o \<Rightarrow> i32 \<times> 'o) \<Rightarrow> int \<Rightarrow> 'o \<Rightarrow> 'o ccsynch \<Rightarrow> bool" where
  "cc_inv f b obj s \<longleftrightarrow> cc_core b s \<and> cc_legal f obj (cc_log s) (cc_object s)"

lemma cc_legal_snoc:
  "cc_legal f obj l obj' \<Longrightarrow> cc_legal f obj (l @ [(t, a, i, fst (f a i obj'))]) (snd (f a i obj'))"
proof (induction l arbitrary: obj)
  case (Cons e l)
  then show ?case by (cases e) auto
qed simp

lemma cc_entries_snoc: "cc_entries t (l @ [(u, a, i, r)]) = cc_entries t l @ (if u = t then [(a, r)] else [])"
  by (simp add: cc_entries_def)

lemma cc_coreI: "cc_shape b s p ts \<Longrightarrow> cc_account s ts \<Longrightarrow> cc_core b s"
  unfolding cc_core_def by blast

lemma cc_account_same:
  assumes "cc_account s ts" and "cc_log s' = cc_log s" and "cc_hist s' = cc_hist s"
    and "\<And>u. cc_announced (cc_pc s' u) \<and> u \<notin> set ts' \<longleftrightarrow> cc_announced (cc_pc s u) \<and> u \<notin> set ts"
    and "\<And>u. cc_announced (cc_pc s u) \<Longrightarrow> u \<notin> set ts \<Longrightarrow>
      cc_arg s' u = cc_arg s u \<and> cc_arg_ret s' (cc_next_node s' u) = cc_arg_ret s (cc_next_node s u)"
  shows "cc_account s' ts'"
  using assms unfolding cc_account_def by (auto split: if_splits)

fun cc_fresh :: "nat \<Rightarrow> ccev \<Rightarrow> bool" where
  "cc_fresh n (CcCall t arg k) = (k < CCSIM_HELP_BOUND n)"
| "cc_fresh n (CcRun t) = True"

lemma cc_applyOp_core:
  assumes inv: "cc_core (CCSIM_HELP_BOUND n) s" and run: "cc_applyOp f n (cc_pc s t) t s = Some s'"
  shows "cc_core (CCSIM_HELP_BOUND n) s'"
proof -
  obtain p ts where sh: "cc_shape (CCSIM_HELP_BOUND n) s p ts" and ac: "cc_account s ts"
    using inv by (auto simp: cc_core_def)
  have ok: "cc_ok (CCSIM_HELP_BOUND n) s p ts t (cc_pc s t)" by (rule shape_ok [OF sh])
  show ?thesis
  proof (cases "cc_pc s t")
    case (CcSwap k)
    then have "cc_shape (CCSIM_HELP_BOUND n) s' p (ts @ [t])" using run by (intro shape_swap [OF sh CcSwap]) auto
    moreover have "cc_account s' (ts @ [t])" by (rule cc_account_same [OF ac]) (use run CcSwap in \<open>auto split: if_splits\<close>)
    ultimately show ?thesis using run CcSwap by (intro cc_coreI) auto
  next
    case (CcArg k c q)
    then have "cc_shape (CCSIM_HELP_BOUND n) s' p ts" using run by (intro shape_arg [OF sh CcArg]) auto
    moreover have "c \<in> set (cc_nodes s ts)" using shape_cur [of t ts s] ok CcArg by simp
    then have "cc_account s' ts" using run CcArg shape_free(1) [OF sh]
      by (intro cc_account_same [OF ac]) (auto split: if_splits)
    ultimately show ?thesis using run CcArg by (intro cc_coreI) auto
  next
    case (CcLink k c q)
    then have "cc_shape (CCSIM_HELP_BOUND n) s' p ts" using run by (intro shape_link [OF sh CcLink]) auto
    moreover have "cc_account s' ts" by (rule cc_account_same [OF ac]) (use run CcLink ok in \<open>auto split: if_splits\<close>)
    ultimately show ?thesis using run CcLink by (intro cc_coreI) auto
  next
    case (CcSpin k c)
    show ?thesis
    proof (cases "cc_locked s c")
      case False
      have "cc_account (ccgo t (CcCheck k c) s) ts" by (rule cc_account_same [OF ac]) (use CcSpin in \<open>auto split: if_splits\<close>)
      then show ?thesis using run CcSpin False shape_spin [OF sh CcSpin False] by (auto intro: cc_coreI)
    qed (use run CcSpin inv in simp)
  next
    case (CcCheck k c)
    have "cc_account s' ts" by (rule cc_account_same [OF ac]) (use run CcCheck in \<open>auto split: if_splits\<close>)
    then show ?thesis using run CcCheck shape_check [OF sh CcCheck] by (auto intro: cc_coreI)
  next
    case (CcTest k c x)
    have "cc_account s' ts" by (rule cc_account_same [OF ac]) (use run CcTest in \<open>auto split: if_splits\<close>)
    moreover have "cc_shape (CCSIM_HELP_BOUND n) s' p ts" using run CcTest shape_test [OF sh CcTest] by auto
    ultimately show ?thesis by (intro cc_coreI)
  next
    case (CcNext k c x)
    then obtain y where y: "cc_next s x = Some y" "s' = ccgo t (CcFunc k c x y) s" using run by (auto split: option.splits)
    have "cc_account s' ts" by (rule cc_account_same [OF ac]) (use y CcNext in \<open>auto split: if_splits\<close>)
    then show ?thesis using y shape_next [OF sh CcNext y(1)] by (auto intro: cc_coreI)
  next
    case (CcFunc k c x y)
    obtain u us where h: "ts = u # us" "carries s u p" "cc_next_node s u = p" "u \<noteq> t \<longrightarrow> (\<exists>j. cc_pc s u = CcSpin j p)"
      by (rule func_head [OF sh CcFunc]) (rule that)
    let ?r = "fst (f (cc_arg_ret s p) (cc_pid s p) (cc_object s))"
    have x: "x = p" using ok CcFunc by simp
    have s': "s' = ccgo t (CcCompl k c p y) (s\<lparr>cc_arg_ret := (cc_arg_ret s)(p := ?r), cc_object := snd (f (cc_arg_ret s p) (cc_pid s p) (cc_object s)),
        cc_log := cc_log s @ [(u, cc_arg_ret s p, cc_pid s p, ?r)]\<rparr>)"
      using run CcFunc h(2) x by (auto simp: carries_def split: prod.splits)
    have "cc_shape (CCSIM_HELP_BOUND n) s' y us" by (rule shape_func [OF _ CcFunc]) (use sh h(1) x s' in auto)
    moreover have "cc_account s' us"
      unfolding cc_account_def
    proof
      fix v
      have "cc_next_node s v \<noteq> p" if "v \<notin> set ts" using shape_free(1) [OF sh that] shape_head [OF sh] by auto
      moreover have "distinct (u # us)" using sh h(1) by (simp add: cc_shape_def)
      moreover have "cc_announced (cc_pc s u)" using h(4) CcFunc by (cases "u = t") auto
      moreover have "cc_entries v (cc_log s) = cc_hist s v @
          (if cc_announced (cc_pc s v) \<and> v \<notin> set ts then [(cc_arg s v, cc_arg_ret s (cc_next_node s v))] else [])"
        using ac by (simp add: cc_account_def)
      ultimately show "cc_entries v (cc_log s') = cc_hist s' v @
          (if cc_announced (cc_pc s' v) \<and> v \<notin> set us then [(cc_arg s' v, cc_arg_ret s' (cc_next_node s' v))] else [])"
        using h(1-3) CcFunc by (cases "v = u"; cases "v = t") (auto simp: s' cc_entries_snoc carries_def)
    qed
    ultimately show ?thesis by (rule cc_coreI)
  next
    case (CcCompl k c x y)
    have "cc_account s' ts" by (rule cc_account_same [OF ac]) (use run CcCompl in \<open>auto split: if_splits\<close>)
    moreover have "cc_shape (CCSIM_HELP_BOUND n) s' p ts" by (rule shape_compl [OF sh CcCompl]) (use run CcCompl in auto)
    ultimately show ?thesis using run CcCompl by (intro cc_coreI) auto
  next
    case (CcUnlock k c x y)
    have "cc_account s' ts" by (rule cc_account_same [OF ac]) (use run CcUnlock in \<open>auto split: if_splits\<close>)
    moreover have "cc_shape (CCSIM_HELP_BOUND n) s' p ts" by (rule shape_unlock [OF sh CcUnlock]) (use run CcUnlock in auto)
    ultimately show ?thesis using run CcUnlock by (intro cc_coreI) auto
  next
    case (CcExit c x)
    have "cc_account s' ts" by (rule cc_account_same [OF ac]) (use run CcExit in \<open>auto split: if_splits\<close>)
    moreover have "cc_shape (CCSIM_HELP_BOUND n) s' p ts" by (rule shape_exit [OF sh CcExit]) (use run CcExit in auto)
    ultimately show ?thesis using run CcExit by (intro cc_coreI) auto
  next
    case (CcRet c)
    have "cc_shape (CCSIM_HELP_BOUND n) s' p ts" by (rule shape_ret [OF sh CcRet]) (use run CcRet in \<open>auto simp: same_fields_def\<close>)
    moreover have "cc_account s' ts" using ac run CcRet ok by (auto simp: cc_account_def split: if_splits)
    ultimately show ?thesis using run CcRet by (intro cc_coreI) auto
  qed (use run in auto)
qed

text \<open>The one step that touches the object applies \<open>sfunc\<close> and records it.\<close>

lemma cc_applyOp_log:
  assumes "cc_applyOp f n pc t s = Some s'"
  shows "cc_log s' = cc_log s \<and> cc_object s' = cc_object s \<or>
    (\<exists>u a i. cc_log s' = cc_log s @ [(u, a, i, fst (f a i (cc_object s)))] \<and> cc_object s' = snd (f a i (cc_object s)))"
  using assms by (cases pc) (auto split: prod.splits option.splits)

lemma cc_call_core:
  assumes "cc_core b s" and idle: "cc_idle (cc_pc s t)" and k: "k < b"
  shows "cc_core b (ccgo t (CcSwap k) ((cc_prepare t s)\<lparr>cc_arg := (cc_arg s)(t := arg)\<rparr>))" (is "cc_core b ?s")
proof -
  obtain p ts where sh: "cc_shape b s p ts" and ac: "cc_account s ts" using assms(1) by (auto simp: cc_core_def)
  have "cc_shape b ?s p ts" by (rule shape_call [OF sh idle k]) (auto simp: cc_prepare_def Let_def)
  moreover have "\<not> cc_announced (cc_pc s t)" using idle by (cases "cc_pc s t") auto
  then have "cc_account ?s ts" by (intro cc_account_same [OF ac]) (auto simp: cc_prepare_def Let_def split: if_splits)
  ultimately show ?thesis by (rule cc_coreI)
qed

lemma cc_step_inv:
  assumes inv: "cc_inv f (CCSIM_HELP_BOUND n) obj s" and run: "cc_step f n e s = Some s'" and fresh: "cc_fresh n e"
  shows "cc_inv f (CCSIM_HELP_BOUND n) obj s'"
proof (cases e)
  case (CcCall t arg k)
  then have "cc_idle (cc_pc s t)" "s' = ccgo t (CcSwap k) ((cc_prepare t s)\<lparr>cc_arg := (cc_arg s)(t := arg)\<rparr>)"
    "k < CCSIM_HELP_BOUND n"
    using run fresh by (auto split: if_splits)
  then show ?thesis using inv cc_call_core [of _ s t k arg] by (simp add: cc_inv_def cc_prepare_def Let_def)
next
  case (CcRun t)
  then have "cc_applyOp f n (cc_pc s t) t s = Some s'" using run by simp
  from cc_applyOp_log [OF this] cc_applyOp_core [OF _ this] show ?thesis
    using inv cc_legal_snoc [of f obj "cc_log s" "cc_object s"] by (auto simp: cc_inv_def)
qed

interpretation ccsynchm: machine "\<lambda>e s. if cc_fresh n e then cc_step f n e s else None" "cc_inv f (CCSIM_HELP_BOUND n) obj" for n f obj
  by unfold_locales (auto intro: cc_step_inv split: if_splits)

lemma cc_init_inv: "cc_inv f b obj (cc_lock_init g i obj)"
proof (unfold cc_inv_def, intro conjI cc_coreI)
  show "cc_shape b (cc_lock_init g i obj) 0 []"
    by (rule cc_shapeI) (auto simp: cc_lock_init_def cc_nodes_def inj_on_def)
  show "cc_account (cc_lock_init g i obj) []" by (simp add: cc_account_def cc_lock_init_def cc_entries_def)
  show "cc_legal f obj (cc_log (cc_lock_init g i obj)) (cc_object (cc_lock_init g i obj))" by (simp add: cc_lock_init_def)
qed

lemma cc_run_inv:
  "mrun (cc_step f n) es (cc_lock_init g i obj) = Some s \<Longrightarrow> list_all (cc_fresh n) es \<Longrightarrow> cc_inv f (CCSIM_HELP_BOUND n) obj s"
  using ccsynchm.good_run [OF cc_init_inv, of n f es g i obj s] by (simp add: mrun_guard)

text \<open>The sequential object of the example: \<open>fetchAndMultiply\<close> on one variable.\<close>

definition demo_cc :: "ccev list" where
  "demo_cc = [CcCall 0 3 0, CcRun 0, CcCall 1 5 0, CcRun 1, CcRun 1, CcRun 1] @ replicate 2 (CcRun 0) @ replicate 15 (CcRun 0) @ replicate 3 (CcRun 1)"

lemma demo_cc_run:
  "map_option (\<lambda>s. (cc_pc s 0, cc_pc s 1, cc_hist s 0, cc_hist s 1, cc_object s))
     (mrun (cc_step (\<lambda>a i x. (x * a, x * a)) 2) demo_cc (cc_lock_init (\<lambda>x. 0) (\<lambda>x. 0) (1 :: i32))) =
   Some (CcDone 3, CcDone 15, [(3, 3)], [(5, 15)], 15)"
  by code_simp

text \<open>
  (C22) CC-Synch makes the object linearizable, when \<open>counter\<close> starts below its bound: in every reachable
  state the applications of \<open>sfunc\<close> that were made form a sequential run from the initial to the current
  object; each thread's operations occur in it in the thread's own order with the results the thread
  got, one operation at most having been applied and not yet returned, none when the thread is outside
  \<open>applyOp\<close>; and two threads are never combining at the same time.
\<close>

theorem cc_linearizable:
  assumes "mrun (cc_step f n) es (cc_lock_init g i obj) = Some s" and "list_all (cc_fresh n) es"
  shows "cc_legal f obj (cc_log s) (cc_object s) \<and>
    (\<forall>t. \<exists>now. cc_entries t (cc_log s) = cc_hist s t @ now \<and> length now \<le> 1 \<and> (cc_idle (cc_pc s t) \<longrightarrow> now = [])) \<and>
    (\<forall>t u. combining (cc_pc s t) \<and> combining (cc_pc s u) \<longrightarrow> t = u)"
proof -
  obtain p ts where sh: "cc_shape (CCSIM_HELP_BOUND n) s p ts" and ac: "cc_account s ts"
    and le: "cc_legal f obj (cc_log s) (cc_object s)"
    using cc_run_inv [OF assms] by (auto simp: cc_inv_def cc_core_def)
  have "\<exists>now. cc_entries t (cc_log s) = cc_hist s t @ now \<and> length now \<le> 1 \<and> (cc_idle (cc_pc s t) \<longrightarrow> now = [])" for t
    using ac by (cases "cc_pc s t") (auto simp: cc_account_def)
  then show ?thesis using le shape_combiner [OF sh] by blast
qed

theorem cc_linearizable_witness:
  "\<exists>s. mrun (cc_step (\<lambda>a i x. (x * a, x * a)) 2) demo_cc (cc_lock_init (\<lambda>x. 0) (\<lambda>x. 0) (1 :: i32)) = Some s \<and>
    cc_entries 0 (cc_log s) = [(3, 3)] \<and> cc_entries 1 (cc_log s) = [(5, 15)] \<and> cc_object s = 15"
proof -
  obtain s where s: "mrun (cc_step (\<lambda>a i x. (x * a, x * a)) 2) demo_cc (cc_lock_init (\<lambda>x. 0) (\<lambda>x. 0) (1 :: i32)) = Some s"
    "cc_pc s 0 = CcDone 3" "cc_pc s 1 = CcDone 15" "cc_hist s 0 = [(3, 3)]" "cc_hist s 1 = [(5, 15)]" "cc_object s = 15"
    using demo_cc_run by auto
  have "list_all (cc_fresh 2) demo_cc" by (simp add: demo_cc_def CCSIM_HELP_BOUND_def numeral_eq_Suc)
  then have "\<forall>t. \<exists>now. cc_entries t (cc_log s) = cc_hist s t @ now \<and> length now \<le> 1 \<and> (cc_idle (cc_pc s t) \<longrightarrow> now = [])"
    using cc_linearizable [OF s(1)] by blast
  from this [rule_format, of 0] this [rule_format, of 1] show ?thesis using s by auto
qed

text \<open>A thread inside \<open>applyOp\<close> that does not spin on a locked node can move, and there is always one.\<close>

lemma cc_moves:
  assumes "cc_core b s" and "\<not> cc_idle (cc_pc s u)" and "\<And>k c. cc_pc s u = CcSpin k c \<Longrightarrow> \<not> cc_locked s c"
  shows "\<exists>s'. cc_applyOp f n (cc_pc s u) u s = Some s' \<and> cc_pc s' u \<noteq> cc_pc s u"
proof -
  obtain p ts where sh: "cc_shape b s p ts" using assms(1) by (auto simp: cc_core_def)
  show ?thesis using assms(2,3) shape_ok [OF sh, of u] by (cases "cc_pc s u") (auto split: prod.splits option.splits)
qed

lemma cc_mover:
  assumes "cc_core b s" and "\<not> cc_idle (cc_pc s t)"
  shows "\<exists>u. \<not> cc_idle (cc_pc s u) \<and> (\<forall>k c. cc_pc s u = CcSpin k c \<longrightarrow> \<not> cc_locked s c)"
proof -
  obtain p ts where sh: "cc_shape b s p ts" using assms(1) by (auto simp: cc_core_def)
  show ?thesis
  proof (cases "\<exists>d. combining (cc_pc s d)")
    case True
    then obtain d where d: "combining (cc_pc s d)" by blast
    show ?thesis by (rule exI [of _ d]) (use d in \<open>cases "cc_pc s d"; simp\<close>)
  next
    case False
    then have nl: "\<not> leading p (cc_pc s d)" and nf: "finishing (cc_pc s d) = None" for d
      using leading_combining finishing_combining by (metis, metis not_None_eq)
    show ?thesis
    proof (cases ts)
      case Nil
      have "\<not> cc_locked s c" if "cc_pc s t = CcSpin k c" for k c
        using shape_ok [OF sh, of t] that Nil nf by (simp split: if_splits)
      then show ?thesis using assms(2) by blast
    next
      case (Cons u us)
      then have c: "cc_cur (cc_pc s u) = p" using sh by (simp add: cc_shape_def)
      have "\<not> cc_locked s p" using sh nl by (simp add: cc_shape_def)
      moreover have "\<not> cc_idle (cc_pc s u)" using shape_ok [OF sh, of u] Cons by (cases "cc_pc s u") auto
      ultimately show ?thesis using c by (intro exI [of _ u]) auto
    qed
  qed
qed

text \<open>
  (C23) CC-Synch does not deadlock: as long as a thread is inside \<open>applyOp\<close>, some thread that is inside can
  take a step that is not a turn of its waiting loop.
\<close>

theorem cc_progress:
  assumes "mrun (cc_step f n) es (cc_lock_init g i obj) = Some s" and "list_all (cc_fresh n) es" and "\<not> cc_idle (cc_pc s t)"
  shows "\<exists>u s'. \<not> cc_idle (cc_pc s u) \<and> cc_step f n (CcRun u) s = Some s' \<and> cc_pc s' u \<noteq> cc_pc s u"
proof -
  have core: "cc_core (CCSIM_HELP_BOUND n) s" using cc_run_inv [OF assms(1,2)] by (simp add: cc_inv_def)
  obtain u where "\<not> cc_idle (cc_pc s u)" "\<forall>k c. cc_pc s u = CcSpin k c \<longrightarrow> \<not> cc_locked s c"
    using cc_mover [OF core assms(3)] by blast
  then show ?thesis using cc_moves [OF core, of u f n] by (intro exI [of _ u]) auto
qed

theorem cc_progress_witness:
  "\<exists>s u s'. mrun (cc_step (\<lambda>a i x. (x * a, x * a)) 2) [CcCall 0 3 0] (cc_lock_init (\<lambda>x. 0) (\<lambda>x. 0) (1 :: i32)) = Some s \<and>
    cc_step (\<lambda>a i x. (x * a, x * a)) 2 (CcRun u) s = Some s'"
proof -
  obtain s where s: "mrun (cc_step (\<lambda>a i x. (x * a, x * a)) 2) [CcCall 0 3 0] (cc_lock_init (\<lambda>x. 0) (\<lambda>x. 0) (1 :: i32)) = Some s"
    "cc_pc s 0 = CcSwap 0"
    by (simp add: cc_lock_init_def)
  have "list_all (cc_fresh 2) [CcCall 0 3 0]" by (simp add: CCSIM_HELP_BOUND_def)
  moreover have "\<not> cc_idle (cc_pc s 0)" using s(2) by simp
  ultimately show ?thesis using cc_progress [OF s(1)] s(1) by blast
qed

section \<open>When \<open>counter\<close> starts at its bound or above\<close>

fun cc_dead_at :: "'o ccsynch \<Rightarrow> tid \<Rightarrow> ccpc \<Rightarrow> bool" where
  "cc_dead_at s u CcIdle = True"
| "cc_dead_at s u (CcDone v) = True"
| "cc_dead_at s u (CcSwap k) = cc_locked s (cc_next_node s u)"
| "cc_dead_at s u (CcArg k c q) = cc_locked s c"
| "cc_dead_at s u (CcLink k c q) = cc_locked s c"
| "cc_dead_at s u (CcSpin k c) = cc_locked s c"
| "cc_dead_at s u _ = False"

definition cc_dead :: "'o ccsynch \<Rightarrow> bool" where
  "cc_dead s \<longleftrightarrow> cc_locked s (cc_tail s) \<and> (\<forall>u. cc_dead_at s u (cc_pc s u))"

lemma cc_dead_at_mono:
  "cc_dead_at s u q \<Longrightarrow> \<forall>x. cc_locked s x \<longrightarrow> cc_locked s' x \<Longrightarrow> cc_next_node s' u = cc_next_node s u \<Longrightarrow> cc_dead_at s' u q"
  by (cases q) auto

lemma cc_dead_step:
  assumes d: "cc_dead s" and run: "cc_step f n e s = Some s'"
  shows "cc_dead s' \<and> cc_hist s' = cc_hist s \<and> cc_object s' = cc_object s"
proof (cases e)
  case (CcCall t arg k)
  then have s': "s' = ccgo t (CcSwap k) ((cc_prepare t s)\<lparr>cc_arg := (cc_arg s)(t := arg)\<rparr>)" using run by (simp split: if_splits)
  have "cc_dead_at s' u (cc_pc s' u)" for u
    using d cc_dead_at_mono [of s u "cc_pc s u" s'] by (cases "u = t") (auto simp: s' cc_prepare_def Let_def cc_dead_def)
  then show ?thesis using d by (auto simp: s' cc_dead_def cc_prepare_def Let_def)
next
  case (CcRun t)
  have dt: "cc_dead_at s t (cc_pc s t)" using d by (simp add: cc_dead_def)
  have other: "cc_dead_at s' u (cc_pc s' u)"
    if "cc_pc s' u = cc_pc s u" "cc_locked s' = cc_locked s" "cc_next_node s' u = cc_next_node s u" for u
    using d that cc_dead_at_mono [of s u "cc_pc s u" s'] by (simp add: cc_dead_def)
  show ?thesis
  proof (cases "cc_pc s t")
    case (CcSwap k)
    then have "cc_dead_at s' u (cc_pc s' u)" for u using run CcRun d other [of u] by (cases "u = t") (auto simp: cc_dead_def)
    then show ?thesis using run CcRun CcSwap dt by (auto simp: cc_dead_def)
  next
    case (CcArg k c q)
    then have "cc_dead_at s' u (cc_pc s' u)" for u using run CcRun dt other [of u] by (cases "u = t") auto
    then show ?thesis using run CcRun CcArg d by (auto simp: cc_dead_def)
  next
    case (CcLink k c q)
    then have "cc_dead_at s' u (cc_pc s' u)" for u using run CcRun dt other [of u] by (cases "u = t") auto
    then show ?thesis using run CcRun CcLink d by (auto simp: cc_dead_def)
  qed (use run CcRun dt d in auto)
qed

lemma cc_dead_run:
  "cc_dead s \<Longrightarrow> mrun (cc_step f n) es s = Some s' \<Longrightarrow> cc_hist s' = cc_hist s \<and> cc_object s' = cc_object s"
proof (induction es arbitrary: s)
  case (Cons e es)
  then obtain u where u: "cc_step f n e s = Some u" "mrun (cc_step f n) es u = Some s'" by (auto split: option.splits)
  then show ?case using Cons.IH [of u] cc_dead_step [OF Cons.prems(1) u(1)] by simp
qed simp

text \<open>
  (C24) \<open>counter\<close> is never initialised. When its register holds the bound or more at the first operation, that
  operation is never applied and \<open>applyOp\<close> returns its argument; the node behind it stays locked, so that
  no operation of any thread ever returns or changes the object again.
\<close>

theorem cc_counter_garbage:
  assumes "CCSIM_HELP_BOUND n \<le> k" and "t < n"
  shows "\<exists>s. mrun (cc_step f n) (CcCall t arg k # replicate 8 (CcRun t)) (cc_lock_init g i obj) = Some s \<and>
    cc_pc s t = CcDone arg \<and> cc_object s = obj \<and> cc_log s = [] \<and>
    (\<forall>es s'. mrun (cc_step f n) es s = Some s' \<longrightarrow> cc_hist s' = cc_hist s \<and> cc_object s' = obj)"
proof -
  obtain s where s: "mrun (cc_step f n) (CcCall t arg k # replicate 8 (CcRun t)) (cc_lock_init g i obj) = Some s"
    "cc_pc s = (\<lambda>u. CcIdle)(t := CcDone arg)" "cc_object s = obj" "cc_log s = []" "cc_tail s = Suc t" "cc_locked s (Suc t)"
  proof -
    have eight: "replicate 8 (CcRun t) = replicate 4 (CcRun t) @ replicate 4 (CcRun t)" by (simp flip: replicate_add)
    have four: "replicate 4 (CcRun t) = [CcRun t, CcRun t, CcRun t, CcRun t]" by (simp add: numeral_eq_Suc)
    obtain s1 where s1: "mrun (cc_step f n) (CcCall t arg k # replicate 4 (CcRun t)) (cc_lock_init g i obj) = Some s1"
      "cc_pc s1 = (\<lambda>u. CcIdle)(t := CcCheck k 0)" "cc_object s1 = obj" "cc_log s1 = []" "cc_tail s1 = Suc t" "cc_locked s1 (Suc t)"
      "\<not> cc_completed s1 0" "cc_arg_ret s1 0 = arg"
      unfolding four using assms(2) by (simp add: cc_lock_init_def cc_prepare_def Let_def)
    obtain s2 where s2: "mrun (cc_step f n) (replicate 4 (CcRun t)) s1 = Some s2"
      "cc_pc s2 = (\<lambda>u. CcIdle)(t := CcDone arg)" "cc_object s2 = obj" "cc_log s2 = []" "cc_tail s2 = Suc t" "cc_locked s2 (Suc t)"
      unfolding four using assms(1) s1(2-) by simp
    have "CcCall t arg k # replicate 8 (CcRun t) = (CcCall t arg k # replicate 4 (CcRun t)) @ replicate 4 (CcRun t)" using eight by simp
    then show thesis using that [of s2] s1 s2 by (simp only: mrun_append option.case)
  qed
  have "cc_dead s" using s by (simp add: cc_dead_def)
  then show ?thesis using s cc_dead_run [of s f n] by auto
qed

theorem cc_counter_garbage_witness:
  "\<exists>s. mrun (cc_step (\<lambda>a i x. (x * a, x * a)) 2) (CcCall 0 5 6 # replicate 8 (CcRun 0)) (cc_lock_init (\<lambda>x. 0) (\<lambda>x. 0) (3 :: i32)) = Some s \<and>
    cc_pc s 0 = CcDone 5 \<and> cc_object s = 3"
proof -
  have "CCSIM_HELP_BOUND 2 \<le> (6 :: int)" "(0 :: nat) < 2" by (simp_all add: CCSIM_HELP_BOUND_def)
  from cc_counter_garbage [OF this, of "\<lambda>a i x. (x * a, x * a)" 5 "\<lambda>x. 0" "\<lambda>x. 0" 3] show ?thesis
    by (elim exE conjE) (intro exI conjI)
qed

end
