(* ===== verification/Serial.thy ===== *)
theory Serial
  imports CcSynch
begin

text \<open>
  The sequential objects that the benchmarks of \<open>synch1.0.1\<close> run under a combining lock: the queue of
  \<open>ccqueue.c\<close>, \<open>hqueue.c\<close> and \<open>dsmqueue.c\<close>, the stack of \<open>hstack.c\<close>, \<open>dsmstack.c\<close> and \<open>ccstack.h\<close>, and the
  one-word objects of \<open>ccuobject.c\<close>, \<open>huobject.c\<close> and \<open>dsmuobject.c\<close>.
\<close>

section \<open>Linked nodes\<close>

text \<open>Node 0 is the guard; \<open>alloc_obj\<close> never hands out a node that is in use, so that a counter stands for it.\<close>

record nodes =
  nd_val :: "nat \<Rightarrow> i32"
  nd_next :: "nat \<Rightarrow> nat option"
  nd_fresh :: nat

definition INT_MIN :: i32 where
  "INT_MIN = 2 ^ 31"

definition guard_nodes :: nodes where
  "guard_nodes = \<lparr>nd_val = (\<lambda>x. if x = 0 then INT_MIN else 0), nd_next = (\<lambda>x. None), nd_fresh = 1\<rparr>"

fun node_chain :: "(nat \<Rightarrow> nat option) \<Rightarrow> nat \<Rightarrow> nat list \<Rightarrow> bool" where
  "node_chain nx p [] \<longleftrightarrow> nx p = None"
| "node_chain nx p (n # ns) \<longleftrightarrow> nx p = Some n \<and> node_chain nx n ns"

lemma node_chain_upd: "node_chain nx p ns \<Longrightarrow> x \<notin> set (p # ns) \<Longrightarrow> node_chain (nx(x := y)) p ns"
  by (induction ns arbitrary: p) auto

lemma node_chain_snoc:
  "node_chain nx p ns \<Longrightarrow> distinct (p # ns) \<Longrightarrow> n \<notin> set (p # ns) \<Longrightarrow>
    node_chain (nx(n := None, last (p # ns) := Some n)) p (ns @ [n])"
  by (induction ns arbitrary: p) auto

section \<open>The queue\<close>

record serialq = nodes +
  sq_first :: nat
  sq_last :: nat

definition sq_init :: serialq where
  "sq_init = nodes.extend guard_nodes \<lparr>sq_first = 0, sq_last = 0\<rparr>"

text \<open>\<open>ccqueue.c\<close>\<close>

definition ccq_enqueue :: "i32 \<Rightarrow> i32 \<Rightarrow> serialq \<Rightarrow> i32 \<times> serialq" where
  "ccq_enqueue arg pid q =
     (let node = nd_fresh q;
          q1 = q\<lparr>nd_fresh := node + 1, nd_next := (nd_next q)(node := None), nd_val := (nd_val q)(node := arg)\<rparr>;
          q2 = q1\<lparr>nd_next := (nd_next q1)(sq_last q1 := Some node)\<rparr>
      in (-1, q2\<lparr>sq_last := node\<rparr>))"

definition ccq_dequeue :: "i32 \<Rightarrow> i32 \<Rightarrow> serialq \<Rightarrow> i32 \<times> serialq" where
  "ccq_dequeue arg pid q =
     (let node = sq_first q in
      case nd_next q (sq_first q) of
        Some n \<Rightarrow> (nd_val q node, q\<lparr>sq_first := n\<rparr>)
      | None \<Rightarrow> (-1, q))"

text \<open>\<open>hqueue.c\<close>\<close>

definition hq_enqueue :: "i32 \<Rightarrow> i32 \<Rightarrow> serialq \<Rightarrow> i32 \<times> serialq" where
  "hq_enqueue arg pid q =
     (let node = nd_fresh q;
          q1 = q\<lparr>nd_fresh := node + 1, nd_next := (nd_next q)(node := None), nd_val := (nd_val q)(node := arg)\<rparr>;
          q2 = q1\<lparr>nd_next := (nd_next q1)(sq_last q1 := Some node)\<rparr>
      in (-1, q2\<lparr>sq_last := node\<rparr>))"

definition hq_dequeue :: "i32 \<Rightarrow> i32 \<Rightarrow> serialq \<Rightarrow> i32 \<times> serialq" where
  "hq_dequeue arg pid q =
     (let node = sq_first q in
      case nd_next q (sq_first q) of
        Some n \<Rightarrow> (nd_val q node, q\<lparr>sq_first := n\<rparr>)
      | None \<Rightarrow> (-1, q))"

text \<open>\<open>dsmqueue.c\<close>, where \<open>first\<close> and \<open>last\<close> are fields of \<open>sp\<close>\<close>

definition dsmq_enqueue :: "i32 \<Rightarrow> i32 \<Rightarrow> serialq \<Rightarrow> i32 \<times> serialq" where
  "dsmq_enqueue arg pid sp =
     (let node = nd_fresh sp;
          q1 = sp\<lparr>nd_fresh := node + 1, nd_next := (nd_next sp)(node := None), nd_val := (nd_val sp)(node := arg)\<rparr>;
          q2 = q1\<lparr>nd_next := (nd_next q1)(sq_last q1 := Some node)\<rparr>
      in (-1, q2\<lparr>sq_last := node\<rparr>))"

definition dsmq_dequeue :: "i32 \<Rightarrow> i32 \<Rightarrow> serialq \<Rightarrow> i32 \<times> serialq" where
  "dsmq_dequeue arg pid sp =
     (let node = sq_first sp in
      case nd_next sp (sq_first sp) of
        Some n \<Rightarrow> (nd_val sp node, sp\<lparr>sq_first := n\<rparr>)
      | None \<Rightarrow> (-1, sp))"

text \<open>\<open>sq_rep q v xs\<close>: the node at the front holds \<open>v\<close>, the ones behind it \<open>xs\<close>.\<close>

definition sq_rep :: "serialq \<Rightarrow> i32 \<Rightarrow> i32 list \<Rightarrow> bool" where
  "sq_rep q v xs \<longleftrightarrow> (\<exists>ns. node_chain (nd_next q) (sq_first q) ns \<and> distinct (sq_first q # ns) \<and>
     (\<forall>n \<in> set (sq_first q # ns). n < nd_fresh q) \<and> sq_last q = last (sq_first q # ns) \<and>
     nd_val q (sq_first q) = v \<and> map (nd_val q) ns = xs)"

text \<open>A queue whose dequeue returns the value of the node it leaves, not of the one it reaches.\<close>

locale late_queue =
  fixes enq deq :: "i32 \<Rightarrow> i32 \<Rightarrow> 'q \<Rightarrow> i32 \<times> 'q" and rep :: "'q \<Rightarrow> i32 \<Rightarrow> i32 list \<Rightarrow> bool"
  assumes enq_rep: "rep q v xs \<Longrightarrow> rep (snd (enq a i q)) v (xs @ [a])"
    and deq_empty: "rep q v [] \<Longrightarrow> deq a i q = (-1, q)"
    and deq_front: "rep q v (x # xs) \<Longrightarrow> fst (deq a i q) = v \<and> rep (snd (deq a i q)) x xs"

datatype sqop = SEnq i32 | SDeq

text \<open>What the dequeues of a sequence of operations return: of the code, of a queue that is late by one, and of a FIFO queue.\<close>

fun sq_results :: "(i32 \<Rightarrow> i32 \<Rightarrow> 'q \<Rightarrow> i32 \<times> 'q) \<Rightarrow> (i32 \<Rightarrow> i32 \<Rightarrow> 'q \<Rightarrow> i32 \<times> 'q) \<Rightarrow> sqop list \<Rightarrow> 'q \<Rightarrow> i32 list" where
  "sq_results enq deq [] q = []"
| "sq_results enq deq (SEnq a # ops) q = sq_results enq deq ops (snd (enq a 0 q))"
| "sq_results enq deq (SDeq # ops) q = fst (deq 1 0 q) # sq_results enq deq ops (snd (deq 1 0 q))"

fun late_results :: "i32 \<Rightarrow> i32 list \<Rightarrow> sqop list \<Rightarrow> i32 list" where
  "late_results v xs [] = []"
| "late_results v xs (SEnq a # ops) = late_results v (xs @ [a]) ops"
| "late_results v [] (SDeq # ops) = -1 # late_results v [] ops"
| "late_results v (x # xs) (SDeq # ops) = v # late_results x xs ops"

fun fifo_results :: "i32 list \<Rightarrow> sqop list \<Rightarrow> i32 list" where
  "fifo_results xs [] = []"
| "fifo_results xs (SEnq a # ops) = fifo_results (xs @ [a]) ops"
| "fifo_results [] (SDeq # ops) = -1 # fifo_results [] ops"
| "fifo_results (x # xs) (SDeq # ops) = x # fifo_results xs ops"

context late_queue
begin

lemma results: "rep q v xs \<Longrightarrow> sq_results enq deq ops q = late_results v xs ops"
proof (induction v xs ops arbitrary: q rule: late_results.induct)
  case (2 v xs a ops)
  then show ?case using enq_rep by simp
next
  case (3 v ops)
  then show ?case using deq_empty by simp
next
  case (4 v x xs ops)
  then show ?case using deq_front [OF "4.prems"] by simp
qed simp

end

lemma ccq_enqueue_rep:
  assumes "sq_rep q v xs"
  shows "sq_rep (snd (ccq_enqueue a i q)) v (xs @ [a])"
proof -
  obtain ns where ns: "node_chain (nd_next q) (sq_first q) ns" "distinct (sq_first q # ns)"
    "\<forall>n \<in> set (sq_first q # ns). n < nd_fresh q" "sq_last q = last (sq_first q # ns)"
    "nd_val q (sq_first q) = v" "map (nd_val q) ns = xs"
    using assms unfolding sq_rep_def by blast
  let ?n = "nd_fresh q"
  have n: "?n \<notin> set (sq_first q # ns)" using ns(3) by blast
  have "node_chain ((nd_next q)(?n := None, sq_last q := Some ?n)) (sq_first q) (ns @ [?n])"
    unfolding ns(4) by (rule node_chain_snoc [OF ns(1,2) n])
  moreover have "map ((nd_val q)(?n := a)) (ns @ [?n]) = xs @ [a]" using n ns(6) by auto
  ultimately show ?thesis unfolding sq_rep_def ccq_enqueue_def Let_def
    using ns n by (intro exI [of _ "ns @ [?n]"]) auto
qed

interpretation ccq: late_queue ccq_enqueue ccq_dequeue sq_rep
proof unfold_locales
  show "sq_rep q v xs \<Longrightarrow> sq_rep (snd (ccq_enqueue a i q)) v (xs @ [a])" for q v xs a i by (rule ccq_enqueue_rep)
  show "sq_rep q v [] \<Longrightarrow> ccq_dequeue a i q = (-1, q)" for q v a i
    by (auto simp: sq_rep_def ccq_dequeue_def)
  show "sq_rep q v (x # xs) \<Longrightarrow> fst (ccq_dequeue a i q) = v \<and> sq_rep (snd (ccq_dequeue a i q)) x xs" for q v x xs a i
  proof -
    assume "sq_rep q v (x # xs)"
    then obtain n ns where ns: "node_chain (nd_next q) (sq_first q) (n # ns)" "distinct (sq_first q # n # ns)"
      "\<forall>m \<in> set (sq_first q # n # ns). m < nd_fresh q" "sq_last q = last (sq_first q # n # ns)"
      "nd_val q (sq_first q) = v" "nd_val q n = x" "map (nd_val q) ns = xs"
      unfolding sq_rep_def by (auto simp: map_eq_Cons_conv)
    then show ?thesis by (auto simp: ccq_dequeue_def sq_rep_def intro!: exI [of _ ns])
  qed
qed

text \<open>The three files hold the same text.\<close>

lemma serial_queues_same:
  "hq_enqueue = ccq_enqueue" "hq_dequeue = ccq_dequeue" "dsmq_enqueue = ccq_enqueue" "dsmq_dequeue = ccq_dequeue"
  by (intro ext; simp add: hq_enqueue_def ccq_enqueue_def hq_dequeue_def ccq_dequeue_def dsmq_enqueue_def dsmq_dequeue_def)+

lemma sq_init_rep: "sq_rep sq_init INT_MIN []"
  by (simp add: sq_rep_def sq_init_def guard_nodes_def nodes.defs)

text \<open>
  The queues of \<open>ccqueue.c\<close>, \<open>hqueue.c\<close> and \<open>dsmqueue.c\<close> are late by one: a successful dequeue returns
  the value of the dummy node it leaves. The first one returns \<open>INT_MIN\<close>, every later one the value the
  one before it should have returned, and the value enqueued last is not returned before another one is
  enqueued; an enqueue followed by a dequeue is already enough to differ from a FIFO queue.
\<close>

lemma serial_queues_late:
  "sq_results ccq_enqueue ccq_dequeue ops sq_init = late_results INT_MIN [] ops \<and>
   sq_results hq_enqueue hq_dequeue ops sq_init = late_results INT_MIN [] ops \<and>
   sq_results dsmq_enqueue dsmq_dequeue ops sq_init = late_results INT_MIN [] ops \<and>
   sq_results ccq_enqueue ccq_dequeue [SEnq a, SDeq] sq_init = [INT_MIN] \<and> fifo_results [] [SEnq a, SDeq] = [a]"
  unfolding serial_queues_same by (simp only: ccq.results [OF sq_init_rep]) simp

section \<open>The stack\<close>

record serials = nodes +
  st_head :: nat

text \<open>\<open>hstack.c\<close>\<close>

definition hs_init :: serials where
  "hs_init = nodes.extend guard_nodes \<lparr>st_head = 0\<rparr>"

definition hs_push :: "i32 \<Rightarrow> i32 \<Rightarrow> serials \<Rightarrow> i32 \<times> serials" where
  "hs_push arg pid st =
     (let node = nd_fresh st
      in (-1, st\<lparr>nd_fresh := node + 1, nd_next := (nd_next st)(node := Some (st_head st)), nd_val := (nd_val st)(node := arg),
            st_head := node\<rparr>))"

definition hs_pop :: "i32 \<Rightarrow> i32 \<Rightarrow> serials \<Rightarrow> i32 \<times> serials" where
  "hs_pop arg pid st =
     (let node = st_head st in
      case nd_next st (st_head st) of
        None \<Rightarrow> (-1, st)
      | Some n \<Rightarrow> (nd_val st node, st\<lparr>st_head := n\<rparr>))"

text \<open>\<open>dsmstack.c\<close>\<close>

definition dsms_init :: serials where
  "dsms_init = nodes.extend guard_nodes \<lparr>st_head = 0\<rparr>"

definition dsms_push :: "i32 \<Rightarrow> i32 \<Rightarrow> serials \<Rightarrow> i32 \<times> serials" where
  "dsms_push arg pid st =
     (let node = nd_fresh st
      in (-1, st\<lparr>nd_fresh := node + 1, nd_next := (nd_next st)(node := Some (st_head st)), nd_val := (nd_val st)(node := arg),
            st_head := node\<rparr>))"

definition dsms_pop :: "i32 \<Rightarrow> i32 \<Rightarrow> serials \<Rightarrow> i32 \<times> serials" where
  "dsms_pop arg pid st =
     (let node = st_head st in
      case nd_next st (st_head st) of
        None \<Rightarrow> (-1, st)
      | Some n \<Rightarrow> (nd_val st node, st\<lparr>st_head := n\<rparr>))"

text \<open>\<open>ccstack.h\<close>, whose \<open>pop\<close> takes no argument\<close>

definition ccs_init :: serials where
  "ccs_init = nodes.extend guard_nodes \<lparr>st_head = 0\<rparr>"

definition ccs_push :: "i32 \<Rightarrow> serials \<Rightarrow> i32 \<times> serials" where
  "ccs_push arg st =
     (let node = nd_fresh st
      in (-1, st\<lparr>nd_fresh := node + 1, nd_next := (nd_next st)(node := Some (st_head st)), nd_val := (nd_val st)(node := arg),
            st_head := node\<rparr>))"

definition ccs_pop :: "serials \<Rightarrow> i32 \<times> serials" where
  "ccs_pop st =
     (let node = st_head st in
      case nd_next st (st_head st) of
        None \<Rightarrow> (-1, st)
      | Some n \<Rightarrow> (nd_val st node, st\<lparr>st_head := n\<rparr>))"

text \<open>
  The operation of its \<open>applyOp\<close> on a node that holds \<open>arg_ret\<close>: \<open>PUSH\<close> is both the code of the operation
  and the value pushed, and leaves \<open>arg_ret\<close> as it is.
\<close>

definition CCS_PUSH :: i32 where
  "CCS_PUSH = 1"

definition CCS_POP :: i32 where
  "CCS_POP = 2"

definition ccs_apply :: "i32 \<Rightarrow> i32 \<Rightarrow> serials \<Rightarrow> i32 \<times> serials" where
  "ccs_apply arg_ret pid st = (if arg_ret = CCS_PUSH then (arg_ret, snd (ccs_push arg_ret st)) else ccs_pop st)"

text \<open>\<open>st_rep st xs\<close>: the nodes above the guard hold \<open>xs\<close>, the top first.\<close>

definition st_rep :: "serials \<Rightarrow> i32 list \<Rightarrow> bool" where
  "st_rep st xs \<longleftrightarrow> (\<exists>ns. node_chain (nd_next st) (st_head st) ns \<and> distinct (st_head st # ns) \<and>
     (\<forall>n \<in> set (st_head st # ns). n < nd_fresh st) \<and> map (nd_val st) (butlast (st_head st # ns)) = xs)"

locale serial_stack =
  fixes push pop :: "i32 \<Rightarrow> i32 \<Rightarrow> 's \<Rightarrow> i32 \<times> 's" and rep :: "'s \<Rightarrow> i32 list \<Rightarrow> bool"
  assumes push_rep: "rep st xs \<Longrightarrow> rep (snd (push a i st)) (a # xs)"
    and pop_empty: "rep st [] \<Longrightarrow> pop a i st = (-1, st)"
    and pop_top: "rep st (x # xs) \<Longrightarrow> fst (pop a i st) = x \<and> rep (snd (pop a i st)) xs"

datatype stop = SPush i32 | SPop

fun st_results :: "(i32 \<Rightarrow> i32 \<Rightarrow> 's \<Rightarrow> i32 \<times> 's) \<Rightarrow> (i32 \<Rightarrow> i32 \<Rightarrow> 's \<Rightarrow> i32 \<times> 's) \<Rightarrow> stop list \<Rightarrow> 's \<Rightarrow> i32 list" where
  "st_results push pop [] st = []"
| "st_results push pop (SPush a # ops) st = st_results push pop ops (snd (push a 0 st))"
| "st_results push pop (SPop # ops) st = fst (pop 1 0 st) # st_results push pop ops (snd (pop 1 0 st))"

fun lifo_results :: "i32 list \<Rightarrow> stop list \<Rightarrow> i32 list" where
  "lifo_results xs [] = []"
| "lifo_results xs (SPush a # ops) = lifo_results (a # xs) ops"
| "lifo_results [] (SPop # ops) = -1 # lifo_results [] ops"
| "lifo_results (x # xs) (SPop # ops) = x # lifo_results xs ops"

context serial_stack
begin

lemma results: "rep st xs \<Longrightarrow> st_results push pop ops st = lifo_results xs ops"
proof (induction xs ops arbitrary: st rule: lifo_results.induct)
  case (2 xs a ops)
  then show ?case using push_rep by simp
next
  case (3 ops)
  then show ?case using pop_empty by simp
next
  case (4 x xs ops)
  then show ?case using pop_top [OF "4.prems"] by simp
qed simp

end

lemma hs_push_rep:
  assumes "st_rep st xs"
  shows "st_rep (snd (hs_push a i st)) (a # xs)"
proof -
  obtain ns where ns: "node_chain (nd_next st) (st_head st) ns" "distinct (st_head st # ns)"
    "\<forall>n \<in> set (st_head st # ns). n < nd_fresh st" "map (nd_val st) (butlast (st_head st # ns)) = xs"
    using assms unfolding st_rep_def by blast
  let ?n = "nd_fresh st"
  have n: "?n \<notin> set (st_head st # ns)" using ns(3) by blast
  have "node_chain ((nd_next st)(?n := Some (st_head st))) ?n (st_head st # ns)"
    using node_chain_upd [OF ns(1) n] by simp
  moreover have "map ((nd_val st)(?n := a)) (butlast (st_head st # ns)) = map (nd_val st) (butlast (st_head st # ns))"
    by (rule map_cong) (use n in \<open>auto dest: in_set_butlastD split: if_splits\<close>)
  then have "map ((nd_val st)(?n := a)) (butlast (?n # st_head st # ns)) = a # xs"
    unfolding butlast.simps(2) [of ?n "st_head st # ns"] using ns(4) by (simp del: butlast.simps)
  ultimately show ?thesis unfolding st_rep_def hs_push_def Let_def
    using ns n by (intro exI [of _ "st_head st # ns"]) auto
qed

interpretation hst: serial_stack hs_push hs_pop st_rep
proof unfold_locales
  show "st_rep st xs \<Longrightarrow> st_rep (snd (hs_push a i st)) (a # xs)" for st xs a i by (rule hs_push_rep)
  show "st_rep st [] \<Longrightarrow> hs_pop a i st = (-1, st)" for st a i
    by (auto simp: st_rep_def hs_pop_def Let_def split: if_splits)
  show "st_rep st (x # xs) \<Longrightarrow> fst (hs_pop a i st) = x \<and> st_rep (snd (hs_pop a i st)) xs" for st x xs a i
  proof -
    assume "st_rep st (x # xs)"
    then obtain ns where ns: "node_chain (nd_next st) (st_head st) ns" "distinct (st_head st # ns)"
      "\<forall>n \<in> set (st_head st # ns). n < nd_fresh st" "map (nd_val st) (butlast (st_head st # ns)) = x # xs"
      unfolding st_rep_def by (elim exE conjE) (rule that)
    then obtain n us where e: "ns = n # us" by (cases ns) auto
    have pop: "hs_pop a i st = (x, st\<lparr>st_head := n\<rparr>)" using ns(1,4) e by (simp add: hs_pop_def Let_def)
    have "st_rep (st\<lparr>st_head := n\<rparr>) xs"
      unfolding st_rep_def by (rule exI [of _ us]) (use ns e in simp)
    then show ?thesis by (simp add: pop)
  qed
qed

lemma serial_stacks_same:
  "dsms_init = hs_init" "dsms_push = hs_push" "dsms_pop = hs_pop" "ccs_init = hs_init"
  "(\<lambda>a i. ccs_push a) = hs_push" "(\<lambda>a i. ccs_pop) = hs_pop"
  by (simp_all add: dsms_init_def hs_init_def ccs_init_def)
     (intro ext; simp add: dsms_push_def hs_push_def dsms_pop_def hs_pop_def ccs_push_def ccs_pop_def)+

lemma hs_init_rep: "st_rep hs_init []"
  by (simp add: st_rep_def hs_init_def guard_nodes_def nodes.defs)

text \<open>
  The stacks of \<open>hstack.c\<close>, \<open>dsmstack.c\<close> and \<open>ccstack.h\<close> are last in, first out: every sequence of
  pushes and pops returns what the list does, -1 for an empty stack.
\<close>

lemma serial_stacks_lifo:
  "st_results hs_push hs_pop ops hs_init = lifo_results [] ops \<and>
   st_results dsms_push dsms_pop ops dsms_init = lifo_results [] ops \<and>
   st_results (\<lambda>a i. ccs_push a) (\<lambda>a i. ccs_pop) ops ccs_init = lifo_results [] ops"
  unfolding serial_stacks_same by (simp only: hst.results [OF hs_init_rep])

section \<open>Objects of one word\<close>

definition ccu_init :: i32 where
  "ccu_init = 1"

definition ccu_fetchAndMultiply :: "i32 \<Rightarrow> i32 \<Rightarrow> i32 \<Rightarrow> i32 \<times> i32" where
  "ccu_fetchAndMultiply arg pid obj = (let obj' = obj * arg in (obj', obj'))"

definition hu_init :: i32 where
  "hu_init = 1"

definition hu_fetchAndMultiply :: "i32 \<Rightarrow> i32 \<Rightarrow> i32 \<Rightarrow> i32 \<times> i32" where
  "hu_fetchAndMultiply arg pid obj = (let obj' = obj * arg in (obj', obj'))"

definition dsmu_init :: i32 where
  "dsmu_init = 1"

definition dsmu_fetchAndMultiply :: "i32 \<Rightarrow> i32 \<Rightarrow> i32 \<Rightarrow> i32 \<times> i32" where
  "dsmu_fetchAndMultiply arg pid obj = (let obj' = obj * arg in (obj', obj'))"

text \<open>The argument and the result of an entry of the log.\<close>

fun log_arg :: "tid \<times> i32 \<times> i32 \<times> i32 \<Rightarrow> i32" where
  "log_arg (t, a, i, r) = a"

fun log_ret :: "tid \<times> i32 \<times> i32 \<times> i32 \<Rightarrow> i32" where
  "log_ret (t, a, i, r) = r"

text \<open>What a sequential run of multiplications leaves and returns.\<close>

lemma legal_product:
  "cc_legal ccu_fetchAndMultiply obj l obj' \<Longrightarrow>
    obj' = obj * prod_list (map log_arg l) \<and>
    (\<forall>j < length l. log_ret (l ! j) = obj * prod_list (map log_arg (take (Suc j) l)))"
proof (induction l arbitrary: obj)
  case (Cons e l)
  obtain t a i r where e: "e = (t, a, i, r)" by (cases e)
  have "ccu_fetchAndMultiply a i obj = (obj * a, obj * a)" by (simp add: ccu_fetchAndMultiply_def Let_def)
  then have r: "r = obj * a" and l: "cc_legal ccu_fetchAndMultiply (obj * a) l obj'"
    using Cons.prems e by auto
  show ?case
  proof (intro conjI allI impI)
    show "obj' = obj * prod_list (map log_arg (e # l))" using Cons.IH [OF l] e by (simp add: ac_simps)
  next
    fix j
    assume j: "j < length (e # l)"
    show "log_ret ((e # l) ! j) = obj * prod_list (map log_arg (take (Suc j) (e # l)))"
    proof (cases j)
      case (Suc m)
      then show ?thesis using Cons.IH [OF l] j e by (auto simp: ac_simps split: prod.splits)
    qed (use e r in simp)
  qed
qed simp

text \<open>
  \<open>ccuobject.c\<close>, the multiplication under CC-Synch: in every reachable state the object is the product,
  modulo \<open>2 ^ 32\<close>, of the arguments of the operations applied so far, and each operation returned the
  product up to and including its own argument.
\<close>

lemma ccuobject_product:
  assumes "mrun (cc_step ccu_fetchAndMultiply n) es (cc_lock_init g i ccu_init) = Some s" and "list_all (cc_fresh n) es"
  shows "cc_object s = prod_list (map log_arg (cc_log s)) \<and>
    (\<forall>j < length (cc_log s). log_ret (cc_log s ! j) = prod_list (map log_arg (take (Suc j) (cc_log s))))"
proof -
  have "cc_legal ccu_fetchAndMultiply ccu_init (cc_log s) (cc_object s)"
    using cc_run_inv [OF assms] by (simp add: cc_inv_def)
  from legal_product [OF this] show ?thesis by (simp add: ccu_init_def)
qed

lemma ccuobject_product_witness:
  "\<exists>s. mrun (cc_step ccu_fetchAndMultiply 2) demo_cc (cc_lock_init (\<lambda>x. 0) (\<lambda>x. 0) ccu_init) = Some s \<and>
    length (cc_log s) = 2 \<and> cc_object s = prod_list (map log_arg (cc_log s))"
proof -
  have "map_option (\<lambda>s. length (cc_log s)) (mrun (cc_step ccu_fetchAndMultiply 2) demo_cc (cc_lock_init (\<lambda>x. 0) (\<lambda>x. 0) ccu_init)) = Some 2"
    by code_simp
  then obtain s where s: "mrun (cc_step ccu_fetchAndMultiply 2) demo_cc (cc_lock_init (\<lambda>x. 0) (\<lambda>x. 0) ccu_init) = Some s"
    "length (cc_log s) = 2" by auto
  have "list_all (cc_fresh 2) demo_cc" by (simp add: demo_cc_def CCSIM_HELP_BOUND_def numeral_eq_Suc)
  from ccuobject_product [OF s(1) this] show ?thesis using s by blast
qed

lemma one_word_objects_same:
  "hu_init = ccu_init" "dsmu_init = ccu_init" "hu_fetchAndMultiply = ccu_fetchAndMultiply" "dsmu_fetchAndMultiply = ccu_fetchAndMultiply"
  by (simp_all add: hu_init_def dsmu_init_def ccu_init_def hu_fetchAndMultiply_def dsmu_fetchAndMultiply_def ccu_fetchAndMultiply_def fun_eq_iff)

end
