(* ===== verification/LocksQueue.thy ===== *)
theory LocksQueue
  imports Clh Serial
begin

text \<open>
  The two-lock queue of \<open>synch1.0.1/locksqueue.c\<close>: enqueues hold the CLH lock \<open>ltail\<close>, dequeues the lock
  \<open>lhead\<close>, and an enqueue and a dequeue run at the same time, one access to shared memory per step.
\<close>

section \<open>The queue\<close>

datatype lqpc =
    LqIdle
  | LqELock nat      \<comment> \<open>\<open>clhLock(ltail, pid)\<close>, with the node \<open>n\<close>\<close>
  | LqELink nat      \<comment> \<open>\<open>Tail->next = n\<close>\<close>
  | LqETail nat      \<comment> \<open>\<open>Tail = n\<close>\<close>
  | LqEUnlock        \<comment> \<open>\<open>clhUnlock(ltail, pid)\<close>\<close>
  | LqDLock          \<comment> \<open>\<open>clhLock(lhead, pid)\<close>\<close>
  | LqDTest          \<comment> \<open>\<open>if (Head->next == null)\<close>\<close>
  | LqDValue         \<comment> \<open>\<open>result = Head->next->value\<close>\<close>
  | LqDHead i32      \<comment> \<open>\<open>Head = Head->next\<close>\<close>
  | LqDUnlock i32    \<comment> \<open>\<open>clhUnlock(lhead, pid)\<close>\<close>
  | LqDone i32

text \<open>
  \<open>lq_log\<close> records the effects in their order, with their threads, and \<open>lq_arg\<close> the parameter of a
  thread's last call of \<open>enqueue\<close>: an enqueue is recorded with its argument, not with what its node
  holds. No step reads them for anything else.
\<close>

record lqueue = nodes +
  lq_head :: nat
  lq_tail :: nat
  lq_lhead :: clh
  lq_ltail :: clh
  lq_pc :: "tid \<Rightarrow> lqpc"
  lq_log :: "(tid \<times> i32 qact) list"
  lq_arg :: "tid \<Rightarrow> i32"

definition lq_init :: lqueue where
  "lq_init = \<lparr>nd_val = (\<lambda>x. 0), nd_next = (\<lambda>x. None), nd_fresh = 1, lq_head = 0, lq_tail = 0,
     lq_lhead = clhLockInit, lq_ltail = clhLockInit, lq_pc = (\<lambda>t. LqIdle), lq_log = [],
     lq_arg = (\<lambda>t. 0)\<rparr>"

definition lqgo :: "tid \<Rightarrow> lqpc \<Rightarrow> lqueue \<Rightarrow> lqueue" where
  "lqgo t p s = s\<lparr>lq_pc := (lq_pc s)(t := p)\<rparr>"

text \<open>A step inside \<open>clhLock\<close>, or its return; a step inside \<open>clhUnlock\<close>, or its return.\<close>

definition lock_turn :: "tid \<Rightarrow> clh \<Rightarrow> clh option" where
  "lock_turn t l = (if cl_pc l t = CIn then Some l else clh_step (LockRun t) l)"

definition unlock_turn :: "tid \<Rightarrow> clh \<Rightarrow> clh option" where
  "unlock_turn t l = (if cl_pc l t = CIn then clh_step (Release t) l
     else if cl_pc l t = CIdle then Some l else clh_step (LockRun t) l)"

fun lq_enqueue :: "lqpc \<Rightarrow> tid \<Rightarrow> lqueue \<Rightarrow> lqueue option" where
  "lq_enqueue (LqELock n) t s =
     (case lock_turn t (lq_ltail s) of
        None \<Rightarrow> None
      | Some l \<Rightarrow> Some (lqgo t (if cl_pc (lq_ltail s) t = CIn then LqELink n else LqELock n) (s\<lparr>lq_ltail := l\<rparr>)))"
| "lq_enqueue (LqELink n) t s =
     Some (lqgo t (LqETail n) (s\<lparr>nd_next := (nd_next s)(lq_tail s := Some n), lq_log := lq_log s @ [(t, Put (lq_arg s t))]\<rparr>))"
| "lq_enqueue (LqETail n) t s = Some (lqgo t LqEUnlock (s\<lparr>lq_tail := n\<rparr>))"
| "lq_enqueue LqEUnlock t s =
     (case unlock_turn t (lq_ltail s) of
        None \<Rightarrow> None
      | Some l \<Rightarrow> Some (lqgo t (if cl_pc (lq_ltail s) t = CIdle then LqIdle else LqEUnlock) (s\<lparr>lq_ltail := l\<rparr>)))"
| "lq_enqueue _ t s = None"

fun lq_dequeue :: "lqpc \<Rightarrow> tid \<Rightarrow> lqueue \<Rightarrow> lqueue option" where
  "lq_dequeue LqDLock t s =
     (case lock_turn t (lq_lhead s) of
        None \<Rightarrow> None
      | Some l \<Rightarrow> Some (lqgo t (if cl_pc (lq_lhead s) t = CIn then LqDTest else LqDLock) (s\<lparr>lq_lhead := l\<rparr>)))"
| "lq_dequeue LqDTest t s =
     (if nd_next s (lq_head s) = None then Some (lqgo t (LqDUnlock (-1)) (s\<lparr>lq_log := lq_log s @ [(t, Empty)]\<rparr>))
      else Some (lqgo t LqDValue s))"
| "lq_dequeue LqDValue t s =
     (case nd_next s (lq_head s) of None \<Rightarrow> None | Some n \<Rightarrow> Some (lqgo t (LqDHead (nd_val s n)) s))"
| "lq_dequeue (LqDHead v) t s =
     (case nd_next s (lq_head s) of
        None \<Rightarrow> None
      | Some n \<Rightarrow> Some (lqgo t (LqDUnlock v) (s\<lparr>lq_head := n, lq_log := lq_log s @ [(t, Got v)]\<rparr>)))"
| "lq_dequeue (LqDUnlock v) t s =
     (case unlock_turn t (lq_lhead s) of
        None \<Rightarrow> None
      | Some l \<Rightarrow> Some (lqgo t (if cl_pc (lq_lhead s) t = CIdle then LqDone v else LqDUnlock v) (s\<lparr>lq_lhead := l\<rparr>)))"
| "lq_dequeue _ t s = None"

fun lq_idle :: "lqpc \<Rightarrow> bool" where
  "lq_idle LqIdle = True"
| "lq_idle (LqDone v) = True"
| "lq_idle _ = False"

datatype lqev = LqEnq tid i32 | LqDeq tid | LqRun tid

fun lq_step :: "lqev \<Rightarrow> lqueue \<Rightarrow> lqueue option" where
  "lq_step (LqEnq t arg) s =
     (if \<not> lq_idle (lq_pc s t) then None
      else case clh_step (Acquire t) (lq_ltail s) of
        None \<Rightarrow> None
      | Some l \<Rightarrow> (let n = nd_fresh s
          in Some (lqgo t (LqELock n) (s\<lparr>nd_fresh := n + 1, nd_val := (nd_val s)(n := arg), nd_next := (nd_next s)(n := None), lq_ltail := l,
             lq_arg := (lq_arg s)(t := arg)\<rparr>))))"
| "lq_step (LqDeq t) s =
     (if \<not> lq_idle (lq_pc s t) then None
      else case clh_step (Acquire t) (lq_lhead s) of
        None \<Rightarrow> None
      | Some l \<Rightarrow> Some (lqgo t LqDLock (s\<lparr>lq_lhead := l\<rparr>)))"
| "lq_step (LqRun t) s =
     (case lq_enqueue (lq_pc s t) t s of Some s' \<Rightarrow> Some s' | None \<Rightarrow> lq_dequeue (lq_pc s t) t s)"

section \<open>The invariant\<close>

text \<open>The nodes behind the dummy; the node a thread has not linked yet.\<close>

fun node_walk :: "nat \<Rightarrow> (nat \<Rightarrow> nat option) \<Rightarrow> nat \<Rightarrow> nat list" where
  "node_walk 0 nx p = []"
| "node_walk (Suc k) nx p = (case nx p of None \<Rightarrow> [] | Some n \<Rightarrow> n # node_walk k nx n)"

definition lq_content :: "lqueue \<Rightarrow> i32 list" where
  "lq_content s = map (nd_val s) (node_walk (nd_fresh s) (nd_next s) (lq_head s))"

fun lq_new :: "lqpc \<Rightarrow> nat option" where
  "lq_new (LqELock n) = Some n"
| "lq_new (LqELink n) = Some n"
| "lq_new _ = None"

fun in_tail :: "lqpc \<Rightarrow> bool" where
  "in_tail (LqELink n) = True"
| "in_tail (LqETail n) = True"
| "in_tail _ = False"

fun in_head :: "lqpc \<Rightarrow> bool" where
  "in_head LqDTest = True"
| "in_head LqDValue = True"
| "in_head (LqDHead v) = True"
| "in_head _ = False"

fun lq_fits :: "lqueue \<Rightarrow> lqpc \<Rightarrow> bool" where
  "lq_fits s LqDValue = (nd_next s (lq_head s) \<noteq> None)"
| "lq_fits s (LqDHead v) = (\<exists>n. nd_next s (lq_head s) = Some n \<and> nd_val s n = v)"
| "lq_fits s _ = True"

definition lq_lasts :: "lqueue \<Rightarrow> tid \<Rightarrow> i32 qact list" where
  "lq_lasts s t = map snd (filter (\<lambda>e. fst e = t) (lq_log s))"

fun lq_answer :: "lqpc \<Rightarrow> i32 qact list \<Rightarrow> bool" where
  "lq_answer (LqDUnlock v) as = (as \<noteq> [] \<and> (last as = Got v \<or> v = -1 \<and> last as = Empty))"
| "lq_answer (LqDone v) as = (as \<noteq> [] \<and> (last as = Got v \<or> v = -1 \<and> last as = Empty))"
| "lq_answer _ as = True"

definition lq_inv :: "lqueue \<Rightarrow> nat list \<Rightarrow> bool" where
  "lq_inv s ns \<longleftrightarrow> clh_good (lq_lhead s) \<and> clh_good (lq_ltail s) \<and>
     (\<forall>t. (in_tail (lq_pc s t) \<longrightarrow> holds (lq_ltail s) t) \<and> (in_head (lq_pc s t) \<longrightarrow> holds (lq_lhead s) t)) \<and>
     node_chain (nd_next s) (lq_head s) ns \<and> distinct (lq_head s # ns) \<and> (\<forall>n \<in> set (lq_head s # ns). n < nd_fresh s) \<and>
     lq_tail s < nd_fresh s \<and>
     (\<forall>t n. lq_pc s t = LqETail n \<longrightarrow> last (lq_head s # ns) = n) \<and>
     ((\<forall>t n. lq_pc s t \<noteq> LqETail n) \<longrightarrow> last (lq_head s # ns) = lq_tail s) \<and>
     (\<forall>t n. lq_new (lq_pc s t) = Some n \<longrightarrow> n < nd_fresh s \<and> n \<notin> set (lq_head s # ns) \<and> n \<noteq> lq_tail s \<and> nd_next s n = None \<and>
       nd_val s n = lq_arg s t) \<and>
     (\<forall>t u n. lq_new (lq_pc s t) = Some n \<and> lq_new (lq_pc s u) = Some n \<longrightarrow> t = u) \<and>
     (\<forall>t. lq_fits s (lq_pc s t) \<and> lq_answer (lq_pc s t) (lq_lasts s t)) \<and>
     mrun fifo_step (map snd (lq_log s)) [] = Some (map (nd_val s) ns)"

definition lq_good :: "lqueue \<Rightarrow> bool" where
  "lq_good s \<longleftrightarrow> (\<exists>ns. lq_inv s ns)"

lemma lqgo_simps [simp]:
  "nd_val (lqgo t p s) = nd_val s" "nd_next (lqgo t p s) = nd_next s" "nd_fresh (lqgo t p s) = nd_fresh s"
  "lq_head (lqgo t p s) = lq_head s" "lq_tail (lqgo t p s) = lq_tail s" "lq_lhead (lqgo t p s) = lq_lhead s"
  "lq_ltail (lqgo t p s) = lq_ltail s" "lq_pc (lqgo t p s) = (lq_pc s)(t := p)" "lq_log (lqgo t p s) = lq_log s"
  "lq_arg (lqgo t p s) = lq_arg s"
  by (simp_all add: lqgo_def)

lemma node_walk_chain:
  "node_chain nx p ns \<Longrightarrow> length ns \<le> k \<Longrightarrow> node_walk k nx p = ns"
proof (induction ns arbitrary: p k)
  case Nil
  then show ?case by (cases k) auto
next
  case (Cons n ns)
  then show ?case by (cases k) auto
qed

lemma lq_invD:
  assumes "lq_inv s ns"
  shows "clh_good (lq_lhead s)" "clh_good (lq_ltail s)"
    "in_tail (lq_pc s t) \<Longrightarrow> holds (lq_ltail s) t" "in_head (lq_pc s t) \<Longrightarrow> holds (lq_lhead s) t"
    "node_chain (nd_next s) (lq_head s) ns" "distinct (lq_head s # ns)" "n \<in> set (lq_head s # ns) \<Longrightarrow> n < nd_fresh s"
    "lq_tail s < nd_fresh s" "lq_pc s t = LqETail n \<Longrightarrow> last (lq_head s # ns) = n"
    "(\<And>t n. lq_pc s t \<noteq> LqETail n) \<Longrightarrow> last (lq_head s # ns) = lq_tail s"
    "lq_new (lq_pc s t) = Some n \<Longrightarrow> n < nd_fresh s \<and> n \<notin> set (lq_head s # ns) \<and> n \<noteq> lq_tail s \<and> nd_next s n = None \<and>
       nd_val s n = lq_arg s t"
    "lq_new (lq_pc s t) = Some n \<Longrightarrow> lq_new (lq_pc s u) = Some n \<Longrightarrow> t = u"
    "lq_fits s (lq_pc s t)" "lq_answer (lq_pc s t) (lq_lasts s t)"
    "mrun fifo_step (map snd (lq_log s)) [] = Some (map (nd_val s) ns)"
  using assms unfolding lq_inv_def by blast+

lemma lq_invI:
  assumes "clh_good (lq_lhead s)" "clh_good (lq_ltail s)"
    and "\<And>t. in_tail (lq_pc s t) \<Longrightarrow> holds (lq_ltail s) t" "\<And>t. in_head (lq_pc s t) \<Longrightarrow> holds (lq_lhead s) t"
    and "node_chain (nd_next s) (lq_head s) ns" "distinct (lq_head s # ns)" "\<And>n. n \<in> set (lq_head s # ns) \<Longrightarrow> n < nd_fresh s"
    and "lq_tail s < nd_fresh s" "\<And>t n. lq_pc s t = LqETail n \<Longrightarrow> last (lq_head s # ns) = n"
    and "(\<And>t n. lq_pc s t \<noteq> LqETail n) \<Longrightarrow> last (lq_head s # ns) = lq_tail s"
    and "\<And>t n. lq_new (lq_pc s t) = Some n \<Longrightarrow> n < nd_fresh s \<and> n \<notin> set (lq_head s # ns) \<and> n \<noteq> lq_tail s \<and> nd_next s n = None \<and>
       nd_val s n = lq_arg s t"
    and "\<And>t u n. lq_new (lq_pc s t) = Some n \<Longrightarrow> lq_new (lq_pc s u) = Some n \<Longrightarrow> t = u"
    and "\<And>t. lq_fits s (lq_pc s t)" "\<And>t. lq_answer (lq_pc s t) (lq_lasts s t)"
    and "mrun fifo_step (map snd (lq_log s)) [] = Some (map (nd_val s) ns)"
  shows "lq_good s"
  unfolding lq_good_def lq_inv_def using assms by (intro exI [of _ ns]) blast

lemma lq_content_eq:
  assumes "lq_inv s ns"
  shows "lq_content s = map (nd_val s) ns"
proof -
  note D = lq_invD [OF assms]
  have "distinct ns" "set ns \<subseteq> {..<nd_fresh s}" using D(6,7) by auto
  then have "length ns \<le> nd_fresh s" using card_mono [of "{..<nd_fresh s}" "set ns"] distinct_card [of ns] by simp
  then show ?thesis using node_walk_chain [OF D(5)] by (simp add: lq_content_def)
qed

lemma turn_good:
  assumes "clh_good l" and "clh_step e l = Some l'" and "lockev_tid e = t"
  shows "clh_good l' \<and> (\<forall>u. u \<noteq> t \<longrightarrow> holds l' u = holds l u)"
  using clh_step_good [OF assms(1,2)] clh_impl.others_stay [OF assms(2)] assms(3) by auto

lemma lock_turn_good:
  assumes "clh_good l" and "lock_turn t l = Some l'"
  shows "clh_good l' \<and> (\<forall>u. u \<noteq> t \<longrightarrow> holds l' u = holds l u) \<and> (cl_pc l t = CIn \<longrightarrow> holds l' t)"
proof (cases "cl_pc l t = CIn")
  case False
  then have "clh_step (LockRun t) l = Some l'" using assms(2) by (simp add: lock_turn_def)
  from turn_good [OF assms(1) this, of t] show ?thesis using False by simp
qed (use assms in \<open>simp add: lock_turn_def holds_def\<close>)

lemma unlock_turn_good:
  assumes "clh_good l" and "unlock_turn t l = Some l'"
  shows "clh_good l' \<and> (\<forall>u. u \<noteq> t \<longrightarrow> holds l' u = holds l u)"
proof -
  have "l' = l \<or> (\<exists>e. clh_step e l = Some l' \<and> lockev_tid e = t)"
    using assms(2) unfolding unlock_turn_def by (auto simp del: clh_step.simps split: if_splits intro: lockev_tid.simps)
  then show ?thesis using assms(1) turn_good by blast
qed

text \<open>A step that changes a lock and the thread's program point, but no node.\<close>

lemma lq_inv_move:
  assumes inv: "lq_inv s ns" and f: "nd_val s' = nd_val s" "nd_next s' = nd_next s" "nd_fresh s' = nd_fresh s"
      "lq_head s' = lq_head s" "lq_tail s' = lq_tail s" "lq_pc s' = (lq_pc s)(t := p)" "lq_log s' = lq_log s" "lq_arg s' = lq_arg s"
    and good: "clh_good (lq_lhead s')" "clh_good (lq_ltail s')"
    and other: "\<And>u. u \<noteq> t \<Longrightarrow> holds (lq_ltail s') u = holds (lq_ltail s) u \<and> holds (lq_lhead s') u = holds (lq_lhead s) u"
    and own: "in_tail p \<Longrightarrow> holds (lq_ltail s') t" "in_head p \<Longrightarrow> holds (lq_lhead s') t"
    and new: "\<And>n. lq_new p = Some n \<Longrightarrow> lq_new (lq_pc s t) = Some n"
    and noT: "\<And>n. lq_pc s t \<noteq> LqETail n" "\<And>n. p \<noteq> LqETail n"
    and fit: "lq_fits s p" "lq_answer p (lq_lasts s t)"
  shows "lq_good s'"
proof -
  have fits: "lq_fits s' q = lq_fits s q" for q by (cases q) (simp_all add: f)
  have lasts: "lq_lasts s' = lq_lasts s" by (rule ext) (simp add: lq_lasts_def f)
  note D = lq_invD [OF inv]
  have was: "lq_new (lq_pc s' u) = Some n \<Longrightarrow> lq_new (lq_pc s u) = Some n" for u n
    using new by (cases "u = t") (simp_all add: f)
  have tl: "lq_pc s' u = LqETail n \<longleftrightarrow> lq_pc s u = LqETail n" for u n
    using noT by (cases "u = t") (simp_all add: f)
  show ?thesis
  proof (rule lq_invI [of s' ns])
    fix u
    show "lq_fits s' (lq_pc s' u)" using D(13) [of u] fit(1) by (cases "u = t") (simp_all add: fits f)
    show "lq_answer (lq_pc s' u) (lq_lasts s' u)" using D(14) [of u] fit(2) by (cases "u = t") (simp_all add: lasts f)
    show "in_tail (lq_pc s' u) \<Longrightarrow> holds (lq_ltail s') u" using D(3) [of u] own(1) other [of u] by (cases "u = t") (simp_all add: f)
    show "in_head (lq_pc s' u) \<Longrightarrow> holds (lq_lhead s') u" using D(4) [of u] own(2) other [of u] by (cases "u = t") (simp_all add: f)
  next
    fix u v n
    assume "lq_new (lq_pc s' u) = Some n" "lq_new (lq_pc s' v) = Some n"
    then show "u = v" using was D(12) by blast
  next
    fix u n
    assume "lq_new (lq_pc s' u) = Some n"
    then show "n < nd_fresh s' \<and> n \<notin> set (lq_head s' # ns) \<and> n \<noteq> lq_tail s' \<and> nd_next s' n = None \<and> nd_val s' n = lq_arg s' u"
      using D(11) [OF was] by (simp add: f)
  next
    assume "\<And>u n. lq_pc s' u \<noteq> LqETail n"
    then show "last (lq_head s' # ns) = lq_tail s'" using D(10) by (simp add: f(4,5) tl)
  next
    fix u n
    assume "lq_pc s' u = LqETail n"
    then show "last (lq_head s' # ns) = n" using D(9) [of u n] by (simp add: f(4) tl)
  qed (use D good in \<open>simp_all add: f\<close>)
qed

lemma lq_lasts_snoc:
  "lq_log s' = lq_log s @ [(t, a)] \<Longrightarrow> lq_lasts s' u = lq_lasts s u @ (if u = t then [a] else [])"
  by (simp add: lq_lasts_def)

lemma lq_lasts_same: "lq_log s' = lq_log s \<Longrightarrow> lq_lasts s' u = lq_lasts s u"
  by (simp add: lq_lasts_def)

text \<open>The link: the node joins the end of the chain, which is where \<open>Tail\<close> points.\<close>

lemma lq_link:
  assumes inv: "lq_inv s ns" and pc: "lq_pc s t = LqELink n"
  shows "lq_good (lqgo t (LqETail n) (s\<lparr>nd_next := (nd_next s)(lq_tail s := Some n), lq_log := lq_log s @ [(t, Put (lq_arg s t))]\<rparr>))"
    (is "lq_good ?s")
proof -
  note D = lq_invD [OF inv]
  have n: "n < nd_fresh s" "n \<notin> set (lq_head s # ns)" "n \<noteq> lq_tail s" "nd_next s n = None" "nd_val s n = lq_arg s t"
    using D(11) [of t n] pc by simp_all
  have alone: "u = t" if "in_tail (lq_pc s u)" for u
    using clh_impl.one_inside [OF D(2) D(3) [OF that]] D(3) [of t] pc by simp
  have noT: "lq_pc s u \<noteq> LqETail m" for u m
  proof
    assume "lq_pc s u = LqETail m"
    then show False using alone [of u] pc by auto
  qed
  then have tl: "last (lq_head s # ns) = lq_tail s" by (rule D(10))
  have "(nd_next s)(lq_tail s := Some n) = (nd_next s)(n := None, last (lq_head s # ns) := Some n)"
    using n(4) tl by (auto simp: fun_eq_iff)
  then have ch: "node_chain ((nd_next s)(lq_tail s := Some n)) (lq_head s) (ns @ [n])"
    using node_chain_snoc [OF D(5,6) n(2)] by simp
  have tin: "lq_tail s \<in> set (lq_head s # ns)" unfolding tl [symmetric] by (rule last_in_set) simp
  have new: "lq_new (lq_pc ?s u) = Some m \<Longrightarrow> u \<noteq> t \<and> lq_new (lq_pc s u) = Some m" for u m
    by (cases "u = t") auto
  have ends: "nd_next s (lq_tail s) = None"
  proof -
    have "node_chain nx p us \<Longrightarrow> nx (last (p # us)) = None" for nx p us by (induction us arbitrary: p) auto
    then show ?thesis using D(5) tl by metis
  qed
  have hd: "nd_next s (lq_head s) = Some m \<Longrightarrow> lq_head s \<noteq> lq_tail s" for m using ends by auto
  show ?thesis
  proof (rule lq_invI [of _ "ns @ [n]"])
    fix u
    show "lq_fits ?s (lq_pc ?s u)" using D(13) [of u] hd by (cases "u = t"; cases "lq_pc s u") auto
    show "lq_answer (lq_pc ?s u) (lq_lasts ?s u)" using D(14) [of u] by (cases "u = t") (simp_all add: lq_lasts_def)
    show "in_tail (lq_pc ?s u) \<Longrightarrow> holds (lq_ltail ?s) u" using D(3) [of u] D(3) [of t] pc by (cases "u = t") simp_all
    show "in_head (lq_pc ?s u) \<Longrightarrow> holds (lq_lhead ?s) u" using D(4) [of u] by (cases "u = t") simp_all
  next
    fix u v m
    assume "lq_new (lq_pc ?s u) = Some m" "lq_new (lq_pc ?s v) = Some m"
    then show "u = v" using new D(12) by blast
  next
    fix u m
    assume m: "lq_new (lq_pc ?s u) = Some m"
    then have um: "u \<noteq> t" "lq_new (lq_pc s u) = Some m" using new by blast+
    then have "m \<noteq> n" using D(12) [of u m t] pc by auto
    then show "m < nd_fresh ?s \<and> m \<notin> set (lq_head ?s # ns @ [n]) \<and> m \<noteq> lq_tail ?s \<and> nd_next ?s m = None \<and> nd_val ?s m = lq_arg ?s u"
      using D(11) [OF um(2)] by auto
  next
    assume "\<And>u m. lq_pc ?s u \<noteq> LqETail m"
    from this [of t n] show "last (lq_head ?s # ns @ [n]) = lq_tail ?s" by simp
  next
    fix u m
    assume "lq_pc ?s u = LqETail m"
    then show "last (lq_head ?s # ns @ [n]) = m" using noT by (cases "u = t") auto
  next
    fix m
    assume "m \<in> set (lq_head ?s # ns @ [n])"
    then show "m < nd_fresh ?s" using D(7) [of m] n(1) by auto
  next
    show "mrun fifo_step (map snd (lq_log ?s)) [] = Some (map (nd_val ?s) (ns @ [n]))"
      using D(15) n(5) by (simp add: mrun_append)
  qed (use D(1,2,6,8) ch n in auto)
qed

lemma lq_tail_step:
  assumes inv: "lq_inv s ns" and pc: "lq_pc s t = LqETail n"
  shows "lq_good (lqgo t LqEUnlock (s\<lparr>lq_tail := n\<rparr>))" (is "lq_good ?s")
proof -
  note D = lq_invD [OF inv]
  have l: "last (lq_head s # ns) = n" by (rule D(9) [OF pc])
  then have nin: "n \<in> set (lq_head s # ns)" using last_in_set [of "lq_head s # ns"] by (simp del: last.simps)
  have alone: "u = t" if "in_tail (lq_pc s u)" for u
    using clh_impl.one_inside [OF D(2) D(3) [OF that]] D(3) [of t] pc by simp
  have new: "lq_new (lq_pc ?s u) = Some m \<Longrightarrow> lq_new (lq_pc s u) = Some m" for u m
    by (cases "u = t") auto
  have fits: "lq_fits ?s q = lq_fits s q" for q by (cases q) simp_all
  show ?thesis
  proof (rule lq_invI [of _ ns])
    fix u
    show "lq_fits ?s (lq_pc ?s u)" unfolding fits using D(13) [of u] by (cases "u = t") simp_all
    show "lq_answer (lq_pc ?s u) (lq_lasts ?s u)" using D(14) [of u] by (cases "u = t") (simp_all add: lq_lasts_def)
    show "in_tail (lq_pc ?s u) \<Longrightarrow> holds (lq_ltail ?s) u" using D(3) [of u] by (cases "u = t") simp_all
    show "in_head (lq_pc ?s u) \<Longrightarrow> holds (lq_lhead ?s) u" using D(4) [of u] by (cases "u = t") simp_all
  next
    fix u v m
    assume "lq_new (lq_pc ?s u) = Some m" "lq_new (lq_pc ?s v) = Some m"
    then show "u = v" using new D(12) by blast
  next
    fix u m
    assume "lq_new (lq_pc ?s u) = Some m"
    then show "m < nd_fresh ?s \<and> m \<notin> set (lq_head ?s # ns) \<and> m \<noteq> lq_tail ?s \<and> nd_next ?s m = None \<and> nd_val ?s m = lq_arg ?s u"
      using D(11) [OF new] nin by auto
  next
    fix u m
    assume a: "lq_pc ?s u = LqETail m"
    then have "u \<noteq> t" "in_tail (lq_pc s u)" by (auto split: if_splits)
    then show "last (lq_head ?s # ns) = m" using alone by blast
  qed (use D(1,2,5,6,7,8,15) l nin in auto)
qed

text \<open>The dequeue: the first node behind the dummy becomes the dummy.\<close>

lemma lq_take:
  assumes inv: "lq_inv s ns" and pc: "lq_pc s t = LqDHead v" and nx: "nd_next s (lq_head s) = Some n"
  shows "lq_good (lqgo t (LqDUnlock v) (s\<lparr>lq_head := n, lq_log := lq_log s @ [(t, Got v)]\<rparr>))" (is "lq_good ?s")
proof -
  note D = lq_invD [OF inv]
  have v: "nd_val s n = v" using D(13) [of t] pc nx by simp
  obtain us where ns: "ns = n # us" using D(5) nx by (cases ns) auto
  have alone: "u = t" if "in_head (lq_pc s u)" for u
    using clh_impl.one_inside [OF D(1) D(4) [OF that]] D(4) [of t] pc by simp
  have new: "lq_new (lq_pc ?s u) = Some m \<Longrightarrow> lq_new (lq_pc s u) = Some m" for u m
    by (cases "u = t") auto
  have tl: "lq_pc ?s u = LqETail m \<longleftrightarrow> lq_pc s u = LqETail m" for u m using pc by (cases "u = t") auto
  show ?thesis
  proof (rule lq_invI [of _ us])
    fix u
    have "u \<noteq> t \<Longrightarrow> \<not> in_head (lq_pc s u)" using alone by blast
    then show "lq_fits ?s (lq_pc ?s u)" by (cases "u = t"; cases "lq_pc s u") simp_all
    show "lq_answer (lq_pc ?s u) (lq_lasts ?s u)" using D(14) [of u] by (cases "u = t") (simp_all add: lq_lasts_def)
    show "in_tail (lq_pc ?s u) \<Longrightarrow> holds (lq_ltail ?s) u" using D(3) [of u] by (cases "u = t") simp_all
    show "in_head (lq_pc ?s u) \<Longrightarrow> holds (lq_lhead ?s) u" using D(4) [of u] by (cases "u = t") simp_all
  next
    fix u w m
    assume "lq_new (lq_pc ?s u) = Some m" "lq_new (lq_pc ?s w) = Some m"
    then show "u = w" using new D(12) by blast
  next
    fix u m
    assume "lq_new (lq_pc ?s u) = Some m"
    then show "m < nd_fresh ?s \<and> m \<notin> set (lq_head ?s # us) \<and> m \<noteq> lq_tail ?s \<and> nd_next ?s m = None \<and> nd_val ?s m = lq_arg ?s u"
      using D(11) [OF new] ns by auto
  next
    assume a: "\<And>u m. lq_pc ?s u \<noteq> LqETail m"
    have "lq_pc s u \<noteq> LqETail m" for u m using a [of u m] tl [of u m] by blast
    from D(10) [OF this] show "last (lq_head ?s # us) = lq_tail ?s" using ns by simp
  next
    fix u m
    assume "lq_pc ?s u = LqETail m"
    then have "lq_pc s u = LqETail m" using tl by blast
    then show "last (lq_head ?s # us) = m" using D(9) [of u m] ns by simp
  next
    fix m
    assume "m \<in> set (lq_head ?s # us)"
    then show "m < nd_fresh ?s" using D(7) [of m] ns by auto
  next
    show "mrun fifo_step (map snd (lq_log ?s)) [] = Some (map (nd_val ?s) us)"
      using D(15) ns v by (simp add: mrun_append)
  qed (use D(1,2,5,6,8) ns in auto)
qed

lemma lq_empty:
  assumes inv: "lq_inv s ns" and pc: "lq_pc s t = LqDTest" and nx: "nd_next s (lq_head s) = None"
  shows "lq_good (lqgo t (LqDUnlock (-1)) (s\<lparr>lq_log := lq_log s @ [(t, Empty)]\<rparr>))" (is "lq_good ?s")
proof -
  note D = lq_invD [OF inv]
  have ns: "ns = []" using D(5) nx by (cases ns) auto
  have fits: "lq_fits ?s q = lq_fits s q" for q by (cases q) simp_all
  have new: "lq_new (lq_pc ?s u) = Some m \<Longrightarrow> lq_new (lq_pc s u) = Some m" for u m
    by (cases "u = t") auto
  have tl: "lq_pc ?s u = LqETail m \<longleftrightarrow> lq_pc s u = LqETail m" for u m using pc by (cases "u = t") auto
  show ?thesis
  proof (rule lq_invI [of _ ns])
    fix u
    show "lq_fits ?s (lq_pc ?s u)" unfolding fits using D(13) [of u] by (cases "u = t") simp_all
    show "lq_answer (lq_pc ?s u) (lq_lasts ?s u)" using D(14) [of u] by (cases "u = t") (simp_all add: lq_lasts_def)
    show "in_tail (lq_pc ?s u) \<Longrightarrow> holds (lq_ltail ?s) u" using D(3) [of u] by (cases "u = t") simp_all
    show "in_head (lq_pc ?s u) \<Longrightarrow> holds (lq_lhead ?s) u" using D(4) [of u] by (cases "u = t") simp_all
  next
    fix u w m
    assume "lq_new (lq_pc ?s u) = Some m" "lq_new (lq_pc ?s w) = Some m"
    then show "u = w" using new D(12) by blast
  next
    fix u m
    assume "lq_new (lq_pc ?s u) = Some m"
    then show "m < nd_fresh ?s \<and> m \<notin> set (lq_head ?s # ns) \<and> m \<noteq> lq_tail ?s \<and> nd_next ?s m = None \<and> nd_val ?s m = lq_arg ?s u"
      using D(11) [OF new] by auto
  next
    assume a: "\<And>u m. lq_pc ?s u \<noteq> LqETail m"
    have "lq_pc s u \<noteq> LqETail m" for u m using a [of u m] tl [of u m] by blast
    from D(10) [OF this] show "last (lq_head ?s # ns) = lq_tail ?s" by simp
  next
    fix u m
    assume "lq_pc ?s u = LqETail m"
    then have "lq_pc s u = LqETail m" using tl by blast
    then show "last (lq_head ?s # ns) = m" using D(9) [of u m] by simp
  next
    show "mrun fifo_step (map snd (lq_log ?s)) [] = Some (map (nd_val ?s) ns)"
      using D(15) ns by (simp add: mrun_append)
  qed (use D(1,2,5,6,7,8) in auto)
qed

text \<open>A new enqueue takes a node from its pool.\<close>

lemma lq_begin:
  assumes inv: "lq_inv s ns" and idle: "lq_idle (lq_pc s t)" and acq: "clh_step (Acquire t) (lq_ltail s) = Some l"
  shows "lq_good (lqgo t (LqELock (nd_fresh s)) (s\<lparr>nd_fresh := nd_fresh s + 1, nd_val := (nd_val s)(nd_fresh s := arg),
      nd_next := (nd_next s)(nd_fresh s := None), lq_ltail := l, lq_arg := (lq_arg s)(t := arg)\<rparr>))" (is "lq_good ?s")
proof -
  note D = lq_invD [OF inv]
  let ?n = "nd_fresh s"
  have g: "clh_good l \<and> (\<forall>u. u \<noteq> t \<longrightarrow> holds l u = holds (lq_ltail s) u)" by (rule turn_good [OF D(2) acq]) simp
  have nin: "?n \<notin> set (lq_head s # ns)" "?n \<noteq> lq_tail s" using D(7) [of ?n] D(8) by auto
  have new: "u \<noteq> t \<Longrightarrow> lq_new (lq_pc ?s u) = Some m \<Longrightarrow> lq_new (lq_pc s u) = Some m \<and> m \<noteq> ?n" for u m
    using D(11) [of u m] by auto
  have below: "nd_next s (lq_head s) = Some m \<Longrightarrow> m \<noteq> ?n \<and> lq_head s \<noteq> ?n" for m
    using D(5) nin by (cases ns) auto
  have tl: "lq_pc ?s u = LqETail m \<longleftrightarrow> lq_pc s u = LqETail m" for u m using idle by (cases "u = t") auto
  show ?thesis
  proof (rule lq_invI [of _ ns])
    fix u
    show "lq_fits ?s (lq_pc ?s u)" using D(13) [of u] below by (cases "u = t"; cases "lq_pc s u") auto
    show "lq_answer (lq_pc ?s u) (lq_lasts ?s u)" using D(14) [of u] by (cases "u = t") (simp_all add: lq_lasts_def)
    show "in_tail (lq_pc ?s u) \<Longrightarrow> holds (lq_ltail ?s) u" using D(3) [of u] g by (cases "u = t") simp_all
    show "in_head (lq_pc ?s u) \<Longrightarrow> holds (lq_lhead ?s) u" using D(4) [of u] by (cases "u = t") simp_all
  next
    fix u w m
    assume m: "lq_new (lq_pc ?s u) = Some m" "lq_new (lq_pc ?s w) = Some m"
    have tn: "lq_new (lq_pc ?s t) = Some ?n" by simp
    show "u = w"
    proof (cases "u = t"; cases "w = t")
      assume "u = t" "w \<noteq> t"
      then show ?thesis using m tn new [of w m] by (metis option.inject)
    next
      assume "u \<noteq> t" "w = t"
      then show ?thesis using m tn new [of u m] by (metis option.inject)
    next
      assume "u \<noteq> t" "w \<noteq> t"
      then show ?thesis using m new [of u m] new [of w m] D(12) by blast
    qed simp
  next
    fix u m
    assume "lq_new (lq_pc ?s u) = Some m"
    then show "m < nd_fresh ?s \<and> m \<notin> set (lq_head ?s # ns) \<and> m \<noteq> lq_tail ?s \<and> nd_next ?s m = None \<and> nd_val ?s m = lq_arg ?s u"
      using new [of u m] D(11) [of u m] nin by (cases "u = t") auto
  next
    assume a: "\<And>u m. lq_pc ?s u \<noteq> LqETail m"
    have "lq_pc s u \<noteq> LqETail m" for u m using a [of u m] tl [of u m] by blast
    from D(10) [OF this] show "last (lq_head ?s # ns) = lq_tail ?s" by simp
  next
    fix u m
    assume "lq_pc ?s u = LqETail m"
    then have "lq_pc s u = LqETail m" using tl by blast
    then show "last (lq_head ?s # ns) = m" using D(9) [of u m] by simp
  next
    fix m
    assume "m \<in> set (lq_head ?s # ns)"
    then show "m < nd_fresh ?s" using D(7) [of m] by simp
  next
    have "map ((nd_val s)(?n := arg)) ns = map (nd_val s) ns" using nin by auto
    then show "mrun fifo_step (map snd (lq_log ?s)) [] = Some (map (nd_val ?s) ns)" using D(15) by simp
  next
    show "node_chain (nd_next ?s) (lq_head ?s) ns" using node_chain_upd [OF D(5) nin(1)] by simp
  qed (use D(1,6,8) g in simp_all)
qed

lemma lq_step_good:
  assumes good: "lq_good s" and run: "lq_step e s = Some s'"
  shows "lq_good s'"
proof -
  obtain ns where inv: "lq_inv s ns" using good by (auto simp: lq_good_def)
  note D = lq_invD [OF inv]
  show ?thesis
  proof (cases e)
    case (LqEnq t arg)
    then obtain l where "lq_idle (lq_pc s t)" "clh_step (Acquire t) (lq_ltail s) = Some l"
      "s' = lqgo t (LqELock (nd_fresh s)) (s\<lparr>nd_fresh := nd_fresh s + 1, nd_val := (nd_val s)(nd_fresh s := arg),
        nd_next := (nd_next s)(nd_fresh s := None), lq_ltail := l, lq_arg := (lq_arg s)(t := arg)\<rparr>)"
      using run by (auto simp: Let_def simp del: clh_step.simps split: if_splits option.splits)
    then show ?thesis using lq_begin [OF inv] by blast
  next
    case (LqDeq t)
    then obtain l where l: "lq_idle (lq_pc s t)" "clh_step (Acquire t) (lq_lhead s) = Some l" "s' = lqgo t LqDLock (s\<lparr>lq_lhead := l\<rparr>)"
      using run by (auto simp del: clh_step.simps split: if_splits option.splits)
    have "clh_good l \<and> (\<forall>u. u \<noteq> t \<longrightarrow> holds l u = holds (lq_lhead s) u)" by (rule turn_good [OF D(1) l(2)]) simp
    then show ?thesis by (intro lq_inv_move [OF inv, of s' t LqDLock]) (use l D(2) in auto)
  next
    case (LqRun t)
    show ?thesis
    proof (cases "lq_pc s t")
      case (LqELock n)
      then obtain l where l: "lock_turn t (lq_ltail s) = Some l"
        "s' = lqgo t (if cl_pc (lq_ltail s) t = CIn then LqELink n else LqELock n) (s\<lparr>lq_ltail := l\<rparr>)"
        using run LqRun by (auto split: option.splits)
      then show ?thesis using lock_turn_good [OF D(2) l(1)] D(1) LqELock
        by (intro lq_inv_move [OF inv, of s' t "if cl_pc (lq_ltail s) t = CIn then LqELink n else LqELock n"]) (auto split: if_splits)
    next
      case (LqELink n)
      then show ?thesis using run LqRun lq_link [OF inv LqELink] by simp
    next
      case (LqETail n)
      then show ?thesis using run LqRun lq_tail_step [OF inv LqETail] by simp
    next
      case LqEUnlock
      then obtain l where l: "unlock_turn t (lq_ltail s) = Some l"
        "s' = lqgo t (if cl_pc (lq_ltail s) t = CIdle then LqIdle else LqEUnlock) (s\<lparr>lq_ltail := l\<rparr>)"
        using run LqRun by (auto split: option.splits)
      then show ?thesis using unlock_turn_good [OF D(2) l(1)] D(1) LqEUnlock
        by (intro lq_inv_move [OF inv, of s' t "if cl_pc (lq_ltail s) t = CIdle then LqIdle else LqEUnlock"]) (auto split: if_splits)
    next
      case LqDLock
      then obtain l where l: "lock_turn t (lq_lhead s) = Some l"
        "s' = lqgo t (if cl_pc (lq_lhead s) t = CIn then LqDTest else LqDLock) (s\<lparr>lq_lhead := l\<rparr>)"
        using run LqRun by (auto split: option.splits)
      then show ?thesis using lock_turn_good [OF D(1) l(1)] D(2) LqDLock
        by (intro lq_inv_move [OF inv, of s' t "if cl_pc (lq_lhead s) t = CIn then LqDTest else LqDLock"]) (auto split: if_splits)
    next
      case LqDTest
      show ?thesis
      proof (cases "nd_next s (lq_head s)")
        case None
        then show ?thesis using run LqRun LqDTest lq_empty [OF inv LqDTest None] by simp
      next
        case (Some n)
        then have "s' = lqgo t LqDValue s" using run LqRun LqDTest by simp
        then show ?thesis using D(1,2) D(4) [of t] Some LqDTest by (intro lq_inv_move [OF inv, of s' t LqDValue]) auto
      qed
    next
      case LqDValue
      then obtain n where "nd_next s (lq_head s) = Some n" "s' = lqgo t (LqDHead (nd_val s n)) s"
        using run LqRun by (auto split: option.splits)
      then show ?thesis using D(1,2) D(4) [of t] LqDValue by (intro lq_inv_move [OF inv, of s' t "LqDHead (nd_val s n)"]) auto
    next
      case (LqDHead v)
      then obtain n where "nd_next s (lq_head s) = Some n" "s' = lqgo t (LqDUnlock v) (s\<lparr>lq_head := n, lq_log := lq_log s @ [(t, Got v)]\<rparr>)"
        using run LqRun by (auto split: option.splits)
      then show ?thesis using lq_take [OF inv LqDHead] by blast
    next
      case (LqDUnlock v)
      then obtain l where l: "unlock_turn t (lq_lhead s) = Some l"
        "s' = lqgo t (if cl_pc (lq_lhead s) t = CIdle then LqDone v else LqDUnlock v) (s\<lparr>lq_lhead := l\<rparr>)"
        using run LqRun by (auto split: option.splits)
      then show ?thesis using unlock_turn_good [OF D(1) l(1)] D(2) D(14) [of t] LqDUnlock
        by (intro lq_inv_move [OF inv, of s' t "if cl_pc (lq_lhead s) t = CIdle then LqDone v else LqDUnlock v"]) (auto split: if_splits)
    qed (use run LqRun in auto)
  qed
qed

interpretation lqm: machine lq_step lq_good
  by unfold_locales (rule lq_step_good)

lemma lq_init_good: "lq_good lq_init"
  by (rule lq_invI [of _ "[]"]) (simp_all add: lq_init_def clh_init_good)

text \<open>
  The calls of a thread, \<open>Some arg\<close> for an enqueue and \<open>None\<close> for a dequeue, are its effects in their
  order and the call whose effect is still to come.
\<close>

fun lq_calls :: "tid \<Rightarrow> lqev list \<Rightarrow> i32 option list" where
  "lq_calls t [] = []"
| "lq_calls t (LqEnq u arg # es) = (if u = t then Some arg # lq_calls t es else lq_calls t es)"
| "lq_calls t (LqDeq u # es) = (if u = t then None # lq_calls t es else lq_calls t es)"
| "lq_calls t (LqRun u # es) = lq_calls t es"

fun put_arg :: "'v qact \<Rightarrow> 'v option" where
  "put_arg (Put v) = Some v"
| "put_arg _ = None"

fun lq_next :: "i32 \<Rightarrow> lqpc \<Rightarrow> i32 option list" where
  "lq_next arg (LqELock n) = [Some arg]"
| "lq_next arg (LqELink n) = [Some arg]"
| "lq_next arg LqDLock = [None]"
| "lq_next arg LqDTest = [None]"
| "lq_next arg LqDValue = [None]"
| "lq_next arg (LqDHead v) = [None]"
| "lq_next arg _ = []"

definition lq_plan :: "tid \<Rightarrow> lqueue \<Rightarrow> i32 option list" where
  "lq_plan t s = map put_arg (lq_lasts s t) @ lq_next (lq_arg s t) (lq_pc s t)"

lemma lq_frame:
  assumes "lq_step e s = Some s'" and "e = LqEnq t v \<or> e = LqDeq t \<or> e = LqRun t" and "u \<noteq> t"
  shows "lq_pc s' u = lq_pc s u \<and> lq_lasts s' u = lq_lasts s u \<and> lq_arg s' u = lq_arg s u"
proof (cases "e = LqRun t")
  case True
  then show ?thesis using assms(1,3)
    by (cases "lq_pc s t") (auto simp: lq_lasts_def simp del: clh_step.simps split: if_splits option.splits)
next
  case False
  then show ?thesis using assms by (auto simp: lq_lasts_def Let_def simp del: clh_step.simps split: if_splits option.splits)
qed

lemma lq_plan_begin:
  "lq_step (LqEnq t arg) s = Some s' \<Longrightarrow> lq_plan t s' = lq_plan t s @ [Some arg]"
  "lq_step (LqDeq t) s = Some s' \<Longrightarrow> lq_plan t s' = lq_plan t s @ [None]"
  by (cases "lq_pc s t"; auto simp: lq_plan_def lq_lasts_def Let_def simp del: clh_step.simps split: if_splits option.splits)+

lemma lq_plan_run: "lq_step (LqRun t) s = Some s' \<Longrightarrow> lq_plan t s' = lq_plan t s"
  by (cases "lq_pc s t") (auto simp: lq_plan_def lq_lasts_def simp del: clh_step.simps split: if_splits option.splits)

lemma lq_calls_step: "lq_step e s = Some s' \<Longrightarrow> lq_plan t s' = lq_plan t s @ lq_calls t [e]"
proof -
  assume step: "lq_step e s = Some s'"
  obtain u v where e: "e = LqEnq u v \<or> e = LqDeq u \<or> e = LqRun u" by (cases e) auto
  show ?thesis
  proof (cases "u = t")
    case True
    then show ?thesis using e step lq_plan_begin lq_plan_run by auto
  next
    case False
    then show ?thesis using e lq_frame [OF step e, of t] by (auto simp: lq_plan_def)
  qed
qed

lemma lq_calls_run: "mrun lq_step es s = Some s' \<Longrightarrow> lq_plan t s' = lq_plan t s @ lq_calls t es"
proof (induction es arbitrary: s)
  case (Cons e es)
  then obtain u where u: "lq_step e s = Some u" "mrun lq_step es u = Some s'" by (auto split: option.splits)
  have "lq_calls t (e # es) = lq_calls t [e] @ lq_calls t es" by (cases e) simp_all
  then show ?case using lq_calls_step [OF u(1), of t] Cons.IH [OF u(2)] by simp
qed simp

text \<open>Thread 0 enqueues 5 and thread 1 dequeues it while the enqueue still holds its lock.\<close>

definition demo_lq :: "lqev list" where
  "demo_lq = LqEnq 0 5 # replicate 5 (LqRun 0) @ LqDeq 1 # replicate 11 (LqRun 1)"

lemma demo_lq_run:
  "map_option (\<lambda>s. (lq_pc s 0, lq_pc s 1, lq_content s)) (mrun lq_step demo_lq lq_init) = Some (LqETail 1, LqDone 5, [])"
  by code_simp

text \<open>
  (C25) The two-lock queue is a FIFO queue under every interleaving, enqueues and dequeues at the same time
  included: its effects in their order are a run of the sequential queue and lead to its content, and a
  dequeue returns the value its last effect took, or -1 when it saw the queue empty. The effects of each
  thread are its calls in their order, an enqueue with its argument, but for the call it is still at.
\<close>

theorem locksqueue_fifo:
  assumes "mrun lq_step es lq_init = Some s"
  shows "mrun fifo_step (map snd (lq_log s)) [] = Some (lq_content s) \<and>
    (\<forall>t v. lq_pc s t = LqDone v \<longrightarrow> lq_lasts s t \<noteq> [] \<and> (last (lq_lasts s t) = Got v \<or> v = -1 \<and> last (lq_lasts s t) = Empty)) \<and>
    (\<forall>t. lq_calls t es = map put_arg (lq_lasts s t) @ lq_next (lq_arg s t) (lq_pc s t))"
proof -
  obtain ns where inv: "lq_inv s ns" using lqm.good_run [OF lq_init_good assms] by (auto simp: lq_good_def)
  have "lq_lasts s t \<noteq> [] \<and> (last (lq_lasts s t) = Got v \<or> v = -1 \<and> last (lq_lasts s t) = Empty)" if "lq_pc s t = LqDone v" for t v
    using lq_invD(14) [OF inv, of t] that by simp
  moreover have "lq_calls t es = map put_arg (lq_lasts s t) @ lq_next (lq_arg s t) (lq_pc s t)" for t
    using lq_calls_run [OF assms, of t] by (simp add: lq_plan_def lq_lasts_def lq_init_def)
  ultimately show ?thesis using lq_invD(15) [OF inv] lq_content_eq [OF inv] by simp
qed

theorem locksqueue_fifo_witness:
  "\<exists>s. mrun lq_step demo_lq lq_init = Some s \<and> lq_pc s 0 = LqETail 1 \<and>
    (last (lq_lasts s 1) = Got 5 \<or> last (lq_lasts s 1) = Empty)"
proof -
  obtain s where s: "mrun lq_step demo_lq lq_init = Some s" "lq_pc s 0 = LqETail 1" "lq_pc s 1 = LqDone 5"
    using demo_lq_run by auto
  from conjunct1 [OF conjunct2 [OF locksqueue_fifo [OF s(1)]], rule_format, OF s(3)] show ?thesis using s by auto
qed

end
