(* ===== verification/LocksStack.thy ===== *)
theory LocksStack
  imports LocksQueue
begin

text \<open>
  The stack of \<open>synch1.0.1/locksstack.c\<close> under one CLH lock, one access to shared memory per step.
\<close>

section \<open>locksstack.c\<close>

datatype lspc =
    LsIdle
  | LsPLock nat      \<comment> \<open>\<open>clhLock(lhead, pid)\<close>, with the node \<open>n\<close>\<close>
  | LsPNext nat      \<comment> \<open>\<open>n->next = Head\<close>\<close>
  | LsPHead nat      \<comment> \<open>\<open>Head = n\<close>\<close>
  | LsPUnlock        \<comment> \<open>\<open>clhUnlock(lhead, pid)\<close>\<close>
  | LsOLock          \<comment> \<open>\<open>clhLock(lhead, pid)\<close>\<close>
  | LsOTest          \<comment> \<open>\<open>if (Head->next == null)\<close>\<close>
  | LsOValue         \<comment> \<open>\<open>result = Head->next->value\<close>\<close>
  | LsOHead i32      \<comment> \<open>\<open>Head = Head->next\<close>\<close>
  | LsOUnlock i32    \<comment> \<open>\<open>clhUnlock(lhead, pid)\<close>\<close>
  | LsDone i32

text \<open>
  \<open>ls_log\<close> records the effects in their order, with their threads, and \<open>ls_arg\<close> the parameter of a
  thread's last call of \<open>push\<close>: a push is recorded with its argument. No step reads them for anything
  else.
\<close>

record lstack = nodes +
  ls_head :: nat
  ls_lock :: clh
  ls_pc :: "tid \<Rightarrow> lspc"
  ls_log :: "(tid \<times> i32 sact) list"
  ls_arg :: "tid \<Rightarrow> i32"

definition ls_init :: lstack where
  "ls_init = \<lparr>nd_val = (\<lambda>x. 0), nd_next = (\<lambda>x. None), nd_fresh = 1, ls_head = 0, ls_lock = clhLockInit,
     ls_pc = (\<lambda>t. LsIdle), ls_log = [], ls_arg = (\<lambda>t. 0)\<rparr>"

definition lsgo :: "tid \<Rightarrow> lspc \<Rightarrow> lstack \<Rightarrow> lstack" where
  "lsgo t p s = s\<lparr>ls_pc := (ls_pc s)(t := p)\<rparr>"

fun ls_push :: "lspc \<Rightarrow> tid \<Rightarrow> lstack \<Rightarrow> lstack option" where
  "ls_push (LsPLock n) t s =
     (case lock_turn t (ls_lock s) of
        None \<Rightarrow> None
      | Some l \<Rightarrow> Some (lsgo t (if cl_pc (ls_lock s) t = CIn then LsPNext n else LsPLock n) (s\<lparr>ls_lock := l\<rparr>)))"
| "ls_push (LsPNext n) t s = Some (lsgo t (LsPHead n) (s\<lparr>nd_next := (nd_next s)(n := Some (ls_head s))\<rparr>))"
| "ls_push (LsPHead n) t s = Some (lsgo t LsPUnlock (s\<lparr>ls_head := n, ls_log := ls_log s @ [(t, Push (ls_arg s t))]\<rparr>))"
| "ls_push LsPUnlock t s =
     (case unlock_turn t (ls_lock s) of
        None \<Rightarrow> None
      | Some l \<Rightarrow> Some (lsgo t (if cl_pc (ls_lock s) t = CIdle then LsIdle else LsPUnlock) (s\<lparr>ls_lock := l\<rparr>)))"
| "ls_push _ t s = None"

fun ls_pop :: "lspc \<Rightarrow> tid \<Rightarrow> lstack \<Rightarrow> lstack option" where
  "ls_pop LsOLock t s =
     (case lock_turn t (ls_lock s) of
        None \<Rightarrow> None
      | Some l \<Rightarrow> Some (lsgo t (if cl_pc (ls_lock s) t = CIn then LsOTest else LsOLock) (s\<lparr>ls_lock := l\<rparr>)))"
| "ls_pop LsOTest t s =
     (if nd_next s (ls_head s) = None then Some (lsgo t (LsOUnlock (-1)) (s\<lparr>ls_log := ls_log s @ [(t, PopEmpty)]\<rparr>))
      else Some (lsgo t LsOValue s))"
| "ls_pop LsOValue t s =
     (case nd_next s (ls_head s) of None \<Rightarrow> None | Some n \<Rightarrow> Some (lsgo t (LsOHead (nd_val s n)) s))"
| "ls_pop (LsOHead v) t s =
     (case nd_next s (ls_head s) of
        None \<Rightarrow> None
      | Some n \<Rightarrow> Some (lsgo t (LsOUnlock v) (s\<lparr>ls_head := n, ls_log := ls_log s @ [(t, Pop v)]\<rparr>)))"
| "ls_pop (LsOUnlock v) t s =
     (case unlock_turn t (ls_lock s) of
        None \<Rightarrow> None
      | Some l \<Rightarrow> Some (lsgo t (if cl_pc (ls_lock s) t = CIdle then LsDone v else LsOUnlock v) (s\<lparr>ls_lock := l\<rparr>)))"
| "ls_pop _ t s = None"

fun ls_idle :: "lspc \<Rightarrow> bool" where
  "ls_idle LsIdle = True"
| "ls_idle (LsDone v) = True"
| "ls_idle _ = False"

datatype lsev = LsPush tid i32 | LsPop tid | LsRun tid

fun ls_step :: "lsev \<Rightarrow> lstack \<Rightarrow> lstack option" where
  "ls_step (LsPush t arg) s =
     (if \<not> ls_idle (ls_pc s t) then None
      else case clh_step (Acquire t) (ls_lock s) of
        None \<Rightarrow> None
      | Some l \<Rightarrow> (let n = nd_fresh s
          in Some (lsgo t (LsPLock n) (s\<lparr>nd_fresh := n + 1, nd_val := (nd_val s)(n := arg), ls_lock := l,
             ls_arg := (ls_arg s)(t := arg)\<rparr>))))"
| "ls_step (LsPop t) s =
     (if \<not> ls_idle (ls_pc s t) then None
      else case clh_step (Acquire t) (ls_lock s) of
        None \<Rightarrow> None
      | Some l \<Rightarrow> Some (lsgo t LsOLock (s\<lparr>ls_lock := l\<rparr>)))"
| "ls_step (LsRun t) s =
     (case ls_push (ls_pc s t) t s of Some s' \<Rightarrow> Some s' | None \<Rightarrow> ls_pop (ls_pc s t) t s)"

text \<open>
  The stack as it is: a pop removes the top and answers with the value below it, the guard's 0 when
  nothing is left.
\<close>

fun below_step :: "i32 sact \<Rightarrow> i32 list \<Rightarrow> i32 list option" where
  "below_step (Push v) st = Some (v # st)"
| "below_step (Pop v) st = (case st of [] \<Rightarrow> None | w # ws \<Rightarrow> if hd (ws @ [0]) = v then Some ws else None)"
| "below_step PopEmpty st = (if st = [] then Some st else None)"

fun ls_new :: "lspc \<Rightarrow> nat option" where
  "ls_new (LsPLock n) = Some n"
| "ls_new (LsPNext n) = Some n"
| "ls_new (LsPHead n) = Some n"
| "ls_new _ = None"

fun ls_in :: "lspc \<Rightarrow> bool" where
  "ls_in (LsPNext n) = True"
| "ls_in (LsPHead n) = True"
| "ls_in LsOTest = True"
| "ls_in LsOValue = True"
| "ls_in (LsOHead v) = True"
| "ls_in _ = False"

fun ls_fits :: "lstack \<Rightarrow> lspc \<Rightarrow> bool" where
  "ls_fits s (LsPHead n) = (nd_next s n = Some (ls_head s))"
| "ls_fits s LsOValue = (nd_next s (ls_head s) \<noteq> None)"
| "ls_fits s (LsOHead v) = (\<exists>n. nd_next s (ls_head s) = Some n \<and> nd_val s n = v)"
| "ls_fits s _ = True"

definition ls_vals :: "lstack \<Rightarrow> nat list \<Rightarrow> i32 list" where
  "ls_vals s ns = map (nd_val s) (butlast (ls_head s # ns))"

definition ls_inv :: "lstack \<Rightarrow> nat list \<Rightarrow> bool" where
  "ls_inv s ns \<longleftrightarrow> clh_good (ls_lock s) \<and> (\<forall>t. ls_in (ls_pc s t) \<longrightarrow> holds (ls_lock s) t) \<and>
     node_chain (nd_next s) (ls_head s) ns \<and> distinct (ls_head s # ns) \<and> (\<forall>n \<in> set (ls_head s # ns). n < nd_fresh s) \<and>
     last (ls_head s # ns) = 0 \<and> nd_val s 0 = 0 \<and>
     (\<forall>t n. ls_new (ls_pc s t) = Some n \<longrightarrow> n < nd_fresh s \<and> n \<notin> set (ls_head s # ns)) \<and>
     (\<forall>t u n. ls_new (ls_pc s t) = Some n \<and> ls_new (ls_pc s u) = Some n \<longrightarrow> t = u) \<and>
     (\<forall>t. ls_fits s (ls_pc s t)) \<and> (\<forall>t n. ls_new (ls_pc s t) = Some n \<longrightarrow> nd_val s n = ls_arg s t) \<and>
     mrun below_step (map snd (ls_log s)) [] = Some (ls_vals s ns)"

definition ls_good :: "lstack \<Rightarrow> bool" where
  "ls_good s \<longleftrightarrow> (\<exists>ns. ls_inv s ns)"

lemma lsgo_simps [simp]:
  "nd_val (lsgo t p s) = nd_val s" "nd_next (lsgo t p s) = nd_next s" "nd_fresh (lsgo t p s) = nd_fresh s"
  "ls_head (lsgo t p s) = ls_head s" "ls_lock (lsgo t p s) = ls_lock s" "ls_pc (lsgo t p s) = (ls_pc s)(t := p)"
  "ls_log (lsgo t p s) = ls_log s" "ls_arg (lsgo t p s) = ls_arg s"
  by (simp_all add: lsgo_def)

lemma ls_invD:
  assumes "ls_inv s ns"
  shows "clh_good (ls_lock s)" "ls_in (ls_pc s t) \<Longrightarrow> holds (ls_lock s) t" "node_chain (nd_next s) (ls_head s) ns"
    "distinct (ls_head s # ns)" "n \<in> set (ls_head s # ns) \<Longrightarrow> n < nd_fresh s" "last (ls_head s # ns) = 0" "nd_val s 0 = 0"
    "ls_new (ls_pc s t) = Some n \<Longrightarrow> n < nd_fresh s \<and> n \<notin> set (ls_head s # ns)"
    "ls_new (ls_pc s t) = Some n \<Longrightarrow> ls_new (ls_pc s u) = Some n \<Longrightarrow> t = u"
    "ls_fits s (ls_pc s t)" "mrun below_step (map snd (ls_log s)) [] = Some (ls_vals s ns)"
    "ls_new (ls_pc s t) = Some n \<Longrightarrow> nd_val s n = ls_arg s t"
  using assms unfolding ls_inv_def by blast+

lemma ls_invI:
  assumes "clh_good (ls_lock s)" "\<And>t. ls_in (ls_pc s t) \<Longrightarrow> holds (ls_lock s) t" "node_chain (nd_next s) (ls_head s) ns"
    and "distinct (ls_head s # ns)" "\<And>n. n \<in> set (ls_head s # ns) \<Longrightarrow> n < nd_fresh s" "last (ls_head s # ns) = 0" "nd_val s 0 = 0"
    and "\<And>t n. ls_new (ls_pc s t) = Some n \<Longrightarrow> n < nd_fresh s \<and> n \<notin> set (ls_head s # ns)"
    and "\<And>t u n. ls_new (ls_pc s t) = Some n \<Longrightarrow> ls_new (ls_pc s u) = Some n \<Longrightarrow> t = u"
    and "\<And>t. ls_fits s (ls_pc s t)" "mrun below_step (map snd (ls_log s)) [] = Some (ls_vals s ns)"
    and "\<And>t n. ls_new (ls_pc s t) = Some n \<Longrightarrow> nd_val s n = ls_arg s t"
  shows "ls_good s"
  unfolding ls_good_def ls_inv_def using assms by (intro exI [of _ ns]) blast

text \<open>A step that changes the lock and the thread's program point, but no node.\<close>

lemma ls_inv_move:
  assumes inv: "ls_inv s ns" and f: "nd_val s' = nd_val s" "nd_next s' = nd_next s" "nd_fresh s' = nd_fresh s"
      "ls_head s' = ls_head s" "ls_pc s' = (ls_pc s)(t := p)" "ls_log s' = ls_log s" "ls_arg s' = ls_arg s"
    and good: "clh_good (ls_lock s')" and other: "\<And>u. u \<noteq> t \<Longrightarrow> holds (ls_lock s') u = holds (ls_lock s) u"
    and own: "ls_in p \<Longrightarrow> holds (ls_lock s') t" and new: "\<And>n. ls_new p = Some n \<Longrightarrow> ls_new (ls_pc s t) = Some n"
    and fit: "ls_fits s p"
  shows "ls_good s'"
proof -
  note D = ls_invD [OF inv]
  have fits: "ls_fits s' q = ls_fits s q" for q by (cases q) (simp_all add: f)
  have was: "ls_new (ls_pc s' u) = Some n \<Longrightarrow> ls_new (ls_pc s u) = Some n" for u n
    using new by (cases "u = t") (simp_all add: f)
  show ?thesis
  proof (rule ls_invI [of s' ns])
    fix u
    show "ls_fits s' (ls_pc s' u)" using D(10) [of u] fit by (cases "u = t") (simp_all add: fits f)
    show "ls_in (ls_pc s' u) \<Longrightarrow> holds (ls_lock s') u" using D(2) [of u] own other [of u] by (cases "u = t") (simp_all add: f)
  next
    fix u v n
    assume "ls_new (ls_pc s' u) = Some n" "ls_new (ls_pc s' v) = Some n"
    then show "u = v" using was D(9) by blast
  next
    fix u n
    assume "ls_new (ls_pc s' u) = Some n"
    then show "n < nd_fresh s' \<and> n \<notin> set (ls_head s' # ns)" using D(8) [OF was] by (simp add: f)
  next
    fix u n
    assume "ls_new (ls_pc s' u) = Some n"
    then show "nd_val s' n = ls_arg s' u" using D(12) [OF was] by (simp add: f)
  qed (use D good in \<open>simp_all add: f ls_vals_def\<close>)
qed

lemma ls_alone:
  assumes inv: "ls_inv s ns" and "ls_in (ls_pc s t)" and "ls_in (ls_pc s u)"
  shows "u = t"
  using clh_impl.one_inside [OF ls_invD(1) [OF inv]] ls_invD(2) [OF inv] assms(2,3) by blast

text \<open>The effects of a push and of a pop.\<close>

lemma ls_link:
  assumes inv: "ls_inv s ns" and pc: "ls_pc s t = LsPNext n"
  shows "ls_good (lsgo t (LsPHead n) (s\<lparr>nd_next := (nd_next s)(n := Some (ls_head s))\<rparr>))" (is "ls_good ?s")
proof -
  note D = ls_invD [OF inv]
  have n: "n \<notin> set (ls_head s # ns)" using D(8) [of t n] pc by simp
  have notin: "\<not> ls_in (ls_pc s u)" if "u \<noteq> t" for u using ls_alone [OF inv, of t u] pc that by auto
  have new: "ls_new (ls_pc ?s u) = ls_new (ls_pc s u)" for u using pc by simp
  show ?thesis
  proof (rule ls_invI [of _ ns])
    fix u
    show "ls_fits ?s (ls_pc ?s u)" using notin [of u] by (cases "u = t"; cases "ls_pc s u") simp_all
    show "ls_in (ls_pc ?s u) \<Longrightarrow> holds (ls_lock ?s) u" using D(2) [of u] pc by (cases "u = t") simp_all
  next
    fix u v m
    assume "ls_new (ls_pc ?s u) = Some m" "ls_new (ls_pc ?s v) = Some m"
    then show "u = v" unfolding new using D(9) by blast
  next
    fix u m
    assume "ls_new (ls_pc ?s u) = Some m"
    then show "m < nd_fresh ?s \<and> m \<notin> set (ls_head ?s # ns)" unfolding new using D(8) by simp
  next
    fix u m
    assume "ls_new (ls_pc ?s u) = Some m"
    then show "nd_val ?s m = ls_arg ?s u" unfolding new using D(12) by simp
  qed (use D(1,4-7,11) node_chain_upd [OF D(3) n] in \<open>simp_all add: ls_vals_def\<close>)
qed

lemma ls_push_effect:
  assumes inv: "ls_inv s ns" and pc: "ls_pc s t = LsPHead n"
  shows "ls_good (lsgo t LsPUnlock (s\<lparr>ls_head := n, ls_log := ls_log s @ [(t, Push (ls_arg s t))]\<rparr>))" (is "ls_good ?s")
proof -
  note D = ls_invD [OF inv]
  have n: "n < nd_fresh s" "n \<notin> set (ls_head s # ns)" "nd_val s n = ls_arg s t"
    using D(8) [of t n] D(12) [of t n] pc by simp_all
  have nx: "nd_next s n = Some (ls_head s)" using D(10) [of t] pc by simp
  have notin: "\<not> ls_in (ls_pc s u)" if "u \<noteq> t" for u using ls_alone [OF inv, of t u] pc that by auto
  have new: "ls_new (ls_pc ?s u) = Some m \<Longrightarrow> u \<noteq> t \<and> ls_new (ls_pc s u) = Some m" for u m by (cases "u = t") auto
  show ?thesis
  proof (rule ls_invI [of _ "ls_head s # ns"])
    fix u
    show "ls_fits ?s (ls_pc ?s u)" using notin [of u] by (cases "u = t"; cases "ls_pc s u") simp_all
    show "ls_in (ls_pc ?s u) \<Longrightarrow> holds (ls_lock ?s) u" using D(2) [of u] by (cases "u = t") simp_all
  next
    fix u v m
    assume "ls_new (ls_pc ?s u) = Some m" "ls_new (ls_pc ?s v) = Some m"
    then show "u = v" using new D(9) by blast
  next
    fix u m
    assume "ls_new (ls_pc ?s u) = Some m"
    then have u: "u \<noteq> t" "ls_new (ls_pc s u) = Some m" using new by blast+
    then have "m \<noteq> n" using D(9) [OF u(2), of t] pc by auto
    then show "m < nd_fresh ?s \<and> m \<notin> set (ls_head ?s # ls_head s # ns)" using D(8) [OF u(2)] by simp
  next
    fix u m
    assume "ls_new (ls_pc ?s u) = Some m"
    then have "ls_new (ls_pc s u) = Some m" using new by blast
    from D(12) [OF this] show "nd_val ?s m = ls_arg ?s u" by simp
  next
    show "mrun below_step (map snd (ls_log ?s)) [] = Some (ls_vals ?s (ls_head s # ns))"
      using D(11) n(3) by (simp add: mrun_append ls_vals_def)
  next
    fix m
    assume "m \<in> set (ls_head ?s # ls_head s # ns)"
    then show "m < nd_fresh ?s" using D(5) [of m] n(1) by auto
  qed (use D(1,3,4,6,7) n nx in simp_all)
qed

lemma ls_pop_effect:
  assumes inv: "ls_inv s ns" and pc: "ls_pc s t = LsOHead v" and nx: "nd_next s (ls_head s) = Some n"
  shows "ls_good (lsgo t (LsOUnlock v) (s\<lparr>ls_head := n, ls_log := ls_log s @ [(t, Pop v)]\<rparr>))" (is "ls_good ?s")
proof -
  note D = ls_invD [OF inv]
  have v: "nd_val s n = v" using D(10) [of t] pc nx by simp
  obtain us where ns: "ns = n # us" using D(3) nx by (cases ns) auto
  have notin: "\<not> ls_in (ls_pc s u)" if "u \<noteq> t" for u using ls_alone [OF inv, of t u] pc that by auto
  have new: "ls_new (ls_pc ?s u) = Some m \<Longrightarrow> ls_new (ls_pc s u) = Some m" for u m by (cases "u = t") auto
  have top: "hd (map (nd_val s) (butlast (n # us)) @ [0]) = v"
    using v D(6,7) ns by (cases us) auto
  show ?thesis
  proof (rule ls_invI [of _ us])
    fix u
    show "ls_fits ?s (ls_pc ?s u)" using notin [of u] by (cases "u = t"; cases "ls_pc s u") simp_all
    show "ls_in (ls_pc ?s u) \<Longrightarrow> holds (ls_lock ?s) u" using D(2) [of u] by (cases "u = t") simp_all
  next
    fix u v m
    assume "ls_new (ls_pc ?s u) = Some m" "ls_new (ls_pc ?s v) = Some m"
    then show "u = v" using new D(9) by blast
  next
    fix u m
    assume "ls_new (ls_pc ?s u) = Some m"
    then show "m < nd_fresh ?s \<and> m \<notin> set (ls_head ?s # us)" using D(8) [OF new] ns by simp
  next
    fix u m
    assume "ls_new (ls_pc ?s u) = Some m"
    then show "nd_val ?s m = ls_arg ?s u" using D(12) [OF new] by simp
  next
    have "ls_vals s ns = nd_val s (ls_head s) # map (nd_val s) (butlast (n # us))" by (simp add: ls_vals_def ns)
    then show "mrun below_step (map snd (ls_log ?s)) [] = Some (ls_vals ?s us)"
      using D(11) top by (simp add: mrun_append ls_vals_def)
  next
    fix m
    assume "m \<in> set (ls_head ?s # us)"
    then show "m < nd_fresh ?s" using D(5) [of m] ns by auto
  qed (use D(1,3,4,6,7) ns in simp_all)
qed

lemma ls_empty:
  assumes inv: "ls_inv s ns" and pc: "ls_pc s t = LsOTest" and nx: "nd_next s (ls_head s) = None"
  shows "ls_good (lsgo t (LsOUnlock (-1)) (s\<lparr>ls_log := ls_log s @ [(t, PopEmpty)]\<rparr>))" (is "ls_good ?s")
proof -
  note D = ls_invD [OF inv]
  have ns: "ns = []" using D(3) nx by (cases ns) auto
  have fits: "ls_fits ?s q = ls_fits s q" for q by (cases q) simp_all
  have new: "ls_new (ls_pc ?s u) = Some m \<Longrightarrow> ls_new (ls_pc s u) = Some m" for u m by (cases "u = t") auto
  show ?thesis
  proof (rule ls_invI [of _ ns])
    fix u
    show "ls_fits ?s (ls_pc ?s u)" unfolding fits using D(10) [of u] by (cases "u = t") simp_all
    show "ls_in (ls_pc ?s u) \<Longrightarrow> holds (ls_lock ?s) u" using D(2) [of u] by (cases "u = t") simp_all
  next
    fix u v m
    assume "ls_new (ls_pc ?s u) = Some m" "ls_new (ls_pc ?s v) = Some m"
    then show "u = v" using new D(9) by blast
  next
    fix u m
    assume "ls_new (ls_pc ?s u) = Some m"
    then show "m < nd_fresh ?s \<and> m \<notin> set (ls_head ?s # ns)" using D(8) [OF new] by simp
  next
    fix u m
    assume "ls_new (ls_pc ?s u) = Some m"
    then show "nd_val ?s m = ls_arg ?s u" using D(12) [OF new] by simp
  next
    show "mrun below_step (map snd (ls_log ?s)) [] = Some (ls_vals ?s ns)"
      using D(11) ns by (simp add: mrun_append ls_vals_def)
  qed (use D(1,3-7) in simp_all)
qed

text \<open>A new push takes a node from its pool.\<close>

lemma ls_begin:
  assumes inv: "ls_inv s ns" and idle: "ls_idle (ls_pc s t)" and acq: "clh_step (Acquire t) (ls_lock s) = Some l"
  shows "ls_good (lsgo t (LsPLock (nd_fresh s))
     (s\<lparr>nd_fresh := nd_fresh s + 1, nd_val := (nd_val s)(nd_fresh s := arg), ls_lock := l, ls_arg := (ls_arg s)(t := arg)\<rparr>))" (is "ls_good ?s")
proof -
  note D = ls_invD [OF inv]
  let ?n = "nd_fresh s"
  have g: "clh_good l \<and> (\<forall>u. u \<noteq> t \<longrightarrow> holds l u = holds (ls_lock s) u)" by (rule turn_good [OF D(1) acq]) simp
  have nin: "?n \<notin> set (ls_head s # ns)" using D(5) [of ?n] by auto
  have "last (ls_head s # ns) \<in> set (ls_head s # ns)" by (rule last_in_set) simp
  then have nz: "0 < ?n" using D(5) [of 0] D(6) by metis
  have new: "u \<noteq> t \<Longrightarrow> ls_new (ls_pc ?s u) = Some m \<Longrightarrow> ls_new (ls_pc s u) = Some m \<and> m \<noteq> ?n" for u m
    using D(8) [of u m] by auto
  have below: "nd_next s (ls_head s) = Some m \<Longrightarrow> m \<noteq> ?n" for m using D(3) nin by (cases ns) auto
  show ?thesis
  proof (rule ls_invI [of _ ns])
    fix u
    show "ls_fits ?s (ls_pc ?s u)" using D(10) [of u] below by (cases "u = t"; cases "ls_pc s u") auto
    show "ls_in (ls_pc ?s u) \<Longrightarrow> holds (ls_lock ?s) u" using D(2) [of u] g by (cases "u = t") simp_all
  next
    fix u w m
    assume m: "ls_new (ls_pc ?s u) = Some m" "ls_new (ls_pc ?s w) = Some m"
    have tn: "ls_new (ls_pc ?s t) = Some ?n" by simp
    show "u = w"
    proof (cases "u = t"; cases "w = t")
      assume "u = t" "w \<noteq> t"
      then show ?thesis using m tn new [of w m] by (metis option.inject)
    next
      assume "u \<noteq> t" "w = t"
      then show ?thesis using m tn new [of u m] by (metis option.inject)
    next
      assume "u \<noteq> t" "w \<noteq> t"
      then show ?thesis using m new [of u m] new [of w m] D(9) by blast
    qed simp
  next
    fix u m
    assume "ls_new (ls_pc ?s u) = Some m"
    then show "m < nd_fresh ?s \<and> m \<notin> set (ls_head ?s # ns)"
      using new [of u m] D(8) [of u m] nin by (cases "u = t") auto
  next
    fix u m
    assume "ls_new (ls_pc ?s u) = Some m"
    then show "nd_val ?s m = ls_arg ?s u" using new [of u m] D(12) [of u m] by (cases "u = t") auto
  next
    fix m
    assume "m \<in> set (ls_head ?s # ns)"
    then show "m < nd_fresh ?s" using D(5) [of m] by simp
  next
    have "map ((nd_val s)(?n := arg)) (butlast (ls_head s # ns)) = map (nd_val s) (butlast (ls_head s # ns))"
      using nin in_set_butlastD [of _ "ls_head s # ns"] by (intro map_cong) auto
    then show "mrun below_step (map snd (ls_log ?s)) [] = Some (ls_vals ?s ns)" using D(11) by (simp add: ls_vals_def)
  qed (use D(3,4,6,7) g nz in simp_all)
qed

lemma ls_step_good:
  assumes good: "ls_good s" and run: "ls_step e s = Some s'"
  shows "ls_good s'"
proof -
  obtain ns where inv: "ls_inv s ns" using good by (auto simp: ls_good_def)
  note D = ls_invD [OF inv]
  show ?thesis
  proof (cases e)
    case (LsPush t arg)
    then obtain l where "ls_idle (ls_pc s t)" "clh_step (Acquire t) (ls_lock s) = Some l"
      "s' = lsgo t (LsPLock (nd_fresh s)) (s\<lparr>nd_fresh := nd_fresh s + 1, nd_val := (nd_val s)(nd_fresh s := arg), ls_lock := l, ls_arg := (ls_arg s)(t := arg)\<rparr>)"
      using run by (auto simp: Let_def simp del: clh_step.simps split: if_splits option.splits)
    then show ?thesis using ls_begin [OF inv] by blast
  next
    case (LsPop t)
    then obtain l where l: "ls_idle (ls_pc s t)" "clh_step (Acquire t) (ls_lock s) = Some l" "s' = lsgo t LsOLock (s\<lparr>ls_lock := l\<rparr>)"
      using run by (auto simp del: clh_step.simps split: if_splits option.splits)
    have "clh_good l \<and> (\<forall>u. u \<noteq> t \<longrightarrow> holds l u = holds (ls_lock s) u)" by (rule turn_good [OF D(1) l(2)]) simp
    then show ?thesis by (intro ls_inv_move [OF inv, of s' t LsOLock]) (use l in auto)
  next
    case (LsRun t)
    show ?thesis
    proof (cases "ls_pc s t")
      case (LsPLock n)
      then obtain l where l: "lock_turn t (ls_lock s) = Some l"
        "s' = lsgo t (if cl_pc (ls_lock s) t = CIn then LsPNext n else LsPLock n) (s\<lparr>ls_lock := l\<rparr>)"
        using run LsRun by (auto split: option.splits)
      then show ?thesis using lock_turn_good [OF D(1) l(1)] LsPLock
        by (intro ls_inv_move [OF inv, of s' t "if cl_pc (ls_lock s) t = CIn then LsPNext n else LsPLock n"]) (auto split: if_splits)
    next
      case (LsPNext n)
      then show ?thesis using run LsRun ls_link [OF inv LsPNext] by simp
    next
      case (LsPHead n)
      then show ?thesis using run LsRun ls_push_effect [OF inv LsPHead] by simp
    next
      case LsPUnlock
      then obtain l where l: "unlock_turn t (ls_lock s) = Some l"
        "s' = lsgo t (if cl_pc (ls_lock s) t = CIdle then LsIdle else LsPUnlock) (s\<lparr>ls_lock := l\<rparr>)"
        using run LsRun by (auto split: option.splits)
      then show ?thesis using unlock_turn_good [OF D(1) l(1)] LsPUnlock
        by (intro ls_inv_move [OF inv, of s' t "if cl_pc (ls_lock s) t = CIdle then LsIdle else LsPUnlock"]) (auto split: if_splits)
    next
      case LsOLock
      then obtain l where l: "lock_turn t (ls_lock s) = Some l"
        "s' = lsgo t (if cl_pc (ls_lock s) t = CIn then LsOTest else LsOLock) (s\<lparr>ls_lock := l\<rparr>)"
        using run LsRun by (auto split: option.splits)
      then show ?thesis using lock_turn_good [OF D(1) l(1)] LsOLock
        by (intro ls_inv_move [OF inv, of s' t "if cl_pc (ls_lock s) t = CIn then LsOTest else LsOLock"]) (auto split: if_splits)
    next
      case LsOTest
      show ?thesis
      proof (cases "nd_next s (ls_head s)")
        case None
        then show ?thesis using run LsRun LsOTest ls_empty [OF inv LsOTest None] by simp
      next
        case (Some n)
        then have "s' = lsgo t LsOValue s" using run LsRun LsOTest by simp
        then show ?thesis using D(1) D(2) [of t] Some LsOTest by (intro ls_inv_move [OF inv, of s' t LsOValue]) auto
      qed
    next
      case LsOValue
      then obtain n where "nd_next s (ls_head s) = Some n" "s' = lsgo t (LsOHead (nd_val s n)) s"
        using run LsRun by (auto split: option.splits)
      then show ?thesis using D(1) D(2) [of t] LsOValue by (intro ls_inv_move [OF inv, of s' t "LsOHead (nd_val s n)"]) auto
    next
      case (LsOHead v)
      then obtain n where "nd_next s (ls_head s) = Some n" "s' = lsgo t (LsOUnlock v) (s\<lparr>ls_head := n, ls_log := ls_log s @ [(t, Pop v)]\<rparr>)"
        using run LsRun by (auto split: option.splits)
      then show ?thesis using ls_pop_effect [OF inv LsOHead] by blast
    next
      case (LsOUnlock v)
      then obtain l where l: "unlock_turn t (ls_lock s) = Some l"
        "s' = lsgo t (if cl_pc (ls_lock s) t = CIdle then LsDone v else LsOUnlock v) (s\<lparr>ls_lock := l\<rparr>)"
        using run LsRun by (auto split: option.splits)
      then show ?thesis using unlock_turn_good [OF D(1) l(1)] LsOUnlock
        by (intro ls_inv_move [OF inv, of s' t "if cl_pc (ls_lock s) t = CIdle then LsDone v else LsOUnlock v"]) (auto split: if_splits)
    qed (use run LsRun in auto)
  qed
qed

interpretation lsm: machine ls_step ls_good
  by unfold_locales (rule ls_step_good)

lemma ls_init_good: "ls_good ls_init"
  by (rule ls_invI [of _ "[]"]) (simp_all add: ls_init_def clh_init_good ls_vals_def)

definition ls_content :: "lstack \<Rightarrow> i32 list" where
  "ls_content s = map (nd_val s) (butlast (ls_head s # node_walk (nd_fresh s) (nd_next s) (ls_head s)))"

lemma ls_content_eq:
  assumes "ls_inv s ns"
  shows "ls_content s = ls_vals s ns"
proof -
  note D = ls_invD [OF assms]
  have "distinct ns" "set ns \<subseteq> {..<nd_fresh s}" using D(4,5) by auto
  then have "length ns \<le> nd_fresh s" using card_mono [of "{..<nd_fresh s}" "set ns"] distinct_card [of ns] by simp
  then show ?thesis using node_walk_chain [OF D(3)] by (simp add: ls_content_def ls_vals_def)
qed

section \<open>What the operations return, and whose they are\<close>

definition ls_lasts :: "lstack \<Rightarrow> tid \<Rightarrow> i32 sact list" where
  "ls_lasts s t = map snd (filter (\<lambda>e. fst e = t) (ls_log s))"

fun ls_answer :: "lspc \<Rightarrow> i32 sact list \<Rightarrow> bool" where
  "ls_answer (LsOUnlock v) as = (as \<noteq> [] \<and> (last as = Pop v \<or> v = -1 \<and> last as = PopEmpty))"
| "ls_answer (LsDone v) as = (as \<noteq> [] \<and> (last as = Pop v \<or> v = -1 \<and> last as = PopEmpty))"
| "ls_answer _ as = True"

fun ls_calls :: "tid \<Rightarrow> lsev list \<Rightarrow> i32 option list" where
  "ls_calls t [] = []"
| "ls_calls t (LsPush u arg # es) = (if u = t then Some arg # ls_calls t es else ls_calls t es)"
| "ls_calls t (LsPop u # es) = (if u = t then None # ls_calls t es else ls_calls t es)"
| "ls_calls t (LsRun u # es) = ls_calls t es"

fun push_arg :: "'v sact \<Rightarrow> 'v option" where
  "push_arg (Push v) = Some v"
| "push_arg _ = None"

fun ls_next :: "i32 \<Rightarrow> lspc \<Rightarrow> i32 option list" where
  "ls_next arg (LsPLock n) = [Some arg]"
| "ls_next arg (LsPNext n) = [Some arg]"
| "ls_next arg (LsPHead n) = [Some arg]"
| "ls_next arg LsOLock = [None]"
| "ls_next arg LsOTest = [None]"
| "ls_next arg LsOValue = [None]"
| "ls_next arg (LsOHead v) = [None]"
| "ls_next arg _ = []"

definition ls_plan :: "tid \<Rightarrow> lstack \<Rightarrow> i32 option list" where
  "ls_plan t s = map push_arg (ls_lasts s t) @ ls_next (ls_arg s t) (ls_pc s t)"

lemma ls_frame:
  assumes "ls_step e s = Some s'" and "e = LsPush t v \<or> e = LsPop t \<or> e = LsRun t" and "u \<noteq> t"
  shows "ls_pc s' u = ls_pc s u \<and> ls_lasts s' u = ls_lasts s u \<and> ls_arg s' u = ls_arg s u"
proof (cases "e = LsRun t")
  case True
  then show ?thesis using assms(1,3)
    by (cases "ls_pc s t") (auto simp: ls_lasts_def simp del: clh_step.simps split: if_splits option.splits)
next
  case False
  then show ?thesis using assms by (auto simp: ls_lasts_def Let_def simp del: clh_step.simps split: if_splits option.splits)
qed

lemma ls_plan_begin:
  "ls_step (LsPush t arg) s = Some s' \<Longrightarrow> ls_plan t s' = ls_plan t s @ [Some arg]"
  "ls_step (LsPop t) s = Some s' \<Longrightarrow> ls_plan t s' = ls_plan t s @ [None]"
  by (cases "ls_pc s t"; auto simp: ls_plan_def ls_lasts_def Let_def simp del: clh_step.simps split: if_splits option.splits)+

lemma ls_plan_run: "ls_step (LsRun t) s = Some s' \<Longrightarrow> ls_plan t s' = ls_plan t s"
  by (cases "ls_pc s t") (auto simp: ls_plan_def ls_lasts_def simp del: clh_step.simps split: if_splits option.splits)

lemma ls_answer_run:
  "ls_step (LsRun t) s = Some s' \<Longrightarrow> ls_answer (ls_pc s t) (ls_lasts s t) \<Longrightarrow> ls_answer (ls_pc s' t) (ls_lasts s' t)"
  by (cases "ls_pc s t") (auto simp: ls_lasts_def simp del: clh_step.simps split: if_splits option.splits)

lemma ls_answer_begin:
  "ls_step (LsPush t arg) s = Some s' \<Longrightarrow> ls_answer (ls_pc s' t) as"
  "ls_step (LsPop t) s = Some s' \<Longrightarrow> ls_answer (ls_pc s' t) as"
  by (auto simp: Let_def simp del: clh_step.simps split: if_splits option.splits)

text \<open>One step of any thread, as thread \<open>t\<close> sees it.\<close>

lemma ls_calls_step:
  assumes step: "ls_step e s = Some s'" and ans: "ls_answer (ls_pc s t) (ls_lasts s t)"
  shows "ls_plan t s' = ls_plan t s @ ls_calls t [e] \<and> ls_answer (ls_pc s' t) (ls_lasts s' t)"
proof -
  obtain u v where e: "e = LsPush u v \<or> e = LsPop u \<or> e = LsRun u" by (cases e) auto
  show ?thesis
  proof (cases "u = t")
    case True
    then show ?thesis using e step ans ls_plan_begin ls_plan_run ls_answer_run ls_answer_begin by auto
  next
    case False
    then show ?thesis using e ans ls_frame [OF step e, of t] by (auto simp: ls_plan_def)
  qed
qed

lemma ls_calls_run:
  "mrun ls_step es s = Some s' \<Longrightarrow> ls_answer (ls_pc s t) (ls_lasts s t) \<Longrightarrow>
    ls_plan t s' = ls_plan t s @ ls_calls t es \<and> ls_answer (ls_pc s' t) (ls_lasts s' t)"
proof (induction es arbitrary: s)
  case (Cons e es)
  then obtain u where u: "ls_step e s = Some u" "mrun ls_step es u = Some s'" by (auto split: option.splits)
  have "ls_calls t (e # es) = ls_calls t [e] @ ls_calls t es" by (cases e) simp_all
  then show ?case using ls_calls_step [OF u(1) Cons.prems(2)] Cons.IH [OF u(2)] by simp
qed simp

text \<open>Thread 0 pushes 5 and then 7; thread 1 pops twice.\<close>

definition demo_ls :: "lsev list" where
  "demo_ls = LsPush 0 5 # replicate 10 (LsRun 0) @ LsPush 0 7 # replicate 10 (LsRun 0) @ LsPop 1 # replicate 11 (LsRun 1)"

lemma demo_ls_run:
  "map_option (\<lambda>s. (ls_pc s 0, ls_pc s 1, ls_content s)) (mrun ls_step demo_ls ls_init) = Some (LsIdle, LsDone 5, [5])"
  by code_simp

text \<open>
  (C26) The stack under one CLH lock, under every interleaving: a push puts its argument on top; a pop removes
  the top, but answers with the value of the node below it, the guard's 0 when the stack becomes empty. So
  the value removed is not the value returned, and the last value pushed is never returned by the next pop.
  What a pop returns is the answer its effect is recorded with, or -1 when it saw the stack empty, and the
  effects of each thread are its calls in their order, but for the call it is still at.
\<close>

theorem locksstack_pops_below:
  assumes "mrun ls_step es ls_init = Some s"
  shows "mrun below_step (map snd (ls_log s)) [] = Some (ls_content s) \<and>
    (\<forall>t v. ls_pc s t = LsDone v \<longrightarrow> ls_lasts s t \<noteq> [] \<and> (last (ls_lasts s t) = Pop v \<or> v = -1 \<and> last (ls_lasts s t) = PopEmpty)) \<and>
    (\<forall>t. ls_calls t es = map push_arg (ls_lasts s t) @ ls_next (ls_arg s t) (ls_pc s t))"
proof -
  obtain ns where inv: "ls_inv s ns" using lsm.good_run [OF ls_init_good assms] by (auto simp: ls_good_def)
  have C: "ls_calls t es = ls_plan t s" "ls_answer (ls_pc s t) (ls_lasts s t)" for t
    using ls_calls_run [OF assms, of t] by (simp_all add: ls_plan_def ls_lasts_def ls_init_def)
  have "ls_lasts s t \<noteq> [] \<and> (last (ls_lasts s t) = Pop v \<or> v = -1 \<and> last (ls_lasts s t) = PopEmpty)" if "ls_pc s t = LsDone v" for t v
    using C(2) [of t] that by simp
  then show ?thesis using ls_invD(11) [OF inv] ls_content_eq [OF inv] C(1) by (simp add: ls_plan_def)
qed

theorem locksstack_pops_below_witness:
  "\<exists>s. mrun ls_step demo_ls ls_init = Some s \<and> ls_pc s 1 = LsDone 5 \<and>
    mrun below_step (map snd (ls_log s)) [] = Some [5] \<and> (last (ls_lasts s 1) = Pop 5 \<or> last (ls_lasts s 1) = PopEmpty)"
proof -
  obtain s where s: "mrun ls_step demo_ls ls_init = Some s" "ls_pc s 1 = LsDone 5" "ls_content s = [5]"
    using demo_ls_run by auto
  note R = locksstack_pops_below [OF s(1)]
  show ?thesis using conjunct1 [OF R] conjunct1 [OF conjunct2 [OF R], rule_format, OF s(2)] s by auto
qed

end
