(* ===== verification/Oyama.thy ===== *)
theory Oyama
  imports Serial
begin

text \<open>
  The combining lock of \<open>synch1.0.1/oyama.h\<close> (Oyama's algorithm), one access to shared memory per step, for
  any sequential function \<open>sfunc\<close>: it is linearizable, and a thread can wait for ever. Its object is that of
  \<open>synch1.0.1/oyamauobject.c\<close>. The counters of the \<open>DEBUG\<close> build are not there.
\<close>

section \<open>The lock\<close>

text \<open>
  The program points of \<open>applyOp\<close>, with the local variables \<open>p\<close> and \<open>tmp_next\<close>. A node of the list is named
  by its thread: \<open>mynode\<close> is \<open>&l->pool[pid]\<close>.
\<close>

datatype oypc =
    OyIdle
  | OyTail                    \<comment> \<open>\<open>mynode->next = l->tail\<close>\<close>
  | OyInsert                  \<comment> \<open>\<open>CASPTR(&l->tail, mynode->next, mynode)\<close>\<close>
  | OyTest                    \<comment> \<open>\<open>l->lock == UNLOCKED\<close>\<close>
  | OyCas                     \<comment> \<open>\<open>CASPTR(&l->lock, UNLOCKED, LOCKED)\<close>\<close>
  | OySwap                    \<comment> \<open>\<open>p = SWAP(&l->tail, null)\<close>\<close>
  | OyNext tid                \<comment> \<open>\<open>tmp_next = p->next\<close>\<close>
  | OyFunc tid "tid option"   \<comment> \<open>\<open>p->arg_ret = sfunc(p->arg_ret, p->pid)\<close>\<close>
  | OyCompl tid "tid option"  \<comment> \<open>\<open>p->completed = true; p = tmp_next\<close>\<close>
  | OyRelease                 \<comment> \<open>\<open>l->lock = UNLOCKED\<close>\<close>
  | OySpin                    \<comment> \<open>\<open>while (mynode->completed == false)\<close>\<close>
  | OyRet                     \<comment> \<open>\<open>return mynode->arg_ret\<close>\<close>
  | OyDone i32

text \<open>
  The last four fields are not the lock's: the parameter of each thread's call, the object \<open>sfunc\<close> works
  on, and, read by no step, the applications of \<open>sfunc\<close> in their order and the calls that returned.
\<close>

record 'o oyama =
  oy_lock :: bool
  oy_tail :: "tid option"
  oy_next :: "tid \<Rightarrow> tid option"
  oy_arg_ret :: "tid \<Rightarrow> i32"
  oy_pid :: "tid \<Rightarrow> i32"
  oy_completed :: "tid \<Rightarrow> bool"
  oy_pc :: "tid \<Rightarrow> oypc"
  oy_arg :: "tid \<Rightarrow> i32"
  oy_object :: 'o
  oy_log :: "(tid \<times> i32 \<times> i32 \<times> i32) list"
  oy_hist :: "tid \<Rightarrow> (i32 \<times> i32) list"

text \<open>The pool is a static array, all zeroes.\<close>

definition oyamaLockInit :: "'o \<Rightarrow> 'o oyama" where
  "oyamaLockInit obj =
     \<lparr>oy_lock = False, oy_tail = None, oy_next = (\<lambda>x. None), oy_arg_ret = (\<lambda>x. 0), oy_pid = (\<lambda>x. 0),
      oy_completed = (\<lambda>x. False), oy_pc = (\<lambda>t. OyIdle), oy_arg = (\<lambda>t. 0), oy_object = obj, oy_log = [], oy_hist = (\<lambda>t. [])\<rparr>"

definition oygo :: "tid \<Rightarrow> oypc \<Rightarrow> 'o oyama \<Rightarrow> 'o oyama" where
  "oygo t p s = s\<lparr>oy_pc := (oy_pc s)(t := p)\<rparr>"

text \<open>The first stores, to a node no other thread looks at.\<close>

definition oy_prepare :: "tid \<Rightarrow> i32 \<Rightarrow> 'o oyama \<Rightarrow> 'o oyama" where
  "oy_prepare t arg s =
     s\<lparr>oy_arg_ret := (oy_arg_ret s)(t := arg), oy_pid := (oy_pid s)(t := of_nat t), oy_completed := (oy_completed s)(t := False)\<rparr>"

fun oyama_applyOp :: "(i32 \<Rightarrow> i32 \<Rightarrow> 'o \<Rightarrow> i32 \<times> 'o) \<Rightarrow> oypc \<Rightarrow> tid \<Rightarrow> 'o oyama \<Rightarrow> 'o oyama option" where
  "oyama_applyOp sfunc OyTail t s = Some (oygo t OyInsert (s\<lparr>oy_next := (oy_next s)(t := oy_tail s)\<rparr>))"
| "oyama_applyOp sfunc OyInsert t s =
     Some (if oy_tail s = oy_next s t then oygo t OyTest (s\<lparr>oy_tail := Some t\<rparr>) else oygo t OyTail s)"
| "oyama_applyOp sfunc OyTest t s = Some (oygo t (if oy_lock s then OySpin else OyCas) s)"
| "oyama_applyOp sfunc OyCas t s =
     Some (if oy_lock s then oygo t OySpin s else oygo t OySwap (s\<lparr>oy_lock := True\<rparr>))"
| "oyama_applyOp sfunc OySwap t s =
     (case oy_tail s of None \<Rightarrow> Some (oygo t OyRelease s) | Some p \<Rightarrow> Some (oygo t (OyNext p) (s\<lparr>oy_tail := None\<rparr>)))"
| "oyama_applyOp sfunc (OyNext p) t s = Some (oygo t (OyFunc p (oy_next s p)) s)"
| "oyama_applyOp sfunc (OyFunc p tmp_next) t s =
     (let (r, obj) = sfunc (oy_arg_ret s p) (oy_pid s p) (oy_object s)
      in Some (oygo t (OyCompl p tmp_next)
           (s\<lparr>oy_arg_ret := (oy_arg_ret s)(p := r), oy_object := obj, oy_log := oy_log s @ [(p, oy_arg_ret s p, oy_pid s p, r)]\<rparr>)))"
| "oyama_applyOp sfunc (OyCompl p tmp_next) t s =
     Some (oygo t (case tmp_next of None \<Rightarrow> OySwap | Some q \<Rightarrow> OyNext q) (s\<lparr>oy_completed := (oy_completed s)(p := True)\<rparr>))"
| "oyama_applyOp sfunc OyRelease t s = Some (oygo t OyRet (s\<lparr>oy_lock := False\<rparr>))"
| "oyama_applyOp sfunc OySpin t s = Some (if oy_completed s t then oygo t OyRet s else s)"
| "oyama_applyOp sfunc OyRet t s =
     Some (oygo t (OyDone (oy_arg_ret s t)) (s\<lparr>oy_hist := (oy_hist s)(t := oy_hist s t @ [(oy_arg s t, oy_arg_ret s t)])\<rparr>))"
| "oyama_applyOp sfunc _ t s = None"

fun oy_idle :: "oypc \<Rightarrow> bool" where
  "oy_idle OyIdle = True"
| "oy_idle (OyDone v) = True"
| "oy_idle _ = False"

datatype oyev = OyCall tid i32 | OyRun tid

fun oyama_step :: "(i32 \<Rightarrow> i32 \<Rightarrow> 'o \<Rightarrow> i32 \<times> 'o) \<Rightarrow> nat \<Rightarrow> oyev \<Rightarrow> 'o oyama \<Rightarrow> 'o oyama option" where
  "oyama_step sfunc n (OyCall t arg) s =
     (if oy_idle (oy_pc s t) \<and> t < n then Some (oygo t OyTail ((oy_prepare t arg s)\<lparr>oy_arg := (oy_arg s)(t := arg)\<rparr>)) else None)"
| "oyama_step sfunc n (OyRun t) s = oyama_applyOp sfunc (oy_pc s t) t s"

text \<open>\<open>oyamauobject.c\<close>: an array of \<open>OBJECT_SIZE\<close> words, all zero at first, that an operation counts up.\<close>

definition ou_init :: "nat \<Rightarrow> i32 list" where
  "ou_init OBJECT_SIZE = replicate OBJECT_SIZE 0"

definition ou_fetchAndMultiply :: "i32 \<Rightarrow> i32 \<Rightarrow> i32 list \<Rightarrow> i32 \<times> i32 list" where
  "ou_fetchAndMultiply arg pid Critical =
     (let Critical' = map (\<lambda>obj. obj + 1) Critical in (Critical' ! 0, Critical'))"

section \<open>The invariant\<close>

text \<open>
  \<open>ts\<close> are the threads announced from \<open>tail\<close> on, \<open>us\<close> those in the list the combiner took and has not yet
  helped: a thread that has inserted its node is in one of them until its operation is applied.
\<close>

fun oy_chain :: "(tid \<Rightarrow> tid option) \<Rightarrow> tid option \<Rightarrow> tid list \<Rightarrow> bool" where
  "oy_chain nx p [] = (p = None)"
| "oy_chain nx p (t # ts) = (p = Some t \<and> oy_chain nx (nx t) ts)"

fun oy_in :: "oypc \<Rightarrow> bool" where
  "oy_in OyIdle = False"
| "oy_in OyTail = False"
| "oy_in OyInsert = False"
| "oy_in (OyDone v) = False"
| "oy_in _ = True"

fun oy_comb :: "oypc \<Rightarrow> bool" where
  "oy_comb OySwap = True"
| "oy_comb (OyNext p) = True"
| "oy_comb (OyFunc p q) = True"
| "oy_comb (OyCompl p q) = True"
| "oy_comb OyRelease = True"
| "oy_comb _ = False"

fun oy_taken :: "(tid \<Rightarrow> tid option) \<Rightarrow> tid list \<Rightarrow> oypc \<Rightarrow> bool" where
  "oy_taken nx us (OyNext p) = oy_chain nx (Some p) us"
| "oy_taken nx us (OyFunc p q) = (\<exists>vs. us = p # vs \<and> oy_chain nx q vs)"
| "oy_taken nx us (OyCompl p q) = oy_chain nx q us"
| "oy_taken nx us OySwap = (us = [])"
| "oy_taken nx us OyRelease = (us = [])"
| "oy_taken nx us _ = True"

definition oy_finishing :: "'o oyama \<Rightarrow> tid \<Rightarrow> bool" where
  "oy_finishing s t \<longleftrightarrow> (\<exists>d q. oy_pc s d = OyCompl t q)"

definition oy_shape :: "'o oyama \<Rightarrow> tid list \<Rightarrow> tid list \<Rightarrow> bool" where
  "oy_shape s ts us \<longleftrightarrow> oy_chain (oy_next s) (oy_tail s) ts \<and> distinct (ts @ us) \<and>
     (\<forall>d. oy_taken (oy_next s) us (oy_pc s d)) \<and>
     (\<forall>d e. oy_comb (oy_pc s d) \<and> oy_comb (oy_pc s e) \<longrightarrow> d = e) \<and>
     (oy_lock s \<longleftrightarrow> (\<exists>d. oy_comb (oy_pc s d))) \<and> (oy_lock s \<or> us = []) \<and>
     (\<forall>t \<in> set (ts @ us). oy_in (oy_pc s t) \<and> \<not> oy_completed s t \<and> oy_arg_ret s t = oy_arg s t) \<and>
     (\<forall>t. oy_finishing s t \<longrightarrow> oy_in (oy_pc s t) \<and> t \<notin> set (ts @ us) \<and> \<not> oy_completed s t) \<and>
     (\<forall>t. oy_in (oy_pc s t) \<and> t \<notin> set (ts @ us) \<and> \<not> oy_finishing s t \<longrightarrow> oy_completed s t) \<and>
     (\<forall>t. oy_pc s t = OyTail \<or> oy_pc s t = OyInsert \<longrightarrow> oy_arg_ret s t = oy_arg s t \<and> \<not> oy_completed s t) \<and>
     (\<forall>t. oy_pc s t = OyRet \<or> oy_pc s t = OyRelease \<longrightarrow> oy_completed s t)"

definition oy_account :: "'o oyama \<Rightarrow> tid list \<Rightarrow> bool" where
  "oy_account s xs \<longleftrightarrow> (\<forall>t. cc_entries t (oy_log s) =
     oy_hist s t @ (if oy_in (oy_pc s t) \<and> t \<notin> set xs then [(oy_arg s t, oy_arg_ret s t)] else []))"

definition oy_inv :: "(i32 \<Rightarrow> i32 \<Rightarrow> 'o \<Rightarrow> i32 \<times> 'o) \<Rightarrow> 'o \<Rightarrow> 'o oyama \<Rightarrow> bool" where
  "oy_inv f obj s \<longleftrightarrow> (\<exists>ts us. oy_shape s ts us \<and> oy_account s (ts @ us)) \<and> cc_legal f obj (oy_log s) (oy_object s)"

lemma oygo_simps [simp]:
  "oy_lock (oygo t p s) = oy_lock s" "oy_tail (oygo t p s) = oy_tail s" "oy_next (oygo t p s) = oy_next s"
  "oy_arg_ret (oygo t p s) = oy_arg_ret s" "oy_pid (oygo t p s) = oy_pid s" "oy_completed (oygo t p s) = oy_completed s"
  "oy_pc (oygo t p s) = (oy_pc s)(t := p)" "oy_arg (oygo t p s) = oy_arg s" "oy_object (oygo t p s) = oy_object s"
  "oy_log (oygo t p s) = oy_log s" "oy_hist (oygo t p s) = oy_hist s"
  by (simp_all add: oygo_def)

lemma oy_shapeI:
  assumes "oy_chain (oy_next s) (oy_tail s) ts" "distinct (ts @ us)"
    and "\<And>d. oy_taken (oy_next s) us (oy_pc s d)"
    and "\<And>d e. oy_comb (oy_pc s d) \<Longrightarrow> oy_comb (oy_pc s e) \<Longrightarrow> d = e"
    and "oy_lock s \<longleftrightarrow> (\<exists>d. oy_comb (oy_pc s d))" "oy_lock s \<or> us = []"
    and "\<And>t. t \<in> set (ts @ us) \<Longrightarrow> oy_in (oy_pc s t) \<and> \<not> oy_completed s t \<and> oy_arg_ret s t = oy_arg s t"
    and "\<And>t. oy_finishing s t \<Longrightarrow> oy_in (oy_pc s t) \<and> t \<notin> set (ts @ us) \<and> \<not> oy_completed s t"
    and "\<And>t. oy_in (oy_pc s t) \<Longrightarrow> t \<notin> set (ts @ us) \<Longrightarrow> \<not> oy_finishing s t \<Longrightarrow> oy_completed s t"
    and "\<And>t. oy_pc s t = OyTail \<or> oy_pc s t = OyInsert \<Longrightarrow> oy_arg_ret s t = oy_arg s t \<and> \<not> oy_completed s t"
    and "\<And>t. oy_pc s t = OyRet \<or> oy_pc s t = OyRelease \<Longrightarrow> oy_completed s t"
  shows "oy_shape s ts us"
  unfolding oy_shape_def using assms by blast

lemma oy_shapeD:
  assumes "oy_shape s ts us"
  shows "oy_chain (oy_next s) (oy_tail s) ts" "distinct (ts @ us)"
    "oy_taken (oy_next s) us (oy_pc s d)"
    "oy_comb (oy_pc s d) \<Longrightarrow> oy_comb (oy_pc s e) \<Longrightarrow> d = e"
    "oy_lock s \<longleftrightarrow> (\<exists>d. oy_comb (oy_pc s d))" "oy_lock s \<or> us = []"
    "t \<in> set (ts @ us) \<Longrightarrow> oy_in (oy_pc s t) \<and> \<not> oy_completed s t \<and> oy_arg_ret s t = oy_arg s t"
    "oy_finishing s t \<Longrightarrow> oy_in (oy_pc s t) \<and> t \<notin> set (ts @ us) \<and> \<not> oy_completed s t"
    "oy_in (oy_pc s t) \<Longrightarrow> t \<notin> set (ts @ us) \<Longrightarrow> \<not> oy_finishing s t \<Longrightarrow> oy_completed s t"
    "oy_pc s t = OyTail \<or> oy_pc s t = OyInsert \<Longrightarrow> oy_arg_ret s t = oy_arg s t \<and> \<not> oy_completed s t"
    "oy_pc s t = OyRet \<or> oy_pc s t = OyRelease \<Longrightarrow> oy_completed s t"
  using assms unfolding oy_shape_def by blast+

lemma oy_chain_upd: "t \<notin> set ts \<Longrightarrow> oy_chain (nx(t := x)) p ts = oy_chain nx p ts"
  by (induction ts arbitrary: p) auto

lemma oy_taken_upd: "t \<notin> set us \<Longrightarrow> oy_taken (nx(t := x)) us p = oy_taken nx us p"
  by (cases p) (auto simp: oy_chain_upd)

lemma oy_finishing_comb: "oy_finishing s t \<Longrightarrow> \<exists>d. oy_comb (oy_pc s d)"
  by (auto simp: oy_finishing_def) (metis oy_comb.simps(4))

text \<open>A step that changes the thread's program point only, or also a lock nobody combines under.\<close>

lemma oy_go:
  assumes sh: "oy_shape s ts us"
    and pc: "oy_comb p = oy_comb (oy_pc s t)" "oy_in p = oy_in (oy_pc s t)"
    and fin: "\<And>x q. oy_pc s t \<noteq> OyCompl x q" "\<And>x q. p \<noteq> OyCompl x q"
    and new: "oy_taken (oy_next s) us p" "p = OyRet \<or> p = OyRelease \<Longrightarrow> oy_completed s t"
    and out: "p = OyTail \<or> p = OyInsert \<Longrightarrow> oy_pc s t = OyTail \<or> oy_pc s t = OyInsert"
  shows "oy_shape (oygo t p s) ts us"
proof -
  note D = oy_shapeD [OF sh]
  have same: "oy_comb (oy_pc (oygo t p s) u) = oy_comb (oy_pc s u)" "oy_in (oy_pc (oygo t p s) u) = oy_in (oy_pc s u)" for u
    using pc by simp_all
  have fsame: "oy_finishing (oygo t p s) u = oy_finishing s u" for u
    unfolding oy_finishing_def using fin by (metis fun_upd_apply oygo_simps(7))
  show ?thesis
  proof (rule oy_shapeI)
    fix u
    show "oy_taken (oy_next (oygo t p s)) us (oy_pc (oygo t p s) u)" using D(3) [of u] new(1) by simp
    show "oy_pc (oygo t p s) u = OyTail \<or> oy_pc (oygo t p s) u = OyInsert \<Longrightarrow>
        oy_arg_ret (oygo t p s) u = oy_arg (oygo t p s) u \<and> \<not> oy_completed (oygo t p s) u"
      using D(10) [of u] D(10) [of t] out by (cases "u = t") auto
    show "oy_pc (oygo t p s) u = OyRet \<or> oy_pc (oygo t p s) u = OyRelease \<Longrightarrow> oy_completed (oygo t p s) u"
      using D(11) [of u] new(2) by (cases "u = t") auto
  qed (use D in \<open>unfold same fsame, simp_all\<close>)
qed

lemma oy_account_go:
  assumes "oy_account s xs" and "oy_in p = oy_in (oy_pc s t)"
  shows "oy_account (oygo t p s) xs"
  using assms by (simp add: oy_account_def)

lemma oy_call:
  assumes sh: "oy_shape s ts us" and idle: "oy_idle (oy_pc s t)"
  shows "oy_shape (oygo t OyTail ((oy_prepare t arg s)\<lparr>oy_arg := (oy_arg s)(t := arg)\<rparr>)) ts us" (is "oy_shape ?s ts us")
proof -
  note D = oy_shapeD [OF sh]
  have no: "\<not> oy_in (oy_pc s t)" "\<not> oy_comb (oy_pc s t)" using idle by (cases "oy_pc s t"; simp)+
  have f: "oy_next ?s = oy_next s" "oy_tail ?s = oy_tail s" "oy_lock ?s = oy_lock s" by (simp_all add: oy_prepare_def)
  have comb: "oy_comb (oy_pc ?s u) = oy_comb (oy_pc s u)" "oy_in (oy_pc ?s u) = oy_in (oy_pc s u)" for u using no by (simp_all add: oy_prepare_def)
  have fin: "oy_finishing ?s u = oy_finishing s u" for u
  proof -
    have "oy_pc ?s d = OyCompl u q \<longleftrightarrow> oy_pc s d = OyCompl u q" for d q using no by (auto simp: oy_prepare_def)
    then show ?thesis by (simp add: oy_finishing_def)
  qed
  have nt: "t \<notin> set (ts @ us)" "\<not> oy_finishing s t" using D(7,8) [of t] no by blast+
  have same: "u \<noteq> t \<Longrightarrow> oy_pc ?s u = oy_pc s u \<and> oy_completed ?s u = oy_completed s u \<and> oy_arg_ret ?s u = oy_arg_ret s u \<and> oy_arg ?s u = oy_arg s u"
    for u by (simp add: oy_prepare_def)
  have own: "oy_pc ?s t = OyTail" "\<not> oy_completed ?s t" "oy_arg_ret ?s t = oy_arg ?s t" by (simp_all add: oy_prepare_def)
  show ?thesis
  proof (rule oy_shapeI)
    fix u
    show "oy_taken (oy_next ?s) us (oy_pc ?s u)" unfolding f using D(3) [of u] own(1) same [of u] by (cases "u = t") simp_all
    show "u \<in> set (ts @ us) \<Longrightarrow> oy_in (oy_pc ?s u) \<and> \<not> oy_completed ?s u \<and> oy_arg_ret ?s u = oy_arg ?s u"
      using D(7) [of u] nt same [of u] by (cases "u = t") auto
    show "oy_finishing ?s u \<Longrightarrow> oy_in (oy_pc ?s u) \<and> u \<notin> set (ts @ us) \<and> \<not> oy_completed ?s u"
      unfolding fin using D(8) [of u] nt same [of u] by (cases "u = t") auto
    show "oy_in (oy_pc ?s u) \<Longrightarrow> u \<notin> set (ts @ us) \<Longrightarrow> \<not> oy_finishing ?s u \<Longrightarrow> oy_completed ?s u"
      unfolding fin comb using D(9) [of u] no same [of u] by (cases "u = t") auto
    show "oy_pc ?s u = OyTail \<or> oy_pc ?s u = OyInsert \<Longrightarrow> oy_arg_ret ?s u = oy_arg ?s u \<and> \<not> oy_completed ?s u"
      using D(10) [of u] same [of u] own by (cases "u = t") auto
    show "oy_pc ?s u = OyRet \<or> oy_pc ?s u = OyRelease \<Longrightarrow> oy_completed ?s u"
      using D(11) [of u] same [of u] own by (cases "u = t") auto
  qed (use D(1,2,4,5,6) in \<open>unfold comb f, simp_all\<close>)
qed

text \<open>The insertion of a node.\<close>

lemma oy_link:
  assumes sh: "oy_shape s ts us" and pc: "oy_pc s t = OyTail"
  shows "oy_shape (oygo t OyInsert (s\<lparr>oy_next := (oy_next s)(t := oy_tail s)\<rparr>)) ts us" (is "oy_shape ?s ts us")
proof -
  note D = oy_shapeD [OF sh]
  have nt: "t \<notin> set ts" "t \<notin> set us" using D(7) [of t] pc by auto
  have comb: "oy_comb (oy_pc ?s u) = oy_comb (oy_pc s u)" "oy_in (oy_pc ?s u) = oy_in (oy_pc s u)" for u using pc by simp_all
  have fin: "oy_finishing ?s u = oy_finishing s u" for u
  proof -
    have "oy_pc ?s d = OyCompl u q \<longleftrightarrow> oy_pc s d = OyCompl u q" for d q using pc by auto
    then show ?thesis by (simp add: oy_finishing_def)
  qed
  show ?thesis
  proof (rule oy_shapeI)
    show "oy_chain (oy_next ?s) (oy_tail ?s) ts" using D(1) nt(1) by (simp add: oy_chain_upd)
    fix u
    show "oy_taken (oy_next ?s) us (oy_pc ?s u)" using D(3) [of u] nt(2) by (simp add: oy_taken_upd)
    show "oy_pc ?s u = OyTail \<or> oy_pc ?s u = OyInsert \<Longrightarrow> oy_arg_ret ?s u = oy_arg ?s u \<and> \<not> oy_completed ?s u"
      using D(10) [of u] pc by (cases "u = t") auto
    show "oy_pc ?s u = OyRet \<or> oy_pc ?s u = OyRelease \<Longrightarrow> oy_completed ?s u"
      using D(11) [of u] by (cases "u = t") auto
  qed (use D in \<open>unfold comb fin, simp_all\<close>)
qed

lemma oy_insert:
  assumes sh: "oy_shape s ts us" and pc: "oy_pc s t = OyInsert" and eq: "oy_tail s = oy_next s t"
  shows "oy_shape (oygo t OyTest (s\<lparr>oy_tail := Some t\<rparr>)) (t # ts) us" (is "oy_shape ?s _ us")
proof -
  note D = oy_shapeD [OF sh]
  have nt: "t \<notin> set ts" "t \<notin> set us" "\<not> oy_finishing s t" using D(7) [of t] D(8) [of t] pc by auto
  have comb: "oy_comb (oy_pc ?s u) = oy_comb (oy_pc s u)" for u using pc by simp
  have ins: "u \<noteq> t \<Longrightarrow> oy_in (oy_pc ?s u) = oy_in (oy_pc s u)" for u by simp
  have fin: "oy_finishing ?s u = oy_finishing s u" for u
  proof -
    have "oy_pc ?s d = OyCompl u q \<longleftrightarrow> oy_pc s d = OyCompl u q" for d q using pc by auto
    then show ?thesis by (simp add: oy_finishing_def)
  qed
  show ?thesis
  proof (rule oy_shapeI)
    fix u
    show "oy_taken (oy_next ?s) us (oy_pc ?s u)" using D(3) [of u] by simp
    show "u \<in> set ((t # ts) @ us) \<Longrightarrow> oy_in (oy_pc ?s u) \<and> \<not> oy_completed ?s u \<and> oy_arg_ret ?s u = oy_arg ?s u"
      using D(7) [of u] D(10) [of t] pc by (cases "u = t") auto
    show "oy_finishing ?s u \<Longrightarrow> oy_in (oy_pc ?s u) \<and> u \<notin> set ((t # ts) @ us) \<and> \<not> oy_completed ?s u"
      unfolding fin using D(8) [of u] nt by (cases "u = t") auto
    show "oy_in (oy_pc ?s u) \<Longrightarrow> u \<notin> set ((t # ts) @ us) \<Longrightarrow> \<not> oy_finishing ?s u \<Longrightarrow> oy_completed ?s u"
      unfolding fin using D(9) [of u] by (cases "u = t") auto
    show "oy_pc ?s u = OyTail \<or> oy_pc ?s u = OyInsert \<Longrightarrow> oy_arg_ret ?s u = oy_arg ?s u \<and> \<not> oy_completed ?s u"
      using D(10) [of u] by (cases "u = t") auto
    show "oy_pc ?s u = OyRet \<or> oy_pc ?s u = OyRelease \<Longrightarrow> oy_completed ?s u"
      using D(11) [of u] by (cases "u = t") auto
  next
    show "oy_chain (oy_next ?s) (oy_tail ?s) (t # ts)" using D(1) eq by simp
  next
    show "distinct ((t # ts) @ us)" using D(2) nt by simp
  qed (use D(4-6) in \<open>unfold comb, simp_all\<close>)
qed

text \<open>The combiner: it takes the lock, takes the list, helps the first of it, and releases the lock.\<close>

lemma oy_finishing_other:
  assumes "\<And>x q. oy_pc s t \<noteq> OyCompl x q" and "\<And>x q. p \<noteq> OyCompl x q" and "oy_pc s' = (oy_pc s)(t := p)"
  shows "oy_finishing s' u = oy_finishing s u"
proof -
  have "oy_pc s' d = OyCompl u q \<longleftrightarrow> oy_pc s d = OyCompl u q" for d q using assms by auto
  then show ?thesis by (simp add: oy_finishing_def)
qed

lemma oy_lock_step:
  assumes sh: "oy_shape s ts us" and pc: "oy_pc s t = OyCas" and free: "\<not> oy_lock s"
  shows "oy_shape (oygo t OySwap (s\<lparr>oy_lock := True\<rparr>)) ts us" (is "oy_shape ?s _ _")
proof -
  note D = oy_shapeD [OF sh]
  have nc: "\<not> oy_comb (oy_pc s u)" and us: "us = []" for u using D(5,6) free by blast+
  have fin: "oy_finishing ?s u = oy_finishing s u" for u by (rule oy_finishing_other [of s t OySwap]) (use pc in auto)
  have ins: "oy_in (oy_pc ?s u) = oy_in (oy_pc s u)" for u using pc by simp
  show ?thesis
  proof (rule oy_shapeI)
    fix u
    show "oy_taken (oy_next ?s) us (oy_pc ?s u)" using D(3) [of u] us by simp
    show "oy_comb (oy_pc ?s u) \<Longrightarrow> oy_comb (oy_pc ?s e) \<Longrightarrow> u = e" for e using nc by (auto split: if_splits)
    show "oy_pc ?s u = OyTail \<or> oy_pc ?s u = OyInsert \<Longrightarrow> oy_arg_ret ?s u = oy_arg ?s u \<and> \<not> oy_completed ?s u"
      using D(10) [of u] by (cases "u = t") auto
    show "oy_pc ?s u = OyRet \<or> oy_pc ?s u = OyRelease \<Longrightarrow> oy_completed ?s u"
      using D(11) [of u] by (cases "u = t") auto
  next
    show "oy_lock ?s = (\<exists>d. oy_comb (oy_pc ?s d))" by (auto intro: exI [of _ t])
  qed (use D(1,2,7,8,9) us in \<open>unfold fin ins, simp_all\<close>)
qed

lemma oy_others_no_comb:
  assumes sh: "oy_shape s ts us" and "oy_comb (oy_pc s t)" and "u \<noteq> t"
  shows "\<not> oy_comb (oy_pc s u)" and "oy_taken nx vs (oy_pc s u)"
proof -
  show c: "\<not> oy_comb (oy_pc s u)" using oy_shapeD(4) [OF sh assms(2)] assms(3) by blast
  show "oy_taken nx vs (oy_pc s u)" using c by (cases "oy_pc s u") auto
qed

lemma oy_take:
  assumes sh: "oy_shape s ts us" and pc: "oy_pc s t = OySwap" and tl: "oy_tail s = Some p"
  shows "oy_shape (oygo t (OyNext p) (s\<lparr>oy_tail := None\<rparr>)) [] ts \<and> us = []" (is "oy_shape ?s _ _ \<and> _")
proof -
  note D = oy_shapeD [OF sh]
  have us: "us = []" using D(3) [of t] pc by simp
  have comb: "oy_comb (oy_pc ?s u) = oy_comb (oy_pc s u)" "oy_in (oy_pc ?s u) = oy_in (oy_pc s u)" for u using pc by simp_all
  have fin: "oy_finishing ?s u = oy_finishing s u" for u by (rule oy_finishing_other [of s t "OyNext p"]) (use pc in auto)
  have lk: "oy_lock s" using D(5) pc by (metis oy_comb.simps(1))
  have "oy_shape ?s [] ts"
  proof (rule oy_shapeI)
    fix u
    show "oy_taken (oy_next ?s) ts (oy_pc ?s u)"
      using oy_others_no_comb [OF sh, of t u] pc D(1) tl by (cases "u = t") auto
    show "oy_pc ?s u = OyTail \<or> oy_pc ?s u = OyInsert \<Longrightarrow> oy_arg_ret ?s u = oy_arg ?s u \<and> \<not> oy_completed ?s u"
      using D(10) [of u] by (cases "u = t") auto
    show "oy_pc ?s u = OyRet \<or> oy_pc ?s u = OyRelease \<Longrightarrow> oy_completed ?s u"
      using D(11) [of u] by (cases "u = t") auto
  qed (use D(2,4,5,7,8,9) us lk in \<open>unfold comb fin, simp_all\<close>)
  then show ?thesis using us by simp
qed

lemma oy_release_ready:
  assumes sh: "oy_shape s ts us" and pc: "oy_pc s t = OySwap" and tl: "oy_tail s = None"
  shows "oy_completed s t" and "us = []" and "ts = []"
proof -
  note D = oy_shapeD [OF sh]
  show us: "us = []" using D(3) [of t] pc by simp
  show ts: "ts = []" using D(1) tl by (cases ts) auto
  have "\<not> oy_finishing s t"
  proof
    assume "oy_finishing s t"
    then obtain d q where d: "oy_pc s d = OyCompl t q" by (auto simp: oy_finishing_def)
    then have "d = t" using D(4) [of d t] pc by simp
    then show False using d pc by simp
  qed
  then show "oy_completed s t" using D(9) [of t] pc us ts by simp
qed

lemma oy_apply:
  assumes sh: "oy_shape s ts us" and pc: "oy_pc s t = OyFunc p q"
    and s': "oy_next s' = oy_next s" "oy_tail s' = oy_tail s" "oy_lock s' = oy_lock s" "oy_completed s' = oy_completed s"
      "oy_arg s' = oy_arg s" "oy_arg_ret s' = (oy_arg_ret s)(p := r)" "oy_pc s' = (oy_pc s)(t := OyCompl p q)"
  shows "\<exists>vs. us = p # vs \<and> oy_shape s' ts vs"
proof -
  note D = oy_shapeD [OF sh]
  obtain vs where vs: "us = p # vs" "oy_chain (oy_next s) q vs" using D(3) [of t] pc by auto
  have p: "oy_in (oy_pc s p)" "\<not> oy_completed s p" "p \<notin> set ts" "p \<notin> set vs" using D(2) D(7) [of p] vs by auto
  have comb: "oy_comb (oy_pc s' u) = oy_comb (oy_pc s u)" "oy_in (oy_pc s' u) = oy_in (oy_pc s u)" for u using pc by (simp_all add: s'(7))
  have nofin: "\<not> oy_finishing s u" for u
  proof
    assume "oy_finishing s u"
    then obtain d x where d: "oy_pc s d = OyCompl u x" by (auto simp: oy_finishing_def)
    then have "d = t" using D(4) [of d t] pc by simp
    then show False using d pc by simp
  qed
  have fin: "oy_finishing s' u \<longleftrightarrow> u = p" for u
  proof
    assume "oy_finishing s' u"
    then obtain d x where d: "oy_pc s' d = OyCompl u x" by (auto simp: oy_finishing_def)
    then show "u = p" using nofin [of u] by (auto simp: s'(7) oy_finishing_def split: if_splits)
  next
    assume "u = p"
    then show "oy_finishing s' u" unfolding oy_finishing_def s'(7) by (metis fun_upd_same)
  qed
  have lk: "oy_lock s" using D(5) pc by (metis oy_comb.simps(3))
  have "oy_shape s' ts vs"
  proof (rule oy_shapeI)
    fix u
    show "oy_taken (oy_next s') vs (oy_pc s' u)"
      using oy_others_no_comb [OF sh, of t u] pc vs(2) by (cases "u = t") (auto simp: s')
    show "u \<in> set (ts @ vs) \<Longrightarrow> oy_in (oy_pc s' u) \<and> \<not> oy_completed s' u \<and> oy_arg_ret s' u = oy_arg s' u"
      using D(7) [of u] p vs(1) unfolding comb by (cases "u = p") (auto simp: s')
    show "oy_finishing s' u \<Longrightarrow> oy_in (oy_pc s' u) \<and> u \<notin> set (ts @ vs) \<and> \<not> oy_completed s' u"
      unfolding fin comb using p by (simp add: s')
    show "oy_in (oy_pc s' u) \<Longrightarrow> u \<notin> set (ts @ vs) \<Longrightarrow> \<not> oy_finishing s' u \<Longrightarrow> oy_completed s' u"
      unfolding fin comb using D(9) [of u] nofin [of u] vs(1) by (simp add: s')
    show "oy_pc s' u = OyTail \<or> oy_pc s' u = OyInsert \<Longrightarrow> oy_arg_ret s' u = oy_arg s' u \<and> \<not> oy_completed s' u"
      using D(10) [of u] p by (cases "u = p"; cases "u = t") (auto simp: s')
    show "oy_pc s' u = OyRet \<or> oy_pc s' u = OyRelease \<Longrightarrow> oy_completed s' u"
      using D(11) [of u] by (cases "u = t") (auto simp: s')
  next
    show "distinct (ts @ vs)" using D(2) vs(1) by simp
    show "oy_chain (oy_next s') (oy_tail s') ts" using D(1) by (simp add: s')
    show "oy_lock s' \<or> vs = []" using lk by (simp add: s')
  qed (use D(4,5) in \<open>unfold comb s'(3), simp_all\<close>)
  then show ?thesis using vs(1) by blast
qed

lemma oy_complete:
  assumes sh: "oy_shape s ts us" and pc: "oy_pc s t = OyCompl p q"
  shows "oy_shape (oygo t (case q of None \<Rightarrow> OySwap | Some x \<Rightarrow> OyNext x) (s\<lparr>oy_completed := (oy_completed s)(p := True)\<rparr>)) ts us"
    (is "oy_shape ?s _ _")
proof -
  note D = oy_shapeD [OF sh]
  let ?p = "case q of None \<Rightarrow> OySwap | Some x \<Rightarrow> OyNext x"
  have k: "oy_comb ?p" "oy_in ?p" "?p \<noteq> OyCompl x y" "?p \<noteq> OyTail" "?p \<noteq> OyInsert" "?p \<noteq> OyRet" "?p \<noteq> OyRelease" for x y
    by (cases q; simp)+
  have tk: "oy_taken (oy_next s) us ?p" using D(3) [of t] pc by (cases q; cases us) auto
  have p: "oy_finishing s p" using pc by (auto simp: oy_finishing_def)
  have pin: "oy_in (oy_pc s p)" "p \<notin> set (ts @ us)" using D(8) [OF p] by simp_all
  have comb: "oy_comb (oy_pc ?s u) = oy_comb (oy_pc s u)" "oy_in (oy_pc ?s u) = oy_in (oy_pc s u)" for u using pc k by simp_all
  have only: "oy_finishing s u \<Longrightarrow> u = p" for u
    using D(4) [of _ t] pc by (auto simp: oy_finishing_def) (metis oy_comb.simps(4) oypc.inject(3))
  have nofin: "\<not> oy_finishing ?s u" for u
  proof
    assume "oy_finishing ?s u"
    then obtain d x where d: "oy_pc ?s d = OyCompl u x" by (auto simp: oy_finishing_def)
    then have "d \<noteq> t" "oy_pc s d = OyCompl u x" using k(3) by (auto split: if_splits)
    then show False using D(4) [of d t] pc by simp
  qed
  show ?thesis
  proof (rule oy_shapeI)
    fix u
    show "oy_taken (oy_next ?s) us (oy_pc ?s u)" using D(3) [of u] tk by simp
    show "u \<in> set (ts @ us) \<Longrightarrow> oy_in (oy_pc ?s u) \<and> \<not> oy_completed ?s u \<and> oy_arg_ret ?s u = oy_arg ?s u"
      unfolding comb using D(7) [of u] pin by auto
    show "oy_in (oy_pc ?s u) \<Longrightarrow> u \<notin> set (ts @ us) \<Longrightarrow> \<not> oy_finishing ?s u \<Longrightarrow> oy_completed ?s u"
      unfolding comb using D(9) [of u] only by auto
    show "oy_pc ?s u = OyTail \<or> oy_pc ?s u = OyInsert \<Longrightarrow> oy_arg_ret ?s u = oy_arg ?s u \<and> \<not> oy_completed ?s u"
      using D(10) [of u] k pin(1) by (cases "u = t"; cases "u = p") auto
    show "oy_pc ?s u = OyRet \<or> oy_pc ?s u = OyRelease \<Longrightarrow> oy_completed ?s u"
      using D(11) [of u] k by (cases "u = t") auto
    show "oy_finishing ?s u \<Longrightarrow> oy_in (oy_pc ?s u) \<and> u \<notin> set (ts @ us) \<and> \<not> oy_completed ?s u" using nofin by blast
  qed (use D(1,2,4,5,6) in \<open>unfold comb, simp_all\<close>)
qed

lemma oy_unlock:
  assumes sh: "oy_shape s ts us" and pc: "oy_pc s t = OyRelease"
  shows "oy_shape (oygo t OyRet (s\<lparr>oy_lock := False\<rparr>)) ts us" (is "oy_shape ?s _ _")
proof -
  note D = oy_shapeD [OF sh]
  have us: "us = []" using D(3) [of t] pc by simp
  have nc: "\<not> oy_comb (oy_pc ?s u)" for u using oy_others_no_comb(1) [OF sh, of t u] pc by (cases "u = t") auto
  have ins: "oy_in (oy_pc ?s u) = oy_in (oy_pc s u)" for u using pc by simp
  have fin: "oy_finishing ?s u = oy_finishing s u" for u by (rule oy_finishing_other [of s t OyRet]) (use pc in auto)
  show ?thesis
  proof (rule oy_shapeI)
    fix u
    show "oy_taken (oy_next ?s) us (oy_pc ?s u)" using D(3) [of u] by simp
    show "oy_pc ?s u = OyTail \<or> oy_pc ?s u = OyInsert \<Longrightarrow> oy_arg_ret ?s u = oy_arg ?s u \<and> \<not> oy_completed ?s u"
      using D(10) [of u] by (cases "u = t") auto
    show "oy_pc ?s u = OyRet \<or> oy_pc ?s u = OyRelease \<Longrightarrow> oy_completed ?s u"
      using D(11) [of u] D(11) [of t] pc by (cases "u = t") auto
  next
    show "oy_lock ?s \<longleftrightarrow> (\<exists>d. oy_comb (oy_pc ?s d))" using nc by auto
  qed (use D(1,2,7,8,9) us nc in \<open>unfold ins fin, simp_all\<close>)
qed

lemma oy_leave:
  assumes sh: "oy_shape s ts us" and pc: "oy_pc s t = OyRet"
  shows "oy_shape (oygo t (OyDone v) (s\<lparr>oy_hist := h\<rparr>)) ts us" and "t \<notin> set (ts @ us)"
proof -
  note D = oy_shapeD [OF sh]
  let ?s = "oygo t (OyDone v) (s\<lparr>oy_hist := h\<rparr>)"
  have c: "oy_completed s t" using D(11) [of t] pc by simp
  show nt: "t \<notin> set (ts @ us)" using D(7) [of t] c by blast
  have nf: "\<not> oy_finishing s t" using D(8) [of t] c by blast
  have comb: "oy_comb (oy_pc ?s u) = oy_comb (oy_pc s u)" for u using pc by simp
  have ins: "oy_in (oy_pc ?s u) \<longleftrightarrow> u \<noteq> t \<and> oy_in (oy_pc s u)" for u by simp
  have fin: "oy_finishing ?s u = oy_finishing s u" for u by (rule oy_finishing_other [of s t "OyDone v"]) (use pc in auto)
  show "oy_shape ?s ts us"
  proof (rule oy_shapeI)
    fix u
    show "oy_taken (oy_next ?s) us (oy_pc ?s u)" using D(3) [of u] by simp
    show "u \<in> set (ts @ us) \<Longrightarrow> oy_in (oy_pc ?s u) \<and> \<not> oy_completed ?s u \<and> oy_arg_ret ?s u = oy_arg ?s u"
      using D(7) [of u] nt unfolding ins by auto
    show "oy_finishing ?s u \<Longrightarrow> oy_in (oy_pc ?s u) \<and> u \<notin> set (ts @ us) \<and> \<not> oy_completed ?s u"
      using D(8) [of u] nf unfolding ins fin by auto
    show "oy_pc ?s u = OyTail \<or> oy_pc ?s u = OyInsert \<Longrightarrow> oy_arg_ret ?s u = oy_arg ?s u \<and> \<not> oy_completed ?s u"
      using D(10) [of u] by (cases "u = t") auto
    show "oy_pc ?s u = OyRet \<or> oy_pc ?s u = OyRelease \<Longrightarrow> oy_completed ?s u"
      using D(11) [of u] by (cases "u = t") auto
  qed (use D(1,2,4,5,6,9) in \<open>unfold ins comb fin, simp_all\<close>)
qed

lemma oy_invI:
  "oy_shape s ts us \<Longrightarrow> oy_account s (ts @ us) \<Longrightarrow> cc_legal f obj (oy_log s) (oy_object s) \<Longrightarrow> oy_inv f obj s"
  unfolding oy_inv_def by blast

text \<open>The accounts change when an operation joins the list, is applied, or returns.\<close>

lemma oy_account_same:
  assumes "oy_account s xs" and "oy_log s' = oy_log s" "oy_hist s' = oy_hist s"
    and "\<And>u. oy_in (oy_pc s' u) \<and> u \<notin> set ys \<longleftrightarrow> oy_in (oy_pc s u) \<and> u \<notin> set xs"
    and "\<And>u. oy_in (oy_pc s u) \<Longrightarrow> oy_arg s' u = oy_arg s u \<and> oy_arg_ret s' u = oy_arg_ret s u"
  shows "oy_account s' ys"
  using assms unfolding oy_account_def by (auto split: if_splits)

lemma oy_func_inv:
  assumes sh: "oy_shape s ts us" and ac: "oy_account s (ts @ us)" and le: "cc_legal f obj (oy_log s) (oy_object s)"
    and pc: "oy_pc s t = OyFunc p q" and run: "oyama_applyOp f (OyFunc p q) t s = Some s'"
  shows "oy_inv f obj s'"
proof -
  let ?r = "fst (f (oy_arg_ret s p) (oy_pid s p) (oy_object s))"
  have s': "s' = oygo t (OyCompl p q) (s\<lparr>oy_arg_ret := (oy_arg_ret s)(p := ?r),
      oy_object := snd (f (oy_arg_ret s p) (oy_pid s p) (oy_object s)), oy_log := oy_log s @ [(p, oy_arg_ret s p, oy_pid s p, ?r)]\<rparr>)"
    using run by (auto split: prod.splits)
  obtain vs where vs: "us = p # vs" "oy_shape s' ts vs" using oy_apply [OF sh pc, of s' ?r] by (auto simp: s')
  have p: "oy_in (oy_pc s p)" "oy_arg_ret s p = oy_arg s p" "p \<notin> set (ts @ vs)"
    using oy_shapeD(2) [OF sh] oy_shapeD(7) [OF sh, of p] vs(1) by auto
  have "oy_account s' (ts @ vs)"
    unfolding oy_account_def
  proof
    fix v
    have "cc_entries v (oy_log s) = oy_hist s v @ (if oy_in (oy_pc s v) \<and> v \<notin> set (ts @ us) then [(oy_arg s v, oy_arg_ret s v)] else [])"
      using ac unfolding oy_account_def by blast
    then show "cc_entries v (oy_log s') = oy_hist s' v @
        (if oy_in (oy_pc s' v) \<and> v \<notin> set (ts @ vs) then [(oy_arg s' v, oy_arg_ret s' v)] else [])"
      using p vs(1) pc by (cases "v = p"; cases "v = t") (auto simp: s' cc_entries_snoc)
  qed
  moreover have "cc_legal f obj (oy_log s') (oy_object s')" using cc_legal_snoc [OF le] by (simp add: s')
  ultimately show ?thesis using vs(2) by (intro oy_invI)
qed

lemma oyama_step_inv:
  assumes inv: "oy_inv f obj s" and run: "oyama_step f n e s = Some s'"
  shows "oy_inv f obj s'"
proof -
  obtain ts us where sh: "oy_shape s ts us" and ac: "oy_account s (ts @ us)" and le: "cc_legal f obj (oy_log s) (oy_object s)"
    using inv by (auto simp: oy_inv_def)
  note D = oy_shapeD [OF sh]
  have move: "oy_inv f obj (oygo t p s)" if "oy_shape (oygo t p s) ts us" "oy_in p = oy_in (oy_pc s t)" for t p
    using oy_invI [OF that(1) oy_account_go [OF ac that(2)]] le by simp
  show ?thesis
  proof (cases e)
    case (OyCall t arg)
    then have idle: "oy_idle (oy_pc s t)" and s': "s' = oygo t OyTail ((oy_prepare t arg s)\<lparr>oy_arg := (oy_arg s)(t := arg)\<rparr>)"
      using run by (auto split: if_splits)
    have "\<not> oy_in (oy_pc s t)" using idle by (cases "oy_pc s t") auto
    then have "oy_account s' (ts @ us)" by (intro oy_account_same [OF ac]) (auto simp: s' oy_prepare_def)
    then show ?thesis using oy_call [OF sh idle, of arg] le by (intro oy_invI) (auto simp: s' oy_prepare_def)
  next
    case (OyRun t)
    show ?thesis
    proof (cases "oy_pc s t")
      case OyTail
      then have s': "s' = oygo t OyInsert (s\<lparr>oy_next := (oy_next s)(t := oy_tail s)\<rparr>)" using run OyRun by simp
      have "oy_account s' (ts @ us)" by (rule oy_account_same [OF ac]) (use OyTail in \<open>auto simp: s'\<close>)
      then show ?thesis using oy_link [OF sh OyTail] le by (intro oy_invI) (auto simp: s')
    next
      case OyInsert
      show ?thesis
      proof (cases "oy_tail s = oy_next s t")
        case True
        then have s': "s' = oygo t OyTest (s\<lparr>oy_tail := Some t\<rparr>)" using run OyRun OyInsert by simp
        have "t \<notin> set (ts @ us)" using D(7) [of t] OyInsert by auto
        then have "oy_account s' ((t # ts) @ us)" by (intro oy_account_same [OF ac]) (use OyInsert in \<open>auto simp: s'\<close>)
        then show ?thesis using oy_insert [OF sh OyInsert True] le by (intro oy_invI) (auto simp: s')
      next
        case False
        then show ?thesis using run OyRun OyInsert by (auto intro!: move oy_go [OF sh])
      qed
    next
      case OyTest
      then show ?thesis using run OyRun by (cases "oy_lock s") (auto intro!: move oy_go [OF sh])
    next
      case OyCas
      show ?thesis
      proof (cases "oy_lock s")
        case True
        then show ?thesis using run OyRun OyCas by (auto intro!: move oy_go [OF sh])
      next
        case False
        then have s': "s' = oygo t OySwap (s\<lparr>oy_lock := True\<rparr>)" using run OyRun OyCas by simp
        have "oy_account s' (ts @ us)" by (rule oy_account_same [OF ac]) (use OyCas in \<open>auto simp: s'\<close>)
        then show ?thesis using oy_lock_step [OF sh OyCas False] le by (intro oy_invI) (auto simp: s')
      qed
    next
      case OySwap
      show ?thesis
      proof (cases "oy_tail s")
        case None
        note r = oy_release_ready [OF sh OySwap None]
        have s': "s' = oygo t OyRelease s" using run OyRun OySwap None by simp
        show ?thesis unfolding s' by (intro move oy_go [OF sh]) (use r OySwap in auto)
      next
        case (Some p)
        then have s': "s' = oygo t (OyNext p) (s\<lparr>oy_tail := None\<rparr>)" using run OyRun OySwap by simp
        have tk: "oy_shape s' [] ts" "us = []" using oy_take [OF sh OySwap Some] s' by auto
        have "oy_account s' ([] @ ts)" by (rule oy_account_same [OF ac]) (use OySwap tk(2) in \<open>auto simp: s'\<close>)
        then show ?thesis using tk(1) le by (intro oy_invI) (auto simp: s')
      qed
    next
      case (OyNext p)
      have s': "s' = oygo t (OyFunc p (oy_next s p)) s" using run OyRun OyNext by simp
      have "oy_taken (oy_next s) us (OyFunc p (oy_next s p))" using D(3) [of t] OyNext by (cases us) auto
      then show ?thesis using OyNext unfolding s' by (intro move oy_go [OF sh]) auto
    next
      case (OyFunc p q)
      then show ?thesis using oy_func_inv [OF sh ac le] run OyRun by simp
    next
      case (OyCompl p q)
      have s': "s' = oygo t (case q of None \<Rightarrow> OySwap | Some x \<Rightarrow> OyNext x) (s\<lparr>oy_completed := (oy_completed s)(p := True)\<rparr>)"
        using run OyRun OyCompl by simp
      have "oy_in (case q of None \<Rightarrow> OySwap | Some x \<Rightarrow> OyNext x)" by (cases q) simp_all
      then have "oy_account s' (ts @ us)" by (intro oy_account_same [OF ac]) (use OyCompl in \<open>auto simp: s'\<close>)
      then show ?thesis using oy_complete [OF sh OyCompl] le by (intro oy_invI) (auto simp: s')
    next
      case OyRelease
      then have s': "s' = oygo t OyRet (s\<lparr>oy_lock := False\<rparr>)" using run OyRun by simp
      have "oy_account s' (ts @ us)" by (rule oy_account_same [OF ac]) (use OyRelease in \<open>auto simp: s'\<close>)
      then show ?thesis using oy_unlock [OF sh OyRelease] le by (intro oy_invI) (auto simp: s')
    next
      case OySpin
      show ?thesis
      proof (cases "oy_completed s t")
        case True
        then show ?thesis using run OyRun OySpin by (auto intro!: move oy_go [OF sh])
      next
        case False
        then show ?thesis using run OyRun OySpin inv by simp
      qed
    next
      case OyRet
      have s': "s' = oygo t (OyDone (oy_arg_ret s t)) (s\<lparr>oy_hist := (oy_hist s)(t := oy_hist s t @ [(oy_arg s t, oy_arg_ret s t)])\<rparr>)"
        using run OyRun OyRet by simp
      note lv = oy_leave [OF sh OyRet]
      have "oy_account s' (ts @ us)" using ac lv(2) OyRet by (auto simp: oy_account_def s')
      then show ?thesis using lv(1) le by (intro oy_invI) (auto simp: s')
    qed (use run OyRun in auto)
  qed
qed

interpretation oym: machine "oyama_step f n" "oy_inv f obj" for f n obj
  by unfold_locales (rule oyama_step_inv)

lemma oyama_init_inv: "oy_inv f obj (oyamaLockInit obj)"
proof (rule oy_invI)
  show "oy_shape (oyamaLockInit obj) [] []" by (rule oy_shapeI) (auto simp: oyamaLockInit_def oy_finishing_def)
  show "oy_account (oyamaLockInit obj) ([] @ [])" by (simp add: oy_account_def oyamaLockInit_def cc_entries_def)
qed (simp add: oyamaLockInit_def)

section \<open>Properties\<close>

text \<open>Thread 1 announces its operation while thread 0 holds the lock, and thread 0 helps it.\<close>

definition demo_oy :: "oyev list" where
  "demo_oy = [OyCall 0 3] @ replicate 5 (OyRun 0) @ [OyCall 1 5] @ replicate 4 (OyRun 1) @ replicate 10 (OyRun 0) @ replicate 2 (OyRun 1)"

lemma demo_oy_run:
  "map_option (\<lambda>s. (oy_pc s 0, oy_pc s 1, oy_hist s 0, oy_hist s 1, oy_object s))
     (mrun (oyama_step (\<lambda>a i x. (x * a, x * a)) 2) demo_oy (oyamaLockInit (1 :: i32))) =
   Some (OyDone 3, OyDone 15, [(3, 3)], [(5, 15)], 15)"
  by code_simp

text \<open>
  (C27) Oyama's lock makes any sequential object linearizable: in every reachable state the applications of
  \<open>sfunc\<close> that were made form a sequential run from the initial to the current object; each thread's
  operations occur in it in the thread's own order with the results the thread got, one operation at
  most having been applied and not yet returned, none when the thread is outside \<open>applyOp\<close>; and one
  thread at most holds the lock.
\<close>

theorem oyama_linearizable:
  assumes "mrun (oyama_step f n) es (oyamaLockInit obj) = Some s"
  shows "cc_legal f obj (oy_log s) (oy_object s) \<and>
    (\<forall>t. \<exists>now. cc_entries t (oy_log s) = oy_hist s t @ now \<and> length now \<le> 1 \<and> (oy_idle (oy_pc s t) \<longrightarrow> now = [])) \<and>
    (\<forall>t u. oy_comb (oy_pc s t) \<and> oy_comb (oy_pc s u) \<longrightarrow> t = u)"
proof -
  obtain ts us where sh: "oy_shape s ts us" and ac: "oy_account s (ts @ us)" and le: "cc_legal f obj (oy_log s) (oy_object s)"
    using oym.good_run [OF oyama_init_inv assms] by (auto simp: oy_inv_def)
  have "\<exists>now. cc_entries t (oy_log s) = oy_hist s t @ now \<and> length now \<le> 1 \<and> (oy_idle (oy_pc s t) \<longrightarrow> now = [])" for t
    using ac by (cases "oy_pc s t") (auto simp: oy_account_def)
  then show ?thesis using le oy_shapeD(4) [OF sh] by blast
qed

theorem oyama_linearizable_witness:
  "\<exists>s. mrun (oyama_step (\<lambda>a i x. (x * a, x * a)) 2) demo_oy (oyamaLockInit (1 :: i32)) = Some s \<and>
    cc_entries 0 (oy_log s) = [(3, 3)] \<and> cc_entries 1 (oy_log s) = [(5, 15)] \<and> oy_object s = 15"
proof -
  obtain s where s: "mrun (oyama_step (\<lambda>a i x. (x * a, x * a)) 2) demo_oy (oyamaLockInit (1 :: i32)) = Some s"
    "oy_pc s 0 = OyDone 3" "oy_pc s 1 = OyDone 15" "oy_hist s 0 = [(3, 3)]" "oy_hist s 1 = [(5, 15)]" "oy_object s = 15"
    using demo_oy_run by auto
  have "\<forall>t. \<exists>now. cc_entries t (oy_log s) = oy_hist s t @ now \<and> length now \<le> 1 \<and> (oy_idle (oy_pc s t) \<longrightarrow> now = [])"
    using oyama_linearizable [OF s(1)] by blast
  from this [rule_format, of 0] this [rule_format, of 1] show ?thesis using s by auto
qed

text \<open>\<open>oyamauobject.c\<close> counts: the \<open>j\<close>-th operation applied returns \<open>j\<close>, modulo \<open>2 ^ 32\<close>.\<close>

lemma legal_count:
  "cc_legal ou_fetchAndMultiply cs l cs' \<Longrightarrow> cs \<noteq> [] \<Longrightarrow>
    cs' = map (\<lambda>c. c + of_nat (length l)) cs \<and> (\<forall>j < length l. log_ret (l ! j) = cs ! 0 + of_nat (Suc j))"
proof (induction l arbitrary: cs)
  case (Cons e l)
  obtain t a i r where e: "e = (t, a, i, r)" by (cases e)
  have "ou_fetchAndMultiply a i cs = (cs ! 0 + 1, map (\<lambda>c. c + 1) cs)"
    using Cons.prems(2) by (simp add: ou_fetchAndMultiply_def Let_def)
  then have l: "cc_legal ou_fetchAndMultiply (map (\<lambda>c. c + 1) cs) l cs'" and r: "r = cs ! 0 + 1"
    using Cons.prems e by auto
  have ih: "cs' = map (\<lambda>c. c + of_nat (length l)) (map (\<lambda>c. c + 1) cs)"
    "\<forall>j < length l. log_ret (l ! j) = map (\<lambda>c. c + 1) cs ! 0 + of_nat (Suc j)"
    using Cons.IH [OF l] Cons.prems(2) by simp_all
  have "log_ret ((e # l) ! j) = cs ! 0 + of_nat (Suc j)" if "j < length (e # l)" for j
    using that ih(2) Cons.prems(2) e r by (cases j) (simp_all add: algebra_simps)
  moreover have "cs' = map (\<lambda>c. c + of_nat (length (e # l))) cs" using ih(1) by (simp add: algebra_simps)
  ultimately show ?case by blast
qed simp

text \<open>
  Every operation of \<open>oyamauobject.c\<close> returns how many operations were applied up to and including it, and
  all words of the array hold the number of operations applied.
\<close>

lemma oyamauobject_counts:
  assumes "mrun (oyama_step ou_fetchAndMultiply n) es (oyamaLockInit (ou_init (Suc k))) = Some s"
  shows "oy_object s = replicate (Suc k) (of_nat (length (oy_log s))) \<and>
    (\<forall>j < length (oy_log s). log_ret (oy_log s ! j) = of_nat (Suc j))"
proof -
  have "cc_legal ou_fetchAndMultiply (ou_init (Suc k)) (oy_log s) (oy_object s)"
    using oym.good_run [OF oyama_init_inv assms] by (simp add: oy_inv_def)
  from legal_count [OF this] show ?thesis by (simp add: ou_init_def)
qed

section \<open>A thread that waits for ever\<close>

fun oy_runs :: "oyev \<Rightarrow> bool" where
  "oy_runs (OyRun t) = True"
| "oy_runs (OyCall t a) = False"

definition oy_stuck :: "tid \<Rightarrow> 'o oyama \<Rightarrow> bool" where
  "oy_stuck u s \<longleftrightarrow> oy_pc s u = OySpin \<and> \<not> oy_completed s u \<and> (\<forall>v. v \<noteq> u \<longrightarrow> oy_idle (oy_pc s v))"

lemma oy_stuck_step:
  assumes "oy_stuck u s" and "oyama_step f n (OyRun v) s = Some s'"
  shows "s' = s"
proof (cases "v = u")
  case True
  then show ?thesis using assms by (simp add: oy_stuck_def)
next
  case False
  then have "oy_idle (oy_pc s v)" using assms(1) by (simp add: oy_stuck_def)
  then show ?thesis using assms(2) by (cases "oy_pc s v") auto
qed

lemma oy_stuck_run: "oy_stuck u s \<Longrightarrow> list_all oy_runs es \<Longrightarrow> mrun (oyama_step f n) es s = Some s' \<Longrightarrow> s' = s"
proof (induction es)
  case (Cons e es)
  obtain v where "e = OyRun v" using Cons.prems(2) by (cases e) auto
  then show ?case using Cons oy_stuck_step [of u s f n v] by (auto split: option.splits)
qed simp

text \<open>
  (C28) A thread can wait for ever in Oyama's lock, for any function and any two threads: thread \<open>t\<close> finds the list empty and is about to release the
  lock when \<open>u\<close> announces its operation and sees the lock taken. From then on nobody looks at the list:
  \<open>t\<close> returns, no thread holds the lock, and \<open>u\<close> spins for as long as no thread makes a new call.
  And whenever a thread spins that has not been served while all others are outside \<open>applyOp\<close>, however
  that came about, no run without a new call changes anything.
\<close>

theorem oyama_stranded:
  assumes "t \<noteq> u" and "t < n" and "u < n"
  shows "(\<exists>es s. mrun (oyama_step f n) es (oyamaLockInit obj) = Some s \<and> oy_tail s = Some u \<and> \<not> oy_lock s \<and>
    oy_hist s t = [(a, fst (f a (of_nat t) obj))] \<and>
    (\<forall>fs s'. list_all oy_runs fs \<and> mrun (oyama_step f n) fs s = Some s' \<longrightarrow> oy_pc s' u = OySpin \<and> oy_hist s' u = [])) \<and>
   (\<forall>es s. mrun (oyama_step f n) es (oyamaLockInit obj) = Some s \<and> oy_pc s u = OySpin \<and> \<not> oy_completed s u \<and>
      (\<forall>v. v \<noteq> u \<longrightarrow> oy_idle (oy_pc s v)) \<longrightarrow>
    (\<forall>fs s'. list_all oy_runs fs \<and> mrun (oyama_step f n) fs s = Some s' \<longrightarrow> s' = s))"
proof -
  obtain r obj' where f: "f a (of_nat t) obj = (r, obj')" by (cases "f a (of_nat t) obj")
  let ?es = "[OyCall t a, OyRun t, OyRun t, OyRun t, OyRun t, OyRun t, OyRun t, OyRun t, OyRun t, OyRun t]"
  obtain s1 where s1: "mrun (oyama_step f n) ?es (oyamaLockInit obj) = Some s1" "oy_pc s1 = (\<lambda>v. OyIdle)(t := OyRelease)"
    "oy_tail s1 = None" "oy_lock s1" "oy_arg s1 t = a" "oy_arg_ret s1 t = r" "oy_hist s1 = (\<lambda>v. [])"
    using assms(2) f by (simp add: oyamaLockInit_def oy_prepare_def)
  let ?fs = "[OyCall u b, OyRun u, OyRun u, OyRun u, OyRun t, OyRun t]"
  obtain s2 where s2: "mrun (oyama_step f n) ?fs s1 = Some s2" "oy_stuck u s2" "oy_tail s2 = Some u" "\<not> oy_lock s2"
    "oy_hist s2 t = [(a, r)]" "oy_hist s2 u = []"
    using assms s1(2-) by (simp add: oy_prepare_def oy_stuck_def)
  have "mrun (oyama_step f n) (?es @ ?fs) (oyamaLockInit obj) = Some s2" using s1(1) s2(1) by (simp only: mrun_append option.case)
  moreover have "oy_pc s' u = OySpin \<and> oy_hist s' u = []" if "list_all oy_runs fs \<and> mrun (oyama_step f n) fs s2 = Some s'" for fs s'
    using oy_stuck_run [OF s2(2), of fs f n s'] that s2(2,6) by (simp add: oy_stuck_def)
  ultimately have "\<exists>es s. mrun (oyama_step f n) es (oyamaLockInit obj) = Some s \<and> oy_tail s = Some u \<and> \<not> oy_lock s \<and>
    oy_hist s t = [(a, fst (f a (of_nat t) obj))] \<and>
    (\<forall>fs s'. list_all oy_runs fs \<and> mrun (oyama_step f n) fs s = Some s' \<longrightarrow> oy_pc s' u = OySpin \<and> oy_hist s' u = [])"
    using s2 f by (intro exI [of _ "?es @ ?fs"] exI [of _ s2]) simp
  moreover have "s' = s" if "oy_pc s u = OySpin \<and> \<not> oy_completed s u \<and> (\<forall>v. v \<noteq> u \<longrightarrow> oy_idle (oy_pc s v))"
      "list_all oy_runs fs \<and> mrun (oyama_step f n) fs s = Some s'" for s fs s'
    using oy_stuck_run [of u s fs f n s'] that by (simp add: oy_stuck_def)
  ultimately show ?thesis by blast
qed

theorem oyama_stranded_witness:
  "\<exists>es s. mrun (oyama_step ou_fetchAndMultiply 2) es (oyamaLockInit (ou_init 1)) = Some s \<and> oy_tail s = Some 1 \<and> \<not> oy_lock s"
proof -
  have "(0 :: tid) \<noteq> 1" "(0 :: nat) < 2" "(1 :: nat) < 2" by simp_all
  from oyama_stranded [OF this, of ou_fetchAndMultiply "ou_init 1" 0] show ?thesis by blast
qed

end
