(* ===== verification/QueueServers.thy ===== *)
theory QueueServers
  imports LCRQServer MSServer ServerMain
begin

text \<open>
  The whole programs \<open>lcrq-server/lcrq-server.c\<close> (linked with \<open>lcrq.c\<close>) and
  \<open>lcrq-server/ms-queue-http-server.c\<close>: start-up, the accepting main thread, the blocking queue with
  every access to shared memory a step, and the workers that handle connections. Their \<open>handleConnection\<close>
  is the text of \<open>http-server.c\<close>, and so is \<open>createServerSocket\<close>; \<open>queue_init\<close> cannot fail, and after
  \<open>mainLoop\<close> the process ends by \<open>exit(1)\<close>, before the code that would poison and join the workers.
\<close>

section \<open>The programs\<close>

text \<open>
  The start-up of the two programs: the listening socket, the web root and the number of threads, or the
  exit code; and what it did.
\<close>

definition lcrq_start_up :: "srv_env \<Rightarrow> string list \<Rightarrow> act list \<times> (int + int \<times> string \<times> int)" where
  "lcrq_start_up env argv =
     (if \<not> se_sigpipe env then ([APerror ''signal() failed''], Inl 1)
      else if se_sigaction env < 0 then ([APerror ''sigaction() failed''], Inl 1)
      else if length argv \<noteq> 3 then ([AUsage], Inl 1)
      else
        let servPort = word_of_int (atoi (se_atoi env) (argv ! 1)) :: u16; webRoot = argv ! 2 in
        (case createServerSocket env servPort of
           Inl m \<Rightarrow> ([APerror m], Inl 1)
         | Inr servSock \<Rightarrow>
             let (log, nthreads) =
               (case se_nthreads env of
                  Some str \<Rightarrow> (AThreads ''-- Starting server with'' (atoi (se_atoi env) str), atoi (se_atoi env) str)
                | None \<Rightarrow> (AThreads ''-- Defaulting to 1 worker thread'' DEFAULT_THREADS, DEFAULT_THREADS)) in
             ([AListen servSock servPort, log] @ map ASpawn [0..<nat nthreads], Inr (servSock, webRoot, nthreads))))"

definition ms_start_up :: "srv_env \<Rightarrow> string list \<Rightarrow> act list \<times> (int + int \<times> string \<times> int)" where
  "ms_start_up env argv =
     (if \<not> se_sigpipe env then ([APerror ''signal() failed''], Inl 1)
      else if se_sigaction env < 0 then ([APerror ''sigaction() failed''], Inl 1)
      else if length argv \<noteq> 3 then ([AUsage], Inl 1)
      else
        let servPort = word_of_int (atoi (se_atoi env) (argv ! 1)) :: u16; webRoot = argv ! 2 in
        (case createServerSocket env servPort of
           Inl m \<Rightarrow> ([APerror m], Inl 1)
         | Inr servSock \<Rightarrow>
             let (log, nthreads) =
               (case se_nthreads env of
                  Some str \<Rightarrow> (AThreads ''-- Starting server with'' (atoi (se_atoi env) str), atoi (se_atoi env) str)
                | None \<Rightarrow> (AThreads ''-- Defaulting to 1 worker thread'' DEFAULT_THREADS, DEFAULT_THREADS)) in
             ([AListen servSock servPort, log] @ map ASpawn [0..<nat nthreads], Inr (servSock, webRoot, nthreads))))"

text \<open>
  Thread 0 is the main thread, the others are the workers. \<open>qs_accepts\<close> are the results of the calls of
  \<open>accept\<close> still to come. No step reads the three lists: the sockets put on the queue, those whose
  connection was handled to its end, and those that ended their worker.
\<close>

record 'q qserver =
  qs_wait :: "'q wserver"
  qs_accepts :: "accepted list"
  qs_gone :: "tid \<Rightarrow> bool"
  qs_log :: "ev list"
  qs_exit :: "int option"
  qs_put :: "int list"
  qs_served :: "int list"
  qs_failed :: "int list"

text \<open>One round of \<open>mainLoop\<close>, as far as the call of \<open>queue_put\<close>; its return is followed by \<open>exit(1)\<close>.\<close>

definition qs_mainLoop ::
  "(qev \<Rightarrow> 'q \<Rightarrow> 'q option) \<Rightarrow> (tid \<Rightarrow> 'q \<Rightarrow> int option) \<Rightarrow> 'q qserver \<Rightarrow> 'q qserver option" where
  "qs_mainLoop qstep qres s =
     (if w_pc (qs_wait s) 0 \<noteq> WIdle then None
      else case qs_accepts s of
        [] \<Rightarrow> None
      | a # as \<Rightarrow>
          if ac_eintr a \<and> ac_flag a then Some (s\<lparr>qs_exit := Some 1\<rparr>)
          else if ac_sock a < 0 then Some (s\<lparr>qs_exit := Some 1\<rparr>)
          else case wstep qstep qres (WPut 0 (ac_sock a)) (qs_wait s) of
            None \<Rightarrow> None
          | Some w \<Rightarrow> Some (s\<lparr>qs_wait := w, qs_accepts := as, qs_put := qs_put s @ [ac_sock a]\<rparr>))"

text \<open>\<open>threadMain\<close>: the call of \<open>queue_get\<close>, and the connection it returned.\<close>

definition qs_threadMain ::
  "(qev \<Rightarrow> 'q \<Rightarrow> 'q option) \<Rightarrow> (tid \<Rightarrow> 'q \<Rightarrow> int option) \<Rightarrow> http_env \<Rightarrow> string \<Rightarrow> tid \<Rightarrow> 'q qserver \<Rightarrow> 'q qserver option" where
  "qs_threadMain qstep qres env root t s =
     (if t \<notin> set (w_workers (qs_wait s)) \<or> qs_gone s t then None
      else case w_pc (qs_wait s) t of
        WIdle \<Rightarrow>
          (case wstep qstep qres (WGet t) (qs_wait s) of None \<Rightarrow> None | Some w \<Rightarrow> Some (s\<lparr>qs_wait := w\<rparr>))
      | WReturn sock \<Rightarrow>
          (let (log, r) = handleConnection env root sock (qs_log s); w = w_go t WIdle (qs_wait s) in
           Some (case r of
             Ok _ \<Rightarrow> s\<lparr>qs_log := log, qs_wait := w, qs_served := qs_served s @ [sock]\<rparr>
           | PthreadExit \<Rightarrow> s\<lparr>qs_log := log, qs_wait := w, qs_gone := (qs_gone s)(t := True), qs_failed := qs_failed s @ [sock]\<rparr>
           | Exit c \<Rightarrow> s\<lparr>qs_log := log, qs_exit := Some c\<rparr>))
      | _ \<Rightarrow> None)"

datatype qsev = QsMain | QsWorker tid | QsQueue wev

fun qs_inner :: "wev \<Rightarrow> bool" where
  "qs_inner (WRun t) = True"
| "qs_inner (WWake t ws) = True"
| "qs_inner (WSpurious t) = True"
| "qs_inner _ = False"

definition qs_step ::
  "(qev \<Rightarrow> 'q \<Rightarrow> 'q option) \<Rightarrow> (tid \<Rightarrow> 'q \<Rightarrow> int option) \<Rightarrow> http_env \<Rightarrow> string \<Rightarrow> qsev \<Rightarrow> 'q qserver \<Rightarrow> 'q qserver option" where
  "qs_step qstep qres env root e s =
     (if qs_exit s \<noteq> None then None
      else case e of
        QsMain \<Rightarrow> qs_mainLoop qstep qres s
      | QsWorker t \<Rightarrow> qs_threadMain qstep qres env root t s
      | QsQueue we \<Rightarrow>
          if qs_inner we then (case wstep qstep qres we (qs_wait s) of None \<Rightarrow> None | Some w \<Rightarrow> Some (s\<lparr>qs_wait := w\<rparr>))
          else None)"

definition qs_init :: "'q \<Rightarrow> nat \<Rightarrow> accepted list \<Rightarrow> 'q qserver" where
  "qs_init q nthreads as =
     \<lparr>qs_wait = w_init q [0] [1..<Suc nthreads], qs_accepts = as, qs_gone = (\<lambda>t. False), qs_log = [], qs_exit = None,
      qs_put = [], qs_served = [], qs_failed = []\<rparr>"

definition lcrq_program_step :: "http_env \<Rightarrow> string \<Rightarrow> qsev \<Rightarrow> lcrq qserver \<Rightarrow> lcrq qserver option" where
  "lcrq_program_step = qs_step lstep l_res"

definition ms_program_step :: "http_env \<Rightarrow> string \<Rightarrow> qsev \<Rightarrow> msq qserver \<Rightarrow> msq qserver option" where
  "ms_program_step = qs_step msstep ms_res"

text \<open>The start-ups are that of \<open>http-server.c\<close> with a \<open>queue_init\<close> that succeeds.\<close>

lemma start_ups_same:
  "lcrq_start_up env argv = start_up (env\<lparr>se_cond_init := 0, se_mutex_init := 0\<rparr>) argv" "ms_start_up = lcrq_start_up"
  by (auto simp: lcrq_start_up_def ms_start_up_def start_up_def queue_init_sys_def createServerSocket_def Let_def fun_eq_iff
      split: sum.splits option.splits)

section \<open>No socket is lost inside the queue\<close>

text \<open>The value a thread carries: put but not yet effective, or taken and not yet handled.\<close>

fun carry_at :: "qobs \<Rightarrow> wpc \<Rightarrow> int multiset" where
  "carry_at (Enqing v) WEnq = {#v#}"
| "carry_at (Deqed v) WDeq = (if v = -1 then {#} else {#v#})"
| "carry_at b (WSub v) = {#v#}"
| "carry_at b (WReturn v) = {#v#}"
| "carry_at b _ = {#}"

definition carry :: "(tid \<Rightarrow> 'q \<Rightarrow> qobs) \<Rightarrow> 'q wserver \<Rightarrow> tid \<Rightarrow> int multiset" where
  "carry qobs s t = carry_at (qobs t (w_queue s)) (w_pc s t)"

definition w_load :: "(tid \<Rightarrow> 'q \<Rightarrow> qobs) \<Rightarrow> ('q \<Rightarrow> int multiset) \<Rightarrow> 'q wserver \<Rightarrow> int multiset" where
  "w_load qobs qbag s = qbag (w_queue s) + (\<Sum>t\<leftarrow>w_threads s. carry qobs s t)"

lemma carry_other [simp]:
  "carry_at b WIdle = {#}" "carry_at b WAdd = {#}" "carry_at b WSignal = {#}" "carry_at b WWait = {#}"
  "carry_at b WSleep = {#}" "carry_at b WTest = {#}" "carry_at Enqed WEnq = {#}" "carry_at Deqing WDeq = {#}"
  "carry_at b (WSub v) = {#v#}" "carry_at b (WReturn v) = {#v#}"
  by (cases b; simp)+

lemma carry_sum:
  assumes "distinct xs" "t \<in> set xs" "\<And>u. u \<noteq> t \<Longrightarrow> f' u = f u"
  shows "(\<Sum>u\<leftarrow>xs. f' u) + f t = (\<Sum>u\<leftarrow>xs. f u) + (f' t :: int multiset)"
proof -
  obtain ys zs where xs: "xs = ys @ t # zs" using split_list [OF assms(2)] by blast
  then have "t \<notin> set ys" "t \<notin> set zs" using assms(1) by auto
  then have "map f' ys = map f ys" "map f' zs = map f zs" using assms(3) by (metis (no_types, lifting) map_cong)+
  then have "(\<Sum>u\<leftarrow>ys. f' u) = (\<Sum>u\<leftarrow>ys. f u)" "(\<Sum>u\<leftarrow>zs. f' u) = (\<Sum>u\<leftarrow>zs. f u)" by (simp_all only:)
  then show ?thesis unfolding xs map_append list.map sum_list_append sum_list.Cons by (simp add: ac_simps)
qed

lemma balance:
  fixes a :: "'v multiset"
  assumes "a' + c = a + c'" and "q' + c' + B = q + c + A"
  shows "q' + a' + B = q + a + A"
proof -
  have "(q' + a' + B) + (c + c') = (q' + c' + B) + (a' + c)" by (simp add: ac_simps)
  also have "\<dots> = (q + a + A) + (c + c')" unfolding assms by (simp add: ac_simps)
  finally show ?thesis by simp
qed

lemma load_move:
  assumes inv: "w_inv qgood qobs qbag s" and t: "t \<in> set (w_threads s)" and thr: "w_threads s' = w_threads s"
    and other: "\<And>u. u \<noteq> t \<Longrightarrow> w_pc s' u = w_pc s u \<and> qobs u (w_queue s') = qobs u (w_queue s)"
    and here: "qbag (w_queue s') + carry qobs s' t + B = qbag (w_queue s) + carry qobs s t + A"
  shows "w_load qobs qbag s' + B = w_load qobs qbag s + A"
proof -
  have "(\<Sum>u\<leftarrow>w_threads s. carry qobs s' u) + carry qobs s t = (\<Sum>u\<leftarrow>w_threads s. carry qobs s u) + carry qobs s' t"
    by (rule carry_sum) (use inv t other in \<open>auto simp: w_inv_def carry_def\<close>)
  from balance [OF this here] show ?thesis by (simp add: w_load_def thr)
qed

context inner_queue
begin

lemma load_inner:
  assumes inv: "w_inv qgood qobs qbag s" and pc: "w_pc s t = WEnq \<or> w_pc s t = WDeq"
    and run: "w_inner qstep (QRun t) t (w_pc s t) s = Some s'"
  shows "w_load qobs qbag s' = w_load qobs qbag s"
proof -
  obtain q where q: "qstep (QRun t) (w_queue s) = Some q" and s': "s' = w_go t (w_pc s t) (s\<lparr>w_queue := q\<rparr>)"
    using run by (auto simp: w_inner_def split: option.splits)
  have g: "qgood (w_queue s)" "-1 \<notin># qbag (w_queue s)" and ok: "w_pcs_ok qobs s" using inv by (simp_all add: w_inv_def)
  have t: "t \<in> set (w_threads s)" by (rule w_thread [OF inv]) (use pc in auto)
  have other: "qobs u q = qobs u (w_queue s)" if "u \<noteq> t" for u using q_other [OF q _ that] by blast
  have E: "w_pc s t = WEnq \<Longrightarrow> qobs t (w_queue s) = Enqed \<or> (\<exists>v. v \<noteq> -1 \<and> qobs t (w_queue s) = Enqing v)"
    and D: "w_pc s t = WDeq \<Longrightarrow> qobs t (w_queue s) = Deqing \<or> (\<exists>v. qobs t (w_queue s) = Deqed v)"
    using ok by (simp_all add: w_pcs_ok_def)
  have "qbag q + carry_at (qobs t q) (w_pc s t) = qbag (w_queue s) + carry_at (qobs t (w_queue s)) (w_pc s t)"
  proof (cases "qlin (QRun t) (w_queue s)")
    case None
    then show ?thesis using q_quiet [OF g(1) q None] pc E by auto
  next
    case (Some a)
    show ?thesis
    proof (cases a)
      case (Put v)
      then show ?thesis using q_put [OF g(1) q Some [unfolded Put]] pc D by auto
    next
      case (Got v)
      then show ?thesis using q_got [OF g(1) q Some [unfolded Got]] pc E g(2) by auto
    next
      case Empty
      then show ?thesis using q_empty [OF g(1) q] Some by simp
    qed
  qed
  then have "w_load qobs qbag s' + {#} = w_load qobs qbag s + {#}"
    by (intro load_move [OF inv t]) (use s' other in \<open>auto simp: carry_def w_threads_def\<close>)
  then show ?thesis by simp
qed

text \<open>Inside the queue nothing is lost or made up; a put brings its socket.\<close>

lemma load_run:
  assumes inv: "w_inv qgood qobs qbag s" and run: "wstep qstep qres (WRun t) s = Some s'"
  shows "w_load qobs qbag s' = w_load qobs qbag s"
proof -
  have g: "qgood (w_queue s)" and ok: "w_pcs_ok qobs s" using inv by (simp_all add: w_inv_def)
  note res = q_res [OF g(1), of t]
  have E: "w_pc s t = WEnq \<Longrightarrow> qobs t (w_queue s) = Enqed \<or> (\<exists>v. v \<noteq> -1 \<and> qobs t (w_queue s) = Enqing v)"
    and D: "w_pc s t = WDeq \<Longrightarrow> qobs t (w_queue s) = Deqing \<or> (\<exists>v. qobs t (w_queue s) = Deqed v)"
    using ok by (simp_all add: w_pcs_ok_def)
  have thr: "w_pc s t \<noteq> WIdle \<Longrightarrow> t \<in> set (w_threads s)" by (rule w_thread [OF inv])
  have still: "w_load qobs qbag s' = w_load qobs qbag s"
    if "w_pc s t \<noteq> WIdle" "w_queue s' = w_queue s" "w_pc s' = (w_pc s)(t := p)" "w_threads s' = w_threads s"
      "carry_at (qobs t (w_queue s)) p = carry_at (qobs t (w_queue s)) (w_pc s t)" for p
  proof -
    have "w_load qobs qbag s' + {#} = w_load qobs qbag s + {#}"
      by (rule load_move [OF inv thr [OF that(1)] that(4)]) (use that in \<open>auto simp: carry_def\<close>)
    then show ?thesis by simp
  qed
  show ?thesis
  proof (cases "w_pc s t")
    case WEnq
    show ?thesis
    proof (cases "qres t (w_queue s)")
      case None
      then show ?thesis using load_inner [OF inv, of t s'] run WEnq by (auto split: option.splits)
    next
      case (Some v)
      have "qobs t (w_queue s) = Enqed" using res [OF Some] E [OF WEnq] by auto
      then show ?thesis by (intro still [of WAdd]) (use Some run WEnq in \<open>auto simp: w_threads_def\<close>)
    qed
  next
    case WAdd
    then show ?thesis
      by (intro still [of "if w_count s = 0 then WSignal else WIdle"]) (use run WAdd in \<open>auto simp: w_threads_def\<close>)
  next
    case WWait
    then show ?thesis
      by (intro still [of "if w_count s = 0 then WSleep else WTest"]) (use run WWait in \<open>auto simp: w_threads_def kernel_sleeps_zero\<close>)
  next
    case WTest
    show ?thesis
    proof (cases "w_count s = 0")
      case True
      then show ?thesis by (intro still [of WWait]) (use run WTest in \<open>auto simp: w_threads_def\<close>)
    next
      case False
      then obtain q where q: "qstep (DeqBegin t) (w_queue s) = Some q" and s': "s' = w_go t WDeq (s\<lparr>w_queue := q\<rparr>)"
        using run WTest by (auto simp: w_inner_def split: option.splits)
      have other: "qobs u q = qobs u (w_queue s)" if "u \<noteq> t" for u using q_other [OF q _ that] by blast
      have "w_load qobs qbag s' + {#} = w_load qobs qbag s + {#}"
        by (intro load_move [OF inv thr]) (use s' other WTest q_deq [OF g(1) q] in \<open>auto simp: carry_def w_threads_def\<close>)
      then show ?thesis by simp
    qed
  next
    case WDeq
    show ?thesis
    proof (cases "qres t (w_queue s)")
      case None
      then show ?thesis using load_inner [OF inv, of t s'] run WDeq by (auto split: option.splits)
    next
      case (Some v)
      have "qobs t (w_queue s) = Deqed v" using res [OF Some] D [OF WDeq] by auto
      then show ?thesis
        by (intro still [of "if v = -1 then WWait else WSub v"]) (use Some run WDeq in \<open>auto simp: w_threads_def\<close>)
    qed
  next
    case (WSub v)
    then show ?thesis by (intro still [of "WReturn v"]) (use run WSub in \<open>auto simp: w_threads_def\<close>)
  qed (use run in simp_all)
qed

lemma load_wake:
  assumes inv: "w_inv qgood qobs qbag s" and run: "wstep qstep qres (WWake t ws) s = Some s'"
  shows "w_load qobs qbag s' = w_load qobs qbag s"
proof -
  have pc: "w_pc s t = WSignal" and s': "s' = w_go t WIdle (w_wake ws s)" using run by (auto split: if_splits)
  have "carry qobs s' u = carry qobs s u" for u using pc by (auto simp: carry_def s' w_wake_def)
  then show ?thesis by (simp add: w_load_def s' w_wake_def w_threads_def)
qed

lemma load_step:
  assumes inv: "w_inv qgood qobs qbag s" and e: "qs_inner e" and run: "wstep qstep qres e s = Some s'"
  shows "w_load qobs qbag s' = w_load qobs qbag s"
proof (cases e)
  case (WSpurious t)
  then have pc: "w_pc s t = WSleep" and s': "s' = w_go t WTest s" using run by (auto split: if_splits)
  have "w_load qobs qbag s' + {#} = w_load qobs qbag s + {#}"
    by (intro load_move [OF inv w_thread [OF inv, of t]]) (use pc s' in \<open>auto simp: carry_def w_threads_def\<close>)
  then show ?thesis by simp
qed (use e run load_run [OF inv] load_wake [OF inv] in simp_all)

lemma load_put:
  assumes inv: "w_inv qgood qobs qbag s" and idle: "w_pc s t = WIdle" and run: "wstep qstep qres (WPut t v) s = Some s'"
  shows "w_load qobs qbag s' = add_mset v (w_load qobs qbag s)"
proof -
  obtain q where q: "qstep (EnqBegin t v) (w_queue s) = Some q" and s': "s' = w_go t WEnq (s\<lparr>w_queue := q\<rparr>)"
    and t: "t \<in> set (w_main s)" using run by (auto simp: w_inner_def split: if_splits option.splits)
  have g: "qgood (w_queue s)" using inv by (simp add: w_inv_def)
  have other: "qobs u q = qobs u (w_queue s)" if "u \<noteq> t" for u using q_other [OF q _ that] by blast
  have "w_load qobs qbag s' + {#} = w_load qobs qbag s + {#v#}"
    by (intro load_move [OF inv]) (use s' t idle other q_enq [OF g q] in \<open>auto simp: carry_def w_threads_def\<close>)
  then show ?thesis by simp
qed

lemma load_get:
  assumes inv: "w_inv qgood qobs qbag s" and idle: "w_pc s t = WIdle" and run: "wstep qstep qres (WGet t) s = Some s'"
  shows "w_load qobs qbag s' = w_load qobs qbag s"
proof -
  have t: "t \<in> set (w_workers s)" and s': "s' = w_go t WWait s" using run by (auto split: if_splits)
  have "w_load qobs qbag s' + {#} = w_load qobs qbag s + {#}"
    by (intro load_move [OF inv]) (use s' t idle in \<open>auto simp: carry_def w_threads_def\<close>)
  then show ?thesis by simp
qed

text \<open>A worker takes the socket \<open>queue_get\<close> returned.\<close>

lemma load_hand:
  assumes inv: "w_inv qgood qobs qbag s" and pc: "w_pc s t = WReturn v"
  shows "w_load qobs qbag s = add_mset v (w_load qobs qbag (w_go t WIdle s))" and "w_inv qgood qobs qbag (w_go t WIdle s)"
proof -
  have t: "t \<in> set (w_threads s)" "t \<in> set (w_workers s)" using w_thread [OF inv, of t] w_worker [OF inv, of t] pc by auto
  have "w_load qobs qbag (w_go t WIdle s) + {#v#} = w_load qobs qbag s + {#}"
    by (rule load_move [OF inv t(1)]) (use pc in \<open>auto simp: carry_def\<close>)
  then show "w_load qobs qbag s = add_mset v (w_load qobs qbag (w_go t WIdle s))" by simp
  show "w_inv qgood qobs qbag (w_go t WIdle s)"
    by (rule w_inv_move [OF inv, of _ t WIdle]) (use inv t pc in \<open>auto simp: adding_def subbing_def w_inv_def\<close>)
qed

end

section \<open>The programs conserve the connections\<close>

text \<open>Descriptors are C \<open>int\<close>s.\<close>

definition int_socks :: "accepted list \<Rightarrow> bool" where
  "int_socks as \<longleftrightarrow> list_all (\<lambda>a. ac_sock a < 2 ^ 31) as"

definition qs_inv :: "('q \<Rightarrow> bool) \<Rightarrow> (tid \<Rightarrow> 'q \<Rightarrow> qobs) \<Rightarrow> ('q \<Rightarrow> int multiset) \<Rightarrow> int list \<Rightarrow> 'q qserver \<Rightarrow> bool" where
  "qs_inv qgood qobs qbag all s \<longleftrightarrow> w_inv qgood qobs qbag (qs_wait s) \<and> int_socks (qs_accepts s) \<and>
     mset (qs_put s) = mset (qs_served s) + mset (qs_failed s) + w_load qobs qbag (qs_wait s) \<and>
     all = qs_put s @ accepted_socks (qs_accepts s) \<and> (\<forall>c. qs_exit s = Some c \<longrightarrow> c = 1)"

lemma handleConnection_exit: "handleConnection env root sock w = (w', Exit c) \<Longrightarrow> c = 1"
  by (erule handleConnection_cases) auto

context inner_queue
begin

lemma qs_main_inv:
  assumes inv: "qs_inv qgood qobs qbag all s" and run: "qs_mainLoop qstep qres s = Some s'"
  shows "qs_inv qgood qobs qbag all s'"
proof -
  have wi: "w_inv qgood qobs qbag (qs_wait s)" using inv by (simp add: qs_inv_def)
  obtain a as where a: "w_pc (qs_wait s) 0 = WIdle" "qs_accepts s = a # as"
    using run by (auto simp: qs_mainLoop_def split: if_splits list.splits)
  show ?thesis
  proof (cases "stops a \<or> ac_sock a < 0")
    case True
    then have "s' = s\<lparr>qs_exit := Some 1\<rparr>" using run a by (simp add: qs_mainLoop_def stops_def split: if_splits)
    then show ?thesis using inv by (simp add: qs_inv_def)
  next
    case False
    then obtain w where w: "wstep qstep qres (WPut 0 (ac_sock a)) (qs_wait s) = Some w"
      and s': "s' = s\<lparr>qs_wait := w, qs_accepts := as, qs_put := qs_put s @ [ac_sock a]\<rparr>"
      using run a by (auto simp: qs_mainLoop_def stops_def simp del: wstep.simps split: if_splits option.splits)
    have "put_valid (WPut 0 (ac_sock a))" using inv a False by (simp add: qs_inv_def int_socks_def object_def)
    from w_step_inv [OF wi this w] load_put [OF wi a(1) w] inv a False show ?thesis
      by (simp add: qs_inv_def s' int_socks_def accepted_socks_Cons)
  qed
qed

lemma qs_worker_inv:
  assumes inv: "qs_inv qgood qobs qbag all s" and run: "qs_threadMain qstep qres env root t s = Some s'"
  shows "qs_inv qgood qobs qbag all s'"
proof -
  have wi: "w_inv qgood qobs qbag (qs_wait s)" using inv by (simp add: qs_inv_def)
  consider (get) "w_pc (qs_wait s) t = WIdle" | (hand) sock where "w_pc (qs_wait s) t = WReturn sock"
    using run by (auto simp: qs_threadMain_def split: if_splits wpc.splits)
  then show ?thesis
  proof cases
    case get
    then obtain w where w: "wstep qstep qres (WGet t) (qs_wait s) = Some w" and s': "s' = s\<lparr>qs_wait := w\<rparr>"
      using run by (auto simp: qs_threadMain_def simp del: wstep.simps split: if_splits option.splits)
    have "put_valid (WGet t)" by simp
    from w_step_inv [OF wi this w] load_get [OF wi get w] inv show ?thesis by (simp add: qs_inv_def s')
  next
    case hand
    obtain log r where h: "handleConnection env root sock (qs_log s) = (log, r)" by (cases "handleConnection env root sock (qs_log s)")
    note ld = load_hand [OF wi hand]
    show ?thesis
    proof (cases r)
      case (Ok v)
      then have "s' = s\<lparr>qs_log := log, qs_wait := w_go t WIdle (qs_wait s), qs_served := qs_served s @ [sock]\<rparr>"
        using run hand h by (simp add: qs_threadMain_def Let_def split: if_splits)
      then show ?thesis using inv ld by (simp add: qs_inv_def)
    next
      case PthreadExit
      then have "s' = s\<lparr>qs_log := log, qs_wait := w_go t WIdle (qs_wait s), qs_gone := (qs_gone s)(t := True), qs_failed := qs_failed s @ [sock]\<rparr>"
        using run hand h by (simp add: qs_threadMain_def Let_def split: if_splits)
      then show ?thesis using inv ld by (simp add: qs_inv_def)
    next
      case (Exit c)
      then have "s' = s\<lparr>qs_log := log, qs_exit := Some c\<rparr>"
        using run hand h by (simp add: qs_threadMain_def Let_def split: if_splits)
      moreover have "c = 1" using handleConnection_exit h Exit by blast
      ultimately show ?thesis using inv by (simp add: qs_inv_def)
    qed
  qed
qed

lemma qs_step_inv:
  assumes inv: "qs_inv qgood qobs qbag all s" and run: "qs_step qstep qres env root e s = Some s'"
  shows "qs_inv qgood qobs qbag all s'"
proof (cases e)
  case QsMain
  then show ?thesis using run qs_main_inv [OF inv] by (simp add: qs_step_def split: if_splits)
next
  case (QsWorker t)
  then show ?thesis using run qs_worker_inv [OF inv] by (simp add: qs_step_def split: if_splits)
next
  case (QsQueue we)
  then obtain w where w: "qs_inner we" "wstep qstep qres we (qs_wait s) = Some w" and s': "s' = s\<lparr>qs_wait := w\<rparr>"
    using run by (auto simp: qs_step_def simp del: wstep.simps split: if_splits option.splits)
  have wi: "w_inv qgood qobs qbag (qs_wait s)" using inv by (simp add: qs_inv_def)
  have "put_valid we" using w(1) by (cases we) simp_all
  from w_step_inv [OF wi this w(2)] load_step [OF wi w] inv show ?thesis by (simp add: qs_inv_def s')
qed

lemma qs_init_inv:
  assumes "qgood q" and "qbag q = {#}" and "0 < n" and "int_socks as"
  shows "qs_inv qgood qobs qbag (accepted_socks as) (qs_init q n as)"
proof -
  have "distinct ([0] @ [1..<Suc n])" "[1..<Suc n] \<noteq> []" using assms(3) by auto
  from w_init_inv [OF assms(1,2) this] have wi: "w_inv qgood qobs qbag (w_init q [0] [1..<Suc n])" .
  have "(\<Sum>t\<leftarrow>ts. {#} :: int multiset) = {#}" for ts :: "tid list" by (induction ts) auto
  then have "w_load qobs qbag (w_init q [0] [1..<Suc n]) = {#}"
    using assms(2) by (simp add: w_load_def carry_def w_init_def)
  then show ?thesis using wi assms(4) by (simp add: qs_inv_def qs_init_def)
qed

end

sublocale inner_queue \<subseteq> program: machine "qs_step qstep qres env root" "qs_inv qgood qobs qbag all" for env root all
  by unfold_locales (rule qs_step_inv)

section \<open>Properties\<close>

text \<open>Worker 1 sleeps, the main thread accepts 4 and wakes it, and it serves the connection.\<close>

definition demo_get :: "qsev list" where
  "demo_get = [QsWorker 1, QsQueue (WRun 1), QsMain]"

definition demo_lcrq_program :: "qsev list" where
  "demo_lcrq_program = demo_get @ replicate 8 (QsQueue (WRun 0)) @ [QsQueue (WWake 0 [1])] @ replicate 8 (QsQueue (WRun 1)) @ [QsWorker 1]"

lemma demo_lcrq_program_run:
  "map_option (\<lambda>s. (qs_put s, qs_served s, qs_exit s)) (mrun (lcrq_program_step demo_env ''/www'') demo_lcrq_program
     (qs_init (l_init 1 False) 1 demo_accepts)) = Some ([4], [4], None)"
  by code_simp

definition demo_ms_program :: "qsev list" where
  "demo_ms_program = demo_get @ replicate 7 (QsQueue (WRun 0)) @ [QsQueue (WWake 0 [1])] @ replicate 9 (QsQueue (WRun 1)) @ [QsWorker 1]"

lemma demo_ms_program_run:
  "map_option (\<lambda>s. (qs_put s, qs_served s, qs_exit s)) (mrun (ms_program_step demo_env ''/www'') demo_ms_program
     (qs_init (ms_init no_nodes) 1 demo_accepts)) = Some ([4], [4], None)"
  by code_simp

lemma demo_int_socks: "int_socks demo_accepts"
  by code_simp

text \<open>
  (C29) No connection is lost, made up or handed out twice by the program \<open>lcrq-server.c\<close>: in every state it
  can reach, with any number of workers and every interleaving of their accesses to the rings and to the
  counter, the sockets that \<open>mainLoop\<close> put on the queue, which are those accepted so far in their order,
  are exactly the ones handled to the end, the ones that ended their worker, the ones stored in the
  rings and the ones a thread is carrying. Whenever the process has ended, its exit code is 1.
\<close>

theorem lcrq_program_conserves:
  assumes "mrun (lcrq_program_step env root) es (qs_init (l_init pow False) n as) = Some s" and "0 < n" and "int_socks as"
  shows "mset (qs_put s) = mset (qs_served s) + mset (qs_failed s) + w_load l_obs l_bag (qs_wait s) \<and>
    accepted_socks as = qs_put s @ accepted_socks (qs_accepts s) \<and> (\<forall>c. qs_exit s = Some c \<longrightarrow> c = 1)"
proof -
  have "qs_inv l_good l_obs l_bag (accepted_socks as) (qs_init (l_init pow False) n as)"
    by (rule lcs.qs_init_inv) (use assms(2,3) in \<open>simp_all add: l_init_good\<close>)
  from lcs.program.good_run [OF this] assms(1) show ?thesis by (auto simp: lcrq_program_step_def qs_inv_def)
qed

theorem lcrq_program_conserves_witness:
  "\<exists>s. mrun (lcrq_program_step demo_env ''/www'') demo_lcrq_program (qs_init (l_init 1 False) 1 demo_accepts) = Some s \<and>
    w_load l_obs l_bag (qs_wait s) = {#} \<and> qs_served s = [4]"
proof -
  obtain s where s: "mrun (lcrq_program_step demo_env ''/www'') demo_lcrq_program (qs_init (l_init 1 False) 1 demo_accepts) = Some s"
    "qs_put s = [4]" "qs_served s = [4]" using demo_lcrq_program_run by auto
  have "mset (qs_put s) = mset (qs_served s) + mset (qs_failed s) + w_load l_obs l_bag (qs_wait s)"
    using lcrq_program_conserves [OF s(1) zero_less_one demo_int_socks] by blast
  then show ?thesis using s by simp
qed

text \<open>
  (C30) The same for \<open>ms-queue-http-server.c\<close>, over the lock-free linked queue: the sockets put on the
  queue, which are those accepted so far in their order, are exactly the ones handled to the end, the
  ones that ended their worker, the ones in the queue and the ones a thread is carrying.
\<close>

theorem ms_program_conserves:
  assumes "mrun (ms_program_step env root) es (qs_init (ms_init hp) n as) = Some s" and "0 < n" and "int_socks as"
  shows "mset (qs_put s) = mset (qs_served s) + mset (qs_failed s) + w_load ms_obs (mset \<circ> ms_content) (qs_wait s) \<and>
    accepted_socks as = qs_put s @ accepted_socks (qs_accepts s) \<and> (\<forall>c. qs_exit s = Some c \<longrightarrow> c = 1)"
proof -
  have "qs_inv ms_good ms_obs (mset \<circ> ms_content) (accepted_socks as) (qs_init (ms_init hp) n as)"
    by (rule mss.qs_init_inv) (use assms(2,3) in \<open>simp_all add: ms_init_good\<close>)
  from mss.program.good_run [OF this] assms(1) show ?thesis by (auto simp: ms_program_step_def qs_inv_def)
qed

theorem ms_program_conserves_witness:
  "\<exists>s. mrun (ms_program_step demo_env ''/www'') demo_ms_program (qs_init (ms_init no_nodes) 1 demo_accepts) = Some s \<and>
    w_load ms_obs (mset \<circ> ms_content) (qs_wait s) = {#} \<and> qs_served s = [4]"
proof -
  obtain s where s: "mrun (ms_program_step demo_env ''/www'') demo_ms_program (qs_init (ms_init no_nodes) 1 demo_accepts) = Some s"
    "qs_put s = [4]" "qs_served s = [4]" using demo_ms_program_run by auto
  have "mset (qs_put s) = mset (qs_served s) + mset (qs_failed s) + w_load ms_obs (mset \<circ> ms_content) (qs_wait s)"
    using ms_program_conserves [OF s(1) zero_less_one demo_int_socks] by blast
  then show ?thesis using s by simp
qed

text \<open>
  \<open>SIGINT\<close> ends \<open>lcrq-server.c\<close> at once: when the interrupted \<open>accept\<close> is the main thread's next step,
  that step ends the process with code 1, no thread takes another step, and of the connections accepted
  before the signal those still in the rings or in a thread's hands are dropped; no worker is poisoned
  or joined. \<open>http-server.c\<close> serves all of them first.
\<close>

lemma lcrq_program_interrupted:
  assumes "mrun (lcrq_program_step env root) es (qs_init (l_init pow False) n as) = Some s" and "0 < n" and "int_socks as"
    and "qs_exit s = None" and "qs_accepts s = a # as'" and "stops a" and "w_pc (qs_wait s) 0 = WIdle"
  shows "\<exists>s'. lcrq_program_step env root QsMain s = Some s' \<and> qs_exit s' = Some 1 \<and> (\<forall>e. lcrq_program_step env root e s' = None) \<and>
    mset (accepted_socks as) = mset (qs_served s') + mset (qs_failed s') + w_load l_obs l_bag (qs_wait s')"
proof -
  have "qs_inv l_good l_obs l_bag (accepted_socks as) (qs_init (l_init pow False) n as)"
    by (rule lcs.qs_init_inv) (use assms(2,3) in \<open>simp_all add: l_init_good\<close>)
  from lcs.program.good_run [OF this] assms(1) have inv: "qs_inv l_good l_obs l_bag (accepted_socks as) s"
    by (simp add: lcrq_program_step_def)
  have "accepted_socks (a # as') = []" using assms(6) by (simp add: accepted_socks_Cons)
  then show ?thesis using inv assms(4-7)
    by (auto simp: lcrq_program_step_def qs_step_def qs_mainLoop_def stops_def qs_inv_def)
qed

definition demo_dropped :: "qsev list" where
  "demo_dropped = QsMain # replicate 8 (QsQueue (WRun 0)) @ [QsQueue (WWake 0 [])]"

lemma lcrq_program_interrupted_witness:
  "\<exists>s s'. mrun (lcrq_program_step demo_env ''/www'') demo_dropped (qs_init (l_init 1 False) 1 demo_accepts) = Some s \<and>
    lcrq_program_step demo_env ''/www'' QsMain s = Some s' \<and> qs_exit s' = Some 1 \<and>
    mset (qs_served s') + mset (qs_failed s') + w_load l_obs l_bag (qs_wait s') = {#4#}"
proof -
  let ?a = "\<lparr>ac_sock = -1, ac_eintr = True, ac_flag = True\<rparr>"
  have "map_option (\<lambda>s. (qs_exit s, w_pc (qs_wait s) 0, qs_accepts s)) (mrun (lcrq_program_step demo_env ''/www'') demo_dropped
     (qs_init (l_init 1 False) 1 demo_accepts)) = Some (None, WIdle, [?a])" by code_simp
  then obtain s where s: "mrun (lcrq_program_step demo_env ''/www'') demo_dropped (qs_init (l_init 1 False) 1 demo_accepts) = Some s"
    "qs_exit s = None" "qs_accepts s = [?a]" "w_pc (qs_wait s) 0 = WIdle" by auto
  have "stops ?a" by (simp add: stops_def)
  moreover have "accepted_socks demo_accepts = [4]" by code_simp
  ultimately show ?thesis
    using lcrq_program_interrupted [OF s(1) zero_less_one demo_int_socks s(2,3) _ s(4)] s(1) by auto
qed

end
