(* ===== verification/Counters.thy ===== *)
theory Counters
  imports LocksStack Serial
begin

text \<open>
  The counting objects of \<open>synch1.0.1\<close> without a combining lock, one access to shared memory per step:
  \<open>lfobject.c\<close>, a word that a compare-and-swap loop updates, and \<open>locksuobject.c\<close>, an array under a CLH lock.
\<close>

section \<open>lfobject.c\<close>

text \<open>\<open>apply_op\<close>: reading \<open>sp\<close> and computing the new value, and the compare-and-swap with \<open>lsp\<close> and \<open>mod_sp\<close>.\<close>

datatype lfpc =
    LfIdle
  | LfRead i32          \<comment> \<open>\<open>lsp = sp; mod_sp = lsp; sfunc(&mod_sp, arg, pid)\<close>, with \<open>arg\<close>\<close>
  | LfCas i32 i64 i64   \<comment> \<open>\<open>CAS64(&sp, lsp, mod_sp)\<close>\<close>
  | LfDone

text \<open>\<open>lf_log\<close> records the threads of the successful compare-and-swaps; no step reads it.\<close>

record lfobject =
  lf_sp :: i64
  lf_pc :: "tid \<Rightarrow> lfpc"
  lf_log :: "tid list"

definition lf_init :: lfobject where
  "lf_init = \<lparr>lf_sp = 1, lf_pc = (\<lambda>t. LfIdle), lf_log = []\<rparr>"

definition lf_fetchAndMultiply :: "i64 \<Rightarrow> i32 \<Rightarrow> i32 \<Rightarrow> i64 \<times> i64" where
  "lf_fetchAndMultiply mod_sp arg pid = (let mod_sp' = mod_sp + 1 in (mod_sp', mod_sp'))"

definition lfgo :: "tid \<Rightarrow> lfpc \<Rightarrow> lfobject \<Rightarrow> lfobject" where
  "lfgo t p s = s\<lparr>lf_pc := (lf_pc s)(t := p)\<rparr>"

fun lf_apply_op :: "lfpc \<Rightarrow> tid \<Rightarrow> lfobject \<Rightarrow> lfobject option" where
  "lf_apply_op (LfRead arg) t s =
     (let lsp = lf_sp s; mod_sp = snd (lf_fetchAndMultiply lsp arg (of_nat t)) in Some (lfgo t (LfCas arg lsp mod_sp) s))"
| "lf_apply_op (LfCas arg lsp mod_sp) t s =
     Some (if lf_sp s = lsp then lfgo t LfDone (s\<lparr>lf_sp := mod_sp, lf_log := lf_log s @ [t]\<rparr>) else lfgo t (LfRead arg) s)"
| "lf_apply_op _ t s = None"

fun lf_idle :: "lfpc \<Rightarrow> bool" where
  "lf_idle LfIdle = True"
| "lf_idle LfDone = True"
| "lf_idle _ = False"

datatype lfev = LfCall tid i32 | LfRun tid

fun lf_step :: "lfev \<Rightarrow> lfobject \<Rightarrow> lfobject option" where
  "lf_step (LfCall t arg) s = (if lf_idle (lf_pc s t) then Some (lfgo t (LfRead arg) s) else None)"
| "lf_step (LfRun t) s = lf_apply_op (lf_pc s t) t s"

text \<open>The word is one more than the number of operations that took effect, modulo \<open>2 ^ 64\<close>.\<close>

definition lf_good :: "lfobject \<Rightarrow> bool" where
  "lf_good s \<longleftrightarrow> lf_sp s = 1 + of_nat (length (lf_log s)) \<and>
     (\<forall>t arg lsp mod_sp. lf_pc s t = LfCas arg lsp mod_sp \<longrightarrow> mod_sp = lsp + 1)"

lemma lfgo_simps [simp]:
  "lf_sp (lfgo t p s) = lf_sp s" "lf_pc (lfgo t p s) = (lf_pc s)(t := p)" "lf_log (lfgo t p s) = lf_log s"
  by (simp_all add: lfgo_def)

lemma lf_step_good:
  assumes good: "lf_good s" and run: "lf_step e s = Some s'"
  shows "lf_good s'"
proof (cases e)
  case (LfCall t arg)
  then have "s' = lfgo t (LfRead arg) s" using run by (simp split: if_splits)
  then show ?thesis using good by (auto simp: lf_good_def)
next
  case (LfRun t)
  show ?thesis
  proof (cases "lf_pc s t")
    case (LfRead arg)
    then show ?thesis using run LfRun good by (auto simp: lf_good_def lf_fetchAndMultiply_def Let_def split: if_splits)
  next
    case (LfCas arg lsp mod_sp)
    then have "mod_sp = lsp + 1" using good by (simp add: lf_good_def)
    then show ?thesis using run LfRun LfCas good by (auto simp: lf_good_def algebra_simps split: if_splits)
  qed (use run LfRun in auto)
qed

interpretation lfm: machine lf_step lf_good
  by unfold_locales (rule lf_step_good)

lemma lf_init_good: "lf_good lf_init"
  by (simp add: lf_good_def lf_init_def)

section \<open>locksuobject.c\<close>

datatype uopc =
    UoIdle
  | UoLock              \<comment> \<open>\<open>clhLock(object_lock, pid)\<close>\<close>
  | UoRead nat          \<comment> \<open>reading \<open>Critical[i].obj\<close>, or the end of the loop\<close>
  | UoWrite nat i32     \<comment> \<open>\<open>Critical[i].obj += 1\<close>, with the value read\<close>
  | UoUnlock            \<comment> \<open>\<open>clhUnlock(object_lock, pid)\<close>\<close>
  | UoDone

text \<open>\<open>uo_log\<close> records the threads that went through the loop; no step reads it.\<close>

record uobject =
  uo_critical :: "i32 list"
  uo_lock :: clh
  uo_pc :: "tid \<Rightarrow> uopc"
  uo_log :: "tid list"

definition uo_init :: "nat \<Rightarrow> uobject" where
  "uo_init OBJECT_SIZE = \<lparr>uo_critical = replicate OBJECT_SIZE 0, uo_lock = clhLockInit, uo_pc = (\<lambda>t. UoIdle), uo_log = []\<rparr>"

definition uogo :: "tid \<Rightarrow> uopc \<Rightarrow> uobject \<Rightarrow> uobject" where
  "uogo t p s = s\<lparr>uo_pc := (uo_pc s)(t := p)\<rparr>"

text \<open>The loop of \<open>fetchAndMultiply\<close>, whose result \<open>apply_op\<close> drops.\<close>

fun uo_fetchAndMultiply :: "uopc \<Rightarrow> tid \<Rightarrow> uobject \<Rightarrow> uobject option" where
  "uo_fetchAndMultiply (UoRead i) t s =
     Some (if i < length (uo_critical s) then uogo t (UoWrite i (uo_critical s ! i)) s
           else uogo t UoUnlock (s\<lparr>uo_log := uo_log s @ [t]\<rparr>))"
| "uo_fetchAndMultiply (UoWrite i v) t s =
     (if i < length (uo_critical s)
      then Some (uogo t (UoRead (i + 1)) (s\<lparr>uo_critical := (uo_critical s)[i := v + 1]\<rparr>)) else None)"
| "uo_fetchAndMultiply _ t s = None"

fun uo_apply_op :: "uopc \<Rightarrow> tid \<Rightarrow> uobject \<Rightarrow> uobject option" where
  "uo_apply_op UoLock t s =
     (case lock_turn t (uo_lock s) of
        None \<Rightarrow> None
      | Some l \<Rightarrow> Some (uogo t (if cl_pc (uo_lock s) t = CIn then UoRead 0 else UoLock) (s\<lparr>uo_lock := l\<rparr>)))"
| "uo_apply_op UoUnlock t s =
     (case unlock_turn t (uo_lock s) of
        None \<Rightarrow> None
      | Some l \<Rightarrow> Some (uogo t (if cl_pc (uo_lock s) t = CIdle then UoDone else UoUnlock) (s\<lparr>uo_lock := l\<rparr>)))"
| "uo_apply_op p t s = uo_fetchAndMultiply p t s"

fun uo_idle :: "uopc \<Rightarrow> bool" where
  "uo_idle UoIdle = True"
| "uo_idle UoDone = True"
| "uo_idle _ = False"

datatype uoev = UoCall tid | UoRun tid

fun uo_step :: "uoev \<Rightarrow> uobject \<Rightarrow> uobject option" where
  "uo_step (UoCall t) s =
     (if \<not> uo_idle (uo_pc s t) then None
      else case clh_step (Acquire t) (uo_lock s) of
        None \<Rightarrow> None
      | Some l \<Rightarrow> Some (uogo t UoLock (s\<lparr>uo_lock := l\<rparr>)))"
| "uo_step (UoRun t) s = uo_apply_op (uo_pc s t) t s"

text \<open>
  \<open>uo_at k c p\<close>: a thread at \<open>p\<close> has counted up the first \<open>k\<close> words, all \<open>c\<close> before. Nobody inside: \<open>k = 0\<close>.
\<close>

fun uo_in :: "uopc \<Rightarrow> bool" where
  "uo_in (UoRead i) = True"
| "uo_in (UoWrite i v) = True"
| "uo_in _ = False"

fun uo_at :: "nat \<Rightarrow> i32 \<Rightarrow> uopc \<Rightarrow> bool" where
  "uo_at k c (UoRead i) = (i = k)"
| "uo_at k c (UoWrite i v) = (i = k \<and> v = c)"
| "uo_at k c _ = True"

definition uo_counted :: "nat \<Rightarrow> uobject \<Rightarrow> nat \<Rightarrow> bool" where
  "uo_counted n s k \<longleftrightarrow> length (uo_critical s) = n \<and> k \<le> n \<and>
     (\<forall>i < n. uo_critical s ! i = of_nat (length (uo_log s)) + (if i < k then 1 else 0))"

definition uo_inv :: "nat \<Rightarrow> uobject \<Rightarrow> nat \<Rightarrow> bool" where
  "uo_inv n s k \<longleftrightarrow> clh_good (uo_lock s) \<and> (\<forall>t. uo_in (uo_pc s t) \<longrightarrow> holds (uo_lock s) t) \<and> uo_counted n s k \<and>
     (\<forall>t. uo_at k (of_nat (length (uo_log s))) (uo_pc s t)) \<and> ((\<forall>t. \<not> uo_in (uo_pc s t)) \<longrightarrow> k = 0)"

definition uo_good :: "nat \<Rightarrow> uobject \<Rightarrow> bool" where
  "uo_good n s \<longleftrightarrow> (\<exists>k. uo_inv n s k)"

lemma uogo_simps [simp]:
  "uo_critical (uogo t p s) = uo_critical s" "uo_lock (uogo t p s) = uo_lock s" "uo_pc (uogo t p s) = (uo_pc s)(t := p)"
  "uo_log (uogo t p s) = uo_log s"
  by (simp_all add: uogo_def)

text \<open>A step that changes the lock and the program point of a thread that is not inside, before or after.\<close>

lemma uo_lock_move:
  assumes inv: "uo_inv n s k" and out: "\<not> uo_in (uo_pc s t)" and p: "\<not> uo_in p \<or> p = UoRead 0 \<and> holds l t"
    and good: "clh_good l" and other: "\<And>u. u \<noteq> t \<Longrightarrow> holds l u = holds (uo_lock s) u"
  shows "uo_good n (uogo t p (s\<lparr>uo_lock := l\<rparr>))"
proof -
  let ?s = "uogo t p (s\<lparr>uo_lock := l\<rparr>)"
  have hold: "uo_in (uo_pc ?s u) \<Longrightarrow> holds l u" for u using inv p other [of u] by (cases "u = t") (auto simp: uo_inv_def)
  show ?thesis
  proof (cases "uo_in p")
    case False
    then have same: "uo_in (uo_pc ?s u) = uo_in (uo_pc s u)" for u using out by simp
    have "uo_at k c p" for c using False by (cases p) auto
    then have "uo_at k c (uo_pc ?s u)" if "uo_at k c (uo_pc s u)" for u c using that by simp
    moreover have "uo_counted n ?s k" using inv by (simp add: uo_inv_def uo_counted_def)
    ultimately have "uo_inv n ?s k" using inv good hold unfolding uo_inv_def same by (simp del: uogo_simps(3))
    then show ?thesis by (auto simp: uo_good_def)
  next
    case True
    then have pt: "p = UoRead 0" "holds l t" using p by auto
    have none: "\<not> uo_in (uo_pc s u)" for u
    proof
      assume u: "uo_in (uo_pc s u)"
      then have ut: "u \<noteq> t" using out by auto
      then have "holds l u" using u inv other by (simp add: uo_inv_def)
      then show False using clh_impl.one_inside [OF good _ pt(2), of u] ut by simp
    qed
    then have "k = 0" using inv by (simp add: uo_inv_def)
    then have "uo_inv n ?s k" using inv good hold pt by (auto simp: uo_inv_def uo_counted_def)
    then show ?thesis by (auto simp: uo_good_def)
  qed
qed

lemma uo_alone:
  assumes "uo_inv n s k" and "uo_in (uo_pc s t)" and "u \<noteq> t"
  shows "\<not> uo_in (uo_pc s u)"
  using clh_impl.one_inside [of "uo_lock s" t u] assms by (auto simp: uo_inv_def)

lemma uo_at_out: "\<not> uo_in p \<Longrightarrow> uo_at k c p"
  by (cases p) simp_all

lemma uo_loop_good:
  assumes inv: "uo_inv n s k" and run: "uo_fetchAndMultiply (uo_pc s t) t s = Some s'"
  shows "uo_good n s'"
proof -
  let ?c = "of_nat (length (uo_log s)) :: i32"
  have inside: "uo_in (uo_pc s t)" using run by (cases "uo_pc s t") auto
  have others: "\<not> uo_in (uo_pc s u)" if "u \<noteq> t" for u by (rule uo_alone [OF inv inside that])
  have cnt: "length (uo_critical s) = n" "k \<le> n" "\<And>i. i < n \<Longrightarrow> uo_critical s ! i = ?c + (if i < k then 1 else 0)"
    using inv by (auto simp: uo_inv_def uo_counted_def)
  have h: "clh_good (uo_lock s)" "holds (uo_lock s) t" "uo_at k ?c (uo_pc s t)" using inv inside by (auto simp: uo_inv_def)
  have mk: "uo_good n s'" if "uo_lock s' = uo_lock s" "uo_pc s' = (uo_pc s)(t := p)" "uo_counted n s' j"
    "uo_at j (of_nat (length (uo_log s'))) p" "\<not> uo_in p \<longrightarrow> j = 0" for p j
  proof -
    have "uo_in (uo_pc s' u) \<Longrightarrow> holds (uo_lock s) u" for u using h others that(2) by (cases "u = t") auto
    moreover have "uo_at j (of_nat (length (uo_log s'))) (uo_pc s' u)" for u
      using that(2,4) uo_at_out [OF others, of u] by (cases "u = t") auto
    moreover have "(\<forall>u. \<not> uo_in (uo_pc s' u)) \<longrightarrow> j = 0" using that(2,5) by (metis fun_upd_same)
    ultimately have "uo_inv n s' j" using that(1,3) h(1) by (simp add: uo_inv_def)
    then show ?thesis by (auto simp: uo_good_def)
  qed
  show ?thesis
  proof (cases "uo_pc s t")
    case (UoRead i)
    then have i: "i = k" using h(3) by simp
    show ?thesis
    proof (cases "i < n")
      case True
      then have s': "s' = uogo t (UoWrite i (uo_critical s ! i)) s" using run UoRead cnt(1) by simp
      show ?thesis by (rule mk [of "UoWrite i (uo_critical s ! i)" k])
        (use s' i True cnt in \<open>auto simp: uo_counted_def\<close>)
    next
      case False
      then have s': "s' = uogo t UoUnlock (s\<lparr>uo_log := uo_log s @ [t]\<rparr>)" using run UoRead cnt(1) by simp
      show ?thesis by (rule mk [of UoUnlock 0]) (use s' i False cnt in \<open>auto simp: uo_counted_def\<close>)
    qed
  next
    case (UoWrite i v)
    then have i: "i = k" "v = ?c" using h(3) by simp_all
    have s': "s' = uogo t (UoRead (i + 1)) (s\<lparr>uo_critical := (uo_critical s)[i := v + 1]\<rparr>)" "i < n"
      using run UoWrite cnt(1) by (simp_all split: if_splits)
    show ?thesis by (rule mk [of "UoRead (i + 1)" "k + 1"])
      (use s' i cnt in \<open>auto simp: uo_counted_def nth_list_update\<close>)
  qed (use run in auto)
qed

lemma uo_step_good:
  assumes good: "uo_good n s" and run: "uo_step e s = Some s'"
  shows "uo_good n s'"
proof -
  obtain k where inv: "uo_inv n s k" using good by (auto simp: uo_good_def)
  then have lk: "clh_good (uo_lock s)" by (simp add: uo_inv_def)
  show ?thesis
  proof (cases e)
    case (UoCall t)
    then obtain l where l: "uo_idle (uo_pc s t)" "clh_step (Acquire t) (uo_lock s) = Some l" "s' = uogo t UoLock (s\<lparr>uo_lock := l\<rparr>)"
      using run by (auto simp del: clh_step.simps split: if_splits option.splits)
    have "clh_good l \<and> (\<forall>u. u \<noteq> t \<longrightarrow> holds l u = holds (uo_lock s) u)" by (rule turn_good [OF lk l(2)]) simp
    moreover have "\<not> uo_in (uo_pc s t)" using l(1) by (cases "uo_pc s t") auto
    ultimately show ?thesis unfolding l(3) by (intro uo_lock_move [OF inv]) auto
  next
    case (UoRun t)
    show ?thesis
    proof (cases "uo_pc s t")
      case UoLock
      then obtain l where l: "lock_turn t (uo_lock s) = Some l"
        "s' = uogo t (if cl_pc (uo_lock s) t = CIn then UoRead 0 else UoLock) (s\<lparr>uo_lock := l\<rparr>)"
        using run UoRun by (auto split: option.splits)
      then show ?thesis unfolding l(2) using lock_turn_good [OF lk l(1)] UoLock
        by (intro uo_lock_move [OF inv]) (auto split: if_splits)
    next
      case UoUnlock
      then obtain l where l: "unlock_turn t (uo_lock s) = Some l"
        "s' = uogo t (if cl_pc (uo_lock s) t = CIdle then UoDone else UoUnlock) (s\<lparr>uo_lock := l\<rparr>)"
        using run UoRun by (auto split: option.splits)
      then show ?thesis unfolding l(2) using unlock_turn_good [OF lk l(1)] UoUnlock
        by (intro uo_lock_move [OF inv]) (auto split: if_splits)
    next
      case (UoRead i)
      then show ?thesis using run UoRun uo_loop_good [OF inv, of t s'] by simp
    next
      case (UoWrite i v)
      then show ?thesis using run UoRun uo_loop_good [OF inv, of t s'] by simp
    qed (use run UoRun in auto)
  qed
qed

interpretation uom: machine uo_step "uo_good n" for n
  by unfold_locales (rule uo_step_good)

lemma uo_init_good: "uo_good n (uo_init n)"
  by (auto simp: uo_good_def uo_inv_def uo_counted_def uo_init_def clh_init_good intro!: exI [of _ 0])

end
