(* ===== verification/Benchmarks.thy ===== *)
theory Benchmarks
  imports Counters Oyama
begin

text \<open>
  The programs around the counting objects of \<open>synch1.0.1\<close>: \<open>main\<close> creates the threads and joins them, each
  thread waits at the barrier and applies \<open>RUNS\<close> operations. What the object holds at the end follows from
  the contract \<open>counted_object\<close> of the object. The random delay between two operations is no step.
\<close>

section \<open>The program\<close>

text \<open>A thread in \<open>Execute\<close>; \<open>i\<close> is the loop variable.\<close>

datatype bpc =
    BNew          \<comment> \<open>not yet created\<close>
  | BStart
  | BBarrier      \<comment> \<open>in \<open>pthread_barrier_wait\<close>\<close>
  | BLoop nat     \<comment> \<open>\<open>i < RUNS\<close>\<close>
  | BIn nat       \<comment> \<open>inside the operation\<close>
  | BReturned

datatype bmain = BmCreate nat | BmJoin nat | BmReturned

record 'o bench =
  b_obj :: 'o
  b_pc :: "tid \<Rightarrow> bpc"
  b_main :: bmain

definition bench_init :: "'o \<Rightarrow> 'o bench" where
  "bench_init obj = \<lparr>b_obj = obj, b_pc = (\<lambda>t. BNew), b_main = BmCreate 0\<rparr>"

definition bgo :: "tid \<Rightarrow> bpc \<Rightarrow> 'o bench \<Rightarrow> 'o bench" where
  "bgo t p s = s\<lparr>b_pc := (b_pc s)(t := p)\<rparr>"

text \<open>
  The object: its step function, when a thread is outside it, the call of the \<open>i\<close>-th operation of a thread,
  and a step of a thread inside.
\<close>

definition bench_Execute ::
  "('e \<Rightarrow> 'o \<Rightarrow> 'o option) \<Rightarrow> (tid \<Rightarrow> 'o \<Rightarrow> bool) \<Rightarrow> (tid \<Rightarrow> nat \<Rightarrow> 'e) \<Rightarrow> (tid \<Rightarrow> 'e) \<Rightarrow> nat \<Rightarrow> nat \<Rightarrow> tid \<Rightarrow> 'o bench \<Rightarrow> 'o bench option" where
  "bench_Execute ostep oidle call run N_THREADS RUNS t s =
     (case b_pc s t of
        BNew \<Rightarrow> None
      | BStart \<Rightarrow> Some (bgo t BBarrier s)
      | BBarrier \<Rightarrow> if list_all (\<lambda>u. b_pc s u \<noteq> BNew \<and> b_pc s u \<noteq> BStart) [0..<N_THREADS] then Some (bgo t (BLoop 0) s) else None
      | BLoop i \<Rightarrow>
          if i < RUNS then (case ostep (call t i) (b_obj s) of None \<Rightarrow> None | Some obj \<Rightarrow> Some (bgo t (BIn i) (s\<lparr>b_obj := obj\<rparr>)))
          else Some (bgo t BReturned s)
      | BIn i \<Rightarrow>
          if oidle t (b_obj s) then Some (bgo t (BLoop (i + 1)) s)
          else (case ostep (run t) (b_obj s) of None \<Rightarrow> None | Some obj \<Rightarrow> Some (s\<lparr>b_obj := obj\<rparr>))
      | BReturned \<Rightarrow> None)"

definition bench_main :: "nat \<Rightarrow> 'o bench \<Rightarrow> 'o bench option" where
  "bench_main N_THREADS s =
     (case b_main s of
        BmCreate k \<Rightarrow> Some (if k < N_THREADS then bgo k BStart (s\<lparr>b_main := BmCreate (k + 1)\<rparr>) else s\<lparr>b_main := BmJoin 0\<rparr>)
      | BmJoin k \<Rightarrow>
          if k < N_THREADS then (if b_pc s k = BReturned then Some (s\<lparr>b_main := BmJoin (k + 1)\<rparr>) else None)
          else Some (s\<lparr>b_main := BmReturned\<rparr>)
      | BmReturned \<Rightarrow> None)"

datatype bev = BMain | BThread tid

definition bench_step ::
  "('e \<Rightarrow> 'o \<Rightarrow> 'o option) \<Rightarrow> (tid \<Rightarrow> 'o \<Rightarrow> bool) \<Rightarrow> (tid \<Rightarrow> nat \<Rightarrow> 'e) \<Rightarrow> (tid \<Rightarrow> 'e) \<Rightarrow> nat \<Rightarrow> nat \<Rightarrow> bev \<Rightarrow> 'o bench \<Rightarrow> 'o bench option" where
  "bench_step ostep oidle call run N_THREADS RUNS e s =
     (case e of BMain \<Rightarrow> bench_main N_THREADS s | BThread t \<Rightarrow> bench_Execute ostep oidle call run N_THREADS RUNS t s)"

text \<open>The three programs.\<close>

definition oyama_bench :: "nat \<Rightarrow> nat \<Rightarrow> bev \<Rightarrow> i32 list oyama bench \<Rightarrow> i32 list oyama bench option" where
  "oyama_bench N_THREADS RUNS =
     bench_step (oyama_step ou_fetchAndMultiply N_THREADS) (\<lambda>t s. oy_idle (oy_pc s t)) (\<lambda>t i. OyCall t (of_nat t)) OyRun N_THREADS RUNS"

definition lf_bench :: "nat \<Rightarrow> nat \<Rightarrow> bev \<Rightarrow> lfobject bench \<Rightarrow> lfobject bench option" where
  "lf_bench N_THREADS RUNS =
     bench_step lf_step (\<lambda>t s. lf_idle (lf_pc s t)) (\<lambda>t i. LfCall t (of_nat (t + 1))) LfRun N_THREADS RUNS"

definition luo_bench :: "nat \<Rightarrow> nat \<Rightarrow> bev \<Rightarrow> uobject bench \<Rightarrow> uobject bench option" where
  "luo_bench N_THREADS RUNS =
     bench_step uo_step (\<lambda>t s. uo_idle (uo_pc s t)) (\<lambda>t i. UoCall t) UoRun N_THREADS RUNS"

section \<open>What the programs need of the object\<close>

text \<open>\<open>ended t s\<close>: how many operations of the thread have returned.\<close>

locale counted_object = machine ostep good
  for ostep :: "'e \<Rightarrow> 'o \<Rightarrow> 'o option" and good :: "'o \<Rightarrow> bool" +
  fixes oidle :: "tid \<Rightarrow> 'o \<Rightarrow> bool" and call :: "tid \<Rightarrow> nat \<Rightarrow> 'e" and run :: "tid \<Rightarrow> 'e" and ended :: "tid \<Rightarrow> 'o \<Rightarrow> nat"
  assumes call_law: "good s \<Longrightarrow> ostep (call t i) s = Some s' \<Longrightarrow> \<not> oidle t s' \<and> ended t s' = ended t s"
    and run_law: "good s \<Longrightarrow> \<not> oidle t s \<Longrightarrow> ostep (run t) s = Some s' \<Longrightarrow> ended t s' = ended t s + (if oidle t s' then 1 else 0)"
    and others: "e = call t i \<or> e = run t \<Longrightarrow> ostep e s = Some s' \<Longrightarrow> u \<noteq> t \<Longrightarrow> oidle u s' = oidle u s \<and> ended u s' = ended u s"

text \<open>How many operations a thread has done by a program point, and the progress of \<open>main\<close>.\<close>

fun b_ok :: "nat \<Rightarrow> bpc \<Rightarrow> bool \<Rightarrow> nat \<Rightarrow> bool" where
  "b_ok RUNS (BLoop i) out k = (i \<le> RUNS \<and> out \<and> k = i)"
| "b_ok RUNS (BIn i) out k = (i < RUNS \<and> k = i + (if out then 1 else 0))"
| "b_ok RUNS BReturned out k = (out \<and> k = RUNS)"
| "b_ok RUNS _ out k = (out \<and> k = 0)"

fun bm_ok :: "nat \<Rightarrow> bmain \<Rightarrow> (tid \<Rightarrow> bpc) \<Rightarrow> bool" where
  "bm_ok N (BmCreate k) pcs = (k \<le> N \<and> (\<forall>t \<ge> k. pcs t = BNew))"
| "bm_ok N (BmJoin k) pcs = ((\<forall>t < k. pcs t = BReturned) \<and> (\<forall>t \<ge> N. pcs t = BNew))"
| "bm_ok N BmReturned pcs = ((\<forall>t < N. pcs t = BReturned) \<and> (\<forall>t \<ge> N. pcs t = BNew))"

definition bench_inv :: "('o \<Rightarrow> bool) \<Rightarrow> (tid \<Rightarrow> 'o \<Rightarrow> bool) \<Rightarrow> (tid \<Rightarrow> 'o \<Rightarrow> nat) \<Rightarrow> nat \<Rightarrow> nat \<Rightarrow> 'o bench \<Rightarrow> bool" where
  "bench_inv good oidle ended N RUNS s \<longleftrightarrow> good (b_obj s) \<and> bm_ok N (b_main s) (b_pc s) \<and>
     (\<forall>t. b_ok RUNS (b_pc s t) (oidle t (b_obj s)) (ended t (b_obj s)))"

lemma bgo_simps [simp]:
  "b_obj (bgo t p s) = b_obj s" "b_pc (bgo t p s) = (b_pc s)(t := p)" "b_main (bgo t p s) = b_main s"
  by (simp_all add: bgo_def)

lemma bm_ok_upd: "bm_ok N m pcs \<Longrightarrow> pcs t \<noteq> BNew \<Longrightarrow> pcs t \<noteq> BReturned \<Longrightarrow> bm_ok N m (pcs(t := p))"
  by (cases m) auto

context counted_object
begin

lemma bench_thread_inv:
  assumes inv: "bench_inv good oidle ended N RUNS s" and step: "bench_Execute ostep oidle call run N RUNS t s = Some s'"
  shows "bench_inv good oidle ended N RUNS s'"
proof -
  have g: "good (b_obj s)" and bm: "bm_ok N (b_main s) (b_pc s)"
    and ok: "\<And>u. b_ok RUNS (b_pc s u) (oidle u (b_obj s)) (ended u (b_obj s))"
    using inv by (simp_all add: bench_inv_def)
  have go: "bench_inv good oidle ended N RUNS (bgo t p s)"
    if "b_ok RUNS p (oidle t (b_obj s)) (ended t (b_obj s))" "b_pc s t \<noteq> BNew" "b_pc s t \<noteq> BReturned" for p
    using that g ok bm_ok_upd [OF bm that(2,3), of p] by (simp add: bench_inv_def)
  show ?thesis
  proof (cases "b_pc s t")
    case (BLoop i)
    show ?thesis
    proof (cases "i < RUNS")
      case True
      then obtain obj where obj: "ostep (call t i) (b_obj s) = Some obj" and s': "s' = bgo t (BIn i) (s\<lparr>b_obj := obj\<rparr>)"
        using step BLoop by (auto simp: bench_Execute_def split: option.splits)
      have "b_ok RUNS (b_pc s' u) (oidle u obj) (ended u obj)" for u
        using ok [of u] True BLoop call_law [OF g obj] others [OF _ obj, of t i u] by (cases "u = t") (auto simp: s')
      then show ?thesis using good_step [OF g obj] bm_ok_upd [OF bm, of t "BIn i"] BLoop by (simp add: bench_inv_def s')
    next
      case False
      then have "s' = bgo t BReturned s" using step BLoop by (simp add: bench_Execute_def)
      then show ?thesis using go [of BReturned] ok [of t] BLoop False by auto
    qed
  next
    case (BIn i)
    show ?thesis
    proof (cases "oidle t (b_obj s)")
      case True
      then have "s' = bgo t (BLoop (i + 1)) s" using step BIn by (simp add: bench_Execute_def)
      then show ?thesis using go [of "BLoop (i + 1)"] ok [of t] BIn True by auto
    next
      case False
      then obtain obj where obj: "ostep (run t) (b_obj s) = Some obj" and s': "s' = s\<lparr>b_obj := obj\<rparr>"
        using step BIn by (auto simp: bench_Execute_def split: option.splits)
      have "b_ok RUNS (b_pc s u) (oidle u obj) (ended u obj)" for u
        using ok [of u] BIn False run_law [OF g False obj] others [OF _ obj, of t i u] by (cases "u = t") auto
      then show ?thesis using good_step [OF g obj] bm by (simp add: bench_inv_def s')
    qed
  qed (use step go ok [of t] in \<open>auto simp: bench_Execute_def split: if_splits\<close>)
qed

lemma bench_main_inv:
  assumes inv: "bench_inv good oidle ended N RUNS s" and step: "bench_main N s = Some s'"
  shows "bench_inv good oidle ended N RUNS s'"
proof -
  have bm: "bm_ok N (b_main s) (b_pc s)" and ok: "\<And>u. b_ok RUNS (b_pc s u) (oidle u (b_obj s)) (ended u (b_obj s))"
    using inv by (simp_all add: bench_inv_def)
  show ?thesis
  proof (cases "b_main s")
    case (BmCreate k)
    show ?thesis
    proof (cases "k < N")
      case True
      have s': "s' = bgo k BStart (s\<lparr>b_main := BmCreate (k + 1)\<rparr>)" using step BmCreate True by (simp add: bench_main_def)
      have "b_pc s k = BNew" using bm BmCreate by simp
      then show ?thesis using inv ok [of k] bm BmCreate True by (auto simp: bench_inv_def s')
    next
      case False
      then show ?thesis using inv step bm BmCreate by (auto simp: bench_inv_def bench_main_def)
    qed
  next
    case (BmJoin k)
    then show ?thesis using inv step bm by (auto simp: bench_inv_def bench_main_def less_Suc_eq split: if_splits)
  qed (use step in \<open>simp add: bench_main_def\<close>)
qed

lemma bench_step_inv:
  assumes inv: "bench_inv good oidle ended N RUNS s" and step: "bench_step ostep oidle call run N RUNS e s = Some s'"
  shows "bench_inv good oidle ended N RUNS s'"
proof (cases e)
  case BMain
  then have "bench_main N s = Some s'" using step by (simp add: bench_step_def)
  then show ?thesis by (rule bench_main_inv [OF inv])
next
  case (BThread t)
  then have "bench_Execute ostep oidle call run N RUNS t s = Some s'" using step by (simp add: bench_step_def)
  then show ?thesis by (rule bench_thread_inv [OF inv])
qed

end

sublocale counted_object \<subseteq> bench: machine "bench_step ostep oidle call run N RUNS" "bench_inv good oidle ended N RUNS" for N RUNS
  by unfold_locales (rule bench_step_inv)

context counted_object
begin

lemma bench_init_inv: "good obj \<Longrightarrow> (\<And>t. oidle t obj \<and> ended t obj = 0) \<Longrightarrow> bench_inv good oidle ended N RUNS (bench_init obj)"
  by (simp add: bench_inv_def bench_init_def)

text \<open>When \<open>main\<close> returns, every thread has done \<open>RUNS\<close> operations, and nobody is inside.\<close>

lemma bench_total:
  assumes "good obj" and "\<And>t. oidle t obj \<and> ended t obj = 0"
    and "mrun (bench_step ostep oidle call run N RUNS) es (bench_init obj) = Some s" and "b_main s = BmReturned"
  shows "good (b_obj s) \<and> oidle t (b_obj s) \<and> ended t (b_obj s) = (if t < N then RUNS else 0)"
proof -
  have "bench_inv good oidle ended N RUNS s" using bench.good_run [OF bench_init_inv assms(3)] assms(1,2) by blast
  then have g: "good (b_obj s)" and bm: "bm_ok N BmReturned (b_pc s)" and ok: "b_ok RUNS (b_pc s t) (oidle t (b_obj s)) (ended t (b_obj s))"
    using assms(4) by (simp_all add: bench_inv_def)
  then show ?thesis using ok by (cases "t < N") auto
qed

end

section \<open>The three objects\<close>

interpretation oyama_counts: counted_object "oyama_step ou_fetchAndMultiply N" "\<lambda>s. oy_inv ou_fetchAndMultiply obj s"
    "\<lambda>t s. oy_idle (oy_pc s t)" "\<lambda>t i. OyCall t (of_nat t)" OyRun "\<lambda>t s. length (oy_hist s t)" for N obj
proof unfold_locales
  show "\<not> oy_idle (oy_pc s' t) \<and> length (oy_hist s' t) = length (oy_hist s t)"
    if "oyama_step ou_fetchAndMultiply N (OyCall t (of_nat t)) s = Some s'" for s s' t N
    using that by (auto simp: oy_prepare_def split: if_splits)
  show "length (oy_hist s' t) = length (oy_hist s t) + (if oy_idle (oy_pc s' t) then 1 else 0)"
    if "\<not> oy_idle (oy_pc s t)" "oyama_step ou_fetchAndMultiply N (OyRun t) s = Some s'" for s s' t N
    using that by (cases "oy_pc s t") (auto split: if_splits option.splits prod.splits)
  show "oy_idle (oy_pc s' u) = oy_idle (oy_pc s u) \<and> length (oy_hist s' u) = length (oy_hist s u)"
    if "e = OyCall t (of_nat t) \<or> e = OyRun t" "oyama_step ou_fetchAndMultiply N e s = Some s'" "u \<noteq> t" for e t s s' u N
  proof (cases "e = OyRun t")
    case True
    then show ?thesis using that(2,3) by (cases "oy_pc s t") (auto split: if_splits option.splits prod.splits)
  next
    case False
    then show ?thesis using that by (auto simp: oy_prepare_def split: if_splits)
  qed
qed

interpretation lf_counts: counted_object lf_step lf_good "\<lambda>t s. lf_idle (lf_pc s t)" "\<lambda>t i. LfCall t (of_nat (t + 1))" LfRun
    "\<lambda>t s. count_list (lf_log s) t"
proof unfold_locales
  show "\<not> lf_idle (lf_pc s' t) \<and> count_list (lf_log s') t = count_list (lf_log s) t"
    if "lf_step (LfCall t (of_nat (t + 1))) s = Some s'" for s s' t
    using that by (auto split: if_splits)
  show "count_list (lf_log s') t = count_list (lf_log s) t + (if lf_idle (lf_pc s' t) then 1 else 0)"
    if "\<not> lf_idle (lf_pc s t)" "lf_step (LfRun t) s = Some s'" for s s' t
    using that by (cases "lf_pc s t") (auto simp: Let_def split: if_splits)
  show "lf_idle (lf_pc s' u) = lf_idle (lf_pc s u) \<and> count_list (lf_log s') u = count_list (lf_log s) u"
    if "e = LfCall t (of_nat (t + 1)) \<or> e = LfRun t" "lf_step e s = Some s'" "u \<noteq> t" for e t s s' u
  proof (cases "e = LfRun t")
    case True
    then show ?thesis using that(2,3) by (cases "lf_pc s t") (auto simp: Let_def split: if_splits)
  next
    case False
    then show ?thesis using that by (auto split: if_splits)
  qed
qed

text \<open>An operation under the lock has ended when \<open>clhUnlock\<close> returned.\<close>

definition uo_ended :: "tid \<Rightarrow> uobject \<Rightarrow> nat" where
  "uo_ended t s = count_list (uo_log s) t - (if uo_pc s t = UoUnlock then 1 else 0)"

definition uo_logged :: "uobject \<Rightarrow> bool" where
  "uo_logged s \<longleftrightarrow> (\<forall>t. uo_pc s t = UoUnlock \<longrightarrow> 0 < count_list (uo_log s) t)"

lemma uo_logged_step: "uo_logged s \<Longrightarrow> uo_step e s = Some s' \<Longrightarrow> uo_logged s'"
proof (cases e)
  case (UoCall t)
  then show "uo_logged s \<Longrightarrow> uo_step e s = Some s' \<Longrightarrow> uo_logged s'"
    by (auto simp: uo_logged_def simp del: clh_step.simps split: if_splits option.splits)
next
  case (UoRun t)
  then show "uo_logged s \<Longrightarrow> uo_step e s = Some s' \<Longrightarrow> uo_logged s'"
    by (cases "uo_pc s t") (auto simp: uo_logged_def split: if_splits option.splits)
qed

interpretation luo_counts: counted_object uo_step "\<lambda>s. uo_good n s \<and> uo_logged s" "\<lambda>t s. uo_idle (uo_pc s t)" "\<lambda>t i. UoCall t" UoRun
    uo_ended for n
proof unfold_locales
  show "uo_good n s' \<and> uo_logged s'" if "uo_good n s \<and> uo_logged s" "uo_step e s = Some s'" for s e s' n
    using that uo_step_good uo_logged_step by blast
  show "\<not> uo_idle (uo_pc s' t) \<and> uo_ended t s' = uo_ended t s" if "uo_step (UoCall t) s = Some s'" for s s' t
    using that by (cases "uo_pc s t") (auto simp: uo_ended_def simp del: clh_step.simps split: if_splits option.splits)
  show "uo_ended t s' = uo_ended t s + (if uo_idle (uo_pc s' t) then 1 else 0)"
    if "uo_good n s \<and> uo_logged s" "\<not> uo_idle (uo_pc s t)" "uo_step (UoRun t) s = Some s'" for s s' t n
    using that by (cases "uo_pc s t") (auto simp: uo_ended_def uo_logged_def split: if_splits option.splits)
  show "uo_idle (uo_pc s' u) = uo_idle (uo_pc s u) \<and> uo_ended u s' = uo_ended u s"
    if "e = UoCall t \<or> e = UoRun t" "uo_step e s = Some s'" "u \<noteq> t" for e t s s' u
  proof (cases "e = UoRun t")
    case True
    then show ?thesis using that(2,3) by (cases "uo_pc s t") (auto simp: uo_ended_def split: if_splits option.splits)
  next
    case False
    then show ?thesis using that by (auto simp: uo_ended_def simp del: clh_step.simps split: if_splits option.splits)
  qed
qed

section \<open>What the programs compute\<close>

lemma total_length:
  assumes "\<And>t. count_list xs t = (if t < N then R else 0)"
  shows "length xs = N * (R :: nat)"
proof -
  have "set xs \<subseteq> {..<N}"
  proof
    fix x
    assume "x \<in> set xs"
    then have "count_list xs x \<noteq> 0" by (simp add: count_list_0_iff)
    then show "x \<in> {..<N}" using assms [of x] by (cases "x < N") auto
  qed
  then have "length xs = (\<Sum>t<N. count_list xs t)" by (simp add: sum_count_set)
  also have "\<dots> = (\<Sum>t<N. R)" by (rule sum.cong) (use assms in auto)
  finally show ?thesis by simp
qed

lemma entries_length: "length (cc_entries t l) = count_list (map fst l) t"
  by (induction l) (auto simp: cc_entries_def)

text \<open>Two threads, two operations each.\<close>

definition demo_bench :: "nat \<Rightarrow> bev list" where
  "demo_bench k = replicate 3 BMain @ [BThread 0, BThread 1] @ replicate k (BThread 0) @ replicate k (BThread 1) @ replicate 3 BMain"

lemma demo_oyama_bench_run:
  "map_option (\<lambda>s. (b_main s, oy_object (b_obj s))) (mrun (oyama_bench 2 2) (demo_bench 28) (bench_init (oyamaLockInit (ou_init 1)))) =
    Some (BmReturned, [4])"
  by code_simp

lemma demo_lf_bench_run:
  "map_option (\<lambda>s. (b_main s, lf_sp (b_obj s))) (mrun (lf_bench 2 2) (demo_bench 10) (bench_init lf_init)) = Some (BmReturned, 5)"
  by code_simp

lemma demo_luo_bench_run:
  "map_option (\<lambda>s. (b_main s, uo_critical (b_obj s))) (mrun (luo_bench 2 2) (demo_bench 28) (bench_init (uo_init 1))) =
    Some (BmReturned, [4])"
  by code_simp

lemma oyama_bench_total:
  assumes "mrun (oyama_bench N RUNS) es (bench_init (oyamaLockInit (ou_init (Suc k)))) = Some s" and "b_main s = BmReturned"
  shows "oy_object (b_obj s) = replicate (Suc k) (of_nat (N * RUNS))"
proof -
  let ?o = "oyamaLockInit (ou_init (Suc k))"
  have "oy_idle (oy_pc ?o t) \<and> length (oy_hist ?o t) = 0" for t by (simp add: oyamaLockInit_def)
  from oyama_counts.bench_total [OF oyama_init_inv this assms(1) [unfolded oyama_bench_def] assms(2)]
  have fin: "oy_inv ou_fetchAndMultiply (ou_init (Suc k)) (b_obj s)"
    "oy_idle (oy_pc (b_obj s) t)" "length (oy_hist (b_obj s) t) = (if t < N then RUNS else 0)" for t by blast+
  obtain xs where ac: "oy_account (b_obj s) xs" and le: "cc_legal ou_fetchAndMultiply (ou_init (Suc k)) (oy_log (b_obj s)) (oy_object (b_obj s))"
    using fin(1) by (auto simp: oy_inv_def)
  have "cc_entries t (oy_log (b_obj s)) = oy_hist (b_obj s) t" for t
    using ac fin(2) [of t] by (cases "oy_pc (b_obj s) t") (auto simp: oy_account_def)
  then have "count_list (map fst (oy_log (b_obj s))) t = (if t < N then RUNS else 0)" for t
    using fin(3) [of t] by (simp flip: entries_length)
  then have "length (map fst (oy_log (b_obj s))) = N * RUNS" by (rule total_length)
  then show ?thesis using legal_count [OF le] by (simp add: ou_init_def del: of_nat_mult)
qed

lemma lf_bench_total:
  assumes "mrun (lf_bench N RUNS) es (bench_init lf_init) = Some s" and "b_main s = BmReturned"
  shows "lf_sp (b_obj s) = 1 + of_nat (N * RUNS)"
proof -
  have "lf_idle (lf_pc lf_init t) \<and> count_list (lf_log lf_init) t = 0" for t by (simp add: lf_init_def)
  from lf_counts.bench_total [OF lf_init_good this assms(1) [unfolded lf_bench_def] assms(2)]
  have fin: "lf_good (b_obj s)" "count_list (lf_log (b_obj s)) t = (if t < N then RUNS else 0)" for t by blast+
  then have "length (lf_log (b_obj s)) = N * RUNS" by (intro total_length)
  then show ?thesis using fin(1) by (simp add: lf_good_def del: of_nat_mult)
qed

lemma luo_bench_total:
  assumes "mrun (luo_bench N RUNS) es (bench_init (uo_init n)) = Some s" and "b_main s = BmReturned"
  shows "uo_critical (b_obj s) = replicate n (of_nat (N * RUNS))"
proof -
  have good: "uo_good n (uo_init n) \<and> uo_logged (uo_init n)" using uo_init_good [of n] by (simp add: uo_logged_def uo_init_def)
  have "uo_idle (uo_pc (uo_init n) t) \<and> uo_ended t (uo_init n) = 0" for t by (simp add: uo_init_def uo_ended_def)
  from luo_counts.bench_total [OF good this assms(1) [unfolded luo_bench_def] assms(2)]
  have fin: "uo_good n (b_obj s)" "uo_idle (uo_pc (b_obj s) t)" "uo_ended t (b_obj s) = (if t < N then RUNS else 0)" for t by blast+
  have "count_list (uo_log (b_obj s)) t = (if t < N then RUNS else 0)" for t
    using fin(2,3) [of t] by (auto simp: uo_ended_def split: if_splits)
  then have len: "length (uo_log (b_obj s)) = N * RUNS" by (rule total_length)
  obtain k where inv: "uo_inv n (b_obj s) k" using fin(1) by (auto simp: uo_good_def)
  have "\<not> uo_in (uo_pc (b_obj s) t)" for t using fin(2) [of t] by (cases "uo_pc (b_obj s) t") auto
  then have "k = 0" using inv by (simp add: uo_inv_def)
  then show ?thesis using inv len by (intro nth_equalityI) (simp_all add: uo_inv_def uo_counted_def del: of_nat_mult)
qed

text \<open>
  The programs \<open>oyamauobject.c\<close>, \<open>lfobject.c\<close> and \<open>locksuobject.c\<close> count: when \<open>main\<close> returns, with any number
  of threads and under every interleaving of their accesses, each word of the object has been counted up
  exactly \<open>N_THREADS * RUNS\<close> times, modulo the width of the word. So no operation is lost and none is applied
  twice, by Oyama's lock, by the compare-and-swap loop and by the CLH lock.
\<close>

lemma benchmarks_count:
  "(mrun (oyama_bench N RUNS) es (bench_init (oyamaLockInit (ou_init (Suc k)))) = Some s1 \<and> b_main s1 = BmReturned \<longrightarrow>
      oy_object (b_obj s1) = replicate (Suc k) (of_nat (N * RUNS))) \<and>
   (mrun (lf_bench N RUNS) fs (bench_init lf_init) = Some s2 \<and> b_main s2 = BmReturned \<longrightarrow>
      lf_sp (b_obj s2) = 1 + of_nat (N * RUNS)) \<and>
   (mrun (luo_bench N RUNS) gs (bench_init (uo_init n)) = Some s3 \<and> b_main s3 = BmReturned \<longrightarrow>
      uo_critical (b_obj s3) = replicate n (of_nat (N * RUNS)))"
  using oyama_bench_total lf_bench_total luo_bench_total by blast

lemma benchmarks_count_witness:
  "\<exists>s1 s2 s3. mrun (oyama_bench 2 2) (demo_bench 28) (bench_init (oyamaLockInit (ou_init 1))) = Some s1 \<and> oy_object (b_obj s1) = [4] \<and>
     mrun (lf_bench 2 2) (demo_bench 10) (bench_init lf_init) = Some s2 \<and> lf_sp (b_obj s2) = 5 \<and>
     mrun (luo_bench 2 2) (demo_bench 28) (bench_init (uo_init 1)) = Some s3 \<and> uo_critical (b_obj s3) = [4]"
proof -
  obtain s1 where s1: "mrun (oyama_bench 2 2) (demo_bench 28) (bench_init (oyamaLockInit (ou_init (Suc 0)))) = Some s1" "b_main s1 = BmReturned"
    using demo_oyama_bench_run by auto
  obtain s2 where s2: "mrun (lf_bench 2 2) (demo_bench 10) (bench_init lf_init) = Some s2" "b_main s2 = BmReturned"
    using demo_lf_bench_run by auto
  obtain s3 where s3: "mrun (luo_bench 2 2) (demo_bench 28) (bench_init (uo_init 1)) = Some s3" "b_main s3 = BmReturned"
    using demo_luo_bench_run by auto
  show ?thesis
    using benchmarks_count [of 2 2 "demo_bench 28" 0 s1 "demo_bench 10" s2 "demo_bench 28" 1 s3] s1 s2 s3 by auto
qed

end
