(* ===== verification/Learn.thy ===== *)
theory Learn
  imports Serial Fifo
begin

text \<open>
  The exercises of \<open>learn\<close>: the shared counter of \<open>learncas.c\<close> and the queue of \<open>learnqueue.c\<close> with its test
  \<open>test_queue.c\<close>. The queue is right for one thread; two threads can make it read freed memory or a null
  pointer.
\<close>

section \<open>learncas.c\<close>

datatype lcpc =
    LcNew
  | LcLoop nat         \<comment> \<open>\<open>i < NINCREMENTS\<close>, and \<open>tmp = *loc\<close>\<close>
  | LcCas nat i32      \<comment> \<open>the compare-and-swap with \<open>tmp\<close>\<close>
  | LcExit

text \<open>\<open>main\<close>: creating thread \<open>k\<close>, joining thread \<open>k\<close>, or what it prints.\<close>

datatype lcmain = LcCreate nat | LcJoin nat | LcPrinted bool

record lcas =
  lc_shmem :: i32
  lc_pc :: "tid \<Rightarrow> lcpc"
  lc_main :: lcmain

text \<open>\<open>main\<close> does not initialise \<open>shmem\<close>.\<close>

definition lc_init :: "i32 \<Rightarrow> lcas" where
  "lc_init shmem = \<lparr>lc_shmem = shmem, lc_pc = (\<lambda>t. LcNew), lc_main = LcCreate 0\<rparr>"

definition lc_thread :: "nat \<Rightarrow> tid \<Rightarrow> lcas \<Rightarrow> lcas option" where
  "lc_thread NINCREMENTS t s =
     (case lc_pc s t of
        LcLoop i \<Rightarrow> Some (s\<lparr>lc_pc := (lc_pc s)(t := if i < NINCREMENTS then LcCas i (lc_shmem s) else LcExit)\<rparr>)
      | LcCas i tmp \<Rightarrow>
          Some (if lc_shmem s = tmp then s\<lparr>lc_shmem := tmp + 1, lc_pc := (lc_pc s)(t := LcLoop (i + 1))\<rparr>
                else s\<lparr>lc_pc := (lc_pc s)(t := LcCas i (lc_shmem s))\<rparr>)
      | _ \<Rightarrow> None)"

definition lc_main_step :: "nat \<Rightarrow> nat \<Rightarrow> lcas \<Rightarrow> lcas option" where
  "lc_main_step NTHREADS NINCREMENTS s =
     (case lc_main s of
        LcCreate k \<Rightarrow>
          Some (if k < NTHREADS then s\<lparr>lc_pc := (lc_pc s)(k := LcLoop 0), lc_main := LcCreate (k + 1)\<rparr> else s\<lparr>lc_main := LcJoin 0\<rparr>)
      | LcJoin k \<Rightarrow>
          if k < NTHREADS then (if lc_pc s k = LcExit then Some (s\<lparr>lc_main := LcJoin (k + 1)\<rparr>) else None)
          else Some (s\<lparr>lc_main := LcPrinted (lc_shmem s = of_nat (NTHREADS * NINCREMENTS))\<rparr>)
      | LcPrinted b \<Rightarrow> None)"

datatype lcev = LcMain | LcThread tid

fun lc_step :: "nat \<Rightarrow> nat \<Rightarrow> lcev \<Rightarrow> lcas \<Rightarrow> lcas option" where
  "lc_step N R LcMain s = lc_main_step N R s"
| "lc_step N R (LcThread t) s = lc_thread R t s"

text \<open>The increments a thread has made.\<close>

fun lc_made :: "nat \<Rightarrow> lcpc \<Rightarrow> nat" where
  "lc_made R LcNew = 0"
| "lc_made R (LcLoop i) = i"
| "lc_made R (LcCas i tmp) = i"
| "lc_made R LcExit = R"

fun lc_at_most :: "nat \<Rightarrow> lcpc \<Rightarrow> bool" where
  "lc_at_most R (LcLoop i) = (i \<le> R)"
| "lc_at_most R (LcCas i tmp) = (i < R)"
| "lc_at_most R _ = True"

fun lcm_ok :: "nat \<Rightarrow> nat \<Rightarrow> i32 \<Rightarrow> lcmain \<Rightarrow> (tid \<Rightarrow> lcpc) \<Rightarrow> bool" where
  "lcm_ok N R x (LcCreate k) pcs = (k \<le> N \<and> (\<forall>t \<ge> k. pcs t = LcNew))"
| "lcm_ok N R x (LcJoin k) pcs = (\<forall>t < k. pcs t = LcExit)"
| "lcm_ok N R x (LcPrinted b) pcs = ((\<forall>t < N. pcs t = LcExit) \<and> b = (x = of_nat (N * R)))"

definition lc_inv :: "nat \<Rightarrow> nat \<Rightarrow> i32 \<Rightarrow> lcas \<Rightarrow> bool" where
  "lc_inv N R x0 s \<longleftrightarrow> lc_shmem s = x0 + of_nat (\<Sum>t<N. lc_made R (lc_pc s t)) \<and> (\<forall>t. lc_at_most R (lc_pc s t)) \<and>
     lcm_ok N R (lc_shmem s) (lc_main s) (lc_pc s) \<and> (\<forall>t \<ge> N. lc_pc s t = LcNew)"

lemma made_sum:
  "t < (N :: nat) \<Longrightarrow> (\<Sum>u<N. f ((g(t := p)) u)) + f (g t) = (\<Sum>u<N. f (g u)) + (f p :: nat)"
proof -
  assume "t < (N :: nat)"
  then have t: "t \<in> {..<N}" by simp
  have "(\<Sum>u \<in> {..<N} - {t}. f ((g(t := p)) u)) = (\<Sum>u \<in> {..<N} - {t}. f (g u))" by (rule sum.cong) auto
  then show ?thesis using t sum.remove [of "{..<N}" t "\<lambda>u. f ((g(t := p)) u)"] sum.remove [of "{..<N}" t "\<lambda>u. f (g u)"]
    by simp
qed

lemma lcm_ok_upd:
  "lcm_ok N R x m pcs \<Longrightarrow> pcs t \<noteq> LcNew \<Longrightarrow> pcs t \<noteq> LcExit \<Longrightarrow> t < N \<Longrightarrow> lcm_ok N R y m (pcs(t := p))"
  by (cases m) auto

lemma lc_thread_inv:
  assumes inv: "lc_inv N R x0 s" and run: "lc_thread R t s = Some s'"
  shows "lc_inv N R x0 s'"
proof -
  have sh: "lc_shmem s = x0 + of_nat (\<Sum>t<N. lc_made R (lc_pc s t))" and am: "\<And>u. lc_at_most R (lc_pc s u)"
    and m: "lcm_ok N R (lc_shmem s) (lc_main s) (lc_pc s)" and out: "\<And>u. N \<le> u \<Longrightarrow> lc_pc s u = LcNew"
    using inv by (auto simp: lc_inv_def)
  have pc: "lc_pc s t \<noteq> LcNew" "lc_pc s t \<noteq> LcExit" using run by (auto simp: lc_thread_def)
  have t: "t < N" using out [of t] pc(1) by (cases "t < N") auto
  have mk: "lc_inv N R x0 s'" if "lc_pc s' = (lc_pc s)(t := p)" "lc_main s' = lc_main s" "lc_at_most R p"
    "lc_shmem s' + of_nat (lc_made R (lc_pc s t)) = lc_shmem s + of_nat (lc_made R p)" for p
  proof -
    have "of_nat ((\<Sum>u<N. lc_made R (lc_pc s' u)) + lc_made R (lc_pc s t)) = (of_nat ((\<Sum>u<N. lc_made R (lc_pc s u)) + lc_made R p) :: i32)"
      unfolding that(1) made_sum [OF t] ..
    then have "lc_shmem s' + of_nat (lc_made R (lc_pc s t)) =
        x0 + of_nat (\<Sum>u<N. lc_made R (lc_pc s' u)) + of_nat (lc_made R (lc_pc s t))"
      unfolding that(4) sh of_nat_add by (metis (no_types, lifting) add.assoc)
    then show ?thesis using that am out m t pc lcm_ok_upd [OF m pc t, of "lc_shmem s'" p] by (auto simp: lc_inv_def)
  qed
  show ?thesis
  proof (cases "lc_pc s t")
    case (LcLoop i)
    then have "i \<le> R" using am [of t] by simp
    then show ?thesis using run LcLoop
      by (intro mk [of "if i < R then LcCas i (lc_shmem s) else LcExit"]) (auto simp: lc_thread_def)
  next
    case (LcCas i tmp)
    then have i: "i < R" using am [of t] by simp
    show ?thesis
    proof (cases "lc_shmem s = tmp")
      case True
      then show ?thesis using run LcCas i by (intro mk [of "LcLoop (i + 1)"]) (auto simp: lc_thread_def algebra_simps)
    next
      case False
      then show ?thesis using run LcCas i by (intro mk [of "LcCas i (lc_shmem s)"]) (auto simp: lc_thread_def)
    qed
  qed (use pc in auto)
qed

lemma lc_main_inv:
  assumes inv: "lc_inv N R x0 s" and run: "lc_main_step N R s = Some s'"
  shows "lc_inv N R x0 s'"
proof (cases "lc_main s")
  case (LcCreate k)
  show ?thesis
  proof (cases "k < N")
    case True
    have s': "s' = s\<lparr>lc_pc := (lc_pc s)(k := LcLoop 0), lc_main := LcCreate (k + 1)\<rparr>"
      using run LcCreate True by (simp add: lc_main_step_def)
    have "lc_pc s k = LcNew" using inv LcCreate by (auto simp: lc_inv_def)
    then have "(\<Sum>u<N. lc_made R (lc_pc s' u)) = (\<Sum>u<N. lc_made R (lc_pc s u))"
      using made_sum [OF True, of "lc_made R" "lc_pc s" "LcLoop 0"] by (simp add: s')
    moreover have "lc_shmem s' = lc_shmem s" by (simp add: s')
    ultimately have "lc_shmem s' = x0 + of_nat (\<Sum>u<N. lc_made R (lc_pc s' u))" using inv by (simp only: lc_inv_def)
    moreover have "lcm_ok N R (lc_shmem s') (lc_main s') (lc_pc s')" using inv LcCreate True by (auto simp: lc_inv_def s')
    ultimately show ?thesis using inv True unfolding lc_inv_def by (auto simp: s' simp del: of_nat_sum)
  next
    case False
    then show ?thesis using inv run LcCreate by (auto simp: lc_inv_def lc_main_step_def)
  qed
next
  case (LcJoin k)
  then show ?thesis using inv run by (auto simp: lc_inv_def lc_main_step_def less_Suc_eq split: if_splits)
qed (use run in \<open>simp add: lc_main_step_def\<close>)

lemma lc_step_inv:
  assumes inv: "lc_inv N R x0 s" and run: "lc_step N R e s = Some s'"
  shows "lc_inv N R x0 s'"
proof (cases e)
  case LcMain
  then show ?thesis using lc_main_inv [OF inv, of s'] run by simp
next
  case (LcThread t)
  then show ?thesis using lc_thread_inv [OF inv, of t s'] run by simp
qed

interpretation lcm: machine "lc_step N R" "lc_inv N R x0" for N R x0
  by unfold_locales (rule lc_step_inv)

lemma lc_init_inv: "lc_inv N R x (lc_init x)"
  by (simp add: lc_inv_def lc_init_def)

text \<open>Two threads, one increment each, interleaved so that one compare-and-swap fails.\<close>

definition demo_lc :: "lcev list" where
  "demo_lc = [LcMain, LcMain, LcMain, LcThread 0, LcThread 1] @ replicate 2 (LcThread 0) @ replicate 3 (LcThread 1) @ replicate 3 LcMain"

lemma demo_lc_run:
  "map_option (\<lambda>s. (lc_shmem s, lc_main s)) (mrun (lc_step 2 1) demo_lc (lc_init 0)) = Some (2, LcPrinted True)"
  by code_simp

text \<open>
  \<open>learncas.c\<close>: when \<open>main\<close> has joined all threads, the variable holds the initial value plus
  \<open>NTHREADS * NINCREMENTS\<close>, modulo \<open>2 ^ 32\<close>, under every interleaving: no increment is lost. But \<open>main\<close> never
  sets the initial value, and reports success exactly when it happens to be 0.
\<close>

lemma learncas_total:
  assumes "mrun (lc_step N R) es (lc_init x) = Some s" and "lc_main s = LcPrinted b"
  shows "lc_shmem s = x + of_nat (N * R) \<and> (b \<longleftrightarrow> x = 0)"
proof -
  have inv: "lc_inv N R x s" by (rule lcm.good_run [OF lc_init_inv assms(1)])
  then have pc: "\<forall>t < N. lc_pc s t = LcExit" and b: "b = (lc_shmem s = of_nat (N * R))" using assms(2) by (simp_all add: lc_inv_def)
  have "(\<Sum>t<N. lc_made R (lc_pc s t)) = (\<Sum>t<N. R)" by (rule sum.cong) (use pc in auto)
  then have "lc_shmem s = x + of_nat (N * R)" using inv by (simp add: lc_inv_def del: of_nat_sum)
  then show ?thesis using b by simp
qed

lemma learncas_total_witness:
  "\<exists>s. mrun (lc_step 2 1) demo_lc (lc_init 0) = Some s \<and> lc_shmem s = 2"
proof -
  obtain s where s: "mrun (lc_step 2 1) demo_lc (lc_init 0) = Some s" "lc_main s = LcPrinted True" using demo_lc_run by auto
  show ?thesis using learncas_total [OF s] s(1) by simp
qed

section \<open>learnqueue.c\<close>

text \<open>
  A pointer is \<open>None\<close> for \<open>NULL\<close>. A step that follows a null pointer or one to a freed node, or frees one
  twice, sets \<open>ln_bad\<close>, and nothing happens afterwards.
\<close>

record lnode =
  ln_val :: i32
  ln_next :: "nat option"

datatype lnpc =
    LnIdle
  | LnETail nat                              \<comment> \<open>\<open>tail = queue->tail\<close>, with \<open>node\<close>\<close>
  | LnENext nat "nat option"                 \<comment> \<open>\<open>next = tail->next\<close>\<close>
  | LnECheck nat "nat option" "nat option"   \<comment> \<open>\<open>tail == queue->tail\<close>\<close>
  | LnECas nat "nat option"                  \<comment> \<open>\<open>__CAS(&tail->next, next, node)\<close>, \<open>next\<close> being null\<close>
  | LnEHelp nat "nat option" "nat option"    \<comment> \<open>\<open>__CAS(&queue->tail, tail, next)\<close>\<close>
  | LnESwing nat "nat option"                \<comment> \<open>\<open>__CAS(&queue->tail, tail, node)\<close>\<close>
  | LnDHead                                  \<comment> \<open>\<open>head = queue->head\<close>\<close>
  | LnDTail "nat option"                     \<comment> \<open>\<open>tail = queue->tail\<close>\<close>
  | LnDNext "nat option" "nat option"        \<comment> \<open>\<open>next = head->next\<close>\<close>
  | LnDCheck "nat option" "nat option" "nat option"  \<comment> \<open>\<open>head == queue->head\<close>, \<open>head == tail\<close>\<close>
  | LnDAgain "nat option" "nat option" "nat option"  \<comment> \<open>\<open>head->next == NULL\<close>, a second read\<close>
  | LnDHelp "nat option" "nat option"        \<comment> \<open>\<open>__CAS(&queue->tail, tail, next)\<close>\<close>
  | LnDValue "nat option" "nat option"       \<comment> \<open>\<open>*val = next->val\<close>\<close>
  | LnDCas "nat option" "nat option" i32     \<comment> \<open>\<open>__CAS(&queue->head, head, next)\<close>\<close>
  | LnDFree "nat option" i32                 \<comment> \<open>\<open>free(head)\<close>\<close>
  | LnRet int "i32 option"                   \<comment> \<open>the result, and \<open>*val\<close>\<close>

record lnqueue =
  ln_heap :: "nat \<Rightarrow> lnode"
  ln_fresh :: nat
  ln_freed :: "nat \<Rightarrow> bool"
  ln_head :: "nat option"
  ln_tail :: "nat option"
  ln_pc :: "tid \<Rightarrow> lnpc"
  ln_bad :: bool

text \<open>\<open>init_queue\<close>, with the outcome of its two calls of \<open>malloc\<close>.\<close>

definition ln_init_queue :: "bool \<Rightarrow> bool \<Rightarrow> i32 \<Rightarrow> lnqueue option" where
  "ln_init_queue node_ok queue_ok init_val =
     (if \<not> node_ok \<or> \<not> queue_ok then None
      else Some \<lparr>ln_heap = (\<lambda>a. \<lparr>ln_val = init_val, ln_next = None\<rparr>), ln_fresh = 1, ln_freed = (\<lambda>a. False),
        ln_head = Some 0, ln_tail = Some 0, ln_pc = (\<lambda>t. LnIdle), ln_bad = False\<rparr>)"

definition lngo :: "tid \<Rightarrow> lnpc \<Rightarrow> lnqueue \<Rightarrow> lnqueue" where
  "lngo t p s = s\<lparr>ln_pc := (ln_pc s)(t := p)\<rparr>"

definition ln_deref :: "nat option \<Rightarrow> lnqueue \<Rightarrow> nat option" where
  "ln_deref p s = (case p of None \<Rightarrow> None | Some a \<Rightarrow> if ln_freed s a then None else Some a)"

definition ln_follow :: "nat option \<Rightarrow> lnqueue \<Rightarrow> (nat \<Rightarrow> lnqueue) \<Rightarrow> lnqueue" where
  "ln_follow p s k = (case ln_deref p s of None \<Rightarrow> s\<lparr>ln_bad := True\<rparr> | Some a \<Rightarrow> k a)"

fun ln_enqueue_pc :: "lnpc \<Rightarrow> tid \<Rightarrow> lnqueue \<Rightarrow> lnqueue option" where
  "ln_enqueue_pc (LnETail node) t s = Some (lngo t (LnENext node (ln_tail s)) s)"
| "ln_enqueue_pc (LnENext node ta) t s =
     Some (ln_follow ta s (\<lambda>a. lngo t (LnECheck node ta (ln_next (ln_heap s a))) s))"
| "ln_enqueue_pc (LnECheck node ta nx) t s =
     Some (lngo t (if ta = ln_tail s then if nx = None then LnECas node ta else LnEHelp node ta nx else LnETail node) s)"
| "ln_enqueue_pc (LnECas node ta) t s =
     Some (ln_follow ta s (\<lambda>a. if ln_next (ln_heap s a) = None
       then lngo t (LnESwing node ta) (s\<lparr>ln_heap := (ln_heap s)(a := (ln_heap s a)\<lparr>ln_next := Some node\<rparr>)\<rparr>)
       else lngo t (LnETail node) s))"
| "ln_enqueue_pc (LnEHelp node ta nx) t s =
     Some (lngo t (LnETail node) (if ln_tail s = ta then s\<lparr>ln_tail := nx\<rparr> else s))"
| "ln_enqueue_pc (LnESwing node ta) t s =
     Some (lngo t (LnRet 0 None) (if ln_tail s = ta then s\<lparr>ln_tail := Some node\<rparr> else s))"
| "ln_enqueue_pc _ t s = None"

fun ln_dequeue_pc :: "lnpc \<Rightarrow> tid \<Rightarrow> lnqueue \<Rightarrow> lnqueue option" where
  "ln_dequeue_pc LnDHead t s = Some (lngo t (LnDTail (ln_head s)) s)"
| "ln_dequeue_pc (LnDTail ha) t s = Some (lngo t (LnDNext ha (ln_tail s)) s)"
| "ln_dequeue_pc (LnDNext ha ta) t s =
     Some (ln_follow ha s (\<lambda>a. lngo t (LnDCheck ha ta (ln_next (ln_heap s a))) s))"
| "ln_dequeue_pc (LnDCheck ha ta nx) t s =
     Some (lngo t (if ha = ln_head s then if ha = ta then LnDAgain ha ta nx else LnDValue ha nx else LnDHead) s)"
| "ln_dequeue_pc (LnDAgain ha ta nx) t s =
     Some (ln_follow ha s (\<lambda>a. lngo t (if ln_next (ln_heap s a) = None then LnRet (-1) None else LnDHelp ta nx) s))"
| "ln_dequeue_pc (LnDHelp ta nx) t s =
     Some (lngo t LnDHead (if ln_tail s = ta then s\<lparr>ln_tail := nx\<rparr> else s))"
| "ln_dequeue_pc (LnDValue ha nx) t s =
     Some (ln_follow nx s (\<lambda>a. lngo t (LnDCas ha nx (ln_val (ln_heap s a))) s))"
| "ln_dequeue_pc (LnDCas ha nx v) t s =
     Some (if ln_head s = ha then lngo t (LnDFree ha v) (s\<lparr>ln_head := nx\<rparr>) else lngo t LnDHead s)"
| "ln_dequeue_pc (LnDFree ha v) t s =
     Some (ln_follow ha s (\<lambda>a. lngo t (LnRet 0 (Some v)) (s\<lparr>ln_freed := (ln_freed s)(a := True)\<rparr>)))"
| "ln_dequeue_pc _ t s = None"

fun ln_idle :: "lnpc \<Rightarrow> bool" where
  "ln_idle LnIdle = True"
| "ln_idle (LnRet c v) = True"
| "ln_idle _ = False"

text \<open>\<open>LnEnq t v ok\<close> is a call of \<open>enqueue\<close> whose \<open>malloc\<close> succeeds or not.\<close>

datatype lnev = LnEnq tid i32 bool | LnDeq tid | LnRun tid

fun ln_step :: "lnev \<Rightarrow> lnqueue \<Rightarrow> lnqueue option" where
  "ln_step (LnEnq t v ok) s =
     (if ln_bad s \<or> \<not> ln_idle (ln_pc s t) then None
      else if \<not> ok then Some (lngo t (LnRet (-1) None) s)
      else let node = ln_fresh s in
        Some (lngo t (LnETail node) (s\<lparr>ln_fresh := node + 1, ln_heap := (ln_heap s)(node := \<lparr>ln_val = v, ln_next = None\<rparr>)\<rparr>)))"
| "ln_step (LnDeq t) s = (if ln_bad s \<or> \<not> ln_idle (ln_pc s t) then None else Some (lngo t LnDHead s))"
| "ln_step (LnRun t) s =
     (if ln_bad s then None
      else case ln_enqueue_pc (ln_pc s t) t s of Some s' \<Rightarrow> Some s' | None \<Rightarrow> ln_dequeue_pc (ln_pc s t) t s)"

text \<open>A thread that runs alone until its call returns, \<open>k\<close> steps at most.\<close>

fun ln_finish :: "nat \<Rightarrow> tid \<Rightarrow> lnqueue \<Rightarrow> lnqueue option" where
  "ln_finish 0 t s = (if \<not> ln_bad s \<and> ln_idle (ln_pc s t) then Some s else None)"
| "ln_finish (Suc k) t s =
     (if ln_bad s then None else if ln_idle (ln_pc s t) then Some s
      else case ln_step (LnRun t) s of None \<Rightarrow> None | Some s' \<Rightarrow> ln_finish k t s')"

definition ln_enqueue :: "i32 \<Rightarrow> lnqueue \<Rightarrow> lnqueue option" where
  "ln_enqueue v s = (case ln_step (LnEnq 0 v True) s of None \<Rightarrow> None | Some s' \<Rightarrow> ln_finish 5 0 s')"

definition ln_dequeue :: "lnqueue \<Rightarrow> (i32 option \<times> lnqueue) option" where
  "ln_dequeue s =
     (case ln_step (LnDeq 0) s of None \<Rightarrow> None
      | Some s' \<Rightarrow> (case ln_finish 7 0 s' of None \<Rightarrow> None
        | Some u \<Rightarrow> (case ln_pc u 0 of LnRet c r \<Rightarrow> Some (if c = 0 then r else None, u) | _ \<Rightarrow> None)))"

text \<open>\<open>delete_queue\<close> frees the sentinel of an empty queue, and otherwise nothing; and whether it freed the queue.\<close>

definition ln_delete_queue :: "lnqueue \<Rightarrow> bool \<times> lnqueue" where
  "ln_delete_queue s =
     (case ln_deref (ln_head s) s of
        None \<Rightarrow> (False, s\<lparr>ln_bad := True\<rparr>)
      | Some a \<Rightarrow> if ln_head s = ln_tail s \<and> ln_next (ln_heap s a) = None then (True, s\<lparr>ln_freed := (ln_freed s)(a := True)\<rparr>) else (False, s))"

lemma lngo_simps [simp]:
  "ln_heap (lngo t p s) = ln_heap s" "ln_fresh (lngo t p s) = ln_fresh s" "ln_freed (lngo t p s) = ln_freed s"
  "ln_head (lngo t p s) = ln_head s" "ln_tail (lngo t p s) = ln_tail s" "ln_pc (lngo t p s) = (ln_pc s)(t := p)"
  "ln_bad (lngo t p s) = ln_bad s"
  by (simp_all add: lngo_def)

subsection \<open>One thread\<close>

definition ln_rep :: "lnqueue \<Rightarrow> nat \<Rightarrow> nat list \<Rightarrow> bool" where
  "ln_rep s h ns \<longleftrightarrow> \<not> ln_bad s \<and> ln_idle (ln_pc s 0) \<and> ln_head s = Some h \<and> ln_tail s = Some (last (h # ns)) \<and>
     node_chain (\<lambda>a. ln_next (ln_heap s a)) h ns \<and> distinct (h # ns) \<and> (\<forall>a \<in> set (h # ns). a < ln_fresh s \<and> \<not> ln_freed s a) \<and>
     (\<forall>a \<ge> ln_fresh s. \<not> ln_freed s a)"

definition ln_good :: "lnqueue \<Rightarrow> bool" where
  "ln_good s \<longleftrightarrow> (\<exists>h ns. ln_rep s h ns)"

fun ln_walk :: "nat \<Rightarrow> (nat \<Rightarrow> lnode) \<Rightarrow> nat \<Rightarrow> nat list" where
  "ln_walk 0 hp p = []"
| "ln_walk (Suc k) hp p = (case ln_next (hp p) of None \<Rightarrow> [] | Some n \<Rightarrow> n # ln_walk k hp n)"

definition ln_content :: "lnqueue \<Rightarrow> i32 list" where
  "ln_content s = (case ln_head s of None \<Rightarrow> [] | Some h \<Rightarrow> map (\<lambda>a. ln_val (ln_heap s a)) (ln_walk (ln_fresh s) (ln_heap s) h))"

lemma ln_walk_chain: "node_chain (\<lambda>a. ln_next (hp a)) p ns \<Longrightarrow> length ns \<le> k \<Longrightarrow> ln_walk k hp p = ns"
proof (induction ns arbitrary: p k)
  case Nil
  then show ?case by (cases k) auto
next
  case (Cons n ns)
  then show ?case by (cases k) auto
qed

lemma ln_content_eq:
  assumes "ln_rep s h ns"
  shows "ln_content s = map (\<lambda>a. ln_val (ln_heap s a)) ns"
proof -
  have "distinct ns" "set ns \<subseteq> {..<ln_fresh s}" using assms by (auto simp: ln_rep_def)
  then have "length ns \<le> ln_fresh s" using card_mono [of "{..<ln_fresh s}" "set ns"] distinct_card [of ns] by simp
  then show ?thesis using assms ln_walk_chain [of "ln_heap s" h ns] by (simp add: ln_rep_def ln_content_def)
qed

lemma chain_last: "node_chain nx p ns \<Longrightarrow> nx (last (p # ns)) = None"
  by (induction ns arbitrary: p) auto

lemma ln_enqueue_rep:
  assumes rep: "ln_rep s h ns"
  shows "\<exists>s'. ln_enqueue v s = Some s' \<and> ln_rep s' h (ns @ [ln_fresh s]) \<and> ln_content s' = ln_content s @ [v]"
proof -
  let ?n = "ln_fresh s" and ?l = "last (h # ns)"
  let ?nx = "\<lambda>a. ln_next (ln_heap s a)"
  have r: "\<not> ln_bad s" "ln_idle (ln_pc s 0)" "ln_head s = Some h" "ln_tail s = Some ?l" "node_chain ?nx h ns"
    "distinct (h # ns)" and mem: "\<And>a. a \<in> set (h # ns) \<Longrightarrow> a < ?n \<and> \<not> ln_freed s a" and new: "\<And>a. ?n \<le> a \<Longrightarrow> \<not> ln_freed s a"
    using rep by (auto simp: ln_rep_def)
  have lin: "?l \<in> set (h # ns)" by (rule last_in_set) simp
  then have l: "?l < ?n" "\<not> ln_freed s ?l" "?l \<noteq> ?n" using mem by fastforce+
  have nin: "?n \<notin> set (h # ns)" using mem by fastforce
  have nil: "?nx ?l = None" by (rule chain_last [OF r(5)])
  define hp where "hp = (ln_heap s)(?n := \<lparr>ln_val = v, ln_next = None\<rparr>, ?l := (ln_heap s ?l)\<lparr>ln_next := Some ?n\<rparr>)"
  define s' where "s' = lngo 0 (LnRet 0 None) (s\<lparr>ln_fresh := ?n + 1, ln_heap := hp, ln_tail := Some ?n\<rparr>)"
  have "ln_enqueue v s = Some s'"
    using r l nil by (simp add: ln_enqueue_def s'_def hp_def ln_follow_def ln_deref_def lngo_def Let_def numeral_eq_Suc fun_upd_twist)
  moreover have nx: "(\<lambda>a. ln_next (hp a)) = ?nx(?n := None, ?l := Some ?n)" using l(3) by (auto simp: hp_def fun_eq_iff)
  have memS: "a = h \<or> a \<in> set ns \<Longrightarrow> a < Suc ?n" for a using mem [of a] by auto
  have rep': "ln_rep s' h (ns @ [?n])"
    using nx node_chain_snoc [OF r(5,6) nin] r mem new nin by (auto simp: ln_rep_def s'_def memS)
  moreover have "ln_content s' = ln_content s @ [v]"
    using ln_content_eq [OF rep'] ln_content_eq [OF rep] nin l(3) by (auto simp: s'_def hp_def)
  ultimately show ?thesis by blast
qed

lemma ln_dequeue_empty:
  assumes rep: "ln_rep s h []"
  shows "\<exists>s'. ln_dequeue s = Some (None, s') \<and> ln_rep s' h []"
  using assms by (simp add: ln_dequeue_def ln_rep_def ln_follow_def ln_deref_def numeral_eq_Suc)

lemma ln_dequeue_rep:
  assumes rep: "ln_rep s h (n # ns)"
  shows "\<exists>s'. ln_dequeue s = Some (Some (ln_val (ln_heap s n)), s') \<and> ln_rep s' n ns \<and> ln_heap s' = ln_heap s"
proof -
  define s' where "s' = lngo 0 (LnRet 0 (Some (ln_val (ln_heap s n)))) (s\<lparr>ln_head := Some n, ln_freed := (ln_freed s)(h := True)\<rparr>)"
  have ne: "h \<noteq> last (n # ns)" using rep last_in_set [of "n # ns"] by (auto simp: ln_rep_def simp del: last.simps)
  have "ln_dequeue s = Some (Some (ln_val (ln_heap s n)), s')"
    using rep ne by (simp add: ln_dequeue_def ln_rep_def ln_follow_def ln_deref_def lngo_def numeral_eq_Suc s'_def)
  moreover have "ln_rep s' n ns" using rep by (auto simp: ln_rep_def s'_def)
  ultimately show ?thesis by (auto simp: s'_def)
qed

text \<open>For one thread the queue meets the contract of a sequential queue.\<close>

interpretation learnq: fifo ln_good ln_content ln_enqueue ln_dequeue
proof
  show "\<exists>t. ln_enqueue v s = Some t \<and> ln_good t \<and> ln_content t = ln_content s @ [v]" if "ln_good s" for s v
    using that ln_enqueue_rep by (fastforce simp: ln_good_def)
  show "\<exists>t. ln_dequeue s = Some (Some v, t) \<and> ln_good t \<and> ln_content t = vs"
    if good: "ln_good s" and ct: "ln_content s = v # vs" for s v vs
  proof -
    obtain h ms where rep: "ln_rep s h ms" using good by (auto simp: ln_good_def)
    then obtain n ns where ms: "ms = n # ns" "v = ln_val (ln_heap s n)" "vs = map (\<lambda>a. ln_val (ln_heap s a)) ns"
      using ln_content_eq [OF rep] ct by (cases ms) auto
    obtain s' where s': "ln_dequeue s = Some (Some v, s')" "ln_rep s' n ns" "ln_heap s' = ln_heap s"
      using ln_dequeue_rep [of s h n ns] rep ms by auto
    then show ?thesis using ln_content_eq [OF s'(2)] ms(3) by (auto simp: ln_good_def)
  qed
  show "\<exists>t. ln_dequeue s = Some (None, t) \<and> ln_good t \<and> ln_content t = []" if good: "ln_good s" and ct: "ln_content s = []" for s
  proof -
    obtain h ms where rep: "ln_rep s h ms" using good by (auto simp: ln_good_def)
    then have ms: "ms = []" using ln_content_eq [OF rep] ct by simp
    obtain s' where s': "ln_dequeue s = Some (None, s')" "ln_rep s' h []" using ln_dequeue_empty [of s h] rep ms by auto
    then show ?thesis using ln_content_eq [OF s'(2)] by (auto simp: ln_good_def)
  qed
qed

text \<open>
  Used by one thread, \<open>learnqueue.c\<close> is a first-in first-out queue: any sequence of calls returns, without
  a memory error, what the sequential queue answers.
\<close>

lemma learnqueue_fifo:
  assumes "ln_init_queue True True v = Some q"
  shows "\<exists>s. impl_run ln_enqueue ln_dequeue ops q = Some (fifo_answers ops [], s) \<and> \<not> ln_bad s \<and> ln_content s = fifo_content ops []"
proof -
  have rep: "ln_rep q 0 []" using assms by (auto simp: ln_init_queue_def ln_rep_def)
  then have "ln_good q" "ln_content q = []" using ln_content_eq [OF rep] by (auto simp: ln_good_def)
  from learnq.impl_run_fifo [OF this(1), of ops] this(2) show ?thesis by (auto simp: ln_good_def ln_rep_def)
qed

lemma learnqueue_fifo_witness:
  "\<exists>q s. ln_init_queue True True 0 = Some q \<and>
     impl_run ln_enqueue ln_dequeue [PutOp 5, PutOp 6, GetOp, GetOp, GetOp] q = Some ([None, None, Some (Some 5), Some (Some 6), Some None], s)"
proof -
  obtain q where q: "ln_init_queue True True 0 = Some q" by (auto simp: ln_init_queue_def)
  from learnqueue_fifo [OF q, of "[PutOp 5, PutOp 6, GetOp, GetOp, GetOp]"] q show ?thesis by auto
qed

subsection \<open>\<open>test_queue.c\<close>\<close>

text \<open>The lines \<open>test_queue_simple\<close> prints: an enqueue with its result, a node, a dequeue with \<open>r\<close> and its result.\<close>

datatype test_line = EnqLine i32 int | NodeLine i32 | DeqLine i32 int

fun test_enqueues :: "i32 list \<Rightarrow> lnqueue \<Rightarrow> (test_line list \<times> lnqueue) option" where
  "test_enqueues [] q = Some ([], q)"
| "test_enqueues (i # is) q =
     (case ln_enqueue i q of None \<Rightarrow> None
      | Some q' \<Rightarrow> map_option (\<lambda>(ls, u). (EnqLine i 0 # ls, u)) (test_enqueues is q'))"

fun test_dequeues :: "nat \<Rightarrow> i32 \<Rightarrow> lnqueue \<Rightarrow> (test_line list \<times> lnqueue) option" where
  "test_dequeues 0 r q = Some ([], q)"
| "test_dequeues (Suc k) r q =
     (case ln_dequeue q of None \<Rightarrow> None
      | Some (a, q') \<Rightarrow> map_option (\<lambda>(ls, u). ((case a of Some v \<Rightarrow> DeqLine v 0 | None \<Rightarrow> DeqLine r (-1)) # ls, u)) (test_dequeues k (-2) q'))"

definition test_nodes :: "lnqueue \<Rightarrow> test_line list" where
  "test_nodes q =
     (case ln_head q of None \<Rightarrow> [] | Some h \<Rightarrow> map (\<lambda>a. NodeLine (ln_val (ln_heap q a))) (h # ln_walk (ln_fresh q) (ln_heap q) h))"

text \<open>The lines, and whether \<open>delete_queue\<close> freed the queue; \<open>r\<close> is not initialised.\<close>

definition test_queue_simple :: "i32 \<Rightarrow> (test_line list \<times> bool \<times> lnqueue) option" where
  "test_queue_simple r =
     (case ln_init_queue True True 0 of None \<Rightarrow> None
      | Some q \<Rightarrow> (case test_enqueues (map of_nat [1..<10]) q of None \<Rightarrow> None
        | Some (enqs, q') \<Rightarrow> (case test_dequeues 10 r q' of None \<Rightarrow> None
          | Some (deqs, q'') \<Rightarrow> Some (enqs @ test_nodes q' @ deqs, ln_delete_queue q''))))"

lemma test_queue_output:
  "map_option (\<lambda>(ls, freed, q). (ls, freed, map (ln_freed q) [0..<ln_fresh q])) (test_queue_simple r) =
     Some (map (\<lambda>i. EnqLine (of_nat i) 0) [1..<10] @ map (\<lambda>i. NodeLine (of_nat i)) [0..<10] @
       map (\<lambda>i. DeqLine (of_nat i) 0) [1..<10] @ [DeqLine (-2) (-1)], True, replicate 10 True)"
  by code_simp

subsection \<open>Two threads\<close>

text \<open>
  Two threads break \<open>learnqueue.c\<close>. A dequeue that read \<open>head->next\<close> as null, and then reads it a second
  time after another thread has linked a node, swings \<open>queue->tail\<close> to the null pointer it read first, and
  the next enqueue follows it. And a dequeue frees the old head while another thread is about to read it.
\<close>

lemma learnqueue_unsafe:
  assumes "ln_init_queue True True v0 = Some q" and "t \<noteq> u"
  shows "(\<exists>es s s'. mrun ln_step es q = Some s \<and> \<not> ln_bad s \<and> ln_tail s = None \<and>
        mrun ln_step [LnEnq t w True, LnRun t, LnRun t] s = Some s' \<and> ln_bad s') \<and>
    (\<exists>es s s' a. mrun ln_step es q = Some s \<and> \<not> ln_bad s \<and> ln_freed s a \<and> ln_pc s u = LnDNext (Some a) (Some a) \<and>
        ln_step (LnRun u) s = Some s' \<and> ln_bad s')"
proof (rule conjI)
  let ?init = "\<lparr>ln_heap = (\<lambda>a. \<lparr>ln_val = v0, ln_next = None\<rparr>), ln_fresh = 1, ln_freed = (\<lambda>a. False),
        ln_head = Some 0, ln_tail = Some 0, ln_pc = (\<lambda>t. LnIdle), ln_bad = False\<rparr>"
  have q: "q = ?init" using assms(1) by (simp add: ln_init_queue_def)
  let ?d = "[LnDeq u, LnRun u, LnRun u]" and ?e = "[LnEnq t w True, LnRun t, LnRun t, LnRun t, LnRun t]"
  obtain s1 where s1: "mrun ln_step ?d q = Some s1" "s1 = q\<lparr>ln_pc := (ln_pc q)(u := LnDNext (Some 0) (Some 0))\<rparr>"
    by (simp add: q lngo_def)
  show "\<exists>es s s'. mrun ln_step es q = Some s \<and> \<not> ln_bad s \<and> ln_tail s = None \<and>
        mrun ln_step [LnEnq t w True, LnRun t, LnRun t] s = Some s' \<and> ln_bad s'"
  proof -
    obtain s2 where s2: "mrun ln_step [LnRun u, LnRun u] s1 = Some s2" "\<not> ln_bad s2" "ln_fresh s2 = 1" "ln_tail s2 = Some 0"
      "ln_freed s2 = (\<lambda>a. False)" "ln_next (ln_heap s2 0) = None" "ln_pc s2 = (\<lambda>x. LnIdle)(u := LnDAgain (Some 0) (Some 0) None)"
      by (simp add: s1(2) q lngo_def ln_follow_def ln_deref_def)
    obtain s3 where s3: "mrun ln_step ?e s2 = Some s3" "\<not> ln_bad s3" "ln_tail s3 = Some 0" "ln_freed s3 = (\<lambda>a. False)"
      "ln_next (ln_heap s3 0) = Some 1" "ln_pc s3 u = LnDAgain (Some 0) (Some 0) None" "ln_pc s3 t = LnESwing 1 (Some 0)"
      using assms(2) s2(2-) by (simp add: lngo_def ln_follow_def ln_deref_def Let_def)
    obtain s4 where s4: "mrun ln_step [LnRun u, LnRun u, LnRun t] s3 = Some s4" "\<not> ln_bad s4" "ln_tail s4 = None" "ln_idle (ln_pc s4 t)"
      using assms(2) s3(2-) by (simp add: ln_follow_def ln_deref_def)
    obtain s5 where s5: "mrun ln_step [LnEnq t w True, LnRun t, LnRun t] s4 = Some s5" "ln_bad s5"
      using s4(2-) by (simp add: ln_follow_def ln_deref_def Let_def)
    have "mrun ln_step (?d @ [LnRun u, LnRun u] @ ?e @ [LnRun u, LnRun u, LnRun t]) q = Some s4"
      using s1(1) s2(1) s3(1) s4(1) by (simp only: mrun_append option.case)
    then show ?thesis using s4(2,3) s5 by blast
  qed
  show "\<exists>es s s' a. mrun ln_step es q = Some s \<and> \<not> ln_bad s \<and> ln_freed s a \<and> ln_pc s u = LnDNext (Some a) (Some a) \<and>
        ln_step (LnRun u) s = Some s' \<and> ln_bad s'"
  proof -
    obtain s2 where s2: "mrun ln_step (?e @ [LnRun t]) s1 = Some s2" "\<not> ln_bad s2" "ln_head s2 = Some 0" "ln_tail s2 = Some 1"
      "ln_freed s2 = (\<lambda>a. False)" "ln_next (ln_heap s2 0) = Some 1" "ln_idle (ln_pc s2 t)" "ln_pc s2 u = LnDNext (Some 0) (Some 0)"
      using assms(2) by (simp add: s1(2) q lngo_def ln_follow_def ln_deref_def Let_def)
    let ?f = "[LnDeq t, LnRun t, LnRun t, LnRun t, LnRun t, LnRun t, LnRun t, LnRun t]"
    obtain s3 where s3: "mrun ln_step ?f s2 = Some s3" "\<not> ln_bad s3" "ln_freed s3 0" "ln_pc s3 u = LnDNext (Some 0) (Some 0)"
      using assms(2) s2(2-) by (simp add: ln_follow_def ln_deref_def)
    obtain s4 where s4: "ln_step (LnRun u) s3 = Some s4" "ln_bad s4" using s3(2-) by (simp add: ln_follow_def ln_deref_def)
    have "mrun ln_step (?d @ (?e @ [LnRun t]) @ ?f) q = Some s3" using s1(1) s2(1) s3(1) by (simp only: mrun_append option.case)
    then show ?thesis using s3(2-) s4 by blast
  qed
qed

lemma learnqueue_unsafe_witness:
  "\<exists>q es s. ln_init_queue True True 0 = Some q \<and> mrun ln_step es q = Some s \<and> ln_tail s = None"
proof -
  obtain q where q: "ln_init_queue True True 0 = Some q" by (auto simp: ln_init_queue_def)
  have "(0 :: tid) \<noteq> 1" by simp
  from learnqueue_unsafe [OF q this] q show ?thesis by blast
qed

end
