(* ===== verification/HSynch.thy ===== *)
theory HSynch
  imports CcSynch LocksQueue
begin

text \<open>
  The combining lock of \<open>synch1.0.1/hsynch.h\<close> (H-Synch): a queue of operations per cluster of threads, as in
  CC-Synch, and a central CLH lock that the combiner of a cluster holds while it combines. The steps of
  the queues and of the lock interleave.
\<close>

section \<open>The lock\<close>

text \<open>
  Where a thread is beside its place in the queue of its cluster: outside the central lock, in
  \<open>clhLock\<close>, in the loop that combines, or in \<open>clhUnlock\<close>.
\<close>

datatype hphase = HOut | HLock | HIn | HUnlock

text \<open>
  \<open>hs_cluster i\<close> holds \<open>Tail[i]\<close>, the nodes that circulate in the cluster, and the local variables of its
  threads. \<open>hs_object\<close> is what \<open>sfunc\<close> works on; \<open>hs_log\<close> records its applications in their order, and no
  step reads it.
\<close>

record 'o hsynch =
  hs_cluster :: "nat \<Rightarrow> 'o ccsynch"
  hs_central :: clh
  hs_phase :: "tid \<Rightarrow> hphase"
  hs_object :: 'o
  hs_log :: "(tid \<times> i32 \<times> i32 \<times> i32) list"

definition HSYNCH_NCLUSTERS :: nat where
  "HSYNCH_NCLUSTERS = 2"

definition HSynchStructInit :: "(nat \<Rightarrow> nat \<Rightarrow> i32) \<Rightarrow> (nat \<Rightarrow> nat \<Rightarrow> i32) \<Rightarrow> 'o \<Rightarrow> 'o hsynch" where
  "HSynchStructInit g i obj =
     \<lparr>hs_cluster = (\<lambda>k. cc_lock_init (g k) (i k) obj), hs_central = clhLockInit, hs_phase = (\<lambda>t. HOut), hs_object = obj,
      hs_log = []\<rparr>"

definition cluster_of :: "tid \<Rightarrow> nat" where
  "cluster_of t = t mod HSYNCH_NCLUSTERS"

abbreviation hs_pc :: "'o hsynch \<Rightarrow> tid \<Rightarrow> ccpc" where
  "hs_pc s t \<equiv> cc_pc (hs_cluster s (cluster_of t)) t"

definition hsgo :: "tid \<Rightarrow> hphase \<Rightarrow> clh \<Rightarrow> 'o hsynch \<Rightarrow> 'o hsynch" where
  "hsgo t p l s = s\<lparr>hs_phase := (hs_phase s)(t := p), hs_central := l\<rparr>"

text \<open>What a step in the queue of cluster \<open>i\<close> leaves behind.\<close>

definition hs_put :: "nat \<Rightarrow> 'o hsynch \<Rightarrow> 'o ccsynch \<Rightarrow> 'o hsynch" where
  "hs_put i s c = s\<lparr>hs_cluster := (hs_cluster s)(i := c), hs_object := cc_object c,
     hs_log := hs_log s @ drop (length (cc_log (hs_cluster s i))) (cc_log c)\<rparr>"

fun at_test :: "ccpc \<Rightarrow> bool" where
  "at_test (CcTest k c p) = True"
| "at_test _ = False"

fun at_ret :: "ccpc \<Rightarrow> bool" where
  "at_ret (CcRet c) = True"
| "at_ret _ = False"

text \<open>
  \<open>applyOp\<close>: the accesses to the queue are those of CC-Synch; between the test of \<open>completed\<close> and the loop
  stands the call of \<open>clhLock\<close>, between the loop and \<open>return\<close> that of \<open>clhUnlock\<close>.
\<close>

definition hs_queue :: "(i32 \<Rightarrow> i32 \<Rightarrow> 'o \<Rightarrow> i32 \<times> 'o) \<Rightarrow> nat \<Rightarrow> tid \<Rightarrow> 'o hsynch \<Rightarrow> 'o hsynch option" where
  "hs_queue sfunc n t s =
     map_option (hs_put (cluster_of t) s)
       (cc_applyOp sfunc n (hs_pc s t) t ((hs_cluster s (cluster_of t))\<lparr>cc_object := hs_object s\<rparr>))"

definition hs_applyOp :: "(i32 \<Rightarrow> i32 \<Rightarrow> 'o \<Rightarrow> i32 \<times> 'o) \<Rightarrow> nat \<Rightarrow> tid \<Rightarrow> 'o hsynch \<Rightarrow> 'o hsynch option" where
  "hs_applyOp sfunc n t s =
     (let l = hs_central s
      in case hs_phase s t of
           HOut \<Rightarrow> if at_test (hs_pc s t) then map_option (\<lambda>l'. hsgo t HLock l' s) (clh_step (Acquire t) l)
                   else hs_queue sfunc n t s
         | HLock \<Rightarrow> map_option (\<lambda>l'. hsgo t (if cl_pc l t = CIn then HIn else HLock) l' s) (lock_turn t l)
         | HIn \<Rightarrow> if at_ret (hs_pc s t) then map_option (\<lambda>l'. hsgo t HUnlock l' s) (unlock_turn t l)
                  else hs_queue sfunc n t s
         | HUnlock \<Rightarrow> map_option (\<lambda>l'. hsgo t (if cl_pc l t = CIdle then HOut else HUnlock) l' s) (unlock_turn t l))"

fun hs_step :: "(i32 \<Rightarrow> i32 \<Rightarrow> 'o \<Rightarrow> i32 \<times> 'o) \<Rightarrow> nat \<Rightarrow> ccev \<Rightarrow> 'o hsynch \<Rightarrow> 'o hsynch option" where
  "hs_step sfunc n (CcCall t arg k) s =
     (let i = cluster_of t
      in map_option (\<lambda>c. s\<lparr>hs_cluster := (hs_cluster s)(i := c)\<rparr>) (cc_step sfunc n (CcCall t arg k) (hs_cluster s i)))"
| "hs_step sfunc n (CcRun t) s = hs_applyOp sfunc n t s"

section \<open>The invariant\<close>

text \<open>The queue of a cluster does not depend on the object.\<close>

lemma cc_chain_object [simp]: "cc_chain (c\<lparr>cc_object := x\<rparr>) p ts = cc_chain c p ts"
  by (induction ts arbitrary: p) (auto split: option.splits)

lemma cc_ok_object [simp]: "cc_ok b (c\<lparr>cc_object := x\<rparr>) p ts t q = cc_ok b c p ts t q"
  by (cases q) (simp_all add: carries_def cc_waits_def cc_nodes_def)

lemma cc_core_object [simp]: "cc_core b (c\<lparr>cc_object := x\<rparr>) = cc_core b c"
  by (simp add: cc_core_def cc_shape_def cc_account_def cc_nodes_def)

lemma cc_applyOp_frame:
  assumes "cc_applyOp f n (cc_pc c t) t c = Some c'" and "u \<noteq> t"
  shows "cc_pc c' u = cc_pc c u" "cc_hist c' u = cc_hist c u"
  using assms by (cases "cc_pc c t"; auto split: prod.splits option.splits if_splits)+

lemma cc_applyOp_next:
  assumes "cc_applyOp f n (cc_pc c t) t c = Some c'"
  shows "combining (cc_pc c t) \<Longrightarrow> combining (cc_pc c' t) \<or> at_ret (cc_pc c' t)"
    and "\<not> combining (cc_pc c t) \<Longrightarrow> \<not> combining (cc_pc c' t) \<or> at_test (cc_pc c' t)"
  using assms by (cases "cc_pc c t"; auto split: prod.splits option.splits if_splits)+

fun hs_fits :: "hphase \<Rightarrow> ccpc \<Rightarrow> cpc \<Rightarrow> bool" where
  "hs_fits HOut p l \<longleftrightarrow> (combining p \<longrightarrow> at_test p) \<and> l = CIdle"
| "hs_fits HLock p l \<longleftrightarrow> at_test p \<and> (l = CSet \<or> l = CSwap \<or> l = CSpin \<or> l = CIn)"
| "hs_fits HIn p l \<longleftrightarrow> (combining p \<or> at_ret p) \<and> l = CIn"
| "hs_fits HUnlock p l \<longleftrightarrow> at_ret p \<and> (l = CClear \<or> l = CRecycle \<or> l = CIdle)"

definition hs_core :: "int \<Rightarrow> 'o hsynch \<Rightarrow> bool" where
  "hs_core b s \<longleftrightarrow> (\<forall>i. cc_core b (hs_cluster s i)) \<and> clh_good (hs_central s) \<and>
     (\<forall>t. hs_fits (hs_phase s t) (hs_pc s t) (cl_pc (hs_central s) t)) \<and>
     (\<forall>t i. i \<noteq> cluster_of t \<longrightarrow> cc_pc (hs_cluster s i) t = CcIdle \<and> cc_hist (hs_cluster s i) t = []) \<and>
     (\<forall>t. cc_entries t (hs_log s) = cc_entries t (cc_log (hs_cluster s (cluster_of t))))"

definition hs_inv :: "(i32 \<Rightarrow> i32 \<Rightarrow> 'o \<Rightarrow> i32 \<times> 'o) \<Rightarrow> int \<Rightarrow> 'o \<Rightarrow> 'o hsynch \<Rightarrow> bool" where
  "hs_inv f b obj s \<longleftrightarrow> hs_core b s \<and> cc_legal f obj (hs_log s) (hs_object s)"

lemma hs_coreD:
  assumes "hs_core b s"
  shows "cc_core b (hs_cluster s i)" "clh_good (hs_central s)"
    "hs_fits (hs_phase s t) (hs_pc s t) (cl_pc (hs_central s) t)"
    "i \<noteq> cluster_of t \<Longrightarrow> cc_pc (hs_cluster s i) t = CcIdle" "i \<noteq> cluster_of t \<Longrightarrow> cc_hist (hs_cluster s i) t = []"
    "cc_entries t (hs_log s) = cc_entries t (cc_log (hs_cluster s (cluster_of t)))"
  using assms by (simp_all add: hs_core_def)

lemma hs_coreI:
  assumes "\<And>i. cc_core b (hs_cluster s i)" "clh_good (hs_central s)"
    "\<And>t. hs_fits (hs_phase s t) (hs_pc s t) (cl_pc (hs_central s) t)"
    "\<And>t i. i \<noteq> cluster_of t \<Longrightarrow> cc_pc (hs_cluster s i) t = CcIdle \<and> cc_hist (hs_cluster s i) t = []"
    "\<And>t. cc_entries t (hs_log s) = cc_entries t (cc_log (hs_cluster s (cluster_of t)))"
  shows "hs_core b s"
  using assms by (simp add: hs_core_def)

lemma at_test_combining: "at_test p \<Longrightarrow> combining p"
  by (cases p) auto

text \<open>A step in the central lock.\<close>

lemma clh_others_pc: "clh_step e l = Some l' \<Longrightarrow> lockev_tid e \<noteq> u \<Longrightarrow> cl_pc l' u = cl_pc l u"
  using clh_run_pc by (cases e) (auto split: if_splits option.splits)

lemma lock_turn_pc:
  assumes "lock_turn t l = Some l'"
  shows "u \<noteq> t \<Longrightarrow> cl_pc l' u = cl_pc l u"
    and "cl_pc l t = CIn \<Longrightarrow> cl_pc l' t = CIn"
    and "cl_pc l t = CSet \<or> cl_pc l t = CSwap \<or> cl_pc l t = CSpin \<Longrightarrow> cl_pc l' t = CSwap \<or> cl_pc l' t = CSpin \<or> cl_pc l' t = CIn"
  using assms clh_run_pc by (auto simp: lock_turn_def split: if_splits option.splits)

lemma unlock_turn_pc:
  assumes "unlock_turn t l = Some l'"
  shows "u \<noteq> t \<Longrightarrow> cl_pc l' u = cl_pc l u" and "cl_pc l t = CIn \<Longrightarrow> cl_pc l' t = CClear"
    and "cl_pc l t = CIdle \<Longrightarrow> cl_pc l' t = CIdle"
    and "cl_pc l t = CClear \<or> cl_pc l t = CRecycle \<Longrightarrow> cl_pc l' t = CRecycle \<or> cl_pc l' t = CIdle"
  using assms clh_run_pc by (auto simp: unlock_turn_def split: if_splits option.splits)

lemma unlock_turn_clh_good: "clh_good l \<Longrightarrow> unlock_turn t l = Some l' \<Longrightarrow> clh_good l'"
  by (auto simp del: clh_step.simps simp: unlock_turn_def intro: clh_step_good split: if_splits)

lemma hs_lock_core:
  assumes inv: "hs_core b s" and good: "clh_good l" and others: "\<And>u. u \<noteq> t \<Longrightarrow> cl_pc l u = cl_pc (hs_central s) u"
    and fits: "hs_fits p (hs_pc s t) (cl_pc l t)"
  shows "hs_core b (hsgo t p l s)"
  by (rule hs_coreI) (use hs_coreD [OF inv] good others fits in \<open>auto simp: hsgo_def\<close>)

text \<open>A step in the queue of the cluster.\<close>

lemma hs_queue_core:
  assumes inv: "hs_core (CCSIM_HELP_BOUND n) s" and run: "hs_queue f n t s = Some s'"
    and phase: "hs_phase s t = HOut \<and> \<not> at_test (hs_pc s t) \<or> hs_phase s t = HIn \<and> \<not> at_ret (hs_pc s t)"
  shows "hs_core (CCSIM_HELP_BOUND n) s'"
proof -
  define i where "i = cluster_of t"
  define c where "c = (hs_cluster s i)\<lparr>cc_object := hs_object s\<rparr>"
  have pct: "cc_pc c t = hs_pc s t" by (simp add: c_def i_def)
  obtain c' where c': "cc_applyOp f n (cc_pc c t) t c = Some c'" and s': "s' = hs_put i s c'"
    using run by (auto simp: hs_queue_def c_def i_def)
  have core: "cc_core (CCSIM_HELP_BOUND n) c'"
    by (rule cc_applyOp_core [OF _ c']) (use hs_coreD(1) [OF inv] in \<open>simp add: c_def\<close>)
  have fr: "u \<noteq> t \<Longrightarrow> cc_pc c' u = cc_pc (hs_cluster s i) u" "u \<noteq> t \<Longrightarrow> cc_hist c' u = cc_hist (hs_cluster s i) u" for u
    using cc_applyOp_frame [OF c'] by (simp_all add: c_def)
  have away: "cc_pc c' u = CcIdle \<and> cc_hist c' u = []" if "i \<noteq> cluster_of u" for u
    using hs_coreD(4,5) [OF inv that] fr [of u] that by (auto simp: i_def)
  have log: "cc_log c' = cc_log (hs_cluster s i) \<and> cc_object c' = hs_object s \<or>
    (\<exists>u a k. cc_log c' = cc_log (hs_cluster s i) @ [(u, a, k, fst (f a k (hs_object s)))] \<and> cc_object c' = snd (f a k (hs_object s)))"
    using cc_applyOp_log [OF c'] by (simp add: c_def)
  have none: "cc_entries u (cc_log c') = []" if "i \<noteq> cluster_of u" for u
    using core away [OF that] by (auto simp: cc_core_def cc_account_def)
  show ?thesis
  proof (rule hs_coreI)
    fix u
    have "cc_entries u (hs_log s') = cc_entries u (hs_log s) \<and> cc_entries u (cc_log c') = cc_entries u (cc_log (hs_cluster s i)) \<or>
      i = cluster_of u \<and> (\<exists>e. cc_entries u (hs_log s') = cc_entries u (hs_log s) @ e \<and>
        cc_entries u (cc_log c') = cc_entries u (cc_log (hs_cluster s i)) @ e)"
      using log none [of u] by (auto simp: s' hs_put_def cc_entries_snoc)
    then show "cc_entries u (hs_log s') = cc_entries u (cc_log (hs_cluster s' (cluster_of u)))"
      using hs_coreD(6) [OF inv, of u] by (auto simp: s' hs_put_def)
  next
    fix u
    have "hs_fits (hs_phase s u) (hs_pc s u) (cl_pc (hs_central s) u)" by (rule hs_coreD(3) [OF inv])
    moreover have "hs_fits (hs_phase s t) (cc_pc c' t) (cl_pc (hs_central s) t)"
      using hs_coreD(3) [OF inv, of t] phase cc_applyOp_next [OF c'] by (auto simp: pct)
    ultimately show "hs_fits (hs_phase s' u) (hs_pc s' u) (cl_pc (hs_central s') u)"
      using fr(1) [of u] by (cases "u = t") (auto simp: s' hs_put_def i_def)
  qed (use core away hs_coreD [OF inv] in \<open>auto simp: s' hs_put_def\<close>)
qed

lemma hs_applyOp_core:
  assumes inv: "hs_core (CCSIM_HELP_BOUND n) s" and run: "hs_applyOp f n t s = Some s'"
  shows "hs_core (CCSIM_HELP_BOUND n) s'"
proof -
  note good = hs_coreD(2) [OF inv] and fits = hs_coreD(3) [OF inv, of t]
  show ?thesis
  proof (cases "hs_phase s t")
    case HOut
    show ?thesis
    proof (cases "at_test (hs_pc s t)")
      case True
      then obtain l where l: "clh_step (Acquire t) (hs_central s) = Some l" "s' = hsgo t HLock l s"
        using run HOut by (auto simp: hs_applyOp_def Let_def simp del: clh_step.simps)
      have "cl_pc l t = CSet" using l(1) by (auto split: if_splits)
      then show ?thesis unfolding l(2)
        by (intro hs_lock_core [OF inv clh_step_good [OF good l(1)]]) (use clh_others_pc [OF l(1)] True in auto)
    next
      case False
      then show ?thesis using run HOut by (intro hs_queue_core [OF inv]) (auto simp: hs_applyOp_def)
    qed
  next
    case HLock
    then obtain l where l: "lock_turn t (hs_central s) = Some l" "s' = hsgo t (if cl_pc (hs_central s) t = CIn then HIn else HLock) l s"
      using run by (auto simp: hs_applyOp_def Let_def)
    show ?thesis unfolding l(2)
      by (intro hs_lock_core [OF inv]) (use lock_turn_good [OF good l(1)] lock_turn_pc [OF l(1)] fits HLock at_test_combining in auto)
  next
    case HIn
    show ?thesis
    proof (cases "at_ret (hs_pc s t)")
      case True
      then obtain l where l: "unlock_turn t (hs_central s) = Some l" "s' = hsgo t HUnlock l s"
        using run HIn by (auto simp: hs_applyOp_def Let_def)
      show ?thesis unfolding l(2)
        by (intro hs_lock_core [OF inv unlock_turn_clh_good [OF good l(1)]]) (use unlock_turn_pc [OF l(1)] fits HIn True in auto)
    next
      case False
      then show ?thesis using run HIn by (intro hs_queue_core [OF inv]) (auto simp: hs_applyOp_def)
    qed
  next
    case HUnlock
    then obtain l where l: "unlock_turn t (hs_central s) = Some l"
      "s' = hsgo t (if cl_pc (hs_central s) t = CIdle then HOut else HUnlock) l s"
      using run by (auto simp: hs_applyOp_def Let_def)
    have "\<not> combining (hs_pc s t)" using fits HUnlock by (cases "hs_pc s t") auto
    then show ?thesis unfolding l(2)
      by (intro hs_lock_core [OF inv unlock_turn_clh_good [OF good l(1)]]) (use unlock_turn_pc [OF l(1)] fits HUnlock in auto)
  qed
qed

lemma hs_step_core:
  assumes inv: "hs_core (CCSIM_HELP_BOUND n) s" and run: "hs_step f n e s = Some s'" and fresh: "cc_fresh n e"
  shows "hs_core (CCSIM_HELP_BOUND n) s'"
proof (cases e)
  case (CcCall t arg k)
  let ?c = "hs_cluster s (cluster_of t)"
  define c where "c = ccgo t (CcSwap k) ((cc_prepare t ?c)\<lparr>cc_arg := (cc_arg ?c)(t := arg)\<rparr>)"
  have idle: "cc_idle (hs_pc s t)" and s': "s' = s\<lparr>hs_cluster := (hs_cluster s)(cluster_of t := c)\<rparr>"
    using run CcCall by (auto simp: c_def Let_def split: if_splits)
  have core: "cc_core (CCSIM_HELP_BOUND n) c"
    unfolding c_def by (rule cc_call_core [OF hs_coreD(1) [OF inv] idle]) (use fresh CcCall in simp)
  have c: "cc_pc c = (cc_pc ?c)(t := CcSwap k)" "cc_hist c = cc_hist ?c" "cc_log c = cc_log ?c"
    by (simp_all add: c_def cc_prepare_def Let_def)
  have "\<not> combining (hs_pc s t)" "\<not> at_ret (hs_pc s t)" using idle by (cases "hs_pc s t"; simp)+
  then have "hs_fits (hs_phase s t) (CcSwap k) (cl_pc (hs_central s) t)"
    using hs_coreD(3) [OF inv, of t] at_test_combining by (cases "hs_phase s t") auto
  then have "hs_fits (hs_phase s u) (cc_pc (hs_cluster s' (cluster_of u)) u) (cl_pc (hs_central s) u)" for u
    using hs_coreD(3) [OF inv, of u] by (cases "u = t") (auto simp: s' c)
  then show ?thesis by (intro hs_coreI) (use hs_coreD [OF inv] core in \<open>auto simp: s' c\<close>)
qed (use run hs_applyOp_core [OF inv] in simp)

text \<open>The one step that touches the object applies \<open>sfunc\<close> and records it.\<close>

lemma hs_queue_log:
  assumes "hs_queue f n t s = Some s'"
  shows "hs_log s' = hs_log s \<and> hs_object s' = hs_object s \<or>
    (\<exists>u a i. hs_log s' = hs_log s @ [(u, a, i, fst (f a i (hs_object s)))] \<and> hs_object s' = snd (f a i (hs_object s)))"
proof -
  obtain c where c: "cc_applyOp f n (hs_pc s t) t ((hs_cluster s (cluster_of t))\<lparr>cc_object := hs_object s\<rparr>) = Some c"
    "s' = hs_put (cluster_of t) s c"
    using assms by (auto simp: hs_queue_def)
  from cc_applyOp_log [OF c(1)] show ?thesis by (auto simp: c(2) hs_put_def)
qed

lemma hs_step_log:
  assumes "hs_step f n e s = Some s'"
  shows "hs_log s' = hs_log s \<and> hs_object s' = hs_object s \<or>
    (\<exists>u a i. hs_log s' = hs_log s @ [(u, a, i, fst (f a i (hs_object s)))] \<and> hs_object s' = snd (f a i (hs_object s)))"
proof (cases e)
  case (CcRun t)
  then have "hs_queue f n t s = Some s' \<or> (\<exists>p l. s' = hsgo t p l s)"
    using assms by (auto simp: hs_applyOp_def Let_def simp del: clh_step.simps split: hphase.splits if_splits)
  then show ?thesis using hs_queue_log [of f n t s s'] by (auto simp: hsgo_def)
qed (use assms in \<open>auto simp: Let_def split: if_splits\<close>)

lemma hs_step_inv:
  assumes inv: "hs_inv f (CCSIM_HELP_BOUND n) obj s" and run: "hs_step f n e s = Some s'" and fresh: "cc_fresh n e"
  shows "hs_inv f (CCSIM_HELP_BOUND n) obj s'"
  using inv hs_step_core [OF _ run fresh] hs_step_log [OF run] cc_legal_snoc [of f obj "hs_log s" "hs_object s"]
  by (auto simp: hs_inv_def)

interpretation hsynchm: machine "\<lambda>e s. if cc_fresh n e then hs_step f n e s else None" "hs_inv f (CCSIM_HELP_BOUND n) obj" for n f obj
  by unfold_locales (auto intro: hs_step_inv split: if_splits)

lemma hs_init_core: "hs_core b (HSynchStructInit g i obj)"
proof (rule hs_coreI)
  show "cc_core b (hs_cluster (HSynchStructInit g i obj) k)" for k
    using cc_init_inv [of "\<lambda>a i x. (a, x)" b obj "g k" "i k"] by (simp add: HSynchStructInit_def cc_inv_def)
qed (use clh_init_good in \<open>simp_all add: HSynchStructInit_def cc_lock_init_def clhLockInit_def cc_entries_def\<close>)

lemma hs_init_inv: "hs_inv f b obj (HSynchStructInit g i obj)"
  using hs_init_core by (simp add: hs_inv_def) (simp add: HSynchStructInit_def)

lemma hs_run_inv:
  "mrun (hs_step f n) es (HSynchStructInit g i obj) = Some s \<Longrightarrow> list_all (cc_fresh n) es \<Longrightarrow> hs_inv f (CCSIM_HELP_BOUND n) obj s"
  using hsynchm.good_run [OF hs_init_inv, of n f es g i obj s] by (simp add: mrun_guard)

text \<open>
  Threads 0 and 2 share a cluster, thread 1 is in the other one. Thread 0 combines its own operation and
  that of thread 2; thread 1 waits for the central lock meanwhile.
\<close>

definition demo_hs :: "ccev list" where
  "demo_hs = [CcCall 0 3 0, CcCall 1 5 0, CcCall 2 7 0] @ replicate 10 (CcRun 0) @ replicate 3 (CcRun 2) @ replicate 9 (CcRun 1) @
     replicate 17 (CcRun 0) @ replicate 3 (CcRun 2)"

lemma demo_hs_run:
  "map_option (\<lambda>s. (hs_phase s 1, hs_pc s 1, hs_pc s 0, hs_pc s 2, cc_hist (hs_cluster s 0) 0, cc_hist (hs_cluster s 0) 2, hs_object s))
     (mrun (hs_step (\<lambda>a i x. (x * a, x * a)) 3) demo_hs (HSynchStructInit (\<lambda>k x. 0) (\<lambda>k x. 0) (1 :: i32))) =
   Some (HLock, CcTest 0 0 0, CcDone 3, CcDone 21, [(3, 3)], [(7, 21)], 21)"
  by code_simp

section \<open>Properties\<close>

text \<open>
  (C31) H-Synch makes the object linearizable, when \<open>counter\<close> starts below its bound, for all threads of both
  clusters together: in every reachable state the applications of \<open>sfunc\<close> form a sequential run from the
  initial to the current object; each thread's operations occur in it in the thread's own order with
  the results the thread got, one operation at most having been applied and not yet returned, none
  when the thread is outside \<open>applyOp\<close>; and two threads are never in the combining loop at the same time.
\<close>

theorem hsynch_linearizable:
  assumes "mrun (hs_step f n) es (HSynchStructInit g i obj) = Some s" and "list_all (cc_fresh n) es"
  shows "cc_legal f obj (hs_log s) (hs_object s) \<and>
    (\<forall>t. \<exists>now. cc_entries t (hs_log s) = cc_hist (hs_cluster s (cluster_of t)) t @ now \<and> length now \<le> 1 \<and>
      (cc_idle (hs_pc s t) \<longrightarrow> now = [])) \<and>
    (\<forall>t u. hs_phase s t = HIn \<and> hs_phase s u = HIn \<longrightarrow> t = u)"
proof -
  have inv: "hs_core (CCSIM_HELP_BOUND n) s" and le: "cc_legal f obj (hs_log s) (hs_object s)"
    using hs_run_inv [OF assms] by (simp_all add: hs_inv_def)
  have "\<exists>now. cc_entries t (hs_log s) = cc_hist (hs_cluster s (cluster_of t)) t @ now \<and> length now \<le> 1 \<and>
      (cc_idle (hs_pc s t) \<longrightarrow> now = [])" for t
    using hs_coreD(1) [OF inv, of "cluster_of t"] hs_coreD(6) [OF inv, of t]
    by (cases "hs_pc s t") (auto simp: cc_core_def cc_account_def)
  moreover have "holds (hs_central s) t" if "hs_phase s t = HIn" for t
    using hs_coreD(3) [OF inv, of t] that by (simp add: holds_def)
  ultimately show ?thesis using le clh_impl.one_inside [OF hs_coreD(2) [OF inv]] by blast
qed

definition hs_where :: "'o hsynch \<Rightarrow> tid \<Rightarrow> hphase \<times> ccpc \<times> cpc" where
  "hs_where s t = (hs_phase s t, hs_pc s t, cl_pc (hs_central s) t)"

lemma hs_queue_moves:
  assumes inv: "hs_core b s" and "\<not> cc_idle (hs_pc s u)" and "\<And>k c. hs_pc s u = CcSpin k c \<Longrightarrow> \<not> cc_locked (hs_cluster s (cluster_of u)) c"
  shows "\<exists>s'. hs_queue f n u s = Some s' \<and> hs_where s' u \<noteq> hs_where s u"
proof -
  let ?c = "(hs_cluster s (cluster_of u))\<lparr>cc_object := hs_object s\<rparr>"
  have "\<exists>c'. cc_applyOp f n (cc_pc ?c u) u ?c = Some c' \<and> cc_pc c' u \<noteq> cc_pc ?c u"
    by (rule cc_moves [of b]) (use hs_coreD(1) [OF inv] assms(2,3) in simp_all)
  then show ?thesis by (auto simp: hs_queue_def hs_where_def hs_put_def)
qed

lemma hs_central_moves:
  assumes inv: "hs_core b s" and some: "hs_phase s t \<noteq> HOut"
  shows "\<exists>u s'. hs_applyOp f n u s = Some s' \<and> hs_where s' u \<noteq> hs_where s u"
proof -
  let ?l = "hs_central s"
  obtain p0 ts where clh: "clh_inv ?l p0 ts" using hs_coreD(2) [OF inv] by (auto simp: clh_good_def)
  have fits: "hs_fits (hs_phase s u) (hs_pc s u) (cl_pc ?l u)" for u by (rule hs_coreD(3) [OF inv])
  have unlocking: ?thesis if "hs_phase s u = HUnlock" for u
  proof -
    have "cl_pc ?l u = CClear \<or> cl_pc ?l u = CRecycle \<and> cl_mypred ?l u \<noteq> None \<or> cl_pc ?l u = CIdle"
      using fits [of u] that clh by (auto simp: clh_inv_def)
    then have "\<exists>s'. hs_applyOp f n u s = Some s' \<and> hs_where s' u \<noteq> hs_where s u"
      using that by (auto simp: hs_applyOp_def Let_def unlock_turn_def hs_where_def hsgo_def)
    then show ?thesis by blast
  qed
  have inside: ?thesis if "hs_phase s u = HIn" for u
  proof (cases "at_ret (hs_pc s u)")
    case True
    then have "\<exists>s'. hs_applyOp f n u s = Some s' \<and> hs_where s' u \<noteq> hs_where s u"
      using that fits [of u] by (auto simp: hs_applyOp_def Let_def unlock_turn_def hs_where_def hsgo_def)
    then show ?thesis by blast
  next
    case False
    then have "combining (hs_pc s u)" using fits [of u] that by simp
    then have "\<exists>s'. hs_queue f n u s = Some s' \<and> hs_where s' u \<noteq> hs_where s u"
      by (intro hs_queue_moves [OF inv]) (cases "hs_pc s u"; simp)+
    moreover have "hs_applyOp f n u s = hs_queue f n u s" using that False by (simp add: hs_applyOp_def Let_def)
    ultimately show ?thesis by metis
  qed
  have enters: ?thesis if "hs_phase s u = HLock" "clh_step (LockRun u) ?l = Some (cgo u q l)" "q \<noteq> cl_pc ?l u" "cl_pc ?l u \<noteq> CIn" for u q l
    using that by (intro exI [of _ u] exI [of _ "hsgo u HLock (cgo u q l) s"])
      (auto simp: hs_applyOp_def Let_def lock_turn_def hs_where_def hsgo_def simp del: clh_step.simps)
  have entered: ?thesis if "hs_phase s u = HLock" "cl_pc ?l u = CIn" for u
    using that by (intro exI [of _ u] exI [of _ "hsgo u HIn ?l s"]) (auto simp: hs_applyOp_def Let_def lock_turn_def hs_where_def hsgo_def)
  show ?thesis
  proof (cases "\<exists>u. holds ?l u")
    case True
    then obtain u where "cl_pc ?l u = CIn \<or> cl_pc ?l u = CClear" by (auto simp: holds_def)
    then show ?thesis using fits [of u] unlocking [of u] inside [of u] entered [of u] by (cases "hs_phase s u") auto
  next
    case False
    then consider "hs_phase s t = HUnlock" | "hs_phase s t = HIn" | "hs_phase s t = HLock" "cl_pc ?l t = CSet \<or> cl_pc ?l t = CSwap"
      | "hs_phase s t = HLock" "cl_pc ?l t = CSpin"
      using some fits [of t] by (cases "hs_phase s t") (auto simp: holds_def)
    then show ?thesis
    proof cases
      case 3
      then show ?thesis using enters [of t] by auto
    next
      case 4
      then have "ts \<noteq> []" using clh by (auto simp: clh_inv_def queued_def)
      then have h: "cl_pc ?l (hd ts) = CSpin" "clh_step (LockRun (hd ts)) ?l = Some (cgo (hd ts) CIn ?l)"
        using clh_inv_free [OF clh] False by blast+
      then have "hs_phase s (hd ts) = HLock" using fits [of "hd ts"] by (cases "hs_phase s (hd ts)") auto
      then show ?thesis using enters [of "hd ts" CIn] h by simp
    qed (use unlocking inside in blast)+
  qed
qed

theorem hsynch_linearizable_witness:
  "\<exists>s. mrun (hs_step (\<lambda>a i x. (x * a, x * a)) 3) demo_hs (HSynchStructInit (\<lambda>k x. 0) (\<lambda>k x. 0) (1 :: i32)) = Some s \<and>
    cc_entries 0 (hs_log s) = [(3, 3)] \<and> cc_entries 2 (hs_log s) = [(7, 21)] \<and> hs_object s = 21"
proof -
  obtain s where s: "mrun (hs_step (\<lambda>a i x. (x * a, x * a)) 3) demo_hs (HSynchStructInit (\<lambda>k x. 0) (\<lambda>k x. 0) (1 :: i32)) = Some s"
    "hs_pc s 0 = CcDone 3" "hs_pc s 2 = CcDone 21" "cc_hist (hs_cluster s 0) 0 = [(3, 3)]" "cc_hist (hs_cluster s 0) 2 = [(7, 21)]"
    "hs_object s = 21"
    using demo_hs_run by auto
  have "list_all (cc_fresh 3) demo_hs" by (simp add: demo_hs_def CCSIM_HELP_BOUND_def numeral_eq_Suc)
  then have "\<forall>t. \<exists>now. cc_entries t (hs_log s) = cc_hist (hs_cluster s (cluster_of t)) t @ now \<and> length now \<le> 1 \<and>
      (cc_idle (hs_pc s t) \<longrightarrow> now = [])"
    using hsynch_linearizable [OF s(1)] by blast
  from this [rule_format, of 0] this [rule_format, of 2] show ?thesis using s by (auto simp: cluster_of_def HSYNCH_NCLUSTERS_def)
qed

text \<open>
  H-Synch does not deadlock: as long as a thread is inside \<open>applyOp\<close>, some thread can take a step that
  is not a turn of a waiting loop, of its queue or of the central lock.
\<close>

lemma hsynch_progress:
  assumes "mrun (hs_step f n) es (HSynchStructInit g i obj) = Some s" and "list_all (cc_fresh n) es" and "\<not> cc_idle (hs_pc s t)"
  shows "\<exists>u s'. hs_step f n (CcRun u) s = Some s' \<and> hs_where s' u \<noteq> hs_where s u"
proof (cases "\<exists>u. hs_phase s u \<noteq> HOut")
  case True
  then show ?thesis using hs_central_moves [of _ s] hs_run_inv [OF assms(1,2)] by (fastforce simp: hs_inv_def)
next
  case False
  have inv: "hs_core (CCSIM_HELP_BOUND n) s" using hs_run_inv [OF assms(1,2)] by (simp add: hs_inv_def)
  let ?c = "hs_cluster s (cluster_of t)"
  obtain u where u: "\<not> cc_idle (cc_pc ?c u)" "\<forall>k x. cc_pc ?c u = CcSpin k x \<longrightarrow> \<not> cc_locked ?c x"
    using cc_mover [OF hs_coreD(1) [OF inv] assms(3)] by blast
  have cl: "cluster_of t = cluster_of u"
  proof (rule ccontr)
    assume "cluster_of t \<noteq> cluster_of u"
    then have "cc_pc ?c u = CcIdle" by (rule hs_coreD(4) [OF inv])
    then show False using u(1) by simp
  qed
  have out: "hs_phase s u = HOut" "cl_pc (hs_central s) u = CIdle" using False hs_coreD(3) [OF inv, of u] by simp_all
  have "\<exists>s'. hs_applyOp f n u s = Some s' \<and> hs_where s' u \<noteq> hs_where s u"
  proof (cases "at_test (hs_pc s u)")
    case True
    then show ?thesis using out by (auto simp: hs_applyOp_def Let_def hs_where_def hsgo_def)
  next
    case F: False
    have "\<exists>s'. hs_queue f n u s = Some s' \<and> hs_where s' u \<noteq> hs_where s u"
      by (rule hs_queue_moves [OF inv]) (use u cl in auto)
    then show ?thesis using out F by (auto simp: hs_applyOp_def Let_def)
  qed
  then show ?thesis by auto
qed

lemma hsynch_progress_witness:
  "\<exists>s u s'. mrun (hs_step (\<lambda>a i x. (x * a, x * a)) 3) [CcCall 0 3 0] (HSynchStructInit (\<lambda>k x. 0) (\<lambda>k x. 0) (1 :: i32)) = Some s \<and>
    hs_step (\<lambda>a i x. (x * a, x * a)) 3 (CcRun u) s = Some s'"
proof -
  obtain s where s: "mrun (hs_step (\<lambda>a i x. (x * a, x * a)) 3) [CcCall 0 3 0] (HSynchStructInit (\<lambda>k x. 0) (\<lambda>k x. 0) (1 :: i32)) = Some s"
    "hs_pc s 0 = CcSwap 0"
    by (simp add: HSynchStructInit_def cc_lock_init_def cluster_of_def HSYNCH_NCLUSTERS_def Let_def)
  have "list_all (cc_fresh 3) [CcCall 0 3 0]" by (simp add: CCSIM_HELP_BOUND_def)
  moreover have "\<not> cc_idle (hs_pc s 0)" using s(2) by simp
  ultimately show ?thesis using hsynch_progress [OF s(1)] s(1) by blast
qed

end
