(* ===== verification/DsmSynch.thy ===== *)
theory DsmSynch
  imports CcSynch
begin

text \<open>
  The combining lock of \<open>synch1.0.1/dsmsynch.h\<close> (DSM-Synch), one access to shared memory per step, for any
  sequential function \<open>sfunc\<close>. A thread announces its operation in a node of its own, of the two it uses
  in turn, and spins on that node.
\<close>

section \<open>The lock\<close>

text \<open>
  The program points of \<open>applyOp\<close>, with the values of \<open>counter\<close>, \<open>mypred\<close> and \<open>p\<close> where they are alive;
  \<open>mynode\<close> is determined by the thread and its \<open>toggle\<close>. Node \<open>MyNodes[i]\<close> is the number \<open>i\<close>, \<open>null\<close> is \<open>None\<close>.
\<close>

datatype dspc =
    DsIdle
  | DsSwap               \<comment> \<open>\<open>mypred = SWAP(&l->Tail, mynode)\<close>\<close>
  | DsLink nat           \<comment> \<open>\<open>mypred->next = mynode\<close>\<close>
  | DsSpin               \<comment> \<open>\<open>while (mynode->locked == true)\<close>\<close>
  | DsCheck              \<comment> \<open>\<open>if (mynode->completed == true)\<close>\<close>
  | DsFunc nat nat       \<comment> \<open>\<open>counter++; p->ret = sfunc(p->arg, p->pid)\<close>\<close>
  | DsCompl nat nat      \<comment> \<open>\<open>p->completed = true\<close>\<close>
  | DsUnl nat nat        \<comment> \<open>\<open>p->locked = false\<close>\<close>
  | DsNext1 nat nat      \<comment> \<open>\<open>p->next == null\<close>\<close>
  | DsNext2 nat nat      \<comment> \<open>\<open>p->next\<close>, read again\<close>
  | DsNext3 nat nat nat  \<comment> \<open>its \<open>next == null\<close>, or \<open>counter >= DSMSIM_HELP_BOUND\<close>\<close>
  | DsAdv nat nat        \<comment> \<open>\<open>p = p->next\<close>\<close>
  | DsEnd nat            \<comment> \<open>after the loop: \<open>if (p->next == null)\<close>\<close>
  | DsTail nat           \<comment> \<open>\<open>l->Tail == p\<close>\<close>
  | DsCas nat            \<comment> \<open>\<open>CASPTR(&l->Tail, p, null)\<close>\<close>
  | DsWait nat           \<comment> \<open>\<open>while (p->next == null)\<close>\<close>
  | DsRel nat            \<comment> \<open>\<open>p->next\<close> of the last store\<close>
  | DsRelU nat           \<comment> \<open>\<open>p->next->locked = false\<close>\<close>
  | DsRet                \<comment> \<open>\<open>return mynode->ret\<close>\<close>
  | DsDone i32

text \<open>
  \<open>toggle\<close> is 0 or 1. The fields from \<open>ds_arg\<close> on are not the lock's: the parameter of each thread's call, the
  object \<open>sfunc\<close> works on, and two records no step reads, the applications of \<open>sfunc\<close> in their order and
  the calls that returned.
\<close>

record 'o dsmsynch =
  ds_tail :: "nat option"
  ds_next :: "nat \<Rightarrow> nat option"
  ds_node_arg :: "nat \<Rightarrow> i32"
  ds_ret :: "nat \<Rightarrow> i32"
  ds_locked :: "nat \<Rightarrow> bool"
  ds_completed :: "nat \<Rightarrow> bool"
  ds_pid :: "nat \<Rightarrow> i32"
  ds_toggle :: "tid \<Rightarrow> bool"
  ds_pc :: "tid \<Rightarrow> dspc"
  ds_arg :: "tid \<Rightarrow> i32"
  ds_object :: 'o
  ds_log :: "(tid \<times> i32 \<times> i32 \<times> i32) list"
  ds_hist :: "tid \<Rightarrow> (i32 \<times> i32) list"

definition DSMSIM_HELP_BOUND :: "nat \<Rightarrow> nat" where
  "DSMSIM_HELP_BOUND n = 3 * n"

text \<open>\<open>&l->MyNodes[2 * pid + toggle]\<close>\<close>

definition ds_node :: "tid \<Rightarrow> bool \<Rightarrow> nat" where
  "ds_node pid toggle = 2 * pid + of_bool toggle"

definition ds_mynode :: "'o dsmsynch \<Rightarrow> tid \<Rightarrow> nat" where
  "ds_mynode s t = ds_node t (ds_toggle s t)"

text \<open>\<open>lock_init\<close> and \<open>threadStateInit\<close>; the nodes hold what memory holds, the parameter \<open>m\<close>.\<close>

definition dsm_lock_init :: "'o dsmsynch \<Rightarrow> 'o \<Rightarrow> 'o dsmsynch" where
  "dsm_lock_init m obj = m\<lparr>ds_tail := None, ds_toggle := (\<lambda>t. False), ds_pc := (\<lambda>t. DsIdle), ds_object := obj, ds_log := [],
     ds_hist := (\<lambda>t. [])\<rparr>"

definition dsgo :: "tid \<Rightarrow> dspc \<Rightarrow> 'o dsmsynch \<Rightarrow> 'o dsmsynch" where
  "dsgo t p s = s\<lparr>ds_pc := (ds_pc s)(t := p)\<rparr>"

text \<open>The stores before the \<open>SWAP\<close>, to the node that no other thread looks at then.\<close>

definition ds_prepare :: "tid \<Rightarrow> i32 \<Rightarrow> 'o dsmsynch \<Rightarrow> 'o dsmsynch" where
  "ds_prepare pid arg s =
     (let toggle = \<not> ds_toggle s pid; mynode = ds_node pid toggle
      in s\<lparr>ds_toggle := (ds_toggle s)(pid := toggle), ds_locked := (ds_locked s)(mynode := True),
         ds_completed := (ds_completed s)(mynode := False), ds_pid := (ds_pid s)(mynode := of_nat pid),
         ds_next := (ds_next s)(mynode := None), ds_node_arg := (ds_node_arg s)(mynode := arg), ds_arg := (ds_arg s)(pid := arg)\<rparr>)"

fun dsm_applyOp :: "(i32 \<Rightarrow> i32 \<Rightarrow> 'o \<Rightarrow> i32 \<times> 'o) \<Rightarrow> nat \<Rightarrow> dspc \<Rightarrow> tid \<Rightarrow> 'o dsmsynch \<Rightarrow> 'o dsmsynch option" where
  "dsm_applyOp sfunc n DsSwap t s =
     Some (dsgo t (case ds_tail s of Some mypred \<Rightarrow> DsLink mypred | None \<Rightarrow> DsFunc 0 (ds_mynode s t))
       (s\<lparr>ds_tail := Some (ds_mynode s t)\<rparr>))"
| "dsm_applyOp sfunc n (DsLink mypred) t s =
     Some (dsgo t DsSpin (s\<lparr>ds_next := (ds_next s)(mypred := Some (ds_mynode s t))\<rparr>))"
| "dsm_applyOp sfunc n DsSpin t s = Some (if ds_locked s (ds_mynode s t) then s else dsgo t DsCheck s)"
| "dsm_applyOp sfunc n DsCheck t s =
     Some (dsgo t (if ds_completed s (ds_mynode s t) then DsRet else DsFunc 0 (ds_mynode s t)) s)"
| "dsm_applyOp sfunc n (DsFunc counter p) t s =
     (let (r, obj) = sfunc (ds_node_arg s p) (ds_pid s p) (ds_object s)
      in Some (dsgo t (DsCompl (counter + 1) p)
           (s\<lparr>ds_ret := (ds_ret s)(p := r), ds_object := obj,
              ds_log := ds_log s @ [(p div 2, ds_node_arg s p, ds_pid s p, r)]\<rparr>)))"
| "dsm_applyOp sfunc n (DsCompl counter p) t s = Some (dsgo t (DsUnl counter p) (s\<lparr>ds_completed := (ds_completed s)(p := True)\<rparr>))"
| "dsm_applyOp sfunc n (DsUnl counter p) t s = Some (dsgo t (DsNext1 counter p) (s\<lparr>ds_locked := (ds_locked s)(p := False)\<rparr>))"
| "dsm_applyOp sfunc n (DsNext1 counter p) t s = Some (dsgo t (if ds_next s p = None then DsEnd p else DsNext2 counter p) s)"
| "dsm_applyOp sfunc n (DsNext2 counter p) t s = map_option (\<lambda>x. dsgo t (DsNext3 counter p x) s) (ds_next s p)"
| "dsm_applyOp sfunc n (DsNext3 counter p x) t s =
     Some (dsgo t (if ds_next s x = None \<or> counter \<ge> DSMSIM_HELP_BOUND n then DsEnd p else DsAdv counter p) s)"
| "dsm_applyOp sfunc n (DsAdv counter p) t s = map_option (\<lambda>x. dsgo t (DsFunc counter x) s) (ds_next s p)"
| "dsm_applyOp sfunc n (DsEnd p) t s = Some (dsgo t (if ds_next s p = None then DsTail p else DsRel p) s)"
| "dsm_applyOp sfunc n (DsTail p) t s = Some (dsgo t (if ds_tail s = Some p then DsCas p else DsWait p) s)"
| "dsm_applyOp sfunc n (DsCas p) t s =
     Some (if ds_tail s = Some p then dsgo t DsRet (s\<lparr>ds_tail := None\<rparr>) else dsgo t (DsWait p) s)"
| "dsm_applyOp sfunc n (DsWait p) t s = Some (if ds_next s p = None then s else dsgo t (DsRel p) s)"
| "dsm_applyOp sfunc n (DsRel p) t s = map_option (\<lambda>x. dsgo t (DsRelU x) s) (ds_next s p)"
| "dsm_applyOp sfunc n (DsRelU x) t s = Some (dsgo t DsRet (s\<lparr>ds_locked := (ds_locked s)(x := False)\<rparr>))"
| "dsm_applyOp sfunc n DsRet t s =
     Some (dsgo t (DsDone (ds_ret s (ds_mynode s t)))
       (s\<lparr>ds_hist := (ds_hist s)(t := ds_hist s t @ [(ds_arg s t, ds_ret s (ds_mynode s t))])\<rparr>))"
| "dsm_applyOp sfunc n _ t s = None"

fun ds_idle :: "dspc \<Rightarrow> bool" where
  "ds_idle DsIdle = True"
| "ds_idle (DsDone v) = True"
| "ds_idle _ = False"

datatype dsev = DsCall tid i32 | DsRun tid

fun dsm_step :: "(i32 \<Rightarrow> i32 \<Rightarrow> 'o \<Rightarrow> i32 \<times> 'o) \<Rightarrow> nat \<Rightarrow> dsev \<Rightarrow> 'o dsmsynch \<Rightarrow> 'o dsmsynch option" where
  "dsm_step sfunc n (DsCall t arg) s =
     (if ds_idle (ds_pc s t) \<and> t < n then Some (dsgo t DsSwap (ds_prepare t arg s)) else None)"
| "dsm_step sfunc n (DsRun t) s = dsm_applyOp sfunc n (ds_pc s t) t s"

section \<open>The invariant\<close>

text \<open>
  The queue: its head is a node whose operation is applied but which the combiner still holds
  (\<open>Finished\<close>), or the node of the first thread that waits (\<open>Pending\<close>), if there is a queue at all; \<open>ts\<close> are
  the threads behind it. \<open>c\<close> is the combiner.
\<close>

datatype dshead = Nobody | Pending tid | Finished tid bool

fun ds_hnode :: "'o dsmsynch \<Rightarrow> dshead \<Rightarrow> nat" where
  "ds_hnode s (Pending u) = ds_mynode s u"
| "ds_hnode s (Finished u b) = ds_node u b"
| "ds_hnode s Nobody = 0"

fun ds_pend :: "dshead \<Rightarrow> tid list \<Rightarrow> tid list" where
  "ds_pend (Pending u) ts = u # ts"
| "ds_pend _ ts = ts"

fun ds_link :: "dspc \<Rightarrow> nat option" where
  "ds_link (DsLink q) = Some q"
| "ds_link _ = None"

fun ds_chain :: "'o dsmsynch \<Rightarrow> nat \<Rightarrow> tid list \<Rightarrow> bool" where
  "ds_chain s x [] \<longleftrightarrow> ds_tail s = Some x \<and> ds_next s x = None"
| "ds_chain s x (t # ts) \<longleftrightarrow>
     (case ds_link (ds_pc s t) of Some q \<Rightarrow> q = x \<and> ds_next s x = None | None \<Rightarrow> ds_next s x = Some (ds_mynode s t)) \<and>
     ds_chain s (ds_mynode s t) ts"

fun ds_combining :: "dspc \<Rightarrow> bool" where
  "ds_combining (DsFunc k p) = True"
| "ds_combining (DsCompl k p) = True"
| "ds_combining (DsUnl k p) = True"
| "ds_combining (DsNext1 k p) = True"
| "ds_combining (DsNext2 k p) = True"
| "ds_combining (DsNext3 k p x) = True"
| "ds_combining (DsAdv k p) = True"
| "ds_combining (DsEnd p) = True"
| "ds_combining (DsTail p) = True"
| "ds_combining (DsCas p) = True"
| "ds_combining (DsWait p) = True"
| "ds_combining (DsRel p) = True"
| "ds_combining (DsRelU x) = True"
| "ds_combining _ = False"

fun ds_serving :: "dspc \<Rightarrow> nat option" where
  "ds_serving (DsFunc k p) = Some p"
| "ds_serving (DsRelU x) = Some x"
| "ds_serving _ = None"

fun ds_finishing :: "dspc \<Rightarrow> nat option" where
  "ds_finishing (DsCompl k p) = Some p"
| "ds_finishing (DsUnl k p) = Some p"
| "ds_finishing _ = None"

definition ds_mine :: "'o dsmsynch \<Rightarrow> tid \<Rightarrow> bool" where
  "ds_mine s t \<longleftrightarrow> ds_node_arg s (ds_mynode s t) = ds_arg s t \<and> ds_pid s (ds_mynode s t) = of_nat t"

definition ds_spins :: "'o dsmsynch \<Rightarrow> tid \<Rightarrow> bool" where
  "ds_spins s u \<longleftrightarrow> ds_pc s u = DsSpin \<and> ds_locked s (ds_mynode s u)"

fun ds_ok :: "'o dsmsynch \<Rightarrow> dshead \<Rightarrow> tid list \<Rightarrow> tid option \<Rightarrow> tid \<Rightarrow> dspc \<Rightarrow> bool" where
  "ds_ok s h ts c t DsSwap \<longleftrightarrow> t \<notin> set (ds_pend h ts) \<and> ds_mine s t \<and> ds_locked s (ds_mynode s t) \<and>
     \<not> ds_completed s (ds_mynode s t) \<and> ds_next s (ds_mynode s t) = None \<and> h \<noteq> Finished t (ds_toggle s t)"
| "ds_ok s h ts c t (DsLink q) \<longleftrightarrow> t \<in> set ts \<and> ds_mine s t \<and> ds_locked s (ds_mynode s t) \<and> \<not> ds_completed s (ds_mynode s t)"
| "ds_ok s h ts c t DsSpin \<longleftrightarrow>
     (if t \<in> set ts then ds_mine s t \<and> ds_locked s (ds_mynode s t) \<and> \<not> ds_completed s (ds_mynode s t)
      else if h = Pending t then ds_mine s t \<and> \<not> ds_completed s (ds_mynode s t) \<and>
        (if ds_locked s (ds_mynode s t) then \<exists>d. c = Some d \<and> ds_serving (ds_pc s d) = Some (ds_mynode s t) else c = None)
      else if ds_locked s (ds_mynode s t) then \<exists>d. c = Some d \<and> ds_finishing (ds_pc s d) = Some (ds_mynode s t)
      else ds_completed s (ds_mynode s t))"
| "ds_ok s h ts c t DsCheck \<longleftrightarrow> t \<notin> set ts \<and>
     (if h = Pending t then ds_mine s t \<and> \<not> ds_completed s (ds_mynode s t) \<and> c = None else ds_completed s (ds_mynode s t))"
| "ds_ok s h ts c t (DsFunc k p) \<longleftrightarrow> t \<notin> set ts \<and>
     (\<exists>u. h = Pending u \<and> p = ds_mynode s u \<and> (if u = t then ds_mine s t else ds_spins s u))"
| "ds_ok s h ts c t (DsCompl k p) \<longleftrightarrow> t \<notin> set (ds_pend h ts) \<and>
     (\<exists>u. h = Finished u (ds_toggle s u) \<and> p = ds_mynode s u \<and> (u = t \<or> ds_spins s u))"
| "ds_ok s h ts c t (DsUnl k p) \<longleftrightarrow> t \<notin> set (ds_pend h ts) \<and>
     (\<exists>u. h = Finished u (ds_toggle s u) \<and> p = ds_mynode s u \<and> (u = t \<or> ds_spins s u)) \<and> ds_completed s p"
| "ds_ok s h ts c t (DsNext1 k p) \<longleftrightarrow> t \<notin> set (ds_pend h ts) \<and> (\<exists>u b. h = Finished u b) \<and> p = ds_hnode s h"
| "ds_ok s h ts c t (DsNext2 k p) \<longleftrightarrow> t \<notin> set (ds_pend h ts) \<and> (\<exists>u b. h = Finished u b) \<and> p = ds_hnode s h \<and> ds_next s p \<noteq> None"
| "ds_ok s h ts c t (DsNext3 k p x) \<longleftrightarrow> t \<notin> set (ds_pend h ts) \<and> (\<exists>u b. h = Finished u b) \<and> p = ds_hnode s h \<and> ds_next s p = Some x"
| "ds_ok s h ts c t (DsAdv k p) \<longleftrightarrow> t \<notin> set (ds_pend h ts) \<and> (\<exists>u b. h = Finished u b) \<and> p = ds_hnode s h \<and> ds_next s p \<noteq> None"
| "ds_ok s h ts c t (DsEnd p) \<longleftrightarrow> t \<notin> set (ds_pend h ts) \<and> (\<exists>u b. h = Finished u b) \<and> p = ds_hnode s h"
| "ds_ok s h ts c t (DsTail p) \<longleftrightarrow> t \<notin> set (ds_pend h ts) \<and> (\<exists>u b. h = Finished u b) \<and> p = ds_hnode s h"
| "ds_ok s h ts c t (DsCas p) \<longleftrightarrow> t \<notin> set (ds_pend h ts) \<and> (\<exists>u b. h = Finished u b) \<and> p = ds_hnode s h"
| "ds_ok s h ts c t (DsWait p) \<longleftrightarrow> t \<notin> set (ds_pend h ts) \<and> (\<exists>u b. h = Finished u b) \<and> p = ds_hnode s h \<and> ts \<noteq> []"
| "ds_ok s h ts c t (DsRel p) \<longleftrightarrow> t \<notin> set (ds_pend h ts) \<and> (\<exists>u b. h = Finished u b) \<and> p = ds_hnode s h \<and> ds_next s p \<noteq> None"
| "ds_ok s h ts c t (DsRelU x) \<longleftrightarrow> t \<notin> set (ds_pend h ts) \<and> (\<exists>u. h = Pending u \<and> x = ds_mynode s u \<and> ds_spins s u)"
| "ds_ok s h ts c t _ \<longleftrightarrow> t \<notin> set (ds_pend h ts)"

definition ds_shape :: "'o dsmsynch \<Rightarrow> dshead \<Rightarrow> tid list \<Rightarrow> tid option \<Rightarrow> bool" where
  "ds_shape s h ts c \<longleftrightarrow> (if h = Nobody then ts = [] \<and> ds_tail s = None else ds_chain s (ds_hnode s h) ts) \<and>
     distinct (ds_pend h ts) \<and> (\<forall>d. ds_combining (ds_pc s d) \<longleftrightarrow> c = Some d) \<and>
     (\<forall>u b. h = Finished u b \<longrightarrow> c \<noteq> None \<and> (if b = ds_toggle s u then u \<notin> set ts else u \<in> set ts \<or> ds_pc s u = DsSwap)) \<and>
     (\<forall>t. ds_ok s h ts c t (ds_pc s t))"

lemma dsgo_simps [simp]:
  "ds_tail (dsgo t p s) = ds_tail s" "ds_next (dsgo t p s) = ds_next s" "ds_node_arg (dsgo t p s) = ds_node_arg s"
  "ds_ret (dsgo t p s) = ds_ret s" "ds_locked (dsgo t p s) = ds_locked s" "ds_completed (dsgo t p s) = ds_completed s"
  "ds_pid (dsgo t p s) = ds_pid s" "ds_toggle (dsgo t p s) = ds_toggle s" "ds_pc (dsgo t p s) = (ds_pc s)(t := p)"
  "ds_arg (dsgo t p s) = ds_arg s" "ds_object (dsgo t p s) = ds_object s" "ds_log (dsgo t p s) = ds_log s"
  "ds_hist (dsgo t p s) = ds_hist s"
  by (simp_all add: dsgo_def)

lemma ds_node_eq [simp]: "ds_node t a = ds_node u b \<longleftrightarrow> t = u \<and> a = b"
  by (auto simp: ds_node_def of_bool_def split: if_splits) presburger+

lemma ds_node_owner [simp]: "ds_node t b div 2 = t"
  by (simp add: ds_node_def of_bool_def)

lemma ds_mynode_eq [simp]: "ds_mynode s t = ds_mynode s u \<longleftrightarrow> t = u"
  by (auto simp: ds_mynode_def)

lemma ds_shapeI:
  assumes "if h = Nobody then ts = [] \<and> ds_tail s = None else ds_chain s (ds_hnode s h) ts" "distinct (ds_pend h ts)"
    "\<And>d. ds_combining (ds_pc s d) \<longleftrightarrow> c = Some d"
    "\<And>u b. h = Finished u b \<Longrightarrow> c \<noteq> None \<and> (if b = ds_toggle s u then u \<notin> set ts else u \<in> set ts \<or> ds_pc s u = DsSwap)"
    "\<And>t. ds_ok s h ts c t (ds_pc s t)"
  shows "ds_shape s h ts c"
  using assms by (simp add: ds_shape_def)

lemma ds_shapeD:
  assumes "ds_shape s h ts c"
  shows "h = Nobody \<Longrightarrow> ts = [] \<and> ds_tail s = None" "h \<noteq> Nobody \<Longrightarrow> ds_chain s (ds_hnode s h) ts" "distinct (ds_pend h ts)"
    "ds_combining (ds_pc s d) \<longleftrightarrow> c = Some d"
    "h = Finished u b \<Longrightarrow> c \<noteq> None \<and> (if b = ds_toggle s u then u \<notin> set ts else u \<in> set ts \<or> ds_pc s u = DsSwap)"
    "ds_ok s h ts c t (ds_pc s t)"
  using assms by (auto simp: ds_shape_def)

lemma ds_chain_cong:
  assumes "ds_tail s' = ds_tail s"
    and "\<And>u. u \<in> set ts \<Longrightarrow> ds_link (ds_pc s' u) = ds_link (ds_pc s u) \<and> ds_mynode s' u = ds_mynode s u"
    and "\<And>y. y = x \<or> y \<in> ds_mynode s ` set ts \<Longrightarrow> ds_next s' y = ds_next s y"
  shows "ds_chain s x ts \<Longrightarrow> ds_chain s' x ts"
  using assms
proof (induction ts arbitrary: x)
  case (Cons t ts)
  then show ?case by (simp split: option.splits)
qed simp

lemma ds_mynode_dsgo [simp]: "ds_mynode (dsgo t p s) u = ds_mynode s u"
  by (simp add: ds_mynode_def)

lemma ds_mynode_upd [simp]:
  "ds_mynode (s\<lparr>ds_tail := a\<rparr>) u = ds_mynode s u" "ds_mynode (s\<lparr>ds_next := b\<rparr>) u = ds_mynode s u"
  "ds_mynode (s\<lparr>ds_locked := e\<rparr>) u = ds_mynode s u" "ds_mynode (s\<lparr>ds_completed := e\<rparr>) u = ds_mynode s u"
  "ds_mynode (s\<lparr>ds_ret := r\<rparr>) u = ds_mynode s u" "ds_mynode (s\<lparr>ds_object := obj\<rparr>) u = ds_mynode s u"
  "ds_mynode (s\<lparr>ds_log := l\<rparr>) u = ds_mynode s u" "ds_mynode (s\<lparr>ds_hist := hi\<rparr>) u = ds_mynode s u"
  by (simp_all add: ds_mynode_def)

lemma ds_prepare_simps [simp]:
  "ds_pc (ds_prepare t arg s) = ds_pc s" "ds_tail (ds_prepare t arg s) = ds_tail s"
  "ds_locked (ds_prepare t arg s) = (ds_locked s)(ds_node t (\<not> ds_toggle s t) := True)"
  "ds_completed (ds_prepare t arg s) = (ds_completed s)(ds_node t (\<not> ds_toggle s t) := False)"
  "ds_next (ds_prepare t arg s) = (ds_next s)(ds_node t (\<not> ds_toggle s t) := None)"
  "ds_toggle (ds_prepare t arg s) = (ds_toggle s)(t := \<not> ds_toggle s t)"
  "ds_ret (ds_prepare t arg s) = ds_ret s" "ds_object (ds_prepare t arg s) = ds_object s"
  "ds_log (ds_prepare t arg s) = ds_log s" "ds_hist (ds_prepare t arg s) = ds_hist s"
  "ds_arg (ds_prepare t arg s) = (ds_arg s)(t := arg)"
  "ds_mynode (ds_prepare t arg s) u = (if u = t then ds_node t (\<not> ds_toggle s t) else ds_mynode s u)"
  by (simp_all add: ds_prepare_def Let_def ds_mynode_def)

lemma ds_hnode_dsgo [simp]: "ds_hnode (dsgo t p s) h = ds_hnode s h"
  by (cases h) simp_all

lemma ds_ok_cong:
  assumes "ds_mine s' u = ds_mine s u" "ds_toggle s' = ds_toggle s" "ds_spins s' = ds_spins s"
    "\<And>d. ds_serving (ds_pc s' d) = ds_serving (ds_pc s d)" "\<And>d. ds_finishing (ds_pc s' d) = ds_finishing (ds_pc s d)"
    "ds_locked s' = ds_locked s" "ds_completed s' = ds_completed s" "ds_next s' = ds_next s"
  shows "ds_ok s' h ts c u q = ds_ok s h ts c u q"
proof -
  have my: "ds_mynode s' v = ds_mynode s v" for v using assms(2) by (simp add: ds_mynode_def)
  then have hn: "ds_hnode s' h = ds_hnode s h" by (cases h) simp_all
  show ?thesis by (cases q) (simp_all add: assms my hn)
qed

text \<open>The records of the calls do not matter.\<close>

lemma ds_chain_hist: "ds_chain (s\<lparr>ds_hist := l\<rparr>) x ts = ds_chain s x ts"
  by (induction ts arbitrary: x) (simp_all split: option.splits)

lemma ds_shape_hist: "ds_shape (s\<lparr>ds_hist := l\<rparr>) h ts c = ds_shape s h ts c"
proof -
  have "ds_hnode (s\<lparr>ds_hist := l\<rparr>) h = ds_hnode s h" by (cases h) simp_all
  moreover have "ds_ok (s\<lparr>ds_hist := l\<rparr>) h ts c u q = ds_ok s h ts c u q" for u q
    by (rule ds_ok_cong) (simp_all add: ds_mine_def ds_spins_def fun_eq_iff)
  ultimately show ?thesis by (simp add: ds_shape_def ds_chain_hist)
qed

text \<open>A step that changes nothing but the program point.\<close>

lemma ds_shape_go:
  assumes sh: "ds_shape s h ts c" and ok: "ds_ok (dsgo t q s) h ts c t q"
    and p: "ds_serving (ds_pc s t) = None" "ds_finishing (ds_pc s t) = None" "ds_link (ds_pc s t) = None" "\<not> ds_spins s t"
      "ds_pc s t \<noteq> DsSwap"
    and q: "ds_combining q = ds_combining (ds_pc s t)" "ds_link q = None" "ds_serving q = None" "ds_finishing q = None" "q \<noteq> DsSpin"
  shows "ds_shape (dsgo t q s) h ts c"
proof (rule ds_shapeI)
  show "if h = Nobody then ts = [] \<and> ds_tail (dsgo t q s) = None else ds_chain (dsgo t q s) (ds_hnode (dsgo t q s) h) ts"
    using ds_shapeD(1,2) [OF sh] p(3) q(2) ds_chain_cong [of "dsgo t q s" s ts "ds_hnode s h"] by auto
next
  fix u
  have "ds_spins (dsgo t q s) = ds_spins s" using p(4) q(5) by (auto simp: ds_spins_def fun_eq_iff)
  then have "ds_ok (dsgo t q s) h ts c u r = ds_ok s h ts c u r" for r
    by (intro ds_ok_cong) (use p q in \<open>auto simp: ds_mine_def\<close>)
  then show "ds_ok (dsgo t q s) h ts c u (ds_pc (dsgo t q s) u)"
    using ok ds_shapeD(6) [OF sh, of u] by (cases "u = t") simp_all
qed (use ds_shapeD [OF sh] p q in auto)

lemma ds_nobody:
  assumes sh: "ds_shape s Nobody ts c"
  shows "c = None"
proof (rule ccontr)
  assume "c \<noteq> None"
  then obtain d where "ds_combining (ds_pc s d)" using ds_shapeD(4) [OF sh] by auto
  then show False using ds_shapeD(6) [OF sh, of d] by (cases "ds_pc s d") auto
qed

text \<open>The combiner is not disturbed by a step of another thread.\<close>

lemma ds_ok_combiner:
  assumes ok: "ds_ok s h ts c u q" and "ds_combining q" and mem: "u \<in> set ts' \<longleftrightarrow> u \<in> set ts" "ts \<noteq> [] \<Longrightarrow> ts' \<noteq> []"
    and tog: "\<And>v. v = u \<or> ds_spins s v \<Longrightarrow> ds_toggle s' v = ds_toggle s v" and sp: "\<And>v. ds_spins s v \<Longrightarrow> ds_spins s' v"
    and mine: "ds_mine s u \<Longrightarrow> ds_mine s' u" and hn: "ds_hnode s' h = ds_hnode s h"
    and nx: "\<And>x. ds_next s (ds_hnode s h) = Some x \<Longrightarrow> ds_next s' (ds_hnode s h) = Some x"
    and co: "\<And>v. v = u \<or> ds_spins s v \<Longrightarrow> ds_completed s (ds_mynode s v) \<Longrightarrow> ds_completed s' (ds_mynode s v)"
  shows "ds_ok s' h ts' c' u q"
proof -
  have my: "ds_mynode s' v = ds_mynode s v" if "v = u \<or> ds_spins s v" for v using tog [OF that] by (simp add: ds_mynode_def)
  have pend: "u \<in> set (ds_pend h ts') \<longleftrightarrow> u \<in> set (ds_pend h ts)" using mem(1) by (cases h) auto
  show ?thesis
  proof (cases q)
    case (DsFunc k p)
    then obtain v where "h = Pending v" "p = ds_mynode s v" "if v = u then ds_mine s u else ds_spins s v" "u \<notin> set ts"
      using ok by auto
    then show ?thesis using DsFunc my sp mine mem(1) by (auto split: if_splits)
  next
    case (DsCompl k p)
    then obtain v where "h = Finished v (ds_toggle s v)" "p = ds_mynode s v" "v = u \<or> ds_spins s v" "u \<notin> set (ds_pend h ts)"
      using ok by auto
    then show ?thesis using DsCompl my sp tog pend by auto
  next
    case (DsUnl k p)
    then obtain v where "h = Finished v (ds_toggle s v)" "p = ds_mynode s v" "v = u \<or> ds_spins s v" "u \<notin> set (ds_pend h ts)"
      "ds_completed s p"
      using ok by auto
    then show ?thesis using DsUnl my sp tog pend co by auto
  next
    case (DsRelU x)
    then obtain v where "h = Pending v" "x = ds_mynode s v" "ds_spins s v" "u \<notin> set (ds_pend h ts)" using ok by auto
    then show ?thesis using DsRelU my sp pend by auto
  qed (use ok assms(2) hn nx mem(2) pend in auto)
qed

text \<open>The nodes of the queue.\<close>

definition ds_nodes :: "'o dsmsynch \<Rightarrow> dshead \<Rightarrow> tid list \<Rightarrow> nat set" where
  "ds_nodes s h ts = insert (ds_hnode s h) (ds_mynode s ` set ts)"

lemma ds_waiter_cases:
  assumes "\<not> ds_combining q"
  obtains "q = DsIdle" | v where "q = DsDone v" | "q = DsRet" | "q = DsSwap" | x where "q = DsLink x" | "q = DsSpin" | "q = DsCheck"
  using assms by (cases q) auto

lemma ds_call:
  assumes sh: "ds_shape s h ts c" and idle: "ds_idle (ds_pc s t)" and s': "s' = dsgo t DsSwap (ds_prepare t arg s)"
  shows "ds_shape s' h ts c"
proof -
  define y where "y = ds_node t (\<not> ds_toggle s t)"
  have t: "t \<notin> set (ds_pend h ts)" using ds_shapeD(6) [OF sh, of t] idle by (cases "ds_pc s t") auto
  have tts: "t \<notin> set ts" "h \<noteq> Pending t" using t by (cases h; auto)+
  have my: "ds_mynode s' u = ds_mynode s u" if "u \<noteq> t" for u using that by (simp add: s')
  have myt: "ds_mynode s' t = y" by (simp add: s' y_def)
  have fl: "ds_locked s' = (ds_locked s)(y := True)" "ds_completed s' = (ds_completed s)(y := False)"
    "ds_next s' = (ds_next s)(y := None)" "ds_tail s' = ds_tail s" "ds_toggle s' = (ds_toggle s)(t := \<not> ds_toggle s t)"
    by (simp_all add: s' y_def)
  have pcs: "ds_pc s' u = ds_pc s u" if "u \<noteq> t" for u using that by (simp add: s')
  have hn: "ds_hnode s' h = ds_hnode s h" using tts my by (cases h) simp_all
  have y: "ds_mynode s u \<noteq> y" for u by (simp add: ds_mynode_def y_def)
  have yh: "h \<noteq> Nobody \<Longrightarrow> ds_hnode s h \<noteq> y"
  proof (cases h)
    case (Finished u b)
    then show ?thesis using ds_shapeD(5) [OF sh Finished] tts idle by (cases "ds_pc s t") (auto simp: y_def split: if_splits)
  qed (simp_all add: y)
  have mine: "ds_mine s' u = ds_mine s u" if "u \<noteq> t" for u
    using that y [of u] my [OF that] by (simp add: ds_mine_def s' ds_prepare_def Let_def y_def)
  have nsp: "\<not> ds_spins s t" using idle by (auto simp: ds_spins_def)
  have sp: "ds_spins s' u" if "ds_spins s u" for u
    using that nsp y [of u] my [of u] pcs [of u] by (cases "u = t") (auto simp: ds_spins_def fl)
  have sf: "ds_serving (ds_pc s' d) = ds_serving (ds_pc s d)" "ds_finishing (ds_pc s' d) = ds_finishing (ds_pc s d)" for d
    using idle by (cases "d = t"; cases "ds_pc s t"; simp add: s')+
  show ?thesis
  proof (rule ds_shapeI)
    have tu: "u \<in> set ts \<Longrightarrow> ds_pc s' u = ds_pc s u \<and> ds_mynode s' u = ds_mynode s u" for u
      using tts my pcs by (cases "u = t") auto
    have "ds_chain s' (ds_hnode s h) ts" if "h \<noteq> Nobody"
      by (rule ds_chain_cong [OF _ _ _ ds_shapeD(2) [OF sh that]]) (use tu y yh [OF that] in \<open>auto simp: fl\<close>)
    then show "if h = Nobody then ts = [] \<and> ds_tail s' = None else ds_chain s' (ds_hnode s' h) ts"
      using ds_shapeD(1) [OF sh] hn by (simp add: fl)
  next
    fix u
    have ok: "ds_ok s h ts c u (ds_pc s u)" by (rule ds_shapeD(6) [OF sh])
    show "ds_ok s' h ts c u (ds_pc s' u)"
    proof (cases "u = t")
      case True
      moreover have "ds_mine s' t" by (simp add: ds_mine_def s' ds_prepare_def Let_def ds_mynode_def)
      moreover have "h \<noteq> Finished t (\<not> ds_toggle s t)" using yh by (auto simp: y_def)
      ultimately show ?thesis using t myt fl by (simp add: s')
    next
      case u: False
      show ?thesis
      proof (cases "ds_combining (ds_pc s u)")
        case True
        have "h \<noteq> Nobody" using ok True by (cases "ds_pc s u") auto
        note yn = yh [OF this]
        have "ds_ok s' h ts c u (ds_pc s u)"
        proof (rule ds_ok_combiner [OF ok True])
          show "ds_toggle s' v = ds_toggle s v" if "v = u \<or> ds_spins s v" for v using that u nsp fl(5) by (cases "v = t") simp_all
        qed (use y yn fl hn mine [OF u] sp in auto)
        then show ?thesis using pcs [OF u] by simp
      next
        case False
        then show ?thesis using ok u y [of u] by (cases rule: ds_waiter_cases) (simp_all add: pcs mine my fl sf split: if_splits)
      qed
    qed
  next
    show "ds_combining (ds_pc s' d) \<longleftrightarrow> c = Some d" for d
      using ds_shapeD(4) [OF sh, of d] ds_shapeD(4) [OF sh, of t] idle by (cases "ds_pc s t") (auto simp: s')
  next
    fix u b
    assume h: "h = Finished u b"
    show "c \<noteq> None \<and> (if b = ds_toggle s' u then u \<notin> set ts else u \<in> set ts \<or> ds_pc s' u = DsSwap)"
      using ds_shapeD(5) [OF sh h] yh h idle by (cases "u = t") (auto simp: s' y_def)
  qed (use ds_shapeD(3) [OF sh] in simp)
qed

lemma ds_chain_snoc:
  assumes "ds_chain s x ts" and "t \<notin> set ts" and "ds_mynode s t \<noteq> x" and "ds_next s (ds_mynode s t) = None"
    and "ds_tail s = Some q"
  shows "ds_chain (dsgo t (DsLink q) (s\<lparr>ds_tail := Some (ds_mynode s t)\<rparr>)) x (ts @ [t])"
  using assms
proof (induction ts arbitrary: x)
  case (Cons u us)
  then have "ds_mynode s t \<noteq> ds_mynode s u" by simp
  then show ?case using Cons by (auto simp: ds_mynode_def split: option.splits)
qed (simp add: ds_mynode_def)

lemma ds_swap:
  assumes sh: "ds_shape s h ts c" and pc: "ds_pc s t = DsSwap"
    and s': "s' = dsgo t (case ds_tail s of Some mypred \<Rightarrow> DsLink mypred | None \<Rightarrow> DsFunc 0 (ds_mynode s t))
       (s\<lparr>ds_tail := Some (ds_mynode s t)\<rparr>)"
  shows "ds_shape s' (if h = Nobody then Pending t else h) (if h = Nobody then [] else ts @ [t]) (if h = Nobody then Some t else c)"
proof -
  have ok: "t \<notin> set (ds_pend h ts)" "ds_mine s t" "ds_locked s (ds_mynode s t)" "\<not> ds_completed s (ds_mynode s t)"
    "ds_next s (ds_mynode s t) = None" "h \<noteq> Finished t (ds_toggle s t)"
    using ds_shapeD(6) [OF sh, of t] pc by auto
  have my: "ds_mynode s' u = ds_mynode s u" for u by (simp add: s' ds_mynode_def)
  have fl: "ds_locked s' = ds_locked s" "ds_completed s' = ds_completed s" "ds_next s' = ds_next s" "ds_toggle s' = ds_toggle s"
    by (simp_all add: s')
  have mine: "ds_mine s' u = ds_mine s u" for u by (simp add: s' ds_mine_def ds_mynode_def)
  have hn: "ds_hnode s' h = ds_hnode s h" by (cases h) (simp_all add: my)
  have tail: "h \<noteq> Nobody \<Longrightarrow> ds_tail s \<noteq> None"
  proof -
    have "ds_chain s x us \<Longrightarrow> ds_tail s \<noteq> None" for x us by (induction us arbitrary: x) auto
    then show "h \<noteq> Nobody \<Longrightarrow> ds_tail s \<noteq> None" using ds_shapeD(2) [OF sh] by blast
  qed
  have pcs: "ds_pc s' u = ds_pc s u" if "u \<noteq> t" for u using that by (simp add: s')
  have sp: "ds_spins s' u = ds_spins s u" for u
    using pc by (cases "u = t") (auto simp: ds_spins_def my fl pcs s' split: option.splits)
  show ?thesis
  proof (cases "h = Nobody")
    case True
    then have e: "ts = []" "ds_tail s = None" using ds_shapeD(1) [OF sh] by auto
    have "ds_shape s' (Pending t) [] (Some t)"
    proof (rule ds_shapeI)
      fix u
      have oku: "ds_ok s h ts c u (ds_pc s u)" by (rule ds_shapeD(6) [OF sh])
      show "ds_ok s' (Pending t) [] (Some t) u (ds_pc s' u)"
      proof (cases "u = t")
        case False
        then show ?thesis using oku True e ds_nobody [of s ts c] sh by (cases "ds_pc s u") (auto simp: pcs mine my fl)
      qed (use e ok mine my in \<open>simp add: s'\<close>)
    next
      show "ds_combining (ds_pc s' d) \<longleftrightarrow> Some t = Some d" for d
      proof (cases "d = t")
        case False
        then show ?thesis using ds_shapeD(6) [OF sh, of d] True by (cases "ds_pc s d") (auto simp: pcs)
      qed (use e in \<open>simp add: s'\<close>)
    qed (use e ok in \<open>auto simp: s' ds_mynode_def\<close>)
    then show ?thesis using True by simp
  next
    case False
    then obtain q where q: "ds_tail s = Some q" using tail by blast
    have s2: "s' = dsgo t (DsLink q) (s\<lparr>ds_tail := Some (ds_mynode s t)\<rparr>)" by (simp add: s' q)
    have pend: "ds_pend h (ts @ [t]) = ds_pend h ts @ [t]" by (cases h) simp_all
    have tts: "t \<notin> set ts" using ok(1) by (cases h) auto
    have hp: "h \<noteq> Pending t" using ok(1) by auto
    have hny: "ds_mynode s t \<noteq> ds_hnode s h" using False ok(6) hp by (cases h) (auto simp: ds_mynode_def)
    have "ds_shape s' h (ts @ [t]) c"
    proof (rule ds_shapeI)
      have "ds_chain s' (ds_hnode s h) (ts @ [t])" unfolding s2
        by (rule ds_chain_snoc [OF ds_shapeD(2) [OF sh False] tts hny ok(5) q])
      then show "if h = Nobody then ts @ [t] = [] \<and> ds_tail s' = None else ds_chain s' (ds_hnode s' h) (ts @ [t])"
        using False hn by simp
    next
      fix u
      have oku: "ds_ok s h ts c u (ds_pc s u)" by (rule ds_shapeD(6) [OF sh])
      show "ds_ok s' h (ts @ [t]) c u (ds_pc s' u)"
      proof (cases "u = t")
        case u: False
        show ?thesis
        proof (cases "ds_combining (ds_pc s u)")
          case True
          have "ds_ok s' h (ts @ [t]) c u (ds_pc s u)"
            by (rule ds_ok_combiner [OF oku True]) (use u hn mine sp in \<open>auto simp: fl\<close>)
          then show ?thesis using u by (simp add: pcs)
        next
          case F: False
          have "ds_serving (ds_pc s' d) = ds_serving (ds_pc s d)" "ds_finishing (ds_pc s' d) = ds_finishing (ds_pc s d)" for d
            using pc by (cases "d = t"; simp add: s2)+
          with F show ?thesis using oku u by (cases rule: ds_waiter_cases) (auto simp: pcs mine my fl pend)
        qed
      qed (use ok mine my in \<open>simp add: s2 ds_mine_def ds_mynode_def\<close>)
    next
      show "ds_combining (ds_pc s' d) \<longleftrightarrow> c = Some d" for d
        using ds_shapeD(4) [OF sh, of d] ds_shapeD(4) [OF sh, of t] pc by (cases "d = t") (auto simp: s2)
    next
      fix u b
      assume h: "h = Finished u b"
      show "c \<noteq> None \<and> (if b = ds_toggle s' u then u \<notin> set (ts @ [t]) else u \<in> set (ts @ [t]) \<or> ds_pc s' u = DsSwap)"
        using ds_shapeD(5) [OF sh h] h ok(6) by (cases "u = t") (auto simp: pcs fl)
    qed (use ds_shapeD(3) [OF sh] ok(1) pend in simp)
    then show ?thesis using False by simp
  qed
qed

lemma ds_link_step:
  assumes sh: "ds_shape s h ts c" and pc: "ds_pc s t = DsLink q"
    and s': "s' = dsgo t DsSpin (s\<lparr>ds_next := (ds_next s)(q := Some (ds_mynode s t))\<rparr>)"
  shows "ds_shape s' h ts c"
proof -
  have ok: "t \<in> set ts" "ds_mine s t" "ds_locked s (ds_mynode s t)" "\<not> ds_completed s (ds_mynode s t)"
    using ds_shapeD(6) [OF sh, of t] pc by auto
  have hN: "h \<noteq> Nobody" using ds_shapeD(1) [OF sh] ok(1) by auto
  have my: "ds_mynode s' u = ds_mynode s u" for u by (simp add: s' ds_mynode_def)
  have fl: "ds_locked s' = ds_locked s" "ds_completed s' = ds_completed s" "ds_next s' = (ds_next s)(q := Some (ds_mynode s t))"
    "ds_toggle s' = ds_toggle s" "ds_tail s' = ds_tail s"
    by (simp_all add: s')
  have mine: "ds_mine s' u = ds_mine s u" for u by (simp add: s' ds_mine_def ds_mynode_def)
  have hn: "ds_hnode s' h = ds_hnode s h" by (cases h) (simp_all add: my)
  have pcs: "ds_pc s' u = ds_pc s u" if "u \<noteq> t" for u using that by (simp add: s')
  have sp: "ds_spins s u \<Longrightarrow> ds_spins s' u" for u
    using pc by (cases "u = t") (auto simp: ds_spins_def my fl pcs)
  have tts: "distinct ts" "ds_hnode s h \<notin> ds_mynode s ` set ts"
  proof -
    show "distinct ts" using ds_shapeD(3) [OF sh] by (cases h) auto
    show "ds_hnode s h \<notin> ds_mynode s ` set ts"
    proof (cases h)
      case (Pending u)
      then show ?thesis using ds_shapeD(3) [OF sh] by auto
    next
      case (Finished u b)
      then show ?thesis using ds_shapeD(5) [OF sh Finished] by (auto simp: ds_mynode_def split: if_splits)
    qed (use hN in simp)
  qed
  have chain: "q \<in> insert x (ds_mynode s ` set us) \<and> ds_next s q = None \<and> ds_tail s \<noteq> Some q \<and> ds_chain s' x us"
    if "ds_chain s x us" "t \<in> set us" "distinct us" "x \<notin> ds_mynode s ` set us" for x us
    using that
  proof (induction us arbitrary: x)
    case (Cons u us)
    show ?case
    proof (cases "u = t")
      case True
      then have q: "q = x" "ds_next s x = None" "ds_chain s (ds_mynode s t) us" "t \<notin> set us" using Cons.prems pc by auto
      have "ds_pc s' v = ds_pc s v" if "v \<in> set us" for v using that q(4) pcs by metis
      then have "ds_chain s' (ds_mynode s t) us"
        by (intro ds_chain_cong [OF _ _ _ q(3)]) (use q(1,4) Cons.prems(4) True in \<open>auto simp: fl my\<close>)
      moreover have "ds_tail s \<noteq> Some x"
      proof
        assume "ds_tail s = Some x"
        moreover have "ds_chain s y vs \<Longrightarrow> ds_tail s \<in> Some ` insert y (ds_mynode s ` set vs)" for y vs
          by (induction vs arbitrary: y) auto
        ultimately show False using q(3) Cons.prems(4) True by force
      qed
      ultimately show ?thesis using q True by (simp add: fl my s')
    next
      case False
      have "q \<in> insert (ds_mynode s u) (ds_mynode s ` set us) \<and> ds_next s q = None \<and> ds_tail s \<noteq> Some q \<and> ds_chain s' (ds_mynode s u) us"
        using Cons.prems False by (intro Cons.IH) auto
      then show ?thesis using Cons.prems(1,4) False by (auto simp: fl my pcs split: option.splits)
    qed
  qed simp
  have q: "ds_next s q = None" "q \<in> insert (ds_hnode s h) (ds_mynode s ` set ts)" "ds_chain s' (ds_hnode s h) ts"
    using chain [OF ds_shapeD(2) [OF sh hN] ok(1) tts] by auto
  have qu: "ds_mynode s u \<noteq> q" if "ds_pc s u = DsSwap" for u
    using ds_shapeD(6) [OF sh, of u] that q(2) hN by (cases h) (auto simp: ds_mynode_def)
  show ?thesis
  proof (rule ds_shapeI)
    fix u
    have oku: "ds_ok s h ts c u (ds_pc s u)" by (rule ds_shapeD(6) [OF sh])
    show "ds_ok s' h ts c u (ds_pc s' u)"
    proof (cases "u = t")
      case u: False
      show ?thesis
      proof (cases "ds_combining (ds_pc s u)")
        case True
        have "ds_ok s' h ts c u (ds_pc s u)"
          by (rule ds_ok_combiner [OF oku True]) (use u hn mine sp q(1) in \<open>auto simp: fl\<close>)
        then show ?thesis using u by (simp add: pcs)
      next
        case F: False
        have "ds_serving (ds_pc s' d) = ds_serving (ds_pc s d)" "ds_finishing (ds_pc s' d) = ds_finishing (ds_pc s d)" for d
          using pc by (cases "d = t"; simp add: s')+
        with F show ?thesis using oku u qu [of u] by (cases rule: ds_waiter_cases) (auto simp: pcs mine my fl)
      qed
    qed (use ok mine my in \<open>simp add: s' ds_mine_def ds_mynode_def\<close>)
  next
    show "ds_combining (ds_pc s' d) \<longleftrightarrow> c = Some d" for d
      using ds_shapeD(4) [OF sh, of d] ds_shapeD(4) [OF sh, of t] pc by (cases "d = t") (auto simp: s')
  next
    fix u b
    assume h: "h = Finished u b"
    show "c \<noteq> None \<and> (if b = ds_toggle s' u then u \<notin> set ts else u \<in> set ts \<or> ds_pc s' u = DsSwap)"
      using ds_shapeD(5) [OF sh h] ok(1) by (cases "u = t") (auto simp: pcs fl split: if_splits)
  qed (use ds_shapeD(3) [OF sh] hN q(3) hn in auto)
qed

text \<open>The steps of the combiner. Nobody else combines.\<close>

lemma ds_combiner_alone:
  assumes "ds_shape s h ts c" and "ds_combining (ds_pc s t)"
  shows "c = Some t" "u \<noteq> t \<Longrightarrow> \<not> ds_combining (ds_pc s u)"
  using ds_shapeD(4) [OF assms(1), of t] ds_shapeD(4) [OF assms(1), of u] assms(2) by auto

lemma ds_func_step:
  assumes sh: "ds_shape s (Pending v) ts c" and pc: "ds_pc s t = DsFunc k p"
    and s': "s' = dsgo t (DsCompl (k + 1) p) (s\<lparr>ds_ret := r, ds_object := obj, ds_log := l\<rparr>)"
  shows "ds_shape s' (Finished v (ds_toggle s v)) ts c"
proof -
  have ok: "t \<notin> set ts" "p = ds_mynode s v" "if v = t then ds_mine s t else ds_spins s v"
    using ds_shapeD(6) [OF sh, of t] pc by auto
  have d: "v \<notin> set ts" "distinct ts" using ds_shapeD(3) [OF sh] by auto
  have c: "c = Some t" using ds_combiner_alone [OF sh, of t] pc by simp
  have my: "ds_mynode s' u = ds_mynode s u" for u by (simp add: s')
  have fl: "ds_locked s' = ds_locked s" "ds_completed s' = ds_completed s" "ds_next s' = ds_next s" "ds_toggle s' = ds_toggle s"
    by (simp_all add: s')
  have mine: "ds_mine s' u = ds_mine s u" for u by (simp add: s' ds_mine_def)
  have pcs: "ds_pc s' u = (if u = t then DsCompl (k + 1) p else ds_pc s u)" for u by (simp add: s')
  have hn: "ds_hnode s' (Finished v (ds_toggle s v)) = ds_mynode s v" by (simp add: ds_mynode_def)
  show ?thesis
  proof (rule ds_shapeI)
    have "ds_chain s' (ds_mynode s v) ts"
      by (rule ds_chain_cong [of _ s]) (use ds_shapeD(2) [OF sh] ok(1) pc in \<open>auto simp: pcs my fl s'\<close>)
    then show "if Finished v (ds_toggle s v) = Nobody then ts = [] \<and> ds_tail s' = None
      else ds_chain s' (ds_hnode s' (Finished v (ds_toggle s v))) ts"
      unfolding hn by simp
  next
    fix u
    have oku: "ds_ok s (Pending v) ts c u (ds_pc s u)" by (rule ds_shapeD(6) [OF sh])
    show "ds_ok s' (Finished v (ds_toggle s v)) ts c u (ds_pc s' u)"
    proof (cases "u = t")
      case True
      then show ?thesis using ok by (auto simp: pcs my fl ds_spins_def)
    next
      case False
      with ds_combiner_alone(2) [OF sh, of t u] have "\<not> ds_combining (ds_pc s u)" using pc by simp
      then show ?thesis using oku False ok d c pc
        by (cases rule: ds_waiter_cases) (auto simp: pcs my fl mine ds_spins_def split: if_splits)
    qed
  qed (use ds_shapeD(4) [OF sh] d c pc in \<open>auto simp: pcs fl split: if_splits\<close>)
qed

lemma ds_compl_step:
  assumes sh: "ds_shape s h ts c" and pc: "ds_pc s t = DsCompl k p"
    and s': "s' = dsgo t (DsUnl k p) (s\<lparr>ds_completed := (ds_completed s)(p := True)\<rparr>)"
  shows "ds_shape s' h ts c"
proof -
  obtain v where ok: "t \<notin> set ts" "h = Finished v (ds_toggle s v)" "p = ds_mynode s v" "v = t \<or> ds_spins s v"
    using ds_shapeD(6) [OF sh, of t] pc by (cases h) auto
  have v: "v \<notin> set ts" using ds_shapeD(5) [OF sh ok(2)] by simp
  have c: "c = Some t" using ds_combiner_alone [OF sh, of t] pc by simp
  have my: "ds_mynode s' u = ds_mynode s u" for u by (simp add: s')
  have fl: "ds_locked s' = ds_locked s" "ds_completed s' = (ds_completed s)(p := True)" "ds_next s' = ds_next s" "ds_toggle s' = ds_toggle s"
    by (simp_all add: s')
  have mine: "ds_mine s' u = ds_mine s u" for u by (simp add: s' ds_mine_def)
  have pcs: "ds_pc s' u = (if u = t then DsUnl k p else ds_pc s u)" for u by (simp add: s')
  have hn: "ds_hnode s' h = ds_hnode s h" by (simp add: ok(2))
  show ?thesis
  proof (rule ds_shapeI)
    have "ds_chain s' (ds_hnode s h) ts"
      by (rule ds_chain_cong [of _ s]) (use ds_shapeD(2) [OF sh] ok(1,2) pc in \<open>auto simp: pcs my fl s'\<close>)
    then show "if h = Nobody then ts = [] \<and> ds_tail s' = None else ds_chain s' (ds_hnode s' h) ts"
      using hn ok(2) by simp
  next
    fix u
    have oku: "ds_ok s h ts c u (ds_pc s u)" by (rule ds_shapeD(6) [OF sh])
    show "ds_ok s' h ts c u (ds_pc s' u)"
    proof (cases "u = t")
      case True
      then show ?thesis using ok by (auto simp: pcs my fl ds_spins_def)
    next
      case False
      with ds_combiner_alone(2) [OF sh, of t u] have "\<not> ds_combining (ds_pc s u)" using pc by simp
      then show ?thesis using oku False ok v c pc
        by (cases rule: ds_waiter_cases) (auto simp: pcs my fl mine ds_spins_def split: if_splits)
    qed
  qed (use ds_shapeD(3-5) [OF sh] c pc in \<open>auto simp: pcs fl split: if_splits\<close>)
qed

lemma ds_unl_step:
  assumes sh: "ds_shape s h ts c" and pc: "ds_pc s t = DsUnl k p"
    and s': "s' = dsgo t (DsNext1 k p) (s\<lparr>ds_locked := (ds_locked s)(p := False)\<rparr>)"
  shows "ds_shape s' h ts c"
proof -
  obtain v where ok: "t \<notin> set ts" "h = Finished v (ds_toggle s v)" "p = ds_mynode s v" "v = t \<or> ds_spins s v" "ds_completed s p"
    using ds_shapeD(6) [OF sh, of t] pc by (cases h) auto
  have v: "v \<notin> set ts" using ds_shapeD(5) [OF sh ok(2)] by simp
  have c: "c = Some t" using ds_combiner_alone [OF sh, of t] pc by simp
  have my: "ds_mynode s' u = ds_mynode s u" for u by (simp add: s')
  have fl: "ds_locked s' = (ds_locked s)(p := False)" "ds_completed s' = ds_completed s" "ds_next s' = ds_next s" "ds_toggle s' = ds_toggle s"
    by (simp_all add: s')
  have mine: "ds_mine s' u = ds_mine s u" for u by (simp add: s' ds_mine_def)
  have pcs: "ds_pc s' u = (if u = t then DsNext1 k p else ds_pc s u)" for u by (simp add: s')
  have hn: "ds_hnode s' h = ds_hnode s h" "ds_hnode s h = p" using ok(2,3) by (simp_all add: ds_mynode_def)
  show ?thesis
  proof (rule ds_shapeI)
    have "ds_chain s' (ds_hnode s h) ts"
      by (rule ds_chain_cong [of _ s]) (use ds_shapeD(2) [OF sh] ok(1,2) pc in \<open>auto simp: pcs my fl s'\<close>)
    then show "if h = Nobody then ts = [] \<and> ds_tail s' = None else ds_chain s' (ds_hnode s' h) ts"
      using hn(1) ok(2) by simp
  next
    fix u
    have oku: "ds_ok s h ts c u (ds_pc s u)" by (rule ds_shapeD(6) [OF sh])
    show "ds_ok s' h ts c u (ds_pc s' u)"
    proof (cases "u = t")
      case True
      then show ?thesis using ok(1,2) hn by (simp add: pcs)
    next
      case False
      with ds_combiner_alone(2) [OF sh, of t u] have "\<not> ds_combining (ds_pc s u)" using pc by simp
      then show ?thesis using oku False ok v c pc
        by (cases rule: ds_waiter_cases) (auto simp: pcs my fl mine ds_spins_def split: if_splits)
    qed
  qed (use ds_shapeD(3-5) [OF sh] c pc in \<open>auto simp: pcs fl split: if_splits\<close>)
qed

text \<open>The combiner passes to the next node: the thread it belongs to spins on it.\<close>

lemma ds_next_head:
  assumes sh: "ds_shape s (Finished w b) ts c" and nx: "ds_next s (ds_node w b) = Some x"
  obtains v vs where "ts = v # vs" "x = ds_mynode s v" "ds_spins s v" "ds_mine s v" "\<not> ds_completed s x" "ds_chain s x vs"
    "v \<notin> set vs" "distinct vs"
proof -
  have ch: "ds_chain s (ds_node w b) ts" using ds_shapeD(2) [OF sh] by simp
  obtain v vs where ts: "ts = v # vs" using ch nx by (cases ts) auto
  have x: "ds_link (ds_pc s v) = None" "x = ds_mynode s v" "ds_chain s x vs" using ch nx ts by (auto split: option.splits)
  have "v \<notin> set vs" "distinct vs" using ds_shapeD(3) [OF sh] ts by auto
  moreover have "ds_spins s v \<and> ds_mine s v \<and> \<not> ds_completed s x"
    using ds_shapeD(6) [OF sh, of v] x ts by (cases "ds_pc s v") (auto simp: ds_spins_def)
  ultimately show thesis using that ts x by blast
qed

lemma ds_pass_step:
  assumes sh: "ds_shape s (Finished w b) ts c" and pc: "ds_combining (ds_pc s t)" "ds_finishing (ds_pc s t) = None"
    "t \<notin> set ts" "ds_next s (ds_node w b) = Some x"
    and q: "q = DsFunc k x \<or> q = DsRelU x"
  shows "\<exists>v vs. ts = v # vs \<and> ds_shape (dsgo t q s) (Pending v) vs c"
proof -
  obtain v vs where h: "ts = v # vs" "x = ds_mynode s v" "ds_spins s v" "ds_mine s v" "\<not> ds_completed s x" "ds_chain s x vs"
    "v \<notin> set vs" "distinct vs"
    by (rule ds_next_head [OF sh pc(4)])
  have c: "c = Some t" using ds_combiner_alone [OF sh pc(1)] by simp
  define s' where "s' = dsgo t q s"
  have my: "ds_mynode s' u = ds_mynode s u" for u by (simp add: s'_def)
  have fl: "ds_locked s' = ds_locked s" "ds_completed s' = ds_completed s" "ds_next s' = ds_next s" "ds_toggle s' = ds_toggle s"
    by (simp_all add: s'_def)
  have mine: "ds_mine s' u = ds_mine s u" for u by (simp add: s'_def ds_mine_def)
  have pcs: "ds_pc s' u = (if u = t then q else ds_pc s u)" for u by (simp add: s'_def)
  have qs: "ds_serving q = Some x" "ds_combining q" using q by auto
  have "ds_shape s' (Pending v) vs c"
  proof (rule ds_shapeI)
    have "ds_chain s' (ds_mynode s v) vs"
      by (rule ds_chain_cong [of _ s]) (use h pc(3) in \<open>auto simp: pcs my fl s'_def\<close>)
    then show "if Pending v = Nobody then vs = [] \<and> ds_tail s' = None else ds_chain s' (ds_hnode s' (Pending v)) vs"
      by (simp add: my)
  next
    fix u
    have oku: "ds_ok s (Finished w b) ts c u (ds_pc s u)" by (rule ds_shapeD(6) [OF sh])
    show "ds_ok s' (Pending v) vs c u (ds_pc s' u)"
    proof (cases "u = t")
      case True
      then show ?thesis using q h pc(3) by (auto simp: pcs my fl ds_spins_def)
    next
      case False
      with ds_combiner_alone(2) [OF sh pc(1)] have "\<not> ds_combining (ds_pc s u)" by simp
      then show ?thesis using oku False h c qs pc(2)
        by (cases rule: ds_waiter_cases) (auto simp: pcs my fl mine ds_spins_def split: if_splits)
    qed
  qed (use ds_shapeD(4) [OF sh] h c pc(1) qs in \<open>auto simp: pcs fl split: if_splits\<close>)
  then show ?thesis using h(1) by (auto simp: s'_def)
qed

lemma ds_relu_step:
  assumes sh: "ds_shape s h ts c" and pc: "ds_pc s t = DsRelU x"
    and s': "s' = dsgo t DsRet (s\<lparr>ds_locked := (ds_locked s)(x := False)\<rparr>)"
  shows "ds_shape s' h ts None"
proof -
  obtain v where ok: "t \<notin> set ts" "h = Pending v" "x = ds_mynode s v" "ds_spins s v" "v \<noteq> t"
    using ds_shapeD(6) [OF sh, of t] pc by (cases h) auto
  have v: "v \<notin> set ts" using ds_shapeD(3) [OF sh] ok(2) by simp
  have c: "c = Some t" using ds_combiner_alone [OF sh, of t] pc by simp
  have my: "ds_mynode s' u = ds_mynode s u" for u by (simp add: s')
  have fl: "ds_locked s' = (ds_locked s)(x := False)" "ds_completed s' = ds_completed s" "ds_next s' = ds_next s" "ds_toggle s' = ds_toggle s"
    by (simp_all add: s')
  have mine: "ds_mine s' u = ds_mine s u" for u by (simp add: s' ds_mine_def)
  have pcs: "ds_pc s' u = (if u = t then DsRet else ds_pc s u)" for u by (simp add: s')
  show ?thesis
  proof (rule ds_shapeI)
    have "ds_chain s' (ds_mynode s v) ts"
      by (rule ds_chain_cong [of _ s]) (use ds_shapeD(2) [OF sh] ok(1,2) pc in \<open>auto simp: pcs my fl s'\<close>)
    then show "if h = Nobody then ts = [] \<and> ds_tail s' = None else ds_chain s' (ds_hnode s' h) ts"
      using ok(2) by (simp add: my)
  next
    fix u
    have oku: "ds_ok s h ts c u (ds_pc s u)" by (rule ds_shapeD(6) [OF sh])
    show "ds_ok s' h ts None u (ds_pc s' u)"
    proof (cases "u = t")
      case True
      then show ?thesis using ok(1,2,5) by (simp add: pcs)
    next
      case False
      with ds_combiner_alone(2) [OF sh, of t u] have "\<not> ds_combining (ds_pc s u)" using pc by simp
      then show ?thesis using oku False ok v c pc
        by (cases rule: ds_waiter_cases) (auto simp: pcs my fl mine ds_spins_def split: if_splits)
    qed
  qed (use ds_shapeD(3-5) [OF sh] c pc ok(2) in \<open>auto simp: pcs fl split: if_splits\<close>)
qed

lemma ds_chain_tail: "ds_chain s x ts \<Longrightarrow> ds_tail s = Some (last (x # map (ds_mynode s) ts))"
  by (induction ts arbitrary: x) auto

lemma ds_cas_step:
  assumes sh: "ds_shape s h ts c" and pc: "ds_pc s t = DsCas p" and tail: "ds_tail s = Some p"
    and s': "s' = dsgo t DsRet (s\<lparr>ds_tail := None\<rparr>)"
  shows "ts = [] \<and> ds_shape s' Nobody [] None"
proof -
  obtain w b where ok: "t \<notin> set ts" "h = Finished w b" "p = ds_node w b"
    using ds_shapeD(6) [OF sh, of t] pc by (cases h) auto
  have ts: "ts = []"
  proof (rule ccontr)
    assume "ts \<noteq> []"
    then have "p \<in> ds_mynode s ` set ts"
      using ds_chain_tail [of s "ds_hnode s h" ts] ds_shapeD(2) [OF sh] ok(2) tail by (auto simp: last_map)
    then show False using ds_shapeD(5) [OF sh ok(2)] ok(3) by (auto simp: ds_mynode_def)
  qed
  have c: "c = Some t" using ds_combiner_alone [OF sh, of t] pc by simp
  have fl: "ds_locked s' = ds_locked s" "ds_completed s' = ds_completed s" "ds_next s' = ds_next s" "ds_toggle s' = ds_toggle s"
    "ds_mynode s' u = ds_mynode s u" for u
    by (simp_all add: s')
  have mine: "ds_mine s' u = ds_mine s u" for u by (simp add: s' ds_mine_def)
  have pcs: "ds_pc s' u = (if u = t then DsRet else ds_pc s u)" for u by (simp add: s')
  have "ds_shape s' Nobody [] None"
  proof (rule ds_shapeI)
    fix u
    have oku: "ds_ok s h ts c u (ds_pc s u)" by (rule ds_shapeD(6) [OF sh])
    show "ds_ok s' Nobody [] None u (ds_pc s' u)"
    proof (cases "u = t")
      case False
      with ds_combiner_alone(2) [OF sh, of t u] have "\<not> ds_combining (ds_pc s u)" using pc by simp
      then show ?thesis using oku False ok ts c pc
        by (cases rule: ds_waiter_cases) (auto simp: pcs fl mine split: if_splits)
    qed (simp add: pcs)
  next
    show "ds_combining (ds_pc s' d) \<longleftrightarrow> None = Some d" for d
      using ds_combiner_alone(2) [OF sh, of t d] pc by (auto simp: pcs)
  qed (simp_all add: s')
  then show ?thesis using ts by blast
qed

text \<open>The thread whose turn it is starts to combine.\<close>

lemma ds_lead_step:
  assumes sh: "ds_shape s (Pending t) ts None" and pc: "ds_pc s t = DsCheck"
  shows "ds_shape (dsgo t (DsFunc 0 (ds_mynode s t)) s) (Pending t) ts (Some t)"
proof -
  define s' where "s' = dsgo t (DsFunc 0 (ds_mynode s t)) s"
  have ok: "t \<notin> set ts" "ds_mine s t" using ds_shapeD(6) [OF sh, of t] pc by auto
  have my: "ds_mynode s' u = ds_mynode s u" for u by (simp add: s'_def)
  have fl: "ds_locked s' = ds_locked s" "ds_completed s' = ds_completed s" "ds_next s' = ds_next s" "ds_toggle s' = ds_toggle s"
    by (simp_all add: s'_def)
  have mine: "ds_mine s' u = ds_mine s u" for u by (simp add: s'_def ds_mine_def)
  have pcs: "ds_pc s' u = (if u = t then DsFunc 0 (ds_mynode s t) else ds_pc s u)" for u by (simp add: s'_def)
  have none: "\<not> ds_combining (ds_pc s u)" for u using ds_shapeD(4) [OF sh] by simp
  have "ds_shape s' (Pending t) ts (Some t)"
  proof (rule ds_shapeI)
    have "ds_chain s' (ds_mynode s t) ts"
      by (rule ds_chain_cong [of _ s]) (use ds_shapeD(2) [OF sh] ok(1) in \<open>auto simp: pcs my fl s'_def\<close>)
    then show "if Pending t = Nobody then ts = [] \<and> ds_tail s' = None else ds_chain s' (ds_hnode s' (Pending t)) ts"
      by (simp add: my)
  next
    fix u
    have oku: "ds_ok s (Pending t) ts None u (ds_pc s u)" by (rule ds_shapeD(6) [OF sh])
    show "ds_ok s' (Pending t) ts (Some t) u (ds_pc s' u)"
    proof (cases "u = t")
      case False
      with none [of u] show ?thesis using oku
        by (cases rule: ds_waiter_cases) (auto simp: pcs my fl mine split: if_splits)
    qed (use ok mine in \<open>simp add: pcs my\<close>)
  qed (use ds_shapeD(3) [OF sh] none in \<open>auto simp: pcs fl\<close>)
  then show ?thesis by (simp add: s'_def)
qed

section \<open>Linearizability\<close>

fun ds_announced :: "dspc \<Rightarrow> bool" where
  "ds_announced DsIdle = False"
| "ds_announced DsSwap = False"
| "ds_announced (DsDone v) = False"
| "ds_announced _ = True"

definition ds_account :: "'o dsmsynch \<Rightarrow> tid list \<Rightarrow> bool" where
  "ds_account s ps \<longleftrightarrow> (\<forall>t. cc_entries t (ds_log s) =
     ds_hist s t @ (if ds_announced (ds_pc s t) \<and> t \<notin> set ps then [(ds_arg s t, ds_ret s (ds_mynode s t))] else []))"

definition own_pid :: "(tid \<times> i32 \<times> i32 \<times> i32) list \<Rightarrow> bool" where
  "own_pid l \<longleftrightarrow> list_all (\<lambda>(t, a, i, r). i = of_nat t) l"

definition ds_core :: "'o dsmsynch \<Rightarrow> bool" where
  "ds_core s \<longleftrightarrow> (\<exists>h ts c. ds_shape s h ts c \<and> ds_account s (ds_pend h ts)) \<and> own_pid (ds_log s)"

definition ds_inv :: "(i32 \<Rightarrow> i32 \<Rightarrow> 'o \<Rightarrow> i32 \<times> 'o) \<Rightarrow> 'o \<Rightarrow> 'o dsmsynch \<Rightarrow> bool" where
  "ds_inv f obj s \<longleftrightarrow> ds_core s \<and> cc_legal f obj (ds_log s) (ds_object s)"

lemma ds_account_same:
  assumes "ds_account s ps" and "ds_log s' = ds_log s" and "ds_hist s' = ds_hist s"
    and "\<And>u. ds_announced (ds_pc s' u) \<and> u \<notin> set ps' \<longleftrightarrow> ds_announced (ds_pc s u) \<and> u \<notin> set ps"
    and "\<And>u. ds_announced (ds_pc s u) \<Longrightarrow> u \<notin> set ps \<Longrightarrow>
      ds_arg s' u = ds_arg s u \<and> ds_ret s' (ds_mynode s' u) = ds_ret s (ds_mynode s u)"
  shows "ds_account s' ps'"
  using assms unfolding ds_account_def by (auto split: if_splits)

lemma ds_account_go:
  "ds_account s ps \<Longrightarrow> ds_announced q = ds_announced (ds_pc s t) \<Longrightarrow> ds_account (dsgo t q s) ps"
  by (rule ds_account_same [of s]) auto

lemma ds_coreI: "ds_shape s h ts c \<Longrightarrow> ds_account s (ds_pend h ts) \<Longrightarrow> own_pid (ds_log s) \<Longrightarrow> ds_core s"
  unfolding ds_core_def by blast

lemma ds_served:
  assumes sh: "ds_shape s (Pending v) ts c" and pc: "ds_pc s t = DsFunc k p"
  shows "p = ds_mynode s v" "ds_mine s v" "ds_announced (ds_pc s v)" "v \<notin> set ts"
proof -
  have ok: "p = ds_mynode s v" "if v = t then ds_mine s t else ds_spins s v"
    using ds_shapeD(6) [OF sh, of t] pc by auto
  then show "p = ds_mynode s v" by blast
  show "v \<notin> set ts" using ds_shapeD(3) [OF sh] by simp
  then show "ds_mine s v" using ok(2) ds_shapeD(6) [OF sh, of v] by (auto simp: ds_spins_def split: if_splits)
  show "ds_announced (ds_pc s v)" using ok(2) pc by (auto simp: ds_spins_def split: if_splits)
qed

text \<open>The step that applies \<open>sfunc\<close>.\<close>

lemma ds_func_core:
  assumes sh: "ds_shape s h ts c" and ac: "ds_account s (ds_pend h ts)" and own: "own_pid (ds_log s)" and pc: "ds_pc s t = DsFunc k p" and run: "dsm_applyOp f n (DsFunc k p) t s = Some s'"
  shows "ds_core s'"
proof -
  obtain v where h: "h = Pending v" using ds_shapeD(6) [OF sh, of t] pc by auto
  note v = ds_served [OF sh [unfolded h] pc]
  let ?y = "f (ds_node_arg s p) (ds_pid s p) (ds_object s)"
  have s': "s' = dsgo t (DsCompl (k + 1) p) (s\<lparr>ds_ret := (ds_ret s)(p := fst ?y), ds_object := snd ?y,
      ds_log := ds_log s @ [(v, ds_node_arg s p, ds_pid s p, fst ?y)]\<rparr>)"
    using run v(1) by (auto simp: ds_mynode_def split: prod.splits)
  have "ds_shape s' (Finished v (ds_toggle s v)) ts c" by (rule ds_func_step [OF sh [unfolded h] pc s'])
  moreover have "ds_account s' (ds_pend (Finished v (ds_toggle s v)) ts)"
    unfolding ds_account_def
  proof
    fix u
    have "cc_entries u (ds_log s) = ds_hist s u @
        (if ds_announced (ds_pc s u) \<and> u \<notin> set (ds_pend h ts) then [(ds_arg s u, ds_ret s (ds_mynode s u))] else [])"
      using ac by (simp add: ds_account_def)
    then show "cc_entries u (ds_log s') = ds_hist s' u @
        (if ds_announced (ds_pc s' u) \<and> u \<notin> set (ds_pend (Finished v (ds_toggle s v)) ts)
         then [(ds_arg s' u, ds_ret s' (ds_mynode s' u))] else [])"
      using v pc h by (cases "u = v"; cases "u = t") (auto simp: s' cc_entries_snoc ds_mine_def)
  qed
  moreover have "own_pid (ds_log s')" using own v by (simp add: s' own_pid_def ds_mine_def)
  ultimately show ?thesis by (rule ds_coreI)
qed

lemma ds_applyOp_core:
  assumes inv: "ds_core s" and run: "dsm_applyOp f n (ds_pc s t) t s = Some s'"
  shows "ds_core s'"
proof -
  obtain h ts c where sh: "ds_shape s h ts c" and ac: "ds_account s (ds_pend h ts)" and own: "own_pid (ds_log s)"
    using inv by (auto simp: ds_core_def)
  have ok: "ds_ok s h ts c t (ds_pc s t)" by (rule ds_shapeD(6) [OF sh])
  have go: ?thesis if "s' = dsgo t q s" "ds_ok (dsgo t q s) h ts c t q" "ds_announced q = ds_announced (ds_pc s t)"
    "ds_serving (ds_pc s t) = None" "ds_finishing (ds_pc s t) = None" "ds_link (ds_pc s t) = None" "\<not> ds_spins s t"
    "ds_pc s t \<noteq> DsSwap" "ds_combining q = ds_combining (ds_pc s t)" "ds_link q = None" "ds_serving q = None" "ds_finishing q = None"
    "q \<noteq> DsSpin" for q
    using ds_coreI [of s' h ts c] ds_shape_go [OF sh that(2,4-)] ds_account_go [OF ac that(3)] own that(1) by simp
  show ?thesis
  proof (cases "ds_pc s t")
    case DsSwap
    have s': "s' = dsgo t (case ds_tail s of Some mypred \<Rightarrow> DsLink mypred | None \<Rightarrow> DsFunc 0 (ds_mynode s t))
       (s\<lparr>ds_tail := Some (ds_mynode s t)\<rparr>)" using run DsSwap by simp
    have "ds_account s' (ds_pend (if h = Nobody then Pending t else h) (if h = Nobody then [] else ts @ [t]))"
      by (rule ds_account_same [OF ac]; cases h) (use DsSwap ds_shapeD(1) [OF sh] in \<open>auto simp: s' split: option.splits\<close>)
    then show ?thesis using ds_coreI [OF ds_swap [OF sh DsSwap s']] own by (simp add: s')
  next
    case (DsLink q)
    have s': "s' = dsgo t DsSpin (s\<lparr>ds_next := (ds_next s)(q := Some (ds_mynode s t))\<rparr>)" using run DsLink by simp
    have "ds_account s' (ds_pend h ts)" by (rule ds_account_same [OF ac]) (use DsLink in \<open>auto simp: s'\<close>)
    then show ?thesis using ds_coreI [OF ds_link_step [OF sh DsLink s']] own by (simp add: s')
  next
    case DsSpin
    show ?thesis
    proof (cases "ds_locked s (ds_mynode s t)")
      case False
      then show ?thesis using run DsSpin ok by (intro go [of DsCheck]) (auto simp: ds_spins_def ds_mine_def split: if_splits)
    qed (use run DsSpin inv in simp)
  next
    case DsCheck
    show ?thesis
    proof (cases "h = Pending t")
      case True
      then have c: "c = None" "\<not> ds_completed s (ds_mynode s t)" using ok DsCheck by auto
      have "ds_shape s' h ts (Some t)" using ds_lead_step [of s t ts] sh True c run DsCheck by simp
      moreover have "ds_account s' (ds_pend h ts)" using run DsCheck c by (auto intro: ds_account_go [OF ac])
      ultimately show ?thesis using own run DsCheck by (intro ds_coreI) auto
    next
      case False
      have "t \<notin> set ts" using ok DsCheck by simp
      then have "t \<notin> set (ds_pend h ts)" using False by (cases h) auto
      then show ?thesis using run DsCheck ok False by (intro go [of DsRet]) (auto simp: ds_spins_def)
    qed
  next
    case (DsFunc k p)
    then show ?thesis using ds_func_core [OF sh ac own DsFunc] run by simp
  next
    case (DsCompl k p)
    have s': "s' = dsgo t (DsUnl k p) (s\<lparr>ds_completed := (ds_completed s)(p := True)\<rparr>)" using run DsCompl by simp
    have "ds_account s' (ds_pend h ts)" by (rule ds_account_same [OF ac]) (use DsCompl in \<open>auto simp: s'\<close>)
    then show ?thesis using ds_coreI [OF ds_compl_step [OF sh DsCompl s']] own by (simp add: s')
  next
    case (DsUnl k p)
    have s': "s' = dsgo t (DsNext1 k p) (s\<lparr>ds_locked := (ds_locked s)(p := False)\<rparr>)" using run DsUnl by simp
    have "ds_account s' (ds_pend h ts)" by (rule ds_account_same [OF ac]) (use DsUnl in \<open>auto simp: s'\<close>)
    then show ?thesis using ds_coreI [OF ds_unl_step [OF sh DsUnl s']] own by (simp add: s')
  next
    case (DsNext1 k p)
    then show ?thesis using run ok
      by (intro go [of "if ds_next s p = None then DsEnd p else DsNext2 k p"]) (auto simp: ds_spins_def)
  next
    case (DsNext2 k p)
    then obtain x where "ds_next s p = Some x" "s' = dsgo t (DsNext3 k p x) s" using run by auto
    then show ?thesis using DsNext2 ok by (intro go [of "DsNext3 k p x"]) (auto simp: ds_spins_def)
  next
    case (DsNext3 k p x)
    then show ?thesis using run ok
      by (intro go [of "if ds_next s x = None \<or> k \<ge> DSMSIM_HELP_BOUND n then DsEnd p else DsAdv k p"]) (auto simp: ds_spins_def)
  next
    case (DsAdv k p)
    then obtain x w b where x: "ds_next s p = Some x" "s' = dsgo t (DsFunc k x) s" "h = Finished w b" "p = ds_node w b" "t \<notin> set ts"
      using run ok by auto
    then obtain v vs where v: "ts = v # vs" "ds_shape s' (Pending v) vs c"
      using ds_pass_step [of s w b ts c t x "DsFunc k x"] sh DsAdv by auto
    have "ds_account s' (ds_pend (Pending v) vs)" by (rule ds_account_same [OF ac]) (use DsAdv x v in auto)
    then show ?thesis using ds_coreI [OF v(2)] own x(2) by simp
  next
    case (DsEnd p)
    then show ?thesis using run ok
      by (intro go [of "if ds_next s p = None then DsTail p else DsRel p"]) (auto simp: ds_spins_def)
  next
    case (DsTail p)
    have "ts \<noteq> []" if "ds_tail s \<noteq> Some p"
      using that ds_shapeD(2) [OF sh] ok DsTail by (cases ts) auto
    then show ?thesis using run ok DsTail
      by (intro go [of "if ds_tail s = Some p then DsCas p else DsWait p"]) (auto simp: ds_spins_def)
  next
    case (DsCas p)
    show ?thesis
    proof (cases "ds_tail s = Some p")
      case True
      then have s': "s' = dsgo t DsRet (s\<lparr>ds_tail := None\<rparr>)" using run DsCas by simp
      note c = ds_cas_step [OF sh DsCas True s']
      have "ds_account s' (ds_pend Nobody [])"
        by (rule ds_account_same [OF ac]) (use DsCas c ok in \<open>auto simp: s'\<close>)
      then show ?thesis using ds_coreI [OF conjunct2 [OF c]] own by (simp add: s')
    next
      case False
      then have "ts \<noteq> []" using ds_shapeD(2) [OF sh] ok DsCas by (cases ts) auto
      then show ?thesis using run ok DsCas False by (intro go [of "DsWait p"]) (auto simp: ds_spins_def)
    qed
  next
    case (DsWait p)
    show ?thesis
    proof (cases "ds_next s p = None")
      case False
      then show ?thesis using run ok DsWait by (intro go [of "DsRel p"]) (auto simp: ds_spins_def)
    qed (use run DsWait inv in simp)
  next
    case (DsRel p)
    then obtain x w b where x: "ds_next s p = Some x" "s' = dsgo t (DsRelU x) s" "h = Finished w b" "p = ds_node w b" "t \<notin> set ts"
      using run ok by auto
    then obtain v vs where v: "ts = v # vs" "ds_shape s' (Pending v) vs c"
      using ds_pass_step [of s w b ts c t x "DsRelU x" 0] sh DsRel by auto
    have "ds_account s' (ds_pend (Pending v) vs)" by (rule ds_account_same [OF ac]) (use DsRel x v in auto)
    then show ?thesis using ds_coreI [OF v(2)] own x(2) by simp
  next
    case (DsRelU x)
    have s': "s' = dsgo t DsRet (s\<lparr>ds_locked := (ds_locked s)(x := False)\<rparr>)" using run DsRelU by simp
    have "ds_account s' (ds_pend h ts)" by (rule ds_account_same [OF ac]) (use DsRelU in \<open>auto simp: s'\<close>)
    then show ?thesis using ds_coreI [OF ds_relu_step [OF sh DsRelU s']] own by (simp add: s')
  next
    case DsRet
    have s': "s' = dsgo t (DsDone (ds_ret s (ds_mynode s t)))
       (s\<lparr>ds_hist := (ds_hist s)(t := ds_hist s t @ [(ds_arg s t, ds_ret s (ds_mynode s t))])\<rparr>)" using run DsRet by simp
    have "ds_shape (dsgo t (DsDone (ds_ret s (ds_mynode s t))) s) h ts c"
      by (rule ds_shape_go [OF sh]) (use DsRet ok in \<open>auto simp: ds_spins_def\<close>)
    moreover have "s' = (dsgo t (DsDone (ds_ret s (ds_mynode s t))) s)
      \<lparr>ds_hist := (ds_hist s)(t := ds_hist s t @ [(ds_arg s t, ds_ret s (ds_mynode s t))])\<rparr>"
      by (simp add: s' dsgo_def)
    ultimately have "ds_shape s' h ts c" using ds_shape_hist by metis
    moreover have "ds_account s' (ds_pend h ts)"
      using ac DsRet ok by (auto simp: ds_account_def s')
    ultimately show ?thesis using own by (intro ds_coreI) (auto simp: s')
  qed (use run in auto)
qed

lemma dsm_applyOp_log:
  assumes "dsm_applyOp f n pc t s = Some s'"
  shows "ds_log s' = ds_log s \<and> ds_object s' = ds_object s \<or>
    (\<exists>u a i. ds_log s' = ds_log s @ [(u, a, i, fst (f a i (ds_object s)))] \<and> ds_object s' = snd (f a i (ds_object s)))"
  using assms by (cases pc) (auto split: prod.splits option.splits if_splits)

lemma ds_call_account:
  assumes sh: "ds_shape s h ts c" and ac: "ds_account s (ds_pend h ts)" and idle: "ds_idle (ds_pc s t)"
  shows "ds_account (dsgo t DsSwap (ds_prepare t arg s)) (ds_pend h ts)"
proof -
  have "\<not> ds_announced (ds_pc s t)" using idle by (cases "ds_pc s t") auto
  then show ?thesis by (intro ds_account_same [OF ac]) auto
qed

lemma dsm_step_core:
  assumes inv: "ds_core s" and run: "dsm_step f n e s = Some s'"
  shows "ds_core s'"
proof (cases e)
  case (DsCall t arg)
  then have idle: "ds_idle (ds_pc s t)" and s': "s' = dsgo t DsSwap (ds_prepare t arg s)" using run by (auto split: if_splits)
  obtain h ts c where sh: "ds_shape s h ts c" and ac: "ds_account s (ds_pend h ts)" using inv by (auto simp: ds_core_def)
  have "ds_account s' (ds_pend h ts)" unfolding s' by (rule ds_call_account [OF sh ac idle])
  moreover have "own_pid (ds_log s')" using inv by (simp add: ds_core_def s')
  ultimately show ?thesis by (rule ds_coreI [OF ds_call [OF sh idle s']])
qed (use run ds_applyOp_core [OF inv] in simp)

lemma dsm_step_log:
  assumes "dsm_step f n e s = Some s'"
  shows "ds_log s' = ds_log s \<and> ds_object s' = ds_object s \<or>
    (\<exists>u a i. ds_log s' = ds_log s @ [(u, a, i, fst (f a i (ds_object s)))] \<and> ds_object s' = snd (f a i (ds_object s)))"
proof (cases e)
  case (DsRun t)
  then show ?thesis using dsm_applyOp_log [of f n "ds_pc s t" t s s'] assms by simp
qed (use assms in \<open>auto split: if_splits\<close>)

lemma dsm_step_inv:
  assumes inv: "ds_inv f obj s" and run: "dsm_step f n e s = Some s'"
  shows "ds_inv f obj s'"
  using inv dsm_step_core [OF _ run] dsm_step_log [OF run] cc_legal_snoc [of f obj "ds_log s" "ds_object s"] by (auto simp: ds_inv_def)

interpretation dsmsynchm: machine "dsm_step f n" "ds_inv f obj" for f n obj
  by unfold_locales (rule dsm_step_inv)

lemma dsm_init_core: "ds_core (dsm_lock_init m obj)"
proof (rule ds_coreI)
  show "ds_shape (dsm_lock_init m obj) Nobody [] None" by (rule ds_shapeI) (simp_all add: dsm_lock_init_def)
qed (simp_all add: dsm_lock_init_def ds_account_def cc_entries_def own_pid_def)

lemma dsm_init_inv: "ds_inv f obj (dsm_lock_init m obj)"
  using dsm_init_core by (simp add: ds_inv_def) (simp add: dsm_lock_init_def)

lemma dsm_run_inv: "mrun (dsm_step f n) es (dsm_lock_init m obj) = Some s \<Longrightarrow> ds_inv f obj s"
  by (rule dsmsynchm.good_run [OF dsm_init_inv])

text \<open>
  Nodes that hold anything at the start. Thread 0 leads, thread 1 queues behind it and is helped, thread 2
  is woken to lead next; thread 1 calls a second time, with its other node, and leads at last.
\<close>

definition demo_memory :: "i32 dsmsynch" where
  "demo_memory = \<lparr>ds_tail = Some 7, ds_next = (\<lambda>x. Some x), ds_node_arg = (\<lambda>x. 9), ds_ret = (\<lambda>x. 9), ds_locked = (\<lambda>x. False),
     ds_completed = (\<lambda>x. True), ds_pid = (\<lambda>x. 9), ds_toggle = (\<lambda>t. True), ds_pc = (\<lambda>t. DsIdle), ds_arg = (\<lambda>t. 0), ds_object = 0,
     ds_log = [], ds_hist = (\<lambda>t. [])\<rparr>"

definition demo_ds :: "dsev list" where
  "demo_ds = [DsCall 0 3, DsRun 0, DsCall 1 5, DsRun 1, DsRun 1, DsCall 2 7, DsRun 2, DsRun 2] @ replicate 14 (DsRun 0) @
     replicate 3 (DsRun 1) @ [DsCall 1 2, DsRun 1, DsRun 1] @ replicate 3 (DsRun 0) @ replicate 12 (DsRun 2) @
     replicate 10 (DsRun 1)"

lemma demo_ds_run:
  "map_option (\<lambda>s. (map (ds_pc s) [0, 1, 2], map (ds_hist s) [0, 1, 2], ds_object s, ds_tail s))
     (mrun (dsm_step (\<lambda>a i x. (x * a, x * a)) 3) demo_ds (dsm_lock_init demo_memory 1)) =
   Some ([DsDone 3, DsDone 210, DsDone 105], [[(3, 3)], [(5, 15), (2, 210)], [(7, 105)]], 210, None)"
  by code_simp

section \<open>Properties\<close>

text \<open>
  (C32) DSM-Synch makes the object linearizable, whatever its nodes hold at the start: in every reachable
  state the applications of \<open>sfunc\<close> that were made form a sequential run from the initial to the current
  object; each is made with the \<open>pid\<close> of the thread it is for; each thread's operations occur in the
  thread's own order with the results the thread got, one operation at most having been applied and
  not yet returned, none when the thread is outside \<open>applyOp\<close>; and two threads never combine at the
  same time.
\<close>

theorem dsm_linearizable:
  assumes "mrun (dsm_step f n) es (dsm_lock_init m obj) = Some s"
  shows "cc_legal f obj (ds_log s) (ds_object s) \<and> own_pid (ds_log s) \<and>
    (\<forall>t. \<exists>now. cc_entries t (ds_log s) = ds_hist s t @ now \<and> length now \<le> 1 \<and> (ds_idle (ds_pc s t) \<longrightarrow> now = [])) \<and>
    (\<forall>t u. ds_combining (ds_pc s t) \<and> ds_combining (ds_pc s u) \<longrightarrow> t = u)"
proof -
  obtain h ts c where sh: "ds_shape s h ts c" and ac: "ds_account s (ds_pend h ts)"
    and le: "cc_legal f obj (ds_log s) (ds_object s)" "own_pid (ds_log s)"
    using dsm_run_inv [OF assms] by (auto simp: ds_inv_def ds_core_def)
  have "\<exists>now. cc_entries t (ds_log s) = ds_hist s t @ now \<and> length now \<le> 1 \<and> (ds_idle (ds_pc s t) \<longrightarrow> now = [])" for t
    using ac by (cases "ds_pc s t") (auto simp: ds_account_def)
  moreover have "t = u" if "ds_combining (ds_pc s t)" "ds_combining (ds_pc s u)" for t u
    using that ds_shapeD(4) [OF sh] by (metis option.inject)
  ultimately show ?thesis using le by blast
qed

theorem dsm_linearizable_witness:
  "\<exists>s. mrun (dsm_step (\<lambda>a i x. (x * a, x * a)) 3) demo_ds (dsm_lock_init demo_memory 1) = Some s \<and>
    cc_entries 0 (ds_log s) = [(3, 3)] \<and> cc_entries 1 (ds_log s) = [(5, 15), (2, 210)] \<and> ds_object s = 210"
proof -
  obtain s where s: "mrun (dsm_step (\<lambda>a i x. (x * a, x * a)) 3) demo_ds (dsm_lock_init demo_memory 1) = Some s"
    "ds_pc s 0 = DsDone 3" "ds_pc s 1 = DsDone 210" "ds_hist s 0 = [(3, 3)]" "ds_hist s 1 = [(5, 15), (2, 210)]" "ds_object s = 210"
    using demo_ds_run by auto
  have "\<forall>t. \<exists>now. cc_entries t (ds_log s) = ds_hist s t @ now \<and> length now \<le> 1 \<and> (ds_idle (ds_pc s t) \<longrightarrow> now = [])"
    using dsm_linearizable [OF s(1)] by blast
  from this [rule_format, of 0] this [rule_format, of 1] show ?thesis using s by auto
qed

text \<open>
  (C33) DSM-Synch does not deadlock: as long as a thread is inside \<open>applyOp\<close>, some thread that is inside can
  take a step that is not a turn of a waiting loop.
\<close>

theorem dsm_progress:
  assumes "mrun (dsm_step f n) es (dsm_lock_init m obj) = Some s" and "\<not> ds_idle (ds_pc s t)"
  shows "\<exists>u s'. \<not> ds_idle (ds_pc s u) \<and> dsm_step f n (DsRun u) s = Some s' \<and> ds_pc s' u \<noteq> ds_pc s u"
proof -
  obtain h ts c where sh: "ds_shape s h ts c" using dsm_run_inv [OF assms(1)] by (auto simp: ds_inv_def ds_core_def)
  have ok: "ds_ok s h ts c u (ds_pc s u)" for u by (rule ds_shapeD(6) [OF sh])
  have moves: ?thesis if "\<not> ds_idle (ds_pc s u)" "\<not> ds_spins s u" "\<And>p. ds_pc s u = DsWait p \<Longrightarrow> ds_next s p \<noteq> None" for u
    using that ok [of u] by (intro exI [of _ u], cases "ds_pc s u") (auto simp: ds_spins_def split: prod.splits option.splits)
  show ?thesis
  proof (cases c)
    case (Some d)
    then have d: "ds_combining (ds_pc s d)" using ds_shapeD(4) [OF sh] by simp
    then have id: "\<not> ds_idle (ds_pc s d)" "\<not> ds_spins s d" by (cases "ds_pc s d"; simp add: ds_spins_def)+
    show ?thesis
    proof (cases "\<exists>p. ds_pc s d = DsWait p \<and> ds_next s p = None")
      case True
      then obtain p v vs where p: "ds_next s (ds_hnode s h) = None" "ts = v # vs" "h \<noteq> Nobody"
        using ok [of d] by (cases ts) auto
      then have "ds_link (ds_pc s v) \<noteq> None" using ds_shapeD(2) [OF sh] by (auto split: option.splits)
      then show ?thesis by (intro moves [of v]; cases "ds_pc s v") (auto simp: ds_spins_def)
    next
      case False
      then show ?thesis by (intro moves [OF id]) auto
    qed
  next
    case None
    show ?thesis
    proof (cases h)
      case (Pending u)
      have "\<not> ds_combining (ds_pc s u)" using ds_shapeD(4) [OF sh] None by simp
      then show ?thesis using ok [of u] ds_shapeD(3) [OF sh] Pending None
        by (intro moves [of u]; cases "ds_pc s u") (auto simp: ds_spins_def split: if_splits)
    next
      case Nobody
      have "\<not> ds_combining (ds_pc s t)" using ds_shapeD(4) [OF sh] None by simp
      then show ?thesis using ok [of t] ds_shapeD(1) [OF sh] Nobody None assms(2)
        by (intro moves [of t]; cases "ds_pc s t") (auto simp: ds_spins_def split: if_splits)
    next
      case (Finished u b)
      then show ?thesis using ds_shapeD(5) [OF sh] None by blast
    qed
  qed
qed

theorem dsm_progress_witness:
  "\<exists>s u s'. mrun (dsm_step (\<lambda>a i x. (x * a, x * a)) 3) [DsCall 0 3] (dsm_lock_init demo_memory 1) = Some s \<and>
    dsm_step (\<lambda>a i x. (x * a, x * a)) 3 (DsRun u) s = Some s'"
proof -
  obtain s where s: "mrun (dsm_step (\<lambda>a i x. (x * a, x * a)) 3) [DsCall 0 3] (dsm_lock_init demo_memory 1) = Some s" "ds_pc s 0 = DsSwap"
    by (simp add: dsm_lock_init_def)
  then show ?thesis using dsm_progress [OF s(1), of 0] by auto
qed

end
