(* ===== verification/StackLocks.thy ===== *)
theory StackLocks
  imports HSynch DsmSynch
begin

text \<open>
  The concurrent stacks of \<open>synch1.0.1\<close> that use a combining lock. \<open>dsmstack.c\<close> and \<open>hstack.c\<close> pass \<open>push\<close> or
  \<open>pop\<close> to the \<open>applyOp\<close> of one lock, and a combiner applies the function it was given itself to every
  operation it helps. \<open>ccstack.h\<close> has an \<open>applyOp\<close> of its own, which tells the operations apart by the value
  in the node, but publishes the node before it stores that value.
\<close>

section \<open>\<open>dsmstack.c\<close>\<close>

datatype stackfn = FnPush | FnPop

fun dsms_fn :: "stackfn \<Rightarrow> i32 \<Rightarrow> i32 \<Rightarrow> serials \<Rightarrow> i32 \<times> serials" where
  "dsms_fn FnPush = dsms_push"
| "dsms_fn FnPop = dsms_pop"

text \<open>\<open>dk_sfunc t\<close> is the parameter \<open>sfunc\<close> of the call of \<open>applyOp\<close> thread \<open>t\<close> is in.\<close>

record dsmstack =
  dk_lock :: "serials dsmsynch"
  dk_sfunc :: "tid \<Rightarrow> stackfn"

definition dsmstack_init :: "serials dsmsynch \<Rightarrow> dsmstack" where
  "dsmstack_init m = \<lparr>dk_lock = dsm_lock_init m dsms_init, dk_sfunc = (\<lambda>t. FnPush)\<rparr>"

datatype skev = SkCall tid stackfn i32 | SkRun tid

fun dsmstack_step :: "nat \<Rightarrow> skev \<Rightarrow> dsmstack \<Rightarrow> dsmstack option" where
  "dsmstack_step n (SkCall t g arg) s =
     map_option (\<lambda>l. \<lparr>dk_lock = l, dk_sfunc = (dk_sfunc s)(t := g)\<rparr>) (dsm_step (dsms_fn g) n (DsCall t arg) (dk_lock s))"
| "dsmstack_step n (SkRun t) s =
     map_option (\<lambda>l. s\<lparr>dk_lock := l\<rparr>) (dsm_step (dsms_fn (dk_sfunc s t)) n (DsRun t) (dk_lock s))"

section \<open>\<open>hstack.c\<close>\<close>

fun hst_fn :: "stackfn \<Rightarrow> i32 \<Rightarrow> i32 \<Rightarrow> serials \<Rightarrow> i32 \<times> serials" where
  "hst_fn FnPush = hs_push"
| "hst_fn FnPop = hs_pop"

record hstack =
  hk_lock :: "serials hsynch"
  hk_sfunc :: "tid \<Rightarrow> stackfn"

definition hstack_init :: "(nat \<Rightarrow> nat \<Rightarrow> i32) \<Rightarrow> (nat \<Rightarrow> nat \<Rightarrow> i32) \<Rightarrow> hstack" where
  "hstack_init g i = \<lparr>hk_lock = HSynchStructInit g i hs_init, hk_sfunc = (\<lambda>t. FnPush)\<rparr>"

text \<open>\<open>SkCall\<close> with what the register of \<open>counter\<close> holds.\<close>

fun hstack_step :: "nat \<Rightarrow> skev \<times> int \<Rightarrow> hstack \<Rightarrow> hstack option" where
  "hstack_step n (SkCall t g arg, k) s =
     map_option (\<lambda>l. \<lparr>hk_lock = l, hk_sfunc = (hk_sfunc s)(t := g)\<rparr>) (hs_step (hst_fn g) n (CcCall t arg k) (hk_lock s))"
| "hstack_step n (SkRun t, k) s =
     map_option (\<lambda>l. s\<lparr>hk_lock := l\<rparr>) (hs_step (hst_fn (hk_sfunc s t)) n (CcRun t) (hk_lock s))"

section \<open>\<open>ccstack.h\<close>\<close>

text \<open>
  The program points of its \<open>applyOp\<close>, with \<open>counter\<close>, \<open>toggle\<close>, \<open>cur\<close> and \<open>next_node\<close> or \<open>p\<close> where they are alive.
\<close>

datatype cspc =
    CsIdle
  | CsSwap int bool          \<comment> \<open>\<open>cur = SWAP(&l->Tail, next_node)\<close>\<close>
  | CsLink int bool nat nat  \<comment> \<open>\<open>cur->next = next_node\<close>\<close>
  | CsArg int bool nat       \<comment> \<open>\<open>cur->arg_ret = arg\<close>, \<open>st_thread->next_node[toggle] = cur\<close>\<close>
  | CsSpin int nat           \<comment> \<open>\<open>while (cur->locked)\<close>\<close>
  | CsCheck int nat          \<comment> \<open>\<open>if (cur->completed)\<close>\<close>
  | CsTest int nat nat       \<comment> \<open>\<open>while (p->next != null && counter < COUNTER_BOUND)\<close>\<close>
  | CsWhich int nat nat      \<comment> \<open>\<open>if (p->arg_ret == PUSH)\<close>\<close>
  | CsPush int nat nat       \<comment> \<open>\<open>push(st_thread, p->arg_ret)\<close>\<close>
  | CsPop int nat nat        \<comment> \<open>\<open>pop()\<close>\<close>
  | CsStore int nat nat i32  \<comment> \<open>\<open>p->arg_ret =\<close> its value\<close>
  | CsCompl int nat nat      \<comment> \<open>\<open>p->completed = true\<close>\<close>
  | CsUnl int nat nat        \<comment> \<open>\<open>p->locked = false\<close>\<close>
  | CsNext int nat nat       \<comment> \<open>\<open>p = p->next\<close>\<close>
  | CsExit nat nat           \<comment> \<open>\<open>p->locked = false\<close> after the loop\<close>
  | CsRet nat                \<comment> \<open>\<open>return cur->arg_ret\<close>\<close>
  | CsDone i32

record ccstack =
  cs_tail :: nat
  cs_next :: "nat \<Rightarrow> nat option"
  cs_arg_ret :: "nat \<Rightarrow> i32"
  cs_locked :: "nat \<Rightarrow> bool"
  cs_completed :: "nat \<Rightarrow> bool"
  cs_next_node :: "tid \<Rightarrow> bool \<Rightarrow> nat"
  cs_toggle :: "tid \<Rightarrow> bool"
  cs_pc :: "tid \<Rightarrow> cspc"
  cs_arg :: "tid \<Rightarrow> i32"
  cs_stack :: serials

definition COUNTER_BOUND :: "nat \<Rightarrow> int" where
  "COUNTER_BOUND n = 3 * int n"

text \<open>
  \<open>lock_init\<close> allocates node 0, \<open>threadStateInit\<close> the nodes \<open>2 t + 1\<close> and \<open>2 t + 2\<close>; \<open>m\<close> is what memory
  holds.
\<close>

definition ccstack_init :: "ccstack \<Rightarrow> ccstack" where
  "ccstack_init m = m\<lparr>cs_tail := 0, cs_next := (cs_next m)(0 := None), cs_locked := (cs_locked m)(0 := False),
     cs_completed := (cs_completed m)(0 := False), cs_next_node := (\<lambda>t b. 2 * t + 1 + of_bool b), cs_toggle := (\<lambda>t. False),
     cs_pc := (\<lambda>t. CsIdle), cs_stack := ccs_init\<rparr>"

definition csgo :: "tid \<Rightarrow> cspc \<Rightarrow> ccstack \<Rightarrow> ccstack" where
  "csgo t p s = s\<lparr>cs_pc := (cs_pc s)(t := p)\<rparr>"

definition cs_prepare :: "tid \<Rightarrow> ccstack \<Rightarrow> ccstack" where
  "cs_prepare t s =
     (let next_node = cs_next_node s t (cs_toggle s t)
      in s\<lparr>cs_toggle := (cs_toggle s)(t := \<not> cs_toggle s t), cs_next := (cs_next s)(next_node := None),
         cs_locked := (cs_locked s)(next_node := True), cs_completed := (cs_completed s)(next_node := False)\<rparr>)"

fun ccs_applyOp :: "nat \<Rightarrow> cspc \<Rightarrow> tid \<Rightarrow> ccstack \<Rightarrow> ccstack option" where
  "ccs_applyOp n (CsSwap k toggle) t s =
     Some (csgo t (CsLink k toggle (cs_tail s) (cs_next_node s t toggle)) (s\<lparr>cs_tail := cs_next_node s t toggle\<rparr>))"
| "ccs_applyOp n (CsLink k toggle cur next_node) t s =
     Some (csgo t (CsArg k toggle cur) (s\<lparr>cs_next := (cs_next s)(cur := Some next_node)\<rparr>))"
| "ccs_applyOp n (CsArg k toggle cur) t s =
     Some (csgo t (CsSpin k cur) (s\<lparr>cs_arg_ret := (cs_arg_ret s)(cur := cs_arg s t),
       cs_next_node := (cs_next_node s)(t := (cs_next_node s t)(toggle := cur))\<rparr>))"
| "ccs_applyOp n (CsSpin k cur) t s = Some (if cs_locked s cur then s else csgo t (CsCheck k cur) s)"
| "ccs_applyOp n (CsCheck k cur) t s = Some (csgo t (if cs_completed s cur then CsRet cur else CsTest k cur cur) s)"
| "ccs_applyOp n (CsTest k cur p) t s =
     Some (csgo t (if cs_next s p \<noteq> None \<and> k < COUNTER_BOUND n then CsWhich (k + 1) cur p else CsExit cur p) s)"
| "ccs_applyOp n (CsWhich k cur p) t s = Some (csgo t (if cs_arg_ret s p = CCS_PUSH then CsPush k cur p else CsPop k cur p) s)"
| "ccs_applyOp n (CsPush k cur p) t s =
     Some (csgo t (CsCompl k cur p) (s\<lparr>cs_stack := snd (ccs_push (cs_arg_ret s p) (cs_stack s))\<rparr>))"
| "ccs_applyOp n (CsPop k cur p) t s =
     (let (v, st) = ccs_pop (cs_stack s) in Some (csgo t (CsStore k cur p v) (s\<lparr>cs_stack := st\<rparr>)))"
| "ccs_applyOp n (CsStore k cur p v) t s = Some (csgo t (CsCompl k cur p) (s\<lparr>cs_arg_ret := (cs_arg_ret s)(p := v)\<rparr>))"
| "ccs_applyOp n (CsCompl k cur p) t s = Some (csgo t (CsUnl k cur p) (s\<lparr>cs_completed := (cs_completed s)(p := True)\<rparr>))"
| "ccs_applyOp n (CsUnl k cur p) t s = Some (csgo t (CsNext k cur p) (s\<lparr>cs_locked := (cs_locked s)(p := False)\<rparr>))"
| "ccs_applyOp n (CsNext k cur p) t s = map_option (\<lambda>x. csgo t (CsTest k cur x) s) (cs_next s p)"
| "ccs_applyOp n (CsExit cur p) t s = Some (csgo t (CsRet cur) (s\<lparr>cs_locked := (cs_locked s)(p := False)\<rparr>))"
| "ccs_applyOp n (CsRet cur) t s = Some (csgo t (CsDone (cs_arg_ret s cur)) s)"
| "ccs_applyOp n _ t s = None"

fun cs_idle :: "cspc \<Rightarrow> bool" where
  "cs_idle CsIdle = True"
| "cs_idle (CsDone v) = True"
| "cs_idle _ = False"

text \<open>\<open>CcCall t arg k\<close>: a call with \<open>arg\<close> the code of the operation, \<open>k\<close> what the register of \<open>counter\<close> holds.\<close>

fun ccstack_step :: "nat \<Rightarrow> ccev \<Rightarrow> ccstack \<Rightarrow> ccstack option" where
  "ccstack_step n (CcCall t arg k) s =
     (if cs_idle (cs_pc s t) \<and> t < n
      then Some (csgo t (CsSwap k (cs_toggle s t)) ((cs_prepare t s)\<lparr>cs_arg := (cs_arg s)(t := arg)\<rparr>)) else None)"
| "ccstack_step n (CcRun t) s = ccs_applyOp n (cs_pc s t) t s"

section \<open>What the combiners do\<close>

text \<open>
  The effect of the two functions on a stack with the values \<open>xs\<close>: the argument \<open>a\<close>, the answer \<open>r\<close> and
  the values afterwards. \<open>helps\<close>: nothing is applied, or one operation of some thread \<open>u\<close>, with the
  function \<open>g\<close>. \<open>answered\<close>: what threads get is what was recorded for them.
\<close>

fun stack_effect :: "stackfn \<Rightarrow> i32 \<Rightarrow> i32 \<Rightarrow> i32 list \<Rightarrow> i32 list \<Rightarrow> bool" where
  "stack_effect FnPush a r xs xs' \<longleftrightarrow> r = -1 \<and> xs' = a # xs"
| "stack_effect FnPop a r xs xs' \<longleftrightarrow> xs = [] \<and> r = -1 \<and> xs' = [] \<or> xs = r # xs'"

definition helps :: "stackfn \<Rightarrow> (tid \<times> i32 \<times> i32 \<times> i32) list \<Rightarrow> i32 list \<Rightarrow> (tid \<times> i32 \<times> i32 \<times> i32) list \<Rightarrow> i32 list \<Rightarrow> bool" where
  "helps g l xs l' xs' \<longleftrightarrow> l' = l \<and> xs' = xs \<or> (\<exists>u a i r. l' = l @ [(u, a, i, r)] \<and> stack_effect g a r xs xs')"

definition answered :: "(tid \<times> i32 \<times> i32 \<times> i32) list \<Rightarrow> (tid \<Rightarrow> (i32 \<times> i32) list) \<Rightarrow> bool" where
  "answered l hist \<longleftrightarrow> (\<forall>t. \<exists>now. cc_entries t l = hist t @ now \<and> length now \<le> 1)"

lemma fn_effect:
  assumes "st_rep obj xs"
  shows "\<exists>xs'. st_rep (snd (dsms_fn g a i obj)) xs' \<and> stack_effect g a (fst (dsms_fn g a i obj)) xs xs'"
proof (cases g)
  case FnPush
  then show ?thesis using hst.push_rep [OF assms, of a i] by (auto simp: serial_stacks_same hs_push_def Let_def)
next
  case FnPop
  then show ?thesis
    using assms hst.pop_empty [of obj a i] hst.pop_top [of obj "hd xs" "tl xs" a i] by (cases xs) (auto simp: serial_stacks_same)
qed

lemma hst_fn_same: "hst_fn = dsms_fn"
proof (rule ext)
  show "hst_fn g = dsms_fn g" for g by (cases g) (simp_all add: serial_stacks_same)
qed

text \<open>From one application of a function to the values.\<close>

lemma helps_applied:
  assumes "st_rep obj xs" and "l' = l \<and> obj' = obj \<or> (\<exists>u a i. l' = l @ [(u, a, i, fst (dsms_fn g a i obj))] \<and> obj' = snd (dsms_fn g a i obj))"
  shows "\<exists>xs'. st_rep obj' xs' \<and> helps g l xs l' xs'"
  using assms(2)
proof
  assume "\<exists>u a i. l' = l @ [(u, a, i, fst (dsms_fn g a i obj))] \<and> obj' = snd (dsms_fn g a i obj)"
  then obtain u a i where u: "l' = l @ [(u, a, i, fst (dsms_fn g a i obj))]" "obj' = snd (dsms_fn g a i obj)" by blast
  obtain xs' where "st_rep obj' xs'" "stack_effect g a (fst (dsms_fn g a i obj)) xs xs'" using fn_effect [OF assms(1)] u(2) by blast
  then show ?thesis using u(1) unfolding helps_def by blast
qed (use assms(1) in \<open>auto simp: helps_def\<close>)

definition dk_inv :: "dsmstack \<Rightarrow> bool" where
  "dk_inv s \<longleftrightarrow> ds_core (dk_lock s) \<and> (\<exists>xs. st_rep (ds_object (dk_lock s)) xs)"

lemma dk_step:
  assumes "dk_inv s" and run: "dsmstack_step n e s = Some s'"
  shows "dk_inv s'"
proof -
  obtain g e' where g: "dsm_step (dsms_fn g) n e' (dk_lock s) = Some (dk_lock s')"
  proof (cases e)
    case (SkCall t h arg)
    then show thesis using that [of h "DsCall t arg"] run by (auto simp del: dsm_step.simps)
  next
    case (SkRun t)
    then show thesis using that [of "dk_sfunc s t" "DsRun t"] run by (auto simp del: dsm_step.simps)
  qed
  have "ds_core (dk_lock s')" by (rule dsm_step_core [OF _ g]) (use assms(1) in \<open>simp add: dk_inv_def\<close>)
  moreover obtain xs where "st_rep (ds_object (dk_lock s)) xs" using assms(1) by (auto simp: dk_inv_def)
  ultimately show ?thesis using helps_applied [OF _ dsm_step_log [OF g]] by (auto simp: dk_inv_def)
qed

interpretation dkm: machine "dsmstack_step n" dk_inv for n
  by unfold_locales (rule dk_step)

lemma dk_init: "dk_inv (dsmstack_init m)"
  using dsm_init_core [of m dsms_init] hs_init_rep
  by (auto simp: dk_inv_def dsmstack_init_def serial_stacks_same dsm_lock_init_def)

lemma ds_core_answered: "ds_core s \<Longrightarrow> answered (ds_log s) (ds_hist s)"
  by (auto simp: answered_def ds_core_def ds_account_def)

lemma dk_helps:
  assumes "mrun (dsmstack_step n) es (dsmstack_init m) = Some s" and run: "dsmstack_step n (SkRun t) s = Some s'"
  shows "(\<exists>xs xs'. st_rep (ds_object (dk_lock s)) xs \<and> st_rep (ds_object (dk_lock s')) xs' \<and>
    helps (dk_sfunc s t) (ds_log (dk_lock s)) xs (ds_log (dk_lock s')) xs') \<and> answered (ds_log (dk_lock s')) (ds_hist (dk_lock s'))"
proof -
  have inv: "dk_inv s" by (rule dkm.good_run [OF dk_init assms(1)])
  then obtain xs where xs: "st_rep (ds_object (dk_lock s)) xs" by (auto simp: dk_inv_def)
  have "dsm_step (dsms_fn (dk_sfunc s t)) n (DsRun t) (dk_lock s) = Some (dk_lock s')" using run by (auto simp del: dsm_step.simps)
  from helps_applied [OF xs dsm_step_log [OF this]] xs dk_step [OF inv run] ds_core_answered
  show ?thesis unfolding dk_inv_def by blast
qed

fun sk_fresh :: "nat \<Rightarrow> skev \<times> int \<Rightarrow> bool" where
  "sk_fresh n (SkCall t g arg, k) = (k < CCSIM_HELP_BOUND n)"
| "sk_fresh n (SkRun t, k) = True"

definition hk_inv :: "nat \<Rightarrow> hstack \<Rightarrow> bool" where
  "hk_inv n s \<longleftrightarrow> hs_core (CCSIM_HELP_BOUND n) (hk_lock s) \<and> (\<exists>xs. st_rep (hs_object (hk_lock s)) xs)"

lemma hk_step:
  assumes "hk_inv n s" and run: "hstack_step n e s = Some s'" and fresh: "sk_fresh n e"
  shows "hk_inv n s'"
proof -
  obtain g e' where g: "hs_step (dsms_fn g) n e' (hk_lock s) = Some (hk_lock s')" "cc_fresh n e'"
    using run fresh
  proof (cases "(n, e, s)" rule: hstack_step.cases)
    case (1 n' t h arg k s'')
    then show thesis using that [of h "CcCall t arg k"] run fresh by (auto simp: hst_fn_same simp del: hs_step.simps)
  next
    case (2 n' t k s'')
    then show thesis using that [of "hk_sfunc s t" "CcRun t"] run by (auto simp: hst_fn_same simp del: hs_step.simps)
  qed
  have "hs_core (CCSIM_HELP_BOUND n) (hk_lock s')" by (rule hs_step_core [OF _ g]) (use assms(1) in \<open>simp add: hk_inv_def\<close>)
  moreover obtain xs where "st_rep (hs_object (hk_lock s)) xs" using assms(1) by (auto simp: hk_inv_def)
  ultimately show ?thesis using helps_applied [OF _ hs_step_log [OF g(1)]] by (auto simp: hk_inv_def)
qed

interpretation hkm: machine "\<lambda>e s. if sk_fresh n e then hstack_step n e s else None" "hk_inv n" for n
  by unfold_locales (auto intro: hk_step split: if_splits)

lemma hk_init: "hk_inv n (hstack_init g i)"
  using hs_init_core [of "CCSIM_HELP_BOUND n" g i hs_init] hs_init_rep
  by (auto simp: hk_inv_def hstack_init_def HSynchStructInit_def)

definition hk_hist :: "hstack \<Rightarrow> tid \<Rightarrow> (i32 \<times> i32) list" where
  "hk_hist s t = cc_hist (hs_cluster (hk_lock s) (cluster_of t)) t"

lemma hs_core_answered:
  assumes "hs_core b (hk_lock s)"
  shows "answered (hs_log (hk_lock s)) (hk_hist s)"
  unfolding answered_def hk_hist_def
proof
  fix t
  have "cc_core b (hs_cluster (hk_lock s) (cluster_of t))" by (rule hs_coreD(1) [OF assms])
  then show "\<exists>now. cc_entries t (hs_log (hk_lock s)) = cc_hist (hs_cluster (hk_lock s) (cluster_of t)) t @ now \<and> length now \<le> 1"
    unfolding hs_coreD(6) [OF assms] by (auto simp: cc_core_def cc_account_def)
qed

lemma hk_helps:
  assumes "mrun (hstack_step n) es (hstack_init g i) = Some s" and "list_all (sk_fresh n) es" and run: "hstack_step n (SkRun t, k) s = Some s'"
  shows "(\<exists>xs xs'. st_rep (hs_object (hk_lock s)) xs \<and> st_rep (hs_object (hk_lock s')) xs' \<and>
    helps (hk_sfunc s t) (hs_log (hk_lock s)) xs (hs_log (hk_lock s')) xs') \<and> answered (hs_log (hk_lock s')) (hk_hist s')"
proof -
  have inv: "hk_inv n s" using hkm.good_run [OF hk_init, of n es g i s] assms(1,2) by (simp add: mrun_guard)
  then obtain xs where xs: "st_rep (hs_object (hk_lock s)) xs" by (auto simp: hk_inv_def)
  have "hs_step (dsms_fn (hk_sfunc s t)) n (CcRun t) (hk_lock s) = Some (hk_lock s')"
    using run by (auto simp: hst_fn_same simp del: hs_step.simps)
  from helps_applied [OF xs hs_step_log [OF this]] xs hk_step [OF inv run] hs_core_answered
  show ?thesis unfolding hk_inv_def by (metis sk_fresh.simps(2))
qed

section \<open>What goes wrong\<close>

text \<open>
  Thread 0 pushes \<open>a\<close> and combines, while another thread has announced a pop, with the argument \<open>b\<close>, of
  which a pop makes no use. In \<open>dsmstack.c\<close> a third thread must have announced itself behind it, and in
  \<open>hstack.c\<close> both threads are of one cluster.
\<close>

definition dsm_wrong :: "i32 \<Rightarrow> i32 \<Rightarrow> skev list" where
  "dsm_wrong a b = [SkCall 0 FnPush a, SkRun 0, SkCall 1 FnPop b, SkRun 1, SkRun 1, SkCall 2 FnPop b, SkRun 2, SkRun 2] @
     replicate 13 (SkRun 0) @ replicate 3 (SkRun 1)"

definition hst_wrong :: "i32 \<Rightarrow> i32 \<Rightarrow> (skev \<times> int) list" where
  "hst_wrong a b = [(SkCall 0 FnPush a, 0), (SkCall 2 FnPop b, 0)] @ replicate 10 (SkRun 0, 0) @ replicate 3 (SkRun 2, 0) @
     replicate 10 (SkRun 0, 0) @ replicate 3 (SkRun 2, 0)"

lemma two_pushed: "st_rep (snd (hs_push b 1 (snd (hs_push a 0 hs_init)))) [b, a]"
  by (intro hst.push_rep hs_init_rep)

lemma dsm_wrong_run:
  "map_option (\<lambda>s. (ds_hist (dk_lock s) 1, ds_object (dk_lock s))) (mrun (dsmstack_step 3) (dsm_wrong a b) (dsmstack_init m)) =
   Some ([(b, -1)], snd (dsms_push b 1 (snd (dsms_push a 0 dsms_init))))"
  by (simp add: dsm_wrong_def numeral_eq_Suc dsmstack_init_def dsm_lock_init_def ds_prepare_def Let_def ds_mynode_def ds_node_def
    DSMSIM_HELP_BOUND_def dsms_push_def dsms_init_def guard_nodes_def nodes.defs)

lemma hst_wrong_run:
  "map_option (\<lambda>s. (cc_hist (hs_cluster (hk_lock s) 0) 2, hs_object (hk_lock s))) (mrun (hstack_step 3) (hst_wrong a b) (hstack_init g i)) =
   Some ([(b, -1)], snd (hs_push b 1 (snd (hs_push a 0 hs_init))))"
  by (simp add: hst_wrong_def numeral_eq_Suc hstack_init_def HSynchStructInit_def cc_lock_init_def cc_prepare_def Let_def
    cluster_of_def HSYNCH_NCLUSTERS_def hs_applyOp_def hs_queue_def hs_put_def hsgo_def clhLockInit_def lock_turn_def
    CCSIM_HELP_BOUND_def hs_push_def hs_init_def guard_nodes_def nodes.defs)

text \<open>
  (C34) In \<open>dsmstack.c\<close> and \<open>hstack.c\<close> a combiner applies its own function to every operation it helps. In
  every reachable state the object is a stack, and the step of thread \<open>t\<close> that applies an operation, of
  whatever thread and kind, has the effect of the function that \<open>t\<close> was called with: where \<open>t\<close> pushes, the
  operation's argument is pushed and its answer is -1; where \<open>t\<close> pops, its answer is the top, which is removed.
  That is what its thread returns. So there are runs in which a thread pushes \<open>a\<close> and another one pops, and
  the pop returns -1 and leaves its argument pushed on top of \<open>a\<close>, where the sequential code answers the pop
  with \<open>a\<close>; for any values, and whatever memory holds at the start.
\<close>

theorem stack_locks_wrong_function:
  "(\<forall>es s t s'. mrun (dsmstack_step n) es (dsmstack_init m) = Some s \<and> dsmstack_step n (SkRun t) s = Some s' \<longrightarrow>
      (\<exists>xs xs'. st_rep (ds_object (dk_lock s)) xs \<and> st_rep (ds_object (dk_lock s')) xs' \<and>
        helps (dk_sfunc s t) (ds_log (dk_lock s)) xs (ds_log (dk_lock s')) xs') \<and>
      answered (ds_log (dk_lock s')) (ds_hist (dk_lock s'))) \<and>
   (\<forall>es s t k s'. mrun (hstack_step n) es (hstack_init g i) = Some s \<and> list_all (sk_fresh n) es \<and> hstack_step n (SkRun t, k) s = Some s' \<longrightarrow>
      (\<exists>xs xs'. st_rep (hs_object (hk_lock s)) xs \<and> st_rep (hs_object (hk_lock s')) xs' \<and>
        helps (hk_sfunc s t) (hs_log (hk_lock s)) xs (hs_log (hk_lock s')) xs') \<and>
      answered (hs_log (hk_lock s')) (hk_hist s')) \<and>
   (\<exists>s. mrun (dsmstack_step 3) (dsm_wrong a b) (dsmstack_init m) = Some s \<and> ds_hist (dk_lock s) 1 = [(b, -1)] \<and>
      st_rep (ds_object (dk_lock s)) [b, a]) \<and>
   (\<exists>s. mrun (hstack_step 3) (hst_wrong a b) (hstack_init g i) = Some s \<and> cc_hist (hs_cluster (hk_lock s) 0) 2 = [(b, -1)] \<and>
      st_rep (hs_object (hk_lock s)) [b, a]) \<and>
   st_results dsms_push dsms_pop [SPush a, SPop] dsms_init = [a] \<and> st_results hs_push hs_pop [SPush a, SPop] hs_init = [a]"
proof (intro conjI)
  show "\<exists>s. mrun (dsmstack_step 3) (dsm_wrong a b) (dsmstack_init m) = Some s \<and> ds_hist (dk_lock s) 1 = [(b, -1)] \<and>
      st_rep (ds_object (dk_lock s)) [b, a]"
    using dsm_wrong_run [of a b m] two_pushed [of b a] by (auto simp: serial_stacks_same)
  show "\<exists>s. mrun (hstack_step 3) (hst_wrong a b) (hstack_init g i) = Some s \<and> cc_hist (hs_cluster (hk_lock s) 0) 2 = [(b, -1)] \<and>
      st_rep (hs_object (hk_lock s)) [b, a]"
    using hst_wrong_run [of a b g i] two_pushed [of b a] by auto
qed ((intro allI impI, elim conjE, rule dk_helps, assumption+), (intro allI impI, elim conjE, rule hk_helps, assumption+),
    (use hst.results [OF hs_init_rep, of "[SPush a, SPop]"] in \<open>simp_all add: serial_stacks_same\<close>))

text \<open>The step in which the pushing thread 0 applies the pop of thread 1, and what that does.\<close>

definition demo_dk :: "serials dsmsynch" where
  "demo_dk = \<lparr>ds_tail = None, ds_next = (\<lambda>x. None), ds_node_arg = (\<lambda>x. 0), ds_ret = (\<lambda>x. 0), ds_locked = (\<lambda>x. False),
     ds_completed = (\<lambda>x. False), ds_pid = (\<lambda>x. 0), ds_toggle = (\<lambda>t. False), ds_pc = (\<lambda>t. DsIdle), ds_arg = (\<lambda>t. 0), ds_object = dsms_init,
     ds_log = [], ds_hist = (\<lambda>t. [])\<rparr>"

lemma demo_dk_run:
  "map_option (\<lambda>s. (ds_log (dk_lock s), dk_sfunc s 0, dk_sfunc s 1, map_option (\<lambda>s'. ds_log (dk_lock s')) (dsmstack_step 3 (SkRun 0) s)))
     (mrun (dsmstack_step 3) (take 15 (dsm_wrong 5 9)) (dsmstack_init demo_dk)) =
   Some ([(0, 5, 0, -1)], FnPush, FnPop, Some [(0, 5, 0, -1), (1, 9, 1, -1)])"
  by code_simp

theorem stack_locks_wrong_function_witness:
  "\<exists>s s' xs. mrun (dsmstack_step 3) (take 15 (dsm_wrong 5 9)) (dsmstack_init demo_dk) = Some s \<and> dsmstack_step 3 (SkRun 0) s = Some s' \<and>
    dk_sfunc s 1 = FnPop \<and> ds_log (dk_lock s') = [(0, 5, 0, -1), (1, 9, 1, -1)] \<and>
    st_rep (ds_object (dk_lock s)) xs \<and> st_rep (ds_object (dk_lock s')) (9 # xs)"
proof -
  obtain s s' where s: "mrun (dsmstack_step 3) (take 15 (dsm_wrong 5 9)) (dsmstack_init demo_dk) = Some s" "dsmstack_step 3 (SkRun 0) s = Some s'"
    "ds_log (dk_lock s) = [(0, 5, 0, -1)]" "dk_sfunc s 0 = FnPush" "dk_sfunc s 1 = FnPop" "ds_log (dk_lock s') = [(0, 5, 0, -1), (1, 9, 1, -1)]"
    using demo_dk_run by auto
  from conjunct1 [OF stack_locks_wrong_function [of 3 demo_dk], rule_format, OF conjI, OF s(1,2)]
  obtain xs xs' where "st_rep (ds_object (dk_lock s)) xs" "st_rep (ds_object (dk_lock s')) xs'"
    "helps (dk_sfunc s 0) (ds_log (dk_lock s)) xs (ds_log (dk_lock s')) xs'" by blast
  then show ?thesis using s by (auto simp: helps_def)
qed

text \<open>
  Thread 0 pushes and becomes the combiner; thread 1, which pushes too, has linked its node and not yet
  stored its operation in it.
\<close>

definition early_link :: "int \<Rightarrow> ccev list" where
  "early_link k = [CcCall 0 CCS_PUSH k] @ replicate 5 (CcRun 0) @ [CcCall 1 CCS_PUSH k, CcRun 1, CcRun 1] @ replicate 16 (CcRun 0) @
     replicate 4 (CcRun 1)"

lemma early_link_run:
  assumes "cs_arg_ret m 1 \<noteq> CCS_PUSH" and "k < 5"
  shows "map_option (\<lambda>s. (cs_pc s 0, cs_pc s 1, cs_stack s)) (mrun (ccstack_step 2) (early_link k) (ccstack_init m)) =
    Some (CsDone CCS_PUSH, CsDone CCS_PUSH, snd (ccs_pop (snd (ccs_push CCS_PUSH ccs_init))))"
  using assms
  by (simp add: early_link_def numeral_eq_Suc ccstack_init_def cs_prepare_def csgo_def Let_def COUNTER_BOUND_def ccs_push_def
    ccs_pop_def ccs_init_def guard_nodes_def nodes.defs)

text \<open>
  \<open>ccstack.h\<close> loses a push: it links a node to the queue before it stores the operation in it, so that
  the combiner can come between. Whenever the second node holds anything but the code of \<open>PUSH\<close>, two
  threads may push, both with the answer of a successful push, and the stack is empty afterwards: the
  combiner has taken the second push for a pop.
\<close>

lemma ccstack_push_lost:
  assumes "cs_arg_ret m 1 \<noteq> CCS_PUSH" and "k < 5"
  shows "\<exists>s. mrun (ccstack_step 2) (early_link k) (ccstack_init m) = Some s \<and> cs_pc s 0 = CsDone CCS_PUSH \<and>
    cs_pc s 1 = CsDone CCS_PUSH \<and> st_rep (cs_stack s) []"
proof -
  have "st_rep (snd (ccs_pop (snd (ccs_push CCS_PUSH ccs_init)))) []"
    using hst.pop_top [OF hst.push_rep [OF hs_init_rep, of CCS_PUSH 0], of 0] serial_stacks_same(4-6) by metis
  then show ?thesis using early_link_run [OF assms] by auto
qed

definition demo_ccstack :: ccstack where
  "demo_ccstack = \<lparr>cs_tail = 0, cs_next = (\<lambda>x. None), cs_arg_ret = (\<lambda>x. 0), cs_locked = (\<lambda>x. True), cs_completed = (\<lambda>x. True),
     cs_next_node = (\<lambda>t b. 0), cs_toggle = (\<lambda>t. True), cs_pc = (\<lambda>t. CsIdle), cs_arg = (\<lambda>t. 0), cs_stack = ccs_init\<rparr>"

lemma ccstack_push_lost_witness:
  "\<exists>s. mrun (ccstack_step 2) (early_link 0) (ccstack_init demo_ccstack) = Some s \<and> st_rep (cs_stack s) []"
proof -
  have "cs_arg_ret demo_ccstack 1 \<noteq> CCS_PUSH" by (simp add: demo_ccstack_def CCS_PUSH_def)
  from ccstack_push_lost [OF this, of 0] show ?thesis by auto
qed

end
