(* ===== verification/CombiningQueues.thy ===== *)
theory CombiningQueues
  imports HSynch DsmSynch
begin

text \<open>
  The queues of \<open>ccqueue.c\<close>, \<open>hqueue.c\<close> and \<open>dsmqueue.c\<close>: one list of nodes, with one combining lock for the
  enqueues and another one for the dequeues, whose combiners run at the same time. What a combining lock
  promises about an object that it does not have for itself is the locale \<open>combining_lock\<close>; CC-Synch,
  H-Synch and DSM-Synch are its interpretations.
\<close>

section \<open>The contract of a combining lock\<close>

type_synonym lockentry = "tid \<times> i32 \<times> i32 \<times> i32"

text \<open>
  \<open>lstep f e l obj\<close> is a step \<open>e\<close> of the lock \<open>l\<close> with the function \<open>f\<close> when the object is \<open>obj\<close>: the lock, the
  object and the applications of \<open>f\<close> after it. \<open>llog\<close> are all applications, \<open>lhist\<close> the calls of a thread that
  have returned.
\<close>

locale combining_lock =
  fixes lstep :: "(i32 \<Rightarrow> i32 \<Rightarrow> 'o \<Rightarrow> i32 \<times> 'o) \<Rightarrow> 'e \<Rightarrow> 'l \<Rightarrow> 'o \<Rightarrow> ('l \<times> 'o \<times> lockentry list) option"
    and lgood :: "'l \<Rightarrow> bool" and caller :: "'e \<Rightarrow> tid" and lidle :: "'l \<Rightarrow> tid \<Rightarrow> bool"
    and llog :: "'l \<Rightarrow> lockentry list" and lhist :: "'l \<Rightarrow> tid \<Rightarrow> (i32 \<times> i32) list"
  assumes keeps: "lgood l \<Longrightarrow> lstep f e l obj = Some (l', obj', es) \<Longrightarrow> lgood l'"
    and logs: "lstep f e l obj = Some (l', obj', es) \<Longrightarrow> llog l' = llog l @ es"
    and applies: "lstep f e l obj = Some (l', obj', es) \<Longrightarrow>
      es = [] \<and> obj' = obj \<or> (\<exists>u a i. es = [(u, a, i, fst (f a i obj))] \<and> obj' = snd (f a i obj))"
    and accounts: "lgood l \<Longrightarrow> \<exists>now. cc_entries t (llog l) = lhist l t @ now \<and> length now \<le> 1 \<and> (lidle l t \<longrightarrow> now = [])"
    and returns: "lstep f e l obj = Some (l', obj', es) \<Longrightarrow> \<exists>ret. lhist l' (caller e) = lhist l (caller e) @ ret"
    and others: "lstep f e l obj = Some (l', obj', es) \<Longrightarrow> u \<noteq> caller e \<Longrightarrow> lhist l' u = lhist l u \<and> lidle l' u = lidle l u"

section \<open>Two locks on one object\<close>

text \<open>
  The lock \<open>True\<close> is \<open>enqueue_lock\<close>, \<open>False\<close> is \<open>dequeue_lock\<close>. \<open>tl_log\<close> are the applications under both locks in their
  order, \<open>tl_hist\<close> the calls of each thread that returned; no step reads them.
\<close>

record ('l, 'o) twolocks =
  tl_lock :: "bool \<Rightarrow> 'l"
  tl_obj :: 'o
  tl_log :: "(bool \<times> lockentry) list"
  tl_hist :: "tid \<Rightarrow> (bool \<times> i32 \<times> i32) list"

definition two_init :: "(bool \<Rightarrow> 'l) \<Rightarrow> 'o \<Rightarrow> ('l, 'o) twolocks" where
  "two_init ls obj = \<lparr>tl_lock = ls, tl_obj = obj, tl_log = [], tl_hist = (\<lambda>t. [])\<rparr>"

text \<open>A thread is inside at most one of the two calls of \<open>applyOp\<close> at a time.\<close>

fun two_step ::
  "((i32 \<Rightarrow> i32 \<Rightarrow> 'o \<Rightarrow> i32 \<times> 'o) \<Rightarrow> 'e \<Rightarrow> 'l \<Rightarrow> 'o \<Rightarrow> ('l \<times> 'o \<times> lockentry list) option) \<Rightarrow> ('e \<Rightarrow> tid) \<Rightarrow>
   ('l \<Rightarrow> tid \<Rightarrow> bool) \<Rightarrow> ('l \<Rightarrow> tid \<Rightarrow> (i32 \<times> i32) list) \<Rightarrow> (bool \<Rightarrow> i32 \<Rightarrow> i32 \<Rightarrow> 'o \<Rightarrow> i32 \<times> 'o) \<Rightarrow>
   bool \<times> 'e \<Rightarrow> ('l, 'o) twolocks \<Rightarrow> ('l, 'o) twolocks option" where
  "two_step lstep caller lidle lhist op (b, e) s =
     (let t = caller e; l = tl_lock s b
      in if \<not> lidle (tl_lock s (\<not> b)) t then None
         else case lstep (op b) e l (tl_obj s) of
           None \<Rightarrow> None
         | Some (l', obj', es) \<Rightarrow>
             Some (s\<lparr>tl_lock := (tl_lock s)(b := l'), tl_obj := obj', tl_log := tl_log s @ map (Pair b) es,
               tl_hist := (tl_hist s)(t := tl_hist s t @ map (Pair b) (drop (length (lhist l t)) (lhist l' t)))\<rparr>))"

text \<open>The applications form a sequential run; those of one thread.\<close>

fun tl_legal :: "(bool \<Rightarrow> i32 \<Rightarrow> i32 \<Rightarrow> 'o \<Rightarrow> i32 \<times> 'o) \<Rightarrow> 'o \<Rightarrow> (bool \<times> lockentry) list \<Rightarrow> 'o \<Rightarrow> bool" where
  "tl_legal op obj [] obj' \<longleftrightarrow> obj' = obj"
| "tl_legal op obj ((b, t, a, i, r) # l) obj' \<longleftrightarrow> fst (op b a i obj) = r \<and> tl_legal op (snd (op b a i obj)) l obj'"

definition tl_entries :: "tid \<Rightarrow> (bool \<times> lockentry) list \<Rightarrow> (bool \<times> i32 \<times> i32) list" where
  "tl_entries t l = map (\<lambda>(b, u, a, i, r). (b, a, r)) (filter (\<lambda>(b, u, a, i, r). u = t) l)"

lemma tl_legal_snoc:
  "tl_legal op obj l obj' \<Longrightarrow> tl_legal op obj (l @ [(b, t, a, i, fst (op b a i obj'))]) (snd (op b a i obj'))"
proof (induction l arbitrary: obj)
  case (Cons e l)
  then show ?case by (cases e) auto
qed simp

lemma tl_entries_append: "tl_entries t (l @ map (Pair b) es) = tl_entries t l @ map (Pair b) (cc_entries t es)"
  by (induction es) (auto simp: tl_entries_def cc_entries_def)

lemma cc_entries_append: "cc_entries t (l @ es) = cc_entries t l @ cc_entries t es"
  by (simp add: cc_entries_def)

text \<open>The operations of a thread that are applied and have not returned; the invariant.\<close>

definition tl_pending :: "('l \<Rightarrow> lockentry list) \<Rightarrow> ('l \<Rightarrow> tid \<Rightarrow> (i32 \<times> i32) list) \<Rightarrow> ('l, 'o) twolocks \<Rightarrow> tid \<Rightarrow> bool \<Rightarrow> (i32 \<times> i32) list" where
  "tl_pending llog lhist s t b = drop (length (lhist (tl_lock s b) t)) (cc_entries t (llog (tl_lock s b)))"

definition two_inv ::
  "('l \<Rightarrow> bool) \<Rightarrow> ('l \<Rightarrow> tid \<Rightarrow> bool) \<Rightarrow> ('l \<Rightarrow> lockentry list) \<Rightarrow> ('l \<Rightarrow> tid \<Rightarrow> (i32 \<times> i32) list) \<Rightarrow>
   (bool \<Rightarrow> i32 \<Rightarrow> i32 \<Rightarrow> 'o \<Rightarrow> i32 \<times> 'o) \<Rightarrow> 'o \<Rightarrow> ('l, 'o) twolocks \<Rightarrow> bool" where
  "two_inv lgood lidle llog lhist op obj s \<longleftrightarrow>
     (\<forall>b. lgood (tl_lock s b)) \<and> (\<forall>t b. lidle (tl_lock s b) t \<or> lidle (tl_lock s (\<not> b)) t) \<and>
     tl_legal op obj (tl_log s) (tl_obj s) \<and>
     (\<forall>t b. tl_entries t (tl_log s) =
        tl_hist s t @ map (Pair b) (tl_pending llog lhist s t b) @ map (Pair (\<not> b)) (tl_pending llog lhist s t (\<not> b)))"

context combining_lock
begin

lemma pending_idle: "lgood (tl_lock s b) \<Longrightarrow> lidle (tl_lock s b) t \<Longrightarrow> tl_pending llog lhist s t b = []"
  using accounts [of "tl_lock s b" t] by (auto simp: tl_pending_def)

lemma pending_length: "lgood (tl_lock s b) \<Longrightarrow> length (tl_pending llog lhist s t b) \<le> 1"
  using accounts [of "tl_lock s b" t] by (auto simp: tl_pending_def)

lemma two_step_inv:
  assumes inv: "two_inv lgood lidle llog lhist op obj s" and run: "two_step lstep caller lidle lhist op e s = Some s'"
  shows "two_inv lgood lidle llog lhist op obj s'"
proof -
  obtain b x where e: "e = (b, x)" by (cases e)
  define t where "t = caller x"
  define l where "l = tl_lock s b"
  obtain l' obj' es where step: "lstep (op b) x l (tl_obj s) = Some (l', obj', es)" and idle: "lidle (tl_lock s (\<not> b)) t"
    and s': "s' = s\<lparr>tl_lock := (tl_lock s)(b := l'), tl_obj := obj', tl_log := tl_log s @ map (Pair b) es,
      tl_hist := (tl_hist s)(t := tl_hist s t @ map (Pair b) (drop (length (lhist l t)) (lhist l' t)))\<rparr>"
    using run by (auto simp: e l_def t_def Let_def split: if_splits option.splits)
  have good: "lgood (tl_lock s c)" for c using inv by (simp add: two_inv_def)
  have good': "lgood (tl_lock s' c)" for c using good keeps [OF good [of b, folded l_def] step] by (simp add: s')
  obtain ret where ret: "lhist l' t = lhist l t @ ret" using returns [OF step] by (auto simp: t_def)
  have other: "lhist l' u = lhist l u \<and> lidle l' u = lidle l u" if "u \<noteq> t" for u using others [OF step] that by (simp add: t_def)
  have moved: "tl_hist s' u @ map (Pair b) (tl_pending llog lhist s' u b) = tl_hist s u @ map (Pair b) (tl_pending llog lhist s u b @ cc_entries u es)" for u
  proof -
    obtain n n' where n: "cc_entries u (llog l) = lhist l u @ n" "cc_entries u (llog l') = lhist l' u @ n'"
      using accounts [OF good [of b], of u] accounts [OF good' [of b], of u] by (auto simp: l_def s')
    have eq: "lhist l' u @ n' = lhist l u @ n @ cc_entries u es" using n logs [OF step] by (simp add: cc_entries_append)
    have p: "tl_pending llog lhist s' u b = n'" "tl_pending llog lhist s u b = n" using n by (simp_all add: tl_pending_def s' l_def)
    have h: "tl_hist s' u = tl_hist s u @ (if u = t then map (Pair b) ret else [])" by (simp add: s' ret)
    show ?thesis
    proof (cases "u = t")
      case True
      then have "ret @ n' = n @ cc_entries u es" using eq ret by simp
      then have "map (Pair b) ret @ map (Pair b) n' = map (Pair b) (n @ cc_entries u es)" by (metis map_append)
      then show ?thesis unfolding p h using True by simp
    next
      case False
      then show ?thesis unfolding p h using eq other [OF False] by simp
    qed
  qed
  have still: "tl_pending llog lhist s' u (\<not> b) = tl_pending llog lhist s u (\<not> b)" for u by (simp add: tl_pending_def s')
  have quiet: "tl_pending llog lhist s u b @ cc_entries u es = [] \<and> tl_pending llog lhist s' u b = []" if "tl_pending llog lhist s u (\<not> b) \<noteq> []" for u
  proof -
    have ni: "\<not> lidle (tl_lock s (\<not> b)) u" using pending_idle [OF good] that by blast
    then have u: "u \<noteq> t" using idle by blast
    have "lidle (tl_lock s b) u" using inv ni unfolding two_inv_def by blast
    then have "lidle (tl_lock s' b) u" using other [OF u] by (simp add: s' l_def)
    then have z: "tl_pending llog lhist s' u b = []" by (rule pending_idle [OF good'])
    moreover have "tl_hist s' u = tl_hist s u" using u by (simp add: s')
    ultimately show ?thesis using moved [of u] by simp
  qed
  have entries: "tl_entries u (tl_log s') = tl_hist s' u @ map (Pair b) (tl_pending llog lhist s' u b) @ map (Pair (\<not> b)) (tl_pending llog lhist s' u (\<not> b))" for u
  proof -
    have old: "tl_entries u (tl_log s) = tl_hist s u @ map (Pair b) (tl_pending llog lhist s u b) @ map (Pair (\<not> b)) (tl_pending llog lhist s u (\<not> b))"
      using inv by (simp add: two_inv_def)
    have new: "tl_entries u (tl_log s') = tl_entries u (tl_log s) @ map (Pair b) (cc_entries u es)"
      by (simp add: s' tl_entries_append)
    show ?thesis
    proof (cases "tl_pending llog lhist s u (\<not> b) = []")
      case True
      then show ?thesis using old new moved [of u] still by simp
    next
      case False
      then show ?thesis using old new moved [of u] still [of u] quiet [OF False] by simp
    qed
  qed
  have "tl_entries u (tl_log s') = tl_hist s' u @ map (Pair c) (tl_pending llog lhist s' u c) @ map (Pair (\<not> c)) (tl_pending llog lhist s' u (\<not> c))" for u c
  proof (cases "c = b")
    case False
    then have c: "c = (\<not> b)" by auto
    have "tl_pending llog lhist s' u b = [] \<or> tl_pending llog lhist s' u (\<not> b) = []" using quiet [of u] still [of u] by auto
    then show ?thesis using entries [of u] c by auto
  qed (use entries in simp)
  moreover have "lidle (tl_lock s' c) u \<or> lidle (tl_lock s' (\<not> c)) u" for u c
  proof (cases "u = t")
    case True
    then show ?thesis using idle by (cases "c = b") (auto simp: s')
  next
    case False
    have "lidle (tl_lock s' d) u = lidle (tl_lock s d) u" for d using other [OF False] by (simp add: s' l_def)
    then show ?thesis using inv unfolding two_inv_def by blast
  qed
  moreover have "tl_legal op obj (tl_log s') (tl_obj s')"
    using applies [OF step] inv tl_legal_snoc [of op obj "tl_log s" "tl_obj s" b] by (auto simp: two_inv_def s')
  ultimately show ?thesis using good' unfolding two_inv_def by blast
qed

lemma two_init_inv:
  assumes "\<And>b. lgood (ls b)" and "\<And>b. llog (ls b) = []" and "\<And>b t. lidle (ls b) t"
  shows "two_inv lgood lidle llog lhist op obj (two_init ls obj)"
proof -
  have "tl_pending llog lhist (two_init ls obj) t b = []" for t b using assms(1,3) by (intro pending_idle) (simp_all add: two_init_def)
  then show ?thesis using assms by (simp add: two_inv_def) (simp add: two_init_def tl_entries_def)
qed

end

sublocale combining_lock \<subseteq> two: machine "two_step lstep caller lidle lhist op" "two_inv lgood lidle llog lhist op obj" for op obj
  by unfold_locales (rule two_step_inv)

context combining_lock
begin

lemma two_locks:
  assumes "\<And>b. lgood (ls b)" and "\<And>b. llog (ls b) = []" and "\<And>b t. lidle (ls b) t"
    and "mrun (two_step lstep caller lidle lhist op) es (two_init ls obj) = Some s"
  shows "tl_legal op obj (tl_log s) (tl_obj s) \<and>
    (\<forall>t. \<exists>now. tl_entries t (tl_log s) = tl_hist s t @ now \<and> length now \<le> 1 \<and>
      (lidle (tl_lock s True) t \<and> lidle (tl_lock s False) t \<longrightarrow> now = []))"
proof -
  have inv: "two_inv lgood lidle llog lhist op obj s" using two.good_run [OF two_init_inv [OF assms(1-3)] assms(4)] .
  have good: "lgood (tl_lock s b)" for b using inv by (simp add: two_inv_def)
  have "\<exists>now. tl_entries t (tl_log s) = tl_hist s t @ now \<and> length now \<le> 1 \<and>
      (lidle (tl_lock s True) t \<and> lidle (tl_lock s False) t \<longrightarrow> now = [])" for t
  proof -
    have "lidle (tl_lock s True) t \<or> lidle (tl_lock s (\<not> True)) t" using inv unfolding two_inv_def by blast
    then have "tl_pending llog lhist s t True = [] \<or> tl_pending llog lhist s t False = []" using pending_idle [OF good] by auto
    moreover have "tl_entries t (tl_log s) = tl_hist s t @ map (Pair True) (tl_pending llog lhist s t True) @ map (Pair (\<not> True)) (tl_pending llog lhist s t (\<not> True))"
      using inv unfolding two_inv_def by blast
    ultimately show ?thesis using pending_length [OF good] pending_idle [OF good] by fastforce
  qed
  then show ?thesis using inv by (simp add: two_inv_def)
qed

end

section \<open>The three locks\<close>

text \<open>A step of a lock with the object handed in and out.\<close>

fun cc_caller :: "ccev \<Rightarrow> tid" where
  "cc_caller (CcCall t arg k) = t"
| "cc_caller (CcRun t) = t"

definition cc_on ::
  "nat \<Rightarrow> (i32 \<Rightarrow> i32 \<Rightarrow> 'o \<Rightarrow> i32 \<times> 'o) \<Rightarrow> ccev \<Rightarrow> 'o ccsynch \<Rightarrow> 'o \<Rightarrow> ('o ccsynch \<times> 'o \<times> lockentry list) option" where
  "cc_on n f e l obj =
     map_option (\<lambda>l'. (l', cc_object l', drop (length (cc_log l)) (cc_log l'))) (cc_step f n e (l\<lparr>cc_object := obj\<rparr>))"

definition hs_on ::
  "nat \<Rightarrow> (i32 \<Rightarrow> i32 \<Rightarrow> 'o \<Rightarrow> i32 \<times> 'o) \<Rightarrow> ccev \<Rightarrow> 'o hsynch \<Rightarrow> 'o \<Rightarrow> ('o hsynch \<times> 'o \<times> lockentry list) option" where
  "hs_on n f e l obj =
     map_option (\<lambda>l'. (l', hs_object l', drop (length (hs_log l)) (hs_log l'))) (hs_step f n e (l\<lparr>hs_object := obj\<rparr>))"

fun ds_caller :: "dsev \<Rightarrow> tid" where
  "ds_caller (DsCall t arg) = t"
| "ds_caller (DsRun t) = t"

definition ds_on ::
  "nat \<Rightarrow> (i32 \<Rightarrow> i32 \<Rightarrow> 'o \<Rightarrow> i32 \<times> 'o) \<Rightarrow> dsev \<Rightarrow> 'o dsmsynch \<Rightarrow> 'o \<Rightarrow> ('o dsmsynch \<times> 'o \<times> lockentry list) option" where
  "ds_on n f e l obj =
     map_option (\<lambda>l'. (l', ds_object l', drop (length (ds_log l)) (ds_log l'))) (dsm_step f n e (l\<lparr>ds_object := obj\<rparr>))"

lemma cc_step_log:
  assumes "cc_step f n e s = Some s'"
  shows "cc_log s' = cc_log s \<and> cc_object s' = cc_object s \<or>
    (\<exists>u a i. cc_log s' = cc_log s @ [(u, a, i, fst (f a i (cc_object s)))] \<and> cc_object s' = snd (f a i (cc_object s)))"
proof (cases e)
  case (CcRun t)
  then show ?thesis using cc_applyOp_log [of f n "cc_pc s t" t s s'] assms by simp
qed (use assms in \<open>auto simp: cc_prepare_def Let_def split: if_splits\<close>)

lemma cc_step_core:
  assumes "cc_core (CCSIM_HELP_BOUND n) s" and "cc_step f n e s = Some s'" and "cc_fresh n e"
  shows "cc_core (CCSIM_HELP_BOUND n) s'"
proof (cases e)
  case (CcCall t arg k)
  then show ?thesis using assms cc_call_core [of _ s t k arg] by (auto split: if_splits)
qed (use assms cc_applyOp_core in auto)

lemma cc_step_calls:
  assumes "cc_step f n e s = Some s'"
  shows "\<exists>ret. cc_hist s' (cc_caller e) = cc_hist s (cc_caller e) @ ret"
    and "u \<noteq> cc_caller e \<Longrightarrow> cc_hist s' u = cc_hist s u \<and> cc_pc s' u = cc_pc s u"
proof -
  show "\<exists>ret. cc_hist s' (cc_caller e) = cc_hist s (cc_caller e) @ ret"
  proof (cases e)
    case (CcRun t)
    then show ?thesis using assms by (cases "cc_pc s t") (auto split: prod.splits option.splits if_splits)
  qed (use assms in \<open>auto simp: cc_prepare_def Let_def split: if_splits\<close>)
  show "u \<noteq> cc_caller e \<Longrightarrow> cc_hist s' u = cc_hist s u \<and> cc_pc s' u = cc_pc s u"
  proof (cases e)
    case (CcRun t)
    then show "u \<noteq> cc_caller e \<Longrightarrow> cc_hist s' u = cc_hist s u \<and> cc_pc s' u = cc_pc s u"
      using assms cc_applyOp_frame [of f n s t s' u] by simp
  qed (use assms in \<open>auto simp: cc_prepare_def Let_def split: if_splits\<close>)
qed

interpretation cc_combining: combining_lock "\<lambda>f e l obj. if cc_fresh n e then cc_on n f e l obj else None" "cc_core (CCSIM_HELP_BOUND n)"
    cc_caller "\<lambda>l t. cc_idle (cc_pc l t)" cc_log cc_hist for n
proof unfold_locales
  fix n l l' t u f e obj obj' es
  show "\<exists>now. cc_entries t (cc_log l) = cc_hist l t @ now \<and> length now \<le> 1 \<and> (cc_idle (cc_pc l t) \<longrightarrow> now = [])"
    if "cc_core (CCSIM_HELP_BOUND n) l"
    using that by (cases "cc_pc l t") (auto simp: cc_core_def cc_account_def)
  assume "(if cc_fresh n e then cc_on n f e l obj else None) = Some (l', obj', es)"
  then have fresh: "cc_fresh n e" and step: "cc_step f n e (l\<lparr>cc_object := obj\<rparr>) = Some l'" and o: "obj' = cc_object l'"
    and es: "es = drop (length (cc_log l)) (cc_log l')"
    by (auto simp: cc_on_def split: if_splits)
  show "cc_core (CCSIM_HELP_BOUND n) l'" if "cc_core (CCSIM_HELP_BOUND n) l"
    using cc_step_core [OF _ step fresh] that by simp
  show "cc_log l' = cc_log l @ es" using cc_step_log [OF step] by (auto simp: es)
  show "es = [] \<and> obj' = obj \<or> (\<exists>u a i. es = [(u, a, i, fst (f a i obj))] \<and> obj' = snd (f a i obj))"
    using cc_step_log [OF step] by (auto simp: es o)
  show "\<exists>ret. cc_hist l' (cc_caller e) = cc_hist l (cc_caller e) @ ret" using cc_step_calls(1) [OF step] by simp
  show "cc_hist l' u = cc_hist l u \<and> cc_idle (cc_pc l' u) = cc_idle (cc_pc l u)" if "u \<noteq> cc_caller e"
    using cc_step_calls(2) [OF step that] by simp
qed

abbreviation hs_hist :: "'o hsynch \<Rightarrow> tid \<Rightarrow> (i32 \<times> i32) list" where
  "hs_hist s t \<equiv> cc_hist (hs_cluster s (cluster_of t)) t"

lemma hs_core_object [simp]: "hs_core b (s\<lparr>hs_object := x\<rparr>) = hs_core b s"
  by (simp add: hs_core_def)

lemma hs_step_calls:
  assumes "hs_step f n e s = Some s'"
  shows "\<exists>ret. hs_hist s' (cc_caller e) = hs_hist s (cc_caller e) @ ret"
    and "u \<noteq> cc_caller e \<Longrightarrow> hs_hist s' u = hs_hist s u \<and> hs_pc s' u = hs_pc s u"
proof -
  have q: "(\<exists>ret. hs_hist s' t = hs_hist s t @ ret) \<and> (u \<noteq> t \<longrightarrow> hs_hist s' u = hs_hist s u \<and> hs_pc s' u = hs_pc s u)"
    if hq: "hs_queue f n t s = Some s'" for t
  proof -
    let ?c = "(hs_cluster s (cluster_of t))\<lparr>cc_object := hs_object s\<rparr>"
    obtain c where c: "cc_step f n (CcRun t) ?c = Some c" "s' = hs_put (cluster_of t) s c"
      using hq by (auto simp: hs_queue_def)
    show ?thesis using cc_step_calls(1) [OF c(1)] cc_step_calls(2) [OF c(1), of u] by (auto simp: c(2) hs_put_def)
  qed
  have "(\<exists>ret. hs_hist s' (cc_caller e) = hs_hist s (cc_caller e) @ ret) \<and>
    (u \<noteq> cc_caller e \<longrightarrow> hs_hist s' u = hs_hist s u \<and> hs_pc s' u = hs_pc s u)"
  proof (cases e)
    case (CcCall t arg k)
    then obtain c where c: "cc_step f n e (hs_cluster s (cluster_of t)) = Some c"
      "s' = s\<lparr>hs_cluster := (hs_cluster s)(cluster_of t := c)\<rparr>"
      using assms by (auto simp del: cc_step.simps simp: Let_def)
    show ?thesis using cc_step_calls(1) [OF c(1)] cc_step_calls(2) [OF c(1), of u] by (auto simp: c(2) CcCall)
  next
    case (CcRun t)
    then have "hs_queue f n t s = Some s' \<or> (\<exists>p l. s' = hsgo t p l s)"
      using assms by (auto simp: hs_applyOp_def Let_def simp del: clh_step.simps split: hphase.splits if_splits)
    then show ?thesis using q [of t] CcRun by (auto simp: hsgo_def)
  qed
  then show "\<exists>ret. hs_hist s' (cc_caller e) = hs_hist s (cc_caller e) @ ret"
    "u \<noteq> cc_caller e \<Longrightarrow> hs_hist s' u = hs_hist s u \<and> hs_pc s' u = hs_pc s u"
    by blast+
qed

interpretation hs_combining: combining_lock "\<lambda>f e l obj. if cc_fresh n e then hs_on n f e l obj else None" "hs_core (CCSIM_HELP_BOUND n)"
    cc_caller "\<lambda>l t. cc_idle (hs_pc l t)" hs_log hs_hist for n
proof unfold_locales
  fix n l l' t u f e obj obj' es
  show "\<exists>now. cc_entries t (hs_log l) = hs_hist l t @ now \<and> length now \<le> 1 \<and> (cc_idle (hs_pc l t) \<longrightarrow> now = [])"
    if "hs_core (CCSIM_HELP_BOUND n) l"
    using hs_coreD(1) [OF that, of "cluster_of t"] hs_coreD(6) [OF that, of t]
    by (cases "hs_pc l t") (auto simp: cc_core_def cc_account_def)
  assume "(if cc_fresh n e then hs_on n f e l obj else None) = Some (l', obj', es)"
  then have fresh: "cc_fresh n e" and step: "hs_step f n e (l\<lparr>hs_object := obj\<rparr>) = Some l'" and o: "obj' = hs_object l'"
    and es: "es = drop (length (hs_log l)) (hs_log l')"
    by (auto simp: hs_on_def split: if_splits)
  show "hs_core (CCSIM_HELP_BOUND n) l'" if "hs_core (CCSIM_HELP_BOUND n) l"
    using hs_step_core [OF _ step fresh] that by simp
  show "hs_log l' = hs_log l @ es" using hs_step_log [OF step] by (auto simp: es)
  show "es = [] \<and> obj' = obj \<or> (\<exists>u a i. es = [(u, a, i, fst (f a i obj))] \<and> obj' = snd (f a i obj))"
    using hs_step_log [OF step] by (auto simp: es o)
  show "\<exists>ret. hs_hist l' (cc_caller e) = hs_hist l (cc_caller e) @ ret" using hs_step_calls(1) [OF step] by simp
  show "hs_hist l' u = hs_hist l u \<and> cc_idle (hs_pc l' u) = cc_idle (hs_pc l u)" if "u \<noteq> cc_caller e"
    using hs_step_calls(2) [OF step that] by simp
qed

lemma ds_core_object [simp]: "ds_core (s\<lparr>ds_object := x\<rparr>) = ds_core s"
proof -
  have ch: "ds_chain (s\<lparr>ds_object := x\<rparr>) y ts = ds_chain s y ts" for y ts
    by (induction ts arbitrary: y) (simp_all split: option.splits)
  have hn: "ds_hnode (s\<lparr>ds_object := x\<rparr>) h = ds_hnode s h" for h by (cases h) simp_all
  have "ds_ok (s\<lparr>ds_object := x\<rparr>) h ts c u q = ds_ok s h ts c u q" for h ts c u q
    by (rule ds_ok_cong) (simp_all add: ds_mine_def ds_spins_def fun_eq_iff)
  then show ?thesis by (simp add: ds_core_def ds_shape_def ds_account_def ch hn)
qed

lemma dsm_step_calls:
  assumes "dsm_step f n e s = Some s'"
  shows "\<exists>ret. ds_hist s' (ds_caller e) = ds_hist s (ds_caller e) @ ret"
    and "u \<noteq> ds_caller e \<Longrightarrow> ds_hist s' u = ds_hist s u \<and> ds_pc s' u = ds_pc s u"
proof -
  show "\<exists>ret. ds_hist s' (ds_caller e) = ds_hist s (ds_caller e) @ ret"
  proof (cases e)
    case (DsRun t)
    then show ?thesis using assms by (cases "ds_pc s t") (auto split: prod.splits option.splits if_splits)
  qed (use assms in \<open>auto split: if_splits\<close>)
  show "u \<noteq> ds_caller e \<Longrightarrow> ds_hist s' u = ds_hist s u \<and> ds_pc s' u = ds_pc s u"
  proof (cases e)
    case (DsRun t)
    then show "u \<noteq> ds_caller e \<Longrightarrow> ds_hist s' u = ds_hist s u \<and> ds_pc s' u = ds_pc s u"
      using assms by (cases "ds_pc s t") (auto split: prod.splits option.splits if_splits)
  qed (use assms in \<open>auto split: if_splits\<close>)
qed

interpretation ds_combining: combining_lock "ds_on n" ds_core ds_caller "\<lambda>l t. ds_idle (ds_pc l t)" ds_log ds_hist for n
proof unfold_locales
  fix n l l' t u f e obj obj' es
  show "\<exists>now. cc_entries t (ds_log l) = ds_hist l t @ now \<and> length now \<le> 1 \<and> (ds_idle (ds_pc l t) \<longrightarrow> now = [])" if "ds_core l"
    using that by (cases "ds_pc l t") (auto simp: ds_core_def ds_account_def)
  assume "ds_on n f e l obj = Some (l', obj', es)"
  then have step: "dsm_step f n e (l\<lparr>ds_object := obj\<rparr>) = Some l'" and o: "obj' = ds_object l'"
    and es: "es = drop (length (ds_log l)) (ds_log l')"
    by (auto simp: ds_on_def)
  show "ds_core l'" if "ds_core l" using dsm_step_core [OF _ step] that by simp
  show "ds_log l' = ds_log l @ es" using dsm_step_log [OF step] by (auto simp: es)
  show "es = [] \<and> obj' = obj \<or> (\<exists>u a i. es = [(u, a, i, fst (f a i obj))] \<and> obj' = snd (f a i obj))"
    using dsm_step_log [OF step] by (auto simp: es o)
  show "\<exists>ret. ds_hist l' (ds_caller e) = ds_hist l (ds_caller e) @ ret" using dsm_step_calls(1) [OF step] by simp
  show "ds_hist l' u = ds_hist l u \<and> ds_idle (ds_pc l' u) = ds_idle (ds_pc l u)" if "u \<noteq> ds_caller e"
    using dsm_step_calls(2) [OF step that] by simp
qed

section \<open>The queues\<close>

definition ccqueue_init :: "(bool \<Rightarrow> nat \<Rightarrow> i32) \<Rightarrow> (bool \<Rightarrow> nat \<Rightarrow> i32) \<Rightarrow> (serialq ccsynch, serialq) twolocks" where
  "ccqueue_init g i = two_init (\<lambda>b. cc_lock_init (g b) (i b) sq_init) sq_init"

definition ccqueue_step :: "nat \<Rightarrow> bool \<times> ccev \<Rightarrow> (serialq ccsynch, serialq) twolocks \<Rightarrow> (serialq ccsynch, serialq) twolocks option" where
  "ccqueue_step n =
     two_step (cc_on n) cc_caller (\<lambda>l t. cc_idle (cc_pc l t)) cc_hist (\<lambda>b. if b then ccq_enqueue else ccq_dequeue)"

definition hqueue_init :: "(bool \<Rightarrow> nat \<Rightarrow> nat \<Rightarrow> i32) \<Rightarrow> (bool \<Rightarrow> nat \<Rightarrow> nat \<Rightarrow> i32) \<Rightarrow> (serialq hsynch, serialq) twolocks" where
  "hqueue_init g i = two_init (\<lambda>b. HSynchStructInit (g b) (i b) sq_init) sq_init"

definition hqueue_step :: "nat \<Rightarrow> bool \<times> ccev \<Rightarrow> (serialq hsynch, serialq) twolocks \<Rightarrow> (serialq hsynch, serialq) twolocks option" where
  "hqueue_step n =
     two_step (hs_on n) cc_caller (\<lambda>l t. cc_idle (hs_pc l t)) hs_hist (\<lambda>b. if b then hq_enqueue else hq_dequeue)"

definition dsmqueue_init :: "(bool \<Rightarrow> serialq dsmsynch) \<Rightarrow> (serialq dsmsynch, serialq) twolocks" where
  "dsmqueue_init m = two_init (\<lambda>b. dsm_lock_init (m b) sq_init) sq_init"

definition dsmqueue_step :: "nat \<Rightarrow> bool \<times> dsev \<Rightarrow> (serialq dsmsynch, serialq) twolocks \<Rightarrow> (serialq dsmsynch, serialq) twolocks option" where
  "dsmqueue_step n =
     two_step (ds_on n) ds_caller (\<lambda>l t. ds_idle (ds_pc l t)) ds_hist (\<lambda>b. if b then dsmq_enqueue else dsmq_dequeue)"

text \<open>The operations of a log, and what its dequeues returned.\<close>

definition tl_ops :: "(bool \<times> lockentry) list \<Rightarrow> sqop list" where
  "tl_ops l = map (\<lambda>(b, t, a, i, r). if b then SEnq a else SDeq) l"

definition tl_deqs :: "(bool \<times> lockentry) list \<Rightarrow> i32 list" where
  "tl_deqs l = map (\<lambda>(b, t, a, i, r). r) (filter (\<lambda>(b, t, a, i, r). \<not> b) l)"

definition late_linear :: "('l, 'o) twolocks \<Rightarrow> bool" where
  "late_linear s \<longleftrightarrow> tl_deqs (tl_log s) = late_results INT_MIN [] (tl_ops (tl_log s)) \<and>
     (\<forall>t. \<exists>now. tl_entries t (tl_log s) = tl_hist s t @ now \<and> length now \<le> 1)"

context late_queue
begin

lemma legal_results:
  "tl_legal (\<lambda>b. if b then enq else deq) q l q' \<Longrightarrow> rep q v xs \<Longrightarrow> tl_deqs l = late_results v xs (tl_ops l)"
proof (induction l arbitrary: q v xs)
  case (Cons e l)
  obtain b t a i r where e: "e = (b, t, a, i, r)" by (cases e)
  show ?case
  proof (cases b)
    case True
    then have "tl_deqs l = late_results v (xs @ [a]) (tl_ops l)"
      using Cons.prems e enq_rep [OF Cons.prems(2), of a i] by (intro Cons.IH) auto
    then show ?thesis using e True by (simp add: tl_deqs_def tl_ops_def)
  next
    case False
    show ?thesis
    proof (cases xs)
      case Nil
      then have "deq a i q = (-1, q)" using deq_empty Cons.prems(2) by simp
      then have "r = -1" "tl_deqs l = late_results v [] (tl_ops l)" using Cons e False Nil by auto
      then show ?thesis using e False Nil by (simp add: tl_deqs_def tl_ops_def)
    next
      case (Cons x ys)
      then have d: "fst (deq a i q) = v" "rep (snd (deq a i q)) x ys" using deq_front Cons.prems(2) by auto
      then have "r = v" "tl_deqs l = late_results x ys (tl_ops l)" using Cons.prems(1) Cons.IH [OF _ d(2)] e False by auto
      then show ?thesis using e False Cons by (simp add: tl_deqs_def tl_ops_def)
    qed
  qed
qed (simp add: tl_deqs_def tl_ops_def)

end

lemma late_linearI:
  assumes "tl_legal (\<lambda>b. if b then ccq_enqueue else ccq_dequeue) sq_init (tl_log s) q \<and>
    (\<forall>t. \<exists>now. tl_entries t (tl_log s) = tl_hist s t @ now \<and> length now \<le> 1 \<and> P t now)"
  shows "late_linear s"
  using assms ccq.legal_results [OF _ sq_init_rep] unfolding late_linear_def by blast

text \<open>When all counters start below their bound, the guard of the interpretation does not matter.\<close>

lemma two_fresh:
  "mrun (two_step lstep caller lidle lhist op) es s = Some s' \<Longrightarrow> list_all (\<lambda>(b, e). cc_fresh n e) es \<Longrightarrow>
   mrun (two_step (\<lambda>f e l obj. if cc_fresh n e then lstep f e l obj else None) caller lidle lhist op) es s = Some s'"
proof (induction es arbitrary: s)
  case (Cons x es)
  obtain b e where x: "x = (b, e)" by (cases x)
  have "two_step (\<lambda>f e l obj. if cc_fresh n e then lstep f e l obj else None) caller lidle lhist op x s =
    two_step lstep caller lidle lhist op x s"
    using Cons.prems(2) x by (simp add: Let_def)
  then show ?case using Cons by (simp del: two_step.simps split: option.splits)
qed simp

text \<open>
  (C35) The queues of \<open>ccqueue.c\<close>, \<open>hqueue.c\<close> and \<open>dsmqueue.c\<close>, with one combining lock for the enqueues and
  another one for the dequeues of the same list: in every interleaving there is one sequential order of
  all operations, in which each thread's enqueues and dequeues occur in the order it called them with the
  results it got (all that returned, and one more at most), and in which the dequeues return what a queue
  that is late by one returns: \<open>INT_MIN\<close> first, then always the value the dequeue before should have
  returned. The two locks that use a loop counter need it to start below its bound.
\<close>

theorem combining_queues_late:
  "(mrun (ccqueue_step n) es1 (ccqueue_init g1 i1) = Some s1 \<and> list_all (\<lambda>(b, e). cc_fresh n e) es1 \<longrightarrow> late_linear s1) \<and>
   (mrun (hqueue_step n) es2 (hqueue_init g2 i2) = Some s2 \<and> list_all (\<lambda>(b, e). cc_fresh n e) es2 \<longrightarrow> late_linear s2) \<and>
   (mrun (dsmqueue_step n) es3 (dsmqueue_init m) = Some s3 \<longrightarrow> late_linear s3)"
proof (intro conjI impI; (elim conjE)?)
  assume "mrun (ccqueue_step n) es1 (ccqueue_init g1 i1) = Some s1" "list_all (\<lambda>(b, e). cc_fresh n e) es1"
  from two_fresh [OF this [unfolded ccqueue_step_def ccqueue_init_def]] show "late_linear s1"
    by (intro late_linearI [OF cc_combining.two_locks [rotated 3]])
       (use cc_init_inv [of "\<lambda>a i x. (a, x)" "CCSIM_HELP_BOUND n"] in \<open>auto simp: cc_inv_def cc_lock_init_def\<close>)
next
  assume "mrun (hqueue_step n) es2 (hqueue_init g2 i2) = Some s2" "list_all (\<lambda>(b, e). cc_fresh n e) es2"
  from two_fresh [OF this [unfolded hqueue_step_def hqueue_init_def serial_queues_same]] show "late_linear s2"
    by (intro late_linearI [OF hs_combining.two_locks [rotated 3]])
       (use hs_init_core in \<open>auto simp: HSynchStructInit_def cc_lock_init_def\<close>)
next
  assume "mrun (dsmqueue_step n) es3 (dsmqueue_init m) = Some s3"
  from this [unfolded dsmqueue_step_def dsmqueue_init_def serial_queues_same] show "late_linear s3"
    by (intro late_linearI [OF ds_combining.two_locks [rotated 3]])
       (use dsm_init_core in \<open>auto simp: dsm_lock_init_def\<close>)
qed

text \<open>Thread 0 enqueues 5 and dequeues; in the last run thread 1 dequeues while thread 0 has combined its enqueue and not left.\<close>

definition demo_ccq :: "(bool \<times> ccev) list" where
  "demo_ccq = (True, CcCall 0 5 0) # replicate 13 (True, CcRun 0) @ (False, CcCall 0 1 0) # replicate 13 (False, CcRun 0)"

definition demo_hq :: "(bool \<times> ccev) list" where
  "demo_hq = (True, CcCall 0 5 0) # replicate 22 (True, CcRun 0) @ (False, CcCall 0 1 0) # replicate 22 (False, CcRun 0)"

definition demo_dsmq :: "(bool \<times> dsev) list" where
  "demo_dsmq = (True, DsCall 0 5) # replicate 3 (True, DsRun 0) @ (False, DsCall 1 1) # replicate 9 (False, DsRun 1) @
     replicate 6 (True, DsRun 0)"

definition demo_queue_memory :: "serialq dsmsynch" where
  "demo_queue_memory = \<lparr>ds_tail = Some 7, ds_next = (\<lambda>x. Some x), ds_node_arg = (\<lambda>x. 9), ds_ret = (\<lambda>x. 9), ds_locked = (\<lambda>x. False),
     ds_completed = (\<lambda>x. True), ds_pid = (\<lambda>x. 9), ds_toggle = (\<lambda>t. True), ds_pc = (\<lambda>t. DsIdle), ds_arg = (\<lambda>t. 0), ds_object = sq_init,
     ds_log = [], ds_hist = (\<lambda>t. [])\<rparr>"

lemma demo_queues_run:
  "map_option (\<lambda>s. (tl_hist s 0, tl_ops (tl_log s))) (mrun (ccqueue_step 2) demo_ccq (ccqueue_init (\<lambda>b x. 0) (\<lambda>b x. 0))) =
     Some ([(True, 5, -1), (False, 1, INT_MIN)], [SEnq 5, SDeq])"
  "map_option (\<lambda>s. (tl_hist s 0, tl_ops (tl_log s))) (mrun (hqueue_step 2) demo_hq (hqueue_init (\<lambda>b k x. 0) (\<lambda>b k x. 0))) =
     Some ([(True, 5, -1), (False, 1, INT_MIN)], [SEnq 5, SDeq])"
  "map_option (\<lambda>s. (tl_hist s 0, tl_hist s 1, tl_ops (tl_log s))) (mrun (dsmqueue_step 2) demo_dsmq (dsmqueue_init (\<lambda>b. demo_queue_memory))) =
     Some ([(True, 5, -1)], [(False, 1, INT_MIN)], [SEnq 5, SDeq])"
  by code_simp+

theorem combining_queues_late_witness:
  "\<exists>s1 s2 s3. mrun (ccqueue_step 2) demo_ccq (ccqueue_init (\<lambda>b x. 0) (\<lambda>b x. 0)) = Some s1 \<and>
     mrun (hqueue_step 2) demo_hq (hqueue_init (\<lambda>b k x. 0) (\<lambda>b k x. 0)) = Some s2 \<and>
     mrun (dsmqueue_step 2) demo_dsmq (dsmqueue_init (\<lambda>b. demo_queue_memory)) = Some s3 \<and>
     tl_deqs (tl_log s1) = [INT_MIN] \<and> tl_deqs (tl_log s2) = [INT_MIN] \<and> tl_deqs (tl_log s3) = [INT_MIN]"
proof -
  obtain s1 s2 s3 where s:
    "mrun (ccqueue_step 2) demo_ccq (ccqueue_init (\<lambda>b x. 0) (\<lambda>b x. 0)) = Some s1" "tl_ops (tl_log s1) = [SEnq 5, SDeq]"
    "mrun (hqueue_step 2) demo_hq (hqueue_init (\<lambda>b k x. 0) (\<lambda>b k x. 0)) = Some s2" "tl_ops (tl_log s2) = [SEnq 5, SDeq]"
    "mrun (dsmqueue_step 2) demo_dsmq (dsmqueue_init (\<lambda>b. demo_queue_memory)) = Some s3" "tl_ops (tl_log s3) = [SEnq 5, SDeq]"
    using demo_queues_run by auto
  have "list_all (\<lambda>(b, e). cc_fresh 2 e) demo_ccq" "list_all (\<lambda>(b, e). cc_fresh 2 e) demo_hq"
    by (simp_all add: demo_ccq_def demo_hq_def CCSIM_HELP_BOUND_def numeral_eq_Suc)
  then have "late_linear s1" "late_linear s2" "late_linear s3"
    using combining_queues_late [of 2 demo_ccq "\<lambda>b x. 0" "\<lambda>b x. 0" s1 demo_hq "\<lambda>b k x. 0" "\<lambda>b k x. 0" s2 demo_dsmq
        "\<lambda>b. demo_queue_memory" s3] s(1,3,5) by blast+
  then show ?thesis using s by (auto simp: late_linear_def)
qed

end
