(* ===== verification/ObjectBenches.thy ===== *)
theory ObjectBenches
  imports Benchmarks MSQueue LFStack
begin

text \<open>
  The programs of \<open>synch1.0.1/msqueue.c\<close> and \<open>synch1.0.1/lfstack.c\<close>: every thread puts a value into the shared
  object and takes one out, \<open>RUNS\<close> times. As nobody takes more than it has put before, no operation finds the
  object empty, and it is empty at the end. The contract of such an object is the locale \<open>balanced_object\<close>.
\<close>

section \<open>The programs\<close>

text \<open>\<open>enqueue\<close> and \<open>dequeue\<close> of \<open>msqueue.c\<close> are the text of those of \<open>ms-queue-http-server.c\<close>.\<close>

definition msq_step :: "qev \<Rightarrow> msq \<Rightarrow> msq option" where
  "msq_step = msstep"

text \<open>The operations of a thread are counted through: the even ones put, the odd ones take.\<close>

definition msq_call :: "tid \<Rightarrow> nat \<Rightarrow> qev" where
  "msq_call t i = (if even i then EnqBegin t (int t) else DeqBegin t)"

definition msq_bench :: "nat \<Rightarrow> nat \<Rightarrow> bev \<Rightarrow> msq bench \<Rightarrow> msq bench option" where
  "msq_bench N_THREADS RUNS =
     bench_step msq_step (\<lambda>t s. idle_pc (ms_pc s t)) msq_call QRun N_THREADS (2 * RUNS)"

definition lfs_call :: "tid \<Rightarrow> nat \<Rightarrow> kev" where
  "lfs_call t i = (if even i then KPush t (int t + 1) else KPop t)"

definition lfs_bench :: "nat \<Rightarrow> nat \<Rightarrow> bev \<Rightarrow> lfstack bench \<Rightarrow> lfstack bench option" where
  "lfs_bench N_THREADS RUNS =
     bench_step kstep (\<lambda>t s. kidle (k_pc s t)) lfs_call KRun N_THREADS (2 * RUNS)"

text \<open>
  The loops that \<open>main\<close> runs at the end of a build with \<open>DEBUG\<close>: how many nodes \<open>head\<close> and \<open>top\<close> lead to; a queue
  has one more for its dummy. The first argument bounds the rounds; \<open>None\<close> says that there are more.
\<close>

fun msq_nodes_left :: "nat \<Rightarrow> (nat \<Rightarrow> msnode) \<Rightarrow> nat option \<Rightarrow> int \<Rightarrow> int option" where
  "msq_nodes_left k heap None counter = Some (counter - 1)"
| "msq_nodes_left 0 heap (Some first) counter = None"
| "msq_nodes_left (Suc k) heap (Some first) counter = msq_nodes_left k heap (n_next (heap first)) (counter + 1)"

fun lfs_nodes_left :: "nat \<Rightarrow> (nat \<Rightarrow> nat option) \<Rightarrow> nat option \<Rightarrow> int \<Rightarrow> int option" where
  "lfs_nodes_left k nx None counter = Some counter"
| "lfs_nodes_left 0 nx (Some tp) counter = None"
| "lfs_nodes_left (Suc k) nx (Some tp) counter = lfs_nodes_left k nx (nx tp) (counter + 1)"

section \<open>What the programs need of the object\<close>

text \<open>
  \<open>held t s\<close> is 1 when the thread has put a value and not yet taken one, \<open>goal t s\<close> what it will be when the operation the
  thread is in has returned, \<open>fine t s\<close> that nothing the thread has read says the object is empty. \<open>V\<close> are the values.
\<close>

locale balanced_object = machine ostep good
  for ostep :: "'e \<Rightarrow> 'o \<Rightarrow> 'o option" and good :: "'o \<Rightarrow> bool" +
  fixes oidle :: "tid \<Rightarrow> 'o \<Rightarrow> bool" and call :: "tid \<Rightarrow> nat \<Rightarrow> 'e" and run :: "tid \<Rightarrow> 'e"
    and content :: "'o \<Rightarrow> int list" and held goal :: "tid \<Rightarrow> 'o \<Rightarrow> nat" and fine :: "tid \<Rightarrow> 'o \<Rightarrow> bool"
    and V :: "int set" and N :: nat
  assumes call_law: "good s \<Longrightarrow> t < N \<Longrightarrow> oidle t s \<Longrightarrow> goal t s = i mod 2 \<Longrightarrow> ostep (call t i) s = Some s' \<Longrightarrow>
      \<not> oidle t s' \<and> goal t s' = (i + 1) mod 2 \<and> held t s' = held t s \<and> content s' = content s \<and> fine t s'"
    and run_law: "good s \<Longrightarrow> fine t s \<Longrightarrow> set (content s) \<subseteq> V \<Longrightarrow> held t s = 0 \<or> content s \<noteq> [] \<Longrightarrow>
      ostep (run t) s = Some s' \<Longrightarrow>
      goal t s' = goal t s \<and> fine t s' \<and> set (content s') \<subseteq> V \<and> length (content s') + held t s = length (content s) + held t s'"
    and idle_law: "oidle t s \<Longrightarrow> held t s = goal t s"
    and others: "good s \<Longrightarrow> e = call t i \<or> e = run t \<Longrightarrow> ostep e s = Some s' \<Longrightarrow> u \<noteq> t \<Longrightarrow>
      oidle u s' = oidle u s \<and> held u s' = held u s \<and> goal u s' = goal u s \<and> (fine u s \<longrightarrow> fine u s')"

fun bal_ok :: "nat \<Rightarrow> bpc \<Rightarrow> bool \<Rightarrow> nat \<Rightarrow> bool" where
  "bal_ok R (BLoop i) out g = (i \<le> R \<and> out \<and> g = i mod 2)"
| "bal_ok R (BIn i) out g = (i < R \<and> g = (i + 1) mod 2)"
| "bal_ok R BReturned out g = (out \<and> g = R mod 2)"
| "bal_ok R _ out g = (out \<and> g = 0)"

definition bal_inv ::
  "('o \<Rightarrow> bool) \<Rightarrow> (tid \<Rightarrow> 'o \<Rightarrow> bool) \<Rightarrow> ('o \<Rightarrow> int list) \<Rightarrow> (tid \<Rightarrow> 'o \<Rightarrow> nat) \<Rightarrow> (tid \<Rightarrow> 'o \<Rightarrow> nat) \<Rightarrow> (tid \<Rightarrow> 'o \<Rightarrow> bool) \<Rightarrow>
   int set \<Rightarrow> nat \<Rightarrow> nat \<Rightarrow> 'o bench \<Rightarrow> bool" where
  "bal_inv good oidle content held goal fine V N R s \<longleftrightarrow>
     good (b_obj s) \<and> bm_ok N (b_main s) (b_pc s) \<and> (\<forall>t. bal_ok R (b_pc s t) (oidle t (b_obj s)) (goal t (b_obj s))) \<and>
     (\<forall>t. fine t (b_obj s)) \<and> set (content (b_obj s)) \<subseteq> V \<and> length (content (b_obj s)) = (\<Sum>t<N. held t (b_obj s))"

lemma bm_ok_below: "bm_ok N m pcs \<Longrightarrow> pcs t \<noteq> BNew \<Longrightarrow> t < N"
  by (cases m) (auto simp: not_le [symmetric] intro: ccontr)

lemma sum_other:
  fixes f g :: "nat \<Rightarrow> nat"
  assumes "t < N" and "\<And>u. u \<noteq> t \<Longrightarrow> g u = f u"
  shows "(\<Sum>u<N. g u) + f t = (\<Sum>u<N. f u) + g t"
proof -
  have "(\<Sum>u\<in>{..<N} - {t}. g u) = (\<Sum>u\<in>{..<N} - {t}. f u)" using assms(2) by (intro sum.cong) auto
  then show ?thesis using assms(1) sum.remove [of "{..<N}" t f] sum.remove [of "{..<N}" t g] by simp
qed

context balanced_object
begin

abbreviation binv :: "nat \<Rightarrow> 'o bench \<Rightarrow> bool" where
  "binv \<equiv> bal_inv good oidle content held goal fine V N"

lemma bal_object_step:
  assumes inv: "binv R s" and t: "b_pc s t \<noteq> BNew" "b_pc s t \<noteq> BReturned" and e: "e = call t i \<or> e = run t"
    and obj: "ostep e (b_obj s) = Some obj" and ok: "bal_ok R p (oidle t obj) (goal t obj)"
    and own: "fine t obj" "set (content obj) \<subseteq> V"
      "length (content obj) + held t (b_obj s) = length (content (b_obj s)) + held t obj"
  shows "binv R (bgo t p (s\<lparr>b_obj := obj\<rparr>))"
proof -
  have g: "good (b_obj s)" and bm: "bm_ok N (b_main s) (b_pc s)" using inv by (simp_all add: bal_inv_def)
  note o = others [OF g e obj]
  have "(\<Sum>u<N. held u obj) + held t (b_obj s) = (\<Sum>u<N. held u (b_obj s)) + held t obj"
    by (rule sum_other [OF bm_ok_below [OF bm t(1)]]) (use o in blast)
  then have "length (content obj) = (\<Sum>u<N. held u obj)" using own(3) inv by (simp add: bal_inv_def)
  moreover have "fine u obj" for u using own(1) o [of u] inv by (cases "u = t") (auto simp: bal_inv_def)
  moreover have "bal_ok R (((b_pc s)(t := p)) u) (oidle u obj) (goal u obj)" for u
    using ok o [of u] inv by (cases "u = t") (auto simp: bal_inv_def)
  ultimately show ?thesis using good_step [OF g obj] bm_ok_upd [OF bm t, of p] own(2) by (simp add: bal_inv_def)
qed

lemma bal_thread_inv:
  assumes inv: "binv R s" and step: "bench_Execute ostep oidle call run N R t s = Some s'"
  shows "binv R s'"
proof -
  have g: "good (b_obj s)" and bm: "bm_ok N (b_main s) (b_pc s)" and V: "set (content (b_obj s)) \<subseteq> V"
    and ok: "bal_ok R (b_pc s t) (oidle t (b_obj s)) (goal t (b_obj s))" and fine: "fine t (b_obj s)"
    and len: "length (content (b_obj s)) = (\<Sum>t<N. held t (b_obj s))"
    using inv by (simp_all add: bal_inv_def)
  have go: "binv R (bgo t p s)"
    if "bal_ok R p (oidle t (b_obj s)) (goal t (b_obj s))" "b_pc s t \<noteq> BNew" "b_pc s t \<noteq> BReturned" for p
    using that inv bm_ok_upd [OF bm that(2,3), of p] by (simp add: bal_inv_def)
  show ?thesis
  proof (cases "b_pc s t")
    case (BLoop i)
    show ?thesis
    proof (cases "i < R")
      case True
      then obtain obj where obj: "ostep (call t i) (b_obj s) = Some obj" and s': "s' = bgo t (BIn i) (s\<lparr>b_obj := obj\<rparr>)"
        using step BLoop by (auto simp: bench_Execute_def split: option.splits)
      have "t < N" using bm_ok_below [OF bm] BLoop by simp
      from call_law [OF g this _ _ obj] ok BLoop True V show ?thesis
        unfolding s' by (intro bal_object_step [OF inv _ _ _ obj, where i = i]) auto
    next
      case False
      then have "s' = bgo t BReturned s" using step BLoop by (simp add: bench_Execute_def)
      then show ?thesis using go [of BReturned] ok BLoop False by auto
    qed
  next
    case (BIn i)
    show ?thesis
    proof (cases "oidle t (b_obj s)")
      case True
      then have "s' = bgo t (BLoop (i + 1)) s" using step BIn by (simp add: bench_Execute_def)
      then show ?thesis using go [of "BLoop (i + 1)"] ok BIn True by auto
    next
      case False
      then obtain obj where obj: "ostep (run t) (b_obj s) = Some obj" and s': "s' = s\<lparr>b_obj := obj\<rparr>"
        using step BIn by (auto simp: bench_Execute_def split: option.splits)
      have "held t (b_obj s) \<le> length (content (b_obj s))"
        unfolding len using bm_ok_below [OF bm, of t] BIn by (intro member_le_sum) auto
      then have ne: "held t (b_obj s) = 0 \<or> content (b_obj s) \<noteq> []" by auto
      have "(b_pc s)(t := BIn i) = b_pc s" using BIn by (simp add: fun_eq_iff)
      then have "bgo t (BIn i) s' = s'" by (simp add: s' bgo_def)
      moreover have "binv R (bgo t (BIn i) (s\<lparr>b_obj := obj\<rparr>))"
        using run_law [OF g fine V ne obj] ok BIn by (intro bal_object_step [OF inv _ _ _ obj]) auto
      ultimately show ?thesis by (simp add: s')
    qed
  qed (use step go ok in \<open>auto simp: bench_Execute_def split: if_splits\<close>)
qed

lemma bal_step_inv:
  assumes inv: "binv R s" and step: "bench_step ostep oidle call run N R e s = Some s'"
  shows "binv R s'"
proof (cases e)
  case (BThread t)
  then have "bench_Execute ostep oidle call run N R t s = Some s'" using step by (simp add: bench_step_def)
  then show ?thesis by (rule bal_thread_inv [OF inv])
next
  case BMain
  then have step: "bench_main N s = Some s'" using step by (simp add: bench_step_def)
  have bm: "bm_ok N (b_main s) (b_pc s)" and ok: "\<And>t. bal_ok R (b_pc s t) (oidle t (b_obj s)) (goal t (b_obj s))"
    using inv by (simp_all add: bal_inv_def)
  show ?thesis
  proof (cases "b_main s")
    case (BmCreate k)
    then have "b_pc s k = BNew" using bm by simp
    then show ?thesis using inv ok [of k] bm BmCreate step
      by (cases "k < N") (auto simp: bal_inv_def bench_main_def)
  next
    case (BmJoin k)
    then show ?thesis using inv step bm by (auto simp: bal_inv_def bench_main_def less_Suc_eq split: if_splits)
  qed (use step in \<open>simp add: bench_main_def\<close>)
qed

end

sublocale balanced_object \<subseteq> bal: machine "bench_step ostep oidle call run N R" "bal_inv good oidle content held goal fine V N R" for R
  by unfold_locales (rule bal_step_inv)

context balanced_object
begin

lemma bal_run:
  assumes "good obj" and "content obj = []" and "\<And>t. oidle t obj \<and> goal t obj = 0 \<and> fine t obj"
    and "mrun (bench_step ostep oidle call run N R) es (bench_init obj) = Some s"
  shows "bal_inv good oidle content held goal fine V N R s"
  using bal.good_run [OF _ assms(4)] assms(1-3) idle_law [of _ obj] by (simp add: bal_inv_def bench_init_def)

text \<open>When \<open>main\<close> returns after an even number of operations per thread, the object is empty.\<close>

lemma bal_end:
  assumes "bal_inv good oidle content held goal fine V N R s" and "b_main s = BmReturned" and "even R"
  shows "content (b_obj s) = []"
proof -
  have "held t (b_obj s) = 0" if "t < N" for t
  proof -
    have "b_pc s t = BReturned" using assms(1,2) that by (simp add: bal_inv_def)
    then have "oidle t (b_obj s) \<and> goal t (b_obj s) = 0" using assms(1,3) by (auto simp: bal_inv_def dest: spec [of _ t])
    then show ?thesis using idle_law by simp
  qed
  then show ?thesis using assms(1) by (simp add: bal_inv_def)
qed

end

section \<open>The Michael-Scott queue\<close>

text \<open>The last case of \<open>ms_fine\<close>: a \<open>dequeue\<close> has not read a null \<open>first->next\<close>.\<close>

fun ms_held :: "mspc \<Rightarrow> nat" where
  "ms_held QIdle = 0"
| "ms_held (EReadTail v p) = 0"
| "ms_held (EReadNext v p l) = 0"
| "ms_held (ECheck v p l n) = 0"
| "ms_held (ECasNext v p l) = 0"
| "ms_held (ECasHelp v p l nx) = 0"
| "ms_held (QRet v) = 0"
| "ms_held _ = 1"

fun ms_goal :: "mspc \<Rightarrow> nat" where
  "ms_goal (EReadTail v p) = 1"
| "ms_goal (EReadNext v p l) = 1"
| "ms_goal (ECheck v p l n) = 1"
| "ms_goal (ECasNext v p l) = 1"
| "ms_goal (ECasHelp v p l nx) = 1"
| "ms_goal (ESwing p l) = 1"
| "ms_goal EDone = 1"
| "ms_goal _ = 0"

fun ms_fine :: "int set \<Rightarrow> mspc \<Rightarrow> bool" where
  "ms_fine V (EReadTail v p) = (v \<in> V)"
| "ms_fine V (EReadNext v p l) = (v \<in> V)"
| "ms_fine V (ECheck v p l n) = (v \<in> V)"
| "ms_fine V (ECasNext v p l) = (v \<in> V)"
| "ms_fine V (ECasHelp v p l nx) = (v \<in> V)"
| "ms_fine V (QRet v) = (v \<in> V)"
| "ms_fine V (DCheck f l n) = (n \<noteq> None)"
| "ms_fine V _ = True"

lemma ms_run_law:
  assumes good: "ms_good s" and fine: "ms_fine V (ms_pc s t)" and V: "set (ms_content s) \<subseteq> V"
    and ne: "ms_held (ms_pc s t) = 0 \<or> ms_content s \<noteq> []" and run: "msstep (QRun t) s = Some s'"
  shows "ms_goal (ms_pc s' t) = ms_goal (ms_pc s t) \<and> ms_fine V (ms_pc s' t) \<and> set (ms_content s') \<subseteq> V \<and>
    length (ms_content s') + ms_held (ms_pc s t) = length (ms_content s) + ms_held (ms_pc s' t)"
proof -
  have step: "step_fine (mslin (QRun t) s) s s'" by (rule msstep_fine [OF good run])
  show ?thesis
  proof (cases "ms_pc s t")
    case (ECasNext v p l)
    show ?thesis
    proof (cases "n_next (ms_heap s l) = None")
      case True
      then have "ms_content s' = ms_content s @ [v]" using step ECasNext by (simp add: step_fine_def)
      moreover have "ms_pc s' t = ESwing p l" using run ECasNext True by (auto split: if_splits)
      ultimately show ?thesis using fine V ECasNext by simp
    next
      case False
      then have "ms_content s' = ms_content s" using step ECasNext by (auto simp: step_fine_def)
      moreover have "ms_pc s' t = EReadTail v p" using run ECasNext False by (auto split: if_splits)
      ultimately show ?thesis using fine V ECasNext by simp
    qed
  next
    case (DReadNext f l)
    then have "n_next (ms_heap s f) \<noteq> None" using none_read_empty [OF good DReadNext] ne by auto
    then show ?thesis using DReadNext run V step by (auto simp: step_fine_def split: if_splits)
  next
    case (DCas f nx v)
    then show ?thesis using run V step by (auto simp: step_fine_def split: if_splits list.splits)
  next
    case (DValue f n)
    obtain ps h k where "ms_inv s ps h k" using good by (auto simp: ms_good_def)
    then have "n \<noteq> None" using ms_inv_pc [of s ps h k t] DValue by auto
    then show ?thesis using DValue run V step by (auto simp: step_fine_def split: if_splits)
  qed (use run fine V step in \<open>auto simp: step_fine_def cas_tail_def split: if_splits option.splits\<close>)
qed

lemma ms_others:
  assumes "e = msq_call t i \<or> e = QRun t" and "msstep e s = Some s'" and "u \<noteq> t"
  shows "ms_pc s' u = ms_pc s u"
  using pc_other [OF assms(2), of u] assms(1,3) by (auto simp: msq_call_def split: if_splits)

interpretation msq_balanced: balanced_object msq_step ms_good "\<lambda>t s. idle_pc (ms_pc s t)" msq_call QRun ms_content
    "\<lambda>t s. ms_held (ms_pc s t)" "\<lambda>t s. ms_goal (ms_pc s t)" "\<lambda>t s. ms_fine (int ` {..<N}) (ms_pc s t)" "int ` {..<N}" N for N
proof unfold_locales
  show "ms_good s'" if "ms_good s" "msq_step e s = Some s'" for s e s'
    using that msq.good_step by (simp add: msq_step_def)
  show "\<not> idle_pc (ms_pc s' t) \<and> ms_goal (ms_pc s' t) = (i + 1) mod 2 \<and> ms_held (ms_pc s' t) = ms_held (ms_pc s t) \<and>
      ms_content s' = ms_content s \<and> ms_fine (int ` {..<N}) (ms_pc s' t)"
    if "ms_good s" "t < N" "idle_pc (ms_pc s t)" "ms_goal (ms_pc s t) = i mod 2" "msq_step (msq_call t i) s = Some s'" for s t i s' N
  proof -
    have step: "msstep (msq_call t i) s = Some s'" using that(5) by (simp add: msq_step_def)
    have "ms_content s' = ms_content s"
      using step_fineD(2) [OF msstep_fine [OF that(1) step]] by (simp add: msq_call_def)
    moreover have "\<exists>p. ms_pc s' t = (if even i then EReadTail (int t) p else DReadHead)"
      using step by (auto simp: msq_call_def enqueue_begin_def Let_def split: if_splits)
    moreover have "ms_held (ms_pc s t) = i mod 2" using that(3,4) by (cases "ms_pc s t") auto
    ultimately show ?thesis using that(2) by (cases "even i") (auto simp: odd_iff_mod_2_eq_one)
  qed
  show "ms_goal (ms_pc s' t) = ms_goal (ms_pc s t) \<and> ms_fine (int ` {..<N}) (ms_pc s' t) \<and> set (ms_content s') \<subseteq> int ` {..<N} \<and>
      length (ms_content s') + ms_held (ms_pc s t) = length (ms_content s) + ms_held (ms_pc s' t)"
    if "ms_good s" "ms_fine (int ` {..<N}) (ms_pc s t)" "set (ms_content s) \<subseteq> int ` {..<N}"
      "ms_held (ms_pc s t) = 0 \<or> ms_content s \<noteq> []" "msq_step (QRun t) s = Some s'" for s t s' N
    using that by (intro ms_run_law) (simp_all add: msq_step_def)
  show "ms_held (ms_pc s t) = ms_goal (ms_pc s t)" if "idle_pc (ms_pc s t)" for s t
    using that by (cases "ms_pc s t") auto
qed (use ms_others in \<open>simp_all add: msq_step_def\<close>)

section \<open>The lock-free stack\<close>

fun k_held :: "kpc \<Rightarrow> nat" where
  "k_held KIdle = 0"
| "k_held (KRead n) = 0"
| "k_held (KCas n old_top) = 0"
| "k_held (KPVal m) = 0"
| "k_held (KPopped v) = 0"
| "k_held _ = 1"

fun k_goal :: "kpc \<Rightarrow> nat" where
  "k_goal (KRead n) = 1"
| "k_goal (KCas n old_top) = 1"
| "k_goal KPushed = 1"
| "k_goal _ = 0"

fun k_fine :: "int set \<Rightarrow> (nat \<Rightarrow> int) \<Rightarrow> nat \<Rightarrow> kpc \<Rightarrow> bool" where
  "k_fine V value brk (KRead n) = (n < brk \<and> value n \<in> V)"
| "k_fine V value brk (KCas n old_top) = (n < brk \<and> value n \<in> V)"
| "k_fine V value brk (KPVal m) = (m < brk \<and> value m \<in> V)"
| "k_fine V value brk (KPopped v) = (v \<in> V)"
| "k_fine V value brk _ = True"

lemma k_fine_mono: "k_fine V value brk p \<Longrightarrow> \<forall>n < brk. value' n = value n \<Longrightarrow> brk \<le> brk' \<Longrightarrow> k_fine V value' brk' p"
  by (cases p) auto

lemma k_run_law:
  assumes good: "k_good s" and fine: "k_fine V (k_value s) (k_brk s) (k_pc s t)" and V: "set (k_content s) \<subseteq> V"
    and ne: "k_held (k_pc s t) = 0 \<or> k_content s \<noteq> []" and run: "kstep (KRun t) s = Some s'"
  shows "k_goal (k_pc s' t) = k_goal (k_pc s t) \<and> k_fine V (k_value s') (k_brk s') (k_pc s' t) \<and> set (k_content s') \<subseteq> V \<and>
    length (k_content s') + k_held (k_pc s t) = length (k_content s) + k_held (k_pc s' t)"
proof -
  have step: "kfine (kact (KRun t) s) s s'" by (rule kstep_fine [OF good run])
  obtain pub ns where inv: "k_inv s pub ns" using good by (auto simp: k_good_def)
  show ?thesis
  proof (cases "k_pc s t")
    case (KCas n old_top)
    show ?thesis
    proof (cases "k_top s = old_top")
      case True
      moreover have "k_value s n = k_arg s t" using inv KCas by (simp add: k_inv_def)
      ultimately have "k_content s' = k_value s n # k_content s" using step KCas by (simp add: kfine_def)
      moreover have "s' = kgo t KPushed (s\<lparr>k_top := Some n\<rparr>)" using run KCas True by simp
      ultimately show ?thesis using fine V KCas by simp
    next
      case False
      then have "k_content s' = k_content s" using step KCas by (simp add: kfine_def)
      moreover have "s' = kgo t (KRead n) s" using run KCas False by simp
      ultimately show ?thesis using fine V KCas by simp
    qed
  next
    case KPRead
    have "k_top s \<noteq> None" using ne KPRead k_content_eq [OF inv] inv by (cases ns) (auto simp: k_inv_def)
    then show ?thesis using KPRead run V step by (auto simp: kfine_def)
  next
    case (KPCas m nx)
    then have "m < k_brk s" using inv unfolding k_inv_def by (metis k_refs.simps(3))
    then show ?thesis using KPCas run V step by (auto simp: kfine_def split: if_splits list.splits)
  qed (use run fine V step in \<open>auto simp: kfine_def split: if_splits\<close>)
qed

lemma k_others:
  assumes "k_good s" and "e = lfs_call t i \<or> e = KRun t" and "kstep e s = Some s'" and "u \<noteq> t"
  shows "k_pc s' u = k_pc s u \<and> (k_fine V (k_value s) (k_brk s) (k_pc s u) \<longrightarrow> k_fine V (k_value s') (k_brk s') (k_pc s' u))"
proof -
  have pc: "k_pc s' u = k_pc s u"
  proof (cases "e = KRun t")
    case True
    then show ?thesis using assms(3,4) by (cases "k_pc s t") (auto split: if_splits)
  next
    case False
    then show ?thesis using assms(2-4) by (auto simp: lfs_call_def push_begin_def Let_def split: if_splits)
  qed
  have "\<forall>n < k_brk s. k_value s' n = k_value s n" using kstep_fine [OF assms(1,3)] by (simp add: kfine_def)
  moreover have "k_brk s \<le> k_brk s'" by (rule kstep_others [OF assms(3)])
  ultimately show ?thesis using k_fine_mono pc by metis
qed

interpretation lfs_balanced: balanced_object kstep k_good "\<lambda>t s. kidle (k_pc s t)" lfs_call KRun k_content
    "\<lambda>t s. k_held (k_pc s t)" "\<lambda>t s. k_goal (k_pc s t)" "\<lambda>t s. k_fine ((\<lambda>t. int t + 1) ` {..<N}) (k_value s) (k_brk s) (k_pc s t)"
    "(\<lambda>t. int t + 1) ` {..<N}" N for N
proof unfold_locales
  show "\<not> kidle (k_pc s' t) \<and> k_goal (k_pc s' t) = (i + 1) mod 2 \<and> k_held (k_pc s' t) = k_held (k_pc s t) \<and>
      k_content s' = k_content s \<and> k_fine ((\<lambda>t. int t + 1) ` {..<N}) (k_value s') (k_brk s') (k_pc s' t)"
    if "k_good s" "t < N" "kidle (k_pc s t)" "k_goal (k_pc s t) = i mod 2" "kstep (lfs_call t i) s = Some s'" for s t i s' N
  proof -
    have "k_content s' = k_content s" using kstep_fine [OF that(1,5)] by (auto simp: kfine_def lfs_call_def split: if_splits)
    moreover have "k_fine ((\<lambda>t. int t + 1) ` {..<N}) (k_value s') (k_brk s') (k_pc s' t) \<and>
        (\<exists>n. k_pc s' t = (if even i then KRead n else KPRead))"
      using that(2,5) by (auto simp: lfs_call_def push_begin_def Let_def split: if_splits)
    moreover have "k_held (k_pc s t) = i mod 2" using that(3,4) by (cases "k_pc s t") auto
    ultimately show ?thesis by (cases "even i") (auto simp: odd_iff_mod_2_eq_one)
  qed
  show "k_held (k_pc s t) = k_goal (k_pc s t)" if "kidle (k_pc s t)" for s t
    using that by (cases "k_pc s t") auto
  fix V s e s' u i and t :: tid and N
  assume good: "k_good s"
  show "k_goal (k_pc s' t) = k_goal (k_pc s t) \<and> k_fine V (k_value s') (k_brk s') (k_pc s' t) \<and> set (k_content s') \<subseteq> V \<and>
      length (k_content s') + k_held (k_pc s t) = length (k_content s) + k_held (k_pc s' t)"
    if "k_fine V (k_value s) (k_brk s) (k_pc s t)" "set (k_content s) \<subseteq> V" "k_held (k_pc s t) = 0 \<or> k_content s \<noteq> []"
      "kstep (KRun t) s = Some s'"
    using k_run_law [OF good that] .
  assume o: "e = lfs_call t i \<or> e = KRun t" "kstep e s = Some s'" "u \<noteq> t"
  show "kidle (k_pc s' u) = kidle (k_pc s u) \<and> k_held (k_pc s' u) = k_held (k_pc s u) \<and> k_goal (k_pc s' u) = k_goal (k_pc s u) \<and>
      (k_fine V (k_value s) (k_brk s) (k_pc s u) \<longrightarrow> k_fine V (k_value s') (k_brk s') (k_pc s' u))"
    using k_others [OF good o, of V] by metis
qed

section \<open>The benchmarks\<close>

lemma msq_nodes_left_walk:
  "ms_walk n heap p = [] \<Longrightarrow> 0 < n \<Longrightarrow> msq_nodes_left k heap p counter = Some (counter - 1)"
  by (cases n; cases p) auto

lemma msq_empty_nodes:
  assumes "ms_good s" and "ms_content s = []"
  shows "msq_nodes_left (Suc k) (ms_heap s) (Some (ms_head s)) 0 = Some 0"
proof -
  obtain ps h j where "ms_inv s ps h j" using assms(1) by (auto simp: ms_good_def)
  then have "0 < ms_brk s" by (auto simp: ms_inv_def ms_glob_def intro: gr_zeroI)
  moreover have "ms_walk (ms_brk s) (ms_heap s) (n_next (ms_heap s (ms_head s))) = []"
    using assms(2) by (simp add: ms_content_def)
  ultimately show ?thesis using msq_nodes_left_walk [of "ms_brk s" "ms_heap s" _ k 1] by simp
qed

lemma lfs_empty_nodes:
  assumes "k_good s" and "k_content s = []"
  shows "lfs_nodes_left k (k_next s) (k_top s) 0 = Some 0"
proof -
  obtain pub ns where inv: "k_inv s pub ns" using assms(1) by (auto simp: k_good_def)
  then have "ns = []" using k_content_eq [OF inv] assms(2) by simp
  then have "k_top s = None" using inv by (simp add: k_inv_def)
  then show ?thesis by simp
qed

definition demo_objbench :: "nat \<Rightarrow> bev list" where
  "demo_objbench n = [BMain, BMain, BThread 0, BThread 0] @ replicate n (BThread 0) @ [BMain, BMain]"

lemma demo_objbench_run:
  "map_option (\<lambda>s. (b_main s, ms_pc (b_obj s) 0)) (mrun (msq_bench 1 1) (demo_objbench 16) (bench_init (ms_init (\<lambda>a. \<lparr>n_value = 9, n_next = None\<rparr>)))) =
     Some (BmReturned, QRet 0)"
  "map_option (\<lambda>s. (b_main s, k_pc (b_obj s) 0)) (mrun (lfs_bench 1 1) (demo_objbench 11) (bench_init k_init)) =
     Some (BmReturned, KPopped 1)"
  by code_simp+

text \<open>
  (C36) In the programs of \<open>msqueue.c\<close> and \<open>lfstack.c\<close>, under every interleaving of their threads, no \<open>dequeue\<close> answers -1
  and no \<open>pop\<close> answers 0, as they do for an empty object: all get a value some thread puts, its \<open>id\<close> or
  \<open>id + 1\<close>. When \<open>main\<close> returns, the queue and the stack are empty, and a build with \<open>DEBUG\<close> prints that 0 nodes
  were left.
\<close>

theorem benchmarks_never_empty:
  "(mrun (msq_bench N RUNS) es1 (bench_init (ms_init h)) = Some s1 \<longrightarrow>
      (\<forall>t v. ms_pc (b_obj s1) t = QRet v \<longrightarrow> (\<exists>u < N. v = int u)) \<and> 
      (b_main s1 = BmReturned \<longrightarrow> ms_content (b_obj s1) = [] \<and> msq_nodes_left (Suc k) (ms_heap (b_obj s1)) (Some (ms_head (b_obj s1))) 0 = Some 0)) \<and>
   (mrun (lfs_bench N RUNS) es2 (bench_init k_init) = Some s2 \<longrightarrow>
      (\<forall>t v. k_pc (b_obj s2) t = KPopped v \<longrightarrow> (\<exists>u < N. v = int u + 1)) \<and> 
      (b_main s2 = BmReturned \<longrightarrow> k_content (b_obj s2) = [] \<and> lfs_nodes_left k (k_next (b_obj s2)) (k_top (b_obj s2)) 0 = Some 0))"
proof (intro conjI impI allI)
  assume run: "mrun (msq_bench N RUNS) es1 (bench_init (ms_init h)) = Some s1"
  have inv: "bal_inv ms_good (\<lambda>t s. idle_pc (ms_pc s t)) ms_content (\<lambda>t s. ms_held (ms_pc s t)) (\<lambda>t s. ms_goal (ms_pc s t))
      (\<lambda>t s. ms_fine (int ` {..<N}) (ms_pc s t)) (int ` {..<N}) N (2 * RUNS) s1"
    by (rule msq_balanced.bal_run [OF ms_init_good ms_init_content _ run [unfolded msq_bench_def]]) (simp add: ms_init_def)
  then have fine: "ms_fine (int ` {..<N}) (ms_pc (b_obj s1) t)" for t by (simp add: bal_inv_def)
  show "\<exists>u < N. v = int u" if "ms_pc (b_obj s1) t = QRet v" for t v using fine [of t] that by auto
  show empty: "ms_content (b_obj s1) = []" if "b_main s1 = BmReturned" using msq_balanced.bal_end [OF inv that] by simp
  show "msq_nodes_left (Suc k) (ms_heap (b_obj s1)) (Some (ms_head (b_obj s1))) 0 = Some 0" if "b_main s1 = BmReturned"
    using msq_empty_nodes empty [OF that] inv by (simp add: bal_inv_def)
next
  assume run: "mrun (lfs_bench N RUNS) es2 (bench_init k_init) = Some s2"
  have "k_content k_init = []" by (simp add: k_content_def k_init_def)
  then have inv: "bal_inv k_good (\<lambda>t s. kidle (k_pc s t)) k_content (\<lambda>t s. k_held (k_pc s t)) (\<lambda>t s. k_goal (k_pc s t))
      (\<lambda>t s. k_fine ((\<lambda>t. int t + 1) ` {..<N}) (k_value s) (k_brk s) (k_pc s t)) ((\<lambda>t. int t + 1) ` {..<N}) N (2 * RUNS) s2"
    by (rule lfs_balanced.bal_run [OF k_init_good _ _ run [unfolded lfs_bench_def]]) (simp add: k_init_def)
  then have fine: "k_fine ((\<lambda>t. int t + 1) ` {..<N}) (k_value (b_obj s2)) (k_brk (b_obj s2)) (k_pc (b_obj s2) t)" for t
    by (simp add: bal_inv_def)
  show "\<exists>u < N. v = int u + 1" if "k_pc (b_obj s2) t = KPopped v" for t v using fine [of t] that by auto
  show empty: "k_content (b_obj s2) = []" if "b_main s2 = BmReturned" using lfs_balanced.bal_end [OF inv that] by simp
  show "lfs_nodes_left k (k_next (b_obj s2)) (k_top (b_obj s2)) 0 = Some 0" if "b_main s2 = BmReturned"
    using lfs_empty_nodes empty [OF that] inv by (simp add: bal_inv_def)
qed

theorem benchmarks_never_empty_witness:
  "\<exists>s1 s2. mrun (msq_bench 1 1) (demo_objbench 16) (bench_init (ms_init (\<lambda>a. \<lparr>n_value = 9, n_next = None\<rparr>))) = Some s1 \<and>
     ms_content (b_obj s1) = [] \<and> mrun (lfs_bench 1 1) (demo_objbench 11) (bench_init k_init) = Some s2 \<and> k_content (b_obj s2) = []"
proof -
  obtain s1 s2 where s:
    "mrun (msq_bench 1 1) (demo_objbench 16) (bench_init (ms_init (\<lambda>a. \<lparr>n_value = 9, n_next = None\<rparr>))) = Some s1" "b_main s1 = BmReturned"
    "mrun (lfs_bench 1 1) (demo_objbench 11) (bench_init k_init) = Some s2" "b_main s2 = BmReturned"
    using demo_objbench_run by auto
  then show ?thesis
    using benchmarks_never_empty [of 1 1 "demo_objbench 16" "\<lambda>a. \<lparr>n_value = 9, n_next = None\<rparr>" s1 0 "demo_objbench 11" s2] by blast
qed

end
