(* ===== verification/CombiningBenches.thy ===== *)
theory CombiningBenches
  imports CombiningQueues Benchmarks
begin

text \<open>
  The programs \<open>ccuobject.c\<close>, \<open>huobject.c\<close> and \<open>dsmuobject.c\<close>: every thread multiplies one word by its \<open>id\<close>,
  \<open>RUNS\<close> times, under a combining lock. What they need of the lock beyond \<open>combining_lock\<close> is the locale
  \<open>combining_calls\<close>; it makes the lock with its object a \<open>counted_object\<close>, for which \<open>Benchmarks\<close> has the program.
\<close>

section \<open>A lock with its object, and the programs\<close>

definition locked_step ::
  "((i32 \<Rightarrow> i32 \<Rightarrow> 'o \<Rightarrow> i32 \<times> 'o) \<Rightarrow> 'e \<Rightarrow> 'l \<Rightarrow> 'o \<Rightarrow> ('l \<times> 'o \<times> lockentry list) option) \<Rightarrow> (i32 \<Rightarrow> i32 \<Rightarrow> 'o \<Rightarrow> i32 \<times> 'o) \<Rightarrow>
   'e \<Rightarrow> 'l \<times> 'o \<Rightarrow> ('l \<times> 'o) option" where
  "locked_step lstep f e s = map_option (\<lambda>(l, obj, es). (l, obj)) (lstep f e (fst s) (snd s))"

text \<open>\<open>g t i\<close> is what the register of \<open>counter\<close> holds in the \<open>i\<close>-th call of thread \<open>t\<close>.\<close>

definition ccu_bench :: "(tid \<Rightarrow> nat \<Rightarrow> int) \<Rightarrow> nat \<Rightarrow> nat \<Rightarrow> bev \<Rightarrow> (i32 ccsynch \<times> i32) bench \<Rightarrow> (i32 ccsynch \<times> i32) bench option" where
  "ccu_bench g N_THREADS RUNS =
     bench_step (locked_step (cc_on N_THREADS) ccu_fetchAndMultiply) (\<lambda>t s. cc_idle (cc_pc (fst s) t))
       (\<lambda>t i. CcCall t (of_nat t) (g t i)) CcRun N_THREADS RUNS"

definition ccu_bench_init :: "(nat \<Rightarrow> i32) \<Rightarrow> (nat \<Rightarrow> i32) \<Rightarrow> (i32 ccsynch \<times> i32) bench" where
  "ccu_bench_init g i = bench_init (cc_lock_init g i ccu_init, ccu_init)"

definition hu_bench :: "(tid \<Rightarrow> nat \<Rightarrow> int) \<Rightarrow> nat \<Rightarrow> nat \<Rightarrow> bev \<Rightarrow> (i32 hsynch \<times> i32) bench \<Rightarrow> (i32 hsynch \<times> i32) bench option" where
  "hu_bench g N_THREADS RUNS =
     bench_step (locked_step (hs_on N_THREADS) hu_fetchAndMultiply) (\<lambda>t s. cc_idle (hs_pc (fst s) t))
       (\<lambda>t i. CcCall t (of_nat t) (g t i)) CcRun N_THREADS RUNS"

definition hu_bench_init :: "(nat \<Rightarrow> nat \<Rightarrow> i32) \<Rightarrow> (nat \<Rightarrow> nat \<Rightarrow> i32) \<Rightarrow> (i32 hsynch \<times> i32) bench" where
  "hu_bench_init g i = bench_init (HSynchStructInit g i hu_init, hu_init)"

definition dsmu_bench :: "nat \<Rightarrow> nat \<Rightarrow> bev \<Rightarrow> (i32 dsmsynch \<times> i32) bench \<Rightarrow> (i32 dsmsynch \<times> i32) bench option" where
  "dsmu_bench N_THREADS RUNS =
     bench_step (locked_step (ds_on N_THREADS) dsmu_fetchAndMultiply) (\<lambda>t s. ds_idle (ds_pc (fst s) t))
       (\<lambda>t i. DsCall t (of_nat t)) DsRun N_THREADS RUNS"

definition dsmu_bench_init :: "i32 dsmsynch \<Rightarrow> (i32 dsmsynch \<times> i32) bench" where
  "dsmu_bench_init m = bench_init (dsm_lock_init m dsmu_init, dsmu_init)"

lemma bench_step_cong:
  assumes "\<And>t i s. ostep (call t i) s = ostep' (call t i) s" and "\<And>t s. \<not> oidle t s \<Longrightarrow> ostep (run t) s = ostep' (run t) s"
  shows "bench_step ostep oidle call run N R = bench_step ostep' oidle call run N R"
  by (intro ext) (simp add: bench_step_def bench_Execute_def assms split: bev.split bpc.split)

section \<open>The calls of a combining lock\<close>

locale combining_calls = combining_lock lstep lgood caller lidle llog lhist
  for lstep :: "(i32 \<Rightarrow> i32 \<Rightarrow> 'o \<Rightarrow> i32 \<times> 'o) \<Rightarrow> 'e \<Rightarrow> 'l \<Rightarrow> 'o \<Rightarrow> ('l \<times> 'o \<times> lockentry list) option"
    and lgood :: "'l \<Rightarrow> bool" and caller :: "'e \<Rightarrow> tid" and lidle :: "'l \<Rightarrow> tid \<Rightarrow> bool"
    and llog :: "'l \<Rightarrow> lockentry list" and lhist :: "'l \<Rightarrow> tid \<Rightarrow> (i32 \<times> i32) list" +
  fixes call :: "tid \<Rightarrow> nat \<Rightarrow> 'e" and run :: "tid \<Rightarrow> 'e" and larg :: "'l \<Rightarrow> tid \<Rightarrow> i32"
    and argv :: "tid \<Rightarrow> i32"
  assumes callers: "caller (call t i) = t" "caller (run t) = t"
    and calls: "lstep f (call t i) l obj = Some (l', obj', es) \<Longrightarrow> \<not> lidle l' t \<and> lhist l' t = lhist l t \<and> larg l' t = argv t"
    and runs: "lstep f (run t) l obj = Some (l', obj', es) \<Longrightarrow> \<not> lidle l t \<Longrightarrow>
      larg l' t = larg l t \<and> (\<exists>r. lhist l' t = lhist l t @ (if lidle l' t then [(larg l t, r)] else []))"
    and args: "lstep f e l obj = Some (l', obj', es) \<Longrightarrow> u \<noteq> caller e \<Longrightarrow> larg l' u = larg l u"

definition lb_good ::
  "('l \<Rightarrow> bool) \<Rightarrow> ('l \<Rightarrow> tid \<Rightarrow> bool) \<Rightarrow> ('l \<Rightarrow> lockentry list) \<Rightarrow> ('l \<Rightarrow> tid \<Rightarrow> (i32 \<times> i32) list) \<Rightarrow> ('l \<Rightarrow> tid \<Rightarrow> i32) \<Rightarrow> (tid \<Rightarrow> i32) \<Rightarrow>
   (i32 \<Rightarrow> i32 \<Rightarrow> 'o \<Rightarrow> i32 \<times> 'o) \<Rightarrow> 'o \<Rightarrow> 'l \<times> 'o \<Rightarrow> bool" where
  "lb_good lgood lidle llog lhist larg argv f obj0 s \<longleftrightarrow>
     lgood (fst s) \<and> cc_legal f obj0 (llog (fst s)) (snd s) \<and>
     (\<forall>t. (\<not> lidle (fst s) t \<longrightarrow> larg (fst s) t = argv t) \<and> (\<forall>x \<in> set (lhist (fst s) t). fst x = argv t))"

lemma locked_stepD:
  assumes "locked_step lstep f e s = Some s'"
  obtains es where "lstep f e (fst s) (snd s) = Some (fst s', snd s', es)"
  using assms by (auto simp: locked_step_def)

context combining_calls
begin

lemma lb_step:
  assumes good: "lb_good lgood lidle llog lhist larg argv f obj0 s" and own: "e = call t i \<or> e = run t \<and> \<not> lidle (fst s) t"
    and step: "locked_step lstep f e s = Some s'"
  shows "lb_good lgood lidle llog lhist larg argv f obj0 s'"
proof -
  obtain es where st: "lstep f e (fst s) (snd s) = Some (fst s', snd s', es)" using locked_stepD [OF step] .
  have legal: "cc_legal f obj0 (llog (fst s')) (snd s')"
    using good logs [OF st] applies [OF st] cc_legal_snoc [of f obj0 "llog (fst s)" "snd s"] by (auto simp: lb_good_def)
  have c: "caller e = t" using own callers by auto
  have old: "\<not> lidle (fst s) u \<Longrightarrow> larg (fst s) u = argv u" "x \<in> set (lhist (fst s) u) \<Longrightarrow> fst x = argv u" for u x
    using good by (auto simp: lb_good_def)
  have "(\<not> lidle (fst s') u \<longrightarrow> larg (fst s') u = argv u) \<and> (\<forall>x \<in> set (lhist (fst s') u). fst x = argv u)" for u
  proof (cases "u = t")
    case False
    then show ?thesis using others [OF st] args [OF st] old c by simp
  next
    case True
    show ?thesis
    proof (cases "e = call t i")
      case True
      then have "lstep f (call t i) (fst s) (snd s) = Some (fst s', snd s', es)" using st by simp
      from calls [OF this] show ?thesis using \<open>u = t\<close> old by auto
    next
      case False
      then have ni: "\<not> lidle (fst s) t" and "lstep f (run t) (fst s) (snd s) = Some (fst s', snd s', es)" using own st by auto
      then obtain r where "larg (fst s') t = larg (fst s) t"
        "lhist (fst s') t = lhist (fst s) t @ (if lidle (fst s') t then [(larg (fst s) t, r)] else [])"
        using runs by blast
      then show ?thesis using \<open>u = t\<close> old ni by (auto split: if_splits)
    qed
  qed
  then show ?thesis using keeps [OF _ st] good legal by (simp add: lb_good_def)
qed

end

sublocale combining_calls \<subseteq> lb: counted_object
    "\<lambda>e s. if \<exists>t i. e = call t i \<or> e = run t \<and> \<not> lidle (fst s) t then locked_step lstep f e s else None"
    "lb_good lgood lidle llog lhist larg argv f obj0" "\<lambda>t s. lidle (fst s) t" call run "\<lambda>t s. length (lhist (fst s) t)" for f obj0
proof unfold_locales
  fix f obj0 s e s' t i u
  show "lb_good lgood lidle llog lhist larg argv f obj0 s'"
    if "lb_good lgood lidle llog lhist larg argv f obj0 s"
      "(if \<exists>t i. e = call t i \<or> e = run t \<and> \<not> lidle (fst s) t then locked_step lstep f e s else None) = Some s'"
    using that lb_step by (metis option.distinct(1))
  show "\<not> lidle (fst s') t \<and> length (lhist (fst s') t) = length (lhist (fst s) t)"
    if "(if \<exists>ta ia. call t i = call ta ia \<or> call t i = run ta \<and> \<not> lidle (fst s) ta then locked_step lstep f (call t i) s else None) = Some s'"
  proof -
    have "locked_step lstep f (call t i) s = Some s'" using that by (auto split: if_splits)
    from locked_stepD [OF this] obtain es where "lstep f (call t i) (fst s) (snd s) = Some (fst s', snd s', es)" .
    from calls [OF this] show ?thesis by simp
  qed
  show "length (lhist (fst s') t) = length (lhist (fst s) t) + (if lidle (fst s') t then 1 else 0)"
    if ni: "\<not> lidle (fst s) t"
      and "(if \<exists>ta i. run t = call ta i \<or> run t = run ta \<and> \<not> lidle (fst s) ta then locked_step lstep f (run t) s else None) = Some s'"
  proof -
    have "locked_step lstep f (run t) s = Some s'" using that(2) by (auto split: if_splits)
    from locked_stepD [OF this] obtain es where "lstep f (run t) (fst s) (snd s) = Some (fst s', snd s', es)" .
    from runs [OF this ni] show ?thesis by auto
  qed
  assume e: "e = call t i \<or> e = run t" and u: "u \<noteq> t"
    and "(if \<exists>t i. e = call t i \<or> e = run t \<and> \<not> lidle (fst s) t then locked_step lstep f e s else None) = Some s'"
  then have "locked_step lstep f e s = Some s'" by (auto split: if_splits)
  from locked_stepD [OF this] obtain es where st: "lstep f e (fst s) (snd s) = Some (fst s', snd s', es)" .
  have "u \<noteq> caller e" using e u callers by auto
  then show "lidle (fst s') u = lidle (fst s) u \<and> length (lhist (fst s') u) = length (lhist (fst s) u)"
    using others [OF st] by simp
qed

context combining_calls
begin

lemma lb_total:
  assumes "lgood l" and "llog l = []" and "\<And>t. lidle l t \<and> lhist l t = []"
    and run: "mrun (bench_step (locked_step lstep f) (\<lambda>t s. lidle (fst s) t) call run N RUNS) es (bench_init (l, obj0)) = Some s"
    and "b_main s = BmReturned"
  shows "cc_legal f obj0 (llog (fst (b_obj s))) (snd (b_obj s)) \<and>
    (\<forall>t. length (cc_entries t (llog (fst (b_obj s)))) = (if t < N then RUNS else 0) \<and>
      (\<forall>x \<in> set (cc_entries t (llog (fst (b_obj s)))). fst x = argv t) \<and>
      cc_entries t (llog (fst (b_obj s))) = lhist (fst (b_obj s)) t)"
proof -
  let ?g = "\<lambda>e s. if \<exists>t i. e = call t i \<or> e = run t \<and> \<not> lidle (fst s) t then locked_step lstep f e s else None"
  have ex: "bench_step (locked_step lstep f) (\<lambda>t s. lidle (fst s) t) call run N RUNS = bench_step ?g (\<lambda>t s. lidle (fst s) t) call run N RUNS"
    by (rule bench_step_cong) auto
  have good: "lb_good lgood lidle llog lhist larg argv f obj0 (l, obj0)" using assms(1-3) by (simp add: lb_good_def)
  have "lidle (fst (l, obj0)) t \<and> length (lhist (fst (l, obj0)) t) = 0" for t using assms(3) by simp
  from lb.bench_total [OF good this run [unfolded ex] assms(5)]
  have fin: "lb_good lgood lidle llog lhist larg argv f obj0 (b_obj s)" "lidle (fst (b_obj s)) t"
    "length (lhist (fst (b_obj s)) t) = (if t < N then RUNS else 0)" for t by blast+
  have "cc_entries t (llog (fst (b_obj s))) = lhist (fst (b_obj s)) t" for t
    using accounts [of "fst (b_obj s)" t] fin(1) fin(2) [of t] by (auto simp: lb_good_def)
  then show ?thesis using fin(1,3) by (simp add: lb_good_def)
qed

end

section \<open>The three locks\<close>

lemma cc_step_args:
  assumes "cc_step f n e s = Some s'"
  shows "e = CcCall t a k \<Longrightarrow> \<not> cc_idle (cc_pc s' t) \<and> cc_hist s' t = cc_hist s t \<and> cc_arg s' t = a"
    and "e = CcRun t \<Longrightarrow> \<not> cc_idle (cc_pc s t) \<Longrightarrow>
      cc_arg s' t = cc_arg s t \<and> (\<exists>r. cc_hist s' t = cc_hist s t @ (if cc_idle (cc_pc s' t) then [(cc_arg s t, r)] else []))"
    and "u \<noteq> cc_caller e \<Longrightarrow> cc_arg s' u = cc_arg s u"
proof -
  show "e = CcCall t a k \<Longrightarrow> \<not> cc_idle (cc_pc s' t) \<and> cc_hist s' t = cc_hist s t \<and> cc_arg s' t = a"
    using assms by (auto simp: cc_prepare_def Let_def split: if_splits)
  show "e = CcRun t \<Longrightarrow> \<not> cc_idle (cc_pc s t) \<Longrightarrow>
      cc_arg s' t = cc_arg s t \<and> (\<exists>r. cc_hist s' t = cc_hist s t @ (if cc_idle (cc_pc s' t) then [(cc_arg s t, r)] else []))"
    using assms by (cases "cc_pc s t") (auto split: prod.splits option.splits if_splits)
  show "u \<noteq> cc_caller e \<Longrightarrow> cc_arg s' u = cc_arg s u"
  proof (cases e)
    case (CcRun v)
    then show "u \<noteq> cc_caller e \<Longrightarrow> cc_arg s' u = cc_arg s u"
      using assms by (cases "cc_pc s v") (auto split: prod.splits option.splits if_splits)
  qed (use assms in \<open>auto simp: cc_prepare_def Let_def split: if_splits\<close>)
qed

interpretation cc_calls: combining_calls "\<lambda>f e l obj. if cc_fresh n e then cc_on n f e l obj else None" "cc_core (CCSIM_HELP_BOUND n)"
    cc_caller "\<lambda>l t. cc_idle (cc_pc l t)" cc_log cc_hist "\<lambda>t i. CcCall t (argv t) (g t i)" CcRun cc_arg argv for n g argv
proof unfold_locales
  fix n f l obj l' obj' es t u i g argv
  note D = cc_step_args [of f n _ "l\<lparr>cc_object := obj\<rparr>" l']
  show "\<not> cc_idle (cc_pc l' t) \<and> cc_hist l' t = cc_hist l t \<and> cc_arg l' t = argv t"
    if "(if cc_fresh n (CcCall t (argv t) (g t i)) then cc_on n f (CcCall t (argv t) (g t i)) l obj else None) = Some (l', obj', es)"
    using that D(1) [of "CcCall t (argv t) (g t i)" t] by (auto simp: cc_on_def simp del: cc_step.simps split: if_splits)
  show "cc_arg l' t = cc_arg l t \<and> (\<exists>r. cc_hist l' t = cc_hist l t @ (if cc_idle (cc_pc l' t) then [(cc_arg l t, r)] else []))"
    if "(if cc_fresh n (CcRun t) then cc_on n f (CcRun t) l obj else None) = Some (l', obj', es)" "\<not> cc_idle (cc_pc l t)"
    using that D(2) [of "CcRun t" t] by (auto simp: cc_on_def simp del: cc_step.simps split: if_splits)
  show "cc_arg l' u = cc_arg l u"
    if "(if cc_fresh n e then cc_on n f e l obj else None) = Some (l', obj', es)" "u \<noteq> cc_caller e" for e
    using that D(3) [of e u] by (auto simp: cc_on_def simp del: cc_step.simps split: if_splits)
qed simp_all

abbreviation hs_arg :: "'o hsynch \<Rightarrow> tid \<Rightarrow> i32" where
  "hs_arg s t \<equiv> cc_arg (hs_cluster s (cluster_of t)) t"

lemma hs_step_args:
  assumes "hs_step f n e s = Some s'"
  shows "e = CcCall t a k \<Longrightarrow> \<not> cc_idle (hs_pc s' t) \<and> hs_hist s' t = hs_hist s t \<and> hs_arg s' t = a"
    and "e = CcRun t \<Longrightarrow> \<not> cc_idle (hs_pc s t) \<Longrightarrow>
      hs_arg s' t = hs_arg s t \<and> (\<exists>r. hs_hist s' t = hs_hist s t @ (if cc_idle (hs_pc s' t) then [(hs_arg s t, r)] else []))"
    and "u \<noteq> cc_caller e \<Longrightarrow> hs_arg s' u = hs_arg s u"
proof -
  have run: "(\<not> cc_idle (hs_pc s v) \<longrightarrow> hs_arg s' v = hs_arg s v \<and>
      (\<exists>r. hs_hist s' v = hs_hist s v @ (if cc_idle (hs_pc s' v) then [(hs_arg s v, r)] else []))) \<and> (u \<noteq> v \<longrightarrow> hs_arg s' u = hs_arg s u)"
    if "e = CcRun v" for v
  proof -
    have "hs_queue f n v s = Some s' \<or> (\<exists>p l. s' = hsgo v p l s)"
      using assms that by (auto simp: hs_applyOp_def Let_def simp del: clh_step.simps split: hphase.splits if_splits)
    then show ?thesis
    proof (elim disjE exE)
      assume "hs_queue f n v s = Some s'"
      then obtain c where c: "cc_step f n (CcRun v) ((hs_cluster s (cluster_of v))\<lparr>cc_object := hs_object s\<rparr>) = Some c"
        "s' = hs_put (cluster_of v) s c"
        by (auto simp: hs_queue_def)
      show ?thesis using cc_step_args(2) [OF c(1) refl] cc_step_args(3) [OF c(1), of u] by (auto simp: c(2) hs_put_def)
    qed (auto simp: hsgo_def)
  qed
  show "e = CcCall t a k \<Longrightarrow> \<not> cc_idle (hs_pc s' t) \<and> hs_hist s' t = hs_hist s t \<and> hs_arg s' t = a"
    using assms cc_step_args(1) [of f n e "hs_cluster s (cluster_of t)" _ t a k] by (auto simp: Let_def simp del: cc_step.simps)
  show "e = CcRun t \<Longrightarrow> \<not> cc_idle (hs_pc s t) \<Longrightarrow>
      hs_arg s' t = hs_arg s t \<and> (\<exists>r. hs_hist s' t = hs_hist s t @ (if cc_idle (hs_pc s' t) then [(hs_arg s t, r)] else []))"
    using run [of t] by blast
  show "u \<noteq> cc_caller e \<Longrightarrow> hs_arg s' u = hs_arg s u"
  proof (cases e)
    case (CcCall v b j)
    then obtain c where c: "cc_step f n e (hs_cluster s (cluster_of v)) = Some c"
      "s' = s\<lparr>hs_cluster := (hs_cluster s)(cluster_of v := c)\<rparr>"
      using assms by (auto simp: Let_def simp del: cc_step.simps)
    show "u \<noteq> cc_caller e \<Longrightarrow> hs_arg s' u = hs_arg s u" using cc_step_args(3) [OF c(1), of u] by (auto simp: c(2) CcCall)
  qed (use run in auto)
qed

interpretation hs_calls: combining_calls "\<lambda>f e l obj. if cc_fresh n e then hs_on n f e l obj else None" "hs_core (CCSIM_HELP_BOUND n)"
    cc_caller "\<lambda>l t. cc_idle (hs_pc l t)" hs_log hs_hist "\<lambda>t i. CcCall t (argv t) (g t i)" CcRun hs_arg argv for n g argv
proof unfold_locales
  fix n f l obj l' obj' es t u i g argv
  note D = hs_step_args [of f n _ "l\<lparr>hs_object := obj\<rparr>" l']
  show "\<not> cc_idle (hs_pc l' t) \<and> hs_hist l' t = hs_hist l t \<and> hs_arg l' t = argv t"
    if "(if cc_fresh n (CcCall t (argv t) (g t i)) then hs_on n f (CcCall t (argv t) (g t i)) l obj else None) = Some (l', obj', es)"
    using that D(1) [of "CcCall t (argv t) (g t i)" t] by (auto simp: hs_on_def simp del: hs_step.simps split: if_splits)
  show "hs_arg l' t = hs_arg l t \<and> (\<exists>r. hs_hist l' t = hs_hist l t @ (if cc_idle (hs_pc l' t) then [(hs_arg l t, r)] else []))"
    if "(if cc_fresh n (CcRun t) then hs_on n f (CcRun t) l obj else None) = Some (l', obj', es)" "\<not> cc_idle (hs_pc l t)"
    using that D(2) [of "CcRun t" t] by (auto simp: hs_on_def simp del: hs_step.simps split: if_splits)
  show "hs_arg l' u = hs_arg l u"
    if "(if cc_fresh n e then hs_on n f e l obj else None) = Some (l', obj', es)" "u \<noteq> cc_caller e" for e
    using that D(3) [of e u] by (auto simp: hs_on_def simp del: hs_step.simps split: if_splits)
qed simp_all

lemma dsm_step_args:
  assumes "dsm_step f n e s = Some s'"
  shows "e = DsCall t a \<Longrightarrow> \<not> ds_idle (ds_pc s' t) \<and> ds_hist s' t = ds_hist s t \<and> ds_arg s' t = a"
    and "e = DsRun t \<Longrightarrow> \<not> ds_idle (ds_pc s t) \<Longrightarrow>
      ds_arg s' t = ds_arg s t \<and> (\<exists>r. ds_hist s' t = ds_hist s t @ (if ds_idle (ds_pc s' t) then [(ds_arg s t, r)] else []))"
    and "u \<noteq> ds_caller e \<Longrightarrow> ds_arg s' u = ds_arg s u"
proof -
  show "e = DsCall t a \<Longrightarrow> \<not> ds_idle (ds_pc s' t) \<and> ds_hist s' t = ds_hist s t \<and> ds_arg s' t = a"
    using assms by (auto split: if_splits)
  show "e = DsRun t \<Longrightarrow> \<not> ds_idle (ds_pc s t) \<Longrightarrow>
      ds_arg s' t = ds_arg s t \<and> (\<exists>r. ds_hist s' t = ds_hist s t @ (if ds_idle (ds_pc s' t) then [(ds_arg s t, r)] else []))"
    using assms by (cases "ds_pc s t") (auto split: prod.splits option.splits if_splits)
  show "u \<noteq> ds_caller e \<Longrightarrow> ds_arg s' u = ds_arg s u"
  proof (cases e)
    case (DsRun v)
    then show "u \<noteq> ds_caller e \<Longrightarrow> ds_arg s' u = ds_arg s u"
      using assms by (cases "ds_pc s v") (auto split: prod.splits option.splits if_splits)
  qed (use assms in \<open>auto split: if_splits\<close>)
qed

interpretation ds_calls: combining_calls "ds_on n" ds_core ds_caller "\<lambda>l t. ds_idle (ds_pc l t)" ds_log ds_hist
    "\<lambda>t i. DsCall t (argv t)" DsRun ds_arg argv for n argv
proof unfold_locales
  fix n f l obj l' obj' es t u i argv
  note D = dsm_step_args [of f n _ "l\<lparr>ds_object := obj\<rparr>" l']
  show "\<not> ds_idle (ds_pc l' t) \<and> ds_hist l' t = ds_hist l t \<and> ds_arg l' t = argv t"
    if "ds_on n f (DsCall t (argv t)) l obj = Some (l', obj', es)"
    using that D(1) [of "DsCall t (argv t)" t] by (auto simp: ds_on_def simp del: dsm_step.simps)
  show "ds_arg l' t = ds_arg l t \<and> (\<exists>r. ds_hist l' t = ds_hist l t @ (if ds_idle (ds_pc l' t) then [(ds_arg l t, r)] else []))"
    if "ds_on n f (DsRun t) l obj = Some (l', obj', es)" "\<not> ds_idle (ds_pc l t)"
    using that D(2) [of "DsRun t" t] by (auto simp: ds_on_def simp del: dsm_step.simps)
  show "ds_arg l' u = ds_arg l u" if "ds_on n f e l obj = Some (l', obj', es)" "u \<noteq> ds_caller e" for e
    using that D(3) [of e u] by (auto simp: ds_on_def simp del: dsm_step.simps)
qed simp_all

section \<open>What the programs compute\<close>

lemma logged_product:
  assumes "\<And>t. length (cc_entries t l) = (if t < N then R else 0) \<and> (\<forall>x \<in> set (cc_entries t l). fst x = of_nat t)"
  shows "prod_list (map log_arg l) = (\<Prod>t<N. of_nat t ^ R)"
proof -
  have "prod_list (map log_arg l) = prod_list (map (\<lambda>t. of_nat t) (map fst l))"
  proof (rule arg_cong [of _ _ prod_list])
    have "log_arg e = of_nat (fst e)" if "e \<in> set l" for e
    proof -
      obtain t a i r where e: "e = (t, a, i, r)" by (cases e)
      then have "(a, r) \<in> set (cc_entries t l)" using that by (force simp: cc_entries_def)
      then show ?thesis using assms [of t] e by auto
    qed
    then show "map log_arg l = map (\<lambda>t. of_nat t) (map fst l)" by simp
  qed
  also have "\<dots> = (\<Prod>t<N. of_nat t ^ R)"
  proof -
    have c: "count_list (map fst l) t = (if t < N then R else 0)" for t using assms [of t] by (simp flip: entries_length)
    have pr: "prod_list (map g xs) = (\<Prod>t<N. g t ^ count_list xs t)" if "set xs \<subseteq> {..<N}" for g :: "nat \<Rightarrow> i32" and xs
      using that
    proof (induction xs)
      case (Cons x xs)
      have "(\<Prod>t<N. g t ^ count_list (x # xs) t) = (\<Prod>t<N. (if t = x then g x else 1) * g t ^ count_list xs t)"
        by (rule prod.cong) auto
      also have "\<dots> = g x * (\<Prod>t<N. g t ^ count_list xs t)" using Cons.prems by (simp add: prod.distrib)
      finally show ?case using Cons by simp
    qed simp
    have "set (map fst l) \<subseteq> {..<N}"
    proof
      fix t
      assume "t \<in> set (map fst l)"
      then have "count_list (map fst l) t \<noteq> 0" by (simp add: count_list_0_iff)
      then show "t \<in> {..<N}" using c [of t] by (cases "t < N") auto
    qed
    moreover have "(\<Prod>t<N. of_nat t ^ count_list (map fst l) t :: i32) = (\<Prod>t<N. of_nat t ^ R)" by (rule prod.cong) (simp_all add: c)
    ultimately show ?thesis using pr [of "map fst l" of_nat] by simp
  qed
  finally show ?thesis .
qed

text \<open>
  The operations of all threads, in the order \<open>l\<close> in which they were applied: thread \<open>t\<close> has \<open>R\<close> of them,
  all with the argument \<open>t\<close>, when it is one of the \<open>N\<close> threads, and none otherwise; what its calls returned, in
  their order, is in \<open>hist t\<close>; each returned the product of all arguments up to its own, and \<open>obj\<close> is the
  product of all.
\<close>

definition each_once :: "nat \<Rightarrow> nat \<Rightarrow> lockentry list \<Rightarrow> (tid \<Rightarrow> (i32 \<times> i32) list) \<Rightarrow> i32 \<Rightarrow> bool" where
  "each_once N R l hist obj \<longleftrightarrow>
     (\<forall>t. cc_entries t l = hist t \<and> map fst (hist t) = (if t < N then replicate R (of_nat t) else [])) \<and>
     (\<forall>j < length l. log_ret (l ! j) = prod_list (map log_arg (take (Suc j) l))) \<and> obj = prod_list (map log_arg l)"

lemma bench_once:
  assumes "cc_legal ccu_fetchAndMultiply ccu_init l obj \<and>
    (\<forall>t. length (cc_entries t l) = (if t < N then R else 0) \<and> (\<forall>x \<in> set (cc_entries t l). fst x = of_nat t) \<and> cc_entries t l = hist t)"
  shows "each_once N R l hist obj \<and> obj = (\<Prod>t<N. of_nat t ^ R)"
proof -
  have E: "cc_entries t l = hist t" "length (hist t) = (if t < N then R else 0)" "\<forall>x \<in> set (hist t). fst x = of_nat t" for t
    using conjunct2 [OF assms, rule_format, of t] by (auto split: if_splits)
  have h: "map fst (hist t) = (if t < N then replicate R (of_nat t) else [])" for t
    using E(2,3) [of t] by (auto simp: map_replicate_const list_eq_iff_nth_eq)
  have P: "obj = prod_list (map log_arg l)" "\<forall>j < length l. log_ret (l ! j) = prod_list (map log_arg (take (Suc j) l))"
    using legal_product [OF conjunct1 [OF assms]] by (simp_all add: ccu_init_def)
  have "prod_list (map log_arg l) = (\<Prod>t<N. of_nat t ^ R)"
    by (rule logged_product) (simp only: E(1,2), simp add: E(3))
  then show ?thesis unfolding each_once_def using E(1) h P by blast
qed

lemma guarded_bench:
  assumes "\<And>t i. fresh (call t i)" and "\<And>t. fresh (run t)"
  shows "bench_step (locked_step lstep f) oidle call run N R =
    bench_step (locked_step (\<lambda>f e l obj. if fresh e then lstep f e l obj else None) f) oidle call run N R"
  by (rule bench_step_cong) (simp_all add: locked_step_def assms)

text \<open>Two threads with one operation each.\<close>

definition demo_word_memory :: "i32 dsmsynch" where
  "demo_word_memory = \<lparr>ds_tail = Some 7, ds_next = (\<lambda>x. Some x), ds_node_arg = (\<lambda>x. 9), ds_ret = (\<lambda>x. 9), ds_locked = (\<lambda>x. False),
     ds_completed = (\<lambda>x. True), ds_pid = (\<lambda>x. 9), ds_toggle = (\<lambda>t. True), ds_pc = (\<lambda>t. DsIdle), ds_arg = (\<lambda>t. 0), ds_object = 0,
     ds_log = [], ds_hist = (\<lambda>t. [])\<rparr>"

lemma demo_combining_benches:
  "map_option (\<lambda>s. (b_main s, cc_hist (fst (b_obj s)) 1)) (mrun (ccu_bench (\<lambda>t i. 0) 2 1) (demo_bench 17) (ccu_bench_init (\<lambda>x. 0) (\<lambda>x. 0))) =
     Some (BmReturned, [(1, 0)])"
  "map_option (\<lambda>s. (b_main s, hs_hist (fst (b_obj s)) 1)) (mrun (hu_bench (\<lambda>t i. 0) 2 1) (demo_bench 26) (hu_bench_init (\<lambda>k x. 0) (\<lambda>k x. 0))) =
     Some (BmReturned, [(1, 0)])"
  "map_option (\<lambda>s. (b_main s, ds_hist (fst (b_obj s)) 1)) (mrun (dsmu_bench 2 1) (demo_bench 13) (dsmu_bench_init demo_word_memory)) =
     Some (BmReturned, [(1, 0)])"
  by code_simp+

text \<open>
  (C37) The programs \<open>ccuobject.c\<close>, \<open>huobject.c\<close> and \<open>dsmuobject.c\<close>: when \<open>main\<close> returns, under every interleaving of the
  threads, every operation of every thread has been applied exactly once: thread \<open>t\<close> has \<open>RUNS\<close> operations in the order of
  application, all with the argument \<open>t\<close>, its calls returned what these operations gave, which is the product of all
  arguments applied so far, and the object is the product of all of them, which is that of \<open>t ^ RUNS\<close> over all threads. The
  two locks that use a loop counter need it to start below its bound.
\<close>

theorem combining_benches_product:
  "(mrun (ccu_bench g N RUNS) es1 (ccu_bench_init g1 i1) = Some s1 \<and> b_main s1 = BmReturned \<and> (\<forall>t i. g t i < CCSIM_HELP_BOUND N) \<longrightarrow>
      each_once N RUNS (cc_log (fst (b_obj s1))) (cc_hist (fst (b_obj s1))) (snd (b_obj s1)) \<and>
      snd (b_obj s1) = (\<Prod>t<N. of_nat t ^ RUNS)) \<and>
   (mrun (hu_bench g N RUNS) es2 (hu_bench_init g2 i2) = Some s2 \<and> b_main s2 = BmReturned \<and> (\<forall>t i. g t i < CCSIM_HELP_BOUND N) \<longrightarrow>
      each_once N RUNS (hs_log (fst (b_obj s2))) (hs_hist (fst (b_obj s2))) (snd (b_obj s2)) \<and>
      snd (b_obj s2) = (\<Prod>t<N. of_nat t ^ RUNS)) \<and>
   (mrun (dsmu_bench N RUNS) es3 (dsmu_bench_init m) = Some s3 \<and> b_main s3 = BmReturned \<longrightarrow>
      each_once N RUNS (ds_log (fst (b_obj s3))) (ds_hist (fst (b_obj s3))) (snd (b_obj s3)) \<and>
      snd (b_obj s3) = (\<Prod>t<N. of_nat t ^ RUNS))"
proof (rule conjI [OF impI conjI [OF impI impI]]; elim conjE)
  assume run: "mrun (ccu_bench g N RUNS) es1 (ccu_bench_init g1 i1) = Some s1" "b_main s1 = BmReturned"
    and g: "\<forall>t i. g t i < CCSIM_HELP_BOUND N"
  have "cc_core (CCSIM_HELP_BOUND N) (cc_lock_init g1 i1 ccu_init)"
    using cc_init_inv [of ccu_fetchAndMultiply "CCSIM_HELP_BOUND N" ccu_init g1 i1] by (simp add: cc_inv_def)
  moreover have "ccu_bench g N RUNS = bench_step (locked_step (\<lambda>f e l obj. if cc_fresh N e then cc_on N f e l obj else None)
      ccu_fetchAndMultiply) (\<lambda>t s. cc_idle (cc_pc (fst s) t)) (\<lambda>t i. CcCall t (of_nat t) (g t i)) CcRun N RUNS"
    unfolding ccu_bench_def by (rule guarded_bench) (use g in simp_all)
  note run(1) [unfolded this ccu_bench_init_def]
  ultimately show "each_once N RUNS (cc_log (fst (b_obj s1))) (cc_hist (fst (b_obj s1))) (snd (b_obj s1)) \<and>
      snd (b_obj s1) = (\<Prod>t<N. of_nat t ^ RUNS)"
    by (intro bench_once [OF cc_calls.lb_total [OF _ _ _ _ run(2)]]) (auto simp: cc_lock_init_def)
next
  assume run: "mrun (hu_bench g N RUNS) es2 (hu_bench_init g2 i2) = Some s2" "b_main s2 = BmReturned"
    and g: "\<forall>t i. g t i < CCSIM_HELP_BOUND N"
  have "hu_bench g N RUNS = bench_step (locked_step (\<lambda>f e l obj. if cc_fresh N e then hs_on N f e l obj else None)
      ccu_fetchAndMultiply) (\<lambda>t s. cc_idle (hs_pc (fst s) t)) (\<lambda>t i. CcCall t (of_nat t) (g t i)) CcRun N RUNS"
    unfolding hu_bench_def one_word_objects_same by (rule guarded_bench) (use g in simp_all)
  note run(1) [unfolded this hu_bench_init_def one_word_objects_same]
  then show "each_once N RUNS (hs_log (fst (b_obj s2))) (hs_hist (fst (b_obj s2))) (snd (b_obj s2)) \<and>
      snd (b_obj s2) = (\<Prod>t<N. of_nat t ^ RUNS)"
    using hs_init_core by (intro bench_once [OF hs_calls.lb_total [OF _ _ _ _ run(2)]]) (auto simp: HSynchStructInit_def cc_lock_init_def)
next
  assume run: "mrun (dsmu_bench N RUNS) es3 (dsmu_bench_init m) = Some s3" "b_main s3 = BmReturned"
  note run(1) [unfolded dsmu_bench_def dsmu_bench_init_def one_word_objects_same]
  then show "each_once N RUNS (ds_log (fst (b_obj s3))) (ds_hist (fst (b_obj s3))) (snd (b_obj s3)) \<and>
      snd (b_obj s3) = (\<Prod>t<N. of_nat t ^ RUNS)"
    using dsm_init_core by (intro bench_once [OF ds_calls.lb_total [OF _ _ _ _ run(2)]]) (auto simp: dsm_lock_init_def)
qed

theorem combining_benches_product_witness:
  "\<exists>s1 s2 s3. mrun (ccu_bench (\<lambda>t i. 0) 2 1) (demo_bench 17) (ccu_bench_init (\<lambda>x. 0) (\<lambda>x. 0)) = Some s1 \<and>
     each_once 2 1 (cc_log (fst (b_obj s1))) (cc_hist (fst (b_obj s1))) 0 \<and>
     mrun (hu_bench (\<lambda>t i. 0) 2 1) (demo_bench 26) (hu_bench_init (\<lambda>k x. 0) (\<lambda>k x. 0)) = Some s2 \<and>
     each_once 2 1 (hs_log (fst (b_obj s2))) (hs_hist (fst (b_obj s2))) 0 \<and>
     mrun (dsmu_bench 2 1) (demo_bench 13) (dsmu_bench_init demo_word_memory) = Some s3 \<and>
     each_once 2 1 (ds_log (fst (b_obj s3))) (ds_hist (fst (b_obj s3))) 0"
proof -
  obtain s1 s2 s3 where s: "mrun (ccu_bench (\<lambda>t i. 0) 2 1) (demo_bench 17) (ccu_bench_init (\<lambda>x. 0) (\<lambda>x. 0)) = Some s1" "b_main s1 = BmReturned"
    "mrun (hu_bench (\<lambda>t i. 0) 2 1) (demo_bench 26) (hu_bench_init (\<lambda>k x. 0) (\<lambda>k x. 0)) = Some s2" "b_main s2 = BmReturned"
    "mrun (dsmu_bench 2 1) (demo_bench 13) (dsmu_bench_init demo_word_memory) = Some s3" "b_main s3 = BmReturned"
    using demo_combining_benches by auto
  have "(\<Prod>t<2. of_nat t ^ 1 :: i32) = 0" by (simp add: numeral_2_eq_2)
  moreover have "\<forall>t i. (0 :: int) < CCSIM_HELP_BOUND 2" by (simp add: CCSIM_HELP_BOUND_def)
  ultimately have "each_once 2 1 (cc_log (fst (b_obj s1))) (cc_hist (fst (b_obj s1))) 0"
    "each_once 2 1 (hs_log (fst (b_obj s2))) (hs_hist (fst (b_obj s2))) 0" "each_once 2 1 (ds_log (fst (b_obj s3))) (ds_hist (fst (b_obj s3))) 0"
    using combining_benches_product [of "\<lambda>t i. 0" 2 1 "demo_bench 17" "\<lambda>x. 0" "\<lambda>x. 0" s1 "demo_bench 26" "\<lambda>k x. 0" "\<lambda>k x. 0" s2
        "demo_bench 13" demo_word_memory s3] s by metis+
  then show ?thesis using s by blast
qed

end
