(* ===== verification/MonitorServers.thy ===== *)
theory MonitorServers
  imports ServerMain Futex
begin

text \<open>
  The whole programs \<open>http-server.c\<close> and \<open>http-server-futex.c\<close>: the main thread and the workers, with every
  program point of \<open>queue_put\<close> and \<open>queue_get\<close> a step of its own. They refine the program of \<open>ServerMain\<close>, whose
  queue is a list and whose workers wait without sleeping, so that what that program guarantees at a shutdown holds for
  them; only \<open>http-server.c\<close> is sure to finish it.
\<close>

section \<open>The programs\<close>

text \<open>Thread 0 is the main thread, worker \<open>i\<close> is thread \<open>Suc i\<close>; \<open>GCalling\<close> is a worker inside \<open>queue_get\<close>.\<close>

datatype gwork = GStart | GCalling | GConn int | GGone

text \<open>\<open>g_call\<close>: the main thread is inside \<open>queue_put\<close>.\<close>

record 'm mserver =
  g_mon :: 'm
  g_main :: main_pc
  g_call :: bool
  g_work :: "nat \<Rightarrow> gwork"
  g_n :: nat
  g_log :: "ev list"
  g_served :: "int list"
  g_exited :: bool

text \<open>The main thread after its \<open>queue_put\<close>.\<close>

fun advance :: "main_pc \<Rightarrow> main_pc" where
  "advance (MAccept (a # as)) = MAccept as"
| "advance (MPoison i) = MPoison (Suc i)"
| "advance m = m"

text \<open>\<open>queue_put\<close> is called; it ends the process when there is no memory.\<close>

definition g_put :: "('e \<Rightarrow> 'a mon_scheme \<Rightarrow> 'a mon_scheme option) \<Rightarrow> 'e \<Rightarrow> 'a mon_scheme mserver \<Rightarrow> 'a mon_scheme mserver option" where
  "g_put qstep e s =
     (case qstep e (g_mon s) of
        None \<Rightarrow> None
      | Some m \<Rightarrow> Some (if m_status m = Running then s\<lparr>g_mon := m, g_call := True\<rparr> else s\<lparr>g_mon := m, g_exited := True\<rparr>))"

text \<open>One round of \<open>mainLoop\<close>, up to its call of \<open>queue_put\<close>.\<close>

definition g_mainLoop ::
  "('e \<Rightarrow> 'a mon_scheme \<Rightarrow> 'a mon_scheme option) \<Rightarrow> (int \<Rightarrow> bool \<Rightarrow> 'e) \<Rightarrow> bool \<Rightarrow> accepted \<Rightarrow> 'a mon_scheme mserver \<Rightarrow>
   'a mon_scheme mserver option" where
  "g_mainLoop qstep cput mem a s =
     (if ac_eintr a \<and> ac_flag a then Some (s\<lparr>g_main := MPoison 0\<rparr>)
      else if ac_sock a < 0 then Some (s\<lparr>g_exited := True\<rparr>)
      else g_put qstep (cput (ac_sock a) mem) s)"

text \<open>The main thread: \<open>mainLoop\<close>, and the end of \<open>main\<close> after it.\<close>

definition g_main_step ::
  "('e \<Rightarrow> 'a mon_scheme \<Rightarrow> 'a mon_scheme option) \<Rightarrow> (int \<Rightarrow> bool \<Rightarrow> 'e) \<Rightarrow> bool \<Rightarrow> 'a mon_scheme mserver \<Rightarrow> 'a mon_scheme mserver option" where
  "g_main_step qstep cput mem s =
     (if g_call s then
        (if m_pc (g_mon s) 0 = Idle then Some (s\<lparr>g_call := False, g_main := advance (g_main s)\<rparr>) else None)
      else case g_main s of
        MAccept [] \<Rightarrow> None
      | MAccept (a # as) \<Rightarrow> g_mainLoop qstep cput mem a s
      | MPoison i \<Rightarrow> if i < g_n s then g_put qstep (cput QUEUE_POISON mem) s else Some (s\<lparr>g_main := MJoin 0\<rparr>)
      | MJoin i \<Rightarrow>
          if i < g_n s then (if g_work s i = GGone then Some (s\<lparr>g_main := MJoin (Suc i)\<rparr>) else None)
          else Some (s\<lparr>g_main := MDestroy\<rparr>)
      | MDestroy \<Rightarrow>
          (case queue_destroy (Suc (q_brk (m_queue (g_mon s)))) (m_queue (g_mon s)) of
             None \<Rightarrow> None
           | Some q \<Rightarrow> Some (s\<lparr>g_mon := (g_mon s)\<lparr>m_queue := q\<rparr>, g_main := MReturned\<rparr>))
      | MReturned \<Rightarrow> None)"

text \<open>\<open>threadMain\<close>: a call of \<open>queue_get\<close>, and the connection it returned.\<close>

definition g_threadMain ::
  "('e \<Rightarrow> 'a mon_scheme \<Rightarrow> 'a mon_scheme option) \<Rightarrow> (tid \<Rightarrow> 'e) \<Rightarrow> http_env \<Rightarrow> string \<Rightarrow> nat \<Rightarrow> 'a mon_scheme mserver \<Rightarrow> 'a mon_scheme mserver option" where
  "g_threadMain qstep cget env root i s =
     (if g_n s \<le> i then None
      else case g_work s i of
        GStart \<Rightarrow>
          (case qstep (cget (Suc i)) (g_mon s) of
             None \<Rightarrow> None
           | Some m \<Rightarrow> Some (s\<lparr>g_mon := m, g_work := (g_work s)(i := GCalling)\<rparr>))
      | GConn sock \<Rightarrow>
          (let (w, r) = handleConnection env root sock (g_log s) in
           Some (case r of
             Ok _ \<Rightarrow> s\<lparr>g_log := w, g_served := g_served s @ [sock], g_work := (g_work s)(i := GStart)\<rparr>
           | PthreadExit \<Rightarrow> s\<lparr>g_log := w, g_work := (g_work s)(i := GGone)\<rparr>
           | Exit c \<Rightarrow> s\<lparr>g_log := w, g_exited := True\<rparr>))
      | _ \<Rightarrow> None)"

text \<open>A step inside the queue; a worker whose \<open>queue_get\<close> returns has its socket.\<close>

definition g_return :: "'a mon_scheme \<Rightarrow> 'a mon_scheme \<Rightarrow> nat \<Rightarrow> (nat \<Rightarrow> gwork) \<Rightarrow> nat \<Rightarrow> gwork" where
  "g_return m m' n w =
     fold (\<lambda>i w. case m_pc m (Suc i) of
         GetUnlock sock \<Rightarrow> if w i = GCalling \<and> m_pc m' (Suc i) = Idle then w(i := GConn sock) else w
       | _ \<Rightarrow> w) [0..<n] w"

definition g_queue :: "('e \<Rightarrow> 'a mon_scheme \<Rightarrow> 'a mon_scheme option) \<Rightarrow> 'e \<Rightarrow> 'a mon_scheme mserver \<Rightarrow> 'a mon_scheme mserver option" where
  "g_queue qstep e s =
     (case qstep e (g_mon s) of None \<Rightarrow> None | Some m \<Rightarrow> Some (s\<lparr>g_mon := m, g_work := g_return (g_mon s) m (g_n s) (g_work s)\<rparr>))"

text \<open>\<open>GMain\<close> says whether there is memory for the message, should it call \<open>queue_put\<close>.\<close>

datatype 'e gev = GMain bool | GWorker nat | GQueue 'e

definition g_step ::
  "('e \<Rightarrow> 'a mon_scheme \<Rightarrow> 'a mon_scheme option) \<Rightarrow> (int \<Rightarrow> bool \<Rightarrow> 'e) \<Rightarrow> (tid \<Rightarrow> 'e) \<Rightarrow> ('e \<Rightarrow> bool) \<Rightarrow> http_env \<Rightarrow> string \<Rightarrow>
   'e gev \<Rightarrow> 'a mon_scheme mserver \<Rightarrow> 'a mon_scheme mserver option" where
  "g_step qstep cput cget inner env root e s =
     (if g_exited s \<or> g_main s = MReturned then None
      else case e of
        GMain mem \<Rightarrow> g_main_step qstep cput mem s
      | GWorker i \<Rightarrow> g_threadMain qstep cget env root i s
      | GQueue qe \<Rightarrow> if inner qe then g_queue qstep qe s else None)"

definition g_init :: "'a mon_scheme \<Rightarrow> nat \<Rightarrow> accepted list \<Rightarrow> 'a mon_scheme mserver" where
  "g_init m n as = \<lparr>g_mon = m, g_main = MAccept as, g_call = False, g_work = (\<lambda>i. GStart), g_n = n, g_log = [], g_served = [],
     g_exited = False\<rparr>"

fun mon_inner :: "mev \<Rightarrow> bool" where
  "mon_inner (Run t) = True"
| "mon_inner (Spurious t) = True"
| "mon_inner _ = False"

fun fut_inner :: "fev \<Rightarrow> bool" where
  "fut_inner (FEv e) = mon_inner e"
| "fut_inner (FBroadcast t ws) = True"

definition http_program_step :: "http_env \<Rightarrow> string \<Rightarrow> mev gev \<Rightarrow> mon mserver \<Rightarrow> mon mserver option" where
  "http_program_step = g_step mstep (CallPut 0) CallGet mon_inner"

definition http_program_init :: "nat \<Rightarrow> accepted list \<Rightarrow> mon mserver" where
  "http_program_init n as = g_init mon_init n as"

definition futex_program_step :: "http_env \<Rightarrow> string \<Rightarrow> fev gev \<Rightarrow> fmon mserver \<Rightarrow> fmon mserver option" where
  "futex_program_step = g_step fstep (\<lambda>sock mem. FEv (CallPut 0 sock mem)) (\<lambda>t. FEv (CallGet t)) fut_inner"

definition futex_program_init :: "nat \<Rightarrow> accepted list \<Rightarrow> fmon mserver" where
  "futex_program_init n as = g_init (fmon_init [0..<Suc n]) n as"

section \<open>What the programs need of the queue\<close>

text \<open>How a thread moves inside an operation, but where a put links or a get takes off.\<close>

fun putting :: "mpc \<Rightarrow> bool" where
  "putting (PutLock m v) = True"
| "putting (PutAppend m v) = True"
| "putting PutWake = True"
| "putting PutInc = True"
| "putting PutUnlock = True"
| "putting _ = False"

fun getting :: "mpc \<Rightarrow> bool" where
  "getting GetLock = True"
| "getting GetTest = True"
| "getting GetSleep = True"
| "getting FutexUnlock = True"
| "getting FutexRead = True"
| "getting (FutexCall v) = True"
| "getting GetRelock = True"
| "getting GetTake = True"
| "getting _ = False"

definition quiet :: "mpc \<Rightarrow> mpc \<Rightarrow> bool" where
  "quiet p q \<longleftrightarrow> q = p \<or> putting p \<and> (putting q \<or> q = Idle) \<and> map_option snd (building q) = map_option snd (building p) \<or>
     getting p \<and> getting q \<or> (\<exists>v. p = GetUnlock v) \<and> q = Idle"

locale monitor_queue = machine qstep qgood
  for qstep :: "'e \<Rightarrow> 'a mon_scheme \<Rightarrow> 'a mon_scheme option" and qgood :: "'a mon_scheme \<Rightarrow> bool" +
  fixes cput :: "int \<Rightarrow> bool \<Rightarrow> 'e" and cget :: "tid \<Rightarrow> 'e" and inner :: "'e \<Rightarrow> bool"
  assumes puts: "qgood m \<Longrightarrow> qstep (cput v mem) m = Some m' \<Longrightarrow> m_status m' = Running \<Longrightarrow>
      mon_content m' = mon_content m \<and> (\<exists>msg. m_pc m' = (m_pc m)(0 := PutLock msg v))"
    and gets: "qgood m \<Longrightarrow> qstep (cget t) m = Some m' \<Longrightarrow>
      m_status m' = Running \<and> mon_content m' = mon_content m \<and> m_pc m' = (m_pc m)(t := GetLock)"
    and moves: "qgood m \<Longrightarrow> inner e \<Longrightarrow> qstep e m = Some m' \<Longrightarrow> m_status m' = Running \<and>
      (mon_content m' = mon_content m \<and> (\<forall>t. quiet (m_pc m t) (m_pc m' t)) \<or>
       (\<exists>t msg v. m_pc m t = PutAppend msg v \<and> m_pc m' = (m_pc m)(t := PutWake) \<and> mon_content m' = mon_content m @ [v]) \<or>
       (\<exists>t v. m_pc m t = GetTake \<and> m_pc m' = (m_pc m)(t := GetUnlock v) \<and> mon_content m = v # mon_content m'))"

section \<open>The simulation\<close>

definition g_result :: "'a mon_scheme \<Rightarrow> 'a mon_scheme \<Rightarrow> (nat \<Rightarrow> gwork) \<Rightarrow> nat \<Rightarrow> gwork" where
  "g_result m m' w i =
     (case m_pc m (Suc i) of GetUnlock sock \<Rightarrow> if w i = GCalling \<and> m_pc m' (Suc i) = Idle then GConn sock else w i | _ \<Rightarrow> w i)"

lemma g_return_result:
  assumes "\<And>i. w i = GCalling \<Longrightarrow> i < n"
  shows "g_return m m' n w = g_result m m' w"
proof
  fix i
  have "g_return m m' k w i = (if i < k then g_result m m' w i else w i)" for k
    by (induction k) (auto simp: g_return_def g_result_def less_Suc_eq split: mpc.splits)
  then show "g_return m m' n w i = g_result m m' w i"
    using assms [of i] by (cases "i < n") (auto simp: g_result_def split: mpc.splits)
qed

definition g_abs :: "'a mon_scheme mserver \<Rightarrow> srv" where
  "g_abs s = \<lparr>v_queue = mon_content (g_mon s),
     v_main = (if g_call s \<and> building (m_pc (g_mon s) 0) = None then advance (g_main s) else g_main s),
     v_work = (\<lambda>i. case g_work s i of
         GStart \<Rightarrow> Waiting
       | GCalling \<Rightarrow> (case m_pc (g_mon s) (Suc i) of GetUnlock v \<Rightarrow> Serving v | _ \<Rightarrow> Waiting)
       | GConn v \<Rightarrow> Serving v
       | GGone \<Rightarrow> Gone),
     v_n = g_n s, v_log = g_log s, v_served = g_served s, v_exited = g_exited s\<rparr>"

text \<open>What the main thread is putting; where a thread is in an operation.\<close>

fun current :: "nat \<Rightarrow> main_pc \<Rightarrow> int option" where
  "current n (MAccept (a # as)) = (if stops a \<or> ac_sock a < 0 then None else Some (ac_sock a))"
| "current n (MPoison i) = (if i < n then Some QUEUE_POISON else None)"
| "current n _ = None"

definition put_at :: "nat \<Rightarrow> main_pc \<Rightarrow> mpc \<Rightarrow> bool" where
  "put_at n m p \<longleftrightarrow> (\<exists>v. current n m = Some v \<and> (p = Idle \<or> putting p \<and> (building p = None \<or> map_option snd (building p) = Some v)))"

definition get_at :: "mpc \<Rightarrow> bool" where
  "get_at p \<longleftrightarrow> getting p \<or> (\<exists>v. p = GetUnlock v)"

definition g_inv :: "('a mon_scheme \<Rightarrow> bool) \<Rightarrow> 'a mon_scheme mserver \<Rightarrow> bool" where
  "g_inv qgood s \<longleftrightarrow> g_exited s \<or> g_main s = MReturned \<or>
     qgood (g_mon s) \<and> m_status (g_mon s) = Running \<and>
     (if g_call s then put_at (g_n s) (g_main s) (m_pc (g_mon s) 0) else m_pc (g_mon s) 0 = Idle) \<and>
     (\<forall>i. if g_work s i = GCalling then i < g_n s \<and> get_at (m_pc (g_mon s) (Suc i)) else m_pc (g_mon s) (Suc i) = Idle)"

lemma quiet_idle: "quiet Idle q \<Longrightarrow> q = Idle"
  by (auto simp: quiet_def)

lemma quiet_put: "put_at n m p \<Longrightarrow> quiet p q \<Longrightarrow> put_at n m q \<and> (building q = None \<longleftrightarrow> building p = None)"
  by (cases p) (auto simp: put_at_def quiet_def)

lemma quiet_get:
  assumes "get_at p" and "quiet p q"
  shows "(case p of GetUnlock v \<Rightarrow> q = p \<or> q = Idle | _ \<Rightarrow> getting p \<and> getting q)"
  using assms by (cases p) (auto simp: get_at_def quiet_def)

lemma get_at_ends [simp]: "\<not> get_at Idle" "get_at GetLock" "get_at (GetUnlock v)"
  by (simp_all add: get_at_def)

lemma getting_wait: "getting p \<Longrightarrow> (case p of GetUnlock v \<Rightarrow> Serving v | _ \<Rightarrow> Waiting) = Waiting" "getting p \<Longrightarrow> p \<noteq> Idle" "getting p \<Longrightarrow> get_at p"
  by (cases p; simp add: get_at_def)+

definition g_sim :: "http_env \<Rightarrow> string \<Rightarrow> srv \<Rightarrow> srv \<Rightarrow> bool" where
  "g_sim env root s s' \<longleftrightarrow> s' = s \<or> (\<exists>a. srv_step env root a s = Some s')"

text \<open>The main thread in the program with the list.\<close>

lemma main_puts:
  assumes "current (v_n s) (v_main s) = Some v" and "\<not> v_exited s"
  shows "srv_step env root Main s = Some (s\<lparr>v_queue := v_queue s @ [v], v_main := advance (v_main s)\<rparr>)"
  using assms by (cases "v_main s" rule: advance.cases) (auto simp: main_accept_def stops_def split: if_splits)

lemma free_all_first: "free_all n q = Some q' \<Longrightarrow> q_first q' = None"
  by (induction n arbitrary: q) (auto split: option.splits)

lemma destroy_first: "queue_destroy n q = Some q' \<Longrightarrow> q_first q' = None"
  by (auto simp: queue_destroy_def dest: free_all_first)

lemma walk_none: "walk n h None = []"
  by (cases n) simp_all

context monitor_queue
begin

lemma g_queue_sim:
  assumes inv: "g_inv qgood s" and live: "\<not> g_exited s" "g_main s \<noteq> MReturned" and e: "inner e" and run: "g_queue qstep e s = Some s'"
  shows "g_inv qgood s' \<and> g_sim env root (g_abs s) (g_abs s')"
proof -
  have g: "qgood (g_mon s)" and main: "if g_call s then put_at (g_n s) (g_main s) (m_pc (g_mon s) 0) else m_pc (g_mon s) 0 = Idle"
    and w: "\<And>i. if g_work s i = GCalling then i < g_n s \<and> get_at (m_pc (g_mon s) (Suc i)) else m_pc (g_mon s) (Suc i) = Idle"
    using inv live by (auto simp: g_inv_def)
  obtain m where step: "qstep e (g_mon s) = Some m" and ret: "s' = s\<lparr>g_mon := m, g_work := g_return (g_mon s) m (g_n s) (g_work s)\<rparr>"
    using run by (auto simp: g_queue_def split: option.splits)
  have s': "s' = s\<lparr>g_mon := m, g_work := g_result (g_mon s) m (g_work s)\<rparr>"
    unfolding ret by (subst g_return_result) (use w in \<open>auto split: if_splits\<close>)
  have g': "qgood m" by (rule good_step [OF g step])
  have run': "m_status m = Running" using moves [OF g e step] by blast
  have keep: "g_work s' i = g_work s i" if "m_pc m (Suc i) = m_pc (g_mon s) (Suc i)" for i
    using that w [of i] by (auto simp: s' g_result_def split: mpc.splits)
  from moves [OF g e step] consider
      (quiet) "mon_content m = mon_content (g_mon s)" "\<And>t. quiet (m_pc (g_mon s) t) (m_pc m t)"
    | (link) t msg v where "m_pc (g_mon s) t = PutAppend msg v" "m_pc m = (m_pc (g_mon s))(t := PutWake)" "mon_content m = mon_content (g_mon s) @ [v]"
    | (take) t v where "m_pc (g_mon s) t = GetTake" "m_pc m = (m_pc (g_mon s))(t := GetUnlock v)" "mon_content (g_mon s) = v # mon_content m"
    by blast
  then show ?thesis
  proof cases
    case quiet
    have w': "(if g_work s' i = GCalling then i < g_n s \<and> get_at (m_pc m (Suc i)) else m_pc m (Suc i) = Idle) \<and>
        v_work (g_abs s') i = v_work (g_abs s) i" for i
    proof (cases "g_work s i = GCalling")
      case True
      then have "get_at (m_pc (g_mon s) (Suc i))" and i: "i < g_n s" using w [of i] by simp_all
      note q = quiet_get [OF this(1) quiet(2)]
      show ?thesis
      proof (cases "\<exists>v. m_pc (g_mon s) (Suc i) = GetUnlock v")
        case True
        then obtain v where v: "m_pc (g_mon s) (Suc i) = GetUnlock v" ..
        then show ?thesis using q i \<open>g_work s i = GCalling\<close> by (auto simp: s' g_result_def g_abs_def get_at_def)
      next
        case False
        then have "getting (m_pc (g_mon s) (Suc i)) \<and> getting (m_pc m (Suc i))" using q by (auto split: mpc.splits)
        moreover have "g_work s' i = GCalling" using False True by (auto simp: s' g_result_def split: mpc.splits)
        ultimately show ?thesis using True i by (auto simp: g_abs_def s' getting_wait)
      qed
    next
      case False
      then have "m_pc (g_mon s) (Suc i) = Idle" using w [of i] by simp
      moreover from this have "m_pc m (Suc i) = Idle" using quiet_idle quiet(2) [of "Suc i"] by simp
      ultimately show ?thesis using False keep [of i] by (auto simp: g_abs_def split: gwork.splits)
    qed
    have main': "(if g_call s then put_at (g_n s) (g_main s) (m_pc m 0) else m_pc m 0 = Idle) \<and>
        (g_call s \<longrightarrow> (building (m_pc m 0) = None \<longleftrightarrow> building (m_pc (g_mon s) 0) = None))"
      using main quiet(2) [of 0] quiet_put quiet_idle by (cases "g_call s") auto
    then have "g_abs s' = g_abs s" using quiet(1) w' by (auto simp: g_abs_def s' fun_eq_iff)
    then show ?thesis using g' run' main' w' live by (auto simp: g_inv_def g_sim_def s')
  next
    case link
    have t: "t = 0"
    proof (rule ccontr)
      assume "t \<noteq> 0"
      then obtain i where "t = Suc i" by (cases t) auto
      then show False using w [of i] link(1) by (auto simp: get_at_def split: if_splits)
    qed
    then have call: "g_call s" and cur: "current (g_n s) (g_main s) = Some v" using main link(1) by (auto simp: put_at_def split: if_splits)
    have w': "g_work s' i = g_work s i" for i using keep [of i] link(2) t by simp
    have "srv_step env root Main (g_abs s) = Some ((g_abs s)\<lparr>v_queue := v_queue (g_abs s) @ [v], v_main := advance (v_main (g_abs s))\<rparr>)"
      by (rule main_puts) (use cur call link(1) t live in \<open>simp_all add: g_abs_def\<close>)
    moreover have "g_abs s' = (g_abs s)\<lparr>v_queue := v_queue (g_abs s) @ [v], v_main := advance (v_main (g_abs s))\<rparr>"
      using w' link t call by (simp add: g_abs_def s' fun_eq_iff split: gwork.split)
    ultimately have "srv_step env root Main (g_abs s) = Some (g_abs s')" by (simp only:)
    then have "g_sim env root (g_abs s) (g_abs s')" unfolding g_sim_def by blast
    moreover have "put_at (g_n s) (g_main s) PutWake" using cur by (simp add: put_at_def)
    ultimately show ?thesis using g' run' w w' link(2) t call live by (auto simp: g_inv_def s')
  next
    case take
    have "t \<noteq> 0"
    proof
      assume "t = 0"
      then show False using main take(1) by (auto simp: put_at_def split: if_splits)
    qed
    then obtain i where t: "t = Suc i" by (cases t) auto
    then have c: "g_work s i = GCalling" and i: "i < g_n s" using w [of i] take(1) by (auto split: if_splits)
    have w': "g_work s' j = g_work s j" for j using keep [of j] take(1,2) t by (cases "j = i") (auto simp: s' g_result_def)
    have abs: "v_work (g_abs s) i = Waiting" "v_queue (g_abs s) = v # mon_content m" using c take t by (simp_all add: g_abs_def)
    have "srv_step env root (Worker i) (g_abs s) = Some ((g_abs s)\<lparr>v_queue := mon_content m, v_work := (v_work (g_abs s))(i := Serving v)\<rparr>)"
    proof -
      have "\<not> v_exited (g_abs s)" "i < v_n (g_abs s)" "v_main (g_abs s) \<noteq> MReturned"
        using live i by (auto simp: g_abs_def elim: advance.elims)
      then show ?thesis using abs by (simp add: worker_step_def)
    qed
    moreover have "g_abs s' = (g_abs s)\<lparr>v_queue := mon_content m, v_work := (v_work (g_abs s))(i := Serving v)\<rparr>"
      using w' take t c by (simp add: g_abs_def s' fun_eq_iff split: gwork.split)
    ultimately have "srv_step env root (Worker i) (g_abs s) = Some (g_abs s')" by (simp only:)
    then have "g_sim env root (g_abs s) (g_abs s')" unfolding g_sim_def by blast
    then show ?thesis using g' run' w w' take(2) t main c i live by (simp add: g_inv_def s')
  qed
qed

lemma g_main_sim:
  assumes inv: "g_inv qgood s" and live: "\<not> g_exited s" "g_main s \<noteq> MReturned" and run: "g_main_step qstep cput mem s = Some s'"
    and live': "\<not> g_exited s'"
  shows "g_inv qgood s' \<and> g_sim env root (g_abs s) (g_abs s')"
proof -
  have g: "qgood (g_mon s)" and st: "m_status (g_mon s) = Running"
    and main: "if g_call s then put_at (g_n s) (g_main s) (m_pc (g_mon s) 0) else m_pc (g_mon s) 0 = Idle"
    and w: "\<And>i. if g_work s i = GCalling then i < g_n s \<and> get_at (m_pc (g_mon s) (Suc i)) else m_pc (g_mon s) (Suc i) = Idle"
    using inv live by (auto simp: g_inv_def)
  have put: ?thesis if c: "\<not> g_call s" "current (g_n s) (g_main s) = Some v" and p: "g_put qstep (cput v mem) s = Some s'" for v
  proof -
    obtain m where m: "qstep (cput v mem) (g_mon s) = Some m" "m_status m = Running" "s' = s\<lparr>g_mon := m, g_call := True\<rparr>"
      using p live' by (auto simp: g_put_def split: option.splits if_splits)
    obtain msg where pc: "m_pc m = (m_pc (g_mon s))(0 := PutLock msg v)" and con: "mon_content m = mon_content (g_mon s)"
      using puts [OF g m(1,2)] by blast
    have "put_at (g_n s) (g_main s) (PutLock msg v)" using c by (simp add: put_at_def)
    then have "g_inv qgood s'" using good_step [OF g m(1)] m(2) pc w by (simp add: g_inv_def m(3))
    moreover have "g_abs s' = g_abs s" using c pc con by (simp add: g_abs_def m(3) fun_eq_iff split: gwork.split)
    ultimately show ?thesis by (simp add: g_sim_def)
  qed
  have move: ?thesis if c: "\<not> g_call s" and s': "s' = s\<lparr>g_main := m\<rparr>" and a: "srv_step env root Main (g_abs s) = Some ((g_abs s)\<lparr>v_main := m\<rparr>)" for m
  proof -
    have "g_abs s' = (g_abs s)\<lparr>v_main := m\<rparr>" using c by (simp add: g_abs_def s' fun_eq_iff split: gwork.split)
    then have "srv_step env root Main (g_abs s) = Some (g_abs s')" using a by (simp only:)
    then have "g_sim env root (g_abs s) (g_abs s')" unfolding g_sim_def by blast
    then show ?thesis using g st main w c by (simp add: g_inv_def s')
  qed
  have abs: "v_main (g_abs s) = g_main s" "\<not> v_exited (g_abs s)" "v_n (g_abs s) = g_n s" if "\<not> g_call s"
    using that live by (simp_all add: g_abs_def)
  show ?thesis
  proof (cases "g_call s")
    case True
    then have idle: "m_pc (g_mon s) 0 = Idle" and s': "s' = s\<lparr>g_call := False, g_main := advance (g_main s)\<rparr>"
      using run by (auto simp: g_main_step_def g_mainLoop_def split: if_splits)
    have "g_abs s' = g_abs s" using True idle by (simp add: g_abs_def s' fun_eq_iff split: gwork.split)
    then show ?thesis using g st w idle by (auto simp: g_inv_def g_sim_def s')
  next
    case False
    note A = abs [OF False]
    show ?thesis
    proof (cases "g_main s" rule: advance.cases [case_names accepting poisoning no_more joining destroying returned])
      case (accepting a as)
      show ?thesis
      proof (cases "stops a")
        case True
        then show ?thesis using run False accepting A by (intro move [of "MPoison 0"]) (auto simp: g_main_step_def g_mainLoop_def stops_def main_accept_def)
      next
        case ns: False
        then show ?thesis using run False accepting live' by (intro put) (auto simp: g_main_step_def g_mainLoop_def stops_def split: if_splits)
      qed
    next
      case (poisoning i)
      show ?thesis
      proof (cases "i < g_n s")
        case True
        then show ?thesis using run False poisoning by (intro put) (auto simp: g_main_step_def g_mainLoop_def)
      next
        case False
        then show ?thesis using run \<open>\<not> g_call s\<close> poisoning A by (intro move [of "MJoin 0"]) (auto simp: g_main_step_def g_mainLoop_def)
      qed
    next
      case (joining i)
      show ?thesis
      proof (cases "i < g_n s")
        case True
        then have "g_work s i = GGone" using run False joining by (auto simp: g_main_step_def g_mainLoop_def split: if_splits)
        then have "v_work (g_abs s) i = Gone" by (simp add: g_abs_def)
        then show ?thesis using run False joining A True \<open>g_work s i = GGone\<close> by (intro move [of "MJoin (Suc i)"]) (auto simp: g_main_step_def g_mainLoop_def)
      next
        case False
        then show ?thesis using run \<open>\<not> g_call s\<close> joining A by (intro move [of MDestroy]) (auto simp: g_main_step_def g_mainLoop_def)
      qed
    next
      case destroying
      then obtain q where q: "queue_destroy (Suc (q_brk (m_queue (g_mon s)))) (m_queue (g_mon s)) = Some q"
        and s': "s' = s\<lparr>g_mon := (g_mon s)\<lparr>m_queue := q\<rparr>, g_main := MReturned\<rparr>"
        using run False by (auto simp: g_main_step_def g_mainLoop_def split: option.splits)
      have "q_first q = None" using q by (rule destroy_first)
      then have "mon_content (g_mon s') = []" by (simp add: s' mon_content_def queue_content_def walk_none)
      then have "g_abs s' = (g_abs s)\<lparr>v_queue := [], v_main := MReturned\<rparr>"
        using False by (simp add: g_abs_def s' fun_eq_iff split: gwork.split)
      then have "srv_step env root Main (g_abs s) = Some (g_abs s')" using A destroying by simp
      then have "g_sim env root (g_abs s) (g_abs s')" unfolding g_sim_def by blast
      then show ?thesis by (simp add: g_inv_def s')
    qed (use run False live in \<open>auto simp: g_main_step_def g_mainLoop_def\<close>)
  qed
qed

lemma g_worker_sim:
  assumes inv: "g_inv qgood s" and live: "\<not> g_exited s" "g_main s \<noteq> MReturned" and run: "g_threadMain qstep cget env root i s = Some s'"
    and live': "\<not> g_exited s'"
  shows "g_inv qgood s' \<and> g_sim env root (g_abs s) (g_abs s')"
proof -
  have g: "qgood (g_mon s)" and st: "m_status (g_mon s) = Running"
    and main: "if g_call s then put_at (g_n s) (g_main s) (m_pc (g_mon s) 0) else m_pc (g_mon s) 0 = Idle"
    and w: "\<And>i. if g_work s i = GCalling then i < g_n s \<and> get_at (m_pc (g_mon s) (Suc i)) else m_pc (g_mon s) (Suc i) = Idle"
    using inv live by (auto simp: g_inv_def)
  have i: "i < g_n s" using run by (auto simp: g_threadMain_def split: if_splits)
  show ?thesis
  proof (cases "g_work s i")
    case GStart
    then obtain m where m: "qstep (cget (Suc i)) (g_mon s) = Some m" and s': "s' = s\<lparr>g_mon := m, g_work := (g_work s)(i := GCalling)\<rparr>"
      using run i by (auto simp: g_threadMain_def split: option.splits)
    note M = gets [OF g m]
    have "g_abs s' = g_abs s" using M GStart by (simp add: g_abs_def s' fun_eq_iff split: gwork.split)
    moreover have "g_inv qgood s'" using good_step [OF g m] M main w i by (simp add: g_inv_def s')
    ultimately show ?thesis by (simp add: g_sim_def)
  next
    case (GConn sock)
    obtain l r where hc: "handleConnection env root sock (g_log s) = (l, r)" by fastforce
    have abs: "v_work (g_abs s) i = Serving sock" "v_n (g_abs s) = g_n s" "v_log (g_abs s) = g_log s" "\<not> v_exited (g_abs s)"
      "v_main (g_abs s) \<noteq> MReturned" "v_served (g_abs s) = g_served s"
      using GConn live by (auto simp: g_abs_def elim: advance.elims)
    show ?thesis
    proof (cases r)
      case (Ok x)
      then have s': "s' = s\<lparr>g_log := l, g_served := g_served s @ [sock], g_work := (g_work s)(i := GStart)\<rparr>"
        using run i GConn hc by (simp add: g_threadMain_def)
      have "g_abs s' = (g_abs s)\<lparr>v_log := l, v_served := v_served (g_abs s) @ [sock], v_work := (v_work (g_abs s))(i := Waiting)\<rparr>"
        by (simp add: g_abs_def s' fun_eq_iff split: gwork.split)
      moreover have "g_inv qgood s'" using g st main w w [of i] GConn by (simp add: g_inv_def s')
      ultimately show ?thesis using abs i hc Ok by (auto simp: g_sim_def worker_step_def intro!: exI [of _ "Worker i"])
    next
      case PthreadExit
      then have s': "s' = s\<lparr>g_log := l, g_work := (g_work s)(i := GGone)\<rparr>"
        using run i GConn hc by (simp add: g_threadMain_def)
      have "g_abs s' = (g_abs s)\<lparr>v_log := l, v_work := (v_work (g_abs s))(i := Gone)\<rparr>"
        by (simp add: g_abs_def s' fun_eq_iff split: gwork.split)
      moreover have "g_inv qgood s'" using g st main w w [of i] GConn by (simp add: g_inv_def s')
      ultimately show ?thesis using abs i hc PthreadExit by (auto simp: g_sim_def worker_step_def intro!: exI [of _ "Worker i"])
    qed (use run i GConn hc live' in \<open>auto simp: g_threadMain_def\<close>)
  qed (use run i in \<open>auto simp: g_threadMain_def\<close>)
qed

lemma g_step_sim:
  assumes "g_inv qgood s" and run: "g_step qstep cput cget inner env root e s = Some s'" and "\<not> g_exited s'"
  shows "g_inv qgood s' \<and> g_sim env root (g_abs s) (g_abs s')"
proof -
  have live: "\<not> g_exited s" "g_main s \<noteq> MReturned" using run by (auto simp: g_step_def split: if_splits)
  show ?thesis
  proof (cases e)
    case (GMain mem)
    then show ?thesis using run live by (intro g_main_sim [OF assms(1) live _ assms(3)]) (simp add: g_step_def)
  next
    case (GWorker i)
    then show ?thesis using run live by (intro g_worker_sim [OF assms(1) live _ assms(3)]) (simp add: g_step_def)
  next
    case (GQueue qe)
    then show ?thesis using run live by (intro g_queue_sim [OF assms(1) live]) (auto simp: g_step_def split: if_splits)
  qed
qed

lemma g_step_inv:
  assumes "g_inv qgood s" and "g_step qstep cput cget inner env root e s = Some s'"
  shows "g_inv qgood s'"
  using g_step_sim [OF assms] by (cases "g_exited s'") (auto simp: g_inv_def)

end

sublocale monitor_queue \<subseteq> program: machine "g_step qstep cput cget inner env root" "g_inv qgood" for env root
  by unfold_locales (rule g_step_inv)

context monitor_queue
begin

lemma g_step_live: "g_step qstep cput cget inner env root e s = Some s' \<Longrightarrow> \<not> g_exited s"
  by (auto simp: g_step_def split: if_splits)

text \<open>Every run of the program is one of the program of \<open>ServerMain\<close>.\<close>

lemma g_refines:
  "g_inv qgood s \<Longrightarrow> mrun (g_step qstep cput cget inner env root) es s = Some s' \<Longrightarrow> \<not> g_exited s' \<Longrightarrow>
     \<exists>es'. mrun (srv_step env root) es' (g_abs s) = Some (g_abs s')"
proof (induction es arbitrary: s)
  case Nil
  then show ?case by (intro exI [of _ "[]"]) simp
next
  case (Cons e es)
  then obtain u where u: "g_step qstep cput cget inner env root e s = Some u"
    and es: "mrun (g_step qstep cput cget inner env root) es u = Some s'"
    by (auto split: option.splits)
  have "\<not> g_exited u"
  proof (cases es)
    case Nil
    then show ?thesis using es Cons.prems(3) by simp
  next
    case (Cons e' es')
    then show ?thesis using es g_step_live by (auto split: option.splits)
  qed
  note S = g_step_sim [OF Cons.prems(1) u this]
  then obtain es' where es': "mrun (srv_step env root) es' (g_abs u) = Some (g_abs s')" using Cons.IH [OF _ es] Cons.prems(3) by blast
  from S consider "g_abs u = g_abs s" | a where "srv_step env root a (g_abs s) = Some (g_abs u)" by (auto simp: g_sim_def)
  then show ?case
  proof cases
    case (2 a)
    then show ?thesis using es' by (intro exI [of _ "a # es'"]) simp
  qed (use es' in auto)
qed

lemma g_init_ok:
  assumes "qgood m" and "m_status m = Running" and "m_pc m = (\<lambda>t. Idle)" and "mon_content m = []"
  shows "g_inv qgood (g_init m n as) \<and> g_abs (g_init m n as) = srv_init n as"
  using assms by (simp add: g_inv_def g_abs_def g_init_def srv_init_def)

end

section \<open>The two queues\<close>

definition moved :: "'a mon_scheme \<Rightarrow> 'a mon_scheme \<Rightarrow> bool" where
  "moved m m' \<longleftrightarrow> m_status m' = Running \<and>
     (mon_content m' = mon_content m \<and> (\<forall>t. quiet (m_pc m t) (m_pc m' t)) \<or>
      (\<exists>t msg v. m_pc m t = PutAppend msg v \<and> m_pc m' = (m_pc m)(t := PutWake) \<and> mon_content m' = mon_content m @ [v]) \<or>
      (\<exists>t v. m_pc m t = GetTake \<and> m_pc m' = (m_pc m)(t := GetUnlock v) \<and> mon_content m = v # mon_content m'))"

lemma moved_quiet: "m_status m' = Running \<Longrightarrow> mon_content m' = mon_content m \<Longrightarrow> (\<And>t. quiet (m_pc m t) (m_pc m' t)) \<Longrightarrow> moved m m'"
  by (simp add: moved_def)

lemma quiet_refl [simp]: "quiet p p"
  by (simp add: quiet_def)

lemma run_moves:
  assumes good: "mon_good b m" and st: "m_status m = Running" and run: "run_pc (m_pc m t) t m = Some m'"
  shows "moved m m'"
proof -
  obtain ps where rep: "mon_inv b m ps" using good by (auto simp: mon_good_def)
  have g': "m_status m' \<noteq> Faulted" using run_pc_ok(1) [OF rep st run] by (auto simp: mon_good_def mon_inv_def)
  then have st': "m_status m' = Running" using run st
    by (cases "m_pc m t") (auto simp: lock_mutex_def unlock_mutex_def cond_broadcast_def split: if_splits option.splits)
  have con: "mlin (Run t) m = None \<Longrightarrow> mon_content m' = mon_content m"
    and fifo: "mlin (Run t) m = Some a \<Longrightarrow> fifo_step a (mon_content m) = Some (mon_content m')" for a
    using run_pc_ok(2,3) [OF rep st run] by blast+
  show ?thesis
  proof (cases "m_pc m t")
    case (PutAppend msg v)
    then have "m_pc m' = (m_pc m)(t := PutWake)" using run g' by (auto split: option.splits)
    moreover have "mon_content m' = mon_content m @ [v]" using fifo [of "Put v"] PutAppend by simp
    ultimately show ?thesis using PutAppend st' unfolding moved_def by blast
  next
    case GetTake
    then obtain v q where q: "queue_take (m_queue m) = Some (v, q)" "m_pc m' = (m_pc m)(t := GetUnlock v)"
      using run g' by (auto split: option.splits)
    moreover have "mon_content m = v # mon_content m'" using fifo [of "Got v"] GetTake q by (auto split: list.splits if_splits)
    ultimately show ?thesis using GetTake st' unfolding moved_def by blast
  qed (use run st' con in \<open>auto intro!: moved_quiet simp: lock_mutex_def unlock_mutex_def cond_broadcast_def quiet_def split: if_splits\<close>)
qed

lemma call_put_moves:
  assumes "mon_good b m" and "m_pc m t = Idle" and "m_status (call_put t v mem m) = Running"
  shows "mon_content (call_put t v mem m) = mon_content m \<and> (\<exists>msg. m_pc (call_put t v mem m) = (m_pc m)(t := PutLock msg v))"
proof -
  obtain ps where "mon_inv b m ps" using assms(1) by (auto simp: mon_good_def)
  from mon_rep_call [OF this assms(2)] show ?thesis using assms(3) by (auto simp: call_put_def split: option.splits)
qed

lemma spurious_moves: "mstep (Spurious t) m = Some m' \<Longrightarrow> moved m m'"
  by (auto intro!: moved_quiet simp: quiet_def mon_content_def split: if_splits)

interpretation http_mon: monitor_queue mstep "\<lambda>m. mon_good True m \<and> no_futex m" "CallPut 0" CallGet mon_inner
proof unfold_locales
  fix m m' :: mon and e v mem t
  show "mon_good True m' \<and> no_futex m'" if "mon_good True m \<and> no_futex m" "mstep e m = Some m'"
    using that mon.good_step nofu.good_step by blast
  show "mon_content m' = mon_content m \<and> (\<exists>msg. m_pc m' = (m_pc m)(0 := PutLock msg v))"
    if "mon_good True m \<and> no_futex m" "mstep (CallPut 0 v mem) m = Some m'" "m_status m' = Running"
    using that call_put_moves [of True m 0 v mem] by (auto split: if_splits)
  show "m_status m' = Running \<and> mon_content m' = mon_content m \<and> m_pc m' = (m_pc m)(t := GetLock)"
    if "mstep (CallGet t) m = Some m'" using that by (auto simp: mon_content_def split: if_splits)
  show "m_status m' = Running \<and> (mon_content m' = mon_content m \<and> (\<forall>t. quiet (m_pc m t) (m_pc m' t)) \<or>
       (\<exists>t msg v. m_pc m t = PutAppend msg v \<and> m_pc m' = (m_pc m)(t := PutWake) \<and> mon_content m' = mon_content m @ [v]) \<or>
       (\<exists>t v. m_pc m t = GetTake \<and> m_pc m' = (m_pc m)(t := GetUnlock v) \<and> mon_content m = v # mon_content m'))"
    if "mon_good True m \<and> no_futex m" "mon_inner e" "mstep e m = Some m'"
    unfolding moved_def [symmetric]
    using that run_moves [of True m] spurious_moves [of _ m m'] by (cases e) (auto split: if_splits)
qed

lemma f_run_moves:
  assumes good: "mon_good False m" and st: "m_status m = Running" and run: "f_run (m_pc m t) t m = Some m'"
  shows "moved m m'"
proof (cases "m_pc m t")
  case PutWake
  then show ?thesis using run st by (auto intro!: moved_quiet simp: quiet_def mon_content_def split: if_splits)
next
  case GetTest
  then show ?thesis using run st by (auto intro!: moved_quiet simp: quiet_def mon_content_def split: if_splits)
next
  case FutexUnlock
  then show ?thesis using run st by (auto intro!: moved_quiet simp: quiet_def mon_content_def unlock_mutex_def split: if_splits)
next
  case FutexRead
  then show ?thesis using run st by (auto intro!: moved_quiet simp: quiet_def mon_content_def split: if_splits)
next
  case (FutexCall v)
  then show ?thesis using run st by (auto intro!: moved_quiet simp: quiet_def mon_content_def split: if_splits)
qed (use run run_moves [OF good st, of t m'] in auto)

interpretation futex_mon: monitor_queue fstep "mon_good False" "\<lambda>v mem. FEv (CallPut 0 v mem)" "\<lambda>t. FEv (CallGet t)" fut_inner
proof unfold_locales
  fix m m' :: fmon and e v mem t
  show "mon_content m' = mon_content m \<and> (\<exists>msg. m_pc m' = (m_pc m)(0 := PutLock msg v))"
    if "mon_good False m" "fstep (FEv (CallPut 0 v mem)) m = Some m'" "m_status m' = Running"
    using that call_put_moves [of False m 0 v mem] by (auto split: if_splits)
  show "m_status m' = Running \<and> mon_content m' = mon_content m \<and> m_pc m' = (m_pc m)(t := GetLock)"
    if "fstep (FEv (CallGet t)) m = Some m'" using that by (auto simp: mon_content_def split: if_splits)
  have "moved m m'" if "mon_good False m" "fut_inner e" "fstep e m = Some m'"
  proof (cases e)
    case (FEv e')
    then show ?thesis using that f_run_moves [OF that(1)] spurious_moves [of _ m m'] by (cases e') (auto split: if_splits)
  next
    case (FBroadcast t ws)
    then show ?thesis using that(3)
      by (auto intro!: moved_quiet simp: quiet_def mon_content_def f_wake_def split: if_splits)
  qed
  then show "m_status m' = Running \<and> (mon_content m' = mon_content m \<and> (\<forall>t. quiet (m_pc m t) (m_pc m' t)) \<or>
       (\<exists>t msg v. m_pc m t = PutAppend msg v \<and> m_pc m' = (m_pc m)(t := PutWake) \<and> mon_content m' = mon_content m @ [v]) \<or>
       (\<exists>t v. m_pc m t = GetTake \<and> m_pc m' = (m_pc m)(t := GetUnlock v) \<and> mon_content m = v # mon_content m'))"
    if "mon_good False m" "fut_inner e" "fstep e m = Some m'"
    using that unfolding moved_def by blast
qed

section \<open>The shutdown\<close>

lemma http_program_inv:
  "g_inv (\<lambda>m. mon_good True m \<and> no_futex m) (http_program_init n as) \<and> g_abs (http_program_init n as) = srv_init n as"
  unfolding http_program_init_def
  by (rule http_mon.g_init_ok) (use mon_init_good in \<open>simp_all add: no_futex_def\<close>, simp_all add: mon_init_def)

lemma futex_program_inv: "g_inv (mon_good False) (futex_program_init n as) \<and> g_abs (futex_program_init n as) = srv_init n as"
  unfolding futex_program_init_def
  by (rule futex_mon.g_init_ok) (use fmon_init_good in simp_all, simp_all add: fmon_init_def)

lemma abs_drained:
  assumes "mrun (srv_step env root) es (srv_init n as) = Some (g_abs s)" and "socks_open env as" and "0 < n"
    and "g_main s = MReturned" and "\<not> g_exited s"
  shows "(\<forall>i < n. g_work s i = GGone) \<and> mset (g_served s) = mset (accepted_socks as)"
proof -
  have "v_main (g_abs s) = MReturned" "\<not> v_exited (g_abs s)" using assms(4,5) by (simp_all add: g_abs_def)
  note R = shutdown_drains [OF assms(1-3) this]
  have "g_work s i = GGone" if "v_work (g_abs s) i = Gone" for i
    using that by (auto simp: g_abs_def split: gwork.splits mpc.splits)
  moreover have "v_served (g_abs s) = g_served s" by (simp add: g_abs_def)
  ultimately show ?thesis using R by auto
qed

text \<open>A connection is served, then the poison ends the only worker; in the first run it sleeps before each.\<close>

definition demo_http_run :: "mev gev list" where
  "demo_http_run =
     [GWorker 0] @ map (\<lambda>t. GQueue (Run t)) [1, 1] @ [GMain True] @ map (\<lambda>t. GQueue (Run t)) [0, 0, 0, 0, 0] @ [GMain True] @
     map (\<lambda>t. GQueue (Run t)) [1, 1, 1, 1] @ [GWorker 0, GMain True, GMain True] @ map (\<lambda>t. GQueue (Run t)) [0, 0, 0, 0, 0] @
     [GMain True, GMain True, GWorker 0] @ map (\<lambda>t. GQueue (Run t)) [1, 1, 1, 1] @ [GWorker 0, GMain True, GMain True, GMain True]"

definition demo_futex_run :: "fev gev list" where
  "demo_futex_run =
     [GMain True] @ map (\<lambda>t. GQueue (FEv (Run t))) [0, 0] @ [GQueue (FBroadcast 0 [])] @ map (\<lambda>t. GQueue (FEv (Run t))) [0, 0] @
     [GMain True, GWorker 0] @ map (\<lambda>t. GQueue (FEv (Run t))) [1, 1, 1, 1] @ [GWorker 0, GMain True, GMain True] @
     map (\<lambda>t. GQueue (FEv (Run t))) [0, 0] @ [GQueue (FBroadcast 0 [])] @ map (\<lambda>t. GQueue (FEv (Run t))) [0, 0] @
     [GMain True, GMain True, GWorker 0] @ map (\<lambda>t. GQueue (FEv (Run t))) [1, 1, 1, 1] @ [GWorker 0, GMain True, GMain True, GMain True]"

lemma demo_servers_run:
  "map_option (\<lambda>s. (g_main s, g_exited s, g_served s)) (mrun (http_program_step demo_env ''/www'') demo_http_run (http_program_init 1 demo_accepts)) =
    Some (MReturned, False, [4])"
  "map_option (\<lambda>s. (g_main s, g_exited s, g_served s)) (mrun (futex_program_step demo_env ''/www'') demo_futex_run (futex_program_init 1 demo_accepts)) =
    Some (MReturned, False, [4])"
  by code_simp+

text \<open>
  (C38) The programs \<open>http-server.c\<close> and \<open>http-server-futex.c\<close>, with every program point of the queue, the spurious
  wake-ups and whom the kernel wakes interleaved in any way, do nothing that the program with a list for its queue
  cannot do. So when \<open>main\<close> returns after \<open>SIGINT\<close>, and there was a worker, all workers have ended and the connections
  served are exactly those accepted before the signal, in both programs.
\<close>

theorem servers_drain:
  "(mrun (http_program_step env root) es1 (http_program_init n as) = Some s1 \<and> \<not> g_exited s1 \<longrightarrow>
      (\<exists>es. mrun (srv_step env root) es (srv_init n as) = Some (g_abs s1)) \<and>
      (g_main s1 = MReturned \<and> socks_open env as \<and> 0 < n \<longrightarrow>
        (\<forall>i < n. g_work s1 i = GGone) \<and> mset (g_served s1) = mset (accepted_socks as))) \<and>
   (mrun (futex_program_step env root) es2 (futex_program_init n as) = Some s2 \<and> \<not> g_exited s2 \<longrightarrow>
      (\<exists>es. mrun (srv_step env root) es (srv_init n as) = Some (g_abs s2)) \<and>
      (g_main s2 = MReturned \<and> socks_open env as \<and> 0 < n \<longrightarrow>
        (\<forall>i < n. g_work s2 i = GGone) \<and> mset (g_served s2) = mset (accepted_socks as)))"
proof (intro conjI impI; elim conjE)
  assume "mrun (http_program_step env root) es1 (http_program_init n as) = Some s1" "\<not> g_exited s1"
  then show ref: "\<exists>es. mrun (srv_step env root) es (srv_init n as) = Some (g_abs s1)"
    using http_mon.g_refines http_program_inv [of n as] unfolding http_program_step_def by metis
  assume "g_main s1 = MReturned" "socks_open env as" "0 < n"
  then show "\<forall>i < n. g_work s1 i = GGone" "mset (g_served s1) = mset (accepted_socks as)"
    using ref abs_drained \<open>\<not> g_exited s1\<close> by blast+
next
  assume "mrun (futex_program_step env root) es2 (futex_program_init n as) = Some s2" "\<not> g_exited s2"
  then show ref: "\<exists>es. mrun (srv_step env root) es (srv_init n as) = Some (g_abs s2)"
    using futex_mon.g_refines futex_program_inv [of n as] unfolding futex_program_step_def by metis
  assume "g_main s2 = MReturned" "socks_open env as" "0 < n"
  then show "\<forall>i < n. g_work s2 i = GGone" "mset (g_served s2) = mset (accepted_socks as)"
    using ref abs_drained \<open>\<not> g_exited s2\<close> by blast+
qed

theorem servers_drain_witness:
  "\<exists>s1 s2. mrun (http_program_step demo_env ''/www'') demo_http_run (http_program_init 1 demo_accepts) = Some s1 \<and> mset (g_served s1) = {#4#} \<and>
     mrun (futex_program_step demo_env ''/www'') demo_futex_run (futex_program_init 1 demo_accepts) = Some s2 \<and> mset (g_served s2) = {#4#}"
proof -
  obtain s1 s2 where s: "mrun (http_program_step demo_env ''/www'') demo_http_run (http_program_init 1 demo_accepts) = Some s1"
    "g_main s1 = MReturned" "\<not> g_exited s1"
    "mrun (futex_program_step demo_env ''/www'') demo_futex_run (futex_program_init 1 demo_accepts) = Some s2"
    "g_main s2 = MReturned" "\<not> g_exited s2"
    using demo_servers_run by auto
  have "accepted_socks demo_accepts = [4]" by code_simp
  then show ?thesis
    using servers_drain [of demo_env "''/www''" demo_http_run 1 demo_accepts s1 demo_futex_run s2] s demo_open by simp
qed

section \<open>Whether the shutdown is finished\<close>

definition g_shutting :: "'m mserver \<Rightarrow> bool" where
  "g_shutting s = (case g_main s of MAccept as \<Rightarrow> False | _ \<Rightarrow> True)"

lemma destroy_some:
  assumes "mon_inv b m ps" and "\<not> uncounted m"
  shows "\<exists>q. queue_destroy (Suc (q_brk (m_queue m))) (m_queue m) = Some q"
proof -
  have rep: "queue_rep (m_queue m) ps" using assms by (simp add: mon_inv_def counted_queue_def)
  then have "length ps \<le> q_brk (m_queue m)" by (intro distinct_bounded) (simp_all add: queue_rep_def)
  then show ?thesis using queue_destroy_frees [OF rep, of "Suc (q_brk (m_queue m))"] by auto
qed

text \<open>In \<open>http-server.c\<close> someone can always move, without a spurious wake-up.\<close>

lemma http_moves:
  assumes run: "mrun (http_program_step env root) es (http_program_init n as) = Some s" and sock: "socks_open env as" and n: "0 < n"
    and sh: "g_shutting s" and live: "\<not> g_exited s" "g_main s \<noteq> MReturned"
  shows "\<exists>e s'. (\<forall>t. e \<noteq> GQueue (Spurious t)) \<and> http_program_step env root e s = Some s'"
proof -
  let ?m = "g_mon s"
  have "g_inv (\<lambda>m. mon_good True m \<and> no_futex m) s"
    using http_mon.program.good_run [of "http_program_init n as"] http_program_inv [of n as] run unfolding http_program_step_def by blast
  then have good: "mon_good True ?m" "no_futex ?m" and st: "m_status ?m = Running"
    and main: "if g_call s then put_at (g_n s) (g_main s) (m_pc ?m 0) else m_pc ?m 0 = Idle"
    and w: "\<And>i. if g_work s i = GCalling then i < g_n s \<and> get_at (m_pc ?m (Suc i)) else m_pc ?m (Suc i) = Idle"
    using live by (auto simp: g_inv_def)
  obtain ps where rep: "mon_inv True ?m ps" using good(1) by (auto simp: mon_good_def)
  have exit: "?thesis" if "g_main_step mstep (CallPut 0) True s \<noteq> None"
    using that live by (intro exI [of _ "GMain True"]) (auto simp: http_program_step_def g_step_def)
  have work: "?thesis" if "g_threadMain mstep CallGet env root i s \<noteq> None" for i
    using that live by (intro exI [of _ "GWorker i"]) (auto simp: http_program_step_def g_step_def)
  show ?thesis
  proof (cases "\<exists>t. run_pc (m_pc ?m t) t ?m \<noteq> None")
    case True
    then obtain t m' where "mstep (Run t) ?m = Some m'" using st by auto
    then show ?thesis using live by (intro exI [of _ "GQueue (Run t)"]) (simp add: http_program_step_def g_step_def g_queue_def)
  next
    case False
    then have no: "run_pc (m_pc ?m t) t ?m = None" for t by blast
    have nf: "\<not> futex_pc (m_pc ?m t)" for t using good(2) by (simp add: no_futex_def)
    note S = mon_stuck [OF rep nf no]
    have calm: "m_pc ?m t = Idle \<or> m_pc ?m t = GetSleep" and data: "m_pc ?m t = GetSleep \<Longrightarrow> ps = []" for t using S by blast+
    have "owner_ok ?m" using rep by (simp add: mon_inv_def)
    moreover have "m_pc ?m t \<noteq> PutWake \<and> m_pc ?m t \<noteq> PutInc" for t using calm [of t] by (elim disjE) simp_all
    ultimately have unc: "\<not> uncounted ?m" by (simp add: uncounted_iff)
    show ?thesis
    proof (cases "g_call s")
      case True
      then have "m_pc ?m 0 = Idle" using main calm [of 0] by (auto simp: put_at_def)
      then show ?thesis using True by (intro exit) (simp add: g_main_step_def g_mainLoop_def)
    next
      case False
      then have idle: "m_pc ?m 0 = Idle" using main by simp
      show ?thesis
      proof (cases "g_main s")
        case (MPoison i)
        then show ?thesis using False idle st by (intro exit) (simp add: g_main_step_def g_mainLoop_def g_put_def)
      next
        case (MJoin i)
        show ?thesis
        proof (cases "i < g_n s \<and> g_work s i \<noteq> GGone")
          case True
          show ?thesis
          proof (cases "g_work s i")
            case GStart
            then have "m_pc ?m (Suc i) = Idle" using w [of i] by simp
            then show ?thesis using True GStart st by (intro work [of i]) (simp add: g_threadMain_def)
          next
            case (GConn sock)
            then show ?thesis using True by (intro work [of i]) (simp add: g_threadMain_def split: prod.splits)
          next
            case GCalling
            then have "get_at (m_pc ?m (Suc i))" using w [of i] by simp
            then have sl: "m_pc ?m (Suc i) = GetSleep" using calm [of "Suc i"] by auto
            then have "mon_content ?m = []"
              using rep unc data [OF sl] queue_rep_content [of "m_queue ?m" "[]"] by (simp add: mon_inv_def counted_queue_def mon_content_def)
            moreover obtain es' where abs: "mrun (srv_step env root) es' (srv_init n as) = Some (g_abs s)"
              using http_mon.g_refines http_program_inv [of n as] run live unfolding http_program_step_def by metis
            obtain socks k where "v_n (g_abs s) = n" and "drain_inv env (accepted_socks as) (g_abs s) socks k"
              using drain_run [OF abs sock n] live by (auto simp: g_abs_def)
            moreover have "v_main (g_abs s) = MJoin i" "v_work (g_abs s) i = Waiting" "i < v_n (g_abs s)"
              using MJoin GCalling sl True by (simp_all add: g_abs_def)
            ultimately have False using waiting_has_work [of env "accepted_socks as" "g_abs s" socks k i] by (simp add: g_abs_def)
            then show ?thesis ..
          qed (use True in simp)
        next
          case noti: False
          then show ?thesis using False MJoin by (intro exit) (auto simp: g_main_step_def g_mainLoop_def)
        qed
      next
        case MDestroy
        then show ?thesis using False destroy_some [OF rep unc] by (intro exit) (auto simp: g_main_step_def g_mainLoop_def)
      qed (use sh live in \<open>auto simp: g_shutting_def\<close>)
    qed
  qed
qed

text \<open>In \<open>http-server-futex.c\<close> the poison is put while the worker is between its test of the queue and its \<open>wait\<close>.\<close>

definition demo_hang :: "fev gev list" where
  "demo_hang =
     [GWorker 0] @ map (\<lambda>t. GQueue (FEv (Run t))) [1, 1, 1] @ [GMain True, GMain True] @ map (\<lambda>t. GQueue (FEv (Run t))) [0, 0] @
     [GQueue (FBroadcast 0 [])] @ map (\<lambda>t. GQueue (FEv (Run t))) [0, 0] @ [GMain True, GMain True] @
     map (\<lambda>t. GQueue (FEv (Run t))) [1, 1]"

lemma demo_hang_run:
  assumes "stops a"
  shows "\<exists>s. mrun (futex_program_step env root) demo_hang (futex_program_init 1 (a # as)) = Some s \<and> g_main s = MJoin 0 \<and> g_n s = 1 \<and>
    \<not> g_exited s \<and> \<not> g_call s \<and> g_work s = (\<lambda>i. GStart)(0 := GCalling) \<and> m_pc (g_mon s) = (\<lambda>t. Idle)(1 := GetSleep)"
  using assms
  by (simp add: demo_hang_def futex_program_step_def futex_program_init_def g_step_def g_init_def g_threadMain_def g_main_step_def g_mainLoop_def
      g_put_def g_queue_def g_return_def stops_def f_eval fun_eq_iff)

text \<open>
  (C39) Once \<open>http-server.c\<close> shuts down it cannot hang: until \<open>main\<close> returns, in every interleaving some thread can move
  without a spurious wake-up, and in particular no worker that \<open>main\<close> joins is left asleep. \<open>http-server-futex.c\<close> can: with
  one worker there is a run in which the poison is put between the worker's test of the queue and its \<open>wait\<close>; then it sleeps,
  \<open>main\<close> waits for it in \<open>pthread_join\<close>, and nothing but a spurious wake-up can happen any more. In both programs a
  connection is one step, which assumes that every client ends its request or its connection.
\<close>

theorem shutdown_hangs_with_futex:
  "(mrun (http_program_step env root) es (http_program_init n as) = Some s \<and> socks_open env as \<and> 0 < n \<and>
      g_shutting s \<and> \<not> g_exited s \<and> g_main s \<noteq> MReturned \<longrightarrow>
      (\<exists>e s'. (\<forall>t. e \<noteq> GQueue (Spurious t)) \<and> http_program_step env root e s = Some s')) \<and>
   (stops a \<longrightarrow>
      (\<exists>s. mrun (futex_program_step env root) demo_hang (futex_program_init 1 (a # as')) = Some s \<and>
        g_shutting s \<and> \<not> g_exited s \<and> g_main s \<noteq> MReturned \<and>
        (\<forall>e s'. futex_program_step env root e s = Some s' \<longrightarrow> e = GQueue (FEv (Spurious 1)))))"
proof (intro conjI impI)
  assume "mrun (http_program_step env root) es (http_program_init n as) = Some s \<and> socks_open env as \<and> 0 < n \<and>
      g_shutting s \<and> \<not> g_exited s \<and> g_main s \<noteq> MReturned"
  then show "\<exists>e s'. (\<forall>t. e \<noteq> GQueue (Spurious t)) \<and> http_program_step env root e s = Some s'"
    by (elim conjE) (rule http_moves)
next
  assume "stops a"
  then obtain s where s: "mrun (futex_program_step env root) demo_hang (futex_program_init 1 (a # as')) = Some s" "g_main s = MJoin 0"
    "g_n s = 1" "\<not> g_exited s" "\<not> g_call s" "g_work s = (\<lambda>i. GStart)(0 := GCalling)" "m_pc (g_mon s) = (\<lambda>t. Idle)(1 := GetSleep)"
    using demo_hang_run by blast
  have "e = GQueue (FEv (Spurious 1))" if step: "futex_program_step env root e s = Some s'" for e s'
  proof (cases e)
    case (GMain mem)
    then show ?thesis using step s by (simp add: futex_program_step_def g_step_def g_main_step_def g_mainLoop_def)
  next
    case (GWorker i)
    then show ?thesis using step s by (cases "i = 0") (simp_all add: futex_program_step_def g_step_def g_threadMain_def)
  next
    case (GQueue qe)
    then obtain m where "fut_inner qe" and m: "fstep qe (g_mon s) = Some m"
      using step by (auto simp: futex_program_step_def g_step_def g_queue_def split: if_splits option.splits)
    then show ?thesis using GQueue s(7)
      by (cases qe rule: fut_inner.cases; cases "case qe of FEv e' \<Rightarrow> e' | _ \<Rightarrow> Run 0") (auto split: if_splits)
  qed
  then show "\<exists>s. mrun (futex_program_step env root) demo_hang (futex_program_init 1 (a # as')) = Some s \<and>
      g_shutting s \<and> \<not> g_exited s \<and> g_main s \<noteq> MReturned \<and>
      (\<forall>e s'. futex_program_step env root e s = Some s' \<longrightarrow> e = GQueue (FEv (Spurious 1)))"
    using s by (intro exI [of _ s]) (auto simp: g_shutting_def)
qed

theorem shutdown_hangs_with_futex_witness:
  "(\<exists>s e s'. mrun (http_program_step demo_env ''/www'') (take 17 demo_http_run) (http_program_init 1 demo_accepts) = Some s \<and>
      g_main s = MPoison 0 \<and> http_program_step demo_env ''/www'' e s = Some s') \<and>
   (\<exists>s. mrun (futex_program_step demo_env ''/www'') demo_hang (futex_program_init 1 (tl demo_accepts)) = Some s \<and> g_main s \<noteq> MReturned)"
proof -
  have "map_option (\<lambda>s. (g_main s, g_exited s)) (mrun (http_program_step demo_env ''/www'') (take 17 demo_http_run) (http_program_init 1 demo_accepts)) =
    Some (MPoison 0, False)" by code_simp
  then obtain s where s: "mrun (http_program_step demo_env ''/www'') (take 17 demo_http_run) (http_program_init 1 demo_accepts) = Some s"
    "g_main s = MPoison 0" "\<not> g_exited s" by auto
  then have "g_shutting s" by (simp add: g_shutting_def)
  moreover have "tl demo_accepts = \<lparr>ac_sock = -1, ac_eintr = True, ac_flag = True\<rparr> # []" "stops \<lparr>ac_sock = -1, ac_eintr = True, ac_flag = True\<rparr>"
    by (simp_all add: demo_accepts_def stops_def)
  ultimately show ?thesis
    using shutdown_hangs_with_futex [of demo_env "''/www''" "take 17 demo_http_run" 1 demo_accepts s "\<lparr>ac_sock = -1, ac_eintr = True, ac_flag = True\<rparr>" "[]"]
      s demo_open by fastforce
qed

end
