(* ===== verification/QueueBenches.thy ===== *)
theory QueueBenches
  imports CombiningBenches ObjectBenches LocksStack
begin

text \<open>
  The programs of \<open>synch1.0.1/ccqueue.c\<close>, \<open>hqueue.c\<close>, \<open>dsmqueue.c\<close>, \<open>locksqueue.c\<close> and \<open>locksstack.c\<close>: every thread puts a 1
  and takes a value, \<open>RUNS\<close> times. What their objects promise is the locale \<open>planned_object\<close>: the calls of a thread, in
  their order, are all that the object does for it. From this and the sequential object follows what the
  programs take out.
\<close>

section \<open>The programs\<close>

text \<open>
  A thread inside an \<open>applyOp\<close> goes on under the lock it called it for: \<open>Inl\<close> is a call, \<open>Inr t\<close> a step of thread \<open>t\<close>.
\<close>

definition under_lock ::
  "(bool \<times> 'e \<Rightarrow> ('l, 'o) twolocks \<Rightarrow> ('l, 'o) twolocks option) \<Rightarrow> ('l \<Rightarrow> tid \<Rightarrow> bool) \<Rightarrow> (tid \<Rightarrow> 'e) \<Rightarrow>
   (bool \<times> 'e) + tid \<Rightarrow> ('l, 'o) twolocks \<Rightarrow> ('l, 'o) twolocks option" where
  "under_lock step lidle run e s = (case e of Inl x \<Rightarrow> step x s | Inr t \<Rightarrow> step (\<not> lidle (tl_lock s True) t, run t) s)"

definition both_idle :: "('l \<Rightarrow> tid \<Rightarrow> bool) \<Rightarrow> tid \<Rightarrow> ('l, 'o) twolocks \<Rightarrow> bool" where
  "both_idle lidle t s \<longleftrightarrow> lidle (tl_lock s True) t \<and> lidle (tl_lock s False) t"

text \<open>The even operations of a thread are enqueues, the odd ones dequeues; \<open>g t i\<close> is what the register of \<open>counter\<close> holds.\<close>

definition ccq_bench ::
  "(tid \<Rightarrow> nat \<Rightarrow> int) \<Rightarrow> nat \<Rightarrow> nat \<Rightarrow> bev \<Rightarrow> (serialq ccsynch, serialq) twolocks bench \<Rightarrow> (serialq ccsynch, serialq) twolocks bench option" where
  "ccq_bench g N_THREADS RUNS =
     bench_step (under_lock (ccqueue_step N_THREADS) (\<lambda>l t. cc_idle (cc_pc l t)) CcRun) (both_idle (\<lambda>l t. cc_idle (cc_pc l t)))
       (\<lambda>t i. Inl (even i, CcCall t 1 (g t i))) Inr N_THREADS (2 * RUNS)"

definition hq_bench ::
  "(tid \<Rightarrow> nat \<Rightarrow> int) \<Rightarrow> nat \<Rightarrow> nat \<Rightarrow> bev \<Rightarrow> (serialq hsynch, serialq) twolocks bench \<Rightarrow> (serialq hsynch, serialq) twolocks bench option" where
  "hq_bench g N_THREADS RUNS =
     bench_step (under_lock (hqueue_step N_THREADS) (\<lambda>l t. cc_idle (hs_pc l t)) CcRun) (both_idle (\<lambda>l t. cc_idle (hs_pc l t)))
       (\<lambda>t i. Inl (even i, CcCall t 1 (g t i))) Inr N_THREADS (2 * RUNS)"

definition dsmq_bench ::
  "nat \<Rightarrow> nat \<Rightarrow> bev \<Rightarrow> (serialq dsmsynch, serialq) twolocks bench \<Rightarrow> (serialq dsmsynch, serialq) twolocks bench option" where
  "dsmq_bench N_THREADS RUNS =
     bench_step (under_lock (dsmqueue_step N_THREADS) (\<lambda>l t. ds_idle (ds_pc l t)) DsRun) (both_idle (\<lambda>l t. ds_idle (ds_pc l t)))
       (\<lambda>t i. Inl (even i, DsCall t 1)) Inr N_THREADS (2 * RUNS)"

definition lq_bench :: "nat \<Rightarrow> nat \<Rightarrow> bev \<Rightarrow> lqueue bench \<Rightarrow> lqueue bench option" where
  "lq_bench N_THREADS RUNS =
     bench_step lq_step (\<lambda>t s. lq_idle (lq_pc s t)) (\<lambda>t i. if even i then LqEnq t 1 else LqDeq t) LqRun N_THREADS (2 * RUNS)"

definition ls_bench :: "nat \<Rightarrow> nat \<Rightarrow> bev \<Rightarrow> lstack bench \<Rightarrow> lstack bench option" where
  "ls_bench N_THREADS RUNS =
     bench_step ls_step (\<lambda>t s. ls_idle (ls_pc s t)) (\<lambda>t i. if even i then LsPush t 1 else LsPop t) LsRun N_THREADS (2 * RUNS)"

section \<open>What the programs need of the object\<close>

text \<open>\<open>plan t s\<close> are the calls of the thread so far, \<open>opr t i\<close> is its \<open>i\<close>-th call.\<close>

locale planned_object = machine ostep good
  for ostep :: "'e \<Rightarrow> 'o \<Rightarrow> 'o option" and good :: "'o \<Rightarrow> bool" +
  fixes oidle :: "tid \<Rightarrow> 'o \<Rightarrow> bool" and call :: "tid \<Rightarrow> nat \<Rightarrow> 'e" and run :: "tid \<Rightarrow> 'e"
    and plan :: "tid \<Rightarrow> 'o \<Rightarrow> 'a list" and opr :: "tid \<Rightarrow> nat \<Rightarrow> 'a"
  assumes call_law: "good s \<Longrightarrow> oidle t s \<Longrightarrow> ostep (call t i) s = Some s' \<Longrightarrow> plan t s' = plan t s @ [opr t i]"
    and run_law: "good s \<Longrightarrow> \<not> oidle t s \<Longrightarrow> ostep (run t) s = Some s' \<Longrightarrow> plan t s' = plan t s"
    and others: "good s \<Longrightarrow> e = call t i \<or> e = run t \<Longrightarrow> ostep e s = Some s' \<Longrightarrow> u \<noteq> t \<Longrightarrow>
      oidle u s' = oidle u s \<and> plan u s' = plan u s"

fun plan_ok :: "(nat \<Rightarrow> 'a) \<Rightarrow> nat \<Rightarrow> bpc \<Rightarrow> bool \<Rightarrow> 'a list \<Rightarrow> bool" where
  "plan_ok opr R (BLoop i) out p = (i \<le> R \<and> out \<and> p = map opr [0..<i])"
| "plan_ok opr R (BIn i) out p = (i < R \<and> p = map opr [0..<Suc i])"
| "plan_ok opr R BReturned out p = (out \<and> p = map opr [0..<R])"
| "plan_ok opr R _ out p = (out \<and> p = [])"

definition plan_inv ::
  "('o \<Rightarrow> bool) \<Rightarrow> (tid \<Rightarrow> 'o \<Rightarrow> bool) \<Rightarrow> (tid \<Rightarrow> 'o \<Rightarrow> 'a list) \<Rightarrow> (tid \<Rightarrow> nat \<Rightarrow> 'a) \<Rightarrow> nat \<Rightarrow> nat \<Rightarrow> 'o bench \<Rightarrow> bool" where
  "plan_inv good oidle plan opr N R s \<longleftrightarrow> good (b_obj s) \<and> bm_ok N (b_main s) (b_pc s) \<and>
     (\<forall>t. plan_ok (opr t) R (b_pc s t) (oidle t (b_obj s)) (plan t (b_obj s)))"

context planned_object
begin

lemma plan_object_step:
  assumes inv: "plan_inv good oidle plan opr N R s" and t: "b_pc s t \<noteq> BNew" "b_pc s t \<noteq> BReturned"
    and e: "e = call t i \<or> e = run t" and obj: "ostep e (b_obj s) = Some obj" and ok: "plan_ok (opr t) R p (oidle t obj) (plan t obj)"
  shows "plan_inv good oidle plan opr N R (bgo t p (s\<lparr>b_obj := obj\<rparr>))"
proof -
  have g: "good (b_obj s)" and bm: "bm_ok N (b_main s) (b_pc s)" using inv by (simp_all add: plan_inv_def)
  have "plan_ok (opr u) R (((b_pc s)(t := p)) u) (oidle u obj) (plan u obj)" for u
    using ok others [OF g e obj, of u] inv by (cases "u = t") (auto simp: plan_inv_def)
  then show ?thesis using good_step [OF g obj] bm_ok_upd [OF bm t, of p] by (simp add: plan_inv_def)
qed

lemma plan_thread_inv:
  assumes inv: "plan_inv good oidle plan opr N R s" and step: "bench_Execute ostep oidle call run N R t s = Some s'"
  shows "plan_inv good oidle plan opr N R s'"
proof -
  have g: "good (b_obj s)" and bm: "bm_ok N (b_main s) (b_pc s)"
    and ok: "plan_ok (opr t) R (b_pc s t) (oidle t (b_obj s)) (plan t (b_obj s))"
    using inv by (simp_all add: plan_inv_def)
  have go: "plan_inv good oidle plan opr N R (bgo t p s)"
    if "plan_ok (opr t) R p (oidle t (b_obj s)) (plan t (b_obj s))" "b_pc s t \<noteq> BNew" "b_pc s t \<noteq> BReturned" for p
    using that inv bm_ok_upd [OF bm that(2,3), of p] by (simp add: plan_inv_def)
  show ?thesis
  proof (cases "b_pc s t")
    case (BLoop i)
    show ?thesis
    proof (cases "i < R")
      case True
      then obtain obj where obj: "ostep (call t i) (b_obj s) = Some obj" and s': "s' = bgo t (BIn i) (s\<lparr>b_obj := obj\<rparr>)"
        using step BLoop by (auto simp: bench_Execute_def split: option.splits)
      show ?thesis
        unfolding s' using call_law [OF g _ obj] ok BLoop True by (intro plan_object_step [OF inv _ _ _ obj, where i = i]) auto
    next
      case False
      then have "s' = bgo t BReturned s" using step BLoop by (simp add: bench_Execute_def)
      then show ?thesis using go [of BReturned] ok BLoop False by auto
    qed
  next
    case (BIn i)
    show ?thesis
    proof (cases "oidle t (b_obj s)")
      case True
      then have "s' = bgo t (BLoop (i + 1)) s" using step BIn by (simp add: bench_Execute_def)
      then show ?thesis using go [of "BLoop (i + 1)"] ok BIn True by auto
    next
      case False
      then obtain obj where obj: "ostep (run t) (b_obj s) = Some obj" and s': "s' = s\<lparr>b_obj := obj\<rparr>"
        using step BIn by (auto simp: bench_Execute_def split: option.splits)
      have "(b_pc s)(t := BIn i) = b_pc s" using BIn by (simp add: fun_eq_iff)
      then have "bgo t (BIn i) s' = s'" by (simp add: s' bgo_def)
      moreover have "plan_inv good oidle plan opr N R (bgo t (BIn i) (s\<lparr>b_obj := obj\<rparr>))"
        using run_law [OF g False obj] ok BIn by (intro plan_object_step [OF inv _ _ _ obj]) auto
      ultimately show ?thesis by (simp add: s')
    qed
  qed (use step go ok in \<open>auto simp: bench_Execute_def split: if_splits\<close>)
qed

lemma plan_step_inv:
  assumes inv: "plan_inv good oidle plan opr N R s" and step: "bench_step ostep oidle call run N R e s = Some s'"
  shows "plan_inv good oidle plan opr N R s'"
proof (cases e)
  case (BThread t)
  then have "bench_Execute ostep oidle call run N R t s = Some s'" using step by (simp add: bench_step_def)
  then show ?thesis by (rule plan_thread_inv [OF inv])
next
  case BMain
  then have step: "bench_main N s = Some s'" using step by (simp add: bench_step_def)
  have bm: "bm_ok N (b_main s) (b_pc s)" and ok: "\<And>t. plan_ok (opr t) R (b_pc s t) (oidle t (b_obj s)) (plan t (b_obj s))"
    using inv by (simp_all add: plan_inv_def)
  show ?thesis
  proof (cases "b_main s")
    case (BmCreate k)
    then have "b_pc s k = BNew" using bm by simp
    then show ?thesis using inv ok [of k] bm BmCreate step
      by (cases "k < N") (auto simp: plan_inv_def bench_main_def)
  next
    case (BmJoin k)
    then show ?thesis using inv step bm by (auto simp: plan_inv_def bench_main_def less_Suc_eq split: if_splits)
  qed (use step in \<open>simp add: bench_main_def\<close>)
qed

end

sublocale planned_object \<subseteq> planned: machine "bench_step ostep oidle call run N R" "plan_inv good oidle plan opr N R" for N R
  by unfold_locales (rule plan_step_inv)

context planned_object
begin

text \<open>When \<open>main\<close> returns, each of its threads has made all its calls, and is out of the object.\<close>

lemma plan_end:
  assumes "good obj" and "\<And>t. oidle t obj \<and> plan t obj = []"
    and "mrun (bench_step ostep oidle call run N R) es (bench_init obj) = Some s" and "b_main s = BmReturned"
  shows "good (b_obj s) \<and> (\<forall>t. oidle t (b_obj s) \<and> plan t (b_obj s) = map (opr t) [0..<(if t < N then R else 0)])"
proof -
  have inv: "plan_inv good oidle plan opr N R s"
    using planned.good_run [OF _ assms(3)] assms(1,2) by (simp add: plan_inv_def bench_init_def)
  have "oidle t (b_obj s) \<and> plan t (b_obj s) = map (opr t) [0..<(if t < N then R else 0)]" for t
  proof -
    have "b_pc s t = (if t < N then BReturned else BNew)" using inv assms(4) by (simp add: plan_inv_def)
    moreover have "plan_ok (opr t) R (b_pc s t) (oidle t (b_obj s)) (plan t (b_obj s))" using inv by (simp add: plan_inv_def)
    ultimately show ?thesis by (simp split: if_splits)
  qed
  then show ?thesis using inv by (simp add: plan_inv_def)
qed

end

section \<open>Puts and takes of many threads\<close>

text \<open>How many values are left after the puts (\<open>True\<close>) and takes of a log, \<open>None\<close> when a take finds none.\<close>

fun level :: "(tid \<times> bool) list \<Rightarrow> nat \<Rightarrow> nat option" where
  "level [] n = Some n"
| "level ((t, b) # l) n = (if b then level l (n + 1) else if n = 0 then None else level l (n - 1))"

definition tags :: "tid \<Rightarrow> (tid \<times> bool) list \<Rightarrow> bool list" where
  "tags t l = map snd (filter (\<lambda>e. fst e = t) l)"

lemma level_snoc: "level (l @ [(t, b)]) n = (case level l n of None \<Rightarrow> None | Some k \<Rightarrow> if b then Some (k + 1) else if k = 0 then None else Some (k - 1))"
  by (induction l n rule: level.induct) auto

lemma turns_nil: "tags t [] = map even [0..<k t] \<Longrightarrow> k t = 0"
  by (cases "k t") (simp_all add: tags_def)

lemma turns_snoc:
  assumes "\<And>t. tags t (l @ [(u, b)]) = map even [0..<k t]" and "\<And>t. N \<le> t \<Longrightarrow> k t = 0"
  obtains j where "k u = Suc j" "b = even j" "u < N" "\<And>t. tags t l = map even [0..<(k(u := j)) t]" "\<And>t. N \<le> t \<Longrightarrow> (k(u := j)) t = 0"
proof -
  have u: "tags u l @ [b] = map even [0..<k u]" using assms(1) [of u] by (simp add: tags_def)
  then obtain j where j: "k u = Suc j" by (cases "k u") auto
  then have l: "b = even j" "tags u l = map even [0..<j]" using u by auto
  have "u < N" using assms(2) [of u] j by (cases "u < N") auto
  moreover have "tags t l = map even [0..<(k(u := j)) t]" for t
    using assms(1) [of t] l(2) by (cases "t = u") (simp_all add: tags_def)
  moreover have "(k(u := j)) t = 0" if "N \<le> t" for t using assms(2) [OF that] that \<open>u < N\<close> by simp
  ultimately show ?thesis using that j l(1) by blast
qed

lemma next_level:
  fixes a b j :: nat
  assumes "a + j mod 2 = b + Suc j mod 2"
  shows "(case Some b of None \<Rightarrow> None | Some n \<Rightarrow> if even j then Some (n + 1) else if n = 0 then None else Some (n - 1)) = Some a"
  using assms by (cases "even j") (auto simp: mod2_eq_if)

text \<open>When each thread puts and takes in turn, no take finds nothing.\<close>

lemma level_turns:
  assumes "\<And>t. tags t l = map even [0..<k t]" and "\<And>t. N \<le> t \<Longrightarrow> k t = 0"
  shows "level l 0 = Some (\<Sum>t<N. k t mod 2)"
  using assms
proof (induction l arbitrary: k rule: rev_induct)
  case Nil
  have "k t = 0" for t by (rule turns_nil [of t]) (rule Nil(1))
  then show ?case by simp
next
  case (snoc x l)
  obtain u b where x: "x = (u, b)" by (cases x)
  from turns_snoc [OF snoc.prems [unfolded x]] obtain j where j: "k u = Suc j" "b = even j" "u < N"
    "\<And>t. tags t l = map even [0..<(k(u := j)) t]" "\<And>t. N \<le> t \<Longrightarrow> (k(u := j)) t = 0" by blast
  have IH: "level l 0 = Some (\<Sum>t<N. (k(u := j)) t mod 2)" using snoc.IH j(4,5) by blast
  have "(\<Sum>t<N. k t mod 2) + j mod 2 = (\<Sum>t<N. (k(u := j)) t mod 2) + Suc j mod 2" (is "?A + _ = ?B + _")
    using sum_other [OF j(3), of "\<lambda>t. (k(u := j)) t mod 2" "\<lambda>t. k t mod 2"] j(1) by simp
  then show ?case unfolding x level_snoc IH j(2) by (rule next_level)
qed

lemma takes_turns:
  assumes "\<And>t. tags t l = map even [0..<k t]" and "\<And>t. N \<le> t \<Longrightarrow> k t = 0"
  shows "length (filter (\<lambda>e. \<not> snd e) l) = (\<Sum>t<N. k t div 2)"
  using assms
proof (induction l arbitrary: k rule: rev_induct)
  case Nil
  have "k t = 0" for t by (rule turns_nil [of t]) (rule Nil(1))
  then show ?case by simp
next
  case (snoc x l)
  obtain u b where x: "x = (u, b)" by (cases x)
  from turns_snoc [OF snoc.prems [unfolded x]] obtain j where j: "k u = Suc j" "b = even j" "u < N"
    "\<And>t. tags t l = map even [0..<(k(u := j)) t]" "\<And>t. N \<le> t \<Longrightarrow> (k(u := j)) t = 0" by blast
  have IH: "length (filter (\<lambda>e. \<not> snd e) l) = (\<Sum>t<N. (k(u := j)) t div 2)" using snoc.IH j(4,5) by blast
  have "(\<Sum>t<N. k t div 2) + j div 2 = (\<Sum>t<N. (k(u := j)) t div 2) + Suc j div 2"
    using sum_other [OF j(3), of "\<lambda>t. (k(u := j)) t div 2" "\<lambda>t. k t div 2"] j(1) by simp
  moreover have "Suc j div 2 = j div 2 + of_bool (odd j)" by (cases "even j") (auto elim!: evenE oddE)
  ultimately show ?case using j(2) unfolding x by (simp add: IH del: fun_upd_apply)
qed

section \<open>\<open>locksqueue.c\<close>\<close>

fun is_put :: "'v qact \<Rightarrow> bool" where
  "is_put (Put v) = True"
| "is_put _ = False"

text \<open>What the takes of a log got, when all its puts are puts of one value and none finds the queue empty.\<close>

definition q_takes :: "(tid \<times> i32 qact) list \<Rightarrow> i32 qact list" where
  "q_takes l = filter (\<lambda>a. \<not> is_put a) (map snd l)"

lemma q_takes_Cons: "q_takes ((t, a) # l) = (if is_put a then q_takes l else a # q_takes l)"
  by (simp add: q_takes_def)

lemma fifo_level:
  assumes "mrun fifo_step (map snd l) q = Some c" and "level (map (apsnd is_put) l) (length q) = Some n"
    and "\<forall>(t, a) \<in> set l. is_put a \<longrightarrow> a = Put w" and "set q \<subseteq> {w}"
  shows "length c = n \<and> q_takes l = replicate (length (q_takes l)) (Got w)"
  using assms
proof (induction l arbitrary: q)
  case (Cons e l)
  obtain t a where e: "e = (t, a)" by (cases e)
  have w: "\<forall>(t, a) \<in> set l. is_put a \<longrightarrow> a = Put w" using Cons.prems(3) by simp
  show ?case
  proof (cases a)
    case (Put v)
    then have "v = w" using Cons.prems(3) e by simp
    then have "length c = n \<and> q_takes l = replicate (length (q_takes l)) (Got w)"
      using Cons.prems(1,2,4) e Put by (intro Cons.IH [OF _ _ w, of "q @ [w]"]) simp_all
    then show ?thesis by (simp add: q_takes_Cons e Put)
  next
    case (Got v)
    then obtain ws where q: "q = v # ws" using Cons.prems(1) e by (cases q) (auto split: if_splits)
    then have "length c = n \<and> q_takes l = replicate (length (q_takes l)) (Got w)"
      using Cons.prems(1,2,4) e Got by (intro Cons.IH [OF _ _ w, of ws]) simp_all
    then show ?thesis using Cons.prems(4) q by (simp add: q_takes_Cons e Got)
  next
    case Empty
    then show ?thesis using Cons.prems(1,2) e by (simp split: if_splits)
  qed
qed (simp add: q_takes_def)

definition put_or_take :: "nat \<Rightarrow> i32 option" where
  "put_or_take i = (if even i then Some 1 else None)"

interpretation lq_planned: planned_object lq_step lq_good "\<lambda>t s. lq_idle (lq_pc s t)" "\<lambda>t i. if even i then LqEnq t 1 else LqDeq t" LqRun
    lq_plan "\<lambda>t. put_or_take"
proof unfold_locales
  fix s s' :: lqueue and t u :: tid and i :: nat and e
  show "lq_plan t s' = lq_plan t s @ [put_or_take i]" if "lq_idle (lq_pc s t)" "lq_step (if even i then LqEnq t 1 else LqDeq t) s = Some s'"
    using that(2) lq_plan_begin by (auto simp: put_or_take_def simp del: lq_step.simps split: if_splits)
  show "lq_plan t s' = lq_plan t s" if "\<not> lq_idle (lq_pc s t)" "lq_step (LqRun t) s = Some s'"
    using that(2) by (rule lq_plan_run)
  assume good: "lq_good s" and e: "e = (if even i then LqEnq t 1 else LqDeq t) \<or> e = LqRun t" and step: "lq_step e s = Some s'" and u: "u \<noteq> t"
  have "e = LqEnq t 1 \<or> e = LqDeq t \<or> e = LqRun t" using e by (auto split: if_splits)
  from lq_frame [OF step this u]
  show "lq_idle (lq_pc s' u) = lq_idle (lq_pc s u) \<and> lq_plan u s' = lq_plan u s" by (simp add: lq_plan_def)
qed

lemma log_turns:
  assumes "\<And>t. map arg (map snd (filter (\<lambda>e. fst e = t) l)) = map put_or_take [0..<(if t < N then 2 * R else 0)]"
    and "\<And>a. put a \<longleftrightarrow> arg a \<noteq> None"
  shows "level (map (apsnd put) l) 0 = Some 0"
    and "length (filter (\<lambda>a. \<not> put a) (map snd l)) = N * R"
    and "(t, a) \<in> set l \<Longrightarrow> arg a = Some v \<Longrightarrow> v = 1"
proof -
  have "tags t (map (apsnd put) l) = map (\<lambda>x. x \<noteq> None) (map arg (map snd (filter (\<lambda>e. fst e = t) l)))" for t
    by (induction l) (auto simp: tags_def assms(2))
  then have T: "tags t (map (apsnd put) l) = map even [0..<(if t < N then 2 * R else 0)]" for t
    unfolding assms(1) by (simp add: put_or_take_def)
  show "level (map (apsnd put) l) 0 = Some 0"
    using level_turns [where N = N, OF T] by simp
  have "length (filter (\<lambda>e. \<not> snd e) (map (apsnd put) l)) = N * R" using takes_turns [where N = N, OF T] by simp
  moreover have "length (filter (\<lambda>e. \<not> snd e) (map (apsnd put) l)) = length (filter (\<lambda>a. \<not> put a) (map snd l))"
    by (induction l) auto
  ultimately show "length (filter (\<lambda>a. \<not> put a) (map snd l)) = N * R" by simp
  show "v = 1" if "(t, a) \<in> set l" "arg a = Some v"
  proof -
    have "a \<in> set (map snd (filter (\<lambda>e. fst e = t) l))" using that(1) by force
    then have "arg a \<in> set (map arg (map snd (filter (\<lambda>e. fst e = t) l)))" by (metis list.set_map imageI)
    then show ?thesis unfolding assms(1) using that(2) by (auto simp: put_or_take_def split: if_splits)
  qed
qed

lemma lq_bench_end:
  assumes run: "mrun (lq_bench N R) es (bench_init lq_init) = Some s" and "b_main s = BmReturned"
  shows "lq_content (b_obj s) = [] \<and> q_takes (lq_log (b_obj s)) = replicate (N * R) (Got 1)"
proof -
  have init: "lq_idle (lq_pc lq_init t) \<and> lq_plan t lq_init = []" for t by (simp add: lq_init_def lq_plan_def lq_lasts_def)
  have E: "lq_good (b_obj s)" "\<And>t. lq_idle (lq_pc (b_obj s) t) \<and> lq_plan t (b_obj s) = map put_or_take [0..<(if t < N then 2 * R else 0)]"
    using lq_planned.plan_end [OF lq_init_good init run [unfolded lq_bench_def] assms(2)] by blast+
  have "lq_next f p = []" if "lq_idle p" for f p using that by (cases p) auto
  then have "map put_arg (map snd (filter (\<lambda>e. fst e = t) (lq_log (b_obj s)))) = map put_or_take [0..<(if t < N then 2 * R else 0)]" for t
    using E(2) [of t] unfolding lq_plan_def lq_lasts_def by (metis append_Nil2)
  note T = log_turns [of put_arg, OF this, of is_put]
  have put: "is_put a \<longleftrightarrow> put_arg a \<noteq> None" for a :: "i32 qact" by (cases a) auto
  obtain ns where inv: "lq_inv (b_obj s) ns" using E(1) by (auto simp: lq_good_def)
  have run: "mrun fifo_step (map snd (lq_log (b_obj s))) [] = Some (lq_content (b_obj s))"
    using lq_invD(15) [OF inv] lq_content_eq [OF inv] by simp
  have one: "\<forall>(t, a) \<in> set (lq_log (b_obj s)). is_put a \<longrightarrow> a = Put 1"
  proof (clarify)
    fix t a
    assume a: "(t, a) \<in> set (lq_log (b_obj s))" "is_put a"
    then obtain v where "a = Put v" by (cases a) auto
    then show "a = Put 1" using T(3) [OF put a(1), of v] by simp
  qed
  have "length (lq_content (b_obj s)) = 0 \<and> q_takes (lq_log (b_obj s)) = replicate (length (q_takes (lq_log (b_obj s)))) (Got 1)"
    by (rule fifo_level [OF run]) (use T(1) [OF put] one in simp_all)
  then show ?thesis using T(2) [OF put] by (simp add: q_takes_def)
qed

section \<open>\<open>locksstack.c\<close>\<close>

fun is_push :: "'v sact \<Rightarrow> bool" where
  "is_push (Push v) = True"
| "is_push _ = False"

definition s_takes :: "(tid \<times> i32 sact) list \<Rightarrow> i32 sact list" where
  "s_takes l = filter (\<lambda>a. \<not> is_push a) (map snd l)"

lemma s_takes_Cons: "s_takes ((t, a) # l) = (if is_push a then s_takes l else a # s_takes l)"
  by (simp add: s_takes_def)

lemma below_level:
  assumes "mrun below_step (map snd l) st = Some c" and "level (map (apsnd is_push) l) (length st) = Some n"
    and "\<forall>(t, a) \<in> set l. is_push a \<longrightarrow> a = Push w" and "set st \<subseteq> {w}"
  shows "length c = n \<and> set (s_takes l) \<subseteq> {Pop w, Pop 0}"
  using assms
proof (induction l arbitrary: st)
  case (Cons e l)
  obtain t a where e: "e = (t, a)" by (cases e)
  have w: "\<forall>(t, a) \<in> set l. is_push a \<longrightarrow> a = Push w" using Cons.prems(3) by simp
  show ?case
  proof (cases a)
    case (Push v)
    then have "v = w" using Cons.prems(3) e by simp
    then have "length c = n \<and> set (s_takes l) \<subseteq> {Pop w, Pop 0}"
      using Cons.prems(1,2,4) e Push by (intro Cons.IH [OF _ _ w, of "w # st"]) simp_all
    then show ?thesis by (simp add: s_takes_Cons e Push)
  next
    case (Pop v)
    then obtain x ws where st: "st = x # ws" "hd (ws @ [0]) = v" using Cons.prems(1) e by (cases st) (auto split: if_splits)
    then have "length c = n \<and> set (s_takes l) \<subseteq> {Pop w, Pop 0}"
      using Cons.prems(1,2,4) e Pop by (intro Cons.IH [OF _ _ w, of ws]) simp_all
    moreover have "v = w \<or> v = 0" using st Cons.prems(4) by (cases ws) auto
    ultimately show ?thesis by (auto simp: s_takes_Cons e Pop)
  next
    case PopEmpty
    then show ?thesis using Cons.prems(1,2) e by (simp split: if_splits)
  qed
qed (simp add: s_takes_def)

lemma below_last:
  assumes "mrun below_step (as @ [a]) st = Some []"
  shows "a = Pop 0 \<or> a = PopEmpty"
proof -
  obtain st' where "below_step a st' = Some []" using assms by (auto simp: mrun_append split: option.splits)
  then show ?thesis by (cases a) (auto split: list.splits if_splits)
qed

interpretation ls_planned: planned_object ls_step ls_good "\<lambda>t s. ls_idle (ls_pc s t)" "\<lambda>t i. if even i then LsPush t 1 else LsPop t" LsRun
    ls_plan "\<lambda>t. put_or_take"
proof unfold_locales
  fix s s' :: lstack and t u :: tid and i :: nat and e
  show "ls_plan t s' = ls_plan t s @ [put_or_take i]" if "ls_idle (ls_pc s t)" "ls_step (if even i then LsPush t 1 else LsPop t) s = Some s'"
    using that(2) ls_plan_begin by (auto simp: put_or_take_def simp del: ls_step.simps split: if_splits)
  show "ls_plan t s' = ls_plan t s" if "\<not> ls_idle (ls_pc s t)" "ls_step (LsRun t) s = Some s'"
    using that(2) by (rule ls_plan_run)
  assume good: "ls_good s" and e: "e = (if even i then LsPush t 1 else LsPop t) \<or> e = LsRun t" and step: "ls_step e s = Some s'" and u: "u \<noteq> t"
  have "e = LsPush t 1 \<or> e = LsPop t \<or> e = LsRun t" using e by (auto split: if_splits)
  from ls_frame [OF step this u]
  show "ls_idle (ls_pc s' u) = ls_idle (ls_pc s u) \<and> ls_plan u s' = ls_plan u s" by (simp add: ls_plan_def)
qed

lemma ls_bench_end:
  assumes run: "mrun (ls_bench N R) es (bench_init ls_init) = Some s" and "b_main s = BmReturned"
  shows "ls_content (b_obj s) = [] \<and> length (s_takes (ls_log (b_obj s))) = N * R \<and> set (s_takes (ls_log (b_obj s))) \<subseteq> {Pop 1, Pop 0} \<and>
    (0 < N * R \<longrightarrow> last (s_takes (ls_log (b_obj s))) = Pop 0)"
proof -
  let ?log = "ls_log (b_obj s)"
  have init: "ls_idle (ls_pc ls_init t) \<and> ls_plan t ls_init = []" for t by (simp add: ls_init_def ls_plan_def ls_lasts_def)
  have E: "ls_good (b_obj s)" "\<And>t. ls_idle (ls_pc (b_obj s) t) \<and> ls_plan t (b_obj s) = map put_or_take [0..<(if t < N then 2 * R else 0)]"
    using ls_planned.plan_end [OF ls_init_good init run [unfolded ls_bench_def] assms(2)] by blast+
  have "ls_next f p = []" if "ls_idle p" for f p using that by (cases p) auto
  then have "map push_arg (map snd (filter (\<lambda>e. fst e = t) ?log)) = map put_or_take [0..<(if t < N then 2 * R else 0)]" for t
    using E(2) [of t] unfolding ls_plan_def ls_lasts_def by (metis append_Nil2)
  note T = log_turns [of push_arg, OF this, of is_push]
  have push: "is_push a \<longleftrightarrow> push_arg a \<noteq> None" for a :: "i32 sact" by (cases a) auto
  obtain ns where inv: "ls_inv (b_obj s) ns" using E(1) by (auto simp: ls_good_def)
  have run: "mrun below_step (map snd ?log) [] = Some (ls_content (b_obj s))"
    using ls_invD(11) [OF inv] ls_content_eq [OF inv] by simp
  have one: "\<forall>(t, a) \<in> set ?log. is_push a \<longrightarrow> a = Push 1"
  proof (clarify)
    fix t a
    assume a: "(t, a) \<in> set ?log" "is_push a"
    then obtain v where "a = Push v" by (cases a) auto
    then show "a = Push 1" using T(3) [OF push a(1), of v] by simp
  qed
  have L: "length (ls_content (b_obj s)) = 0 \<and> set (s_takes ?log) \<subseteq> {Pop 1, Pop 0}"
    by (rule below_level [OF run]) (use T(1) [OF push] one in simp_all)
  have n: "length (s_takes ?log) = N * R" using T(2) [OF push] by (simp add: s_takes_def)
  have "last (s_takes ?log) = Pop 0" if "0 < N * R"
  proof -
    have "?log \<noteq> []" using n that by (auto simp: s_takes_def)
    then obtain l t a where l: "?log = l @ [(t, a)]" by (metis rev_exhaust surj_pair)
    then have a: "a = Pop 0 \<or> a = PopEmpty" using run L below_last [of "map snd l" a "[]"] by simp
    then have "s_takes ?log = s_takes l @ [a]" by (auto simp: s_takes_def l)
    then show ?thesis using L a by auto
  qed
  then show ?thesis using L n by simp
qed

section \<open>The queues under two combining locks\<close>

text \<open>The calls of a thread: those that returned, and the one it is in.\<close>

definition tl_plan :: "('l \<Rightarrow> tid \<Rightarrow> bool) \<Rightarrow> ('l \<Rightarrow> tid \<Rightarrow> i32) \<Rightarrow> tid \<Rightarrow> ('l, 'o) twolocks \<Rightarrow> (bool \<times> i32) list" where
  "tl_plan lidle larg t s = map (\<lambda>(b, a, r). (b, a)) (tl_hist s t) @
     (if \<not> lidle (tl_lock s True) t then [(True, larg (tl_lock s True) t)]
      else if \<not> lidle (tl_lock s False) t then [(False, larg (tl_lock s False) t)] else [])"

lemma two_stepD:
  assumes "two_step lstep caller lidle lhist op (b, x) s = Some s'"
  obtains l' obj' es where "lidle (tl_lock s (\<not> b)) (caller x)" "lstep (op b) x (tl_lock s b) (tl_obj s) = Some (l', obj', es)"
    "tl_lock s' = (tl_lock s)(b := l')"
    "tl_hist s' = (tl_hist s)(caller x := tl_hist s (caller x) @
       map (Pair b) (drop (length (lhist (tl_lock s b) (caller x))) (lhist l' (caller x))))"
  using assms by (auto simp: Let_def split: if_splits option.splits)

context combining_calls
begin

lemma two_call_plan:
  assumes idle: "both_idle lidle t s" and step: "two_step lstep caller lidle lhist op (b, call t i) s = Some s'"
  shows "tl_plan lidle larg t s' = tl_plan lidle larg t s @ [(b, argv t)]"
proof -
  obtain l' obj' es where l: "lstep (op b) (call t i) (tl_lock s b) (tl_obj s) = Some (l', obj', es)"
    "tl_lock s' = (tl_lock s)(b := l')"
    "tl_hist s' = (tl_hist s)(t := tl_hist s t @ map (Pair b) (drop (length (lhist (tl_lock s b) t)) (lhist l' t)))"
    using two_stepD [OF step] unfolding callers by metis
  show ?thesis using calls [OF l(1)] idle by (cases b) (simp_all add: tl_plan_def both_idle_def l(2,3))
qed

lemma two_run_plan:
  assumes busy: "\<not> both_idle lidle t s" and step: "two_step lstep caller lidle lhist op (\<not> lidle (tl_lock s True) t, run t) s = Some s'"
  shows "tl_plan lidle larg t s' = tl_plan lidle larg t s"
proof -
  let ?b = "\<not> lidle (tl_lock s True) t"
  obtain l' obj' es where l: "lidle (tl_lock s (\<not> ?b)) t" "lstep (op ?b) (run t) (tl_lock s ?b) (tl_obj s) = Some (l', obj', es)"
    "tl_lock s' = (tl_lock s)(?b := l')"
    "tl_hist s' = (tl_hist s)(t := tl_hist s t @ map (Pair ?b) (drop (length (lhist (tl_lock s ?b) t)) (lhist l' t)))"
    using two_stepD [OF step] unfolding callers by metis
  have "\<not> lidle (tl_lock s ?b) t" using busy by (cases ?b) (auto simp: both_idle_def)
  then obtain r where "larg l' t = larg (tl_lock s ?b) t"
    "lhist l' t = lhist (tl_lock s ?b) t @ (if lidle l' t then [(larg (tl_lock s ?b) t, r)] else [])"
    using runs [OF l(2)] by blast
  then show ?thesis using l(1) busy by (cases ?b) (auto simp: tl_plan_def both_idle_def l(3,4))
qed

lemma two_other_plan:
  assumes step: "two_step lstep caller lidle lhist op (b, x) s = Some s'" and u: "u \<noteq> caller x"
  shows "both_idle lidle u s' = both_idle lidle u s \<and> tl_plan lidle larg u s' = tl_plan lidle larg u s"
proof -
  obtain l' obj' es where l: "lstep (op b) x (tl_lock s b) (tl_obj s) = Some (l', obj', es)" "tl_lock s' = (tl_lock s)(b := l')"
    "tl_hist s' u = tl_hist s u"
    using two_stepD [OF step] u by (metis fun_upd_other)
  have "lidle (tl_lock s' c) u = lidle (tl_lock s c) u \<and> larg (tl_lock s' c) u = larg (tl_lock s c) u" for c
    using others [OF l(1) u] args [OF l(1) u] by (simp add: l(2))
  then show ?thesis by (simp add: both_idle_def tl_plan_def l(3))
qed

end

sublocale combining_calls \<subseteq> paired: planned_object "under_lock (two_step lstep caller lidle lhist op) lidle run"
    "two_inv lgood lidle llog lhist op obj" "both_idle lidle" "\<lambda>t i. Inl (even i, call t i)" Inr "tl_plan lidle larg"
    "\<lambda>t i. (even i, argv t)" for op obj
proof unfold_locales
  fix op obj s s' t u i
  show "two_inv lgood lidle llog lhist op obj s'"
    if "two_inv lgood lidle llog lhist op obj s" "under_lock (two_step lstep caller lidle lhist op) lidle run e s = Some s'" for e
    using that two_step_inv by (cases e) (simp_all add: under_lock_def del: two_step.simps)
  show "tl_plan lidle larg t s' = tl_plan lidle larg t s @ [(even i, argv t)]"
    if "both_idle lidle t s" "under_lock (two_step lstep caller lidle lhist op) lidle run (Inl (even i, call t i)) s = Some s'"
    using that two_call_plan by (simp add: under_lock_def del: two_step.simps)
  show "tl_plan lidle larg t s' = tl_plan lidle larg t s"
    if "\<not> both_idle lidle t s" "under_lock (two_step lstep caller lidle lhist op) lidle run (Inr t) s = Some s'"
    using that two_run_plan by (simp add: under_lock_def del: two_step.simps)
  show "both_idle lidle u s' = both_idle lidle u s \<and> tl_plan lidle larg u s' = tl_plan lidle larg u s"
    if e: "e = Inl (even i, call t i) \<or> e = Inr t" and step: "under_lock (two_step lstep caller lidle lhist op) lidle run e s = Some s'"
      and u: "u \<noteq> t" for e
  proof -
    obtain b x where "two_step lstep caller lidle lhist op (b, x) s = Some s'" "caller x = t"
      using e step callers by (auto simp: under_lock_def simp del: two_step.simps)
    then show ?thesis using two_other_plan u by blast
  qed
qed

context combining_calls
begin

lemma two_bench_end:
  assumes "\<And>b. lgood (ls b)" and "\<And>b. llog (ls b) = []" and "\<And>b t. lidle (ls b) t"
    and run: "mrun (bench_step (under_lock (two_step lstep caller lidle lhist op) lidle run) (both_idle lidle)
      (\<lambda>t i. Inl (even i, call t i)) Inr N R) es (bench_init (two_init ls obj)) = Some s" and "b_main s = BmReturned"
  shows "tl_legal op obj (tl_log (b_obj s)) (tl_obj (b_obj s))"
    and "tl_entries t (tl_log (b_obj s)) = tl_hist (b_obj s) t"
    and "map (\<lambda>(b, a, r). (b, a)) (tl_entries t (tl_log (b_obj s))) = map (\<lambda>i. (even i, argv t)) [0..<(if t < N then R else 0)]"
proof -
  have init: "both_idle lidle t (two_init ls obj) \<and> tl_plan lidle larg t (two_init ls obj) = []" for t
    using assms(3) by (simp add: both_idle_def tl_plan_def two_init_def)
  from paired.plan_end [OF two_init_inv [OF assms(1-3)] init run assms(5)]
  have E: "two_inv lgood lidle llog lhist op obj (b_obj s)" "both_idle lidle t (b_obj s)"
    "tl_plan lidle larg t (b_obj s) = map (\<lambda>i. (even i, argv t)) [0..<(if t < N then R else 0)]" for t by blast+
  have "tl_pending llog lhist (b_obj s) t b = []" for t b
    using E(1) E(2) [of t] by (intro pending_idle) (cases b; simp add: two_inv_def both_idle_def)+
  then show ent: "tl_entries t (tl_log (b_obj s)) = tl_hist (b_obj s) t" for t using E(1) by (simp add: two_inv_def)
  show "tl_legal op obj (tl_log (b_obj s)) (tl_obj (b_obj s))" using E(1) by (simp add: two_inv_def)
  show "map (\<lambda>(b, a, r). (b, a)) (tl_entries t (tl_log (b_obj s))) = map (\<lambda>i. (even i, argv t)) [0..<(if t < N then R else 0)]"
    using E(2,3) [of t] by (simp add: ent tl_plan_def both_idle_def)
qed

end

text \<open>A queue that is late by one, when no dequeue finds it empty and all enqueues are of one value.\<close>

definition tl_tags :: "(bool \<times> lockentry) list \<Rightarrow> (tid \<times> bool) list" where
  "tl_tags l = map (\<lambda>(b, t, a, i, r). (t, b)) l"

definition late_ones :: "i32 \<Rightarrow> nat \<Rightarrow> i32 list" where
  "late_ones v m = take m (v # replicate (m - 1) 1)"

lemma late_ones_simps: "late_ones v 0 = []" "v # late_ones 1 m = late_ones v (Suc m)"
  by (cases m; simp add: late_ones_def)+

lemma tl_deqs_Cons: "tl_deqs ((b, t, a, i, r) # l) = (if b then tl_deqs l else r # tl_deqs l)"
  by (simp add: tl_deqs_def)

lemma length_late_ones [simp]: "length (late_ones v m) = m"
  by (cases m) (simp_all add: late_ones_def)

context late_queue
begin

lemma legal_level:
  assumes "tl_legal (\<lambda>b. if b then enq else deq) q l q'" and "rep q v xs" and "level (tl_tags l) (length xs) = Some n"
    and "\<forall>(b, t, a, i, r) \<in> set l. a = 1" and "set xs \<subseteq> {1}"
  shows "(\<exists>v' ys. rep q' v' ys \<and> length ys = n) \<and> tl_deqs l = late_ones v (length (tl_deqs l))"
  using assms
proof (induction l arbitrary: q v xs)
  case Nil
  then show ?case by (auto simp: tl_tags_def tl_deqs_def late_ones_simps)
next
  case (Cons e l)
  obtain b t a i r where e: "e = (b, t, a, i, r)" by (cases e)
  have a: "a = 1" and one: "\<forall>(b, t, a, i, r) \<in> set l. a = 1" using Cons.prems(4) e by auto
  show ?case
  proof (cases b)
    case True
    then have "(\<exists>v' ys. rep q' v' ys \<and> length ys = n) \<and> tl_deqs l = late_ones v (length (tl_deqs l))"
      using Cons.prems e a enq_rep [OF Cons.prems(2), of a i] by (intro Cons.IH [OF _ _ _ one, of _ _ "xs @ [1]"]) (auto simp: tl_tags_def)
    then show ?thesis using e True by (simp add: tl_deqs_Cons)
  next
    case False
    obtain x ys where xs: "xs = x # ys" using Cons.prems(3) e False by (cases xs) (auto simp: tl_tags_def)
    then have x: "x = 1" "set ys \<subseteq> {1}" using Cons.prems(5) by auto
    have d: "fst (deq a i q) = v" "rep (snd (deq a i q)) 1 ys" using deq_front Cons.prems(2) xs x by auto
    have "(\<exists>v' zs. rep q' v' zs \<and> length zs = n) \<and> tl_deqs l = late_ones 1 (length (tl_deqs l))"
      using Cons.prems(1,3) e False xs x d by (intro Cons.IH [OF _ d(2) _ one]) (auto simp: tl_tags_def)
    moreover have "r = v" using Cons.prems(1) e False d by simp
    ultimately show ?thesis using e False late_ones_simps(2) [of v "length (tl_deqs l)"] by (simp add: tl_deqs_Cons)
  qed
qed

end

lemma tl_tags_turns: "tags t (tl_tags l) = map fst (map (\<lambda>(b, a, r). (b, a)) (tl_entries t l))"
  by (induction l) (auto simp: tags_def tl_tags_def tl_entries_def)

lemma tl_tags_takes: "length (filter (\<lambda>e. \<not> snd e) (tl_tags l)) = length (tl_deqs l)"
  by (induction l) (auto simp: tl_tags_def tl_deqs_def)

lemma tl_args: "(b, t, a, i, r) \<in> set l \<Longrightarrow> (b, a) \<in> set (map (\<lambda>(b, a, r). (b, a)) (tl_entries t l))"
  by (force simp: tl_entries_def)

definition late_bench_end :: "nat \<Rightarrow> nat \<Rightarrow> ('l, serialq) twolocks \<Rightarrow> bool" where
  "late_bench_end N RUNS s \<longleftrightarrow> (\<exists>v. sq_rep (tl_obj s) v []) \<and> tl_deqs (tl_log s) = late_ones INT_MIN (N * RUNS) \<and>
     (\<forall>t. tl_entries t (tl_log s) = tl_hist s t)"

lemma late_bench_endI:
  assumes legal: "tl_legal (\<lambda>b. if b then ccq_enqueue else ccq_dequeue) sq_init (tl_log s) (tl_obj s)"
    and hist: "\<And>t. tl_entries t (tl_log s) = tl_hist s t"
    and plan: "\<And>t. map (\<lambda>(b, a, r). (b, a)) (tl_entries t (tl_log s)) = map (\<lambda>i. (even i, 1)) [0..<(if t < N then 2 * R else 0)]"
  shows "late_bench_end N R s"
proof -
  have T: "tags t (tl_tags (tl_log s)) = map even [0..<(if t < N then 2 * R else 0)]" for t
    unfolding tl_tags_turns plan by simp
  have one: "\<forall>(b, t, a, i, r) \<in> set (tl_log s). a = 1"
  proof (clarify)
    fix b t a i r
    assume "(b, t, a, i, r) \<in> set (tl_log s)"
    from tl_args [OF this] show "a = 1" unfolding plan by auto
  qed
  have "level (tl_tags (tl_log s)) (length ([] :: i32 list)) = Some 0" using level_turns [where N = N, OF T] by simp
  from ccq.legal_level [OF legal sq_init_rep this one]
  have "(\<exists>v. sq_rep (tl_obj s) v []) \<and> tl_deqs (tl_log s) = late_ones INT_MIN (length (tl_deqs (tl_log s)))" by auto
  moreover have "length (tl_deqs (tl_log s)) = N * R" using takes_turns [where N = N, OF T] by (simp add: tl_tags_takes)
  ultimately show ?thesis using hist by (simp add: late_bench_end_def)
qed

lemma two_step_guard:
  "cc_fresh n x \<Longrightarrow> two_step (\<lambda>f e l obj. if cc_fresh n e then lstep f e l obj else None) caller lidle lhist op (b, x) s =
    two_step lstep caller lidle lhist op (b, x) s"
  by (simp add: Let_def)

lemma guarded_pair:
  assumes "\<And>t i. cc_fresh n (call t i)" and "\<And>t. cc_fresh n (run t)"
  shows "bench_step (under_lock (two_step lstep caller lidle lhist op) lidle run) oidle (\<lambda>t i. Inl (even i, call t i)) Inr N R =
    bench_step (under_lock (two_step (\<lambda>f e l obj. if cc_fresh n e then lstep f e l obj else None) caller lidle lhist op) lidle run) oidle
      (\<lambda>t i. Inl (even i, call t i)) Inr N R"
  by (rule bench_step_cong) (simp_all add: under_lock_def two_step_guard assms del: two_step.simps)

section \<open>What the programs take out\<close>

text \<open>One thread, one round.\<close>

lemma demo_queue_benches:
  "map_option (\<lambda>s. (b_main s, tl_hist (b_obj s) 0)) (mrun (ccq_bench (\<lambda>t i. 0) 1 1) (demo_objbench 31) (bench_init (ccqueue_init (\<lambda>b x. 0) (\<lambda>b x. 0)))) =
     Some (BmReturned, [(True, 1, -1), (False, 1, INT_MIN)])"
  "map_option (\<lambda>s. (b_main s, tl_hist (b_obj s) 0)) (mrun (hq_bench (\<lambda>t i. 0) 1 1) (demo_objbench 49) (bench_init (hqueue_init (\<lambda>b k x. 0) (\<lambda>b k x. 0)))) =
     Some (BmReturned, [(True, 1, -1), (False, 1, INT_MIN)])"
  "map_option (\<lambda>s. (b_main s, tl_hist (b_obj s) 0)) (mrun (dsmq_bench 1 1) (demo_objbench 23) (bench_init (dsmqueue_init (\<lambda>b. demo_queue_memory)))) =
     Some (BmReturned, [(True, 1, -1), (False, 1, INT_MIN)])"
  "map_option (\<lambda>s. (b_main s, lq_pc (b_obj s) 0)) (mrun (lq_bench 1 1) (demo_objbench 26) (bench_init lq_init)) = Some (BmReturned, LqDone 1)"
  "map_option (\<lambda>s. (b_main s, ls_pc (b_obj s) 0)) (mrun (ls_bench 1 1) (demo_objbench 26) (bench_init ls_init)) = Some (BmReturned, LsDone 0)"
  by code_simp+

text \<open>
  (C40) Under every interleaving, when \<open>main\<close> returns, what the \<open>N * RUNS\<close> takes of each program have answered, although
  all that was ever put is the value 1 and no take found the object empty, which it is in the end: in \<open>ccqueue.c\<close>,
  \<open>hqueue.c\<close> and \<open>dsmqueue.c\<close> \<open>INT_MIN\<close> to the first dequeue and 1 to all others, so that the value put last never comes
  out; in \<open>locksqueue.c\<close> 1 to all of them; in \<open>locksstack.c\<close> 1 or 0, and 0 to the last one. The programs whose locks use
  a loop counter need it to start below its bound.
\<close>

theorem queue_benches_takes:
  "(mrun (ccq_bench g N RUNS) es1 (bench_init (ccqueue_init g1 i1)) = Some s1 \<and> b_main s1 = BmReturned \<and>
      (\<forall>t i. g t i < CCSIM_HELP_BOUND N) \<longrightarrow> late_bench_end N RUNS (b_obj s1)) \<and>
   (mrun (hq_bench g N RUNS) es2 (bench_init (hqueue_init g2 i2)) = Some s2 \<and> b_main s2 = BmReturned \<and>
      (\<forall>t i. g t i < CCSIM_HELP_BOUND N) \<longrightarrow> late_bench_end N RUNS (b_obj s2)) \<and>
   (mrun (dsmq_bench N RUNS) es3 (bench_init (dsmqueue_init m)) = Some s3 \<and> b_main s3 = BmReturned \<longrightarrow> late_bench_end N RUNS (b_obj s3)) \<and>
   (mrun (lq_bench N RUNS) es4 (bench_init lq_init) = Some s4 \<and> b_main s4 = BmReturned \<longrightarrow>
      lq_content (b_obj s4) = [] \<and> q_takes (lq_log (b_obj s4)) = replicate (N * RUNS) (Got 1)) \<and>
   (mrun (ls_bench N RUNS) es5 (bench_init ls_init) = Some s5 \<and> b_main s5 = BmReturned \<longrightarrow>
      ls_content (b_obj s5) = [] \<and> length (s_takes (ls_log (b_obj s5))) = N * RUNS \<and> set (s_takes (ls_log (b_obj s5))) \<subseteq> {Pop 1, Pop 0} \<and>
      (0 < N * RUNS \<longrightarrow> last (s_takes (ls_log (b_obj s5))) = Pop 0))"
proof (intro conjI [of "_ \<longrightarrow> late_bench_end _ _ _"] conjI [of "_ \<longrightarrow> lq_content _ = [] \<and> _"] impI; elim conjE)
  assume run: "mrun (ccq_bench g N RUNS) es1 (bench_init (ccqueue_init g1 i1)) = Some s1" and ret: "b_main s1 = BmReturned"
    and "\<forall>t i. g t i < CCSIM_HELP_BOUND N"
  then have fresh: "cc_fresh N (CcCall t 1 (g t i))" "cc_fresh N (CcRun t)" for t i by simp_all
  note E = cc_calls.two_bench_end [OF _ _ _ run [unfolded ccq_bench_def ccqueue_step_def ccqueue_init_def guarded_pair [where lstep = "cc_on N", OF fresh]] ret]
  show "late_bench_end N RUNS (b_obj s1)"
    by (rule late_bench_endI; rule E) (use cc_init_inv [of "\<lambda>a i x. (a, x)" "CCSIM_HELP_BOUND N"] in \<open>auto simp: cc_inv_def cc_lock_init_def\<close>)
next
  assume run: "mrun (hq_bench g N RUNS) es2 (bench_init (hqueue_init g2 i2)) = Some s2" and ret: "b_main s2 = BmReturned"
    and "\<forall>t i. g t i < CCSIM_HELP_BOUND N"
  then have fresh: "cc_fresh N (CcCall t 1 (g t i))" "cc_fresh N (CcRun t)" for t i by simp_all
  note E = hs_calls.two_bench_end [OF _ _ _ run [unfolded hq_bench_def hqueue_step_def hqueue_init_def serial_queues_same guarded_pair [where lstep = "hs_on N", OF fresh]] ret]
  show "late_bench_end N RUNS (b_obj s2)"
    by (rule late_bench_endI; rule E) (use hs_init_core in \<open>auto simp: HSynchStructInit_def cc_lock_init_def\<close>)
next
  assume run: "mrun (dsmq_bench N RUNS) es3 (bench_init (dsmqueue_init m)) = Some s3" and ret: "b_main s3 = BmReturned"
  note E = ds_calls.two_bench_end [OF _ _ _ run [unfolded dsmq_bench_def dsmqueue_step_def dsmqueue_init_def serial_queues_same] ret]
  show "late_bench_end N RUNS (b_obj s3)"
    by (rule late_bench_endI; rule E) (use dsm_init_core in \<open>auto simp: dsm_lock_init_def\<close>)
qed (rule lq_bench_end ls_bench_end; assumption)+

theorem queue_benches_takes_witness:
  "\<exists>s1 s2 s3 s4 s5. mrun (ccq_bench (\<lambda>t i. 0) 1 1) (demo_objbench 31) (bench_init (ccqueue_init (\<lambda>b x. 0) (\<lambda>b x. 0))) = Some s1 \<and>
     mrun (hq_bench (\<lambda>t i. 0) 1 1) (demo_objbench 49) (bench_init (hqueue_init (\<lambda>b k x. 0) (\<lambda>b k x. 0))) = Some s2 \<and>
     mrun (dsmq_bench 1 1) (demo_objbench 23) (bench_init (dsmqueue_init (\<lambda>b. demo_queue_memory))) = Some s3 \<and>
     mrun (lq_bench 1 1) (demo_objbench 26) (bench_init lq_init) = Some s4 \<and> mrun (ls_bench 1 1) (demo_objbench 26) (bench_init ls_init) = Some s5 \<and>
     tl_deqs (tl_log (b_obj s1)) = [INT_MIN] \<and> tl_deqs (tl_log (b_obj s2)) = [INT_MIN] \<and> tl_deqs (tl_log (b_obj s3)) = [INT_MIN] \<and>
     q_takes (lq_log (b_obj s4)) = [Got 1] \<and> last (s_takes (ls_log (b_obj s5))) = Pop 0"
proof -
  obtain s1 s2 s3 s4 s5 where s:
    "mrun (ccq_bench (\<lambda>t i. 0) 1 1) (demo_objbench 31) (bench_init (ccqueue_init (\<lambda>b x. 0) (\<lambda>b x. 0))) = Some s1" "b_main s1 = BmReturned"
    "mrun (hq_bench (\<lambda>t i. 0) 1 1) (demo_objbench 49) (bench_init (hqueue_init (\<lambda>b k x. 0) (\<lambda>b k x. 0))) = Some s2" "b_main s2 = BmReturned"
    "mrun (dsmq_bench 1 1) (demo_objbench 23) (bench_init (dsmqueue_init (\<lambda>b. demo_queue_memory))) = Some s3" "b_main s3 = BmReturned"
    "mrun (lq_bench 1 1) (demo_objbench 26) (bench_init lq_init) = Some s4" "b_main s4 = BmReturned"
    "mrun (ls_bench 1 1) (demo_objbench 26) (bench_init ls_init) = Some s5" "b_main s5 = BmReturned"
    using demo_queue_benches by auto
  have "late_bench_end 1 1 (b_obj s1) \<and> late_bench_end 1 1 (b_obj s2) \<and> late_bench_end 1 1 (b_obj s3) \<and>
      q_takes (lq_log (b_obj s4)) = replicate (1 * 1) (Got 1) \<and> last (s_takes (ls_log (b_obj s5))) = Pop 0"
    using queue_benches_takes [of "\<lambda>t i. 0" 1 1 "demo_objbench 31" "\<lambda>b x. 0" "\<lambda>b x. 0" s1 "demo_objbench 49" "\<lambda>b k x. 0" "\<lambda>b k x. 0" s2
      "demo_objbench 23" "\<lambda>b. demo_queue_memory" s3 "demo_objbench 26" s4 "demo_objbench 26" s5] s
    by (simp add: CCSIM_HELP_BOUND_def)
  then show ?thesis using s by (simp add: late_bench_end_def late_ones_def)
qed

end
