(* ===== verification/Spec2Isabelle.thy ===== *)
theory Spec2Isabelle
  imports LCRQServer LCRQTickets ServerMain Monitor Futex MSServer
    ToggleVector PoolRand LFStack Clh YieldServer SimObject SimStack SimQueue CcSynch Serial LocksQueue LocksStack Oyama QueueServers Benchmarks Learn HSynch DsmSynch StackLocks CombiningQueues ObjectBenches CombiningBenches MonitorServers QueueBenches
begin

text \<open>
  A verification library for \<open>dont-wait-for-me\<close>: small HTTP servers that hand accepted connections to worker
  threads through different queues (\<open>src/lcrq-server\<close>), and the library \<open>synch1.0.1\<close> of concurrent objects
  that two of the queues come from.

  \<^bold>\<open>The program.\<close> Every server has one main thread, which accepts connections and calls \<open>queue_put\<close>, and
  \<open>NTHREADS\<close> workers, which call \<open>queue_get\<close> and then \<open>handleConnection\<close>. The servers differ in the queue:
  a linked list under a mutex and a condition variable (\<open>http-server.c\<close>); the same with a futex for the
  condition variable (\<open>http-server-futex.c\<close>, \<open>libwait.c\<close>); the lock-free Michael-Scott queue
  (\<open>ms-queue-http-server.c\<close>) and LCRQ (\<open>lcrq.c\<close> with \<open>lcrq-server.c\<close>), both under a layer that counts the
  queued sockets in the futex word; and LCRQ polled without sleeping (\<open>lcrq-yield.c\<close>).
  \<open>synch1.0.1\<close> holds benchmarks of concurrent objects: combining locks, wait-free objects, lock-free and
  lock-based queues, stacks and words.

  \<^bold>\<open>How the code is modelled.\<close> A concurrent component is a record of its shared memory, of the program point
  and local variables of every thread, and a function \<open>step event state\<close> that is one access to shared memory
  (or one system call) of one thread, \<open>None\<close> where that is not possible. A run is a list of events
  (\<open>mrun\<close> in \<open>Prelude\<close>), so that a theorem about all runs is one about all interleavings of any number of
  threads. Sequential code is a function; null pointers are \<open>None\<close>, failing calls and \<open>die\<close> values of a sum
  or result type, C integers words of their width where they wrap. The operating system (what \<open>send\<close>,
  \<open>fopen\<close>, \<open>accept\<close>, \<open>getenv\<close> return, whom a futex wakes) is an argument, chosen freely by the theorems.

  \<^bold>\<open>Shared theories.\<close>
  \<^item> \<open>Prelude\<close>: runs; the locale \<open>machine\<close> (an invariant kept by each step holds after each run); the
    sequential FIFO queue \<open>fifo_step\<close> and \<open>lin_machine\<close>, refinement to it.
  \<^item> \<open>Linearize\<close>: the same refinement with the specification a parameter (\<open>lin_spec\<close>), and the stack.
  \<^item> \<open>Fifo\<close>: the contract of a sequential queue as the locale \<open>fifo\<close>.

  \<^bold>\<open>The servers.\<close>
  \<^item> \<open>BlockingQueue\<close>: \<open>queue_init\<close>, the list operations of \<open>queue_put\<close> and \<open>queue_get\<close> and \<open>queue_destroy\<close> of
    \<open>http-server.c\<close> on an explicit heap; it meets \<open>fifo\<close>.
  \<^item> \<open>Monitor\<close>: \<open>queue_put\<close> and \<open>queue_get\<close> as program points with mutex, condition variable and spurious
    wake-ups: FIFO, no lost wake-up, no deadlock.
  \<^item> \<open>Futex\<close>: \<open>libwait.c\<close> and the queue of \<open>http-server-futex.c\<close>: FIFO, and the wake-up it loses.
  \<^item> \<open>WaitQueue\<close>: the counting layer of \<open>ms-queue-http-server.c\<close> and \<open>lcrq.c\<close> over any queue that meets
    the locale \<open>inner_queue\<close> (\<open>inner_fifo\<close> for a FIFO one): the counter is exact, and no socket is stranded
    when all sleep.
  \<^item> \<open>MSQueue\<close>: \<open>enqueue\<close> and \<open>dequeue\<close> of \<open>ms-queue-http-server.c\<close>: FIFO, memory-safe, termination of a thread
    that runs alone, honest empty answers. \<open>MSServer\<close>: the layer on it.
  \<^item> \<open>LCRQ\<close>: \<open>lcrq.c\<close>, rings of cells changed by a double-width compare-and-swap, and its list of rings;
    \<open>LCRQTickets\<close>: no ticket is used twice and a dequeue takes what was enqueued under its ticket;
    \<open>LCRQServer\<close>: the layer on it.
  \<^item> \<open>YieldServer\<close>: \<open>lcrq-yield.c\<close>, whose ring code is shown equal to that of \<open>lcrq.c\<close>, with the polling
    \<open>queue_get\<close>.
  \<^item> \<open>CString\<close>: the string functions the servers use (\<open>fgets\<close>, \<open>strtok_r\<close>, \<open>strstr\<close>, decimal printing).
    \<open>Http\<close>: \<open>handleConnection\<close>, \<open>handleFileRequest\<close> and the status lines: the path stays below the web
    root, the response is the specified one, the buffers fit, and what goes wrong.
  \<^item> \<open>ServerMain\<close>: \<open>main\<close>, \<open>mainLoop\<close>, \<open>threadMain\<close> of \<open>http-server.c\<close>, start-up to shutdown: all accepted
    connections are served before it returns.
  \<^item> \<open>MonitorServers\<close>: the whole programs \<open>http-server.c\<close> and \<open>http-server-futex.c\<close> with every program point of their
    queues, over the locale \<open>monitor_queue\<close>; both refine the program of \<open>ServerMain\<close>, and only the first is sure to
    finish its shutdown.
  \<^item> \<open>QueueServers\<close>: the whole programs \<open>lcrq-server.c\<close> and \<open>ms-queue-http-server.c\<close>, from \<open>main\<close> down to the
    single access of the queue: no connection is lost or doubled, and what \<open>SIGINT\<close> drops.

  \<^bold>\<open>The library \<open>synch1.0.1\<close>.\<close>
  \<^item> \<open>Primitives\<close> (\<open>primitives.h\<close>): bit searches, and the loops that emulate \<open>SWAP\<close> and fetch-and-add.
    \<open>ToggleVector\<close> (\<open>tvec.h\<close>, \<open>activeset.c\<close>): bit vectors as sets. \<open>PoolRand\<close> (\<open>pool.h\<close>, \<open>backoff.h\<close>,
    \<open>rand.h\<close>).
  \<^item> \<open>LFStack\<close> (\<open>lfstack.c\<close>): the lock-free stack. \<open>Clh\<close> (\<open>clh.h\<close>): the CLH lock, and the locale \<open>lock_impl\<close> of
    what its clients rely on. \<open>LocksQueue\<close>, \<open>LocksStack\<close> (\<open>locksqueue.c\<close>, \<open>locksstack.c\<close>): its clients, with
    the steps of the lock interleaved with theirs.
  \<^item> \<open>Sim\<close>, \<open>SimObject\<close> (\<open>sim.c\<close>), \<open>SimStack\<close> (\<open>simstack.c\<close>), \<open>SimQueue\<close> (\<open>simqueue.c\<close>): wait-free objects.
  \<^item> \<open>CcSynch\<close> (\<open>ccsynch.h\<close>) and \<open>Oyama\<close> (\<open>oyama.h\<close>, \<open>oyamauobject.c\<close>): combining locks over any sequential
    function. \<open>Serial\<close>: the sequential objects run under combining locks (\<open>ccqueue.c\<close>, \<open>hqueue.c\<close>,
    \<open>dsmqueue.c\<close>, \<open>ccstack.h\<close>, \<open>hstack.c\<close>, \<open>dsmstack.c\<close>, \<open>ccuobject.c\<close>, \<open>huobject.c\<close>, \<open>dsmuobject.c\<close>), with their
    contracts as the locales \<open>late_queue\<close> and \<open>serial_stack\<close>.
  \<^item> \<open>HSynch\<close> (\<open>hsynch.h\<close>) and \<open>DsmSynch\<close> (\<open>dsmsynch.h\<close>): two more combining locks, with the same results as
    \<open>CcSynch\<close>: linearizable, one combiner at a time, no deadlock.
  \<^item> \<open>StackLocks\<close>: the concurrent stacks of \<open>dsmstack.c\<close>, \<open>hstack.c\<close> and \<open>ccstack.h\<close>, that a
    combiner applies the function of its own call to all operations it helps, and the runs in which that and a lost push
    happen. \<open>CombiningQueues\<close>: the queues of \<open>ccqueue.c\<close>, \<open>hqueue.c\<close> and
    \<open>dsmqueue.c\<close> with two locks on one list; the contract of a combining lock is the locale \<open>combining_lock\<close>.
  \<^item> \<open>Counters\<close>: the counting objects of \<open>lfobject.c\<close> and \<open>locksuobject.c\<close>. \<open>Benchmarks\<close>: threads, barrier, loop and
    \<open>main\<close> of the programs \<open>lfobject.c\<close>, \<open>locksuobject.c\<close> and \<open>oyamauobject.c\<close>, over any object that meets the locale
    \<open>counted_object\<close>. \<open>CombiningBenches\<close>: the programs \<open>ccuobject.c\<close>, \<open>huobject.c\<close>, \<open>dsmuobject.c\<close> (locale
    \<open>combining_calls\<close>, which gives a \<open>counted_object\<close>). \<open>ObjectBenches\<close>: the programs \<open>msqueue.c\<close> and \<open>lfstack.c\<close> (locale
    \<open>balanced_object\<close>). \<open>QueueBenches\<close>: the programs \<open>ccqueue.c\<close>, \<open>hqueue.c\<close>, \<open>dsmqueue.c\<close>, \<open>locksqueue.c\<close> and
    \<open>locksstack.c\<close> (locale \<open>planned_object\<close>). What the objects hold, and what was taken out, when \<open>main\<close> returns.

  \<^bold>\<open>The exercises in \<open>learn\<close>.\<close>
  \<^item> \<open>Learn\<close>: the counter of \<open>learncas.c\<close>, and the lock-free queue of \<open>learnqueue.c\<close> with its test \<open>test_queue.c\<close>.

  \<^bold>\<open>How the proofs are built.\<close> Each concurrent component has an invariant, one lemma per kind of step that it
  is kept, and an interpretation of \<open>machine\<close> or of one of its extensions; its properties read the
  invariant off a reachable state. Fields named \<open>log\<close>, \<open>hist\<close> or \<open>owner\<close> (and \<open>qs_put\<close>, \<open>qs_served\<close>,
  \<open>qs_failed\<close>) record what happened and are read by no step; an operation is recorded with the argument of its
  call, kept in \<open>k_arg\<close>, \<open>lq_arg\<close> and \<open>ls_arg\<close> where the code has it in a node only. Where a list in memory is walked to state its
  content (\<open>ms_content\<close>, \<open>lq_content\<close>, \<open>ls_content\<close>), the fuel is the number of nodes ever allocated, which
  the invariant shows to be enough. Bounds in the termination theorems are stated in the theorems.

  \<^bold>\<open>Assumptions.\<close> Memory is sequentially consistent, and each aligned access and each atomic instruction is
  one step. A back-off or \<open>sched_yield\<close> is no step. Stores to memory no other thread can reach yet are made
  together with the step before or after them. \<open>getMemory\<close> ends the process when memory runs out, and
  \<open>malloc\<close> and \<open>pthread_create\<close> of \<open>main\<close> succeed. The result of \<open>atoi\<close> is an \<open>int\<close>; for a number that
  does not fit, where C leaves it open, it is an argument. A call of \<open>handleConnection\<close> is one step and always
  ends: a client that neither sends nor closes its connection blocks \<open>fgets\<close>, the worker, and \<open>pthread_join\<close> in the
  shutdown, and is not modelled. In \<open>sim.c\<close>, \<open>simstack.c\<close> and \<open>simqueue.c\<close> the copy of the object state is one step,
  which the code checks by reading \<open>sp\<close> again, and the index of a pool slot fits its 16 bits; the copy in
  \<open>connectQueue\<close>, which is not checked, reads its two words in two steps. The nodes of \<open>simqueue.c\<close> and
  \<open>simstack.c\<close> come in the blocks of \<open>pool.h\<close>, and \<open>rollback\<close> stops at the start of a block. The nodes of a CLH
  lock that \<open>clhLockInit\<close> leaves uninitialised hold \<open>false\<close>; they are written before they are read. Under the combining locks \<open>sfunc\<close> is one step,
  which the theorem that there is one combiner at a time justifies. In the queues with two locks an
  enqueue and a dequeue share only the \<open>next\<close> pointer of one node, which is written once. The
  variable \<open>counter\<close> of \<open>ccsynch.h\<close>, \<open>hsynch.h\<close> and \<open>ccstack.h\<close>, which the code does not initialise,
  is an input of each call. The builds with \<open>DEBUG\<close>, \<open>POSIX_LOCKS\<close>,
  \<open>HAVE_HPTRS\<close>, \<open>RING_STATS\<close> and \<open>YIELD_COUNT\<close> and the variants for Sparc and Solaris are left out, but for
  the bit search of the former and the loops \<open>msqueue.c\<close> and \<open>lfstack.c\<close> count their nodes with.

  \<^bold>\<open>Not modelled.\<close> The programs around \<open>sim.c\<close>, \<open>simqueue.c\<close>, \<open>simstack.c\<close> and the stacks \<open>ccstack.c\<close>, \<open>hstack.c\<close> and
  \<open>dsmstack.c\<close>, which repeat the loops and the \<open>main\<close> of the programs that are modelled; the delays, CPU pinning and
  statistics of all of them (\<open>thread.h\<close>, \<open>stats.h\<close>, \<open>system.h\<close>), which have no logic of the program. The HTTP code of
  \<open>http-server-futex.c\<close>, \<open>ms-queue-http-server.c\<close> and \<open>lcrq-server.c\<close>, the start-up of \<open>http-server-futex.c\<close> and the rings in
  \<open>lcrq-server.c\<close> are the text of \<open>http-server.c\<close> and \<open>lcrq.c\<close> and are modelled once.
\<close>

end
